(* ===== verification/Prelude.thy ===== *)
theory Prelude
  imports Main "HOL-Library.Word"
begin

text \<open>
  What every component of the development shares: the machine types of the
  source, the result type of an operation that may fault, raw memory cells,
  the arithmetic of positions that are masked into a power-of-two buffer, and
  the collections of facts the component theories feed.
\<close>

unbundle bit_operations_syntax

section \<open>Machine types\<close>

text \<open>
  Rust's \<open>usize\<close> on a 64-bit target. Plain \<open>+\<close> and \<open>-\<close> on it wrap, as they do in
  a release build; so do \<open>wrapping_sub\<close> and \<open>wrapping_add\<close>.
\<close>

type_synonym usize = "64 word"
type_synonym u32 = "32 word"
type_synonym u64 = "64 word"

text \<open>A thread, as \<open>std::thread::current\<close> identifies it.\<close>

type_synonym thread_id = nat

section \<open>Facts collected for the automation\<close>

named_theorems ring_defs
  \<open>definitions of straight-line operations, unfolded together\<close>
named_theorems position_simps
  \<open>rewriting of slot indices of masked positions\<close>

section \<open>Operations that may fault\<close>

text \<open>
  A panic, or a use of memory that \<open>unsafe\<close> code promises not to make. An
  operation returns \<open>Inl\<close> of the fault or \<open>Inr\<close> of its result; the safety
  properties say that \<open>Inl\<close> is never returned.
\<close>

datatype fault =
    Uninitialized_Read     \<comment> \<open>\<open>assume_init_read\<close> of a cell that holds no value\<close>
  | Index_Out_Of_Bounds    \<comment> \<open>an index past the buffer's end\<close>
  | Assertion_Failed       \<comment> \<open>a failed \<open>assert!\<close> or \<open>panic!\<close>\<close>

type_synonym 'x exec = "fault + 'x"

definition seq_exec :: "'x exec \<Rightarrow> ('x \<Rightarrow> 'y exec) \<Rightarrow> 'y exec" where
  "seq_exec m k = (case m of Inl e \<Rightarrow> Inl e | Inr x \<Rightarrow> k x)"

lemma seq_exec_simps [simp]:
  "seq_exec (Inl e) k = Inl e"
  "seq_exec (Inr x) k = k x"
  by (simp_all add: seq_exec_def)

lemma seq_exec_eq_Inr:
  "seq_exec m k = Inr y \<longleftrightarrow> (\<exists>x. m = Inr x \<and> k x = Inr y)"
  by (cases m) auto

lemma seq_exec_cong [fundef_cong]:
  assumes "m = m'" and "\<And>x. m' = Inr x \<Longrightarrow> k x = k' x"
  shows "seq_exec m k = seq_exec m' k'"
  using assms by (cases m') auto

section \<open>Raw memory cells\<close>

text \<open>
  \<open>MaybeUninit<T>\<close>: \<open>Some v\<close> once a value has been written, \<open>None\<close> before that and
  after the value has been moved out or dropped in place. Reading or dropping
  a cell that holds no value is undefined behaviour in the source and
  \<^const>\<open>Uninitialized_Read\<close> here, so that a double read or a double drop shows.
\<close>

type_synonym 'a maybe_uninit = "'a option"

definition cell_write :: "'a maybe_uninit list \<Rightarrow> nat \<Rightarrow> 'a \<Rightarrow> 'a maybe_uninit list exec" where
  "cell_write cells i v =
     (if i < length cells then Inr (cells[i := Some v]) else Inl Index_Out_Of_Bounds)"

definition cell_peek :: "'a maybe_uninit list \<Rightarrow> nat \<Rightarrow> 'a exec" where
  "cell_peek cells i =
     (if i < length cells
      then (case cells ! i of None \<Rightarrow> Inl Uninitialized_Read | Some v \<Rightarrow> Inr v)
      else Inl Index_Out_Of_Bounds)"

definition cell_take :: "'a maybe_uninit list \<Rightarrow> nat \<Rightarrow> ('a \<times> 'a maybe_uninit list) exec" where
  "cell_take cells i = seq_exec (cell_peek cells i) (\<lambda>v. Inr (v, cells[i := None]))"

lemma cell_write_Inr [simp]:
  "i < length cells \<Longrightarrow> cell_write cells i v = Inr (cells[i := Some v])"
  by (simp add: cell_write_def)

lemma cell_peek_Inr [simp]:
  "i < length cells \<Longrightarrow> cells ! i = Some v \<Longrightarrow> cell_peek cells i = Inr v"
  by (simp add: cell_peek_def)

lemma cell_take_Inr [simp]:
  "i < length cells \<Longrightarrow> cells ! i = Some v \<Longrightarrow> cell_take cells i = Inr (v, cells[i := None])"
  by (simp add: cell_take_def)

lemma cell_take_eq_Inr:
  "cell_take cells i = Inr (v, cells') \<longleftrightarrow>
     i < length cells \<and> cells ! i = Some v \<and> cells' = cells[i := None]"
  by (auto simp: cell_take_def cell_peek_def seq_exec_eq_Inr split: if_splits option.splits)

section \<open>The outcome of a push and of user code\<close>

text \<open>\<open>Result<(), T>\<close> of the pushing operations: the value comes back when it was refused.\<close>

datatype 'a push_result = Push_Ok | Push_Err 'a

text \<open>
  A call of user code (a drain callback, \<open>T::drop\<close>, \<open>T::clone\<close>) either returns or
  panics; a panic unwinds through the guards on the stack.
\<close>

datatype completion = Returned | Panicked

text \<open>The limit of a drain: \<open>drain\<close> has none, \<open>drain_up_to\<close> counts delivered values.\<close>

definition below_limit :: "usize \<Rightarrow> usize option \<Rightarrow> bool" where
  "below_limit count limit = (case limit of None \<Rightarrow> True | Some l \<Rightarrow> count < l)"

section \<open>Loops that race for a shared word\<close>

text \<open>
  A claim is a loop of several shared accesses around a weak compare-and-exchange, so it
  runs against what the other handles do meanwhile. \<open>Race f g weak\<close> says what happens in
  one turn: \<open>f\<close> after its first load and \<open>g\<close> before its exchange, and whether the exchange
  fails without cause. After the last race nobody interferes.
\<close>

datatype 's race = Race "'s \<Rightarrow> 's" "'s \<Rightarrow> 's" bool

fun next_race :: "'s race list \<Rightarrow> ('s \<Rightarrow> 's) \<times> ('s \<Rightarrow> 's) \<times> bool \<times> 's race list" where
  "next_race [] = (\<lambda>s. s, \<lambda>s. s, False, [])"
| "next_race (Race f g weak # races) = (f, g, weak, races)"

section \<open>Words as numbers\<close>

lemma unat_add_of_nat:
  fixes p :: "'l::len word"
  shows "unat (p + of_nat n) = (unat p + n) mod 2 ^ LENGTH('l)"
  by (simp add: unat_word_ariths unat_of_nat mod_add_right_eq)

lemma unat_of_nat_usize: "n < 2 ^ 64 \<Longrightarrow> unat (of_nat n :: usize) = n"
  by (simp add: unat_of_nat take_bit_nat_eq_self)

lemma of_nat_usize_simps:
  assumes "m < 2 ^ 64" and "n < 2 ^ 64"
  shows "(of_nat m :: usize) = of_nat n \<longleftrightarrow> m = n"
    and "(of_nat m :: usize) < of_nat n \<longleftrightarrow> m < n"
    and "(of_nat m :: usize) \<le> of_nat n \<longleftrightarrow> m \<le> n"
  using unat_of_nat_usize [OF assms(1)] unat_of_nat_usize [OF assms(2)]
  by (simp_all only: word_unat_eq_iff word_less_nat_alt word_le_nat_alt)

lemma unat_Suc_of_less:
  fixes w n :: "'l::len word"
  assumes "w < n"
  shows "unat (w + 1) = Suc (unat w)"
proof -
  have "unat w + 1 < 2 ^ LENGTH('l)"
    using assms unsigned_less [where ?'a = nat and w = n] unfolding word_less_nat_alt by linarith
  then show ?thesis using unat_add_of_nat [of w 1] by simp
qed

lemma unat_sub_of_nats:
  fixes a b :: nat
  assumes "b \<le> a" and "a - b < 2 ^ LENGTH('l::len)"
  shows "unat (of_nat a - of_nat b :: 'l word) = a - b"
proof -
  have "(of_nat a - of_nat b :: 'l word) = of_nat (a - b)"
    using assms(1) by (simp add: of_nat_diff)
  then show ?thesis using assms(2) by (simp add: unat_of_nat take_bit_nat_eq_self)
qed

lemma mod_eq_imp_eq_of_close:
  fixes i j n :: nat
  assumes "i mod n = j mod n" and "i \<le> j" and "j - i < n"
  shows "i = j"
proof -
  have "n dvd j - i" using assms(1,2) by (metis mod_eq_dvd_iff_nat)
  then have "j - i = 0" using assms(3) by (metis dvd_imp_le not_le zero_less_iff_neq_zero)
  then show ?thesis using assms(2) by simp
qed

lemma mod_inj_window:
  fixes i j lo n :: nat
  assumes "i mod n = j mod n" and "lo \<le> i" "i < lo + n" "lo \<le> j" "j < lo + n"
  shows "i = j"
proof (cases "i \<le> j")
  case True
  have "j - i < n" using assms(2-5) by arith
  with assms(1) True show ?thesis by (rule mod_eq_imp_eq_of_close)
next
  case False
  have "i - j < n" using assms(2-5) by arith
  with assms(1) False have "j = i" by (intro mod_eq_imp_eq_of_close [of j n i]) simp_all
  then show ?thesis by simp
qed

lemma sum_list_exchange:
  fixes f :: "'x \<Rightarrow> 'm::comm_monoid_add"
  assumes "k < length xs"
  shows "(\<Sum>x \<leftarrow> xs[k := y]. f x) + f (xs ! k) = (\<Sum>x \<leftarrow> xs. f x) + f y"
proof -
  have "(\<Sum>x \<leftarrow> xs. f x) = (\<Sum>x \<leftarrow> take k xs @ xs ! k # drop (Suc k) xs. f x)"
    by (simp only: id_take_nth_drop [OF assms, symmetric])
  then show ?thesis using assms by (simp add: upd_conv_take_nth_drop ac_simps)
qed

section \<open>What peers do meanwhile\<close>

text \<open>
  A call of several shared accesses runs against what its peers do between them: one
  function for each access, as long as there are any.
\<close>

type_synonym 's meddling = "('s \<Rightarrow> 's) list"

fun meddle :: "'s meddling \<Rightarrow> 's \<Rightarrow> 's \<times> 's meddling" where
  "meddle [] s = (s, [])"
| "meddle (f # fs) s = (f s, fs)"

end
