(* ===== verification/Capacity.thy ===== *)
theory Capacity
  imports Prelude
begin

text \<open>
  \<open>src/capacity.rs\<close>: the power-of-two capacity, its two constructors, and the
  masking of positions into slot indices. Also \<open>src/common/aligned_buf.rs\<close>: the
  buffer is a list, and its constructor runs the initialiser once per element.
\<close>

section \<open>Integer operations of the standard library\<close>

definition count_ones :: "'l::len word \<Rightarrow> nat" where
  "count_ones w = length (filter (bit w) [0..<LENGTH('l)])"

definition is_power_of_two :: "'l::len word \<Rightarrow> bool" where
  "is_power_of_two w \<longleftrightarrow> count_ones w = 1"

text \<open>
  \<open>usize::next_power_of_two\<close>, as documented: the least power of two that is not
  below the argument, and 0 when that does not fit (a debug build panics there).
\<close>

definition next_power_of_two :: "usize \<Rightarrow> usize" where
  "next_power_of_two w =
     (case find (\<lambda>k. unat w \<le> 2 ^ k) [0..<64] of Some k \<Rightarrow> 2 ^ k | None \<Rightarrow> 0)"

section \<open>The capacity\<close>

record capacity =
  cap :: usize
  mask :: usize

definition capacity_exact :: "usize \<Rightarrow> capacity exec" where
  "capacity_exact c =
     (if c > 0 \<and> is_power_of_two c then Inr \<lparr>cap = c, mask = c - 1\<rparr>
      else Inl Assertion_Failed)"

definition capacity_at_least :: "usize \<Rightarrow> capacity exec" where
  "capacity_at_least m =
     (if m > 0 then (let c = next_power_of_two m in Inr \<lparr>cap = c, mask = c - 1\<rparr>)
      else Inl Assertion_Failed)"

definition capacity_get :: "capacity \<Rightarrow> usize" where
  "capacity_get c = cap c"

definition index_of :: "capacity \<Rightarrow> usize \<Rightarrow> usize" where
  "index_of c pos = pos AND mask c"

definition capacity_wrap :: "capacity \<Rightarrow> usize \<Rightarrow> usize" where
  "capacity_wrap c delta = delta AND mask c"

section \<open>The backing allocation\<close>

text \<open>
  \<open>AlignedBuf::new_with\<close>. The initialiser is \<open>FnMut\<close>; the rings' closures count
  their calls, so it is a function of the call number. Allocation itself cannot
  be observed and an allocation failure aborts the process.
\<close>

definition aligned_buf_new_with :: "usize \<Rightarrow> (usize \<Rightarrow> 'x) \<Rightarrow> 'x list exec" where
  "aligned_buf_new_with len init =
     (if len > 0 then Inr (map (\<lambda>i. init (of_nat i)) [0..<unat len])
      else Inl Assertion_Failed)"

section \<open>Well-formed capacities\<close>

definition wf_capacity :: "capacity \<Rightarrow> bool" where
  "wf_capacity c \<longleftrightarrow> is_power_of_two (cap c) \<and> mask c = cap c - 1"

abbreviation slots :: "capacity \<Rightarrow> nat" where
  "slots c \<equiv> unat (cap c)"

abbreviation slot_of :: "capacity \<Rightarrow> usize \<Rightarrow> nat" where
  "slot_of c pos \<equiv> unat (index_of c pos)"

lemma filter_eq_upt: "k < n \<Longrightarrow> filter (\<lambda>i. i = k) [0..<n] = [k]"
  by (induction n) (auto simp: less_Suc_eq filter_empty_conv)

lemma unat_exp_64:
  assumes "k < 64"
  shows "unat (2 ^ k :: usize) = 2 ^ k"
proof -
  have "(2 ^ k :: usize) = of_nat (2 ^ k)" by simp
  moreover have "(2::nat) ^ k < 2 ^ 64" by (rule power_strict_increasing [OF assms]) simp
  ultimately show ?thesis by (simp add: unat_of_nat take_bit_nat_eq_self del: of_nat_power)
qed

lemma is_power_of_two_exp:
  fixes w :: "'l::len word"
  shows "is_power_of_two w \<longleftrightarrow> (\<exists>k < LENGTH('l). w = 2 ^ k)"
proof
  assume "is_power_of_two w"
  then have one: "length (filter (bit w) [0..<LENGTH('l)]) = 1"
    by (simp add: is_power_of_two_def count_ones_def)
  then obtain k where k: "filter (bit w) [0..<LENGTH('l)] = [k]"
    by (auto simp: length_Suc_conv)
  then have "set (filter (bit w) [0..<LENGTH('l)]) = {k}" by simp
  then have bits: "\<And>n. n < LENGTH('l) \<Longrightarrow> bit w n \<longleftrightarrow> n = k" and lt: "k < LENGTH('l)"
    by auto
  have "w = 2 ^ k"
    by (rule bit_word_eqI) (use bits lt in \<open>auto simp: bit_simps\<close>)
  with lt show "\<exists>k < LENGTH('l). w = 2 ^ k" by blast
next
  assume "\<exists>k < LENGTH('l). w = 2 ^ k"
  then obtain k where k: "k < LENGTH('l)" and w: "w = 2 ^ k" by blast
  have "filter (bit w) [0..<LENGTH('l)] = filter (\<lambda>n. n = k) [0..<LENGTH('l)]"
    by (rule filter_cong) (auto simp: w bit_simps k)
  also have "\<dots> = [k]" by (rule filter_eq_upt [OF k])
  finally show "is_power_of_two w"
    by (simp add: is_power_of_two_def count_ones_def)
qed

lemma wf_capacity_exp:
  assumes "wf_capacity c"
  obtains k where "k < 64" and "cap c = 2 ^ k" and "slots c = 2 ^ k" and "mask c = Bit_Operations.mask k"
proof -
  obtain k where k: "k < 64" "cap c = 2 ^ k" and m: "mask c = cap c - 1"
    using assms by (auto simp: wf_capacity_def is_power_of_two_exp)
  have "slots c = 2 ^ k" using k by (simp add: unat_exp_64)
  with k m that show ?thesis by (simp add: mask_eq_exp_minus_1)
qed

lemma slots_pos: "wf_capacity c \<Longrightarrow> 0 < slots c"
  by (erule wf_capacity_exp) simp

lemma slots_dvd: "wf_capacity c \<Longrightarrow> slots c dvd 2 ^ 64"
proof (erule wf_capacity_exp)
  fix k assume "k < 64" and "slots c = 2 ^ k"
  moreover from \<open>k < 64\<close> have "(2::nat) ^ k dvd 2 ^ 64"
    by (intro le_imp_power_dvd) simp
  ultimately show ?thesis by metis
qed

lemma slot_of_mod [position_simps]:
  assumes "wf_capacity c"
  shows "slot_of c pos = unat pos mod slots c"
  using assms
proof (rule wf_capacity_exp)
  fix k assume k: "slots c = 2 ^ k" "mask c = Bit_Operations.mask k"
  have "index_of c pos = take_bit k pos"
    by (simp add: index_of_def k(2) take_bit_eq_mask)
  then have "slot_of c pos = take_bit k (unat pos)" by (simp only: unsigned_take_bit_eq)
  then show ?thesis by (simp add: take_bit_eq_mod k(1))
qed

lemma slot_of_lt: "wf_capacity c \<Longrightarrow> slot_of c pos < slots c"
  by (simp add: slot_of_mod slots_pos)

lemma slot_of_add:
  assumes "wf_capacity c"
  shows "slot_of c (pos + of_nat n) = (unat pos + n) mod slots c"
  using assms slots_dvd [OF assms]
  by (simp add: slot_of_mod unat_add_of_nat mod_mod_cancel)

lemma slot_of_of_nat:
  assumes "wf_capacity c"
  shows "slot_of c (of_nat n) = n mod slots c"
  using slot_of_add [OF assms, of 0 n] by simp

lemma slot_of_lap:
  assumes "wf_capacity c"
  shows "slot_of c (pos + cap c) = slot_of c pos"
  using slot_of_add [OF assms, of pos "slots c"] slot_of_mod [OF assms, of pos] by simp

section \<open>The slots of a run of positions\<close>

text \<open>
  \<open>window c h n\<close> lists the slot indices of the positions \<open>h, h + 1, \<dots>, h + n - 1\<close>.
  Within one lap they are distinct, which is what lets a ring's contents be a list.
\<close>

definition window :: "capacity \<Rightarrow> usize \<Rightarrow> nat \<Rightarrow> nat list" where
  "window c h n = map (\<lambda>i. slot_of c (h + of_nat i)) [0..<n]"

lemma length_window [simp]: "length (window c h n) = n"
  by (simp add: window_def)

lemma window_0 [simp]: "window c h 0 = []"
  by (simp add: window_def)

lemma window_snoc: "window c h (Suc n) = window c h n @ [slot_of c (h + of_nat n)]"
  by (simp add: window_def)

lemma window_Cons: "window c h (Suc n) = slot_of c h # window c (h + 1) n"
proof -
  have "map (\<lambda>i. slot_of c (h + of_nat i)) [Suc 0..<Suc n]
      = map (\<lambda>i. slot_of c (h + of_nat (Suc i))) [0..<n]"
    by (simp add: map_Suc_upt [symmetric] del: upt_Suc)
  then show ?thesis
    by (simp add: window_def upt_conv_Cons add.assoc del: upt_Suc)
qed

lemma nth_window: "i < n \<Longrightarrow> window c h n ! i = slot_of c (h + of_nat i)"
  by (simp add: window_def)

lemma window_bound: "wf_capacity c \<Longrightarrow> j \<in> set (window c h n) \<Longrightarrow> j < slots c"
  by (auto simp: window_def slot_of_lt)

lemma slot_of_inj_window:
  assumes "wf_capacity c" and "i < slots c" and "j < slots c"
    and "slot_of c (h + of_nat i) = slot_of c (h + of_nat j)"
  shows "i = j"
proof -
  have "(unat h + i) mod slots c = (unat h + j) mod slots c"
    using assms by (simp add: slot_of_add)
  then have "unat h + i = unat h + j"
    by (rule mod_inj_window [where lo = "unat h"]) (use assms in auto)
  then show ?thesis by simp
qed

lemma distinct_window: "wf_capacity c \<Longrightarrow> n \<le> slots c \<Longrightarrow> distinct (window c h n)"
  by (auto simp: window_def distinct_map inj_on_def intro: slot_of_inj_window)

lemma window_fresh:
  assumes "wf_capacity c" and "n < slots c"
  shows "slot_of c (h + of_nat n) \<notin> set (window c h n)"
proof
  assume "slot_of c (h + of_nat n) \<in> set (window c h n)"
  then obtain i where "i < n" "slot_of c (h + of_nat n) = slot_of c (h + of_nat i)"
    by (auto simp: window_def)
  with slot_of_inj_window [OF assms(1), of n i h] assms(2) show False by simp
qed

lemma window_head_fresh:
  assumes "wf_capacity c" and "Suc n \<le> slots c"
  shows "slot_of c h \<notin> set (window c (h + 1) n)"
  using distinct_window [OF assms, of h] by (simp add: window_Cons)

section \<open>The constructors\<close>

lemma capacity_exact_Inr:
  "capacity_exact c = Inr k \<longleftrightarrow> is_power_of_two c \<and> k = \<lparr>cap = c, mask = c - 1\<rparr>"
  by (auto simp: capacity_exact_def is_power_of_two_exp word_neq_0_conv [symmetric])

lemma wf_capacity_exact: "capacity_exact c = Inr k \<Longrightarrow> wf_capacity k"
  by (simp add: capacity_exact_Inr wf_capacity_def)

lemma find_upt_Some:
  assumes "P j" and "j < n"
  shows "\<exists>k \<le> j. find P [0..<n] = Some k \<and> P k \<and> (\<forall>i < k. \<not> P i)"
proof -
  have "find P [0..<n] \<noteq> None"
    using assms by (auto simp: find_None_iff)
  then obtain k where "find P [0..<n] = Some k" by auto
  moreover from this obtain i where "i < n" "P i" "k = i" "\<forall>l < i. \<not> P l"
    by (auto simp: find_Some_iff)
  ultimately show ?thesis using assms(1) by (metis not_le)
qed

lemma next_power_of_two_least:
  assumes "unat m \<le> 2 ^ 63"
  shows "\<exists>k \<le> 63. next_power_of_two m = 2 ^ k \<and> unat m \<le> 2 ^ k \<and> (\<forall>i < k. 2 ^ i < unat m)"
proof -
  obtain k where "k \<le> 63" "find (\<lambda>k. unat m \<le> 2 ^ k) [0..<64] = Some k"
    "unat m \<le> 2 ^ k" "\<forall>i < k. \<not> unat m \<le> 2 ^ i"
    using find_upt_Some [of "\<lambda>k. unat m \<le> 2 ^ k" 63 64] assms by auto
  then show ?thesis by (auto simp: next_power_of_two_def not_le)
qed

lemma next_power_of_two_overflow:
  assumes "2 ^ 63 < unat m"
  shows "next_power_of_two m = 0"
proof -
  have "\<not> unat m \<le> 2 ^ k" if "k < 64" for k
  proof -
    from that have "(2::nat) ^ k \<le> 2 ^ 63" by (intro power_increasing) simp_all
    with assms show ?thesis by linarith
  qed
  then have "find (\<lambda>k. unat m \<le> 2 ^ k) [0..<64] = None"
    by (auto simp: find_None_iff)
  then show ?thesis by (simp add: next_power_of_two_def)
qed

text \<open>
  \<open>Capacity::at_least\<close> rounds a positive request of at most \<open>2 ^ 63\<close> up to the
  least power of two that holds it, and the mask it stores is the capacity less one.
\<close>

theorem at_least_rounds_up:
  assumes "0 < m" and "unat m \<le> 2 ^ 63"
  shows "\<exists>c. capacity_at_least m = Inr c \<and> wf_capacity c \<and> unat m \<le> slots c
    \<and> (\<forall>k. unat m \<le> 2 ^ k \<longrightarrow> slots c \<le> 2 ^ k)"
proof -
  obtain k where k: "k \<le> 63" "next_power_of_two m = 2 ^ k" "unat m \<le> 2 ^ k"
    and least: "\<forall>i < k. 2 ^ i < unat m"
    using next_power_of_two_least [OF assms(2)] by blast
  define c where "c = \<lparr>cap = next_power_of_two m, mask = next_power_of_two m - 1\<rparr>"
  have "capacity_at_least m = Inr c"
    using assms(1) by (simp add: capacity_at_least_def c_def Let_def)
  moreover have "wf_capacity c"
    using k by (auto simp: wf_capacity_def c_def is_power_of_two_exp intro: exI [of _ k])
  moreover have c: "slots c = 2 ^ k" using k by (simp add: c_def unat_exp_64)
  moreover have "slots c \<le> 2 ^ j" if "unat m \<le> 2 ^ j" for j
  proof -
    have "k \<le> j" using least that by (meson not_le)
    then show ?thesis by (simp add: c)
  qed
  ultimately show ?thesis using k(3) by auto
qed

theorem at_least_rounds_up_witness:
  "\<exists>c. capacity_at_least 1000 = Inr c \<and> wf_capacity c \<and> unat (1000::usize) \<le> slots c
    \<and> (\<forall>k. unat (1000::usize) \<le> 2 ^ k \<longrightarrow> slots c \<le> 2 ^ k)"
  by (rule at_least_rounds_up) simp_all

text \<open>
  C36. A request above \<open>2 ^ 63\<close> is not refused: in a build where the rounding wraps,
  \<open>Capacity::at_least\<close> returns the capacity 0 with an all-ones mask, which is not a
  power of two, and the buffer it is handed to panics at construction.
\<close>

theorem at_least_overflow_is_zero:
  assumes "2 ^ 63 < unat m"
  shows "capacity_at_least m = Inr \<lparr>cap = 0, mask = - 1\<rparr>
    \<and> \<not> wf_capacity \<lparr>cap = 0, mask = - 1\<rparr>
    \<and> aligned_buf_new_with (capacity_get \<lparr>cap = 0, mask = - 1\<rparr>) f = Inl Assertion_Failed"
proof -
  have "0 < m" using assms by (cases "m = 0") (auto simp: word_neq_0_conv)
  moreover have "\<not> is_power_of_two (0 :: usize)"
    by (simp add: is_power_of_two_def count_ones_def)
  ultimately show ?thesis
    using assms
    by (simp add: capacity_at_least_def next_power_of_two_overflow wf_capacity_def
        aligned_buf_new_with_def capacity_get_def Let_def)
qed

theorem at_least_overflow_is_zero_witness:
  "capacity_at_least 9223372036854775809 = Inr \<lparr>cap = 0, mask = - 1\<rparr>
    \<and> \<not> wf_capacity \<lparr>cap = 0, mask = - 1\<rparr>
    \<and> aligned_buf_new_with (capacity_get \<lparr>cap = 0, mask = - 1\<rparr>) (\<lambda>i. i) = Inl Assertion_Failed"
  by (rule at_least_overflow_is_zero) simp

text \<open>The capacity of the small rings that the examples run on.\<close>

definition cap2 :: capacity where "cap2 = \<lparr>cap = 2, mask = 1\<rparr>"

lemma cap2_wf: "wf_capacity cap2" and slots_cap2: "slots cap2 = 2"
  by (auto simp: cap2_def wf_capacity_def is_power_of_two_exp intro!: exI [of _ 1])

end
