(* ===== verification/Endpoints.thy ===== *)
theory Endpoints
  imports Capacity
begin

text \<open>
  The small shared words of a ring: the cursor pair of \<open>src/common/cursors.rs\<close>, the
  close flag of \<open>src/common/close_state.rs\<close> and the handle count of
  \<open>src/common/endpoint_count.rs\<close>. Cache padding has no effect on values and is
  left out. Every operation here is one atomic access, so it is one function.
\<close>

section \<open>Cursors\<close>

record cursors =
  head :: usize
  tail :: usize

definition cursors_new :: cursors where
  "cursors_new = \<lparr>head = 0, tail = 0\<rparr>"

definition publish_head :: "cursors \<Rightarrow> usize \<Rightarrow> cursors" where
  "publish_head c h = c\<lparr>head := h\<rparr>"

definition cursors_len :: "cursors \<Rightarrow> usize" where
  "cursors_len c = tail c - head c"

definition cursors_is_empty :: "cursors \<Rightarrow> bool" where
  "cursors_is_empty c \<longleftrightarrow> cursors_len c = 0"

definition cursors_is_full :: "cursors \<Rightarrow> usize \<Rightarrow> bool" where
  "cursors_is_full c capacity \<longleftrightarrow> cursors_len c = capacity"

text \<open>\<open>head..tail\<close> as a Rust range: empty when the head has overtaken the tail.\<close>

definition occupied :: "cursors \<Rightarrow> usize list" where
  "occupied c = map of_nat [unat (head c)..<unat (tail c)]"

declare cursors_new_def [ring_defs] publish_head_def [ring_defs]

lemma cursors_new_simps [simp]: "head cursors_new = 0" "tail cursors_new = 0"
  by (simp_all add: cursors_new_def)

lemma publish_head_simps [simp]:
  "head (publish_head c h) = h" "tail (publish_head c h) = tail c"
  by (simp_all add: publish_head_def)

text \<open>Below the rollover the occupied range is the run of positions from head to tail.\<close>

lemma occupied_eq_run:
  assumes "unat (head c) \<le> unat (tail c)"
  shows "occupied c = map (\<lambda>i. head c + of_nat i) [0..<unat (cursors_len c)]"
proof -
  have "unat (tail c - head c) = unat (tail c) - unat (head c)"
    using assms by (simp add: unat_sub word_le_nat_alt)
  moreover have "[unat (head c)..<unat (tail c)]
      = map (\<lambda>i. unat (head c) + i) [0..<unat (tail c) - unat (head c)]"
    using assms by (intro nth_equalityI) simp_all
  ultimately show ?thesis
    by (simp add: occupied_def cursors_len_def comp_def)
qed

lemma length_occupied:
  "length (occupied c) = unat (tail c) - unat (head c)"
  by (simp add: occupied_def)

section \<open>The close flag\<close>

record close_state =
  closed_flag :: bool

definition close_state_new :: close_state where
  "close_state_new = \<lparr>closed_flag = False\<rparr>"

definition close_side :: "close_state \<Rightarrow> close_state" where
  "close_side s = s\<lparr>closed_flag := True\<rparr>"

definition is_closed :: "close_state \<Rightarrow> bool" where
  "is_closed s \<longleftrightarrow> closed_flag s"

definition is_closed_for_parking :: "close_state \<Rightarrow> bool" where
  "is_closed_for_parking s \<longleftrightarrow> closed_flag s"

lemma close_state_simps [simp]:
  "\<not> is_closed close_state_new"
  "is_closed (close_side s)"
  "is_closed_for_parking s = is_closed s"
  by (simp_all add: close_state_new_def close_side_def is_closed_def is_closed_for_parking_def)

section \<open>The handle count\<close>

record endpoint_count =
  live :: usize

definition endpoint_count_new :: endpoint_count where
  "endpoint_count_new = \<lparr>live = 1\<rparr>"

definition endpoint_register :: "endpoint_count \<Rightarrow> endpoint_count" where
  "endpoint_register e = e\<lparr>live := live e + 1\<rparr>"

definition endpoint_release :: "endpoint_count \<Rightarrow> bool \<times> endpoint_count" where
  "endpoint_release e = (live e = 1, e\<lparr>live := live e - 1\<rparr>)"

text \<open>
  The handles of one side clone and drop in any order; each action is one atomic
  read-modify-write, so a concurrent execution is a list of them. Only a live
  handle acts, so no action follows the drop of the last one.
\<close>

datatype endpoint_action = Clone_Handle | Drop_Handle

fun run_endpoints :: "endpoint_count \<Rightarrow> endpoint_action list \<Rightarrow> bool list" where
  "run_endpoints e [] = []"
| "run_endpoints e (Clone_Handle # as) = False # run_endpoints (endpoint_register e) as"
| "run_endpoints e (Drop_Handle # as) =
     (case endpoint_release e of (was_last, e') \<Rightarrow> was_last # run_endpoints e' as)"

fun handles_after :: "nat \<Rightarrow> endpoint_action list \<Rightarrow> nat option" where
  "handles_after n [] = Some n"
| "handles_after n (a # as) =
     (if n = 0 then None
      else handles_after (case a of Clone_Handle \<Rightarrow> Suc n | Drop_Handle \<Rightarrow> n - 1) as)"

lemma run_endpoints_last:
  assumes "handles_after n as = Some m" and "live e = of_nat n" and "n + length as < 2 ^ 64"
  shows "run_endpoints e as = (if m = 0 \<and> as \<noteq> [] then replicate (length as - 1) False @ [True]
    else replicate (length as) False)"
  using assms
proof (induction as arbitrary: n e)
  case Nil
  then show ?case by simp
next
  case (Cons a as)
  then have n: "0 < n" by (auto split: if_splits)
  have one: "live e = 1 \<longleftrightarrow> n = 1"
  proof -
    have "unat (of_nat n :: usize) = n"
      using Cons.prems(3) by (simp add: unat_of_nat take_bit_nat_eq_self)
    then show ?thesis using Cons.prems(2) by (metis of_nat_1 unat_1)
  qed
  have none: "as = []" if "n = 1" "a = Drop_Handle"
    using that Cons.prems(1) by (cases as) auto
  show ?case
  proof (cases a)
    case Clone_Handle
    have "handles_after (Suc n) as = Some m" using Clone_Handle Cons.prems(1) n by simp
    moreover have "live (endpoint_register e) = of_nat (Suc n)"
      using Cons.prems(2) by (simp add: endpoint_register_def)
    moreover have "Suc n + length as < 2 ^ 64" using Cons.prems(3) by simp
    ultimately have IH: "run_endpoints (endpoint_register e) as =
        (if m = 0 \<and> as \<noteq> [] then replicate (length as - 1) False @ [True]
         else replicate (length as) False)"
      by (rule Cons.IH)
    have "as \<noteq> []" if "m = 0" using that \<open>handles_after (Suc n) as = Some m\<close> by (cases as) auto
    then show ?thesis
      using IH Clone_Handle by (cases as) auto
  next
    case Drop_Handle
    have h: "handles_after (n - 1) as = Some m" using Drop_Handle Cons.prems(1) n by simp
    moreover have "live (snd (endpoint_release e)) = of_nat (n - 1)"
      using Cons.prems(2) n by (simp add: endpoint_release_def of_nat_diff)
    moreover have "n - 1 + length as < 2 ^ 64" using Cons.prems(3) by simp
    ultimately have IH: "run_endpoints (snd (endpoint_release e)) as =
        (if m = 0 \<and> as \<noteq> [] then replicate (length as - 1) False @ [True]
         else replicate (length as) False)"
      by (rule Cons.IH)
    have "n \<noteq> 1 \<Longrightarrow> m = 0 \<Longrightarrow> as \<noteq> []" using h n by (cases as) auto
    then show ?thesis
      using IH Drop_Handle one none h
      by (cases "n = 1"; cases as) (auto simp: endpoint_release_def)
  qed
qed

text \<open>
  Whatever the order in which the handles of a side are cloned and dropped,
  starting from the one handle a split creates: no drop but the one that leaves
  no handle reports that it was the last, and that one does. So a side is closed
  exactly once, by its last handle.
\<close>

theorem last_handle_reports_once:
  assumes "handles_after 1 as = Some m" and "length as < 2 ^ 64 - 1"
  shows "run_endpoints endpoint_count_new as =
    (if m = 0 then replicate (length as - 1) False @ [True] else replicate (length as) False)"
proof -
  have "as \<noteq> []" if "m = 0" using assms(1) that by (cases as) auto
  moreover have "1 + length as < 2 ^ 64" using assms(2) by simp
  ultimately show ?thesis
    using run_endpoints_last [OF assms(1), of endpoint_count_new]
    by (auto simp: endpoint_count_new_def)
qed

theorem last_handle_reports_once_witness:
  "run_endpoints endpoint_count_new [Clone_Handle, Clone_Handle, Drop_Handle, Drop_Handle, Drop_Handle]
    = [False, False, False, False, True]"
  by (rule trans [OF last_handle_reports_once [where m = 0]]) simp_all

end
