(* ===== verification/Ring_Cells.thy ===== *)
theory Ring_Cells
  imports Endpoints
begin

text \<open>
  A ring buffer seen as a queue: \<open>holds c cells h q\<close> says that the cells of the
  positions from \<open>h\<close> on hold the values \<open>q\<close>. What writing at the end and taking at
  the front do to it is proved here once for every ring.
\<close>

definition holds :: "capacity \<Rightarrow> 'a maybe_uninit list \<Rightarrow> usize \<Rightarrow> 'a list \<Rightarrow> bool" where
  "holds c cells h q \<longleftrightarrow>
     wf_capacity c \<and> length cells = slots c \<and> length q \<le> slots c
     \<and> (\<forall>i < length q. cells ! slot_of c (h + of_nat i) = Some (q ! i))"

lemma holdsD:
  assumes "holds c cells h q"
  shows "wf_capacity c" "length cells = slots c" "length q \<le> slots c"
    "\<And>i. i < length q \<Longrightarrow> cells ! slot_of c (h + of_nat i) = Some (q ! i)"
  using assms by (auto simp: holds_def)

lemma holds_slot [simp]: "holds c cells h q \<Longrightarrow> slot_of c pos < length cells"
  by (simp add: holds_def slot_of_lt)

lemma holds_Nil: "wf_capacity c \<Longrightarrow> length cells = slots c \<Longrightarrow> holds c cells h []"
  by (simp add: holds_def)

lemma holds_write_past_end:
  assumes "holds c cells h q" and "length q < slots c"
  shows "holds c (cells[slot_of c (h + of_nat (length q)) := x]) h q"
proof -
  have "slot_of c (h + of_nat i) \<noteq> slot_of c (h + of_nat (length q))" if "i < length q" for i
    using that slot_of_inj_window [of c i "length q" h] assms by (auto simp: holds_def)
  then have "cells[slot_of c (h + of_nat (length q)) := x] ! slot_of c (h + of_nat i) = Some (q ! i)"
    if "i < length q" for i
    using that holdsD(4) [OF assms(1) that] by (metis nth_list_update_neq)
  then show ?thesis using assms by (simp add: holds_def)
qed

lemma holds_snoc:
  assumes "holds c cells h q" and "length q < slots c"
  shows "holds c (cells[slot_of c (h + of_nat (length q)) := Some v]) h (q @ [v])"
  using holds_write_past_end [OF assms, of "Some v"] assms
  by (auto simp: holds_def nth_append less_Suc_eq slot_of_lt)

lemma holds_peek:
  assumes "holds c cells h q" and "q \<noteq> []"
  shows "cells ! slot_of c h = Some (hd q)"
  using holdsD(4) [OF assms(1), of 0] assms(2) by (simp add: hd_conv_nth)

lemma holds_tl:
  assumes "holds c cells h (v # q)"
  shows "holds c cells (h + 1) q"
proof -
  have "cells ! slot_of c (h + 1 + of_nat i) = Some (q ! i)" if "i < length q" for i
    using holdsD(4) [OF assms, of "Suc i"] that by (simp add: add.assoc)
  then show ?thesis using assms by (simp add: holds_def)
qed

lemma holds_take:
  assumes "holds c cells h (v # q)"
  shows "holds c (cells[slot_of c h := x]) (h + 1) q"
proof -
  have ne: "slot_of c h \<noteq> slot_of c (h + 1 + of_nat i)" if "i < length q" for i
    using that slot_of_inj_window [of c 0 "Suc i" h] assms by (auto simp: holds_def add.assoc)
  have "length cells = slots c" and "wf_capacity c" using assms by (simp_all add: holds_def)
  then show ?thesis
    using holds_tl [OF assms] ne by (simp add: holds_def)
qed

lemma cell_take_holds:
  assumes "holds c cells h q" and "q \<noteq> []"
  shows "cell_take cells (slot_of c h) = Inr (hd q, cells[slot_of c h := None])"
  using assms by (simp add: holds_peek)

text \<open>Counting up to the capacity does not wrap.\<close>

lemma unat_of_nat_slots:
  assumes "n \<le> slots c"
  shows "unat (of_nat n :: usize) = n"
proof -
  have "slots c < 2 ^ LENGTH(64)" by (rule unsigned_less)
  then have "n < 2 ^ LENGTH(64)" using assms by (rule le_less_trans [rotated])
  then show ?thesis by (simp only: unat_of_nat mod_less)
qed

lemma cap_le_of_nat:
  assumes "n \<le> slots c"
  shows "cap c \<le> of_nat n \<longleftrightarrow> n = slots c"
  unfolding word_le_nat_alt unat_of_nat_slots [OF assms] using assms by linarith

lemma of_nat_eq_0_slots:
  assumes "n \<le> slots c"
  shows "(of_nat n :: usize) = 0 \<longleftrightarrow> n = 0"
proof
  assume "(of_nat n :: usize) = 0"
  then have "unat (of_nat n :: usize) = 0" by (simp only: unat_0)
  then show "n = 0" unfolding unat_of_nat_slots [OF assms] .
qed simp

end
