(* ===== verification/Slot_Sequence.thy ===== *)
theory Slot_Sequence
  imports Endpoints
begin

text \<open>
  The per-slot words: \<open>src/common/slot_sequence.rs\<close> and \<open>src/common/seq_slot.rs\<close>
  (the mpsc slot), \<open>src/spmc/done_word.rs\<close> (the spmc hand-over word), and the guard
  of a written but unpublished value, \<open>src/common/uncommitted_slot.rs\<close>.
\<close>

section \<open>The sequence word of an mpsc slot\<close>

definition TOMBSTONE :: usize where
  "TOMBSTONE = - 1"

record slot_sequence =
  word :: usize

definition seq_free_at :: "usize \<Rightarrow> slot_sequence" where
  "seq_free_at pos = \<lparr>word = pos * 2\<rparr>"

definition seq_publish :: "slot_sequence \<Rightarrow> usize \<Rightarrow> slot_sequence" where
  "seq_publish s pos = s\<lparr>word := pos * 2 + 1\<rparr>"

definition seq_tombstone :: "slot_sequence \<Rightarrow> slot_sequence" where
  "seq_tombstone s = s\<lparr>word := TOMBSTONE\<rparr>"

definition seq_release :: "slot_sequence \<Rightarrow> usize \<Rightarrow> capacity \<Rightarrow> slot_sequence" where
  "seq_release s h c = s\<lparr>word := (h + capacity_get c) * 2\<rparr>"

text \<open>
  What a consumer learns from one load. The source's \<open>Ready\<close> carries a pointer to the
  slot's storage; the model reads that storage by the slot's index.
\<close>

datatype slot_snapshot = Ready | Tombstoned | NotReady

definition seq_classify :: "slot_sequence \<Rightarrow> usize \<Rightarrow> slot_snapshot" where
  "seq_classify s pos =
     (if word s = TOMBSTONE then Tombstoned
      else if word s = pos * 2 + 1 then Ready
      else NotReady)"

definition seq_holds_value_at :: "slot_sequence \<Rightarrow> usize \<Rightarrow> bool" where
  "seq_holds_value_at s pos \<longleftrightarrow> word s = pos * 2 + 1"

section \<open>The mpsc slot\<close>

record 'a seq_slot =
  data :: "'a maybe_uninit"
  sequence :: slot_sequence

definition slot_free_at :: "usize \<Rightarrow> 'a seq_slot" where
  "slot_free_at pos = \<lparr>data = None, sequence = seq_free_at pos\<rparr>"

definition slot_classify :: "'a seq_slot \<Rightarrow> usize \<Rightarrow> slot_snapshot" where
  "slot_classify s pos = seq_classify (sequence s) pos"

text \<open>Drops the value published at \<open>pos\<close>, returning what was dropped.\<close>

definition drop_value_at :: "'a seq_slot \<Rightarrow> usize \<Rightarrow> ('a list \<times> 'a seq_slot) exec" where
  "drop_value_at s pos =
     (if seq_holds_value_at (sequence s) pos
      then (case data s of
              None \<Rightarrow> Inl Uninitialized_Read
            | Some v \<Rightarrow> Inr ([v], s\<lparr>data := None\<rparr>))
      else Inr ([], s))"

section \<open>The done word of an spmc slot\<close>

record done_word =
  done_at :: usize

definition done_released_for :: "usize \<Rightarrow> done_word" where
  "done_released_for slot = \<lparr>done_at = slot\<rparr>"

definition done_is_free_for :: "done_word \<Rightarrow> usize \<Rightarrow> bool" where
  "done_is_free_for d pos \<longleftrightarrow> done_at d = pos"

definition done_release :: "done_word \<Rightarrow> usize \<Rightarrow> capacity \<Rightarrow> done_word" where
  "done_release d pos c = d\<lparr>done_at := pos + capacity_get c\<rparr>"

definition done_holds_unconsumed_value_at :: "done_word \<Rightarrow> usize \<Rightarrow> capacity \<Rightarrow> bool" where
  "done_holds_unconsumed_value_at d pos c \<longleftrightarrow> done_at d \<noteq> pos + capacity_get c"

section \<open>A written, unpublished value\<close>

text \<open>
  \<open>UncommittedSlot\<close> points at a cell of the ring; here the index of that cell. Its
  destructor drops the value unless the value was committed, and reports whether
  it did so.
\<close>

record uncommitted_slot =
  data_at :: nat
  armed :: bool

definition uncommitted_armed :: "nat \<Rightarrow> uncommitted_slot" where
  "uncommitted_armed i = \<lparr>data_at = i, armed = True\<rparr>"

definition uncommitted_commit :: "uncommitted_slot \<Rightarrow> uncommitted_slot" where
  "uncommitted_commit u = u\<lparr>armed := False\<rparr>"

definition uncommitted_is_armed :: "uncommitted_slot \<Rightarrow> bool" where
  "uncommitted_is_armed u \<longleftrightarrow> armed u"

definition drop_if_uncommitted ::
  "uncommitted_slot \<Rightarrow> 'a maybe_uninit list
    \<Rightarrow> (bool \<times> 'a list \<times> uncommitted_slot \<times> 'a maybe_uninit list) exec" where
  "drop_if_uncommitted u cells =
     (if \<not> armed u then Inr (False, [], u, cells)
      else seq_exec (cell_take cells (data_at u)) (\<lambda>(v, cells').
             Inr (True, [v], u\<lparr>armed := False\<rparr>, cells')))"

text \<open>The \<open>Drop\<close> implementation: the same, with the report discarded.\<close>

definition uncommitted_drop ::
  "uncommitted_slot \<Rightarrow> 'a maybe_uninit list \<Rightarrow> ('a list \<times> 'a maybe_uninit list) exec" where
  "uncommitted_drop u cells =
     seq_exec (drop_if_uncommitted u cells) (\<lambda>(_, dropped, _, cells'). Inr (dropped, cells'))"

declare seq_free_at_def [ring_defs] seq_publish_def [ring_defs] seq_tombstone_def [ring_defs]
  seq_release_def [ring_defs] seq_holds_value_at_def [ring_defs]
  slot_free_at_def [ring_defs] slot_classify_def [ring_defs]
  done_released_for_def [ring_defs] done_is_free_for_def [ring_defs] done_release_def [ring_defs]

section \<open>The sequence word tells positions apart\<close>

text \<open>
  Positions below \<open>2 ^ 63 - 1\<close> double without wrapping, so the words of distinct
  positions and states are distinct. The source puts the limit as "it would take
  \<open>2 ^ 63\<close> pushes".
\<close>

definition POS_LIMIT :: nat where
  "POS_LIMIT = 2 ^ 63 - 1"

lemma unat_double:
  assumes "n < 2 ^ 63"
  shows "unat (of_nat n * 2 :: usize) = 2 * n" and "unat (of_nat n * 2 + 1 :: usize) = 2 * n + 1"
proof -
  have "(of_nat n * 2 :: usize) = of_nat (2 * n)" by (simp add: mult.commute)
  then show "unat (of_nat n * 2 :: usize) = 2 * n"
    using assms by (simp add: unat_of_nat take_bit_nat_eq_self del: of_nat_mult)
  have "(of_nat n * 2 + 1 :: usize) = of_nat (2 * n + 1)" by (simp add: mult.commute)
  then show "unat (of_nat n * 2 + 1 :: usize) = 2 * n + 1"
    using assms by (simp add: unat_of_nat take_bit_nat_eq_self del: of_nat_mult of_nat_add of_nat_Suc)
qed

lemma unat_TOMBSTONE: "unat TOMBSTONE = 2 ^ 64 - 1"
  by (simp add: TOMBSTONE_def unsigned_minus_1_eq_mask mask_eq_exp_minus_1)

lemma published_not_tombstone:
  assumes "n < POS_LIMIT"
  shows "of_nat n * 2 + 1 \<noteq> TOMBSTONE"
proof
  assume "of_nat n * 2 + 1 = TOMBSTONE"
  then have "2 * n + 1 = 2 ^ 64 - 1"
    using unat_double(2) [of n] assms unat_TOMBSTONE by (simp add: POS_LIMIT_def)
  with assms show False by (simp add: POS_LIMIT_def)
qed

lemma free_not_tombstone:
  assumes "n < 2 ^ 63"
  shows "of_nat n * 2 \<noteq> TOMBSTONE"
proof
  assume "of_nat n * 2 = TOMBSTONE"
  then have "2 * n = 2 ^ 64 - 1"
    using unat_double(1) [OF assms] unat_TOMBSTONE by simp
  moreover have "even (2 * n)" by simp
  ultimately show False by simp
qed

lemma published_inj:
  assumes "m < 2 ^ 63" and "n < 2 ^ 63" and "(of_nat m * 2 + 1 :: usize) = of_nat n * 2 + 1"
  shows "m = n"
proof -
  have "2 * m + 1 = 2 * n + 1" using assms unat_double(2) by metis
  then show ?thesis by simp
qed

lemma free_not_published:
  assumes "m < 2 ^ 63" and "n < 2 ^ 63"
  shows "(of_nat m * 2 :: usize) \<noteq> of_nat n * 2 + 1"
proof
  assume "(of_nat m * 2 :: usize) = of_nat n * 2 + 1"
  then have "2 * m = 2 * n + 1" using assms unat_double by metis
  then show False by presburger
qed

lemma seq_classify_free:
  assumes "m < 2 ^ 63" and "n < 2 ^ 63"
  shows "seq_classify (seq_free_at (of_nat m)) (of_nat n) = NotReady"
  using free_not_tombstone [OF assms(1)] free_not_published [OF assms]
  by (simp add: seq_classify_def seq_free_at_def)

lemma seq_classify_published:
  assumes "m < POS_LIMIT" and "n < POS_LIMIT"
  shows "seq_classify (seq_publish s (of_nat m)) (of_nat n) = (if n = m then Ready else NotReady)"
  using published_not_tombstone [OF assms(1)] published_inj [of m n] assms
  by (auto simp: seq_classify_def seq_publish_def POS_LIMIT_def)

text \<open>
  C35. The sequence word is an unambiguous encoding: for positions below the limit,
  a slot freed for \<open>m\<close> is not ready at any \<open>n\<close>, a slot published at \<open>m\<close> is ready at
  \<open>n\<close> exactly when \<open>n = m\<close>, and a tombstoned slot reads as such at every position;
  at the limit itself a published word is the tombstone.
\<close>

theorem sequence_word_unambiguous:
  assumes "m < POS_LIMIT" and "n < POS_LIMIT"
  shows "seq_classify (seq_free_at (of_nat m)) (of_nat n) = NotReady
    \<and> seq_classify (seq_publish s (of_nat m)) (of_nat n) = (if n = m then Ready else NotReady)
    \<and> seq_classify (seq_tombstone s) pos = Tombstoned
    \<and> seq_classify (seq_publish s (of_nat POS_LIMIT)) (of_nat POS_LIMIT) = Tombstoned"
  using seq_classify_free [of m n] seq_classify_published [of m n s] assms
  by (simp add: POS_LIMIT_def seq_classify_def seq_tombstone_def seq_publish_def TOMBSTONE_def)

theorem sequence_word_unambiguous_witness:
  "seq_classify (seq_free_at (of_nat 5)) (of_nat 9) = NotReady
    \<and> seq_classify (seq_publish (seq_free_at 5) (of_nat 5)) (of_nat 9) = (if (9::nat) = 5 then Ready else NotReady)
    \<and> seq_classify (seq_tombstone (seq_free_at 5)) 7 = Tombstoned
    \<and> seq_classify (seq_publish (seq_free_at 5) (of_nat POS_LIMIT)) (of_nat POS_LIMIT) = Tombstoned"
  by (rule sequence_word_unambiguous) (simp_all add: POS_LIMIT_def)

text \<open>
  The guard of a written value destroys it exactly once: an armed guard drops the
  value its cell holds and then reports nothing more to do however often it is
  asked again, and a committed guard never touches the cell.
\<close>

theorem uncommitted_value_dropped_once:
  assumes "i < length cells" and "cells ! i = Some v"
  shows "(\<exists>u. drop_if_uncommitted (uncommitted_armed i) cells = Inr (True, [v], u, cells[i := None])
      \<and> drop_if_uncommitted u (cells[i := None]) = Inr (False, [], u, cells[i := None])
      \<and> uncommitted_drop u (cells[i := None]) = Inr ([], cells[i := None]))
    \<and> uncommitted_drop (uncommitted_commit (uncommitted_armed i)) cells = Inr ([], cells)"
  using assms
  by (simp add: drop_if_uncommitted_def uncommitted_armed_def uncommitted_drop_def
      uncommitted_commit_def)

theorem uncommitted_value_dropped_once_witness:
  "(\<exists>u. drop_if_uncommitted (uncommitted_armed 1) [None, Some (7::nat)]
        = Inr (True, [7::nat], u, [None, Some (7::nat)][1 := None])
      \<and> drop_if_uncommitted u ([None, Some (7::nat)][1 := None]) = Inr (False, [], u, [None, Some (7::nat)][1 := None])
      \<and> uncommitted_drop u ([None, Some (7::nat)][1 := None]) = Inr ([], [None, Some (7::nat)][1 := None]))
    \<and> uncommitted_drop (uncommitted_commit (uncommitted_armed 1)) [None, Some (7::nat)]
        = Inr ([], [None, Some (7::nat)])"
  by (rule uncommitted_value_dropped_once) simp_all

end
