(* ===== verification/Park_Slot.thy ===== *)
theory Park_Slot
  imports Capacity
begin

text \<open>
  The parts of the park machinery: the re-armable handle of
  \<open>src/common/thread_parker.rs\<close>, the single-waiter state of
  \<open>src/common/sole_parker.rs\<close>, the slot leases of \<open>src/common/park_registry.rs\<close>, the
  stack of slotless waiters of \<open>src/common/park_overflow.rs\<close> and the routing answer
  of \<open>src/common/wake_interest.rs\<close>.

  An operation that wakes returns the threads it unparked, in order. Memory is
  sequentially consistent here, so fences are no-ops; a compare-exchange loop acts
  at the instant its exchange succeeds, and is one function.
\<close>

section \<open>The re-armable handle\<close>

record thread_parker =
  handle :: "thread_id option"

definition tp_new :: thread_parker where
  "tp_new = \<lparr>handle = None\<rparr>"

definition tp_arm :: "thread_id \<Rightarrow> thread_parker \<Rightarrow> thread_parker" where
  "tp_arm current p = p\<lparr>handle := Some current\<rparr>"

definition tp_wake :: "thread_parker \<Rightarrow> bool \<times> thread_id list \<times> thread_parker" where
  "tp_wake p =
     (case handle p of
        None \<Rightarrow> (False, [], p)
      | Some claimed \<Rightarrow> (True, [claimed], p\<lparr>handle := None\<rparr>))"

definition tp_is_armed :: "thread_parker \<Rightarrow> bool" where
  "tp_is_armed p \<longleftrightarrow> handle p \<noteq> None"

section \<open>A side with one waiter\<close>

record sole_parker =
  parker :: thread_parker
  parked :: bool

definition sp_new :: sole_parker where
  "sp_new = \<lparr>parker = tp_new, parked = False\<rparr>"

definition sp_arm :: "thread_id \<Rightarrow> sole_parker \<Rightarrow> sole_parker" where
  "sp_arm current s = s\<lparr>parker := tp_arm current (parker s), parked := True\<rparr>"

definition sp_disarm :: "sole_parker \<Rightarrow> sole_parker" where
  "sp_disarm s = s\<lparr>parked := False\<rparr>"

definition sp_wake_published :: "sole_parker \<Rightarrow> thread_id list \<times> sole_parker" where
  "sp_wake_published s =
     (if \<not> parked s then ([], s)
      else (case tp_wake (parker s) of
              (_, unparked, p) \<Rightarrow> (unparked, s\<lparr>parked := False, parker := p\<rparr>)))"

definition sp_wake :: "sole_parker \<Rightarrow> thread_id list \<times> sole_parker" where
  "sp_wake s = sp_wake_published s"

text \<open>The parker after a wake: whoever was parked is not any more.\<close>

definition woke :: "sole_parker \<Rightarrow> sole_parker" where
  "woke p = snd (sp_wake_published p)"

lemma woke_idem [simp]: "woke (woke p) = woke p"
  by (simp add: woke_def sp_wake_published_def case_prod_beta)

lemma woke_facts:
  "\<not> tp_is_armed (parker p) \<Longrightarrow> \<not> tp_is_armed (parker (woke p))"
  "parked p \<Longrightarrow> \<not> tp_is_armed (parker (woke p))"
  by (auto simp: woke_def sp_wake_published_def tp_is_armed_def tp_wake_def case_prod_beta
      split: option.splits)

text \<open>
  A waiter that has armed is woken by the next peer that publishes progress, and by
  that peer alone: the peer unparks exactly the thread that armed last, the waiter
  is no longer advertised, and a second peer unparks nobody. A waiter that withdrew
  is not woken.
\<close>

theorem armed_waiter_woken_once:
  "sp_wake (sp_arm t s) = ([t], \<lparr>parker = tp_new, parked = False, \<dots> = sole_parker.more s\<rparr>)
    \<and> fst (sp_wake (snd (sp_wake (sp_arm t s)))) = []
    \<and> fst (sp_wake (sp_disarm (sp_arm t s))) = []"
  by (cases s; cases "parker s")
    (simp add: sp_wake_def sp_wake_published_def sp_arm_def sp_disarm_def tp_arm_def tp_wake_def
      tp_new_def)

section \<open>Leases\<close>

definition PARK_SLOTS :: nat where "PARK_SLOTS = 64"
definition PARK_MASK :: nat where "PARK_MASK = PARK_SLOTS - 1"

datatype park_slot = Leased u32 | Shared

definition SOLE :: park_slot where "SOLE = Leased 0"

definition from_exclusive_index :: "usize \<Rightarrow> park_slot" where
  "from_exclusive_index index =
     (if unat index < PARK_SLOTS then Leased (ucast index) else Shared)"

definition park_slot_mask :: "park_slot \<Rightarrow> u64" where
  "park_slot_mask s = (case s of Leased b \<Rightarrow> push_bit (unat b) 1 | Shared \<Rightarrow> 0)"

definition park_slot_index :: "park_slot \<Rightarrow> nat option" where
  "park_slot_index s = (case s of Leased b \<Rightarrow> Some (unat b) | Shared \<Rightarrow> None)"

definition is_leased :: "park_slot \<Rightarrow> bool" where
  "is_leased s = (case s of Leased _ \<Rightarrow> True | Shared \<Rightarrow> False)"

lemma is_leased_simps [simp]: "is_leased (Leased b)" "\<not> is_leased Shared"
  by (simp_all add: is_leased_def)

definition trailing_zeros :: "'l::len word \<Rightarrow> nat" where
  "trailing_zeros w =
     (case find (bit w) [0..<LENGTH('l)] of Some k \<Rightarrow> k | None \<Rightarrow> LENGTH('l))"

record park_registry =
  held :: u64

definition registry_new :: park_registry where
  "registry_new = \<lparr>held = 0\<rparr>"

definition registry_lease :: "park_registry \<Rightarrow> park_slot \<times> park_registry" where
  "registry_lease r =
     (let free = NOT (held r) in
      if free = 0 then (Shared, r)
      else (let b = trailing_zeros free; m = push_bit b 1
            in (Leased (of_nat b), r\<lparr>held := held r OR m\<rparr>)))"

definition registry_release :: "park_slot \<Rightarrow> park_registry \<Rightarrow> park_registry" where
  "registry_release s r =
     (case s of
        Leased b \<Rightarrow> r\<lparr>held := held r AND NOT (push_bit (unat b) 1)\<rparr>
      | Shared \<Rightarrow> r)"

section \<open>Slotless waiters\<close>

type_synonym park_overflow = "thread_id list"

definition overflow_new :: park_overflow where
  "overflow_new = []"

definition overflow_register :: "thread_id \<Rightarrow> park_overflow \<Rightarrow> park_overflow" where
  "overflow_register current ov = current # ov"

definition overflow_wake_all :: "park_overflow \<Rightarrow> thread_id list \<times> park_overflow" where
  "overflow_wake_all ov = (ov, [])"

section \<open>What a waiter can do with a release\<close>

datatype wake_interest = Reserved | Any | Declines

definition interest_rank :: "wake_interest \<Rightarrow> nat" where
  "interest_rank i = (case i of Reserved \<Rightarrow> 0 | Any \<Rightarrow> 1 | Declines \<Rightarrow> 2)"

definition interest_is_usable :: "wake_interest \<Rightarrow> bool" where
  "interest_is_usable i \<longleftrightarrow> i \<noteq> Declines"

section \<open>Facts about the lowest set bit\<close>

lemma trailing_zeros_bit:
  fixes w :: "'l::len word"
  assumes "w \<noteq> 0"
  shows "trailing_zeros w < LENGTH('l) \<and> bit w (trailing_zeros w)
    \<and> (\<forall>i < trailing_zeros w. \<not> bit w i)"
proof -
  obtain j where "bit w j" "j < LENGTH('l)"
    using assms by (metis bit_eq_iff bit_0_eq bit_imp_le_length bot_apply bot_bool_def)
  then obtain k where "find (bit w) [0..<LENGTH('l)] = Some k" "bit w k" "\<forall>i < k. \<not> bit w i" "k \<le> j"
    using find_upt_Some [of "bit w" j "LENGTH('l)"] by auto
  then show ?thesis using \<open>j < LENGTH('l)\<close> by (simp add: trailing_zeros_def)
qed

section \<open>A slot is never leased twice\<close>

text \<open>
  Endpoints come and go in any order: each one leases a slot when it is created and
  returns the one it holds when it is dropped. \<open>leases r live\<close> says that the
  registry can be in state \<open>r\<close> while the endpoints alive hold the slots \<open>live\<close>.
\<close>

inductive leases :: "park_registry \<Rightarrow> park_slot list \<Rightarrow> bool" where
  fresh: "leases registry_new []"
| enter: "leases r live \<Longrightarrow> registry_lease r = (s, r') \<Longrightarrow> leases r' (s # live)"
| leave: "leases r live \<Longrightarrow> i < length live \<Longrightarrow>
    leases (registry_release (live ! i) r) (take i live @ drop (Suc i) live)"

definition lease_inv :: "park_registry \<Rightarrow> park_slot list \<Rightarrow> bool" where
  "lease_inv r live \<longleftrightarrow>
     distinct (filter is_leased live)
     \<and> (\<forall>b. Leased b \<in> set live \<longrightarrow> unat b < 64)
     \<and> (\<forall>n < 64. bit (held r) n \<longleftrightarrow> Leased (of_nat n) \<in> set live)"

lemma registry_lease_cases:
  obtains (shared) "held r = - 1" "registry_lease r = (Shared, r)"
  | (leased) b where "b < 64" "\<not> bit (held r) b"
      "registry_lease r = (Leased (of_nat b), r\<lparr>held := held r OR push_bit b 1\<rparr>)"
proof (cases "NOT (held r) = 0")
  case True
  then have "held r = - 1" by (metis bit.double_compl bit.compl_zero)
  then show ?thesis using shared by (simp add: registry_lease_def)
next
  case False
  let ?b = "trailing_zeros (NOT (held r))"
  have b: "?b < 64" "bit (NOT (held r)) ?b"
    using trailing_zeros_bit [OF False] by simp_all
  then have "\<not> bit (held r) ?b" by (simp add: bit_simps)
  with b(1) show ?thesis
    using leased [of ?b] False by (simp add: registry_lease_def Let_def)
qed

lemma unat_u32_small: "n < 64 \<Longrightarrow> unat (of_nat n :: u32) = n"
  by (simp add: unat_of_nat take_bit_nat_eq_self)

lemma lease_inv_enter:
  assumes "lease_inv r live" and "registry_lease r = (s, r')"
  shows "lease_inv r' (s # live)"
proof (rule registry_lease_cases [of r])
  assume "registry_lease r = (Shared, r)"
  then show ?thesis using assms by (auto simp: lease_inv_def is_leased_def)
next
  fix b
  assume b: "b < 64" "\<not> bit (held r) b"
    and l: "registry_lease r = (Leased (of_nat b), r\<lparr>held := held r OR push_bit b 1\<rparr>)"
  have fresh: "Leased (of_nat b) \<notin> set live" using assms(1) b by (simp add: lease_inv_def)
  have eq: "n = b" if "n < 64" "(of_nat n :: u32) = of_nat b" for n
    using that b(1) unat_u32_small by metis
  show ?thesis
    using assms l b fresh eq
    by (auto simp: lease_inv_def is_leased_def bit_simps unat_u32_small)
qed

lemma lease_inv_leave:
  assumes inv: "lease_inv r live" and i: "i < length live"
  shows "lease_inv (registry_release (live ! i) r) (take i live @ drop (Suc i) live)"
proof -
  let ?rest = "take i live @ drop (Suc i) live"
  have split: "live = take i live @ live ! i # drop (Suc i) live" using i by (rule id_take_nth_drop)
  have sub: "set ?rest \<subseteq> set live" by (auto dest: in_set_takeD in_set_dropD)
  have dist: "distinct (filter is_leased (take i live @ live ! i # drop (Suc i) live))"
    using inv split by (simp add: lease_inv_def)
  have rest: "x \<in> set ?rest" if "x \<in> set live" "x \<noteq> live ! i" for x
    using that split by (metis (no_types, lifting) UnE UnI1 UnI2 set_ConsD set_append)
  show ?thesis
  proof (cases "live ! i")
    case (Leased b)
    have notin: "Leased b \<notin> set ?rest" using dist Leased by (auto simp: is_leased_def)
    have small: "unat b < 64" using inv Leased i nth_mem [OF i] by (auto simp: lease_inv_def)
    have "bit (held r AND NOT (push_bit (unat b) 1)) n \<longleftrightarrow> Leased (of_nat n) \<in> set ?rest"
      if n: "n < 64" for n
    proof (cases "n = unat b")
      case True
      then show ?thesis using notin small by (simp add: bit_simps)
    next
      case False
      then have "of_nat n \<noteq> b" using unat_u32_small [OF n] by auto
      then have "Leased (of_nat n) \<in> set live \<longleftrightarrow> Leased (of_nat n) \<in> set ?rest"
        using rest sub Leased by auto
      then show ?thesis using False inv n by (auto simp: lease_inv_def bit_simps)
    qed
    then show ?thesis
      using inv dist sub Leased by (auto simp: lease_inv_def registry_release_def)
  next
    case Shared
    have "Leased x \<in> set live \<longleftrightarrow> Leased x \<in> set ?rest" for x
      using rest [of "Leased x"] sub Shared by auto
    then show ?thesis
      using inv dist Shared by (auto simp: lease_inv_def registry_release_def)
  qed
qed

lemma leases_inv: "leases r live \<Longrightarrow> lease_inv r live"
proof (induction rule: leases.induct)
  case fresh
  then show ?case by (simp add: lease_inv_def registry_new_def)
next
  case (enter r live s r')
  then show ?case by (blast intro: lease_inv_enter)
next
  case (leave r live i)
  then show ?case by (blast intro: lease_inv_leave)
qed

text \<open>
  C34. However endpoints come and go, no two live endpoints of one side hold the same
  park slot, every leased slot is one of the 64 of the wake bitmap, and an endpoint
  is left slotless only when all 64 are held.
\<close>

theorem live_leases_distinct:
  assumes "leases r live"
  shows "distinct (filter is_leased live)
    \<and> (\<forall>b. Leased b \<in> set live \<longrightarrow> unat b < PARK_SLOTS)
    \<and> (fst (registry_lease r) = Shared \<longrightarrow> (\<forall>n < PARK_SLOTS. Leased (of_nat n) \<in> set live))"
proof -
  have inv: "lease_inv r live" using assms by (rule leases_inv)
  have "\<forall>n < 64. Leased (of_nat n) \<in> set live" if "fst (registry_lease r) = Shared"
  proof (rule registry_lease_cases [of r])
    assume "held r = - 1"
    then show ?thesis using inv by (simp add: lease_inv_def bit_simps)
  qed (use that in simp)
  with inv show ?thesis by (simp add: lease_inv_def PARK_SLOTS_def)
qed

theorem live_leases_distinct_witness:
  "leases \<lparr>held = 3\<rparr> [Leased 1, Leased 0]
    \<and> distinct (filter is_leased [Leased 1, Leased 0])"
proof -
  have first: "registry_lease registry_new = (Leased 0, \<lparr>held = 1\<rparr>)"
    by (simp add: registry_lease_def registry_new_def trailing_zeros_def upt_conv_Cons bit_simps)
  have second: "registry_lease \<lparr>held = 1\<rparr> = (Leased 1, \<lparr>held = 3\<rparr>)"
    by (simp add: registry_lease_def trailing_zeros_def upt_conv_Cons bit_simps)
  have run: "leases \<lparr>held = 3\<rparr> [Leased 1, Leased 0]"
    by (rule leases.enter [OF leases.enter [OF leases.fresh first] second])
  with live_leases_distinct [OF run] show ?thesis by blast
qed

end
