(* ===== verification/Spsc.thy ===== *)
theory Spsc
  imports Ring_Cells Slot_Sequence Park_Slot
begin

text \<open>
  \<open>src/spsc\<close>: the single-producer, single-consumer ring. The ring, the producer handle
  and the consumer handle are three records, as in the source, and an operation
  takes and returns the ones it may change. \<open>s_unparked\<close> logs the threads the ring
  unparked and \<open>s_dropped\<close> the values it destroyed.
\<close>

section \<open>The ring and its handles\<close>

record 'a spsc_ring =
  s_buf :: "'a maybe_uninit list"
  s_capacity :: capacity
  s_cursors :: cursors
  s_producer_closed :: close_state
  s_consumer_closed :: close_state
  s_producer_park :: sole_parker
  s_consumer_park :: sole_parker
  s_unparked :: "thread_id list"
  s_dropped :: "'a list"

record spsc_producer =
  write_pos :: usize
  cached_head :: usize

record spsc_consumer =
  cached_tail :: usize

definition spsc_new :: "capacity \<Rightarrow> 'a spsc_ring exec" where
  "spsc_new c =
     seq_exec (aligned_buf_new_with (capacity_get c) (\<lambda>_. None)) (\<lambda>buf.
       Inr \<lparr>s_buf = buf, s_capacity = c, s_cursors = cursors_new,
            s_producer_closed = close_state_new, s_consumer_closed = close_state_new,
            s_producer_park = sp_new, s_consumer_park = sp_new,
            s_unparked = [], s_dropped = []\<rparr>)"

definition spsc_split :: "'a spsc_ring \<Rightarrow> spsc_producer \<times> spsc_consumer \<times> 'a spsc_ring" where
  "spsc_split r = (\<lparr>write_pos = 0, cached_head = 0\<rparr>, \<lparr>cached_tail = 0\<rparr>, r)"

text \<open>
  The same handles on a borrowed ring: the ring is the caller's, and can be split
  again once the borrow of the first pair has ended.
\<close>

definition spsc_split_borrowed :: "'a spsc_ring \<Rightarrow> spsc_producer \<times> spsc_consumer \<times> 'a spsc_ring" where
  "spsc_split_borrowed r = (\<lparr>write_pos = 0, cached_head = 0\<rparr>, \<lparr>cached_tail = 0\<rparr>, r)"

definition spsc_slot :: "'a spsc_ring \<Rightarrow> usize \<Rightarrow> nat" where
  "spsc_slot r pos = unat (index_of (s_capacity r) pos)"

definition spsc_wake_producer :: "'a spsc_ring \<Rightarrow> 'a spsc_ring" where
  "spsc_wake_producer r =
     (case sp_wake_published (s_producer_park r) of
        (us, p) \<Rightarrow> r\<lparr>s_producer_park := p, s_unparked := s_unparked r @ us\<rparr>)"

definition spsc_wake_consumer :: "'a spsc_ring \<Rightarrow> 'a spsc_ring" where
  "spsc_wake_consumer r =
     (case sp_wake_published (s_consumer_park r) of
        (us, p) \<Rightarrow> r\<lparr>s_consumer_park := p, s_unparked := s_unparked r @ us\<rparr>)"

definition spsc_len :: "'a spsc_ring \<Rightarrow> usize" where
  "spsc_len r = cursors_len (s_cursors r)"

definition spsc_is_empty :: "'a spsc_ring \<Rightarrow> bool" where
  "spsc_is_empty r \<longleftrightarrow> cursors_is_empty (s_cursors r)"

definition spsc_is_full :: "'a spsc_ring \<Rightarrow> bool" where
  "spsc_is_full r \<longleftrightarrow> cursors_is_full (s_cursors r) (capacity_get (s_capacity r))"

definition spsc_close :: "'a spsc_ring \<Rightarrow> 'a spsc_ring" where
  "spsc_close r = spsc_wake_consumer (r\<lparr>s_producer_closed := close_side (s_producer_closed r)\<rparr>)"

section \<open>The producer\<close>

definition spsc_try_claim :: "spsc_producer \<Rightarrow> 'a spsc_ring \<Rightarrow> usize option \<times> spsc_producer" where
  "spsc_try_claim p r =
     (let pos = write_pos p in
      if pos - cached_head p \<ge> capacity_get (s_capacity r) then
        let h = head (s_cursors r); p1 = p\<lparr>cached_head := h\<rparr> in
        if pos - h \<ge> capacity_get (s_capacity r) then (None, p1) else (Some pos, p1)
      else (Some pos, p))"

definition spsc_has_space :: "spsc_producer \<Rightarrow> 'a spsc_ring \<Rightarrow> bool \<times> spsc_producer" where
  "spsc_has_space p r =
     (let pos = write_pos p in
      if pos - cached_head p < capacity_get (s_capacity r) then (True, p)
      else
        let h = head (s_cursors r)
        in (pos - h < capacity_get (s_capacity r), p\<lparr>cached_head := h\<rparr>))"

definition spsc_store_tail :: "usize \<Rightarrow> 'a spsc_ring \<Rightarrow> 'a spsc_ring" where
  "spsc_store_tail t r = r\<lparr>s_cursors := (s_cursors r)\<lparr>tail := t\<rparr>\<rparr>"

definition spsc_push ::
    "'a \<Rightarrow> spsc_producer \<Rightarrow> 'a spsc_ring \<Rightarrow> ('a push_result \<times> spsc_producer \<times> 'a spsc_ring) exec" where
  "spsc_push v p r =
     (case spsc_try_claim p r of
        (None, p1) \<Rightarrow> Inr (Push_Err v, p1, r)
      | (Some pos, p1) \<Rightarrow>
          seq_exec (cell_write (s_buf r) (spsc_slot r pos) v) (\<lambda>buf.
            let p2 = p1\<lparr>write_pos := pos + 1\<rparr>;
                r1 = spsc_store_tail (pos + 1) (r\<lparr>s_buf := buf\<rparr>)
            in Inr (Push_Ok, p2, spsc_wake_consumer r1)))"

text \<open>Reservations: a writer on an unwritten slot, then a written slot to commit.\<close>

record spsc_slot_writer =
  sw_slot :: nat
  sw_pos :: usize

record spsc_written_slot =
  ws_value :: uncommitted_slot
  ws_pos :: usize

definition spsc_reserve ::
    "spsc_producer \<Rightarrow> 'a spsc_ring \<Rightarrow> spsc_slot_writer option \<times> spsc_producer" where
  "spsc_reserve p r =
     (case spsc_try_claim p r of
        (None, p1) \<Rightarrow> (None, p1)
      | (Some pos, p1) \<Rightarrow> (Some \<lparr>sw_slot = spsc_slot r pos, sw_pos = pos\<rparr>, p1))"

text \<open>A write through \<open>slot_mut\<close>, which only \<open>commit_unchecked\<close> publishes.\<close>

definition spsc_slot_mut_write ::
    "spsc_slot_writer \<Rightarrow> 'a \<Rightarrow> 'a spsc_ring \<Rightarrow> 'a spsc_ring exec" where
  "spsc_slot_mut_write w v r =
     seq_exec (cell_write (s_buf r) (sw_slot w) v) (\<lambda>buf. Inr (r\<lparr>s_buf := buf\<rparr>))"

definition spsc_write ::
    "spsc_slot_writer \<Rightarrow> 'a \<Rightarrow> 'a spsc_ring \<Rightarrow> (spsc_written_slot \<times> 'a spsc_ring) exec" where
  "spsc_write w v r =
     seq_exec (cell_write (s_buf r) (sw_slot w) v) (\<lambda>buf.
       Inr (\<lparr>ws_value = uncommitted_armed (sw_slot w), ws_pos = sw_pos w\<rparr>, r\<lparr>s_buf := buf\<rparr>))"

definition spsc_commit_unchecked ::
    "spsc_slot_writer \<Rightarrow> spsc_producer \<Rightarrow> 'a spsc_ring \<Rightarrow> spsc_producer \<times> 'a spsc_ring" where
  "spsc_commit_unchecked w p r =
     (p\<lparr>write_pos := sw_pos w + 1\<rparr>, spsc_wake_consumer (spsc_store_tail (sw_pos w + 1) r))"

definition spsc_slot_writer_drop :: "spsc_slot_writer \<Rightarrow> 'a spsc_ring \<Rightarrow> 'a spsc_ring" where
  "spsc_slot_writer_drop w r = r"

text \<open>
  Dropping a written slot, committed or not, runs the destructor of its
  \<^typ>\<open>uncommitted_slot\<close>; \<open>commit\<close> consumes the guard, so it ends with that drop.
\<close>

definition spsc_written_slot_drop ::
    "spsc_written_slot \<Rightarrow> 'a spsc_ring \<Rightarrow> 'a spsc_ring exec" where
  "spsc_written_slot_drop w r =
     seq_exec (uncommitted_drop (ws_value w) (s_buf r)) (\<lambda>(gone, buf).
       Inr (r\<lparr>s_buf := buf, s_dropped := s_dropped r @ gone\<rparr>))"

definition spsc_commit ::
    "spsc_written_slot \<Rightarrow> spsc_producer \<Rightarrow> 'a spsc_ring \<Rightarrow> (spsc_producer \<times> 'a spsc_ring) exec" where
  "spsc_commit w p r =
     (let w1 = w\<lparr>ws_value := uncommitted_commit (ws_value w)\<rparr>;
          p1 = p\<lparr>write_pos := ws_pos w + 1\<rparr>;
          r1 = spsc_wake_consumer (spsc_store_tail (ws_pos w + 1) r)
      in seq_exec (spsc_written_slot_drop w1 r1) (\<lambda>r2. Inr (p1, r2)))"

definition spsc_producer_drop :: "'a spsc_ring \<Rightarrow> 'a spsc_ring" where
  "spsc_producer_drop r =
     spsc_wake_consumer (r\<lparr>s_producer_closed := close_side (s_producer_closed r)\<rparr>)"

section \<open>The consumer\<close>

definition spsc_available :: "usize \<Rightarrow> spsc_consumer \<Rightarrow> 'a spsc_ring \<Rightarrow> bool \<times> spsc_consumer" where
  "spsc_available h c r =
     (if h = cached_tail c then
        let t = tail (s_cursors r) in (h \<noteq> t, c\<lparr>cached_tail := t\<rparr>)
      else (True, c))"

definition spsc_pop ::
    "spsc_consumer \<Rightarrow> 'a spsc_ring \<Rightarrow> ('a option \<times> spsc_consumer \<times> 'a spsc_ring) exec" where
  "spsc_pop c r =
     (let h = head (s_cursors r) in
      case spsc_available h c r of
        (False, c1) \<Rightarrow> Inr (None, c1, r)
      | (True, c1) \<Rightarrow>
          seq_exec (cell_take (s_buf r) (spsc_slot r h)) (\<lambda>(v, buf).
            let r1 = r\<lparr>s_buf := buf, s_cursors := publish_head (s_cursors r) (h + 1)\<rparr>
            in Inr (Some v, c1, spsc_wake_producer r1)))"

text \<open>The guard that publishes the head, on the unwind path as on the normal one.\<close>

record head_publisher =
  hp_head :: usize
  hp_advanced :: bool

definition hp_new :: "usize \<Rightarrow> head_publisher" where
  "hp_new h = \<lparr>hp_head = h, hp_advanced = False\<rparr>"

definition hp_position :: "head_publisher \<Rightarrow> usize" where
  "hp_position g = hp_head g"

definition hp_advance :: "head_publisher \<Rightarrow> head_publisher" where
  "hp_advance g = g\<lparr>hp_head := hp_head g + 1, hp_advanced := True\<rparr>"

definition hp_drop :: "head_publisher \<Rightarrow> 'a spsc_ring \<Rightarrow> 'a spsc_ring" where
  "hp_drop g r =
     (if \<not> hp_advanced g then r
      else spsc_wake_producer (r\<lparr>s_cursors := publish_head (s_cursors r) (hp_head g)\<rparr>))"

text \<open>
  The loop of \<open>drain\<close> and \<open>drain_up_to\<close>; \<open>drain\<close> has no limit. The callback \<open>f\<close> carries the
  state its closure captures, and a panic in it leaves the loop. The loop is total:
  a refreshed tail is a fixed end, and every turn moves one position towards it.
\<close>

definition drain_measure :: "spsc_consumer \<Rightarrow> 'a spsc_ring \<Rightarrow> usize \<Rightarrow> nat" where
  "drain_measure c r h =
     (if cached_tail c = tail (s_cursors r) then 0 else 2 ^ 64) + unat (cached_tail c - h)"

lemma unat_minus_Suc: "(a :: usize) \<noteq> b \<Longrightarrow> Suc (unat (a - (b + 1))) = unat (a - b)"
proof -
  assume "a \<noteq> b"
  then have "a - b \<noteq> 0" by simp
  then have "unat (a - b) = Suc (unat (a - b - 1))" by (simp add: unat_minus_one unat_gt_0)
  then show ?thesis by (simp add: diff_diff_eq)
qed

lemma drain_measure_step:
  assumes "spsc_available h c r = (True, c1)"
  shows "drain_measure c1 (r\<lparr>s_buf := buf\<rparr>) (h + 1) < drain_measure c r h"
proof (cases "h = cached_tail c")
  case True
  then have c1: "cached_tail c1 = tail (s_cursors r)" "tail (s_cursors r) \<noteq> h"
    using assms by (auto simp: spsc_available_def Let_def)
  then have "drain_measure c r h = 2 ^ 64" using True by (simp add: drain_measure_def)
  moreover have "unat (tail (s_cursors r) - (h + 1)) < 2 ^ LENGTH(64)" by (rule unsigned_less)
  ultimately show ?thesis using c1 by (simp add: drain_measure_def)
next
  case False
  then have "c1 = c" using assms by (simp add: spsc_available_def)
  then show ?thesis using unat_minus_Suc [of "cached_tail c" h] False by (simp add: drain_measure_def)
qed

function spsc_drain_loop ::
    "('s \<Rightarrow> 'a \<Rightarrow> 's \<times> completion) \<Rightarrow> usize option \<Rightarrow> head_publisher \<Rightarrow> usize \<Rightarrow> 's
      \<Rightarrow> spsc_consumer \<Rightarrow> 'a spsc_ring
      \<Rightarrow> (completion \<times> head_publisher \<times> usize \<times> 's \<times> spsc_consumer \<times> 'a spsc_ring) exec" where
  "spsc_drain_loop f limit g count st c r =
     (if \<not> below_limit count limit then Inr (Returned, g, count, st, c, r)
      else
        case spsc_available (hp_position g) c r of
          (False, c1) \<Rightarrow> Inr (Returned, g, count, st, c1, r)
        | (True, c1) \<Rightarrow>
            seq_exec (cell_take (s_buf r) (spsc_slot r (hp_position g))) (\<lambda>(v, buf).
              case f st v of
                (st1, Panicked) \<Rightarrow>
                  Inr (Panicked, hp_advance g, count + 1, st1, c1, r\<lparr>s_buf := buf\<rparr>)
              | (st1, Returned) \<Rightarrow>
                  spsc_drain_loop f limit (hp_advance g) (count + 1) st1 c1 (r\<lparr>s_buf := buf\<rparr>)))"
  by pat_completeness auto
termination
  by (relation "measure (\<lambda>(_, _, g, _, _, c, r). drain_measure c r (hp_head g))")
    (auto simp: hp_position_def hp_advance_def drain_measure_step)

declare spsc_drain_loop.simps [simp del]

definition spsc_drain_up_to ::
    "usize option \<Rightarrow> ('s \<Rightarrow> 'a \<Rightarrow> 's \<times> completion) \<Rightarrow> 's \<Rightarrow> spsc_consumer \<Rightarrow> 'a spsc_ring
      \<Rightarrow> (completion \<times> usize \<times> 's \<times> spsc_consumer \<times> 'a spsc_ring) exec" where
  "spsc_drain_up_to limit f st c r =
     seq_exec (spsc_drain_loop f limit (hp_new (head (s_cursors r))) 0 st c r)
       (\<lambda>(fin, g, count, st1, c1, r1). Inr (fin, count, st1, c1, hp_drop g r1))"

definition spsc_drain ::
    "('s \<Rightarrow> 'a \<Rightarrow> 's \<times> completion) \<Rightarrow> 's \<Rightarrow> spsc_consumer \<Rightarrow> 'a spsc_ring
      \<Rightarrow> (completion \<times> usize \<times> 's \<times> spsc_consumer \<times> 'a spsc_ring) exec" where
  "spsc_drain f st c r = spsc_drain_up_to None f st c r"

text \<open>The zero-copy reader, which drops the value and publishes the head when it goes.\<close>

record spsc_slot_reader =
  rd_slot :: nat
  rd_head :: usize

definition spsc_pop_ref ::
    "spsc_consumer \<Rightarrow> 'a spsc_ring \<Rightarrow> spsc_slot_reader option \<times> spsc_consumer" where
  "spsc_pop_ref c r =
     (let h = head (s_cursors r) in
      case spsc_available h c r of
        (False, c1) \<Rightarrow> (None, c1)
      | (True, c1) \<Rightarrow> (Some \<lparr>rd_slot = spsc_slot r h, rd_head = h\<rparr>, c1))"

definition spsc_ready_for_claim :: "spsc_consumer \<Rightarrow> 'a spsc_ring \<Rightarrow> bool \<times> spsc_consumer" where
  "spsc_ready_for_claim c r = spsc_available (head (s_cursors r)) c r"

definition spsc_reader_deref :: "spsc_slot_reader \<Rightarrow> 'a spsc_ring \<Rightarrow> 'a exec" where
  "spsc_reader_deref rd r = cell_peek (s_buf r) (rd_slot rd)"

definition spsc_reader_drop ::
    "('a \<Rightarrow> completion) \<Rightarrow> spsc_slot_reader \<Rightarrow> 'a spsc_ring \<Rightarrow> (completion \<times> 'a spsc_ring) exec" where
  "spsc_reader_drop dtor rd r =
     (let g = hp_advance (hp_new (rd_head rd)) in
      seq_exec (cell_take (s_buf r) (rd_slot rd)) (\<lambda>(v, buf).
        let r1 = r\<lparr>s_buf := buf, s_dropped := s_dropped r @ [v]\<rparr>
        in Inr (dtor v, hp_drop g r1)))"

text \<open>\<open>while self.pop().is_some() {}\<close>: each popped value is destroyed at once.\<close>

function spsc_pop_and_drop_all ::
    "('a \<Rightarrow> completion) \<Rightarrow> spsc_consumer \<Rightarrow> 'a spsc_ring
      \<Rightarrow> (completion \<times> spsc_consumer \<times> 'a spsc_ring) exec" where
  "spsc_pop_and_drop_all dtor c r =
     seq_exec (spsc_pop c r) (\<lambda>(popped, c1, r1).
       case popped of
         None \<Rightarrow> Inr (Returned, c1, r1)
       | Some v \<Rightarrow>
           (let r2 = r1\<lparr>s_dropped := s_dropped r1 @ [v]\<rparr> in
            case dtor v of
              Panicked \<Rightarrow> Inr (Panicked, c1, r2)
            | Returned \<Rightarrow> spsc_pop_and_drop_all dtor c1 r2))"
  by pat_completeness auto

lemma wake_producer_simps [simp]:
  "s_cursors (spsc_wake_producer r) = s_cursors r"
  "s_buf (spsc_wake_producer r) = s_buf r"
  "s_capacity (spsc_wake_producer r) = s_capacity r"
  "s_producer_closed (spsc_wake_producer r) = s_producer_closed r"
  "s_consumer_closed (spsc_wake_producer r) = s_consumer_closed r"
  "s_consumer_park (spsc_wake_producer r) = s_consumer_park r"
  "s_dropped (spsc_wake_producer r) = s_dropped r"
  by (simp_all add: spsc_wake_producer_def case_prod_beta)

lemma wake_consumer_simps [simp]:
  "s_cursors (spsc_wake_consumer r) = s_cursors r"
  "s_buf (spsc_wake_consumer r) = s_buf r"
  "s_capacity (spsc_wake_consumer r) = s_capacity r"
  "s_producer_closed (spsc_wake_consumer r) = s_producer_closed r"
  "s_consumer_closed (spsc_wake_consumer r) = s_consumer_closed r"
  "s_producer_park (spsc_wake_consumer r) = s_producer_park r"
  "s_dropped (spsc_wake_consumer r) = s_dropped r"
  by (simp_all add: spsc_wake_consumer_def case_prod_beta)

lemma spsc_pop_measure:
  assumes "spsc_pop c r = Inr (Some v, c1, r1)"
  shows "drain_measure c1 r1 (head (s_cursors r1)) < drain_measure c r (head (s_cursors r))"
proof -
  let ?h = "head (s_cursors r)"
  obtain buf where av: "spsc_available ?h c r = (True, c1)"
    and r1: "r1 = spsc_wake_producer (r\<lparr>s_buf := buf, s_cursors := publish_head (s_cursors r) (?h + 1)\<rparr>)"
    using assms by (auto simp: spsc_pop_def Let_def seq_exec_eq_Inr split: prod.splits bool.splits)
  then show ?thesis using drain_measure_step [OF av, of buf] by (simp add: drain_measure_def)
qed

termination spsc_pop_and_drop_all
  by (relation "measure (\<lambda>(_, c, r). drain_measure c r (head (s_cursors r)))")
    (auto dest!: spsc_pop_measure simp: drain_measure_def)

declare spsc_pop_and_drop_all.simps [simp del]

definition consumer_close_drop :: "'a spsc_ring \<Rightarrow> 'a spsc_ring" where
  "consumer_close_drop r =
     spsc_wake_producer (r\<lparr>s_consumer_closed := close_side (s_consumer_closed r)\<rparr>)"

definition spsc_consumer_drop ::
    "('a \<Rightarrow> completion) \<Rightarrow> spsc_consumer \<Rightarrow> 'a spsc_ring \<Rightarrow> (completion \<times> 'a spsc_ring) exec" where
  "spsc_consumer_drop dtor c r =
     seq_exec (spsc_pop_and_drop_all dtor c r) (\<lambda>(fin, _, r1). Inr (fin, consumer_close_drop r1))"

definition spsc_is_closed :: "'a spsc_ring \<Rightarrow> bool" where
  "spsc_is_closed r \<longleftrightarrow> is_closed (s_producer_closed r)"

section \<open>Destruction of the ring\<close>

fun spsc_drop_positions ::
    "('a \<Rightarrow> completion) \<Rightarrow> usize list \<Rightarrow> 'a spsc_ring \<Rightarrow> (completion \<times> 'a spsc_ring) exec" where
  "spsc_drop_positions dtor [] r = Inr (Returned, r)"
| "spsc_drop_positions dtor (pos # ps) r =
     seq_exec (cell_take (s_buf r) (unat (index_of (s_capacity r) pos))) (\<lambda>(v, buf).
       let r1 = r\<lparr>s_buf := buf, s_dropped := s_dropped r @ [v]\<rparr> in
       case dtor v of
         Panicked \<Rightarrow> Inr (Panicked, r1)
       | Returned \<Rightarrow> spsc_drop_positions dtor ps r1)"

definition spsc_ring_drop :: "('a \<Rightarrow> completion) \<Rightarrow> 'a spsc_ring \<Rightarrow> (completion \<times> 'a spsc_ring) exec" where
  "spsc_ring_drop dtor r = spsc_drop_positions dtor (occupied (s_cursors r)) r"

end
