(* ===== verification/Queue.thy ===== *)
theory Queue
  imports Prelude
begin

text \<open>
  What a ring promises its clients: a bounded first-in first-out queue. The interface
  is the locale \<open>bounded_queue\<close>, a ring state related to the list it holds, on top of
  its taking side \<open>queue_source\<close> and its giving side \<open>bounded_sink\<close>, and what
  follows from it about any sequence of operations is proved once here. Each ring
  interprets it on its own model.
\<close>

datatype 'a queue_op = Op_Push 'a | Op_Pop

text \<open>The abstract queue: what was accepted, what came out, what is left.\<close>

fun spec_ops :: "nat \<Rightarrow> 'a queue_op list \<Rightarrow> 'a list \<Rightarrow> 'a list \<times> 'a list \<times> 'a list" where
  "spec_ops n [] q = ([], [], q)"
| "spec_ops n (Op_Push v # ops) q =
     (if length q < n then (case spec_ops n ops (q @ [v]) of (acc, out, q') \<Rightarrow> (v # acc, out, q'))
      else spec_ops n ops q)"
| "spec_ops n (Op_Pop # ops) q =
     (case q of
        [] \<Rightarrow> spec_ops n ops q
      | v # q1 \<Rightarrow> (case spec_ops n ops q1 of (acc, out, q') \<Rightarrow> (acc, v # out, q')))"

lemma spec_ops_fifo:
  "spec_ops n ops q = (acc, out, q') \<Longrightarrow> length q \<le> n \<Longrightarrow> q @ acc = out @ q' \<and> length q' \<le> n"
  by (induction n ops q arbitrary: acc out q' rule: spec_ops.induct)
    (force split: if_splits prod.splits list.splits)+

text \<open>The same sequence run on a ring.\<close>

fun run_ops ::
    "('a \<Rightarrow> 's \<Rightarrow> ('a push_result \<times> 's) exec) \<Rightarrow> ('s \<Rightarrow> ('a option \<times> 's) exec)
      \<Rightarrow> 'a queue_op list \<Rightarrow> 's \<Rightarrow> ('a list \<times> 'a list \<times> 's) exec" where
  "run_ops push pop [] s = Inr ([], [], s)"
| "run_ops push pop (Op_Push v # ops) s =
     seq_exec (push v s) (\<lambda>(res, s1).
       seq_exec (run_ops push pop ops s1) (\<lambda>(acc, out, s').
         Inr (case res of Push_Ok \<Rightarrow> v # acc | Push_Err _ \<Rightarrow> acc, out, s')))"
| "run_ops push pop (Op_Pop # ops) s =
     seq_exec (pop s) (\<lambda>(res, s1).
       seq_exec (run_ops push pop ops s1) (\<lambda>(acc, out, s').
         Inr (acc, case res of None \<Rightarrow> out | Some v \<Rightarrow> v # out, s')))"

text \<open>
  The taking side alone: \<open>rel s q\<close> says that \<open>q\<close> is what a ring in state \<open>s\<close> has ready to be
  taken. Some rings number their positions and are only right for a bounded number of
  them: \<open>budget\<close> counts the ones left, and taking uses none.
\<close>

locale queue_source =
  fixes rel :: "'s \<Rightarrow> 'a list \<Rightarrow> bool"
    and budget :: "'s \<Rightarrow> nat"
    and pop :: "'s \<Rightarrow> ('a option \<times> 's) exec"
  assumes pop_some: "rel s (v # q) \<Longrightarrow>
      \<exists>s'. pop s = Inr (Some v, s') \<and> rel s' q \<and> budget s \<le> budget s'"
    and pop_none: "rel s [] \<Longrightarrow> \<exists>s'. pop s = Inr (None, s') \<and> rel s' [] \<and> budget s \<le> budget s'"

text \<open>
  The giving side. An accepted push costs \<open>cost\<close> of the budget; a ring with no limit has
  cost 0. A push is refused exactly when \<open>bound\<close> values are in its way.
\<close>

locale bounded_sink =
  fixes rel :: "'s \<Rightarrow> 'a list \<Rightarrow> bool" and budget :: "'s \<Rightarrow> nat"
    and bound :: "'s \<Rightarrow> nat"
    and cost :: nat
    and push :: "'a \<Rightarrow> 's \<Rightarrow> ('a push_result \<times> 's) exec"
  assumes within: "rel s q \<Longrightarrow> length q \<le> bound s"
    and push_room: "rel s q \<Longrightarrow> length q < bound s \<Longrightarrow> cost \<le> budget s \<Longrightarrow>
      \<exists>s'. push v s = Inr (Push_Ok, s') \<and> rel s' (q @ [v]) \<and> bound s' = bound s
        \<and> budget s \<le> budget s' + cost"
    and push_full: "rel s q \<Longrightarrow> length q = bound s \<Longrightarrow>
      \<exists>s'. push v s = Inr (Push_Err v, s') \<and> rel s' q \<and> bound s' = bound s \<and> budget s \<le> budget s'"

text \<open>Both sides.\<close>

locale bounded_queue = queue_source rel budget pop + bounded_sink rel budget bound cost push
  for rel :: "'s \<Rightarrow> 'a list \<Rightarrow> bool" and budget :: "'s \<Rightarrow> nat"
    and pop :: "'s \<Rightarrow> ('a option \<times> 's) exec"
    and bound :: "'s \<Rightarrow> nat"
    and cost :: nat
    and push :: "'a \<Rightarrow> 's \<Rightarrow> ('a push_result \<times> 's) exec" +
  assumes pop_bound: "rel s q \<Longrightarrow> pop s = Inr (res, s') \<Longrightarrow> bound s' = bound s"
begin

lemma run_refines:
  assumes "rel s q" and "cost * length ops \<le> budget s"
    and "spec_ops (bound s) ops q = (acc, out, q')"
  shows "\<exists>s'. run_ops push pop ops s = Inr (acc, out, s') \<and> rel s' q' \<and> bound s' = bound s"
  using assms
proof (induction ops arbitrary: s q acc out q')
  case Nil
  then show ?case by simp
next
  case (Cons op ops)
  have later: "cost * length ops \<le> budget s1" if "budget s \<le> budget s1 + cost" for s1
    using Cons.prems(2) that by simp
  show ?case
  proof (cases op)
    case (Op_Push v)
    show ?thesis
    proof (cases "length q < bound s")
      case True
      moreover have "cost \<le> budget s" using Cons.prems(2) by simp
      ultimately obtain s1 where "push v s = Inr (Push_Ok, s1)" "rel s1 (q @ [v])" "bound s1 = bound s"
        "budget s \<le> budget s1 + cost"
        using push_room [OF Cons.prems(1)] by blast
      with Cons.IH [of s1 "q @ [v]"] Cons.prems(3) True Op_Push later show ?thesis
        by (auto split: prod.splits)
    next
      case False
      with within [OF Cons.prems(1)] have "length q = bound s" by simp
      then obtain s1 where "push v s = Inr (Push_Err v, s1)" "rel s1 q" "bound s1 = bound s"
        "budget s \<le> budget s1"
        using push_full [OF Cons.prems(1)] by blast
      with Cons.IH [of s1 q] Cons.prems(3) False Op_Push later show ?thesis
        by (auto split: prod.splits)
    qed
  next
    case Op_Pop
    show ?thesis
    proof (cases q)
      case Nil
      then obtain s1 where "pop s = Inr (None, s1)" "rel s1 []" "bound s1 = bound s" "budget s \<le> budget s1"
        using pop_none pop_bound Cons.prems(1) by blast
      with Cons.IH [of s1 "[]"] Cons.prems(3) Nil Op_Pop later show ?thesis
        by (auto split: prod.splits)
    next
      case (Cons v q1)
      then obtain s1 where "pop s = Inr (Some v, s1)" "rel s1 q1" "bound s1 = bound s" "budget s \<le> budget s1"
        using pop_some pop_bound Cons.prems(1) by blast
      with Cons.IH [of s1 q1] Cons.prems(3) Cons Op_Pop later show ?thesis
        by (auto split: prod.splits)
    qed
  qed
qed

end

section \<open>What user code sees of a queue\<close>

text \<open>
  What a drain does to the queue: it feeds the values to the callback in order, until
  the queue is empty, the limit is reached or the callback panics; the value it
  panicked on is consumed.
\<close>

fun feed ::
    "('s \<Rightarrow> 'a \<Rightarrow> 's \<times> completion) \<Rightarrow> usize option \<Rightarrow> usize \<Rightarrow> 's \<Rightarrow> 'a list
      \<Rightarrow> completion \<times> usize \<times> 's \<times> 'a list" where
  "feed f limit count st [] = (Returned, count, st, [])"
| "feed f limit count st (v # q) =
     (if \<not> below_limit count limit then (Returned, count, st, v # q)
      else case f st v of
             (st1, Panicked) \<Rightarrow> (Panicked, count + 1, st1, q)
           | (st1, Returned) \<Rightarrow> feed f limit (count + 1) st1 q)"

lemma feed_suffix:
  "feed f limit count st q = (fin, count', st', q') \<Longrightarrow> \<exists>taken. q = taken @ q' \<and> count' = count + of_nat (length taken)"
proof (induction q arbitrary: count st)
  case Nil
  then show ?case by (simp add: exI [of _ "[]"])
next
  case (Cons v q)
  show ?case
  proof (cases "below_limit count limit")
    case False
    then show ?thesis using Cons.prems by (simp add: exI [of _ "[]"])
  next
    case True
    obtain st1 fin1 where fv: "f st v = (st1, fin1)" by (metis prod.exhaust)
    show ?thesis
    proof (cases fin1)
      case Returned
      then obtain taken where "q = taken @ q'" "count' = count + 1 + of_nat (length taken)"
        using Cons True fv by fastforce
      then show ?thesis by (intro exI [of _ "v # taken"]) (simp add: add.assoc)
    next
      case Panicked
      then show ?thesis using Cons.prems True fv by (intro exI [of _ "[v]"]) auto
    qed
  qed
qed

text \<open>How far destructors run in a list of values: up to and including the first that panics.\<close>

fun drop_run :: "('a \<Rightarrow> completion) \<Rightarrow> 'a list \<Rightarrow> completion \<times> 'a list \<times> 'a list" where
  "drop_run dtor [] = (Returned, [], [])"
| "drop_run dtor (v # q) =
     (case dtor v of
        Panicked \<Rightarrow> (Panicked, [v], q)
      | Returned \<Rightarrow> (case drop_run dtor q of (fin, ds, rest) \<Rightarrow> (fin, v # ds, rest)))"

lemma drop_run_append: "drop_run dtor q = (fin, ds, rest) \<Longrightarrow> q = ds @ rest"
  by (induction q arbitrary: ds rest) (auto split: completion.splits prod.splits)

lemma drop_run_complete: "drop_run dtor q = (Returned, ds, rest) \<Longrightarrow> rest = [] \<and> ds = q"
  by (induction q arbitrary: ds rest) (auto split: completion.splits prod.splits)

end
