(* ===== verification/Spsc_Correct.thy ===== *)
theory Spsc_Correct
  imports Spsc Queue
begin

text \<open>
  The spsc ring is a bounded queue. \<open>spsc_rel\<close> relates the ring and its two handles to
  the list of values pushed and not yet taken: the cells between the cursors hold
  it, the producer's private cursor is the tail, and each cached cursor is a stale
  value of the peer's, never ahead of it.
\<close>

section \<open>The relation\<close>

definition ring_ok :: "'a spsc_ring \<Rightarrow> 'a list \<Rightarrow> bool" where
  "ring_ok r q \<longleftrightarrow>
     holds (s_capacity r) (s_buf r) (head (s_cursors r)) q
     \<and> tail (s_cursors r) = head (s_cursors r) + of_nat (length q)"

definition producer_ok :: "spsc_producer \<Rightarrow> 'a spsc_ring \<Rightarrow> 'a list \<Rightarrow> bool" where
  "producer_ok p r q \<longleftrightarrow>
     write_pos p = tail (s_cursors r)
     \<and> (\<exists>k. cached_head p = head (s_cursors r) - of_nat k \<and> k + length q \<le> slots (s_capacity r))"

definition consumer_ok :: "spsc_consumer \<Rightarrow> 'a spsc_ring \<Rightarrow> 'a list \<Rightarrow> bool" where
  "consumer_ok c r q \<longleftrightarrow> (\<exists>j \<le> length q. cached_tail c = head (s_cursors r) + of_nat j)"

type_synonym 'a spsc = "spsc_producer \<times> spsc_consumer \<times> 'a spsc_ring"

fun spsc_rel :: "'a spsc \<Rightarrow> 'a list \<Rightarrow> bool" where
  "spsc_rel (p, c, r) q \<longleftrightarrow> ring_ok r q \<and> producer_ok p r q \<and> consumer_ok c r q"

fun spsc_bound :: "'a spsc \<Rightarrow> nat" where
  "spsc_bound (p, c, r) = slots (s_capacity r)"

lemma ring_ok_holds: "ring_ok r q \<Longrightarrow> holds (s_capacity r) (s_buf r) (head (s_cursors r)) q"
  by (simp add: ring_ok_def)

lemma ring_ok_tail: "ring_ok r q \<Longrightarrow> tail (s_cursors r) = head (s_cursors r) + of_nat (length q)"
  by (simp add: ring_ok_def)

lemma ring_ok_bound: "ring_ok r q \<Longrightarrow> length q \<le> slots (s_capacity r)"
  by (simp add: ring_ok_def holds_def)

text \<open>Only the buffer, the cursors and the capacity matter to the relation.\<close>

lemma ring_ok_wake [simp]:
  "ring_ok (spsc_wake_producer r) q = ring_ok r q"
  "ring_ok (spsc_wake_consumer r) q = ring_ok r q"
  "producer_ok p (spsc_wake_producer r) q = producer_ok p r q"
  "producer_ok p (spsc_wake_consumer r) q = producer_ok p r q"
  "consumer_ok c (spsc_wake_producer r) q = consumer_ok c r q"
  "consumer_ok c (spsc_wake_consumer r) q = consumer_ok c r q"
  by (simp_all add: ring_ok_def producer_ok_def consumer_ok_def)

lemma ring_ok_effects [simp]:
  "ring_ok (r\<lparr>s_dropped := ds\<rparr>) q = ring_ok r q"
  "ring_ok (r\<lparr>s_producer_closed := x\<rparr>) q = ring_ok r q"
  "ring_ok (r\<lparr>s_consumer_closed := x\<rparr>) q = ring_ok r q"
  "ring_ok (r\<lparr>s_producer_park := y\<rparr>) q = ring_ok r q"
  "ring_ok (r\<lparr>s_consumer_park := y\<rparr>) q = ring_ok r q"
  "producer_ok p (r\<lparr>s_dropped := ds\<rparr>) q = producer_ok p r q"
  "producer_ok p (r\<lparr>s_producer_closed := x\<rparr>) q = producer_ok p r q"
  "producer_ok p (r\<lparr>s_consumer_closed := x\<rparr>) q = producer_ok p r q"
  "producer_ok p (r\<lparr>s_producer_park := y\<rparr>) q = producer_ok p r q"
  "producer_ok p (r\<lparr>s_consumer_park := y\<rparr>) q = producer_ok p r q"
  "consumer_ok c (r\<lparr>s_dropped := ds\<rparr>) q = consumer_ok c r q"
  "consumer_ok c (r\<lparr>s_producer_closed := x\<rparr>) q = consumer_ok c r q"
  "consumer_ok c (r\<lparr>s_consumer_closed := x\<rparr>) q = consumer_ok c r q"
  "consumer_ok c (r\<lparr>s_producer_park := y\<rparr>) q = consumer_ok c r q"
  "consumer_ok c (r\<lparr>s_consumer_park := y\<rparr>) q = consumer_ok c r q"
  by (simp_all add: ring_ok_def producer_ok_def consumer_ok_def)

lemma spsc_new_ok:
  assumes "wf_capacity c"
  shows "\<exists>r. spsc_new c = Inr (r :: 'a spsc_ring) \<and> spsc_rel (spsc_split r) [] \<and> s_capacity r = c
    \<and> s_dropped r = [] \<and> s_unparked r = [] \<and> head (s_cursors r) = 0"
proof -
  have "0 < capacity_get c" using slots_pos [OF assms] by (simp add: capacity_get_def word_less_nat_alt)
  then have "aligned_buf_new_with (capacity_get c) (\<lambda>_. None :: 'a maybe_uninit)
      = Inr (map (\<lambda>_. None) [0..<slots c])"
    by (simp add: aligned_buf_new_with_def capacity_get_def)
  then show ?thesis
    using assms
    by (auto simp: spsc_new_def spsc_split_def ring_ok_def producer_ok_def consumer_ok_def
        intro: holds_Nil exI [of _ 0])
qed

section \<open>The producer's steps\<close>

lemma producer_distance:
  assumes "ring_ok r q" and "write_pos p = tail (s_cursors r)"
    and "cached_head p = head (s_cursors r) - of_nat k"
  shows "write_pos p - cached_head p = of_nat (k + length q)"
  using assms by (simp add: ring_ok_def algebra_simps)

definition producer_room :: "spsc_producer \<Rightarrow> 'a spsc_ring \<Rightarrow> 'a list \<Rightarrow> bool" where
  "producer_room p r q \<longleftrightarrow>
     write_pos p = tail (s_cursors r)
     \<and> (\<exists>k. cached_head p = head (s_cursors r) - of_nat k \<and> k + length q < slots (s_capacity r))"

lemma producer_room_ok: "producer_room p r q \<Longrightarrow> producer_ok p r q"
  by (auto simp: producer_room_def producer_ok_def intro: less_imp_le)

lemma try_claim_spec:
  assumes "ring_ok r q" and "producer_ok p r q"
  shows "\<exists>p1. producer_ok p1 r q \<and>
    (if length q < slots (s_capacity r)
     then spsc_try_claim p r = (Some (tail (s_cursors r)), p1) \<and> producer_room p1 r q
     else spsc_try_claim p r = (None, p1))"
proof -
  let ?n = "slots (s_capacity r)"
  obtain k where wp: "write_pos p = tail (s_cursors r)"
    and ch: "cached_head p = head (s_cursors r) - of_nat k" and k: "k + length q \<le> ?n"
    using assms(2) by (auto simp: producer_ok_def)
  have far: "write_pos p - cached_head p = of_nat (k + length q)"
    by (rule producer_distance [OF assms(1) wp ch])
  have near: "write_pos p - head (s_cursors r) = of_nat (length q)"
    using assms(1) wp by (simp add: ring_ok_def)
  have full: "cap (s_capacity r) \<le> of_nat (length q) \<longleftrightarrow> length q = ?n"
    by (rule cap_le_of_nat [OF ring_ok_bound [OF assms(1)]])
  have stale: "cap (s_capacity r) \<le> of_nat (k + length q) \<longleftrightarrow> k + length q = ?n"
    by (rule cap_le_of_nat [OF k])
  have fresh: "producer_ok (p\<lparr>cached_head := head (s_cursors r)\<rparr>) r q"
    using wp k by (auto simp: producer_ok_def intro: exI [of _ 0])
  have room: "producer_room (p\<lparr>cached_head := head (s_cursors r)\<rparr>) r q" if "length q < ?n"
    using wp that by (auto simp: producer_room_def intro: exI [of _ 0])
  have "producer_room p r q" if "k + length q \<noteq> ?n"
    using wp ch k that by (auto simp: producer_room_def intro: exI [of _ k])
  then show ?thesis
    unfolding spsc_try_claim_def Let_def capacity_get_def far near full stale
    using assms(2) fresh room wp k ring_ok_bound [OF assms(1)] by auto
qed

lemma has_space_spec:
  assumes "ring_ok r q" and "producer_ok p r q"
  shows "\<exists>p1. spsc_has_space p r = (length q < slots (s_capacity r), p1) \<and> producer_ok p1 r q"
proof -
  let ?n = "slots (s_capacity r)"
  obtain k where wp: "write_pos p = tail (s_cursors r)"
    and ch: "cached_head p = head (s_cursors r) - of_nat k" and k: "k + length q \<le> ?n"
    using assms(2) by (auto simp: producer_ok_def)
  have far: "write_pos p - cached_head p = of_nat (k + length q)"
    by (rule producer_distance [OF assms(1) wp ch])
  have near: "write_pos p - head (s_cursors r) = of_nat (length q)"
    using assms(1) wp by (simp add: ring_ok_def)
  have fresh: "producer_ok (p\<lparr>cached_head := head (s_cursors r)\<rparr>) r q"
    using wp k by (auto simp: producer_ok_def intro: exI [of _ 0])
  have "of_nat (length q) < cap (s_capacity r) \<longleftrightarrow> length q \<noteq> ?n"
    using cap_le_of_nat [OF ring_ok_bound [OF assms(1)]] by (simp add: not_le [symmetric])
  moreover have "of_nat (k + length q) < cap (s_capacity r) \<longleftrightarrow> k + length q \<noteq> ?n"
    using cap_le_of_nat [OF k] by (simp add: not_le [symmetric])
  ultimately show ?thesis
    unfolding spsc_has_space_def Let_def capacity_get_def far near
    using assms(2) fresh k ring_ok_bound [OF assms(1)] by (auto simp: le_less)
qed

text \<open>Storing the tail past a value written at the end publishes it.\<close>

lemma publish_ok:
  assumes "ring_ok r q" and "producer_room p r q" and "consumer_ok c r q"
    and "s_buf r' = (s_buf r)[slot_of (s_capacity r) (tail (s_cursors r)) := Some v]"
    and "s_capacity r' = s_capacity r"
    and "s_cursors r' = (s_cursors r)\<lparr>tail := tail (s_cursors r) + 1\<rparr>"
  shows "spsc_rel (p\<lparr>write_pos := tail (s_cursors r) + 1\<rparr>, c, r') (q @ [v])"
proof -
  have "length q < slots (s_capacity r)" using assms(2) by (auto simp: producer_room_def)
  then have "ring_ok r' (q @ [v])"
    using holds_snoc [OF ring_ok_holds [OF assms(1)], of v] assms(1,4,5,6)
    by (simp add: ring_ok_def add.assoc)
  moreover have "consumer_ok c r' (q @ [v])"
    using assms(3,6) by (auto simp: consumer_ok_def intro: le_SucI)
  moreover have "producer_ok (p\<lparr>write_pos := tail (s_cursors r) + 1\<rparr>) r' (q @ [v])"
    using assms(2,5,6) by (auto simp: producer_room_def producer_ok_def Suc_le_eq)
  ultimately show ?thesis by simp
qed

lemma push_spec:
  assumes "spsc_rel (p, c, r) q"
  shows "\<exists>p' r'. s_capacity r' = s_capacity r \<and> s_dropped r' = s_dropped r \<and>
    (if length q < slots (s_capacity r)
     then spsc_push v p r = Inr (Push_Ok, p', r') \<and> spsc_rel (p', c, r') (q @ [v])
     else spsc_push v p r = Inr (Push_Err v, p', r') \<and> r' = r \<and> spsc_rel (p', c, r') q)"
proof -
  have ok: "ring_ok r q" "producer_ok p r q" "consumer_ok c r q" using assms by simp_all
  obtain p1 where p1: "producer_ok p1 r q"
    "if length q < slots (s_capacity r)
     then spsc_try_claim p r = (Some (tail (s_cursors r)), p1) \<and> producer_room p1 r q
     else spsc_try_claim p r = (None, p1)"
    using try_claim_spec [OF ok(1,2)] by blast
  show ?thesis
  proof (cases "length q < slots (s_capacity r)")
    case True
    let ?t = "tail (s_cursors r)"
    let ?r = "spsc_store_tail (?t + 1) (r\<lparr>s_buf := (s_buf r)[slot_of (s_capacity r) ?t := Some v]\<rparr>)"
    have "spsc_rel (p1\<lparr>write_pos := ?t + 1\<rparr>, c, ?r) (q @ [v])"
      using p1 True ok by (intro publish_ok [of r q]) (auto simp: spsc_store_tail_def)
    moreover have "slot_of (s_capacity r) ?t < length (s_buf r)"
      by (rule holds_slot [OF ring_ok_holds [OF ok(1)]])
    ultimately show ?thesis
      using p1 True
      by (intro exI [of _ "p1\<lparr>write_pos := ?t + 1\<rparr>"] exI [of _ "spsc_wake_consumer ?r"])
        (simp add: spsc_push_def spsc_slot_def Let_def, simp add: spsc_store_tail_def)
  next
    case False
    then show ?thesis using p1 ok by (auto simp: spsc_push_def)
  qed
qed

section \<open>The consumer's steps\<close>

lemma available_spec:
  assumes "ring_ok r q" and "consumer_ok c r q"
  shows "\<exists>c1. spsc_available (head (s_cursors r)) c r = (q \<noteq> [], c1) \<and> consumer_ok c1 r q
    \<and> (q = [] \<or> (\<exists>j < length q. cached_tail c1 = head (s_cursors r) + of_nat (Suc j)))"
proof -
  let ?h = "head (s_cursors r)"
  obtain j where j: "j \<le> length q" "cached_tail c = ?h + of_nat j"
    using assms(2) by (auto simp: consumer_ok_def)
  have tl: "tail (s_cursors r) = ?h + of_nat (length q)" using assms(1) by (rule ring_ok_tail)
  have bound: "length q \<le> slots (s_capacity r)" by (rule ring_ok_bound [OF assms(1)])
  have z: "(of_nat j :: usize) = 0 \<longleftrightarrow> j = 0" "(of_nat (length q) :: usize) = 0 \<longleftrightarrow> q = []"
    using of_nat_eq_0_slots [of j "s_capacity r"] of_nat_eq_0_slots [OF bound] bound j(1) by auto
  show ?thesis
  proof (cases "j = 0")
    case True
    then show ?thesis
      using j tl z by (cases q) (auto simp: spsc_available_def Let_def consumer_ok_def)
  next
    case False
    then obtain i where i: "j = Suc i" by (cases j) auto
    then have "spsc_available ?h c r = (q \<noteq> [], c)"
      using j z False by (auto simp: spsc_available_def)
    moreover have "\<exists>j < length q. cached_tail c = ?h + of_nat (Suc j)"
      using i j by (intro exI [of _ i]) simp
    ultimately show ?thesis using assms(2) by blast
  qed
qed

text \<open>Taking the value at the front and publishing the head past it.\<close>

lemma release_ok:
  assumes "ring_ok r (v # q)" and "producer_ok p r (v # q)"
    and "\<exists>j < length (v # q). cached_tail c = head (s_cursors r) + of_nat (Suc j)"
    and "s_buf r' = (s_buf r)[slot_of (s_capacity r) (head (s_cursors r)) := None]"
    and "s_capacity r' = s_capacity r"
    and "s_cursors r' = publish_head (s_cursors r) (head (s_cursors r) + 1)"
  shows "spsc_rel (p, c, r') q"
proof -
  have "ring_ok r' q"
    using holds_take [OF ring_ok_holds [OF assms(1)], of None] assms(1,4,5,6)
    by (simp add: ring_ok_def add.assoc)
  moreover have "consumer_ok c r' q"
  proof -
    obtain j where "j \<le> length q" "cached_tail c = head (s_cursors r) + of_nat (Suc j)"
      using assms(3) by (auto simp: less_Suc_eq_le)
    then show ?thesis
      using assms(6) unfolding consumer_ok_def by (intro exI [of _ j]) (simp add: add.assoc)
  qed
  moreover have "producer_ok p r' q"
  proof -
    obtain k where "cached_head p = head (s_cursors r) - of_nat k"
      "k + length (v # q) \<le> slots (s_capacity r)" "write_pos p = tail (s_cursors r)"
      using assms(2) by (auto simp: producer_ok_def)
    then show ?thesis
      using assms(5,6) by (auto simp: producer_ok_def intro!: exI [of _ "Suc k"])
  qed
  ultimately show ?thesis by simp
qed

lemma pop_spec:
  assumes "spsc_rel (p, c, r) q"
  shows "\<exists>c' r'. s_capacity r' = s_capacity r \<and> s_dropped r' = s_dropped r
    \<and> s_consumer_closed r' = s_consumer_closed r \<and>
    (case q of
       [] \<Rightarrow> spsc_pop c r = Inr (None, c', r') \<and> r' = r \<and> spsc_rel (p, c', r') []
     | v # q' \<Rightarrow> spsc_pop c r = Inr (Some v, c', r') \<and> spsc_rel (p, c', r') q')"
proof -
  have ok: "ring_ok r q" "producer_ok p r q" "consumer_ok c r q" using assms by simp_all
  obtain c1 where c1: "spsc_available (head (s_cursors r)) c r = (q \<noteq> [], c1)" "consumer_ok c1 r q"
    "q = [] \<or> (\<exists>j < length q. cached_tail c1 = head (s_cursors r) + of_nat (Suc j))"
    using available_spec [OF ok(1,3)] by blast
  show ?thesis
  proof (cases q)
    case Nil
    then show ?thesis using c1 ok by (auto simp: spsc_pop_def Let_def)
  next
    case (Cons v q')
    let ?h = "head (s_cursors r)"
    let ?r = "r\<lparr>s_buf := (s_buf r)[slot_of (s_capacity r) ?h := None],
      s_cursors := publish_head (s_cursors r) (?h + 1)\<rparr>"
    have "spsc_rel (p, c1, ?r) q'"
      using c1(3) ok Cons by (intro release_ok [of r v q']) auto
    moreover have "cell_take (s_buf r) (slot_of (s_capacity r) ?h)
        = Inr (v, (s_buf r)[slot_of (s_capacity r) ?h := None])"
      using cell_take_holds [OF ring_ok_holds [OF ok(1)]] Cons by simp
    ultimately show ?thesis
      using c1(1) Cons
      by (intro exI [of _ c1] exI [of _ "spsc_wake_producer ?r"])
        (simp add: spsc_pop_def spsc_slot_def Let_def)
  qed
qed

section \<open>Draining\<close>

text \<open>While a drain runs, the head that counts is the publisher's.\<close>

definition at_publisher :: "head_publisher \<Rightarrow> 'a spsc_ring \<Rightarrow> 'a spsc_ring" where
  "at_publisher g r = r\<lparr>s_cursors := publish_head (s_cursors r) (hp_head g)\<rparr>"

definition publisher_ok :: "head_publisher \<Rightarrow> 'a spsc_ring \<Rightarrow> bool" where
  "publisher_ok g r \<longleftrightarrow> hp_advanced g \<or> hp_head g = head (s_cursors r)"

lemma at_publisher_simps [simp]:
  "s_capacity (at_publisher g r) = s_capacity r"
  "s_buf (at_publisher g r) = s_buf r"
  "head (s_cursors (at_publisher g r)) = hp_head g"
  "tail (s_cursors (at_publisher g r)) = tail (s_cursors r)"
  by (simp_all add: at_publisher_def)

lemma available_at_publisher: "spsc_available h c (at_publisher g r) = spsc_available h c r"
  by (simp add: spsc_available_def)

lemma hp_drop_rel:
  assumes "publisher_ok g r" and "spsc_rel (p, c, at_publisher g r) q"
  shows "spsc_rel (p, c, hp_drop g r) q"
proof (cases "hp_advanced g")
  case True
  then show ?thesis using assms by (simp add: hp_drop_def at_publisher_def)
next
  case False
  then have "s_cursors (at_publisher g r) = s_cursors r"
    using assms(1) by (simp add: publisher_ok_def at_publisher_def publish_head_def)
  then have "at_publisher g r = r" by (simp add: at_publisher_def)
  then show ?thesis using assms False by (simp add: hp_drop_def)
qed

lemma hp_drop_fields [simp]:
  "s_capacity (hp_drop g r) = s_capacity r"
  "s_dropped (hp_drop g r) = s_dropped r"
  "s_producer_closed (hp_drop g r) = s_producer_closed r"
  "s_consumer_closed (hp_drop g r) = s_consumer_closed r"
  by (simp_all add: hp_drop_def)

lemma take_at_publisher:
  assumes "spsc_rel (p, c, at_publisher g r) (v # q)"
  shows "\<exists>c1. spsc_available (hp_position g) c r = (True, c1)
    \<and> cell_take (s_buf r) (spsc_slot r (hp_position g))
        = Inr (v, (s_buf r)[slot_of (s_capacity r) (hp_head g) := None])
    \<and> spsc_rel (p, c1, at_publisher (hp_advance g)
        (r\<lparr>s_buf := (s_buf r)[slot_of (s_capacity r) (hp_head g) := None]\<rparr>)) q"
proof -
  let ?r = "at_publisher g r"
  have ok: "ring_ok ?r (v # q)" "producer_ok p ?r (v # q)" "consumer_ok c ?r (v # q)"
    using assms by simp_all
  obtain c1 where c1: "spsc_available (hp_head g) c r = (True, c1)"
    "\<exists>j < length (v # q). cached_tail c1 = head (s_cursors ?r) + of_nat (Suc j)"
    using available_spec [OF ok(1,3)] by (auto simp: available_at_publisher)
  have "cell_take (s_buf r) (slot_of (s_capacity r) (hp_head g))
      = Inr (v, (s_buf r)[slot_of (s_capacity r) (hp_head g) := None])"
    using cell_take_holds [OF ring_ok_holds [OF ok(1)]] by simp
  moreover have "spsc_rel (p, c1, at_publisher (hp_advance g)
      (r\<lparr>s_buf := (s_buf r)[slot_of (s_capacity r) (hp_head g) := None]\<rparr>)) q"
    using ok(1,2) c1(2)
    by (intro release_ok [of ?r v q]) (simp_all add: at_publisher_def hp_advance_def publish_head_def)
  ultimately show ?thesis using c1(1) by (auto simp: spsc_slot_def hp_position_def)
qed

lemma drain_loop_spec:
  assumes "spsc_rel (p, c, at_publisher g r) q" and "publisher_ok g r"
    and "feed f limit count st q = (fin, count', st', q')"
  shows "\<exists>g' c' r'. spsc_drain_loop f limit g count st c r = Inr (fin, g', count', st', c', r')
    \<and> spsc_rel (p, c', at_publisher g' r') q' \<and> publisher_ok g' r'
    \<and> s_capacity r' = s_capacity r \<and> s_dropped r' = s_dropped r
    \<and> s_consumer_closed r' = s_consumer_closed r"
  using assms
proof (induction q arbitrary: g count st c r)
  case Nil
  obtain c1 where "spsc_available (hp_head g) c r = (False, c1)" "consumer_ok c1 (at_publisher g r) []"
    using available_spec [of "at_publisher g r" "[]" c] Nil.prems(1) by (auto simp: available_at_publisher)
  then show ?case
    using Nil.prems by (cases "below_limit count limit")
      (auto simp: spsc_drain_loop.simps [of f limit g] hp_position_def)
next
  case (Cons v q)
  show ?case
  proof (cases "below_limit count limit")
    case False
    then show ?thesis using Cons.prems by (auto simp: spsc_drain_loop.simps [of f limit g])
  next
    case True
    define buf where "buf = (s_buf r)[slot_of (s_capacity r) (hp_head g) := None]"
    obtain c1 where av: "spsc_available (hp_position g) c r = (True, c1)"
      and take: "cell_take (s_buf r) (spsc_slot r (hp_position g)) = Inr (v, buf)"
      and rel: "spsc_rel (p, c1, at_publisher (hp_advance g) (r\<lparr>s_buf := buf\<rparr>)) q"
      using take_at_publisher [OF Cons.prems(1)] unfolding buf_def by blast
    have pub: "publisher_ok (hp_advance g) (r\<lparr>s_buf := buf\<rparr>)"
      by (simp add: publisher_ok_def hp_advance_def)
    obtain st1 fin1 where fv: "f st v = (st1, fin1)" by (metis prod.exhaust)
    show ?thesis
    proof (cases fin1)
      case Returned
      then have "feed f limit (count + 1) st1 q = (fin, count', st', q')"
        using Cons.prems(3) True fv by simp
      from Cons.IH [OF rel pub this] show ?thesis
        by (subst spsc_drain_loop.simps) (simp add: True av take fv Returned)
    next
      case Panicked
      then show ?thesis
        using Cons.prems(3) True fv rel pub
        by (subst spsc_drain_loop.simps) (auto simp: av take)
    qed
  qed
qed

lemma drain_spec:
  assumes "spsc_rel (p, c, r) q" and "feed f limit 0 st q = (fin, count, st', q')"
  shows "\<exists>c' r'. spsc_drain_up_to limit f st c r = Inr (fin, count, st', c', r')
    \<and> spsc_rel (p, c', r') q' \<and> s_capacity r' = s_capacity r \<and> s_dropped r' = s_dropped r
    \<and> s_consumer_closed r' = s_consumer_closed r"
proof -
  let ?g = "hp_new (head (s_cursors r))"
  have "publisher_ok ?g r" by (simp add: publisher_ok_def hp_new_def)
  moreover have "at_publisher ?g r = r"
    by (cases "s_cursors r") (simp add: at_publisher_def hp_new_def publish_head_def)
  then have "spsc_rel (p, c, at_publisher ?g r) q" using assms(1) by simp
  ultimately obtain g' c' r' where loop:
    "spsc_drain_loop f limit ?g 0 st c r = Inr (fin, g', count, st', c', r')"
    "spsc_rel (p, c', at_publisher g' r') q'" "publisher_ok g' r'"
    "s_capacity r' = s_capacity r" "s_dropped r' = s_dropped r"
    "s_consumer_closed r' = s_consumer_closed r"
    using drain_loop_spec [OF _ _ assms(2)] by blast
  then show ?thesis
    using hp_drop_rel [OF loop(3,2)] by (simp add: spsc_drain_up_to_def)
qed

section \<open>The ring as a bounded queue\<close>

definition spsc_sys_push :: "'a \<Rightarrow> 'a spsc \<Rightarrow> ('a push_result \<times> 'a spsc) exec" where
  "spsc_sys_push v s =
     (case s of (p, c, r) \<Rightarrow> seq_exec (spsc_push v p r) (\<lambda>(res, p', r'). Inr (res, p', c, r')))"

definition spsc_sys_pop :: "'a spsc \<Rightarrow> ('a option \<times> 'a spsc) exec" where
  "spsc_sys_pop s =
     (case s of (p, c, r) \<Rightarrow> seq_exec (spsc_pop c r) (\<lambda>(res, c', r'). Inr (res, p, c', r')))"

lemma spsc_rel_bound: "spsc_rel s q \<Longrightarrow> length q \<le> spsc_bound s"
  by (cases s) (simp add: ring_ok_bound)

interpretation sq: bounded_queue spsc_rel "\<lambda>_. 0" spsc_sys_pop spsc_bound 0 spsc_sys_push
proof (unfold_locales, goal_cases)
  case (1 s v q)
  obtain p c r where s: "s = (p, c, r)" by (metis prod.exhaust)
  show ?case using pop_spec [of p c r "v # q"] 1 by (auto simp: s spsc_sys_pop_def)
next
  case (2 s)
  obtain p c r where s: "s = (p, c, r)" by (metis prod.exhaust)
  show ?case using pop_spec [of p c r "[]"] 2 by (auto simp: s spsc_sys_pop_def)
next
  case (3 s q)
  then show ?case by (rule spsc_rel_bound)
next
  case (4 s q v)
  obtain p c r where s: "s = (p, c, r)" by (metis prod.exhaust)
  show ?case using push_spec [of p c r q v] 4 by (auto simp: s spsc_sys_push_def)
next
  case (5 s q v)
  obtain p c r where s: "s = (p, c, r)" by (metis prod.exhaust)
  show ?case using push_spec [of p c r q v] 5 by (auto simp: s spsc_sys_push_def)
next
  case (6 s q res s')
  obtain p c r where s: "s = (p, c, r)" by (metis prod.exhaust)
  show ?case
    using pop_spec [of p c r q] 6
    by (cases q) (auto simp: s spsc_sys_pop_def seq_exec_eq_Inr)
qed

text \<open>
  C3. A fresh spsc ring behaves, on every sequence of pushes and pops, exactly as the
  abstract bounded queue of its capacity: the same pushes are accepted, the same
  values come out in the same order, and no operation faults.
\<close>

theorem spsc_is_bounded_fifo:
  assumes "wf_capacity c" and "spsc_new c = Inr r"
    and "spec_ops (slots c) ops [] = (accepted, popped, left)"
  shows "\<exists>s'. run_ops spsc_sys_push spsc_sys_pop ops (spsc_split r) = Inr (accepted, popped, s')
    \<and> spsc_rel s' left \<and> accepted = popped @ left"
proof -
  have r: "spsc_rel (spsc_split r) []" "s_capacity r = c"
    using spsc_new_ok [OF assms(1), where 'a = 'a] assms(2) by auto
  have "spsc_bound (spsc_split r) = slots c" using r(2) by (simp add: spsc_split_def)
  then show ?thesis
    using sq.run_refines [OF r(1) _, of ops accepted popped left] assms(3)
      spec_ops_fifo [OF assms(3)] by auto
qed

lemma push_head:
  "spsc_push v p r = Inr (res, p', r') \<Longrightarrow> head (s_cursors r') = head (s_cursors r)"
  by (auto simp: spsc_push_def spsc_store_tail_def seq_exec_eq_Inr Let_def split: prod.splits option.splits)

lemma spsc_reaches:
  assumes "wf_capacity cp" and "length q \<le> slots cp"
  shows "\<exists>p c r. spsc_rel (p, c, r :: 'a spsc_ring) q \<and> s_capacity r = cp \<and> s_dropped r = []
    \<and> head (s_cursors r) = 0"
  using assms(2)
proof (induction q rule: rev_induct)
  case Nil
  then show ?case
    using spsc_new_ok [OF assms(1), where 'a = 'a] by (auto simp: spsc_split_def)
next
  case (snoc v q)
  then obtain p c and r :: "'a spsc_ring" where rel: "spsc_rel (p, c, r) q"
    and eqs: "s_capacity r = cp" "s_dropped r = []" "head (s_cursors r) = 0" by auto
  have "length q < slots (s_capacity r)" using snoc.prems eqs by simp
  then obtain p' r' where "s_capacity r' = s_capacity r" "s_dropped r' = s_dropped r"
    "spsc_push v p r = Inr (Push_Ok, p', r')" "spsc_rel (p', c, r') (q @ [v])"
    using push_spec [OF rel, of v] by auto
  moreover have "head (s_cursors r') = head (s_cursors r)" using push_head calculation(3) .
  ultimately show ?case using eqs by auto
qed

theorem spsc_is_bounded_fifo_witness:
  "\<exists>r s'. spsc_new cap2 = Inr r \<and>
    run_ops spsc_sys_push spsc_sys_pop [Op_Push 1, Op_Push 2, Op_Push 3, Op_Pop, Op_Push 4, Op_Pop] (spsc_split r)
      = Inr ([1, 2, 4 :: nat], [1, 2], s') \<and> spsc_rel s' [4] \<and> [1, 2, 4 :: nat] = [1, 2] @ [4]"
proof -
  obtain r :: "nat spsc_ring" where "spsc_new cap2 = Inr r" using spsc_new_ok [OF cap2_wf] by blast
  moreover have "spec_ops (slots cap2) [Op_Push 1, Op_Push 2, Op_Push 3, Op_Pop, Op_Push 4, Op_Pop] []
      = ([1, 2, 4 :: nat], [1, 2], [4])"
    by (simp add: slots_cap2)
  ultimately show ?thesis using spsc_is_bounded_fifo [OF cap2_wf] by blast
qed

section \<open>Draining, with a callback that may panic\<close>

text \<open>
  C24. A drain hands the callback the queued values in order and takes exactly those: on
  a return, on a limit and on a panic alike, what is left in the ring is the suffix
  the callback never saw, the head is published past the rest, and the number
  returned is the number taken. In particular a value the callback panicked on is
  not read a second time.
\<close>

theorem spsc_drain_takes_a_prefix:
  assumes "spsc_rel (p, c, r) q"
    and "spsc_drain_up_to limit f st c r = Inr (fin, count, st', c', r')"
  shows "\<exists>taken left. q = taken @ left \<and> spsc_rel (p, c', r') left
    \<and> feed f limit 0 st q = (fin, count, st', left) \<and> count = of_nat (length taken)
    \<and> s_dropped r' = s_dropped r"
proof -
  obtain fin2 count2 st2 q2 where fd: "feed f limit 0 st q = (fin2, count2, st2, q2)"
    by (metis prod.exhaust)
  then show ?thesis
    using drain_spec [OF assms(1) fd] assms(2) feed_suffix [OF fd] by auto
qed

theorem spsc_drain_takes_a_prefix_witness:
  "\<exists>p c r c' r'. spsc_rel (p, c, r) [5, 6 :: nat]
    \<and> spsc_drain_up_to None (\<lambda>st v. (st + v, Panicked)) (0 :: nat) c r = Inr (Panicked, 1, 5, c', r')
    \<and> (\<exists>taken left. [5, 6] = taken @ left \<and> spsc_rel (p, c', r') left
      \<and> feed (\<lambda>st v. (st + v, Panicked)) None 0 0 [5, 6] = (Panicked, 1, 5, left)
      \<and> 1 = (of_nat (length taken) :: usize) \<and> s_dropped r' = s_dropped r)"
proof -
  obtain p c and r :: "nat spsc_ring" where rel: "spsc_rel (p, c, r) [5, 6]"
    using spsc_reaches [OF cap2_wf, of "[5, 6 :: nat]"] by (auto simp: slots_cap2)
  have "feed (\<lambda>st v. (st + v, Panicked)) None 0 0 [5, 6 :: nat] = (Panicked, 1, 5 :: nat, [6])"
    by (simp add: below_limit_def)
  from drain_spec [OF rel this] obtain c' r' where run:
    "spsc_drain_up_to None (\<lambda>st v. (st + v, Panicked)) (0 :: nat) c r = Inr (Panicked, 1, 5, c', r')"
    by blast
  show ?thesis
    using rel run spsc_drain_takes_a_prefix [OF rel run] by blast
qed

section \<open>The zero-copy reader\<close>

lemma wake_producer_effect:
  "s_producer_park (spsc_wake_producer r) = snd (sp_wake_published (s_producer_park r))"
  "s_unparked (spsc_wake_producer r) = s_unparked r @ fst (sp_wake_published (s_producer_park r))"
  by (simp_all add: spsc_wake_producer_def case_prod_beta)

lemma pop_ref_spec:
  assumes "spsc_rel (p, c, r) q"
  shows "\<exists>c'. spsc_rel (p, c', r) q \<and>
    (case q of
       [] \<Rightarrow> spsc_pop_ref c r = (None, c')
     | v # q' \<Rightarrow> \<exists>rd r'. spsc_pop_ref c r = (Some rd, c') \<and> spsc_reader_deref rd r = Inr v
         \<and> spsc_reader_drop dtor rd r = Inr (dtor v, r') \<and> spsc_rel (p, c', r') q'
         \<and> s_dropped r' = s_dropped r @ [v] \<and> s_capacity r' = s_capacity r
         \<and> s_producer_park r' = snd (sp_wake_published (s_producer_park r))
         \<and> s_unparked r' = s_unparked r @ fst (sp_wake_published (s_producer_park r)))"
proof -
  have ok: "ring_ok r q" "producer_ok p r q" "consumer_ok c r q" using assms by simp_all
  let ?h = "head (s_cursors r)"
  obtain c1 where c1: "spsc_available ?h c r = (q \<noteq> [], c1)" "consumer_ok c1 r q"
    "q = [] \<or> (\<exists>j < length q. cached_tail c1 = ?h + of_nat (Suc j))"
    using available_spec [OF ok(1,3)] by blast
  then have rel1: "spsc_rel (p, c1, r) q" using ok by simp
  show ?thesis
  proof (cases q)
    case Nil
    then show ?thesis using c1(1) rel1 by (intro exI [of _ c1]) (simp add: spsc_pop_ref_def Let_def)
  next
    case (Cons v q')
    let ?rd = "\<lparr>rd_slot = slot_of (s_capacity r) ?h, rd_head = ?h\<rparr>"
    let ?r = "r\<lparr>s_buf := (s_buf r)[slot_of (s_capacity r) ?h := None], s_dropped := s_dropped r @ [v],
      s_cursors := publish_head (s_cursors r) (?h + 1)\<rparr>"
    have h: "holds (s_capacity r) (s_buf r) ?h q" by (rule ring_ok_holds [OF ok(1)])
    have cell: "slot_of (s_capacity r) ?h < length (s_buf r)"
      "s_buf r ! slot_of (s_capacity r) ?h = Some v"
      using holds_slot [OF h] holds_peek [OF h] Cons by simp_all
    have "spsc_rel (p, c1, ?r) q'"
      using ok(1,2) c1(3) Cons by (intro release_ok [of r v q']) auto
    moreover have "spsc_reader_drop dtor ?rd r = Inr (dtor v, spsc_wake_producer ?r)"
      using cell by (simp add: spsc_reader_drop_def hp_drop_def hp_advance_def hp_new_def Let_def)
    ultimately show ?thesis
      using c1(1) rel1 cell Cons
      by (intro exI [of _ c1])
        (simp add: spsc_pop_ref_def spsc_slot_def spsc_reader_deref_def Let_def wake_producer_effect)
  qed
qed

text \<open>
  C29. The zero-copy reader shows the value at the front of the queue and leaves it
  there while it lives; dropping the reader takes that value out of the queue and
  destroys it once, gives the slot back and wakes a producer parked for space, all of it
  even when the destructor panics.
\<close>

theorem spsc_reader_consumes_front_on_drop:
  assumes "spsc_rel (p, c, r) (v # q)"
  shows "\<exists>rd c' r'. spsc_pop_ref c r = (Some rd, c') \<and> spsc_rel (p, c', r) (v # q)
    \<and> spsc_reader_deref rd r = Inr v
    \<and> spsc_reader_drop dtor rd r = Inr (dtor v, r') \<and> spsc_rel (p, c', r') q
    \<and> s_dropped r' = s_dropped r @ [v]
    \<and> s_producer_park r' = snd (sp_wake_published (s_producer_park r))
    \<and> s_unparked r' = s_unparked r @ fst (sp_wake_published (s_producer_park r))"
  using pop_ref_spec [OF assms, of dtor] by auto

theorem spsc_reader_consumes_front_on_drop_witness:
  "\<exists>p c r rd c' r'. spsc_pop_ref c r = (Some rd, c') \<and> spsc_rel (p, c', r) [5, 6 :: nat]
    \<and> spsc_reader_deref rd r = Inr 5
    \<and> spsc_reader_drop (\<lambda>_. Panicked) rd r = Inr (Panicked, r') \<and> spsc_rel (p, c', r') [6]
    \<and> s_dropped r' = s_dropped r @ [5]
    \<and> s_producer_park r' = snd (sp_wake_published (s_producer_park r))
    \<and> s_unparked r' = s_unparked r @ fst (sp_wake_published (s_producer_park r))"
proof -
  obtain p c and r :: "nat spsc_ring" where rel: "spsc_rel (p, c, r) [5, 6]"
    using spsc_reaches [OF cap2_wf, of "[5, 6 :: nat]"] by (auto simp: slots_cap2)
  from spsc_reader_consumes_front_on_drop [OF rel, of "\<lambda>_. Panicked"] show ?thesis by blast
qed

section \<open>Nothing is dropped twice\<close>

lemma pop_and_drop_all_spec:
  assumes "spsc_rel (p, c, r) q" and "drop_run dtor q = (fin, ds, rest)"
  shows "\<exists>c' r'. spsc_pop_and_drop_all dtor c r = Inr (fin, c', r') \<and> spsc_rel (p, c', r') rest
    \<and> s_dropped r' = s_dropped r @ ds \<and> s_capacity r' = s_capacity r"
  using assms
proof (induction q arbitrary: c r fin ds rest)
  case Nil
  then show ?case
    using pop_spec [OF Nil.prems(1)] by (subst spsc_pop_and_drop_all.simps) auto
next
  case (Cons v q)
  obtain c1 r1 where pop: "spsc_pop c r = Inr (Some v, c1, r1)" and rel: "spsc_rel (p, c1, r1) q"
    and eqs: "s_capacity r1 = s_capacity r" "s_dropped r1 = s_dropped r"
    using pop_spec [OF Cons.prems(1)] by auto
  let ?r = "r1\<lparr>s_dropped := s_dropped r1 @ [v]\<rparr>"
  have rel': "spsc_rel (p, c1, ?r) q" using rel by simp
  show ?case
  proof (cases "dtor v")
    case Returned
    obtain ds1 where "drop_run dtor q = (fin, ds1, rest)" "ds = v # ds1"
      using Cons.prems(2) Returned by (auto split: prod.splits)
    with Cons.IH [OF rel' this(1)] eqs show ?thesis
      by (subst spsc_pop_and_drop_all.simps) (auto simp: pop Returned)
  next
    case Panicked
    then show ?thesis
      using Cons.prems(2) eqs rel' by (subst spsc_pop_and_drop_all.simps) (auto simp: pop)
  qed
qed

lemma consumer_drop_spec:
  assumes "spsc_rel (p, c, r) q" and "drop_run dtor q = (fin, ds, rest)"
  shows "\<exists>c' r'. spsc_consumer_drop dtor c r = Inr (fin, r') \<and> spsc_rel (p, c', r') rest
    \<and> s_dropped r' = s_dropped r @ ds \<and> s_capacity r' = s_capacity r
    \<and> is_closed (s_consumer_closed r')"
  using pop_and_drop_all_spec [OF assms]
  by (auto simp: spsc_consumer_drop_def consumer_close_drop_def)

lemma drop_positions_spec:
  assumes "holds (s_capacity r) (s_buf r) h q" and "drop_run dtor q = (fin, ds, rest)"
  shows "\<exists>r'. spsc_drop_positions dtor (map (\<lambda>i. h + of_nat i) [0..<length q]) r = Inr (fin, r')
    \<and> s_dropped r' = s_dropped r @ ds"
  using assms
proof (induction q arbitrary: r h fin ds rest)
  case Nil
  then show ?case by simp
next
  case (Cons v q)
  let ?r = "r\<lparr>s_buf := (s_buf r)[slot_of (s_capacity r) h := None], s_dropped := s_dropped r @ [v]\<rparr>"
  have positions: "map (\<lambda>i. h + of_nat i) [0..<length (v # q)]
      = h # map (\<lambda>i. h + 1 + of_nat i) [0..<length q]"
    by (simp add: upt_conv_Cons map_Suc_upt [symmetric] add.assoc del: upt_Suc)
  have take: "cell_take (s_buf r) (slot_of (s_capacity r) h)
      = Inr (v, (s_buf r)[slot_of (s_capacity r) h := None])"
    using cell_take_holds [OF Cons.prems(1)] by simp
  have rest: "holds (s_capacity ?r) (s_buf ?r) (h + 1) q"
    using holds_take [OF Cons.prems(1)] by simp
  show ?case
  proof (cases "dtor v")
    case Returned
    obtain ds1 where "drop_run dtor q = (fin, ds1, rest)" "ds = v # ds1"
      using Cons.prems(2) Returned by (auto split: prod.splits)
    with Cons.IH [OF rest this(1)] Returned show ?thesis
      unfolding positions by (auto simp: take)
  next
    case Panicked
    then show ?thesis
      using Cons.prems(2) unfolding positions by (auto simp: take)
  qed
qed

lemma unat_run_end:
  assumes "unat h + n < 2 ^ LENGTH(64)"
  shows "unat (h + of_nat n :: usize) = unat h + n"
  using unat_add_of_nat [of h n] assms by simp

lemma cursors_len_ok:
  assumes "ring_ok r q"
  shows "unat (cursors_len (s_cursors r)) = length q"
  using unat_of_nat_slots [OF ring_ok_bound [OF assms]] ring_ok_tail [OF assms]
  by (simp add: cursors_len_def del: unat_of_nat)

lemma ring_drop_spec:
  assumes "ring_ok r q" and "unat (head (s_cursors r)) + length q < 2 ^ LENGTH(64)"
    and "drop_run dtor q = (fin, ds, rest)"
  shows "\<exists>r'. spsc_ring_drop dtor r = Inr (fin, r') \<and> s_dropped r' = s_dropped r @ ds"
proof -
  have "unat (head (s_cursors r)) \<le> unat (tail (s_cursors r))"
    unfolding ring_ok_tail [OF assms(1)] unat_run_end [OF assms(2)] by simp
  then have "occupied (s_cursors r) = map (\<lambda>i. head (s_cursors r) + of_nat i) [0..<length q]"
    by (simp only: occupied_eq_run cursors_len_ok [OF assms(1)])
  then show ?thesis
    using drop_positions_spec [OF ring_ok_holds [OF assms(1)] assms(3)]
    by (simp add: spsc_ring_drop_def)
qed

text \<open>The end of the queue stays where it is while the consumer takes from its front.\<close>

lemma consumer_drop_end:
  assumes "spsc_rel (p, c, r) q" and "drop_run dtor q = (fin, ds, rest)"
    and "unat (head (s_cursors r)) + length q < 2 ^ LENGTH(64)"
    and "spsc_rel (p, c', r') rest" and "s_capacity r' = s_capacity r"
  shows "unat (head (s_cursors r')) + length rest < 2 ^ LENGTH(64)"
proof -
  have q: "length q = length ds + length rest" using drop_run_append [OF assms(2)] by simp
  have "tail (s_cursors r') = tail (s_cursors r)"
    using assms(1,4) by (auto simp: producer_ok_def)
  then have "head (s_cursors r') + of_nat (length rest) = head (s_cursors r) + of_nat (length q)"
    using assms(1,4) by (simp add: ring_ok_def)
  then have "head (s_cursors r') = head (s_cursors r) + of_nat (length ds)"
    by (simp add: q algebra_simps)
  moreover have "unat (head (s_cursors r) + of_nat (length ds)) = unat (head (s_cursors r)) + length ds"
    by (rule unat_run_end) (use assms(3) q in simp)
  ultimately show ?thesis using assms(3) q by simp
qed

text \<open>
  C23. Every value left in an spsc ring is destroyed at most once, the oldest first,
  whatever its destructor does: dropping the consumer destroys the backlog up to the
  first destructor that panics, closes the consumer end all the same, and dropping
  the ring then destroys what that left, up to a second panic, and never a value that
  is already gone. A value stays undestroyed only after two panics, one in the
  consumer's drop and one in the ring's; otherwise each is destroyed exactly once.
\<close>

theorem spsc_drops_each_value_once:
  assumes "spsc_rel (p, c, r) q" and "unat (head (s_cursors r)) + length q < 2 ^ 64"
    and "drop_run dtor q = (fin, first, rest)" and "drop_run dtor rest = (fin2, second, leaked)"
  shows "\<exists>r1 r2. spsc_consumer_drop dtor c r = Inr (fin, r1) \<and> is_closed (s_consumer_closed r1)
    \<and> spsc_ring_drop dtor r1 = Inr (fin2, r2)
    \<and> s_dropped r2 = s_dropped r @ first @ second \<and> q = first @ second @ leaked
    \<and> (leaked = [] \<or> fin = Panicked \<and> fin2 = Panicked)"
proof -
  have room: "unat (head (s_cursors r)) + length q < 2 ^ LENGTH(64)" using assms(2) by simp
  obtain c1 r1 where one: "spsc_consumer_drop dtor c r = Inr (fin, r1)" "spsc_rel (p, c1, r1) rest"
    "s_dropped r1 = s_dropped r @ first" "s_capacity r1 = s_capacity r"
    "is_closed (s_consumer_closed r1)"
    using consumer_drop_spec [OF assms(1,3)] by blast
  have "ring_ok r1 rest" using one(2) by simp
  then obtain r2 where "spsc_ring_drop dtor r1 = Inr (fin2, r2)" "s_dropped r2 = s_dropped r1 @ second"
    using ring_drop_spec [OF _ consumer_drop_end [OF assms(1,3) room one(2,4)] assms(4)] by blast
  moreover have "q = first @ second @ leaked"
    using drop_run_append [OF assms(3)] drop_run_append [OF assms(4)] by simp
  moreover have "leaked = [] \<or> fin2 = Panicked"
    using drop_run_complete [of dtor rest second leaked] assms(4) by (cases fin2) auto
  moreover have "leaked = [] \<or> fin = Panicked"
    using drop_run_complete [of dtor q first rest] assms(3,4) by (cases fin) auto
  ultimately show ?thesis using one by auto
qed

theorem spsc_drops_each_value_once_witness:
  "\<exists>p c r r1 r2. spsc_rel (p, c, r) [5, 6 :: nat]
    \<and> spsc_consumer_drop (\<lambda>v. if v = 5 then Panicked else Returned) c r = Inr (Panicked, r1)
    \<and> is_closed (s_consumer_closed r1)
    \<and> spsc_ring_drop (\<lambda>v. if v = 5 then Panicked else Returned) r1 = Inr (Returned, r2)
    \<and> s_dropped r2 = s_dropped r @ [5] @ [6]"
proof -
  obtain p c and r :: "nat spsc_ring" where rel: "spsc_rel (p, c, r) [5, 6]" and "head (s_cursors r) = 0"
    using spsc_reaches [OF cap2_wf, of "[5, 6 :: nat]"] by (auto simp: slots_cap2)
  then have "unat (head (s_cursors r)) + length [5 :: nat, 6] < 2 ^ 64" by simp
  from spsc_drops_each_value_once [OF rel this,
      of "\<lambda>v. if v = 5 then Panicked else Returned" Panicked "[5]" "[6]" Returned "[6]" "[]"]
  obtain r1 r2 where
    "spsc_consumer_drop (\<lambda>v. if v = 5 then Panicked else Returned) c r = Inr (Panicked, r1)"
    "is_closed (s_consumer_closed r1)"
    "spsc_ring_drop (\<lambda>v. if v = 5 then Panicked else Returned) r1 = Inr (Returned, r2)"
    "s_dropped r2 = s_dropped r @ [5] @ [6]"
    by auto
  with rel show ?thesis by blast
qed

section \<open>Reservations\<close>

lemma reserve_spec:
  assumes "spsc_rel (p, c, r) q"
  shows "\<exists>p1. spsc_rel (p1, c, r) q \<and>
    (if length q < slots (s_capacity r)
     then spsc_reserve p r = (Some \<lparr>sw_slot = slot_of (s_capacity r) (tail (s_cursors r)),
            sw_pos = tail (s_cursors r)\<rparr>, p1) \<and> producer_room p1 r q
     else spsc_reserve p r = (None, p1))"
proof -
  have ok: "ring_ok r q" "producer_ok p r q" "consumer_ok c r q" using assms by simp_all
  obtain p1 where p1: "producer_ok p1 r q"
    "if length q < slots (s_capacity r)
     then spsc_try_claim p r = (Some (tail (s_cursors r)), p1) \<and> producer_room p1 r q
     else spsc_try_claim p r = (None, p1)"
    using try_claim_spec [OF ok(1,2)] by blast
  then show ?thesis
    using ok by (intro exI [of _ p1]) (auto simp: spsc_reserve_def spsc_slot_def)
qed

lemma write_past_end_rel:
  assumes "spsc_rel (p, c, r) q" and "length q < slots (s_capacity r)"
  shows "spsc_rel (p, c, r\<lparr>s_buf := (s_buf r)[slot_of (s_capacity r) (tail (s_cursors r)) := x]\<rparr>) q"
proof -
  have "ring_ok (r\<lparr>s_buf := (s_buf r)[slot_of (s_capacity r) (tail (s_cursors r)) := x]\<rparr>) q"
    using assms holds_write_past_end [of "s_capacity r" "s_buf r" "head (s_cursors r)" q x]
    by (simp add: ring_ok_def)
  then show ?thesis using assms(1) by (simp add: producer_ok_def consumer_ok_def)
qed

lemma written_slot_spec:
  fixes r :: "'a spsc_ring"
  assumes rel: "spsc_rel (p, c, r) q" and room: "producer_room p r q"
    and writer: "w = \<lparr>sw_slot = slot_of (s_capacity r) (tail (s_cursors r)), sw_pos = tail (s_cursors r)\<rparr>"
  shows "\<exists>ws r1. spsc_write w v r = Inr (ws, r1) \<and> spsc_rel (p, c, r1) q
    \<and> (\<exists>r2. spsc_written_slot_drop ws r1 = Inr r2 \<and> spsc_rel (p, c, r2) q
        \<and> s_dropped r2 = s_dropped r @ [v])
    \<and> (\<exists>p2 r2. spsc_commit ws p r1 = Inr (p2, r2) \<and> spsc_rel (p2, c, r2) (q @ [v])
        \<and> s_dropped r2 = s_dropped r)"
proof -
  define t where "t = tail (s_cursors r)"
  define i where "i = slot_of (s_capacity r) t"
  define r1 where "r1 = r\<lparr>s_buf := (s_buf r)[i := Some v]\<rparr>"
  define ws where "ws = \<lparr>ws_value = uncommitted_armed i, ws_pos = t\<rparr>"
  define r2 where "r2 = r\<lparr>s_buf := (s_buf r)[i := None], s_dropped := s_dropped r @ [v]\<rparr>"
  have lt: "length q < slots (s_capacity r)" using room by (auto simp: producer_room_def)
  have i: "i < length (s_buf r)" using rel unfolding i_def by (auto intro: holds_slot ring_ok_holds)
  have written: "spsc_write w v r = Inr (ws, r1)"
    using i by (simp add: spsc_write_def writer ws_def r1_def i_def t_def)
  have rel1: "spsc_rel (p, c, r1) q"
    unfolding r1_def i_def t_def by (rule write_past_end_rel [OF rel lt])
  have "spsc_written_slot_drop ws r1 = Inr r2"
    using i by (simp add: spsc_written_slot_drop_def uncommitted_drop_def drop_if_uncommitted_def
        uncommitted_armed_def ws_def r1_def r2_def)
  moreover have "spsc_rel (p, c, r2) q"
    using write_past_end_rel [OF rel lt, of None] by (simp add: r2_def i_def t_def)
  moreover have "s_dropped r2 = s_dropped r @ [v]" by (simp add: r2_def)
  moreover have "spsc_commit ws p r1
      = Inr (p\<lparr>write_pos := t + 1\<rparr>, spsc_wake_consumer (spsc_store_tail (t + 1) r1))"
    by (simp add: spsc_commit_def spsc_written_slot_drop_def uncommitted_drop_def
        drop_if_uncommitted_def uncommitted_commit_def uncommitted_armed_def Let_def ws_def)
  moreover have "spsc_rel (p\<lparr>write_pos := t + 1\<rparr>, c, spsc_store_tail (t + 1) r1) (q @ [v])"
    unfolding t_def using rel room
    by (intro publish_ok [of r q]) (auto simp: spsc_store_tail_def r1_def i_def t_def)
  moreover have "s_dropped (spsc_store_tail (t + 1) r1) = s_dropped r"
    by (simp add: r1_def spsc_store_tail_def)
  ultimately show ?thesis using written rel1
    by (intro exI [of _ ws] exI [of _ r1]) auto
qed

text \<open>
  C30. A reservation does not reach the consumer until it is committed. Reserving
  succeeds exactly when there is room; a reservation that is dropped or forgotten,
  written or not, leaves the queue as it was; dropping a written one destroys its
  value, once; committing it appends its value to the queue and destroys nothing.
\<close>

theorem spsc_reservation_is_invisible_until_commit:
  assumes "spsc_rel (p, c, r) q" and "spsc_reserve p r = (w, p1)"
  shows "(w = None) = (length q = slots (s_capacity r)) \<and> spsc_rel (p1, c, r) q
    \<and> (\<forall>writer v. w = Some writer \<longrightarrow>
        spsc_slot_writer_drop writer r = r
        \<and> (\<exists>ws r1. spsc_write writer v r = Inr (ws, r1) \<and> spsc_rel (p1, c, r1) q
          \<and> (\<exists>r2. spsc_written_slot_drop ws r1 = Inr r2 \<and> spsc_rel (p1, c, r2) q
              \<and> s_dropped r2 = s_dropped r @ [v])
          \<and> (\<exists>p2 r2. spsc_commit ws p1 r1 = Inr (p2, r2) \<and> spsc_rel (p2, c, r2) (q @ [v])
              \<and> s_dropped r2 = s_dropped r)))"
proof (cases "length q < slots (s_capacity r)")
  case False
  then have "w = None \<and> spsc_rel (p1, c, r) q" using reserve_spec [OF assms(1)] assms(2) by auto
  moreover have "length q = slots (s_capacity r)"
    using False spsc_rel_bound [OF assms(1)] by simp
  ultimately show ?thesis by simp
next
  case True
  let ?w = "\<lparr>sw_slot = slot_of (s_capacity r) (tail (s_cursors r)), sw_pos = tail (s_cursors r)\<rparr>"
  have w: "w = Some ?w" and room: "producer_room p1 r q" and rel: "spsc_rel (p1, c, r) q"
    using reserve_spec [OF assms(1)] assms(2) True by auto
  show ?thesis
    unfolding w using written_slot_spec [OF rel room refl] rel True
    by (auto simp: spsc_slot_writer_drop_def simp del: spsc_rel.simps)
qed

theorem spsc_reservation_is_invisible_until_commit_witness:
  "\<exists>p c r w p1. spsc_rel (p, c, r) [5 :: nat] \<and> spsc_reserve p r = (Some w, p1)
    \<and> spsc_slot_writer_drop w r = r
    \<and> (\<exists>ws r1 p2 r2. spsc_write w 6 r = Inr (ws, r1) \<and> spsc_commit ws p1 r1 = Inr (p2, r2)
        \<and> spsc_rel (p2, c, r2) [5, 6])"
proof -
  obtain p c and r :: "nat spsc_ring" where rel: "spsc_rel (p, c, r) [5]"
    and cap: "s_capacity r = cap2"
    using spsc_reaches [OF cap2_wf, of "[5 :: nat]"] by (auto simp: slots_cap2)
  obtain w p1 where res: "spsc_reserve p r = (w, p1)" by (metis prod.exhaust)
  note claim = spsc_reservation_is_invisible_until_commit [OF rel res]
  have "w \<noteq> None" using claim by (simp add: cap slots_cap2)
  then obtain writer where "w = Some writer" by blast
  with claim rel res show ?thesis by (simp del: spsc_rel.simps) blast
qed

section \<open>Splitting a borrowed ring again\<close>

text \<open>
  A ring that has moved \<open>n\<close> values in all, and keeps nothing outside its queue: every cell
  that is not between the cursors is uninitialised.
\<close>

definition empty_beyond :: "'a spsc_ring \<Rightarrow> nat \<Rightarrow> bool" where
  "empty_beyond r n \<longleftrightarrow>
     (\<forall>i < length (s_buf r).
        (\<forall>j < n. i \<noteq> slot_of (s_capacity r) (head (s_cursors r) + of_nat j)) \<longrightarrow> s_buf r ! i = None)"

fun tidy :: "nat \<Rightarrow> 'a spsc \<Rightarrow> 'a list \<Rightarrow> bool" where
  "tidy n (p, c, r) q \<longleftrightarrow>
     spsc_rel (p, c, r) q \<and> tail (s_cursors r) = of_nat n \<and> empty_beyond r (length q)"

lemma tidyD: "tidy n (p, c, r) q \<Longrightarrow> spsc_rel (p, c, r) q"
  "tidy n (p, c, r) q \<Longrightarrow> tail (s_cursors r) = of_nat n"
  "tidy n (p, c, r) q \<Longrightarrow> empty_beyond r (length q)"
  by simp_all

lemma empty_beyond_push:
  assumes "empty_beyond r n" and "tail (s_cursors r) = head (s_cursors r) + of_nat n"
    and "s_buf r' = (s_buf r)[slot_of (s_capacity r) (tail (s_cursors r)) := Some v]"
    and "s_capacity r' = s_capacity r" and "head (s_cursors r') = head (s_cursors r)"
  shows "empty_beyond r' (Suc n)"
  unfolding empty_beyond_def
proof (intro allI impI)
  fix i assume i: "i < length (s_buf r')"
    and far: "\<forall>j < Suc n. i \<noteq> slot_of (s_capacity r') (head (s_cursors r') + of_nat j)"
  then have "i \<noteq> slot_of (s_capacity r) (tail (s_cursors r))" using assms(2,4,5) by simp
  moreover have "s_buf r ! i = None"
    using assms(1) i far by (simp add: empty_beyond_def assms(3-5))
  ultimately show "s_buf r' ! i = None" by (simp add: assms(3))
qed

lemma empty_beyond_pop:
  assumes "empty_beyond r (Suc n)"
    and "s_buf r' = (s_buf r)[slot_of (s_capacity r) (head (s_cursors r)) := None]"
    and "s_capacity r' = s_capacity r" and "head (s_cursors r') = head (s_cursors r) + 1"
  shows "empty_beyond r' n"
  unfolding empty_beyond_def
proof (intro allI impI)
  fix i assume i: "i < length (s_buf r')"
    and far: "\<forall>j < n. i \<noteq> slot_of (s_capacity r') (head (s_cursors r') + of_nat j)"
  show "s_buf r' ! i = None"
  proof (cases "i = slot_of (s_capacity r) (head (s_cursors r))")
    case False
    have "i \<noteq> slot_of (s_capacity r) (head (s_cursors r) + of_nat j)" if "j < Suc n" for j
      using far that False by (cases j) (simp_all add: assms(3,4) add.assoc)
    then have "s_buf r ! i = None" using assms(1) i by (simp add: empty_beyond_def assms(2))
    then show ?thesis using False by (simp add: assms(2))
  qed (use i assms(2) in simp)
qed

lemma push_tidy:
  assumes "tidy n (p, c, r) q" and "spsc_push v p r = Inr (res, p', r')"
  shows "\<exists>q'. tidy (n + (if res = Push_Ok then 1 else 0)) (p', c, r') q'"
proof -
  note T = tidyD [OF assms(1)]
  have tl: "tail (s_cursors r) = head (s_cursors r) + of_nat (length q)" using T(1) by (simp add: ring_ok_def)
  obtain p1 where claim: "if length q < slots (s_capacity r)
     then spsc_try_claim p r = (Some (tail (s_cursors r)), p1) else spsc_try_claim p r = (None, p1)"
    using try_claim_spec [of r q p] T(1) by (metis spsc_rel.simps)
  show ?thesis
  proof (cases "length q < slots (s_capacity r)")
    case True
    then have r: "spsc_rel (p', c, r') (q @ [v])" "res = Push_Ok" "s_capacity r' = s_capacity r"
      using push_spec [OF T(1), of v] assms(2) by auto
    have e: "s_buf r' = (s_buf r)[slot_of (s_capacity r) (tail (s_cursors r)) := Some v]"
      "head (s_cursors r') = head (s_cursors r)" "tail (s_cursors r') = tail (s_cursors r) + 1"
      using assms(2) claim True
      by (auto simp: spsc_push_def spsc_slot_def spsc_store_tail_def cell_write_def Let_def split: if_splits)
    have "tail (s_cursors r') = of_nat (n + 1)" using e(3) T(2) by simp
    then have "tidy (n + 1) (p', c, r') (q @ [v])"
      using r(1) empty_beyond_push [OF T(3) tl e(1) r(3) e(2)] by simp
    then show ?thesis using r(2) by auto
  next
    case False
    then have "spsc_rel (p', c, r') q" "res \<noteq> Push_Ok" "r' = r"
      using push_spec [OF T(1), of v] assms(2) by auto
    then show ?thesis using T(2,3) by auto
  qed
qed

lemma pop_tidy:
  assumes "tidy n (p, c, r) q" and "spsc_pop c r = Inr (res, c', r')"
  shows "tidy n (p, c', r') (tl q) \<and> (res = None) = (q = [])"
proof (cases q)
  case Nil
  then show ?thesis using assms pop_spec [OF tidyD(1) [OF assms(1)]] by auto
next
  case (Cons v q')
  note T = tidyD [OF assms(1)]
  have r: "spsc_rel (p, c', r') q'" "res = Some v" "s_capacity r' = s_capacity r"
    using pop_spec [OF T(1)] assms(2) Cons by auto
  have e: "s_buf r' = (s_buf r)[slot_of (s_capacity r) (head (s_cursors r)) := None]"
    "head (s_cursors r') = head (s_cursors r) + 1" "tail (s_cursors r') = tail (s_cursors r)"
    using assms(2) r(2)
    by (auto simp: spsc_pop_def spsc_slot_def cell_take_def publish_head_def Let_def seq_exec_eq_Inr
        split: prod.splits bool.splits if_splits)
  have "empty_beyond r' (length q')"
    using empty_beyond_pop [OF _ e(1) r(3) e(2)] T(3) Cons by simp
  then show ?thesis using r e(3) T(2) Cons by simp
qed

lemma run_ops_tidy:
  assumes "tidy n s q" and "run_ops spsc_sys_push spsc_sys_pop ops s = Inr (acc, out, s')"
  shows "\<exists>q'. tidy (n + length acc) s' q' \<and> length acc \<le> length ops"
  using assms
proof (induction ops arbitrary: n s q acc out)
  case (Cons op ops)
  obtain p c r where s: "s = (p, c, r)" by (metis prod.exhaust)
  show ?case
  proof (cases op)
    case (Op_Push v)
    obtain res p1 r1 acc1 where st: "spsc_push v p r = Inr (res, p1, r1)"
      "run_ops spsc_sys_push spsc_sys_pop ops (p1, c, r1) = Inr (acc1, out, s')"
      "acc = (case res of Push_Ok \<Rightarrow> v # acc1 | Push_Err _ \<Rightarrow> acc1)"
      using Cons.prems(2) Op_Push s
      by (auto simp: spsc_sys_push_def [of v "(p, c, r)"] seq_exec_eq_Inr simp del: tidy.simps)
    obtain q1 where "tidy (n + (if res = Push_Ok then 1 else 0)) (p1, c, r1) q1"
      using push_tidy [OF _ st(1)] Cons.prems(1) s by blast
    from Cons.IH [OF this st(2)] show ?thesis
      using st(3) by (cases res) (auto intro: le_SucI)
  next
    case Op_Pop
    obtain res c1 r1 out1 where st: "spsc_pop c r = Inr (res, c1, r1)"
      "run_ops spsc_sys_push spsc_sys_pop ops (p, c1, r1) = Inr (acc, out1, s')"
      using Cons.prems(2) Op_Pop s
      by (auto simp: spsc_sys_pop_def [of "(p, c, r)"] seq_exec_eq_Inr simp del: tidy.simps)
    have "tidy n (p, c1, r1) (tl q)" using pop_tidy [OF _ st(1)] Cons.prems(1) s by blast
    from Cons.IH [OF this st(2)] show ?thesis using Op_Pop by (auto intro: le_SucI)
  qed
qed auto

lemma pop_all_tidy:
  assumes "tidy n (p, c, r) q" and "\<forall>v. dtor v = Returned"
  shows "\<exists>c' r'. spsc_pop_and_drop_all dtor c r = Inr (Returned, c', r') \<and> tidy n (p, c', r') []"
  using assms(1)
proof (induction q arbitrary: c r)
  case Nil
  obtain c' r' where pop: "spsc_pop c r = Inr (None, c', r')"
    using pop_spec [OF tidyD(1) [OF Nil]] by auto
  then show ?case
    using pop_tidy [OF Nil pop] by (subst spsc_pop_and_drop_all.simps) auto
next
  case (Cons v q)
  obtain c' r' where pop: "spsc_pop c r = Inr (Some v, c', r')"
    using pop_spec [OF tidyD(1) [OF Cons.prems]] by auto
  have "tidy n (p, c', r'\<lparr>s_dropped := s_dropped r' @ [v]\<rparr>) q"
    using pop_tidy [OF Cons.prems pop] by (simp add: empty_beyond_def)
  moreover have "dtor v = Returned" using assms(2) by simp
  ultimately show ?case
    using Cons.IH by (subst spsc_pop_and_drop_all.simps) (simp add: pop del: tidy.simps)
qed

text \<open>The handles of a second split start at 0, whatever the ring's cursors are.\<close>

lemma fresh_pop_reads_dead_cell:
  assumes "tidy n (p, c, r) []" and "(of_nat n :: usize) \<noteq> 0"
  shows "spsc_pop \<lparr>cached_tail = 0\<rparr> r = Inl Uninitialized_Read"
proof -
  let ?h = "head (s_cursors r)"
  have ok: "ring_ok r []" using assms(1) by simp
  have h: "?h = of_nat n" using ring_ok_tail [OF ok] tidyD(2) [OF assms(1)] by simp
  have i: "slot_of (s_capacity r) ?h < length (s_buf r)"
    using holds_slot [OF ring_ok_holds [OF ok]] .
  then have "s_buf r ! slot_of (s_capacity r) ?h = None"
    using tidyD(3) [OF assms(1)] by (simp add: empty_beyond_def)
  then show ?thesis
    using i assms(2) unfolding h
    by (simp add: spsc_pop_def spsc_available_def spsc_slot_def cell_take_def cell_peek_def h Let_def)
qed

text \<open>
  C32. Splitting a borrowed ring a second time is unsound. The documentation says the
  exclusive borrow lets the ring be split only once; the borrow ends with the first
  pair of handles. Whatever values a first session of pushes and pops moved, at least
  one and fewer than two to the 64, once both handles are dropped a second split starts
  its private cursors at 0, and its first pop, on a ring that is empty, takes the stale
  cursor for data and reads a cell with no value in it.
\<close>

theorem resplit_reads_uninitialized_memory:
  assumes "wf_capacity c" and "spsc_new c = Inr r0" and "spsc_split_borrowed r0 = s0"
    and "run_ops spsc_sys_push spsc_sys_pop ops s0 = Inr (accepted, popped, p, k, r)"
    and "accepted \<noteq> []" and "length ops < 2 ^ 64" and "\<forall>v. dtor v = Returned"
  shows "\<exists>r1 p2 k2 r2. spsc_consumer_drop dtor k r = Inr (Returned, r1)
    \<and> spsc_split_borrowed (spsc_producer_drop r1) = (p2, k2, r2)
    \<and> spsc_is_empty r2 \<and> spsc_pop k2 r2 = Inl Uninitialized_Read"
proof -
  have r0: "spsc_rel (spsc_split r0) []" "head (s_cursors r0) = 0" and buf: "s_buf r0 = map (\<lambda>_. None) [0..<slots c]"
    using spsc_new_ok [OF assms(1), where 'a = 'a] assms(2)
    by (auto simp: spsc_new_def aligned_buf_new_with_def capacity_get_def seq_exec_eq_Inr split: if_splits)
  have "tidy 0 s0 []"
    using r0 buf assms(3) by (auto simp: spsc_split_def spsc_split_borrowed_def ring_ok_def empty_beyond_def)
  then obtain q where q: "tidy (length accepted) (p, k, r) q" "length accepted \<le> length ops"
    using run_ops_tidy [OF _ assms(4)] by (metis add_0)
  have "unat (of_nat (length accepted) :: usize) = length accepted"
    using q(2) assms(6) by (intro unat_of_nat_usize) simp
  then have n: "(of_nat (length accepted) :: usize) \<noteq> 0" using assms(5) by auto
  obtain k1 r1 where all: "spsc_pop_and_drop_all dtor k r = Inr (Returned, k1, r1)"
    "tidy (length accepted) (p, k1, r1) []" using pop_all_tidy [OF q(1) assms(7)] by blast
  let ?r = "spsc_producer_drop (consumer_close_drop r1)"
  have same: "s_buf ?r = s_buf r1" "s_cursors ?r = s_cursors r1" "s_capacity ?r = s_capacity r1"
    by (simp_all add: spsc_producer_drop_def consumer_close_drop_def)
  have "tidy (length accepted) (p, k1, ?r) []"
    using all(2) by (auto simp: same empty_beyond_def ring_ok_def producer_ok_def consumer_ok_def)
  moreover from this have "spsc_is_empty ?r"
    by (simp add: ring_ok_def spsc_is_empty_def cursors_is_empty_def cursors_len_def)
  ultimately show ?thesis
    using all(1) fresh_pop_reads_dead_cell [OF _ n]
    by (auto simp: spsc_consumer_drop_def spsc_split_borrowed_def)
qed

theorem resplit_reads_uninitialized_memory_witness:
  "\<exists>r0 p k r r1 p2 k2 r2. spsc_new cap2 = Inr r0
    \<and> run_ops spsc_sys_push spsc_sys_pop [Op_Push 7, Op_Pop, Op_Push (8 :: nat)] (spsc_split_borrowed r0)
        = Inr ([7, 8], [7], p, k, r)
    \<and> spsc_consumer_drop (\<lambda>_. Returned) k r = Inr (Returned, r1)
    \<and> spsc_split_borrowed (spsc_producer_drop r1) = (p2, k2, r2)
    \<and> spsc_is_empty r2 \<and> spsc_pop k2 r2 = Inl Uninitialized_Read"
proof -
  let ?ops = "[Op_Push 7, Op_Pop, Op_Push (8 :: nat)]"
  obtain r0 :: "nat spsc_ring" where r0: "spsc_new cap2 = Inr r0" "spsc_rel (spsc_split r0) []"
    "s_capacity r0 = cap2" using spsc_new_ok [OF cap2_wf] by blast
  have "spsc_bound (spsc_split r0) = 2" using r0(3) by (simp add: spsc_split_def slots_cap2)
  moreover have "spec_ops 2 ?ops [] = ([7, 8], [7], [8])" by simp
  ultimately obtain p k r where run:
    "run_ops spsc_sys_push spsc_sys_pop ?ops (spsc_split_borrowed r0) = Inr ([7, 8], [7], p, k, r)"
    using sq.run_refines [OF r0(2), of ?ops "[7, 8]" "[7]" "[8]"]
    by (auto simp: spsc_split_def spsc_split_borrowed_def simp del: run_ops.simps)
  have "[7, 8 :: nat] \<noteq> []" "length ?ops < 2 ^ 64" "\<forall>v :: nat. (\<lambda>_. Returned) v = Returned" by simp_all
  from resplit_reads_uninitialized_memory [OF cap2_wf r0(1) refl run this] r0(1) run
  show ?thesis by blast
qed

end
