(* ===== verification/Backoff.thy ===== *)
theory Backoff
  imports Prelude
begin

text \<open>
  \<open>src/common/backoff.rs\<close>: the escalating spin that precedes a park. The spin's only
  effect on values is the failure counter; the pauses and the yield it issues are
  functions of the counter it starts from.
\<close>

definition PARK_THRESHOLD :: u32 where "PARK_THRESHOLD = 12"
definition SPIN_CAP :: u32 where "SPIN_CAP = 6"
definition COUNTER_CAP :: u32 where "COUNTER_CAP = 12"
definition YIELD_FROM :: u32 where "YIELD_FROM = 8"

record backoff =
  failures :: u32

definition backoff_new :: backoff where
  "backoff_new = \<lparr>failures = 0\<rparr>"

definition backoff_reset :: "backoff \<Rightarrow> backoff" where
  "backoff_reset b = b\<lparr>failures := 0\<rparr>"

definition is_exhausted :: "backoff \<Rightarrow> bool" where
  "is_exhausted b \<longleftrightarrow> failures b \<ge> PARK_THRESHOLD"

definition saturating_add :: "u32 \<Rightarrow> u32 \<Rightarrow> u32" where
  "saturating_add a b = (if unat a + unat b < 2 ^ 32 then a + b else - 1)"

definition backoff_spin :: "backoff \<Rightarrow> backoff" where
  "backoff_spin b = b\<lparr>failures := min (saturating_add (failures b) 1) COUNTER_CAP\<rparr>"

text \<open>The \<open>spin_loop\<close> hints one \<open>spin\<close> issues, and whether it also yields.\<close>

definition spin_pauses :: "backoff \<Rightarrow> nat" where
  "spin_pauses b = (if failures b > 1 then 2 ^ unat (min (failures b) SPIN_CAP) else 0)"

definition spin_yields :: "backoff \<Rightarrow> bool" where
  "spin_yields b \<longleftrightarrow> failures b \<ge> YIELD_FROM"

definition spin_unless_exhausted :: "backoff \<Rightarrow> bool \<times> backoff" where
  "spin_unless_exhausted b =
     (if is_exhausted b then (False, b) else (True, backoff_spin b))"

declare PARK_THRESHOLD_def [ring_defs] COUNTER_CAP_def [ring_defs]

section \<open>The schedule\<close>

text \<open>The number of spins left before a park, which bounds every loop that gates on it.\<close>

definition spins_left :: "backoff \<Rightarrow> nat" where
  "spins_left b = 12 - unat (failures b)"

lemma spins_left_le: "spins_left b \<le> 12"
  by (simp add: spins_left_def)

lemma unat_spin:
  assumes "unat (failures b) < 12"
  shows "unat (failures (backoff_spin b)) = Suc (unat (failures b))"
proof -
  have "unat (failures b + 1) = Suc (unat (failures b))"
    using assms by (simp add: unat_word_ariths)
  then show ?thesis
    using assms
    by (simp add: backoff_spin_def saturating_add_def COUNTER_CAP_def min_def word_le_nat_alt)
qed

lemma spin_unless_exhausted_cases:
  "spin_unless_exhausted b =
     (if spins_left b = 0 then (False, b) else (True, backoff_spin b))"
  by (auto simp: spin_unless_exhausted_def is_exhausted_def PARK_THRESHOLD_def spins_left_def
      word_le_nat_alt)

lemma spins_left_spin:
  "spins_left b \<noteq> 0 \<Longrightarrow> spins_left (backoff_spin b) = spins_left b - 1"
  using unat_spin [of b] by (auto simp: spins_left_def)

lemma spins_left_new [simp]: "spins_left backoff_new = 12"
  by (simp add: spins_left_def backoff_new_def)

lemma spins_left_reset [simp]: "spins_left (backoff_reset b) = 12"
  by (simp add: spins_left_def backoff_reset_def)

fun gate_calls :: "nat \<Rightarrow> backoff \<Rightarrow> bool list" where
  "gate_calls 0 b = []"
| "gate_calls (Suc n) b = (case spin_unless_exhausted b of (go, b') \<Rightarrow> go # gate_calls n b')"

lemma gate_calls_eq:
  "gate_calls n b = replicate (min n (spins_left b)) True @ replicate (n - spins_left b) False"
proof (induction n arbitrary: b)
  case 0
  then show ?case by simp
next
  case (Suc n)
  show ?case
  proof (cases "spins_left b = 0")
    case True
    then show ?thesis using Suc.IH [of b] by (simp add: spin_unless_exhausted_cases)
  next
    case False
    then obtain k where k: "spins_left b = Suc k" by (cases "spins_left b") auto
    then have "spins_left (backoff_spin b) = k" using spins_left_spin [of b] by simp
    then show ?thesis using Suc.IH [of "backoff_spin b"] k by (simp add: spin_unless_exhausted_cases)
  qed
qed

text \<open>
  The pre-park gate lets a fresh waiter spin exactly twelve times and then tells
  it to park on every further call, until the schedule is reset.
\<close>

theorem gate_admits_twelve_spins:
  "gate_calls n backoff_new = replicate (min n 12) True @ replicate (n - 12) False
    \<and> gate_calls n (backoff_reset b) = replicate (min n 12) True @ replicate (n - 12) False"
  by (simp add: gate_calls_eq)

lemma unat_spins: "n \<le> 12 \<Longrightarrow> unat (failures ((backoff_spin ^^ n) backoff_new)) = n"
proof (induction n)
  case 0
  then show ?case by (simp add: backoff_new_def)
next
  case (Suc n)
  then show ?case using unat_spin [of "(backoff_spin ^^ n) backoff_new"] by simp
qed

text \<open>
  The schedule of a fresh counter, by the number \<open>n\<close> of spins that came before: none,
  none, then 4, 8, 16, 32, 64 pauses and 64 from there on; the ninth spin, which
  finds the counter at 8, is the first that also yields.
\<close>

lemma spin_schedule:
  assumes "n \<le> 12"
  shows "spin_pauses ((backoff_spin ^^ n) backoff_new) = (if n \<le> 1 then 0 else 2 ^ min n 6)"
    and "spin_yields ((backoff_spin ^^ n) backoff_new) \<longleftrightarrow> 8 \<le> n"
  using unat_spins [OF assms]
  by (auto simp: spin_pauses_def spin_yields_def SPIN_CAP_def YIELD_FROM_def word_less_nat_alt
      word_le_nat_alt min_def)

end
