(* ===== verification/Blocking.thy ===== *)
theory Blocking
  imports Backoff Queue "HOL-Library.Sublist"
begin

text \<open>
  \<open>src/common/single_parker.rs\<close>: the blocking loops of a side with one waiter. A loop
  runs against a schedule of its peers' calls: any number of them may fall between two
  of its own calls, up to the next \<open>Turn\<close>, which lets the waiter go on (the disarm that
  ends a call is taken together with the call before it). At the park it waits for a
  peer to unpark it, and a \<open>Turn\<close> there is a spurious return; \<open>In_Park\<close> is the outcome
  of a schedule that ends while it waits. Every turn of a loop either spends one of
  the twelve spins or passes a park, which consumes the schedule, so the loops are
  total.
\<close>

datatype 's peer_step = Peer "'s \<Rightarrow> 's exec" | Turn

type_synonym 's schedule = "'s peer_step list"

fun interfere :: "'s schedule \<Rightarrow> 's \<Rightarrow> ('s \<times> 's schedule) exec" where
  "interfere [] s = Inr (s, [])"
| "interfere (Turn # ps) s = Inr (s, ps)"
| "interfere (Peer f # ps) s = seq_exec (f s) (\<lambda>s'. interfere ps s')"

text \<open>\<open>thread::park\<close>: it returns once the waiter's handle was claimed by an unpark.\<close>

fun await_unpark :: "('s \<Rightarrow> bool) \<Rightarrow> 's schedule \<Rightarrow> 's \<Rightarrow> (bool \<times> 's \<times> 's schedule) exec" where
  "await_unpark woken [] s = Inr (False, s, [])"
| "await_unpark woken (Turn # ps) s = Inr (True, s, ps)"
| "await_unpark woken (Peer f # ps) s =
     seq_exec (f s) (\<lambda>s'. if woken s' then Inr (True, s', ps) else await_unpark woken ps s')"

lemma interfere_length: "interfere ps s = Inr (s', ps') \<Longrightarrow> length ps' \<le> length ps"
  by (induction ps s arbitrary: s' ps' rule: interfere.induct)
    (fastforce simp: seq_exec_eq_Inr intro: le_SucI)+

lemma await_unpark_length:
  "await_unpark woken ps s = Inr (True, s', ps') \<Longrightarrow> length ps' < length ps"
  by (induction woken ps s arbitrary: s' ps' rule: await_unpark.induct)
    (auto simp: seq_exec_eq_Inr split: if_splits dest: less_SucI)

datatype ('r, 's) blocking = Done 'r 's | In_Park 's

section \<open>The blocking push\<close>

text \<open>
  \<open>after_park\<close> is what a ring does to its spin schedule once it has parked: nothing in
  \<open>SingleParkerProducer\<close>, a reset in the mpsc ring's own copy of the loop.
\<close>

record ('a, 's) producer_ops =
  try_push :: "'a \<Rightarrow> 's \<Rightarrow> ('a push_result \<times> 's) exec"
  consumer_gone :: "'s \<Rightarrow> bool"
  arm_push :: "'s \<Rightarrow> 's"
  disarm_push :: "'s \<Rightarrow> 's"
  push_woken :: "'s \<Rightarrow> bool"
  after_park :: "backoff \<Rightarrow> backoff"

function push_block_loop ::
    "('a, 's) producer_ops \<Rightarrow> 's schedule \<Rightarrow> backoff \<Rightarrow> 'a \<Rightarrow> 's
      \<Rightarrow> ('a push_result, 's) blocking exec" where
  "push_block_loop ops ps b v s =
     seq_exec (interfere ps s) (\<lambda>(s0, ps0).
      if consumer_gone ops s0 then Inr (Done (Push_Err v) s0)
      else
        seq_exec (interfere ps0 s0) (\<lambda>(s1, ps1).
        seq_exec (try_push ops v s1) (\<lambda>(res, s2).
        case res of
          Push_Ok \<Rightarrow> Inr (Done Push_Ok s2)
        | Push_Err v1 \<Rightarrow>
            case spin_unless_exhausted b of
              (True, b1) \<Rightarrow> push_block_loop ops ps1 b1 v1 s2
            | (False, b1) \<Rightarrow>
                seq_exec (interfere ps1 s2) (\<lambda>(sa, psa).
                seq_exec (interfere psa (arm_push ops sa)) (\<lambda>(s3, ps2).
                if consumer_gone ops s3 then Inr (Done (Push_Err v1) (disarm_push ops s3))
                else
                  seq_exec (interfere ps2 s3) (\<lambda>(s4, ps3).
                  seq_exec (try_push ops v1 s4) (\<lambda>(res1, s5).
                  case res1 of
                    Push_Ok \<Rightarrow> Inr (Done Push_Ok (disarm_push ops s5))
                  | Push_Err v2 \<Rightarrow>
                      seq_exec (await_unpark (push_woken ops) ps3 s5) (\<lambda>(returned, s6, ps4).
                      if returned then
                        seq_exec (interfere ps4 s6) (\<lambda>(s7, ps5).
                        push_block_loop ops ps5 (after_park ops b1) v2 (disarm_push ops s7))
                      else Inr (In_Park s6)))))))))"
  by pat_completeness auto

lemma spins_left_spin_less: "(True, b1) = spin_unless_exhausted b \<Longrightarrow> spins_left b1 < spins_left b"
  by (auto simp: spin_unless_exhausted_cases spins_left_spin split: if_splits)

termination push_block_loop
  by (relation "measures [\<lambda>(_, ps, _). length ps, \<lambda>(_, _, b, _). spins_left b]")
    (auto dest!: interfere_length await_unpark_length spins_left_spin_less)

declare push_block_loop.simps [simp del]

definition push_block ::
    "('a, 's) producer_ops \<Rightarrow> 's schedule \<Rightarrow> 'a \<Rightarrow> 's \<Rightarrow> ('a push_result, 's) blocking exec" where
  "push_block ops ps v s = push_block_loop ops ps backoff_new v s"

section \<open>The blocking pop\<close>

record ('a, 's) consumer_ops =
  try_pop :: "'s \<Rightarrow> ('a option \<times> 's) exec"
  producer_gone :: "'s \<Rightarrow> bool"
  arm_pop :: "'s \<Rightarrow> 's"
  disarm_pop :: "'s \<Rightarrow> 's"
  pop_woken :: "'s \<Rightarrow> bool"

definition last_pop :: "('a, 's) consumer_ops \<Rightarrow> 's schedule \<Rightarrow> 's \<Rightarrow> ('a option, 's) blocking exec" where
  "last_pop ops ps s =
     seq_exec (interfere ps s) (\<lambda>(s1, _). seq_exec (try_pop ops s1) (\<lambda>(res, s2). Inr (Done res s2)))"

function pop_block_loop ::
    "('a, 's) consumer_ops \<Rightarrow> 's schedule \<Rightarrow> backoff \<Rightarrow> 's \<Rightarrow> ('a option, 's) blocking exec" where
  "pop_block_loop ops ps b s =
     seq_exec (interfere ps s) (\<lambda>(s0, ps0).
     seq_exec (try_pop ops s0) (\<lambda>(res, s1).
     case res of
       Some v \<Rightarrow> Inr (Done (Some v) s1)
     | None \<Rightarrow>
         seq_exec (interfere ps0 s1) (\<lambda>(s2, ps1).
         if producer_gone ops s2 then last_pop ops ps1 s2
         else
           case spin_unless_exhausted b of
             (True, b1) \<Rightarrow> pop_block_loop ops ps1 b1 s2
           | (False, b1) \<Rightarrow>
               seq_exec (interfere ps1 s2) (\<lambda>(sa, psa).
               seq_exec (interfere psa (arm_pop ops sa)) (\<lambda>(s3, ps2).
               seq_exec (try_pop ops s3) (\<lambda>(res1, s4).
               case res1 of
                 Some v \<Rightarrow> Inr (Done (Some v) (disarm_pop ops s4))
               | None \<Rightarrow>
                   seq_exec (interfere ps2 s4) (\<lambda>(s5, ps3).
                   if producer_gone ops s5 then last_pop ops ps3 (disarm_pop ops s5)
                   else
                     seq_exec (await_unpark (pop_woken ops) ps3 s5) (\<lambda>(returned, s6, ps4).
                     if returned then
                       seq_exec (interfere ps4 s6) (\<lambda>(s7, ps5).
                       pop_block_loop ops ps5 b1 (disarm_pop ops s7))
                     else Inr (In_Park s6)))))))))"
  by pat_completeness auto

termination pop_block_loop
  by (relation "measures [\<lambda>(_, ps, _). length ps, \<lambda>(_, _, b, _). spins_left b]")
    (auto dest!: interfere_length await_unpark_length spins_left_spin_less)

declare pop_block_loop.simps [simp del]

definition pop_block ::
    "('a, 's) consumer_ops \<Rightarrow> 's schedule \<Rightarrow> 's \<Rightarrow> ('a option, 's) blocking exec" where
  "pop_block ops ps s = pop_block_loop ops ps backoff_new s"

section \<open>The contract of the blocking push\<close>

definition permitted :: "(('s \<Rightarrow> 's exec) \<Rightarrow> bool) \<Rightarrow> 's schedule \<Rightarrow> bool" where
  "permitted peer ps \<longleftrightarrow> (\<forall>f. Peer f \<in> set ps \<longrightarrow> peer f)"

lemma permitted_simps [simp]:
  "permitted peer []"
  "permitted peer (Turn # ps) = permitted peer ps"
  "permitted peer (Peer f # ps) = (peer f \<and> permitted peer ps)"
  by (auto simp: permitted_def)

text \<open>
  A bounded queue with a producer that may wait; \<open>evolves q q'\<close> says what its peers may do
  to the queue. The law they must keep is the handshake: a step that changes what the
  armed waiter looked at, the queue or the close flag, unparks it.
\<close>

locale blocking_producer = bounded_sink rel budget bound cost push
  for rel :: "'s \<Rightarrow> 'a list \<Rightarrow> bool" and budget bound cost push +
  fixes evolves :: "'a list \<Rightarrow> 'a list \<Rightarrow> bool" and after :: "backoff \<Rightarrow> backoff" and gone armed woken :: "'s \<Rightarrow> bool" and arm disarm :: "'s \<Rightarrow> 's"
    and peer :: "('s \<Rightarrow> 's exec) \<Rightarrow> bool"
  assumes evolves_refl: "evolves q q"
    and evolves_trans: "evolves q q1 \<Longrightarrow> evolves q1 q2 \<Longrightarrow> evolves q q2"
    and push_keeps: "rel s q \<Longrightarrow> length q = bound s \<Longrightarrow> push v s = Inr (res, s') \<Longrightarrow>
      gone s' = gone s \<and> armed s' = armed s \<and> woken s' = woken s"
    and arm_law: "rel s q \<Longrightarrow> rel (arm s) q \<and> bound (arm s) = bound s
      \<and> budget s \<le> budget (arm s) \<and> gone (arm s) = gone s
      \<and> armed (arm s) \<and> \<not> woken (arm s)"
    and disarm_law: "rel s q \<Longrightarrow> rel (disarm s) q \<and> bound (disarm s) = bound s
      \<and> budget s \<le> budget (disarm s) \<and> gone (disarm s) = gone s"
    and peer_law: "peer f \<Longrightarrow> rel s q \<Longrightarrow>
      \<exists>s' q'. f s = Inr s' \<and> rel s' q' \<and> evolves q q' \<and> bound s' = bound s
        \<and> budget s \<le> budget s' + cost \<and> (woken s \<longrightarrow> woken s')
        \<and> (armed s \<longrightarrow> woken s' \<or> (armed s' \<and> q' = q \<and> gone s' = gone s))"
begin

definition ready :: "'s schedule \<Rightarrow> 's \<Rightarrow> bool" where
  "ready ps s \<longleftrightarrow> permitted peer ps \<and> cost * Suc (length ps) \<le> budget s"

lemma ready_mono: "ready ps s \<Longrightarrow> budget s \<le> budget s' \<Longrightarrow> ready ps s'"
  by (simp add: ready_def)

lemma ready_cost: "ready ps s \<Longrightarrow> cost \<le> budget s"
  by (simp add: ready_def)

lemma interfere_law:
  assumes "ready ps s" and "rel s q"
  shows "\<exists>s' ps' q'. interfere ps s = Inr (s', ps') \<and> ready ps' s' \<and> rel s' q'
    \<and> evolves q q' \<and> bound s' = bound s \<and> (woken s \<longrightarrow> woken s')
    \<and> (armed s \<longrightarrow> woken s' \<or> (armed s' \<and> q' = q \<and> gone s' = gone s))"
  using assms
proof (induction ps arbitrary: s q)
  case Nil
  then show ?case
    using evolves_refl by (intro exI [of _ s] exI [of _ "[]"] exI [of _ q]) simp
next
  case (Cons x ps)
  show ?case
  proof (cases x)
    case Turn
    then show ?thesis
      using Cons.prems evolves_refl
      by (intro exI [of _ s] exI [of _ ps] exI [of _ q]) (simp add: ready_def)
  next
    case (Peer f)
    then have "peer f" "permitted peer ps" "cost * Suc (length ps) + cost \<le> budget s"
      using Cons.prems(1) by (simp_all add: ready_def)
    then obtain s1 q1 where f: "f s = Inr s1" "ready ps s1" "rel s1 q1" "evolves q q1" "bound s1 = bound s"
      "woken s \<longrightarrow> woken s1" "armed s \<longrightarrow> woken s1 \<or> (armed s1 \<and> q1 = q \<and> gone s1 = gone s)"
      using peer_law [OF _ Cons.prems(2), of f] by (fastforce simp: ready_def)
    obtain s' ps' q' where r: "interfere ps s1 = Inr (s', ps')" "ready ps' s'" "rel s' q'"
      "evolves q1 q'" "bound s' = bound s1" "woken s1 \<longrightarrow> woken s'"
      "armed s1 \<longrightarrow> woken s' \<or> (armed s' \<and> q' = q1 \<and> gone s' = gone s1)"
      using Cons.IH [OF f(2,3)] by blast
    have "evolves q q'" using f(4) r(4) by (rule evolves_trans)
    then show ?thesis
      using f r Peer by (intro exI [of _ s'] exI [of _ ps'] exI [of _ q']) auto
  qed
qed

lemma await_law:
  assumes "ready ps s" and "rel s q" and "woken s \<or> (armed s \<and> length q = bound s \<and> \<not> gone s)"
  shows "\<exists>returned s' ps' q'. await_unpark woken ps s = Inr (returned, s', ps')
    \<and> ready ps' s' \<and> rel s' q' \<and> evolves q q' \<and> bound s' = bound s
    \<and> (returned \<or> woken s' \<or> (armed s' \<and> length q' = bound s' \<and> \<not> gone s'))"
  using assms
proof (induction ps arbitrary: s q)
  case Nil
  then show ?case
    using evolves_refl by (intro exI [of _ False] exI [of _ s] exI [of _ "[]"] exI [of _ q]) simp
next
  case (Cons x ps)
  show ?case
  proof (cases x)
    case Turn
    then show ?thesis
      using Cons.prems evolves_refl
      by (intro exI [of _ True] exI [of _ s] exI [of _ ps] exI [of _ q]) (simp add: ready_def)
  next
    case (Peer f)
    then have "peer f" "permitted peer ps" "cost * Suc (length ps) + cost \<le> budget s"
      using Cons.prems(1) by (simp_all add: ready_def)
    then obtain s1 q1 where f: "f s = Inr s1" "rel s1 q1" "evolves q q1" "bound s1 = bound s"
      "ready ps s1"
      "woken s \<longrightarrow> woken s1" "armed s \<longrightarrow> woken s1 \<or> (armed s1 \<and> q1 = q \<and> gone s1 = gone s)"
      using peer_law [OF _ Cons.prems(2), of f] by (fastforce simp: ready_def)
    show ?thesis
    proof (cases "woken s1")
      case True
      then show ?thesis using Peer f by fastforce
    next
      case False
      then have "armed s1 \<and> length q1 = bound s1 \<and> \<not> gone s1" using f Cons.prems(3) by auto
      from Cons.IH [OF f(5,2) disjI2, OF this] obtain returned s' ps' q' where
        "await_unpark woken ps s1 = Inr (returned, s', ps')" "ready ps' s'" "rel s' q'"
        "evolves q1 q'" "bound s' = bound s1"
        "returned \<or> woken s' \<or> (armed s' \<and> length q' = bound s' \<and> \<not> gone s')"
        by blast
      then show ?thesis
        using Peer False f by (intro exI [of _ returned] exI [of _ s'] exI [of _ ps'] exI [of _ q'])
          (auto intro: evolves_trans)
    qed
  qed
qed

text \<open>What a blocking push may end with.\<close>

definition push_outcome :: "'a \<Rightarrow> 's \<Rightarrow> 'a list \<Rightarrow> ('a push_result, 's) blocking \<Rightarrow> bool" where
  "push_outcome v s q out \<longleftrightarrow>
     (\<exists>q'. evolves q q' \<and>
       (case out of
          Done Push_Ok s' \<Rightarrow> rel s' (q' @ [v]) \<and> bound s' = bound s
        | Done (Push_Err v') s' \<Rightarrow> v' = v \<and> rel s' q' \<and> bound s' = bound s \<and> gone s'
        | In_Park s' \<Rightarrow> rel s' q' \<and> bound s' = bound s
            \<and> (woken s' \<or> (armed s' \<and> length q' = bound s \<and> \<not> gone s'))))"

lemma push_outcome_trans:
  "evolves q q1 \<Longrightarrow> bound s1 = bound s \<Longrightarrow> push_outcome v s1 q1 out \<Longrightarrow> push_outcome v s q out"
  unfolding push_outcome_def by (elim exE conjE, rule exI, rule conjI, erule (1) evolves_trans)
    (simp split: blocking.splits push_result.splits)

lemma try_push_law:
  assumes "rel s q" and "ready ps s"
  shows "\<exists>s'. bound s' = bound s \<and>
    (if length q < bound s then push v s = Inr (Push_Ok, s') \<and> rel s' (q @ [v])
     else push v s = Inr (Push_Err v, s') \<and> rel s' q \<and> length q = bound s
       \<and> gone s' = gone s \<and> armed s' = armed s \<and> woken s' = woken s \<and> ready ps s')"
proof (cases "length q < bound s")
  case True
  then show ?thesis using push_room [OF assms(1) True ready_cost [OF assms(2)]] by auto
next
  case False
  then have "length q = bound s" using within [OF assms(1)] by simp
  then show ?thesis
    using push_full [OF assms(1)] push_keeps [OF assms(1)] False ready_mono [OF assms(2)] by fastforce
qed

abbreviation ops :: "('a, 's) producer_ops" where
  "ops \<equiv> \<lparr>try_push = push, consumer_gone = gone, arm_push = arm, disarm_push = disarm, push_woken = woken,
     after_park = after\<rparr>"

text \<open>The half of a turn that has armed: it ends the loop, or hands over to the next turn.\<close>

lemma armed_turn:
  assumes "ready ps s" and "rel s q"
  shows "\<exists>out. seq_exec (interfere ps (arm s)) (\<lambda>(s3, ps2).
      if gone s3 then Inr (Done (Push_Err v) (disarm s3))
      else seq_exec (interfere ps2 s3) (\<lambda>(s4, ps3).
        seq_exec (push v s4) (\<lambda>(res1, s5).
        case res1 of
          Push_Ok \<Rightarrow> Inr (Done Push_Ok (disarm s5))
        | Push_Err v2 \<Rightarrow>
            seq_exec (await_unpark woken ps3 s5) (\<lambda>(returned, s6, ps4).
            if returned then seq_exec (interfere ps4 s6) (\<lambda>(s7, ps5). k ps5 v2 (disarm s7))
            else Inr (In_Park s6))))) = out
    \<and> ((\<exists>o1. out = Inr o1 \<and> push_outcome v s q o1)
      \<or> (\<exists>s' ps' q'. length ps' < length ps \<and> ready ps' s' \<and> rel s' q' \<and> evolves q q'
          \<and> bound s' = bound s \<and> out = k ps' v s'))" (is "\<exists>out. ?e = out \<and> _")
proof -
  have a: "rel (arm s) q" "bound (arm s) = bound s" "gone (arm s) = gone s" "armed (arm s)" "\<not> woken (arm s)"
    and a_ready: "ready ps (arm s)"
    using arm_law [OF assms(2)] ready_mono [OF assms(1)] by simp_all
  obtain s3 ps2 q3 where i1: "interfere ps (arm s) = Inr (s3, ps2)" "ready ps2 s3" "rel s3 q3"
    "evolves q q3" "bound s3 = bound s" "woken s3 \<or> (armed s3 \<and> q3 = q \<and> gone s3 = gone s)"
    using interfere_law [OF a_ready a(1)] a by auto
  show ?thesis
  proof (cases "gone s3")
    case True
    then have "push_outcome v s q (Done (Push_Err v) (disarm s3))"
      using disarm_law [OF i1(3)] i1 unfolding push_outcome_def by auto
    then show ?thesis using True by (simp add: i1(1))
  next
    case False
    obtain s4 ps3 q4 where i2: "interfere ps2 s3 = Inr (s4, ps3)" "ready ps3 s4" "rel s4 q4"
      "evolves q3 q4" "bound s4 = bound s" "woken s3 \<longrightarrow> woken s4"
      "armed s3 \<longrightarrow> woken s4 \<or> (armed s4 \<and> q4 = q3 \<and> gone s4 = gone s3)"
      using interfere_law [OF i1(2,3)] i1(5) by auto
    have shrink: "evolves q q4" using i1(4) i2(4) by (rule evolves_trans)
    obtain s5 where p: "bound s5 = bound s"
      "if length q4 < bound s then push v s4 = Inr (Push_Ok, s5) \<and> rel s5 (q4 @ [v])
       else push v s4 = Inr (Push_Err v, s5) \<and> rel s5 q4 \<and> length q4 = bound s
         \<and> gone s5 = gone s4 \<and> armed s5 = armed s4 \<and> woken s5 = woken s4 \<and> ready ps3 s5"
      using try_push_law [OF i2(3,2), of v] i2(5) by metis
    show ?thesis
    proof (cases "length q4 < bound s")
      case True
      then have "push_outcome v s q (Done Push_Ok (disarm s5))"
        using p disarm_law [of s5 "q4 @ [v]"] shrink unfolding push_outcome_def by auto
      then show ?thesis using True p False by (simp add: i1(1) i2(1))
    next
      case full: False
      then have "woken s5 \<or> (armed s5 \<and> length q4 = bound s5 \<and> \<not> gone s5)"
        using p i1(6) i2(6,7) False by auto
      then obtain returned s6 ps4 q6 where w: "await_unpark woken ps3 s5 = Inr (returned, s6, ps4)"
        "ready ps4 s6" "rel s6 q6" "evolves q4 q6" "bound s6 = bound s"
        "returned \<or> woken s6 \<or> (armed s6 \<and> length q6 = bound s6 \<and> \<not> gone s6)"
        using await_law [of ps3 s5 q4] p full by metis
      have shrink6: "evolves q q6" using shrink w(4) by (rule evolves_trans)
      show ?thesis
      proof (cases returned)
        case False
        then have "push_outcome v s q (In_Park s6)"
          using w shrink6 unfolding push_outcome_def by auto
        then show ?thesis using False p full \<open>\<not> gone s3\<close> by (simp add: i1(1) i2(1) w(1))
      next
        case True
        obtain s7 ps5 q7 where i3: "interfere ps4 s6 = Inr (s7, ps5)" "ready ps5 s7" "rel s7 q7"
          "evolves q6 q7" "bound s7 = bound s6"
          using interfere_law [OF w(2,3)] by blast
        have "length ps4 < length ps3"
          using True w(1) await_unpark_length [of woken ps3 s5 s6 ps4] by simp
        then have "length ps5 < length ps"
          using interfere_length [OF i1(1)] interfere_length [OF i2(1)] interfere_length [OF i3(1)] by simp
        moreover have "?e = k ps5 v (disarm s7)"
          using True p full \<open>\<not> gone s3\<close> by (simp add: i1(1) i2(1) w(1) i3(1))
        moreover have "rel (disarm s7) q7 \<and> bound (disarm s7) = bound s \<and> ready ps5 (disarm s7)"
          using disarm_law [OF i3(3)] w(5) i3(2,5) ready_mono by simp
        moreover have "evolves q q7" using shrink6 i3(4) by (rule evolves_trans)
        ultimately show ?thesis by blast
      qed
    qed
  qed
qed

lemma push_block_loop_law:
  assumes "ready ps s" and "rel s q"
  shows "\<exists>out. push_block_loop ops ps b v s = Inr out \<and> push_outcome v s q out"
  using assms
proof (induction "13 * length ps + spins_left b" arbitrary: ps b s q rule: less_induct)
  case (less ps b s q)
  obtain s0 ps0 q0 where h: "interfere ps s = Inr (s0, ps0)" "ready ps0 s0" "rel s0 q0"
    "evolves q q0" "bound s0 = bound s"
    using interfere_law [OF less.prems] by blast
  show ?case
  proof (cases "gone s0")
    case True
    then have "push_outcome v s q (Done (Push_Err v) s0)" using h by (auto simp: push_outcome_def)
    then show ?thesis using True by (subst push_block_loop.simps) (simp add: h(1))
  next
    case False
    obtain s1 ps1 q1 where i1: "interfere ps0 s0 = Inr (s1, ps1)" "ready ps1 s1" "rel s1 q1"
      "evolves q0 q1" "bound s1 = bound s0"
      using interfere_law [OF h(2,3)] by blast
    have ev1: "evolves q q1" using h(4) i1(4) by (rule evolves_trans)
    have len1: "length ps1 \<le> length ps"
      using interfere_length [OF h(1)] interfere_length [OF i1(1)] by simp
    obtain s2 where p: "bound s2 = bound s"
      "if length q1 < bound s then push v s1 = Inr (Push_Ok, s2) \<and> rel s2 (q1 @ [v])
       else push v s1 = Inr (Push_Err v, s2) \<and> rel s2 q1 \<and> ready ps1 s2"
      using try_push_law [OF i1(3,2), of v] i1(5) h(5) by metis
    show ?thesis
    proof (cases "length q1 < bound s")
      case True
      then show ?thesis
        using p False ev1
        by (subst push_block_loop.simps) (auto simp: h(1) i1(1) push_outcome_def)
    next
      case full: False
      then have p2: "push v s1 = Inr (Push_Err v, s2)" "rel s2 q1" "ready ps1 s2" using p by simp_all
      obtain go b1 where g: "spin_unless_exhausted b = (go, b1)" by (metis prod.exhaust)
      show ?thesis
      proof (cases go)
        case True
        then have "spins_left b1 < spins_left b" using g spins_left_spin_less by simp
        then have "13 * length ps1 + spins_left b1 < 13 * length ps + spins_left b"
          using len1 by simp
        from less.hyps [OF this p2(3,2)] obtain out where
          "push_block_loop ops ps1 b1 v s2 = Inr out" "push_outcome v s2 q1 out" by blast
        then show ?thesis
          using True False g p2(1) push_outcome_trans [OF ev1, of s2 s] p(1)
          by (subst push_block_loop.simps) (simp add: h(1) i1(1))
      next
        case stop: False
        obtain sa psa qa where i2: "interfere ps1 s2 = Inr (sa, psa)" "ready psa sa" "rel sa qa"
          "evolves q1 qa" "bound sa = bound s2"
          using interfere_law [OF p2(3,2)] by blast
        have eva: "evolves q qa" using ev1 i2(4) by (rule evolves_trans)
        have run: "push_block_loop ops ps b v s = seq_exec (interfere psa (arm sa)) (\<lambda>(s3, ps2).
            if gone s3 then Inr (Done (Push_Err v) (disarm s3))
            else seq_exec (interfere ps2 s3) (\<lambda>(s4, ps3).
              seq_exec (push v s4) (\<lambda>(res1, s5).
              case res1 of
                Push_Ok \<Rightarrow> Inr (Done Push_Ok (disarm s5))
              | Push_Err v2 \<Rightarrow>
                  seq_exec (await_unpark woken ps3 s5) (\<lambda>(returned, s6, ps4).
                  if returned then seq_exec (interfere ps4 s6) (\<lambda>(s7, ps5).
                    push_block_loop ops ps5 (after b1) v2 (disarm s7))
                  else Inr (In_Park s6)))))"
          using False stop g p2(1)
          by (subst push_block_loop.simps)
            (simp add: h(1) i1(1) i2(1) cong: if_cong push_result.case_cong)
        from armed_turn [OF i2(2,3), of v "\<lambda>ps4 v2 s'. push_block_loop ops ps4 (after b1) v2 s'"]
        consider o1 where "push_block_loop ops ps b v s = Inr o1" "push_outcome v sa qa o1"
          | s' ps' q' where "length ps' < length psa" "ready ps' s'" "rel s' q'" "evolves qa q'"
            "bound s' = bound sa" "push_block_loop ops ps b v s = push_block_loop ops ps' (after b1) v s'"
          unfolding run [symmetric] by blast
        then show ?thesis
        proof cases
          case 1
          then show ?thesis using push_outcome_trans [OF eva] p(1) i2(5) by auto
        next
          case (2 s' ps' q')
          have "13 * length ps' + spins_left (after b1) < 13 * length ps + spins_left b"
            using 2(1) len1 interfere_length [OF i2(1)] spins_left_le [of "after b1"] by simp
          from less.hyps [OF this 2(2,3)] obtain out where
            "push_block_loop ops ps' (after b1) v s' = Inr out" "push_outcome v s' q' out" by blast
          then show ?thesis
            using 2(4-6) push_outcome_trans [of q q' s' s] eva p(1) i2(5) by (auto intro: evolves_trans)
        qed
      qed
    qed
  qed
qed

end

section \<open>The contract of the blocking pop\<close>

text \<open>
  The mirror image: one consumer that may wait. What it can take is abstract, a list for
  the rings that keep an order and a multiset for the one that does not; \<open>takes\<close> is what
  one pop does to it, \<open>evolves\<close> what its peers may do. A waiter that found nothing must be
  told when that changes. A pop that finds nothing costs \<open>idle\<close> of the budget.
\<close>

locale blocking_taker =
  fixes rel :: "'s \<Rightarrow> 'q \<Rightarrow> bool" and budget :: "'s \<Rightarrow> nat" and pop :: "'s \<Rightarrow> ('a option \<times> 's) exec"
    and nil :: 'q and takes :: "'q \<Rightarrow> 'a \<Rightarrow> 'q \<Rightarrow> bool" and idle cost :: nat
    and evolves :: "'q \<Rightarrow> 'q \<Rightarrow> bool" and gone armed woken :: "'s \<Rightarrow> bool" and arm disarm :: "'s \<Rightarrow> 's"
    and peer :: "('s \<Rightarrow> 's exec) \<Rightarrow> bool"
  assumes evolves_refl: "evolves q q"
    and evolves_trans: "evolves q q1 \<Longrightarrow> evolves q1 q2 \<Longrightarrow> evolves q q2"
    and pop_law: "rel s q \<Longrightarrow> idle \<le> budget s \<Longrightarrow> \<exists>res s'. pop s = Inr (res, s') \<and>
      (case res of
         Some v \<Rightarrow> \<exists>q'. takes q v q' \<and> rel s' q'
       | None \<Rightarrow> q = nil \<and> rel s' nil \<and> gone s' = gone s \<and> armed s' = armed s \<and> woken s' = woken s
           \<and> budget s \<le> budget s' + idle)"
    and arm_law: "rel s q \<Longrightarrow> rel (arm s) q \<and> budget s \<le> budget (arm s) \<and> gone (arm s) = gone s
      \<and> armed (arm s) \<and> \<not> woken (arm s)"
    and disarm_law: "rel s q \<Longrightarrow> rel (disarm s) q \<and> budget s \<le> budget (disarm s)
      \<and> gone (disarm s) = gone s"
    and peer_law: "peer f \<Longrightarrow> rel s q \<Longrightarrow> cost \<le> budget s \<Longrightarrow>
      \<exists>s' q'. f s = Inr s' \<and> rel s' q' \<and> evolves q q' \<and> budget s \<le> budget s' + cost \<and> (gone s \<longrightarrow> gone s')
        \<and> (woken s \<longrightarrow> woken s')
        \<and> (armed s \<longrightarrow> woken s' \<or> (armed s' \<and> (q = nil \<longrightarrow> q' = nil) \<and> gone s' = gone s))"
begin

text \<open>The budget covers the schedule and \<open>k\<close> more pops that find nothing.\<close>

definition afford :: "nat \<Rightarrow> 's schedule \<Rightarrow> 's \<Rightarrow> bool" where
  "afford k ps s \<longleftrightarrow> permitted peer ps \<and> cost * length ps + idle * k \<le> budget s"

lemma afford_mono: "afford k ps s \<Longrightarrow> j \<le> k \<Longrightarrow> budget s \<le> budget s' \<Longrightarrow> afford j ps s'"
  unfolding afford_def by (meson add_left_mono le_trans mult_le_mono2)

lemma afford_idle: "afford (Suc k) ps s \<Longrightarrow> budget s \<le> budget s' + idle \<Longrightarrow> afford k ps s'"
  by (simp add: afford_def)

lemma afford_pop: "afford (Suc k) ps s \<Longrightarrow> idle \<le> budget s"
  by (simp add: afford_def)

abbreviation pops :: "('a, 's) consumer_ops" where
  "pops \<equiv> \<lparr>try_pop = pop, producer_gone = gone, arm_pop = arm, disarm_pop = disarm, pop_woken = woken\<rparr>"

lemma peer_step:
  assumes "afford k (Peer f # ps) s" and "rel s q"
  obtains s' q' where "f s = Inr s'" "afford k ps s'" "rel s' q'" "evolves q q'" "gone s \<longrightarrow> gone s'"
    "woken s \<longrightarrow> woken s'" "armed s \<longrightarrow> woken s' \<or> (armed s' \<and> (q = nil \<longrightarrow> q' = nil) \<and> gone s' = gone s)"
proof -
  have "peer f" "permitted peer ps" "cost * length ps + cost + idle * k \<le> budget s"
    using assms(1) by (simp_all add: afford_def)
  then show ?thesis using peer_law [OF _ assms(2), of f] that by (fastforce simp: afford_def)
qed

lemma afford_turn: "afford k (Turn # ps) s \<Longrightarrow> afford k ps s"
  by (simp add: afford_def)

lemma interfere_law:
  assumes "afford k ps s" and "rel s q"
  shows "\<exists>s' ps' q'. interfere ps s = Inr (s', ps') \<and> afford k ps' s' \<and> rel s' q'
    \<and> evolves q q' \<and> (gone s \<longrightarrow> gone s') \<and> (woken s \<longrightarrow> woken s')
    \<and> (armed s \<longrightarrow> woken s' \<or> (armed s' \<and> (q = nil \<longrightarrow> q' = nil) \<and> gone s' = gone s))"
  using assms
proof (induction ps arbitrary: s q)
  case Nil
  then show ?case
    using evolves_refl by (intro exI [of _ s] exI [of _ "[]"] exI [of _ q]) simp
next
  case (Cons x ps)
  show ?case
  proof (cases x)
    case Turn
    then show ?thesis
      using Cons.prems evolves_refl afford_turn
      by (intro exI [of _ s] exI [of _ ps] exI [of _ q]) simp
  next
    case (Peer f)
    obtain s1 q1 where f: "f s = Inr s1" "afford k ps s1" "rel s1 q1" "evolves q q1" "gone s \<longrightarrow> gone s1"
      "woken s \<longrightarrow> woken s1" "armed s \<longrightarrow> woken s1 \<or> (armed s1 \<and> (q = nil \<longrightarrow> q1 = nil) \<and> gone s1 = gone s)"
      by (rule peer_step [OF Cons.prems(1) [unfolded Peer] Cons.prems(2)])
    obtain s' ps' q' where r: "interfere ps s1 = Inr (s', ps')" "afford k ps' s'" "rel s' q'"
      "evolves q1 q'" "gone s1 \<longrightarrow> gone s'" "woken s1 \<longrightarrow> woken s'"
      "armed s1 \<longrightarrow> woken s' \<or> (armed s' \<and> (q1 = nil \<longrightarrow> q' = nil) \<and> gone s' = gone s1)"
      using Cons.IH [OF f(2,3)] by blast
    have "evolves q q'" using f(4) r(4) by (rule evolves_trans)
    then show ?thesis
      using f r Peer by (intro exI [of _ s'] exI [of _ ps'] exI [of _ q']) auto
  qed
qed

lemma await_law:
  assumes "afford k ps s" and "rel s q" and "woken s \<or> (armed s \<and> q = nil \<and> \<not> gone s)"
  shows "\<exists>returned s' ps' q'. await_unpark woken ps s = Inr (returned, s', ps')
    \<and> afford k ps' s' \<and> rel s' q' \<and> evolves q q'
    \<and> (returned \<or> woken s' \<or> (armed s' \<and> q' = nil \<and> \<not> gone s'))"
  using assms
proof (induction ps arbitrary: s q)
  case Nil
  then show ?case
    using evolves_refl by (intro exI [of _ False] exI [of _ s] exI [of _ "[]"] exI [of _ q]) simp
next
  case (Cons x ps)
  show ?case
  proof (cases x)
    case Turn
    then show ?thesis
      using Cons.prems evolves_refl afford_turn
      by (intro exI [of _ True] exI [of _ s] exI [of _ ps] exI [of _ q]) simp
  next
    case (Peer f)
    obtain s1 q1 where f: "f s = Inr s1" "afford k ps s1" "rel s1 q1" "evolves q q1" "gone s \<longrightarrow> gone s1"
      "woken s \<longrightarrow> woken s1" "armed s \<longrightarrow> woken s1 \<or> (armed s1 \<and> (q = nil \<longrightarrow> q1 = nil) \<and> gone s1 = gone s)"
      by (rule peer_step [OF Cons.prems(1) [unfolded Peer] Cons.prems(2)])
    show ?thesis
    proof (cases "woken s1")
      case True
      then show ?thesis using Peer f by fastforce
    next
      case False
      then have "armed s1 \<and> q1 = nil \<and> \<not> gone s1" using f Cons.prems(3) by auto
      from Cons.IH [OF f(2,3) disjI2, OF this] obtain returned s' ps' q' where
        "await_unpark woken ps s1 = Inr (returned, s', ps')" "afford k ps' s'" "rel s' q'"
        "evolves q1 q'" "returned \<or> woken s' \<or> (armed s' \<and> q' = nil \<and> \<not> gone s')"
        by blast
      then show ?thesis
        using Peer False f by (intro exI [of _ returned] exI [of _ s'] exI [of _ ps'] exI [of _ q'])
          (auto intro: evolves_trans)
    qed
  qed
qed

definition take_outcome :: "'q \<Rightarrow> ('a option, 's) blocking \<Rightarrow> bool" where
  "take_outcome q out \<longleftrightarrow>
     (case out of
        Done (Some v) s' \<Rightarrow> (\<exists>q1 q'. evolves q q1 \<and> takes q1 v q' \<and> rel s' q')
      | Done None s' \<Rightarrow> rel s' nil \<and> evolves q nil \<and> gone s'
      | In_Park s' \<Rightarrow> (\<exists>q'. rel s' q' \<and> evolves q q' \<and> (woken s' \<or> (armed s' \<and> q' = nil \<and> \<not> gone s'))))"

lemma take_outcome_trans: "evolves q q1 \<Longrightarrow> take_outcome q1 out \<Longrightarrow> take_outcome q out"
  unfolding take_outcome_def
  by (auto split: blocking.splits option.splits intro: evolves_trans)

lemma attempt:
  assumes "rel s q" and "afford (Suc k) ps s"
  obtains (took) v s' q' where "pop s = Inr (Some v, s')" "takes q v q'" "rel s' q'"
  | (found_none) s' where "q = nil" "pop s = Inr (None, s')" "rel s' nil" "gone s' = gone s" "armed s' = armed s"
      "woken s' = woken s" "afford k ps s'"
proof -
  obtain res s' where p: "pop s = Inr (res, s')" "case res of
       Some v \<Rightarrow> \<exists>q'. takes q v q' \<and> rel s' q'
     | None \<Rightarrow> q = nil \<and> rel s' nil \<and> gone s' = gone s \<and> armed s' = armed s \<and> woken s' = woken s
         \<and> budget s \<le> budget s' + idle"
    using pop_law [OF assms(1) afford_pop [OF assms(2)]] by blast
  show thesis
  proof (cases res)
    case None
    then show ?thesis using p found_none afford_idle [OF assms(2)] by simp
  next
    case (Some v)
    then show ?thesis using p took by auto
  qed
qed

lemma last_pop_law:
  assumes "afford (Suc k) ps s" and "rel s q" and "gone s"
  shows "\<exists>out. last_pop pops ps s = Inr out \<and> take_outcome q out"
proof -
  obtain s1 ps1 q1 where i: "interfere ps s = Inr (s1, ps1)" "afford (Suc k) ps1 s1" "rel s1 q1" "evolves q q1" "gone s1"
    using interfere_law [OF assms(1,2)] assms(3) by blast
  show ?thesis
    using i by (cases rule: attempt [OF i(3,2), case_names took found_none]) (auto simp: last_pop_def take_outcome_def)
qed

lemma armed_turn:
  assumes "afford (Suc (Suc k)) ps s" and "rel s q"
  shows "\<exists>out. seq_exec (interfere ps (arm s)) (\<lambda>(s3, ps2).
      seq_exec (pop s3) (\<lambda>(res1, s4).
      case res1 of
        Some v \<Rightarrow> Inr (Done (Some v) (disarm s4))
      | None \<Rightarrow>
          seq_exec (interfere ps2 s4) (\<lambda>(s5, ps3).
          if gone s5 then last_pop pops ps3 (disarm s5)
          else seq_exec (await_unpark woken ps3 s5) (\<lambda>(returned, s6, ps4).
            if returned then seq_exec (interfere ps4 s6) (\<lambda>(s7, ps5). loop ps5 (disarm s7))
            else Inr (In_Park s6))))) = out
    \<and> ((\<exists>o1. out = Inr o1 \<and> take_outcome q o1)
      \<or> (\<exists>s' ps' q'. length ps' < length ps \<and> afford k ps' s' \<and> rel s' q' \<and> evolves q q'
          \<and> out = loop ps' s'))" (is "\<exists>out. ?e = out \<and> _")
proof -
  have a: "rel (arm s) q" "gone (arm s) = gone s" "armed (arm s)" "\<not> woken (arm s)"
    and a_ready: "afford (Suc (Suc k)) ps (arm s)"
    using arm_law [OF assms(2)] afford_mono [OF assms(1) order_refl] by simp_all
  obtain s3 ps2 q3 where i1: "interfere ps (arm s) = Inr (s3, ps2)" "afford (Suc (Suc k)) ps2 s3" "rel s3 q3"
    "evolves q q3" "woken s3 \<or> (armed s3 \<and> (q = nil \<longrightarrow> q3 = nil) \<and> gone s3 = gone s)"
    using interfere_law [OF a_ready a(1)] a by auto
  show ?thesis
  proof (cases rule: attempt [OF i1(3,2), case_names took found_none])
    case (took v s4 q4)
    then have "take_outcome q (Done (Some v) (disarm s4))"
      using disarm_law [OF took(3)] i1(4) by (auto simp: take_outcome_def)
    then show ?thesis by (simp add: i1(1) took(1))
  next
    case p: (found_none s4)
    obtain s5 ps3 q5 where i2: "interfere ps2 s4 = Inr (s5, ps3)" "afford (Suc k) ps3 s5" "rel s5 q5"
      "evolves nil q5" "woken s4 \<longrightarrow> woken s5" "armed s4 \<longrightarrow> woken s5 \<or> (armed s5 \<and> q5 = nil \<and> gone s5 = gone s4)"
      using interfere_law [OF p(7,3)] by blast
    have q: "evolves q q5" using i1(4) i2(4) p(1) evolves_trans by blast
    show ?thesis
    proof (cases "gone s5")
      case True
      then obtain out where "last_pop pops ps3 (disarm s5) = Inr out" "take_outcome q5 out"
        using last_pop_law [of k ps3 "disarm s5" q5] disarm_law [OF i2(3)] afford_mono [OF i2(2) order_refl] by auto
      then show ?thesis
        using True take_outcome_trans [OF q] by (auto simp: i1(1) p(2) i2(1))
    next
      case False
      then have "woken s5 \<or> (armed s5 \<and> q5 = nil \<and> \<not> gone s5)" using i1(5) p i2(5,6) by auto
      then obtain returned s6 ps4 q6 where w: "await_unpark woken ps3 s5 = Inr (returned, s6, ps4)"
        "afford (Suc k) ps4 s6" "rel s6 q6" "evolves q q6" "returned \<or> woken s6 \<or> (armed s6 \<and> q6 = nil \<and> \<not> gone s6)"
        using await_law [OF i2(2,3)] evolves_trans [OF q] by blast
      show ?thesis
      proof (cases returned)
        case r: False
        then have "take_outcome q (In_Park s6)" using w by (auto simp: take_outcome_def)
        then show ?thesis using r False by (simp add: i1(1) p(2) i2(1) w(1))
      next
        case True
        obtain s7 ps5 q7 where i3: "interfere ps4 s6 = Inr (s7, ps5)" "afford (Suc k) ps5 s7" "rel s7 q7"
          "evolves q q7"
          using interfere_law [OF w(2,3)] evolves_trans [OF w(4)] by blast
        have "length ps4 < length ps3"
          using True w(1) await_unpark_length [of woken ps3 s5 s6 ps4] by simp
        then have "length ps5 < length ps"
          using interfere_length [OF i1(1)] interfere_length [OF i2(1)] interfere_length [OF i3(1)] by simp
        moreover have "?e = loop ps5 (disarm s7)"
          using True False by (simp add: i1(1) p(2) i2(1) w(1) i3(1))
        moreover have "rel (disarm s7) q7" "afford k ps5 (disarm s7)"
          using disarm_law [OF i3(3)] afford_mono [OF i3(2)] by simp_all
        ultimately show ?thesis using i3(4) by blast
      qed
    qed
  qed
qed

text \<open>The pops a loop can make without finding anything: three a turn, and a turn costs a spin or a park.\<close>

definition idle_pops :: "'s schedule \<Rightarrow> backoff \<Rightarrow> nat" where
  "idle_pops ps b = 3 * Suc (13 * length ps + spins_left b)"

lemma idle_pops_fewer:
  assumes "13 * length ps' + spins_left b' < 13 * length ps + spins_left b"
  shows "idle_pops ps' b' + 3 \<le> idle_pops ps b"
  using assms by (simp add: idle_pops_def)

lemma pop_block_loop_law:
  assumes "afford (idle_pops ps b) ps s" and "rel s q"
  shows "\<exists>out. pop_block_loop pops ps b s = Inr out \<and> take_outcome q out"
  using assms
proof (induction "13 * length ps + spins_left b" arbitrary: ps b s q rule: less_induct)
  case (less ps b s q)
  define k where "k = idle_pops ps b - 3"
  have k: "idle_pops ps b = Suc (Suc (Suc k))" by (simp add: k_def idle_pops_def)
  obtain s0 ps0 q0 where h: "interfere ps s = Inr (s0, ps0)" "afford (Suc (Suc (Suc k))) ps0 s0" "rel s0 q0" "evolves q q0"
    using interfere_law [OF less.prems(1) [unfolded k] less.prems(2)] by blast
  show ?case
  proof (cases rule: attempt [OF h(3,2), case_names took found_none])
    case s': (took v s' q')
    then have "take_outcome q0 (Done (Some v) s')" using evolves_refl by (auto simp: take_outcome_def)
    then show ?thesis
      using s' take_outcome_trans [OF h(4)] by (subst pop_block_loop.simps) (auto simp: h(1))
  next
    case p: (found_none s1)
    obtain s2 ps1 q2 where i: "interfere ps0 s1 = Inr (s2, ps1)" "afford (Suc (Suc k)) ps1 s2" "rel s2 q2"
      "evolves q q2"
      using interfere_law [OF p(7,3)] evolves_trans h(4) p(1) by blast
    have len1: "length ps1 \<le> length ps"
      using interfere_length [OF h(1)] interfere_length [OF i(1)] by simp
    show ?thesis
    proof (cases "gone s2")
      case True
      then show ?thesis
        using last_pop_law [OF i(2,3)] take_outcome_trans [OF i(4)]
        by (subst pop_block_loop.simps) (auto simp: h(1) p(2) i(1))
    next
      case False
      obtain go b1 where g: "spin_unless_exhausted b = (go, b1)" by (metis prod.exhaust)
      show ?thesis
      proof (cases go)
        case True
        then have "spins_left b1 < spins_left b" using g spins_left_spin_less by simp
        then have fewer: "13 * length ps1 + spins_left b1 < 13 * length ps + spins_left b" using len1 by simp
        have "afford (idle_pops ps1 b1) ps1 s2"
          using afford_mono [OF i(2)] idle_pops_fewer [OF fewer] k by simp
        from less.hyps [OF fewer this i(3)] obtain out where
          "pop_block_loop pops ps1 b1 s2 = Inr out" "take_outcome q2 out" by blast
        then show ?thesis
          using True False g take_outcome_trans [OF i(4)]
          by (subst pop_block_loop.simps) (simp add: h(1) i(1) p(2))
      next
        case stop: False
        obtain sa psa qa where i2: "interfere ps1 s2 = Inr (sa, psa)" "afford (Suc (Suc k)) psa sa" "rel sa qa"
          "evolves q qa"
          using interfere_law [OF i(2,3)] evolves_trans [OF i(4)] by blast
        have run: "pop_block_loop pops ps b s = seq_exec (interfere psa (arm sa)) (\<lambda>(s3, ps2).
            seq_exec (pop s3) (\<lambda>(res1, s4).
            case res1 of
              Some v \<Rightarrow> Inr (Done (Some v) (disarm s4))
            | None \<Rightarrow>
                seq_exec (interfere ps2 s4) (\<lambda>(s5, ps3).
                if gone s5 then last_pop pops ps3 (disarm s5)
                else seq_exec (await_unpark woken ps3 s5) (\<lambda>(returned, s6, ps4).
                  if returned then seq_exec (interfere ps4 s6) (\<lambda>(s7, ps5).
                    pop_block_loop pops ps5 b1 (disarm s7))
                  else Inr (In_Park s6)))))"
          using False stop g
          by (subst pop_block_loop.simps)
            (simp add: h(1) i(1) p(2) i2(1) cong: if_cong option.case_cong)
        from armed_turn [OF i2(2,3), of "\<lambda>ps4 s'. pop_block_loop pops ps4 b1 s'"]
        consider o1 where "pop_block_loop pops ps b s = Inr o1" "take_outcome qa o1"
          | s' ps' q' where "length ps' < length psa" "afford k ps' s'" "rel s' q'" "evolves qa q'"
            "pop_block_loop pops ps b s = pop_block_loop pops ps' b1 s'"
          unfolding run [symmetric] by blast
        then show ?thesis
        proof cases
          case 1
          then show ?thesis using take_outcome_trans [OF i2(4)] by auto
        next
          case (2 s' ps' q')
          have fewer: "13 * length ps' + spins_left b1 < 13 * length ps + spins_left b"
            using 2(1) len1 interfere_length [OF i2(1)] spins_left_le [of b1] by simp
          have "afford (idle_pops ps' b1) ps' s'"
            using afford_mono [OF 2(2)] idle_pops_fewer [OF fewer] k by simp
          from less.hyps [OF fewer this 2(3)] obtain out where
            "pop_block_loop pops ps' b1 s' = Inr out" "take_outcome q' out" by blast
          then show ?thesis
            using 2(5) take_outcome_trans [OF evolves_trans [OF i2(4) 2(4)]] by auto
        qed
      qed
    qed
  qed
qed

end

text \<open>A queue is such a thing to take from: its pops are free and take the front.\<close>

locale blocking_consumer = queue_source rel budget pop
  for rel :: "'s \<Rightarrow> 'a list \<Rightarrow> bool" and budget pop +
  fixes cost :: nat and evolves :: "'a list \<Rightarrow> 'a list \<Rightarrow> bool" and gone armed woken :: "'s \<Rightarrow> bool" and arm disarm :: "'s \<Rightarrow> 's"
    and peer :: "('s \<Rightarrow> 's exec) \<Rightarrow> bool"
  assumes evolves_refl: "evolves q q"
    and evolves_trans: "evolves q q1 \<Longrightarrow> evolves q1 q2 \<Longrightarrow> evolves q q2"
    and pop_keeps: "rel s [] \<Longrightarrow> pop s = Inr (res, s') \<Longrightarrow>
      gone s' = gone s \<and> armed s' = armed s \<and> woken s' = woken s"
    and arm_law: "rel s q \<Longrightarrow> rel (arm s) q \<and> budget s \<le> budget (arm s) \<and> gone (arm s) = gone s
      \<and> armed (arm s) \<and> \<not> woken (arm s)"
    and disarm_law: "rel s q \<Longrightarrow> rel (disarm s) q \<and> budget s \<le> budget (disarm s)
      \<and> gone (disarm s) = gone s"
    and peer_law: "peer f \<Longrightarrow> rel s q \<Longrightarrow> cost \<le> budget s \<Longrightarrow>
      \<exists>s' q'. f s = Inr s' \<and> rel s' q' \<and> evolves q q' \<and> budget s \<le> budget s' + cost \<and> (gone s \<longrightarrow> gone s')
        \<and> (woken s \<longrightarrow> woken s')
        \<and> (armed s \<longrightarrow> woken s' \<or> (armed s' \<and> (q = [] \<longrightarrow> q' = []) \<and> gone s' = gone s))"

sublocale blocking_consumer \<subseteq> tk: blocking_taker rel budget pop "[]" "\<lambda>q v q'. q = v # q'" 0 cost evolves
  gone armed woken arm disarm peer
proof (unfold_locales, goal_cases)
  case (3 s q)
  show ?case
  proof (cases q)
    case Nil
    then show ?thesis using pop_none [of s] pop_keeps [of s] 3(1) by fastforce
  next
    case (Cons v q')
    then show ?thesis using pop_some [of s v q'] 3(1) by fastforce
  qed
qed (rule evolves_refl, erule (1) evolves_trans, erule arm_law, erule disarm_law, erule (2) peer_law)

context blocking_consumer
begin

definition ready :: "'s schedule \<Rightarrow> 's \<Rightarrow> bool" where
  "ready ps s \<longleftrightarrow> permitted peer ps \<and> cost * length ps \<le> budget s"

definition pop_outcome :: "'a list \<Rightarrow> ('a option, 's) blocking \<Rightarrow> bool" where
  "pop_outcome q out \<longleftrightarrow>
     (case out of
        Done (Some v) s' \<Rightarrow> (\<exists>q'. rel s' q' \<and> evolves q (v # q'))
      | Done None s' \<Rightarrow> rel s' [] \<and> evolves q [] \<and> gone s'
      | In_Park s' \<Rightarrow> (\<exists>q'. rel s' q' \<and> evolves q q' \<and> (woken s' \<or> (armed s' \<and> q' = [] \<and> \<not> gone s'))))"

lemma take_outcome_queue: "tk.take_outcome q out = pop_outcome q out"
  by (cases out) (auto simp: tk.take_outcome_def pop_outcome_def split: option.splits)

lemma pop_block_law:
  assumes "ready ps s" and "rel s q"
  shows "\<exists>out. pop_block_loop tk.pops ps b s = Inr out \<and> pop_outcome q out"
proof -
  have "tk.afford (tk.idle_pops ps b) ps s" using assms(1) by (simp add: tk.afford_def ready_def)
  from tk.pop_block_loop_law [OF this assms(2)] show ?thesis unfolding take_outcome_queue .
qed

end

end
