(* ===== verification/Spsc_Block.thy ===== *)
theory Spsc_Block
  imports Spsc_Correct Blocking
begin

text \<open>
  The blocking calls of the spsc ring: \<open>push_block\<close> and \<open>pop_block\<close> are the loops of
  \<open>Blocking\<close> on the ring's primitives, and \<open>reserve_block\<close> and \<open>drain_block\<close> are loops of
  their own. The peer of a waiting producer is the consumer's handle, and of a
  waiting consumer the producer's; each of their calls is one step of the schedule.
\<close>

section \<open>What a call announces\<close>

lemma park_wake_simps [simp]:
  "s_producer_park (spsc_wake_producer r) = woke (s_producer_park r)"
  "s_consumer_park (spsc_wake_consumer r) = woke (s_consumer_park r)"
  by (simp_all add: spsc_wake_producer_def spsc_wake_consumer_def woke_def case_prod_beta)

text \<open>
  A consumer's call either wakes the producer's parker or leaves the cursors and the
  consumer's close flag as they were; a producer's call likewise.
\<close>

definition consumer_announces :: "'a spsc_ring \<Rightarrow> 'a spsc_ring \<Rightarrow> bool" where
  "consumer_announces r r' \<longleftrightarrow>
     s_producer_park r' = woke (s_producer_park r)
     \<or> (s_producer_park r' = s_producer_park r \<and> s_cursors r' = s_cursors r
        \<and> s_consumer_closed r' = s_consumer_closed r)"

definition producer_announces :: "'a spsc_ring \<Rightarrow> 'a spsc_ring \<Rightarrow> bool" where
  "producer_announces r r' \<longleftrightarrow>
     s_consumer_park r' = woke (s_consumer_park r)
     \<or> (s_consumer_park r' = s_consumer_park r \<and> s_cursors r' = s_cursors r
        \<and> s_producer_closed r' = s_producer_closed r)"

lemma consumer_announces_trans:
  "consumer_announces r r1 \<Longrightarrow> consumer_announces r1 r2 \<Longrightarrow> consumer_announces r r2"
  by (auto simp: consumer_announces_def)

lemma consumer_announces_wake: "consumer_announces r (spsc_wake_producer r')"
  if "s_producer_park r' = s_producer_park r"
  using that by (simp add: consumer_announces_def)

lemma pop_announces: "spsc_pop c r = Inr (v, c', r') \<Longrightarrow> consumer_announces r r'"
  by (auto simp: spsc_pop_def consumer_announces_def seq_exec_eq_Inr Let_def
      split: prod.splits bool.splits)

lemma drain_loop_park:
  "spsc_drain_loop f limit g count st c r = Inr (fin, g', count', st', c', r') \<Longrightarrow>
    s_producer_park r' = s_producer_park r \<and> s_cursors r' = s_cursors r
    \<and> s_consumer_closed r' = s_consumer_closed r"
proof (induction f limit g count st c r arbitrary: fin g' count' st' c' r'
    rule: spsc_drain_loop.induct)
  case (1 f limit g count st c r)
  show ?case
  proof (cases "below_limit count limit")
    case False
    then show ?thesis using "1.prems" by (simp add: spsc_drain_loop.simps)
  next
    case True
    obtain go c1 where av: "spsc_available (hp_position g) c r = (go, c1)" by (metis prod.exhaust)
    show ?thesis
    proof (cases go)
      case False
      then show ?thesis using "1.prems" True av by (simp add: spsc_drain_loop.simps)
    next
      case t: True
      then obtain v buf where take:
        "cell_take (s_buf r) (spsc_slot r (hp_position g)) = Inr (v, buf)"
        using "1.prems" True av
        by (subst (asm) spsc_drain_loop.simps) (auto simp: seq_exec_eq_Inr)
      obtain st1 fin1 where fv: "f st v = (st1, fin1)" by (metis prod.exhaust)
      show ?thesis
      proof (cases fin1)
        case Panicked
        then show ?thesis
          using "1.prems" True av t take fv by (subst (asm) spsc_drain_loop.simps) auto
      next
        case Returned
        have "spsc_drain_loop f limit (hp_advance g) (count + 1) st1 c1 (r\<lparr>s_buf := buf\<rparr>)
            = Inr (fin, g', count', st', c', r')"
          using "1.prems" True av t take fv Returned by (subst (asm) spsc_drain_loop.simps) auto
        then show ?thesis
          using "1.IH" [OF _ av [symmetric] _ take refl fv [symmetric]] True t Returned by simp
      qed
    qed
  qed
qed

lemma hp_drop_announces:
  "s_producer_park r1 = s_producer_park r \<Longrightarrow> s_cursors r1 = s_cursors r \<Longrightarrow>
    s_consumer_closed r1 = s_consumer_closed r \<Longrightarrow> consumer_announces r (hp_drop g r1)"
  by (simp add: hp_drop_def consumer_announces_def)

lemma drain_announces:
  assumes "spsc_drain_up_to limit f st c r = Inr (fin, count, st', c', r')"
  shows "consumer_announces r r'"
proof -
  obtain g r1 where "spsc_drain_loop f limit (hp_new (head (s_cursors r))) 0 st c r
      = Inr (fin, g, count, st', c', r1)" "r' = hp_drop g r1"
    using assms by (auto simp: spsc_drain_up_to_def seq_exec_eq_Inr)
  then show ?thesis using drain_loop_park hp_drop_announces by metis
qed

lemma reader_drop_announces:
  assumes "spsc_reader_drop dtor rd r = Inr (fin, r')"
  shows "consumer_announces r r'"
  using assms hp_drop_announces [of "r\<lparr>s_buf := buf, s_dropped := ds\<rparr>" r for buf ds]
  by (auto simp: spsc_reader_drop_def seq_exec_eq_Inr Let_def)

lemma pop_and_drop_all_announces:
  "spsc_pop_and_drop_all dtor c r = Inr (fin, c', r') \<Longrightarrow> consumer_announces r r'"
proof (induction dtor c r arbitrary: fin c' r' rule: spsc_pop_and_drop_all.induct)
  case (1 dtor c r)
  obtain popped c1 r1 where pop: "spsc_pop c r = Inr (popped, c1, r1)"
    using "1.prems" by (subst (asm) spsc_pop_and_drop_all.simps) (auto simp: seq_exec_eq_Inr)
  have ann: "consumer_announces r r1" by (rule pop_announces [OF pop])
  show ?case
  proof (cases popped)
    case None
    then show ?thesis
      using "1.prems" pop ann by (subst (asm) spsc_pop_and_drop_all.simps) simp
  next
    case (Some v)
    let ?r2 = "r1\<lparr>s_dropped := s_dropped r1 @ [v]\<rparr>"
    have ann2: "consumer_announces r ?r2" using ann by (simp add: consumer_announces_def)
    show ?thesis
    proof (cases "dtor v")
      case Panicked
      then show ?thesis
        using "1.prems" pop Some ann2 by (subst (asm) spsc_pop_and_drop_all.simps) simp
    next
      case Returned
      then have "spsc_pop_and_drop_all dtor c1 ?r2 = Inr (fin, c', r')"
        using "1.prems" pop Some by (subst (asm) spsc_pop_and_drop_all.simps) simp
      then have "consumer_announces ?r2 r'"
        using "1.IH" [OF pop refl refl Some refl Returned] by simp
      with ann2 show ?thesis by (rule consumer_announces_trans)
    qed
  qed
qed

lemma consumer_drop_announces:
  assumes "spsc_consumer_drop dtor c r = Inr (fin, r')"
  shows "s_producer_park r' = woke (s_producer_park r)"
proof -
  obtain c1 r1 where "spsc_pop_and_drop_all dtor c r = Inr (fin, c1, r1)" "r' = consumer_close_drop r1"
    using assms by (auto simp: spsc_consumer_drop_def seq_exec_eq_Inr)
  then show ?thesis
    using pop_and_drop_all_announces [of dtor c r fin c1 r1]
    by (auto simp: consumer_close_drop_def consumer_announces_def)
qed

lemma push_announces: "spsc_push v p r = Inr (res, p', r') \<Longrightarrow> producer_announces r r'"
  by (auto simp: spsc_push_def producer_announces_def seq_exec_eq_Inr Let_def spsc_store_tail_def
      split: prod.splits option.splits)

section \<open>The waiting producer\<close>

definition spsc_on_ring :: "('a spsc_ring \<Rightarrow> 'a spsc_ring) \<Rightarrow> 'a spsc \<Rightarrow> 'a spsc" where
  "spsc_on_ring f s = (case s of (p, c, r) \<Rightarrow> (p, c, f r))"

definition spsc_consumer_gone :: "'a spsc \<Rightarrow> bool" where
  "spsc_consumer_gone s = (case s of (_, _, r) \<Rightarrow> is_closed_for_parking (s_consumer_closed r))"

definition spsc_arm_producer :: "thread_id \<Rightarrow> 'a spsc_ring \<Rightarrow> 'a spsc_ring" where
  "spsc_arm_producer t r = r\<lparr>s_producer_park := sp_arm t (s_producer_park r)\<rparr>"

definition spsc_disarm_producer :: "'a spsc_ring \<Rightarrow> 'a spsc_ring" where
  "spsc_disarm_producer r = r\<lparr>s_producer_park := sp_disarm (s_producer_park r)\<rparr>"

definition spsc_producer_parked :: "'a spsc \<Rightarrow> bool" where
  "spsc_producer_parked s = (case s of (_, _, r) \<Rightarrow> parked (s_producer_park r))"

definition spsc_producer_woken :: "'a spsc \<Rightarrow> bool" where
  "spsc_producer_woken s = (case s of (_, _, r) \<Rightarrow> \<not> tp_is_armed (parker (s_producer_park r)))"

definition spsc_producer_ops :: "thread_id \<Rightarrow> ('a, 'a spsc) producer_ops" where
  "spsc_producer_ops t =
     \<lparr>try_push = spsc_sys_push, consumer_gone = spsc_consumer_gone,
      arm_push = spsc_on_ring (spsc_arm_producer t),
      disarm_push = spsc_on_ring spsc_disarm_producer,
      push_woken = spsc_producer_woken, after_park = (\<lambda>b. b)\<rparr>"

definition spsc_push_block ::
    "thread_id \<Rightarrow> 'a spsc schedule \<Rightarrow> 'a \<Rightarrow> 'a spsc \<Rightarrow> ('a push_result, 'a spsc) blocking exec" where
  "spsc_push_block t ps v s = push_block (spsc_producer_ops t) ps v s"

text \<open>The calls of the consumer's handle, as steps of the producer's schedule.\<close>

definition spsc_peer_pop :: "'a spsc \<Rightarrow> 'a spsc exec" where
  "spsc_peer_pop s =
     (case s of (p, c, r) \<Rightarrow> seq_exec (spsc_pop c r) (\<lambda>(_, c', r'). Inr (p, c', r')))"

definition spsc_peer_drain ::
    "usize option \<Rightarrow> ('st \<Rightarrow> 'a \<Rightarrow> 'st \<times> completion) \<Rightarrow> 'st \<Rightarrow> 'a spsc \<Rightarrow> 'a spsc exec" where
  "spsc_peer_drain limit f st s =
     (case s of (p, c, r) \<Rightarrow>
        seq_exec (spsc_drain_up_to limit f st c r) (\<lambda>(_, _, _, c', r'). Inr (p, c', r')))"

definition spsc_peer_read :: "('a \<Rightarrow> completion) \<Rightarrow> 'a spsc \<Rightarrow> 'a spsc exec" where
  "spsc_peer_read dtor s =
     (case s of (p, c, r) \<Rightarrow>
        (case spsc_pop_ref c r of
           (None, c') \<Rightarrow> Inr (p, c', r)
         | (Some rd, c') \<Rightarrow> seq_exec (spsc_reader_drop dtor rd r) (\<lambda>(_, r'). Inr (p, c', r'))))"

definition spsc_peer_leave :: "('a \<Rightarrow> completion) \<Rightarrow> 'a spsc \<Rightarrow> 'a spsc exec" where
  "spsc_peer_leave dtor s =
     (case s of (p, c, r) \<Rightarrow>
        seq_exec (spsc_consumer_drop dtor c r) (\<lambda>(_, r').
          Inr (p, c\<lparr>cached_tail := head (s_cursors r')\<rparr>, r')))"

text \<open>
  The drop consumes the handle; the cached tail put in its place is never used. A
  drain callback's state is whatever it computes from the values it has seen.
\<close>

inductive spsc_consumer_call :: "('a spsc \<Rightarrow> 'a spsc exec) \<Rightarrow> bool" where
  "spsc_consumer_call spsc_peer_pop"
| "spsc_consumer_call (spsc_peer_drain limit (f :: 'a list \<Rightarrow> 'a \<Rightarrow> 'a list \<times> completion) st)"
| "spsc_consumer_call (spsc_peer_read dtor)"
| "spsc_consumer_call (spsc_peer_leave dtor)"

lemma same_cursors_same_length:
  assumes "ring_ok r q" and "ring_ok r' q'" and "s_cursors r' = s_cursors r" and "s_capacity r' = s_capacity r"
  shows "length q' = length q"
  using cursors_len_ok [OF assms(1)] cursors_len_ok [OF assms(2)] assms(3) by simp

lemma consumer_call_law:
  assumes "spsc_rel (p, c, r) q" and "spsc_rel (p, c', r') q'" and "suffix q' q"
    and "s_capacity r' = s_capacity r" and "consumer_announces r r'"
  shows "(spsc_producer_woken (p, c, r) \<longrightarrow> spsc_producer_woken (p, c', r'))
    \<and> (spsc_producer_parked (p, c, r) \<longrightarrow> spsc_producer_woken (p, c', r')
        \<or> (spsc_producer_parked (p, c', r') \<and> q' = q
           \<and> spsc_consumer_gone (p, c', r') = spsc_consumer_gone (p, c, r)))"
proof (cases "s_producer_park r' = woke (s_producer_park r)")
  case True
  then show ?thesis
    using woke_facts [of "s_producer_park r"]
    by (auto simp: spsc_producer_woken_def spsc_producer_parked_def)
next
  case False
  then have same: "s_producer_park r' = s_producer_park r" "s_cursors r' = s_cursors r"
    "s_consumer_closed r' = s_consumer_closed r"
    using assms(5) by (auto simp: consumer_announces_def)
  have "length q' = length q"
    using same_cursors_same_length [of r q r' q'] assms(1,2,4) same(2) by simp
  then have "q' = q" using assms(3) by (auto simp: suffix_def)
  then show ?thesis
    using same by (simp add: spsc_producer_woken_def spsc_producer_parked_def spsc_consumer_gone_def)
qed

lemma feed_suffix_order: "feed f limit count st q = (fin, count', st', q') \<Longrightarrow> suffix q' q"
  using feed_suffix by (fastforce simp: suffix_def)

lemma spsc_consumer_call_step:
  assumes "spsc_consumer_call f" and rel: "spsc_rel (p, c, r) q"
  shows "\<exists>c' r' q'. f (p, c, r) = Inr (p, c', r') \<and> spsc_rel (p, c', r') q' \<and> suffix q' q
    \<and> s_capacity r' = s_capacity r \<and> consumer_announces r r'"
  using assms(1)
proof cases
  case 1
  then show ?thesis
    using pop_spec [OF rel] pop_announces [of c r]
    by (cases q) (fastforce simp: spsc_peer_pop_def suffix_def)+
next
  case (2 limit g st)
  obtain fin count st1 q1 where fd: "feed g limit 0 st q = (fin, count, st1, q1)"
    by (metis prod.exhaust)
  then show ?thesis
    using drain_spec [OF rel fd] drain_announces [of limit g st c r] feed_suffix_order [OF fd] 2
    by (fastforce simp: spsc_peer_drain_def)
next
  case (3 dtor)
  obtain c' where c': "spsc_rel (p, c', r) q"
    "case q of [] \<Rightarrow> spsc_pop_ref c r = (None, c')
     | v # q' \<Rightarrow> \<exists>rd r'. spsc_pop_ref c r = (Some rd, c') \<and> spsc_reader_deref rd r = Inr v
       \<and> spsc_reader_drop dtor rd r = Inr (dtor v, r') \<and> spsc_rel (p, c', r') q'
       \<and> s_dropped r' = s_dropped r @ [v] \<and> s_capacity r' = s_capacity r
       \<and> s_producer_park r' = snd (sp_wake_published (s_producer_park r))
       \<and> s_unparked r' = s_unparked r @ fst (sp_wake_published (s_producer_park r))"
    using pop_ref_spec [OF rel, of dtor] by blast
  show ?thesis
  proof (cases q)
    case Nil
    then show ?thesis
      using c' 3 by (auto simp: spsc_peer_read_def consumer_announces_def)
  next
    case (Cons v q')
    then obtain rd r' where rd: "spsc_pop_ref c r = (Some rd, c')"
      "spsc_reader_drop dtor rd r = Inr (dtor v, r')" "spsc_rel (p, c', r') q'"
      "s_capacity r' = s_capacity r"
      using c'(2) by auto
    then show ?thesis
      using reader_drop_announces [OF rd(2)] 3 Cons
      by (intro exI [of _ c'] exI [of _ r'] exI [of _ q']) (simp add: spsc_peer_read_def suffix_ConsI)
  qed
next
  case (4 dtor)
  obtain fin ds rest where dr: "drop_run dtor q = (fin, ds, rest)" by (metis prod.exhaust)
  obtain c' r' where d: "spsc_consumer_drop dtor c r = Inr (fin, r')" "spsc_rel (p, c', r') rest"
    "s_capacity r' = s_capacity r"
    using consumer_drop_spec [OF rel dr] by blast
  have "spsc_rel (p, c\<lparr>cached_tail := head (s_cursors r')\<rparr>, r') rest"
    using d(2) by (auto simp: consumer_ok_def intro: exI [of _ 0])
  moreover have "suffix rest q" using drop_run_append [OF dr] by (auto simp: suffix_def)
  ultimately show ?thesis
    using d consumer_drop_announces [OF d(1)] 4
    by (intro exI [of _ "c\<lparr>cached_tail := head (s_cursors r')\<rparr>"] exI [of _ r'] exI [of _ rest])
      (simp add: spsc_peer_leave_def consumer_announces_def)
qed

lemma spsc_consumer_call_law:
  assumes "spsc_consumer_call f" and "spsc_rel s q"
  shows "\<exists>s' q'. f s = Inr s' \<and> spsc_rel s' q' \<and> suffix q' q \<and> spsc_bound s' = spsc_bound s
    \<and> (spsc_producer_woken s \<longrightarrow> spsc_producer_woken s')
    \<and> (spsc_producer_parked s \<longrightarrow> spsc_producer_woken s'
        \<or> (spsc_producer_parked s' \<and> q' = q \<and> spsc_consumer_gone s' = spsc_consumer_gone s))"
proof -
  obtain p c r where s: "s = (p, c, r)" by (metis prod.exhaust)
  have rel: "spsc_rel (p, c, r) q" using assms(2) s by simp
  obtain c' r' q' where step: "f (p, c, r) = Inr (p, c', r')" "spsc_rel (p, c', r') q'"
    "suffix q' q" "s_capacity r' = s_capacity r" "consumer_announces r r'"
    using spsc_consumer_call_step [OF assms(1) rel] by blast
  then show ?thesis
    using consumer_call_law [OF rel step(2-5)] unfolding s
    by (intro exI [of _ "(p, c', r')"] exI [of _ q']) simp
qed

lemma on_ring_rel:
  assumes "\<And>r q. ring_ok (f r) q = ring_ok r q" "\<And>p r q. producer_ok p (f r) q = producer_ok p r q"
    "\<And>c r q. consumer_ok c (f r) q = consumer_ok c r q" "\<And>r. s_capacity (f r) = s_capacity r"
  shows "spsc_rel (spsc_on_ring f s) q = spsc_rel s q" "spsc_bound (spsc_on_ring f s) = spsc_bound s"
  using assms by (cases s; simp add: spsc_on_ring_def)+

lemma arm_rel [simp]:
  "spsc_rel (spsc_on_ring (spsc_arm_producer t) s) q = spsc_rel s q"
  "spsc_bound (spsc_on_ring (spsc_arm_producer t) s) = spsc_bound s"
  "spsc_rel (spsc_on_ring spsc_disarm_producer s) q = spsc_rel s q"
  "spsc_bound (spsc_on_ring spsc_disarm_producer s) = spsc_bound s"
  by (rule on_ring_rel; simp add: spsc_arm_producer_def spsc_disarm_producer_def)+

interpretation sp: blocking_producer spsc_rel "\<lambda>_. 0" spsc_bound 0 spsc_sys_push
  "\<lambda>q q'. suffix q' q" "\<lambda>b. b" spsc_consumer_gone spsc_producer_parked spsc_producer_woken
  "spsc_on_ring (spsc_arm_producer t)" "spsc_on_ring spsc_disarm_producer" spsc_consumer_call
  for t
proof (unfold_locales, goal_cases)
  case (1 q)
  show ?case by simp
next
  case (2 q q1 q2)
  then show ?case by (auto intro: suffix_order.trans)
next
  case (3 s q v res s')
  obtain p c r where s: "s = (p, c, r)" by (metis prod.exhaust)
  have "\<exists>p'. s' = (p', c, r)"
    using push_spec [of p c r q v] 3 by (auto simp: s spsc_sys_push_def seq_exec_eq_Inr)
  then show ?case
    by (auto simp: s spsc_consumer_gone_def spsc_producer_parked_def spsc_producer_woken_def)
next
  case (4 s q)
  then show ?case
    by (cases s) (auto simp: spsc_consumer_gone_def spsc_producer_parked_def spsc_producer_woken_def
        spsc_on_ring_def spsc_arm_producer_def sp_arm_def tp_arm_def tp_is_armed_def
        ring_ok_effects)
next
  case (5 s q)
  then show ?case
    by (cases s) (auto simp: spsc_consumer_gone_def spsc_on_ring_def spsc_disarm_producer_def)
next
  case (6 f s q)
  then show ?case using spsc_consumer_call_law by fastforce
qed

text \<open>
  C12. \<open>push_block\<close> of the spsc ring, against any schedule of the consumer's calls and of
  spurious returns: it never faults; it returns \<open>Ok\<close> only having appended its value
  to the queue, once; it hands the value back only when the consumer is gone, the
  queue untouched by it; and it is found in its park only if it has been unparked
  already, or the ring is full, the consumer is still there and the handle is
  armed, so that the consumer's next release will wake it.
\<close>

theorem spsc_push_block_contract:
  assumes "spsc_rel s q" and "permitted spsc_consumer_call ps"
  shows "\<exists>out q'. spsc_push_block t ps v s = Inr out \<and> suffix q' q \<and>
    (case out of
       Done Push_Ok s' \<Rightarrow> spsc_rel s' (q' @ [v])
     | Done (Push_Err v') s' \<Rightarrow> v' = v \<and> spsc_rel s' q' \<and> spsc_consumer_gone s'
     | In_Park s' \<Rightarrow> spsc_rel s' q' \<and>
         (spsc_producer_woken s' \<or>
          (spsc_producer_parked s' \<and> length q' = spsc_bound s \<and> \<not> spsc_consumer_gone s')))"
proof -
  have "sp.ready ps s" using assms(2) by (simp add: sp.ready_def)
  then obtain out where run: "spsc_push_block t ps v s = Inr out" and po: "sp.push_outcome v s q out"
    using sp.push_block_loop_law [OF _ assms(1), of ps t backoff_new v]
    unfolding spsc_push_block_def push_block_def spsc_producer_ops_def by blast
  from po obtain q' where q': "suffix q' q" and out: "case out of
       Done Push_Ok s' \<Rightarrow> spsc_rel s' (q' @ [v]) \<and> spsc_bound s' = spsc_bound s
     | Done (Push_Err v') s' \<Rightarrow> v' = v \<and> spsc_rel s' q' \<and> spsc_bound s' = spsc_bound s
         \<and> spsc_consumer_gone s'
     | In_Park s' \<Rightarrow> spsc_rel s' q' \<and> spsc_bound s' = spsc_bound s \<and> (spsc_producer_woken s' \<or>
         (spsc_producer_parked s' \<and> length q' = spsc_bound s \<and> \<not> spsc_consumer_gone s'))"
    unfolding sp.push_outcome_def by blast
  show ?thesis
    by (rule exI [of _ out], rule exI [of _ q'])
      (use run q' out in \<open>auto split: blocking.splits push_result.splits\<close>)
qed

theorem spsc_push_block_contract_witness:
  "\<exists>s out q'. spsc_rel s [5, 6 :: nat]
    \<and> spsc_push_block 1 [Turn, Peer spsc_peer_pop] 7 s = Inr out \<and> suffix q' [5, 6] \<and>
    (case out of
       Done Push_Ok s' \<Rightarrow> spsc_rel s' (q' @ [7])
     | Done (Push_Err v') s' \<Rightarrow> v' = 7 \<and> spsc_rel s' q' \<and> spsc_consumer_gone s'
     | In_Park s' \<Rightarrow> spsc_rel s' q' \<and>
         (spsc_producer_woken s' \<or>
          (spsc_producer_parked s' \<and> length q' = spsc_bound s \<and> \<not> spsc_consumer_gone s')))"
proof -
  obtain p c and r :: "nat spsc_ring" where rel: "spsc_rel (p, c, r) [5, 6]"
    using spsc_reaches [OF cap2_wf, of "[5, 6 :: nat]"] by (auto simp: slots_cap2)
  have "permitted spsc_consumer_call [Turn, Peer (spsc_peer_pop :: nat spsc \<Rightarrow> _)]"
    by (simp add: spsc_consumer_call.intros)
  from spsc_push_block_contract [OF rel this, of 1 7] rel show ?thesis by blast
qed

section \<open>The waiting consumer\<close>

definition spsc_producer_gone :: "'a spsc \<Rightarrow> bool" where
  "spsc_producer_gone s = (case s of (_, _, r) \<Rightarrow> is_closed_for_parking (s_producer_closed r))"

definition spsc_arm_consumer :: "thread_id \<Rightarrow> 'a spsc_ring \<Rightarrow> 'a spsc_ring" where
  "spsc_arm_consumer t r = r\<lparr>s_consumer_park := sp_arm t (s_consumer_park r)\<rparr>"

definition spsc_disarm_consumer :: "'a spsc_ring \<Rightarrow> 'a spsc_ring" where
  "spsc_disarm_consumer r = r\<lparr>s_consumer_park := sp_disarm (s_consumer_park r)\<rparr>"

definition spsc_consumer_parked :: "'a spsc \<Rightarrow> bool" where
  "spsc_consumer_parked s = (case s of (_, _, r) \<Rightarrow> parked (s_consumer_park r))"

definition spsc_consumer_woken :: "'a spsc \<Rightarrow> bool" where
  "spsc_consumer_woken s = (case s of (_, _, r) \<Rightarrow> \<not> tp_is_armed (parker (s_consumer_park r)))"

definition spsc_consumer_ops :: "thread_id \<Rightarrow> ('a, 'a spsc) consumer_ops" where
  "spsc_consumer_ops t =
     \<lparr>try_pop = spsc_sys_pop, producer_gone = spsc_producer_gone,
      arm_pop = spsc_on_ring (spsc_arm_consumer t),
      disarm_pop = spsc_on_ring spsc_disarm_consumer,
      pop_woken = spsc_consumer_woken\<rparr>"

definition spsc_pop_block ::
    "thread_id \<Rightarrow> 'a spsc schedule \<Rightarrow> 'a spsc \<Rightarrow> ('a option, 'a spsc) blocking exec" where
  "spsc_pop_block t ps s = pop_block (spsc_consumer_ops t) ps s"

text \<open>The calls of the producer's handle, and the ring's own \<open>close\<close>.\<close>

definition spsc_peer_push :: "'a \<Rightarrow> 'a spsc \<Rightarrow> 'a spsc exec" where
  "spsc_peer_push v s =
     (case s of (p, c, r) \<Rightarrow> seq_exec (spsc_push v p r) (\<lambda>(_, p', r'). Inr (p', c, r')))"

definition spsc_peer_commit :: "'a \<Rightarrow> 'a spsc \<Rightarrow> 'a spsc exec" where
  "spsc_peer_commit v s =
     (case s of (p, c, r) \<Rightarrow>
        case spsc_reserve p r of
          (None, p1) \<Rightarrow> Inr (p1, c, r)
        | (Some w, p1) \<Rightarrow>
            seq_exec (spsc_write w v r) (\<lambda>(ws, r1).
            seq_exec (spsc_commit ws p1 r1) (\<lambda>(p2, r2). Inr (p2, c, r2))))"

definition spsc_peer_abandon :: "'a \<Rightarrow> 'a spsc \<Rightarrow> 'a spsc exec" where
  "spsc_peer_abandon v s =
     (case s of (p, c, r) \<Rightarrow>
        case spsc_reserve p r of
          (None, p1) \<Rightarrow> Inr (p1, c, r)
        | (Some w, p1) \<Rightarrow>
            seq_exec (spsc_write w v r) (\<lambda>(ws, r1).
            seq_exec (spsc_written_slot_drop ws r1) (\<lambda>r2. Inr (p1, c, r2))))"

inductive spsc_producer_call :: "('a spsc \<Rightarrow> 'a spsc exec) \<Rightarrow> bool" where
  "spsc_producer_call (spsc_peer_push v)"
| "spsc_producer_call (spsc_peer_commit v)"
| "spsc_producer_call (spsc_peer_abandon v)"
| "spsc_producer_call (\<lambda>s. Inr (spsc_on_ring spsc_producer_drop s))"
| "spsc_producer_call (\<lambda>s. Inr (spsc_on_ring spsc_close s))"

lemma producer_call_law:
  assumes "spsc_rel (p, c, r) q" and "spsc_rel (p', c, r') q'" and "prefix q q'"
    and "s_capacity r' = s_capacity r" and "producer_announces r r'"
  shows "(spsc_consumer_woken (p, c, r) \<longrightarrow> spsc_consumer_woken (p', c, r'))
    \<and> (spsc_consumer_parked (p, c, r) \<longrightarrow> spsc_consumer_woken (p', c, r')
        \<or> (spsc_consumer_parked (p', c, r') \<and> q' = q
           \<and> spsc_producer_gone (p', c, r') = spsc_producer_gone (p, c, r)))"
proof (cases "s_consumer_park r' = woke (s_consumer_park r)")
  case True
  then show ?thesis
    using woke_facts [of "s_consumer_park r"]
    by (auto simp: spsc_consumer_woken_def spsc_consumer_parked_def)
next
  case False
  then have same: "s_consumer_park r' = s_consumer_park r" "s_cursors r' = s_cursors r"
    "s_producer_closed r' = s_producer_closed r"
    using assms(5) by (auto simp: producer_announces_def)
  have "length q' = length q"
    using same_cursors_same_length [of r q r' q'] assms(1,2,4) same(2) by simp
  then have "q' = q" using assms(3) by (auto simp: prefix_def)
  then show ?thesis
    using same by (simp add: spsc_consumer_woken_def spsc_consumer_parked_def spsc_producer_gone_def)
qed

lemma commit_announces:
  assumes "spsc_write w v r = Inr (ws, r1)" and "spsc_commit ws p r1 = Inr (p2, r2)"
  shows "producer_announces r r2" and "s_capacity r2 = s_capacity r"
    and "s_producer_closed r2 = s_producer_closed r"
  using assms
  by (auto simp: spsc_write_def spsc_commit_def spsc_written_slot_drop_def seq_exec_eq_Inr Let_def
      producer_announces_def spsc_store_tail_def)

lemma abandon_announces:
  assumes "spsc_write w v r = Inr (ws, r1)" and "spsc_written_slot_drop ws r1 = Inr r2"
  shows "producer_announces r r2" and "s_capacity r2 = s_capacity r"
    and "s_producer_closed r2 = s_producer_closed r"
  using assms
  by (auto simp: spsc_write_def spsc_written_slot_drop_def seq_exec_eq_Inr producer_announces_def)

lemma push_closed: "spsc_push v p r = Inr (res, p', r') \<Longrightarrow> s_producer_closed r' = s_producer_closed r"
  by (auto simp: spsc_push_def seq_exec_eq_Inr Let_def spsc_store_tail_def
      split: prod.splits option.splits)

lemma spsc_producer_call_step:
  assumes "spsc_producer_call f" and rel: "spsc_rel (p, c, r) q"
  shows "\<exists>p' r' q'. f (p, c, r) = Inr (p', c, r') \<and> spsc_rel (p', c, r') q' \<and> prefix q q'
    \<and> s_capacity r' = s_capacity r \<and> producer_announces r r'
    \<and> (is_closed (s_producer_closed r) \<longrightarrow> is_closed (s_producer_closed r'))"
  using assms(1)
proof cases
  case (1 v)
  then show ?thesis
    using push_spec [OF rel, of v] push_announces [of v p r] push_closed [of v p r]
    by (cases "length q < slots (s_capacity r)") (fastforce simp: spsc_peer_push_def)+
next
  case (2 v)
  show ?thesis
  proof (cases "length q < slots (s_capacity r)")
    case False
    then show ?thesis
      using reserve_spec [OF rel] 2 by (auto simp: spsc_peer_commit_def producer_announces_def)
  next
    case True
    define w where "w = \<lparr>sw_slot = slot_of (s_capacity r) (tail (s_cursors r)), sw_pos = tail (s_cursors r)\<rparr>"
    obtain p1 where p1: "spsc_rel (p1, c, r) q" "spsc_reserve p r = (Some w, p1)" "producer_room p1 r q"
      using reserve_spec [OF rel] True unfolding w_def by auto
    obtain ws r1 p2 r2 where ws: "spsc_write w v r = Inr (ws, r1)"
      "spsc_commit ws p1 r1 = Inr (p2, r2)" "spsc_rel (p2, c, r2) (q @ [v])"
      using written_slot_spec [OF p1(1,3) w_def] by blast
    then show ?thesis
      using commit_announces [OF ws(1,2)] 2 p1(2)
      by (intro exI [of _ p2] exI [of _ r2] exI [of _ "q @ [v]"]) (simp add: spsc_peer_commit_def)
  qed
next
  case (3 v)
  show ?thesis
  proof (cases "length q < slots (s_capacity r)")
    case False
    then show ?thesis
      using reserve_spec [OF rel] 3 by (auto simp: spsc_peer_abandon_def producer_announces_def)
  next
    case True
    define w where "w = \<lparr>sw_slot = slot_of (s_capacity r) (tail (s_cursors r)), sw_pos = tail (s_cursors r)\<rparr>"
    obtain p1 where p1: "spsc_rel (p1, c, r) q" "spsc_reserve p r = (Some w, p1)" "producer_room p1 r q"
      using reserve_spec [OF rel] True unfolding w_def by auto
    obtain ws r1 r2 where ws: "spsc_write w v r = Inr (ws, r1)"
      "spsc_written_slot_drop ws r1 = Inr r2" "spsc_rel (p1, c, r2) q"
      using written_slot_spec [OF p1(1,3) w_def] by blast
    then show ?thesis
      using abandon_announces [OF ws(1,2)] 3 p1(2)
      by (intro exI [of _ p1] exI [of _ r2] exI [of _ q]) (simp add: spsc_peer_abandon_def)
  qed
next
  case 4
  then show ?thesis
    using rel by (intro exI [of _ p] exI [of _ "spsc_producer_drop r"] exI [of _ q])
      (simp add: spsc_on_ring_def spsc_producer_drop_def producer_announces_def)
next
  case 5
  then show ?thesis
    using rel by (intro exI [of _ p] exI [of _ "spsc_close r"] exI [of _ q])
      (simp add: spsc_on_ring_def spsc_close_def producer_announces_def)
qed

lemma arm_consumer_rel [simp]:
  "spsc_rel (spsc_on_ring (spsc_arm_consumer t) s) q = spsc_rel s q"
  "spsc_rel (spsc_on_ring spsc_disarm_consumer s) q = spsc_rel s q"
  by (rule on_ring_rel; simp add: spsc_arm_consumer_def spsc_disarm_consumer_def)+

interpretation sc: blocking_consumer spsc_rel "\<lambda>_. 0" spsc_sys_pop 0 prefix
  spsc_producer_gone spsc_consumer_parked spsc_consumer_woken
  "spsc_on_ring (spsc_arm_consumer t)" "spsc_on_ring spsc_disarm_consumer" spsc_producer_call
  for t
proof (unfold_locales, goal_cases)
  case (1 q)
  show ?case by simp
next
  case (2 q q1 q2)
  then show ?case by (rule prefix_order.trans)
next
  case (3 s res s')
  obtain p c r where s: "s = (p, c, r)" by (metis prod.exhaust)
  have "\<exists>c'. s' = (p, c', r)"
    using pop_spec [of p c r "[]"] 3 by (auto simp: s spsc_sys_pop_def seq_exec_eq_Inr)
  then show ?case
    by (auto simp: s spsc_producer_gone_def spsc_consumer_parked_def spsc_consumer_woken_def)
next
  case (4 s q)
  then show ?case
    by (cases s) (auto simp: spsc_producer_gone_def spsc_consumer_parked_def spsc_consumer_woken_def
        spsc_on_ring_def spsc_arm_consumer_def sp_arm_def tp_arm_def tp_is_armed_def)
next
  case (5 s q)
  then show ?case
    by (cases s) (auto simp: spsc_producer_gone_def spsc_on_ring_def spsc_disarm_consumer_def)
next
  case (6 f s q)
  obtain p c r where s: "s = (p, c, r)" by (metis prod.exhaust)
  obtain p' r' q' where step: "f s = Inr (p', c, r')" "spsc_rel (p', c, r') q'" "prefix q q'"
    "s_capacity r' = s_capacity r" "producer_announces r r'"
    "is_closed (s_producer_closed r) \<longrightarrow> is_closed (s_producer_closed r')"
    using spsc_producer_call_step [OF 6(1)] 6(2) unfolding s by blast
  show ?case
    using step(1-3,6) producer_call_law [OF _ step(2-5)] 6(2) unfolding s
    by (intro exI [of _ "(p', c, r')"] exI [of _ q']) (auto simp: spsc_producer_gone_def)
qed

text \<open>
  C13. \<open>pop_block\<close> of the spsc ring, against any schedule of the producer's calls, of ring
  closes and of spurious returns: it never faults; it returns a value only by taking
  the one at the front; it returns \<open>None\<close> only when the producer side is closed and
  the ring has drained; and it is found in its park only if it has been unparked
  already, or the ring is empty and open and the handle is armed.
\<close>

theorem spsc_pop_block_contract:
  assumes "spsc_rel s q" and "permitted spsc_producer_call ps"
  shows "\<exists>out. spsc_pop_block t ps s = Inr out \<and>
    (case out of
       Done (Some v) s' \<Rightarrow> \<exists>q'. spsc_rel s' q' \<and> prefix q (v # q')
     | Done None s' \<Rightarrow> spsc_rel s' [] \<and> q = [] \<and> spsc_producer_gone s'
     | In_Park s' \<Rightarrow> \<exists>q'. spsc_rel s' q' \<and> prefix q q' \<and>
         (spsc_consumer_woken s' \<or> (spsc_consumer_parked s' \<and> q' = [] \<and> \<not> spsc_producer_gone s')))"
proof -
  have "sc.ready ps s" using assms(2) by (simp add: sc.ready_def)
  from sc.pop_block_law [OF this assms(1), of t backoff_new] show ?thesis
    unfolding spsc_pop_block_def pop_block_def spsc_consumer_ops_def sc.pop_outcome_def prefix_Nil .
qed

theorem spsc_pop_block_contract_witness:
  "\<exists>s out. spsc_rel s ([] :: nat list)
    \<and> spsc_pop_block 1 [Turn, Peer (spsc_peer_push 7)] s = Inr out \<and>
    (case out of
       Done (Some v) s' \<Rightarrow> \<exists>q'. spsc_rel s' q' \<and> prefix [] (v # q')
     | Done None s' \<Rightarrow> spsc_rel s' [] \<and> ([] :: nat list) = [] \<and> spsc_producer_gone s'
     | In_Park s' \<Rightarrow> \<exists>q'. spsc_rel s' q' \<and> prefix [] q' \<and>
         (spsc_consumer_woken s' \<or> (spsc_consumer_parked s' \<and> q' = [] \<and> \<not> spsc_producer_gone s')))"
proof -
  obtain p c and r :: "nat spsc_ring" where rel: "spsc_rel (p, c, r) []"
    using spsc_reaches [OF cap2_wf, of "[] :: nat list"] by auto
  have "permitted spsc_producer_call [Turn, Peer (spsc_peer_push (7 :: nat))]"
    by (simp add: spsc_producer_call.intros)
  from spsc_pop_block_contract [OF rel this, of 1] rel show ?thesis by blast
qed

end
