(* ===== verification/Waker_Set.thy ===== *)
theory Waker_Set
  imports Park_Slot "HOL-Library.Multiset"
begin

text \<open>
  The registrations of async waiters: \<open>src/common/registration_id.rs\<close>, \<open>wake_async.rs\<close>,
  \<open>waker_overflow.rs\<close> and \<open>park_registration.rs\<close>. A \<open>Waker\<close> is supplied by the executor; it is
  named here by a number, and \<open>fire\<close> says whether calling it returns or panics. An
  access to a slot or to the head of the overflow acts at one instant (a load that finds
  nothing, or else the exchange); peers may act between two of them.
\<close>

section \<open>Registrations\<close>

type_synonym waker = nat
type_synonym registration_id = u64

record registration =
  reg_id :: registration_id
  reg_waker :: waker

definition registration_new :: "registration_id \<Rightarrow> waker \<Rightarrow> registration" where
  "registration_new i w = \<lparr>reg_id = i, reg_waker = w\<rparr>"

definition registration_is :: "registration_id \<Rightarrow> registration \<Rightarrow> bool" where
  "registration_is i r \<longleftrightarrow> reg_id r = i"

type_synonym registration_ids = u64

definition ids_new :: registration_ids where "ids_new = 0"

definition ids_mint :: "registration_ids \<Rightarrow> registration_id \<times> registration_ids" where
  "ids_mint n = (n, n + 1)"

section \<open>A slot\<close>

type_synonym waker_slot = "registration option"

definition waker_slot_new :: waker_slot where "waker_slot_new = None"

definition waker_slot_store :: "registration \<Rightarrow> waker_slot \<Rightarrow> registration option \<times> waker_slot" where
  "waker_slot_store reg s =
     (case s of
        None \<Rightarrow> (None, Some reg)
      | Some prev \<Rightarrow> (if registration_is (reg_id reg) prev then None else Some prev, Some reg))"

datatype withdrawn = Own | Withdrawn_Peer registration | Withdrawn_Empty

definition waker_slot_withdraw :: "registration_id \<Rightarrow> waker_slot \<Rightarrow> withdrawn \<times> waker_slot" where
  "waker_slot_withdraw i s =
     (case s of
        None \<Rightarrow> (Withdrawn_Empty, None)
      | Some claimed \<Rightarrow> (if registration_is i claimed then Own else Withdrawn_Peer claimed, None))"

section \<open>The set\<close>

text \<open>\<open>wk_woken\<close> logs the wakers fired.\<close>

record waker_set =
  wk_pending :: bool
  wk_slots :: "waker_slot list"
  wk_overflow :: "registration list"
  wk_ids :: registration_ids
  wk_woken :: "waker list"

definition waker_set_new :: waker_set where
  "waker_set_new =
     \<lparr>wk_pending = False, wk_slots = replicate PARK_SLOTS waker_slot_new, wk_overflow = [],
      wk_ids = ids_new, wk_woken = []\<rparr>"

definition wk_mint :: "waker_set \<Rightarrow> registration_id \<times> waker_set" where
  "wk_mint s = (case ids_mint (wk_ids s) of (i, n) \<Rightarrow> (i, s\<lparr>wk_ids := n\<rparr>))"

text \<open>Firing a waker consumes its registration.\<close>

definition registration_wake :: "(waker \<Rightarrow> completion) \<Rightarrow> registration \<Rightarrow> waker_set \<Rightarrow> completion \<times> waker_set" where
  "registration_wake fire reg s = (fire (reg_waker reg), s\<lparr>wk_woken := wk_woken s @ [reg_waker reg]\<rparr>)"

section \<open>The overflow stack\<close>

definition overflow_push :: "registration \<Rightarrow> waker_set \<Rightarrow> waker_set" where
  "overflow_push reg s = s\<lparr>wk_overflow := reg # wk_overflow s\<rparr>"

text \<open>The walk over the detached chain: every survivor is pushed back on its own.\<close>

fun overflow_retain ::
    "waker_set meddling \<Rightarrow> registration_id \<Rightarrow> bool \<Rightarrow> registration list \<Rightarrow> waker_set
      \<Rightarrow> bool \<times> waker_set \<times> waker_set meddling" where
  "overflow_retain fs i found [] s = (found, s, fs)"
| "overflow_retain fs i found (reg # chain) s =
     (if \<not> found \<and> registration_is i reg then overflow_retain fs i True chain s
      else case meddle fs s of (s1, fs1) \<Rightarrow> overflow_retain fs1 i found chain (overflow_push reg s1))"

definition overflow_withdraw ::
    "waker_set meddling \<Rightarrow> registration_id \<Rightarrow> waker_set \<Rightarrow> bool \<times> waker_set \<times> waker_set meddling" where
  "overflow_withdraw fs i s =
     (case wk_overflow s of
        [] \<Rightarrow> (False, s, fs)
      | chain \<Rightarrow> overflow_retain fs i False chain (s\<lparr>wk_overflow := []\<rparr>))"

text \<open>The chain is detached as a whole; what a panic leaves of it is reachable from nowhere.\<close>

fun overflow_fire :: "(waker \<Rightarrow> completion) \<Rightarrow> registration list \<Rightarrow> waker_set \<Rightarrow> completion \<times> waker_set" where
  "overflow_fire fire [] s = (Returned, s)"
| "overflow_fire fire (reg # chain) s =
     (case registration_wake fire reg s of
        (Panicked, s1) \<Rightarrow> (Panicked, s1)
      | (Returned, s1) \<Rightarrow> overflow_fire fire chain s1)"

definition overflow_wake_waiters :: "(waker \<Rightarrow> completion) \<Rightarrow> waker_set \<Rightarrow> completion \<times> waker_set" where
  "overflow_wake_waiters fire s = overflow_fire fire (wk_overflow s) (s\<lparr>wk_overflow := []\<rparr>)"

section \<open>Registering and withdrawing\<close>

definition wk_register_as ::
    "waker_set meddling \<Rightarrow> registration_id \<Rightarrow> park_slot \<Rightarrow> waker \<Rightarrow> waker_set
      \<Rightarrow> (waker_set \<times> waker_set meddling) exec" where
  "wk_register_as fs i slot w s =
     (let reg = registration_new i w in
      seq_exec
        (case park_slot_index slot of
           None \<Rightarrow> Inr (overflow_push reg s, fs)
         | Some k \<Rightarrow>
             if k < length (wk_slots s) then
               (case waker_slot_store reg (wk_slots s ! k) of
                  (displaced, x) \<Rightarrow>
                    let s1 = s\<lparr>wk_slots := (wk_slots s)[k := x]\<rparr> in
                    case displaced of
                      None \<Rightarrow> Inr (s1, fs)
                    | Some d \<Rightarrow> (case meddle fs s1 of (s2, fs1) \<Rightarrow> Inr (overflow_push d s2, fs1)))
             else Inl Index_Out_Of_Bounds) (\<lambda>(s1, fs1).
      case meddle fs1 s1 of (s2, fs2) \<Rightarrow> Inr (s2\<lparr>wk_pending := True\<rparr>, fs2)))"

definition wk_withdraw ::
    "waker_set meddling \<Rightarrow> registration_id \<Rightarrow> park_slot \<Rightarrow> waker_set \<Rightarrow> (waker_set \<times> waker_set meddling) exec" where
  "wk_withdraw fs i slot s =
     (case park_slot_index slot of
        None \<Rightarrow> Inr (snd (overflow_withdraw fs i s))
      | Some k \<Rightarrow>
          if k < length (wk_slots s) then
            (case waker_slot_withdraw i (wk_slots s ! k) of
               (res, x) \<Rightarrow>
                 let s1 = s\<lparr>wk_slots := (wk_slots s)[k := x]\<rparr> in
                 case res of
                   Own \<Rightarrow> Inr (s1, fs)
                 | Withdrawn_Peer peer \<Rightarrow>
                     (case meddle fs s1 of (s2, fs1) \<Rightarrow>
                      case meddle fs1 (overflow_push peer s2) of (s3, fs2) \<Rightarrow>
                        Inr (snd (overflow_withdraw fs2 i s3)))
                 | Withdrawn_Empty \<Rightarrow>
                     (case meddle fs s1 of (s2, fs1) \<Rightarrow> Inr (snd (overflow_withdraw fs1 i s2))))
          else Inl Index_Out_Of_Bounds)"

section \<open>Waking\<close>

definition waker_slot_wake :: "(waker \<Rightarrow> completion) \<Rightarrow> nat \<Rightarrow> waker_set \<Rightarrow> completion \<times> waker_set" where
  "waker_slot_wake fire k s =
     (case wk_slots s ! k of
        None \<Rightarrow> (Returned, s)
      | Some reg \<Rightarrow> registration_wake fire reg (s\<lparr>wk_slots := (wk_slots s)[k := None]\<rparr>))"

fun wk_wake_slots ::
    "waker_set meddling \<Rightarrow> (waker \<Rightarrow> completion) \<Rightarrow> nat list \<Rightarrow> waker_set
      \<Rightarrow> completion \<times> waker_set \<times> waker_set meddling" where
  "wk_wake_slots fs fire [] s = (Returned, s, fs)"
| "wk_wake_slots fs fire (k # ks) s =
     (case meddle fs s of (s1, fs1) \<Rightarrow>
      case waker_slot_wake fire k s1 of
        (Panicked, s2) \<Rightarrow> (Panicked, s2, fs1)
      | (Returned, s2) \<Rightarrow> wk_wake_slots fs1 fire ks s2)"

definition wk_flush ::
    "waker_set meddling \<Rightarrow> (waker \<Rightarrow> completion) \<Rightarrow> waker_set \<Rightarrow> completion \<times> waker_set" where
  "wk_flush fs fire s =
     (case wk_wake_slots fs fire [0..<length (wk_slots s)] s of
        (Panicked, s1, _) \<Rightarrow> (Panicked, s1)
      | (Returned, s1, fs1) \<Rightarrow> (case meddle fs1 s1 of (s2, _) \<Rightarrow> overflow_wake_waiters fire s2))"

definition wk_wake_all ::
    "waker_set meddling \<Rightarrow> (waker \<Rightarrow> completion) \<Rightarrow> waker_set \<Rightarrow> completion \<times> waker_set" where
  "wk_wake_all fs fire s = (if \<not> wk_pending s then (Returned, s) else wk_flush fs fire s)"

definition wk_wake_n ::
    "waker_set meddling \<Rightarrow> (waker \<Rightarrow> completion) \<Rightarrow> usize \<Rightarrow> waker_set \<Rightarrow> completion \<times> waker_set" where
  "wk_wake_n fs fire n s = wk_wake_all fs fire s"

section \<open>The record a future keeps\<close>

record exclusive_registration =
  er_slot :: park_slot
  er_armed :: "registration_id option"

definition er_new :: "park_slot \<Rightarrow> exclusive_registration" where
  "er_new slot = \<lparr>er_slot = slot, er_armed = None\<rparr>"

definition er_arm ::
    "waker_set meddling \<Rightarrow> waker \<Rightarrow> exclusive_registration \<times> waker_set
      \<Rightarrow> (exclusive_registration \<times> waker_set) exec" where
  "er_arm fs w es =
     (case es of (er, s) \<Rightarrow>
        case (case er_armed er of
                None \<Rightarrow> (case wk_mint s of (i, s1) \<Rightarrow> (i, s1, fs))
              | Some i \<Rightarrow> (i, snd (overflow_withdraw fs i s))) of
          (i, s1, fs1) \<Rightarrow>
            case meddle fs1 s1 of (s2, fs2) \<Rightarrow>
              seq_exec (wk_register_as fs2 i (er_slot er) w s2) (\<lambda>(s3, _).
                Inr (er\<lparr>er_armed := Some i\<rparr>, s3)))"

definition er_withdraw ::
    "waker_set meddling \<Rightarrow> exclusive_registration \<times> waker_set \<Rightarrow> (exclusive_registration \<times> waker_set) exec" where
  "er_withdraw fs es =
     (case es of (er, s) \<Rightarrow>
        case er_armed er of
          None \<Rightarrow> Inr (er, s)
        | Some i \<Rightarrow>
            seq_exec (wk_withdraw fs i (er_slot er) s) (\<lambda>(s1, _). Inr (er\<lparr>er_armed := None\<rparr>, s1)))"

section \<open>Who is registered\<close>

definition held_in :: "waker_slot \<Rightarrow> registration multiset" where
  "held_in x = (case x of None \<Rightarrow> {#} | Some r \<Rightarrow> {#r#})"

lemma held_in_simps [simp]: "held_in None = {#}" "held_in (Some r) = {#r#}"
  by (simp_all add: held_in_def)

lemma in_held [simp]: "r \<in># held_in x \<longleftrightarrow> x = Some r"
  by (cases x) auto

lemma sum_of_empties [simp]: "sum_list (replicate n {#}) = {#}"
  by (induction n) simp_all

lemma in_slots: "r \<in># (\<Sum>x \<leftarrow> xs. held_in x) \<longleftrightarrow> (\<exists>k < length xs. xs ! k = Some r)"
  by (auto simp: in_set_conv_nth)

definition registered :: "waker_set \<Rightarrow> registration multiset" where
  "registered s = (\<Sum>x \<leftarrow> wk_slots s. held_in x) + mset (wk_overflow s)"

definition others :: "registration_id \<Rightarrow> registration multiset \<Rightarrow> registration multiset" where
  "others i M = filter_mset (\<lambda>r. reg_id r \<noteq> i) M"

text \<open>An id names at most one registration, which is in its own slot or on the overflow.\<close>

definition at_home :: "registration_id \<Rightarrow> park_slot \<Rightarrow> waker_set \<Rightarrow> bool" where
  "at_home i slot s \<longleftrightarrow>
     size (filter_mset (\<lambda>r. reg_id r = i) (registered s)) \<le> 1
     \<and> (\<forall>k < length (wk_slots s). \<forall>r. wk_slots s ! k = Some r \<and> reg_id r = i \<longrightarrow> park_slot_index slot = Some k)"

lemma others_simps [simp]:
  "others i {#} = {#}" "others i (add_mset r M) = (if reg_id r = i then others i M else add_mset r (others i M))"
  "others i (M + N) = others i M + others i N"
  by (simp_all add: others_def)

lemma others_id: "\<forall>r \<in># M. reg_id r \<noteq> i \<Longrightarrow> others i M = M"
  unfolding others_def by (rule filter_mset_cong0 [of M _ "\<lambda>_. True", simplified]) blast

lemma overflow_retain_found [simp]:
  "overflow_retain [] i True chain s = (True, s\<lparr>wk_overflow := rev chain @ wk_overflow s\<rparr>, [])"
  by (induction chain arbitrary: s) (simp_all add: overflow_push_def)

lemma overflow_retain_alone:
  assumes "length (filter (registration_is i) chain) \<le> 1"
  shows "overflow_retain [] i False chain s = (\<exists>r \<in> set chain. registration_is i r,
    s\<lparr>wk_overflow := rev (filter (\<lambda>r. \<not> registration_is i r) chain) @ wk_overflow s\<rparr>, [])"
  using assms
proof (induction chain arbitrary: s)
  case (Cons r chain)
  show ?case
  proof (cases "registration_is i r")
    case True
    then have "filter (registration_is i) chain = []" using Cons.prems by simp
    then have "filter (\<lambda>r. \<not> registration_is i r) chain = chain" by (simp add: filter_empty_conv)
    then show ?thesis using True by simp
  next
    case False
    then show ?thesis using Cons by (simp add: overflow_push_def)
  qed
qed simp

lemma overflow_withdraw_alone:
  assumes "size (filter_mset (\<lambda>r. reg_id r = i) (registered s)) \<le> 1"
  obtains found rest where "overflow_withdraw [] i s = (found, s\<lparr>wk_overflow := rest\<rparr>, [])"
    "mset rest = others i (mset (wk_overflow s))"
proof (cases "wk_overflow s")
  case Nil
  then show ?thesis using that [of False "[]"] by (simp add: overflow_withdraw_def)
next
  case (Cons r chain)
  have eq: "(\<lambda>r. reg_id r = i) = registration_is i" by (simp add: registration_is_def fun_eq_iff)
  have "size (filter_mset (registration_is i) (mset (wk_overflow s))) \<le> 1"
    using assms by (simp add: registered_def eq)
  then have "length (filter (registration_is i) (r # chain)) \<le> 1"
    by (simp only: Cons mset_filter [symmetric] size_mset)
  from overflow_retain_alone [OF this, of "s\<lparr>wk_overflow := []\<rparr>"] show ?thesis
    by (intro that) (auto simp: overflow_withdraw_def Cons others_def registration_is_def)
qed

lemma registered_slot:
  assumes "k < length (wk_slots s)"
  shows "registered (s\<lparr>wk_slots := (wk_slots s)[k := x]\<rparr>) + held_in (wk_slots s ! k) = registered s + held_in x"
  using sum_list_exchange [OF assms, of held_in x] by (simp add: registered_def ac_simps)

text \<open>What a call keeps: the number of slots, the ids, the log; a slot only loses or gets the entry of \<open>i\<close>.\<close>

definition same_but ::
    "registration \<Rightarrow> park_slot \<Rightarrow> waker_set \<Rightarrow> waker_set \<Rightarrow> bool" where
  "same_but new slot s s' \<longleftrightarrow>
     length (wk_slots s') = length (wk_slots s) \<and> wk_ids s' = wk_ids s \<and> wk_woken s' = wk_woken s
     \<and> (\<forall>k < length (wk_slots s). \<forall>r. wk_slots s' ! k = Some r \<longrightarrow>
          wk_slots s ! k = Some r \<or> (r = new \<and> park_slot_index slot = Some k))"

lemma at_home_slot:
  assumes "at_home i slot s" and "park_slot_index slot \<noteq> Some k" and "k < length (wk_slots s)"
  shows "\<forall>r \<in># held_in (wk_slots s ! k). reg_id r \<noteq> i"
  using assms by (auto simp: at_home_def held_in_def split: option.splits)

lemma others_slots:
  assumes "at_home i slot s" and "park_slot_index slot = None"
  shows "others i (\<Sum>x \<leftarrow> wk_slots s. held_in x) = (\<Sum>x \<leftarrow> wk_slots s. held_in x)"
proof (rule others_id, rule ballI)
  fix r assume "r \<in># (\<Sum>x \<leftarrow> wk_slots s. held_in x)"
  then obtain k where "k < length (wk_slots s)" "wk_slots s ! k = Some r" unfolding in_slots by blast
  then show "reg_id r \<noteq> i" using at_home_slot [OF assms(1), of k] assms(2) by simp
qed

text \<open>With the entry of \<open>i\<close> not on the overflow, all entries outside the slot of \<open>i\<close> are peers'.\<close>

lemma others_of_rest:
  assumes "at_home i slot s" and "\<forall>r \<in> set (wk_overflow s). reg_id r \<noteq> i"
    and "park_slot_index slot = Some k" "k < length (wk_slots s)"
    and "registered s = M + held_in (wk_slots s ! k)"
  shows "others i M = M"
proof (cases "\<forall>r \<in># held_in (wk_slots s ! k). reg_id r \<noteq> i")
  case False
  then obtain r where r: "wk_slots s ! k = Some r" "reg_id r = i" by (auto simp: held_in_def split: option.splits)
  have "size (filter_mset (\<lambda>r. reg_id r = i) (M + {#r#})) \<le> 1"
    using assms(1,5) r(1) by (simp add: at_home_def)
  then have "size (filter_mset (\<lambda>r. reg_id r = i) M) = 0" using r(2) by simp
  then show ?thesis by (intro others_id) (auto simp: filter_mset_eq_mempty_iff)
next
  case True
  have "reg_id r \<noteq> i" if "r \<in># M" for r
  proof
    assume r: "reg_id r = i"
    have "r \<in># registered s" using that assms(5) by simp
    then have "r \<in># (\<Sum>x \<leftarrow> wk_slots s. held_in x)" using assms(2) r by (auto simp: registered_def)
    then obtain l where l: "l < length (wk_slots s)" "wk_slots s ! l = Some r" unfolding in_slots by blast
    then show False
      using True r at_home_slot [OF assms(1), of l] assms(3) by (cases "l = k") auto
  qed
  then show ?thesis by (intro others_id) blast
qed

lemma register_alone:
  assumes home: "at_home i slot s" and away: "\<forall>r \<in> set (wk_overflow s). reg_id r \<noteq> i"
    and slot: "\<And>k. park_slot_index slot = Some k \<Longrightarrow> k < length (wk_slots s)"
  obtains s' where "wk_register_as [] i slot w s = Inr (s', [])" "wk_pending s'"
    "registered s' = add_mset (registration_new i w) (others i (registered s))"
    "same_but (registration_new i w) slot s s'"
proof (cases "park_slot_index slot")
  case None
  have "others i (registered s) = registered s"
    unfolding registered_def using others_slots [OF home None] others_id [of "mset (wk_overflow s)" i] away by simp
  then show ?thesis
    by (intro that [of "(overflow_push (registration_new i w) s)\<lparr>wk_pending := True\<rparr>"])
      (simp_all add: wk_register_as_def None overflow_push_def registered_def same_but_def)
next
  case (Some k)
  let ?new = "registration_new i w"
  have k: "k < length (wk_slots s)" by (rule slot [OF Some])
  let ?s1 = "s\<lparr>wk_slots := (wk_slots s)[k := Some ?new]\<rparr>"
  have reg: "registered ?s1 + held_in (wk_slots s ! k) = add_mset ?new (registered s)"
    using registered_slot [OF k, of "Some ?new"] by simp
  obtain M where M: "registered s = M + held_in (wk_slots s ! k)"
    using registered_slot [OF k, of None] that by (metis add.right_neutral held_in_simps(1))
  have one: "registered ?s1 = add_mset ?new M" using reg M by simp
  have rest: "others i M = M" by (rule others_of_rest [OF home away Some k M])
  have idn: "reg_id ?new = i" by (simp add: registration_new_def)
  show ?thesis
  proof (cases "fst (waker_slot_store ?new (wk_slots s ! k))")
    case None
    then have "others i (registered s) = M"
      by (auto simp: M rest waker_slot_store_def registration_is_def idn split: option.splits if_splits)
    then show ?thesis
      using None one k
      by (intro that [of "?s1\<lparr>wk_pending := True\<rparr>"])
        (auto simp: wk_register_as_def Some waker_slot_store_def registered_def same_but_def nth_list_update Let_def
          split: option.splits if_splits)
  next
    case displaced: (Some d)
    then have d: "wk_slots s ! k = Some d" "reg_id d \<noteq> i"
      by (auto simp: waker_slot_store_def registration_is_def idn split: option.splits if_splits)
    then have "others i (registered s) = add_mset d M" by (simp add: M rest)
    then show ?thesis
      using displaced one k d
      by (intro that [of "(overflow_push d ?s1)\<lparr>wk_pending := True\<rparr>"])
        (auto simp: wk_register_as_def Some waker_slot_store_def registered_def overflow_push_def same_but_def
          nth_list_update Let_def split: option.splits if_splits)
  qed
qed

text \<open>A withdrawal only empties slots.\<close>

definition lessens :: "waker_set \<Rightarrow> waker_set \<Rightarrow> bool" where
  "lessens s s' \<longleftrightarrow>
     length (wk_slots s') = length (wk_slots s) \<and> wk_ids s' = wk_ids s \<and> wk_woken s' = wk_woken s
     \<and> wk_pending s' = wk_pending s
     \<and> (\<forall>k < length (wk_slots s). \<forall>r. wk_slots s' ! k = Some r \<longrightarrow> wk_slots s ! k = Some r)"

lemma lessens_overflow: "lessens s (s\<lparr>wk_overflow := rest\<rparr>)"
  by (simp add: lessens_def)

lemma registered_push [simp]: "registered (overflow_push r s) = add_mset r (registered s)"
  by (simp add: overflow_push_def registered_def)

lemma withdraw_alone:
  assumes home: "at_home i slot s"
    and slot: "\<And>k. park_slot_index slot = Some k \<Longrightarrow> k < length (wk_slots s)"
  obtains s' where "wk_withdraw [] i slot s = Inr (s', [])" "registered s' = others i (registered s)" "lessens s s'"
proof (cases "park_slot_index slot")
  case None
  obtain found rest where rest: "overflow_withdraw [] i s = (found, s\<lparr>wk_overflow := rest\<rparr>, [])"
    "mset rest = others i (mset (wk_overflow s))"
    using home by (elim overflow_withdraw_alone [rotated]) (simp add: at_home_def)
  show ?thesis
    by (rule that [of "s\<lparr>wk_overflow := rest\<rparr>"])
      (simp_all add: wk_withdraw_def None rest registered_def others_slots [OF home None] lessens_overflow)
next
  case (Some k)
  have k: "k < length (wk_slots s)" by (rule slot [OF Some])
  let ?s1 = "s\<lparr>wk_slots := (wk_slots s)[k := None]\<rparr>"
  have M: "registered s = registered ?s1 + held_in (wk_slots s ! k)"
    using registered_slot [OF k, of None] by simp
  have one: "size (filter_mset (\<lambda>r. reg_id r = i) (registered s)) \<le> 1" using home by (simp add: at_home_def)
  have clear: "others i (\<Sum>x \<leftarrow> wk_slots ?s1. held_in x) = (\<Sum>x \<leftarrow> wk_slots ?s1. held_in x)"
  proof (rule others_id, rule ballI)
    fix r assume "r \<in># (\<Sum>x \<leftarrow> wk_slots ?s1. held_in x)"
    then obtain l where "l < length (wk_slots s)" "l \<noteq> k" "wk_slots s ! l = Some r"
      using k unfolding in_slots by (auto simp: nth_list_update split: if_splits)
    then show "reg_id r \<noteq> i" using at_home_slot [OF home, of l] Some by auto
  qed
  show ?thesis
  proof (cases "wk_slots s ! k")
    case None
    then have "(wk_slots s)[k := None] = wk_slots s" using list_update_id [of "wk_slots s" k] by simp
    then have s1: "?s1 = s" by simp
    obtain found rest where rest: "overflow_withdraw [] i s = (found, s\<lparr>wk_overflow := rest\<rparr>, [])"
      "mset rest = others i (mset (wk_overflow s))"
      by (rule overflow_withdraw_alone [OF one])
    show ?thesis
      using clear k by (intro that [of "s\<lparr>wk_overflow := rest\<rparr>"])
        (simp_all add: wk_withdraw_def Some waker_slot_withdraw_def None s1 rest registered_def lessens_overflow)
  next
    case held: (Some c)
    show ?thesis
    proof (cases "registration_is i c")
      case True
      then have "size (filter_mset (\<lambda>r. reg_id r = i) (registered ?s1)) = 0"
        using one by (simp add: M held registration_is_def)
      then have "others i (registered ?s1) = registered ?s1" by (intro others_id) (auto simp: filter_mset_eq_mempty_iff)
      then show ?thesis
        using True k by (intro that [of ?s1])
          (auto simp: wk_withdraw_def Some waker_slot_withdraw_def held M registration_is_def lessens_def nth_list_update)
    next
      case False
      let ?s2 = "overflow_push c ?s1"
      have same: "registered ?s2 = registered s" unfolding M held by simp
      obtain found rest where rest: "overflow_withdraw [] i ?s2 = (found, ?s2\<lparr>wk_overflow := rest\<rparr>, [])"
        "mset rest = others i (mset (wk_overflow ?s2))"
        by (rule overflow_withdraw_alone [OF one [folded same]])
      have "registered (?s2\<lparr>wk_overflow := rest\<rparr>) = others i (registered ?s2)"
        using clear by (simp add: registered_def rest(2) overflow_push_def)
      then have "registered (?s2\<lparr>wk_overflow := rest\<rparr>) = others i (registered s)" by (simp only: same)
      then show ?thesis
        using False k by (intro that [of "?s2\<lparr>wk_overflow := rest\<rparr>"])
          (auto simp: wk_withdraw_def Some waker_slot_withdraw_def held rest(1) [unfolded overflow_push_def, simplified] lessens_def
            overflow_push_def nth_list_update)
    qed
  qed
qed

section \<open>A wake reaches everyone\<close>

lemma overflow_fire_returns:
  assumes "\<And>w. fire w = Returned"
  shows "overflow_fire fire chain s = (Returned, s\<lparr>wk_woken := wk_woken s @ map reg_waker chain\<rparr>)"
  by (induction chain arbitrary: s) (simp_all add: registration_wake_def assms)

definition slot_wakers :: "waker_slot list \<Rightarrow> waker list" where
  "slot_wakers xs = map reg_waker (List.map_filter id xs)"

lemma mset_slot_wakers: "mset (slot_wakers xs) = image_mset reg_waker (\<Sum>x \<leftarrow> xs. held_in x)"
  by (induction xs) (auto simp: slot_wakers_def List.map_filter_simps held_in_def split: option.splits)

lemma wake_slots_returns:
  assumes "\<And>w. fire w = Returned" and "m \<le> length (wk_slots s)"
  shows "wk_wake_slots [] fire [m..<length (wk_slots s)] s
    = (Returned, s\<lparr>wk_slots := take m (wk_slots s) @ replicate (length (wk_slots s) - m) None,
         wk_woken := wk_woken s @ slot_wakers (drop m (wk_slots s))\<rparr>, [])"
  using assms(2)
proof (induction "length (wk_slots s) - m" arbitrary: m s)
  case 0
  then show ?case by (simp add: slot_wakers_def List.map_filter_simps)
next
  case (Suc d)
  then have m: "m < length (wk_slots s)" by simp
  define s1 where "s1 = snd (waker_slot_wake fire m s)"
  have step: "waker_slot_wake fire m s = (Returned, s1)"
    by (simp add: s1_def waker_slot_wake_def registration_wake_def assms(1) split: option.splits)
  have s1: "wk_slots s1 = (wk_slots s)[m := None]"
    "wk_woken s1 = wk_woken s @ slot_wakers [wk_slots s ! m]" "s1 = s\<lparr>wk_slots := wk_slots s1, wk_woken := wk_woken s1\<rparr>"
    using list_update_id [of "wk_slots s" m]
    by (auto simp: s1_def waker_slot_wake_def registration_wake_def slot_wakers_def List.map_filter_simps
        split: option.splits simp del: list_update_id)
  have "wk_wake_slots [] fire [Suc m..<length (wk_slots s1)] s1
    = (Returned, s1\<lparr>wk_slots := take (Suc m) (wk_slots s1) @ replicate (length (wk_slots s1) - Suc m) None,
         wk_woken := wk_woken s1 @ slot_wakers (drop (Suc m) (wk_slots s1))\<rparr>, [])"
    by (rule Suc.hyps(1)) (use Suc.hyps(2) m in \<open>simp_all add: s1(1)\<close>)
  moreover have "[m..<length (wk_slots s)] = m # [Suc m..<length (wk_slots s1)]"
    using m by (simp add: s1(1) upt_conv_Cons)
  moreover have "slot_wakers [wk_slots s ! m] @ slot_wakers (drop (Suc m) (wk_slots s)) = slot_wakers (drop m (wk_slots s))"
    using m by (simp add: slot_wakers_def List.map_filter_simps Cons_nth_drop_Suc [symmetric] split: option.splits)
  moreover have "take (Suc m) ((wk_slots s)[m := None]) @ replicate (length (wk_slots s) - Suc m) None
      = take m (wk_slots s) @ replicate (length (wk_slots s) - m) None"
    using m by (simp add: take_Suc_conv_app_nth Suc_diff_Suc [symmetric])
  ultimately show ?case using step s1 by simp
qed

lemma flush_returns:
  assumes "\<And>w. fire w = Returned"
  obtains ws where "wk_flush [] fire s = (Returned, s\<lparr>wk_slots := replicate (length (wk_slots s)) None,
      wk_overflow := [], wk_woken := wk_woken s @ ws\<rparr>)" "mset ws = image_mset reg_waker (registered s)"
  by (rule that [of "slot_wakers (wk_slots s) @ map reg_waker (wk_overflow s)"])
    (use wake_slots_returns [OF assms, of 0 s] in
      \<open>simp_all add: wk_flush_def overflow_wake_waiters_def overflow_fire_returns [OF assms] mset_slot_wakers registered_def\<close>)

section \<open>Futures over one set\<close>

text \<open>
  Any number of futures park on one set, each through its own record; several may share a
  slot. They are polled, cancelled and woken in any order, one call after the other.
\<close>

datatype wk_op = Wk_Poll nat waker | Wk_Cancel nat | Wk_Wake

definition wk_step ::
    "(waker \<Rightarrow> completion) \<Rightarrow> wk_op \<Rightarrow> exclusive_registration list \<times> waker_set
      \<Rightarrow> (exclusive_registration list \<times> waker_set) exec" where
  "wk_step fire op st =
     (case st of (ers, s) \<Rightarrow>
        case op of
          Wk_Poll j w \<Rightarrow>
            if j < length ers then seq_exec (er_arm [] w (ers ! j, s)) (\<lambda>(er, s1). Inr (ers[j := er], s1))
            else Inr st
        | Wk_Cancel j \<Rightarrow>
            if j < length ers then seq_exec (er_withdraw [] (ers ! j, s)) (\<lambda>(er, s1). Inr (ers[j := er], s1))
            else Inr st
        | Wk_Wake \<Rightarrow> Inr (ers, snd (wk_wake_all [] fire s)))"

fun wk_run ::
    "(waker \<Rightarrow> completion) \<Rightarrow> wk_op list \<Rightarrow> exclusive_registration list \<times> waker_set
      \<Rightarrow> (exclusive_registration list \<times> waker_set) exec" where
  "wk_run fire [] st = Inr st"
| "wk_run fire (op # ops) st = seq_exec (wk_step fire op st) (wk_run fire ops)"

definition wk_start :: "park_slot list \<Rightarrow> exclusive_registration list \<times> waker_set" where
  "wk_start leased = (map er_new leased, waker_set_new)"

text \<open>The specification: who waits with which waker, and the wakers fired so far.\<close>

fun waiting_step :: "wk_op \<Rightarrow> waker option list \<times> waker multiset \<Rightarrow> waker option list \<times> waker multiset" where
  "waiting_step (Wk_Poll j w) (ws, fired) = (ws[j := Some w], fired)"
| "waiting_step (Wk_Cancel j) (ws, fired) = (ws[j := None], fired)"
| "waiting_step Wk_Wake (ws, fired) = (map (\<lambda>_. None) ws, fired + mset (List.map_filter id ws))"

definition entry_for :: "exclusive_registration \<Rightarrow> waker option \<Rightarrow> registration multiset" where
  "entry_for er w =
     (case (er_armed er, w) of (Some i, Some v) \<Rightarrow> {#registration_new i v#} | _ \<Rightarrow> {#})"

definition waiting_entries ::
    "exclusive_registration list \<Rightarrow> waker option list \<Rightarrow> registration multiset" where
  "waiting_entries ers ws = (\<Sum>(er, w) \<leftarrow> zip ers ws. entry_for er w)"

definition wk_rel ::
    "nat \<Rightarrow> waker option list \<times> waker multiset \<Rightarrow> exclusive_registration list \<times> waker_set \<Rightarrow> bool" where
  "wk_rel m a st \<longleftrightarrow>
     (case (a, st) of ((ws, fired), (ers, s)) \<Rightarrow>
        length ws = length ers \<and> mset (wk_woken s) = fired \<and> unat (wk_ids s) \<le> m
        \<and> registered s = waiting_entries ers ws
        \<and> (\<forall>j < length ers. ws ! j \<noteq> None \<longrightarrow> er_armed (ers ! j) \<noteq> None)
        \<and> (\<forall>j < length ers. \<forall>i. er_armed (ers ! j) = Some i \<longrightarrow> i < wk_ids s)
        \<and> (\<forall>j < length ers. \<forall>k < length ers. \<forall>i. er_armed (ers ! j) = Some i \<and> er_armed (ers ! k) = Some i \<longrightarrow> j = k)
        \<and> (\<forall>j < length ers. \<forall>k. park_slot_index (er_slot (ers ! j)) = Some k \<longrightarrow> k < length (wk_slots s))
        \<and> (\<forall>k < length (wk_slots s). \<forall>r. wk_slots s ! k = Some r \<longrightarrow>
             (\<exists>j < length ers. er_armed (ers ! j) = Some (reg_id r) \<and> park_slot_index (er_slot (ers ! j)) = Some k))
        \<and> (registered s \<noteq> {#} \<longrightarrow> wk_pending s))"

lemma waiting_entries_update:
  assumes "length ws = length ers" and "j < length ers"
  shows "waiting_entries (ers[j := er]) (ws[j := w]) = waiting_entries ers (ws[j := None]) + entry_for er w"
proof -
  have "zip (ers[j := er]) (ws[j := w]) = (zip ers ws)[j := (er, w)]" by (simp add: update_zip)
  moreover have "zip ers (ws[j := None]) = (zip ers ws)[j := (ers ! j, None)]"
    using update_zip [of ers ws j "(ers ! j, None)"] by simp
  moreover have "entry_for (ers ! j) None = {#}" by (simp add: entry_for_def split: option.split)
  ultimately show ?thesis
    using sum_list_exchange [of j "(zip ers ws)[j := (ers ! j, None)]" "\<lambda>(er, w). entry_for er w" "(er, w)"] assms
    by (simp add: waiting_entries_def)
qed

lemma waiting_entries_split:
  assumes "length ws = length ers" and "j < length ers"
  shows "waiting_entries ers ws = waiting_entries ers (ws[j := None]) + entry_for (ers ! j) (ws ! j)"
  using waiting_entries_update [OF assms, of "ers ! j" "ws ! j"] by simp

lemma in_waiting_entries:
  assumes "r \<in># waiting_entries ers ws"
  shows "\<exists>k < length ers. k < length ws \<and> er_armed (ers ! k) = Some (reg_id r) \<and> ws ! k = Some (reg_waker r)"
  using assms
  by (auto simp: waiting_entries_def in_set_conv_nth entry_for_def registration_new_def split: option.splits)

lemma waiting_wakers:
  assumes "length ws = length ers" and "\<forall>j < length ers. ws ! j \<noteq> None \<longrightarrow> er_armed (ers ! j) \<noteq> None"
  shows "image_mset reg_waker (waiting_entries ers ws) = mset (List.map_filter id ws)"
  using assms
proof (induction ers ws rule: list_induct2')
  case (4 er ers w ws)
  have "\<forall>j < length ers. ws ! j \<noteq> None \<longrightarrow> er_armed (ers ! j) \<noteq> None" using 4(3) by auto
  moreover have "w \<noteq> None \<longrightarrow> er_armed er \<noteq> None" using 4(3) by auto
  ultimately show ?case
    using 4 by (auto simp: waiting_entries_def List.map_filter_simps entry_for_def registration_new_def split: option.splits)
qed (simp_all add: waiting_entries_def List.map_filter_simps)

lemma waiting_entries_none: "waiting_entries ers (map (\<lambda>_. None) ws) = {#}"
  using in_waiting_entries [of _ ers "map (\<lambda>_. None) ws"] by (metis length_map multiset_nonemptyE nth_map option.distinct(1))

lemma others_waiting:
  assumes "wk_rel m (ws, fired) (ers, s)" and "j < length ers" and "er_armed (ers ! j) = Some i"
  shows "others i (waiting_entries ers (ws[j := None])) = waiting_entries ers (ws[j := None])"
proof (rule others_id, rule ballI)
  fix r assume "r \<in># waiting_entries ers (ws[j := None])"
  then obtain k where k: "k < length ers" "k < length ws" "er_armed (ers ! k) = Some (reg_id r)" "ws[j := None] ! k \<noteq> None"
    using in_waiting_entries [of r ers "ws[j := None]"] by auto
  then have "k \<noteq> j" by auto
  then show "reg_id r \<noteq> i" using assms k by (auto simp: wk_rel_def)
qed

lemma armed_at_home:
  assumes "wk_rel m (ws, fired) (ers, s)" and "j < length ers" and "er_armed (ers ! j) = Some i"
  shows "at_home i (er_slot (ers ! j)) s"
    and "others i (registered s) = waiting_entries ers (ws[j := None])"
proof -
  let ?R = "waiting_entries ers (ws[j := None])"
  have split: "registered s = ?R + entry_for (ers ! j) (ws ! j)"
    using waiting_entries_split [of ws ers j] assms(1,2) by (simp add: wk_rel_def)
  have rest: "others i ?R = ?R" by (rule others_waiting [OF assms])
  have "reg_id r \<noteq> i" if "r \<in># ?R" for r
  proof -
    have "r \<in># others i ?R" unfolding rest by (rule that)
    then show ?thesis by (simp add: others_def)
  qed
  then have none: "filter_mset (\<lambda>r. reg_id r = i) ?R = {#}" by (auto simp: filter_mset_eq_mempty_iff)
  show "others i (registered s) = ?R"
    unfolding split using rest assms(3) by (auto simp: entry_for_def registration_new_def split: option.splits)
  have "size (filter_mset (\<lambda>r. reg_id r = i) (registered s)) \<le> 1"
    unfolding split filter_union_mset none by (auto simp: entry_for_def split: option.splits)
  moreover have "park_slot_index (er_slot (ers ! j)) = Some k"
    if here: "k < length (wk_slots s)" "wk_slots s ! k = Some r" "reg_id r = i" for k r
  proof -
    have homes: "\<forall>k < length (wk_slots s). \<forall>r. wk_slots s ! k = Some r \<longrightarrow>
        (\<exists>l < length ers. er_armed (ers ! l) = Some (reg_id r) \<and> park_slot_index (er_slot (ers ! l)) = Some k)"
      and single: "\<And>l. l < length ers \<Longrightarrow> er_armed (ers ! l) = Some i \<Longrightarrow> l = j"
      using assms unfolding wk_rel_def prod.case by blast+
    obtain l where l: "l < length ers" "er_armed (ers ! l) = Some i" "park_slot_index (er_slot (ers ! l)) = Some k"
      using homes here by blast
    then show ?thesis using single [OF l(1,2)] by simp
  qed
  ultimately show "at_home i (er_slot (ers ! j)) s" by (simp add: at_home_def)
qed

lemma fresh_at_home:
  assumes "wk_rel m (ws, fired) (ers, s)"
  shows "\<forall>r \<in># registered s. reg_id r \<noteq> wk_ids s"
  using assms in_waiting_entries [of _ ers ws] by (fastforce simp: wk_rel_def)

text \<open>One step of one future: its entry is replaced, nobody else's is touched.\<close>

lemma wk_rel_update:
  assumes rel: "wk_rel m (ws, fired) (ers, s)" and j: "j < length ers"
    and reg: "registered s' = waiting_entries ers (ws[j := None]) + entry_for er w"
    and armed: "w \<noteq> None \<Longrightarrow> er_armed er \<noteq> None"
    and ids: "wk_ids s \<le> wk_ids s'" "unat (wk_ids s') \<le> m'"
      "\<And>i. er_armed er = Some i \<Longrightarrow> i < wk_ids s' \<and> (\<forall>k < length ers. er_armed (ers ! k) = Some i \<longrightarrow> k = j)"
    and same: "er_slot er = er_slot (ers ! j)" "wk_woken s' = wk_woken s" "length (wk_slots s') = length (wk_slots s)"
    and held: "\<And>k r. k < length (wk_slots s) \<Longrightarrow> wk_slots s' ! k = Some r \<Longrightarrow>
      (wk_slots s ! k = Some r \<and> (er_armed (ers ! j) = Some (reg_id r) \<longrightarrow> er_armed er = Some (reg_id r)))
      \<or> (er_armed er = Some (reg_id r) \<and> park_slot_index (er_slot er) = Some k)"
    and pending: "registered s' \<noteq> {#} \<Longrightarrow> wk_pending s'"
  shows "wk_rel m' (ws[j := w], fired) (ers[j := er], s')"
proof -
  have old: "length ws = length ers" "mset (wk_woken s) = fired"
    "\<And>k. k < length ers \<Longrightarrow> ws ! k \<noteq> None \<Longrightarrow> er_armed (ers ! k) \<noteq> None"
    "\<And>k i. k < length ers \<Longrightarrow> er_armed (ers ! k) = Some i \<Longrightarrow> i < wk_ids s"
    "\<And>k l i. k < length ers \<Longrightarrow> l < length ers \<Longrightarrow> er_armed (ers ! k) = Some i \<Longrightarrow> er_armed (ers ! l) = Some i \<Longrightarrow> k = l"
    "\<And>k l. k < length ers \<Longrightarrow> park_slot_index (er_slot (ers ! k)) = Some l \<Longrightarrow> l < length (wk_slots s)"
    "\<And>k r. k < length (wk_slots s) \<Longrightarrow> wk_slots s ! k = Some r \<Longrightarrow>
      \<exists>l < length ers. er_armed (ers ! l) = Some (reg_id r) \<and> park_slot_index (er_slot (ers ! l)) = Some k"
    using rel by (auto simp: wk_rel_def)
  have "registered s' = waiting_entries (ers[j := er]) (ws[j := w])"
    using waiting_entries_update [OF old(1) j, of er w] reg by simp
  moreover have "i < wk_ids s'" if "k < length ers" "er_armed (ers[j := er] ! k) = Some i" for k i
  proof (cases "k = j")
    case True
    then show ?thesis using that j ids(3) [of i] by simp
  next
    case False
    then have "i < wk_ids s" using that old(4) [of k i] by simp
    then show ?thesis using ids(1) by (rule order.strict_trans2)
  qed
  moreover have "k = l" if "k < length ers" "l < length ers" "er_armed (ers[j := er] ! k) = Some i"
    "er_armed (ers[j := er] ! l) = Some i" for k l i
  proof -
    have "er_armed er = Some i \<Longrightarrow> k' < length ers \<Longrightarrow> k' \<noteq> j \<Longrightarrow> er_armed (ers ! k') \<noteq> Some i" for k'
      using ids(3) [of i] by blast
    then show ?thesis using that old(5) [of k l i] j by (cases "k = j"; cases "l = j") simp_all
  qed
  moreover have "\<exists>l < length ers. er_armed (ers[j := er] ! l) = Some (reg_id r)
      \<and> park_slot_index (er_slot (ers[j := er] ! l)) = Some k"
    if k: "k < length (wk_slots s)" "wk_slots s' ! k = Some r" for k r
    using held [OF k]
  proof (elim disjE conjE)
    assume h: "wk_slots s ! k = Some r" "er_armed (ers ! j) = Some (reg_id r) \<longrightarrow> er_armed er = Some (reg_id r)"
    then obtain l where l: "l < length ers" "er_armed (ers ! l) = Some (reg_id r)" "park_slot_index (er_slot (ers ! l)) = Some k"
      using old(7) [OF k(1) h(1)] by blast
    then show ?thesis using h(2) j same(1) by (intro exI [of _ l]) (cases "l = j"; simp)
  next
    assume "er_armed er = Some (reg_id r)" "park_slot_index (er_slot er) = Some k"
    then show ?thesis using j by (intro exI [of _ j]) simp
  qed
  moreover have kept: "ws[j := w] ! k \<noteq> None \<longrightarrow> er_armed (ers[j := er] ! k) \<noteq> None"
      "\<forall>l. park_slot_index (er_slot (ers[j := er] ! k)) = Some l \<longrightarrow> l < length (wk_slots s)" if "k < length ers" for k
    using that old(1) old(3) [of k] old(6) [of k] armed same(1) j by (cases "k = j"; simp)+
  ultimately show ?thesis
    unfolding wk_rel_def prod.case length_list_update same(2,3) using old(1,2) ids(2) pending kept by blast
qed

text \<open>A future that polls: a first poll mints an id, a later one keeps the id it has.\<close>

definition armed_id ::
    "exclusive_registration \<Rightarrow> waker_set \<Rightarrow> registration_id \<times> waker_set \<times> waker_set meddling" where
  "armed_id er s =
     (case er_armed er of
        None \<Rightarrow> (case wk_mint s of (i, s1) \<Rightarrow> (i, s1, []))
      | Some i \<Rightarrow> (i, snd (overflow_withdraw [] i s)))"

lemma others_idem [simp]: "others i (others i M) = others i M"
  by (simp add: others_def filter_filter_mset)

lemma away_from_overflow:
  assumes home: "at_home i slot s" and gone: "overflow_withdraw [] i s = (found, s\<lparr>wk_overflow := rest\<rparr>, [])"
    "mset rest = others i (mset (wk_overflow s))"
  shows "at_home i slot (s\<lparr>wk_overflow := rest\<rparr>)" "\<forall>r \<in> set rest. reg_id r \<noteq> i"
    "others i (registered (s\<lparr>wk_overflow := rest\<rparr>)) = others i (registered s)"
proof -
  have "mset rest \<subseteq># mset (wk_overflow s)" unfolding gone(2) others_def by (rule multiset_filter_subset)
  then have "registered (s\<lparr>wk_overflow := rest\<rparr>) \<subseteq># registered s" by (simp add: registered_def)
  then have "size (filter_mset (\<lambda>r. reg_id r = i) (registered (s\<lparr>wk_overflow := rest\<rparr>)))
      \<le> size (filter_mset (\<lambda>r. reg_id r = i) (registered s))"
    by (intro size_mset_mono multiset_filter_mono)
  then show "at_home i slot (s\<lparr>wk_overflow := rest\<rparr>)" using home by (simp add: at_home_def)
  have "r \<in># others i (mset (wk_overflow s))" if "r \<in> set rest" for r
    using that gone(2) by (metis set_mset_mset)
  then show "\<forall>r \<in> set rest. reg_id r \<noteq> i" by (simp add: others_def)
  show "others i (registered (s\<lparr>wk_overflow := rest\<rparr>)) = others i (registered s)"
    by (simp add: registered_def gone(2))
qed

lemma id_ready:
  assumes rel: "wk_rel m (ws, fired) (ers, s)" and j: "j < length ers" and room: "Suc m < 2 ^ 64"
  obtains i s1 where "armed_id (ers ! j) s = (i, s1, [])"
    "at_home i (er_slot (ers ! j)) s1" "\<forall>r \<in> set (wk_overflow s1). reg_id r \<noteq> i"
    "others i (registered s1) = waiting_entries ers (ws[j := None])"
    "wk_slots s1 = wk_slots s" "wk_woken s1 = wk_woken s" "wk_ids s \<le> wk_ids s1" "unat (wk_ids s1) \<le> Suc m"
    "i < wk_ids s1" "\<forall>k < length ers. er_armed (ers ! k) = Some i \<longrightarrow> k = j"
    "\<forall>v. er_armed (ers ! j) = Some v \<longrightarrow> v = i"
proof (cases "er_armed (ers ! j)")
  case None
  let ?i = "wk_ids s" and ?s1 = "s\<lparr>wk_ids := wk_ids s + 1\<rparr>"
  have ids: "unat (wk_ids s) \<le> m" and armed: "\<forall>k < length ers. \<forall>i. er_armed (ers ! k) = Some i \<longrightarrow> i < wk_ids s"
    and entries: "registered s = waiting_entries ers ws" and "ws ! j \<noteq> None \<longrightarrow> er_armed (ers ! j) \<noteq> None"
    using rel j unfolding wk_rel_def prod.case by blast+
  then have ws: "ws[j := None] = ws" using None list_update_id [of ws j] by simp
  have next_id: "unat (wk_ids s + 1) = Suc (unat (wk_ids s))"
    using ids room unat_add_of_nat [of "wk_ids s" 1] by simp
  then have later: "wk_ids s < wk_ids s + 1" by (simp add: word_less_nat_alt)
  have fresh: "\<forall>r \<in># registered s. reg_id r \<noteq> ?i" by (rule fresh_at_home [OF rel])
  have same: "registered ?s1 = registered s" by (simp add: registered_def)
  have "reg_id r \<noteq> ?i" if "k < length (wk_slots s)" "wk_slots s ! k = Some r" for k r
    using fresh that unfolding registered_def by (metis in_slots union_iff)
  moreover have "filter_mset (\<lambda>r. reg_id r = ?i) (registered s) = {#}"
    using fresh by (simp add: filter_mset_eq_mempty_iff)
  then have "size (filter_mset (\<lambda>r. reg_id r = ?i) (registered s)) \<le> 1" by (simp only: size_empty)
  ultimately have home: "at_home ?i (er_slot (ers ! j)) ?s1" unfolding at_home_def same by auto
  have away: "\<forall>r \<in> set (wk_overflow ?s1). reg_id r \<noteq> ?i" using fresh by (simp add: registered_def)
  have peers: "others ?i (registered ?s1) = waiting_entries ers (ws[j := None])"
    unfolding ws same entries [symmetric] by (rule others_id [OF fresh])
  have "\<forall>k < length ers. er_armed (ers ! k) = Some ?i \<longrightarrow> k = j" using armed by blast
  then show ?thesis
    using None next_id ids later home away peers
    by (intro that [of ?i ?s1]) (simp_all add: armed_id_def wk_mint_def ids_mint_def order_less_imp_le)
next
  case (Some i)
  have facts: "unat (wk_ids s) \<le> m" "i < wk_ids s" "\<forall>k < length ers. er_armed (ers ! k) = Some i \<longrightarrow> k = j"
    using rel j Some unfolding wk_rel_def prod.case by blast+
  note home = armed_at_home [OF rel j Some]
  have one: "size (filter_mset (\<lambda>r. reg_id r = i) (registered s)) \<le> 1" using home(1) by (simp add: at_home_def)
  obtain found rest where gone: "overflow_withdraw [] i s = (found, s\<lparr>wk_overflow := rest\<rparr>, [])"
    "mset rest = others i (mset (wk_overflow s))"
    by (rule overflow_withdraw_alone [OF one])
  show ?thesis
    using facts away_from_overflow [OF home(1) gone] home(2) Some
    by (intro that [of i "s\<lparr>wk_overflow := rest\<rparr>"]) (simp_all add: armed_id_def gone(1))
qed

lemma poll_registers:
  assumes rel: "wk_rel m (ws, fired) (ers, s)" and j: "j < length ers" and room: "Suc m < 2 ^ 64"
  obtains er s' where "er_arm [] w (ers ! j, s) = Inr (er, s')"
    "wk_rel (Suc m) (ws[j := Some w], fired) (ers[j := er], s')"
proof -
  have slot: "\<And>k. park_slot_index (er_slot (ers ! j)) = Some k \<Longrightarrow> k < length (wk_slots s)"
    using rel j unfolding wk_rel_def prod.case by blast
  obtain i s1 where ready: "armed_id (ers ! j) s = (i, s1, [])"
    "at_home i (er_slot (ers ! j)) s1" "\<forall>r \<in> set (wk_overflow s1). reg_id r \<noteq> i"
    and peers: "others i (registered s1) = waiting_entries ers (ws[j := None])"
    and s1: "wk_slots s1 = wk_slots s" "wk_woken s1 = wk_woken s" "wk_ids s \<le> wk_ids s1" "unat (wk_ids s1) \<le> Suc m"
      "i < wk_ids s1" "\<forall>k < length ers. er_armed (ers ! k) = Some i \<longrightarrow> k = j"
    and mine: "\<forall>v. er_armed (ers ! j) = Some v \<longrightarrow> v = i"
    by (rule id_ready [OF rel j room])
  obtain s' where reg: "wk_register_as [] i (er_slot (ers ! j)) w s1 = Inr (s', [])" "wk_pending s'"
      "registered s' = add_mset (registration_new i w) (others i (registered s1))"
      "same_but (registration_new i w) (er_slot (ers ! j)) s1 s'"
    by (rule register_alone [OF ready(2,3)]) (use slot s1(1) in simp_all)
  let ?er = "(ers ! j)\<lparr>er_armed := Some i\<rparr>"
  have "er_arm [] w (ers ! j, s) = Inr (?er, s')"
    using ready(1) reg(1) unfolding er_arm_def armed_id_def prod.case by simp
  moreover have "wk_rel (Suc m) (ws[j := Some w], fired) (ers[j := ?er], s')"
  proof (rule wk_rel_update [OF rel j])
    show "registered s' = waiting_entries ers (ws[j := None]) + entry_for ?er (Some w)"
      by (simp add: reg(3) peers entry_for_def)
    show "length (wk_slots s') = length (wk_slots s)" "wk_woken s' = wk_woken s" "wk_ids s \<le> wk_ids s'"
      "unat (wk_ids s') \<le> Suc m"
      using reg(4) s1 unfolding same_but_def by simp_all
    show "v < wk_ids s' \<and> (\<forall>k < length ers. er_armed (ers ! k) = Some v \<longrightarrow> k = j)" if "er_armed ?er = Some v" for v
      using that reg(4) s1(5,6) unfolding same_but_def by simp
    show "(wk_slots s ! k = Some r \<and> (er_armed (ers ! j) = Some (reg_id r) \<longrightarrow> er_armed ?er = Some (reg_id r)))
      \<or> (er_armed ?er = Some (reg_id r) \<and> park_slot_index (er_slot ?er) = Some k)"
      if "k < length (wk_slots s)" "wk_slots s' ! k = Some r" for k r
      using that reg(4) mine unfolding same_but_def s1(1) by (auto simp: registration_new_def)
  qed (simp_all add: reg(2))
  ultimately show ?thesis by (rule that)
qed

lemma cancel_withdraws:
  assumes rel: "wk_rel m (ws, fired) (ers, s)" and j: "j < length ers"
  obtains er s' where "er_withdraw [] (ers ! j, s) = Inr (er, s')"
    "wk_rel m (ws[j := None], fired) (ers[j := er], s')"
proof (cases "er_armed (ers ! j)")
  case None
  then have "ws ! j = None" using rel j unfolding wk_rel_def prod.case by blast
  then have "ws[j := None] = ws" using list_update_id [of ws j] by simp
  then show ?thesis using None rel by (intro that [of "ers ! j" s]) (simp_all add: er_withdraw_def)
next
  case (Some i)
  have slot: "\<And>k. park_slot_index (er_slot (ers ! j)) = Some k \<Longrightarrow> k < length (wk_slots s)"
    and ids: "unat (wk_ids s) \<le> m" and pending: "registered s \<noteq> {#} \<longrightarrow> wk_pending s"
    using rel j unfolding wk_rel_def prod.case by blast+
  note home = armed_at_home [OF rel j Some]
  obtain s' where out: "wk_withdraw [] i (er_slot (ers ! j)) s = Inr (s', [])"
    "registered s' = others i (registered s)" "lessens s s'"
    by (rule withdraw_alone [OF home(1)]) (use slot in simp_all)
  let ?er = "(ers ! j)\<lparr>er_armed := None\<rparr>"
  have gone: "reg_id r \<noteq> i" if "k < length (wk_slots s)" "wk_slots s' ! k = Some r" for k r
  proof -
    have "r \<in># registered s'" using that out(3) unfolding registered_def lessens_def by (metis in_slots union_iff)
    then show ?thesis by (simp add: out(2) others_def)
  qed
  have "wk_rel m (ws[j := None], fired) (ers[j := ?er], s')"
  proof (rule wk_rel_update [OF rel j])
    show "registered s' = waiting_entries ers (ws[j := None]) + entry_for ?er None"
      by (simp add: out(2) home(2) entry_for_def)
    show "wk_pending s'" if "registered s' \<noteq> {#}"
      using that pending out(2,3) by (cases "registered s = {#}") (auto simp: lessens_def)
  qed (use out(3) ids gone Some in \<open>auto simp: lessens_def\<close>)
  then show ?thesis using out(1) Some by (intro that [of ?er s']) (simp_all add: er_withdraw_def)
qed

lemma wake_wakes_waiting:
  assumes rel: "wk_rel m (ws, fired) (ers, s)" and fire: "\<And>w. fire w = Returned"
  obtains s' where "wk_wake_all [] fire s = (Returned, s')"
    "wk_rel m (map (\<lambda>_. None) ws, fired + mset (List.map_filter id ws)) (ers, s')"
proof -
  have facts: "length ws = length ers" "mset (wk_woken s) = fired" "unat (wk_ids s) \<le> m"
    "registered s = waiting_entries ers ws" "\<forall>j < length ers. ws ! j \<noteq> None \<longrightarrow> er_armed (ers ! j) \<noteq> None"
    and pending: "registered s \<noteq> {#} \<longrightarrow> wk_pending s"
    using rel unfolding wk_rel_def prod.case by blast+
  have wakers: "image_mset reg_waker (registered s) = mset (List.map_filter id ws)"
    unfolding facts(4) by (rule waiting_wakers [OF facts(1,5)])
  obtain vs where flushed: "wk_flush [] fire s = (Returned, s\<lparr>wk_slots := replicate (length (wk_slots s)) None,
      wk_overflow := [], wk_woken := wk_woken s @ vs\<rparr>)" "mset vs = image_mset reg_waker (registered s)"
    by (rule flush_returns [OF fire])
  let ?s1 = "s\<lparr>wk_slots := replicate (length (wk_slots s)) None, wk_overflow := [], wk_woken := wk_woken s @ vs\<rparr>"
  have empty: "registered ?s1 = {#}"
    by (simp add: registered_def)
  have cleared: "wk_rel m (map (\<lambda>_. None) ws, fired + mset (List.map_filter id ws)) (ers, ?s1)"
    using rel empty wakers flushed(2) waiting_entries_none [of ers ws] unfolding wk_rel_def prod.case by simp
  show ?thesis
  proof (cases "wk_pending s")
    case True
    then show ?thesis using that cleared flushed(1) by (simp add: wk_wake_all_def)
  next
    case False
    then have none: "registered s = {#}" using pending by blast
    have "mset (List.map_filter id ws) = {#}" using wakers none by simp
    then have "\<forall>w \<in> set ws. w = None" by (auto simp: List.map_filter_def filter_empty_conv)
    then have "map (\<lambda>_. None) ws = ws" by (intro map_idI) auto
    then show ?thesis using that [of s] rel False \<open>mset (List.map_filter id ws) = {#}\<close> by (simp add: wk_wake_all_def)
  qed
qed

lemma wk_step_refines:
  assumes rel: "wk_rel m a (ers, s)" and room: "Suc m < 2 ^ 64" and fire: "\<And>w. fire w = Returned"
  shows "\<exists>st'. wk_step fire op (ers, s) = Inr st' \<and> wk_rel (Suc m) (waiting_step op a) st'"
proof -
  obtain ws fired where a: "a = (ws, fired)" by (cases a)
  have len: "length ws = length ers" using rel unfolding a wk_rel_def prod.case by blast
  have weaken: "wk_rel m b st \<Longrightarrow> wk_rel (Suc m) b st" for b st by (auto simp: wk_rel_def)
  show ?thesis
  proof (cases op)
    case (Wk_Poll j w)
    show ?thesis
    proof (cases "j < length ers")
      case True
      show ?thesis
        by (rule poll_registers [OF rel [unfolded a] True room, of w])
          (simp add: wk_step_def Wk_Poll True a)
    next
      case False
      then show ?thesis using rel weaken len by (auto simp: wk_step_def Wk_Poll a list_update_beyond)
    qed
  next
    case (Wk_Cancel j)
    show ?thesis
    proof (cases "j < length ers")
      case True
      show ?thesis
        by (rule cancel_withdraws [OF rel [unfolded a] True])
          (simp add: wk_step_def Wk_Cancel True a weaken)
    next
      case False
      then show ?thesis using rel weaken len by (auto simp: wk_step_def Wk_Cancel a list_update_beyond)
    qed
  next
    case Wk_Wake
    show ?thesis
      by (rule wake_wakes_waiting [OF rel [unfolded a], of fire]) (simp_all add: wk_step_def Wk_Wake a weaken fire)
  qed
qed

lemma wk_run_refines:
  assumes "wk_rel m a st" and "m + length ops < 2 ^ 64" and "\<And>w. fire w = Returned"
  shows "\<exists>st'. wk_run fire ops st = Inr st' \<and> wk_rel (m + length ops) (fold waiting_step ops a) st'"
  using assms(1,2)
proof (induction ops arbitrary: m a st)
  case (Cons op ops)
  obtain ers s where st: "st = (ers, s)" by (cases st)
  obtain st1 where "wk_step fire op (ers, s) = Inr st1" "wk_rel (Suc m) (waiting_step op a) st1"
    using wk_step_refines [OF Cons.prems(1) [unfolded st] _ assms(3)] Cons.prems(2) by fastforce
  then show ?case using Cons.IH [of "Suc m" "waiting_step op a" st1] Cons.prems(2) by (simp add: st)
qed simp

lemma wk_start_rel:
  assumes "\<forall>slot \<in> set leased. \<forall>k. park_slot_index slot = Some k \<longrightarrow> k < PARK_SLOTS"
  shows "wk_rel 0 (replicate (length leased) None, {#}) (wk_start leased)"
proof -
  have "waiting_entries (map er_new leased) (replicate (length leased) None) = {#}"
    using waiting_entries_none [of "map er_new leased" leased] by (simp add: map_replicate_const)
  moreover have "registered waker_set_new = {#}"
    by (simp add: registered_def waker_set_new_def waker_slot_new_def)
  ultimately show ?thesis
    using assms nth_mem [of _ leased]
    by (auto simp: wk_rel_def wk_start_def waker_set_new_def waker_slot_new_def er_new_def ids_new_def)
qed

text \<open>
  C20. Futures that share one waker set, with or without a slot of their own and even when
  several were given the same one, are woken as the specification says: after any sequence of
  polls, cancellations and wakes, none of which goes out of bounds, the set holds exactly the
  latest waker of every future that waits, and the wakers fired are, for each wake, those of
  the futures then waiting, once each; a cancelled future is not among them. (Each call runs
  alone, no waker panics, and fewer than \<open>2 ^ 64\<close> calls are made.)\<close>

theorem async_waiters_are_woken_once:
  assumes "\<forall>slot \<in> set leased. \<forall>k. park_slot_index slot = Some k \<longrightarrow> k < PARK_SLOTS"
    and "length ops < 2 ^ 64" and "\<And>w. fire w = Returned"
    and "fold waiting_step ops (replicate (length leased) None, {#}) = (ws, fired)"
  shows "\<exists>ers s. wk_run fire ops (wk_start leased) = Inr (ers, s)
    \<and> image_mset reg_waker (registered s) = mset (List.map_filter id ws) \<and> mset (wk_woken s) = fired"
proof -
  obtain ers s where "wk_run fire ops (wk_start leased) = Inr (ers, s)" and rel: "wk_rel (length ops) (ws, fired) (ers, s)"
    using wk_run_refines [OF wk_start_rel [OF assms(1)], where ops = ops and fire = fire] assms(2,3,4) by auto
  moreover have "length ws = length ers" "registered s = waiting_entries ers ws"
    "\<forall>j < length ers. ws ! j \<noteq> None \<longrightarrow> er_armed (ers ! j) \<noteq> None" "mset (wk_woken s) = fired"
    using rel unfolding wk_rel_def prod.case by blast+
  ultimately show ?thesis using waiting_wakers [of ws ers] by simp
qed

lemma async_waiters_are_woken_once_witness:
  "\<exists>ers s. wk_run (\<lambda>_. Returned) [Wk_Poll 0 7, Wk_Poll 1 8, Wk_Poll 2 9, Wk_Poll 0 6, Wk_Cancel 1, Wk_Wake, Wk_Poll 2 5]
      (wk_start [Leased 0, Leased 0, Shared]) = Inr (ers, s)
    \<and> image_mset reg_waker (registered s) = mset (List.map_filter id [None, None, Some 5]) \<and> mset (wk_woken s) = {#6, 9#}"
  by (rule async_waiters_are_woken_once [where leased = "[Leased 0, Leased 0, Shared]"])
    (auto simp: park_slot_index_def PARK_SLOTS_def List.map_filter_simps)

section \<open>Where the set falls short\<close>

text \<open>
  A future that withdraws detaches the whole overflow; a wake that comes before it has pushed
  the survivors back finds none of them. The peer with waker 2 stays registered, and unwoken.\<close>

lemma withdrawal_hides_peers_from_a_wake:
  "(let s = waker_set_new\<lparr>wk_pending := True, wk_overflow := [registration_new 1 1, registration_new 2 2]\<rparr> in
     (case overflow_withdraw [\<lambda>t. snd (wk_wake_all [] (\<lambda>_. Returned) t)] 1 s of
        (found, s1, _) \<Rightarrow> (found, wk_overflow s1, wk_woken s1))
       = (True, [registration_new 2 2], []))"
  by code_simp

text \<open>A waker that panics takes the rest of the chain with it: its peer is neither woken nor registered.\<close>

lemma panicking_waker_loses_its_peers:
  "(let s = waker_set_new\<lparr>wk_pending := True, wk_overflow := [registration_new 1 1, registration_new 2 2]\<rparr> in
     (case wk_wake_all [] (\<lambda>w. if w = 1 then Panicked else Returned) s of
        (c, s1) \<Rightarrow> (c, wk_overflow s1, wk_woken s1))
       = (Panicked, [], [1]))"
  by code_simp

end
