(* ===== verification/Async.thy ===== *)
theory Async
  imports Blocking Waker_Set
begin

text \<open>
  The async calls of the rings: the bodies of the futures \<open>pop_async\<close> and \<open>push_async\<close>
  return (one text in five rings), polled against a schedule of peers' calls. A side's
  state is paired with the waker set it waits on; the peers' calls announce their changes
  there. The arm is taken as one step. Wakers are numbers; the theorems on wakes take
  wakers that return.
\<close>

section \<open>Announcements\<close>

text \<open>What a ring call tells the waker set of the other side: \<open>wake_all\<close>, \<open>flush\<close>, or nothing.\<close>

datatype announcement = Silent | Wakes | Flushes

definition announce :: "(waker \<Rightarrow> completion) \<Rightarrow> announcement \<Rightarrow> waker_set \<Rightarrow> waker_set" where
  "announce fire a wk =
     (case a of
        Silent \<Rightarrow> wk
      | Wakes \<Rightarrow> snd (wk_wake_all [] fire wk)
      | Flushes \<Rightarrow> snd (wk_flush [] fire wk))"

type_synonym 's call = "'s \<Rightarrow> (announcement \<times> 's) exec"

definition announcing :: "(waker \<Rightarrow> completion) \<Rightarrow> 's call \<Rightarrow> 's \<times> waker_set \<Rightarrow> ('s \<times> waker_set) exec" where
  "announcing fire f st = (case st of (s, wk) \<Rightarrow> seq_exec (f s) (\<lambda>(a, s'). Inr (s', announce fire a wk)))"

definition announced_peer ::
    "('s call \<Rightarrow> bool) \<Rightarrow> ('s \<times> waker_set \<Rightarrow> ('s \<times> waker_set) exec) \<Rightarrow> bool" where
  "announced_peer call g \<longleftrightarrow> (\<exists>f fire. call f \<and> (\<forall>w. fire w = Returned) \<and> g = announcing fire f)"

section \<open>The polls\<close>

datatype 'r poll = Ready 'r | Pending

definition last_try ::
    "('s \<Rightarrow> ('a option \<times> 's) exec) \<Rightarrow> ('s \<times> waker_set) schedule \<Rightarrow> 's \<times> waker_set
      \<Rightarrow> ('a option poll \<times> 's \<times> waker_set) exec" where
  "last_try attempt ps st =
     seq_exec (interfere ps st) (\<lambda>((s, wk), _).
     seq_exec (attempt s) (\<lambda>(res, s'). Inr (Ready res, s', wk)))"

definition pop_poll ::
    "('s \<Rightarrow> ('a option \<times> 's) exec) \<Rightarrow> ('s \<Rightarrow> bool) \<Rightarrow> ('s \<times> waker_set) schedule \<Rightarrow> waker
      \<Rightarrow> exclusive_registration \<Rightarrow> 's \<times> waker_set
      \<Rightarrow> (exclusive_registration \<times> 'a option poll \<times> 's \<times> waker_set) exec" where
  "pop_poll attempt gone ps w er st =
     seq_exec (interfere ps st) (\<lambda>((s0, wk0), ps0).
     seq_exec (attempt s0) (\<lambda>(res, s1).
     case res of
       Some v \<Rightarrow> Inr (er, Ready (Some v), s1, wk0)
     | None \<Rightarrow>
         seq_exec (interfere ps0 (s1, wk0)) (\<lambda>((s2, wk2), ps2).
         if gone s2 then seq_exec (last_try attempt ps2 (s2, wk2)) (\<lambda>out. Inr (er, out))
         else
           seq_exec (interfere ps2 (s2, wk2)) (\<lambda>((s3, wk3), ps3).
           seq_exec (er_arm [] w (er, wk3)) (\<lambda>(er1, wk4).
           seq_exec (interfere ps3 (s3, wk4)) (\<lambda>((s5, wk5), ps5).
           seq_exec (attempt s5) (\<lambda>(res1, s6).
           case res1 of
             Some v \<Rightarrow> Inr (er1, Ready (Some v), s6, wk5)
           | None \<Rightarrow>
               seq_exec (interfere ps5 (s6, wk5)) (\<lambda>((s7, wk7), ps7).
               if gone s7 then seq_exec (last_try attempt ps7 (s7, wk7)) (\<lambda>out. Inr (er1, out))
               else Inr (er1, Pending, s7, wk7)))))))))"

text \<open>The push keeps its value between polls; a poll after completion is the \<open>expect\<close>.\<close>

record 'a push_future =
  pf_val :: "'a option"
  pf_parked :: exclusive_registration

definition push_future_new :: "park_slot \<Rightarrow> 'a \<Rightarrow> 'a push_future" where
  "push_future_new slot v = \<lparr>pf_val = Some v, pf_parked = er_new slot\<rparr>"

definition push_poll ::
    "('a \<Rightarrow> 's \<Rightarrow> ('a push_result \<times> 's) exec) \<Rightarrow> ('s \<Rightarrow> bool) \<Rightarrow> ('s \<times> waker_set) schedule \<Rightarrow> waker
      \<Rightarrow> 'a push_future \<Rightarrow> 's \<times> waker_set
      \<Rightarrow> ('a push_future \<times> 'a push_result poll \<times> 's \<times> waker_set) exec" where
  "push_poll attempt gone ps w pf st =
     (case pf_val pf of
        None \<Rightarrow> Inl Assertion_Failed
      | Some v \<Rightarrow>
          let taken = pf\<lparr>pf_val := None\<rparr> in
          seq_exec (interfere ps st) (\<lambda>((s0, wk0), ps0).
          if gone s0 then Inr (taken, Ready (Push_Err v), s0, wk0)
          else
            seq_exec (interfere ps0 (s0, wk0)) (\<lambda>((s1, wk1), ps1).
            seq_exec (attempt v s1) (\<lambda>(res, s2).
            case res of
              Push_Ok \<Rightarrow> Inr (taken, Ready Push_Ok, s2, wk1)
            | Push_Err v1 \<Rightarrow>
                seq_exec (interfere ps1 (s2, wk1)) (\<lambda>((s3, wk3), ps3).
                seq_exec (er_arm [] w (pf_parked pf, wk3)) (\<lambda>(er1, wk4).
                let armed = \<lparr>pf_val = None, pf_parked = er1\<rparr> in
                seq_exec (interfere ps3 (s3, wk4)) (\<lambda>((s5, wk5), ps5).
                if gone s5 then Inr (armed, Ready (Push_Err v1), s5, wk5)
                else
                  seq_exec (interfere ps5 (s5, wk5)) (\<lambda>((s6, wk6), _).
                  seq_exec (attempt v1 s6) (\<lambda>(res1, s7).
                  case res1 of
                    Push_Ok \<Rightarrow> Inr (armed, Ready Push_Ok, s7, wk6)
                  | Push_Err v2 \<Rightarrow> Inr (armed\<lparr>pf_val := Some v2\<rparr>, Pending, s7, wk6))))))))))"

section \<open>Facts about the set\<close>

definition wk_ok :: "waker_set \<Rightarrow> bool" where
  "wk_ok wk \<longleftrightarrow> (registered wk \<noteq> {#} \<longrightarrow> wk_pending wk) \<and> length (wk_slots wk) = PARK_SLOTS"

definition fired_since :: "waker_set \<Rightarrow> waker_set \<Rightarrow> waker set" where
  "fired_since wk wk' = set (drop (length (wk_woken wk)) (wk_woken wk'))"

definition later :: "waker_set \<Rightarrow> waker_set \<Rightarrow> bool" where
  "later wk wk' \<longleftrightarrow> wk_ok wk' \<and> prefix (wk_woken wk) (wk_woken wk')"

definition all_fired :: "waker_set \<Rightarrow> waker_set \<Rightarrow> bool" where
  "all_fired wk wk' \<longleftrightarrow> reg_waker ` set_mset (registered wk) \<subseteq> fired_since wk wk'"

lemma later_refl: "wk_ok wk \<Longrightarrow> later wk wk"
  by (simp add: later_def)

lemma later_trans: "later wk wk1 \<Longrightarrow> later wk1 wk2 \<Longrightarrow> later wk wk2"
  by (auto simp: later_def intro: prefix_order.trans)

lemma later_ok: "later wk wk' \<Longrightarrow> wk_ok wk'"
  by (simp add: later_def)

lemma fired_since_after:
  assumes "later wk wk1" and "later wk1 wk2"
  shows "fired_since wk1 wk2 \<subseteq> fired_since wk wk2" "fired_since wk wk1 \<subseteq> fired_since wk wk2"
  using assms by (auto simp: later_def fired_since_def prefix_def)

lemma announce_wakes:
  assumes "wk_ok wk" and "\<forall>w. fire w = Returned"
  shows "later wk (announce fire a wk)"
    and "a = Silent \<Longrightarrow> announce fire a wk = wk"
    and "a \<noteq> Silent \<Longrightarrow> all_fired wk (announce fire a wk)"
proof -
  obtain ws where flushed: "wk_flush [] fire wk = (Returned, wk\<lparr>wk_slots := replicate (length (wk_slots wk)) None,
      wk_overflow := [], wk_woken := wk_woken wk @ ws\<rparr>)" "mset ws = image_mset reg_waker (registered wk)"
    by (rule flush_returns [of fire wk]) (use assms(2) in simp_all)
  have fired: "set ws = reg_waker ` set_mset (registered wk)"
    using arg_cong [OF flushed(2), of set_mset] by simp
  let ?wk1 = "snd (wk_flush [] fire wk)"
  have flush: "later wk ?wk1" "all_fired wk ?wk1"
    using assms(1) fired by (auto simp: flushed(1) later_def wk_ok_def registered_def all_fired_def fired_since_def)
  have idle: "all_fired wk wk" if "\<not> wk_pending wk"
    using that assms(1) by (simp add: all_fired_def wk_ok_def)
  show "later wk (announce fire a wk)"
    using flush(1) later_refl [OF assms(1)] by (simp add: announce_def wk_wake_all_def split: announcement.split)
  show "a = Silent \<Longrightarrow> announce fire a wk = wk" by (simp add: announce_def)
  show "a \<noteq> Silent \<Longrightarrow> all_fired wk (announce fire a wk)"
    using flush(2) idle by (cases a) (simp_all add: announce_def wk_wake_all_def)
qed

lemma overflow_retain_frame:
  "\<exists>found' rest. overflow_retain [] i found chain s = (found', s\<lparr>wk_overflow := rest\<rparr>, [])"
proof (induction chain arbitrary: found s)
  case Nil
  show ?case by (rule exI [of _ found], rule exI [of _ "wk_overflow s"]) simp
next
  case (Cons r chain)
  show ?case
    using Cons.IH [of found "overflow_push r s"] Cons.IH [of True s] by (auto simp: overflow_push_def)
qed

lemma overflow_withdraw_frame: "\<exists>found rest. overflow_withdraw [] i s = (found, s\<lparr>wk_overflow := rest\<rparr>, [])"
proof (cases "wk_overflow s")
  case Nil
  then show ?thesis by (intro exI [of _ False] exI [of _ "[]"]) (simp add: overflow_withdraw_def)
next
  case (Cons r chain)
  then show ?thesis
    using overflow_retain_frame [of i False "r # chain" "s\<lparr>wk_overflow := []\<rparr>"] by (simp add: overflow_withdraw_def)
qed

lemma register_enters:
  assumes "\<And>k. park_slot_index slot = Some k \<Longrightarrow> k < length (wk_slots s)"
  obtains s' where "wk_register_as [] i slot w s = Inr (s', [])" "registration_new i w \<in># registered s'"
    "wk_pending s'" "wk_woken s' = wk_woken s" "length (wk_slots s') = length (wk_slots s)"
proof (cases "park_slot_index slot")
  case None
  then show ?thesis
    by (intro that [of "(overflow_push (registration_new i w) s)\<lparr>wk_pending := True\<rparr>"])
      (simp_all add: wk_register_as_def overflow_push_def registered_def)
next
  case (Some k)
  then have "k < length (wk_slots s)" by (rule assms)
  moreover from this have "Some (registration_new i w) \<in> set ((wk_slots s)[k := Some (registration_new i w)])"
    by (rule set_update_memI)
  ultimately show ?thesis
    using Some by (cases "waker_slot_store (registration_new i w) (wk_slots s ! k)"; cases "fst (waker_slot_store (registration_new i w) (wk_slots s ! k))")
      (auto intro!: that simp: wk_register_as_def overflow_push_def registered_def waker_slot_store_def Let_def
        split: option.splits if_splits)
qed

lemma arm_enters:
  assumes "\<And>k. park_slot_index (er_slot er) = Some k \<Longrightarrow> k < PARK_SLOTS" and "wk_ok wk"
  obtains i wk' where "er_arm [] w (er, wk) = Inr (er\<lparr>er_armed := Some i\<rparr>, wk')"
    "registration_new i w \<in># registered wk'" "later wk wk'" "wk_woken wk' = wk_woken wk"
proof -
  obtain i wk1 where id: "armed_id er wk = (i, wk1, [])" "wk_slots wk1 = wk_slots wk" "wk_woken wk1 = wk_woken wk"
  proof (cases "er_armed er")
    case None
    then show ?thesis
      by (intro that [of "wk_ids wk" "wk\<lparr>wk_ids := wk_ids wk + 1\<rparr>"]) (simp_all add: armed_id_def wk_mint_def ids_mint_def)
  next
    case (Some i)
    then show ?thesis using overflow_withdraw_frame [of i wk] by (auto intro: that simp: armed_id_def)
  qed
  obtain wk' where reg: "wk_register_as [] i (er_slot er) w wk1 = Inr (wk', [])" "registration_new i w \<in># registered wk'"
    "wk_pending wk'" "wk_woken wk' = wk_woken wk1" "length (wk_slots wk') = length (wk_slots wk1)"
    by (rule register_enters [of "er_slot er" wk1 i w]) (use assms id(2) in \<open>auto simp: wk_ok_def\<close>)
  have "er_arm [] w (er, wk) = Inr (er\<lparr>er_armed := Some i\<rparr>, wk')"
    using id(1) reg(1) unfolding er_arm_def armed_id_def prod.case by simp
  then show ?thesis
    using assms(2) id reg by (intro that [of i wk']) (simp_all add: later_def wk_ok_def)
qed

section \<open>The peers' side of the contract\<close>

text \<open>
  \<open>evolves\<close> says what the calls of the other side may do to the queue. The law that keeps a
  waiter from being lost: a call that announces nothing has changed neither the queue nor
  the close flag.
\<close>

locale announcing_calls =
  fixes rel :: "'s \<Rightarrow> 'a list \<Rightarrow> bool" and budget bound :: "'s \<Rightarrow> nat" and cost :: nat
    and evolves :: "'a list \<Rightarrow> 'a list \<Rightarrow> bool" and gone :: "'s \<Rightarrow> bool" and call :: "'s call \<Rightarrow> bool"
  assumes evolves_refl: "evolves q q"
    and evolves_trans: "evolves q q1 \<Longrightarrow> evolves q1 q2 \<Longrightarrow> evolves q q2"
    and call_law: "call f \<Longrightarrow> rel s q \<Longrightarrow> cost \<le> budget s \<Longrightarrow>
      \<exists>a s' q'. f s = Inr (a, s') \<and> rel s' q' \<and> evolves q q' \<and> bound s' = bound s
        \<and> budget s \<le> budget s' + cost \<and> (gone s \<longrightarrow> gone s') \<and> (a = Silent \<longrightarrow> q' = q \<and> gone s' = gone s)"
begin

definition ready :: "('s \<times> waker_set) schedule \<Rightarrow> 's \<Rightarrow> bool" where
  "ready ps s \<longleftrightarrow> permitted (announced_peer call) ps \<and> cost * Suc (length ps) \<le> budget s"

lemma ready_mono: "ready ps s \<Longrightarrow> budget s \<le> budget s' \<Longrightarrow> ready ps s'"
  by (simp add: ready_def)

lemma ready_cost: "ready ps s \<Longrightarrow> cost \<le> budget s"
  by (simp add: ready_def)

text \<open>Either nothing has happened, or everyone registered before was fired.\<close>

definition told :: "'s \<Rightarrow> 'a list \<Rightarrow> waker_set \<Rightarrow> 's \<Rightarrow> 'a list \<Rightarrow> waker_set \<Rightarrow> bool" where
  "told s q wk s' q' wk' \<longleftrightarrow> later wk wk' \<and> bound s' = bound s \<and> (gone s \<longrightarrow> gone s')
     \<and> ((wk' = wk \<and> q' = q \<and> gone s' = gone s) \<or> all_fired wk wk')"

lemma told_refl: "wk_ok wk \<Longrightarrow> told s q wk s q wk"
  by (simp add: told_def later_refl)

lemma told_trans:
  assumes "told s q wk s1 q1 wk1" and "told s1 q1 wk1 s2 q2 wk2"
  shows "told s q wk s2 q2 wk2"
proof -
  have l: "later wk wk1" "later wk1 wk2" using assms by (simp_all add: told_def)
  have "all_fired wk wk1 \<Longrightarrow> all_fired wk wk2"
    using fired_since_after(2) [OF l] by (auto simp: all_fired_def)
  then show ?thesis using assms later_trans [OF l] by (auto simp: told_def)
qed

lemma peer_told:
  assumes "announced_peer call g" and "rel s q" and "cost \<le> budget s" and "wk_ok wk"
  shows "\<exists>s' q' wk'. g (s, wk) = Inr (s', wk') \<and> rel s' q' \<and> evolves q q' \<and> budget s \<le> budget s' + cost
    \<and> told s q wk s' q' wk'"
proof -
  obtain f fire where f: "call f" "\<forall>w. fire w = Returned" "g = announcing fire f"
    using assms(1) by (auto simp: announced_peer_def)
  obtain a s' q' where c: "f s = Inr (a, s')" "rel s' q'" "evolves q q'" "bound s' = bound s"
    "budget s \<le> budget s' + cost" "gone s \<longrightarrow> gone s'" "a = Silent \<longrightarrow> q' = q \<and> gone s' = gone s"
    using call_law [OF f(1) assms(2,3)] by blast
  have "told s q wk s' q' (announce fire a wk)"
    using c(4,6,7) announce_wakes [OF assms(4) f(2)] later_refl [OF assms(4)] unfolding told_def by (cases "a = Silent") simp_all
  then show ?thesis
    using c(1-3,5) by (intro exI [of _ s'] exI [of _ q'] exI [of _ "announce fire a wk"]) (simp add: f(3) announcing_def)
qed

lemma interfere_told:
  assumes "ready ps s" and "rel s q" and "wk_ok wk"
  shows "\<exists>s' wk' ps' q'. interfere ps (s, wk) = Inr ((s', wk'), ps') \<and> ready ps' s' \<and> rel s' q' \<and> evolves q q'
    \<and> told s q wk s' q' wk'"
  using assms
proof (induction ps arbitrary: s q wk)
  case Nil
  then show ?case using evolves_refl told_refl by fastforce
next
  case (Cons x ps)
  show ?case
  proof (cases x)
    case Turn
    have "ready ps s" using Cons.prems(1) Turn by (simp add: ready_def)
    then show ?thesis using Cons.prems(2,3) Turn evolves_refl told_refl by fastforce
  next
    case (Peer g)
    have g: "announced_peer call g" "cost \<le> budget s" using Cons.prems(1) Peer by (simp_all add: ready_def)
    obtain s1 q1 wk1 where step: "g (s, wk) = Inr (s1, wk1)" "rel s1 q1" "evolves q q1" "budget s \<le> budget s1 + cost"
      "told s q wk s1 q1 wk1"
      using peer_told [OF g(1) Cons.prems(2) g(2) Cons.prems(3)] by blast
    have "ready ps s1" using Cons.prems(1) step(4) by (simp add: ready_def Peer)
    moreover have "wk_ok wk1" using step(5) by (simp add: told_def later_def)
    ultimately obtain s' wk' ps' q' where "interfere ps (s1, wk1) = Inr ((s', wk'), ps')" "ready ps' s'" "rel s' q'"
      "evolves q1 q'" "told s1 q1 wk1 s' q' wk'"
      using Cons.IH [OF _ step(2)] by blast
    then show ?thesis
      using step(1) Peer evolves_trans [OF step(3)] told_trans [OF step(5)]
      by (intro exI [of _ s'] exI [of _ wk'] exI [of _ ps'] exI [of _ q']) simp
  qed
qed

lemma registered_or_fired:
  assumes "told s q wk s' q' wk'" and "registration_new i w \<in># registered wk"
  shows "registration_new i w \<in># registered wk' \<or> w \<in> fired_since wk wk'"
  using assms unfolding told_def all_fired_def by (force simp: registration_new_def)

text \<open>A registered waker, with nothing to be told of so far.\<close>

definition listening :: "waker_set \<Rightarrow> exclusive_registration \<Rightarrow> waker \<Rightarrow> waker_set \<Rightarrow> bool \<Rightarrow> bool" where
  "listening wk0 er w wk idle \<longleftrightarrow> later wk0 wk \<and>
     (w \<in> fired_since wk0 wk
      \<or> (\<exists>i. er_armed er = Some i \<and> registration_new i w \<in># registered wk) \<and> idle)"

lemma listening_told:
  assumes "listening wk0 er w wk (P q \<and> \<not> gone s)" and "told s q wk s' q' wk'"
  shows "listening wk0 er w wk' (P q' \<and> \<not> gone s')"
proof -
  have l: "later wk0 wk" "later wk wk'" using assms by (simp_all add: listening_def told_def)
  note mono = fired_since_after [OF l]
  have "w \<in> fired_since wk0 wk'" if "all_fired wk wk'" "registration_new i w \<in># registered wk" for i
    using that mono(1) unfolding all_fired_def by (force simp: registration_new_def)
  then show ?thesis
    using assms mono(2) later_trans [OF l] unfolding listening_def told_def by blast
qed

end

section \<open>The pop\<close>

locale polling_consumer = announcing_calls rel budget bound cost evolves gone call + queue_source rel budget pop
  for rel :: "'s \<Rightarrow> 'a list \<Rightarrow> bool" and budget bound :: "'s \<Rightarrow> nat" and cost :: nat and evolves gone call pop +
  assumes pop_keeps: "rel s [] \<Longrightarrow> pop s = Inr (res, s') \<Longrightarrow> gone s' = gone s \<and> bound s' = bound s"
begin

text \<open>What a poll may answer, the queue having been \<open>q\<close> and the set \<open>wk\<close> when it began.\<close>

definition pop_answer ::
    "'a list \<Rightarrow> waker_set \<Rightarrow> waker \<Rightarrow> exclusive_registration \<Rightarrow> 'a option poll \<Rightarrow> 's \<Rightarrow> waker_set \<Rightarrow> bool" where
  "pop_answer q wk w er out s' wk' \<longleftrightarrow>
     (case out of
        Ready (Some v) \<Rightarrow> \<exists>q'. rel s' q' \<and> evolves q (v # q')
      | Ready None \<Rightarrow> rel s' [] \<and> evolves q [] \<and> gone s'
      | Pending \<Rightarrow> \<exists>q'. rel s' q' \<and> evolves q q' \<and> listening wk er w wk' (q' = [] \<and> \<not> gone s'))
     \<and> later wk wk'"

lemma pop_answer_trans:
  assumes "evolves q q1" and "later wk wk1" and "pop_answer q1 wk1 w er out s' wk'"
  shows "pop_answer q wk w er out s' wk'"
proof -
  have l: "later wk1 wk'" using assms(3) by (simp add: pop_answer_def)
  have "listening wk1 er w wk' P \<Longrightarrow> listening wk er w wk' P" for P
    using fired_since_after(1) [OF assms(2) l] later_trans [OF assms(2) l] by (auto simp: listening_def)
  then show ?thesis
    using assms(3) later_trans [OF assms(2) l] evolves_trans [OF assms(1)]
    unfolding pop_answer_def by (auto split: poll.splits option.splits)
qed

lemma attempt_cases:
  assumes "rel s q"
  obtains s' where "q = []" "pop s = Inr (None, s')" "rel s' []" "gone s' = gone s" "bound s' = bound s" "budget s \<le> budget s'"
  | v q' s' where "q = v # q'" "pop s = Inr (Some v, s')" "rel s' q'"
  using assms pop_none [of s] pop_some [of s] pop_keeps [of s] by (cases q) fastforce+

lemma last_try_answer:
  assumes "ready ps s" and "rel s q" and "wk_ok wk" and "gone s"
  shows "\<exists>out s' wk'. last_try pop ps (s, wk) = Inr (out, s', wk') \<and> out \<noteq> Pending \<and> pop_answer q wk w er out s' wk'"
proof -
  obtain s1 wk1 ps1 q1 where i: "interfere ps (s, wk) = Inr ((s1, wk1), ps1)" "rel s1 q1" "evolves q q1"
    "told s q wk s1 q1 wk1"
    using interfere_told [OF assms(1-3)] by blast
  then have "gone s1" "later wk wk1" using assms(4) by (simp_all add: told_def)
  then show ?thesis
    using i by (cases rule: attempt_cases [OF i(2)]) (auto simp: last_try_def pop_answer_def)
qed

text \<open>The half of the poll that follows the first failed attempt, and the one that follows the arm.\<close>

lemma second_half:
  assumes "ready ps s" and "rel s q" and "wk_ok wk" and "er_armed er = Some i" "registration_new i w \<in># registered wk"
  shows "\<exists>out s' wk'. seq_exec (interfere ps (s, wk)) (\<lambda>((s5, wk5), ps5).
           seq_exec (pop s5) (\<lambda>(res1, s6).
           case res1 of
             Some v \<Rightarrow> Inr (er, Ready (Some v), s6, wk5)
           | None \<Rightarrow>
               seq_exec (interfere ps5 (s6, wk5)) (\<lambda>((s7, wk7), ps7).
               if gone s7 then seq_exec (last_try pop ps7 (s7, wk7)) (\<lambda>out. Inr (er, out))
               else Inr (er, Pending, s7, wk7)))) = Inr (er, out, s', wk') \<and> pop_answer q wk w er out s' wk'"
proof -
  obtain s5 wk5 ps5 q5 where i5: "interfere ps (s, wk) = Inr ((s5, wk5), ps5)" "ready ps5 s5" "rel s5 q5" "evolves q q5"
    "told s q wk s5 q5 wk5"
    using interfere_told [OF assms(1-3)] by blast
  have later5: "later wk wk5" using i5(5) by (simp add: told_def)
  show ?thesis
  proof (cases rule: attempt_cases [OF i5(3)])
    case (2 v q' s')
    then show ?thesis using i5(1,4) later5 by (simp add: pop_answer_def) blast
  next
    case (1 s6)
    obtain s7 wk7 ps7 q7 where i7: "interfere ps5 (s6, wk5) = Inr ((s7, wk7), ps7)" "ready ps7 s7" "rel s7 q7"
      "evolves q5 q7" "told s6 q5 wk5 s7 q7 wk7"
      using interfere_told [OF ready_mono [OF i5(2) 1(6)] 1(3)] later_ok [OF later5] 1(1) by blast
    have later7: "later wk5 wk7" using i7(5) by (simp add: told_def)
    have q7: "evolves q q7" using i5(4) i7(4) by (rule evolves_trans)
    show ?thesis
    proof (cases "gone s7")
      case True
      obtain out s' wk' where "last_try pop ps7 (s7, wk7) = Inr (out, s', wk')" "pop_answer q7 wk7 w er out s' wk'"
        using last_try_answer [OF i7(2,3) later_ok [OF later7] True] by blast
      then show ?thesis
        using True i5(1) 1(2) i7(1) pop_answer_trans [OF q7 later_trans [OF later5 later7]] by simp
    next
      case False
      then have "\<not> gone s6" using i7(5) by (simp add: told_def)
      then have "listening wk er w wk5 (q5 = [] \<and> \<not> gone s6)"
        using registered_or_fired [OF i5(5) assms(5)] assms(4) later5 1(1) by (auto simp: listening_def)
      from listening_told [where P = "\<lambda>q. q = []", OF this i7(5)] have "listening wk er w wk7 (q7 = [] \<and> \<not> gone s7)" .
      then show ?thesis
        using False i5(1) 1(2) i7(1,3) q7 later_trans [OF later5 later7] by (auto simp: pop_answer_def)
    qed
  qed
qed

lemma pop_poll_answer:
  assumes "ready ps s" and "rel s q" and "wk_ok wk" and slot: "\<And>k. park_slot_index (er_slot er) = Some k \<Longrightarrow> k < PARK_SLOTS"
  shows "\<exists>er' out s' wk'. pop_poll pop gone ps w er (s, wk) = Inr (er', out, s', wk')
    \<and> er_slot er' = er_slot er \<and> pop_answer q wk w er' out s' wk'"
proof -
  obtain s0 wk0 ps0 q0 where i0: "interfere ps (s, wk) = Inr ((s0, wk0), ps0)" "ready ps0 s0" "rel s0 q0" "evolves q q0"
    "told s q wk s0 q0 wk0"
    using interfere_told [OF assms(1-3)] by blast
  have later0: "later wk wk0" using i0(5) by (simp add: told_def)
  show ?thesis
  proof (cases rule: attempt_cases [OF i0(3)])
    case (2 v q' s')
    then show ?thesis using i0(1,4) later0 by (simp add: pop_poll_def pop_answer_def) blast
  next
    case (1 s1)
    obtain s2 wk2 ps2 q2 where i2: "interfere ps0 (s1, wk0) = Inr ((s2, wk2), ps2)" "ready ps2 s2" "rel s2 q2"
      "evolves q0 q2" "told s1 q0 wk0 s2 q2 wk2"
      using interfere_told [OF ready_mono [OF i0(2) 1(6)] 1(3)] later_ok [OF later0] 1(1) by blast
    have later2: "later wk wk2" using later0 i2(5) later_trans by (auto simp: told_def)
    have q2: "evolves q q2" using i0(4) i2(4) by (rule evolves_trans)
    show ?thesis
    proof (cases "gone s2")
      case True
      obtain out s' wk' where "last_try pop ps2 (s2, wk2) = Inr (out, s', wk')" "pop_answer q2 wk2 w er out s' wk'"
        using last_try_answer [OF i2(2,3) later_ok [OF later2] True] by blast
      then show ?thesis
        using True i0(1) 1(2) i2(1) pop_answer_trans [OF q2 later2] by (simp add: pop_poll_def)
    next
      case False
      obtain s3 wk3 ps3 q3 where i3: "interfere ps2 (s2, wk2) = Inr ((s3, wk3), ps3)" "ready ps3 s3" "rel s3 q3"
        "evolves q2 q3" "told s2 q2 wk2 s3 q3 wk3"
        using interfere_told [OF i2(2,3) later_ok [OF later2]] by blast
      have later3: "later wk wk3" using later2 i3(5) later_trans by (auto simp: told_def)
      obtain i wk4 where arm: "er_arm [] w (er, wk3) = Inr (er\<lparr>er_armed := Some i\<rparr>, wk4)"
        "registration_new i w \<in># registered wk4" "later wk3 wk4"
        using arm_enters [OF slot later_ok [OF later3]] by metis
      have later4: "later wk wk4" using later3 arm(3) by (rule later_trans)
      have q3: "evolves q q3" using q2 i3(4) by (rule evolves_trans)
      show ?thesis
        using second_half [OF i3(2,3) later_ok [OF later4] _ arm(2), of "er\<lparr>er_armed := Some i\<rparr>"]
          pop_answer_trans [OF q3 later4]
        by (fastforce simp: pop_poll_def i0(1) 1(2) i2(1) False i3(1) arm(1))
    qed
  qed
qed

text \<open>What stays true of an answer while the peers go on.\<close>

lemma pending_stays:
  assumes "pop_answer q wk w er Pending s wk1" and "ready ps s"
  shows "\<exists>s' wk' ps' q'. interfere ps (s, wk1) = Inr ((s', wk'), ps') \<and> rel s' q' \<and> evolves q q'
    \<and> listening wk er w wk' (q' = [] \<and> \<not> gone s')"
proof -
  obtain q1 where p: "rel s q1" "evolves q q1" "listening wk er w wk1 (q1 = [] \<and> \<not> gone s)" "wk_ok wk1"
    using assms(1) by (auto simp: pop_answer_def later_def)
  obtain s' wk' ps' q' where i: "interfere ps (s, wk1) = Inr ((s', wk'), ps')" "rel s' q'" "evolves q1 q'"
    "told s q1 wk1 s' q' wk'"
    using interfere_told [OF assms(2) p(1,4)] by blast
  show ?thesis using i(1,2) evolves_trans [OF p(2) i(3)] listening_told [where P = "\<lambda>q. q = []", OF p(3) i(4)] by blast
qed

end

section \<open>The push\<close>

locale polling_producer = announcing_calls rel budget bound cost evolves gone call + bounded_sink rel budget bound cost push
  for rel :: "'s \<Rightarrow> 'a list \<Rightarrow> bool" and budget bound :: "'s \<Rightarrow> nat" and cost :: nat and evolves gone call push +
  assumes push_keeps: "rel s q \<Longrightarrow> length q = bound s \<Longrightarrow> push v s = Inr (res, s') \<Longrightarrow> gone s' = gone s"
begin

definition push_answer ::
    "'s \<Rightarrow> 'a list \<Rightarrow> waker_set \<Rightarrow> waker \<Rightarrow> 'a \<Rightarrow> 'a push_future \<Rightarrow> 'a push_result poll \<Rightarrow> 's \<Rightarrow> waker_set \<Rightarrow> bool" where
  "push_answer s q wk w v pf out s' wk' \<longleftrightarrow>
     (\<exists>q'. evolves q q' \<and>
       (case out of
          Ready Push_Ok \<Rightarrow> rel s' (q' @ [v]) \<and> pf_val pf = None
        | Ready (Push_Err v') \<Rightarrow> v' = v \<and> rel s' q' \<and> gone s' \<and> pf_val pf = None
        | Pending \<Rightarrow> rel s' q' \<and> pf_val pf = Some v
            \<and> listening wk (pf_parked pf) w wk' (length q' = bound s \<and> \<not> gone s')))
     \<and> later wk wk' \<and> bound s' = bound s"

lemma push_answer_trans:
  assumes "evolves q q1" and "later wk wk1" and "bound s1 = bound s" and "push_answer s1 q1 wk1 w v pf out s' wk'"
  shows "push_answer s q wk w v pf out s' wk'"
proof -
  have l: "later wk1 wk'" using assms(4) by (simp add: push_answer_def)
  have "listening wk1 er w wk' P \<Longrightarrow> listening wk er w wk' P" for P er
    using fired_since_after(1) [OF assms(2) l] later_trans [OF assms(2) l] by (auto simp: listening_def)
  moreover obtain q' where "evolves q1 q'" "case out of
          Ready Push_Ok \<Rightarrow> rel s' (q' @ [v]) \<and> pf_val pf = None
        | Ready (Push_Err v') \<Rightarrow> v' = v \<and> rel s' q' \<and> gone s' \<and> pf_val pf = None
        | Pending \<Rightarrow> rel s' q' \<and> pf_val pf = Some v
            \<and> listening wk1 (pf_parked pf) w wk' (length q' = bound s1 \<and> \<not> gone s')"
    using assms(4) unfolding push_answer_def by blast
  ultimately show ?thesis
    using assms(3,4) later_trans [OF assms(2) l] evolves_trans [OF assms(1)]
    unfolding push_answer_def
    by (intro conjI exI [of _ q']) (simp_all split: poll.splits push_result.splits)
qed

lemma push_cases:
  assumes "rel s q" and "ready ps s"
  obtains s' where "push v s = Inr (Push_Ok, s')" "rel s' (q @ [v])" "bound s' = bound s"
  | s' where "length q = bound s" "push v s = Inr (Push_Err v, s')" "rel s' q" "bound s' = bound s" "gone s' = gone s"
      "ready ps s'"
proof (cases "length q < bound s")
  case True
  then show ?thesis using push_room [OF assms(1) True ready_cost [OF assms(2)]] that(1) by blast
next
  case False
  then have "length q = bound s" using within [OF assms(1)] by simp
  then show ?thesis
    using push_full [OF assms(1)] push_keeps [OF assms(1)] ready_mono [OF assms(2)] that(2) by blast
qed

lemma push_second_half:
  assumes "ready ps s" and "rel s q" and "wk_ok wk" and "er_armed er = Some i" "registration_new i w \<in># registered wk"
  shows "\<exists>pf out s' wk'. (let armed = \<lparr>pf_val = None, pf_parked = er\<rparr> in
      seq_exec (interfere ps (s, wk)) (\<lambda>((s5, wk5), ps5).
      if gone s5 then Inr (armed, Ready (Push_Err v), s5, wk5)
      else
        seq_exec (interfere ps5 (s5, wk5)) (\<lambda>((s6, wk6), _).
        seq_exec (push v s6) (\<lambda>(res1, s7).
        case res1 of
          Push_Ok \<Rightarrow> Inr (armed, Ready Push_Ok, s7, wk6)
        | Push_Err v2 \<Rightarrow> Inr (armed\<lparr>pf_val := Some v2\<rparr>, Pending, s7, wk6))))) = Inr (pf, out, s', wk')
    \<and> pf_parked pf = er \<and> push_answer s q wk w v pf out s' wk'"
proof -
  obtain s5 wk5 ps5 q5 where i5: "interfere ps (s, wk) = Inr ((s5, wk5), ps5)" "ready ps5 s5" "rel s5 q5" "evolves q q5"
    "told s q wk s5 q5 wk5"
    using interfere_told [OF assms(1-3)] by blast
  have l5: "later wk wk5" "bound s5 = bound s" using i5(5) by (simp_all add: told_def)
  show ?thesis
  proof (cases "gone s5")
    case True
    then show ?thesis using i5(1,3,4) l5 by (auto simp: push_answer_def)
  next
    case there: False
    obtain s6 wk6 ps6 q6 where i6: "interfere ps5 (s5, wk5) = Inr ((s6, wk6), ps6)" "ready ps6 s6" "rel s6 q6"
      "evolves q5 q6" "told s5 q5 wk5 s6 q6 wk6"
      using interfere_told [OF i5(2,3) later_ok [OF l5(1)]] by blast
    have l6: "later wk wk6" "bound s6 = bound s" using i6(5) l5 later_trans by (auto simp: told_def)
    have q6: "evolves q q6" using i5(4) i6(4) by (rule evolves_trans)
    show ?thesis
    proof (cases rule: push_cases [OF i6(3,2), of v])
      case (1 s')
      then show ?thesis using i5(1) there i6(1) q6 l6 by (auto simp: push_answer_def)
    next
      case (2 s')
      have "listening wk er w wk5 (True \<and> \<not> gone s5)"
        using registered_or_fired [OF i5(5) assms(5)] assms(4) l5(1) there by (auto simp: listening_def)
      from listening_told [where P = "\<lambda>_. True", OF this i6(5)]
      have "listening wk er w wk6 (length q6 = bound s \<and> \<not> gone s')" using 2(1,5) l6(2) by simp
      then show ?thesis
        using i5(1) there i6(1) q6 l6 2 by (auto simp: push_answer_def)
    qed
  qed
qed

lemma push_poll_answer:
  assumes "ready ps s" and "rel s q" and "wk_ok wk" and "pf_val pf = Some v"
    and slot: "\<And>k. park_slot_index (er_slot (pf_parked pf)) = Some k \<Longrightarrow> k < PARK_SLOTS"
  shows "\<exists>pf' out s' wk'. push_poll push gone ps w pf (s, wk) = Inr (pf', out, s', wk')
    \<and> er_slot (pf_parked pf') = er_slot (pf_parked pf) \<and> push_answer s q wk w v pf' out s' wk'"
proof -
  obtain s0 wk0 ps0 q0 where i0: "interfere ps (s, wk) = Inr ((s0, wk0), ps0)" "ready ps0 s0" "rel s0 q0" "evolves q q0"
    "told s q wk s0 q0 wk0"
    using interfere_told [OF assms(1-3)] by blast
  have l0: "later wk wk0" "bound s0 = bound s" using i0(5) by (simp_all add: told_def)
  show ?thesis
  proof (cases "gone s0")
    case True
    then show ?thesis using i0(1,3,4) l0 assms(4) by (auto simp: push_poll_def push_answer_def)
  next
    case there: False
    obtain s1 wk1 ps1 q1 where i1: "interfere ps0 (s0, wk0) = Inr ((s1, wk1), ps1)" "ready ps1 s1" "rel s1 q1"
      "evolves q0 q1" "told s0 q0 wk0 s1 q1 wk1"
      using interfere_told [OF i0(2,3) later_ok [OF l0(1)]] by blast
    have l1: "later wk wk1" "bound s1 = bound s" using i1(5) l0 later_trans by (auto simp: told_def)
    have q1: "evolves q q1" using i0(4) i1(4) by (rule evolves_trans)
    show ?thesis
    proof (cases rule: push_cases [OF i1(3,2), of v])
      case (1 s')
      then show ?thesis
        using i0(1) there i1(1) q1 l1 assms(4) by (auto simp: push_poll_def push_answer_def)
    next
      case (2 s2)
      obtain s3 wk3 ps3 q3 where i3: "interfere ps1 (s2, wk1) = Inr ((s3, wk3), ps3)" "ready ps3 s3" "rel s3 q3"
        "evolves q1 q3" "told s2 q1 wk1 s3 q3 wk3"
        using interfere_told [OF 2(6,3) later_ok [OF l1(1)]] by blast
      have l3: "later wk wk3" "bound s3 = bound s" using i3(5) l1 2(4) later_trans by (auto simp: told_def)
      obtain i wk4 where arm: "er_arm [] w (pf_parked pf, wk3) = Inr ((pf_parked pf)\<lparr>er_armed := Some i\<rparr>, wk4)"
        "registration_new i w \<in># registered wk4" "later wk3 wk4"
        using arm_enters [OF slot later_ok [OF l3(1)]] by metis
      have l4: "later wk wk4" using l3(1) arm(3) by (rule later_trans)
      have q3: "evolves q q3" using q1 i3(4) by (rule evolves_trans)
      show ?thesis
        using push_second_half [OF i3(2,3) later_ok [OF l4] _ arm(2), of "(pf_parked pf)\<lparr>er_armed := Some i\<rparr>" v]
          push_answer_trans [OF q3 l4 l3(2)]
        by (fastforce simp: push_poll_def assms(4) i0(1) there i1(1) 2(2) i3(1) arm(1))
    qed
  qed
qed

lemma pending_stays:
  assumes "push_answer s q wk w v pf Pending s1 wk1" and "ready ps s1"
  shows "\<exists>s' wk' ps' q'. interfere ps (s1, wk1) = Inr ((s', wk'), ps') \<and> rel s' q' \<and> evolves q q'
    \<and> listening wk (pf_parked pf) w wk' (length q' = bound s \<and> \<not> gone s')"
proof -
  obtain q1 where p: "rel s1 q1" "evolves q q1" "wk_ok wk1"
    "listening wk (pf_parked pf) w wk1 (length q1 = bound s \<and> \<not> gone s1)"
    using assms(1) by (auto simp: push_answer_def later_def)
  obtain s' wk' ps' q' where i: "interfere ps (s1, wk1) = Inr ((s', wk'), ps')" "rel s' q'" "evolves q1 q'"
    "told s1 q1 wk1 s' q' wk'"
    using interfere_told [OF assms(2) p(1,3)] by blast
  show ?thesis
    using i(1,2) evolves_trans [OF p(2) i(3)] listening_told [where P = "\<lambda>q. length q = bound s", OF p(4) i(4)] by blast
qed

end

end
