(* ===== verification/Spsc_Async.thy ===== *)
theory Spsc_Async
  imports Spsc_Block Async
begin

text \<open>
  \<open>pop_async\<close> and \<open>push_async\<close> of the spsc ring. Each call of a side is given with what it
  announces to the waker set of the other (the calls of \<open>wake_consumer_async\<close>,
  \<open>wake_producer_async\<close> and \<open>flush\<close>, each beside the wake of the parked thread).
\<close>

section \<open>The producer's calls\<close>

definition spsc_tell_push :: "'a \<Rightarrow> 'a spsc call" where
  "spsc_tell_push v s =
     (case s of (p, c, r) \<Rightarrow>
        seq_exec (spsc_push v p r) (\<lambda>(res, p', r').
          Inr (case res of Push_Ok \<Rightarrow> Wakes | Push_Err _ \<Rightarrow> Silent, p', c, r')))"

definition spsc_tell_commit :: "'a \<Rightarrow> 'a spsc call" where
  "spsc_tell_commit v s =
     (case s of (p, c, r) \<Rightarrow>
        case spsc_reserve p r of
          (None, p1) \<Rightarrow> Inr (Silent, p1, c, r)
        | (Some w, p1) \<Rightarrow>
            seq_exec (spsc_write w v r) (\<lambda>(ws, r1).
            seq_exec (spsc_commit ws p1 r1) (\<lambda>(p2, r2). Inr (Wakes, p2, c, r2))))"

definition spsc_tell_abandon :: "'a \<Rightarrow> 'a spsc call" where
  "spsc_tell_abandon v s = seq_exec (spsc_peer_abandon v s) (\<lambda>s'. Inr (Silent, s'))"

definition spsc_tell_producer_drop :: "'a spsc call" where
  "spsc_tell_producer_drop s = Inr (Flushes, spsc_on_ring spsc_producer_drop s)"

definition spsc_tell_close :: "'a spsc call" where
  "spsc_tell_close s = Inr (Flushes, spsc_on_ring spsc_close s)"

inductive spsc_producer_tells :: "'a spsc call \<Rightarrow> bool" where
  "spsc_producer_tells (spsc_tell_push v)"
| "spsc_producer_tells (spsc_tell_commit v)"
| "spsc_producer_tells (spsc_tell_abandon v)"
| "spsc_producer_tells spsc_tell_producer_drop"
| "spsc_producer_tells spsc_tell_close"

section \<open>The consumer's calls\<close>

definition spsc_tell_pop :: "'a spsc call" where
  "spsc_tell_pop s =
     (case s of (p, c, r) \<Rightarrow>
        seq_exec (spsc_pop c r) (\<lambda>(res, c', r').
          Inr (case res of Some _ \<Rightarrow> Wakes | None \<Rightarrow> Silent, p, c', r')))"

definition spsc_tell_drain ::
    "usize option \<Rightarrow> ('st \<Rightarrow> 'a \<Rightarrow> 'st \<times> completion) \<Rightarrow> 'st \<Rightarrow> 'a spsc call" where
  "spsc_tell_drain limit f st s =
     (case s of (p, c, r) \<Rightarrow>
        seq_exec (spsc_drain_loop f limit (hp_new (head (s_cursors r))) 0 st c r)
          (\<lambda>(_, g, _, _, c1, r1). Inr (if hp_advanced g then Wakes else Silent, p, c1, hp_drop g r1)))"

definition spsc_tell_read :: "('a \<Rightarrow> completion) \<Rightarrow> 'a spsc call" where
  "spsc_tell_read dtor s =
     (case s of (p, c, r) \<Rightarrow>
        (case spsc_pop_ref c r of
           (None, c') \<Rightarrow> Inr (Silent, p, c', r)
         | (Some rd, c') \<Rightarrow> seq_exec (spsc_reader_drop dtor rd r) (\<lambda>(_, r'). Inr (Wakes, p, c', r'))))"

text \<open>The drop wakes at each pop and flushes at the end; the flush alone reaches the same wakers.\<close>

definition spsc_tell_leave :: "('a \<Rightarrow> completion) \<Rightarrow> 'a spsc call" where
  "spsc_tell_leave dtor s = seq_exec (spsc_peer_leave dtor s) (\<lambda>s'. Inr (Flushes, s'))"

inductive spsc_consumer_tells :: "'a spsc call \<Rightarrow> bool" where
  "spsc_consumer_tells spsc_tell_pop"
| "spsc_consumer_tells (spsc_tell_drain limit (f :: 'a list \<Rightarrow> 'a \<Rightarrow> 'a list \<times> completion) st)"
| "spsc_consumer_tells (spsc_tell_read dtor)"
| "spsc_consumer_tells (spsc_tell_leave dtor)"

section \<open>The futures\<close>

text \<open>Each keeps its registration on its side's only slot.\<close>

definition spsc_async_producer_gone :: "'a spsc \<Rightarrow> bool" where
  "spsc_async_producer_gone s = (case s of (_, _, r) \<Rightarrow> is_closed (s_producer_closed r))"

definition spsc_async_consumer_gone :: "'a spsc \<Rightarrow> bool" where
  "spsc_async_consumer_gone s = (case s of (_, _, r) \<Rightarrow> is_closed (s_consumer_closed r))"

definition spsc_pop_async ::
    "('a spsc \<times> waker_set) schedule \<Rightarrow> waker \<Rightarrow> exclusive_registration \<Rightarrow> 'a spsc \<times> waker_set
      \<Rightarrow> (exclusive_registration \<times> 'a option poll \<times> 'a spsc \<times> waker_set) exec" where
  "spsc_pop_async = pop_poll spsc_sys_pop spsc_async_producer_gone"

definition spsc_push_async ::
    "('a spsc \<times> waker_set) schedule \<Rightarrow> waker \<Rightarrow> 'a push_future \<Rightarrow> 'a spsc \<times> waker_set
      \<Rightarrow> ('a push_future \<times> 'a push_result poll \<times> 'a spsc \<times> waker_set) exec" where
  "spsc_push_async = push_poll spsc_sys_push spsc_async_consumer_gone"

section \<open>What a silent call leaves alone\<close>

definition call_of :: "'s call \<Rightarrow> 's \<Rightarrow> 's exec" where
  "call_of f s = seq_exec (f s) (\<lambda>(_, s'). Inr s')"

lemma call_of_Inr: "call_of f s = Inr s' \<Longrightarrow> \<exists>a. f s = Inr (a, s')"
  by (auto simp: call_of_def seq_exec_eq_Inr)

lemma producer_tells_call:
  fixes f :: "'a spsc call"
  shows "spsc_producer_tells f \<Longrightarrow> spsc_producer_call (call_of f)"
proof (induction rule: spsc_producer_tells.induct)
  case (1 v)
  have "call_of (spsc_tell_push v) = spsc_peer_push v"
    by (auto simp: fun_eq_iff call_of_def spsc_tell_push_def spsc_peer_push_def seq_exec_def split: sum.splits)
  then show ?case by (simp add: spsc_producer_call.intros)
next
  case (2 v)
  have "call_of (spsc_tell_commit v) = spsc_peer_commit v"
    by (auto simp: fun_eq_iff call_of_def spsc_tell_commit_def spsc_peer_commit_def seq_exec_def
        split: sum.splits option.splits prod.splits)
  then show ?case by (simp add: spsc_producer_call.intros)
next
  case (3 v)
  have "call_of (spsc_tell_abandon v) = spsc_peer_abandon v"
    by (auto simp: fun_eq_iff call_of_def spsc_tell_abandon_def seq_exec_def split: sum.splits)
  then show ?case by (simp add: spsc_producer_call.intros)
next
  case 4
  have "call_of (spsc_tell_producer_drop :: 'a spsc call) = (\<lambda>s. Inr (spsc_on_ring spsc_producer_drop s))"
    by (simp add: fun_eq_iff call_of_def spsc_tell_producer_drop_def)
  then show ?case by (simp add: spsc_producer_call.intros)
next
  case 5
  have "call_of (spsc_tell_close :: 'a spsc call) = (\<lambda>s. Inr (spsc_on_ring spsc_close s))"
    by (simp add: fun_eq_iff call_of_def spsc_tell_close_def)
  then show ?case by (simp add: spsc_producer_call.intros)
qed

lemma consumer_tells_call:
  fixes f :: "'a spsc call"
  shows "spsc_consumer_tells f \<Longrightarrow> spsc_consumer_call (call_of f)"
proof (induction rule: spsc_consumer_tells.induct)
  case 1
  have "call_of (spsc_tell_pop :: 'a spsc call) = spsc_peer_pop"
    by (auto simp: fun_eq_iff call_of_def spsc_tell_pop_def spsc_peer_pop_def seq_exec_def split: sum.splits)
  then show ?case by (simp add: spsc_consumer_call.intros)
next
  case (2 limit f st)
  have "call_of (spsc_tell_drain limit f st) = spsc_peer_drain limit f st"
    by (auto simp: fun_eq_iff call_of_def spsc_tell_drain_def spsc_peer_drain_def spsc_drain_up_to_def seq_exec_def
        split: sum.splits)
  then show ?case by (simp add: spsc_consumer_call.intros)
next
  case (3 dtor)
  have "call_of (spsc_tell_read dtor) = spsc_peer_read dtor"
    by (auto simp: fun_eq_iff call_of_def spsc_tell_read_def spsc_peer_read_def seq_exec_def
        split: sum.splits option.splits prod.splits)
  then show ?case by (simp add: spsc_consumer_call.intros)
next
  case (4 dtor)
  have "call_of (spsc_tell_leave dtor) = spsc_peer_leave dtor"
    by (auto simp: fun_eq_iff call_of_def spsc_tell_leave_def seq_exec_def split: sum.splits)
  then show ?case by (simp add: spsc_consumer_call.intros)
qed

lemma silent_producer:
  assumes "spsc_producer_tells f" and "f (p, c, r) = Inr (Silent, p', c', r')" and "spsc_rel (p, c, r) q"
  shows "s_cursors r' = s_cursors r \<and> s_producer_closed r' = s_producer_closed r"
  using assms(1)
proof cases
  case (1 v)
  then show ?thesis
    using assms(2) push_spec [OF assms(3), of v]
    by (cases "length q < slots (s_capacity r)") (auto simp: spsc_tell_push_def seq_exec_eq_Inr)
next
  case (2 v)
  then show ?thesis
    using assms(2) by (auto simp: spsc_tell_commit_def seq_exec_eq_Inr split: prod.splits option.splits)
next
  case (3 v)
  have "s_cursors r2 = s_cursors r \<and> s_producer_closed r2 = s_producer_closed r"
    if "spsc_write w v r = Inr (ws, r1)" "spsc_written_slot_drop ws r1 = Inr r2" for w ws r1 r2
    using that by (auto simp: spsc_write_def spsc_written_slot_drop_def seq_exec_eq_Inr)
  then show ?thesis
    using assms(2) 3
    by (auto simp: spsc_tell_abandon_def spsc_peer_abandon_def seq_exec_eq_Inr split: prod.splits option.splits)
qed (use assms(2) in \<open>simp_all add: spsc_tell_producer_drop_def spsc_tell_close_def\<close>)

lemma silent_consumer:
  assumes "spsc_consumer_tells f" and "f (p, c, r) = Inr (Silent, p', c', r')" and "spsc_rel (p, c, r) q"
  shows "s_cursors r' = s_cursors r \<and> s_consumer_closed r' = s_consumer_closed r"
  using assms(1)
proof cases
  case 1
  then show ?thesis
    using assms(2) pop_spec [OF assms(3)] by (cases q) (auto simp: spsc_tell_pop_def seq_exec_eq_Inr)
next
  case (2 limit f st)
  then show ?thesis
    using assms(2)
    by (auto simp: spsc_tell_drain_def seq_exec_eq_Inr hp_drop_def dest!: drain_loop_park split: if_splits)
next
  case (3 dtor)
  then show ?thesis
    using assms(2) by (auto simp: spsc_tell_read_def seq_exec_eq_Inr split: prod.splits option.splits)
qed (use assms(2) in \<open>simp add: spsc_tell_leave_def seq_exec_eq_Inr\<close>)

lemma consumer_closed_frame [simp]:
  "s_consumer_closed (spsc_wake_producer r) = s_consumer_closed r"
  "s_consumer_closed (hp_drop g r) = s_consumer_closed r"
  by (simp_all add: spsc_wake_producer_def hp_drop_def case_prod_beta)

lemma consumer_stays_gone:
  assumes "spsc_consumer_tells f" and "f (p, c, r) = Inr (a, p', c', r')" and "spsc_rel (p, c, r) q"
    and "is_closed (s_consumer_closed r)"
  shows "is_closed (s_consumer_closed r')"
  using assms(1)
proof cases
  case 1
  then show ?thesis
    using assms(2,4) pop_spec [OF assms(3)] by (cases q) (auto simp: spsc_tell_pop_def seq_exec_eq_Inr)
next
  case (2 limit f st)
  then show ?thesis
    using assms(2,4)
    by (auto simp: spsc_tell_drain_def seq_exec_eq_Inr dest!: drain_loop_park)
next
  case (3 dtor)
  then show ?thesis
    using assms(2,4)
    by (auto simp: spsc_tell_read_def seq_exec_eq_Inr spsc_reader_drop_def Let_def
        split: prod.splits option.splits)
next
  case (4 dtor)
  then show ?thesis
    using assms(2)
    by (auto simp: spsc_tell_leave_def spsc_peer_leave_def spsc_consumer_drop_def seq_exec_eq_Inr consumer_close_drop_def)
qed

section \<open>The contracts\<close>

interpretation sap: announcing_calls spsc_rel "\<lambda>_. 0" spsc_bound 0 prefix spsc_async_producer_gone spsc_producer_tells
proof (unfold_locales, goal_cases)
  case (3 f s q)
  obtain p c r where s: "s = (p, c, r)" by (metis prod.exhaust)
  obtain p' r' q' where step: "call_of f (p, c, r) = Inr (p', c, r')" "spsc_rel (p', c, r') q'" "prefix q q'"
    "s_capacity r' = s_capacity r" "is_closed (s_producer_closed r) \<longrightarrow> is_closed (s_producer_closed r')"
    using spsc_producer_call_step [OF producer_tells_call [OF 3(1)]] 3(2) unfolding s by blast
  obtain a where a: "f (p, c, r) = Inr (a, p', c, r')" using call_of_Inr [OF step(1)] by blast
  have "q' = q \<and> s_producer_closed r' = s_producer_closed r" if "a = Silent"
  proof -
    have same: "s_cursors r' = s_cursors r" "s_producer_closed r' = s_producer_closed r"
      using silent_producer [OF 3(1) a [unfolded that]] 3(2) s by auto
    then have "length q' = length q"
      using same_cursors_same_length [of r q r' q'] 3(2) step(2,4) by (simp add: s)
    then show ?thesis using step(3) same(2) by (auto simp: prefix_def)
  qed
  then show ?case
    using a step(2-5) unfolding s
    by (intro exI [of _ a] exI [of _ "(p', c, r')"] exI [of _ q']) (auto simp: spsc_async_producer_gone_def)
qed (auto intro: prefix_order.trans)

interpretation sac: announcing_calls spsc_rel "\<lambda>_. 0" spsc_bound 0 "\<lambda>q q'. suffix q' q" spsc_async_consumer_gone
  spsc_consumer_tells
proof (unfold_locales, goal_cases)
  case (3 f s q)
  obtain p c r where s: "s = (p, c, r)" by (metis prod.exhaust)
  obtain c' r' q' where step: "call_of f (p, c, r) = Inr (p, c', r')" "spsc_rel (p, c', r') q'" "suffix q' q"
    "s_capacity r' = s_capacity r" "consumer_announces r r'"
    using spsc_consumer_call_step [OF consumer_tells_call [OF 3(1)]] 3(2) unfolding s by blast
  obtain a where a: "f (p, c, r) = Inr (a, p, c', r')" using call_of_Inr [OF step(1)] by blast
  have "q' = q \<and> s_consumer_closed r' = s_consumer_closed r" if "a = Silent"
  proof -
    have same: "s_cursors r' = s_cursors r" "s_consumer_closed r' = s_consumer_closed r"
      using silent_consumer [OF 3(1) a [unfolded that]] 3(2) s by auto
    then have "length q' = length q"
      using same_cursors_same_length [of r q r' q'] 3(2) step(2,4) by (simp add: s)
    then show ?thesis using step(3) same(2) by (auto simp: suffix_def)
  qed
  then show ?case
    using a step(2-4) unfolding s
    by (intro exI [of _ a] exI [of _ "(p, c', r')"] exI [of _ q']) (use consumer_stays_gone [OF 3(1) a] 3(2) s in \<open>auto simp: spsc_async_consumer_gone_def\<close>)
qed (auto intro: suffix_order.trans)

interpretation sapc: polling_consumer spsc_rel "\<lambda>_. 0" spsc_bound 0 prefix spsc_async_producer_gone spsc_producer_tells
  spsc_sys_pop
proof (unfold_locales, goal_cases)
  case (1 s res s')
  obtain p c r where s: "s = (p, c, r)" by (metis prod.exhaust)
  show ?case
    using pop_spec [of p c r "[]"] 1 by (auto simp: s spsc_sys_pop_def seq_exec_eq_Inr spsc_async_producer_gone_def)
qed

interpretation sacp: polling_producer spsc_rel "\<lambda>_. 0" spsc_bound 0 "\<lambda>q q'. suffix q' q" spsc_async_consumer_gone
  spsc_consumer_tells spsc_sys_push
proof (unfold_locales, goal_cases)
  case (1 s q v res s')
  obtain p c r where s: "s = (p, c, r)" by (metis prod.exhaust)
  show ?case
    using push_spec [of p c r q v] 1 by (auto simp: s spsc_sys_push_def seq_exec_eq_Inr spsc_async_consumer_gone_def)
qed

lemma sole_in_range: "park_slot_index SOLE = Some k \<Longrightarrow> k < PARK_SLOTS"
  by (simp add: SOLE_def park_slot_index_def PARK_SLOTS_def)

text \<open>
  C18. A poll of \<open>pop_async\<close>, against any schedule of the producer's calls, and whatever calls
  come after it: it never faults; it is ready with a value only by taking the one at the
  front; it is ready with \<open>None\<close> only when the producer side is closed and the ring has
  drained; and when it answers \<open>Pending\<close>, then from there on either the waker it was polled
  with has been called, or that waker is registered and the ring is still empty and open: no
  wake is lost. (Wakers return.)
\<close>

theorem spsc_pop_async_contract:
  assumes "spsc_rel s q" and "wk_ok wk" and "er_slot er = SOLE"
    and "permitted (announced_peer spsc_producer_tells) ps" and "permitted (announced_peer spsc_producer_tells) ps1"
  shows "\<exists>er' out s' wk'. spsc_pop_async ps w er (s, wk) = Inr (er', out, s', wk') \<and> er_slot er' = SOLE \<and>
    (case out of
       Ready (Some v) \<Rightarrow> \<exists>q'. spsc_rel s' q' \<and> prefix q (v # q')
     | Ready None \<Rightarrow> spsc_rel s' [] \<and> q = [] \<and> spsc_async_producer_gone s'
     | Pending \<Rightarrow> \<exists>s1 wk1 ps' q1. interfere ps1 (s', wk') = Inr ((s1, wk1), ps') \<and> spsc_rel s1 q1 \<and> prefix q q1 \<and>
         (w \<in> fired_since wk wk1 \<or>
          (\<exists>i. er_armed er' = Some i \<and> registration_new i w \<in># registered wk1
            \<and> q1 = [] \<and> \<not> spsc_async_producer_gone s1)))"
proof -
  have ready: "sap.ready ps s" using assms(4) by (simp add: sap.ready_def)
  obtain er' out s' wk' where run: "spsc_pop_async ps w er (s, wk) = Inr (er', out, s', wk')" "er_slot er' = SOLE"
    and ans: "sapc.pop_answer q wk w er' out s' wk'"
    using sapc.pop_poll_answer [OF ready assms(1,2), of er w] sole_in_range assms(3) unfolding spsc_pop_async_def by auto
  have "case out of Ready (Some v) \<Rightarrow> \<exists>q'. spsc_rel s' q' \<and> prefix q (v # q')
     | Ready None \<Rightarrow> spsc_rel s' [] \<and> q = [] \<and> spsc_async_producer_gone s' | Pending \<Rightarrow> True"
    using ans unfolding sapc.pop_answer_def by (auto split: poll.splits option.splits)
  moreover have "sap.ready ps1 s'" using assms(5) by (simp add: sap.ready_def)
  ultimately show ?thesis
    using run ans sapc.pending_stays [of q wk w er' s' wk' ps1] unfolding sap.listening_def
    by (intro exI [of _ er'] exI [of _ out] exI [of _ s'] exI [of _ wk']) (fastforce split: poll.splits)
qed

lemma waker_set_new_ok: "wk_ok waker_set_new"
  by (simp add: wk_ok_def waker_set_new_def registered_def waker_slot_new_def)

theorem spsc_pop_async_contract_witness:
  "\<exists>s er' out s' wk'. spsc_rel s ([] :: nat list)
    \<and> spsc_pop_async [Turn, Turn] 4 (er_new SOLE) (s, waker_set_new) = Inr (er', out, s', wk') \<and> er_slot er' = SOLE \<and>
    (case out of
       Ready (Some v) \<Rightarrow> \<exists>q'. spsc_rel s' q' \<and> prefix [] (v # q')
     | Ready None \<Rightarrow> spsc_rel s' [] \<and> [] = ([] :: nat list) \<and> spsc_async_producer_gone s'
     | Pending \<Rightarrow> \<exists>s1 wk1 ps' q1.
         interfere [Peer (announcing (\<lambda>_. Returned) (spsc_tell_push 7))] (s', wk') = Inr ((s1, wk1), ps')
         \<and> spsc_rel s1 q1 \<and> prefix [] q1 \<and>
         (4 \<in> fired_since waker_set_new wk1 \<or>
          (\<exists>i. er_armed er' = Some i \<and> registration_new i 4 \<in># registered wk1
            \<and> q1 = [] \<and> \<not> spsc_async_producer_gone s1)))"
proof -
  obtain p c and r :: "nat spsc_ring" where rel: "spsc_rel (p, c, r) []"
    using spsc_reaches [OF cap2_wf, of "[]"] by auto
  have "permitted (announced_peer spsc_producer_tells)
      [Peer (announcing (\<lambda>_. Returned) (spsc_tell_push 7 :: nat spsc call))]"
    by (auto simp: announced_peer_def intro: spsc_producer_tells.intros)
  from spsc_pop_async_contract [OF rel waker_set_new_ok _ _ this, of "er_new SOLE" "[Turn, Turn]" 4] rel
  show ?thesis by (simp add: er_new_def) blast
qed

text \<open>
  C19. A poll of \<open>push_async\<close> likewise, against any schedule of the consumer's calls: it is ready
  with \<open>Ok\<close> only having appended its value, once; it hands the value back only when the
  consumer is gone; and when it answers \<open>Pending\<close> it has kept the value and the queue is
  untouched by it, and from there on either its waker has been called, or it is
  registered, the ring is still full and the consumer still there.
\<close>

theorem spsc_push_async_contract:
  assumes "spsc_rel s q" and "wk_ok wk" and "er_slot (pf_parked pf) = SOLE" and "pf_val pf = Some v"
    and "permitted (announced_peer spsc_consumer_tells) ps" and "permitted (announced_peer spsc_consumer_tells) ps1"
  shows "\<exists>pf' out s' wk'. spsc_push_async ps w pf (s, wk) = Inr (pf', out, s', wk') \<and> er_slot (pf_parked pf') = SOLE \<and>
    (case out of
       Ready Push_Ok \<Rightarrow> \<exists>q'. suffix q' q \<and> spsc_rel s' (q' @ [v])
     | Ready (Push_Err v') \<Rightarrow> \<exists>q'. suffix q' q \<and> v' = v \<and> spsc_rel s' q' \<and> spsc_async_consumer_gone s'
     | Pending \<Rightarrow> pf_val pf' = Some v \<and>
         (\<exists>s1 wk1 ps' q1. interfere ps1 (s', wk') = Inr ((s1, wk1), ps') \<and> spsc_rel s1 q1 \<and> suffix q1 q \<and>
           (w \<in> fired_since wk wk1 \<or>
            (\<exists>i. er_armed (pf_parked pf') = Some i \<and> registration_new i w \<in># registered wk1
              \<and> length q1 = spsc_bound s \<and> \<not> spsc_async_consumer_gone s1))))"
proof -
  have ready: "sac.ready ps s" using assms(5) by (simp add: sac.ready_def)
  obtain pf' out s' wk' where run: "spsc_push_async ps w pf (s, wk) = Inr (pf', out, s', wk')" "er_slot (pf_parked pf') = SOLE"
    and ans: "sacp.push_answer s q wk w v pf' out s' wk'"
    using sacp.push_poll_answer [OF ready assms(1,2,4), of w] sole_in_range assms(3) unfolding spsc_push_async_def by auto
  have "case out of Ready Push_Ok \<Rightarrow> \<exists>q'. suffix q' q \<and> spsc_rel s' (q' @ [v])
     | Ready (Push_Err v') \<Rightarrow> \<exists>q'. suffix q' q \<and> v' = v \<and> spsc_rel s' q' \<and> spsc_async_consumer_gone s'
     | Pending \<Rightarrow> pf_val pf' = Some v"
    using ans unfolding sacp.push_answer_def by (auto split: poll.splits push_result.splits)
  moreover have "sac.ready ps1 s'" using assms(6) by (simp add: sac.ready_def)
  ultimately show ?thesis
    using run ans sacp.pending_stays [of s q wk w v pf' s' wk' ps1] unfolding sac.listening_def
    by (intro exI [of _ pf'] exI [of _ out] exI [of _ s'] exI [of _ wk']) (fastforce split: poll.splits)
qed

theorem spsc_push_async_contract_witness:
  "\<exists>s pf' out s' wk'. spsc_rel s [5, 6 :: nat]
    \<and> spsc_push_async [Turn, Turn] 4 (push_future_new SOLE 7) (s, waker_set_new) = Inr (pf', out, s', wk')
    \<and> er_slot (pf_parked pf') = SOLE \<and>
    (case out of
       Ready Push_Ok \<Rightarrow> \<exists>q'. suffix q' [5, 6] \<and> spsc_rel s' (q' @ [7])
     | Ready (Push_Err v') \<Rightarrow> \<exists>q'. suffix q' [5, 6] \<and> v' = 7 \<and> spsc_rel s' q' \<and> spsc_async_consumer_gone s'
     | Pending \<Rightarrow> pf_val pf' = Some 7 \<and>
         (\<exists>s1 wk1 ps' q1. interfere [Peer (announcing (\<lambda>_. Returned) spsc_tell_pop)] (s', wk') = Inr ((s1, wk1), ps')
           \<and> spsc_rel s1 q1 \<and> suffix q1 [5, 6] \<and>
           (4 \<in> fired_since waker_set_new wk1 \<or>
            (\<exists>i. er_armed (pf_parked pf') = Some i \<and> registration_new i 4 \<in># registered wk1
              \<and> length q1 = spsc_bound s \<and> \<not> spsc_async_consumer_gone s1))))"
proof -
  obtain p c and r :: "nat spsc_ring" where rel: "spsc_rel (p, c, r) [5, 6]"
    using spsc_reaches [OF cap2_wf, of "[5, 6 :: nat]"] by (auto simp: slots_cap2)
  have peers: "permitted (announced_peer spsc_consumer_tells)
      [Peer (announcing (\<lambda>_. Returned) (spsc_tell_pop :: nat spsc call))]"
    by (auto simp: announced_peer_def intro: spsc_consumer_tells.intros)
  from spsc_push_async_contract [OF rel waker_set_new_ok _ _ _ peers, of "push_future_new SOLE 7" 7 "[Turn, Turn]" 4] rel
  show ?thesis by (simp add: push_future_new_def er_new_def) blast
qed

end
