(* ===== verification/Wake_Set.thy ===== *)
theory Wake_Set
  imports Park_Slot
begin

text \<open>
  \<open>src/common/park.rs\<close>: the wake bitmap with its table of handles, and the four ways
  to wake from it. The loops retry when a peer clears a bit first; run without
  interference each lap clears the bit it picked, which is the model here. What the
  loops do is then related to the round-robin order of the advertised slots.
\<close>

definition PARK_MASK_U32 :: u32 where "PARK_MASK_U32 = 63"

record wake_set =
  wake :: u64
  parkers :: "thread_parker list"
  cursor :: u64
  overflow :: park_overflow

definition wake_set_new :: wake_set where
  "wake_set_new = \<lparr>wake = 0, parkers = replicate PARK_SLOTS tp_new, cursor = 0, overflow = overflow_new\<rparr>"

section \<open>Picking and claiming a slot\<close>

definition cursor_shift :: "u64 \<Rightarrow> u32" where
  "cursor_shift c = ucast c AND PARK_MASK_U32"

definition pick_bit :: "u32 \<Rightarrow> u64 \<Rightarrow> u32" where
  "pick_bit shift ws =
     (let rotated = word_rotr (unat shift) ws; rel_bit = of_nat (trailing_zeros rotated)
      in (rel_bit + shift) AND PARK_MASK_U32)"

definition retire_bit :: "u32 \<Rightarrow> wake_set \<Rightarrow> wake_set" where
  "retire_bit b s = s\<lparr>wake := wake s AND NOT (push_bit (unat b) 1)\<rparr>"

definition wake_parker :: "u32 \<Rightarrow> wake_set \<Rightarrow> bool \<times> thread_id list \<times> wake_set" where
  "wake_parker b s =
     (case tp_wake (parkers s ! unat b) of
        (delivered, unparked, p) \<Rightarrow>
          (delivered, unparked, s\<lparr>parkers := (parkers s)[unat b := p]\<rparr>))"

section \<open>The set bits of a word\<close>

definition bits_of :: "u64 \<Rightarrow> nat set" where
  "bits_of w = {i. bit w i}"

lemma bits_of_bound: "i \<in> bits_of w \<Longrightarrow> i < 64"
  by (auto simp: bits_of_def dest: bit_imp_le_length)

lemma finite_bits_of [simp]: "finite (bits_of w)"
  by (rule finite_subset [of _ "{..<64}"]) (auto dest: bits_of_bound)

lemma bits_of_clear [simp]: "bits_of (w AND NOT (push_bit k 1)) = bits_of w - {k}"
  by (auto simp: bits_of_def bit_simps dest: bit_imp_le_length)

lemma bits_of_eq_empty [simp]: "bits_of w = {} \<longleftrightarrow> w = 0"
  by (auto simp: bits_of_def intro: bit_word_eqI)

lemma card_bits_of_clear:
  assumes "bit w k"
  shows "card (bits_of (w AND NOT (push_bit k 1))) < card (bits_of w)"
  unfolding bits_of_clear
  by (rule card_Diff1_less) (use assms in \<open>simp_all add: bits_of_def\<close>)

text \<open>\<open>bits &= bits - 1\<close> clears the lowest set bit.\<close>

lemma clear_lowest:
  fixes w :: u64
  assumes "w \<noteq> 0"
  shows "w AND (w - 1) = w AND NOT (push_bit (trailing_zeros w) 1)"
proof -
  let ?k = "trailing_zeros w"
  let ?v = "w AND NOT (push_bit ?k 1)"
  have k: "?k < 64" "bit w ?k" "\<forall>i < ?k. \<not> bit w i" using trailing_zeros_bit [OF assms] by simp_all
  have v: "w - push_bit ?k 1 = ?v"
    by (rule disjunctive_diff_eq_and_not, rule bit_word_eqI) (use k in \<open>auto simp: bit_simps\<close>)
  have "w - 1 = (w - push_bit ?k 1) + (push_bit ?k 1 - 1)" by simp
  also have "\<dots> = ?v + (push_bit ?k 1 - 1)" by (simp only: v)
  also have "\<dots> = ?v + Bit_Operations.mask ?k" by (simp add: mask_eq_exp_minus_1)
  also have "\<dots> = ?v OR Bit_Operations.mask ?k"
    by (rule disjunctive_add_eq_or, rule bit_word_eqI) (use k in \<open>auto simp: bit_simps\<close>)
  finally have "w - 1 = ?v OR Bit_Operations.mask ?k" .
  then show ?thesis
    by (intro bit_word_eqI) (use k in \<open>auto simp: bit_simps nat_neq_iff\<close>)
qed

lemma find_eq_Some_filter: "find P xs = Some k \<Longrightarrow> \<exists>ys. filter P xs = k # ys"
  by (induction xs) (auto split: if_splits)

lemma filter_bits_hd:
  fixes w :: "'l::len word"
  assumes "w \<noteq> 0"
  shows "\<exists>ks. filter (bit w) [0..<LENGTH('l)] = trailing_zeros w # ks"
proof -
  obtain k where "find (bit w) [0..<LENGTH('l)] = Some k"
    using find_upt_Some [of "bit w" "trailing_zeros w" "LENGTH('l)"] trailing_zeros_bit [OF assms]
    by blast
  then show ?thesis
    using find_eq_Some_filter [of "bit w" "[0..<LENGTH('l)]" k] by (simp add: trailing_zeros_def)
qed

section \<open>Round-robin order\<close>

definition cyc :: "nat \<Rightarrow> nat list" where
  "cyc s = map (\<lambda>i. (i + s) mod 64) [0..<64]"

definition advertised :: "nat \<Rightarrow> u64 \<Rightarrow> nat list" where
  "advertised s w = filter (bit w) (cyc s)"

lemma cyc_rotate: "cyc s = rotate s [0..<64]"
  by (rule nth_equalityI) (simp_all add: cyc_def nth_rotate add.commute)

lemma distinct_cyc [simp]: "distinct (cyc s)"
  by (simp add: cyc_rotate)

lemma set_cyc [simp]: "set (cyc s) = {..<64}"
  by (auto simp: cyc_rotate)

lemma distinct_advertised [simp]: "distinct (advertised s w)"
  by (simp add: advertised_def)

lemma set_advertised [simp]: "set (advertised s w) = bits_of w"
  by (auto simp: advertised_def bits_of_def dest: bit_imp_le_length)

lemma advertised_eq_Nil [simp]: "advertised s w = [] \<longleftrightarrow> w = 0"
  by (metis bits_of_eq_empty set_advertised set_empty)

lemma advertised_clear:
  "advertised s (w AND NOT (push_bit k 1)) = filter (\<lambda>i. i \<noteq> k) (advertised s w)"
  by (auto simp: advertised_def bit_simps intro!: filter_cong dest: bit_imp_le_length)

text \<open>Starting over just past the slot served continues the same walk.\<close>

lemma cyc_split:
  assumes "cyc s = xs @ b # ys"
  shows "cyc (Suc b) = ys @ xs @ [b]"
proof -
  let ?n = "length xs"
  have "length (cyc s) = 64" by (simp add: cyc_def)
  then have n: "?n < 64" using assms by simp
  have "cyc s ! ?n = b" using assms by simp
  then have b: "b = (?n + s) mod 64" using n by (simp add: cyc_def)
  have "ys @ xs @ [b] = rotate (Suc ?n) (cyc s)"
    using rotate_append [of "xs @ [b]" ys] by (simp add: assms)
  also have "\<dots> = rotate (Suc ?n + s) [0..<64]" by (simp add: cyc_rotate rotate_rotate)
  also have "\<dots> = rotate (Suc b) [0..<64]"
    by (subst (1 2) rotate_conv_mod) (simp add: b mod_Suc_eq)
  finally show ?thesis by (simp add: cyc_rotate)
qed

lemma filter_cyc_next:
  assumes "filter Q (cyc s) = b # rest"
  shows "filter (\<lambda>i. Q i \<and> i \<noteq> b) (cyc (Suc b)) = rest"
proof -
  obtain xs ys where split: "cyc s = xs @ b # ys" "\<forall>x \<in> set xs. \<not> Q x" "rest = filter Q ys"
    using assms by (auto simp: filter_eq_Cons_iff)
  have "b \<notin> set ys" using distinct_cyc [of s] by (simp add: split(1))
  then have "filter (\<lambda>i. Q i \<and> i \<noteq> b) ys = filter Q ys" by (intro filter_cong) auto
  moreover have "filter (\<lambda>i. Q i \<and> i \<noteq> b) xs = []" using split(2) by simp
  ultimately show ?thesis by (simp add: cyc_split [OF split(1)] split(3))
qed

lemma advertised_next:
  assumes "filter P (advertised s w) = b # rest"
  shows "filter P (advertised (Suc b) (w AND NOT (push_bit b 1))) = rest"
proof -
  have "filter (\<lambda>i. bit w i \<and> P i) (cyc s) = b # rest"
    using assms by (simp add: advertised_def conj_commute)
  then have "filter (\<lambda>i. (bit w i \<and> P i) \<and> i \<noteq> b) (cyc (Suc b)) = rest"
    by (rule filter_cyc_next)
  moreover have "filter P (advertised (Suc b) (w AND NOT (push_bit b 1)))
      = filter (\<lambda>i. (bit w i \<and> P i) \<and> i \<noteq> b) (cyc (Suc b))"
    by (auto simp: advertised_def bit_simps intro!: filter_cong dest: bit_imp_le_length)
  ultimately show ?thesis by simp
qed

text \<open>Rotating the bitmap and counting its trailing zeros finds the next slot of the walk.\<close>

lemma unat_and_63: "unat (v AND PARK_MASK_U32) = unat v mod 64"
proof -
  have "v AND PARK_MASK_U32 = take_bit 6 v"
    by (simp add: PARK_MASK_U32_def take_bit_eq_mask mask_eq_exp_minus_1)
  then have "unat (v AND PARK_MASK_U32) = take_bit 6 (unat v)" by (simp only: unsigned_take_bit_eq)
  then show ?thesis by (simp add: take_bit_eq_mod)
qed

lemma unat_unrotate:
  shows "unat ((of_nat k + shift) AND PARK_MASK_U32) = (k + unat shift) mod 64"
proof -
  have "unat (shift + of_nat k) = (unat shift + k) mod 2 ^ 32"
    using unat_add_of_nat [of shift k] by simp
  moreover have "(unat shift + k) mod 2 ^ 32 mod 64 = (unat shift + k) mod 64"
    by (rule mod_mod_cancel) simp
  ultimately show ?thesis by (simp only: unat_and_63 add.commute)
qed

lemma bit_rotr:
  fixes w :: u64
  assumes "i < 64"
  shows "bit (word_rotr n w) i \<longleftrightarrow> bit w ((i + n) mod 64)"
  using assms by (simp add: bit_word_rotr_iff)

lemma advertised_rotr:
  "advertised s w = map (\<lambda>i. (i + s) mod 64) (filter (bit (word_rotr s w)) [0..<64])"
proof -
  have "filter (bit (word_rotr s w)) [0..<64] = filter (\<lambda>i. bit w ((i + s) mod 64)) [0..<64]"
    by (rule filter_cong) (auto simp: bit_rotr)
  then show ?thesis by (simp add: advertised_def cyc_def filter_map comp_def)
qed

lemma rotr_eq_0 [simp]: "word_rotr s w = (0 :: u64) \<longleftrightarrow> w = 0"
  by (metis word_rot_rl word_rotx_0)

lemma pick_bit_advertised:
  assumes "w \<noteq> 0"
  obtains rest where "advertised (unat shift) w = unat (pick_bit shift w) # rest"
proof -
  have "word_rotr (unat shift) w \<noteq> 0" using assms by simp
  then obtain ks where ks: "filter (bit (word_rotr (unat shift) w)) [0..<64]
      = trailing_zeros (word_rotr (unat shift) w) # ks"
    using filter_bits_hd [of "word_rotr (unat shift) w"] by auto
  then show ?thesis
    using that by (simp add: advertised_rotr pick_bit_def Let_def unat_unrotate)
qed

lemma pick_bit_set:
  assumes "w \<noteq> 0"
  shows "bit w (unat (pick_bit shift w))"
proof -
  obtain rest where "advertised (unat shift) w = unat (pick_bit shift w) # rest"
    using pick_bit_advertised [OF assms] .
  then have "unat (pick_bit shift w) \<in> set (advertised (unat shift) w)" by simp
  then show ?thesis by (simp add: bits_of_def)
qed

lemma and_bit_eq_0: "(w :: u64) AND push_bit k 1 = 0 \<longleftrightarrow> \<not> bit w k"
  by (auto simp: and_exp_eq_0_iff_not_bit)

section \<open>The wake paths\<close>

text \<open>
  One turn of a search: \<open>fetch_and\<close> returns the word before the bit was cleared. A
  peer that cleared the bit first makes the loop retry; nobody does here, and the
  branch is kept as the code has it.
\<close>

lemma wake_simps [simp]:
  "wake (retire_bit b s) = wake s AND NOT (push_bit (unat b) 1)"
  "cursor (retire_bit b s) = cursor s"
  "parkers (retire_bit b s) = parkers s"
  "overflow (retire_bit b s) = overflow s"
  by (simp_all add: retire_bit_def)

lemma wake_parker_simps [simp]:
  "wake (snd (snd (wake_parker b s))) = wake s"
  "cursor (snd (snd (wake_parker b s))) = cursor s"
  "overflow (snd (snd (wake_parker b s))) = overflow s"
  by (simp_all add: wake_parker_def case_prod_beta)

lemma wake_parker_eqD:
  "r = wake_parker b s \<Longrightarrow> (d, q) = r \<Longrightarrow> (us, s2) = q \<Longrightarrow> wake s2 = wake s"
  by (metis snd_conv wake_parker_simps(1))

function ws_search :: "u32 \<Rightarrow> wake_set \<Rightarrow> thread_id list \<times> wake_set" where
  "ws_search shift s =
     (if wake s = 0 then ([], s)
      else
        let b = pick_bit shift (wake s);
            prev = wake s;
            s1 = retire_bit b s
        in if prev AND push_bit (unat b) 1 = 0 then ws_search shift s1
           else
             case wake_parker b (s1\<lparr>cursor := ucast b + 1\<rparr>) of
               (delivered, us, s2) \<Rightarrow>
                 if delivered then (us, s2) else ws_search shift s2)"
  by pat_completeness auto
termination
proof (relation "measure (\<lambda>(_, s). card (bits_of (wake s)))", goal_cases)
  case 1
  then show ?case by simp
next
  case (2 shift s b prev s1)
  then show ?case
    using pick_bit_set [of "wake s" shift] and_bit_eq_0 [of "wake s" "unat (pick_bit shift (wake s))"]
    by simp
next
  case (3 shift s b prev s1 delivered q us s2)
  have "wake s2 = wake s1" using wake_parker_eqD [OF refl 3(6,7)] by simp
  then have "wake s2 = wake s AND NOT (push_bit (unat b) 1)" using 3(4) by simp
  moreover have "bit (wake s) (unat b)" using pick_bit_set [OF 3(1)] 3(2) by simp
  ultimately show ?case using card_bits_of_clear by simp
qed

declare ws_search.simps [simp del]

definition ws_wake_one_published :: "wake_set \<Rightarrow> thread_id list \<times> wake_set" where
  "ws_wake_one_published s =
     (case overflow_wake_all (overflow s) of
        (us, ov) \<Rightarrow>
          let s0 = s\<lparr>overflow := ov\<rparr>
          in case ws_search (cursor_shift (cursor s0)) s0 of (vs, s') \<Rightarrow> (us @ vs, s'))"

definition ws_wake_one :: "wake_set \<Rightarrow> thread_id list \<times> wake_set" where
  "ws_wake_one s = ws_wake_one_published s"

function ws_next_matching_from ::
    "u64 \<Rightarrow> u32 \<Rightarrow> wake_interest \<Rightarrow> (nat \<Rightarrow> wake_interest) \<Rightarrow> u32 option" where
  "ws_next_matching_from rotated shift rank interest =
     (if rotated = 0 then None
      else
        let rel_bit = trailing_zeros rotated;
            rotated' = rotated AND NOT (push_bit rel_bit 1);
            b = (of_nat rel_bit + shift) AND PARK_MASK_U32
        in if interest (unat b) = rank then Some b
           else ws_next_matching_from rotated' shift rank interest)"
  by pat_completeness auto
termination
  by (relation "measure (\<lambda>(r, _). card (bits_of r))")
    (use trailing_zeros_bit card_bits_of_clear in \<open>auto simp del: bits_of_clear push_bit_of_1\<close>)

declare ws_next_matching_from.simps [simp del]

definition ws_next_matching ::
    "u64 \<Rightarrow> u32 \<Rightarrow> wake_interest \<Rightarrow> (nat \<Rightarrow> wake_interest) \<Rightarrow> u32 option" where
  "ws_next_matching ws shift rank interest =
     ws_next_matching_from (word_rotr (unat shift) ws) shift rank interest"

lemma filter_bits_clear_hd:
  fixes w :: "'l::len word"
  assumes "w \<noteq> 0"
  shows "filter (bit w) [0..<LENGTH('l)]
    = trailing_zeros w # filter (bit (w AND NOT (push_bit (trailing_zeros w) 1))) [0..<LENGTH('l)]"
proof -
  let ?k = "trailing_zeros w"
  obtain ks where ks: "filter (bit w) [0..<LENGTH('l)] = ?k # ks"
    using filter_bits_hd [OF assms] by blast
  have "distinct (?k # ks)" unfolding ks [symmetric] by simp
  then have "ks = filter (\<lambda>i. i \<noteq> ?k) (?k # ks)" by (auto intro: filter_True [symmetric])
  also have "\<dots> = filter (bit (w AND NOT (push_bit ?k 1))) [0..<LENGTH('l)]"
    unfolding ks [symmetric] filter_filter
    by (rule filter_cong) (auto simp: bit_simps simp del: push_bit_of_1 dest: bit_imp_le_length)
  finally show ?thesis using ks by simp
qed

lemma ws_next_matching_from_find:
  "map_option unat (ws_next_matching_from r shift rank interest)
     = find (\<lambda>b. interest b = rank) (map (\<lambda>i. (i + unat shift) mod 64) (filter (bit r) [0..<64]))"
proof (induction r shift rank interest rule: ws_next_matching_from.induct)
  case (1 r shift rank interest)
  show ?case
  proof (cases "r = 0")
    case True
    then show ?thesis by (simp add: ws_next_matching_from.simps)
  next
    case False
    have "filter (bit r) [0..<64]
        = trailing_zeros r # filter (bit (r AND NOT (push_bit (trailing_zeros r) 1))) [0..<64]"
      using filter_bits_clear_hd [OF False] by (simp del: push_bit_of_1)
    then show ?thesis
      using 1 [OF False refl refl refl]
      by (subst ws_next_matching_from.simps)
        (simp add: False Let_def unat_unrotate del: push_bit_of_1)
  qed
qed

lemma ws_next_matching_find:
  "map_option unat (ws_next_matching ws shift rank interest)
     = find (\<lambda>b. interest b = rank) (advertised (unat shift) ws)"
  by (simp add: ws_next_matching_def ws_next_matching_from_find advertised_rotr)

definition served :: "nat \<Rightarrow> wake_set \<Rightarrow> wake_set" where
  "served b s = s\<lparr>wake := wake s AND NOT (push_bit b 1), cursor := of_nat b + 1\<rparr>"

lemma served_simps [simp]:
  "wake (served b s) = wake s AND NOT (push_bit b 1)"
  "cursor (served b s) = of_nat b + 1"
  "parkers (served b s) = parkers s"
  "overflow (served b s) = overflow s"
  by (simp_all add: served_def)

lemma list_update_same: "xs ! i = x \<Longrightarrow> xs[i := x] = xs"
  by auto

lemma wake_parker_served:
  "wake_parker b ((retire_bit b s)\<lparr>cursor := ucast b + 1\<rparr>) =
     (case handle (parkers s ! unat b) of
        None \<Rightarrow> (False, [], served (unat b) s)
      | Some t \<Rightarrow> (True, [t], (served (unat b) s)\<lparr>parkers := (parkers s)[unat b := tp_new]\<rparr>))"
  by (cases s; cases "parkers s ! unat b")
    (simp add: list_update_same wake_parker_def tp_wake_def served_def retire_bit_def tp_new_def split: option.split)

lemma ws_search_step:
  assumes "advertised (unat shift) (wake s) = b # rest"
  shows "ws_search shift s =
    (case handle (parkers s ! b) of
       None \<Rightarrow> ws_search shift (served b s)
     | Some t \<Rightarrow> ([t], (served b s)\<lparr>parkers := (parkers s)[b := tp_new]\<rparr>))"
proof -
  have nz: "wake s \<noteq> 0" using assms by (metis advertised_eq_Nil list.distinct(1))
  have b: "b = unat (pick_bit shift (wake s))"
    using pick_bit_advertised [OF nz, of shift] assms by (metis list.inject)
  have "\<not> wake s AND push_bit b 1 = 0"
    unfolding and_bit_eq_0 b using pick_bit_set [OF nz] by simp
  then show ?thesis
    by (subst ws_search.simps)
      (simp add: nz b Let_def wake_parker_served del: push_bit_of_1 split: option.split)
qed

lemma ws_search_none: "wake s = 0 \<Longrightarrow> ws_search shift s = ([], s)"
  by (simp add: ws_search.simps)

text \<open>
  The slots still to be served: the stale ones at the front of the walk have lost
  their handle, and the walk drops them.
\<close>

definition reachable_slots :: "wake_set \<Rightarrow> nat list \<Rightarrow> nat list" where
  "reachable_slots s walk = dropWhile (\<lambda>i. \<not> tp_is_armed (parkers s ! i)) walk"

definition unpark_of :: "wake_set \<Rightarrow> nat \<Rightarrow> thread_id" where
  "unpark_of s i = the (handle (parkers s ! i))"

lemma ws_search_spec:
  assumes "reachable_slots s (advertised (unat shift) (wake s)) = target"
  shows "fst (ws_search shift s) = map (unpark_of s) (take 1 target)
    \<and> advertised (unat shift) (wake (snd (ws_search shift s))) = tl target
    \<and> parkers (snd (ws_search shift s))
        = (case target of [] \<Rightarrow> parkers s | b # _ \<Rightarrow> (parkers s)[b := tp_new])
    \<and> (\<forall>b \<in> set (take 1 target). cursor (snd (ws_search shift s)) = of_nat b + 1)
    \<and> overflow (snd (ws_search shift s)) = overflow s"
  using assms
proof (induction "advertised (unat shift) (wake s)" arbitrary: s target)
  case Nil
  then have "wake s = 0" by (metis advertised_eq_Nil)
  then show ?case using Nil by (simp add: reachable_slots_def ws_search_none)
next
  case (Cons b rest)
  have step: "ws_search shift s = (case handle (parkers s ! b) of
       None \<Rightarrow> ws_search shift (served b s)
     | Some t \<Rightarrow> ([t], (served b s)\<lparr>parkers := (parkers s)[b := tp_new]\<rparr>))"
    by (rule ws_search_step [OF Cons.hyps(2) [symmetric]])
  have "distinct (b # rest)" unfolding Cons.hyps(2) by simp
  then have rest: "advertised (unat shift) (wake s AND NOT (push_bit b 1)) = rest"
    by (subst advertised_clear, subst Cons.hyps(2) [symmetric]) (auto intro: filter_True)
  show ?case
  proof (cases "handle (parkers s ! b)")
    case None
    then have "reachable_slots (served b s) (advertised (unat shift) (wake (served b s))) = target"
      using Cons.prems rest
      by (simp add: reachable_slots_def tp_is_armed_def Cons.hyps(2) [symmetric] del: push_bit_of_1)
    moreover have "rest = advertised (unat shift) (wake (served b s))"
      using rest by (simp del: push_bit_of_1)
    ultimately show ?thesis
      using Cons.hyps(1) [of "served b s" target] None step
      by (simp add: unpark_of_def cong: list.case_cong)
  next
    case (Some t)
    then have "target = b # rest"
      using Cons.prems by (simp add: reachable_slots_def tp_is_armed_def Cons.hyps(2) [symmetric])
    then show ?thesis
      using Some step rest by (simp add: unpark_of_def del: push_bit_of_1)
  qed
qed

lemma ws_wake_one_spec:
  assumes "target = reachable_slots s (advertised (unat (cursor_shift (cursor s))) (wake s))"
    and "s' = snd (ws_wake_one s)"
  shows "fst (ws_wake_one s) = overflow s @ map (unpark_of s) (take 1 target)
    \<and> bits_of (wake s') = set (tl target)
    \<and> overflow s' = []
    \<and> parkers s' = fold (\<lambda>b ps. ps[b := tp_new]) (take 1 target) (parkers s)
    \<and> (target = [] \<or> cursor s' = of_nat (hd target) + 1)"
proof -
  define s0 where "s0 = s\<lparr>overflow := []\<rparr>"
  define shift where "shift = cursor_shift (cursor s)"
  have fields: "wake s0 = wake s" "parkers s0 = parkers s" by (simp_all add: s0_def)
  then have "reachable_slots s0 (advertised (unat shift) (wake s0)) = target"
    and [simp]: "unpark_of s0 = unpark_of s"
    by (simp_all add: assms(1) shift_def reachable_slots_def unpark_of_def fun_eq_iff)
  note spec = ws_search_spec [OF this(1)]
  have run: "ws_wake_one s = (overflow s @ fst (ws_search shift s0), snd (ws_search shift s0))"
    by (simp add: ws_wake_one_def ws_wake_one_published_def overflow_wake_all_def s0_def shift_def
        case_prod_beta Let_def)
  have bits: "bits_of (wake (snd (ws_search shift s0))) = set (tl target)"
    using spec by (metis set_advertised)
  have ov: "overflow s0 = []" by (simp add: s0_def)
  show ?thesis
    unfolding assms(2) by (cases target) (use run spec bits ov fields in auto)
qed

text \<open>
  \<open>wake_one\<close> delivers: it unparks every slotless waiter and then the first waiter,
  in round-robin order from the cursor, whose handle is still there, and no
  other. Stale bits met on the way are retired, the bits behind the one served
  stay, the served handle is claimed, and the cursor stands just past it.
\<close>

theorem wake_one_delivers:
  "let walk = advertised (unat (cursor_shift (cursor s))) (wake s);
       target = reachable_slots s walk;
       s' = snd (ws_wake_one s)
   in fst (ws_wake_one s) = overflow s @ map (unpark_of s) (take 1 target)
    \<and> bits_of (wake s') = set (tl target)
    \<and> overflow s' = []
    \<and> parkers s' = fold (\<lambda>b ps. ps[b := tp_new]) (take 1 target) (parkers s)
    \<and> (target = [] \<or> cursor s' = of_nat (hd target) + 1)"
  unfolding Let_def by (rule ws_wake_one_spec [OF refl refl])

section \<open>Targeted wakes\<close>

lemma ws_next_matching_Some:
  assumes "ws_next_matching ws shift rank interest = Some b"
  shows "filter (\<lambda>i. interest i = rank) (advertised (unat shift) ws)
    = unat b # tl (filter (\<lambda>i. interest i = rank) (advertised (unat shift) ws))"
proof -
  have "find (\<lambda>i. interest i = rank) (advertised (unat shift) ws) = Some (unat b)"
    using assms ws_next_matching_find [of ws shift rank interest] by simp
  then show ?thesis using find_eq_Some_filter by fastforce
qed

lemma ws_next_matching_None:
  assumes "ws_next_matching ws shift rank interest = None"
  shows "filter (\<lambda>i. interest i = rank) (advertised (unat shift) ws) = []"
proof -
  have "find (\<lambda>i. interest i = rank) (advertised (unat shift) ws) = None"
    using assms ws_next_matching_find [of ws shift rank interest] by simp
  then show ?thesis by (auto simp: find_None_iff filter_empty_conv)
qed

lemma ws_next_matching_set:
  assumes "ws_next_matching ws shift rank interest = Some b"
  shows "bit ws (unat b)"
proof -
  have "unat b \<in> set (filter (\<lambda>i. interest i = rank) (advertised (unat shift) ws))"
    by (subst ws_next_matching_Some [OF assms]) simp
  then show ?thesis by (simp add: bits_of_def)
qed

function ws_wake_one_ranked ::
    "wake_interest \<Rightarrow> (nat \<Rightarrow> wake_interest) \<Rightarrow> wake_set \<Rightarrow> bool \<times> thread_id list \<times> wake_set" where
  "ws_wake_one_ranked rank interest s =
     (if wake s = 0 then (False, [], s)
      else
        case ws_next_matching (wake s) (cursor_shift (cursor s)) rank interest of
          None \<Rightarrow> (False, [], s)
        | Some b \<Rightarrow>
            let prev = wake s;
                s1 = retire_bit b s
            in if prev AND push_bit (unat b) 1 = 0 then ws_wake_one_ranked rank interest s1
               else
                 case wake_parker b (s1\<lparr>cursor := ucast b + 1\<rparr>) of
                   (delivered, us, s2) \<Rightarrow>
                     if delivered then (True, us, s2) else ws_wake_one_ranked rank interest s2)"
  by pat_completeness auto
termination
proof (relation "measure (\<lambda>(_, _, s). card (bits_of (wake s)))", goal_cases)
  case 1
  then show ?case by simp
next
  case (2 rank interest s b prev s1)
  then have "bit (wake s) (unat b)" by (blast intro: ws_next_matching_set)
  then show ?case using 2(3,5) and_bit_eq_0 [of "wake s" "unat b"] by simp
next
  case (3 rank interest s b prev s1 delivered q us s2)
  have "wake s2 = wake s1" using wake_parker_eqD [OF refl 3(6,7)] by simp
  then have "wake s2 = wake s AND NOT (push_bit (unat b) 1)" using 3(4) by simp
  moreover have "bit (wake s) (unat b)" by (rule ws_next_matching_set [OF 3(2)])
  ultimately show ?case using card_bits_of_clear by simp
qed

declare ws_wake_one_ranked.simps [simp del]

definition ws_wake_one_interested ::
    "(nat \<Rightarrow> wake_interest) \<Rightarrow> wake_set \<Rightarrow> thread_id list \<times> wake_set" where
  "ws_wake_one_interested interest s =
     (case overflow_wake_all (overflow s) of
        (us, ov) \<Rightarrow>
          let s0 = s\<lparr>overflow := ov\<rparr>
          in case ws_wake_one_ranked Reserved interest s0 of
               (found, vs, s1) \<Rightarrow>
                 if found then (us @ vs, s1)
                 else case ws_wake_one_ranked Any interest s1 of
                        (_, ws, s2) \<Rightarrow> (us @ vs @ ws, s2))"

text \<open>The walk of a ranked search: the advertised slots whose waiter answers \<open>rank\<close>.\<close>

definition ranked_walk :: "wake_interest \<Rightarrow> (nat \<Rightarrow> wake_interest) \<Rightarrow> wake_set \<Rightarrow> nat list" where
  "ranked_walk rank interest s =
     filter (\<lambda>i. interest i = rank) (advertised (unat (cursor_shift (cursor s))) (wake s))"

lemma unat_cursor_shift: "unat (cursor_shift c) = unat c mod 64"
proof -
  have "unat (ucast c :: u32) = unat c mod 2 ^ 32"
    by (simp add: unsigned_ucast_eq take_bit_eq_mod)
  moreover have "unat c mod 2 ^ 32 mod 64 = unat c mod 64" by (rule mod_mod_cancel) simp
  ultimately show ?thesis by (simp only: cursor_shift_def unat_and_63)
qed

lemma advertised_mod: "advertised (s mod 64) w = advertised s w"
  by (simp add: advertised_def cyc_def mod_add_right_eq)

lemma unat_cursor_shift_next:
  assumes "b < 64"
  shows "unat (cursor_shift (of_nat b + 1)) = Suc b mod 64"
proof -
  have "(of_nat b + 1 :: u64) = of_nat (Suc b)" by simp
  moreover have "unat (of_nat (Suc b) :: u64) = Suc b"
    using assms by (simp only: unat_of_nat take_bit_nat_eq_self_iff) simp
  ultimately show ?thesis by (simp only: unat_cursor_shift)
qed

lemma ranked_walk_served:
  assumes "ranked_walk rank interest s = b # rest"
  shows "ranked_walk rank interest (served b s) = rest"
proof -
  have "b \<in> set (ranked_walk rank interest s)" using assms by simp
  then have "b < 64" by (auto simp: ranked_walk_def dest: bits_of_bound)
  then have "ranked_walk rank interest (served b s)
      = filter (\<lambda>i. interest i = rank) (advertised (Suc b) (wake s AND NOT (push_bit b 1)))"
    by (simp add: ranked_walk_def unat_cursor_shift_next advertised_mod del: push_bit_of_1)
  also have "\<dots> = rest"
    by (rule advertised_next) (use assms in \<open>simp add: ranked_walk_def\<close>)
  finally show ?thesis .
qed

lemma ws_wake_one_ranked_step:
  assumes "ranked_walk rank interest s = b # rest"
  shows "ws_wake_one_ranked rank interest s =
    (case handle (parkers s ! b) of
       None \<Rightarrow> ws_wake_one_ranked rank interest (served b s)
     | Some t \<Rightarrow> (True, [t], (served b s)\<lparr>parkers := (parkers s)[b := tp_new]\<rparr>))"
proof -
  let ?next = "ws_next_matching (wake s) (cursor_shift (cursor s)) rank interest"
  have nz: "wake s \<noteq> 0" using assms by (auto simp: ranked_walk_def advertised_def)
  obtain v where v: "?next = Some v" "b = unat v"
  proof (cases ?next)
    case None
    then show ?thesis using ws_next_matching_None [OF None] assms by (simp add: ranked_walk_def)
  next
    case (Some v)
    then show ?thesis
      using that ws_next_matching_Some [OF Some] assms by (metis list.inject ranked_walk_def)
  qed
  have "\<not> wake s AND push_bit b 1 = 0"
    unfolding and_bit_eq_0 v(2) using ws_next_matching_set [OF v(1)] by simp
  then show ?thesis
    by (subst ws_wake_one_ranked.simps)
      (simp add: nz v Let_def wake_parker_served del: push_bit_of_1 split: option.split)
qed

lemma ws_wake_one_ranked_none:
  assumes "ranked_walk rank interest s = []"
  shows "ws_wake_one_ranked rank interest s = (False, [], s)"
proof (cases "ws_next_matching (wake s) (cursor_shift (cursor s)) rank interest")
  case None
  then show ?thesis by (simp add: ws_wake_one_ranked.simps)
next
  case (Some v)
  then show ?thesis
    using ws_next_matching_Some [OF Some] assms by (simp add: ranked_walk_def)
qed

lemma ws_wake_one_ranked_spec:
  assumes "reachable_slots s (ranked_walk rank interest s) = target"
  shows "fst (ws_wake_one_ranked rank interest s) = (target \<noteq> [])
    \<and> fst (snd (ws_wake_one_ranked rank interest s)) = map (unpark_of s) (take 1 target)
    \<and> bits_of (wake (snd (snd (ws_wake_one_ranked rank interest s))))
        = bits_of (wake s) - set (ranked_walk rank interest s) \<union> set (tl target)
    \<and> parkers (snd (snd (ws_wake_one_ranked rank interest s)))
        = fold (\<lambda>b ps. ps[b := tp_new]) (take 1 target) (parkers s)
    \<and> overflow (snd (snd (ws_wake_one_ranked rank interest s))) = overflow s"
  using assms
proof (induction "ranked_walk rank interest s" arbitrary: s target)
  case Nil
  then show ?case by (auto simp: reachable_slots_def ws_wake_one_ranked_none)
next
  case (Cons b rest)
  note walk = Cons.hyps(2) [symmetric]
  have dist: "distinct (b # rest)" unfolding Cons.hyps(2) by (simp add: ranked_walk_def)
  have sub: "set (b # rest) \<subseteq> bits_of (wake s)" unfolding Cons.hyps(2) by (auto simp: ranked_walk_def)
  have rest: "ranked_walk rank interest (served b s) = rest"
    by (rule ranked_walk_served [OF walk])
  have bits: "bits_of (wake (served b s)) = bits_of (wake s) - {b}" by (simp del: push_bit_of_1)
  show ?case
  proof (cases "handle (parkers s ! b)")
    case None
    then have "reachable_slots (served b s) (ranked_walk rank interest (served b s)) = target"
      using Cons.prems by (simp add: reachable_slots_def tp_is_armed_def walk rest)
    with Cons.hyps(1) [of "served b s" target, OF rest [symmetric]]
      ws_wake_one_ranked_step [OF walk] None
    show ?thesis unfolding walk rest bits
      by (simp add: unpark_of_def del: served_simps(1)) blast
  next
    case (Some t)
    then have "target = b # rest"
      using Cons.prems by (simp add: reachable_slots_def tp_is_armed_def walk)
    then show ?thesis
      using Some ws_wake_one_ranked_step [OF walk] bits sub dist unfolding walk
      by (auto simp: unpark_of_def simp del: push_bit_of_1)
  qed
qed

text \<open>The slots whose waiter has interest \<open>r\<close> and would be reached by a wake.\<close>

definition claimants :: "wake_interest \<Rightarrow> (nat \<Rightarrow> wake_interest) \<Rightarrow> wake_set \<Rightarrow> nat set" where
  "claimants r interest s =
     {i \<in> bits_of (wake s). interest i = r \<and> tp_is_armed (parkers s ! i)}"

lemma reachable_slots_hd:
  "reachable_slots s walk = b # rest \<Longrightarrow> b \<in> set walk \<and> tp_is_armed (parkers s ! b)"
  unfolding reachable_slots_def
  by (metis (no_types, lifting) dropWhile_eq_Cons_conv in_set_conv_decomp list.set_intros(1) set_dropWhileD)

lemma reachable_slots_Nil:
  "reachable_slots s walk = [] \<longleftrightarrow> (\<forall>i \<in> set walk. \<not> tp_is_armed (parkers s ! i))"
  by (simp add: reachable_slots_def dropWhile_eq_Nil_conv)

lemma reachable_slots_subset: "set (reachable_slots s walk) \<subseteq> set walk"
  by (auto simp: reachable_slots_def dest: set_dropWhileD)

lemma set_ranked_walk [simp]:
  "set (ranked_walk r interest s) = {i \<in> bits_of (wake s). interest i = r}"
  by (auto simp: ranked_walk_def)

lemma claimants_eq_empty:
  "claimants r interest s = {} \<longleftrightarrow> reachable_slots s (ranked_walk r interest s) = []"
  by (auto simp: claimants_def reachable_slots_Nil)

lemma interest_class_eq:
  assumes "{i \<in> A. interest i \<noteq> r} = {i \<in> B. interest i \<noteq> (r :: wake_interest)}" and "d \<noteq> r"
  shows "{i \<in> A. interest i = d} = {i \<in> B. interest i = d}"
  using assms by blast

text \<open>One ranked pass, as far as the routing theorem needs it.\<close>

lemma ws_wake_one_ranked_pass:
  assumes "ws_wake_one_ranked r interest s = (found, us, s')"
  shows "found = (claimants r interest s \<noteq> {})
    \<and> (\<exists>picked. us = map (unpark_of s) picked \<and> length picked = of_bool found
        \<and> set picked \<subseteq> claimants r interest s
        \<and> picked = take 1 (reachable_slots s (ranked_walk r interest s))
        \<and> set picked \<inter> bits_of (wake s') = {}
        \<and> parkers s' = fold (\<lambda>b ps. ps[b := tp_new]) picked (parkers s))
    \<and> {i \<in> bits_of (wake s'). interest i \<noteq> r} = {i \<in> bits_of (wake s). interest i \<noteq> r}
    \<and> bits_of (wake s') \<subseteq> bits_of (wake s)
    \<and> overflow s' = overflow s"
proof -
  let ?walk = "ranked_walk r interest s"
  let ?target = "reachable_slots s ?walk"
  note spec = ws_wake_one_ranked_spec
    [where s = s and rank = r and interest = interest, OF refl, unfolded assms fst_conv snd_conv]
  have dist: "distinct ?target"
    by (simp add: reachable_slots_def ranked_walk_def distinct_dropWhile)
  have tl: "set (tl ?target) \<subseteq> set ?walk"
    using reachable_slots_subset [of s ?walk] by (cases ?target) simp_all
  have picked: "set (take 1 ?target) \<subseteq> claimants r interest s"
    using reachable_slots_hd [of s ?walk]
    by (cases ?target) (auto simp: claimants_def)
  have "length (take 1 ?target) = of_bool found" using spec by (cases ?target) simp_all
  moreover have "set (take 1 ?target) \<inter> bits_of (wake s') = {}"
  proof (cases ?target)
    case (Cons b rest)
    have "b \<in> set ?walk" using reachable_slots_hd [OF Cons] by simp
    then show ?thesis using spec dist Cons by auto
  qed simp
  ultimately show ?thesis
    using spec picked tl by (auto simp: claimants_eq_empty)
qed

text \<open>
  C31. A targeted wake reaches the waiter with the strongest claim: with an armed
  waiter that reserved the position it unparks the first such in round-robin order,
  and otherwise one that takes anything; with neither it unparks only the slotless
  ones. The bits of the waiters that decline, and their handles, are left alone.
\<close>

theorem wake_one_interested_routes:
  "\<exists>target. fst (ws_wake_one_interested interest s) = overflow s @ map (unpark_of s) target
    \<and> length target = (if claimants Reserved interest s \<union> claimants Any interest s = {} then 0 else 1)
    \<and> set target \<subseteq> (if claimants Reserved interest s = {} then claimants Any interest s
                     else claimants Reserved interest s)
    \<and> take 1 (reachable_slots s (ranked_walk Reserved interest s)) = filter (\<lambda>i. interest i = Reserved) target
    \<and> set target \<inter> bits_of (wake (snd (ws_wake_one_interested interest s))) = {}
    \<and> {i \<in> bits_of (wake (snd (ws_wake_one_interested interest s))). interest i = Declines}
        = {i \<in> bits_of (wake s). interest i = Declines}
    \<and> parkers (snd (ws_wake_one_interested interest s))
        = fold (\<lambda>b ps. ps[b := tp_new]) target (parkers s)"
proof -
  define s0 where "s0 = s\<lparr>overflow := []\<rparr>"
  obtain f1 us1 s1 where p1: "ws_wake_one_ranked Reserved interest s0 = (f1, us1, s1)"
    by (metis prod.exhaust)
  obtain f2 us2 s2 where p2: "ws_wake_one_ranked Any interest s1 = (f2, us2, s2)"
    by (metis prod.exhaust)
  have run: "ws_wake_one_interested interest s
      = (if f1 then (overflow s @ us1, s1) else (overflow s @ us1 @ us2, s2))"
    by (simp add: ws_wake_one_interested_def overflow_wake_all_def s0_def [symmetric] p1 p2 Let_def)
  have same: "unpark_of s0 = unpark_of s" "claimants r interest s0 = claimants r interest s"
    "reachable_slots s0 = reachable_slots s" "ranked_walk r interest s0 = ranked_walk r interest s"
    "wake s0 = wake s" "parkers s0 = parkers s" for r
    by (auto simp: s0_def unpark_of_def claimants_def reachable_slots_def ranked_walk_def)
  obtain t1 where pass1: "f1 = (claimants Reserved interest s \<noteq> {})"
    "us1 = map (unpark_of s) t1" "length t1 = of_bool f1" "set t1 \<subseteq> claimants Reserved interest s"
    "t1 = take 1 (reachable_slots s (ranked_walk Reserved interest s))"
    "set t1 \<inter> bits_of (wake s1) = {}"
    "parkers s1 = fold (\<lambda>b ps. ps[b := tp_new]) t1 (parkers s)"
    "{i \<in> bits_of (wake s1). interest i \<noteq> Reserved} = {i \<in> bits_of (wake s). interest i \<noteq> Reserved}"
    using ws_wake_one_ranked_pass [OF p1] unfolding same by blast
  show ?thesis
  proof (cases f1)
    case True
    have "filter (\<lambda>i. interest i = Reserved) t1 = t1"
      using pass1(4) by (auto simp: claimants_def filter_id_conv)
    moreover have "{i \<in> bits_of (wake s1). interest i = Declines}
        = {i \<in> bits_of (wake s). interest i = Declines}"
      by (rule interest_class_eq [OF pass1(8)]) simp
    moreover have "claimants Reserved interest s \<noteq> {}" using True pass1(1) by simp
    moreover have "ws_wake_one_interested interest s = (overflow s @ us1, s1)" using True run by simp
    ultimately show ?thesis
      using True pass1(2-7) by (intro exI [of _ t1] conjI) simp_all
  next
    case False
    then have "t1 = []" using pass1(3) by simp
    then have p: "parkers s1 = parkers s" using pass1(7) by simp
    then have u: "unpark_of s1 = unpark_of s" by (simp add: unpark_of_def fun_eq_iff)
    have c: "claimants Any interest s1 = claimants Any interest s"
      using interest_class_eq [OF pass1(8), of Any] unfolding claimants_def p by blast
    obtain t2 where pass2: "f2 = (claimants Any interest s \<noteq> {})"
      "us2 = map (unpark_of s) t2" "length t2 = of_bool f2" "set t2 \<subseteq> claimants Any interest s"
      "set t2 \<inter> bits_of (wake s2) = {}"
      "parkers s2 = fold (\<lambda>b ps. ps[b := tp_new]) t2 (parkers s)"
      "{i \<in> bits_of (wake s2). interest i \<noteq> Any} = {i \<in> bits_of (wake s1). interest i \<noteq> Any}"
      using ws_wake_one_ranked_pass [OF p2] unfolding u c p by blast
    have "{i \<in> bits_of (wake s2). interest i = Declines}
        = {i \<in> bits_of (wake s). interest i = Declines}"
      using interest_class_eq [OF pass1(8), of Declines] interest_class_eq [OF pass2(7), of Declines]
      by simp
    moreover have "filter (\<lambda>i. interest i = Reserved) t2 = []"
      using pass2(4) by (auto simp: claimants_def filter_empty_conv)
    moreover have "claimants Reserved interest s = {}" using False pass1(1) by simp
    moreover have "ws_wake_one_interested interest s = (overflow s @ us2, s2)"
      using False run pass1(2) \<open>t1 = []\<close> by simp
    moreover have "take 1 (reachable_slots s (ranked_walk Reserved interest s)) = []"
      using pass1(5) \<open>t1 = []\<close> by simp
    ultimately show ?thesis
      using pass2(1-6) by (intro exI [of _ t2] conjI) simp_all
  qed
qed

section \<open>Batch wakes and flush\<close>

function ws_wake_n_loop ::
    "usize \<Rightarrow> u64 \<Rightarrow> usize \<Rightarrow> wake_set \<Rightarrow> thread_id list \<times> wake_set" where
  "ws_wake_n_loop n cur woken s =
     (if woken < n then
        if wake s = 0 then ([], s\<lparr>cursor := cur\<rparr>)
        else
          let b = pick_bit (cursor_shift cur) (wake s);
              prev = wake s;
              s1 = retire_bit b s;
              cur' = ucast b + 1
          in if prev AND push_bit (unat b) 1 = 0 then ws_wake_n_loop n cur' woken s1
             else
               case wake_parker b s1 of
                 (delivered, us, s2) \<Rightarrow>
                   case ws_wake_n_loop n cur' (if delivered then woken + 1 else woken) s2 of
                     (vs, s3) \<Rightarrow> (us @ vs, s3)
      else ([], s\<lparr>cursor := cur\<rparr>))"
  by pat_completeness auto
termination
proof (relation "measure (\<lambda>(_, _, _, s). card (bits_of (wake s)))", goal_cases)
  case 1
  then show ?case by simp
next
  case (2 n cur woken s b prev s1)
  then show ?case
    using pick_bit_set [of "wake s" "cursor_shift cur"]
      and_bit_eq_0 [of "wake s" "unat (pick_bit (cursor_shift cur) (wake s))"]
    by simp
next
  case (3 n cur woken s b prev s1 cur' delivered q us s2)
  have "wake s2 = wake s1" using wake_parker_eqD [OF refl 3(8,9)] by simp
  then have "wake s2 = wake s AND NOT (push_bit (unat b) 1)" using 3(5) by simp
  moreover have "bit (wake s) (unat b)" using pick_bit_set [OF 3(2)] 3(3) by simp
  ultimately show ?case using card_bits_of_clear by simp
qed

declare ws_wake_n_loop.simps [simp del]

definition ws_wake_n :: "usize \<Rightarrow> wake_set \<Rightarrow> thread_id list \<times> wake_set" where
  "ws_wake_n n s =
     (case overflow_wake_all (overflow s) of
        (us, ov) \<Rightarrow>
          let s0 = s\<lparr>overflow := ov\<rparr>
          in case ws_wake_n_loop n (cursor s0) 0 s0 of (vs, s') \<Rightarrow> (us @ vs, s'))"

function ws_flush_loop :: "u64 \<Rightarrow> wake_set \<Rightarrow> thread_id list \<times> wake_set" where
  "ws_flush_loop bits s =
     (if bits = 0 then ([], s)
      else
        case wake_parker (of_nat (trailing_zeros bits)) s of
          (_, us, s1) \<Rightarrow>
            case ws_flush_loop (bits AND (bits - 1)) s1 of (vs, s2) \<Rightarrow> (us @ vs, s2))"
  by pat_completeness auto
termination
  by (relation "measure (\<lambda>(bits, _). card (bits_of bits))")
    (use trailing_zeros_bit card_bits_of_clear in
      \<open>auto simp: clear_lowest simp del: bits_of_clear push_bit_of_1\<close>)

declare ws_flush_loop.simps [simp del]

definition ws_flush :: "wake_set \<Rightarrow> thread_id list \<times> wake_set" where
  "ws_flush s =
     (case overflow_wake_all (overflow s) of
        (us, ov) \<Rightarrow>
          case ws_flush_loop (wake s) (s\<lparr>overflow := ov, wake := 0\<rparr>) of
            (vs, s') \<Rightarrow> (us @ vs, s'))"

text \<open>The armed slots of a walk, and what waking them leaves of the table.\<close>

definition armed_slots :: "thread_parker list \<Rightarrow> nat list \<Rightarrow> nat list" where
  "armed_slots ps walk = filter (\<lambda>i. tp_is_armed (ps ! i)) walk"

lemma armed_slots_Nil [simp]: "armed_slots ps [] = []"
  by (simp add: armed_slots_def)

lemma armed_slots_Cons [simp]:
  "armed_slots ps (b # walk) = (if tp_is_armed (ps ! b) then b # armed_slots ps walk
     else armed_slots ps walk)"
  by (simp add: armed_slots_def)

lemma armed_slots_update [simp]:
  "b \<notin> set walk \<Longrightarrow> armed_slots (ps[b := p]) walk = armed_slots ps walk"
  unfolding armed_slots_def by (rule filter_cong) (metis nth_list_update_neq)+

lemma set_armed_slots: "set (armed_slots ps walk) \<subseteq> set walk"
  by (auto simp: armed_slots_def)

lemma unpark_of_update:
  assumes "parkers s1 = (parkers s)[b := p]" and "b \<notin> set xs"
  shows "map (unpark_of s1) xs = map (unpark_of s) xs"
proof (rule map_cong [OF refl])
  fix x assume "x \<in> set xs"
  then have "b \<noteq> x" using assms(2) by auto
  then show "unpark_of s1 x = unpark_of s x" by (simp add: unpark_of_def assms(1))
qed

lemma wake_parker_retired:
  "wake_parker b (retire_bit b s) =
     (case handle (parkers s ! unat b) of
        None \<Rightarrow> (False, [], retire_bit b s)
      | Some t \<Rightarrow> (True, [t], (retire_bit b s)\<lparr>parkers := (parkers s)[unat b := tp_new]\<rparr>))"
  by (cases s; cases "parkers s ! unat b")
    (simp add: list_update_same wake_parker_def tp_wake_def retire_bit_def tp_new_def
      split: option.split)

lemma ws_wake_n_step:
  assumes walk: "advertised (unat (cursor_shift cur)) (wake s) = b # rest"
    and lt: "woken < n"
  shows "\<exists>s1 cur' us. ws_wake_n_loop n cur woken s =
      (us @ fst (ws_wake_n_loop n cur' (if us = [] then woken else woken + 1) s1),
       snd (ws_wake_n_loop n cur' (if us = [] then woken else woken + 1) s1))
    \<and> us = (if tp_is_armed (parkers s ! b) then [unpark_of s b] else [])
    \<and> advertised (unat (cursor_shift cur')) (wake s1) = rest
    \<and> bits_of (wake s1) = bits_of (wake s) - {b}
    \<and> parkers s1 = (if us = [] then parkers s else (parkers s)[b := tp_new])
    \<and> overflow s1 = overflow s \<and> cur' = of_nat b + 1"
proof -
  have nz: "wake s \<noteq> 0" using walk by (metis advertised_eq_Nil list.distinct(1))
  define v where "v = pick_bit (cursor_shift cur) (wake s)"
  have b: "b = unat v"
    using pick_bit_advertised [OF nz, of "cursor_shift cur"] walk unfolding v_def by (metis list.inject)
  have set: "\<not> wake s AND push_bit b 1 = 0"
    unfolding and_bit_eq_0 b v_def using pick_bit_set [OF nz] by simp
  have b64: "b < 64" using walk by (metis bits_of_bound list.set_intros(1) set_advertised)
  define s1 where "s1 = (if tp_is_armed (parkers s ! b)
    then (retire_bit v s)\<lparr>parkers := (parkers s)[b := tp_new]\<rparr> else retire_bit v s)"
  have cur: "(ucast v :: u64) + 1 = of_nat b + 1" by (simp add: b)
  have wake1: "wake s1 = wake s AND NOT (push_bit b 1)" by (simp add: s1_def b)
  have "advertised (Suc b) (wake s1) = rest"
    using advertised_next [where P = "\<lambda>_. True"] walk unfolding wake1 by simp
  then have rest: "advertised (unat (cursor_shift (of_nat b + 1))) (wake s1) = rest"
    by (simp add: unat_cursor_shift_next [OF b64] advertised_mod)
  have loop: "ws_wake_n_loop n cur woken s =
      ((if tp_is_armed (parkers s ! b) then [unpark_of s b] else []) @
         fst (ws_wake_n_loop n (of_nat b + 1) (if tp_is_armed (parkers s ! b) then woken + 1 else woken) s1),
       snd (ws_wake_n_loop n (of_nat b + 1) (if tp_is_armed (parkers s ! b) then woken + 1 else woken) s1))"
    by (subst ws_wake_n_loop.simps)
      (use lt nz set in \<open>simp add: v_def [symmetric] b [symmetric] cur Let_def wake_parker_retired s1_def
        tp_is_armed_def unpark_of_def case_prod_beta del: push_bit_of_1 split: option.split\<close>)
  show ?thesis
    by (rule exI [of _ s1], rule exI [of _ "of_nat b + 1"],
        rule exI [of _ "if tp_is_armed (parkers s ! b) then [unpark_of s b] else []"])
      (use loop rest wake1 in \<open>simp add: s1_def b del: push_bit_of_1\<close>)
qed

lemma ws_wake_n_loop_spec:
  assumes "armed_slots (parkers s) (advertised (unat (cursor_shift cur)) (wake s)) = armed"
    and "unat woken + k = unat n"
  shows "fst (ws_wake_n_loop n cur woken s) = map (unpark_of s) (take k armed)
    \<and> bits_of (wake (snd (ws_wake_n_loop n cur woken s))) \<subseteq> bits_of (wake s) - set (take k armed)
    \<and> set (drop k armed) \<subseteq> bits_of (wake (snd (ws_wake_n_loop n cur woken s)))
    \<and> parkers (snd (ws_wake_n_loop n cur woken s)) = fold (\<lambda>b ps. ps[b := tp_new]) (take k armed) (parkers s)
    \<and> overflow (snd (ws_wake_n_loop n cur woken s)) = overflow s"
  using assms
proof (induction "advertised (unat (cursor_shift cur)) (wake s)" arbitrary: s cur woken k armed)
  case Nil
  then have "wake s = 0" by (metis advertised_eq_Nil)
  with Nil show ?case by (simp add: ws_wake_n_loop.simps)
next
  case (Cons b rest)
  note walk = Cons.hyps(2) [symmetric]
  have sub: "set (b # rest) = bits_of (wake s)" unfolding Cons.hyps(2) by simp
  have armed_sub: "set armed \<subseteq> bits_of (wake s)"
    using Cons.prems(1) set_armed_slots [of "parkers s"] sub walk by metis
  show ?case
  proof (cases "woken < n")
    case False
    then have "k = 0" using Cons.prems(2) by (simp add: word_less_nat_alt)
    then show ?thesis using False armed_sub by (simp add: ws_wake_n_loop.simps)
  next
    case True
    obtain s1 cur' us where step: "ws_wake_n_loop n cur woken s =
        (us @ fst (ws_wake_n_loop n cur' (if us = [] then woken else woken + 1) s1),
         snd (ws_wake_n_loop n cur' (if us = [] then woken else woken + 1) s1))"
      and us: "us = (if tp_is_armed (parkers s ! b) then [unpark_of s b] else [])"
      and rest: "advertised (unat (cursor_shift cur')) (wake s1) = rest"
      and bits: "bits_of (wake s1) = bits_of (wake s) - {b}"
      and ps: "parkers s1 = (if us = [] then parkers s else (parkers s)[b := tp_new])"
      and ov: "overflow s1 = overflow s"
      using ws_wake_n_step [OF walk True] by blast
    have "distinct (b # rest)" unfolding Cons.hyps(2) by simp
    then have b: "b \<notin> set rest" by simp
    have armed1: "armed_slots (parkers s1) (advertised (unat (cursor_shift cur')) (wake s1))
        = armed_slots (parkers s) rest"
      using b by (simp add: rest ps)
    have unparks: "map (unpark_of s1) xs = map (unpark_of s) xs" if "set xs \<subseteq> set rest" for xs
      by (rule map_cong [OF refl]) (use that b ps in \<open>auto simp: unpark_of_def split: if_splits\<close>,
        metis nth_list_update_neq subsetD)
    have in_rest: "set (take j (armed_slots (parkers s) rest)) \<subseteq> set rest" for j
      using set_armed_slots set_take_subset by fast
    show ?thesis
    proof (cases "tp_is_armed (parkers s ! b)")
      case False
      then have "armed = armed_slots (parkers s) rest" using Cons.prems(1) by (simp add: walk)
      with Cons.hyps(1) [OF rest [symmetric] armed1 Cons.prems(2)] unparks [OF in_rest] False
      show ?thesis using step us ps bits ov by auto
    next
      case armed_b: True
      then have armed: "armed = b # armed_slots (parkers s) rest"
        using Cons.prems(1) by (simp add: walk)
      obtain j where j: "k = Suc j"
        using True Cons.prems(2) by (cases k) (simp_all add: word_less_nat_alt)
      have "unat (woken + 1) = Suc (unat woken)"
        by (rule unat_Suc_of_less [OF True])
      then have "unat (woken + 1) + j = unat n" using Cons.prems(2) j by simp
      note IH = Cons.hyps(1) [OF rest [symmetric] armed1 this]
      show ?thesis using IH unparks [OF in_rest, of j] step us ps bits ov armed j armed_b sub
        by auto
    qed
  qed
qed

text \<open>
  \<open>wake_n\<close> delivers exactly \<open>n\<close> unparks when that many waiters are there, and one to
  each of them otherwise: the first \<open>n\<close> armed slots in round-robin order, after the
  slotless waiters. The slots it served are retired and the armed ones it did
  not reach stay advertised.
\<close>

theorem wake_n_delivers:
  "let armed = armed_slots (parkers s) (advertised (unat (cursor_shift (cursor s))) (wake s));
       s' = snd (ws_wake_n n s)
   in fst (ws_wake_n n s) = overflow s @ map (unpark_of s) (take (unat n) armed)
    \<and> bits_of (wake s') \<subseteq> bits_of (wake s) - set (take (unat n) armed)
    \<and> set (drop (unat n) armed) \<subseteq> bits_of (wake s')
    \<and> overflow s' = []"
proof -
  define s0 where "s0 = s\<lparr>overflow := []\<rparr>"
  have run: "ws_wake_n n s = (overflow s @ fst (ws_wake_n_loop n (cursor s) 0 s0),
      snd (ws_wake_n_loop n (cursor s) 0 s0))"
    by (simp add: ws_wake_n_def overflow_wake_all_def s0_def case_prod_beta Let_def)
  have [simp]: "wake s0 = wake s" "parkers s0 = parkers s" "overflow s0 = []"
    "unpark_of s0 = unpark_of s"
    by (simp_all add: s0_def unpark_of_def fun_eq_iff)
  note spec = ws_wake_n_loop_spec [where s = s0 and cur = "cursor s" and woken = 0 and k = "unat n"
      and n = n, OF refl]
  show ?thesis
    unfolding Let_def run fst_conv snd_conv using spec by simp
qed

lemma ws_flush_loop_spec:
  assumes "filter (bit bits) [0..<64] = walk"
  shows "fst (ws_flush_loop bits s) = map (unpark_of s) (armed_slots (parkers s) walk)
    \<and> wake (snd (ws_flush_loop bits s)) = wake s
    \<and> overflow (snd (ws_flush_loop bits s)) = overflow s
    \<and> (\<forall>i. tp_is_armed (parkers (snd (ws_flush_loop bits s)) ! i)
          = (tp_is_armed (parkers s ! i) \<and> \<not> (i \<in> set walk \<and> i < length (parkers s))))"
  using assms
proof (induction bits s arbitrary: walk rule: ws_flush_loop.induct)
  case (1 bits s)
  show ?case
  proof (cases "bits = 0")
    case True
    then show ?thesis using "1.prems" by (auto simp: ws_flush_loop.simps)
  next
    case False
    let ?b = "trailing_zeros bits"
    let ?walk = "filter (bit (bits AND (bits - 1))) [0..<64]"
    have b64: "?b < 64" using trailing_zeros_bit [OF False] by simp
    then have b: "unat (of_nat ?b :: u32) = ?b" by (rule unat_u32_small)
    have walk: "walk = ?b # ?walk"
      using filter_bits_clear_hd [OF False] "1.prems" by (simp add: clear_lowest [OF False])
    have "distinct walk" using "1.prems" by auto
    then have fresh: "?b \<notin> set ?walk" using walk by simp
    obtain d us s1 where wp: "wake_parker (of_nat ?b) s = (d, us, s1)" by (metis prod.exhaust)
    have us: "us = (if tp_is_armed (parkers s ! ?b) then [unpark_of s ?b] else [])"
      and s1: "parkers s1 = (parkers s)[?b := (parkers s ! ?b)\<lparr>handle := None\<rparr>]"
        "wake s1 = wake s" "overflow s1 = overflow s"
      using wp b by (cases "parkers s ! ?b"; auto simp: wake_parker_def tp_wake_def tp_is_armed_def
          unpark_of_def list_update_same split: option.splits)+
    have IH: "fst (ws_flush_loop (bits AND (bits - 1)) s1) = map (unpark_of s1) (armed_slots (parkers s1) ?walk)
      \<and> wake (snd (ws_flush_loop (bits AND (bits - 1)) s1)) = wake s1
      \<and> overflow (snd (ws_flush_loop (bits AND (bits - 1)) s1)) = overflow s1
      \<and> (\<forall>i. tp_is_armed (parkers (snd (ws_flush_loop (bits AND (bits - 1)) s1)) ! i)
          = (tp_is_armed (parkers s1 ! i) \<and> \<not> (i \<in> set ?walk \<and> i < length (parkers s1))))"
      using "1.IH" [OF False wp [symmetric] refl refl] by simp
    have run: "ws_flush_loop bits s = (us @ fst (ws_flush_loop (bits AND (bits - 1)) s1),
        snd (ws_flush_loop (bits AND (bits - 1)) s1))"
      by (subst ws_flush_loop.simps) (simp add: False wp case_prod_beta)
    have armed: "armed_slots (parkers s1) ?walk = armed_slots (parkers s) ?walk"
      unfolding s1 by (rule armed_slots_update [OF fresh])
    have unparks: "map (unpark_of s1) (armed_slots (parkers s) ?walk)
        = map (unpark_of s) (armed_slots (parkers s) ?walk)"
      by (rule unpark_of_update [OF s1(1)]) (use fresh set_armed_slots [of "parkers s" ?walk] in blast)
    have table: "tp_is_armed (parkers s1 ! i) =
        (tp_is_armed (parkers s ! i) \<and> \<not> (i = ?b \<and> i < length (parkers s)))" for i
      by (cases "i = ?b"; cases "i < length (parkers s)")
        (auto simp: s1 tp_is_armed_def list_update_beyond)
    have "length (parkers s1) = length (parkers s)" by (simp add: s1)
    then show ?thesis
      unfolding run walk using IH us armed unparks table s1 by auto
  qed
qed

section \<open>Arming\<close>

definition ws_arm_handle :: "thread_id \<Rightarrow> park_slot \<Rightarrow> wake_set \<Rightarrow> wake_set" where
  "ws_arm_handle current slot s =
     (case park_slot_index slot of
        Some i \<Rightarrow> s\<lparr>parkers := (parkers s)[i := tp_arm current (parkers s ! i)]\<rparr>
      | None \<Rightarrow> s)"

definition ws_is_armed :: "park_slot \<Rightarrow> wake_set \<Rightarrow> bool" where
  "ws_is_armed slot s =
     (case park_slot_index slot of Some i \<Rightarrow> tp_is_armed (parkers s ! i) | None \<Rightarrow> False)"

definition ws_arm :: "thread_id \<Rightarrow> park_slot \<Rightarrow> wake_set \<Rightarrow> wake_set" where
  "ws_arm current slot s =
     (if \<not> is_leased slot then s\<lparr>overflow := overflow_register current (overflow s)\<rparr>
      else let s1 = ws_arm_handle current slot s
           in s1\<lparr>wake := wake s1 OR park_slot_mask slot\<rparr>)"

definition ws_disarm :: "park_slot \<Rightarrow> wake_set \<Rightarrow> wake_set" where
  "ws_disarm slot s = s\<lparr>wake := wake s AND NOT (park_slot_mask slot)\<rparr>"

definition ws_others_parked :: "park_slot \<Rightarrow> wake_set \<Rightarrow> nat" where
  "ws_others_parked slot s = count_ones (wake s AND NOT (park_slot_mask slot))"

text \<open>
  A flush leaves nobody parked: every slotless waiter and every waiter whose bit is
  up and whose handle is there is unparked, once, the lowest slot first; no bit,
  registration or advertised handle is left behind.
\<close>

theorem flush_wakes_everyone:
  assumes "length (parkers s) = PARK_SLOTS"
  shows "fst (ws_flush s) = overflow s @ map (unpark_of s) (armed_slots (parkers s) (filter (bit (wake s)) [0..<64]))
    \<and> wake (snd (ws_flush s)) = 0 \<and> overflow (snd (ws_flush s)) = []
    \<and> (\<forall>i. tp_is_armed (parkers (snd (ws_flush s)) ! i)
          = (tp_is_armed (parkers s ! i) \<and> \<not> bit (wake s) i))"
proof -
  define s0 where "s0 = s\<lparr>overflow := [], wake := 0\<rparr>"
  have run: "ws_flush s = (overflow s @ fst (ws_flush_loop (wake s) s0), snd (ws_flush_loop (wake s) s0))"
    by (simp add: ws_flush_def overflow_wake_all_def s0_def case_prod_beta)
  have [simp]: "wake s0 = 0" "parkers s0 = parkers s" "overflow s0 = []" "unpark_of s0 = unpark_of s"
    by (simp_all add: s0_def unpark_of_def fun_eq_iff)
  have "bit (wake s) i \<longleftrightarrow> bit (wake s) i \<and> i < 64" for i
    by (auto dest: bit_imp_le_length)
  then show ?thesis
    using ws_flush_loop_spec [OF refl, of "wake s" s0] assms by (auto simp: run PARK_SLOTS_def)
qed

theorem flush_wakes_everyone_witness:
  "\<exists>s. length (parkers s) = PARK_SLOTS
    \<and> fst (ws_flush (ws_arm 7 (Leased 2) (ws_arm 5 Shared s))) = [5, 7]"
proof -
  let ?s = "ws_arm 7 (Leased 2) (ws_arm 5 Shared wake_set_new)"
  have parkers: "parkers ?s = (replicate 64 tp_new)[2 := \<lparr>handle = Some 7\<rparr>]"
    and wake: "wake ?s = 4" and ov: "overflow ?s = [5]"
    by (simp_all add: ws_arm_def wake_set_new_def ws_arm_handle_def park_slot_index_def tp_arm_def
        park_slot_mask_def PARK_SLOTS_def tp_new_def overflow_register_def overflow_new_def)
  have "filter (bit (4 :: u64)) [0..<64] = [2]"
    by (simp add: upt_conv_Cons bit_numeral_rec)
  then have "fst (ws_flush ?s) = [5, 7]"
    using flush_wakes_everyone [of ?s]
    by (simp add: parkers wake ov PARK_SLOTS_def tp_is_armed_def unpark_of_def)
  moreover have "length (parkers wake_set_new) = PARK_SLOTS" by (simp add: wake_set_new_def)
  ultimately show ?thesis by blast
qed

section \<open>No waiter starves\<close>

text \<open>How many slots the round-robin walk from cursor \<open>c\<close> passes before it comes to \<open>i\<close>.\<close>

definition turns_until :: "nat \<Rightarrow> nat \<Rightarrow> nat" where
  "turns_until c i = length (takeWhile (\<lambda>j. j \<noteq> i) (cyc c))"

lemma turns_until_lt:
  assumes "i < 64"
  shows "turns_until c i < 64"
proof -
  have "dropWhile (\<lambda>j. j \<noteq> i) (cyc c) \<noteq> []"
    using assms by (simp add: dropWhile_eq_Nil_conv)
  moreover have "length (takeWhile (\<lambda>j. j \<noteq> i) (cyc c)) + length (dropWhile (\<lambda>j. j \<noteq> i) (cyc c))
      = length (cyc c)"
    by (metis length_append takeWhile_dropWhile_id)
  moreover have "length (cyc c) = 64" by (simp add: cyc_def)
  ultimately show ?thesis unfolding turns_until_def by (metis length_greater_0_conv less_add_same_cancel1)
qed

lemma turns_until_mod: "turns_until (c mod 64) i = turns_until c i"
  by (simp add: turns_until_def cyc_def mod_add_right_eq)

lemma turns_until_decreases:
  assumes "filter Q (cyc c) = xs @ b # ys" and "i \<in> set ys"
  shows "turns_until (Suc b) i < turns_until c i"
proof -
  have "b \<in> set (filter Q (cyc c))" by (simp add: assms(1))
  then have "b \<in> set (cyc c)" and Q: "Q b" by (auto simp del: set_cyc)
  then obtain us vs where us: "cyc c = us @ b # vs" by (meson split_list)
  have "distinct (us @ b # vs)" unfolding us [symmetric] by simp
  then have "b \<notin> set (filter Q us)" "b \<notin> set (filter Q vs)" by auto
  moreover have "filter Q us @ b # filter Q vs = xs @ b # ys"
    using assms(1) Q by (simp add: us)
  ultimately have "filter Q vs = ys" using append_Cons_eq_iff by metis
  then have split: "cyc c = us @ b # vs" "ys = filter Q vs" using us by simp_all
  have i: "i \<in> set vs" using assms(2) split(2) by auto
  then have fresh: "i \<notin> set us" "i \<noteq> b" using distinct_cyc [of c] by (auto simp: split(1))
  have "turns_until c i = length us + Suc (length (takeWhile (\<lambda>j. j \<noteq> i) vs))"
    using fresh by (simp add: turns_until_def split(1) takeWhile_append)
  moreover have "turns_until (Suc b) i = length (takeWhile (\<lambda>j. j \<noteq> i) vs)"
    using i by (simp add: turns_until_def cyc_split [OF split(1)] takeWhile_append1)
  ultimately show ?thesis by simp
qed

definition waits_at :: "nat \<Rightarrow> thread_id \<Rightarrow> wake_set \<Rightarrow> bool" where
  "waits_at i t s \<longleftrightarrow> i < 64 \<and> bit (wake s) i \<and> handle (parkers s ! i) = Some t"

lemma wake_one_progress:
  assumes "waits_at i t s" and "wake_s = ws_wake_one s"
  shows "t \<in> set (fst wake_s) \<or>
    (waits_at i t (snd wake_s)
      \<and> turns_until (unat (cursor (snd wake_s))) i < turns_until (unat (cursor s)) i)"
proof -
  let ?walk = "advertised (unat (cursor_shift (cursor s))) (wake s)"
  define target where "target = reachable_slots s ?walk"
  have i: "i < 64" "i \<in> set ?walk" "tp_is_armed (parkers s ! i)"
    using assms(1) by (auto simp: waits_at_def bits_of_def tp_is_armed_def)
  have "i \<in> set target"
    using i unfolding target_def reachable_slots_def
    by (metis (mono_tags, lifting) UnE set_append set_takeWhileD takeWhile_dropWhile_id)
  then obtain b rest where target: "target = b # rest" by (cases target) auto
  note spec = ws_wake_one_spec [OF target_def refl, unfolded target]
  show ?thesis
  proof (cases "i = b")
    case True
    then have "unpark_of s b = t" using assms(1) by (simp add: waits_at_def unpark_of_def)
    then show ?thesis using spec assms(2) by simp
  next
    case False
    then have rest: "i \<in> set rest" using \<open>i \<in> set target\<close> target by simp
    then have "waits_at i t (snd wake_s)"
      using spec assms False by (auto simp: waits_at_def bits_of_def set_eq_iff)
    moreover have "turns_until (unat (cursor (snd wake_s))) i < turns_until (unat (cursor s)) i"
    proof -
      have "?walk = takeWhile (\<lambda>i. \<not> tp_is_armed (parkers s ! i)) ?walk @ b # rest"
        using target unfolding target_def reachable_slots_def by (metis takeWhile_dropWhile_id)
      then have "turns_until (Suc b) i < turns_until (unat (cursor_shift (cursor s))) i"
        unfolding advertised_def by (rule turns_until_decreases [OF _ rest])
      moreover have "b < 64"
        using target reachable_slots_hd [of s ?walk b rest] unfolding target_def
        by (auto dest: bits_of_bound)
      then have "unat (cursor_shift (cursor (snd wake_s))) = Suc b mod 64"
        using spec assms(2) by (simp add: unat_cursor_shift_next)
      ultimately show ?thesis by (metis turns_until_mod unat_cursor_shift)
    qed
    ultimately show ?thesis by blast
  qed
qed

datatype ws_op = Op_Arm thread_id park_slot | Op_Disarm park_slot | Op_Wake_One

fun ws_apply :: "ws_op \<Rightarrow> wake_set \<Rightarrow> thread_id list \<times> wake_set" where
  "ws_apply (Op_Arm t slot) s = ([], ws_arm t slot s)"
| "ws_apply (Op_Disarm slot) s = ([], ws_disarm slot s)"
| "ws_apply Op_Wake_One s = ws_wake_one s"

fun op_slot :: "ws_op \<Rightarrow> nat option" where
  "op_slot (Op_Arm _ slot) = park_slot_index slot"
| "op_slot (Op_Disarm slot) = park_slot_index slot"
| "op_slot Op_Wake_One = None"

fun ws_unparked :: "ws_op list \<Rightarrow> wake_set \<Rightarrow> thread_id list" where
  "ws_unparked [] s = []"
| "ws_unparked (op # ops) s = fst (ws_apply op s) @ ws_unparked ops (snd (ws_apply op s))"

lemma other_ops_keep_waiter:
  assumes "waits_at i t s" and "op_slot op \<noteq> Some i" and "op \<noteq> Op_Wake_One"
  shows "waits_at i t (snd (ws_apply op s)) \<and> cursor (snd (ws_apply op s)) = cursor s"
  using assms
  by (cases op; cases "case op of Op_Arm _ slot \<Rightarrow> slot | Op_Disarm slot \<Rightarrow> slot | _ \<Rightarrow> Shared")
    (auto simp: waits_at_def ws_arm_def ws_disarm_def ws_arm_handle_def park_slot_index_def
      park_slot_mask_def bit_simps)

lemma no_starvation_aux:
  assumes "waits_at i t s" and "\<forall>op \<in> set ops. op_slot op \<noteq> Some i"
    and "turns_until (unat (cursor s)) i < length (filter (\<lambda>op. op = Op_Wake_One) ops)"
  shows "t \<in> set (ws_unparked ops s)"
  using assms
proof (induction ops arbitrary: s)
  case Nil
  then show ?case by simp
next
  case (Cons op ops)
  show ?case
  proof (cases "op = Op_Wake_One")
    case True
    then show ?thesis
      using Cons wake_one_progress [OF Cons.prems(1) refl] by (force simp: less_Suc_eq)
  next
    case False
    then show ?thesis
      using Cons other_ops_keep_waiter [OF Cons.prems(1) _ False] by simp
  qed
qed

text \<open>
  C28. No waiter is starved: while other waiters arm, re-arm and withdraw as they like,
  a waiter that is parked and advertised is unparked after at most 64 wakes. This is
  the deadlock the round-robin cursor exists to prevent.
\<close>

theorem no_waiter_starves:
  assumes "bit (wake s) i" and "handle (parkers s ! i) = Some t"
    and "\<forall>op \<in> set ops. op_slot op \<noteq> Some i"
    and "64 \<le> length (filter (\<lambda>op. op = Op_Wake_One) ops)"
  shows "t \<in> set (ws_unparked ops s)"
proof -
  have "i < 64" using assms(1) by (auto dest: bit_imp_le_length)
  then show ?thesis
    using assms turns_until_lt [of i "unat (cursor s)"]
    by (intro no_starvation_aux [of i]) (auto simp: waits_at_def)
qed

theorem no_waiter_starves_witness:
  "9 \<in> set (ws_unparked (concat (replicate 64 [Op_Arm 4 (Leased 2), Op_Wake_One]))
     (ws_arm 9 (Leased 3) wake_set_new))"
  by (rule no_waiter_starves [where i = 3])
    (simp_all add: ws_arm_def wake_set_new_def ws_arm_handle_def park_slot_index_def tp_arm_def
      park_slot_mask_def PARK_SLOTS_def bit_simps filter_concat length_concat)

end
