(* ===== verification/Mpsc.thy ===== *)
theory Mpsc
  imports Slot_Sequence Wake_Set Backoff
begin

text \<open>
  \<open>src/mpsc\<close>: the ring with many producers and one consumer. A producer claims a
  position by advancing the shared tail with a compare-and-exchange, fills the slot
  and publishes it through the slot's sequence word; the consumer walks the words from
  the head on, and skips positions whose reservation was abandoned. A loop over the
  slots is total because every turn turns one odd word, a value or a tombstone, into
  an even one. \<open>m_unparked\<close> and \<open>m_dropped\<close> log the threads unparked and the
  values destroyed.
\<close>

section \<open>The ring and its producers\<close>

record 'a mpsc_ring =
  m_buf :: "'a seq_slot list"
  m_capacity :: capacity
  m_cursors :: cursors
  m_producer_count :: endpoint_count
  m_closed :: close_state
  m_consumer_closed :: close_state
  m_producer_park :: wake_set
  m_producer_slots :: park_registry
  m_consumer_park :: sole_parker
  m_unparked :: "thread_id list"
  m_dropped :: "'a list"

record mpsc_producer =
  mp_cached_head :: usize
  mp_park_slot :: park_slot

definition mpsc_new :: "capacity \<Rightarrow> 'a mpsc_ring exec" where
  "mpsc_new c =
     seq_exec (aligned_buf_new_with (capacity_get c) slot_free_at) (\<lambda>buf.
       Inr \<lparr>m_buf = buf, m_capacity = c, m_cursors = cursors_new,
            m_producer_count = endpoint_count_new, m_closed = close_state_new,
            m_consumer_closed = close_state_new, m_producer_park = wake_set_new,
            m_producer_slots = registry_new, m_consumer_park = sp_new,
            m_unparked = [], m_dropped = []\<rparr>)"

definition mpsc_len :: "'a mpsc_ring \<Rightarrow> usize" where
  "mpsc_len r = cursors_len (m_cursors r)"

definition mpsc_is_empty :: "'a mpsc_ring \<Rightarrow> bool" where
  "mpsc_is_empty r \<longleftrightarrow> cursors_is_empty (m_cursors r)"

definition mpsc_is_full :: "'a mpsc_ring \<Rightarrow> bool" where
  "mpsc_is_full r \<longleftrightarrow> cursors_is_full (m_cursors r) (capacity_get (m_capacity r))"

definition mpsc_wake_consumer :: "'a mpsc_ring \<Rightarrow> 'a mpsc_ring" where
  "mpsc_wake_consumer r =
     (case sp_wake (m_consumer_park r) of
        (us, p) \<Rightarrow> r\<lparr>m_consumer_park := p, m_unparked := m_unparked r @ us\<rparr>)"

definition mpsc_wake_producer :: "'a mpsc_ring \<Rightarrow> 'a mpsc_ring" where
  "mpsc_wake_producer r =
     (case ws_wake_one_published (m_producer_park r) of
        (us, p) \<Rightarrow> r\<lparr>m_producer_park := p, m_unparked := m_unparked r @ us\<rparr>)"

definition mpsc_wake_producers :: "usize \<Rightarrow> 'a mpsc_ring \<Rightarrow> 'a mpsc_ring" where
  "mpsc_wake_producers n r =
     (case ws_wake_n n (m_producer_park r) of
        (us, p) \<Rightarrow> r\<lparr>m_producer_park := p, m_unparked := m_unparked r @ us\<rparr>)"

definition mpsc_flush_producers :: "'a mpsc_ring \<Rightarrow> 'a mpsc_ring" where
  "mpsc_flush_producers r =
     (case ws_flush (m_producer_park r) of
        (us, p) \<Rightarrow> r\<lparr>m_producer_park := p, m_unparked := m_unparked r @ us\<rparr>)"

definition mpsc_close :: "'a mpsc_ring \<Rightarrow> 'a mpsc_ring" where
  "mpsc_close r = mpsc_wake_consumer (r\<lparr>m_closed := close_side (m_closed r)\<rparr>)"

definition mpsc_slot :: "'a mpsc_ring \<Rightarrow> usize \<Rightarrow> nat" where
  "mpsc_slot r pos = unat (index_of (m_capacity r) pos)"

text \<open>The accesses to one slot: its word, and the storage behind it.\<close>

definition mpsc_load_slot :: "'a mpsc_ring \<Rightarrow> nat \<Rightarrow> 'a seq_slot exec" where
  "mpsc_load_slot r i = (if i < length (m_buf r) then Inr (m_buf r ! i) else Inl Index_Out_Of_Bounds)"

definition mpsc_store_word ::
    "nat \<Rightarrow> (slot_sequence \<Rightarrow> slot_sequence) \<Rightarrow> 'a mpsc_ring \<Rightarrow> 'a mpsc_ring exec" where
  "mpsc_store_word i f r =
     seq_exec (mpsc_load_slot r i) (\<lambda>s.
       Inr (r\<lparr>m_buf := (m_buf r)[i := s\<lparr>sequence := f (sequence s)\<rparr>]\<rparr>))"

definition mpsc_cells :: "'a mpsc_ring \<Rightarrow> 'a maybe_uninit list" where
  "mpsc_cells r = map data (m_buf r)"

definition mpsc_set_cells :: "'a maybe_uninit list \<Rightarrow> 'a mpsc_ring \<Rightarrow> 'a mpsc_ring" where
  "mpsc_set_cells cells r = r\<lparr>m_buf := map2 (\<lambda>s d. s\<lparr>data := d\<rparr>) (m_buf r) cells\<rparr>"

definition mpsc_write_data :: "nat \<Rightarrow> 'a \<Rightarrow> 'a mpsc_ring \<Rightarrow> 'a mpsc_ring exec" where
  "mpsc_write_data i v r =
     seq_exec (cell_write (mpsc_cells r) i v) (\<lambda>cells. Inr (mpsc_set_cells cells r))"

definition mpsc_take_data :: "nat \<Rightarrow> 'a mpsc_ring \<Rightarrow> ('a \<times> 'a mpsc_ring) exec" where
  "mpsc_take_data i r =
     seq_exec (cell_take (mpsc_cells r) i) (\<lambda>(v, cells). Inr (v, mpsc_set_cells cells r))"

text \<open>Splitting and cloning: each handle leases a park slot and starts with a stale head of 0.\<close>

definition mpsc_new_with :: "park_slot \<Rightarrow> mpsc_producer" where
  "mpsc_new_with slot = \<lparr>mp_cached_head = 0, mp_park_slot = slot\<rparr>"

definition mpsc_split :: "'a mpsc_ring \<Rightarrow> mpsc_producer \<times> 'a mpsc_ring" where
  "mpsc_split r =
     (case registry_lease (m_producer_slots r) of
        (slot, reg) \<Rightarrow> (mpsc_new_with slot, r\<lparr>m_producer_slots := reg\<rparr>))"

definition mpsc_split_borrowed :: "'a mpsc_ring \<Rightarrow> mpsc_producer \<times> 'a mpsc_ring" where
  "mpsc_split_borrowed r =
     (case registry_lease (m_producer_slots r) of
        (slot, reg) \<Rightarrow> (mpsc_new_with slot, r\<lparr>m_producer_slots := reg\<rparr>))"

definition mpsc_clone :: "'a mpsc_ring \<Rightarrow> mpsc_producer \<times> 'a mpsc_ring" where
  "mpsc_clone r =
     (let r1 = r\<lparr>m_producer_count := endpoint_register (m_producer_count r)\<rparr> in
      case registry_lease (m_producer_slots r1) of
        (slot, reg) \<Rightarrow>
          (\<lparr>mp_cached_head = 0, mp_park_slot = slot\<rparr>, r1\<lparr>m_producer_slots := reg\<rparr>))"

definition mpsc_new_producer :: "'a mpsc_ring \<Rightarrow> mpsc_producer \<times> 'a mpsc_ring" where
  "mpsc_new_producer r =
     (let r1 = r\<lparr>m_producer_count := endpoint_register (m_producer_count r)\<rparr> in
      case registry_lease (m_producer_slots r1) of
        (slot, reg) \<Rightarrow> (mpsc_new_with slot, r1\<lparr>m_producer_slots := reg\<rparr>))"

section \<open>Claiming a position\<close>

text \<open>
  \<open>claim_slot\<close> is a loop over several shared accesses: in a turn of \<open>Race f g weak\<close>, \<open>f\<close>
  falls between the load of the tail and the load of the head, and \<open>g\<close> between that and
  the exchange.
\<close>

definition mpsc_check_room ::
    "usize \<Rightarrow> mpsc_producer \<Rightarrow> 'a mpsc_ring \<Rightarrow> bool \<times> mpsc_producer" where
  "mpsc_check_room current_tail p r =
     (if current_tail - mp_cached_head p \<ge> capacity_get (m_capacity r) then
        let h = head (m_cursors r)
        in (\<not> current_tail - h \<ge> capacity_get (m_capacity r), p\<lparr>mp_cached_head := h\<rparr>)
      else (True, p))"

definition mpsc_exchange_tail ::
    "usize \<Rightarrow> 'a mpsc_ring \<Rightarrow> (usize + usize) \<times> 'a mpsc_ring" where
  "mpsc_exchange_tail current r =
     (if tail (m_cursors r) = current
      then (Inr current, r\<lparr>m_cursors := (m_cursors r)\<lparr>tail := current + 1\<rparr>\<rparr>)
      else (Inl (tail (m_cursors r)), r))"

function mpsc_claim_loop ::
    "'a mpsc_ring race list \<Rightarrow> usize \<Rightarrow> mpsc_producer \<Rightarrow> 'a mpsc_ring
      \<Rightarrow> usize option \<times> mpsc_producer \<times> 'a mpsc_ring" where
  "mpsc_claim_loop [] current_tail p r =
     (case mpsc_check_room current_tail p r of
        (False, p1) \<Rightarrow> (None, p1, r)
      | (True, p1) \<Rightarrow>
          (case mpsc_exchange_tail current_tail r of
             (Inr pos, r1) \<Rightarrow> (Some pos, p1, r1)
           | (Inl observed, r1) \<Rightarrow> mpsc_claim_loop [] observed p1 r1))"
| "mpsc_claim_loop (Race f g weak # races) current_tail p r =
     (let r1 = f r in
      case mpsc_check_room current_tail p r1 of
        (False, p1) \<Rightarrow> (None, p1, r1)
      | (True, p1) \<Rightarrow>
          (let r2 = g r1 in
           if weak then mpsc_claim_loop races (tail (m_cursors r2)) p1 r2
           else
             case mpsc_exchange_tail current_tail r2 of
               (Inr pos, r3) \<Rightarrow> (Some pos, p1, r3)
             | (Inl observed, r3) \<Rightarrow> mpsc_claim_loop races observed p1 r3))"
  by pat_completeness auto
termination
  by (relation "measures [\<lambda>(races, _). length races,
        \<lambda>(_, t, _, r). if tail (m_cursors r) = t then 0 else 1]")
    (auto simp: mpsc_exchange_tail_def split: if_splits)

declare mpsc_claim_loop.simps [simp del]

definition mpsc_claim_slot ::
    "'a mpsc_ring race list \<Rightarrow> mpsc_producer \<Rightarrow> 'a mpsc_ring
      \<Rightarrow> usize option \<times> mpsc_producer \<times> 'a mpsc_ring" where
  "mpsc_claim_slot races p r = mpsc_claim_loop races (tail (m_cursors r)) p r"

section \<open>The producer's operations\<close>

definition mpsc_publish :: "nat \<Rightarrow> usize \<Rightarrow> 'a mpsc_ring \<Rightarrow> 'a mpsc_ring exec" where
  "mpsc_publish i pos r = mpsc_store_word i (\<lambda>s. seq_publish s pos) r"

definition mpsc_push ::
    "'a mpsc_ring race list \<Rightarrow> 'a \<Rightarrow> mpsc_producer \<Rightarrow> 'a mpsc_ring
      \<Rightarrow> ('a push_result \<times> mpsc_producer \<times> 'a mpsc_ring) exec" where
  "mpsc_push races v p r =
     (case mpsc_claim_slot races p r of
        (None, p1, r1) \<Rightarrow> Inr (Push_Err v, p1, r1)
      | (Some pos, p1, r1) \<Rightarrow>
          seq_exec (mpsc_write_data (mpsc_slot r1 pos) v r1) (\<lambda>r2.
          seq_exec (mpsc_publish (mpsc_slot r1 pos) pos r2) (\<lambda>r3.
          Inr (Push_Ok, p1, mpsc_wake_consumer r3))))"

text \<open>A reservation: the claimed slot, then the slot with a value to commit.\<close>

record mpsc_slot_writer =
  mw_slot :: nat
  mw_pos :: usize

record mpsc_written_slot =
  mv_value :: uncommitted_slot
  mv_slot :: nat
  mv_pos :: usize

definition mpsc_reserve ::
    "'a mpsc_ring race list \<Rightarrow> mpsc_producer \<Rightarrow> 'a mpsc_ring
      \<Rightarrow> mpsc_slot_writer option \<times> mpsc_producer \<times> 'a mpsc_ring" where
  "mpsc_reserve races p r =
     (case mpsc_claim_slot races p r of
        (None, p1, r1) \<Rightarrow> (None, p1, r1)
      | (Some pos, p1, r1) \<Rightarrow> (Some \<lparr>mw_slot = mpsc_slot r1 pos, mw_pos = pos\<rparr>, p1, r1))"

definition mpsc_slot_mut_write ::
    "mpsc_slot_writer \<Rightarrow> 'a \<Rightarrow> 'a mpsc_ring \<Rightarrow> 'a mpsc_ring exec" where
  "mpsc_slot_mut_write w v r = mpsc_write_data (mw_slot w) v r"

definition mpsc_write ::
    "mpsc_slot_writer \<Rightarrow> 'a \<Rightarrow> 'a mpsc_ring \<Rightarrow> (mpsc_written_slot \<times> 'a mpsc_ring) exec" where
  "mpsc_write w v r =
     seq_exec (mpsc_write_data (mw_slot w) v r) (\<lambda>r1.
       Inr (\<lparr>mv_value = uncommitted_armed (mw_slot w), mv_slot = mw_slot w, mv_pos = mw_pos w\<rparr>, r1))"

definition mpsc_commit_unchecked :: "mpsc_slot_writer \<Rightarrow> 'a mpsc_ring \<Rightarrow> 'a mpsc_ring exec" where
  "mpsc_commit_unchecked w r =
     seq_exec (mpsc_publish (mw_slot w) (mw_pos w) r) (\<lambda>r1. Inr (mpsc_wake_consumer r1))"

text \<open>\<open>ReservationRelease\<close>: the tombstone of a position that was given up.\<close>

definition reservation_release_drop :: "nat \<Rightarrow> 'a mpsc_ring \<Rightarrow> 'a mpsc_ring exec" where
  "reservation_release_drop i r =
     seq_exec (mpsc_store_word i seq_tombstone r) (\<lambda>r1. Inr (mpsc_wake_consumer r1))"

definition mpsc_slot_writer_drop :: "mpsc_slot_writer \<Rightarrow> 'a mpsc_ring \<Rightarrow> 'a mpsc_ring exec" where
  "mpsc_slot_writer_drop w r =
     seq_exec (mpsc_store_word (mw_slot w) seq_tombstone r) (\<lambda>r1. Inr (mpsc_wake_consumer r1))"

text \<open>
  The drop of a written slot destroys the value under the guard that tombstones the
  position, so the position is handed back when the destructor panics too; the drop
  of the field after it finds a disarmed guard. \<open>gone\<close> is the destroyed value, or none.
\<close>

definition mpsc_written_slot_drop ::
    "('a \<Rightarrow> completion) \<Rightarrow> mpsc_written_slot \<Rightarrow> 'a mpsc_ring \<Rightarrow> (completion \<times> 'a mpsc_ring) exec" where
  "mpsc_written_slot_drop dtor w r =
     (if \<not> uncommitted_is_armed (mv_value w) then
        seq_exec (uncommitted_drop (mv_value w) (mpsc_cells r)) (\<lambda>(gone, cells).
          Inr (Returned, mpsc_set_cells cells (r\<lparr>m_dropped := m_dropped r @ gone\<rparr>)))
      else
        seq_exec (drop_if_uncommitted (mv_value w) (mpsc_cells r)) (\<lambda>(_, gone, value, cells).
        seq_exec (reservation_release_drop (mv_slot w)
          (mpsc_set_cells cells (r\<lparr>m_dropped := m_dropped r @ gone\<rparr>))) (\<lambda>r1.
        seq_exec (uncommitted_drop value (mpsc_cells r1)) (\<lambda>(gone1, cells1).
        Inr (if Panicked \<in> dtor ` set gone then Panicked else Returned,
             mpsc_set_cells cells1 (r1\<lparr>m_dropped := m_dropped r1 @ gone1\<rparr>))))))"

definition mpsc_commit ::
    "('a \<Rightarrow> completion) \<Rightarrow> mpsc_written_slot \<Rightarrow> 'a mpsc_ring \<Rightarrow> (completion \<times> 'a mpsc_ring) exec" where
  "mpsc_commit dtor w r =
     (let w1 = w\<lparr>mv_value := uncommitted_commit (mv_value w)\<rparr> in
      seq_exec (mpsc_publish (mv_slot w) (mv_pos w) r) (\<lambda>r1.
      mpsc_written_slot_drop dtor w1 (mpsc_wake_consumer r1)))"

definition mpsc_producer_drop :: "mpsc_producer \<Rightarrow> 'a mpsc_ring \<Rightarrow> 'a mpsc_ring" where
  "mpsc_producer_drop p r =
     (let r1 = r\<lparr>m_producer_slots := registry_release (mp_park_slot p) (m_producer_slots r)\<rparr> in
      case endpoint_release (m_producer_count r1) of
        (was_last, count) \<Rightarrow>
          (let r2 = r1\<lparr>m_producer_count := count\<rparr> in
           if was_last then mpsc_wake_consumer (r2\<lparr>m_closed := close_side (m_closed r2)\<rparr>) else r2))"

section \<open>The consumer\<close>

text \<open>
  The words a turn of the consumer's loops may meet at the head are odd; a release
  makes them even.
\<close>

definition odd_words :: "'a seq_slot list \<Rightarrow> nat" where
  "odd_words buf = length (filter (\<lambda>s. odd (word (sequence s))) buf)"

lemma odd_words_update:
  assumes "i < length buf" and "odd (word (sequence (buf ! i)))" and "\<not> odd (word (sequence s))"
  shows "odd_words (buf[i := s]) < odd_words buf"
proof -
  have split: "buf = take i buf @ buf ! i # drop (Suc i) buf"
    using assms(1) by (rule id_take_nth_drop)
  have "odd_words (take i buf @ buf ! i # drop (Suc i) buf)
      = odd_words (take i buf) + 1 + odd_words (drop (Suc i) buf)"
    using assms(2) by (simp add: odd_words_def)
  then have "odd_words buf = odd_words (take i buf) + 1 + odd_words (drop (Suc i) buf)"
    using split by simp
  moreover have "odd_words (buf[i := s]) = odd_words (take i buf) + odd_words (drop (Suc i) buf)"
    using assms(1,3) by (simp add: upd_conv_take_nth_drop odd_words_def)
  ultimately show ?thesis by simp
qed

lemma odd_TOMBSTONE [simp]: "odd TOMBSTONE"
  by (simp add: TOMBSTONE_def)

lemma not_odd_released: "\<not> odd (word (seq_release s h c))"
  by (simp add: seq_release_def)

lemma classified_odd: "slot_classify s h \<noteq> NotReady \<Longrightarrow> odd (word (sequence s))"
  by (auto simp: slot_classify_def seq_classify_def split: if_splits)

definition mpsc_release_slot :: "usize \<Rightarrow> 'a mpsc_ring \<Rightarrow> 'a mpsc_ring exec" where
  "mpsc_release_slot h r =
     mpsc_store_word (mpsc_slot r h) (\<lambda>s. seq_release s h (m_capacity r)) r"

definition mpsc_release_tombstone :: "usize \<Rightarrow> 'a mpsc_ring \<Rightarrow> 'a mpsc_ring exec" where
  "mpsc_release_tombstone h r =
     seq_exec (mpsc_release_slot h r) (\<lambda>r1.
       Inr (mpsc_wake_producer (r1\<lparr>m_cursors := publish_head (m_cursors r1) (h + 1)\<rparr>)))"

lemma mpsc_wake_simps [simp]:
  "m_buf (mpsc_wake_consumer r) = m_buf r" "m_buf (mpsc_wake_producer r) = m_buf r"
  "m_buf (mpsc_wake_producers n r) = m_buf r" "m_buf (mpsc_flush_producers r) = m_buf r"
  "m_cursors (mpsc_wake_consumer r) = m_cursors r" "m_cursors (mpsc_wake_producer r) = m_cursors r"
  "m_cursors (mpsc_wake_producers n r) = m_cursors r" "m_cursors (mpsc_flush_producers r) = m_cursors r"
  "m_capacity (mpsc_wake_consumer r) = m_capacity r" "m_capacity (mpsc_wake_producer r) = m_capacity r"
  "m_capacity (mpsc_wake_producers n r) = m_capacity r" "m_capacity (mpsc_flush_producers r) = m_capacity r"
  "m_closed (mpsc_wake_consumer r) = m_closed r" "m_closed (mpsc_wake_producer r) = m_closed r"
  "m_closed (mpsc_wake_producers n r) = m_closed r" "m_closed (mpsc_flush_producers r) = m_closed r"
  "m_consumer_closed (mpsc_wake_consumer r) = m_consumer_closed r"
  "m_consumer_closed (mpsc_wake_producer r) = m_consumer_closed r"
  "m_consumer_closed (mpsc_wake_producers n r) = m_consumer_closed r"
  "m_consumer_closed (mpsc_flush_producers r) = m_consumer_closed r"
  "m_dropped (mpsc_wake_consumer r) = m_dropped r" "m_dropped (mpsc_wake_producer r) = m_dropped r"
  "m_dropped (mpsc_wake_producers n r) = m_dropped r" "m_dropped (mpsc_flush_producers r) = m_dropped r"
  "m_consumer_park (mpsc_wake_producer r) = m_consumer_park r"
  "m_consumer_park (mpsc_wake_producers n r) = m_consumer_park r"
  "m_consumer_park (mpsc_flush_producers r) = m_consumer_park r"
  by (simp_all add: mpsc_wake_consumer_def mpsc_wake_producer_def mpsc_wake_producers_def
      mpsc_flush_producers_def case_prod_beta)

lemma release_slot_measure:
  assumes "mpsc_load_slot r (mpsc_slot r h) = Inr s" and "slot_classify s h \<noteq> NotReady"
    and "mpsc_release_slot h r = Inr r1"
  shows "odd_words (m_buf r1) < odd_words (m_buf r)"
  using assms classified_odd [OF assms(2)]
  by (auto simp: mpsc_release_slot_def mpsc_store_word_def mpsc_load_slot_def not_odd_released
      intro!: odd_words_update split: if_splits)

lemma release_tombstone_measure:
  assumes "mpsc_load_slot r (mpsc_slot r h) = Inr s" and "slot_classify s h \<noteq> NotReady"
    and "mpsc_release_tombstone h r = Inr r1"
  shows "odd_words (m_buf r1) < odd_words (m_buf r)"
  using assms release_slot_measure by (auto simp: mpsc_release_tombstone_def seq_exec_eq_Inr)

function mpsc_ready_for_claim :: "'a mpsc_ring \<Rightarrow> (bool \<times> 'a mpsc_ring) exec" where
  "mpsc_ready_for_claim r =
     (let h = head (m_cursors r) in
      seq_exec (mpsc_load_slot r (mpsc_slot r h)) (\<lambda>s.
      case slot_classify s h of
        Ready \<Rightarrow> Inr (True, r)
      | Tombstoned \<Rightarrow> seq_exec (mpsc_release_tombstone h r) (\<lambda>r1. mpsc_ready_for_claim r1)
      | NotReady \<Rightarrow> Inr (False, r)))"
  by pat_completeness auto
termination
  by (relation "measure (\<lambda>r. odd_words (m_buf r))") (auto intro: release_tombstone_measure)

declare mpsc_ready_for_claim.simps [simp del]

function mpsc_pop :: "'a mpsc_ring \<Rightarrow> ('a option \<times> 'a mpsc_ring) exec" where
  "mpsc_pop r =
     (let h = head (m_cursors r) in
      seq_exec (mpsc_load_slot r (mpsc_slot r h)) (\<lambda>s.
      case slot_classify s h of
        Tombstoned \<Rightarrow> seq_exec (mpsc_release_tombstone h r) (\<lambda>r1. mpsc_pop r1)
      | NotReady \<Rightarrow> Inr (None, r)
      | Ready \<Rightarrow>
          seq_exec (mpsc_take_data (mpsc_slot r h) r) (\<lambda>(v, r1).
          seq_exec (mpsc_release_slot h r1) (\<lambda>r2.
          Inr (Some v,
               mpsc_wake_producer (r2\<lparr>m_cursors := publish_head (m_cursors r2) (h + 1)\<rparr>))))))"
  by pat_completeness auto
termination
  by (relation "measure (\<lambda>r. odd_words (m_buf r))") (auto intro: release_tombstone_measure)

declare mpsc_pop.simps [simp del]

text \<open>The zero-copy reader.\<close>

record mpsc_slot_reader =
  mr_slot :: nat
  mr_head :: usize

function mpsc_pop_ref :: "'a mpsc_ring \<Rightarrow> (mpsc_slot_reader option \<times> 'a mpsc_ring) exec" where
  "mpsc_pop_ref r =
     (let h = head (m_cursors r) in
      seq_exec (mpsc_load_slot r (mpsc_slot r h)) (\<lambda>s.
      case slot_classify s h of
        Tombstoned \<Rightarrow> seq_exec (mpsc_release_tombstone h r) (\<lambda>r1. mpsc_pop_ref r1)
      | NotReady \<Rightarrow> Inr (None, r)
      | Ready \<Rightarrow> Inr (Some \<lparr>mr_slot = mpsc_slot r h, mr_head = h\<rparr>, r)))"
  by pat_completeness auto
termination
  by (relation "measure (\<lambda>r. odd_words (m_buf r))") (auto intro: release_tombstone_measure)

declare mpsc_pop_ref.simps [simp del]

definition mpsc_reader_deref :: "mpsc_slot_reader \<Rightarrow> 'a mpsc_ring \<Rightarrow> 'a exec" where
  "mpsc_reader_deref rd r = cell_peek (mpsc_cells r) (mr_slot rd)"

definition slot_release_drop :: "nat \<Rightarrow> usize \<Rightarrow> 'a mpsc_ring \<Rightarrow> 'a mpsc_ring exec" where
  "slot_release_drop i h r =
     seq_exec (mpsc_store_word i (\<lambda>s. seq_release s h (m_capacity r)) r) (\<lambda>r1.
       Inr (mpsc_wake_producer (r1\<lparr>m_cursors := publish_head (m_cursors r1) (h + 1)\<rparr>)))"

definition mpsc_reader_drop ::
    "('a \<Rightarrow> completion) \<Rightarrow> mpsc_slot_reader \<Rightarrow> 'a mpsc_ring \<Rightarrow> (completion \<times> 'a mpsc_ring) exec" where
  "mpsc_reader_drop dtor rd r =
     seq_exec (mpsc_take_data (mr_slot rd) r) (\<lambda>(v, r1).
     seq_exec (slot_release_drop (mr_slot rd) (mr_head rd) (r1\<lparr>m_dropped := m_dropped r1 @ [v]\<rparr>)) (\<lambda>r2.
     Inr (dtor v, r2)))"

section \<open>Draining\<close>

text \<open>
  \<open>BatchRelease\<close> counts the positions released apart from the values delivered, and
  publishes when it is dropped, on the unwind path as on the normal one.
\<close>

record batch_release =
  br_head :: usize
  br_released :: usize
  br_delivered :: usize

definition batch_new :: "usize \<Rightarrow> batch_release" where
  "batch_new h = \<lparr>br_head = h, br_released = 0, br_delivered = 0\<rparr>"

definition batch_position :: "batch_release \<Rightarrow> usize" where
  "batch_position b = br_head b"

definition batch_delivered :: "batch_release \<Rightarrow> usize" where
  "batch_delivered b = br_delivered b"

definition batch_skip :: "batch_release \<Rightarrow> batch_release" where
  "batch_skip b = b\<lparr>br_head := br_head b + 1, br_released := br_released b + 1\<rparr>"

definition batch_take :: "batch_release \<Rightarrow> batch_release" where
  "batch_take b =
     b\<lparr>br_head := br_head b + 1, br_released := br_released b + 1, br_delivered := br_delivered b + 1\<rparr>"

definition batch_drop :: "batch_release \<Rightarrow> 'a mpsc_ring \<Rightarrow> 'a mpsc_ring" where
  "batch_drop b r =
     (if br_released b = 0 then r
      else mpsc_wake_producers (br_released b)
             (r\<lparr>m_cursors := publish_head (m_cursors r) (br_head b)\<rparr>))"

text \<open>The loop of \<open>drain\<close> and \<open>drain_up_to\<close>, against a callback that may panic.\<close>

lemma take_data_word:
  assumes "mpsc_take_data i r = Inr (v, r1)"
  shows "map sequence (m_buf r1) = map sequence (m_buf r)" and "m_capacity r1 = m_capacity r"
  using assms
  by (auto simp: mpsc_take_data_def seq_exec_eq_Inr cell_take_eq_Inr mpsc_set_cells_def mpsc_cells_def
      intro!: nth_equalityI)

lemma odd_words_sequence: "odd_words buf = length (filter (\<lambda>s. odd (word s)) (map sequence buf))"
  by (simp add: odd_words_def filter_map comp_def)

lemma take_release_measure:
  assumes "mpsc_load_slot r (mpsc_slot r h) = Inr s" and "slot_classify s h = Ready"
    and "mpsc_take_data (mpsc_slot r h) r = Inr (v, r1)" and "mpsc_release_slot h r1 = Inr r2"
  shows "odd_words (m_buf r2) < odd_words (m_buf r)"
proof -
  note same = take_data_word [OF assms(3)]
  have len: "length (m_buf r1) = length (m_buf r)" using same(1) by (metis length_map)
  have slot: "mpsc_slot r1 h = mpsc_slot r h" by (simp add: mpsc_slot_def same(2))
  have i: "mpsc_slot r h < length (m_buf r)" "s = m_buf r ! mpsc_slot r h"
    using assms(1) by (auto simp: mpsc_load_slot_def split: if_splits)
  have "sequence (m_buf r1 ! mpsc_slot r h) = sequence s"
    using same(1) i len by (metis nth_map)
  then have "slot_classify (m_buf r1 ! mpsc_slot r h) h \<noteq> NotReady"
    using assms(2) by (simp add: slot_classify_def)
  then have "odd_words (m_buf r2) < odd_words (m_buf r1)"
    using assms(4) i len slot
    by (intro release_slot_measure [of r1 h "m_buf r1 ! mpsc_slot r h"]) (simp_all add: mpsc_load_slot_def)
  then show ?thesis using same(1) by (simp add: odd_words_sequence)
qed

function mpsc_drain_loop ::
    "('st \<Rightarrow> 'a \<Rightarrow> 'st \<times> completion) \<Rightarrow> usize option \<Rightarrow> batch_release \<Rightarrow> 'st \<Rightarrow> 'a mpsc_ring
      \<Rightarrow> (completion \<times> batch_release \<times> 'st \<times> 'a mpsc_ring) exec" where
  "mpsc_drain_loop f limit b st r =
     (if \<not> below_limit (batch_delivered b) limit then Inr (Returned, b, st, r)
      else
        let h = batch_position b in
        seq_exec (mpsc_load_slot r (mpsc_slot r h)) (\<lambda>s.
        case slot_classify s h of
          Tombstoned \<Rightarrow>
            seq_exec (mpsc_release_slot h r) (\<lambda>r1. mpsc_drain_loop f limit (batch_skip b) st r1)
        | NotReady \<Rightarrow> Inr (Returned, b, st, r)
        | Ready \<Rightarrow>
            seq_exec (mpsc_take_data (mpsc_slot r h) r) (\<lambda>(v, r1).
            seq_exec (mpsc_release_slot h r1) (\<lambda>r2.
            case f st v of
              (st1, Panicked) \<Rightarrow> Inr (Panicked, batch_take b, st1, r2)
            | (st1, Returned) \<Rightarrow> mpsc_drain_loop f limit (batch_take b) st1 r2))))"
  by pat_completeness auto
termination
  by (relation "measure (\<lambda>(_, _, _, _, r). odd_words (m_buf r))")
    (auto intro: release_slot_measure take_release_measure)

declare mpsc_drain_loop.simps [simp del]

definition mpsc_drain_up_to ::
    "usize option \<Rightarrow> ('st \<Rightarrow> 'a \<Rightarrow> 'st \<times> completion) \<Rightarrow> 'st \<Rightarrow> 'a mpsc_ring
      \<Rightarrow> (completion \<times> usize \<times> 'st \<times> 'a mpsc_ring) exec" where
  "mpsc_drain_up_to limit f st r =
     seq_exec (mpsc_drain_loop f limit (batch_new (head (m_cursors r))) st r)
       (\<lambda>(fin, b, st1, r1). Inr (fin, batch_delivered b, st1, batch_drop b r1))"

definition mpsc_drain ::
    "('st \<Rightarrow> 'a \<Rightarrow> 'st \<times> completion) \<Rightarrow> 'st \<Rightarrow> 'a mpsc_ring
      \<Rightarrow> (completion \<times> usize \<times> 'st \<times> 'a mpsc_ring) exec" where
  "mpsc_drain f st r = mpsc_drain_up_to None f st r"

definition mpsc_is_closed :: "'a mpsc_ring \<Rightarrow> bool" where
  "mpsc_is_closed r \<longleftrightarrow> is_closed (m_closed r)"

section \<open>Dropping the consumer and the ring\<close>

lemma pop_measure:
  "mpsc_pop r = Inr (Some v, r') \<Longrightarrow> odd_words (m_buf r') < odd_words (m_buf r)"
proof (induction r rule: mpsc_pop.induct)
  case (1 r)
  let ?h = "head (m_cursors r)"
  obtain s where s: "mpsc_load_slot r (mpsc_slot r ?h) = Inr s"
    using "1.prems" by (subst (asm) mpsc_pop.simps) (auto simp: Let_def seq_exec_eq_Inr)
  show ?case
  proof (cases "slot_classify s ?h")
    case Ready
    then show ?thesis
      using "1.prems" s by (subst (asm) mpsc_pop.simps)
        (auto simp: Let_def seq_exec_eq_Inr intro: take_release_measure)
  next
    case Tombstoned
    then obtain r1 where r1: "mpsc_release_tombstone ?h r = Inr r1" "mpsc_pop r1 = Inr (Some v, r')"
      using "1.prems" s by (subst (asm) mpsc_pop.simps) (auto simp: Let_def seq_exec_eq_Inr)
    have "odd_words (m_buf r1) < odd_words (m_buf r)"
      using release_tombstone_measure [OF s _ r1(1)] Tombstoned by simp
    moreover have "odd_words (m_buf r') < odd_words (m_buf r1)"
      using "1.IH" [OF refl s Tombstoned r1(1)] r1(2) by simp
    ultimately show ?thesis by simp
  next
    case NotReady
    then show ?thesis
      using "1.prems" s by (subst (asm) mpsc_pop.simps) (simp add: Let_def)
  qed
qed

text \<open>\<open>while self.pop().is_some() {}\<close>: no guard here, a panicking destructor leaves the rest.\<close>

function mpsc_pop_and_drop_all ::
    "('a \<Rightarrow> completion) \<Rightarrow> 'a mpsc_ring \<Rightarrow> (completion \<times> 'a mpsc_ring) exec" where
  "mpsc_pop_and_drop_all dtor r =
     seq_exec (mpsc_pop r) (\<lambda>(popped, r1).
       case popped of
         None \<Rightarrow> Inr (Returned, r1)
       | Some v \<Rightarrow>
           (let r2 = r1\<lparr>m_dropped := m_dropped r1 @ [v]\<rparr> in
            case dtor v of
              Panicked \<Rightarrow> Inr (Panicked, r2)
            | Returned \<Rightarrow> mpsc_pop_and_drop_all dtor r2))"
  by pat_completeness auto
termination
  by (relation "measure (\<lambda>(_, r). odd_words (m_buf r))") (auto dest!: pop_measure)

declare mpsc_pop_and_drop_all.simps [simp del]

definition mpsc_consumer_drop ::
    "('a \<Rightarrow> completion) \<Rightarrow> 'a mpsc_ring \<Rightarrow> (completion \<times> 'a mpsc_ring) exec" where
  "mpsc_consumer_drop dtor r =
     mpsc_pop_and_drop_all dtor
       (mpsc_flush_producers (r\<lparr>m_consumer_closed := close_side (m_consumer_closed r)\<rparr>))"

fun mpsc_drop_positions ::
    "('a \<Rightarrow> completion) \<Rightarrow> usize list \<Rightarrow> 'a mpsc_ring \<Rightarrow> (completion \<times> 'a mpsc_ring) exec" where
  "mpsc_drop_positions dtor [] r = Inr (Returned, r)"
| "mpsc_drop_positions dtor (pos # ps) r =
     seq_exec (mpsc_load_slot r (mpsc_slot r pos)) (\<lambda>s.
     seq_exec (drop_value_at s pos) (\<lambda>(gone, s1).
       let r1 = r\<lparr>m_buf := (m_buf r)[mpsc_slot r pos := s1], m_dropped := m_dropped r @ gone\<rparr> in
       if Panicked \<in> dtor ` set gone then Inr (Panicked, r1)
       else mpsc_drop_positions dtor ps r1))"

definition mpsc_ring_drop :: "('a \<Rightarrow> completion) \<Rightarrow> 'a mpsc_ring \<Rightarrow> (completion \<times> 'a mpsc_ring) exec" where
  "mpsc_ring_drop dtor r = mpsc_drop_positions dtor (occupied (m_cursors r)) r"

end
