(* ===== verification/Mpsc_Correct.thy ===== *)
theory Mpsc_Correct
  imports Mpsc Queue
begin

text \<open>
  The mpsc ring as a sequence of entries, one for each position from the head to the
  tail: claimed and not yet filled, published, or abandoned. A free slot carries the
  same word as a claimed one, so the relation covers all the slots of the ring: those
  past the tail read as claimed for the position they will be used at next.
\<close>

section \<open>Entries\<close>

datatype 'a entry = Claimed | Published 'a | Abandoned

fun entry_ok :: "nat \<Rightarrow> 'a entry \<Rightarrow> 'a seq_slot \<Rightarrow> bool" where
  "entry_ok n Claimed s \<longleftrightarrow> word (sequence s) = of_nat n * 2"
| "entry_ok n (Published v) s \<longleftrightarrow> word (sequence s) = of_nat n * 2 + 1 \<and> data s = Some v"
| "entry_ok n Abandoned s \<longleftrightarrow> word (sequence s) = TOMBSTONE"

definition entry_at :: "'a entry list \<Rightarrow> nat \<Rightarrow> 'a entry" where
  "entry_at es i = (if i < length es then es ! i else Claimed)"

lemma entry_at_simps [simp]:
  "entry_at [] i = Claimed" "entry_at (e # es) 0 = e" "entry_at (e # es) (Suc i) = entry_at es i"
  "entry_at (es @ [Claimed]) i = entry_at es i"
  by (auto simp: entry_at_def nth_append)

definition slots_hold :: "capacity \<Rightarrow> 'a seq_slot list \<Rightarrow> nat \<Rightarrow> 'a entry list \<Rightarrow> bool" where
  "slots_hold c buf h es \<longleftrightarrow>
     wf_capacity c \<and> length buf = slots c \<and> length es \<le> slots c
     \<and> h + length es + slots c \<le> POS_LIMIT
     \<and> (\<forall>i < slots c. entry_ok (h + i) (entry_at es i) (buf ! slot_of c (of_nat (h + i))))"

lemma slots_holdD:
  assumes "slots_hold c buf h es"
  shows "wf_capacity c" "length buf = slots c" "length es \<le> slots c" "h + length es + slots c \<le> POS_LIMIT"
    "\<And>i. i < slots c \<Longrightarrow> entry_ok (h + i) (entry_at es i) (buf ! slot_of c (of_nat (h + i)))"
  using assms by (auto simp: slots_hold_def)

lemma slots_hold_slot [simp]: "slots_hold c buf h es \<Longrightarrow> slot_of c pos < length buf"
  by (simp add: slots_hold_def slot_of_lt)

lemma slots_hold_head:
  assumes "slots_hold c buf h es"
  shows "entry_ok h (entry_at es 0) (buf ! slot_of c (of_nat h))"
  using slots_holdD(5) [OF assms, of 0] slots_pos [OF slots_holdD(1) [OF assms]] by simp

lemma slot_of_window_ne:
  assumes "wf_capacity c" and "i < slots c" and "j < slots c" and "i \<noteq> j"
  shows "slot_of c (of_nat (h + i)) \<noteq> slot_of c (of_nat (h + j))"
  using slot_of_inj_window [of c i j "of_nat h"] assms by auto

lemma slots_hold_update:
  assumes "slots_hold c buf h es" and "i < length es" and "entry_ok (h + i) e s"
  shows "slots_hold c (buf[slot_of c (of_nat (h + i)) := s]) h (es[i := e])"
proof -
  note d = slots_holdD [OF assms(1)]
  have "entry_ok (h + j) (entry_at (es[i := e]) j)
      (buf[slot_of c (of_nat (h + i)) := s] ! slot_of c (of_nat (h + j)))" if j: "j < slots c" for j
  proof (cases "j = i")
    case True
    then show ?thesis using assms(2,3) d(2) slot_of_lt [OF d(1)] by (simp add: entry_at_def)
  next
    case False
    have "slot_of c (of_nat (h + i)) \<noteq> slot_of c (of_nat (h + j))"
      using slot_of_window_ne [OF d(1) _ j, of i h] False assms(2) d(3) by simp
    moreover have "entry_at (es[i := e]) j = entry_at es j" using False by (simp add: entry_at_def)
    ultimately show ?thesis using d(5) [OF j] by (simp only: nth_list_update_neq not_False_eq_True)
  qed
  then show ?thesis using d(1-4) by (simp add: slots_hold_def)
qed

lemma slots_hold_claim:
  assumes "slots_hold c buf h es" and "length es < slots c" and "h + Suc (length es) + slots c \<le> POS_LIMIT"
  shows "slots_hold c buf h (es @ [Claimed])"
  using assms by (simp add: slots_hold_def)

lemma slots_hold_release:
  assumes "slots_hold c buf h (e # es)" and "word (sequence s) = (of_nat h + cap c) * 2"
  shows "slots_hold c (buf[slot_of c (of_nat h) := s]) (Suc h) es"
proof -
  note d = slots_holdD [OF assms(1)]
  have "entry_ok (Suc h + i) (entry_at es i)
      (buf[slot_of c (of_nat h) := s] ! slot_of c (of_nat (Suc h + i)))" if i: "i < slots c" for i
  proof (cases "Suc i < slots c")
    case True
    have "slot_of c (of_nat (h + 0)) \<noteq> slot_of c (of_nat (h + Suc i))"
      by (rule slot_of_window_ne [OF d(1)]) (use True in simp_all)
    then show ?thesis using d(5) [OF True] by simp
  next
    case False
    then have last: "Suc h + i = h + slots c" using i by simp
    have "slot_of c (of_nat (h + slots c)) = slot_of c (of_nat h)"
      using d(1) by (simp add: slot_of_of_nat del: of_nat_add)
    moreover have "entry_at es i = Claimed" using d(3) False by (simp add: entry_at_def)
    moreover have "(of_nat (h + slots c) :: usize) = of_nat h + cap c" by simp
    ultimately show ?thesis
      using assms(2) d(2) slot_of_lt [OF d(1)] unfolding last by simp
  qed
  then show ?thesis using d(1-4) by (simp add: slots_hold_def)
qed

section \<open>The ring\<close>

definition mpsc_ring_ok :: "nat \<Rightarrow> 'a entry list \<Rightarrow> 'a mpsc_ring \<Rightarrow> bool" where
  "mpsc_ring_ok h es r \<longleftrightarrow>
     slots_hold (m_capacity r) (m_buf r) h es
     \<and> head (m_cursors r) = of_nat h \<and> tail (m_cursors r) = of_nat (h + length es)"

lemma mpsc_ring_okD:
  assumes "mpsc_ring_ok h es r"
  shows "slots_hold (m_capacity r) (m_buf r) h es" "head (m_cursors r) = of_nat h"
    "tail (m_cursors r) = of_nat (h + length es)"
  using assms by (simp_all add: mpsc_ring_ok_def)

lemma mpsc_ring_ok_cong:
  "m_buf r' = m_buf r \<Longrightarrow> m_capacity r' = m_capacity r \<Longrightarrow> m_cursors r' = m_cursors r \<Longrightarrow>
    mpsc_ring_ok h es r' = mpsc_ring_ok h es r"
  by (simp add: mpsc_ring_ok_def)

lemma mpsc_ring_ok_effects [simp]:
  "mpsc_ring_ok h es (mpsc_wake_consumer r) = mpsc_ring_ok h es r"
  "mpsc_ring_ok h es (mpsc_wake_producer r) = mpsc_ring_ok h es r"
  "mpsc_ring_ok h es (mpsc_wake_producers n r) = mpsc_ring_ok h es r"
  "mpsc_ring_ok h es (mpsc_flush_producers r) = mpsc_ring_ok h es r"
  "mpsc_ring_ok h es (r\<lparr>m_dropped := ds\<rparr>) = mpsc_ring_ok h es r"
  "mpsc_ring_ok h es (r\<lparr>m_closed := x\<rparr>) = mpsc_ring_ok h es r"
  "mpsc_ring_ok h es (r\<lparr>m_consumer_closed := x\<rparr>) = mpsc_ring_ok h es r"
  "mpsc_ring_ok h es (r\<lparr>m_producer_count := n'\<rparr>) = mpsc_ring_ok h es r"
  "mpsc_ring_ok h es (r\<lparr>m_producer_slots := reg\<rparr>) = mpsc_ring_ok h es r"
  "mpsc_ring_ok h es (r\<lparr>m_consumer_park := p\<rparr>) = mpsc_ring_ok h es r"
  "mpsc_ring_ok h es (r\<lparr>m_producer_park := w\<rparr>) = mpsc_ring_ok h es r"
  by (rule mpsc_ring_ok_cong; simp)+

text \<open>Positions of the window are small: the words and the differences do not wrap.\<close>

lemma slots_hold_small:
  assumes "slots_hold c buf h es" and "n \<le> h + length es + slots c"
  shows "n < 2 ^ 63" and "unat (of_nat n :: usize) = n"
proof -
  show "n < 2 ^ 63" using slots_holdD(4) [OF assms(1)] assms(2) by (simp add: POS_LIMIT_def)
  then have "n < 2 ^ LENGTH(64)" by simp
  then show "unat (of_nat n :: usize) = n" by (simp only: unat_of_nat mod_less)
qed

lemma classify_entry:
  assumes "entry_ok n e s" and "n < POS_LIMIT"
  shows "slot_classify s (of_nat n) =
    (case e of Claimed \<Rightarrow> NotReady | Published _ \<Rightarrow> Ready | Abandoned \<Rightarrow> Tombstoned)"
proof -
  have n: "n < 2 ^ 63" using assms(2) by (simp add: POS_LIMIT_def)
  show ?thesis
    using assms(1) free_not_tombstone [OF n] free_not_published [OF n n]
      published_not_tombstone [OF assms(2)]
    by (cases e) (auto simp: slot_classify_def seq_classify_def)
qed

lemma head_slot:
  assumes hold: "slots_hold (m_capacity r) (m_buf r) h es"
  shows "mpsc_load_slot r (mpsc_slot r (of_nat h))
      = Inr (m_buf r ! slot_of (m_capacity r) (of_nat h))"
    and "slot_classify (m_buf r ! slot_of (m_capacity r) (of_nat h)) (of_nat h) =
      (case es of [] \<Rightarrow> NotReady
       | e # _ \<Rightarrow> (case e of Claimed \<Rightarrow> NotReady | Published _ \<Rightarrow> Ready | Abandoned \<Rightarrow> Tombstoned))"
proof -
  show "mpsc_load_slot r (mpsc_slot r (of_nat h)) = Inr (m_buf r ! slot_of (m_capacity r) (of_nat h))"
    using slots_hold_slot [OF hold] by (simp add: mpsc_load_slot_def mpsc_slot_def)
  have "h < POS_LIMIT"
    using slots_holdD(4) [OF hold] slots_pos [OF slots_holdD(1) [OF hold]] by simp
  from classify_entry [OF slots_hold_head [OF hold] this]
  show "slot_classify (m_buf r ! slot_of (m_capacity r) (of_nat h)) (of_nat h) =
      (case es of [] \<Rightarrow> NotReady
       | e # _ \<Rightarrow> (case e of Claimed \<Rightarrow> NotReady | Published _ \<Rightarrow> Ready | Abandoned \<Rightarrow> Tombstoned))"
    by (cases es) simp_all
qed

text \<open>What an operation may leave alone.\<close>

definition same_sides :: "'a mpsc_ring \<Rightarrow> 'a mpsc_ring \<Rightarrow> bool" where
  "same_sides r r' \<longleftrightarrow>
     m_capacity r' = m_capacity r \<and> m_closed r' = m_closed r
     \<and> m_consumer_closed r' = m_consumer_closed r \<and> m_producer_count r' = m_producer_count r
     \<and> m_producer_slots r' = m_producer_slots r"

lemma same_sides_refl [simp]: "same_sides r r"
  by (simp add: same_sides_def)

lemma same_sides_trans: "same_sides r r1 \<Longrightarrow> same_sides r1 r2 \<Longrightarrow> same_sides r r2"
  by (simp add: same_sides_def)

lemma same_sides_capacity: "same_sides r r' \<Longrightarrow> m_capacity r' = m_capacity r"
  by (simp add: same_sides_def)

lemma mpsc_wake_more [simp]:
  "m_producer_count (mpsc_wake_consumer r) = m_producer_count r"
  "m_producer_count (mpsc_wake_producer r) = m_producer_count r"
  "m_producer_count (mpsc_wake_producers n r) = m_producer_count r"
  "m_producer_count (mpsc_flush_producers r) = m_producer_count r"
  "m_producer_slots (mpsc_wake_consumer r) = m_producer_slots r"
  "m_producer_slots (mpsc_wake_producer r) = m_producer_slots r"
  "m_producer_slots (mpsc_wake_producers n r) = m_producer_slots r"
  "m_producer_slots (mpsc_flush_producers r) = m_producer_slots r"
  by (simp_all add: mpsc_wake_consumer_def mpsc_wake_producer_def mpsc_wake_producers_def
      mpsc_flush_producers_def case_prod_beta)

section \<open>Releasing the slot at the head\<close>

lemma set_cells_update:
  "i < length (m_buf r) \<Longrightarrow> mpsc_set_cells ((mpsc_cells r)[i := d]) r
    = r\<lparr>m_buf := (m_buf r)[i := (m_buf r ! i)\<lparr>data := d\<rparr>]\<rparr>"
  by (auto simp: mpsc_set_cells_def mpsc_cells_def nth_list_update intro!: nth_equalityI arg_cong2 [where f = "\<lambda>b. m_buf_update (\<lambda>_. b)"])

lemma set_cells_dropped [simp]:
  "mpsc_set_cells cells (r\<lparr>m_dropped := ds\<rparr>) = (mpsc_set_cells cells r)\<lparr>m_dropped := ds\<rparr>"
  by (simp add: mpsc_set_cells_def)

lemma drop_nothing [simp]: "m_dropped r = ds \<Longrightarrow> r\<lparr>m_dropped := ds\<rparr> = r"
  by simp

lemma set_cells_same: "mpsc_set_cells (mpsc_cells r) r = r"
proof -
  have "map2 (\<lambda>s d. s\<lparr>data := d\<rparr>) (m_buf r) (mpsc_cells r) = m_buf r"
    by (rule nth_equalityI) (simp_all add: mpsc_cells_def)
  then show ?thesis by (simp add: mpsc_set_cells_def)
qed

lemma take_data_Inr:
  assumes "i < length (m_buf r)" and "data (m_buf r ! i) = Some v"
  shows "mpsc_take_data i r = Inr (v, r\<lparr>m_buf := (m_buf r)[i := (m_buf r ! i)\<lparr>data := None\<rparr>]\<rparr>)"
  using assms set_cells_update [OF assms(1), of None]
  by (simp add: mpsc_take_data_def) (simp add: mpsc_cells_def)

lemma write_data_Inr:
  assumes "i < length (m_buf r)"
  shows "mpsc_write_data i v r = Inr (r\<lparr>m_buf := (m_buf r)[i := (m_buf r ! i)\<lparr>data := Some v\<rparr>]\<rparr>)"
  using assms set_cells_update [OF assms(1), of "Some v"]
  by (simp add: mpsc_write_data_def) (simp add: mpsc_cells_def)

lemma store_word_Inr:
  "i < length (m_buf r) \<Longrightarrow> mpsc_store_word i f r
    = Inr (r\<lparr>m_buf := (m_buf r)[i := (m_buf r ! i)\<lparr>sequence := f (sequence (m_buf r ! i))\<rparr>]\<rparr>)"
  by (simp add: mpsc_store_word_def mpsc_load_slot_def)

lemma release_slot_spec:
  assumes hold: "slots_hold (m_capacity r) (m_buf r) h (e # es)"
  shows "\<exists>r'. mpsc_release_slot (of_nat h) r = Inr r' \<and> slots_hold (m_capacity r') (m_buf r') (Suc h) es
    \<and> same_sides r r' \<and> m_cursors r' = m_cursors r \<and> m_dropped r' = m_dropped r
    \<and> m_consumer_park r' = m_consumer_park r \<and> m_producer_park r' = m_producer_park r
    \<and> m_unparked r' = m_unparked r"
proof -
  let ?i = "slot_of (m_capacity r) (of_nat h)"
  let ?s = "(m_buf r ! ?i)\<lparr>sequence := seq_release (sequence (m_buf r ! ?i)) (of_nat h) (m_capacity r)\<rparr>"
  have "slots_hold (m_capacity r) ((m_buf r)[?i := ?s]) (Suc h) es"
    by (rule slots_hold_release [OF hold]) (simp add: seq_release_def capacity_get_def)
  then show ?thesis
    using slots_hold_slot [OF hold]
    by (simp add: mpsc_release_slot_def mpsc_slot_def store_word_Inr same_sides_def)
qed

lemma publish_head_ok:
  assumes "mpsc_ring_ok h (e # es) r" and "slots_hold (m_capacity r1) (m_buf r1) (Suc h) es"
    and "m_cursors r1 = m_cursors r"
  shows "mpsc_ring_ok (Suc h) es (r1\<lparr>m_cursors := publish_head (m_cursors r1) (of_nat h + 1)\<rparr>)"
  using assms by (simp add: mpsc_ring_ok_def add.commute)

lemma release_tombstone_spec:
  assumes "mpsc_ring_ok h (e # es) r"
  shows "\<exists>r'. mpsc_release_tombstone (of_nat h) r = Inr r' \<and> mpsc_ring_ok (Suc h) es r'
    \<and> same_sides r r' \<and> m_dropped r' = m_dropped r \<and> m_consumer_park r' = m_consumer_park r"
proof -
  obtain r1 where r1: "mpsc_release_slot (of_nat h) r = Inr r1"
    "slots_hold (m_capacity r1) (m_buf r1) (Suc h) es" "same_sides r r1" "m_cursors r1 = m_cursors r"
    "m_dropped r1 = m_dropped r" "m_consumer_park r1 = m_consumer_park r"
    using release_slot_spec [OF mpsc_ring_okD(1) [OF assms]] by blast
  let ?r = "r1\<lparr>m_cursors := publish_head (m_cursors r1) (of_nat h + 1)\<rparr>"
  have "mpsc_ring_ok (Suc h) es ?r" by (rule publish_head_ok [OF assms r1(2,4)])
  then show ?thesis
    using r1 by (intro exI [of _ "mpsc_wake_producer ?r"])
      (simp add: mpsc_release_tombstone_def same_sides_def)
qed

text \<open>Taking the value of a published head: the cell is emptied and the slot released.\<close>

lemma take_head_spec:
  assumes hold: "slots_hold (m_capacity r) (m_buf r) h (Published v # es)"
  shows "\<exists>r1 r2. mpsc_take_data (mpsc_slot r (of_nat h)) r = Inr (v, r1)
    \<and> mpsc_release_slot (of_nat h) r1 = Inr r2
    \<and> slots_hold (m_capacity r2) (m_buf r2) (Suc h) es \<and> same_sides r r2
    \<and> m_cursors r2 = m_cursors r \<and> m_dropped r2 = m_dropped r
    \<and> m_consumer_park r2 = m_consumer_park r \<and> m_producer_park r2 = m_producer_park r
    \<and> m_unparked r2 = m_unparked r"
proof -
  let ?i = "slot_of (m_capacity r) (of_nat h)"
  let ?s = "(m_buf r ! ?i)\<lparr>data := None\<rparr>"
  let ?r1 = "r\<lparr>m_buf := (m_buf r)[?i := ?s]\<rparr>"
  let ?s2 = "?s\<lparr>sequence := seq_release (sequence ?s) (of_nat h) (m_capacity r)\<rparr>"
  have i: "?i < length (m_buf r)" by (rule slots_hold_slot [OF hold])
  have "data (m_buf r ! ?i) = Some v" using slots_hold_head [OF hold] by simp
  then have "mpsc_take_data (mpsc_slot r (of_nat h)) r = Inr (v, ?r1)"
    using take_data_Inr [OF i] by (simp add: mpsc_slot_def)
  moreover have "mpsc_release_slot (of_nat h) ?r1 = Inr (?r1\<lparr>m_buf := (m_buf r)[?i := ?s2]\<rparr>)"
    using i by (simp add: mpsc_release_slot_def mpsc_slot_def store_word_Inr)
  moreover have "slots_hold (m_capacity r) ((m_buf r)[?i := ?s2]) (Suc h) es"
    by (rule slots_hold_release [OF hold]) (simp add: seq_release_def capacity_get_def)
  ultimately show ?thesis
    by (intro exI [of _ ?r1] exI [of _ "?r1\<lparr>m_buf := (m_buf r)[?i := ?s2]\<rparr>"]) (simp add: same_sides_def)
qed

section \<open>The consumer's pop\<close>

fun spec_pop :: "'a entry list \<Rightarrow> 'a option \<times> 'a entry list" where
  "spec_pop [] = (None, [])"
| "spec_pop (Claimed # es) = (None, Claimed # es)"
| "spec_pop (Published v # es) = (Some v, es)"
| "spec_pop (Abandoned # es) = spec_pop es"

lemma mpsc_pop_spec:
  assumes "mpsc_ring_ok h es r" and "spec_pop es = (res, es')"
  shows "\<exists>r'. mpsc_pop r = Inr (res, r') \<and> mpsc_ring_ok (h + length es - length es') es' r'
    \<and> length es' \<le> length es \<and> same_sides r r' \<and> m_dropped r' = m_dropped r
    \<and> m_consumer_park r' = m_consumer_park r"
  using assms
proof (induction es arbitrary: h r rule: spec_pop.induct)
  case 1
  then show ?case
    using head_slot [OF mpsc_ring_okD(1) [OF "1.prems"(1)]] mpsc_ring_okD(2) [OF "1.prems"(1)]
    by (subst mpsc_pop.simps) (auto simp: Let_def)
next
  case (2 es)
  then show ?case
    using head_slot [OF mpsc_ring_okD(1) [OF "2.prems"(1)]] mpsc_ring_okD(2) [OF "2.prems"(1)]
    by (subst mpsc_pop.simps) (auto simp: Let_def)
next
  case (3 v es)
  obtain r1 r2 where t: "mpsc_take_data (mpsc_slot r (of_nat h)) r = Inr (v, r1)"
    "mpsc_release_slot (of_nat h) r1 = Inr r2"
    "slots_hold (m_capacity r2) (m_buf r2) (Suc h) es" "same_sides r r2"
    "m_cursors r2 = m_cursors r" "m_dropped r2 = m_dropped r" "m_consumer_park r2 = m_consumer_park r"
    using take_head_spec [OF mpsc_ring_okD(1) [OF "3.prems"(1)]] by blast
  let ?r = "r2\<lparr>m_cursors := publish_head (m_cursors r2) (of_nat h + 1)\<rparr>"
  have "mpsc_ring_ok (Suc h) es ?r"
    using t(3,5) mpsc_ring_okD [OF "3.prems"(1)] by (simp add: mpsc_ring_ok_def add.commute)
  moreover have "mpsc_pop r = Inr (Some v, mpsc_wake_producer ?r)"
    using head_slot [OF mpsc_ring_okD(1) [OF "3.prems"(1)]] mpsc_ring_okD(2) [OF "3.prems"(1)] t(1,2)
    by (subst mpsc_pop.simps) (simp add: Let_def)
  ultimately show ?case
    using "3.prems"(2) t(4,6,7)
    by (intro exI [of _ "mpsc_wake_producer ?r"]) (auto simp: same_sides_def)
next
  case (4 es)
  obtain r1 where r1: "mpsc_release_tombstone (of_nat h) r = Inr r1" "mpsc_ring_ok (Suc h) es r1"
    "same_sides r r1" "m_dropped r1 = m_dropped r" "m_consumer_park r1 = m_consumer_park r"
    using release_tombstone_spec [OF "4.prems"(1)] by blast
  have "mpsc_pop r = mpsc_pop r1"
    using head_slot [OF mpsc_ring_okD(1) [OF "4.prems"(1)]] mpsc_ring_okD(2) [OF "4.prems"(1)] r1(1)
    by (subst mpsc_pop.simps) (simp add: Let_def)
  then show ?case
    using "4.IH" [OF r1(2)] "4.prems"(2) r1(3-5) by (auto intro: same_sides_trans)
qed

section \<open>Claiming a position\<close>

definition mp_ok :: "nat \<Rightarrow> mpsc_producer \<Rightarrow> bool" where
  "mp_ok h p \<longleftrightarrow> (\<exists>k \<le> h. mp_cached_head p = of_nat k)"

lemma mp_ok_mono: "mp_ok h p \<Longrightarrow> h \<le> h' \<Longrightarrow> mp_ok h' p"
  using order_trans unfolding mp_ok_def by blast

lemma mp_ok_new [simp]: "mp_ok h (mpsc_new_with slot)"
  by (auto simp: mp_ok_def mpsc_new_with_def intro: exI [of _ 0])

text \<open>A distance between positions that does not wrap, and one that does.\<close>

lemma cap_le_distance:
  assumes "slots_hold c buf h es" and "t \<le> h + length es" and "k \<le> h + length es"
  shows "cap c \<le> of_nat t - of_nat k \<longleftrightarrow> t < k \<or> slots c \<le> t - k"
proof -
  have u: "unat (of_nat t :: usize) = t" "unat (of_nat k :: usize) = k"
    using slots_hold_small(2) [OF assms(1), of t] slots_hold_small(2) [OF assms(1), of k] assms(2,3)
    by simp_all
  have "k < 2 ^ 63" using slots_hold_small(1) [OF assms(1), of k] assms(3) by simp
  moreover have "slots c < 2 ^ 63"
    using slots_holdD(4) [OF assms(1)] by (simp add: POS_LIMIT_def)
  ultimately show ?thesis
    unfolding word_le_nat_alt unat_sub_if' u by auto
qed

lemma check_room_spec:
  assumes ok: "mpsc_ring_ok h es r" and t: "t \<le> h + length es"
    and k: "mp_cached_head p = of_nat k" "k \<le> h" "k \<le> t"
  shows "\<exists>room k' p1. mpsc_check_room (of_nat t) p r = (room, p1)
    \<and> mp_cached_head p1 = of_nat k' \<and> k' \<le> h \<and> mp_park_slot p1 = mp_park_slot p
    \<and> (if room then k' \<le> t \<and> t - k' < slots (m_capacity r)
       else t < h \<or> slots (m_capacity r) \<le> t - h)"
proof -
  note hold = mpsc_ring_okD(1) [OF ok]
  have d1: "cap (m_capacity r) \<le> of_nat t - of_nat k \<longleftrightarrow> slots (m_capacity r) \<le> t - k"
    using cap_le_distance [OF hold t, of k] k by auto
  have d2: "cap (m_capacity r) \<le> of_nat t - of_nat h \<longleftrightarrow> t < h \<or> slots (m_capacity r) \<le> t - h"
    using cap_le_distance [OF hold t, of h] by simp
  show ?thesis
  proof (cases "slots (m_capacity r) \<le> t - k")
    case True
    then show ?thesis
      using d1 d2 k mpsc_ring_okD(2) [OF ok]
      by (intro exI [of _ "\<not> (t < h \<or> slots (m_capacity r) \<le> t - h)"] exI [of _ h]
          exI [of _ "p\<lparr>mp_cached_head := of_nat h\<rparr>"])
        (auto simp: mpsc_check_room_def capacity_get_def Let_def)
  next
    case False
    then show ?thesis
      using d1 k
      by (intro exI [of _ True] exI [of _ k] exI [of _ p])
        (auto simp: mpsc_check_room_def capacity_get_def)
  qed
qed

lemma exchange_tail_spec:
  assumes ok: "mpsc_ring_ok h es r" and t: "t \<le> h + length es"
    and room: "k \<le> h" "t - k < slots (m_capacity r)"
    and budget: "h + Suc (length es) + slots (m_capacity r) \<le> POS_LIMIT"
  shows "if t = h + length es
    then length es < slots (m_capacity r) \<and>
      (\<exists>r'. mpsc_exchange_tail (of_nat t) r = (Inr (of_nat t), r')
        \<and> mpsc_ring_ok h (es @ [Claimed]) r' \<and> same_sides r r' \<and> m_dropped r' = m_dropped r
        \<and> m_consumer_park r' = m_consumer_park r)
    else mpsc_exchange_tail (of_nat t) r = (Inl (of_nat (h + length es)), r)"
proof -
  note hold = mpsc_ring_okD(1) [OF ok]
  have "unat (of_nat t :: usize) = t" "unat (of_nat (h + length es) :: usize) = h + length es"
    using slots_hold_small(2) [OF hold, of t] slots_hold_small(2) [OF hold, of "h + length es"] t
    by simp_all
  then have tail_eq: "tail (m_cursors r) = of_nat t \<longleftrightarrow> t = h + length es"
    using mpsc_ring_okD(3) [OF ok] by metis
  show ?thesis
  proof (cases "t = h + length es")
    case True
    then have len: "length es < slots (m_capacity r)" using room by simp
    have "mpsc_ring_ok h (es @ [Claimed]) (r\<lparr>m_cursors := (m_cursors r)\<lparr>tail := of_nat t + 1\<rparr>\<rparr>)"
      using slots_hold_claim [OF hold len budget] mpsc_ring_okD(2) [OF ok] True
      by (simp add: mpsc_ring_ok_def add.commute)
    then show ?thesis
      using True tail_eq len by (simp add: mpsc_exchange_tail_def same_sides_def)
  next
    case False
    then show ?thesis
      using tail_eq mpsc_ring_okD(3) [OF ok] by (simp add: mpsc_exchange_tail_def)
  qed
qed

text \<open>Without a race the first exchange succeeds, and the claim is refused exactly when the ring is full.\<close>

lemma claim_spec:
  assumes ok: "mpsc_ring_ok h es r" and p: "mp_ok h p"
    and budget: "h + Suc (length es) + slots (m_capacity r) \<le> POS_LIMIT"
  shows "\<exists>p' r'. mp_ok h p' \<and> mp_park_slot p' = mp_park_slot p \<and> same_sides r r'
    \<and> m_dropped r' = m_dropped r \<and> m_consumer_park r' = m_consumer_park r
    \<and> (if length es < slots (m_capacity r)
       then mpsc_claim_slot [] p r = (Some (of_nat (h + length es)), p', r')
         \<and> mpsc_ring_ok h (es @ [Claimed]) r'
       else mpsc_claim_slot [] p r = (None, p', r') \<and> r' = r)"
proof -
  let ?t = "h + length es"
  obtain k where k: "mp_cached_head p = of_nat k" "k \<le> h" using p by (auto simp: mp_ok_def)
  obtain room k' p1 where c: "mpsc_check_room (of_nat ?t) p r = (room, p1)"
    "mp_cached_head p1 = of_nat k'" "k' \<le> h" "mp_park_slot p1 = mp_park_slot p"
    "if room then k' \<le> ?t \<and> ?t - k' < slots (m_capacity r)
     else ?t < h \<or> slots (m_capacity r) \<le> ?t - h"
    using check_room_spec [OF ok, of ?t p k] k by auto
  have claim: "mpsc_claim_slot [] p r = mpsc_claim_loop [] (of_nat ?t) p r"
    using mpsc_ring_okD(3) [OF ok] by (simp add: mpsc_claim_slot_def)
  have p1: "mp_ok h p1" using c(2,3) by (auto simp: mp_ok_def)
  show ?thesis
  proof (cases room)
    case True
    then obtain r' where "length es < slots (m_capacity r)"
      "mpsc_exchange_tail (of_nat ?t) r = (Inr (of_nat ?t), r')" "mpsc_ring_ok h (es @ [Claimed]) r'"
      "same_sides r r'" "m_dropped r' = m_dropped r" "m_consumer_park r' = m_consumer_park r"
      using exchange_tail_spec [OF ok _ c(3) _ budget, of ?t] c(5) by auto
    then show ?thesis
      using True c p1 unfolding claim
      by (intro exI [of _ p1] exI [of _ r']) (simp add: mpsc_claim_loop.simps(1))
  next
    case False
    then show ?thesis
      using c p1 unfolding claim
      by (intro exI [of _ p1] exI [of _ r]) (auto simp: mpsc_claim_loop.simps(1))
  qed
qed

section \<open>Filling and giving up a claimed position\<close>

abbreviation quiet :: "'a mpsc_ring \<Rightarrow> 'a mpsc_ring \<Rightarrow> bool" where
  "quiet r r' \<equiv> same_sides r r' \<and> m_dropped r' = m_dropped r \<and> m_consumer_park r' = m_consumer_park r"

abbreviation slot_at :: "'a mpsc_ring \<Rightarrow> nat \<Rightarrow> nat" where
  "slot_at r n \<equiv> slot_of (m_capacity r) (of_nat n)"

text \<open>Storing at slot \<open>h + i\<close> what agrees with entry \<open>e\<close> makes that the entry.\<close>

lemma store_slot_ok:
  assumes "mpsc_ring_ok h es r" and "i < length es" and "entry_ok (h + i) e s"
  shows "mpsc_ring_ok h (es[i := e]) (r\<lparr>m_buf := (m_buf r)[slot_at r (h + i) := s]\<rparr>)"
  using assms slots_hold_update [of "m_capacity r" "m_buf r" h es i e s]
  by (simp add: mpsc_ring_ok_def)

lemma claimed_word:
  assumes "mpsc_ring_ok h es r" and "i < length es"
  shows "slot_at r (h + i) < length (m_buf r)" and "entry_ok (h + i) (es ! i) (m_buf r ! slot_at r (h + i))"
proof -
  note hold = mpsc_ring_okD(1) [OF assms(1)]
  show "slot_at r (h + i) < length (m_buf r)" by (rule slots_hold_slot [OF hold])
  show "entry_ok (h + i) (es ! i) (m_buf r ! slot_at r (h + i))"
    using slots_holdD(5) [OF hold, of i] slots_holdD(3) [OF hold] assms(2) by (simp add: entry_at_def)
qed

lemma write_claimed:
  assumes "mpsc_ring_ok h es r" and "i < length es" and "es ! i = Claimed"
  shows "\<exists>r1. mpsc_write_data (slot_at r (h + i)) v r = Inr r1 \<and> mpsc_ring_ok h es r1 \<and> quiet r r1
    \<and> data (m_buf r1 ! slot_at r (h + i)) = Some v"
proof -
  let ?i = "slot_at r (h + i)"
  note w = claimed_word [OF assms(1,2)]
  have "mpsc_ring_ok h (es[i := Claimed]) (r\<lparr>m_buf := (m_buf r)[?i := (m_buf r ! ?i)\<lparr>data := Some v\<rparr>]\<rparr>)"
    using w(2) assms(3) by (intro store_slot_ok [OF assms(1,2)]) simp
  moreover have "es[i := Claimed] = es" using assms(3) by (metis list_update_id)
  ultimately show ?thesis using write_data_Inr [OF w(1)] w(1) by (simp add: same_sides_def)
qed

lemma take_claimed:
  assumes "mpsc_ring_ok h es r" and "i < length es" and "es ! i = Claimed"
    and "data (m_buf r ! slot_at r (h + i)) = Some v"
  shows "\<exists>r1. mpsc_set_cells ((mpsc_cells r)[slot_at r (h + i) := None]) r = r1
    \<and> mpsc_ring_ok h es r1 \<and> quiet r r1"
proof -
  let ?i = "slot_at r (h + i)"
  note w = claimed_word [OF assms(1,2)]
  have "mpsc_ring_ok h (es[i := Claimed]) (r\<lparr>m_buf := (m_buf r)[?i := (m_buf r ! ?i)\<lparr>data := None\<rparr>]\<rparr>)"
    using w(2) assms(3) by (intro store_slot_ok [OF assms(1,2)]) simp
  moreover have "es[i := Claimed] = es" using assms(3) by (metis list_update_id)
  ultimately show ?thesis using set_cells_update [OF w(1), of None] by (simp add: same_sides_def)
qed

lemma publish_claimed:
  assumes "mpsc_ring_ok h es r" and "i < length es" and "data (m_buf r ! slot_at r (h + i)) = Some v"
  shows "\<exists>r1. mpsc_publish (slot_at r (h + i)) (of_nat (h + i)) r = Inr r1
    \<and> mpsc_ring_ok h (es[i := Published v]) r1 \<and> quiet r r1"
proof -
  let ?i = "slot_at r (h + i)"
  let ?s = "(m_buf r ! ?i)\<lparr>sequence := seq_publish (sequence (m_buf r ! ?i)) (of_nat (h + i))\<rparr>"
  have "mpsc_ring_ok h (es[i := Published v]) (r\<lparr>m_buf := (m_buf r)[?i := ?s]\<rparr>)"
    using assms(3) by (intro store_slot_ok [OF assms(1,2)]) (simp add: seq_publish_def)
  then show ?thesis
    using claimed_word(1) [OF assms(1,2)] by (simp add: mpsc_publish_def store_word_Inr same_sides_def)
qed

lemma tombstone_claimed:
  assumes "mpsc_ring_ok h es r" and "i < length es"
  shows "\<exists>r1. mpsc_store_word (slot_at r (h + i)) seq_tombstone r = Inr r1
    \<and> mpsc_ring_ok h (es[i := Abandoned]) r1 \<and> quiet r r1"
proof -
  let ?i = "slot_at r (h + i)"
  let ?s = "(m_buf r ! ?i)\<lparr>sequence := seq_tombstone (sequence (m_buf r ! ?i))\<rparr>"
  have "mpsc_ring_ok h (es[i := Abandoned]) (r\<lparr>m_buf := (m_buf r)[?i := ?s]\<rparr>)"
    by (intro store_slot_ok [OF assms(1,2)]) (simp add: seq_tombstone_def)
  then show ?thesis
    using claimed_word(1) [OF assms(1,2)] by (simp add: store_word_Inr same_sides_def)
qed

section \<open>The operations on a reservation\<close>

text \<open>The writer of position \<open>n\<close>.\<close>

definition writer_at :: "capacity \<Rightarrow> nat \<Rightarrow> mpsc_slot_writer" where
  "writer_at c n = \<lparr>mw_slot = slot_of c (of_nat n), mw_pos = of_nat n\<rparr>"

definition consumer_woken :: "'a mpsc_ring \<Rightarrow> 'a mpsc_ring \<Rightarrow> bool" where
  "consumer_woken r r' \<longleftrightarrow> m_consumer_park r' = snd (sp_wake (m_consumer_park r))"

lemma mpsc_wake_consumer_park: "m_consumer_park (mpsc_wake_consumer r) = snd (sp_wake (m_consumer_park r))"
  by (simp add: mpsc_wake_consumer_def case_prod_beta)

lemma same_sides_wake [simp]: "same_sides r (mpsc_wake_consumer r') = same_sides r r'"
  by (simp add: same_sides_def)

lemma same_sides_dropped [simp]: "same_sides r (r'\<lparr>m_dropped := ds\<rparr>) = same_sides r r'"
  by (simp add: same_sides_def)

lemma mpsc_push_spec:
  assumes ok: "mpsc_ring_ok h es r" and p: "mp_ok h p"
    and budget: "h + Suc (length es) + slots (m_capacity r) \<le> POS_LIMIT"
  shows "\<exists>p' r'. mp_ok h p' \<and> same_sides r r' \<and> m_dropped r' = m_dropped r \<and>
    (if length es < slots (m_capacity r)
     then mpsc_push [] v p r = Inr (Push_Ok, p', r') \<and> mpsc_ring_ok h (es @ [Published v]) r'
       \<and> consumer_woken r r'
     else mpsc_push [] v p r = Inr (Push_Err v, p', r') \<and> r' = r)"
proof -
  obtain p1 r1 where c: "mp_ok h p1" "quiet r r1"
    "if length es < slots (m_capacity r)
     then mpsc_claim_slot [] p r = (Some (of_nat (h + length es)), p1, r1)
       \<and> mpsc_ring_ok h (es @ [Claimed]) r1
     else mpsc_claim_slot [] p r = (None, p1, r1) \<and> r1 = r"
    using claim_spec [OF ok p budget] by blast
  show ?thesis
  proof (cases "length es < slots (m_capacity r)")
    case False
    then show ?thesis using c by (intro exI [of _ p1] exI [of _ r]) (simp add: mpsc_push_def)
  next
    case True
    then have c1: "mpsc_claim_slot [] p r = (Some (of_nat (h + length es)), p1, r1)"
      "mpsc_ring_ok h (es @ [Claimed]) r1" using c(3) by simp_all
    obtain r2 where w: "mpsc_write_data (slot_at r1 (h + length es)) v r1 = Inr r2"
      "mpsc_ring_ok h (es @ [Claimed]) r2" "quiet r1 r2"
      "data (m_buf r2 ! slot_at r1 (h + length es)) = Some v"
      using write_claimed [OF c1(2), of "length es" v] by auto
    have cap: "m_capacity r2 = m_capacity r1" using w(3) by (simp add: same_sides_def)
    obtain r3 where pub: "mpsc_publish (slot_at r1 (h + length es)) (of_nat (h + length es)) r2 = Inr r3"
      "mpsc_ring_ok h (es @ [Published v]) r3" "quiet r2 r3"
      using publish_claimed [OF w(2), of "length es" v] w(4) unfolding cap by auto
    have "mpsc_push [] v p r = Inr (Push_Ok, p1, mpsc_wake_consumer r3)"
      using c1(1) w(1) pub(1) by (simp add: mpsc_push_def mpsc_slot_def)
    moreover have "same_sides r (mpsc_wake_consumer r3)" "m_dropped (mpsc_wake_consumer r3) = m_dropped r"
      "consumer_woken r (mpsc_wake_consumer r3)"
      using c(2) w(3) pub(3)
      by (auto intro: same_sides_trans simp: consumer_woken_def mpsc_wake_consumer_park)
    ultimately show ?thesis using True c(1) pub(2) by auto
  qed
qed

lemma mpsc_reserve_spec:
  assumes ok: "mpsc_ring_ok h es r" and p: "mp_ok h p"
    and budget: "h + Suc (length es) + slots (m_capacity r) \<le> POS_LIMIT"
  shows "\<exists>p' r'. mp_ok h p' \<and> quiet r r' \<and>
    (if length es < slots (m_capacity r)
     then mpsc_reserve [] p r = (Some (writer_at (m_capacity r) (h + length es)), p', r')
       \<and> mpsc_ring_ok h (es @ [Claimed]) r'
     else mpsc_reserve [] p r = (None, p', r') \<and> r' = r)"
proof -
  obtain p1 r1 where c: "mp_ok h p1" "quiet r r1"
    "if length es < slots (m_capacity r)
     then mpsc_claim_slot [] p r = (Some (of_nat (h + length es)), p1, r1)
       \<and> mpsc_ring_ok h (es @ [Claimed]) r1
     else mpsc_claim_slot [] p r = (None, p1, r1) \<and> r1 = r"
    using claim_spec [OF ok p budget] by blast
  then show ?thesis
    by (intro exI [of _ p1] exI [of _ r1])
      (auto simp: mpsc_reserve_def writer_at_def mpsc_slot_def same_sides_def)
qed

lemma write_commit_spec:
  assumes ok: "mpsc_ring_ok h es r" and i: "i < length es" "es ! i = Claimed"
  shows "\<exists>w r1 r2. mpsc_write (writer_at (m_capacity r) (h + i)) v r = Inr (w, r1)
    \<and> mpsc_ring_ok h es r1 \<and> mpsc_commit dtor w r1 = Inr (Returned, r2)
    \<and> mpsc_ring_ok h (es[i := Published v]) r2 \<and> same_sides r r2 \<and> m_dropped r2 = m_dropped r
    \<and> consumer_woken r r2"
proof -
  obtain r1 where w: "mpsc_write_data (slot_at r (h + i)) v r = Inr r1"
    "mpsc_ring_ok h es r1" "quiet r r1" "data (m_buf r1 ! slot_at r (h + i)) = Some v"
    using write_claimed [OF assms] by blast
  have cap: "m_capacity r1 = m_capacity r" using w(3) by (simp add: same_sides_def)
  obtain r2 where p: "mpsc_publish (slot_at r (h + i)) (of_nat (h + i)) r1 = Inr r2"
    "mpsc_ring_ok h (es[i := Published v]) r2" "quiet r1 r2"
    using publish_claimed [OF w(2) i(1)] w(4) cap by auto
  let ?w = "\<lparr>mv_value = uncommitted_armed (slot_at r (h + i)), mv_slot = slot_at r (h + i),
    mv_pos = of_nat (h + i)\<rparr>"
  have "mpsc_commit dtor ?w r1 = Inr (Returned, mpsc_wake_consumer r2)"
    using p(1) set_cells_same [of "mpsc_wake_consumer r2"]
    by (simp add: mpsc_commit_def mpsc_written_slot_drop_def uncommitted_is_armed_def
        uncommitted_commit_def uncommitted_armed_def uncommitted_drop_def drop_if_uncommitted_def Let_def)
  then show ?thesis
    using w p
    by (intro exI [of _ ?w] exI [of _ r1] exI [of _ "mpsc_wake_consumer r2"])
      (auto simp: mpsc_write_def writer_at_def consumer_woken_def mpsc_wake_consumer_park
        intro: same_sides_trans)
qed

lemma writer_drop_spec:
  assumes "mpsc_ring_ok h es r" and "i < length es"
  shows "\<exists>r'. mpsc_slot_writer_drop (writer_at (m_capacity r) (h + i)) r = Inr r'
    \<and> mpsc_ring_ok h (es[i := Abandoned]) r' \<and> same_sides r r' \<and> m_dropped r' = m_dropped r
    \<and> consumer_woken r r'"
  using tombstone_claimed [OF assms]
  by (auto simp: mpsc_slot_writer_drop_def writer_at_def consumer_woken_def mpsc_wake_consumer_park)

text \<open>A written value that is not committed is destroyed, and the position tombstoned, panic or not.\<close>

lemma write_drop_spec:
  assumes ok: "mpsc_ring_ok h es r" and i: "i < length es" "es ! i = Claimed"
  shows "\<exists>w r1 r2. mpsc_write (writer_at (m_capacity r) (h + i)) v r = Inr (w, r1)
    \<and> mpsc_written_slot_drop dtor w r1 = Inr (dtor v, r2)
    \<and> mpsc_ring_ok h (es[i := Abandoned]) r2 \<and> same_sides r r2 \<and> m_dropped r2 = m_dropped r @ [v]
    \<and> consumer_woken r r2"
proof -
  obtain r1 where w: "mpsc_write_data (slot_at r (h + i)) v r = Inr r1"
    "mpsc_ring_ok h es r1" "quiet r r1" "data (m_buf r1 ! slot_at r (h + i)) = Some v"
    using write_claimed [OF assms] by blast
  have cap: "m_capacity r1 = m_capacity r" using w(3) by (simp add: same_sides_def)
  obtain r2 where t: "mpsc_set_cells ((mpsc_cells r1)[slot_at r (h + i) := None]) r1 = r2"
    "mpsc_ring_ok h es r2" "quiet r1 r2"
    using take_claimed [OF w(2) i] w(4) cap by auto
  let ?r2 = "r2\<lparr>m_dropped := m_dropped r1 @ [v]\<rparr>"
  have "mpsc_ring_ok h es ?r2" using t(2) by simp
  from tombstone_claimed [OF this i(1)] obtain r3 where
    s: "mpsc_store_word (slot_at r (h + i)) seq_tombstone ?r2 = Inr r3"
      "mpsc_ring_ok h (es[i := Abandoned]) r3" "quiet ?r2 r3"
    using t(3) cap by (auto simp: same_sides_def)
  let ?w = "\<lparr>mv_value = uncommitted_armed (slot_at r (h + i)), mv_slot = slot_at r (h + i),
    mv_pos = of_nat (h + i)\<rparr>"
  have "slot_at r (h + i) < length (m_buf r1)" using claimed_word(1) [OF w(2) i(1)] cap by simp
  then have "mpsc_written_slot_drop dtor ?w r1 = Inr (dtor v, mpsc_wake_consumer r3)"
    using w(4) t(1) s(1) set_cells_same [of "mpsc_wake_consumer r3"]
    by (cases "dtor v")
      (simp_all add: mpsc_written_slot_drop_def uncommitted_is_armed_def uncommitted_armed_def
        uncommitted_drop_def drop_if_uncommitted_def reservation_release_drop_def
        mpsc_cells_def [of r1])
  then show ?thesis
    using w s t(3)
    by (intro exI [of _ ?w] exI [of _ r1] exI [of _ "mpsc_wake_consumer r3"])
      (auto simp: mpsc_write_def writer_at_def consumer_woken_def mpsc_wake_consumer_park same_sides_def)
qed

section \<open>Programs over several producers\<close>

text \<open>
  Producer handles, the reservations outstanding and the ring. An operation names its
  handle or its reservation by index; one with no such handle or reservation does
  nothing. The source allows one reservation per handle at a time, the model any
  number. An event reports what the operation did: the position published and its
  value, or the value taken.
\<close>

type_synonym 'a mpsc = "mpsc_producer list \<times> mpsc_slot_writer list \<times> 'a mpsc_ring"

datatype 'a mpsc_op =
    M_Push nat 'a | M_Reserve nat | M_Commit nat 'a | M_Abandon nat | M_Abandon_Written nat 'a | M_Pop

datatype 'a mpsc_event =
    E_Published nat 'a | E_Refused 'a | E_Reserved bool | E_Abandoned | E_Taken 'a | E_Empty | E_Nothing

definition without :: "nat \<Rightarrow> 'x list \<Rightarrow> 'x list" where
  "without i xs = take i xs @ drop (Suc i) xs"

definition mpsc_sys_push :: "nat \<Rightarrow> 'a \<Rightarrow> 'a mpsc \<Rightarrow> ('a mpsc_event \<times> 'a mpsc) exec" where
  "mpsc_sys_push j v s =
     (case s of (ps, ws, r) \<Rightarrow>
        if j < length ps then
          seq_exec (mpsc_push [] v (ps ! j) r) (\<lambda>(res, p, r').
            Inr (case res of Push_Ok \<Rightarrow> E_Published (unat (tail (m_cursors r))) v | Push_Err v' \<Rightarrow> E_Refused v',
                 ps[j := p], ws, r'))
        else Inr (E_Nothing, s))"

definition mpsc_sys_reserve :: "nat \<Rightarrow> 'a mpsc \<Rightarrow> ('a mpsc_event \<times> 'a mpsc) exec" where
  "mpsc_sys_reserve j s =
     (case s of (ps, ws, r) \<Rightarrow>
        if j < length ps then
          (case mpsc_reserve [] (ps ! j) r of
             (None, p, r') \<Rightarrow> Inr (E_Reserved False, ps[j := p], ws, r')
           | (Some w, p, r') \<Rightarrow> Inr (E_Reserved True, ps[j := p], ws @ [w], r'))
        else Inr (E_Nothing, s))"

definition mpsc_sys_commit :: "nat \<Rightarrow> 'a \<Rightarrow> 'a mpsc \<Rightarrow> ('a mpsc_event \<times> 'a mpsc) exec" where
  "mpsc_sys_commit i v s =
     (case s of (ps, ws, r) \<Rightarrow>
        if i < length ws then
          seq_exec (mpsc_write (ws ! i) v r) (\<lambda>(w, r1).
          seq_exec (mpsc_commit (\<lambda>_. Returned) w r1) (\<lambda>(_, r2).
            Inr (E_Published (unat (mw_pos (ws ! i))) v, ps, without i ws, r2)))
        else Inr (E_Nothing, s))"

definition mpsc_sys_abandon :: "nat \<Rightarrow> 'a mpsc \<Rightarrow> ('a mpsc_event \<times> 'a mpsc) exec" where
  "mpsc_sys_abandon i s =
     (case s of (ps, ws, r) \<Rightarrow>
        if i < length ws then
          seq_exec (mpsc_slot_writer_drop (ws ! i) r) (\<lambda>r1. Inr (E_Abandoned, ps, without i ws, r1))
        else Inr (E_Nothing, s))"

definition mpsc_sys_abandon_written ::
    "('a \<Rightarrow> completion) \<Rightarrow> nat \<Rightarrow> 'a \<Rightarrow> 'a mpsc \<Rightarrow> ('a mpsc_event \<times> 'a mpsc) exec" where
  "mpsc_sys_abandon_written dtor i v s =
     (case s of (ps, ws, r) \<Rightarrow>
        if i < length ws then
          seq_exec (mpsc_write (ws ! i) v r) (\<lambda>(w, r1).
          seq_exec (mpsc_written_slot_drop dtor w r1) (\<lambda>(_, r2).
            Inr (E_Abandoned, ps, without i ws, r2)))
        else Inr (E_Nothing, s))"

definition mpsc_sys_pop :: "'a mpsc \<Rightarrow> ('a option \<times> 'a mpsc) exec" where
  "mpsc_sys_pop s = (case s of (ps, ws, r) \<Rightarrow> seq_exec (mpsc_pop r) (\<lambda>(res, r'). Inr (res, ps, ws, r')))"

fun mpsc_step :: "('a \<Rightarrow> completion) \<Rightarrow> 'a mpsc_op \<Rightarrow> 'a mpsc \<Rightarrow> ('a mpsc_event \<times> 'a mpsc) exec" where
  "mpsc_step dtor (M_Push j v) s = mpsc_sys_push j v s"
| "mpsc_step dtor (M_Reserve j) s = mpsc_sys_reserve j s"
| "mpsc_step dtor (M_Commit i v) s = mpsc_sys_commit i v s"
| "mpsc_step dtor (M_Abandon i) s = mpsc_sys_abandon i s"
| "mpsc_step dtor (M_Abandon_Written i v) s = mpsc_sys_abandon_written dtor i v s"
| "mpsc_step dtor M_Pop s =
     seq_exec (mpsc_sys_pop s) (\<lambda>(res, s').
       Inr (case res of None \<Rightarrow> E_Empty | Some v \<Rightarrow> E_Taken v, s'))"

fun mpsc_run ::
    "('a \<Rightarrow> completion) \<Rightarrow> 'a mpsc_op list \<Rightarrow> 'a mpsc \<Rightarrow> ('a mpsc_event list \<times> 'a mpsc) exec" where
  "mpsc_run dtor [] s = Inr ([], s)"
| "mpsc_run dtor (op # ops) s =
     seq_exec (mpsc_step dtor op s) (\<lambda>(e, s1).
     seq_exec (mpsc_run dtor ops s1) (\<lambda>(es, s2). Inr (e # es, s2)))"

text \<open>The ring as its specification sees it: the first position, the entries, the reservations.\<close>

type_synonym 'a mpsc_spec = "nat \<times> 'a entry list \<times> nat list"

fun spec_step :: "nat \<Rightarrow> nat \<Rightarrow> 'a mpsc_op \<Rightarrow> 'a mpsc_spec \<Rightarrow> 'a mpsc_event \<times> 'a mpsc_spec" where
  "spec_step n m (M_Push j v) (h, es, ns) =
     (if j < m then
        (if length es < n then (E_Published (h + length es) v, h, es @ [Published v], ns)
         else (E_Refused v, h, es, ns))
      else (E_Nothing, h, es, ns))"
| "spec_step n m (M_Reserve j) (h, es, ns) =
     (if j < m then
        (if length es < n then (E_Reserved True, h, es @ [Claimed], ns @ [h + length es])
         else (E_Reserved False, h, es, ns))
      else (E_Nothing, h, es, ns))"
| "spec_step n m (M_Commit i v) (h, es, ns) =
     (if i < length ns then (E_Published (ns ! i) v, h, es[ns ! i - h := Published v], without i ns)
      else (E_Nothing, h, es, ns))"
| "spec_step n m (M_Abandon i) (h, es, ns) =
     (if i < length ns then (E_Abandoned, h, es[ns ! i - h := Abandoned], without i ns)
      else (E_Nothing, h, es, ns))"
| "spec_step n m (M_Abandon_Written i v) (h, es, ns) =
     (if i < length ns then (E_Abandoned, h, es[ns ! i - h := Abandoned], without i ns)
      else (E_Nothing, h, es, ns))"
| "spec_step n m M_Pop (h, es, ns) =
     (case spec_pop es of
        (None, es') \<Rightarrow> (E_Empty, h + length es - length es', es', ns)
      | (Some v, es') \<Rightarrow> (E_Taken v, h + length es - length es', es', ns))"

fun spec_run :: "nat \<Rightarrow> nat \<Rightarrow> 'a mpsc_op list \<Rightarrow> 'a mpsc_spec \<Rightarrow> 'a mpsc_event list \<times> 'a mpsc_spec" where
  "spec_run n m [] a = ([], a)"
| "spec_run n m (op # ops) a =
     (case spec_step n m op a of (e, a1) \<Rightarrow>
      case spec_run n m ops a1 of (es, a2) \<Rightarrow> (e # es, a2))"

text \<open>
  The reservations are exactly the claimed entries, each once, and the handles' cached
  heads are past values of the head.
\<close>

definition claimed_at :: "nat \<Rightarrow> 'a entry list \<Rightarrow> nat set" where
  "claimed_at h es = {n. h \<le> n \<and> n < h + length es \<and> es ! (n - h) = Claimed}"

definition spec_ok :: "'a mpsc_spec \<Rightarrow> bool" where
  "spec_ok a \<longleftrightarrow> (case a of (h, es, ns) \<Rightarrow> distinct ns \<and> set ns = claimed_at h es)"

fun mpsc_rel :: "'a mpsc_spec \<Rightarrow> 'a mpsc \<Rightarrow> bool" where
  "mpsc_rel (h, es, ns) (ps, ws, r) \<longleftrightarrow>
     mpsc_ring_ok h es r \<and> (\<forall>p \<in> set ps. mp_ok h p)
     \<and> spec_ok (h, es, ns) \<and> ws = map (writer_at (m_capacity r)) ns"

lemma set_without: "distinct xs \<Longrightarrow> i < length xs \<Longrightarrow> set (without i xs) = set xs - {xs ! i}"
proof -
  assume d: "distinct xs" and i: "i < length xs"
  have "xs = take i xs @ xs ! i # drop (Suc i) xs" using i by (rule id_take_nth_drop)
  then have "distinct (take i xs @ xs ! i # drop (Suc i) xs)"
    and "set xs = set (take i xs @ xs ! i # drop (Suc i) xs)" using d by simp_all
  then show ?thesis unfolding without_def by auto
qed

lemma distinct_without: "distinct xs \<Longrightarrow> distinct (without i xs)"
  by (simp add: without_def set_take_disj_set_drop_if_distinct)

lemma map_without: "map f (without i xs) = without i (map f xs)"
  by (simp add: without_def take_map drop_map)

lemma claimed_at_snoc:
  "claimed_at h (es @ [Claimed]) = insert (h + length es) (claimed_at h es)"
  "claimed_at h (es @ [Published v]) = claimed_at h es"
  by (auto simp: claimed_at_def nth_append split: if_splits)

lemma claimed_at_fill:
  "n \<in> claimed_at h es \<Longrightarrow> e \<noteq> Claimed \<Longrightarrow> claimed_at h (es[n - h := e]) = claimed_at h es - {n}"
  by (auto simp: claimed_at_def nth_list_update split: if_splits)

lemma claimed_at_Cons: "e \<noteq> Claimed \<Longrightarrow> claimed_at (Suc h) es = claimed_at h (e # es)"
proof -
  assume e: "e \<noteq> Claimed"
  have "n \<in> claimed_at (Suc h) es \<longleftrightarrow> n \<in> claimed_at h (e # es)" for n
    using e by (cases "n = h") (auto simp: claimed_at_def nth_Cons')
  then show ?thesis by blast
qed

lemma claimed_at_pop:
  "spec_pop es = (res, es') \<Longrightarrow>
    length es' \<le> length es \<and> claimed_at (h + length es - length es') es' = claimed_at h es"
proof (induction es arbitrary: h rule: spec_pop.induct)
  case (3 v es)
  then show ?case using claimed_at_Cons [of "Published v" h es] by simp
next
  case (4 es)
  then show ?case using "4.IH" [of "Suc h"] claimed_at_Cons [of "Abandoned" h es] by auto
qed simp_all

lemma claimed_atD:
  assumes "spec_ok (h, es, ns)" and "i < length ns"
  shows "ns ! i \<in> claimed_at h es" "h \<le> ns ! i" "ns ! i - h < length es" "es ! (ns ! i - h) = Claimed"
    "h + (ns ! i - h) = ns ! i"
proof -
  have "ns ! i \<in> set ns" using assms(2) by (rule nth_mem)
  then show c: "ns ! i \<in> claimed_at h es" using assms(1) by (simp add: spec_ok_def)
  show "h \<le> ns ! i" "ns ! i - h < length es" "es ! (ns ! i - h) = Claimed" "h + (ns ! i - h) = ns ! i"
    using c by (auto simp: claimed_at_def)
qed

lemma spec_ok_fill:
  assumes "spec_ok (h, es, ns)" and "i < length ns" and "e \<noteq> Claimed"
  shows "spec_ok (h, es[ns ! i - h := e], without i ns)"
  using assms claimed_atD(1) [OF assms(1,2)]
  by (simp add: spec_ok_def set_without distinct_without claimed_at_fill)

section \<open>Every operation refines its specification\<close>

text \<open>The values the consumer can take now: up to the first reservation still open.\<close>

fun visible :: "'a entry list \<Rightarrow> 'a list" where
  "visible [] = []"
| "visible (Claimed # es) = []"
| "visible (Published v # es) = v # visible es"
| "visible (Abandoned # es) = visible es"

lemma visible_claim [simp]: "visible (es @ [Claimed]) = visible es"
  by (induction es rule: visible.induct) simp_all

text \<open>
  An operation ends as specified; the consumer's parker is woken, or left alone when
  nothing new can be taken (\<open>M_Pop\<close> is the consumer's own).
\<close>

definition steps_to ::
    "'a mpsc_op \<Rightarrow> 'a mpsc_spec \<Rightarrow> 'a mpsc \<Rightarrow> 'a mpsc_event \<Rightarrow> 'a mpsc_spec
      \<Rightarrow> ('a mpsc_event \<times> 'a mpsc) exec \<Rightarrow> bool" where
  "steps_to op a s e a' out \<longleftrightarrow>
     (\<exists>ps' ws' r'. out = Inr (e, ps', ws', r') \<and> mpsc_rel a' (ps', ws', r')
       \<and> length ps' = length (fst s) \<and> same_sides (snd (snd s)) r'
       \<and> (op = M_Pop \<or> consumer_woken (snd (snd s)) r'
          \<or> m_consumer_park r' = m_consumer_park (snd (snd s))
            \<and> visible (fst (snd a')) = visible (fst (snd a))))"

lemma steps_toI:
  assumes "out = Inr (e, ps', ws', r')" and "mpsc_rel a' (ps', ws', r')" and "length ps' = length ps"
    and "same_sides r r'"
    and "op = M_Pop \<or> consumer_woken r r'
      \<or> m_consumer_park r' = m_consumer_park r \<and> visible (fst (snd a')) = visible (fst (snd a))"
  shows "steps_to op a (ps, ws, r) e a' out"
  using assms by (simp add: steps_to_def)

lemma steps_to_nothing: "mpsc_rel a s \<Longrightarrow> steps_to op a s e a (Inr (e, s))"
  by (cases s) (simp add: steps_to_def)

lemma handles_update:
  "\<forall>p \<in> set ps. mp_ok h p \<Longrightarrow> mp_ok h p' \<Longrightarrow> \<forall>p \<in> set (ps[j := p']). mp_ok h p"
  using set_update_subset_insert [of ps j p'] by blast

lemma sys_push_sim:
  assumes rel: "mpsc_rel (h, es, ns) (ps, ws, r)"
    and budget: "h + Suc (length es) + slots (m_capacity r) \<le> POS_LIMIT"
    and "spec_step (slots (m_capacity r)) (length ps) (M_Push j v) (h, es, ns) = (e, a')"
  shows "steps_to (M_Push j v) (h, es, ns) (ps, ws, r) e a' (mpsc_sys_push j v (ps, ws, r))"
proof (cases "j < length ps")
  case False
  then show ?thesis
    using assms(3) steps_to_nothing [OF rel] by (auto simp: mpsc_sys_push_def)
next
  case True
  have ok: "mpsc_ring_ok h es r" and p: "mp_ok h (ps ! j)" using rel True by auto
  obtain p' r' where s: "mp_ok h p'" "same_sides r r'" "if length es < slots (m_capacity r)
     then mpsc_push [] v (ps ! j) r = Inr (Push_Ok, p', r') \<and> mpsc_ring_ok h (es @ [Published v]) r'
       \<and> consumer_woken r r'
     else mpsc_push [] v (ps ! j) r = Inr (Push_Err v, p', r') \<and> r' = r"
    using mpsc_push_spec [OF ok p budget, of v] by blast
  have tl: "unat (tail (m_cursors r)) = h + length es"
    using mpsc_ring_okD(3) [OF ok] slots_hold_small(2) [OF mpsc_ring_okD(1) [OF ok], of "h + length es"]
    by simp
  have "mpsc_rel (h, es', ns) (ps[j := p'], ws, r')"
    if "mpsc_ring_ok h es' r'" "claimed_at h es' = claimed_at h es" for es'
    using that rel s(1,2) handles_update [of ps h p' j] by (auto simp: spec_ok_def same_sides_capacity)
  then show ?thesis
    using assms(3) s True tl rel claimed_at_snoc(2) [of h es v]
    by (intro steps_toI [where ps' = "ps[j := p']" and ws' = ws and r' = r'])
      (auto simp: mpsc_sys_push_def split: if_splits)
qed

lemma sys_reserve_sim:
  assumes rel: "mpsc_rel (h, es, ns) (ps, ws, r)"
    and budget: "h + Suc (length es) + slots (m_capacity r) \<le> POS_LIMIT"
    and "spec_step (slots (m_capacity r)) (length ps) (M_Reserve j) (h, es, ns) = (e, a')"
  shows "steps_to (M_Reserve j) (h, es, ns) (ps, ws, r) e a' (mpsc_sys_reserve j (ps, ws, r))"
proof (cases "j < length ps")
  case False
  then show ?thesis
    using assms(3) steps_to_nothing [OF rel] by (auto simp: mpsc_sys_reserve_def)
next
  case True
  have ok: "mpsc_ring_ok h es r" and p: "mp_ok h (ps ! j)" using rel True by auto
  obtain p' r' where s: "mp_ok h p'" "quiet r r'" "if length es < slots (m_capacity r)
     then mpsc_reserve [] (ps ! j) r = (Some (writer_at (m_capacity r) (h + length es)), p', r')
       \<and> mpsc_ring_ok h (es @ [Claimed]) r'
     else mpsc_reserve [] (ps ! j) r = (None, p', r') \<and> r' = r"
    using mpsc_reserve_spec [OF ok p budget] by blast
  have fresh: "h + length es \<notin> claimed_at h es" by (simp add: claimed_at_def)
  have handles: "\<forall>p \<in> set (ps[j := p']). mp_ok h p" using handles_update [of ps h p' j] rel s(1) by simp
  show ?thesis
  proof (cases "length es < slots (m_capacity r)")
    case False
    then show ?thesis
      using assms(3) s True rel handles
      by (intro steps_toI [where ps' = "ps[j := p']" and ws' = ws and r' = r'])
        (auto simp: mpsc_sys_reserve_def)
  next
    case t: True
    have "spec_ok (h, es @ [Claimed], ns @ [h + length es])"
      using rel fresh claimed_at_snoc(1) [of h es] by (auto simp: spec_ok_def)
    then show ?thesis
      using assms(3) s True t rel handles
      by (intro steps_toI [where ps' = "ps[j := p']" and r' = r'
            and ws' = "ws @ [writer_at (m_capacity r) (h + length es)]"])
        (auto simp: mpsc_sys_reserve_def same_sides_capacity)
  qed
qed

text \<open>The three ways a reservation ends.\<close>

lemma reservation_of:
  assumes rel: "mpsc_rel (h, es, ns) (ps, ws, r)" and i: "i < length ns"
  shows "ws ! i = writer_at (m_capacity r) (h + (ns ! i - h))" and "length ws = length ns"
    and "unat (mw_pos (ws ! i)) = ns ! i"
proof -
  have so: "spec_ok (h, es, ns)" using rel by simp
  show w: "ws ! i = writer_at (m_capacity r) (h + (ns ! i - h))" and "length ws = length ns"
    using rel i claimed_atD(5) [OF so i] by simp_all
  have "slots_hold (m_capacity r) (m_buf r) h es" using rel by (simp add: mpsc_ring_ok_def)
  then show "unat (mw_pos (ws ! i)) = ns ! i"
    using slots_hold_small(2) [of "m_capacity r" "m_buf r" h es "ns ! i"] claimed_atD(3,5) [OF so i] w
    by (simp add: writer_at_def)
qed

lemma reservation_ends:
  assumes rel: "mpsc_rel (h, es, ns) (ps, ws, r)" and i: "i < length ns" and e: "e \<noteq> Claimed"
    and "mpsc_ring_ok h (es[ns ! i - h := e]) r'" and "same_sides r r'"
  shows "mpsc_rel (h, es[ns ! i - h := e], without i ns) (ps, without i ws, r')"
proof -
  have so: "spec_ok (h, es, ns)" using rel by simp
  show ?thesis
    using assms spec_ok_fill [OF so i e]
    by (simp add: map_without same_sides_capacity)
qed

lemma sys_commit_sim:
  assumes rel: "mpsc_rel (h, es, ns) (ps, ws, r)"
    and "spec_step n m (M_Commit i v) (h, es, ns) = (e, a')"
  shows "steps_to (M_Commit i v) (h, es, ns) (ps, ws, r) e a' (mpsc_sys_commit i v (ps, ws, r))"
proof (cases "i < length ns")
  case False
  then show ?thesis
    using assms steps_to_nothing [OF rel] by (auto simp: mpsc_sys_commit_def)
next
  case True
  note w = reservation_of [OF rel True]
  have ok: "mpsc_ring_ok h es r" and so: "spec_ok (h, es, ns)" using rel by simp_all
  obtain x r1 r2 where c: "mpsc_write (ws ! i) v r = Inr (x, r1)"
    "mpsc_commit (\<lambda>_. Returned) x r1 = Inr (Returned, r2)"
    "mpsc_ring_ok h (es[ns ! i - h := Published v]) r2" "same_sides r r2" "consumer_woken r r2"
    using write_commit_spec [OF ok claimed_atD(3,4) [OF so True], of v] unfolding w(1) by blast
  show ?thesis
    using assms(2) True w(2,3) c reservation_ends [OF rel True _ c(3,4)]
    by (intro steps_toI [where ps' = ps and ws' = "without i ws" and r' = r2])
      (auto simp: mpsc_sys_commit_def)
qed

lemma sys_abandon_sim:
  assumes rel: "mpsc_rel (h, es, ns) (ps, ws, r)"
    and "spec_step n m (M_Abandon i) (h, es, ns) = (e, a')"
  shows "steps_to (M_Abandon i) (h, es, ns) (ps, ws, r) e a' (mpsc_sys_abandon i (ps, ws, r))"
proof (cases "i < length ns")
  case False
  then show ?thesis
    using assms steps_to_nothing [OF rel] by (auto simp: mpsc_sys_abandon_def)
next
  case True
  note w = reservation_of [OF rel True]
  have ok: "mpsc_ring_ok h es r" and so: "spec_ok (h, es, ns)" using rel by simp_all
  obtain r2 where c: "mpsc_slot_writer_drop (ws ! i) r = Inr r2"
    "mpsc_ring_ok h (es[ns ! i - h := Abandoned]) r2" "same_sides r r2" "consumer_woken r r2"
    using writer_drop_spec [OF ok claimed_atD(3) [OF so True]] unfolding w(1) by blast
  show ?thesis
    using assms(2) True w(2) c reservation_ends [OF rel True _ c(2,3)]
    by (intro steps_toI [where ps' = ps and ws' = "without i ws" and r' = r2])
      (auto simp: mpsc_sys_abandon_def)
qed

lemma sys_abandon_written_sim:
  assumes rel: "mpsc_rel (h, es, ns) (ps, ws, r)"
    and "spec_step n m (M_Abandon_Written i v) (h, es, ns) = (e, a')"
  shows "steps_to (M_Abandon_Written i v) (h, es, ns) (ps, ws, r) e a'
    (mpsc_sys_abandon_written dtor i v (ps, ws, r))"
proof (cases "i < length ns")
  case False
  then show ?thesis
    using assms steps_to_nothing [OF rel] by (auto simp: mpsc_sys_abandon_written_def)
next
  case True
  note w = reservation_of [OF rel True]
  have ok: "mpsc_ring_ok h es r" and so: "spec_ok (h, es, ns)" using rel by simp_all
  obtain x r1 r2 where c: "mpsc_write (ws ! i) v r = Inr (x, r1)"
    "mpsc_written_slot_drop dtor x r1 = Inr (dtor v, r2)"
    "mpsc_ring_ok h (es[ns ! i - h := Abandoned]) r2" "same_sides r r2" "consumer_woken r r2"
    using write_drop_spec [OF ok claimed_atD(3,4) [OF so True], of v dtor] unfolding w(1) by blast
  show ?thesis
    using assms(2) True w(2) c reservation_ends [OF rel True _ c(3,4)]
    by (intro steps_toI [where ps' = ps and ws' = "without i ws" and r' = r2])
      (auto simp: mpsc_sys_abandon_written_def)
qed

lemma sys_pop_sim:
  assumes rel: "mpsc_rel (h, es, ns) (ps, ws, r)" and sp: "spec_pop es = (res, es')"
  shows "\<exists>r'. mpsc_sys_pop (ps, ws, r) = Inr (res, ps, ws, r')
    \<and> mpsc_rel (h + length es - length es', es', ns) (ps, ws, r')
    \<and> same_sides r r' \<and> m_consumer_park r' = m_consumer_park r"
proof -
  have ok: "mpsc_ring_ok h es r" and so: "spec_ok (h, es, ns)" using rel by simp_all
  let ?h = "h + length es - length es'"
  obtain r' where r': "mpsc_pop r = Inr (res, r')" "mpsc_ring_ok ?h es' r'" "length es' \<le> length es"
    "same_sides r r'" "m_consumer_park r' = m_consumer_park r"
    using mpsc_pop_spec [OF ok sp] by blast
  have "\<forall>p \<in> set ps. mp_ok ?h p"
  proof
    fix p assume "p \<in> set ps"
    then have "mp_ok h p" using rel by simp
    then show "mp_ok ?h p" by (rule mp_ok_mono) (use r'(3) in simp)
  qed
  then have "mpsc_rel (?h, es', ns) (ps, ws, r')"
    using rel r' so claimed_at_pop [OF sp, of h] by (simp add: spec_ok_def same_sides_capacity)
  then show ?thesis using r' by (simp add: mpsc_sys_pop_def)
qed

lemma mpsc_step_sim:
  assumes rel: "mpsc_rel (h, es, ns) (ps, ws, r)"
    and budget: "h + Suc (length es) + slots (m_capacity r) \<le> POS_LIMIT"
    and spec: "spec_step (slots (m_capacity r)) (length ps) op (h, es, ns) = (e, a')"
  shows "steps_to op (h, es, ns) (ps, ws, r) e a' (mpsc_step dtor op (ps, ws, r))"
proof (cases op)
  case (M_Push j v)
  then show ?thesis using sys_push_sim [OF rel budget] spec by simp
next
  case (M_Reserve j)
  then show ?thesis using sys_reserve_sim [OF rel budget] spec by simp
next
  case (M_Commit i v)
  then show ?thesis using sys_commit_sim [OF rel] spec by simp
next
  case (M_Abandon i)
  then show ?thesis using sys_abandon_sim [OF rel] spec by simp
next
  case (M_Abandon_Written i v)
  then show ?thesis using sys_abandon_written_sim [OF rel] spec by simp
next
  case M_Pop
  obtain res es' where sp: "spec_pop es = (res, es')" by (metis prod.exhaust)
  obtain r' where "mpsc_sys_pop (ps, ws, r) = Inr (res, ps, ws, r')"
    "mpsc_rel (h + length es - length es', es', ns) (ps, ws, r')" "same_sides r r'"
    using sys_pop_sim [OF rel sp] by blast
  then show ?thesis
    using spec M_Pop sp
    by (intro steps_toI [where ps' = ps and ws' = ws and r' = r']) (auto split: option.splits)
qed

end
