(* ===== verification/Mpsc_Programs.thy ===== *)
theory Mpsc_Programs
  imports Mpsc_Correct "HOL-Library.Multiset" "HOL-Library.Sublist"
begin

text \<open>
  Programs over several producers of the mpsc ring: they run as the specification by
  entries says, and the values come out in the order in which their positions were
  claimed, whatever the order in which they were committed.
\<close>

section \<open>From a fresh ring\<close>

fun mpsc_clones :: "nat \<Rightarrow> 'a mpsc_ring \<Rightarrow> mpsc_producer list \<times> 'a mpsc_ring" where
  "mpsc_clones 0 r = ([], r)"
| "mpsc_clones (Suc m) r =
     (case mpsc_clone r of (p, r1) \<Rightarrow> case mpsc_clones m r1 of (ps, r2) \<Rightarrow> (p # ps, r2))"

text \<open>A split and \<open>m\<close> clones.\<close>

definition mpsc_start :: "nat \<Rightarrow> 'a mpsc_ring \<Rightarrow> 'a mpsc" where
  "mpsc_start m r =
     (case mpsc_split r of (p, r1) \<Rightarrow> case mpsc_clones m r1 of (ps, r2) \<Rightarrow> (p # ps, [], r2))"

lemma mpsc_clones_spec:
  assumes "mpsc_clones m r = (ps, r')"
  shows "length ps = m \<and> (\<forall>p \<in> set ps. mp_ok h p) \<and> mpsc_ring_ok h es r' = mpsc_ring_ok h es r
    \<and> m_capacity r' = m_capacity r \<and> m_closed r' = m_closed r \<and> m_dropped r' = m_dropped r"
  using assms
proof (induction m r arbitrary: ps r' rule: mpsc_clones.induct)
  case (1 r)
  then show ?case by simp
next
  case (2 m r)
  obtain p r1 where c: "mpsc_clone r = (p, r1)" by (metis prod.exhaust)
  obtain qs r2 where q: "mpsc_clones m r1 = (qs, r2)" by (metis prod.exhaust)
  have "mp_ok h p \<and> mpsc_ring_ok h es r1 = mpsc_ring_ok h es r \<and> m_capacity r1 = m_capacity r
    \<and> m_closed r1 = m_closed r \<and> m_dropped r1 = m_dropped r"
    using c by (auto simp: mpsc_clone_def mp_ok_def Let_def intro: exI [of _ 0] split: prod.splits)
  then show ?case using "2.IH" [OF c [symmetric] q] "2.prems" c q by auto
qed

lemma slots_hold_fresh:
  assumes "wf_capacity c" and "slots c \<le> POS_LIMIT"
  shows "slots_hold c (map (\<lambda>i. slot_free_at (of_nat i)) [0..<slots c]) 0 []"
  using assms by (simp add: slots_hold_def slot_of_of_nat slot_free_at_def seq_free_at_def)

lemma mpsc_start_rel:
  assumes "wf_capacity c" and "slots c \<le> POS_LIMIT"
  shows "\<exists>r. mpsc_new c = Inr (r :: 'a mpsc_ring) \<and> m_capacity r = c \<and> m_dropped r = []
    \<and> mpsc_rel (0, [], []) (mpsc_start m r) \<and> length (fst (mpsc_start m r)) = Suc m
    \<and> m_capacity (snd (snd (mpsc_start m r))) = c \<and> m_dropped (snd (snd (mpsc_start m r))) = []
    \<and> \<not> is_closed (m_closed (snd (snd (mpsc_start m r))))"
proof -
  have pos: "0 < capacity_get c" using slots_pos [OF assms(1)] by (simp add: capacity_get_def word_less_nat_alt)
  then obtain r :: "'a mpsc_ring" where r: "mpsc_new c = Inr r" "m_capacity r = c" "m_dropped r = []"
    "m_closed r = close_state_new" "mpsc_ring_ok 0 [] r"
    using slots_hold_fresh [OF assms]
    by (simp add: mpsc_new_def aligned_buf_new_with_def capacity_get_def mpsc_ring_ok_def)
  obtain p r1 where s: "mpsc_split r = (p, r1)" by (metis prod.exhaust)
  obtain ps r2 where c: "mpsc_clones m r1 = (ps, r2)" by (metis prod.exhaust)
  have "mp_ok 0 p" "mpsc_ring_ok 0 [] r1 = mpsc_ring_ok 0 [] r" "m_capacity r1 = m_capacity r"
    "m_closed r1 = m_closed r" "m_dropped r1 = m_dropped r"
    using s by (auto simp: mpsc_split_def split: prod.splits)
  then show ?thesis
    using r mpsc_clones_spec [OF c, of 0 "[]"] s c
    by (intro exI [of _ r]) (auto simp: mpsc_start_def spec_ok_def claimed_at_def)
qed

section \<open>Runs\<close>

lemma spec_pop_length: "spec_pop es = (res, es') \<Longrightarrow> length es' \<le> length es"
  using claimed_at_pop [of es res es' 0] by simp

lemma spec_step_tail:
  "spec_step n m op (h, es, ns) = (e, h', es', ns') \<Longrightarrow> h' + length es' \<le> Suc (h + length es)"
  using spec_pop_length by (cases op) (fastforce split: if_splits prod.splits option.splits)+

lemma mpsc_run_sim:
  assumes "mpsc_rel (h, es, ns) (ps, ws, r)"
    and "h + length es + length ops + slots (m_capacity r) \<le> POS_LIMIT"
    and "spec_run (slots (m_capacity r)) (length ps) ops (h, es, ns) = (evs, a')"
  shows "\<exists>s'. mpsc_run dtor ops (ps, ws, r) = Inr (evs, s') \<and> mpsc_rel a' s'
    \<and> m_capacity (snd (snd s')) = m_capacity r"
  using assms
proof (induction ops arbitrary: h es ns ps ws r evs)
  case Nil
  then show ?case by auto
next
  case (Cons op ops)
  obtain e h1 es1 ns1 where st: "spec_step (slots (m_capacity r)) (length ps) op (h, es, ns) = (e, h1, es1, ns1)"
    by (metis prod.exhaust)
  have "h + Suc (length es) + slots (m_capacity r) \<le> POS_LIMIT" using Cons.prems(2) by simp
  from mpsc_step_sim [OF Cons.prems(1) this st, of dtor] obtain ps1 ws1 r1 where
    step: "mpsc_step dtor op (ps, ws, r) = Inr (e, ps1, ws1, r1)" "mpsc_rel (h1, es1, ns1) (ps1, ws1, r1)"
      "length ps1 = length ps" "m_capacity r1 = m_capacity r"
    by (auto simp: steps_to_def same_sides_def)
  have "h1 + length es1 + length ops + slots (m_capacity r1) \<le> POS_LIMIT"
    using spec_step_tail [OF st] Cons.prems(2) step(4) by simp
  from Cons.IH [OF step(2) this] Cons.prems(3) st step show ?case
    by (auto split: prod.splits)
qed

text \<open>
  C4. Any program of pushes, reservations, commits, abandonments and pops over any number
  of producers of a fresh mpsc ring runs without a fault and reports, event by event,
  what the specification by entries says: a claim is refused exactly when as many
  positions are open as the ring has slots, a pop skips abandoned positions, takes the
  first published value and stops at a reservation still open.
\<close>

theorem mpsc_refines_entries:
  assumes "wf_capacity c" and "mpsc_new c = Inr r" and "length ops + slots c \<le> POS_LIMIT"
    and "spec_run (slots c) (Suc m) ops (0, [], []) = (evs, a)"
  shows "\<exists>s. mpsc_run dtor ops (mpsc_start m r) = Inr (evs, s) \<and> mpsc_rel a s"
proof -
  have "slots c \<le> POS_LIMIT" using assms(3) by simp
  from mpsc_start_rel [OF assms(1) this, where 'a = 'a and m = m] obtain r0 :: "'a mpsc_ring"
    where "mpsc_new c = Inr r0" and start: "mpsc_rel (0, [], []) (mpsc_start m r0)"
      "length (fst (mpsc_start m r0)) = Suc m" "m_capacity (snd (snd (mpsc_start m r0))) = c" by blast
  then have "r0 = r" using assms(2) by simp
  obtain ps ws r1 where s: "mpsc_start m r = (ps, ws, r1)" by (metis prod.exhaust)
  show ?thesis
    using mpsc_run_sim [of 0 "[]" "[]" ps ws r1 ops evs a dtor] start assms(3,4)
    unfolding \<open>r0 = r\<close> s by auto
qed

theorem mpsc_refines_entries_witness:
  "\<exists>r s. mpsc_new cap2 = Inr r \<and>
    mpsc_run (\<lambda>_. Returned)
      [M_Reserve 0, M_Push 1 (7 :: nat), M_Push 1 8, M_Pop, M_Commit 0 9, M_Pop, M_Reserve 1, M_Abandon 0, M_Pop, M_Pop]
      (mpsc_start 1 r)
    = Inr ([E_Reserved True, E_Published 1 7, E_Refused 8, E_Empty, E_Published 0 9, E_Taken 9,
        E_Reserved True, E_Abandoned, E_Taken 7, E_Empty], s)
    \<and> mpsc_rel (3, [], []) s"
proof -
  let ?ops = "[M_Reserve 0, M_Push 1 (7 :: nat), M_Push 1 8, M_Pop, M_Commit 0 9, M_Pop, M_Reserve 1,
    M_Abandon 0, M_Pop, M_Pop]"
  obtain r :: "nat mpsc_ring" where r: "mpsc_new cap2 = Inr r"
    using mpsc_start_rel [OF cap2_wf] by (auto simp: slots_cap2 POS_LIMIT_def)
  have "spec_run (slots cap2) (Suc 1) ?ops (0, [], []) =
    ([E_Reserved True, E_Published 1 7, E_Refused 8, E_Empty, E_Published 0 9, E_Taken 9,
      E_Reserved True, E_Abandoned, E_Taken 7, E_Empty], 3, [], [])"
    by (simp add: slots_cap2 without_def)
  then show ?thesis
    using mpsc_refines_entries [OF cap2_wf r, of ?ops 1 _ _ "\<lambda>_. Returned"] r
    by (auto simp: slots_cap2 POS_LIMIT_def)
qed

section \<open>Claim order\<close>

fun published :: "'a mpsc_event list \<Rightarrow> (nat \<times> 'a) list" where
  "published [] = []"
| "published (E_Published n v # evs) = (n, v) # published evs"
| "published (_ # evs) = published evs"

fun taken :: "'a mpsc_event list \<Rightarrow> 'a list" where
  "taken [] = []"
| "taken (E_Taken v # evs) = v # taken evs"
| "taken (_ # evs) = taken evs"

text \<open>The published entries with their positions.\<close>

fun holding :: "nat \<Rightarrow> 'a entry list \<Rightarrow> (nat \<times> 'a) list" where
  "holding h [] = []"
| "holding h (Published v # es) = (h, v) # holding (Suc h) es"
| "holding h (_ # es) = holding (Suc h) es"

lemma in_holding:
  "(n, v) \<in> set (holding h es) \<longleftrightarrow> h \<le> n \<and> n < h + length es \<and> es ! (n - h) = Published v"
proof (induction h es rule: holding.induct [case_names empty published claimed abandoned])
  case (published h w es)
  then show ?case by (cases "n = h") (auto simp: nth_Cons')
next
  case (claimed h es)
  then show ?case by (cases "n = h") (auto simp: nth_Cons')
next
  case (abandoned h es)
  then show ?case by (cases "n = h") (auto simp: nth_Cons')
qed simp

lemma holding_sorted: "sorted (map fst (holding h es)) \<and> distinct (map fst (holding h es))"
proof (induction h es rule: holding.induct)
  case (2 h w es)
  then show ?case by (force simp: in_holding)
qed simp_all

lemma holding_snoc:
  "set (holding h (es @ [Published v])) = insert (h + length es, v) (set (holding h es))"
  "set (holding h (es @ [Claimed])) = set (holding h es)"
  by (auto simp: in_holding nth_append split: if_splits)

lemma holding_fill:
  assumes "n \<in> claimed_at h es"
  shows "set (holding h (es[n - h := Published v])) = insert (n, v) (set (holding h es))"
    and "set (holding h (es[n - h := Abandoned])) = set (holding h es)"
  using assms by (auto simp: in_holding claimed_at_def nth_list_update split: if_splits)

lemma holding_pop:
  "spec_pop es = (res, es') \<Longrightarrow>
    (case res of None \<Rightarrow> holding h es = holding (h + length es - length es') es'
     | Some v \<Rightarrow> \<exists>n < h + length es - length es'.
         holding h es = (n, v) # holding (h + length es - length es') es')"
proof (induction es arbitrary: h rule: spec_pop.induct)
  case (4 es)
  then show ?case using "4.IH" [of "Suc h"] by (cases res) simp_all
qed auto

text \<open>
  What has come out, followed by what is held, is everything published, in the order of
  the positions.
\<close>

definition in_claim_order :: "nat \<Rightarrow> 'a entry list \<Rightarrow> (nat \<times> 'a) list \<Rightarrow> 'a list \<Rightarrow> bool" where
  "in_claim_order h es log out \<longleftrightarrow>
     (\<exists>gone. map snd gone = out \<and> (\<forall>(n, _) \<in> set gone. n < h)
       \<and> sorted (map fst gone) \<and> distinct (map fst gone)
       \<and> set gone \<union> set (holding h es) = set log \<and> distinct (map fst log))"

lemma in_claim_order_sorts:
  assumes "in_claim_order h es log out"
  shows "map snd (sort_key fst log) = out @ map snd (holding h es)" and "distinct (map fst log)"
proof -
  obtain gone where g: "map snd gone = out" "\<forall>(n, _) \<in> set gone. n < h"
    "sorted (map fst gone)" "distinct (map fst gone)"
    "set gone \<union> set (holding h es) = set log" "distinct (map fst log)"
    using assms by (auto simp: in_claim_order_def)
  let ?all = "gone @ holding h es"
  have "distinct (map fst ?all)" "sorted (map fst ?all)"
    using g(2-4) holding_sorted [of h es] by (fastforce simp: sorted_append in_holding)+
  moreover have "mset log = mset ?all"
    using g(5,6) \<open>distinct (map fst ?all)\<close>
    by (intro iffD1 [OF set_eq_iff_mset_eq_distinct]) (auto simp: distinct_map)
  moreover have "inj_on fst (set log)" using g(6) by (simp add: distinct_map)
  ultimately have "sort_key fst log = ?all" by (intro sort_key_inj_key_eq)
  then show "map snd (sort_key fst log) = out @ map snd (holding h es)" using g(1) by simp
  show "distinct (map fst log)" by (rule g(6))
qed

lemma in_claim_order_publish:
  assumes "in_claim_order h es log out" and "set (holding h es') = insert (n, v) (set (holding h es))"
    and "n \<notin> fst ` set log"
  shows "in_claim_order h es' (log @ [(n, v)]) out"
proof -
  obtain gone where g: "map snd gone = out" "\<forall>(n, _) \<in> set gone. n < h"
    "sorted (map fst gone)" "distinct (map fst gone)"
    "set gone \<union> set (holding h es) = set log" "distinct (map fst log)"
    using assms(1) by (auto simp: in_claim_order_def)
  then show ?thesis
    using assms(2,3) unfolding in_claim_order_def by (intro exI [of _ gone]) auto
qed

lemma in_claim_order_same:
  "in_claim_order h es log out \<Longrightarrow> set (holding h es') = set (holding h es) \<Longrightarrow>
    in_claim_order h es' log out"
  by (simp add: in_claim_order_def)

lemma in_claim_order_pop:
  assumes "in_claim_order h es log out" and sp: "spec_pop es = (res, es')"
  shows "in_claim_order (h + length es - length es') es' log
    (case res of None \<Rightarrow> out | Some v \<Rightarrow> out @ [v])"
proof -
  let ?h = "h + length es - length es'"
  obtain gone where g: "map snd gone = out" "\<forall>(n, _) \<in> set gone. n < h"
    "sorted (map fst gone)" "distinct (map fst gone)"
    "set gone \<union> set (holding h es) = set log" "distinct (map fst log)"
    using assms(1) by (auto simp: in_claim_order_def)
  have le: "h \<le> ?h" using spec_pop_length [OF sp] by simp
  show ?thesis
  proof (cases res)
    case None
    then show ?thesis
      using g le holding_pop [OF sp, of h] unfolding in_claim_order_def
      by (intro exI [of _ gone]) (auto dest: less_le_trans)
  next
    case (Some v)
    then obtain n where n: "n < ?h" "holding h es = (n, v) # holding ?h es'"
      using holding_pop [OF sp, of h] by auto
    have "h \<le> n" using n(2) in_holding [of n v h es] by simp
    then have "sorted (map fst (gone @ [(n, v)])) \<and> distinct (map fst (gone @ [(n, v)]))"
      using g(2-4) by (fastforce simp: sorted_append)
    moreover have "\<forall>(n, _) \<in> set (gone @ [(n, v)]). n < ?h" using g(2) n(1) le by force
    moreover have "set (gone @ [(n, v)]) \<union> set (holding ?h es') = set log" using g(5) n(2) by auto
    ultimately show ?thesis
      using Some g(1,6) unfolding in_claim_order_def by (intro exI [of _ "gone @ [(n, v)]"]) simp
  qed
qed

text \<open>A position being published was still claimed, so it is not in the log.\<close>

lemma in_claim_order_fresh:
  assumes "in_claim_order h es log out" and "n \<in> claimed_at h es \<or> h + length es \<le> n"
  shows "n \<notin> fst ` set log"
proof
  assume "n \<in> fst ` set log"
  then obtain v where "(n, v) \<in> set log" by force
  then consider "n < h" | "(n, v) \<in> set (holding h es)"
    using assms(1) unfolding in_claim_order_def by blast
  then show False using assms(2) by cases (auto simp: in_holding claimed_at_def)
qed

lemma spec_step_order:
  assumes "spec_step n m op (h, es, ns) = (e, h', es', ns')" and "spec_ok (h, es, ns)"
    and "in_claim_order h es log out"
  shows "spec_ok (h', es', ns') \<and> in_claim_order h' es' (log @ published [e]) (out @ taken [e])"
proof (cases op)
  case (M_Push j v)
  then show ?thesis
    using assms in_claim_order_publish [OF assms(3) holding_snoc(1)]
      in_claim_order_fresh [OF assms(3), of "h + length es"] claimed_at_snoc(2) [of h es]
    by (auto simp: spec_ok_def split: if_splits)
next
  case (M_Reserve j)
  have "h + length es \<notin> claimed_at h es" by (simp add: claimed_at_def)
  then show ?thesis
    using M_Reserve assms in_claim_order_same [OF assms(3) holding_snoc(2)] claimed_at_snoc(1) [of h es]
    by (auto simp: spec_ok_def split: if_splits)
next
  case (M_Commit i v)
  show ?thesis
  proof (cases "i < length ns")
    case True
    note c = claimed_atD(1) [OF assms(2) True]
    show ?thesis
      using M_Commit True assms(1) spec_ok_fill [OF assms(2) True, of "Published v"]
        in_claim_order_publish [OF assms(3) holding_fill(1) [OF c]]
        in_claim_order_fresh [OF assms(3) disjI1 [OF c]] by auto
  qed (use M_Commit assms in auto)
next
  case (M_Abandon i)
  show ?thesis
  proof (cases "i < length ns")
    case True
    note c = claimed_atD(1) [OF assms(2) True]
    show ?thesis
      using M_Abandon True assms(1) spec_ok_fill [OF assms(2) True, of Abandoned]
        in_claim_order_same [OF assms(3) holding_fill(2) [OF c]] by auto
  qed (use M_Abandon assms in auto)
next
  case (M_Abandon_Written i v)
  show ?thesis
  proof (cases "i < length ns")
    case True
    note c = claimed_atD(1) [OF assms(2) True]
    show ?thesis
      using M_Abandon_Written True assms(1) spec_ok_fill [OF assms(2) True, of Abandoned]
        in_claim_order_same [OF assms(3) holding_fill(2) [OF c]] by auto
  qed (use M_Abandon_Written assms in auto)
next
  case M_Pop
  obtain res es1 where sp: "spec_pop es = (res, es1)" by (metis prod.exhaust)
  show ?thesis
    using M_Pop sp assms(1,2) in_claim_order_pop [OF assms(3) sp] claimed_at_pop [OF sp, of h]
    by (cases res) (auto simp: spec_ok_def)
qed

lemma published_append: "published (xs @ ys) = published xs @ published ys"
  by (induction xs rule: published.induct) simp_all

lemma taken_append: "taken (xs @ ys) = taken xs @ taken ys"
  by (induction xs rule: taken.induct) simp_all

lemma spec_run_order:
  assumes "spec_run n m ops (h, es, ns) = (evs, h', es', ns')" and "spec_ok (h, es, ns)"
    and "in_claim_order h es log out"
  shows "spec_ok (h', es', ns') \<and> in_claim_order h' es' (log @ published evs) (out @ taken evs)"
  using assms
proof (induction ops arbitrary: h es ns log out evs)
  case Nil
  then show ?case by simp
next
  case (Cons op ops)
  obtain e h1 es1 ns1 where st: "spec_step n m op (h, es, ns) = (e, h1, es1, ns1)"
    by (metis prod.exhaust)
  obtain evs1 where run: "spec_run n m ops (h1, es1, ns1) = (evs1, h', es', ns')" "evs = e # evs1"
    using Cons.prems(1) st by (auto split: prod.splits)
  have "published evs = published [e] @ published evs1" "taken evs = taken [e] @ taken evs1"
    using published_append [of "[e]" evs1] taken_append [of "[e]" evs1] run(2) by simp_all
  then show ?case
    using spec_step_order [OF st Cons.prems(2,3)]
      Cons.IH [OF run(1), of "log @ published [e]" "out @ taken [e]"] by (simp del: published.simps taken.simps)
qed

lemma holding_drained:
  "spec_pop es = (None, es') \<Longrightarrow> claimed_at h es = {} \<Longrightarrow> holding h es = []"
proof (induction es arbitrary: h rule: spec_pop.induct)
  case (2 es)
  then have "h \<notin> claimed_at h (Claimed # es)" by simp
  then show ?case by (simp add: claimed_at_def)
next
  case (4 es)
  then show ?case using claimed_at_Cons [of Abandoned h es] by simp
qed simp_all

text \<open>
  C11. Whatever the program: no position is published twice, the values come out in the
  order in which their positions were claimed, each at most once, whatever the order
  of the commits; and when no reservation is open and a pop finds nothing, every value
  published has come out.
\<close>

theorem mpsc_values_leave_in_claim_order:
  assumes "wf_capacity c" and "mpsc_new c = Inr r" and "length ops + slots c \<le> POS_LIMIT"
  shows "\<exists>evs ps ws r'. mpsc_run dtor ops (mpsc_start m r) = Inr (evs, ps, ws, r')
    \<and> distinct (map fst (published evs))
    \<and> prefix (taken evs) (map snd (sort_key fst (published evs)))
    \<and> (ws = [] \<and> (\<exists>r''. mpsc_pop r' = Inr (None, r''))
        \<longrightarrow> taken evs = map snd (sort_key fst (published evs)))"
proof -
  have "slots c \<le> POS_LIMIT" using assms(3) by simp
  from mpsc_start_rel [OF assms(1) this, where 'a = 'a and m = m] obtain r0 :: "'a mpsc_ring"
    where "mpsc_new c = Inr r0" and start: "mpsc_rel (0, [], []) (mpsc_start m r0)"
      "length (fst (mpsc_start m r0)) = Suc m" "m_capacity (snd (snd (mpsc_start m r0))) = c" by blast
  then have r0: "r0 = r" using assms(2) by simp
  obtain ps0 ws0 r1 where s: "mpsc_start m r = (ps0, ws0, r1)" by (metis prod.exhaust)
  obtain evs h es ns where spec: "spec_run (slots c) (Suc m) ops (0, [], []) = (evs, h, es, ns)"
    by (metis prod.exhaust)
  obtain ps ws r' where run: "mpsc_run dtor ops (mpsc_start m r) = Inr (evs, ps, ws, r')"
    and rel: "mpsc_rel (h, es, ns) (ps, ws, r')"
    using mpsc_run_sim [of 0 "[]" "[]" ps0 ws0 r1 ops evs "(h, es, ns)" dtor] start assms(3) spec
    unfolding r0 s by auto
  have empty: "spec_ok (0, [] :: 'a entry list, [])" "in_claim_order 0 [] [] ([] :: 'a list)"
    by (simp_all add: in_claim_order_def spec_ok_def claimed_at_def)
  have order: "in_claim_order h es (published evs) (taken evs)"
    using spec_run_order [OF spec empty] by simp
  note sorts = in_claim_order_sorts [OF order]
  have "taken evs = map snd (sort_key fst (published evs))"
    if none: "ws = []" "mpsc_pop r' = Inr (None, r'')" for r''
  proof -
    obtain res es' where sp: "spec_pop es = (res, es')" by (metis prod.exhaust)
    have "res = None"
      using mpsc_pop_spec [of h es r', OF _ sp] rel none(2) by auto
    moreover have "claimed_at h es = {}" using rel none(1) by (auto simp: spec_ok_def)
    ultimately have "holding h es = []" using holding_drained sp by blast
    then show ?thesis using sorts(1) by simp
  qed
  then show ?thesis using run sorts by (intro exI [of _ evs] exI [of _ ps] exI [of _ ws] exI [of _ r']) auto
qed

theorem mpsc_values_leave_in_claim_order_witness:
  "\<exists>r evs ps ws r'. mpsc_new cap2 = Inr r
    \<and> mpsc_run (\<lambda>_. Returned) [M_Reserve 0, M_Push 1 (7 :: nat), M_Commit 0 9, M_Pop] (mpsc_start 1 r)
        = Inr (evs, ps, ws, r')
    \<and> distinct (map fst (published evs)) \<and> prefix (taken evs) (map snd (sort_key fst (published evs)))"
proof -
  obtain r :: "nat mpsc_ring" where r: "mpsc_new cap2 = Inr r"
    using mpsc_start_rel [OF cap2_wf] by (auto simp: slots_cap2 POS_LIMIT_def)
  show ?thesis
    using mpsc_values_leave_in_claim_order [OF cap2_wf r,
        of "[M_Reserve 0, M_Push 1 7, M_Commit 0 9, M_Pop]" "\<lambda>_. Returned" 1] r
    by (auto simp: slots_cap2 POS_LIMIT_def)
qed

end
