(* ===== verification/Mpsc_Release.thy ===== *)
theory Mpsc_Release
  imports Mpsc_Programs Ring_Cells
begin

text \<open>
  The mpsc consumer's other ways of taking values: batched drains, the zero-copy reader,
  and the drops of the consumer and of the ring. Each returns every position it
  passes, tombstones included, and destroys a value at most once, also when user code
  panics.
\<close>

section \<open>Draining\<close>

text \<open>What a drain does to the entries: it feeds what it can take, and skips what was abandoned.\<close>

fun drain_entries ::
    "('s \<Rightarrow> 'a \<Rightarrow> 's \<times> completion) \<Rightarrow> usize option \<Rightarrow> usize \<Rightarrow> 's \<Rightarrow> 'a entry list
      \<Rightarrow> completion \<times> usize \<times> 's \<times> 'a entry list" where
  "drain_entries f limit n st [] = (Returned, n, st, [])"
| "drain_entries f limit n st (e # es) =
     (if \<not> below_limit n limit then (Returned, n, st, e # es)
      else case e of
             Claimed \<Rightarrow> (Returned, n, st, e # es)
           | Abandoned \<Rightarrow> drain_entries f limit n st es
           | Published v \<Rightarrow>
               (case f st v of
                  (st1, Panicked) \<Rightarrow> (Panicked, n + 1, st1, es)
                | (st1, Returned) \<Rightarrow> drain_entries f limit (n + 1) st1 es))"

lemma drain_entries_feed:
  "drain_entries f limit n st es = (fin, n', st', es') \<Longrightarrow>
    feed f limit n st (visible es) = (fin, n', st', visible es')"
proof (induction f limit n st es rule: drain_entries.induct)
  case (1 f limit n st)
  then show ?case by simp
next
  case (2 f limit n st e es)
  show ?case
  proof (cases "below_limit n limit")
    case False
    then have "fin = Returned \<and> n' = n \<and> st' = st \<and> es' = e # es" using "2.prems" by auto
    moreover have "feed f limit n st q = (Returned, n, st, q)" for q
      using False by (cases q) simp_all
    ultimately show ?thesis by simp
  next
    case True
    show ?thesis
    proof (cases e)
      case Claimed
      then show ?thesis using "2.prems" True by auto
    next
      case Abandoned
      then show ?thesis using "2.prems" True "2.IH"(2) by simp
    next
      case (Published v)
      obtain st1 c where f: "f st v = (st1, c)" by (metis prod.exhaust)
      then show ?thesis
        using "2.prems" True Published "2.IH"(1) [of v st1 Returned] by (cases c) auto
    qed
  qed
qed

lemma drain_entries_suffix:
  "drain_entries f limit n st es = (fin, n', st', es') \<Longrightarrow> length es' \<le> length es"
proof (induction f limit n st es rule: drain_entries.induct)
  case (2 f limit n st e es)
  then show ?case
    by (cases e) (auto split: if_splits prod.splits completion.splits dest: le_SucI intro: le_SucI)
qed simp

text \<open>
  The loop: the head is not published yet, so the slots and the batch carry the position.
\<close>

definition batch_at :: "nat \<Rightarrow> nat \<Rightarrow> usize \<Rightarrow> batch_release \<Rightarrow> bool" where
  "batch_at h released delivered b \<longleftrightarrow>
     br_head b = of_nat h \<and> br_released b = of_nat released \<and> br_delivered b = delivered"

lemma batch_at_steps:
  "batch_at h k d b \<Longrightarrow> batch_at (Suc h) (Suc k) d (batch_skip b)"
  "batch_at h k d b \<Longrightarrow> batch_at (Suc h) (Suc k) (d + 1) (batch_take b)"
  by (simp_all add: batch_at_def batch_skip_def batch_take_def add.commute)

abbreviation idle_sides :: "'a mpsc_ring \<Rightarrow> 'a mpsc_ring \<Rightarrow> bool" where
  "idle_sides r r' \<equiv> same_sides r r' \<and> m_cursors r' = m_cursors r \<and> m_dropped r' = m_dropped r
     \<and> m_consumer_park r' = m_consumer_park r \<and> m_producer_park r' = m_producer_park r
     \<and> m_unparked r' = m_unparked r"

lemma mpsc_drain_loop_spec:
  assumes "slots_hold (m_capacity r) (m_buf r) h es" and "batch_at h k n b"
    and "drain_entries f limit n st es = (fin, n', st', es')"
  shows "\<exists>b' r'. mpsc_drain_loop f limit b st r = Inr (fin, b', st', r')
    \<and> slots_hold (m_capacity r') (m_buf r') (h + length es - length es') es'
    \<and> batch_at (h + length es - length es') (k + length es - length es') n' b' \<and> idle_sides r r'"
  using assms
proof (induction f limit n st es arbitrary: h k b r rule: drain_entries.induct)
  case (1 f limit n st)
  then show ?case
    using head_slot [OF "1.prems"(1)]
    by (subst mpsc_drain_loop.simps)
      (auto simp: batch_at_def batch_delivered_def batch_position_def Let_def)
next
  case (2 f limit n st e es)
  note hold = "2.prems"(1) and at = "2.prems"(2)
  note head = head_slot [OF hold]
  have b: "batch_delivered b = n" "batch_position b = of_nat h"
    using at by (simp_all add: batch_at_def batch_delivered_def batch_position_def)
  show ?case
  proof (cases "below_limit n limit")
    case False
    then show ?thesis
      using "2.prems" b by (subst mpsc_drain_loop.simps) auto
  next
    case True
    show ?thesis
    proof (cases e)
      case Claimed
      then show ?thesis
        using "2.prems" b True head by (subst mpsc_drain_loop.simps) (auto simp: Let_def)
    next
      case Abandoned
      obtain r1 where r1: "mpsc_release_slot (of_nat h) r = Inr r1"
        "slots_hold (m_capacity r1) (m_buf r1) (Suc h) es" "idle_sides r r1"
        using release_slot_spec [OF hold] by blast
      have "mpsc_drain_loop f limit b st r = mpsc_drain_loop f limit (batch_skip b) st r1"
        using b True head Abandoned r1(1) by (subst mpsc_drain_loop.simps) (simp add: Let_def)
      moreover have "drain_entries f limit n st es = (fin, n', st', es')"
        using "2.prems"(3) True Abandoned by simp
      ultimately show ?thesis
        using "2.IH"(2) [OF _ Abandoned r1(2) batch_at_steps(1) [OF at]] True r1(3)
        by (auto intro: same_sides_trans)
    next
      case (Published v)
      have hold': "slots_hold (m_capacity r) (m_buf r) h (Published v # es)" using hold Published by simp
      obtain r1 r2 where t: "mpsc_take_data (mpsc_slot r (of_nat h)) r = Inr (v, r1)"
        "mpsc_release_slot (of_nat h) r1 = Inr r2"
        "slots_hold (m_capacity r2) (m_buf r2) (Suc h) es" "idle_sides r r2"
        using take_head_spec [OF hold'] by blast
      obtain st1 c where fv: "f st v = (st1, c)" by (metis prod.exhaust)
      have run: "mpsc_drain_loop f limit b st r = (case c of
          Panicked \<Rightarrow> Inr (Panicked, batch_take b, st1, r2)
        | Returned \<Rightarrow> mpsc_drain_loop f limit (batch_take b) st1 r2)"
        using b True head Published t(1,2) fv
        by (subst mpsc_drain_loop.simps) (simp add: Let_def split: completion.splits)
      show ?thesis
      proof (cases c)
        case Panicked
        then show ?thesis
          using run t(3,4) batch_at_steps(2) [OF at] "2.prems"(3) True Published fv by auto
      next
        case Returned
        then have "drain_entries f limit (n + 1) st1 es = (fin, n', st', es')"
          using "2.prems"(3) True Published fv by simp
        then show ?thesis
          using "2.IH"(1) [OF _ Published fv [symmetric] Returned t(3) batch_at_steps(2) [OF at]]
            True run Returned t(4)
          by (auto intro: same_sides_trans)
      qed
    qed
  qed
qed

text \<open>Dropping the batch publishes the head once and wakes as many producers as it released slots.\<close>

lemma batch_drop_spec:
  assumes "batch_at (h + k) k d b" and "slots_hold (m_capacity r) (m_buf r) (h + k) es"
    and "head (m_cursors r) = of_nat h" and "tail (m_cursors r) = of_nat (h + k + length es)"
    and "k \<le> slots (m_capacity r)"
  shows "mpsc_ring_ok (h + k) es (batch_drop b r)"
    and "m_producer_park (batch_drop b r)
      = (if k = 0 then m_producer_park r else snd (ws_wake_n (of_nat k) (m_producer_park r)))"
proof -
  have z: "br_released b = 0 \<longleftrightarrow> k = 0"
    using assms(1) of_nat_eq_0_slots [OF assms(5)] by (simp add: batch_at_def)
  show "mpsc_ring_ok (h + k) es (batch_drop b r)"
    using assms z by (auto simp: batch_drop_def mpsc_ring_ok_def batch_at_def)
  show "m_producer_park (batch_drop b r)
      = (if k = 0 then m_producer_park r else snd (ws_wake_n (of_nat k) (m_producer_park r)))"
    using assms(1) z by (simp add: batch_drop_def mpsc_wake_producers_def case_prod_beta batch_at_def)
qed

lemma batch_drop_sides:
  "same_sides r (batch_drop b r)" "m_dropped (batch_drop b r) = m_dropped r"
  "m_consumer_park (batch_drop b r) = m_consumer_park r"
  by (simp_all add: batch_drop_def same_sides_def)

lemma mpsc_drain_spec:
  assumes ok: "mpsc_ring_ok h es r" and dr: "drain_entries f limit 0 st es = (fin, n, st', es')"
  shows "\<exists>r'. mpsc_drain_up_to limit f st r = Inr (fin, n, st', r')
    \<and> mpsc_ring_ok (h + (length es - length es')) es' r' \<and> same_sides r r' \<and> m_dropped r' = m_dropped r
    \<and> m_consumer_park r' = m_consumer_park r
    \<and> m_producer_park r' = (if length es' = length es then m_producer_park r
        else snd (ws_wake_n (of_nat (length es - length es')) (m_producer_park r)))"
proof -
  let ?k = "length es - length es'"
  have le: "length es' \<le> length es" by (rule drain_entries_suffix [OF dr])
  have "batch_at h 0 0 (batch_new (of_nat h))" by (simp add: batch_at_def batch_new_def)
  from mpsc_drain_loop_spec [OF mpsc_ring_okD(1) [OF ok] this dr] obtain b r1 where
    run: "mpsc_drain_loop f limit (batch_new (of_nat h)) st r = Inr (fin, b, st', r1)"
    and hold: "slots_hold (m_capacity r1) (m_buf r1) (h + ?k) es'"
    and at: "batch_at (h + ?k) ?k n b" and idle: "idle_sides r r1"
    using le by auto
  have "?k \<le> slots (m_capacity r1)"
    using slots_holdD(3) [OF mpsc_ring_okD(1) [OF ok]] idle by (simp add: same_sides_def)
  moreover have "tail (m_cursors r1) = of_nat (h + ?k + length es')"
    using idle mpsc_ring_okD(3) [OF ok] le by simp
  moreover have "head (m_cursors r1) = of_nat h" using idle mpsc_ring_okD(2) [OF ok] by simp
  ultimately have "mpsc_ring_ok (h + ?k) es' (batch_drop b r1)"
    "m_producer_park (batch_drop b r1) = (if ?k = 0 then m_producer_park r1
      else snd (ws_wake_n (of_nat ?k) (m_producer_park r1)))"
    using batch_drop_spec [OF at hold] by blast+
  then show ?thesis
    using run at idle le mpsc_ring_okD(2) [OF ok] batch_drop_sides [where r = r1 and b = b]
    by (intro exI [of _ "batch_drop b r1"])
      (auto simp: mpsc_drain_up_to_def batch_delivered_def batch_at_def intro: same_sides_trans)
qed

lemma drain_entries_drop:
  "drain_entries f limit n st es = (fin, n', st', es') \<Longrightarrow> es' = drop (length es - length es') es"
proof (induction f limit n st es rule: drain_entries.induct)
  case (2 f limit n st e es)
  show ?case
  proof (cases "es' = e # es")
    case False
    then have "length es' \<le> length es \<and> es' = drop (length es - length es') es"
      using "2.prems" "2.IH" drain_entries_suffix
      by (cases e) (fastforce split: if_splits prod.splits completion.splits)+
    then show ?thesis by (simp add: Suc_diff_le)
  qed simp
qed simp

section \<open>Rings to start from\<close>

lemma mpsc_reaches:
  assumes "wf_capacity c" and "length es \<le> slots c" and "2 * slots c \<le> POS_LIMIT"
  shows "\<exists>r :: 'a mpsc_ring. mpsc_ring_ok 0 es r \<and> m_capacity r = c"
  using assms(2)
proof (induction es rule: rev_induct)
  case Nil
  have "slots c \<le> POS_LIMIT" using assms(3) by simp
  from mpsc_start_rel [OF assms(1) this, where 'a = 'a and m = 0]
  show ?case by (cases "mpsc_start 0 (undefined :: 'a mpsc_ring)") (metis mpsc_rel.simps prod.collapse)
next
  case (snoc e es)
  then obtain r :: "'a mpsc_ring" where r: "mpsc_ring_ok 0 es r" "m_capacity r = c" by auto
  have room: "length es < slots (m_capacity r)" using snoc.prems r(2) by simp
  have budget: "0 + Suc (length es) + slots (m_capacity r) \<le> POS_LIMIT"
    using assms(3) snoc.prems r(2) by simp
  obtain p' r1 where "quiet r r1" and c: "mpsc_ring_ok 0 (es @ [Claimed]) r1"
    using claim_spec [OF r(1) mp_ok_new [of 0 SOLE] budget] room by auto
  then have cap: "m_capacity r1 = c" using r(2) by (simp add: same_sides_def)
  show ?case
  proof (cases e)
    case Claimed
    then show ?thesis using c cap by blast
  next
    case (Published v)
    then show ?thesis
      using write_commit_spec [OF c, of "length es" v] cap by (auto simp: same_sides_def)
  next
    case Abandoned
    then show ?thesis
      using writer_drop_spec [OF c, of "length es"] cap by (auto simp: same_sides_def)
  qed
qed

lemma mpsc_reaches_cap2:
  "length es \<le> 2 \<Longrightarrow> \<exists>r :: 'a mpsc_ring. mpsc_ring_ok 0 es r \<and> m_capacity r = cap2"
  using mpsc_reaches [OF cap2_wf] by (simp add: slots_cap2 POS_LIMIT_def)

text \<open>
  C26. A drain feeds the values it can take to the callback in claim order, up to the
  limit and through a panic, as a queue's drain would; the positions it passed, the
  abandoned ones among them, are released and published at once, and as many parked
  producers woken, even when no value came out.
\<close>

theorem mpsc_drain_releases_what_it_passes:
  assumes "mpsc_ring_ok h es r"
  shows "\<exists>fin n st' r' k. mpsc_drain_up_to limit f st r = Inr (fin, n, st', r')
    \<and> k \<le> length es \<and> mpsc_ring_ok (h + k) (drop k es) r'
    \<and> feed f limit 0 st (visible es) = (fin, n, st', visible (drop k es))
    \<and> m_dropped r' = m_dropped r
    \<and> m_producer_park r' = (if k = 0 then m_producer_park r
        else snd (ws_wake_n (of_nat k) (m_producer_park r)))"
proof -
  obtain fin n st' es' where dr: "drain_entries f limit 0 st es = (fin, n, st', es')"
    by (metis prod.exhaust)
  let ?k = "length es - length es'"
  have "length es' = length es \<longleftrightarrow> ?k = 0" using drain_entries_suffix [OF dr] by auto
  then show ?thesis
    using mpsc_drain_spec [OF assms dr] drain_entries_feed [OF dr] drain_entries_drop [OF dr]
    by (intro exI [of _ fin] exI [of _ n] exI [of _ st']) (auto intro!: exI [of _ ?k])
qed

theorem mpsc_drain_releases_what_it_passes_witness:
  "\<exists>r fin n st' r' k. mpsc_ring_ok 0 [Abandoned, Published (7 :: nat)] r
    \<and> mpsc_drain_up_to None (\<lambda>st v. (st + v, Panicked)) 0 r = Inr (fin, n, st', r')
    \<and> mpsc_ring_ok (0 + k) (drop k [Abandoned, Published 7]) r'
    \<and> feed (\<lambda>st v. (st + v, Panicked)) None 0 0 (visible [Abandoned, Published 7])
        = (fin, n, st', visible (drop k [Abandoned, Published 7]))"
proof -
  obtain r :: "nat mpsc_ring" where "mpsc_ring_ok 0 [Abandoned, Published 7] r"
    using mpsc_reaches_cap2 [of "[Abandoned, Published (7 :: nat)]"] by auto
  then show ?thesis
    using mpsc_drain_releases_what_it_passes [of 0 "[Abandoned, Published 7]" r None
        "\<lambda>st v. (st + v, Panicked)" 0] by blast
qed

section \<open>The gate and the reader\<close>

fun skip_abandoned :: "'a entry list \<Rightarrow> 'a entry list" where
  "skip_abandoned (Abandoned # es) = skip_abandoned es"
| "skip_abandoned es = es"

lemma skip_abandoned_visible: "visible (skip_abandoned es) = visible es"
  by (induction es rule: skip_abandoned.induct) simp_all

lemma skip_abandoned_cases:
  obtains "skip_abandoned es = []" "visible es = []"
  | es' where "skip_abandoned es = Claimed # es'" "visible es = []"
  | v es' where "skip_abandoned es = Published v # es'" "visible es = v # visible es'"
proof -
  have "(skip_abandoned es = [] \<and> visible es = [])
      \<or> (\<exists>es'. skip_abandoned es = Claimed # es' \<and> visible es = [])
      \<or> (\<exists>v es'. skip_abandoned es = Published v # es' \<and> visible es = v # visible es')"
    by (induction es rule: skip_abandoned.induct) simp_all
  then show thesis using that by blast
qed

lemma skip_abandoned_length: "length (skip_abandoned es) \<le> length es"
  by (induction es rule: skip_abandoned.induct) simp_all

text \<open>What the gate, the pop and the reader's pop do before they look at a value.\<close>

lemma ready_for_claim_spec:
  assumes "mpsc_ring_ok h es r"
  shows "\<exists>r'. mpsc_ready_for_claim r = Inr (visible es \<noteq> [], r')
    \<and> mpsc_ring_ok (h + length es - length (skip_abandoned es)) (skip_abandoned es) r'
    \<and> same_sides r r' \<and> m_dropped r' = m_dropped r \<and> m_consumer_park r' = m_consumer_park r"
  using assms
proof (induction es arbitrary: h r rule: skip_abandoned.induct [case_names tombstone empty claimed published])
  case (tombstone es)
  obtain r1 where r1: "mpsc_release_tombstone (of_nat h) r = Inr r1" "mpsc_ring_ok (Suc h) es r1"
    "same_sides r r1" "m_dropped r1 = m_dropped r" "m_consumer_park r1 = m_consumer_park r"
    using release_tombstone_spec [OF tombstone.prems] by blast
  have "mpsc_ready_for_claim r = mpsc_ready_for_claim r1"
    using head_slot [OF mpsc_ring_okD(1) [OF tombstone.prems]] mpsc_ring_okD(2) [OF tombstone.prems] r1(1)
    by (subst mpsc_ready_for_claim.simps) (simp add: Let_def)
  then show ?case
    using tombstone.IH [OF r1(2)] r1(3-5) by (auto intro: same_sides_trans)
next
  case empty
  then show ?case
    using head_slot [OF mpsc_ring_okD(1) [OF empty.prems]] mpsc_ring_okD(2) [OF empty.prems]
    by (subst mpsc_ready_for_claim.simps) (auto simp: Let_def)
next
  case (claimed es)
  then show ?case
    using head_slot [OF mpsc_ring_okD(1) [OF claimed.prems]] mpsc_ring_okD(2) [OF claimed.prems]
    by (subst mpsc_ready_for_claim.simps) (auto simp: Let_def)
next
  case (published v es)
  then show ?case
    using head_slot [OF mpsc_ring_okD(1) [OF published.prems]] mpsc_ring_okD(2) [OF published.prems]
    by (subst mpsc_ready_for_claim.simps) (auto simp: Let_def)
qed

lemma mpsc_pop_ref_spec:
  assumes "mpsc_ring_ok h es r"
  shows "\<exists>r'. mpsc_pop_ref r = Inr (if visible es = [] then None
        else Some \<lparr>mr_slot = slot_of (m_capacity r) (of_nat (h + length es - length (skip_abandoned es))),
          mr_head = of_nat (h + length es - length (skip_abandoned es))\<rparr>, r')
    \<and> mpsc_ring_ok (h + length es - length (skip_abandoned es)) (skip_abandoned es) r'
    \<and> same_sides r r' \<and> m_dropped r' = m_dropped r \<and> m_consumer_park r' = m_consumer_park r"
  using assms
proof (induction es arbitrary: h r rule: skip_abandoned.induct [case_names tombstone empty claimed published])
  case (tombstone es)
  obtain r1 where r1: "mpsc_release_tombstone (of_nat h) r = Inr r1" "mpsc_ring_ok (Suc h) es r1"
    "same_sides r r1" "m_dropped r1 = m_dropped r" "m_consumer_park r1 = m_consumer_park r"
    using release_tombstone_spec [OF tombstone.prems] by blast
  have "mpsc_pop_ref r = mpsc_pop_ref r1"
    using head_slot [OF mpsc_ring_okD(1) [OF tombstone.prems]] mpsc_ring_okD(2) [OF tombstone.prems] r1(1)
    by (subst mpsc_pop_ref.simps) (simp add: Let_def)
  moreover have "m_capacity r1 = m_capacity r" using r1(3) by (simp add: same_sides_def)
  ultimately show ?case
    using tombstone.IH [OF r1(2)] r1(3-5) by (auto intro: same_sides_trans)
next
  case empty
  then show ?case
    using head_slot [OF mpsc_ring_okD(1) [OF empty.prems]] mpsc_ring_okD(2) [OF empty.prems]
    by (subst mpsc_pop_ref.simps) (auto simp: Let_def mpsc_slot_def)
next
  case (claimed es)
  then show ?case
    using head_slot [OF mpsc_ring_okD(1) [OF claimed.prems]] mpsc_ring_okD(2) [OF claimed.prems]
    by (subst mpsc_pop_ref.simps) (auto simp: Let_def mpsc_slot_def)
next
  case (published v es)
  then show ?case
    using head_slot [OF mpsc_ring_okD(1) [OF published.prems]] mpsc_ring_okD(2) [OF published.prems]
    by (subst mpsc_pop_ref.simps) (auto simp: Let_def mpsc_slot_def)
qed

lemma reader_drop_spec:
  assumes ok: "mpsc_ring_ok h (Published v # es) r"
  shows "\<exists>r'. mpsc_reader_deref \<lparr>mr_slot = slot_at r h, mr_head = of_nat h\<rparr> r = Inr v
    \<and> mpsc_reader_drop dtor \<lparr>mr_slot = slot_at r h, mr_head = of_nat h\<rparr> r = Inr (dtor v, r')
    \<and> mpsc_ring_ok (Suc h) es r' \<and> same_sides r r' \<and> m_dropped r' = m_dropped r @ [v]"
proof -
  note hold = mpsc_ring_okD(1) [OF ok]
  have i: "slot_at r h < length (m_buf r)" by (rule slots_hold_slot [OF hold])
  have d: "data (m_buf r ! slot_at r h) = Some v" using slots_hold_head [OF hold] by simp
  obtain r1 r2 where t: "mpsc_take_data (mpsc_slot r (of_nat h)) r = Inr (v, r1)"
    "mpsc_release_slot (of_nat h) r1 = Inr r2"
    "slots_hold (m_capacity r2) (m_buf r2) (Suc h) es" "idle_sides r r2"
    using take_head_spec [OF hold] by blast
  have cap: "m_capacity r1 = m_capacity r" by (rule take_data_word(2) [OF t(1)])
  let ?r = "r2\<lparr>m_dropped := m_dropped r1 @ [v], m_cursors := publish_head (m_cursors r2) (of_nat h + 1)\<rparr>"
  have "mpsc_release_slot (of_nat h) (r1\<lparr>m_dropped := ds\<rparr>) = Inr (r2\<lparr>m_dropped := ds\<rparr>)" for ds
    using t(2) by (auto simp: mpsc_release_slot_def mpsc_store_word_def mpsc_load_slot_def mpsc_slot_def
        split: if_splits)
  then have "slot_release_drop (slot_at r h) (of_nat h) (r1\<lparr>m_dropped := m_dropped r1 @ [v]\<rparr>)
      = Inr (mpsc_wake_producer ?r)"
    using cap by (simp add: slot_release_drop_def mpsc_release_slot_def mpsc_slot_def)
  moreover have "m_dropped r1 = m_dropped r"
    using t(1) by (auto simp: mpsc_take_data_def seq_exec_eq_Inr mpsc_set_cells_def)
  moreover have "mpsc_ring_ok (Suc h) es ?r"
    using t(3,4) mpsc_ring_okD [OF ok] by (simp add: mpsc_ring_ok_def add.commute)
  ultimately show ?thesis
    using i d t(1,4)
    by (intro exI [of _ "mpsc_wake_producer ?r"])
      (simp add: mpsc_reader_deref_def mpsc_cells_def mpsc_reader_drop_def mpsc_slot_def same_sides_def)
qed

text \<open>
  C27. The gate of the blocking reader tells the truth: it answers yes exactly when the
  consumer can take a value, whatever tombstones stand in the way, and then the pop
  that follows returns a reader, on that value. Dropping the reader destroys the value
  once and releases its slot, also when the destructor panics.
\<close>

theorem mpsc_gate_then_reader:
  assumes "mpsc_ring_ok h es r"
  shows "\<exists>r1. mpsc_ready_for_claim r = Inr (visible es \<noteq> [], r1) \<and>
    (case visible es of
       [] \<Rightarrow> \<exists>r2. mpsc_pop_ref r1 = Inr (None, r2) \<and> m_dropped r2 = m_dropped r
     | v # q \<Rightarrow> \<exists>rd r2 r3 h' es'. mpsc_pop_ref r1 = Inr (Some rd, r2)
         \<and> mpsc_reader_deref rd r2 = Inr v \<and> mpsc_reader_drop dtor rd r2 = Inr (dtor v, r3)
         \<and> mpsc_ring_ok h' es' r3 \<and> visible es' = q \<and> m_dropped r3 = m_dropped r @ [v])"
proof -
  let ?es = "skip_abandoned es" and ?h = "h + length es - length (skip_abandoned es)"
  obtain r1 where r1: "mpsc_ready_for_claim r = Inr (visible es \<noteq> [], r1)" "mpsc_ring_ok ?h ?es r1"
    "m_dropped r1 = m_dropped r"
    using ready_for_claim_spec [OF assms] by blast
  have again: "skip_abandoned ?es = ?es" by (cases es rule: skip_abandoned_cases) simp_all
  obtain r2 where r2: "mpsc_pop_ref r1 = Inr (if visible es = [] then None
      else Some \<lparr>mr_slot = slot_of (m_capacity r1) (of_nat ?h), mr_head = of_nat ?h\<rparr>, r2)"
    "mpsc_ring_ok ?h ?es r2" "m_capacity r2 = m_capacity r1" "m_dropped r2 = m_dropped r"
    using mpsc_pop_ref_spec [OF r1(2)] r1(3) unfolding again skip_abandoned_visible
    by (auto simp: same_sides_def)
  show ?thesis
  proof (cases es rule: skip_abandoned_cases)
    case (3 v es')
    have "mpsc_ring_ok ?h (Published v # es') r2" using r2(2) 3 by simp
    from reader_drop_spec [OF this, of dtor] show ?thesis
      using r1(1) r2 3 by fastforce
  qed (use r1(1) r2 in auto)
qed

theorem mpsc_gate_then_reader_witness:
  "\<exists>r r1 rd r2 r3 h' es'. mpsc_ring_ok 0 [Abandoned, Published (7 :: nat)] r
    \<and> mpsc_ready_for_claim r = Inr (True, r1) \<and> mpsc_pop_ref r1 = Inr (Some rd, r2)
    \<and> mpsc_reader_deref rd r2 = Inr 7 \<and> mpsc_reader_drop (\<lambda>_. Panicked) rd r2 = Inr (Panicked, r3)
    \<and> mpsc_ring_ok h' es' r3 \<and> visible es' = [] \<and> m_dropped r3 = m_dropped r @ [7]"
proof -
  obtain r :: "nat mpsc_ring" where "mpsc_ring_ok 0 [Abandoned, Published 7] r"
    using mpsc_reaches_cap2 [of "[Abandoned, Published (7 :: nat)]"] by auto
  with mpsc_gate_then_reader [OF this, of "\<lambda>_. Panicked"] show ?thesis by simp blast
qed

section \<open>Nothing is destroyed twice\<close>

text \<open>The values in the ring, those behind an open reservation included.\<close>

fun contents :: "'a entry list \<Rightarrow> 'a list" where
  "contents [] = []"
| "contents (Published v # es) = v # contents es"
| "contents (_ # es) = contents es"

lemma spec_pop_values:
  "spec_pop es = (res, es') \<Longrightarrow>
    visible es = (case res of None \<Rightarrow> visible es' | Some v \<Rightarrow> v # visible es')
    \<and> contents es = (case res of None \<Rightarrow> contents es' | Some v \<Rightarrow> v # contents es')
    \<and> (res = None \<longrightarrow> visible es' = [])"
  by (induction es rule: spec_pop.induct) auto

lemma mpsc_pop_and_drop_all_spec:
  assumes "mpsc_ring_ok h es r" and "drop_run dtor (visible es) = (fin, ds, rest)"
  shows "\<exists>h' es' r'. mpsc_pop_and_drop_all dtor r = Inr (fin, r') \<and> mpsc_ring_ok h' es' r'
    \<and> visible es' = rest \<and> contents es = ds @ contents es' \<and> m_dropped r' = m_dropped r @ ds
    \<and> same_sides r r'"
  using assms
proof (induction "visible es" arbitrary: h es r ds)
  case Nil
  obtain res es' where sp: "spec_pop es = (res, es')" by (metis prod.exhaust)
  have res: "res = None" using spec_pop_values [OF sp] Nil.hyps by (cases res) auto
  obtain r' where "mpsc_pop r = Inr (None, r')" "mpsc_ring_ok (h + length es - length es') es' r'"
    "same_sides r r'" "m_dropped r' = m_dropped r"
    using mpsc_pop_spec [OF Nil.prems(1) sp] res by auto
  then show ?case
    using spec_pop_values [OF sp] res Nil
    by (subst mpsc_pop_and_drop_all.simps)
      (auto intro!: exI [of _ "h + length es - length es'"] exI [of _ es'])
next
  case (Cons v q)
  obtain res es' where sp: "spec_pop es = (res, es')" by (metis prod.exhaust)
  have res: "res = Some v" "visible es' = q" "contents es = v # contents es'"
    using spec_pop_values [OF sp] Cons.hyps(2) by (cases res; simp)+
  obtain r1 where r1: "mpsc_pop r = Inr (Some v, r1)" "mpsc_ring_ok (h + length es - length es') es' r1"
    "same_sides r r1" "m_dropped r1 = m_dropped r"
    using mpsc_pop_spec [OF Cons.prems(1) sp] res(1) by auto
  let ?r2 = "r1\<lparr>m_dropped := m_dropped r1 @ [v]\<rparr>"
  have ok2: "mpsc_ring_ok (h + length es - length es') es' ?r2" using r1(2) by simp
  show ?case
  proof (cases "dtor v")
    case Panicked
    then have "mpsc_pop_and_drop_all dtor r = Inr (Panicked, ?r2)"
      using r1(1) by (subst mpsc_pop_and_drop_all.simps) simp
    moreover have "fin = Panicked" "ds = [v]" "rest = q"
      using Cons.prems(2) Cons.hyps(2) [symmetric] Panicked by simp_all
    ultimately show ?thesis using ok2 r1(3,4) res by fastforce
  next
    case Returned
    obtain ds1 where ds1: "drop_run dtor (visible es') = (fin, ds1, rest)" "ds = v # ds1"
      using Cons.prems(2) Cons.hyps(2) [symmetric] Returned res(2) by (auto split: prod.splits)
    have "mpsc_pop_and_drop_all dtor r = mpsc_pop_and_drop_all dtor ?r2"
      using r1(1) Returned by (subst mpsc_pop_and_drop_all.simps) simp
    moreover obtain h2 es2 r' where "mpsc_pop_and_drop_all dtor ?r2 = Inr (fin, r')"
      "mpsc_ring_ok h2 es2 r'" "visible es2 = rest" "contents es' = ds1 @ contents es2"
      "m_dropped r' = m_dropped ?r2 @ ds1" "same_sides ?r2 r'"
      using Cons.hyps(1) [OF res(2) [symmetric] ok2 ds1(1)] by blast
    ultimately show ?thesis
      using ds1(2) r1(3,4) res(3)
      by (intro exI [of _ h2] exI [of _ es2] exI [of _ r']) (simp add: same_sides_def)
  qed
qed

text \<open>The ring's drop walks the positions from the head to the tail.\<close>

lemma mpsc_drop_positions_spec:
  assumes "\<forall>i < length es. entry_ok (h + i) (es ! i) (m_buf r ! slot_at r (h + i))"
    and "wf_capacity (m_capacity r)" and "length (m_buf r) = slots (m_capacity r)"
    and "length es \<le> slots (m_capacity r)" and "h + length es \<le> POS_LIMIT"
    and "drop_run dtor (contents es) = (fin, ds, rest)"
  shows "\<exists>r'. mpsc_drop_positions dtor (map of_nat [h..<h + length es]) r = Inr (fin, r')
    \<and> m_dropped r' = m_dropped r @ ds"
  using assms
proof (induction es arbitrary: h r ds)
  case Nil
  then show ?case by simp
next
  case (Cons e es)
  let ?i = "slot_at r h"
  let ?s = "m_buf r ! ?i"
  have upt: "map of_nat [h..<h + length (e # es)] = (of_nat h :: usize) # map of_nat [Suc h..<Suc h + length es]"
    by (simp add: upt_conv_Cons del: upt_Suc)
  have first: "entry_ok h e ?s" using Cons.prems(1) by (auto dest: spec [of _ 0])
  have load: "mpsc_load_slot r (mpsc_slot r (of_nat h)) = Inr ?s"
    using Cons.prems(2,3) slot_of_lt [OF Cons.prems(2)] by (simp add: mpsc_load_slot_def mpsc_slot_def)
  have later: "\<forall>i < length es. entry_ok (Suc h + i) (es ! i)
      (((m_buf r)[?i := s]) ! slot_at r (Suc h + i))" for s
  proof (intro allI impI)
    fix i assume i: "i < length es"
    then have "slot_of (m_capacity r) (of_nat (h + 0)) \<noteq> slot_of (m_capacity r) (of_nat (h + Suc i))"
      by (intro slot_of_window_ne [OF Cons.prems(2)]) (use Cons.prems(4) in simp_all)
    then show "entry_ok (Suc h + i) (es ! i) (((m_buf r)[?i := s]) ! slot_at r (Suc h + i))"
      using spec [OF Cons.prems(1), of "Suc i"] i by (simp add: add.assoc add.left_commute)
  qed
  have small: "h < 2 ^ 63" "h < POS_LIMIT" using Cons.prems(5) by (simp_all add: POS_LIMIT_def)
  show ?case
  proof (cases "\<exists>v. e = Published v")
    case True
    then obtain v where v: "e = Published v" by blast
    let ?r1 = "r\<lparr>m_buf := (m_buf r)[?i := ?s\<lparr>data := None\<rparr>], m_dropped := m_dropped r @ [v]\<rparr>"
    have drop: "drop_value_at ?s (of_nat h) = Inr ([v], ?s\<lparr>data := None\<rparr>)"
      using first v by (simp add: drop_value_at_def seq_holds_value_at_def)
    show ?thesis
    proof (cases "dtor v")
      case Panicked
      then show ?thesis
        using Cons.prems(6) v drop load unfolding upt
        by (auto simp: mpsc_slot_def Let_def simp del: upt_Suc)
    next
      case Returned
      then obtain ds1 where ds1: "drop_run dtor (contents es) = (fin, ds1, rest)" "ds = v # ds1"
        using Cons.prems(6) v by (auto split: prod.splits)
      have "\<exists>r'. mpsc_drop_positions dtor (map of_nat [Suc h..<Suc h + length es]) ?r1 = Inr (fin, r')
        \<and> m_dropped r' = m_dropped ?r1 @ ds1"
        by (rule Cons.IH [OF _ _ _ _ _ ds1(1)]) (use later Cons.prems(2-5) in \<open>simp_all del: upt_Suc\<close>)
      then show ?thesis
        using v drop load Returned ds1(2) unfolding upt
        by (auto simp: mpsc_slot_def Let_def simp del: upt_Suc)
    qed
  next
    case False
    then have "drop_value_at ?s (of_nat h) = Inr ([], ?s)"
      using first free_not_published [OF small(1) small(1)] published_not_tombstone [OF small(2)]
      by (cases e) (auto simp: drop_value_at_def seq_holds_value_at_def)
    moreover have "contents (e # es) = contents es" using False by (cases e) simp_all
    moreover have "\<exists>r'. mpsc_drop_positions dtor (map of_nat [Suc h..<Suc h + length es]) r = Inr (fin, r')
        \<and> m_dropped r' = m_dropped r @ ds"
      by (rule Cons.IH) (use later [of ?s] Cons.prems \<open>contents (e # es) = contents es\<close> in simp_all)
    ultimately show ?thesis using load unfolding upt
      by (auto simp: mpsc_slot_def Let_def simp del: upt_Suc)
  qed
qed

lemma mpsc_ring_drop_spec:
  assumes ok: "mpsc_ring_ok h es r" and "drop_run dtor (contents es) = (fin, ds, rest)"
  shows "\<exists>r'. mpsc_ring_drop dtor r = Inr (fin, r') \<and> m_dropped r' = m_dropped r @ ds"
proof -
  note hold = mpsc_ring_okD(1) [OF ok]
  note d = slots_holdD [OF hold]
  have "unat (head (m_cursors r)) = h" "unat (tail (m_cursors r)) = h + length es"
    using mpsc_ring_okD(2,3) [OF ok] slots_hold_small(2) [OF hold, of h]
      slots_hold_small(2) [OF hold, of "h + length es"] by simp_all
  then have "occupied (m_cursors r) = map of_nat [h..<h + length es]" by (simp add: occupied_def)
  moreover have "\<forall>i < length es. entry_ok (h + i) (es ! i) (m_buf r ! slot_at r (h + i))"
    using claimed_word(2) [OF ok] by blast
  ultimately show ?thesis
    using mpsc_drop_positions_spec [OF _ d(1,2,3) _ assms(2)] d(4) by (simp add: mpsc_ring_drop_def)
qed

text \<open>
  C25. Dropping the consumer and later the ring destroys every value left in it at most
  once, in claim order. The consumer closes its side first and then destroys what it
  can take, up to a destructor that panics; the ring's drop destroys the rest, values
  behind an open reservation included, up to a destructor that panics there. A value is
  left out only if a destructor panics in the ring's own drop; that one panic is enough
  where an open reservation kept values from the consumer's drop.
\<close>

theorem mpsc_drops_each_value_once:
  assumes "mpsc_ring_ok h es r" and "drop_run dtor (visible es) = (fin, first, rest)"
    and "drop_run dtor (drop (length first) (contents es)) = (fin2, second, leaked)"
  shows "\<exists>r1 r2. mpsc_consumer_drop dtor r = Inr (fin, r1) \<and> is_closed (m_consumer_closed r1)
    \<and> mpsc_ring_drop dtor r1 = Inr (fin2, r2)
    \<and> m_dropped r2 = m_dropped r @ first @ second \<and> contents es = first @ second @ leaked
    \<and> (leaked = [] \<or> fin2 = Panicked)"
proof -
  let ?r = "mpsc_flush_producers (r\<lparr>m_consumer_closed := close_side (m_consumer_closed r)\<rparr>)"
  have "mpsc_ring_ok h es ?r" using assms(1) by simp
  from mpsc_pop_and_drop_all_spec [OF this assms(2)] obtain h1 es1 r1 where
    one: "mpsc_pop_and_drop_all dtor ?r = Inr (fin, r1)" "mpsc_ring_ok h1 es1 r1"
      "contents es = first @ contents es1" "m_dropped r1 = m_dropped r @ first" "same_sides ?r r1" by auto
  have two: "drop_run dtor (contents es1) = (fin2, second, leaked)" using assms(3) one(3) by simp
  then obtain r2 where "mpsc_ring_drop dtor r1 = Inr (fin2, r2)" "m_dropped r2 = m_dropped r1 @ second"
    using mpsc_ring_drop_spec [OF one(2)] by blast
  moreover have "is_closed (m_consumer_closed r1)" using one(5) by (simp add: same_sides_def)
  moreover have "contents es1 = second @ leaked" using drop_run_append [OF two] .
  moreover have "leaked = [] \<or> fin2 = Panicked"
    using drop_run_complete [of dtor "contents es1" second leaked] two by (cases fin2) auto
  ultimately show ?thesis using one by (simp add: mpsc_consumer_drop_def)
qed

theorem mpsc_drops_each_value_once_witness:
  "\<exists>r r1 r2. mpsc_ring_ok 0 [Published (5 :: nat), Published 6] r
    \<and> mpsc_consumer_drop (\<lambda>v. if v = 5 then Panicked else Returned) r = Inr (Panicked, r1)
    \<and> is_closed (m_consumer_closed r1)
    \<and> mpsc_ring_drop (\<lambda>v. if v = 5 then Panicked else Returned) r1 = Inr (Returned, r2)
    \<and> m_dropped r2 = m_dropped r @ [5] @ [6]"
proof -
  obtain r :: "nat mpsc_ring" where "mpsc_ring_ok 0 [Published 5, Published 6] r"
    using mpsc_reaches_cap2 [of "[Published (5 :: nat), Published 6]"] by auto
  with mpsc_drops_each_value_once [OF this,
      of "\<lambda>v. if v = 5 then Panicked else Returned" Panicked "[5]" "[6]" Returned "[6]" "[]"]
  show ?thesis by auto
qed

end
