(* ===== verification/Mpsc_Block.thy ===== *)
theory Mpsc_Block
  imports Mpsc_Release Blocking
begin

text \<open>
  The blocking calls of the mpsc ring. \<open>pop_block\<close> is the loop of \<open>Blocking\<close>; its peers are
  the producers' calls, each half of a reservation a call of its own, so that the
  consumer may wait while a claimed position is being filled. \<open>push_block\<close> and
  \<open>reserve_block\<close> wait in the wake set with the other producers.
\<close>

section \<open>The waiting consumer\<close>

definition mpsc_on_ring :: "('a mpsc_ring \<Rightarrow> 'a mpsc_ring) \<Rightarrow> 'a mpsc \<Rightarrow> 'a mpsc" where
  "mpsc_on_ring f s = (case s of (ps, ws, r) \<Rightarrow> (ps, ws, f r))"

definition mpsc_producer_gone :: "'a mpsc \<Rightarrow> bool" where
  "mpsc_producer_gone s = (case s of (_, _, r) \<Rightarrow> is_closed_for_parking (m_closed r))"

definition mpsc_arm_consumer :: "thread_id \<Rightarrow> 'a mpsc_ring \<Rightarrow> 'a mpsc_ring" where
  "mpsc_arm_consumer t r = r\<lparr>m_consumer_park := sp_arm t (m_consumer_park r)\<rparr>"

definition mpsc_disarm_consumer :: "'a mpsc_ring \<Rightarrow> 'a mpsc_ring" where
  "mpsc_disarm_consumer r = r\<lparr>m_consumer_park := sp_disarm (m_consumer_park r)\<rparr>"

definition mpsc_consumer_parked :: "'a mpsc \<Rightarrow> bool" where
  "mpsc_consumer_parked s = (case s of (_, _, r) \<Rightarrow> parked (m_consumer_park r))"

definition mpsc_consumer_woken :: "'a mpsc \<Rightarrow> bool" where
  "mpsc_consumer_woken s = (case s of (_, _, r) \<Rightarrow> \<not> tp_is_armed (parker (m_consumer_park r)))"

definition mpsc_consumer_ops :: "thread_id \<Rightarrow> ('a, 'a mpsc) consumer_ops" where
  "mpsc_consumer_ops t =
     \<lparr>try_pop = mpsc_sys_pop, producer_gone = mpsc_producer_gone,
      arm_pop = mpsc_on_ring (mpsc_arm_consumer t),
      disarm_pop = mpsc_on_ring mpsc_disarm_consumer,
      pop_woken = mpsc_consumer_woken\<rparr>"

definition mpsc_pop_block ::
    "thread_id \<Rightarrow> 'a mpsc schedule \<Rightarrow> 'a mpsc \<Rightarrow> ('a option, 'a mpsc) blocking exec" where
  "mpsc_pop_block t ps s = pop_block (mpsc_consumer_ops t) ps s"

text \<open>What the other handles may do while the consumer waits.\<close>

definition mpsc_peer :: "('a \<Rightarrow> completion) \<Rightarrow> 'a mpsc_op \<Rightarrow> 'a mpsc \<Rightarrow> 'a mpsc exec" where
  "mpsc_peer dtor op s = seq_exec (mpsc_step dtor op s) (\<lambda>(_, s'). Inr s')"

definition mpsc_peer_clone :: "'a mpsc \<Rightarrow> 'a mpsc exec" where
  "mpsc_peer_clone s = (case s of (ps, ws, r) \<Rightarrow> case mpsc_clone r of (p, r1) \<Rightarrow> Inr (ps @ [p], ws, r1))"

definition mpsc_peer_leave :: "nat \<Rightarrow> 'a mpsc \<Rightarrow> 'a mpsc exec" where
  "mpsc_peer_leave j s =
     (case s of (ps, ws, r) \<Rightarrow>
        if j < length ps then Inr (without j ps, ws, mpsc_producer_drop (ps ! j) r) else Inr s)"

inductive mpsc_producer_call :: "('a mpsc \<Rightarrow> 'a mpsc exec) \<Rightarrow> bool" where
  "op \<noteq> M_Pop \<Longrightarrow> mpsc_producer_call (mpsc_peer dtor op)"
| "mpsc_producer_call mpsc_peer_clone"
| "mpsc_producer_call (mpsc_peer_leave j)"
| "mpsc_producer_call (\<lambda>s. Inr (mpsc_on_ring mpsc_close s))"

section \<open>What the consumer may rely on\<close>

text \<open>\<open>q\<close> can be taken now; positions are left for a number of claims.\<close>

definition mpsc_takeable :: "'a mpsc \<Rightarrow> 'a list \<Rightarrow> bool" where
  "mpsc_takeable s q \<longleftrightarrow> (\<exists>h es ns. mpsc_rel (h, es, ns) s \<and> visible es = q)"

definition mpsc_positions_left :: "'a mpsc \<Rightarrow> nat" where
  "mpsc_positions_left s =
     (case s of (_, _, r) \<Rightarrow> POS_LIMIT - (unat (tail (m_cursors r)) + slots (m_capacity r)))"

lemma positions_left_eq:
  assumes "mpsc_rel (h, es, ns) (ps, ws, r)"
  shows "mpsc_positions_left (ps, ws, r) = POS_LIMIT - (h + length es + slots (m_capacity r))"
    and "h + length es + slots (m_capacity r) \<le> POS_LIMIT"
proof -
  have ok: "mpsc_ring_ok h es r" using assms by simp
  show "mpsc_positions_left (ps, ws, r) = POS_LIMIT - (h + length es + slots (m_capacity r))"
    using mpsc_ring_okD(3) [OF ok] slots_hold_small(2) [OF mpsc_ring_okD(1) [OF ok], of "h + length es"]
    by (simp add: mpsc_positions_left_def)
  show "h + length es + slots (m_capacity r) \<le> POS_LIMIT"
    using slots_holdD(4) [OF mpsc_ring_okD(1) [OF ok]] .
qed

text \<open>Effects on the ring that leave its positions alone.\<close>

lemma mpsc_rel_cong:
  assumes "m_buf r' = m_buf r" and "m_capacity r' = m_capacity r" and "m_cursors r' = m_cursors r"
  shows "mpsc_rel a (ps, ws, r') = mpsc_rel a (ps, ws, r)"
  using assms by (cases a) (simp add: mpsc_ring_ok_def)

lemma same_positions:
  assumes "m_buf r' = m_buf r" and "m_capacity r' = m_capacity r" and "m_cursors r' = m_cursors r"
  shows "mpsc_takeable (ps, ws, r') q = mpsc_takeable (ps, ws, r) q"
    and "mpsc_positions_left (ps, ws, r') = mpsc_positions_left (ps, ws, r)"
  using assms mpsc_rel_cong [OF assms] by (simp_all add: mpsc_takeable_def mpsc_positions_left_def)

lemma visible_fill: "i < length es \<Longrightarrow> es ! i = Claimed \<Longrightarrow> prefix (visible es) (visible (es[i := e]))"
proof (induction es arbitrary: i rule: visible.induct)
  case (2 es)
  then show ?case by simp
next
  case (3 v es)
  then show ?case by (cases i) simp_all
next
  case (4 es)
  then show ?case by (cases i) simp_all
qed simp

lemma visible_publish: "prefix (visible es) (visible (es @ [Published v]))"
  by (induction es rule: visible.induct) simp_all

lemma spec_step_prefix:
  assumes "spec_step n m op (h, es, ns) = (e, h', es', ns')" and "spec_ok (h, es, ns)" and "op \<noteq> M_Pop"
  shows "prefix (visible es) (visible es')"
proof -
  have "prefix (visible es) (visible (es[ns ! i - h := x]))" if "i < length ns" for i x
    using visible_fill claimed_atD(3,4) [OF assms(2) that] .
  then show ?thesis
    using assms(1,3) visible_publish by (cases op) (auto split: if_splits)
qed

lemma sys_pop_takeable:
  assumes "mpsc_takeable s q"
  shows "\<exists>s'. mpsc_sys_pop s = Inr (case q of [] \<Rightarrow> None | v # _ \<Rightarrow> Some v, s')
    \<and> mpsc_takeable s' (tl q) \<and> mpsc_positions_left s \<le> mpsc_positions_left s'
    \<and> mpsc_producer_gone s' = mpsc_producer_gone s
    \<and> mpsc_consumer_parked s' = mpsc_consumer_parked s \<and> mpsc_consumer_woken s' = mpsc_consumer_woken s"
proof -
  obtain ps ws r where s: "s = (ps, ws, r)" by (metis prod.exhaust)
  obtain h es ns where rel: "mpsc_rel (h, es, ns) (ps, ws, r)" and q: "visible es = q"
    using assms unfolding s mpsc_takeable_def by blast
  obtain res es' where sp: "spec_pop es = (res, es')" by (metis prod.exhaust)
  obtain r' where r': "mpsc_sys_pop (ps, ws, r) = Inr (res, ps, ws, r')"
    "mpsc_rel (h + length es - length es', es', ns) (ps, ws, r')" "same_sides r r'"
    "m_consumer_park r' = m_consumer_park r"
    using sys_pop_sim [OF rel sp] by blast
  have "res = (case q of [] \<Rightarrow> None | v # _ \<Rightarrow> Some v)" "visible es' = tl q"
    using spec_pop_values [OF sp] q by (auto split: option.splits)
  moreover have "mpsc_positions_left (ps, ws, r') = mpsc_positions_left (ps, ws, r)"
    using positions_left_eq(1) [OF rel] positions_left_eq(1) [OF r'(2)] spec_pop_length [OF sp] r'(3)
    by (simp add: same_sides_def)
  moreover have "mpsc_takeable (ps, ws, r') (visible es')" using r'(2) unfolding mpsc_takeable_def by blast
  ultimately show ?thesis
    using r' unfolding s
    by (intro exI [of _ "(ps, ws, r')"])
      (simp add: mpsc_producer_gone_def mpsc_consumer_parked_def mpsc_consumer_woken_def same_sides_def)
qed

text \<open>A call either wakes the consumer, or leaves its parker, its close flag and what it can take.\<close>

lemma handshake:
  assumes "m_consumer_park r' = woke (m_consumer_park r)
    \<or> (m_consumer_park r' = m_consumer_park r \<and> q' = q \<and> m_closed r' = m_closed r)"
  shows "(mpsc_consumer_woken (ps, ws, r) \<longrightarrow> mpsc_consumer_woken (ps', ws', r'))
    \<and> (mpsc_consumer_parked (ps, ws, r) \<longrightarrow> mpsc_consumer_woken (ps', ws', r')
        \<or> (mpsc_consumer_parked (ps', ws', r') \<and> q' = q
           \<and> mpsc_producer_gone (ps', ws', r') = mpsc_producer_gone (ps, ws, r)))"
  using assms woke_facts [of "m_consumer_park r"]
  by (auto simp: mpsc_consumer_woken_def mpsc_consumer_parked_def mpsc_producer_gone_def)

lemma mpsc_wake_consumer_woke: "m_consumer_park (mpsc_wake_consumer r) = woke (m_consumer_park r)"
  by (simp add: mpsc_wake_consumer_park woke_def sp_wake_def)

lemma producer_drop_effects:
  "m_buf (mpsc_producer_drop p r) = m_buf r" "m_capacity (mpsc_producer_drop p r) = m_capacity r"
  "m_cursors (mpsc_producer_drop p r) = m_cursors r"
  "is_closed (m_closed r) \<Longrightarrow> is_closed (m_closed (mpsc_producer_drop p r))"
  "m_consumer_park (mpsc_producer_drop p r) = woke (m_consumer_park r)
    \<or> (m_consumer_park (mpsc_producer_drop p r) = m_consumer_park r
       \<and> m_closed (mpsc_producer_drop p r) = m_closed r)"
  by (auto simp: mpsc_producer_drop_def endpoint_release_def Let_def mpsc_wake_consumer_woke)

lemma clone_effects:
  assumes "mpsc_clone r = (p, r')"
  shows "m_buf r' = m_buf r" "m_capacity r' = m_capacity r" "m_cursors r' = m_cursors r"
    "m_closed r' = m_closed r" "m_consumer_park r' = m_consumer_park r" "mp_ok h p"
  using assms by (auto simp: mpsc_clone_def mp_ok_def Let_def intro: exI [of _ 0] split: prod.splits)

lemma takeable_handles:
  assumes "mpsc_takeable (ps, ws, r) q" and "\<And>h. \<forall>p \<in> set ps. mp_ok h p \<Longrightarrow> \<forall>p \<in> set ps'. mp_ok h p"
  shows "mpsc_takeable (ps', ws, r) q"
  using assms unfolding mpsc_takeable_def by fastforce

lemma mpsc_producer_call_law:
  assumes "mpsc_producer_call f" and take: "mpsc_takeable s q" and left: "1 \<le> mpsc_positions_left s"
  shows "\<exists>s' q'. f s = Inr s' \<and> mpsc_takeable s' q' \<and> prefix q q'
    \<and> mpsc_positions_left s \<le> mpsc_positions_left s' + 1
    \<and> (mpsc_producer_gone s \<longrightarrow> mpsc_producer_gone s')
    \<and> (mpsc_consumer_woken s \<longrightarrow> mpsc_consumer_woken s')
    \<and> (mpsc_consumer_parked s \<longrightarrow> mpsc_consumer_woken s'
        \<or> (mpsc_consumer_parked s' \<and> q' = q \<and> mpsc_producer_gone s' = mpsc_producer_gone s))"
proof -
  obtain ps ws r where s: "s = (ps, ws, r)" by (metis prod.exhaust)
  have quiet_case: "\<exists>s' q'. f s = Inr s' \<and> mpsc_takeable s' q' \<and> prefix q q'
    \<and> mpsc_positions_left s \<le> mpsc_positions_left s' + 1
    \<and> (mpsc_producer_gone s \<longrightarrow> mpsc_producer_gone s')
    \<and> (mpsc_consumer_woken s \<longrightarrow> mpsc_consumer_woken s')
    \<and> (mpsc_consumer_parked s \<longrightarrow> mpsc_consumer_woken s'
        \<or> (mpsc_consumer_parked s' \<and> q' = q \<and> mpsc_producer_gone s' = mpsc_producer_gone s))"
    if f: "f s = Inr (ps', ws, r')" and hs: "\<And>h. \<forall>p \<in> set ps. mp_ok h p \<Longrightarrow> \<forall>p \<in> set ps'. mp_ok h p"
      and same: "m_buf r' = m_buf r" "m_capacity r' = m_capacity r" "m_cursors r' = m_cursors r"
      and closed: "is_closed (m_closed r) \<Longrightarrow> is_closed (m_closed r')"
      and park: "m_consumer_park r' = woke (m_consumer_park r)
        \<or> (m_consumer_park r' = m_consumer_park r \<and> m_closed r' = m_closed r)" for ps' r'
  proof -
    have "mpsc_takeable (ps', ws, r') q"
      using takeable_handles [OF _ hs] take same_positions(1) [OF same] unfolding s by blast
    moreover have "mpsc_positions_left (ps', ws, r') = mpsc_positions_left (ps, ws, r)"
      using same by (simp add: mpsc_positions_left_def)
    ultimately show ?thesis
      using f closed park handshake [of r' r q q ps ws ps' ws] unfolding s
      by (intro exI [of _ "(ps', ws, r')"] exI [of _ q]) (auto simp: mpsc_producer_gone_def)
  qed
  from assms(1) show ?thesis
  proof cases
    case (1 op dtor)
    obtain h es ns where rel: "mpsc_rel (h, es, ns) (ps, ws, r)" and q: "visible es = q"
      using take unfolding s mpsc_takeable_def by blast
    have budget: "h + Suc (length es) + slots (m_capacity r) \<le> POS_LIMIT"
      using left positions_left_eq [OF rel] unfolding s by simp
    obtain e h' es' ns' where st: "spec_step (slots (m_capacity r)) (length ps) op (h, es, ns) = (e, h', es', ns')"
      by (metis prod.exhaust)
    obtain ps' ws' r' where run: "mpsc_step dtor op (ps, ws, r) = Inr (e, ps', ws', r')"
      "mpsc_rel (h', es', ns') (ps', ws', r')" "same_sides r r'"
      "consumer_woken r r' \<or> m_consumer_park r' = m_consumer_park r \<and> visible es' = visible es"
      using mpsc_step_sim [OF rel budget st, of dtor] 1(2) by (auto simp: steps_to_def)
    have "prefix q (visible es')" using spec_step_prefix [OF st _ 1(2)] rel q by simp
    moreover have "mpsc_positions_left (ps, ws, r) \<le> mpsc_positions_left (ps', ws', r') + 1"
      using positions_left_eq [OF rel] positions_left_eq [OF run(2)] spec_step_tail [OF st] run(3)
      by (simp add: same_sides_def)
    moreover have "m_consumer_park r' = woke (m_consumer_park r)
        \<or> (m_consumer_park r' = m_consumer_park r \<and> visible es' = q \<and> m_closed r' = m_closed r)"
      using run(3,4) q by (auto simp: consumer_woken_def woke_def sp_wake_def same_sides_def)
    moreover have "mpsc_takeable (ps', ws', r') (visible es')"
      using run(2) unfolding mpsc_takeable_def by blast
    ultimately show ?thesis
      using run(1,3) 1(1) handshake [of r' r "visible es'" q ps ws ps' ws'] unfolding s
      by (intro exI [of _ "(ps', ws', r')"] exI [of _ "visible es'"])
        (simp add: mpsc_peer_def mpsc_producer_gone_def same_sides_def)
  next
    case 2
    obtain p r' where c: "mpsc_clone r = (p, r')" by (metis prod.exhaust)
    show ?thesis
      by (rule quiet_case [of "ps @ [p]" r'])
        (use 2 s c clone_effects [OF c] in \<open>auto simp: mpsc_peer_clone_def\<close>)
  next
    case (3 j)
    show ?thesis
    proof (cases "j < length ps")
      case True
      have "set (without j ps) \<subseteq> set ps"
        by (auto simp: without_def dest: in_set_takeD in_set_dropD)
      then show ?thesis
        by (intro quiet_case [of "without j ps" "mpsc_producer_drop (ps ! j) r"])
          (use 3 s True producer_drop_effects [where r = r] in \<open>auto simp: mpsc_peer_leave_def\<close>)
    next
      case False
      show ?thesis by (rule quiet_case [of ps r]) (use 3 s False in \<open>auto simp: mpsc_peer_leave_def\<close>)
    qed
  next
    case 4
    show ?thesis
      by (rule quiet_case [of ps "mpsc_close r"])
        (use 4 s in \<open>auto simp: mpsc_on_ring_def mpsc_close_def mpsc_wake_consumer_woke\<close>)
  qed
qed

interpretation mc: blocking_consumer mpsc_takeable mpsc_positions_left mpsc_sys_pop 1 prefix
  mpsc_producer_gone mpsc_consumer_parked mpsc_consumer_woken
  "mpsc_on_ring (mpsc_arm_consumer t)" "mpsc_on_ring mpsc_disarm_consumer" mpsc_producer_call
  for t
proof (unfold_locales, goal_cases)
  case (1 s v q)
  then show ?case using sys_pop_takeable [OF 1] by auto
next
  case (2 s)
  then show ?case using sys_pop_takeable [OF 2] by auto
next
  case (3 q)
  show ?case by simp
next
  case (4 q q1 q2)
  then show ?case by (rule prefix_order.trans)
next
  case (5 s res s')
  then show ?case using sys_pop_takeable [OF 5(1)] by auto
next
  case (6 s q)
  obtain ps ws r where s: "s = (ps, ws, r)" by (metis prod.exhaust)
  show ?case
    using 6 same_positions [of "mpsc_arm_consumer t r" r ps ws] unfolding s
    by (simp add: mpsc_on_ring_def mpsc_arm_consumer_def mpsc_producer_gone_def
        mpsc_consumer_parked_def mpsc_consumer_woken_def sp_arm_def tp_arm_def tp_is_armed_def)
next
  case (7 s q)
  obtain ps ws r where s: "s = (ps, ws, r)" by (metis prod.exhaust)
  show ?case
    using 7 same_positions [of "mpsc_disarm_consumer r" r ps ws] unfolding s
    by (simp add: mpsc_on_ring_def mpsc_disarm_consumer_def mpsc_producer_gone_def)
next
  case (8 f s q)
  then show ?case using mpsc_producer_call_law by blast
qed

text \<open>
  C14. \<open>pop_block\<close> of the mpsc ring, against any schedule of the producers' calls (pushes,
  reservations, commits and abandonments, clones and drops of handles), of ring closes
  and of spurious returns: it never faults; it returns a value only by taking the
  first one that can be taken; it returns \<open>None\<close> only when the producer side is closed
  and nothing can be taken; and it is found in its park only if it has been unparked
  already, or nothing can be taken, the side is open and the handle is armed.
\<close>

theorem mpsc_pop_block_contract:
  assumes "mpsc_takeable s q" and "permitted mpsc_producer_call ps" and "length ps \<le> mpsc_positions_left s"
  shows "\<exists>out. mpsc_pop_block t ps s = Inr out \<and>
    (case out of
       Done (Some v) s' \<Rightarrow> \<exists>q'. mpsc_takeable s' q' \<and> prefix q (v # q')
     | Done None s' \<Rightarrow> mpsc_takeable s' [] \<and> q = [] \<and> mpsc_producer_gone s'
     | In_Park s' \<Rightarrow> \<exists>q'. mpsc_takeable s' q' \<and> prefix q q' \<and>
         (mpsc_consumer_woken s' \<or> (mpsc_consumer_parked s' \<and> q' = [] \<and> \<not> mpsc_producer_gone s')))"
proof -
  have "mc.ready ps s" using assms(2,3) unfolding mc.ready_def by simp
  from mc.pop_block_law [OF this assms(1), of t backoff_new] show ?thesis
    unfolding mpsc_pop_block_def pop_block_def mpsc_consumer_ops_def mc.pop_outcome_def prefix_Nil .
qed

theorem mpsc_pop_block_contract_witness:
  "\<exists>s out. mpsc_takeable s ([] :: nat list)
    \<and> mpsc_pop_block 1 [Turn, Peer (mpsc_peer (\<lambda>_. Returned) (M_Push 0 7)), Peer (mpsc_peer_leave 0)] s = Inr out \<and>
    (case out of
       Done (Some v) s' \<Rightarrow> \<exists>q'. mpsc_takeable s' q' \<and> prefix [] (v # q')
     | Done None s' \<Rightarrow> mpsc_takeable s' [] \<and> ([] :: nat list) = [] \<and> mpsc_producer_gone s'
     | In_Park s' \<Rightarrow> \<exists>q'. mpsc_takeable s' q' \<and> prefix [] q' \<and>
         (mpsc_consumer_woken s' \<or> (mpsc_consumer_parked s' \<and> q' = [] \<and> \<not> mpsc_producer_gone s')))"
proof -
  obtain r :: "nat mpsc_ring" where r: "mpsc_rel (0, [], []) (mpsc_start 0 r)"
    "m_capacity (snd (snd (mpsc_start 0 r))) = cap2"
    using mpsc_start_rel [OF cap2_wf, where 'a = nat and m = 0] by (auto simp: slots_cap2 POS_LIMIT_def)
  obtain ps ws r1 where s: "mpsc_start 0 r = (ps, ws, r1)" by (metis prod.exhaust)
  have take: "mpsc_takeable (ps, ws, r1) []" unfolding mpsc_takeable_def using r(1) s by force
  have "mpsc_positions_left (ps, ws, r1) = POS_LIMIT - 2"
    using positions_left_eq(1) [of 0 "[]" "[]" ps ws r1] r s by (simp add: slots_cap2)
  then have left: "length [Turn, Peer (mpsc_peer (\<lambda>_ :: nat. Returned) (M_Push 0 7)), Peer (mpsc_peer_leave 0)]
      \<le> mpsc_positions_left (ps, ws, r1)" by (simp add: POS_LIMIT_def)
  have "permitted mpsc_producer_call
      [Turn, Peer (mpsc_peer (\<lambda>_ :: nat. Returned) (M_Push 0 7)), Peer (mpsc_peer_leave 0)]"
    by (simp add: mpsc_producer_call.intros)
  from mpsc_pop_block_contract [OF take this left, of 1] take show ?thesis by blast
qed

end
