(* ===== verification/Spmc.thy ===== *)
theory Spmc
  imports Slot_Sequence Wake_Set Backoff
begin

text \<open>
  \<open>src/spmc\<close>: the ring with one producer and many consumers. A consumer claims up to
  \<open>BATCH_SIZE\<close> published positions with one exchange on the shared head and hands them
  out from private cursors; after it has read a position it stores the position one lap
  ahead in the slot's done word, which is what lets the producer write there again.
  \<open>sm_unparked\<close> and \<open>sm_dropped\<close> log the threads unparked and the values destroyed.
\<close>

section \<open>The ring\<close>

record 'a spmc_ring =
  sm_data :: "'a maybe_uninit list"
  sm_done :: "done_word list"
  sm_capacity :: capacity
  sm_cursors :: cursors
  sm_closed :: close_state
  sm_consumer_closed :: close_state
  sm_consumer_count :: endpoint_count
  sm_consumer_slots :: park_registry
  sm_producer_park :: sole_parker
  sm_consumer_park :: wake_set
  sm_unparked :: "thread_id list"
  sm_dropped :: "'a list"

record spmc_producer =
  write_pos :: usize

record spmc_consumer =
  sc_cached_tail :: usize
  batch_next :: usize
  batch_end :: usize
  sc_park_slot :: park_slot

definition BATCH_SIZE :: usize where
  "BATCH_SIZE = 4"

definition spmc_new :: "capacity \<Rightarrow> 'a spmc_ring exec" where
  "spmc_new c =
     seq_exec (aligned_buf_new_with (capacity_get c) (\<lambda>_. None)) (\<lambda>cells.
     seq_exec (aligned_buf_new_with (capacity_get c) done_released_for) (\<lambda>dones.
       Inr \<lparr>sm_data = cells, sm_done = dones, sm_capacity = c, sm_cursors = cursors_new,
            sm_closed = close_state_new, sm_consumer_closed = close_state_new,
            sm_consumer_count = endpoint_count_new, sm_consumer_slots = registry_new,
            sm_producer_park = sp_new, sm_consumer_park = wake_set_new,
            sm_unparked = [], sm_dropped = []\<rparr>))"

definition spmc_wake_producer :: "'a spmc_ring \<Rightarrow> 'a spmc_ring" where
  "spmc_wake_producer r =
     (case sp_wake (sm_producer_park r) of
        (us, p) \<Rightarrow> r\<lparr>sm_producer_park := p, sm_unparked := sm_unparked r @ us\<rparr>)"

definition spmc_wake_one :: "'a spmc_ring \<Rightarrow> 'a spmc_ring" where
  "spmc_wake_one r =
     (case ws_wake_one (sm_consumer_park r) of
        (us, p) \<Rightarrow> r\<lparr>sm_consumer_park := p, sm_unparked := sm_unparked r @ us\<rparr>)"

definition spmc_flush :: "'a spmc_ring \<Rightarrow> 'a spmc_ring" where
  "spmc_flush r =
     (case ws_flush (sm_consumer_park r) of
        (us, p) \<Rightarrow> r\<lparr>sm_consumer_park := p, sm_unparked := sm_unparked r @ us\<rparr>)"

definition spmc_len :: "'a spmc_ring \<Rightarrow> usize" where
  "spmc_len r = cursors_len (sm_cursors r)"

definition spmc_is_empty :: "'a spmc_ring \<Rightarrow> bool" where
  "spmc_is_empty r \<longleftrightarrow> cursors_is_empty (sm_cursors r)"

definition spmc_is_full :: "'a spmc_ring \<Rightarrow> bool" where
  "spmc_is_full r \<longleftrightarrow> cursors_is_full (sm_cursors r) (capacity_get (sm_capacity r))"

text \<open>Both arrays have one entry per slot; their checks are the bounds checks here.\<close>

definition spmc_data_slot :: "'a spmc_ring \<Rightarrow> usize \<Rightarrow> nat" where
  "spmc_data_slot r pos = unat (index_of (sm_capacity r) pos)"

definition spmc_done_slot :: "'a spmc_ring \<Rightarrow> usize \<Rightarrow> nat" where
  "spmc_done_slot r pos = unat (index_of (sm_capacity r) pos)"

definition spmc_load_done :: "'a spmc_ring \<Rightarrow> nat \<Rightarrow> done_word exec" where
  "spmc_load_done r i = (if i < length (sm_done r) then Inr (sm_done r ! i) else Inl Index_Out_Of_Bounds)"

definition spmc_release_at :: "nat \<Rightarrow> usize \<Rightarrow> 'a spmc_ring \<Rightarrow> 'a spmc_ring exec" where
  "spmc_release_at i pos r =
     seq_exec (spmc_load_done r i) (\<lambda>d.
       Inr (r\<lparr>sm_done := (sm_done r)[i := done_release d pos (sm_capacity r)]\<rparr>))"

definition spmc_take_data :: "nat \<Rightarrow> 'a spmc_ring \<Rightarrow> ('a \<times> 'a spmc_ring) exec" where
  "spmc_take_data i r =
     seq_exec (cell_take (sm_data r) i) (\<lambda>(v, cells). Inr (v, r\<lparr>sm_data := cells\<rparr>))"

text \<open>Splitting and cloning.\<close>

definition spmc_new_with :: "park_slot \<Rightarrow> spmc_consumer" where
  "spmc_new_with slot = \<lparr>sc_cached_tail = 0, batch_next = 0, batch_end = 0, sc_park_slot = slot\<rparr>"

definition spmc_producer_new_with :: spmc_producer where
  "spmc_producer_new_with = \<lparr>write_pos = 0\<rparr>"

definition spmc_consumer_new :: "'a spmc_ring \<Rightarrow> spmc_consumer \<times> 'a spmc_ring" where
  "spmc_consumer_new r =
     (case registry_lease (sm_consumer_slots r) of
        (slot, reg) \<Rightarrow> (spmc_new_with slot, r\<lparr>sm_consumer_slots := reg\<rparr>))"

definition spmc_split :: "'a spmc_ring \<Rightarrow> spmc_producer \<times> spmc_consumer \<times> 'a spmc_ring" where
  "spmc_split r = (case spmc_consumer_new r of (c, r1) \<Rightarrow> (\<lparr>write_pos = 0\<rparr>, c, r1))"

definition spmc_split_borrowed :: "'a spmc_ring \<Rightarrow> spmc_producer \<times> spmc_consumer \<times> 'a spmc_ring" where
  "spmc_split_borrowed r =
     (case registry_lease (sm_consumer_slots r) of
        (slot, reg) \<Rightarrow> (spmc_producer_new_with, spmc_new_with slot, r\<lparr>sm_consumer_slots := reg\<rparr>))"

definition spmc_clone :: "'a spmc_ring \<Rightarrow> spmc_consumer \<times> 'a spmc_ring" where
  "spmc_clone r =
     (let r1 = r\<lparr>sm_consumer_count := endpoint_register (sm_consumer_count r)\<rparr> in
      case registry_lease (sm_consumer_slots r1) of
        (slot, reg) \<Rightarrow>
          (\<lparr>sc_cached_tail = 0, batch_next = 0, batch_end = 0, sc_park_slot = slot\<rparr>,
           r1\<lparr>sm_consumer_slots := reg\<rparr>))"

definition spmc_new_consumer :: "'a spmc_ring \<Rightarrow> spmc_consumer \<times> 'a spmc_ring" where
  "spmc_new_consumer r =
     (let r1 = r\<lparr>sm_consumer_count := endpoint_register (sm_consumer_count r)\<rparr> in
      case registry_lease (sm_consumer_slots r1) of
        (slot, reg) \<Rightarrow> (spmc_new_with slot, r1\<lparr>sm_consumer_slots := reg\<rparr>))"

section \<open>The producer\<close>

definition spmc_try_claim :: "spmc_producer \<Rightarrow> 'a spmc_ring \<Rightarrow> (nat \<times> usize) option exec" where
  "spmc_try_claim p r =
     (let pos = write_pos p in
      seq_exec (spmc_load_done r (spmc_done_slot r pos)) (\<lambda>d.
      if \<not> done_is_free_for d pos then Inr None
      else Inr (Some (spmc_data_slot r pos, pos))))"

definition spmc_has_space :: "spmc_producer \<Rightarrow> 'a spmc_ring \<Rightarrow> bool exec" where
  "spmc_has_space p r =
     (let pos = write_pos p in
      seq_exec (spmc_load_done r (spmc_done_slot r pos)) (\<lambda>d. Inr (done_is_free_for d pos)))"

definition spmc_store_tail :: "usize \<Rightarrow> 'a spmc_ring \<Rightarrow> 'a spmc_ring" where
  "spmc_store_tail pos r = r\<lparr>sm_cursors := (sm_cursors r)\<lparr>tail := pos\<rparr>\<rparr>"

definition spmc_push ::
    "'a \<Rightarrow> spmc_producer \<Rightarrow> 'a spmc_ring \<Rightarrow> ('a push_result \<times> spmc_producer \<times> 'a spmc_ring) exec" where
  "spmc_push v p r =
     seq_exec (spmc_try_claim p r) (\<lambda>claimed.
     case claimed of
       None \<Rightarrow> Inr (Push_Err v, p, r)
     | Some (i, pos) \<Rightarrow>
         seq_exec (cell_write (sm_data r) i v) (\<lambda>cells.
           let p1 = p\<lparr>write_pos := pos + 1\<rparr> in
           Inr (Push_Ok, p1, spmc_wake_one (spmc_store_tail (write_pos p1) (r\<lparr>sm_data := cells\<rparr>)))))"

record spmc_slot_writer =
  pw_slot :: nat
  pw_pos :: usize

record spmc_written_slot =
  pv_value :: uncommitted_slot
  pv_pos :: usize

definition spmc_reserve :: "spmc_producer \<Rightarrow> 'a spmc_ring \<Rightarrow> spmc_slot_writer option exec" where
  "spmc_reserve p r =
     seq_exec (spmc_try_claim p r) (\<lambda>claimed.
       Inr (map_option (\<lambda>(i, pos). \<lparr>pw_slot = i, pw_pos = pos\<rparr>) claimed))"

definition spmc_slot_mut_write :: "spmc_slot_writer \<Rightarrow> 'a \<Rightarrow> 'a spmc_ring \<Rightarrow> 'a spmc_ring exec" where
  "spmc_slot_mut_write w v r =
     seq_exec (cell_write (sm_data r) (pw_slot w) v) (\<lambda>cells. Inr (r\<lparr>sm_data := cells\<rparr>))"

definition spmc_write ::
    "spmc_slot_writer \<Rightarrow> 'a \<Rightarrow> 'a spmc_ring \<Rightarrow> (spmc_written_slot \<times> 'a spmc_ring) exec" where
  "spmc_write w v r =
     seq_exec (cell_write (sm_data r) (pw_slot w) v) (\<lambda>cells.
       Inr (\<lparr>pv_value = uncommitted_armed (pw_slot w), pv_pos = pw_pos w\<rparr>, r\<lparr>sm_data := cells\<rparr>))"

definition spmc_commit_unchecked ::
    "spmc_slot_writer \<Rightarrow> spmc_producer \<Rightarrow> 'a spmc_ring \<Rightarrow> spmc_producer \<times> 'a spmc_ring" where
  "spmc_commit_unchecked w p r =
     (let p1 = p\<lparr>write_pos := pw_pos w + 1\<rparr>
      in (p1, spmc_wake_one (spmc_store_tail (write_pos p1) r)))"

text \<open>A writer that is dropped has nothing to undo; a written slot destroys its value.\<close>

definition spmc_slot_writer_drop :: "spmc_slot_writer \<Rightarrow> 'a spmc_ring \<Rightarrow> 'a spmc_ring" where
  "spmc_slot_writer_drop w r = r"

definition spmc_written_slot_drop :: "spmc_written_slot \<Rightarrow> 'a spmc_ring \<Rightarrow> 'a spmc_ring exec" where
  "spmc_written_slot_drop w r =
     seq_exec (uncommitted_drop (pv_value w) (sm_data r)) (\<lambda>(gone, cells).
       Inr (r\<lparr>sm_data := cells, sm_dropped := sm_dropped r @ gone\<rparr>))"

definition spmc_commit ::
    "spmc_written_slot \<Rightarrow> spmc_producer \<Rightarrow> 'a spmc_ring \<Rightarrow> (spmc_producer \<times> 'a spmc_ring) exec" where
  "spmc_commit w p r =
     (let w1 = w\<lparr>pv_value := uncommitted_commit (pv_value w)\<rparr>;
          p1 = p\<lparr>write_pos := pv_pos w + 1\<rparr> in
      seq_exec (spmc_written_slot_drop w1 (spmc_wake_one (spmc_store_tail (write_pos p1) r)))
        (\<lambda>r1. Inr (p1, r1)))"

definition spmc_producer_drop :: "'a spmc_ring \<Rightarrow> 'a spmc_ring" where
  "spmc_producer_drop r = spmc_flush (r\<lparr>sm_closed := close_side (sm_closed r)\<rparr>)"

section \<open>Claiming a batch\<close>

text \<open>
  The loop of \<open>claim_batch\<close>. A turn loads the head; \<open>f\<close> falls before it refreshes its
  cached tail, and \<open>g\<close> between that and its next access, the load of the close flag or
  the exchange. The second look at a closed ring is taken without a race of its own.
\<close>

function spmc_claim_batch ::
    "'a spmc_ring race list \<Rightarrow> spmc_consumer \<Rightarrow> 'a spmc_ring
      \<Rightarrow> usize option \<times> spmc_consumer \<times> 'a spmc_ring" where
  "spmc_claim_batch races c r =
     (case next_race races of
        (f, g, weak, rest) \<Rightarrow>
          let head1 = head (sm_cursors r);
              stale = head1 \<ge> sc_cached_tail c;
              r1 = f r;
              tail1 = (if stale then tail (sm_cursors r1) else sc_cached_tail c);
              c1 = (if stale then c\<lparr>sc_cached_tail := tail1\<rparr> else c);
              r2 = g r1
          in
          if stale \<and> head1 \<ge> tail1 then
            (if is_closed (sm_closed r2) then
               let tail2 = tail (sm_cursors r2);
                   c2 = c1\<lparr>sc_cached_tail := tail2\<rparr>;
                   head2 = head (sm_cursors r2)
               in if head2 \<ge> tail2 then (None, c2, r2) else spmc_claim_batch rest c2 r2
             else (None, c1, r2))
          else
            let take = min (tail1 - head1) BATCH_SIZE;
                new_head = head1 + take
            in
            if \<not> weak \<and> head (sm_cursors r2) = head1 then
              (Some head1, c1\<lparr>batch_next := head1 + 1, batch_end := new_head\<rparr>,
               r2\<lparr>sm_cursors := (sm_cursors r2)\<lparr>head := new_head\<rparr>\<rparr>)
            else spmc_claim_batch rest c1 r2)"
  by pat_completeness auto
termination
proof (relation "measure (\<lambda>(races, _). length races)", goal_cases)
  case (2 races c r x f y g z weak rest)
  then show ?case by (cases races rule: next_race.cases) (auto simp: Let_def split: if_splits)
next
  case (3 races c r x f y g z weak rest)
  then show ?case by (cases races rule: next_race.cases) (auto simp: Let_def split: if_splits)
qed simp

declare spmc_claim_batch.simps [simp del]

definition spmc_claim_slot ::
    "'a spmc_ring race list \<Rightarrow> spmc_consumer \<Rightarrow> 'a spmc_ring
      \<Rightarrow> usize option \<times> spmc_consumer \<times> 'a spmc_ring" where
  "spmc_claim_slot races c r =
     (let n = batch_next c in
      if n < batch_end c then (Some n, c\<lparr>batch_next := n + 1\<rparr>, r)
      else spmc_claim_batch races c r)"

definition spmc_has_item :: "spmc_consumer \<Rightarrow> 'a spmc_ring \<Rightarrow> bool \<times> spmc_consumer" where
  "spmc_has_item c r =
     (if batch_next c < batch_end c then (True, c)
      else
        let h = head (sm_cursors r) in
        if h < sc_cached_tail c then (True, c)
        else let t = tail (sm_cursors r) in (h < t, c\<lparr>sc_cached_tail := t\<rparr>))"

section \<open>Taking values\<close>

text \<open>The position claimed names its cell and its done word.\<close>

definition spmc_bind_pos :: "'a spmc_ring \<Rightarrow> usize \<Rightarrow> nat \<times> nat \<times> usize" where
  "spmc_bind_pos r h = (spmc_data_slot r h, spmc_done_slot r h, h)"

definition spmc_pop ::
    "'a spmc_ring race list \<Rightarrow> spmc_consumer \<Rightarrow> 'a spmc_ring
      \<Rightarrow> ('a option \<times> spmc_consumer \<times> 'a spmc_ring) exec" where
  "spmc_pop races c r =
     (case spmc_claim_slot races c r of
        (None, c1, r1) \<Rightarrow> Inr (None, c1, r1)
      | (Some pos, c1, r1) \<Rightarrow>
          (case spmc_bind_pos r1 pos of
             (i, j, h) \<Rightarrow>
               seq_exec (spmc_take_data i r1) (\<lambda>(v, r2).
               seq_exec (spmc_release_at j h r2) (\<lambda>r3.
               Inr (Some v, c1, spmc_wake_producer r3)))))"

text \<open>\<open>SlotReader\<close>, and \<open>SlotRelease\<close>, which runs on the unwind path of its destructor too.\<close>

record spmc_slot_reader =
  rd_data :: nat
  rd_done :: nat
  rd_head :: usize

definition spmc_pop_ref ::
    "'a spmc_ring race list \<Rightarrow> spmc_consumer \<Rightarrow> 'a spmc_ring
      \<Rightarrow> spmc_slot_reader option \<times> spmc_consumer \<times> 'a spmc_ring" where
  "spmc_pop_ref races c r =
     (case spmc_claim_slot races c r of
        (None, c1, r1) \<Rightarrow> (None, c1, r1)
      | (Some pos, c1, r1) \<Rightarrow>
          (case spmc_bind_pos r1 pos of
             (i, j, h) \<Rightarrow> (Some \<lparr>rd_data = i, rd_done = j, rd_head = h\<rparr>, c1, r1)))"

definition spmc_reader_deref :: "spmc_slot_reader \<Rightarrow> 'a spmc_ring \<Rightarrow> 'a exec" where
  "spmc_reader_deref rd r = cell_peek (sm_data r) (rd_data rd)"

definition spmc_slot_release_drop :: "nat \<Rightarrow> usize \<Rightarrow> 'a spmc_ring \<Rightarrow> 'a spmc_ring exec" where
  "spmc_slot_release_drop j h r =
     seq_exec (spmc_release_at j h r) (\<lambda>r1. Inr (spmc_wake_producer r1))"

definition spmc_reader_drop ::
    "('a \<Rightarrow> completion) \<Rightarrow> spmc_slot_reader \<Rightarrow> 'a spmc_ring \<Rightarrow> (completion \<times> 'a spmc_ring) exec" where
  "spmc_reader_drop dtor rd r =
     seq_exec (spmc_take_data (rd_data rd) r) (\<lambda>(v, r1).
     seq_exec (spmc_slot_release_drop (rd_done rd) (rd_head rd)
       (r1\<lparr>sm_dropped := sm_dropped r1 @ [v]\<rparr>)) (\<lambda>r2.
     Inr (dtor v, r2)))"

section \<open>Draining\<close>

record drain_wake =
  dw_released :: bool

definition drain_wake_new :: drain_wake where
  "drain_wake_new = \<lparr>dw_released = False\<rparr>"

definition drain_wake_released :: "drain_wake \<Rightarrow> drain_wake" where
  "drain_wake_released w = w\<lparr>dw_released := True\<rparr>"

definition drain_wake_drop :: "drain_wake \<Rightarrow> 'a spmc_ring \<Rightarrow> 'a spmc_ring" where
  "drain_wake_drop w r = (if \<not> dw_released w then r else spmc_wake_producer r)"

text \<open>
  What a consumer could still claim if nobody else did anything: every claim takes one
  position of it away, so an undisturbed drain ends.
\<close>

definition claimable :: "spmc_consumer \<Rightarrow> 'a spmc_ring \<Rightarrow> nat" where
  "claimable c r =
     (max (unat (tail (sm_cursors r))) (unat (sc_cached_tail c)) - unat (head (sm_cursors r)))
     + (unat (batch_end c) - unat (batch_next c))"

lemma claim_batch_alone:
  "spmc_claim_batch [] c r =
     (let h = head (sm_cursors r);
          stale = h \<ge> sc_cached_tail c;
          t = (if stale then tail (sm_cursors r) else sc_cached_tail c);
          c1 = (if stale then c\<lparr>sc_cached_tail := t\<rparr> else c);
          new_head = h + min (t - h) BATCH_SIZE
      in if h \<ge> t then (None, c1, r)
         else (Some h, c1\<lparr>batch_next := h + 1, batch_end := new_head\<rparr>,
               r\<lparr>sm_cursors := (sm_cursors r)\<lparr>head := new_head\<rparr>\<rparr>))"
  by (subst spmc_claim_batch.simps) (auto simp: Let_def)

lemma unat_take:
  fixes h t :: usize
  assumes "h < t"
  shows "unat (h + min (t - h) BATCH_SIZE) = unat h + min (unat t - unat h) 4"
proof -
  have "unat (t - h) = unat t - unat h" using assms by (simp add: unat_sub)
  then have m: "unat (min (t - h) BATCH_SIZE) = min (unat t - unat h) 4"
    by (simp add: min_def word_le_nat_alt BATCH_SIZE_def)
  moreover have "unat h + min (unat t - unat h) 4 < 2 ^ 64"
    using assms unsigned_less [where ?'a = nat and w = t] by (simp add: word_less_nat_alt)
  ultimately show ?thesis by (simp add: unat_word_ariths)
qed

lemma claim_slot_claims:
  assumes "spmc_claim_slot [] c r = (Some pos, c1, r1)"
  shows "claimable c1 r1 < claimable c r"
proof (cases "batch_next c < batch_end c")
  case True
  then show ?thesis
    using assms unat_Suc_of_less [OF True] by (auto simp: spmc_claim_slot_def claimable_def word_less_nat_alt Let_def)
next
  case False
  define h where "h = head (sm_cursors r)"
  define t where "t = (if h \<ge> sc_cached_tail c then tail (sm_cursors r) else sc_cached_tail c)"
  have res: "h < t" "batch_next c1 = h + 1" "batch_end c1 = h + min (t - h) BATCH_SIZE"
    "head (sm_cursors r1) = h + min (t - h) BATCH_SIZE" "tail (sm_cursors r1) = tail (sm_cursors r)"
    "sc_cached_tail c1 = t \<or> sc_cached_tail c1 = sc_cached_tail c \<and> t = sc_cached_tail c"
    using assms False
    by (auto simp: spmc_claim_slot_def claim_batch_alone Let_def h_def t_def split: if_splits)
  have "unat (h + 1) = Suc (unat h)" using res(1) by (rule unat_Suc_of_less)
  moreover have "unat h < unat t" using res(1) by (simp add: word_less_nat_alt)
  moreover have "max (unat (tail (sm_cursors r1))) (unat (sc_cached_tail c1))
      \<le> max (unat (tail (sm_cursors r))) (unat (sc_cached_tail c))"
    using res(5,6) by (auto simp: t_def split: if_splits)
  moreover have "unat t \<le> max (unat (tail (sm_cursors r))) (unat (sc_cached_tail c))"
    by (simp add: t_def)
  moreover have "M' - (H + m) + (m - 1) < M - H + x"
    if "M' \<le> M" "T \<le> M" "H < T" "m = min (T - H) 4" for M' M T H m x :: nat
    using that by (auto simp: min_def split: if_splits)
  ultimately show ?thesis
    using res(2-4) unat_take [OF res(1)] by (simp add: claimable_def h_def [symmetric])
qed

lemma release_claimable:
  assumes "spmc_take_data i r1 = Inr (v, r2)" and "spmc_release_at j h r2 = Inr r3"
  shows "claimable c r3 = claimable c r1"
  using assms by (auto simp: spmc_take_data_def spmc_release_at_def seq_exec_eq_Inr claimable_def)

function spmc_drain_loop ::
    "('st \<Rightarrow> 'a \<Rightarrow> 'st \<times> completion) \<Rightarrow> usize option \<Rightarrow> drain_wake \<Rightarrow> usize \<Rightarrow> 'st
      \<Rightarrow> spmc_consumer \<Rightarrow> 'a spmc_ring
      \<Rightarrow> (completion \<times> drain_wake \<times> usize \<times> 'st \<times> spmc_consumer \<times> 'a spmc_ring) exec" where
  "spmc_drain_loop f limit w count st c r =
     (if \<not> below_limit count limit then Inr (Returned, w, count, st, c, r)
      else
        case spmc_claim_slot [] c r of
          (None, c1, r1) \<Rightarrow> Inr (Returned, w, count, st, c1, r1)
        | (Some pos, c1, r1) \<Rightarrow>
            (case spmc_bind_pos r1 pos of
               (i, j, h) \<Rightarrow>
                 seq_exec (spmc_take_data i r1) (\<lambda>(v, r2).
                 seq_exec (spmc_release_at j h r2) (\<lambda>r3.
                 case f st v of
                   (st1, Panicked) \<Rightarrow> Inr (Panicked, drain_wake_released w, count + 1, st1, c1, r3)
                 | (st1, Returned) \<Rightarrow>
                     spmc_drain_loop f limit (drain_wake_released w) (count + 1) st1 c1 r3))))"
  by pat_completeness auto
termination
  by (relation "measure (\<lambda>(_, _, _, _, _, c, r). claimable c r)")
    (auto dest!: claim_slot_claims [OF sym] simp: release_claimable)

declare spmc_drain_loop.simps [simp del]

definition spmc_drain_up_to ::
    "usize option \<Rightarrow> ('st \<Rightarrow> 'a \<Rightarrow> 'st \<times> completion) \<Rightarrow> 'st \<Rightarrow> spmc_consumer \<Rightarrow> 'a spmc_ring
      \<Rightarrow> (completion \<times> usize \<times> 'st \<times> spmc_consumer \<times> 'a spmc_ring) exec" where
  "spmc_drain_up_to limit f st c r =
     seq_exec (spmc_drain_loop f limit drain_wake_new 0 st c r)
       (\<lambda>(fin, w, count, st1, c1, r1). Inr (fin, count, st1, c1, drain_wake_drop w r1))"

definition spmc_drain ::
    "('st \<Rightarrow> 'a \<Rightarrow> 'st \<times> completion) \<Rightarrow> 'st \<Rightarrow> spmc_consumer \<Rightarrow> 'a spmc_ring
      \<Rightarrow> (completion \<times> usize \<times> 'st \<times> spmc_consumer \<times> 'a spmc_ring) exec" where
  "spmc_drain f st c r = spmc_drain_up_to None f st c r"

definition spmc_is_closed :: "'a spmc_ring \<Rightarrow> bool" where
  "spmc_is_closed r \<longleftrightarrow> is_closed (sm_closed r)"

section \<open>Dropping a consumer and the ring\<close>

text \<open>
  The drop destroys what is left of the claimed batch and releases each position, under
  the \<open>ConsumerClose\<close> guard; a panicking destructor leaves the rest of the batch as it
  is, and the guard retires the handle all the same.
\<close>

definition spmc_consumer_close_drop :: "park_slot \<Rightarrow> 'a spmc_ring \<Rightarrow> 'a spmc_ring" where
  "spmc_consumer_close_drop slot r =
     (let r1 = r\<lparr>sm_consumer_slots := registry_release slot (sm_consumer_slots r)\<rparr> in
      case endpoint_release (sm_consumer_count r1) of
        (was_last, count) \<Rightarrow>
          (let r2 = r1\<lparr>sm_consumer_count := count\<rparr> in
           if was_last
           then spmc_wake_producer (r2\<lparr>sm_consumer_closed := close_side (sm_consumer_closed r2)\<rparr>)
           else r2))"

fun spmc_drop_batch ::
    "('a \<Rightarrow> completion) \<Rightarrow> usize list \<Rightarrow> 'a spmc_ring \<Rightarrow> (completion \<times> 'a spmc_ring) exec" where
  "spmc_drop_batch dtor [] r = Inr (Returned, r)"
| "spmc_drop_batch dtor (pos # ps) r =
     seq_exec (spmc_take_data (spmc_data_slot r pos) r) (\<lambda>(v, r1).
       let r2 = r1\<lparr>sm_dropped := sm_dropped r1 @ [v]\<rparr> in
       case dtor v of
         Panicked \<Rightarrow> Inr (Panicked, r2)
       | Returned \<Rightarrow>
           seq_exec (spmc_release_at (spmc_done_slot r2 pos) pos r2) (\<lambda>r3. spmc_drop_batch dtor ps r3))"

definition batch_positions :: "spmc_consumer \<Rightarrow> usize list" where
  "batch_positions c = map of_nat [unat (batch_next c)..<unat (batch_end c)]"

definition spmc_consumer_drop ::
    "('a \<Rightarrow> completion) \<Rightarrow> spmc_consumer \<Rightarrow> 'a spmc_ring \<Rightarrow> (completion \<times> 'a spmc_ring) exec" where
  "spmc_consumer_drop dtor c r =
     seq_exec (spmc_drop_batch dtor (batch_positions c) r) (\<lambda>(fin, r1).
       Inr (fin, spmc_consumer_close_drop (sc_park_slot c) r1))"

fun spmc_drop_positions ::
    "('a \<Rightarrow> completion) \<Rightarrow> usize list \<Rightarrow> 'a spmc_ring \<Rightarrow> (completion \<times> 'a spmc_ring) exec" where
  "spmc_drop_positions dtor [] r = Inr (Returned, r)"
| "spmc_drop_positions dtor (pos # ps) r =
     seq_exec (spmc_load_done r (spmc_done_slot r pos)) (\<lambda>d.
     if done_holds_unconsumed_value_at d pos (sm_capacity r) then
       seq_exec (spmc_take_data (spmc_data_slot r pos) r) (\<lambda>(v, r1).
         let r2 = r1\<lparr>sm_dropped := sm_dropped r1 @ [v]\<rparr> in
         case dtor v of
           Panicked \<Rightarrow> Inr (Panicked, r2)
         | Returned \<Rightarrow> spmc_drop_positions dtor ps r2)
     else spmc_drop_positions dtor ps r)"

definition spmc_ring_drop :: "('a \<Rightarrow> completion) \<Rightarrow> 'a spmc_ring \<Rightarrow> (completion \<times> 'a spmc_ring) exec" where
  "spmc_ring_drop dtor r = spmc_drop_positions dtor (occupied (sm_cursors r)) r"

end
