(* ===== verification/Spmc_Correct.thy ===== *)
theory Spmc_Correct
  imports Spmc Queue
begin

text \<open>
  What the spmc ring keeps true, and what each call does to it. The abstract ring is the
  list of all values ever pushed, so that a position is an index into it; how many of
  them have been claimed; and which claimed ones have not been given back.
\<close>

section \<open>The ring and the positions it owes\<close>

text \<open>
  \<open>own\<close> are the positions whose value is in the ring, \<open>lost\<close> those whose value is gone but
  whose slot was never handed back (a destructor panicked on them).
\<close>

definition owed :: "nat \<Rightarrow> nat set \<Rightarrow> nat \<Rightarrow> nat" where
  "owed n unreleased p = (if n \<le> p \<and> p - n \<in> unreleased then p - n else p)"

definition spmc_ring_ok :: "'a list \<Rightarrow> nat \<Rightarrow> nat set \<Rightarrow> nat set \<Rightarrow> 'a spmc_ring \<Rightarrow> bool" where
  "spmc_ring_ok vs h own lost r \<longleftrightarrow>
     wf_capacity (sm_capacity r)
     \<and> length (sm_data r) = slots (sm_capacity r) \<and> length (sm_done r) = slots (sm_capacity r)
     \<and> head (sm_cursors r) = of_nat h \<and> tail (sm_cursors r) = of_nat (length vs)
     \<and> h \<le> length vs \<and> length vs + slots (sm_capacity r) < 2 ^ 64
     \<and> (\<forall>p \<in> own \<union> lost. p < length vs \<and> length vs \<le> p + slots (sm_capacity r))
     \<and> (\<forall>p \<in> own. sm_data r ! (p mod slots (sm_capacity r)) = Some (vs ! p))
     \<and> (\<forall>p. length vs \<le> p \<and> p < length vs + slots (sm_capacity r) \<longrightarrow>
          sm_done r ! (p mod slots (sm_capacity r))
            = \<lparr>done_at = of_nat (owed (slots (sm_capacity r)) (own \<union> lost) p)\<rparr>)"

lemma spmc_ring_okD:
  assumes "spmc_ring_ok vs h own lost r"
  shows "wf_capacity (sm_capacity r)" "length (sm_data r) = slots (sm_capacity r)"
    "length (sm_done r) = slots (sm_capacity r)" "head (sm_cursors r) = of_nat h"
    "tail (sm_cursors r) = of_nat (length vs)" "h \<le> length vs"
    "length vs + slots (sm_capacity r) < 2 ^ 64" "0 < slots (sm_capacity r)"
    "p \<in> own \<union> lost \<Longrightarrow> p < length vs \<and> length vs \<le> p + slots (sm_capacity r)"
    "p \<in> own \<Longrightarrow> sm_data r ! (p mod slots (sm_capacity r)) = Some (vs ! p)"
    "length vs \<le> p \<Longrightarrow> p < length vs + slots (sm_capacity r) \<Longrightarrow>
      sm_done r ! (p mod slots (sm_capacity r))
        = \<lparr>done_at = of_nat (owed (slots (sm_capacity r)) (own \<union> lost) p)\<rparr>"
  using assms slots_pos unfolding spmc_ring_ok_def by blast+

lemma spmc_ring_ok_cong:
  assumes "sm_data r' = sm_data r" "sm_done r' = sm_done r" "sm_capacity r' = sm_capacity r"
    "sm_cursors r' = sm_cursors r"
  shows "spmc_ring_ok vs h own lost r' = spmc_ring_ok vs h own lost r"
  using assms by (simp add: spmc_ring_ok_def)

lemma spmc_wake_simps [simp]:
  "sm_data (spmc_wake_producer r) = sm_data r" "sm_data (spmc_wake_one r) = sm_data r"
  "sm_data (spmc_flush r) = sm_data r" "sm_done (spmc_wake_producer r) = sm_done r"
  "sm_done (spmc_wake_one r) = sm_done r" "sm_done (spmc_flush r) = sm_done r"
  "sm_capacity (spmc_wake_producer r) = sm_capacity r" "sm_capacity (spmc_wake_one r) = sm_capacity r"
  "sm_capacity (spmc_flush r) = sm_capacity r" "sm_cursors (spmc_wake_producer r) = sm_cursors r"
  "sm_cursors (spmc_wake_one r) = sm_cursors r" "sm_cursors (spmc_flush r) = sm_cursors r"
  "sm_dropped (spmc_wake_producer r) = sm_dropped r" "sm_dropped (spmc_wake_one r) = sm_dropped r"
  "sm_dropped (spmc_flush r) = sm_dropped r"
  "sm_closed (spmc_wake_producer r) = sm_closed r" "sm_closed (spmc_wake_one r) = sm_closed r"
  "sm_closed (spmc_flush r) = sm_closed r"
  "sm_consumer_closed (spmc_wake_producer r) = sm_consumer_closed r"
  "sm_consumer_closed (spmc_wake_one r) = sm_consumer_closed r"
  "sm_consumer_closed (spmc_flush r) = sm_consumer_closed r"
  "sm_consumer_count (spmc_wake_producer r) = sm_consumer_count r"
  "sm_consumer_count (spmc_wake_one r) = sm_consumer_count r"
  "sm_consumer_count (spmc_flush r) = sm_consumer_count r"
  "sm_producer_park (spmc_wake_producer r) = woke (sm_producer_park r)"
  "sm_producer_park (spmc_wake_one r) = sm_producer_park r"
  "sm_producer_park (spmc_flush r) = sm_producer_park r"
  "sm_consumer_park (spmc_wake_producer r) = sm_consumer_park r"
  by (simp_all add: spmc_wake_producer_def spmc_wake_one_def spmc_flush_def woke_def sp_wake_def
      case_prod_beta)

lemma spmc_ring_ok_wake [simp]:
  "spmc_ring_ok vs h own lost (spmc_wake_producer r) = spmc_ring_ok vs h own lost r"
  "spmc_ring_ok vs h own lost (spmc_wake_one r) = spmc_ring_ok vs h own lost r"
  "spmc_ring_ok vs h own lost (spmc_flush r) = spmc_ring_ok vs h own lost r"
  by (rule spmc_ring_ok_cong; simp)+

lemma spmc_slot_simps:
  assumes "wf_capacity (sm_capacity r)"
  shows "spmc_data_slot r (of_nat p) = p mod slots (sm_capacity r)"
    and "spmc_done_slot r (of_nat p) = p mod slots (sm_capacity r)"
  using slot_of_of_nat [OF assms] by (simp_all add: spmc_data_slot_def spmc_done_slot_def)

text \<open>Two positions less than a lap apart never share a slot.\<close>

lemma window_slots:
  fixes p q :: nat
  assumes "p \<noteq> q" and "t \<le> p + n" "p < t" "t \<le> q + n" "q < t"
  shows "p mod n \<noteq> q mod n"
proof
  assume "p mod n = q mod n"
  then have "p = q" by (rule mod_inj_window [of p n q "t - n"]) (use assms in linarith)+
  with assms(1) show False by simp
qed

lemma window_slots_next:
  fixes p q :: nat
  assumes "q \<noteq> p + n" and "t \<le> p + n" "p < t" "t \<le> q" "q < t + n"
  shows "p mod n \<noteq> q mod n"
proof
  assume "p mod n = q mod n"
  then have "(p + n) mod n = q mod n" by simp
  then have "p + n = q" by (rule mod_inj_window [of _ _ _ t]) (use assms in linarith)+
  with assms(1) show False by simp
qed

section \<open>Pushing\<close>

definition pos_blocked :: "nat \<Rightarrow> nat set \<Rightarrow> nat \<Rightarrow> bool" where
  "pos_blocked n unreleased t \<longleftrightarrow> n \<le> t \<and> t - n \<in> unreleased"

lemma not_blockedD: "\<not> pos_blocked n U t \<Longrightarrow> p \<in> U \<Longrightarrow> p + n \<noteq> t"
  by (auto simp: pos_blocked_def)

lemma spmc_try_claim_spec:
  assumes ok: "spmc_ring_ok vs h own lost r" and p: "write_pos p = of_nat (length vs)"
  shows "spmc_try_claim p r =
      Inr (if pos_blocked (slots (sm_capacity r)) (own \<union> lost) (length vs) then None
           else Some (length vs mod slots (sm_capacity r), of_nat (length vs)))"
    and "spmc_has_space p r = Inr (\<not> pos_blocked (slots (sm_capacity r)) (own \<union> lost) (length vs))"
proof -
  let ?n = "slots (sm_capacity r)" let ?t = "length vs"
  note D = spmc_ring_okD [OF ok]
  have i: "?t mod ?n < length (sm_done r)" using D(3,8) by simp
  have "done_is_free_for (sm_done r ! (?t mod ?n)) (of_nat ?t)
      \<longleftrightarrow> \<not> pos_blocked ?n (own \<union> lost) ?t"
    using D(11) [of ?t] D(7,8) of_nat_usize_simps(1) [of "?t - ?n" ?t]
    by (auto simp: done_is_free_for_def pos_blocked_def owed_def)
  then show "spmc_try_claim p r =
      Inr (if pos_blocked ?n (own \<union> lost) ?t then None else Some (?t mod ?n, of_nat ?t))"
    and "spmc_has_space p r = Inr (\<not> pos_blocked ?n (own \<union> lost) ?t)"
    using i p by (simp_all add: spmc_try_claim_def spmc_has_space_def Let_def spmc_load_done_def
        spmc_slot_simps [OF D(1)])
qed

text \<open>Publishing at the tail adds one owned position.\<close>

lemma spmc_publish_ok:
  assumes ok: "spmc_ring_ok vs h own lost r"
    and free: "\<not> pos_blocked (slots (sm_capacity r)) (own \<union> lost) (length vs)"
    and cell: "sm_data r ! (length vs mod slots (sm_capacity r)) = Some v"
    and small: "Suc (length vs) + slots (sm_capacity r) < 2 ^ 64"
  shows "spmc_ring_ok (vs @ [v]) h (insert (length vs) own) lost
    (spmc_store_tail (of_nat (length vs) + 1) r)"
proof -
  let ?n = "slots (sm_capacity r)" let ?t = "length vs"
  note D = spmc_ring_okD [OF ok]
  have bounds: "p < Suc ?t \<and> Suc ?t \<le> p + ?n" if "p \<in> insert ?t own \<union> lost" for p
  proof (cases "p = ?t")
    case True
    then show ?thesis using D(8) by simp
  next
    case False
    then have "p \<in> own \<union> lost" using that by simp
    moreover have "p + ?n \<noteq> ?t" using free calculation by (rule not_blockedD)
    ultimately show ?thesis using D(9) [of p] by linarith
  qed
  have "sm_done r ! (p mod ?n) = \<lparr>done_at = of_nat (owed ?n (insert ?t own \<union> lost) p)\<rparr>"
    if "Suc ?t \<le> p" "p < Suc ?t + ?n" for p
  proof (cases "p = ?t + ?n")
    case True
    then have "p mod ?n = ?t mod ?n" by simp
    then show ?thesis using True D(8) D(11) [of ?t] free by (auto simp: pos_blocked_def owed_def)
  next
    case False
    then have "?n \<le> p \<Longrightarrow> p - ?n \<noteq> ?t" using that by linarith
    then have "owed ?n (insert ?t own \<union> lost) p = owed ?n (own \<union> lost) p" by (auto simp: owed_def)
    then show ?thesis using D(11) [of p] that False by simp
  qed
  moreover have "sm_data r ! (p mod ?n) = Some ((vs @ [v]) ! p)" if "p \<in> insert ?t own" for p
    using that cell D(9,10) [of p] by (cases "p = ?t") (auto simp: nth_append)
  ultimately show ?thesis
    using D small bounds by (simp add: spmc_ring_ok_def spmc_store_tail_def add.commute)
qed

lemma spmc_write_free:
  assumes ok: "spmc_ring_ok vs h own lost r"
    and free: "\<not> pos_blocked (slots (sm_capacity r)) (own \<union> lost) (length vs)"
  shows "spmc_ring_ok vs h own lost (r\<lparr>sm_data := (sm_data r)[length vs mod slots (sm_capacity r) := x]\<rparr>)"
proof -
  let ?n = "slots (sm_capacity r)" let ?t = "length vs"
  note D = spmc_ring_okD [OF ok]
  have "?t mod ?n \<noteq> p mod ?n" if "p \<in> own" for p
    using window_slots_next [of ?t p ?n ?t] not_blockedD [OF free, of p] that D(8) D(9) [of p] by auto
  then show ?thesis using ok by (auto simp: spmc_ring_ok_def)
qed

lemma spmc_push_spec:
  assumes ok: "spmc_ring_ok vs h own lost r" and p: "write_pos p = of_nat (length vs)"
    and small: "Suc (length vs) + slots (sm_capacity r) < 2 ^ 64"
  shows "if pos_blocked (slots (sm_capacity r)) (own \<union> lost) (length vs)
    then spmc_push v p r = Inr (Push_Err v, p, r)
    else \<exists>r'. spmc_push v p r = Inr (Push_Ok, \<lparr>write_pos = of_nat (length (vs @ [v]))\<rparr>, spmc_wake_one r')
      \<and> spmc_ring_ok (vs @ [v]) h (insert (length vs) own) lost (spmc_wake_one r')
      \<and> sm_closed r' = sm_closed r \<and> sm_consumer_closed r' = sm_consumer_closed r
      \<and> sm_capacity r' = sm_capacity r \<and> sm_dropped r' = sm_dropped r
      \<and> sm_producer_park r' = sm_producer_park r \<and> sm_consumer_park r' = sm_consumer_park r
      \<and> sm_consumer_count r' = sm_consumer_count r"
proof (cases "pos_blocked (slots (sm_capacity r)) (own \<union> lost) (length vs)")
  case True
  then show ?thesis using spmc_try_claim_spec(1) [OF ok p] by (simp add: spmc_push_def)
next
  case False
  let ?i = "length vs mod slots (sm_capacity r)"
  let ?r = "r\<lparr>sm_data := (sm_data r)[?i := Some v]\<rparr>"
  note D = spmc_ring_okD [OF ok]
  have i: "?i < length (sm_data r)" using D(2,8) by simp
  have "spmc_ring_ok (vs @ [v]) h (insert (length vs) own) lost
      (spmc_store_tail (of_nat (length vs) + 1) ?r)"
    using spmc_publish_ok [OF spmc_write_free [OF ok False, of "Some v"], of v] False small i by simp
  moreover have "spmc_push v p r = Inr (Push_Ok, p\<lparr>write_pos := of_nat (length vs) + 1\<rparr>,
      spmc_wake_one (spmc_store_tail (of_nat (length vs) + 1) ?r))"
    using spmc_try_claim_spec(1) [OF ok p] False i by (simp add: spmc_push_def Let_def)
  ultimately show ?thesis
    using False by (auto simp: spmc_store_tail_def add.commute)
qed

section \<open>Taking\<close>

text \<open>Reading an owned position and handing its slot back.\<close>

lemma spmc_take_spec:
  assumes ok: "spmc_ring_ok vs h own lost r" and p: "p \<in> own"
  shows "spmc_take_data (p mod slots (sm_capacity r)) r =
    Inr (vs ! p, r\<lparr>sm_data := (sm_data r)[p mod slots (sm_capacity r) := None]\<rparr>)"
  using spmc_ring_okD(2,8,10) [OF ok] p by (simp add: spmc_take_data_def)

lemma spmc_taken_ok:
  assumes ok: "spmc_ring_ok vs h own lost r" and p: "p \<in> own" "p \<notin> lost"
  shows "spmc_ring_ok vs h (own - {p}) (insert p lost)
    (r\<lparr>sm_data := (sm_data r)[p mod slots (sm_capacity r) := None]\<rparr>)"
proof -
  let ?n = "slots (sm_capacity r)"
  note D = spmc_ring_okD [OF ok]
  have "p mod ?n \<noteq> q mod ?n" if "q \<in> own" "q \<noteq> p" for q
    using window_slots [of p q "length vs" ?n] that p D(9) [of p] D(9) [of q] by simp
  moreover have "own - {p} \<union> insert p lost = own \<union> lost" using p by auto
  ultimately show ?thesis using ok by (auto simp: spmc_ring_ok_def)
qed

lemma done_release_eq: "done_release d (of_nat p) c = \<lparr>done_at = of_nat (p + slots c)\<rparr>"
  by (cases d) (simp add: done_release_def capacity_get_def)

lemma spmc_released_ok:
  assumes ok: "spmc_ring_ok vs h own lost r" and p: "p \<in> lost" "p \<notin> own"
  shows "\<exists>r'. spmc_release_at (p mod slots (sm_capacity r)) (of_nat p) r = Inr r'
    \<and> spmc_ring_ok vs h own (lost - {p}) r'
    \<and> r' = r\<lparr>sm_done := (sm_done r)[p mod slots (sm_capacity r)
        := \<lparr>done_at = of_nat (p + slots (sm_capacity r))\<rparr>]\<rparr>"
proof -
  let ?n = "slots (sm_capacity r)"
  let ?r = "r\<lparr>sm_done := (sm_done r)[p mod ?n := \<lparr>done_at = of_nat (p + ?n)\<rparr>]\<rparr>"
  note D = spmc_ring_okD [OF ok]
  have i: "p mod ?n < length (sm_done r)" using D(3,8) by simp
  have run: "spmc_release_at (p mod ?n) (of_nat p) r = Inr ?r"
    using i by (simp add: spmc_release_at_def spmc_load_done_def done_release_eq)
  have "sm_done ?r ! (q mod ?n) = \<lparr>done_at = of_nat (owed ?n (own \<union> (lost - {p})) q)\<rparr>"
    if q: "length vs \<le> q" "q < length vs + ?n" for q
  proof (cases "q = p + ?n")
    case True
    then show ?thesis using i p by (simp add: owed_def)
  next
    case False
    then have "p mod ?n \<noteq> q mod ?n" using window_slots_next [of q p ?n "length vs"] p q D(9) [of p] by simp
    moreover have "?n \<le> q \<Longrightarrow> q - ?n \<noteq> p" using False by linarith
    then have "owed ?n (own \<union> (lost - {p})) q = owed ?n (own \<union> lost) q" by (auto simp: owed_def)
    ultimately show ?thesis using D(11) [OF q] by simp
  qed
  then have "spmc_ring_ok vs h own (lost - {p}) ?r" using ok by (auto simp: spmc_ring_ok_def)
  then show ?thesis using run by blast
qed

text \<open>What a taking call leaves alone.\<close>

definition spmc_same :: "'a spmc_ring \<Rightarrow> 'a spmc_ring \<Rightarrow> bool" where
  "spmc_same r r' \<longleftrightarrow> sm_capacity r' = sm_capacity r \<and> sm_cursors r' = sm_cursors r
    \<and> sm_closed r' = sm_closed r \<and> sm_consumer_closed r' = sm_consumer_closed r
    \<and> sm_consumer_park r' = sm_consumer_park r \<and> sm_consumer_count r' = sm_consumer_count r"

lemma spmc_same_refl: "spmc_same r r"
  by (simp add: spmc_same_def)

lemma spmc_same_trans: "spmc_same r r1 \<Longrightarrow> spmc_same r1 r2 \<Longrightarrow> spmc_same r r2"
  by (simp add: spmc_same_def)

lemma spmc_take_release:
  assumes ok: "spmc_ring_ok vs h own lost r" and p: "p \<in> own" "p \<notin> lost"
  shows "\<exists>r1 r2. spmc_take_data (spmc_data_slot r (of_nat p)) r = Inr (vs ! p, r1)
    \<and> spmc_release_at (spmc_done_slot r (of_nat p)) (of_nat p) r1 = Inr r2
    \<and> spmc_ring_ok vs h (own - {p}) (insert p lost) r1 \<and> spmc_ring_ok vs h (own - {p}) lost r2
    \<and> spmc_same r r1 \<and> spmc_same r r2
    \<and> sm_dropped r1 = sm_dropped r \<and> sm_dropped r2 = sm_dropped r
    \<and> sm_producer_park r1 = sm_producer_park r \<and> sm_producer_park r2 = sm_producer_park r
    \<and> sm_unparked r1 = sm_unparked r \<and> sm_unparked r2 = sm_unparked r"
proof -
  let ?n = "slots (sm_capacity r)"
  let ?r1 = "r\<lparr>sm_data := (sm_data r)[p mod ?n := None]\<rparr>"
  have ok1: "spmc_ring_ok vs h (own - {p}) (insert p lost) ?r1" using spmc_taken_ok [OF ok p] .
  from spmc_released_ok [OF this, of p] obtain r2 where
    r2: "spmc_release_at (p mod ?n) (of_nat p) ?r1 = Inr r2"
      "spmc_ring_ok vs h (own - {p}) (insert p lost - {p}) r2"
      "r2 = ?r1\<lparr>sm_done := (sm_done r)[p mod ?n := \<lparr>done_at = of_nat (p + ?n)\<rparr>]\<rparr>"
    by auto
  then show ?thesis
    using spmc_take_spec [OF ok p(1)] ok1 p(2) spmc_slot_simps [OF spmc_ring_okD(1) [OF ok], of p]
    by (intro exI [of _ ?r1] exI [of _ r2]) (simp add: spmc_same_def)
qed

text \<open>Advancing the head over published positions changes no slot.\<close>

lemma spmc_head_ok:
  assumes "spmc_ring_ok vs h own lost r" and "h' \<le> length vs"
  shows "spmc_ring_ok vs h' own lost (r\<lparr>sm_cursors := (sm_cursors r)\<lparr>head := of_nat h'\<rparr>\<rparr>)"
  using assms by (simp add: spmc_ring_ok_def)

section \<open>Claiming\<close>

text \<open>
  A consumer as numbers: the tail it last saw, what is left of its batch, and the
  position its open reader holds. An undisturbed claim, on numbers.
\<close>

record member =
  mb_seen :: nat
  mb_next :: nat
  mb_end :: nat
  mb_reading :: "nat option"

definition member_ok :: "nat \<Rightarrow> nat \<Rightarrow> member \<Rightarrow> bool" where
  "member_ok h t m \<longleftrightarrow> mb_seen m \<le> t \<and> mb_next m \<le> mb_end m \<and> mb_end m \<le> h"

definition member_consumer :: "park_slot \<Rightarrow> member \<Rightarrow> spmc_consumer" where
  "member_consumer slot m =
     \<lparr>sc_cached_tail = of_nat (mb_seen m), batch_next = of_nat (mb_next m),
      batch_end = of_nat (mb_end m), sc_park_slot = slot\<rparr>"

definition member_claim :: "nat \<Rightarrow> nat \<Rightarrow> member \<Rightarrow> nat option \<times> nat \<times> member" where
  "member_claim t h m =
     (if mb_next m < mb_end m then (Some (mb_next m), h, m\<lparr>mb_next := Suc (mb_next m)\<rparr>)
      else
        let seen = (if mb_seen m \<le> h then t else mb_seen m);
            m1 = m\<lparr>mb_seen := seen\<rparr>;
            k = min (seen - h) 4
        in if seen \<le> h then (None, h, m1)
           else (Some h, h + k, m1\<lparr>mb_next := Suc h, mb_end := h + k\<rparr>))"

definition member_batch :: "member \<Rightarrow> nat list" where
  "member_batch m = [mb_next m..<mb_end m]"

lemma upt_split: "i \<le> j \<Longrightarrow> j \<le> k \<Longrightarrow> [i..<k] = [i..<j] @ [j..<k]"
  using upt_add_eq_append [of i j "k - j"] by simp

text \<open>What a claim did: the position taken, the new head, and the consumer's view after it.\<close>

definition claim_outcome ::
    "nat \<Rightarrow> nat \<Rightarrow> member \<Rightarrow> nat option \<Rightarrow> nat \<Rightarrow> member \<Rightarrow> bool" where
  "claim_outcome t h m pos h' m' \<longleftrightarrow>
     h \<le> h' \<and> h' \<le> t \<and> member_ok h' t m' \<and> mb_reading m' = mb_reading m \<and>
     (case pos of
        Some p \<Rightarrow> member_batch m @ [h..<t] = p # member_batch m' @ [h'..<t] \<and> p < h'
      | None \<Rightarrow> member_batch m = [] \<and> h = t \<and> h' = h \<and> member_batch m' = [])"

lemma member_claim_spec:
  assumes "member_claim t h m = (pos, h', m')" and ok: "member_ok h t m" and "h \<le> t"
  shows "claim_outcome t h m pos h' m'"
proof (cases "mb_next m < mb_end m")
  case True
  then have "pos = Some (mb_next m)" "h' = h" "m' = m\<lparr>mb_next := Suc (mb_next m)\<rparr>"
    using assms(1) by (simp_all add: member_claim_def)
  then show ?thesis
    using True ok assms(3)
    by (simp add: claim_outcome_def member_ok_def member_batch_def upt_conv_Cons del: upt_Suc)
next
  case False
  define seen where "seen = (if mb_seen m \<le> h then t else mb_seen m)"
  define k where "k = min (seen - h) 4"
  have batch: "member_batch m = []" using False by (simp add: member_batch_def)
  have seen: "seen \<le> t" "h = t" if "seen \<le> h" using that ok assms(3) by (auto simp: seen_def member_ok_def split: if_splits)
  show ?thesis
  proof (cases "seen \<le> h")
    case True
    then have "pos = None" "h' = h" "m' = m\<lparr>mb_seen := seen\<rparr>"
      using assms(1) False by (simp_all add: member_claim_def Let_def seen_def [symmetric])
    then show ?thesis
      using batch seen [OF True] ok by (simp add: claim_outcome_def member_ok_def member_batch_def)
  next
    case f: False
    then have r: "pos = Some h" "h' = h + k" "m' = m\<lparr>mb_seen := seen, mb_next := Suc h, mb_end := h + k\<rparr>"
      using assms(1) False by (auto simp: member_claim_def Let_def seen_def [symmetric] k_def)
    have "0 < k" "h + k \<le> t" "seen \<le> t"
      using f ok by (auto simp: k_def seen_def member_ok_def split: if_splits)
    moreover have "[h..<t] = h # [Suc h..<h + k] @ [h + k..<t]"
      using upt_split [of h "h + k" t] calculation by (simp add: upt_conv_Cons del: upt_Suc)
    ultimately show ?thesis
      using r batch by (simp add: claim_outcome_def member_ok_def member_batch_def del: upt_Suc)
  qed
qed

lemma cursors_same: "head c = h \<Longrightarrow> c\<lparr>head := h\<rparr> = c"
  by (cases c) simp

lemma of_nat_take:
  assumes "h < t" and "t < 2 ^ 64"
  shows "(of_nat h :: usize) + min (of_nat t - of_nat h) BATCH_SIZE = of_nat (h + min (t - h) 4)"
proof -
  have lt: "(of_nat h :: usize) < of_nat t" using assms of_nat_usize_simps(2) [of h t] by simp
  have "h + min (t - h) 4 < 2 ^ 64" using assms by simp
  then have "unat (of_nat (h + min (t - h) 4) :: usize) = h + min (t - h) 4" by (rule unat_of_nat_usize)
  moreover have "unat ((of_nat h :: usize) + min (of_nat t - of_nat h) BATCH_SIZE) = h + min (t - h) 4"
    using unat_take [OF lt] unat_of_nat_usize [of h] unat_of_nat_usize [of t] assms by simp
  ultimately show ?thesis by (simp only: word_unat_eq_iff)
qed

lemma spmc_claim_batch_spec:
  assumes h: "head (sm_cursors r) = of_nat h" and t: "tail (sm_cursors r) = of_nat t"
    and small: "t < 2 ^ 64" and "h \<le> t" and m: "member_ok h t m" and "mb_end m \<le> mb_next m"
    and claim: "member_claim t h m = (pos, h', m')"
  shows "spmc_claim_batch [] (member_consumer slot m) r =
    (map_option of_nat pos, member_consumer slot m', r\<lparr>sm_cursors := (sm_cursors r)\<lparr>head := of_nat h'\<rparr>\<rparr>)"
proof -
  define seen where "seen = (if mb_seen m \<le> h then t else mb_seen m)"
  have bounds: "mb_seen m < 2 ^ 64" "h < 2 ^ 64" "seen < 2 ^ 64"
    using m small assms(4) by (auto simp: member_ok_def seen_def)
  have cached: "sc_cached_tail (member_consumer slot m) \<le> head (sm_cursors r) \<longleftrightarrow> mb_seen m \<le> h"
    using of_nat_usize_simps(3) [OF bounds(1,2)] h by (simp add: member_consumer_def)
  have tl: "(if mb_seen m \<le> h then tail (sm_cursors r) else sc_cached_tail (member_consumer slot m))
      = of_nat seen"
    using t by (simp add: seen_def member_consumer_def)
  have c1: "(if mb_seen m \<le> h then (member_consumer slot m)\<lparr>sc_cached_tail := of_nat seen\<rparr>
      else member_consumer slot m) = member_consumer slot (m\<lparr>mb_seen := seen\<rparr>)"
    by (simp add: member_consumer_def seen_def)
  have cmp: "(of_nat seen :: usize) \<le> of_nat h \<longleftrightarrow> seen \<le> h"
    by (rule of_nat_usize_simps(3) [OF bounds(3,2)])
  show ?thesis
  proof (cases "seen \<le> h")
    case True
    then have "pos = None" "h' = h" "m' = m\<lparr>mb_seen := seen\<rparr>"
      using claim assms(6) by (simp_all add: member_claim_def Let_def seen_def [symmetric])
    then show ?thesis
      unfolding claim_batch_alone Let_def cached tl c1 using True cmp h by (simp add: cursors_same)
  next
    case False
    then have r: "pos = Some h" "h' = h + min (seen - h) 4"
      "m' = m\<lparr>mb_seen := seen, mb_next := Suc h, mb_end := h + min (seen - h) 4\<rparr>"
      using claim assms(6) by (auto simp: member_claim_def Let_def seen_def [symmetric])
    show ?thesis
      unfolding claim_batch_alone Let_def cached tl c1 r(1,2)
      using False cmp of_nat_take [of h seen] bounds(3) by (simp add: r(3) h member_consumer_def add.commute)
  qed
qed

lemma spmc_claim_slot_spec:
  assumes h: "head (sm_cursors r) = of_nat h" and t: "tail (sm_cursors r) = of_nat t"
    and small: "t < 2 ^ 64" and "h \<le> t" and m: "member_ok h t m"
    and claim: "member_claim t h m = (pos, h', m')"
  shows "spmc_claim_slot [] (member_consumer slot m) r =
    (map_option of_nat pos, member_consumer slot m', r\<lparr>sm_cursors := (sm_cursors r)\<lparr>head := of_nat h'\<rparr>\<rparr>)"
proof -
  have lt: "(of_nat (mb_next m) :: usize) < of_nat (mb_end m) \<longleftrightarrow> mb_next m < mb_end m"
    using m small assms(4) by (intro of_nat_usize_simps(2)) (simp_all add: member_ok_def)
  show ?thesis
  proof (cases "mb_next m < mb_end m")
    case True
    then have "pos = Some (mb_next m)" "h' = h" "m' = m\<lparr>mb_next := Suc (mb_next m)\<rparr>"
      using claim by (simp_all add: member_claim_def)
    then show ?thesis
      using True lt h
      by (simp add: spmc_claim_slot_def member_consumer_def Let_def cursors_same add.commute)
  next
    case False
    then have "spmc_claim_slot [] (member_consumer slot m) r = spmc_claim_batch [] (member_consumer slot m) r"
      using lt by (simp add: spmc_claim_slot_def member_consumer_def Let_def)
    then show ?thesis
      using spmc_claim_batch_spec [OF h t small assms(4) m _ claim] False by simp
  qed
qed

end
