(* ===== verification/Spmc_Programs.thy ===== *)
theory Spmc_Programs
  imports Spmc_Correct "HOL-Library.Multiset"
begin

text \<open>
  The spmc ring with its handles: one producer and any number of consumers that join,
  pop, read in place and leave in any order. Each call is run to its end before the
  next (\<open>Spmc_Races\<close> opens the claim to interference). The specification works on
  positions as numbers, and the ring follows it event by event.
\<close>

section \<open>The system\<close>

text \<open>A consumer is gone once dropped; an open reader borrows its consumer.\<close>

type_synonym 'a spmc =
  "spmc_producer \<times> (spmc_consumer \<times> spmc_slot_reader option) option list \<times> 'a spmc_ring"

datatype 'a spmc_op = X_Push 'a | X_Pop nat | X_Open nat | X_Finish nat | X_Clone | X_Leave nat

datatype 'a spmc_event =
    X_Accepted 'a | X_Refused 'a | X_Popped nat 'a | X_Found_Nothing nat | X_Opened nat 'a
  | X_Finished nat completion | X_Joined | X_Left nat completion "'a list" | X_No_Call

definition handle_at ::
    "(spmc_consumer \<times> spmc_slot_reader option) option list \<Rightarrow> nat
      \<Rightarrow> (spmc_consumer \<times> spmc_slot_reader option) option" where
  "handle_at cs i = (if i < length cs then cs ! i else None)"

definition spmc_sys_push :: "'a \<Rightarrow> 'a spmc \<Rightarrow> ('a spmc_event \<times> 'a spmc) exec" where
  "spmc_sys_push v s =
     (case s of (p, cs, r) \<Rightarrow>
        seq_exec (spmc_push v p r) (\<lambda>(res, p1, r1).
          Inr (case res of Push_Ok \<Rightarrow> X_Accepted v | Push_Err v1 \<Rightarrow> X_Refused v1, p1, cs, r1)))"

definition spmc_sys_pop :: "nat \<Rightarrow> 'a spmc \<Rightarrow> ('a spmc_event \<times> 'a spmc) exec" where
  "spmc_sys_pop i s =
     (case s of (p, cs, r) \<Rightarrow>
        case handle_at cs i of
          Some (c, None) \<Rightarrow>
            seq_exec (spmc_pop [] c r) (\<lambda>(res, c1, r1).
              Inr (case res of None \<Rightarrow> X_Found_Nothing i | Some v \<Rightarrow> X_Popped i v,
                   p, cs[i := Some (c1, None)], r1))
        | _ \<Rightarrow> Inr (X_No_Call, s))"

definition spmc_sys_open :: "nat \<Rightarrow> 'a spmc \<Rightarrow> ('a spmc_event \<times> 'a spmc) exec" where
  "spmc_sys_open i s =
     (case s of (p, cs, r) \<Rightarrow>
        case handle_at cs i of
          Some (c, None) \<Rightarrow>
            (case spmc_pop_ref [] c r of
               (None, c1, r1) \<Rightarrow> Inr (X_Found_Nothing i, p, cs[i := Some (c1, None)], r1)
             | (Some rd, c1, r1) \<Rightarrow>
                 seq_exec (spmc_reader_deref rd r1) (\<lambda>v.
                   Inr (X_Opened i v, p, cs[i := Some (c1, Some rd)], r1)))
        | _ \<Rightarrow> Inr (X_No_Call, s))"

definition spmc_sys_finish ::
    "('a \<Rightarrow> completion) \<Rightarrow> nat \<Rightarrow> 'a spmc \<Rightarrow> ('a spmc_event \<times> 'a spmc) exec" where
  "spmc_sys_finish dtor i s =
     (case s of (p, cs, r) \<Rightarrow>
        case handle_at cs i of
          Some (c, Some rd) \<Rightarrow>
            seq_exec (spmc_reader_drop dtor rd r) (\<lambda>(fin, r1).
              Inr (X_Finished i fin, p, cs[i := Some (c, None)], r1))
        | _ \<Rightarrow> Inr (X_No_Call, s))"

definition spmc_sys_clone :: "'a spmc \<Rightarrow> ('a spmc_event \<times> 'a spmc) exec" where
  "spmc_sys_clone s =
     (case s of (p, cs, r) \<Rightarrow>
        if list_ex (\<lambda>c. c \<noteq> None) cs then
          (case spmc_clone r of (c, r1) \<Rightarrow> Inr (X_Joined, p, cs @ [Some (c, None)], r1))
        else Inr (X_No_Call, s))"

definition spmc_sys_leave ::
    "('a \<Rightarrow> completion) \<Rightarrow> nat \<Rightarrow> 'a spmc \<Rightarrow> ('a spmc_event \<times> 'a spmc) exec" where
  "spmc_sys_leave dtor i s =
     (case s of (p, cs, r) \<Rightarrow>
        case handle_at cs i of
          Some (c, None) \<Rightarrow>
            seq_exec (spmc_consumer_drop dtor c r) (\<lambda>(fin, r1).
              Inr (X_Left i fin (drop (length (sm_dropped r)) (sm_dropped r1)),
                   p, cs[i := None], r1))
        | _ \<Rightarrow> Inr (X_No_Call, s))"

fun spmc_step ::
    "('a \<Rightarrow> completion) \<Rightarrow> 'a spmc_op \<Rightarrow> 'a spmc \<Rightarrow> ('a spmc_event \<times> 'a spmc) exec" where
  "spmc_step dtor (X_Push v) s = spmc_sys_push v s"
| "spmc_step dtor (X_Pop i) s = spmc_sys_pop i s"
| "spmc_step dtor (X_Open i) s = spmc_sys_open i s"
| "spmc_step dtor (X_Finish i) s = spmc_sys_finish dtor i s"
| "spmc_step dtor X_Clone s = spmc_sys_clone s"
| "spmc_step dtor (X_Leave i) s = spmc_sys_leave dtor i s"

fun spmc_run ::
    "('a \<Rightarrow> completion) \<Rightarrow> 'a spmc_op list \<Rightarrow> 'a spmc \<Rightarrow> ('a spmc_event list \<times> 'a spmc) exec" where
  "spmc_run dtor [] s = Inr ([], s)"
| "spmc_run dtor (op # ops) s =
     seq_exec (spmc_step dtor op s) (\<lambda>(e, s1).
     seq_exec (spmc_run dtor ops s1) (\<lambda>(es, s2). Inr (e # es, s2)))"

definition spmc_start :: "'a spmc_ring \<Rightarrow> 'a spmc" where
  "spmc_start r = (case spmc_split r of (p, c, r1) \<Rightarrow> (p, [Some (c, None)], r1))"

section \<open>The specification\<close>

text \<open>
  All values pushed, the number claimed, the consumers, and the positions lost. A step
  also says where the positions went: to a consumer, or to nobody.
\<close>

type_synonym 'a spmc_spec = "'a list \<times> nat \<times> member option list \<times> nat list"

fun held_by :: "member option \<Rightarrow> nat list" where
  "held_by None = []"
| "held_by (Some m) = (case mb_reading m of None \<Rightarrow> [] | Some p \<Rightarrow> [p]) @ member_batch m"

definition owned :: "member option list \<Rightarrow> nat \<Rightarrow> nat \<Rightarrow> nat list" where
  "owned ms h t = concat (map held_by ms) @ [h..<t]"

definition member_at :: "member option list \<Rightarrow> nat \<Rightarrow> member option" where
  "member_at ms i = (if i < length ms then ms ! i else None)"

definition member_new :: member where
  "member_new = \<lparr>mb_seen = 0, mb_next = 0, mb_end = 0, mb_reading = None\<rparr>"

fun spmc_spec_step ::
    "nat \<Rightarrow> ('a \<Rightarrow> completion) \<Rightarrow> 'a spmc_op \<Rightarrow> 'a spmc_spec
      \<Rightarrow> 'a spmc_event \<times> (nat option \<times> nat) list \<times> 'a spmc_spec" where
  "spmc_spec_step n dtor (X_Push v) (vs, h, ms, lost) =
     (if pos_blocked n (set (owned ms h (length vs)) \<union> set lost) (length vs)
      then (X_Refused v, [], vs, h, ms, lost)
      else (X_Accepted v, [], vs @ [v], h, ms, lost))"
| "spmc_spec_step n dtor (X_Pop i) (vs, h, ms, lost) =
     (case member_at ms i of
        None \<Rightarrow> (X_No_Call, [], vs, h, ms, lost)
      | Some m \<Rightarrow>
          if mb_reading m \<noteq> None then (X_No_Call, [], vs, h, ms, lost)
          else case member_claim (length vs) h m of
              (None, h1, m1) \<Rightarrow> (X_Found_Nothing i, [], vs, h1, ms[i := Some m1], lost)
            | (Some p, h1, m1) \<Rightarrow>
                (X_Popped i (vs ! p), [(Some i, p)], vs, h1, ms[i := Some m1], lost))"
| "spmc_spec_step n dtor (X_Open i) (vs, h, ms, lost) =
     (case member_at ms i of
        None \<Rightarrow> (X_No_Call, [], vs, h, ms, lost)
      | Some m \<Rightarrow>
          if mb_reading m \<noteq> None then (X_No_Call, [], vs, h, ms, lost)
          else case member_claim (length vs) h m of
              (None, h1, m1) \<Rightarrow> (X_Found_Nothing i, [], vs, h1, ms[i := Some m1], lost)
            | (Some p, h1, m1) \<Rightarrow>
                (X_Opened i (vs ! p), [(Some i, p)], vs, h1,
                 ms[i := Some (m1\<lparr>mb_reading := Some p\<rparr>)], lost))"
| "spmc_spec_step n dtor (X_Finish i) (vs, h, ms, lost) =
     (case member_at ms i of
        None \<Rightarrow> (X_No_Call, [], vs, h, ms, lost)
      | Some m \<Rightarrow>
          (case mb_reading m of
             None \<Rightarrow> (X_No_Call, [], vs, h, ms, lost)
           | Some p \<Rightarrow> (X_Finished i (dtor (vs ! p)), [], vs, h,
                        ms[i := Some (m\<lparr>mb_reading := None\<rparr>)], lost)))"
| "spmc_spec_step n dtor X_Clone (vs, h, ms, lost) =
     (if list_ex (\<lambda>m. m \<noteq> None) ms then (X_Joined, [], vs, h, ms @ [Some member_new], lost)
      else (X_No_Call, [], vs, h, ms, lost))"
| "spmc_spec_step n dtor (X_Leave i) (vs, h, ms, lost) =
     (case member_at ms i of
        None \<Rightarrow> (X_No_Call, [], vs, h, ms, lost)
      | Some m \<Rightarrow>
          if mb_reading m \<noteq> None then (X_No_Call, [], vs, h, ms, lost)
          else case drop_run dtor (map ((!) vs) (member_batch m)) of
              (fin, ds, rest) \<Rightarrow>
                (X_Left i fin ds,
                 map (Pair (Some i)) (take (length ds) (member_batch m))
                   @ map (Pair None) (drop (length ds) (member_batch m)),
                 vs, h, ms[i := None],
                 lost @ (if fin = Panicked then drop (length ds - 1) (member_batch m) else [])))"

fun spmc_spec_run ::
    "nat \<Rightarrow> ('a \<Rightarrow> completion) \<Rightarrow> 'a spmc_op list \<Rightarrow> 'a spmc_spec
      \<Rightarrow> 'a spmc_event list \<times> (nat option \<times> nat) list \<times> 'a spmc_spec" where
  "spmc_spec_run n dtor [] a = ([], [], a)"
| "spmc_spec_run n dtor (op # ops) a =
     (case spmc_spec_step n dtor op a of (e, outs, a1) \<Rightarrow>
        case spmc_spec_run n dtor ops a1 of (es, outs1, a2) \<Rightarrow> (e # es, outs @ outs1, a2))"

section \<open>The ring and its specification\<close>

definition reader_at :: "capacity \<Rightarrow> nat \<Rightarrow> spmc_slot_reader" where
  "reader_at c p = \<lparr>rd_data = p mod slots c, rd_done = p mod slots c, rd_head = of_nat p\<rparr>"

fun member_rel ::
    "capacity \<Rightarrow> nat \<Rightarrow> nat \<Rightarrow> member option \<Rightarrow> (spmc_consumer \<times> spmc_slot_reader option) option \<Rightarrow> bool" where
  "member_rel c h t None None = True"
| "member_rel c h t (Some m) (Some (k, rd)) =
     (member_ok h t m \<and> (\<exists>slot. k = member_consumer slot m)
      \<and> rd = map_option (reader_at c) (mb_reading m) \<and> (\<forall>p. mb_reading m = Some p \<longrightarrow> p < h))"
| "member_rel c h t _ _ = False"

fun spmc_rel :: "'a spmc_spec \<Rightarrow> 'a spmc \<Rightarrow> bool" where
  "spmc_rel (vs, h, ms, lost) (p, cs, r) \<longleftrightarrow>
     write_pos p = of_nat (length vs)
     \<and> spmc_ring_ok vs h (set (owned ms h (length vs))) (set lost) r
     \<and> distinct (owned ms h (length vs) @ lost)
     \<and> list_all2 (member_rel (sm_capacity r) h (length vs)) ms cs"

lemma member_rel_Some1: "member_rel c h t (Some m) co \<longleftrightarrow>
    (\<exists>slot. co = Some (member_consumer slot m, map_option (reader_at c) (mb_reading m)))
    \<and> member_ok h t m \<and> (\<forall>p. mb_reading m = Some p \<longrightarrow> p < h)"
  by (cases co) auto

lemma member_rel_None1 [simp]: "member_rel c h t None co \<longleftrightarrow> co = None"
  by (cases co) auto

lemma member_rel_mono:
  assumes "member_rel c h t mo co" and "h \<le> h'" and "t \<le> t'"
  shows "member_rel c h' t' mo co"
  using assms by (cases mo) (force simp: member_rel_Some1 member_ok_def)+

lemma members_rel_mono:
  "list_all2 (member_rel c h t) ms cs \<Longrightarrow> h \<le> h' \<Longrightarrow> t \<le> t' \<Longrightarrow> list_all2 (member_rel c h' t') ms cs"
  by (erule list_all2_mono) (rule member_rel_mono)

lemma held_update:
  assumes "i < length ms"
  shows "mset (concat (map held_by (ms[i := x]))) + mset (held_by (ms ! i))
    = mset (concat (map held_by ms)) + mset (held_by x)"
  using assms
proof (induction ms arbitrary: i)
  case (Cons m ms)
  then show ?case by (cases i) (simp_all add: ac_simps)
qed simp

lemma owned_update:
  assumes "i < length ms" and "mset (held_by (ms ! i) @ [h..<t]) = mset (xs @ held_by x @ [h'..<t'])"
  shows "mset (owned ms h t) = mset (xs @ owned (ms[i := x]) h' t')"
proof -
  have rearrange: "A' + B = A + B' \<Longrightarrow> B + H = X + (B' + H') \<Longrightarrow> A + H = X + (A' + H')"
    for A A' B B' H H' X :: "nat multiset"
  proof (rule multiset_eqI)
    fix z assume "A' + B = A + B'" and "B + H = X + (B' + H')"
    then have "count (A' + B) z = count (A + B') z" and "count (B + H) z = count (X + (B' + H')) z"
      by simp_all
    then show "count (A + H) z = count (X + (A' + H')) z" by simp
  qed
  show ?thesis
    using rearrange [OF held_update [OF assms(1), of x]] assms(2) by (simp add: owned_def)
qed

text \<open>A consumer is updated; the positions in \<open>xs\<close> have left the ring's hands.\<close>

lemma owned_leaves:
  assumes "mset (owned ms h t) = mset (xs @ owned ms' h' t')" and "distinct (owned ms h t @ lost)"
  shows "set (owned ms' h' t') = set (owned ms h t) - set xs" and "set xs \<subseteq> set (owned ms h t)"
    and "set xs \<inter> set lost = {}" and "distinct (owned ms' h' t' @ xs @ lost)"
proof -
  have s: "set (owned ms h t) = set xs \<union> set (owned ms' h' t')"
    using mset_eq_setD [OF assms(1)] by simp
  have d: "distinct (xs @ owned ms' h' t')"
    using mset_eq_imp_distinct_iff [OF assms(1)] assms(2) by simp
  show "set (owned ms' h' t') = set (owned ms h t) - set xs" using s d by auto
  show "set xs \<subseteq> set (owned ms h t)" using s by simp
  show "set xs \<inter> set lost = {}" using s assms(2) by auto
  show "distinct (owned ms' h' t' @ xs @ lost)" using s d assms(2) by auto
qed

lemma member_at_rel:
  assumes "list_all2 (member_rel c h t) ms cs" and "member_at ms i = Some m"
  obtains slot where "i < length ms" "ms ! i = Some m" "i < length cs"
    "handle_at cs i = Some (member_consumer slot m, map_option (reader_at c) (mb_reading m))"
    "member_ok h t m" "\<And>p. mb_reading m = Some p \<Longrightarrow> p < h"
proof -
  have i: "i < length ms" "ms ! i = Some m" using assms(2) by (auto simp: member_at_def split: if_splits)
  then have "member_rel c h t (Some m) (cs ! i)" "i < length cs"
    using list_all2_nthD [OF assms(1), of i] list_all2_lengthD [OF assms(1)] by simp_all
  with i that show thesis by (auto simp: member_rel_Some1 handle_at_def)
qed

lemma member_at_None:
  assumes "list_all2 (member_rel c h t) ms cs" and "member_at ms i = None"
  shows "handle_at cs i = None"
proof (cases "i < length ms")
  case True
  then have "ms ! i = None" using assms(2) by (simp add: member_at_def)
  then show ?thesis
    using list_all2_nthD [OF assms(1) True] list_all2_lengthD [OF assms(1)] True by (simp add: handle_at_def)
next
  case False
  then show ?thesis using list_all2_lengthD [OF assms(1)] by (simp add: handle_at_def)
qed

lemma members_update:
  assumes "list_all2 (member_rel c h t) ms cs" and "h \<le> h'" and "t \<le> t'" and "member_rel c h' t' mo co"
  shows "list_all2 (member_rel c h' t') (ms[i := mo]) (cs[i := co])"
  using members_rel_mono [OF assms(1-3)] assms(4) by (rule list_all2_update_cong)

section \<open>Every call follows its specification\<close>

text \<open>A claim, on both sides: nothing left the ring, but the consumer now holds a position.\<close>

lemma claim_sim:
  assumes rel: "spmc_rel (vs, h, ms, lost) (p, cs, r)" and m: "member_at ms i = Some m"
    and idle: "mb_reading m = None" and claim: "member_claim (length vs) h m = (pos, h', m')"
  obtains slot r1 where "handle_at cs i = Some (member_consumer slot m, None)"
    "spmc_claim_slot [] (member_consumer slot m) r = (map_option of_nat pos, member_consumer slot m', r1)"
    "r1 = r\<lparr>sm_cursors := (sm_cursors r)\<lparr>head := of_nat h'\<rparr>\<rparr>"
    "spmc_ring_ok vs h' (set (owned ms h (length vs))) (set lost) r1"
    "claim_outcome (length vs) h m pos h' m'" "i < length ms" "ms ! i = Some m"
proof -
  have ok: "spmc_ring_ok vs h (set (owned ms h (length vs))) (set lost) r"
    and all: "list_all2 (member_rel (sm_capacity r) h (length vs)) ms cs" using rel by simp_all
  note D = spmc_ring_okD [OF ok]
  obtain slot where at: "i < length ms" "ms ! i = Some m"
    "handle_at cs i = Some (member_consumer slot m, map_option (reader_at (sm_capacity r)) (mb_reading m))"
    "member_ok h (length vs) m"
    using member_at_rel [OF all m] by metis
  have small: "length vs < 2 ^ 64" using D(7) by simp
  have "claim_outcome (length vs) h m pos h' m'" by (rule member_claim_spec [OF claim at(4) D(6)])
  then show thesis
    using that [OF _ spmc_claim_slot_spec [OF D(4,5) small D(6) at(4) claim, of slot] refl] at idle
      spmc_head_ok [OF ok, of h'] by (simp add: claim_outcome_def)
qed

lemma claim_keeps_owned:
  assumes "claim_outcome t h m pos h' m'" and "i < length ms" "ms ! i = Some m" and "mb_reading m = None"
  shows "case pos of
      None \<Rightarrow> mset (owned ms h t) = mset (owned (ms[i := Some m']) h' t)
    | Some p \<Rightarrow> mset (owned ms h t) = mset ([p] @ owned (ms[i := Some m']) h' t)
        \<and> mset (owned ms h t) = mset (owned (ms[i := Some (m'\<lparr>mb_reading := Some p\<rparr>)]) h' t)"
proof -
  have idle: "mb_reading m' = None" using assms by (simp add: claim_outcome_def)
  have batch: "member_batch (m'\<lparr>mb_reading := x\<rparr>) = member_batch m'" for x by (simp add: member_batch_def)
  show ?thesis
  proof (cases pos)
    case None
    then have "mset (owned ms h t) = mset ([] @ owned (ms[i := Some m']) h' t)"
      using assms idle by (intro owned_update) (auto simp: claim_outcome_def)
    then show ?thesis using None by simp
  next
    case (Some q)
    then have e: "member_batch m @ [h..<t] = q # member_batch m' @ [h'..<t]"
      using assms(1) by (simp add: claim_outcome_def)
    have "mset (owned ms h t) = mset ([q] @ owned (ms[i := Some m']) h' t)"
      by (rule owned_update [OF assms(2)]) (use assms(3,4) idle e in simp)
    moreover have "mset (owned ms h t)
        = mset ([] @ owned (ms[i := Some (m'\<lparr>mb_reading := Some q\<rparr>)]) h' t)"
      by (rule owned_update [OF assms(2)]) (use assms(3,4) e batch in simp)
    ultimately show ?thesis using Some by simp
  qed
qed

text \<open>What a call leaves alone, seen from the handles.\<close>

definition spmc_steps_to ::
    "'a spmc_spec \<Rightarrow> 'a spmc \<Rightarrow> 'a spmc_event \<Rightarrow> 'a spmc_spec \<Rightarrow> ('a spmc_event \<times> 'a spmc) exec \<Rightarrow> bool" where
  "spmc_steps_to a s e a' out \<longleftrightarrow>
     (\<exists>p' cs' r'. out = Inr (e, p', cs', r') \<and> spmc_rel a' (p', cs', r')
       \<and> sm_capacity r' = sm_capacity (snd (snd s)) \<and> sm_closed r' = sm_closed (snd (snd s)))"

lemma spmc_steps_toI:
  assumes "out = Inr (e, p', cs', r')" and "spmc_rel a' (p', cs', r')"
    and "sm_capacity r' = sm_capacity r" and "sm_closed r' = sm_closed r"
  shows "spmc_steps_to a (p, cs, r) e a' out"
  using assms by (auto simp: spmc_steps_to_def)

lemma spmc_no_call: "spmc_rel a s \<Longrightarrow> spmc_steps_to a s e a (Inr (e, s))"
  by (cases s) (simp add: spmc_steps_to_def)

lemma sys_push_follows:
  assumes rel: "spmc_rel (vs, h, ms, lost) (p, cs, r)"
    and small: "Suc (length vs) + slots (sm_capacity r) < 2 ^ 64"
    and spec: "spmc_spec_step (slots (sm_capacity r)) dtor (X_Push v) (vs, h, ms, lost) = (e, outs, a')"
  shows "spmc_steps_to (vs, h, ms, lost) (p, cs, r) e a' (spmc_sys_push v (p, cs, r))"
proof -
  let ?own = "set (owned ms h (length vs))"
  have ok: "spmc_ring_ok vs h ?own (set lost) r" and wp: "write_pos p = of_nat (length vs)"
    using rel by simp_all
  note push = spmc_push_spec [OF ok wp small, of v]
  show ?thesis
  proof (cases "pos_blocked (slots (sm_capacity r)) (?own \<union> set lost) (length vs)")
    case True
    then show ?thesis
      using push spec rel by (intro spmc_steps_toI [where p' = p and cs' = cs and r' = r])
        (auto simp: spmc_sys_push_def)
  next
    case False
    then obtain r' where r': "spmc_push v p r = Inr (Push_Ok, \<lparr>write_pos = of_nat (length (vs @ [v]))\<rparr>, r')"
      "spmc_ring_ok (vs @ [v]) h (insert (length vs) ?own) (set lost) r'"
      "sm_closed r' = sm_closed r" "sm_capacity r' = sm_capacity r"
      using push by (fastforce split: if_splits)
    have hle: "h \<le> length vs" using spmc_ring_okD(6) [OF ok] .
    then have o: "owned ms h (length (vs @ [v])) = owned ms h (length vs) @ [length vs]"
      by (simp add: owned_def)
    have "\<forall>q \<in> ?own \<union> set lost. q < length vs" using spmc_ring_okD(9) [OF ok] by blast
    then have "distinct (owned ms h (length (vs @ [v])) @ lost)"
      using rel unfolding o by auto
    moreover have "spmc_ring_ok (vs @ [v]) h (set (owned ms h (length (vs @ [v])))) (set lost) r'"
      using r'(2) unfolding o by simp
    moreover have "list_all2 (member_rel (sm_capacity r) h (length (vs @ [v]))) ms cs"
      using rel members_rel_mono [of "sm_capacity r" h "length vs" ms cs h "length (vs @ [v])"] by simp
    ultimately show ?thesis
      using spec False r'
      by (intro spmc_steps_toI [where p' = "\<lparr>write_pos = of_nat (length (vs @ [v]))\<rparr>" and cs' = cs and r' = r'])
        (auto simp: spmc_sys_push_def)
  qed
qed

text \<open>One position leaves: it is read out of its cell, its slot is handed back.\<close>

lemma leaving_rel:
  assumes "distinct (owned ms h t @ lost)" and "mset (owned ms h t) = mset ([q] @ owned ms' h' t)"
    and "spmc_ring_ok vs h' (set (owned ms h t) - {q}) (set lost) r'"
  shows "spmc_ring_ok vs h' (set (owned ms' h' t)) (set lost) r'" and "distinct (owned ms' h' t @ lost)"
    and "q \<in> set (owned ms h t)" "q \<notin> set lost"
  using owned_leaves [OF assms(2,1)] assms(3) by auto

text \<open>A claim that finds nothing changes only what the consumer has seen.\<close>

lemma found_nothing_rel:
  assumes rel: "spmc_rel (vs, h, ms, lost) (p, cs, r)"
    and at: "i < length ms" "ms ! i = Some m" and idle: "mb_reading m = None"
    and out: "claim_outcome (length vs) h m None h' m'"
    and ok: "spmc_ring_ok vs h' (set (owned ms h (length vs))) (set lost) r1"
    and "sm_capacity r1 = sm_capacity r"
  shows "spmc_rel (vs, h', ms[i := Some m'], lost) (p, cs[i := Some (member_consumer slot m', None)], r1)"
proof -
  have same: "mset (owned ms h (length vs)) = mset (owned (ms[i := Some m']) h' (length vs))"
    using claim_keeps_owned [OF out at idle] by simp
  have "member_rel (sm_capacity r1) h' (length vs) (Some m') (Some (member_consumer slot m', None))"
    using out idle by (auto simp: claim_outcome_def)
  then have "list_all2 (member_rel (sm_capacity r1) h' (length vs)) (ms[i := Some m'])
      (cs[i := Some (member_consumer slot m', None)])"
    using rel assms(7) out by (intro members_update [where h = h and t = "length vs"]) (auto simp: claim_outcome_def)
  then show ?thesis
    using rel ok mset_eq_setD [OF same] mset_eq_imp_distinct_iff [OF same] by simp
qed

text \<open>A handle is gone, lends itself to a reader, or may be called.\<close>

lemma handle_cases [consumes 1, case_names gone reading idle]:
  assumes "list_all2 (member_rel c h t) ms cs"
  obtains (gone) "member_at ms i = None" "handle_at cs i = None"
  | (reading) m q k where "member_at ms i = Some m" "mb_reading m = Some q"
      "handle_at cs i = Some (k, Some (reader_at c q))"
  | (idle) m k where "member_at ms i = Some m" "mb_reading m = None" "handle_at cs i = Some (k, None)"
proof (cases "member_at ms i")
  case None
  then show thesis using gone member_at_None [OF assms None] by blast
next
  case (Some m)
  then obtain slot where
    "handle_at cs i = Some (member_consumer slot m, map_option (reader_at c) (mb_reading m))"
    using member_at_rel [OF assms Some] by metis
  then show thesis using Some reading idle by (cases "mb_reading m") auto
qed

lemma claimed_member_rel:
  assumes "list_all2 (member_rel c h t) ms cs" and "claim_outcome t h m (Some q) h' m'"
    and "mb_reading m = None"
  shows "list_all2 (member_rel c h' t) (ms[i := Some m']) (cs[i := Some (member_consumer slot m', None)])"
    and "list_all2 (member_rel c h' t) (ms[i := Some (m'\<lparr>mb_reading := Some q\<rparr>)])
      (cs[i := Some (member_consumer slot m', Some (reader_at c q))])"
proof -
  have mono: "h \<le> h'" "t \<le> t" using assms(2) by (simp_all add: claim_outcome_def)
  have k: "member_consumer slot (m'\<lparr>mb_reading := Some q\<rparr>) = member_consumer slot m'"
    by (simp add: member_consumer_def)
  have "member_rel c h' t (Some m') (Some (member_consumer slot m', None))"
    "member_rel c h' t (Some (m'\<lparr>mb_reading := Some q\<rparr>)) (Some (member_consumer slot m', Some (reader_at c q)))"
    using assms(2,3) by (auto simp: claim_outcome_def member_ok_def intro!: exI [of _ slot] k [symmetric])
  then show "list_all2 (member_rel c h' t) (ms[i := Some m']) (cs[i := Some (member_consumer slot m', None)])"
    and "list_all2 (member_rel c h' t) (ms[i := Some (m'\<lparr>mb_reading := Some q\<rparr>)])
      (cs[i := Some (member_consumer slot m', Some (reader_at c q))])"
    using members_update [OF assms(1) mono] by blast+
qed

lemma pop_claimed:
  assumes rel: "spmc_rel (vs, h, ms, lost) (p, cs, r)" and at: "i < length ms" "ms ! i = Some m"
    and idle: "mb_reading m = None" and out: "claim_outcome (length vs) h m (Some q) h' m'"
    and ok: "spmc_ring_ok vs h' (set (owned ms h (length vs))) (set lost) r1"
    and same: "sm_capacity r1 = sm_capacity r" "sm_closed r1 = sm_closed r"
  shows "\<exists>r2 r3. spmc_take_data (spmc_data_slot r1 (of_nat q)) r1 = Inr (vs ! q, r2)
    \<and> spmc_release_at (spmc_done_slot r1 (of_nat q)) (of_nat q) r2 = Inr r3
    \<and> spmc_rel (vs, h', ms[i := Some m'], lost) (p, cs[i := Some (member_consumer slot m', None)], r3)
    \<and> sm_capacity r3 = sm_capacity r \<and> sm_closed r3 = sm_closed r"
proof -
  have dist: "distinct (owned ms h (length vs) @ lost)"
    and all: "list_all2 (member_rel (sm_capacity r) h (length vs)) ms cs" using rel by simp_all
  have moved: "mset (owned ms h (length vs)) = mset ([q] @ owned (ms[i := Some m']) h' (length vs))"
    using claim_keeps_owned [OF out at idle] by simp
  have q: "q \<in> set (owned ms h (length vs))" "q \<notin> set lost"
    using owned_leaves(2,3) [OF moved dist] by auto
  obtain r2 r3 where t: "spmc_take_data (spmc_data_slot r1 (of_nat q)) r1 = Inr (vs ! q, r2)"
    "spmc_release_at (spmc_done_slot r1 (of_nat q)) (of_nat q) r2 = Inr r3"
    "spmc_ring_ok vs h' (set (owned ms h (length vs)) - {q}) (set lost) r3" "spmc_same r1 r3"
    using spmc_take_release [OF ok q] by blast
  have "spmc_rel (vs, h', ms[i := Some m'], lost) (p, cs[i := Some (member_consumer slot m', None)], r3)"
    using rel leaving_rel [OF dist moved t(3)] t(4) same claimed_member_rel(1) [OF all out idle]
    by (simp add: spmc_same_def)
  then show ?thesis using t same by (auto simp: spmc_same_def)
qed

lemma sys_pop_follows:
  assumes rel: "spmc_rel (vs, h, ms, lost) (p, cs, r)"
    and spec: "spmc_spec_step n dtor (X_Pop i) (vs, h, ms, lost) = (e, outs, a')"
  shows "spmc_steps_to (vs, h, ms, lost) (p, cs, r) e a' (spmc_sys_pop i (p, cs, r))"
proof -
  have all: "list_all2 (member_rel (sm_capacity r) h (length vs)) ms cs" using rel by simp
  from all show ?thesis
  proof (cases rule: handle_cases [where i = i])
    case gone
    then show ?thesis using spec spmc_no_call [OF rel] by (auto simp: spmc_sys_pop_def)
  next
    case (reading m q k)
    then show ?thesis using spec spmc_no_call [OF rel] by (auto simp: spmc_sys_pop_def)
  next
    case (idle m k)
    obtain pos h' m' where claim: "member_claim (length vs) h m = (pos, h', m')" by (metis prod.exhaust)
    obtain slot r1 where c: "handle_at cs i = Some (member_consumer slot m, None)"
      "spmc_claim_slot [] (member_consumer slot m) r = (map_option of_nat pos, member_consumer slot m', r1)"
      "r1 = r\<lparr>sm_cursors := (sm_cursors r)\<lparr>head := of_nat h'\<rparr>\<rparr>"
      "spmc_ring_ok vs h' (set (owned ms h (length vs))) (set lost) r1"
      "claim_outcome (length vs) h m pos h' m'" "i < length ms" "ms ! i = Some m"
      using claim_sim [OF rel idle(1,2) claim] by metis
    have same: "sm_capacity r1 = sm_capacity r" "sm_closed r1 = sm_closed r" using c(3) by simp_all
    let ?cs = "cs[i := Some (member_consumer slot m', None)]"
    show ?thesis
    proof (cases pos)
      case None
      have "spmc_rel (vs, h', ms[i := Some m'], lost) (p, ?cs, r1)"
        using found_nothing_rel [OF rel c(6,7) idle(2) _ c(4)] c(5) None same by simp
      then show ?thesis
        using spec idle claim c None same
        by (intro spmc_steps_toI [where p' = p and r' = r1 and cs' = ?cs])
          (auto simp: spmc_sys_pop_def spmc_pop_def)
    next
      case (Some q)
      then have out: "claim_outcome (length vs) h m (Some q) h' m'" using c(5) by simp
      obtain r2 r3 where t: "spmc_take_data (spmc_data_slot r1 (of_nat q)) r1 = Inr (vs ! q, r2)"
        "spmc_release_at (spmc_done_slot r1 (of_nat q)) (of_nat q) r2 = Inr r3"
        "spmc_rel (vs, h', ms[i := Some m'], lost) (p, ?cs, r3)"
        "sm_capacity r3 = sm_capacity r" "sm_closed r3 = sm_closed r"
        using pop_claimed [OF rel c(6,7) idle(2) out c(4) same] by blast
      show ?thesis
        using spec idle claim c(1,2) Some t
        by (intro spmc_steps_toI [where p' = p and r' = "spmc_wake_producer r3" and cs' = ?cs])
          (auto simp: spmc_sys_pop_def spmc_pop_def spmc_bind_pos_def)
    qed
  qed
qed

lemma open_claimed:
  assumes rel: "spmc_rel (vs, h, ms, lost) (p, cs, r)" and at: "i < length ms" "ms ! i = Some m"
    and idle: "mb_reading m = None" and out: "claim_outcome (length vs) h m (Some q) h' m'"
    and ok: "spmc_ring_ok vs h' (set (owned ms h (length vs))) (set lost) r1"
    and same: "sm_capacity r1 = sm_capacity r"
  shows "spmc_reader_deref (reader_at (sm_capacity r) q) r1 = Inr (vs ! q)"
    and "spmc_bind_pos r1 (of_nat q)
      = (rd_data (reader_at (sm_capacity r) q), rd_done (reader_at (sm_capacity r) q), of_nat q)"
    and "spmc_rel (vs, h', ms[i := Some (m'\<lparr>mb_reading := Some q\<rparr>)], lost)
      (p, cs[i := Some (member_consumer slot m', Some (reader_at (sm_capacity r) q))], r1)"
proof -
  have dist: "distinct (owned ms h (length vs) @ lost)"
    and all: "list_all2 (member_rel (sm_capacity r) h (length vs)) ms cs" using rel by simp_all
  have moved: "mset (owned ms h (length vs)) = mset ([q] @ owned (ms[i := Some m']) h' (length vs))"
    and kept: "mset (owned ms h (length vs))
      = mset (owned (ms[i := Some (m'\<lparr>mb_reading := Some q\<rparr>)]) h' (length vs))"
    using claim_keeps_owned [OF out at idle] unfolding option.case by blast+
  have q: "q \<in> set (owned ms h (length vs))" using owned_leaves(2) [OF moved dist] by simp
  show "spmc_reader_deref (reader_at (sm_capacity r) q) r1 = Inr (vs ! q)"
    using spmc_ring_okD(2,8) [OF ok] spmc_ring_okD(10) [OF ok q] same
    by (simp add: spmc_reader_deref_def reader_at_def)
  show "spmc_bind_pos r1 (of_nat q)
      = (rd_data (reader_at (sm_capacity r) q), rd_done (reader_at (sm_capacity r) q), of_nat q)"
    using spmc_slot_simps [OF spmc_ring_okD(1) [OF ok]] same by (simp add: spmc_bind_pos_def reader_at_def)
  show "spmc_rel (vs, h', ms[i := Some (m'\<lparr>mb_reading := Some q\<rparr>)], lost)
      (p, cs[i := Some (member_consumer slot m', Some (reader_at (sm_capacity r) q))], r1)"
    using rel ok same mset_eq_setD [OF kept] mset_eq_imp_distinct_iff [OF kept]
      claimed_member_rel(2) [OF all out idle] by simp
qed

lemma sys_open_follows:
  assumes rel: "spmc_rel (vs, h, ms, lost) (p, cs, r)"
    and spec: "spmc_spec_step n dtor (X_Open i) (vs, h, ms, lost) = (e, outs, a')"
  shows "spmc_steps_to (vs, h, ms, lost) (p, cs, r) e a' (spmc_sys_open i (p, cs, r))"
proof -
  have all: "list_all2 (member_rel (sm_capacity r) h (length vs)) ms cs" using rel by simp
  from all show ?thesis
  proof (cases rule: handle_cases [where i = i])
    case gone
    then show ?thesis using spec spmc_no_call [OF rel] by (auto simp: spmc_sys_open_def)
  next
    case (reading m q k)
    then show ?thesis using spec spmc_no_call [OF rel] by (auto simp: spmc_sys_open_def)
  next
    case (idle m k)
    obtain pos h' m' where claim: "member_claim (length vs) h m = (pos, h', m')" by (metis prod.exhaust)
    obtain slot r1 where c: "handle_at cs i = Some (member_consumer slot m, None)"
      "spmc_claim_slot [] (member_consumer slot m) r = (map_option of_nat pos, member_consumer slot m', r1)"
      "r1 = r\<lparr>sm_cursors := (sm_cursors r)\<lparr>head := of_nat h'\<rparr>\<rparr>"
      "spmc_ring_ok vs h' (set (owned ms h (length vs))) (set lost) r1"
      "claim_outcome (length vs) h m pos h' m'" "i < length ms" "ms ! i = Some m"
      using claim_sim [OF rel idle(1,2) claim] by metis
    have same: "sm_capacity r1 = sm_capacity r" "sm_closed r1 = sm_closed r" using c(3) by simp_all
    show ?thesis
    proof (cases pos)
      case None
      let ?cs = "cs[i := Some (member_consumer slot m', None)]"
      have "spmc_rel (vs, h', ms[i := Some m'], lost) (p, ?cs, r1)"
        using found_nothing_rel [OF rel c(6,7) idle(2) _ c(4)] c(5) None same by simp
      then show ?thesis
        using spec idle claim c None same
        by (intro spmc_steps_toI [where p' = p and r' = r1 and cs' = ?cs])
          (auto simp: spmc_sys_open_def spmc_pop_ref_def)
    next
      case (Some q)
      let ?cs = "cs[i := Some (member_consumer slot m', Some (reader_at (sm_capacity r) q))]"
      have out: "claim_outcome (length vs) h m (Some q) h' m'" using c(5) Some by simp
      show ?thesis
        using spec idle claim c(1,2) Some same open_claimed [OF rel c(6,7) idle(2) out c(4) same(1)]
        by (intro spmc_steps_toI [where p' = p and r' = r1 and cs' = ?cs])
          (auto simp: spmc_sys_open_def spmc_pop_ref_def reader_at_def)
    qed
  qed
qed

text \<open>Dropping a reader.\<close>

lemma release_at_dropped:
  "spmc_release_at j h r = Inr r1 \<Longrightarrow>
    spmc_release_at j h (r\<lparr>sm_dropped := d\<rparr>) = Inr (r1\<lparr>sm_dropped := d\<rparr>)"
  by (auto simp: spmc_release_at_def spmc_load_done_def split: if_splits)

lemma spmc_reader_drop_spec:
  assumes ok: "spmc_ring_ok vs h own lost r" and q: "q \<in> own" "q \<notin> lost"
  shows "\<exists>r'. spmc_reader_drop dtor (reader_at (sm_capacity r) q) r = Inr (dtor (vs ! q), spmc_wake_producer r')
    \<and> spmc_ring_ok vs h (own - {q}) lost (spmc_wake_producer r') \<and> spmc_same r r'
    \<and> sm_dropped r' = sm_dropped r @ [vs ! q] \<and> sm_producer_park r' = sm_producer_park r"
proof -
  obtain r1 r2 where t: "spmc_take_data (q mod slots (sm_capacity r)) r = Inr (vs ! q, r1)"
    "spmc_release_at (q mod slots (sm_capacity r)) (of_nat q) r1 = Inr r2"
    "spmc_ring_ok vs h (own - {q}) lost r2" "spmc_same r r2"
    "sm_dropped r1 = sm_dropped r" "sm_producer_park r2 = sm_producer_park r"
    using spmc_take_release [OF ok q] unfolding spmc_slot_simps [OF spmc_ring_okD(1) [OF ok]] by blast
  have ok2: "spmc_ring_ok vs h (own - {q}) lost (r2\<lparr>sm_dropped := d\<rparr>)" for d
    using t(3) spmc_ring_ok_cong [of "r2\<lparr>sm_dropped := d\<rparr>" r2] by simp
  show ?thesis
    using t(1,4-6) release_at_dropped [OF t(2)] ok2
    by (intro exI [of _ "r2\<lparr>sm_dropped := sm_dropped r @ [vs ! q]\<rparr>"])
      (simp add: spmc_reader_drop_def spmc_slot_release_drop_def reader_at_def spmc_same_def)
qed

lemma sys_finish_follows:
  assumes rel: "spmc_rel (vs, h, ms, lost) (p, cs, r)"
    and spec: "spmc_spec_step n dtor (X_Finish i) (vs, h, ms, lost) = (e, outs, a')"
  shows "spmc_steps_to (vs, h, ms, lost) (p, cs, r) e a' (spmc_sys_finish dtor i (p, cs, r))"
proof -
  have all: "list_all2 (member_rel (sm_capacity r) h (length vs)) ms cs"
    and dist: "distinct (owned ms h (length vs) @ lost)"
    and ok: "spmc_ring_ok vs h (set (owned ms h (length vs))) (set lost) r" using rel by simp_all
  from all show ?thesis
  proof (cases rule: handle_cases [where i = i])
    case gone
    then show ?thesis using spec spmc_no_call [OF rel] by (auto simp: spmc_sys_finish_def)
  next
    case (idle m k)
    then show ?thesis using spec spmc_no_call [OF rel] by (auto simp: spmc_sys_finish_def)
  next
    case (reading m q k)
    let ?m = "m\<lparr>mb_reading := None\<rparr>"
    obtain slot where at: "i < length ms" "ms ! i = Some m" "k = member_consumer slot m"
      "member_ok h (length vs) m"
      using member_at_rel [OF all reading(1)] reading(3) by (metis Pair_inject option.inject)
    have moved: "mset (owned ms h (length vs)) = mset ([q] @ owned (ms[i := Some ?m]) h (length vs))"
      by (rule owned_update [OF at(1)]) (use at(2) reading(2) in \<open>simp add: member_batch_def\<close>)
    have q: "q \<in> set (owned ms h (length vs))" "q \<notin> set lost" using owned_leaves(2,3) [OF moved dist] by auto
    obtain r' where r': "spmc_reader_drop dtor (reader_at (sm_capacity r) q) r
        = Inr (dtor (vs ! q), spmc_wake_producer r')"
      "spmc_ring_ok vs h (set (owned ms h (length vs)) - {q}) (set lost) (spmc_wake_producer r')"
      "spmc_same r r'"
      using spmc_reader_drop_spec [OF ok q] by blast
    have "member_rel (sm_capacity r) h (length vs) (Some ?m) (Some (k, None))"
      using at(3,4) by (auto simp: member_ok_def member_consumer_def)
    then have "list_all2 (member_rel (sm_capacity r) h (length vs)) (ms[i := Some ?m]) (cs[i := Some (k, None)])"
      using all members_update by blast
    then have "spmc_rel (vs, h, ms[i := Some ?m], lost) (p, cs[i := Some (k, None)], spmc_wake_producer r')"
      using rel leaving_rel(1,2) [OF dist moved r'(2)] r'(3) by (simp add: spmc_same_def)
    then show ?thesis
      using spec reading r'(1,3)
      by (intro spmc_steps_toI [where p' = p and cs' = "cs[i := Some (k, None)]" and r' = "spmc_wake_producer r'"])
        (auto simp: spmc_sys_finish_def spmc_same_def)
  qed
qed

text \<open>Joining.\<close>

lemma clone_facts:
  assumes "spmc_clone r = (c, r')"
  shows "sm_data r' = sm_data r" "sm_done r' = sm_done r" "sm_capacity r' = sm_capacity r"
    "sm_cursors r' = sm_cursors r" "sm_closed r' = sm_closed r" "\<exists>slot. c = member_consumer slot member_new"
    "sm_producer_park r' = sm_producer_park r" "sm_consumer_closed r' = sm_consumer_closed r"
    "sm_consumer_park r' = sm_consumer_park r" "sm_dropped r' = sm_dropped r"
    "sm_consumer_count r' = endpoint_register (sm_consumer_count r)"
  using assms by (auto simp: spmc_clone_def member_consumer_def member_new_def split: prod.splits)

lemma sys_clone_follows:
  assumes rel: "spmc_rel (vs, h, ms, lost) (p, cs, r)"
    and spec: "spmc_spec_step n dtor X_Clone (vs, h, ms, lost) = (e, outs, a')"
  shows "spmc_steps_to (vs, h, ms, lost) (p, cs, r) e a' (spmc_sys_clone (p, cs, r))"
proof -
  have all: "list_all2 (member_rel (sm_capacity r) h (length vs)) ms cs" using rel by simp
  have "list_all2 (\<lambda>m c. (m \<noteq> None) = (c \<noteq> None)) ms cs"
    using all by (rule list_all2_mono) (case_tac xs; auto simp: member_rel_Some1)
  then have live: "list_ex (\<lambda>m. m \<noteq> None) ms = list_ex (\<lambda>c. c \<noteq> None) cs"
    by (induction rule: list_all2_induct) auto
  obtain c r' where cl: "spmc_clone r = (c, r')" by (metis prod.exhaust)
  note f = clone_facts [OF cl]
  have "member_rel (sm_capacity r) h (length vs) (Some member_new) (Some (c, None))"
    using f(6) by (auto simp: member_ok_def member_new_def)
  moreover have "owned (ms @ [Some member_new]) h (length vs) = owned ms h (length vs)"
    by (simp add: owned_def member_new_def member_batch_def)
  ultimately have "spmc_rel (vs, h, ms @ [Some member_new], lost) (p, cs @ [Some (c, None)], r')"
    using rel spmc_ring_ok_cong [OF f(1-4)] f(3) by (simp add: list_all2_appendI)
  then show ?thesis
    using spec live cl f(3,5) spmc_no_call [OF rel]
    by (cases "list_ex (\<lambda>c. c \<noteq> None) cs")
      (auto simp: spmc_sys_clone_def intro: spmc_steps_toI [where p' = p])
qed

text \<open>Leaving: the batch is destroyed in order, up to the first destructor that panics.\<close>

lemma spmc_forget_ok:
  assumes "spmc_ring_ok vs h own lost r" and "xs \<subseteq> own \<union> lost"
  shows "spmc_ring_ok vs h (own - xs) (lost \<union> xs) r"
proof -
  have "(own - xs) \<union> (lost \<union> xs) = own \<union> lost" using assms(2) by auto
  then show ?thesis using assms(1) by (auto simp: spmc_ring_ok_def)
qed

lemma drop_run_panicked: "drop_run dtor q = (Panicked, ds, rest) \<Longrightarrow> ds \<noteq> []"
  by (induction q arbitrary: ds rest) (auto split: completion.splits prod.splits)

lemma spmc_drop_batch_spec:
  assumes "spmc_ring_ok vs h own lost r" and "distinct ps" "set ps \<subseteq> own" "set ps \<inter> lost = {}"
    and "drop_run dtor (map ((!) vs) ps) = (fin, ds, rest)"
  shows "\<exists>r'. spmc_drop_batch dtor (map of_nat ps) r = Inr (fin, r')
    \<and> spmc_ring_ok vs h (own - set ps)
        (lost \<union> (if fin = Panicked then set (drop (length ds - 1) ps) else {})) r'
    \<and> spmc_same r r' \<and> sm_dropped r' = sm_dropped r @ ds \<and> sm_producer_park r' = sm_producer_park r
    \<and> sm_unparked r' = sm_unparked r"
  using assms
proof (induction ps arbitrary: own lost r ds)
  case Nil
  then show ?case by (simp add: spmc_same_refl)
next
  case (Cons q qs)
  have q: "q \<in> own" "q \<notin> lost" using Cons.prems(3,4) by auto
  obtain r1 r2 where t: "spmc_take_data (spmc_data_slot r (of_nat q)) r = Inr (vs ! q, r1)"
    "spmc_release_at (spmc_done_slot r (of_nat q)) (of_nat q) r1 = Inr r2"
    "spmc_ring_ok vs h (own - {q}) (insert q lost) r1" "spmc_ring_ok vs h (own - {q}) lost r2"
    "spmc_same r r1" "spmc_same r r2" "sm_dropped r1 = sm_dropped r" "sm_dropped r2 = sm_dropped r"
    "sm_producer_park r1 = sm_producer_park r" "sm_producer_park r2 = sm_producer_park r"
    "sm_unparked r1 = sm_unparked r" "sm_unparked r2 = sm_unparked r"
    using spmc_take_release [OF Cons.prems(1) q] by blast
  let ?d = "sm_dropped r @ [vs ! q]"
  have slot: "spmc_done_slot (r1\<lparr>sm_dropped := ?d\<rparr>) (of_nat q) = spmc_done_slot r (of_nat q)"
    using t(5) by (simp add: spmc_done_slot_def spmc_same_def)
  have ok1: "spmc_ring_ok vs h (own - {q}) (insert q lost) (r1\<lparr>sm_dropped := ?d\<rparr>)"
    and ok2: "spmc_ring_ok vs h (own - {q}) lost (r2\<lparr>sm_dropped := ?d\<rparr>)"
    using t(3,4) spmc_ring_ok_cong [of "r1\<lparr>sm_dropped := ?d\<rparr>" r1]
      spmc_ring_ok_cong [of "r2\<lparr>sm_dropped := ?d\<rparr>" r2] by simp_all
  show ?case
  proof (cases "dtor (vs ! q)")
    case Panicked
    have "insert q lost \<union> set qs = lost \<union> set (q # qs)" "own - {q} - set qs = own - set (q # qs)" by auto
    then have "spmc_ring_ok vs h (own - set (q # qs)) (lost \<union> set (q # qs)) (r1\<lparr>sm_dropped := ?d\<rparr>)"
      using spmc_forget_ok [OF ok1, of "set qs"] Cons.prems(2,3) by auto
    then show ?thesis
      using Cons.prems(5) Panicked t by (auto simp: spmc_same_def)
  next
    case Returned
    obtain ds1 where ds: "drop_run dtor (map ((!) vs) qs) = (fin, ds1, rest)" "ds = (vs ! q) # ds1"
      using Cons.prems(5) Returned by (auto split: prod.splits)
    obtain r' where r': "spmc_drop_batch dtor (map of_nat qs) (r2\<lparr>sm_dropped := ?d\<rparr>) = Inr (fin, r')"
      "spmc_ring_ok vs h (own - {q} - set qs)
        (lost \<union> (if fin = Panicked then set (drop (length ds1 - 1) qs) else {})) r'"
      "spmc_same (r2\<lparr>sm_dropped := ?d\<rparr>) r'" "sm_dropped r' = ?d @ ds1"
      "sm_producer_park r' = sm_producer_park r" "sm_unparked r' = sm_unparked r"
      using Cons.IH [OF ok2 _ _ _ ds(1)] Cons.prems(2-4) t(10,12) by auto
    have "own - {q} - set qs = own - set (q # qs)" by auto
    moreover have "fin = Panicked \<Longrightarrow> drop (length ds1 - 1) qs = drop (length ds - 1) (q # qs)"
      using drop_run_panicked [of dtor "map ((!) vs) qs" ds1 rest] ds by (cases ds1) auto
    ultimately show ?thesis
      using r' t(1,5-7) slot release_at_dropped [OF t(2)] Returned ds(2)
      by (intro exI [of _ r']) (auto simp: spmc_same_def Let_def)
  qed
qed

lemma close_drop_simps [simp]:
  "sm_data (spmc_consumer_close_drop slot r) = sm_data r"
  "sm_done (spmc_consumer_close_drop slot r) = sm_done r"
  "sm_capacity (spmc_consumer_close_drop slot r) = sm_capacity r"
  "sm_cursors (spmc_consumer_close_drop slot r) = sm_cursors r"
  "sm_closed (spmc_consumer_close_drop slot r) = sm_closed r"
  "sm_dropped (spmc_consumer_close_drop slot r) = sm_dropped r"
  "sm_consumer_park (spmc_consumer_close_drop slot r) = sm_consumer_park r"
  by (simp_all add: spmc_consumer_close_drop_def Let_def split: prod.splits)

lemma batch_positions_member:
  assumes "member_ok h t m" and "h < 2 ^ 64"
  shows "batch_positions (member_consumer slot m) = map of_nat (member_batch m)"
proof -
  have "unat (of_nat (mb_next m) :: usize) = mb_next m" "unat (of_nat (mb_end m) :: usize) = mb_end m"
    using assms by (auto intro!: unat_of_nat_usize simp: member_ok_def)
  then show ?thesis by (simp add: batch_positions_def member_consumer_def member_batch_def)
qed

lemma spmc_consumer_drop_spec:
  assumes rel: "spmc_rel (vs, h, ms, lost) (p, cs, r)"
    and at: "i < length ms" "ms ! i = Some m" and idle: "mb_reading m = None"
    and m: "member_ok h (length vs) m"
    and dr: "drop_run dtor (map ((!) vs) (member_batch m)) = (fin, ds, rest)"
  shows "\<exists>r1. spmc_consumer_drop dtor (member_consumer slot m) r = Inr (fin, spmc_consumer_close_drop slot r1)
    \<and> spmc_rel (vs, h, ms[i := None], lost @ (if fin = Panicked then drop (length ds - 1) (member_batch m) else []))
        (p, cs[i := None], spmc_consumer_close_drop slot r1)
    \<and> spmc_same r r1 \<and> sm_dropped r1 = sm_dropped r @ ds \<and> sm_producer_park r1 = sm_producer_park r
    \<and> sm_unparked r1 = sm_unparked r"
proof -
  let ?b = "member_batch m" and ?own = "set (owned ms h (length vs))"
  let ?lost = "lost @ (if fin = Panicked then drop (length ds - 1) ?b else [])"
  have ok: "spmc_ring_ok vs h ?own (set lost) r" and dist: "distinct (owned ms h (length vs) @ lost)"
    and all: "list_all2 (member_rel (sm_capacity r) h (length vs)) ms cs" using rel by simp_all
  have moved: "mset (owned ms h (length vs)) = mset (?b @ owned (ms[i := None]) h (length vs))"
    by (rule owned_update [OF at(1)]) (use at(2) idle in simp)
  note left = owned_leaves [OF moved dist]
  obtain r1 where r1: "spmc_drop_batch dtor (map of_nat ?b) r = Inr (fin, r1)"
    "spmc_ring_ok vs h (?own - set ?b)
      (set lost \<union> (if fin = Panicked then set (drop (length ds - 1) ?b) else {})) r1"
    "spmc_same r r1" "sm_dropped r1 = sm_dropped r @ ds" "sm_producer_park r1 = sm_producer_park r"
    "sm_unparked r1 = sm_unparked r"
    using spmc_drop_batch_spec [OF ok _ left(2,3) dr] by (auto simp: member_batch_def)
  have "spmc_ring_ok vs h (set (owned (ms[i := None]) h (length vs))) (set ?lost)
      (spmc_consumer_close_drop slot r1)"
    using r1(2) left(1) spmc_ring_ok_cong [of "spmc_consumer_close_drop slot r1" r1] by (simp split: if_splits)
  moreover have "distinct (owned (ms[i := None]) h (length vs) @ ?lost)"
    using left(4) set_drop_subset [of "length ds - 1" ?b] by (auto split: if_splits)
  moreover have "list_all2 (member_rel (sm_capacity r) h (length vs)) (ms[i := None]) (cs[i := None])"
    using all by (intro members_update [where h = h and t = "length vs"]) auto
  moreover have "h < 2 ^ 64" using spmc_ring_okD(6,7) [OF ok] by simp
  ultimately show ?thesis
    using rel r1 batch_positions_member [OF m, of slot]
    by (intro exI [of _ r1]) (simp add: spmc_consumer_drop_def member_consumer_def spmc_same_def)
qed

lemma sys_leave_follows:
  assumes rel: "spmc_rel (vs, h, ms, lost) (p, cs, r)"
    and spec: "spmc_spec_step n dtor (X_Leave i) (vs, h, ms, lost) = (e, outs, a')"
  shows "spmc_steps_to (vs, h, ms, lost) (p, cs, r) e a' (spmc_sys_leave dtor i (p, cs, r))"
proof -
  have all: "list_all2 (member_rel (sm_capacity r) h (length vs)) ms cs" using rel by simp
  from all show ?thesis
  proof (cases rule: handle_cases [where i = i])
    case gone
    then show ?thesis using spec spmc_no_call [OF rel] by (auto simp: spmc_sys_leave_def)
  next
    case (reading m q k)
    then show ?thesis using spec spmc_no_call [OF rel] by (auto simp: spmc_sys_leave_def)
  next
    case (idle m k)
    obtain slot where at: "i < length ms" "ms ! i = Some m" "k = member_consumer slot m"
      "member_ok h (length vs) m"
      using member_at_rel [OF all idle(1)] idle(3) by (metis Pair_inject option.inject)
    obtain fin ds rest where dr: "drop_run dtor (map ((!) vs) (member_batch m)) = (fin, ds, rest)"
      by (metis prod.exhaust)
    obtain r1 where r1: "spmc_consumer_drop dtor k r = Inr (fin, spmc_consumer_close_drop slot r1)"
      "spmc_rel (vs, h, ms[i := None], lost @ (if fin = Panicked then drop (length ds - 1) (member_batch m) else []))
        (p, cs[i := None], spmc_consumer_close_drop slot r1)"
      "spmc_same r r1" "sm_dropped r1 = sm_dropped r @ ds"
      using spmc_consumer_drop_spec [OF rel at(1,2) idle(2) at(4) dr, of slot] unfolding at(3) by blast
    show ?thesis
      using spec idle r1 dr
      by (intro spmc_steps_toI [where p' = p and cs' = "cs[i := None]" and r' = "spmc_consumer_close_drop slot r1"])
        (auto simp: spmc_sys_leave_def spmc_same_def)
  qed
qed

lemma spmc_step_follows:
  assumes rel: "spmc_rel (vs, h, ms, lost) (p, cs, r)"
    and small: "Suc (length vs) + slots (sm_capacity r) < 2 ^ 64"
    and spec: "spmc_spec_step (slots (sm_capacity r)) dtor op (vs, h, ms, lost) = (e, outs, a')"
  shows "spmc_steps_to (vs, h, ms, lost) (p, cs, r) e a' (spmc_step dtor op (p, cs, r))"
proof (cases op)
  case (X_Push v)
  then show ?thesis using sys_push_follows [OF rel small] spec by simp
next
  case (X_Pop i)
  then show ?thesis using sys_pop_follows [OF rel] spec by simp
next
  case (X_Open i)
  then show ?thesis using sys_open_follows [OF rel] spec by simp
next
  case (X_Finish i)
  then show ?thesis using sys_finish_follows [OF rel] spec by simp
next
  case X_Clone
  then show ?thesis using sys_clone_follows [OF rel] spec by simp
next
  case (X_Leave i)
  then show ?thesis using sys_leave_follows [OF rel] spec by simp
qed

lemma spmc_spec_step_length:
  "spmc_spec_step n dtor op (vs, h, ms, lost) = (e, outs, vs', h', ms', lost') \<Longrightarrow>
    length vs' \<le> Suc (length vs)"
  by (cases op) (auto split: if_splits option.splits prod.splits)

lemma spmc_run_follows:
  assumes "spmc_rel (vs, h, ms, lost) s"
    and "length vs + length ops + slots (sm_capacity (snd (snd s))) < 2 ^ 64"
    and "spmc_spec_run (slots (sm_capacity (snd (snd s)))) dtor ops (vs, h, ms, lost) = (es, outs, a')"
  shows "\<exists>s'. spmc_run dtor ops s = Inr (es, s') \<and> spmc_rel a' s'
    \<and> sm_capacity (snd (snd s')) = sm_capacity (snd (snd s))"
  using assms
proof (induction ops arbitrary: vs h ms lost s es outs)
  case Nil
  then show ?case by simp
next
  case (Cons op ops)
  obtain p cs r where s: "s = (p, cs, r)" by (metis prod.exhaust)
  obtain e o1 vs1 h1 ms1 lost1 where st:
    "spmc_spec_step (slots (sm_capacity r)) dtor op (vs, h, ms, lost) = (e, o1, vs1, h1, ms1, lost1)"
    by (metis prod.exhaust)
  have rel: "spmc_rel (vs, h, ms, lost) (p, cs, r)" using Cons.prems(1) unfolding s .
  have "Suc (length vs) + slots (sm_capacity r) < 2 ^ 64" using Cons.prems(2) s by simp
  from spmc_step_follows [OF rel this st] obtain p1 cs1 r1 where
    one: "spmc_step dtor op s = Inr (e, p1, cs1, r1)" "spmc_rel (vs1, h1, ms1, lost1) (p1, cs1, r1)"
      "sm_capacity r1 = sm_capacity r"
    unfolding s by (auto simp: spmc_steps_to_def)
  obtain es2 o2 where run: "spmc_spec_run (slots (sm_capacity r)) dtor ops (vs1, h1, ms1, lost1) = (es2, o2, a')"
    "es = e # es2"
    using Cons.prems(3) st s by (auto split: prod.splits)
  have "length vs1 + length ops + slots (sm_capacity r) < 2 ^ 64"
    using Cons.prems(2) spmc_spec_step_length [OF st] s by simp
  then obtain s' where "spmc_run dtor ops (p1, cs1, r1) = Inr (es2, s')" "spmc_rel a' s'"
    "sm_capacity (snd (snd s')) = sm_capacity r1"
    using Cons.IH [OF one(2)] run(1) one(3) by auto
  then show ?case using one run(2) s by simp
qed

text \<open>A fresh ring.\<close>

lemma spmc_start_rel:
  assumes "wf_capacity c" and "slots c < 2 ^ 64"
  shows "\<exists>r. spmc_new c = Inr (r :: 'a spmc_ring) \<and> spmc_rel ([], 0, [Some member_new], []) (spmc_start r)
    \<and> sm_capacity (snd (snd (spmc_start r))) = c \<and> sm_dropped (snd (snd (spmc_start r))) = []
    \<and> sm_closed (snd (snd (spmc_start r))) = close_state_new"
proof -
  have "0 < capacity_get c" using slots_pos [OF assms(1)] by (simp add: capacity_get_def word_less_nat_alt)
  then obtain r :: "'a spmc_ring" where r: "spmc_new c = Inr r" "sm_capacity r = c"
    "sm_cursors r = cursors_new" "length (sm_data r) = slots c" "sm_dropped r = []"
    "sm_closed r = close_state_new" "sm_done r = map (\<lambda>i. done_released_for (of_nat i)) [0..<slots c]"
    by (simp add: spmc_new_def aligned_buf_new_with_def capacity_get_def)
  have "spmc_ring_ok [] 0 {} {} r"
    using r assms by (simp add: spmc_ring_ok_def owed_def done_released_for_def)
  then have "spmc_ring_ok [] 0 {} {} (r\<lparr>sm_consumer_slots := reg\<rparr>)" for reg
    using spmc_ring_ok_cong [of "r\<lparr>sm_consumer_slots := reg\<rparr>" r] by simp
  then show ?thesis
    using r
    by (intro exI [of _ r])
      (auto simp: spmc_start_def spmc_split_def spmc_consumer_new_def spmc_new_with_def owned_def
        member_new_def member_batch_def member_rel_Some1 member_consumer_def member_ok_def split: prod.splits)
qed

end
