(* ===== verification/Spmc_Delivery.thy ===== *)
theory Spmc_Delivery
  imports Spmc_Programs
begin

text \<open>
  What follows for whole programs over the spmc ring: it behaves as its specification, and
  the specification hands every position to one consumer, in the order each consumer
  sees. The last section follows a lap of a batch that was destroyed halfway.
\<close>

section \<open>Where the values go\<close>

fun accepted_by :: "'a spmc_event \<Rightarrow> 'a list" where
  "accepted_by (X_Accepted v) = [v]"
| "accepted_by _ = []"

text \<open>What a consumer got: by value, in place, or as the last thing its handle destroyed.\<close>

fun delivered_by :: "'a spmc_event \<Rightarrow> (nat \<times> 'a) list" where
  "delivered_by (X_Popped i v) = [(i, v)]"
| "delivered_by (X_Opened i v) = [(i, v)]"
| "delivered_by (X_Left i _ ds) = map (Pair i) ds"
| "delivered_by _ = []"

definition accepted :: "'a spmc_event list \<Rightarrow> 'a list" where
  "accepted es = concat (map accepted_by es)"

definition deliveries :: "'a spmc_event list \<Rightarrow> (nat \<times> 'a) list" where
  "deliveries es = concat (map delivered_by es)"

definition undelivered :: "member option list \<Rightarrow> nat \<Rightarrow> nat \<Rightarrow> nat list" where
  "undelivered ms h t = concat (map (case_option [] member_batch) ms) @ [h..<t]"

text \<open>The places of a list of outs that name a consumer, with the values there.\<close>

definition placed :: "'a list \<Rightarrow> (nat option \<times> nat) list \<Rightarrow> (nat option \<times> 'a) list" where
  "placed vs outs = map (\<lambda>(i, p). (i, vs ! p)) (filter (\<lambda>(i, _). i \<noteq> None) outs)"

lemma placed_append [simp]: "placed vs (outs @ outs1) = placed vs outs @ placed vs outs1"
  by (simp add: placed_def)

lemma placed_more:
  assumes "\<forall>(i, p) \<in> set outs. p < length vs"
  shows "placed (vs @ ws) outs = placed vs outs"
  using assms by (auto simp: placed_def nth_append)

lemma batch_update:
  assumes "i < length ms"
  shows "mset (concat (map (case_option [] member_batch) (ms[i := x]))) + mset (case_option [] member_batch (ms ! i))
    = mset (concat (map (case_option [] member_batch) ms)) + mset (case_option [] member_batch x)"
  using assms
proof (induction ms arbitrary: i)
  case (Cons m ms)
  then show ?case by (cases i) (simp_all add: ac_simps)
qed simp

lemma undelivered_update:
  assumes "i < length ms" and "case_option [] member_batch (ms ! i) @ [h..<t] = xs @ case_option [] member_batch x @ [h'..<t]"
  shows "mset (undelivered ms h t) = mset (xs @ undelivered (ms[i := x]) h' t)"
proof (rule multiset_eqI)
  fix z
  have "count (mset (concat (map (case_option [] member_batch) (ms[i := x]))) + mset (case_option [] member_batch (ms ! i))) z
      = count (mset (concat (map (case_option [] member_batch) ms)) + mset (case_option [] member_batch x)) z"
    using batch_update [OF assms(1), of x] by simp
  moreover have "count (mset (case_option [] member_batch (ms ! i) @ [h..<t])) z
      = count (mset (xs @ case_option [] member_batch x @ [h'..<t])) z"
    using assms(2) by simp
  ultimately show "count (mset (undelivered ms h t)) z = count (mset (xs @ undelivered (ms[i := x]) h' t)) z"
    by (simp add: undelivered_def)
qed

text \<open>The specification's states: consumers are well formed, and no reader's value is owed twice.\<close>

fun members_ok :: "'a spmc_spec \<Rightarrow> bool" where
  "members_ok (vs, h, ms, lost) \<longleftrightarrow> h \<le> length vs \<and> (\<forall>m. Some m \<in> set ms \<longrightarrow> member_ok h (length vs) m)"

lemma members_okD: "members_ok (vs, h, ms, lost) \<Longrightarrow> member_at ms i = Some m \<Longrightarrow> member_ok h (length vs) m"
  by (auto simp: member_at_def split: if_splits dest: nth_mem)

lemma member_ok_mono: "member_ok h t m \<Longrightarrow> h \<le> h' \<Longrightarrow> t \<le> t' \<Longrightarrow> member_ok h' t' m"
  by (auto simp: member_ok_def)

lemma members_ok_update:
  assumes "members_ok (vs, h, ms, lost)" and "h \<le> h'" "h' \<le> length vs"
    and "\<And>m. x = Some m \<Longrightarrow> member_ok h' (length vs) m"
  shows "members_ok (vs, h', ms[i := x], lost')"
  using assms set_update_subset_insert [of ms i x] by (fastforce intro: member_ok_mono)

text \<open>One step: what it gives away is what is no longer undelivered.\<close>

definition accounts ::
    "'a spmc_spec \<Rightarrow> 'a spmc_event \<Rightarrow> (nat option \<times> nat) list \<Rightarrow> 'a spmc_spec \<Rightarrow> bool" where
  "accounts a e outs a' \<longleftrightarrow> (case a of (vs, h, ms, lost) \<Rightarrow> case a' of (vs', h', ms', lost') \<Rightarrow>
     members_ok a' \<and> vs' = vs @ accepted_by e
     \<and> mset (undelivered ms h (length vs) @ [length vs..<length vs'])
         = mset (map snd outs @ undelivered ms' h' (length vs'))
     \<and> map (\<lambda>(i, v). (Some i, v)) (delivered_by e) = placed vs outs
     \<and> (\<forall>(i, p) \<in> set outs. p < length vs))"

lemma accounts_same: "members_ok (vs, h, ms, lost) \<Longrightarrow> accepted_by e = [] \<Longrightarrow> delivered_by e = [] \<Longrightarrow>
    accounts (vs, h, ms, lost) e [] (vs, h, ms, lost)"
  by (simp add: accounts_def placed_def)

lemma accounts_claim:
  assumes ok: "members_ok (vs, h, ms, lost)" and m: "member_at ms i = Some m"
    and out: "claim_outcome (length vs) h m pos h' m'"
    and m2: "member_batch m2 = member_batch m'" "member_ok h' (length vs) m2"
    and e: "accepted_by e = []" "delivered_by e = (case pos of None \<Rightarrow> [] | Some p \<Rightarrow> [(i, vs ! p)])"
  shows "accounts (vs, h, ms, lost) e (case pos of None \<Rightarrow> [] | Some p \<Rightarrow> [(Some i, p)])
    (vs, h', ms[i := Some m2], lost)"
proof -
  have i: "i < length ms" "ms ! i = Some m" using m by (auto simp: member_at_def split: if_splits)
  have h': "h \<le> h'" "h' \<le> length vs" using out by (simp_all add: claim_outcome_def)
  have "members_ok (vs, h', ms[i := Some m2], lost)"
    using members_ok_update [OF ok h'] m2(2) by blast
  moreover have "mset (undelivered ms h (length vs))
      = mset ((case pos of None \<Rightarrow> [] | Some p \<Rightarrow> [p]) @ undelivered (ms[i := Some m2]) h' (length vs))"
    by (rule undelivered_update [OF i(1)])
      (use out i(2) m2(1) in \<open>auto simp: claim_outcome_def split: option.splits\<close>)
  ultimately show ?thesis
    using out e h' by (auto simp: accounts_def placed_def claim_outcome_def split: option.splits)
qed

lemma drop_run_take: "drop_run dtor q = (fin, ds, rest) \<Longrightarrow> ds = take (length ds) q"
  using drop_run_append [of dtor q fin ds rest] by simp

lemma push_accounts:
  assumes ok: "members_ok (vs, h, ms, lost)"
    and st: "spmc_spec_step n dtor (X_Push v) (vs, h, ms, lost) = (e, outs, a')"
  shows "accounts (vs, h, ms, lost) e outs a'"
proof -
  have "undelivered ms h (length (vs @ [v])) = undelivered ms h (length vs) @ [length vs]"
    using ok by (simp add: undelivered_def)
  moreover have "members_ok (vs @ [v], h, ms, lost)"
    using ok by (auto intro: member_ok_mono [where h = h and t = "length vs"])
  ultimately show ?thesis
    using st ok by (auto simp: accounts_def placed_def split: if_splits)
qed

lemma member_claim_outcome:
  assumes "members_ok (vs, h, ms, lost)" and "member_at ms i = Some m"
    and "member_claim (length vs) h m = (pos, h', m')"
  shows "claim_outcome (length vs) h m pos h' m'" and "member_ok h' (length vs) m'"
proof -
  show "claim_outcome (length vs) h m pos h' m'"
    using member_claim_spec [OF assms(3)] members_okD [OF assms(1,2)] assms(1) by simp
  then show "member_ok h' (length vs) m'" by (simp add: claim_outcome_def)
qed

lemma pop_accounts:
  assumes ok: "members_ok (vs, h, ms, lost)"
    and st: "spmc_spec_step n dtor (X_Pop i) (vs, h, ms, lost) = (e, outs, a')
      \<or> spmc_spec_step n dtor (X_Open i) (vs, h, ms, lost) = (e, outs, a')"
  shows "accounts (vs, h, ms, lost) e outs a'"
proof (cases "\<exists>m. member_at ms i = Some m \<and> mb_reading m = None")
  case False
  then show ?thesis using st ok by (auto simp: accounts_same split: option.splits)
next
  case True
  then obtain m pos h' m' where m: "member_at ms i = Some m" "mb_reading m = None"
    "member_claim (length vs) h m = (pos, h', m')" by (metis prod.exhaust)
  note out = member_claim_outcome [OF ok m(1,3)]
  have m2: "member_batch (m'\<lparr>mb_reading := y\<rparr>) = member_batch m'"
    "member_ok h' (length vs) (m'\<lparr>mb_reading := y\<rparr>)" for y
    using out(2) by (simp_all add: member_batch_def member_ok_def)
  show ?thesis
  proof (cases pos)
    case None
    then have "outs = []" "a' = (vs, h', ms[i := Some m'], lost)" "e = X_Found_Nothing i"
      using st m by auto
    then show ?thesis using accounts_claim [OF ok m(1) out(1) refl out(2), of e] None by simp
  next
    case (Some q)
    then have "outs = [(Some i, q)]" and "(e = X_Popped i (vs ! q) \<and> a' = (vs, h', ms[i := Some m'], lost))
      \<or> (e = X_Opened i (vs ! q) \<and> a' = (vs, h', ms[i := Some (m'\<lparr>mb_reading := Some q\<rparr>)], lost))"
      using st m by auto
    then show ?thesis
      using accounts_claim [OF ok m(1) out(1) refl out(2), of e] accounts_claim [OF ok m(1) out(1) m2, of e "Some q"]
        Some by auto
  qed
qed

lemma finish_accounts:
  assumes ok: "members_ok (vs, h, ms, lost)"
    and st: "spmc_spec_step n dtor (X_Finish i) (vs, h, ms, lost) = (e, outs, a')"
  shows "accounts (vs, h, ms, lost) e outs a'"
proof (cases "\<exists>m q. member_at ms i = Some m \<and> mb_reading m = Some q")
  case False
  then show ?thesis using st ok by (auto simp: accounts_same split: option.splits)
next
  case True
  then obtain m q where m: "member_at ms i = Some m" "mb_reading m = Some q" by blast
  let ?m = "m\<lparr>mb_reading := None\<rparr>"
  have i: "i < length ms" "ms ! i = Some m" using m(1) by (auto simp: member_at_def split: if_splits)
  have "mset (undelivered ms h (length vs)) = mset ([] @ undelivered (ms[i := Some ?m]) h (length vs))"
    by (rule undelivered_update [OF i(1)]) (simp add: i(2) member_batch_def)
  moreover have "members_ok (vs, h, ms[i := Some ?m], lost)"
    by (rule members_ok_update [OF ok]) (use ok members_okD [OF ok m(1)] in \<open>simp_all add: member_ok_def\<close>)
  moreover have "outs = []" "a' = (vs, h, ms[i := Some ?m], lost)" "accepted_by e = []" "delivered_by e = []"
    using st m by auto
  ultimately show ?thesis by (simp add: accounts_def placed_def del: members_ok.simps)
qed

lemma leave_accounts:
  assumes ok: "members_ok (vs, h, ms, lost)"
    and st: "spmc_spec_step n dtor (X_Leave i) (vs, h, ms, lost) = (e, outs, a')"
  shows "accounts (vs, h, ms, lost) e outs a'"
proof (cases "\<exists>m. member_at ms i = Some m \<and> mb_reading m = None")
  case False
  then show ?thesis using st ok by (auto simp: accounts_same split: option.splits)
next
  case True
  then obtain m fin ds rest where m: "member_at ms i = Some m" "mb_reading m = None"
    "drop_run dtor (map ((!) vs) (member_batch m)) = (fin, ds, rest)" by (metis prod.exhaust)
  let ?b = "member_batch m"
  have i: "i < length ms" "ms ! i = Some m" using m(1) by (auto simp: member_at_def split: if_splits)
  have outs: "outs = map (Pair (Some i)) (take (length ds) ?b) @ map (Pair None) (drop (length ds) ?b)"
    "a' = (vs, h, ms[i := None], lost @ (if fin = Panicked then drop (length ds - 1) ?b else []))"
    "e = X_Left i fin ds"
    using st m by auto
  have "mset (undelivered ms h (length vs)) = mset (?b @ undelivered (ms[i := None]) h (length vs))"
    by (rule undelivered_update [OF i(1)]) (simp add: i(2))
  moreover have "map snd outs = ?b" by (simp add: outs(1) comp_def)
  moreover have "map (\<lambda>(i, v). (Some i, v)) (delivered_by e) = placed vs outs"
    using arg_cong [OF drop_run_take [OF m(3)], of "map (Pair (Some i))"]
    by (simp add: outs placed_def comp_def filter_map take_map)
  moreover have "\<forall>(i, p) \<in> set outs. p < length vs"
    using ok members_okD [OF ok m(1)]
    by (auto simp: outs(1) member_batch_def member_ok_def dest!: in_set_takeD in_set_dropD)
  moreover have "members_ok a'" using members_ok_update [OF ok, of h None i] ok unfolding outs(2) by simp
  ultimately show ?thesis by (simp add: accounts_def outs(2,3))
qed

lemma spec_step_accounts:
  assumes ok: "members_ok (vs, h, ms, lost)"
    and st: "spmc_spec_step n dtor op (vs, h, ms, lost) = (e, outs, a')"
  shows "accounts (vs, h, ms, lost) e outs a'"
proof (cases op)
  case (X_Push v)
  then show ?thesis using st push_accounts [OF ok] by blast
next
  case (X_Pop i)
  then show ?thesis using st pop_accounts [OF ok, of n dtor i] by blast
next
  case (X_Open i)
  then show ?thesis using st pop_accounts [OF ok, of n dtor i] by blast
next
  case (X_Finish i)
  then show ?thesis using st finish_accounts [OF ok] by blast
next
  case X_Clone
  then show ?thesis
    using st ok by (auto simp: accounts_def placed_def undelivered_def member_new_def member_batch_def
        member_ok_def split: if_splits)
next
  case (X_Leave i)
  then show ?thesis using st leave_accounts [OF ok] by blast
qed

text \<open>A whole run.\<close>

lemma spec_run_accounts:
  assumes "members_ok (vs, h, ms, lost)"
    and "spmc_spec_run n dtor ops (vs, h, ms, lost) = (es, outs, vs', h', ms', lost')"
  shows "members_ok (vs', h', ms', lost') \<and> vs' = vs @ accepted es
    \<and> mset (undelivered ms h (length vs) @ [length vs..<length vs'])
        = mset (map snd outs @ undelivered ms' h' (length vs'))
    \<and> map (\<lambda>(i, v). (Some i, v)) (deliveries es) = placed vs' outs
    \<and> (\<forall>(i, p) \<in> set outs. p < length vs')"
  using assms
proof (induction ops arbitrary: vs h ms lost es outs)
  case Nil
  then show ?case by (auto simp: accepted_def deliveries_def placed_def)
next
  case (Cons op ops)
  obtain e o1 vs1 h1 ms1 lost1 where st:
    "spmc_spec_step n dtor op (vs, h, ms, lost) = (e, o1, vs1, h1, ms1, lost1)" by (metis prod.exhaust)
  obtain es2 o2 where run: "spmc_spec_run n dtor ops (vs1, h1, ms1, lost1) = (es2, o2, vs', h', ms', lost')"
    "es = e # es2" "outs = o1 @ o2"
    using Cons.prems(2) st by (auto split: prod.splits)
  have one: "members_ok (vs1, h1, ms1, lost1)" "vs1 = vs @ accepted_by e"
    "mset (undelivered ms h (length vs) @ [length vs..<length vs1])
      = mset (map snd o1 @ undelivered ms1 h1 (length vs1))"
    "map (\<lambda>(i, v). (Some i, v)) (delivered_by e) = placed vs o1" "\<forall>(i, p) \<in> set o1. p < length vs"
    using spec_step_accounts [OF Cons.prems(1) st] unfolding accounts_def prod.case by blast+
  have rest: "members_ok (vs', h', ms', lost')" "vs' = vs1 @ accepted es2"
    "mset (undelivered ms1 h1 (length vs1) @ [length vs1..<length vs'])
      = mset (map snd o2 @ undelivered ms' h' (length vs'))"
    "map (\<lambda>(i, v). (Some i, v)) (deliveries es2) = placed vs' o2" "\<forall>(i, p) \<in> set o2. p < length vs'"
    using Cons.IH [OF one(1) run(1)] by blast+
  have split: "[length vs..<length vs'] = [length vs..<length vs1] @ [length vs1..<length vs']"
    by (rule upt_split) (simp_all add: one(2) rest(2))
  have "mset (undelivered ms h (length vs) @ [length vs..<length vs'])
      = mset (undelivered ms h (length vs) @ [length vs..<length vs1]) + mset [length vs1..<length vs']"
    unfolding split by (simp add: ac_simps)
  also have "\<dots> = mset (map snd o1) + mset (undelivered ms1 h1 (length vs1) @ [length vs1..<length vs'])"
    unfolding one(3) by (simp add: ac_simps)
  also have "\<dots> = mset (map snd outs @ undelivered ms' h' (length vs'))"
    unfolding rest(3) run(3) by (simp add: ac_simps)
  finally have balance: "mset (undelivered ms h (length vs) @ [length vs..<length vs'])
      = mset (map snd outs @ undelivered ms' h' (length vs'))" .
  have "placed vs' o1 = placed vs o1"
    using placed_more [OF one(5), of "accepted_by e @ accepted es2"] one(2) rest(2) by simp
  then have "map (\<lambda>(i, v). (Some i, v)) (deliveries es) = placed vs' outs"
    using one(4) rest(4) run(2,3) by (simp add: deliveries_def)
  moreover have "\<forall>(i, p) \<in> set outs. p < length vs'"
    using one(5) rest(5) run(3) one(2) rest(2) by fastforce
  ultimately show ?case
    using rest(1,2) one(2) run(2) balance by (simp add: accepted_def)
qed

section \<open>The order a consumer sees\<close>

text \<open>The least position consumer \<open>i\<close> may still be given.\<close>

definition floor_of :: "member option list \<Rightarrow> nat \<Rightarrow> nat \<Rightarrow> nat" where
  "floor_of ms h i =
     (case member_at ms i of
        None \<Rightarrow> 0
      | Some m \<Rightarrow> if mb_next m < mb_end m then mb_next m else h)"

definition outs_of :: "nat \<Rightarrow> (nat option \<times> nat) list \<Rightarrow> nat list" where
  "outs_of i outs = map snd (filter (\<lambda>(j, _). j = Some i) outs)"

lemma outs_of_simps [simp]:
  "outs_of i [] = []" "outs_of i (xs @ ys) = outs_of i xs @ outs_of i ys"
  "outs_of i ((j, p) # xs) = (if j = Some i then p # outs_of i xs else outs_of i xs)"
  "outs_of i (map (Pair j) qs) = (if j = Some i then qs else [])"
  by (simp_all add: outs_of_def filter_map comp_def)

text \<open>A handle that is gone, and not merely still to come.\<close>

definition left_already :: "member option list \<Rightarrow> nat \<Rightarrow> bool" where
  "left_already ms i \<longleftrightarrow> i < length ms \<and> ms ! i = None"

lemma member_at_update:
  "i < length ms \<Longrightarrow> member_at (ms[i := x]) j = (if j = i then x else member_at ms j)"
  by (simp add: member_at_def)

definition step_ordered ::
    "member option list \<Rightarrow> nat \<Rightarrow> (nat option \<times> nat) list \<Rightarrow> member option list \<Rightarrow> nat \<Rightarrow> nat \<Rightarrow> bool" where
  "step_ordered ms h outs ms' h' i \<longleftrightarrow>
     sorted_wrt (<) (outs_of i outs) \<and> (\<forall>p \<in> set (outs_of i outs). floor_of ms h i \<le> p)
     \<and> (left_already ms i \<longrightarrow> outs_of i outs = [] \<and> left_already ms' i)
     \<and> (\<forall>p \<in> set (outs_of i outs). left_already ms' i \<or> p < floor_of ms' h' i)
     \<and> (left_already ms' i \<or> floor_of ms h i \<le> floor_of ms' h' i)"

lemma claim_floor:
  assumes "claim_outcome t h m pos h' m'" and "mb_next m2 = mb_next m'" "mb_end m2 = mb_end m'"
    and "member_ok h t m"
  shows "(if mb_next m < mb_end m then mb_next m else h) \<le> (if mb_next m2 < mb_end m2 then mb_next m2 else h')"
    and "pos = Some p \<Longrightarrow> (if mb_next m < mb_end m then mb_next m else h) \<le> p
      \<and> p < (if mb_next m2 < mb_end m2 then mb_next m2 else h')"
proof -
  have *: "member_batch m @ [h..<t] = p # member_batch m' @ [h'..<t] \<and> p < h'" if "pos = Some p" for p
    using assms(1) that by (simp add: claim_outcome_def)
  have ge: "(if mb_next m < mb_end m then mb_next m else h) \<le> p \<and> p < (if mb_next m2 < mb_end m2 then mb_next m2 else h')"
    if "pos = Some p" for p
  proof -
    have "sorted_wrt (<) (member_batch m @ [h..<t])"
      using assms(4) by (auto simp: member_batch_def sorted_wrt_append member_ok_def)
    then have "mb_next m' < mb_end m' \<Longrightarrow> p < mb_next m'"
      using * [OF that] by (auto simp: member_batch_def upt_conv_Cons)
    moreover have "(if mb_next m < mb_end m then mb_next m else h) \<le> p"
      using * [OF that] by (cases "mb_next m < mb_end m"; cases "h < t") (auto simp: member_batch_def upt_conv_Cons)
    ultimately show ?thesis using * [OF that] assms(2,3) by simp
  qed
  then show "pos = Some p \<Longrightarrow> (if mb_next m < mb_end m then mb_next m else h) \<le> p
      \<and> p < (if mb_next m2 < mb_end m2 then mb_next m2 else h')" .
  show "(if mb_next m < mb_end m then mb_next m else h) \<le> (if mb_next m2 < mb_end m2 then mb_next m2 else h')"
    using assms ge by (cases pos) (force simp: claim_outcome_def member_batch_def)+
qed

lemma step_ordered_quiet:
  assumes "\<And>j. member_at ms' j = member_at ms j \<or> member_at ms j = None \<and> length ms \<le> j"
    and "\<And>j. j < length ms \<Longrightarrow> ms' ! j = ms ! j" and "length ms \<le> length ms'"
  shows "step_ordered ms h [] ms' h j"
  using assms(1) [of j] assms(2) [of j] assms(3) by (auto simp: step_ordered_def floor_of_def left_already_def)

lemma step_ordered_claim:
  assumes m: "member_at ms i = Some m" "member_ok h t m" and out: "claim_outcome t h m pos h' m'"
    and m2: "mb_next m2 = mb_next m'" "mb_end m2 = mb_end m'"
  shows "step_ordered ms h (case pos of None \<Rightarrow> [] | Some p \<Rightarrow> [(Some i, p)]) (ms[i := Some m2]) h' j"
proof -
  have i: "i < length ms" "ms ! i = Some m" using m(1) by (auto simp: member_at_def split: if_splits)
  have h': "h \<le> h'" using out by (simp add: claim_outcome_def)
  show ?thesis
  proof (cases "j = i")
    case True
    then show ?thesis
      using i m(1) claim_floor [OF out m2 m(2)]
      by (auto simp: step_ordered_def floor_of_def left_already_def member_at_update split: option.splits)
  next
    case False
    then show ?thesis
      using i h' by (auto simp: step_ordered_def floor_of_def left_already_def member_at_update split: option.splits)
  qed
qed

lemma spec_step_ordered:
  assumes ok: "members_ok (vs, h, ms, lost)"
    and st: "spmc_spec_step n dtor op (vs, h, ms, lost) = (e, outs, vs', h', ms', lost')"
  shows "step_ordered ms h outs ms' h' j"
proof -
  have same: "step_ordered ms h [] ms h j" by (rule step_ordered_quiet) auto
  have claimed: "step_ordered ms h outs ms' h' j"
    if asked: "op = X_Pop i \<or> op = X_Open i" "member_at ms i = Some m" "mb_reading m = None" for i m
  proof -
    obtain pos h1 m1 where claim: "member_claim (length vs) h m = (pos, h1, m1)" by (metis prod.exhaust)
    then have "ms' = ms[i := Some m1] \<or> ms' = ms[i := Some (m1\<lparr>mb_reading := pos\<rparr>)]"
      and r: "h' = h1" "outs = (case pos of None \<Rightarrow> [] | Some p \<Rightarrow> [(Some i, p)])"
      using st asked by (auto split: option.splits)
    then have "\<exists>m2. mb_next m2 = mb_next m1 \<and> mb_end m2 = mb_end m1 \<and> ms' = ms[i := Some m2]"
      by (elim disjE) (rule exI [of _ m1], simp, rule exI [of _ "m1\<lparr>mb_reading := pos\<rparr>"], simp)
    then obtain m2 where "mb_next m2 = mb_next m1" "mb_end m2 = mb_end m1" "ms' = ms[i := Some m2]"
      by blast
    then show ?thesis
      using step_ordered_claim [OF asked(2) members_okD [OF ok asked(2)] member_claim_outcome(1) [OF ok asked(2) claim]]
      unfolding r by metis
  qed
  show ?thesis
  proof (cases op)
    case (X_Push v)
    then show ?thesis using st same by (auto split: if_splits)
  next
    case (X_Pop i)
    show ?thesis
    proof (cases "\<exists>m. member_at ms i = Some m \<and> mb_reading m = None")
      case False
      then show ?thesis using st X_Pop same by (auto split: option.splits)
    qed (use claimed X_Pop in blast)
  next
    case (X_Open i)
    show ?thesis
    proof (cases "\<exists>m. member_at ms i = Some m \<and> mb_reading m = None")
      case False
      then show ?thesis using st X_Open same by (auto split: option.splits)
    qed (use claimed X_Open in blast)
  next
    case (X_Finish i)
    then show ?thesis
      using st same by (auto simp: step_ordered_def floor_of_def left_already_def member_at_def nth_list_update
          split: option.splits if_splits)
  next
    case X_Clone
    have "step_ordered ms h [] (ms @ [Some member_new]) h j"
      by (rule step_ordered_quiet) (auto simp: member_at_def nth_append)
    then show ?thesis using st X_Clone same by (auto split: if_splits)
  next
    case (X_Leave i)
    show ?thesis
    proof (cases "\<exists>m. member_at ms i = Some m \<and> mb_reading m = None")
      case False
      then show ?thesis using st X_Leave same by (auto split: option.splits)
    next
      case True
      then obtain m k where m: "member_at ms i = Some m" "ms' = ms[i := None]" "h' = h"
        "outs = map (Pair (Some i)) (take k (member_batch m)) @ map (Pair None) (drop k (member_batch m))"
        using st X_Leave by (auto split: prod.splits)
      have i: "i < length ms" "ms ! i = Some m" using m(1) by (auto simp: member_at_def split: if_splits)
      have "sorted_wrt (<) (take k (member_batch m))" by (simp add: member_batch_def sorted_wrt_take)
      moreover have "\<forall>p \<in> set (take k (member_batch m)). mb_next m \<le> p \<and> mb_next m < mb_end m"
        by (auto simp: member_batch_def dest!: in_set_takeD)
      ultimately show ?thesis
        using i m by (cases "j = i") (auto simp: step_ordered_def floor_of_def left_already_def member_at_update)
    qed
  qed
qed

lemma spec_run_ordered:
  assumes "members_ok (vs, h, ms, lost)" and "spmc_spec_run n dtor ops (vs, h, ms, lost) = (es, outs, a')"
  shows "sorted_wrt (<) (outs_of i outs) \<and> (\<forall>p \<in> set (outs_of i outs). floor_of ms h i \<le> p)
    \<and> (left_already ms i \<longrightarrow> outs_of i outs = [])"
  using assms
proof (induction ops arbitrary: vs h ms lost es outs)
  case Nil
  then show ?case by simp
next
  case (Cons op ops)
  obtain e o1 vs1 h1 ms1 lost1 where st:
    "spmc_spec_step n dtor op (vs, h, ms, lost) = (e, o1, vs1, h1, ms1, lost1)" by (metis prod.exhaust)
  obtain es2 o2 where run: "spmc_spec_run n dtor ops (vs1, h1, ms1, lost1) = (es2, o2, a')" "outs = o1 @ o2"
    using Cons.prems(2) st by (auto split: prod.splits)
  have "members_ok (vs1, h1, ms1, lost1)"
    using spec_step_accounts [OF Cons.prems(1) st] unfolding accounts_def prod.case by blast
  from Cons.IH [OF this run(1)] spec_step_ordered [OF Cons.prems(1) st, of i]
  show ?case by (auto simp: run(2) step_ordered_def sorted_wrt_append) (fastforce dest: bspec)+
qed

section \<open>Programs over a fresh ring\<close>

definition spmc_spec_start :: "'a spmc_spec" where
  "spmc_spec_start = ([], 0, [Some member_new], [])"

text \<open>
  C5. Any program of pushes, pops, in-place reads, joins and departures over any number of
  consumers runs on a fresh spmc ring exactly as the specification by positions,
  event by event, and never faults; \<open>dtor\<close> says which destructors panic.
\<close>

theorem spmc_refines_batches:
  assumes "wf_capacity c" and "length ops + slots c < 2 ^ 64"
  shows "\<exists>r s'. spmc_new c = Inr r
    \<and> spmc_run dtor ops (spmc_start r) = Inr (fst (spmc_spec_run (slots c) dtor ops spmc_spec_start), s')"
proof -
  obtain es outs a' where run: "spmc_spec_run (slots c) dtor ops spmc_spec_start = (es, outs, a')"
    by (metis prod.exhaust)
  have "slots c < 2 ^ 64" using assms(2) by simp
  then obtain r :: "'a spmc_ring" where r: "spmc_new c = Inr r"
    "spmc_rel ([], 0, [Some member_new], []) (spmc_start r)" "sm_capacity (snd (snd (spmc_start r))) = c"
    using spmc_start_rel [OF assms(1)] by blast
  then show ?thesis
    using spmc_run_follows [OF r(2), of ops dtor es outs a'] assms(2) run by (auto simp: spmc_spec_start_def)
qed

theorem spmc_refines_batches_witness:
  "\<exists>r s'. spmc_new cap2 = Inr r
    \<and> spmc_run (\<lambda>_. Returned) [X_Push 7, X_Clone, X_Push (8 :: nat), X_Push 9, X_Pop 1, X_Pop 0, X_Open 1, X_Leave 0] (spmc_start r)
      = Inr (fst (spmc_spec_run (slots cap2) (\<lambda>_. Returned)
          [X_Push 7, X_Clone, X_Push 8, X_Push 9, X_Pop 1, X_Pop 0, X_Open 1, X_Leave 0] spmc_spec_start), s')"
  by (rule spmc_refines_batches [OF cap2_wf]) (simp add: slots_cap2)

section \<open>Every position is accounted for\<close>

text \<open>
  The consumer an event is about, and the positions it takes: those the consumer got, and
  those it left in no hands. Only a departure whose destructor panicked leaves any, and
  what a departure gets and leaves is one run of positions, its claimed batch.
\<close>

fun receiver :: "'a spmc_event \<Rightarrow> nat option" where
  "receiver (X_Popped i v) = Some i"
| "receiver (X_Opened i v) = Some i"
| "receiver (X_Left i fin ds) = Some i"
| "receiver _ = None"

definition one_run :: "nat list \<Rightarrow> bool" where
  "one_run ps \<longleftrightarrow> (case ps of [] \<Rightarrow> True | p # _ \<Rightarrow> ps = [p..<p + length ps])"

fun takes_positions :: "'a list \<Rightarrow> 'a spmc_event \<Rightarrow> nat list \<times> nat list \<Rightarrow> bool" where
  "takes_positions vs e (got, left) \<longleftrightarrow>
     map snd (delivered_by e) = map ((!) vs) got
     \<and> (case e of
          X_Left i fin ds \<Rightarrow>
            one_run (got @ left) \<and> (case fin of Returned \<Rightarrow> left = [] | Panicked \<Rightarrow> got \<noteq> [])
        | _ \<Rightarrow> left = [])"

definition positions_taken :: "(nat list \<times> nat list) list \<Rightarrow> nat list" where
  "positions_taken parts = concat (map (\<lambda>(got, left). got @ left) parts)"

definition positions_of :: "nat \<Rightarrow> 'a spmc_event list \<Rightarrow> (nat list \<times> nat list) list \<Rightarrow> nat list" where
  "positions_of i es parts =
     concat (map (\<lambda>(e, got, left). if receiver e = Some i then got else []) (zip es parts))"

lemma positions_simps [simp]:
  "positions_taken [] = []" "positions_of i [] parts = []" "positions_of i es [] = []"
  "positions_taken ((got, left) # parts) = got @ left @ positions_taken parts"
  "positions_of i (e # es) ((got, left) # parts)
    = (if receiver e = Some i then got else []) @ positions_of i es parts"
  by (simp_all add: positions_taken_def positions_of_def)

lemma one_run_upt [simp]: "one_run [a..<b]"
  by (cases "a < b") (auto simp: one_run_def upt_conv_Cons [of a b] simp del: upt_Suc)

lemma takes_positions_more:
  assumes "takes_positions vs e (got, left)" and "\<forall>p \<in> set got. p < length vs"
  shows "takes_positions (vs @ ws) e (got, left)"
proof -
  have "map ((!) (vs @ ws)) got = map ((!) vs) got" using assms(2) by (simp add: nth_append)
  then show ?thesis using assms(1) by simp
qed

lemma list_all2_takes_more:
  assumes "list_all2 (takes_positions vs) es parts" and "\<forall>p \<in> set (positions_taken parts). p < length vs"
  shows "list_all2 (takes_positions (vs @ ws)) es parts"
  using assms
proof (induction rule: list_all2_induct)
  case (Cons e es part parts)
  obtain got left where part: "part = (got, left)" by (cases part)
  have "takes_positions (vs @ ws) e part"
    unfolding part by (rule takes_positions_more) (use Cons part in auto)
  then show ?case using Cons part by simp
qed simp

text \<open>The outs of a step, split into the two.\<close>

lemma spec_step_parts:
  assumes "spmc_spec_step n dtor op (vs, h, ms, lost) = (e, outs, a')"
  shows "\<exists>got left. takes_positions vs e (got, left) \<and> map snd outs = got @ left
    \<and> (\<forall>i. outs_of i outs = (if receiver e = Some i then got else []))"
proof -
  have none: "\<exists>got left. takes_positions vs e (got, left) \<and> map snd outs = got @ left
    \<and> (\<forall>i. outs_of i outs = (if receiver e = Some i then got else []))"
    if "outs = []" "delivered_by e = []" "receiver e = None"
    using that by (intro exI [of _ "[]"]) (auto split: spmc_event.splits)
  show ?thesis
  proof (cases op)
    case (X_Pop i)
    show ?thesis
    proof (cases "\<exists>p. outs = [(Some i, p)] \<and> e = X_Popped i (vs ! p)")
      case True
      then obtain p where "outs = [(Some i, p)]" "e = X_Popped i (vs ! p)" by blast
      then show ?thesis by (intro exI [of _ "[p]"] exI [of _ "[]"]) simp
    qed (use assms X_Pop in \<open>auto intro!: none split: option.splits prod.splits if_splits\<close>)
  next
    case (X_Open i)
    show ?thesis
    proof (cases "\<exists>p. outs = [(Some i, p)] \<and> e = X_Opened i (vs ! p)")
      case True
      then obtain p where "outs = [(Some i, p)]" "e = X_Opened i (vs ! p)" by blast
      then show ?thesis by (intro exI [of _ "[p]"] exI [of _ "[]"]) simp
    qed (use assms X_Open in \<open>auto intro!: none split: option.splits prod.splits if_splits\<close>)
  next
    case (X_Leave i)
    show ?thesis
    proof (cases "\<exists>m. member_at ms i = Some m \<and> mb_reading m = None")
      case False
      then show ?thesis using assms X_Leave by (auto intro!: none split: option.splits)
    next
      case True
      then obtain m where m: "member_at ms i = Some m" "mb_reading m = None" by blast
      let ?b = "member_batch m"
      obtain fin ds rest where dr: "drop_run dtor (map ((!) vs) ?b) = (fin, ds, rest)"
        by (metis prod.exhaust)
      let ?got = "take (length ds) ?b" and ?left = "drop (length ds) ?b"
      have e: "e = X_Left i fin ds" "outs = map (Pair (Some i)) ?got @ map (Pair None) ?left"
        using assms X_Leave m dr by auto
      have ds: "ds = map ((!) vs) ?got" using drop_run_take [OF dr] by (simp add: take_map)
      have "fin = Panicked \<Longrightarrow> ?got \<noteq> []"
        using dr by (cases ?b) (auto split: completion.splits prod.splits)
      moreover have "fin = Returned \<Longrightarrow> ?left = []"
        using drop_run_complete [of dtor "map ((!) vs) ?b" ds rest] dr by auto
      moreover have "one_run (?got @ ?left)"
        unfolding append_take_drop_id by (simp add: member_batch_def)
      ultimately have "takes_positions vs e (?got, ?left)"
        using ds by (auto simp: e(1) comp_def split: completion.splits)
      then show ?thesis
        by (intro exI [of _ ?got] exI [of _ ?left]) (auto simp: e comp_def)
    qed
  qed (use assms in \<open>auto intro!: none split: option.splits prod.splits if_splits\<close>)
qed

lemma spec_run_parts:
  assumes "members_ok (vs, h, ms, lost)"
    and "spmc_spec_run n dtor ops (vs, h, ms, lost) = (es, outs, vs', h', ms', lost')"
  shows "\<exists>parts. list_all2 (takes_positions vs') es parts \<and> map snd outs = positions_taken parts
    \<and> (\<forall>i. outs_of i outs = positions_of i es parts)"
  using assms
proof (induction ops arbitrary: vs h ms lost es outs)
  case Nil
  then show ?case by (intro exI [of _ "[]"]) simp
next
  case (Cons op ops)
  obtain e o1 vs1 h1 ms1 lost1 where st:
    "spmc_spec_step n dtor op (vs, h, ms, lost) = (e, o1, vs1, h1, ms1, lost1)" by (metis prod.exhaust)
  obtain es2 o2 where run: "spmc_spec_run n dtor ops (vs1, h1, ms1, lost1) = (es2, o2, vs', h', ms', lost')"
    "es = e # es2" "outs = o1 @ o2"
    using Cons.prems(2) st by (auto split: prod.splits)
  have one: "members_ok (vs1, h1, ms1, lost1)" "vs1 = vs @ accepted_by e" "\<forall>(i, p) \<in> set o1. p < length vs"
    using spec_step_accounts [OF Cons.prems(1) st] unfolding accounts_def prod.case by blast+
  have more: "vs' = vs @ accepted_by e @ accepted es2"
    using spec_run_accounts [OF one(1) run(1)] one(2) by simp
  obtain got left where g: "takes_positions vs e (got, left)" "map snd o1 = got @ left"
    "\<forall>i. outs_of i o1 = (if receiver e = Some i then got else [])"
    using spec_step_parts [OF st] by blast
  have "set (got @ left) = snd ` set o1" unfolding g(2) [symmetric] by simp
  then have "\<forall>p \<in> set got. p < length vs" using one(3) by fastforce
  then have "takes_positions vs' e (got, left)" unfolding more by (rule takes_positions_more [OF g(1)])
  moreover obtain parts where "list_all2 (takes_positions vs') es2 parts" "map snd o2 = positions_taken parts"
    "\<forall>i. outs_of i o2 = positions_of i es2 parts"
    using Cons.IH [OF one(1) run(1)] by blast
  ultimately show ?case using g(2,3) run(2,3) by (intro exI [of _ "(got, left) # parts"]) simp
qed

text \<open>The positions still inside: in a live consumer's batch, or unclaimed in the ring.\<close>

definition spmc_held :: "'a spmc \<Rightarrow> nat list" where
  "spmc_held s =
     (case s of (p, cs, r) \<Rightarrow>
        map unat (concat (map (case_option [] (\<lambda>(c, _). batch_positions c)) cs))
        @ map (\<lambda>i. unat (head (sm_cursors r)) + i) [0..<unat (spmc_len r)])"

definition spmc_cell :: "'a spmc \<Rightarrow> nat \<Rightarrow> 'a option" where
  "spmc_cell s p = (case s of (_, _, r) \<Rightarrow> sm_data r ! (p mod slots (sm_capacity r)))"

lemma batches_held:
  assumes "list_all2 (member_rel c h t) ms cs" and "h < 2 ^ 64"
  shows "map unat (concat (map (case_option [] (\<lambda>(c, _). batch_positions c)) cs))
    = concat (map (case_option [] member_batch) ms)"
  using assms(1)
proof (induction rule: list_all2_induct)
  case (Cons m ms c cs)
  have "map unat (case_option [] (\<lambda>(c, _). batch_positions c) c) = case_option [] member_batch m"
  proof (cases m)
    case (Some k)
    then have ok: "member_ok h t k" and c: "\<exists>slot rd. c = Some (member_consumer slot k, rd)"
      using Cons(1) by (auto simp: member_rel_Some1)
    have "map (\<lambda>p. unat (of_nat p :: usize)) (member_batch k) = member_batch k"
      using ok assms(2) by (intro map_idI unat_of_nat_usize) (auto simp: member_ok_def member_batch_def)
    then show ?thesis using c Some ok assms(2) by (auto simp: batch_positions_member comp_def)
  qed (use Cons(1) in simp)
  then show ?case using Cons by simp
qed simp

lemma held_undelivered:
  assumes rel: "spmc_rel (vs, h, ms, lost) s"
  shows "spmc_held s = undelivered ms h (length vs)"
    and "\<forall>p \<in> set (spmc_held s). spmc_cell s p = Some (vs ! p)"
proof -
  obtain p cs r where s: "s = (p, cs, r)" by (metis prod.exhaust)
  have ok: "spmc_ring_ok vs h (set (owned ms h (length vs))) (set lost) r"
    and all: "list_all2 (member_rel (sm_capacity r) h (length vs)) ms cs" using rel s by simp_all
  note D = spmc_ring_okD [OF ok]
  have small: "h < 2 ^ 64" using D(6,7) by simp
  have "unat (of_nat (length vs) - of_nat h :: usize) = length vs - h"
    using D(6,7) by (intro unat_sub_of_nats) simp_all
  then have "unat (spmc_len r) = length vs - h"
    using D(4,5) by (simp add: spmc_len_def cursors_len_def)
  moreover have "unat (head (sm_cursors r)) = h" using D(4) small by (simp add: unat_of_nat_usize)
  moreover have "map (\<lambda>i. h + i) [0..<length vs - h] = [h..<length vs]"
    using D(6) map_add_upt [of h "length vs - h"] by (simp only: add.commute [of h] le_add_diff_inverse2)
  ultimately show held: "spmc_held s = undelivered ms h (length vs)"
    using batches_held [OF all small] by (simp add: s spmc_held_def undelivered_def)
  have "set (case_option [] member_batch m) \<subseteq> set (held_by m)" for m by (cases m) auto
  then have "set (undelivered ms h (length vs)) \<subseteq> set (owned ms h (length vs))"
    by (fastforce simp: undelivered_def owned_def)
  then show "\<forall>p \<in> set (spmc_held s). spmc_cell s p = Some (vs ! p)"
    unfolding held using D(10) by (auto simp: s spmc_cell_def)
qed

text \<open>
  C6. Every accepted value goes to exactly one place. In any program the positions of the
  accepted values are exactly those the events took and those still held in the ring or in
  a live consumer's batch, each once; what a consumer was given by an event, popped, shown
  in place or destroyed as it left, are the values at the positions the event got; a
  position is taken without being got only by a departure whose destructor panicked, as the
  rest of its batch; a position still held has its value in its cell; and the positions of
  each consumer increase, so it sees its share in the order of the pushes.
\<close>

theorem spmc_delivers_each_value_once:
  assumes "wf_capacity c" and "length ops + slots c < 2 ^ 64"
  shows "\<exists>r es s' parts. spmc_new c = Inr r \<and> spmc_run dtor ops (spmc_start r) = Inr (es, s')
    \<and> list_all2 (takes_positions (accepted es)) es parts
    \<and> mset (positions_taken parts @ spmc_held s') = mset [0..<length (accepted es)]
    \<and> (\<forall>p \<in> set (spmc_held s'). spmc_cell s' p = Some (accepted es ! p))
    \<and> (\<forall>i. sorted_wrt (<) (positions_of i es parts))"
proof -
  obtain es outs vs h ms lost where run:
    "spmc_spec_run (slots c) dtor ops ([], 0, [Some member_new], []) = (es, outs, vs, h, ms, lost)"
    by (metis prod.exhaust)
  have start: "members_ok ([] :: 'a list, 0, [Some member_new], [])"
    by (simp add: member_new_def member_ok_def)
  have "slots c < 2 ^ 64" using assms(2) by simp
  then obtain r :: "'a spmc_ring" where r: "spmc_new c = Inr r"
    "spmc_rel ([], 0, [Some member_new], []) (spmc_start r)" "sm_capacity (snd (snd (spmc_start r))) = c"
    using spmc_start_rel [OF assms(1)] by blast
  then obtain s' where s': "spmc_run dtor ops (spmc_start r) = Inr (es, s')" "spmc_rel (vs, h, ms, lost) s'"
    using spmc_run_follows [OF r(2), of ops dtor es outs] assms(2) run by auto
  have acc: "vs = accepted es" "mset (undelivered [Some member_new] 0 0 @ [0..<length vs])
      = mset (map snd outs @ undelivered ms h (length vs))"
    using spec_run_accounts [OF start run, unfolded append_Nil list.size(3)] by blast+
  obtain parts where parts: "list_all2 (takes_positions vs) es parts" "map snd outs = positions_taken parts"
    "\<forall>i. outs_of i outs = positions_of i es parts"
    using spec_run_parts [OF start run] by blast
  have "undelivered [Some member_new] 0 0 = []"
    by (simp add: undelivered_def member_new_def member_batch_def)
  then have "mset (positions_taken parts @ spmc_held s') = mset [0..<length (accepted es)]"
    using acc(2) parts(2) held_undelivered(1) [OF s'(2)] by (simp add: acc(1))
  moreover have "\<forall>i. sorted_wrt (<) (positions_of i es parts)"
    using spec_run_ordered [OF start run] parts(3) by metis
  ultimately show ?thesis
    using r(1) s'(1) parts(1) held_undelivered(2) [OF s'(2)] unfolding acc(1) by blast
qed

theorem spmc_delivers_each_value_once_witness:
  "\<exists>r es s' parts. spmc_new cap2 = Inr r
    \<and> spmc_run (\<lambda>v. if v = 8 then Panicked else Returned)
        [X_Push 7, X_Push (8 :: nat), X_Clone, X_Pop 1, X_Leave 1, X_Push 9, X_Pop 0] (spmc_start r) = Inr (es, s')
    \<and> list_all2 (takes_positions (accepted es)) es parts
    \<and> mset (positions_taken parts @ spmc_held s') = mset [0..<length (accepted es)]
    \<and> (\<forall>p \<in> set (spmc_held s'). spmc_cell s' p = Some (accepted es ! p))
    \<and> (\<forall>i. sorted_wrt (<) (positions_of i es parts))"
  by (rule spmc_delivers_each_value_once [OF cap2_wf]) (simp add: slots_cap2)

section \<open>A batch destroyed halfway\<close>

text \<open>A lost position is never released, so the producer stops one lap after it.\<close>

lemma lost_stay_lost:
  "spmc_spec_step n dtor op (vs, h, ms, lost) = (e, outs, vs', h', ms', lost') \<Longrightarrow> set lost \<subseteq> set lost'"
  by (cases op) (auto split: if_splits option.splits prod.splits)

lemma spec_run_length:
  "spmc_spec_run n dtor ops (vs, h, ms, lost) = (es, outs, vs', h', ms', lost')
    \<Longrightarrow> length vs' \<le> length vs + length ops"
proof (induction ops arbitrary: vs h ms lost es outs)
  case (Cons op ops)
  obtain e o1 vs1 h1 ms1 lost1 where st:
    "spmc_spec_step n dtor op (vs, h, ms, lost) = (e, o1, vs1, h1, ms1, lost1)" by (metis prod.exhaust)
  then have "length vs1 \<le> Suc (length vs)"
    by (cases op) (auto split: if_splits option.splits prod.splits)
  then show ?case
    using Cons.prems Cons.IH [of vs1 h1 ms1 lost1] st by (fastforce split: prod.splits)
qed simp

lemma run_lost_stay_lost:
  "spmc_spec_run n dtor ops (vs, h, ms, lost) = (es, outs, vs', h', ms', lost') \<Longrightarrow> set lost \<subseteq> set lost'"
proof (induction ops arbitrary: vs h ms lost es outs)
  case (Cons op ops)
  obtain e o1 vs1 h1 ms1 lost1 where st:
    "spmc_spec_step n dtor op (vs, h, ms, lost) = (e, o1, vs1, h1, ms1, lost1)" by (metis prod.exhaust)
  then show ?case
    using Cons.prems Cons.IH [of vs1 h1 ms1 lost1] lost_stay_lost [OF st] by (fastforce split: prod.splits)
qed simp

text \<open>A departure that panicked has lost a position, in whatever run it happened.\<close>

lemma spec_step_panic_loses:
  assumes "spmc_spec_step n dtor op (vs, h, ms, lost) = (X_Left i Panicked ds, outs, vs', h', ms', lost')"
  shows "lost' \<noteq> []"
proof (cases op)
  case (X_Leave k)
  then obtain m rest where m: "drop_run dtor (map ((!) vs) (member_batch m)) = (Panicked, ds, rest)"
    "lost' = lost @ drop (length ds - 1) (member_batch m)"
    using assms by (auto split: option.splits if_splits prod.splits)
  have "ds \<noteq> []" using m(1) by (cases "member_batch m") (auto split: completion.splits prod.splits)
  moreover have "length ds \<le> length (member_batch m)"
    using arg_cong [OF drop_run_append [OF m(1)], of length] by simp
  ultimately show ?thesis using m(2) by (cases ds) auto
qed (use assms in \<open>auto split: option.splits if_splits prod.splits\<close>)

lemma spec_run_panic_loses:
  assumes "spmc_spec_run n dtor ops (vs, h, ms, lost) = (es, outs, vs', h', ms', lost')"
    and "X_Left i Panicked ds \<in> set es"
  shows "lost' \<noteq> []"
  using assms
proof (induction ops arbitrary: vs h ms lost es outs)
  case (Cons op ops)
  obtain e o1 vs1 h1 ms1 lost1 where st:
    "spmc_spec_step n dtor op (vs, h, ms, lost) = (e, o1, vs1, h1, ms1, lost1)" by (metis prod.exhaust)
  obtain es2 o2 where run: "spmc_spec_run n dtor ops (vs1, h1, ms1, lost1) = (es2, o2, vs', h', ms', lost')"
    "es = e # es2" using Cons.prems(1) st by (auto split: prod.splits)
  show ?case
  proof (cases "e = X_Left i Panicked ds")
    case True
    then have "lost1 \<noteq> []" using spec_step_panic_loses st by metis
    then show ?thesis using run_lost_stay_lost [OF run(1)] by auto
  next
    case False
    then show ?thesis using Cons.IH [OF run(1)] Cons.prems(2) run(2) by simp
  qed
qed simp

text \<open>
  C33. A destructor that panics while a consumer drops its claimed batch wedges the ring for
  every other consumer: after any program in which one consumer's drop panicked, and
  whatever is done next, the ring never again accepts a whole lap of pushes, however many
  the living consumers pop. The guard retires the handle but not the batch's positions.
\<close>

theorem spmc_panicking_drop_wedges_ring:
  assumes "wf_capacity c" and "length (ops @ ops') + slots c < 2 ^ 64" and "spmc_new c = Inr r"
    and "spmc_run dtor ops (spmc_start r) = Inr (es, s)" and "X_Left i Panicked ds \<in> set es"
  shows "\<exists>es' s'. spmc_run dtor ops' s = Inr (es', s') \<and> length (accepted es') < slots c"
proof -
  obtain es1 outs vs h ms lost where run:
    "spmc_spec_run (slots c) dtor ops ([], 0, [Some member_new], []) = (es1, outs, vs, h, ms, lost)"
    by (metis prod.exhaust)
  obtain es' outs' vs' h' ms' lost' where run':
    "spmc_spec_run (slots c) dtor ops' (vs, h, ms, lost) = (es', outs', vs', h', ms', lost')"
    by (metis prod.exhaust)
  have start: "members_ok ([] :: 'a list, 0, [Some member_new], [])"
    by (simp add: member_new_def member_ok_def)
  have small: "slots c < 2 ^ 64" using assms(2) by simp
  have r: "spmc_rel ([], 0, [Some member_new], []) (spmc_start r)" "sm_capacity (snd (snd (spmc_start r))) = c"
    using spmc_start_rel [OF assms(1) small, where 'a = 'a] assms(3) by auto
  have s: "es1 = es" "spmc_rel (vs, h, ms, lost) s" "sm_capacity (snd (snd s)) = c"
    using spmc_run_follows [OF r(1), of ops dtor es1 outs] assms(2,4) run r(2) by auto
  have ok: "members_ok (vs, h, ms, lost)" using spec_run_accounts [OF start run] by (rule conjunct1)
  have "length vs \<le> length ops"
    using spec_run_length [OF run] by simp
  then obtain s' where s': "spmc_run dtor ops' s = Inr (es', s')" "spmc_rel (vs', h', ms', lost') s'"
    "sm_capacity (snd (snd s')) = c"
    using spmc_run_follows [OF s(2), of ops' dtor es' outs'] assms(2) run' s(3) by auto
  have vs': "vs' = vs @ accepted es'" using spec_run_accounts [OF ok run'] by simp
  obtain q where q: "q \<in> set lost" "q \<in> set lost'"
    using spec_run_panic_loses [OF run] assms(5) run_lost_stay_lost [OF run'] s(1) by (cases lost) auto
  obtain p cs r1 where "s = (p, cs, r1)" by (metis prod.exhaust)
  then have "q < length vs"
    using s(2) q(1) spmc_ring_okD(9) [of vs h "set (owned ms h (length vs))" "set lost" r1 q] by simp
  moreover obtain p' cs' r2 where "s' = (p', cs', r2)" by (metis prod.exhaust)
  then have "length vs' \<le> q + slots c"
    using s'(2,3) q(2) spmc_ring_okD(9) [of vs' h' "set (owned ms' h' (length vs'))" "set lost'" r2 q] by simp
  ultimately have "length (accepted es') < slots c" using vs' by simp
  then show ?thesis using s'(1) by blast
qed

theorem spmc_panicking_drop_wedges_ring_witness:
  "\<exists>r es s es' s'. spmc_new cap2 = Inr r
    \<and> spmc_run (\<lambda>v :: nat. if v = 6 then Panicked else Returned)
        [X_Clone, X_Push 5, X_Push 6, X_Pop 0, X_Leave 0] (spmc_start r) = Inr (es, s)
    \<and> spmc_run (\<lambda>v :: nat. if v = 6 then Panicked else Returned)
        [X_Push 7, X_Pop 1, X_Push 8, X_Push 9] s = Inr (es', s')
    \<and> length (accepted es') < 2"
proof -
  let ?dtor = "\<lambda>v :: nat. if v = 6 then Panicked else Returned"
  let ?ops = "[X_Clone, X_Push 5, X_Push 6, X_Pop 0, X_Leave 0]"
  obtain r :: "nat spmc_ring" where r: "spmc_new cap2 = Inr r"
    "spmc_rel ([], 0, [Some member_new], []) (spmc_start r)" "sm_capacity (snd (snd (spmc_start r))) = cap2"
    using spmc_start_rel [OF cap2_wf] by (auto simp: slots_cap2)
  obtain outs a' where spec: "spmc_spec_run (slots cap2) ?dtor ?ops ([], 0, [Some member_new], [])
      = ([X_Joined, X_Accepted 5, X_Accepted 6, X_Popped 0 5, X_Left 0 Panicked [6]], outs, a')"
    by (auto simp: slots_cap2 member_at_def member_new_def member_claim_def member_batch_def owned_def
        pos_blocked_def upt_conv_Cons Let_def numeral_2_eq_2 [symmetric])
  obtain s where s: "spmc_run ?dtor ?ops (spmc_start r)
      = Inr ([X_Joined, X_Accepted 5, X_Accepted 6, X_Popped 0 5, X_Left 0 Panicked [6]], s)"
    using spmc_run_follows [OF r(2), of ?ops ?dtor] r(3) spec by (auto simp: slots_cap2)
  have "length (?ops @ [X_Push 7, X_Pop 1, X_Push 8, X_Push 9]) + slots cap2 < 2 ^ 64"
    by (simp add: slots_cap2)
  from spmc_panicking_drop_wedges_ring [OF cap2_wf this r(1) s, of 0 "[6]"]
  obtain es' s' where "spmc_run ?dtor [X_Push 7, X_Pop 1, X_Push 8, X_Push 9] s = Inr (es', s')"
    "length (accepted es') < 2"
    unfolding slots_cap2 by (auto simp del: spmc_run.simps)
  with r(1) s show ?thesis by blast
qed

end
