(* ===== verification/Spmc_Races.thy ===== *)
theory Spmc_Races
  imports Spmc_Delivery
begin

text \<open>
  The claim of a batch against other handles. The cursors only ever move forward, so a
  claim that succeeds took the positions at the head of the ring it exchanged on, and a
  claim that fails saw the ring empty at one instant of its run.
\<close>

definition spmc_advances :: "'a spmc_ring \<Rightarrow> 'a spmc_ring \<Rightarrow> bool" where
  "spmc_advances r r' \<longleftrightarrow>
     head (sm_cursors r) \<le> head (sm_cursors r') \<and> tail (sm_cursors r) \<le> tail (sm_cursors r')
     \<and> head (sm_cursors r') \<le> tail (sm_cursors r')
     \<and> (is_closed (sm_closed r) \<longrightarrow> is_closed (sm_closed r'))"

definition spmc_lawful :: "('a spmc_ring \<Rightarrow> 'a spmc_ring) \<Rightarrow> bool" where
  "spmc_lawful f \<longleftrightarrow>
     (\<forall>r. head (sm_cursors r) \<le> tail (sm_cursors r) \<longrightarrow> spmc_advances r (f r))"

fun lawful_race :: "'a spmc_ring race \<Rightarrow> bool" where
  "lawful_race (Race f g weak) \<longleftrightarrow> spmc_lawful f \<and> spmc_lawful g"

lemma spmc_advances_trans: "spmc_advances r r1 \<Longrightarrow> spmc_advances r1 r2 \<Longrightarrow> spmc_advances r r2"
  by (auto simp: spmc_advances_def)

lemma spmc_advances_refl: "head (sm_cursors r) \<le> tail (sm_cursors r) \<Longrightarrow> spmc_advances r r"
  by (simp add: spmc_advances_def)

lemma next_race_lawful:
  assumes "next_race races = (f, g, weak, rest)" and "list_all lawful_race races"
  shows "spmc_lawful f" "spmc_lawful g" "list_all lawful_race rest"
  using assms by (cases races rule: next_race.cases; auto simp: spmc_lawful_def spmc_advances_refl)+

text \<open>What a claim may end with.\<close>

definition claim_result ::
    "'a spmc_ring \<Rightarrow> usize option \<Rightarrow> spmc_consumer \<Rightarrow> 'a spmc_ring \<Rightarrow> bool" where
  "claim_result r pos c' r' \<longleftrightarrow>
     (\<exists>r1. spmc_advances r r1 \<and>
       (case pos of
          None \<Rightarrow> spmc_advances r1 r' \<and> head (sm_cursors r1) = tail (sm_cursors r1)
        | Some p \<Rightarrow>
            p = head (sm_cursors r1) \<and> p < batch_end c' \<and> batch_end c' \<le> tail (sm_cursors r1)
            \<and> batch_end c' - p \<le> BATCH_SIZE \<and> batch_next c' = p + 1
            \<and> r' = r1\<lparr>sm_cursors := (sm_cursors r1)\<lparr>head := batch_end c'\<rparr>\<rparr>))"

lemma claim_result_trans: "spmc_advances r r1 \<Longrightarrow> claim_result r1 pos c' r' \<Longrightarrow> claim_result r pos c' r'"
  unfolding claim_result_def by (blast intro: spmc_advances_trans)

lemma claim_result_advances:
  assumes "claim_result r pos c' r'"
  shows "spmc_advances r r'"
proof -
  obtain r1 where r1: "spmc_advances r r1" "case pos of
      None \<Rightarrow> spmc_advances r1 r' \<and> head (sm_cursors r1) = tail (sm_cursors r1)
    | Some p \<Rightarrow> p = head (sm_cursors r1) \<and> p < batch_end c' \<and> batch_end c' \<le> tail (sm_cursors r1)
        \<and> batch_end c' - p \<le> BATCH_SIZE \<and> batch_next c' = p + 1
        \<and> r' = r1\<lparr>sm_cursors := (sm_cursors r1)\<lparr>head := batch_end c'\<rparr>\<rparr>"
    using assms unfolding claim_result_def by blast
  show ?thesis
  proof (cases pos)
    case None
    then show ?thesis using r1 spmc_advances_trans by auto
  next
    case (Some p)
    then have "spmc_advances r1 r'" using r1(2) by (auto simp: spmc_advances_def)
    with r1(1) show ?thesis by (rule spmc_advances_trans)
  qed
qed

lemma batch_bounds:
  fixes h t :: usize
  assumes "h < t"
  shows "h < h + min (t - h) BATCH_SIZE" "h + min (t - h) BATCH_SIZE \<le> t"
    "h + min (t - h) BATCH_SIZE - h \<le> BATCH_SIZE"
proof -
  show "h < h + min (t - h) BATCH_SIZE" "h + min (t - h) BATCH_SIZE \<le> t"
    using unat_take [OF assms] assms by (simp_all add: word_less_nat_alt word_le_nat_alt)
  show "h + min (t - h) BATCH_SIZE - h \<le> BATCH_SIZE" by simp
qed

lemma claim_batch_race:
  assumes "list_all lawful_race races" and "head (sm_cursors r) \<le> tail (sm_cursors r)"
    and "sc_cached_tail c \<le> tail (sm_cursors r)" and "spmc_claim_batch races c r = (pos, c', r')"
  shows "claim_result r pos c' r' \<and> sc_cached_tail c' \<le> tail (sm_cursors r')"
  using assms
proof (induction "length races" arbitrary: races c r rule: less_induct)
  case less
  obtain f g weak rest where n: "next_race races = (f, g, weak, rest)" by (metis prod.exhaust)
  note law = next_race_lawful [OF n less.prems(1)]
  define r1 where "r1 = f r"
  define r2 where "r2 = g r1"
  define h where "h = head (sm_cursors r)"
  define stale where "stale = (sc_cached_tail c \<le> h)"
  define t where "t = (if stale then tail (sm_cursors r1) else sc_cached_tail c)"
  define c1 where "c1 = (if stale then c\<lparr>sc_cached_tail := t\<rparr> else c)"
  have a1: "spmc_advances r r1" using law(1) less.prems(2) by (simp add: spmc_lawful_def r1_def)
  then have "head (sm_cursors r1) \<le> tail (sm_cursors r1)" by (simp add: spmc_advances_def)
  then have a2: "spmc_advances r1 r2" using law(2) by (simp add: spmc_lawful_def r2_def)
  have a: "spmc_advances r r2" using a1 a2 by (rule spmc_advances_trans)
  have t2: "t \<le> tail (sm_cursors r2)" "sc_cached_tail c1 = t"
    using a a2 less.prems(3) by (auto simp: t_def c1_def spmc_advances_def)
  have ok2: "head (sm_cursors r2) \<le> tail (sm_cursors r2)" using a by (simp add: spmc_advances_def)
  have step: "spmc_claim_batch races c r =
      (if stale \<and> h \<ge> t then
         (if is_closed (sm_closed r2) then
            (if head (sm_cursors r2) \<ge> tail (sm_cursors r2)
             then (None, c1\<lparr>sc_cached_tail := tail (sm_cursors r2)\<rparr>, r2)
             else spmc_claim_batch rest (c1\<lparr>sc_cached_tail := tail (sm_cursors r2)\<rparr>) r2)
          else (None, c1, r2))
       else if \<not> weak \<and> head (sm_cursors r2) = h then
         (Some h, c1\<lparr>batch_next := h + 1, batch_end := h + min (t - h) BATCH_SIZE\<rparr>,
          r2\<lparr>sm_cursors := (sm_cursors r2)\<lparr>head := h + min (t - h) BATCH_SIZE\<rparr>\<rparr>)
       else spmc_claim_batch rest c1 r2)"
    unfolding r2_def r1_def h_def stale_def t_def c1_def
    by (subst spmc_claim_batch.simps) (simp add: n Let_def)
  have again: "claim_result r pos c' r' \<and> sc_cached_tail c' \<le> tail (sm_cursors r')"
    if "spmc_claim_batch rest c2 r2 = (pos, c', r')" "length rest < length races"
      "sc_cached_tail c2 \<le> tail (sm_cursors r2)" for c2
    using less.hyps [OF that(2) law(3) ok2 that(3,1)] claim_result_trans [OF a] by blast
  have rest: "length rest < length races" if "races \<noteq> []"
    using n that by (cases races rule: next_race.cases) auto
  have quiet: "f = (\<lambda>s. s)" "g = (\<lambda>s. s)" "\<not> weak" if "races = []" using n that by auto
  show ?case
  proof (cases "stale \<and> h \<ge> t")
    case True
    then have empty: "head (sm_cursors r1) = tail (sm_cursors r1)"
      using a1 by (auto simp: t_def h_def spmc_advances_def)
    show ?thesis
    proof (cases "is_closed (sm_closed r2) \<and> \<not> head (sm_cursors r2) \<ge> tail (sm_cursors r2)")
      case again': True
      then have "races \<noteq> []" using quiet True by (auto simp: r2_def r1_def h_def t_def)
      then show ?thesis
        using again [of "c1\<lparr>sc_cached_tail := tail (sm_cursors r2)\<rparr>"] rest less.prems(4) step True again' by simp
    next
      case False
      then have "pos = None" "r' = r2" "sc_cached_tail c' \<le> tail (sm_cursors r2)"
        using step True less.prems(4) t2 by (auto split: if_splits)
      then show ?thesis using a1 a2 empty by (auto simp: claim_result_def)
    qed
  next
    case False
    then have lt: "h < t" by (auto simp: stale_def t_def split: if_splits)
    show ?thesis
    proof (cases "\<not> weak \<and> head (sm_cursors r2) = h")
      case True
      then show ?thesis
        using step False less.prems(4) batch_bounds [OF lt] t2 a
        by (auto simp: claim_result_def intro!: exI [of _ r2])
    next
      case again': False
      then have "races \<noteq> []" using quiet by (auto simp: r2_def r1_def h_def)
      then show ?thesis using again [of c1] rest less.prems(4) step False again' t2 by simp
    qed
  qed
qed

text \<open>Every call of a handle moves the cursors this way.\<close>

lemma spec_step_head:
  assumes "spmc_spec_step n dtor op (vs, h, ms, lost) = (e, outs, vs', h', ms', lost')"
    and "members_ok (vs, h, ms, lost)"
  shows "h \<le> h' \<and> length vs \<le> length vs'"
proof -
  have "h \<le> h1" if "member_at ms i = Some m" "member_claim (length vs) h m = (pos, h1, m1)" for i m pos h1 m1
    using member_claim_outcome(1) [OF assms(2) that] by (simp add: claim_outcome_def)
  then show ?thesis
    using assms(1) by (cases op) (auto split: if_splits option.splits prod.splits)
qed

lemma spmc_rel_members_ok: "spmc_rel (vs, h, ms, lost) (p, cs, r) \<Longrightarrow> members_ok (vs, h, ms, lost)"
proof -
  assume rel: "spmc_rel (vs, h, ms, lost) (p, cs, r)"
  then have all: "list_all2 (member_rel (sm_capacity r) h (length vs)) ms cs" by simp
  have "member_ok h (length vs) m" if m: "Some m \<in> set ms" for m
  proof -
    obtain i where i: "i < length ms" "ms ! i = Some m" using m unfolding in_set_conv_nth by blast
    have "member_rel (sm_capacity r) h (length vs) (Some m) (cs ! i)"
      using list_all2_nthD [OF all i(1)] unfolding i(2) .
    then show ?thesis by (simp add: member_rel_Some1)
  qed
  moreover have "spmc_ring_ok vs h (set (owned ms h (length vs))) (set lost) r" using rel by simp
  ultimately show ?thesis using spmc_ring_okD(6) by simp
qed

lemma spmc_step_advances:
  assumes rel: "spmc_rel (vs, h, ms, lost) (p, cs, r)"
    and small: "Suc (length vs) + slots (sm_capacity r) < 2 ^ 64"
    and run: "spmc_step dtor op (p, cs, r) = Inr (e, p', cs', r')"
  shows "spmc_advances r r'"
proof -
  obtain e1 outs vs' h' ms' lost' where st:
    "spmc_spec_step (slots (sm_capacity r)) dtor op (vs, h, ms, lost) = (e1, outs, vs', h', ms', lost')"
    by (metis prod.exhaust)
  have rel': "spmc_rel (vs', h', ms', lost') (p', cs', r')" "sm_closed r' = sm_closed r"
    using spmc_step_follows [OF rel small st] run by (auto simp: spmc_steps_to_def)
  have ok: "spmc_ring_ok vs h (set (owned ms h (length vs))) (set lost) r"
    "spmc_ring_ok vs' h' (set (owned ms' h' (length vs'))) (set lost') r'" using rel rel'(1) by simp_all
  note D = spmc_ring_okD [OF ok(1)] and D' = spmc_ring_okD [OF ok(2)]
  have "h \<le> h'" "length vs \<le> length vs'" using spec_step_head [OF st spmc_rel_members_ok [OF rel]] by simp_all
  moreover have "h < 2 ^ 64" "h' < 2 ^ 64" "length vs < 2 ^ 64" "length vs' < 2 ^ 64"
    using D(6,7) D'(6,7) by simp_all
  ultimately show ?thesis
    using D(4,5) D'(4-6) rel'(2) by (simp add: spmc_advances_def of_nat_usize_simps)
qed

text \<open>
  C10. \<open>claim_batch\<close> against any lawful interference between its accesses, and any spurious
  failure of its exchange: if it returns a position, then at its exchange that
  position was the head and at most four positions from it on, all published, became
  this consumer's batch, the head moving past them in the same instant; if it returns
  nothing, then at one instant of the call the ring had no unclaimed position.
\<close>

theorem spmc_claim_under_race:
  assumes "list_all lawful_race races" and "head (sm_cursors r) \<le> tail (sm_cursors r)"
    and "sc_cached_tail c \<le> tail (sm_cursors r)" and "spmc_claim_batch races c r = (pos, c', r')"
  shows "\<exists>r1. spmc_advances r r1 \<and>
    (case pos of
       None \<Rightarrow> spmc_advances r1 r' \<and> head (sm_cursors r1) = tail (sm_cursors r1)
     | Some p \<Rightarrow>
         p = head (sm_cursors r1) \<and> p < batch_end c' \<and> batch_end c' \<le> tail (sm_cursors r1)
         \<and> batch_end c' - p \<le> BATCH_SIZE \<and> batch_next c' = p + 1
         \<and> r' = r1\<lparr>sm_cursors := (sm_cursors r1)\<lparr>head := batch_end c'\<rparr>\<rparr>)"
  using claim_batch_race [OF assms] unfolding claim_result_def by blast

text \<open>A competitor with a fresh handle is lawful interference.\<close>

definition rival_claim :: "'a spmc_ring \<Rightarrow> 'a spmc_ring" where
  "rival_claim r = snd (snd (spmc_claim_batch [] (spmc_new_with Shared) r))"

lemma rival_lawful: "spmc_lawful rival_claim"
  unfolding spmc_lawful_def
proof (intro allI impI)
  fix r :: "'a spmc_ring" assume ok: "head (sm_cursors r) \<le> tail (sm_cursors r)"
  obtain pos c' r' where run: "spmc_claim_batch [] (spmc_new_with Shared) r = (pos, c', r')"
    by (metis prod.exhaust)
  have "claim_result r pos c' r'"
    using claim_batch_race [of "[]" r "spmc_new_with Shared"] ok run by (simp add: spmc_new_with_def)
  then show "spmc_advances r (rival_claim r)"
    unfolding rival_claim_def run snd_conv by (rule claim_result_advances)
qed

theorem spmc_claim_under_race_witness:
  "\<exists>r :: nat spmc_ring. \<exists>pos c' r' r1. spmc_claim_batch [Race rival_claim rival_claim True] (spmc_new_with Shared) r = (pos, c', r')
    \<and> spmc_advances r r1 \<and>
    (case pos of
       None \<Rightarrow> spmc_advances r1 r' \<and> head (sm_cursors r1) = tail (sm_cursors r1)
     | Some p \<Rightarrow>
         p = head (sm_cursors r1) \<and> p < batch_end c' \<and> batch_end c' \<le> tail (sm_cursors r1)
         \<and> batch_end c' - p \<le> BATCH_SIZE \<and> batch_next c' = p + 1
         \<and> r' = r1\<lparr>sm_cursors := (sm_cursors r1)\<lparr>head := batch_end c'\<rparr>\<rparr>)"
proof -
  obtain r :: "nat spmc_ring" where r: "spmc_new cap2 = Inr r" "sm_cursors r = cursors_new"
    by (simp add: spmc_new_def aligned_buf_new_with_def capacity_get_def cap2_def)
  let ?r = "r\<lparr>sm_cursors := (sm_cursors r)\<lparr>tail := 6\<rparr>\<rparr>"
  obtain pos c' r' where run:
    "spmc_claim_batch [Race rival_claim rival_claim True] (spmc_new_with Shared) ?r = (pos, c', r')"
    by (metis prod.exhaust)
  have "list_all lawful_race [Race rival_claim rival_claim True]" using rival_lawful by simp
  then have "\<exists>r1. spmc_advances ?r r1 \<and>
    (case pos of
       None \<Rightarrow> spmc_advances r1 r' \<and> head (sm_cursors r1) = tail (sm_cursors r1)
     | Some p \<Rightarrow>
         p = head (sm_cursors r1) \<and> p < batch_end c' \<and> batch_end c' \<le> tail (sm_cursors r1)
         \<and> batch_end c' - p \<le> BATCH_SIZE \<and> batch_next c' = p + 1
         \<and> r' = r1\<lparr>sm_cursors := (sm_cursors r1)\<lparr>head := batch_end c'\<rparr>\<rparr>)"
    by (rule spmc_claim_under_race [OF _ _ _ run]) (simp_all add: r(2) spmc_new_with_def)
  then show ?thesis using run by blast
qed

end
