(* ===== verification/Sole_Waiter.thy ===== *)
theory Sole_Waiter
  imports Wake_Set
begin

text \<open>
  A wake set in which at most one leased waiter is parked: what each wake path means for
  that waiter. The blocking loops of the rings with several handles on a side are
  proved for one waiting handle among any number of busy ones; what the wake set
  does when several wait is the subject of \<open>Wake_Set\<close>.
\<close>

definition ws_parked :: "nat \<Rightarrow> wake_set \<Rightarrow> bool" where
  "ws_parked b s \<longleftrightarrow> bit (wake s) b \<and> tp_is_armed (parkers s ! b)"

definition ws_told :: "nat \<Rightarrow> wake_set \<Rightarrow> bool" where
  "ws_told b s \<longleftrightarrow> \<not> tp_is_armed (parkers s ! b)"

definition ws_alone :: "nat \<Rightarrow> wake_set \<Rightarrow> bool" where
  "ws_alone b s \<longleftrightarrow> b < 64 \<and> length (parkers s) = 64 \<and> (\<forall>j. j \<noteq> b \<longrightarrow> \<not> ws_parked j s)"

text \<open>A wake tells the waiter, or leaves the table and can only drop bits.\<close>

definition ws_heard :: "nat \<Rightarrow> wake_set \<Rightarrow> wake_set \<Rightarrow> bool" where
  "ws_heard b s s' \<longleftrightarrow> ws_alone b s' \<and> (ws_parked b s \<longrightarrow> ws_told b s') \<and> (ws_told b s \<longrightarrow> ws_told b s')"

lemma dropWhile_one:
  assumes "\<And>i. i \<in> set xs \<Longrightarrow> P i \<Longrightarrow> i = b"
  shows "take 1 (dropWhile (\<lambda>i. \<not> P i) xs) = (if b \<in> set xs \<and> P b then [b] else [])"
  using assms
proof (induction xs)
  case (Cons x xs)
  show ?case
  proof (cases "P x")
    case True
    then show ?thesis using Cons.prems [of x] by auto
  next
    case False
    then show ?thesis using Cons by auto
  qed
qed simp

lemma alone_target:
  assumes "ws_alone b s"
  shows "take 1 (reachable_slots s (advertised k (wake s))) = (if ws_parked b s then [b] else [])"
proof -
  have "take 1 (dropWhile (\<lambda>i. \<not> tp_is_armed (parkers s ! i)) (advertised k (wake s)))
      = (if b \<in> set (advertised k (wake s)) \<and> tp_is_armed (parkers s ! b) then [b] else [])"
    by (rule dropWhile_one) (use assms in \<open>auto simp: ws_alone_def ws_parked_def bits_of_def\<close>)
  then show ?thesis by (simp add: reachable_slots_def ws_parked_def bits_of_def)
qed

lemma heardI:
  assumes alone: "ws_alone b s" and bits: "bits_of (wake s') \<subseteq> bits_of (wake s)"
    and ps: "parkers s' = (if ws_parked b s then (parkers s)[b := tp_new] else parkers s)"
  shows "ws_heard b s s'"
proof -
  have told: "ws_told b s'" if "ws_parked b s"
    using that ps alone by (simp add: ws_told_def ws_alone_def tp_is_armed_def tp_new_def)
  have "parkers s' ! j = parkers s ! j" if "j \<noteq> b" for j using ps that by simp
  then have "ws_alone b s'"
    using alone bits ps by (auto simp: ws_alone_def ws_parked_def bits_of_def)
  then show ?thesis using told ps by (auto simp: ws_heard_def ws_told_def)
qed

lemma wake_one_heard:
  assumes "ws_alone b s"
  shows "ws_heard b s (snd (ws_wake_one s))"
proof -
  let ?target = "reachable_slots s (advertised (unat (cursor_shift (cursor s))) (wake s))"
  note spec = ws_wake_one_spec [OF refl refl, of s]
  have one: "take 1 ?target = (if ws_parked b s then [b] else [])" by (rule alone_target [OF assms])
  have "set (tl ?target) \<subseteq> bits_of (wake s)"
    unfolding reachable_slots_def by (metis list.set_sel(2) set_advertised set_dropWhileD subsetI tl_Nil)
  then have "bits_of (wake (snd (ws_wake_one s))) \<subseteq> bits_of (wake s)" using spec by simp
  moreover have "parkers (snd (ws_wake_one s)) = (if ws_parked b s then (parkers s)[b := tp_new] else parkers s)"
    using spec one by auto
  ultimately show ?thesis by (rule heardI [OF assms])
qed

lemma alone_armed_slots:
  assumes "ws_alone b s"
  shows "armed_slots (parkers s) (advertised k (wake s)) = (if ws_parked b s then [b] else [])"
proof -
  let ?xs = "armed_slots (parkers s) (advertised k (wake s))"
  have "set ?xs = (if ws_parked b s then {b} else {})" "distinct ?xs"
    using assms by (auto simp: armed_slots_def ws_alone_def ws_parked_def bits_of_def)
  then show ?thesis by (cases ?xs; cases "tl ?xs") (auto split: if_splits)
qed

lemma wake_n_heard:
  assumes alone: "ws_alone b s" and "0 < n"
  shows "ws_heard b s (snd (ws_wake_n n s))"
proof -
  define s0 where "s0 = s\<lparr>overflow := []\<rparr>"
  have run: "snd (ws_wake_n n s) = snd (ws_wake_n_loop n (cursor s) 0 s0)"
    by (simp add: ws_wake_n_def overflow_wake_all_def s0_def case_prod_beta Let_def)
  have f [simp]: "wake s0 = wake s" "parkers s0 = parkers s" by (simp_all add: s0_def)
  have armed: "armed_slots (parkers s0) (advertised (unat (cursor_shift (cursor s))) (wake s0))
      = (if ws_parked b s then [b] else [])" using alone_armed_slots [OF alone] by simp
  have "unat (0 :: usize) + unat n = unat n" by simp
  note spec = ws_wake_n_loop_spec [OF armed this]
  have "0 < unat n" using assms(2) by (simp add: word_less_nat_alt)
  then have t: "take (unat n) [b] = [b]" by (cases "unat n") simp_all
  have "bits_of (wake (snd (ws_wake_n_loop n (cursor s) 0 s0))) \<subseteq> bits_of (wake s)"
    using spec by auto
  moreover have "parkers (snd (ws_wake_n_loop n (cursor s) 0 s0))
      = (if ws_parked b s then (parkers s)[b := tp_new] else parkers s)"
    using spec t by auto
  ultimately show ?thesis unfolding run by (rule heardI [OF alone])
qed

lemma ws_flush_table:
  assumes "length (parkers s) = 64"
  shows "wake (snd (ws_flush s)) = 0"
    and "tp_is_armed (parkers (snd (ws_flush s)) ! i) \<longleftrightarrow> tp_is_armed (parkers s ! i) \<and> \<not> bit (wake s) i"
    and "length (parkers (snd (ws_flush s))) = 64"
proof -
  define s0 where "s0 = s\<lparr>overflow := [], wake := 0\<rparr>"
  have run: "snd (ws_flush s) = snd (ws_flush_loop (wake s) s0)"
    by (simp add: ws_flush_def overflow_wake_all_def s0_def case_prod_beta)
  have f [simp]: "wake s0 = 0" "parkers s0 = parkers s" by (simp_all add: s0_def)
  note spec = ws_flush_loop_spec [OF refl, of "wake s" s0]
  show "wake (snd (ws_flush s)) = 0" using spec by (simp add: run)
  show "tp_is_armed (parkers (snd (ws_flush s)) ! i) \<longleftrightarrow> tp_is_armed (parkers s ! i) \<and> \<not> bit (wake s) i"
    using spec assms by (auto simp: run dest: bit_imp_le_length)
  have len: "length (parkers (snd (ws_flush_loop bits x))) = length (parkers x)" for bits x
  proof (induction bits x rule: ws_flush_loop.induct)
    case (1 bits x)
    show ?case
      by (subst ws_flush_loop.simps)
        (use 1 in \<open>auto simp: wake_parker_def case_prod_beta split: prod.splits\<close>)
  qed
  show "length (parkers (snd (ws_flush s))) = 64" using len [of "wake s" s0] assms by (simp add: run)
qed

lemma flush_heard:
  assumes "ws_alone b s"
  shows "ws_heard b s (snd (ws_flush s))"
  using ws_flush_table [of s] assms by (auto simp: ws_heard_def ws_alone_def ws_told_def ws_parked_def)

text \<open>The waiter's own steps.\<close>

lemma arm_parks:
  assumes "ws_alone (unat w) s"
  shows "ws_alone (unat w) (ws_arm t (Leased w) s)" "ws_parked (unat w) (ws_arm t (Leased w) s)"
    "\<not> ws_told (unat w) (ws_arm t (Leased w) s)"
  using assms
  by (auto simp: ws_alone_def ws_parked_def ws_told_def ws_arm_def ws_arm_handle_def park_slot_index_def
      park_slot_mask_def tp_arm_def tp_is_armed_def bit_simps Let_def simp del: push_bit_of_1)

lemma disarm_alone:
  assumes "ws_alone (unat w) s"
  shows "ws_alone (unat w) (ws_disarm (Leased w) s)"
  using assms
  by (auto simp: ws_alone_def ws_parked_def ws_disarm_def park_slot_mask_def bit_simps simp del: push_bit_of_1)

lemma heard_trans:
  assumes "ws_heard b s s1" and "ws_heard b s1 s2"
  shows "ws_heard b s s2"
  using assms by (auto simp: ws_heard_def)

end
