(* ===== verification/Spmc_Block.thy ===== *)
theory Spmc_Block
  imports Spmc_Races Blocking Sole_Waiter
begin

text \<open>
  The blocking calls of the spmc ring. \<open>push_block\<close> is the loop of
  \<open>src/common/single_parker.rs\<close> on the producer's primitives; \<open>pop_block\<close> of
  \<open>src/spmc/consumer.rs\<close> is the same loop with the consumer waiting in the wake set. The
  peers of the producer are the consumers' calls, drains included; the peers of a
  waiting consumer are the producer's calls and the other consumers'.
\<close>

section \<open>A drain, and the queue it takes from\<close>

text \<open>What a consumer can take: the rest of its batch, then what nobody has claimed.\<close>

definition within_reach :: "'a list \<Rightarrow> nat \<Rightarrow> member \<Rightarrow> 'a list" where
  "within_reach vs h m = map ((!) vs) (member_batch m @ [h..<length vs])"

lemma claim_within_reach:
  assumes "claim_outcome (length vs) h m pos h' m'"
  shows "case pos of None \<Rightarrow> within_reach vs h m = [] \<and> within_reach vs h' m' = []
    | Some p \<Rightarrow> within_reach vs h m = vs ! p # within_reach vs h' m'"
  using assms by (auto simp: claim_outcome_def within_reach_def split: option.splits simp flip: map_append)

lemma spmc_drain_loop_sim:
  assumes "spmc_rel (vs, h, ms, lost) (p, cs, r)" and "member_at ms i = Some m" and "mb_reading m = None"
    and "handle_at cs i = Some (member_consumer slot m, None)"
  shows "\<exists>fin w' k1 st' h' m' r'.
    spmc_drain_loop f limit w k st (member_consumer slot m) r
      = Inr (fin, w', k1, st', member_consumer slot m', r')
    \<and> feed f limit k st (within_reach vs h m) = (fin, k1, st', within_reach vs h' m')
    \<and> spmc_rel (vs, h', ms[i := Some m'], lost) (p, cs[i := Some (member_consumer slot m', None)], r')
    \<and> mb_reading m' = None \<and> sm_capacity r' = sm_capacity r \<and> sm_closed r' = sm_closed r
    \<and> set (owned (ms[i := Some m']) h' (length vs)) \<subseteq> set (owned ms h (length vs)) \<and> h \<le> h'"
  using assms
proof (induction "length (within_reach vs h m)" arbitrary: h m ms cs r w k st rule: less_induct)
  case (less h m ms cs r w k st)
  have i: "i < length ms" "ms ! i = Some m" "i < length cs" "cs ! i = Some (member_consumer slot m, None)"
    using less.prems(2,4) by (auto simp: member_at_def handle_at_def split: if_splits)
  have same: "ms[i := Some m] = ms" "cs[i := Some (member_consumer slot m, None)] = cs"
    using i list_update_id [of ms i] list_update_id [of cs i] by simp_all
  obtain pos h1 m1 where claim: "member_claim (length vs) h m = (pos, h1, m1)" by (metis prod.exhaust)
  obtain slot' r1 where c: "handle_at cs i = Some (member_consumer slot' m, None)"
    "spmc_claim_slot [] (member_consumer slot' m) r = (map_option of_nat pos, member_consumer slot' m1, r1)"
    "r1 = r\<lparr>sm_cursors := (sm_cursors r)\<lparr>head := of_nat h1\<rparr>\<rparr>"
    "spmc_ring_ok vs h1 (set (owned ms h (length vs))) (set lost) r1"
    "claim_outcome (length vs) h m pos h1 m1"
    using claim_sim [OF less.prems(1-3) claim] by metis
  have slot: "slot' = slot" using c(1) less.prems(4) by (simp add: member_consumer_def)
  note c = c [unfolded slot]
  have keep: "sm_capacity r1 = sm_capacity r" "sm_closed r1 = sm_closed r" using c(3) by simp_all
  note reach = claim_within_reach [OF c(5)] and owns = claim_keeps_owned [OF c(5) i(1,2) less.prems(3)]
  have grow: "h \<le> h1" using c(5) by (simp add: claim_outcome_def)
  have quiet: "mb_reading m1 = None" using c(5) less.prems(3) by (simp add: claim_outcome_def)
  show ?case
  proof (cases "below_limit k limit")
    case False
    have "feed f limit k st (within_reach vs h m) = (Returned, k, st, within_reach vs h m)"
      using False by (cases "within_reach vs h m") simp_all
    moreover have "spmc_drain_loop f limit w k st (member_consumer slot m) r
        = Inr (Returned, w, k, st, member_consumer slot m, r)"
      using False by (subst spmc_drain_loop.simps) simp
    moreover have "spmc_rel (vs, h, ms[i := Some m], lost) (p, cs[i := Some (member_consumer slot m, None)], r)"
      using less.prems(1) unfolding same .
    moreover have "set (owned (ms[i := Some m]) h (length vs)) \<subseteq> set (owned ms h (length vs))"
      unfolding same ..
    ultimately show ?thesis using less.prems(3) le_refl by blast
  next
    case True
    show ?thesis
    proof (cases pos)
      case None
      have rel': "spmc_rel (vs, h1, ms[i := Some m1], lost)
          (p, cs[i := Some (member_consumer slot m1, None)], r1)"
        using found_nothing_rel [OF less.prems(1) i(1,2) less.prems(3) _ c(4) keep(1)] c(5) None by simp
      have "spmc_drain_loop f limit w k st (member_consumer slot m) r
          = Inr (Returned, w, k, st, member_consumer slot m1, r1)"
        using True None c(2) by (subst spmc_drain_loop.simps) simp
      moreover have "feed f limit k st (within_reach vs h m) = (Returned, k, st, within_reach vs h1 m1)"
        using reach None by simp
      moreover have "set (owned (ms[i := Some m1]) h1 (length vs)) \<subseteq> set (owned ms h (length vs))"
        using owns None mset_eq_setD [of "owned ms h (length vs)" "owned (ms[i := Some m1]) h1 (length vs)"] by simp
      ultimately show ?thesis using rel' quiet keep grow by blast
    next
      case (Some q)
      obtain r2 r3 where t: "spmc_take_data (spmc_data_slot r1 (of_nat q)) r1 = Inr (vs ! q, r2)"
        "spmc_release_at (spmc_done_slot r1 (of_nat q)) (of_nat q) r2 = Inr r3"
        "spmc_rel (vs, h1, ms[i := Some m1], lost) (p, cs[i := Some (member_consumer slot m1, None)], r3)"
        "sm_capacity r3 = sm_capacity r" "sm_closed r3 = sm_closed r"
        using pop_claimed [OF less.prems(1) i(1,2) less.prems(3) _ c(4) keep] c(5) Some by blast
      have reach': "within_reach vs h m = vs ! q # within_reach vs h1 m1" using reach Some by simp
      have owns': "set (owned (ms[i := Some m1]) h1 (length vs)) \<subseteq> set (owned ms h (length vs))"
        using owns Some mset_eq_setD [of "owned ms h (length vs)" "[q] @ owned (ms[i := Some m1]) h1 (length vs)"]
        by auto
      obtain st1 fin1 where fv: "f st (vs ! q) = (st1, fin1)" by (metis prod.exhaust)
      show ?thesis
      proof (cases fin1)
        case Panicked
        then have "spmc_drain_loop f limit w k st (member_consumer slot m) r
            = Inr (Panicked, drain_wake_released w, k + 1, st1, member_consumer slot m1, r3)"
          using True Some c(2) t(1,2) fv by (subst spmc_drain_loop.simps) (simp add: spmc_bind_pos_def)
        moreover have "feed f limit k st (within_reach vs h m)
            = (Panicked, k + 1, st1, within_reach vs h1 m1)"
          using reach' True fv Panicked by simp
        ultimately show ?thesis using t(3-5) quiet owns' grow by blast
      next
        case Returned
        have at: "member_at (ms[i := Some m1]) i = Some m1"
          "handle_at (cs[i := Some (member_consumer slot m1, None)]) i = Some (member_consumer slot m1, None)"
          using i by (simp_all add: member_at_def handle_at_def)
        have step: "spmc_drain_loop f limit w k st (member_consumer slot m) r
            = spmc_drain_loop f limit (drain_wake_released w) (k + 1) st1 (member_consumer slot m1) r3"
          using True Some c(2) t(1,2) fv Returned by (subst spmc_drain_loop.simps) (simp add: spmc_bind_pos_def)
        have fstep: "feed f limit k st (within_reach vs h m)
            = feed f limit (k + 1) st1 (within_reach vs h1 m1)"
          using reach' True fv Returned by simp
        have "length (within_reach vs h1 m1) < length (within_reach vs h m)" using reach' by simp
        from less.hyps [OF this t(3) at(1) quiet at(2), of "drain_wake_released w" "k + 1" st1]
        show ?thesis unfolding step fstep list_update_overwrite t(4,5) using owns' grow by (meson subset_trans le_trans)
      qed
    qed
  qed
qed

section \<open>The blocking calls\<close>

definition spmc_on_ring :: "('a spmc_ring \<Rightarrow> 'a spmc_ring) \<Rightarrow> 'a spmc \<Rightarrow> 'a spmc" where
  "spmc_on_ring f s = (case s of (p, cs, r) \<Rightarrow> (p, cs, f r))"

definition spmc_try_push :: "'a \<Rightarrow> 'a spmc \<Rightarrow> ('a push_result \<times> 'a spmc) exec" where
  "spmc_try_push v s =
     (case s of (p, cs, r) \<Rightarrow> seq_exec (spmc_push v p r) (\<lambda>(res, p1, r1). Inr (res, p1, cs, r1)))"

definition spmc_consumer_gone :: "'a spmc \<Rightarrow> bool" where
  "spmc_consumer_gone s = (case s of (_, _, r) \<Rightarrow> is_closed_for_parking (sm_consumer_closed r))"

definition spmc_arm_producer :: "thread_id \<Rightarrow> 'a spmc_ring \<Rightarrow> 'a spmc_ring" where
  "spmc_arm_producer t r = r\<lparr>sm_producer_park := sp_arm t (sm_producer_park r)\<rparr>"

definition spmc_disarm_producer :: "'a spmc_ring \<Rightarrow> 'a spmc_ring" where
  "spmc_disarm_producer r = r\<lparr>sm_producer_park := sp_disarm (sm_producer_park r)\<rparr>"

definition spmc_producer_parked :: "'a spmc \<Rightarrow> bool" where
  "spmc_producer_parked s = (case s of (_, _, r) \<Rightarrow> parked (sm_producer_park r))"

definition spmc_producer_woken :: "'a spmc \<Rightarrow> bool" where
  "spmc_producer_woken s = (case s of (_, _, r) \<Rightarrow> \<not> tp_is_armed (parker (sm_producer_park r)))"

definition spmc_producer_ops :: "thread_id \<Rightarrow> ('a, 'a spmc) producer_ops" where
  "spmc_producer_ops t =
     \<lparr>try_push = spmc_try_push, consumer_gone = spmc_consumer_gone,
      arm_push = spmc_on_ring (spmc_arm_producer t), disarm_push = spmc_on_ring spmc_disarm_producer,
      push_woken = spmc_producer_woken, after_park = (\<lambda>b. b)\<rparr>"

definition spmc_push_block ::
    "thread_id \<Rightarrow> 'a spmc schedule \<Rightarrow> 'a \<Rightarrow> 'a spmc \<Rightarrow> ('a push_result, 'a spmc) blocking exec" where
  "spmc_push_block t ps v s = push_block (spmc_producer_ops t) ps v s"

text \<open>
  The consumer \<open>i\<close> parks under the slot it leases; a slotless one in the overflow stack.
\<close>

definition spmc_slot_of :: "nat \<Rightarrow> 'a spmc \<Rightarrow> park_slot" where
  "spmc_slot_of i s =
     (case s of (_, cs, _) \<Rightarrow> case handle_at cs i of Some (c, _) \<Rightarrow> sc_park_slot c | None \<Rightarrow> Shared)"

definition spmc_try_pop :: "nat \<Rightarrow> 'a spmc \<Rightarrow> ('a option \<times> 'a spmc) exec" where
  "spmc_try_pop i s =
     (case s of (p, cs, r) \<Rightarrow>
        case handle_at cs i of
          Some (c, None) \<Rightarrow>
            seq_exec (spmc_pop [] c r) (\<lambda>(res, c1, r1). Inr (res, p, cs[i := Some (c1, None)], r1))
        | _ \<Rightarrow> Inr (None, s))"

definition spmc_producer_gone :: "'a spmc \<Rightarrow> bool" where
  "spmc_producer_gone s = (case s of (_, _, r) \<Rightarrow> is_closed_for_parking (sm_closed r))"

definition spmc_arm_consumer :: "thread_id \<Rightarrow> nat \<Rightarrow> 'a spmc \<Rightarrow> 'a spmc" where
  "spmc_arm_consumer t i s =
     spmc_on_ring (\<lambda>r. r\<lparr>sm_consumer_park := ws_arm t (spmc_slot_of i s) (sm_consumer_park r)\<rparr>) s"

definition spmc_disarm_consumer :: "nat \<Rightarrow> 'a spmc \<Rightarrow> 'a spmc" where
  "spmc_disarm_consumer i s =
     spmc_on_ring (\<lambda>r. r\<lparr>sm_consumer_park := ws_disarm (spmc_slot_of i s) (sm_consumer_park r)\<rparr>) s"

definition spmc_consumer_woken :: "thread_id \<Rightarrow> nat \<Rightarrow> 'a spmc \<Rightarrow> bool" where
  "spmc_consumer_woken t i s =
     (case s of (_, _, r) \<Rightarrow>
        case spmc_slot_of i s of
          Leased b \<Rightarrow> \<not> tp_is_armed (parkers (sm_consumer_park r) ! unat b)
        | Shared \<Rightarrow> t \<notin> set (overflow (sm_consumer_park r)))"

definition spmc_consumer_ops :: "thread_id \<Rightarrow> nat \<Rightarrow> ('a, 'a spmc) consumer_ops" where
  "spmc_consumer_ops t i =
     \<lparr>try_pop = spmc_try_pop i, producer_gone = spmc_producer_gone,
      arm_pop = spmc_arm_consumer t i, disarm_pop = spmc_disarm_consumer i,
      pop_woken = spmc_consumer_woken t i\<rparr>"

definition spmc_pop_block ::
    "thread_id \<Rightarrow> nat \<Rightarrow> 'a spmc schedule \<Rightarrow> 'a spmc \<Rightarrow> ('a option, 'a spmc) blocking exec" where
  "spmc_pop_block t i ps s = pop_block (spmc_consumer_ops t i) ps s"

text \<open>The calls of the other handles.\<close>

definition spmc_peer :: "('a \<Rightarrow> completion) \<Rightarrow> 'a spmc_op \<Rightarrow> 'a spmc \<Rightarrow> 'a spmc exec" where
  "spmc_peer dtor op s = seq_exec (spmc_step dtor op s) (\<lambda>(_, s'). Inr s')"

definition spmc_peer_drain ::
    "usize option \<Rightarrow> ('st \<Rightarrow> 'a \<Rightarrow> 'st \<times> completion) \<Rightarrow> 'st \<Rightarrow> nat \<Rightarrow> 'a spmc \<Rightarrow> 'a spmc exec" where
  "spmc_peer_drain limit f st i s =
     (case s of (p, cs, r) \<Rightarrow>
        case handle_at cs i of
          Some (c, None) \<Rightarrow>
            seq_exec (spmc_drain_up_to limit f st c r) (\<lambda>(_, _, _, c1, r1).
              Inr (p, cs[i := Some (c1, None)], r1))
        | _ \<Rightarrow> Inr s)"

text \<open>
  A consumer leaves while the producer may be waiting: with nothing left of its batch, or
  as the last one. The other departures free slots without waking the producer
  (\<open>spmc_departure_strands_producer\<close>).
\<close>

definition spmc_peer_leave :: "('a \<Rightarrow> completion) \<Rightarrow> nat \<Rightarrow> 'a spmc \<Rightarrow> 'a spmc exec" where
  "spmc_peer_leave dtor i s =
     (case s of (p, cs, r) \<Rightarrow>
        case handle_at cs i of
          Some (c, None) \<Rightarrow>
            if batch_next c = batch_end c \<or> fst (endpoint_release (sm_consumer_count r))
            then spmc_peer dtor (X_Leave i) s else Inr s
        | _ \<Rightarrow> Inr s)"

section \<open>What a call announces to the producer\<close>

definition spmc_announces :: "'a spmc_ring \<Rightarrow> 'a spmc_ring \<Rightarrow> bool" where
  "spmc_announces r r' \<longleftrightarrow>
     sm_producer_park r' = woke (sm_producer_park r)
     \<or> (sm_producer_park r' = sm_producer_park r \<and> sm_done r' = sm_done r
        \<and> sm_consumer_closed r' = sm_consumer_closed r)"

lemma spmc_announces_refl: "spmc_announces r r"
  by (simp add: spmc_announces_def)

lemma spmc_announces_wake:
  "sm_producer_park r' = sm_producer_park r \<Longrightarrow> spmc_announces r (spmc_wake_producer r')"
  by (simp add: spmc_announces_def)

lemma claim_slot_frame:
  assumes "spmc_claim_slot [] c r = (pos, c1, r1)"
  shows "sm_producer_park r1 = sm_producer_park r" "sm_done r1 = sm_done r"
    "sm_consumer_closed r1 = sm_consumer_closed r" "sm_consumer_park r1 = sm_consumer_park r"
    "sm_closed r1 = sm_closed r" "sc_park_slot c1 = sc_park_slot c" "sm_consumer_count r1 = sm_consumer_count r"
  using assms by (auto simp: spmc_claim_slot_def claim_batch_alone Let_def split: if_splits)

lemma take_release_frame:
  assumes "spmc_take_data i r1 = Inr (v, r2)" and "spmc_release_at j h r2 = Inr r3"
  shows "sm_producer_park r3 = sm_producer_park r1" "sm_consumer_closed r3 = sm_consumer_closed r1"
    "sm_consumer_park r3 = sm_consumer_park r1" "sm_closed r3 = sm_closed r1"
    "sm_consumer_count r3 = sm_consumer_count r1"
  using assms by (auto simp: spmc_take_data_def spmc_release_at_def seq_exec_eq_Inr)

lemma spmc_pop_announces:
  assumes "spmc_pop [] c r = Inr (res, c1, r1)"
  shows "spmc_announces r r1" and "sm_consumer_park r1 = sm_consumer_park r"
    and "sc_park_slot c1 = sc_park_slot c" and "sm_closed r1 = sm_closed r"
proof -
  obtain pos c2 r2 where cl: "spmc_claim_slot [] c r = (pos, c2, r2)" by (metis prod.exhaust)
  note fr = claim_slot_frame [OF cl]
  show "spmc_announces r r1" "sm_consumer_park r1 = sm_consumer_park r"
    "sc_park_slot c1 = sc_park_slot c" "sm_closed r1 = sm_closed r"
    using assms cl fr
    by (auto simp: spmc_pop_def spmc_bind_pos_def seq_exec_eq_Inr spmc_announces_def
        dest: take_release_frame split: option.splits)
qed

lemma spmc_drain_loop_frame:
  "spmc_drain_loop f limit w k st c r = Inr (fin, w', k1, st', c', r') \<Longrightarrow>
    sm_producer_park r' = sm_producer_park r \<and> sm_consumer_closed r' = sm_consumer_closed r
    \<and> sm_consumer_park r' = sm_consumer_park r \<and> sm_closed r' = sm_closed r
    \<and> sc_park_slot c' = sc_park_slot c \<and> (dw_released w \<longrightarrow> dw_released w')
    \<and> (\<not> dw_released w' \<longrightarrow> sm_done r' = sm_done r)"
proof (induction f limit w k st c r arbitrary: fin w' k1 st' c' r' rule: spmc_drain_loop.induct)
  case (1 f limit w k st c r)
  obtain pos c1 r1 where cl: "spmc_claim_slot [] c r = (pos, c1, r1)" by (metis prod.exhaust)
  note fr = claim_slot_frame [OF cl]
  show ?case
  proof (cases "below_limit k limit")
    case False
    then show ?thesis using "1.prems" by (simp add: spmc_drain_loop.simps)
  next
    case lim: True
    show ?thesis
    proof (cases pos)
      case None
      then show ?thesis using "1.prems" lim cl fr by (simp add: spmc_drain_loop.simps [of f limit w])
    next
      case (Some q)
      obtain i j h where b: "spmc_bind_pos r1 q = (i, j, h)" by (metis prod.exhaust)
      obtain v r2 r3 where t: "spmc_take_data i r1 = Inr (v, r2)" "spmc_release_at j h r2 = Inr r3"
        using "1.prems" lim cl Some b
        by (subst (asm) spmc_drain_loop.simps) (auto simp: seq_exec_eq_Inr)
      note fr2 = take_release_frame [OF t]
      obtain st1 fin1 where fv: "f st v = (st1, fin1)" by (metis prod.exhaust)
      show ?thesis
      proof (cases fin1)
        case Panicked
        then show ?thesis
          using "1.prems" lim cl Some b t fv fr fr2
          by (subst (asm) spmc_drain_loop.simps) (auto simp: drain_wake_released_def)
      next
        case Returned
        have "spmc_drain_loop f limit (drain_wake_released w) (k + 1) st1 c1 r3 = Inr (fin, w', k1, st', c', r')"
          using "1.prems" lim cl Some b t fv Returned by (subst (asm) spmc_drain_loop.simps) simp
        from "1.IH" [OF _ cl [symmetric] Some refl b [symmetric] refl t(1) refl t(2) fv [symmetric] Returned this]
        show ?thesis using lim fr fr2 by (simp add: drain_wake_released_def)
      qed
    qed
  qed
qed

lemma spmc_drain_frame:
  assumes "spmc_drain_up_to limit f st c r = Inr (fin, k, st', c', r')"
  shows "spmc_announces r r'" and "sm_consumer_park r' = sm_consumer_park r"
    and "sm_closed r' = sm_closed r" and "sc_park_slot c' = sc_park_slot c"
proof -
  obtain w r1 where l: "spmc_drain_loop f limit drain_wake_new 0 st c r = Inr (fin, w, k, st', c', r1)"
    "r' = drain_wake_drop w r1"
    using assms by (auto simp: spmc_drain_up_to_def seq_exec_eq_Inr)
  note fr = spmc_drain_loop_frame [OF l(1)]
  show "spmc_announces r r'" "sm_consumer_park r' = sm_consumer_park r"
    "sm_closed r' = sm_closed r" "sc_park_slot c' = sc_park_slot c"
    using fr by (auto simp: l(2) drain_wake_drop_def spmc_announces_def)
qed

lemma spmc_reader_drop_frame:
  assumes "spmc_reader_drop dtor rd r = Inr (fin, r')"
  shows "spmc_announces r r'" and "sm_consumer_park r' = sm_consumer_park r" and "sm_closed r' = sm_closed r"
proof -
  obtain v r1 r2 where t: "spmc_take_data (rd_data rd) r = Inr (v, r1)"
    "spmc_release_at (rd_done rd) (rd_head rd) (r1\<lparr>sm_dropped := sm_dropped r1 @ [v]\<rparr>) = Inr r2"
    "r' = spmc_wake_producer r2"
    using assms by (auto simp: spmc_reader_drop_def spmc_slot_release_drop_def seq_exec_eq_Inr)
  have "sm_producer_park r1 = sm_producer_park r" "sm_consumer_park r1 = sm_consumer_park r"
    "sm_closed r1 = sm_closed r" using t(1) by (auto simp: spmc_take_data_def seq_exec_eq_Inr)
  moreover have "sm_producer_park r2 = sm_producer_park r1" "sm_consumer_park r2 = sm_consumer_park r1"
    "sm_closed r2 = sm_closed r1" using t(2) by (auto simp: spmc_release_at_def seq_exec_eq_Inr)
  ultimately show "spmc_announces r r'" "sm_consumer_park r' = sm_consumer_park r" "sm_closed r' = sm_closed r"
    using t(3) spmc_announces_wake [of r2 r] by simp_all
qed

section \<open>The queue in front of the producer\<close>

text \<open>
  Everything from the first position the producer has not got back: it is full exactly
  when the push is refused.
\<close>

definition first_owed :: "nat set \<Rightarrow> nat \<Rightarrow> nat" where
  "first_owed unreleased t = Min (insert t unreleased)"

definition spmc_unread :: "'a spmc \<Rightarrow> 'a list \<Rightarrow> bool" where
  "spmc_unread s q \<longleftrightarrow>
     (\<exists>vs h ms lost. spmc_rel (vs, h, ms, lost) s
       \<and> q = drop (first_owed (set (owned ms h (length vs)) \<union> set lost) (length vs)) vs)"

definition spmc_bound :: "'a spmc \<Rightarrow> nat" where
  "spmc_bound s = (case s of (_, _, r) \<Rightarrow> slots (sm_capacity r))"

definition spmc_positions_left :: "'a spmc \<Rightarrow> nat" where
  "spmc_positions_left s =
     (case s of (_, _, r) \<Rightarrow> 2 ^ 64 - 1 - (unat (tail (sm_cursors r)) + slots (sm_capacity r)))"

lemma first_owed_le: "finite U \<Longrightarrow> first_owed U t \<le> t"
  by (simp add: first_owed_def)

lemma first_owed_full:
  assumes "finite U" and "\<And>p. p \<in> U \<Longrightarrow> p < t \<and> t \<le> p + n" and "0 < n"
  shows "t - first_owed U t \<le> n" and "t - first_owed U t = n \<longleftrightarrow> pos_blocked n U t"
proof -
  have m: "first_owed U t \<in> insert t U" unfolding first_owed_def using assms(1) by (intro Min_in) auto
  then show "t - first_owed U t \<le> n" using assms(2,3) by fastforce
  have "pos_blocked n U t" if "t - first_owed U t = n"
  proof -
    have "first_owed U t \<in> U" using m that assms(3) by auto
    moreover have "first_owed U t = t - n" "n \<le> t" using that first_owed_le [OF assms(1), of t] by simp_all
    ultimately show ?thesis by (simp add: pos_blocked_def)
  qed
  moreover have "n \<le> t - first_owed U t" if "pos_blocked n U t"
  proof -
    have "first_owed U t \<le> t - n" "n \<le> t"
      using that assms(1) by (auto simp: pos_blocked_def first_owed_def)
    then show ?thesis by simp
  qed
  ultimately show "t - first_owed U t = n \<longleftrightarrow> pos_blocked n U t"
    using \<open>t - first_owed U t \<le> n\<close> by fastforce
qed

lemma first_owed_push:
  assumes "finite U" and "\<And>p. p \<in> U \<Longrightarrow> p < t"
  shows "first_owed (insert t U) (Suc t) = first_owed U t"
proof -
  have "Min (insert (Suc t) (insert t U)) = min (Suc t) (Min (insert t U))"
    using assms(1) by (simp add: Min_insert)
  moreover have "Min (insert t U) \<le> t" using assms(1) by simp
  ultimately show ?thesis by (simp add: first_owed_def)
qed

lemma first_owed_shrink:
  assumes "finite U" and "U' \<subseteq> U"
  shows "suffix (drop (first_owed U' t) vs) (drop (first_owed U t) vs)"
proof -
  have "first_owed U t \<le> first_owed U' t"
    unfolding first_owed_def using assms by (intro Min_antimono) auto
  then have "drop (first_owed U' t) vs = drop (first_owed U' t - first_owed U t) (drop (first_owed U t) vs)"
    by (simp add: drop_drop)
  then show ?thesis by (simp only: suffix_drop)
qed

text \<open>The done words say which positions are owed.\<close>

lemma owed_by_done:
  assumes ok: "spmc_ring_ok vs h own lost r" and p: "p < length vs" "length vs \<le> p + slots (sm_capacity r)"
  shows "p \<in> own \<union> lost \<longleftrightarrow>
    sm_done r ! (p mod slots (sm_capacity r)) = \<lparr>done_at = of_nat p\<rparr>"
proof -
  let ?n = "slots (sm_capacity r)"
  note D = spmc_ring_okD [OF ok]
  have "sm_done r ! ((p + ?n) mod ?n) = \<lparr>done_at = of_nat (owed ?n (own \<union> lost) (p + ?n))\<rparr>"
    by (rule D(11)) (use p in simp_all)
  moreover have "(of_nat (p + ?n) :: usize) \<noteq> of_nat p"
    using of_nat_usize_simps(1) [of "p + ?n" p] D(7,8) p by simp
  ultimately show ?thesis by (auto simp: owed_def)
qed

lemma owed_determined:
  assumes "spmc_ring_ok vs h own lost r" and "spmc_ring_ok vs' h' own' lost' r'"
    and "sm_done r' = sm_done r" "sm_capacity r' = sm_capacity r" "length vs' = length vs"
  shows "own' \<union> lost' = own \<union> lost"
proof -
  have "p \<in> own' \<union> lost'" if "p \<in> own \<union> lost" for p
  proof -
    have b: "p < length vs" "length vs \<le> p + slots (sm_capacity r)"
      using spmc_ring_okD(9) [OF assms(1) that] by simp_all
    have "sm_done r ! (p mod slots (sm_capacity r)) = \<lparr>done_at = of_nat p\<rparr>"
      using owed_by_done [OF assms(1) b] that by blast
    then show ?thesis using owed_by_done [OF assms(2), of p] b unfolding assms(3-5) by blast
  qed
  moreover have "p \<in> own \<union> lost" if "p \<in> own' \<union> lost'" for p
  proof -
    have b: "p < length vs" "length vs \<le> p + slots (sm_capacity r)"
      using spmc_ring_okD(9) [OF assms(2) that] unfolding assms(4,5) by simp_all
    have "sm_done r ! (p mod slots (sm_capacity r)) = \<lparr>done_at = of_nat p\<rparr>"
      using owed_by_done [OF assms(2), of p] b that unfolding assms(3-5) by blast
    then show ?thesis using owed_by_done [OF assms(1) b] by blast
  qed
  ultimately show ?thesis by blast
qed

lemma unread_facts:
  assumes "spmc_rel (vs, h, ms, lost) s"
    and "q = drop (first_owed (set (owned ms h (length vs)) \<union> set lost) (length vs)) vs"
  shows "length q \<le> spmc_bound s"
    and "length q = spmc_bound s \<longleftrightarrow>
      pos_blocked (spmc_bound s) (set (owned ms h (length vs)) \<union> set lost) (length vs)"
    and "spmc_positions_left s = 2 ^ 64 - 1 - (length vs + spmc_bound s)"
    and "length vs + spmc_bound s < 2 ^ 64"
proof -
  obtain p cs r where s: "s = (p, cs, r)" by (metis prod.exhaust)
  have ok: "spmc_ring_ok vs h (set (owned ms h (length vs))) (set lost) r" using assms(1) s by simp
  note D = spmc_ring_okD [OF ok]
  have b: "spmc_bound s = slots (sm_capacity r)" by (simp add: s spmc_bound_def)
  note full = first_owed_full [of "set (owned ms h (length vs)) \<union> set lost" "length vs" "slots (sm_capacity r)"]
  show "length q \<le> spmc_bound s" using full(1) D(8,9) unfolding assms(2) b by simp
  show "length q = spmc_bound s \<longleftrightarrow>
      pos_blocked (spmc_bound s) (set (owned ms h (length vs)) \<union> set lost) (length vs)"
    using full(2) D(8,9) unfolding assms(2) b by simp
  show "length vs + spmc_bound s < 2 ^ 64" using D(7) b by simp
  have "length vs < 2 ^ 64" using D(7) by simp
  then show "spmc_positions_left s = 2 ^ 64 - 1 - (length vs + spmc_bound s)"
    using unat_of_nat_usize [of "length vs"] D(5) by (simp add: spmc_positions_left_def s spmc_bound_def)
qed

section \<open>The waiting producer\<close>

text \<open>A drain's callback may depend on all it has seen.\<close>

inductive spmc_consumer_call :: "('a spmc \<Rightarrow> 'a spmc exec) \<Rightarrow> bool" where
  "op \<in> {X_Pop i, X_Open i, X_Finish i, X_Clone} \<Longrightarrow> spmc_consumer_call (spmc_peer dtor op)"
| "spmc_consumer_call (spmc_peer_drain limit (f :: 'a list \<Rightarrow> 'a \<Rightarrow> 'a list \<times> completion) st i)"
| "spmc_consumer_call (spmc_peer_leave dtor i)"

lemma owned_update_subset:
  assumes "set (held_by x) \<subseteq> set (held_by (member_opt))" and "i < length ms" "ms ! i = member_opt"
  shows "set (owned (ms[i := x]) h t) \<subseteq> set (owned ms h t)"
proof -
  have "set (held_by m) \<subseteq> set (concat (map held_by ms))" if "m \<in> set ms" for m
    using that by auto
  moreover have "member_opt \<in> set ms" using assms(2,3) by auto
  moreover have "set (ms[i := x]) \<subseteq> insert x (set ms)" by (rule set_update_subset_insert)
  ultimately show ?thesis using assms(1) by (fastforce simp: owned_def)
qed

lemma claim_owned_subset:
  assumes "claim_outcome t h m pos h' m'" and "i < length ms" "ms ! i = Some m" and "mb_reading m = None"
  shows "set (owned (ms[i := Some m']) h' t) \<subseteq> set (owned ms h t)"
    and "pos = Some p \<Longrightarrow> set (owned (ms[i := Some (m'\<lparr>mb_reading := Some p\<rparr>)]) h' t) \<subseteq> set (owned ms h t)"
proof -
  note k = claim_keeps_owned [OF assms]
  show "set (owned (ms[i := Some m']) h' t) \<subseteq> set (owned ms h t)"
  proof (cases pos)
    case None
    then have "mset (owned ms h t) = mset (owned (ms[i := Some m']) h' t)" using k by simp
    from mset_eq_setD [OF this] show ?thesis by simp
  next
    case (Some q)
    then have "mset (owned ms h t) = mset ([q] @ owned (ms[i := Some m']) h' t)" using k by simp
    from mset_eq_setD [OF this] show ?thesis by auto
  qed
  show "set (owned (ms[i := Some (m'\<lparr>mb_reading := Some p\<rparr>)]) h' t) \<subseteq> set (owned ms h t)" if "pos = Some p"
    using k that mset_eq_setD by fastforce
qed

lemma spec_step_shrinks:
  assumes "spmc_spec_step n dtor op (vs, h, ms, lost) = (e, outs, vs', h', ms', lost')"
    and ok: "members_ok (vs, h, ms, lost)" and op: "op \<in> {X_Pop i, X_Open i, X_Finish i, X_Clone, X_Leave i}"
  shows "vs' = vs \<and> set (owned ms' h' (length vs)) \<union> set lost' \<subseteq> set (owned ms h (length vs)) \<union> set lost"
proof (cases "op = X_Clone \<or> member_at ms i = None")
  case True
  have "owned (ms @ [Some member_new]) h (length vs) = owned ms h (length vs)"
    by (simp add: owned_def member_new_def member_batch_def)
  moreover have "vs' = vs \<and> h' = h \<and> lost' = lost \<and> (ms' = ms \<or> ms' = ms @ [Some member_new])"
    using assms(1) op True by (auto split: if_splits)
  ultimately show ?thesis by auto
next
  case False
  then obtain m where Some: "member_at ms i = Some m" by blast
  then have at: "i < length ms" "ms ! i = Some m" by (auto simp: member_at_def split: if_splits)
  obtain pos h1 m1 where claim: "member_claim (length vs) h m = (pos, h1, m1)" by (metis prod.exhaust)
  note out = member_claim_outcome(1) [OF ok Some claim]
  note owns = claim_owned_subset [OF out at]
  consider (take) "op = X_Pop i \<or> op = X_Open i" | (finish) "op = X_Finish i" | (leave) "op = X_Leave i"
    using op False by blast
  then show ?thesis
  proof cases
    case take
    have "vs' = vs \<and> lost' = lost \<and> (h' = h \<and> ms' = ms \<or> mb_reading m = None \<and> h' = h1
        \<and> (ms' = ms[i := Some m1] \<or> (\<exists>q. pos = Some q \<and> ms' = ms[i := Some (m1\<lparr>mb_reading := Some q\<rparr>)])))"
      using take assms(1) Some claim by (cases pos) (auto split: if_splits)
    then show ?thesis using owns by blast
  next
    case finish
    let ?m = "m\<lparr>mb_reading := None\<rparr>"
    have "vs' = vs \<and> lost' = lost \<and> h' = h \<and> (ms' = ms \<or> ms' = ms[i := Some ?m])"
      using finish assms(1) Some by (auto split: option.splits)
    moreover have "set (owned (ms[i := Some ?m]) h (length vs)) \<subseteq> set (owned ms h (length vs))"
      by (rule owned_update_subset [OF _ at]) (auto simp: member_batch_def split: option.splits)
    ultimately show ?thesis by blast
  next
    case leave
    obtain fin ds rest where dr: "drop_run dtor (map ((!) vs) (member_batch m)) = (fin, ds, rest)"
      by (metis prod.exhaust)
    have "vs' = vs \<and> h' = h \<and> (ms' = ms \<and> lost' = lost \<or> mb_reading m = None \<and> ms' = ms[i := None]
        \<and> set lost' \<subseteq> set lost \<union> set (member_batch m))"
      using leave assms(1) Some dr by (auto split: if_splits dest: in_set_dropD)
    moreover have "set (owned (ms[i := None]) h (length vs)) \<subseteq> set (owned ms h (length vs))"
      by (rule owned_update_subset [OF _ at]) simp
    moreover have "set (member_batch m) \<subseteq> set (owned ms h (length vs))"
      using at nth_mem [OF at(1)] by (force simp: owned_def)
    ultimately show ?thesis by blast
  qed
qed

text \<open>A call that keeps the handshake with the ring keeps it with the queue.\<close>

lemma unread_handshake:
  assumes rel: "spmc_rel (vs, h, ms, lost) (p, cs, r)" and rel': "spmc_rel (vs, h', ms', lost') (p', cs', r')"
    and cap: "sm_capacity r' = sm_capacity r" and ann: "spmc_announces r r'"
    and shrink: "set (owned ms' h' (length vs)) \<union> set lost' \<subseteq> set (owned ms h (length vs)) \<union> set lost"
    and q: "q = drop (first_owed (set (owned ms h (length vs)) \<union> set lost) (length vs)) vs"
  shows "\<exists>q'. spmc_unread (p', cs', r') q' \<and> suffix q' q \<and> spmc_bound (p', cs', r') = spmc_bound (p, cs, r)
    \<and> spmc_positions_left (p', cs', r') = spmc_positions_left (p, cs, r)
    \<and> (spmc_producer_woken (p, cs, r) \<longrightarrow> spmc_producer_woken (p', cs', r'))
    \<and> (spmc_producer_parked (p, cs, r) \<longrightarrow> spmc_producer_woken (p', cs', r')
        \<or> (spmc_producer_parked (p', cs', r') \<and> q' = q
           \<and> spmc_consumer_gone (p', cs', r') = spmc_consumer_gone (p, cs, r)))"
proof -
  let ?U = "set (owned ms h (length vs)) \<union> set lost" and ?U' = "set (owned ms' h' (length vs)) \<union> set lost'"
  let ?q' = "drop (first_owed ?U' (length vs)) vs"
  have ok: "spmc_ring_ok vs h (set (owned ms h (length vs))) (set lost) r"
    "spmc_ring_ok vs h' (set (owned ms' h' (length vs))) (set lost') r'" using rel rel' by simp_all
  have "suffix ?q' q" unfolding q by (rule first_owed_shrink [OF _ shrink]) simp
  moreover have "spmc_unread (p', cs', r') ?q'" unfolding spmc_unread_def using rel' by blast
  moreover have "?q' = q" if "sm_done r' = sm_done r"
    using owed_determined [OF ok that cap refl] q by simp
  moreover have "spmc_bound (p', cs', r') = spmc_bound (p, cs, r)" using cap by (simp add: spmc_bound_def)
  moreover have "spmc_positions_left (p', cs', r') = spmc_positions_left (p, cs, r)"
    using spmc_ring_okD(5) [OF ok(1)] spmc_ring_okD(5) [OF ok(2)] cap by (simp add: spmc_positions_left_def)
  ultimately show ?thesis
    using ann woke_facts [of "sm_producer_park r"]
    by (intro exI [of _ ?q']) (auto simp: spmc_announces_def spmc_producer_woken_def spmc_producer_parked_def
        spmc_consumer_gone_def)
qed

lemma consumer_step_frame:
  assumes "spmc_step dtor op (p, cs, r) = Inr (e, p', cs', r')"
    and "op \<in> {X_Pop i, X_Open i, X_Finish i, X_Clone}"
  shows "spmc_announces r r'" and "sm_consumer_park r' = sm_consumer_park r" and "sm_closed r' = sm_closed r"
    and "\<And>j. handle_at cs j \<noteq> None \<Longrightarrow> op \<noteq> X_Clone \<Longrightarrow> j \<noteq> i \<Longrightarrow> handle_at cs' j = handle_at cs j"
    and "\<And>j. handle_at cs j \<noteq> None \<Longrightarrow> op = X_Clone \<Longrightarrow> handle_at cs' j = handle_at cs j"
proof -
  have "spmc_announces r r' \<and> sm_consumer_park r' = sm_consumer_park r \<and> sm_closed r' = sm_closed r
    \<and> (\<forall>j. handle_at cs j \<noteq> None \<longrightarrow> (op = X_Clone \<or> j \<noteq> i) \<longrightarrow> handle_at cs' j = handle_at cs j)"
    (is "?frame cs' r'")
  proof -
    have idle: "?frame cs r" by (simp add: spmc_announces_refl)
    have upd: "handle_at (cs[i := x]) j = handle_at cs j" if "j \<noteq> i" for x j
      using that by (simp add: handle_at_def)
    consider (pop) "op = X_Pop i" | (opn) "op = X_Open i" | (finish) "op = X_Finish i" | (clone) "op = X_Clone"
      using assms(2) by blast
    then show ?thesis
    proof cases
      case pop
      then show ?thesis
        using assms(1) idle spmc_pop_announces [where r = r]
        by (auto simp: spmc_sys_pop_def seq_exec_eq_Inr upd split: option.splits prod.splits)
    next
      case opn
      have claim: "spmc_announces r r1 \<and> sm_consumer_park r1 = sm_consumer_park r \<and> sm_closed r1 = sm_closed r"
        if "spmc_pop_ref [] c r = (rd, c1, r1)" for c rd c1 r1
        using that claim_slot_frame [where r = r and c = c]
        by (fastforce simp: spmc_pop_ref_def spmc_announces_def split: prod.splits option.splits)
      then show ?thesis
        using assms(1) idle opn
        by (auto simp: spmc_sys_open_def seq_exec_eq_Inr upd split: option.splits prod.splits)
    next
      case finish
      then show ?thesis
        using assms(1) idle spmc_reader_drop_frame [where r = r]
        by (auto simp: spmc_sys_finish_def seq_exec_eq_Inr upd split: option.splits prod.splits)
    next
      case clone
      show ?thesis
      proof (cases "list_ex (\<lambda>c. c \<noteq> None) cs")
        case True
        obtain c r1 where cl: "spmc_clone r = (c, r1)" by (metis prod.exhaust)
        then have "r' = r1" "cs' = cs @ [Some (c, None)]"
          using assms(1) clone True by (auto simp: spmc_sys_clone_def)
        then show ?thesis
          using clone_facts [OF cl] by (auto simp: spmc_announces_def handle_at_def nth_append)
      next
        case False
        then show ?thesis using assms(1) clone idle by (auto simp: spmc_sys_clone_def)
      qed
    qed
  qed
  then show "spmc_announces r r'" and "sm_consumer_park r' = sm_consumer_park r" and "sm_closed r' = sm_closed r"
    and "\<And>j. handle_at cs j \<noteq> None \<Longrightarrow> op \<noteq> X_Clone \<Longrightarrow> j \<noteq> i \<Longrightarrow> handle_at cs' j = handle_at cs j"
    and "\<And>j. handle_at cs j \<noteq> None \<Longrightarrow> op = X_Clone \<Longrightarrow> handle_at cs' j = handle_at cs j"
    by blast+
qed

lemma consumer_step_follows:
  assumes rel: "spmc_rel (vs, h, ms, lost) (p, cs, r)" and op: "op \<in> {X_Pop i, X_Open i, X_Finish i, X_Clone, X_Leave i}"
    and st: "spmc_spec_step n dtor op (vs, h, ms, lost) = (e, outs, a')"
  shows "spmc_steps_to (vs, h, ms, lost) (p, cs, r) e a' (spmc_step dtor op (p, cs, r))"
proof (cases op)
  case (X_Push v)
  then show ?thesis using op by simp
next
  case (X_Pop j)
  then show ?thesis using sys_pop_follows [OF rel] st by simp
next
  case (X_Open j)
  then show ?thesis using sys_open_follows [OF rel] st by simp
next
  case (X_Finish j)
  then show ?thesis using sys_finish_follows [OF rel] st by simp
next
  case X_Clone
  then show ?thesis using sys_clone_follows [OF rel] st by simp
next
  case (X_Leave j)
  then show ?thesis using sys_leave_follows [OF rel] st by simp
qed

lemma peer_drain_sim:
  assumes rel: "spmc_rel (vs, h, ms, lost) (p, cs, r)"
  shows "\<exists>h' ms' cs' r'. spmc_peer_drain limit f st i (p, cs, r) = Inr (p, cs', r')
    \<and> spmc_rel (vs, h', ms', lost) (p, cs', r') \<and> sm_capacity r' = sm_capacity r
    \<and> set (owned ms' h' (length vs)) \<subseteq> set (owned ms h (length vs))
    \<and> spmc_announces r r' \<and> sm_consumer_park r' = sm_consumer_park r \<and> sm_closed r' = sm_closed r
    \<and> (\<forall>j. j \<noteq> i \<longrightarrow> handle_at cs' j = handle_at cs j \<and> member_at ms' j = member_at ms j) \<and> h \<le> h'"
proof -
  have all: "list_all2 (member_rel (sm_capacity r) h (length vs)) ms cs" using rel by simp
  from all show ?thesis
  proof (cases rule: handle_cases [where i = i])
    case gone
    then show ?thesis using rel by (auto simp: spmc_peer_drain_def spmc_announces_refl simp del: spmc_rel.simps)
  next
    case (reading m q k)
    then show ?thesis using rel by (auto simp: spmc_peer_drain_def spmc_announces_refl simp del: spmc_rel.simps)
  next
    case (idle m k)
    then obtain slot where k: "k = member_consumer slot m"
      using member_at_rel [OF all idle(1)] by (metis Pair_inject option.inject)
    obtain fin w' k1 st' h' m' r' where d:
      "spmc_drain_loop f limit drain_wake_new 0 st (member_consumer slot m) r
        = Inr (fin, w', k1, st', member_consumer slot m', r')"
      "spmc_rel (vs, h', ms[i := Some m'], lost) (p, cs[i := Some (member_consumer slot m', None)], r')"
      "sm_capacity r' = sm_capacity r"
      "set (owned (ms[i := Some m']) h' (length vs)) \<subseteq> set (owned ms h (length vs))" "h \<le> h'"
      using spmc_drain_loop_sim [OF rel idle(1,2), of slot f limit drain_wake_new 0 st] idle(3) k by blast
    have run: "spmc_drain_up_to limit f st k r = Inr (fin, k1, st', member_consumer slot m', drain_wake_drop w' r')"
      using d(1) k by (simp add: spmc_drain_up_to_def)
    have "spmc_rel (vs, h', ms[i := Some m'], lost)
        (p, cs[i := Some (member_consumer slot m', None)], drain_wake_drop w' r')"
      using d(2) by (simp add: drain_wake_drop_def)
    moreover have "sm_capacity (drain_wake_drop w' r') = sm_capacity r"
      using d(3) by (simp add: drain_wake_drop_def)
    moreover have "spmc_peer_drain limit f st i (p, cs, r)
        = Inr (p, cs[i := Some (member_consumer slot m', None)], drain_wake_drop w' r')"
      using idle(3) run by (simp add: spmc_peer_drain_def)
    moreover have "\<forall>j. j \<noteq> i \<longrightarrow> handle_at (cs[i := Some (member_consumer slot m', None)]) j = handle_at cs j
        \<and> member_at (ms[i := Some m']) j = member_at ms j"
      by (simp add: handle_at_def member_at_def)
    ultimately show ?thesis using d(4,5) spmc_drain_frame(1-3) [OF run] by blast
  qed
qed

lemma close_drop_announces:
  "fst (endpoint_release (sm_consumer_count r)) \<Longrightarrow>
    sm_producer_park (spmc_consumer_close_drop slot r) = woke (sm_producer_park r)"
  "\<not> fst (endpoint_release (sm_consumer_count r)) \<Longrightarrow>
    sm_producer_park (spmc_consumer_close_drop slot r) = sm_producer_park r
    \<and> sm_consumer_closed (spmc_consumer_close_drop slot r) = sm_consumer_closed r"
  by (auto simp: spmc_consumer_close_drop_def Let_def split: prod.splits)

lemma peer_leave_sim:
  assumes rel: "spmc_rel (vs, h, ms, lost) (p, cs, r)"
  shows "\<exists>ms' lost' cs' r'. spmc_peer_leave dtor i (p, cs, r) = Inr (p, cs', r')
    \<and> spmc_rel (vs, h, ms', lost') (p, cs', r') \<and> sm_capacity r' = sm_capacity r
    \<and> set (owned ms' h (length vs)) \<union> set lost' \<subseteq> set (owned ms h (length vs)) \<union> set lost
    \<and> spmc_announces r r' \<and> sm_consumer_park r' = sm_consumer_park r \<and> sm_closed r' = sm_closed r
    \<and> (\<forall>j. j \<noteq> i \<longrightarrow> handle_at cs' j = handle_at cs j \<and> member_at ms' j = member_at ms j)"
proof -
  have all: "list_all2 (member_rel (sm_capacity r) h (length vs)) ms cs" using rel by simp
  from all show ?thesis
  proof (cases rule: handle_cases [where i = i])
    case gone
    then show ?thesis using rel by (auto simp: spmc_peer_leave_def spmc_announces_refl simp del: spmc_rel.simps)
  next
    case (reading m q k)
    then show ?thesis using rel by (auto simp: spmc_peer_leave_def spmc_announces_refl simp del: spmc_rel.simps)
  next
    case (idle m k)
    show ?thesis
    proof (cases "batch_next k = batch_end k \<or> fst (endpoint_release (sm_consumer_count r))")
      case False
      then show ?thesis
        using rel idle(3) by (auto simp: spmc_peer_leave_def spmc_announces_refl simp del: spmc_rel.simps)
    next
      case True
      obtain slot where at: "i < length ms" "ms ! i = Some m" "k = member_consumer slot m"
        "member_ok h (length vs) m"
        using member_at_rel [OF all idle(1)] idle(3) by (metis Pair_inject option.inject)
      obtain fin ds rest where dr: "drop_run dtor (map ((!) vs) (member_batch m)) = (fin, ds, rest)"
        by (metis prod.exhaust)
      let ?lost = "lost @ (if fin = Panicked then drop (length ds - 1) (member_batch m) else [])"
      obtain r1 where r1: "spmc_consumer_drop dtor k r = Inr (fin, spmc_consumer_close_drop slot r1)"
        "spmc_rel (vs, h, ms[i := None], ?lost) (p, cs[i := None], spmc_consumer_close_drop slot r1)"
        "spmc_same r r1" "sm_producer_park r1 = sm_producer_park r"
        using spmc_consumer_drop_spec [OF rel at(1,2) idle(2) at(4) dr, of slot] unfolding at(3) by blast
      let ?r' = "spmc_consumer_close_drop slot r1"
      have run: "spmc_peer_leave dtor i (p, cs, r) = Inr (p, cs[i := None], ?r')"
        using idle(3) r1(1) True by (simp add: spmc_peer_leave_def spmc_peer_def spmc_sys_leave_def)
      have "spmc_announces r ?r'"
      proof (cases "fst (endpoint_release (sm_consumer_count r))")
        case True
        then show ?thesis using close_drop_announces(1) [of r1 slot] r1(3,4) by (simp add: spmc_announces_def spmc_same_def)
      next
        case False
        then have "batch_positions k = []" using True by (simp add: batch_positions_def)
        then have "?r' = spmc_consumer_close_drop (sc_park_slot k) r" using r1(1) by (simp add: spmc_consumer_drop_def)
        then show ?thesis using close_drop_announces(2) [OF False] by (simp add: spmc_announces_def)
      qed
      moreover have "spmc_spec_step 0 dtor (X_Leave i) (vs, h, ms, lost)
          = (X_Left i fin ds, map (Pair (Some i)) (take (length ds) (member_batch m))
              @ map (Pair None) (drop (length ds) (member_batch m)), vs, h, ms[i := None], ?lost)"
        using idle(1,2) dr by simp
      from spec_step_shrinks [OF this spmc_rel_members_ok [OF rel], of i]
      have "set (owned (ms[i := None]) h (length vs)) \<union> set ?lost \<subseteq> set (owned ms h (length vs)) \<union> set lost"
        by simp
      moreover have "sm_capacity ?r' = sm_capacity r" "sm_consumer_park ?r' = sm_consumer_park r"
        "sm_closed ?r' = sm_closed r" using r1(3) by (simp_all add: spmc_same_def)
      moreover have "\<forall>j. j \<noteq> i \<longrightarrow> handle_at (cs[i := None]) j = handle_at cs j
          \<and> member_at (ms[i := None]) j = member_at ms j"
        by (simp add: handle_at_def member_at_def)
      ultimately show ?thesis using run r1(2) by blast
    qed
  qed
qed

lemma spmc_consumer_call_law:
  assumes "spmc_consumer_call f" and unread: "spmc_unread s q"
  shows "\<exists>s' q'. f s = Inr s' \<and> spmc_unread s' q' \<and> suffix q' q \<and> spmc_bound s' = spmc_bound s
    \<and> spmc_positions_left s \<le> spmc_positions_left s' + 1
    \<and> (spmc_producer_woken s \<longrightarrow> spmc_producer_woken s')
    \<and> (spmc_producer_parked s \<longrightarrow> spmc_producer_woken s'
        \<or> (spmc_producer_parked s' \<and> q' = q \<and> spmc_consumer_gone s' = spmc_consumer_gone s))"
proof -
  obtain p cs r where s: "s = (p, cs, r)" by (metis prod.exhaust)
  obtain vs h ms lost where rel: "spmc_rel (vs, h, ms, lost) (p, cs, r)"
    and q: "q = drop (first_owed (set (owned ms h (length vs)) \<union> set lost) (length vs)) vs"
    using unread unfolding s spmc_unread_def by blast
  have "\<exists>h' ms' lost' p' cs' r'. f (p, cs, r) = Inr (p', cs', r') \<and> spmc_rel (vs, h', ms', lost') (p', cs', r')
    \<and> sm_capacity r' = sm_capacity r \<and> spmc_announces r r'
    \<and> set (owned ms' h' (length vs)) \<union> set lost' \<subseteq> set (owned ms h (length vs)) \<union> set lost"
    using assms(1)
  proof cases
    case (1 op i dtor)
    obtain e outs vs' h' ms' lost' where st: "spmc_spec_step 0 dtor op (vs, h, ms, lost) = (e, outs, vs', h', ms', lost')"
      by (metis prod.exhaust)
    have op: "op \<in> {X_Pop i, X_Open i, X_Finish i, X_Clone, X_Leave i}" using 1(2) by blast
    obtain p' cs' r' where run: "spmc_step dtor op (p, cs, r) = Inr (e, p', cs', r')"
      "spmc_rel (vs', h', ms', lost') (p', cs', r')" "sm_capacity r' = sm_capacity r"
      using consumer_step_follows [OF rel op st] unfolding spmc_steps_to_def snd_conv by blast
    note sh = spec_step_shrinks [OF st spmc_rel_members_ok [OF rel] op]
    have "f (p, cs, r) = Inr (p', cs', r')" using 1(1) run(1) by (simp add: spmc_peer_def)
    then show ?thesis using run(2,3) sh consumer_step_frame(1) [OF run(1) 1(2)] by blast
  next
    case (2 limit f' st i)
    show ?thesis using peer_drain_sim [OF rel, of limit f' st i] unfolding 2 by blast
  next
    case (3 dtor i)
    show ?thesis using peer_leave_sim [OF rel, of dtor i] unfolding 3 by blast
  qed
  then obtain h' ms' lost' p' cs' r' where f: "f (p, cs, r) = Inr (p', cs', r')"
    "spmc_rel (vs, h', ms', lost') (p', cs', r')" "sm_capacity r' = sm_capacity r" "spmc_announces r r'"
    "set (owned ms' h' (length vs)) \<union> set lost' \<subseteq> set (owned ms h (length vs)) \<union> set lost" by blast
  from unread_handshake [OF rel f(2-5) q] show ?thesis unfolding s using f(1) by fastforce
qed

lemma spmc_try_push_law:
  assumes unread: "spmc_unread s q"
  shows "length q < spmc_bound s \<Longrightarrow> 1 \<le> spmc_positions_left s \<Longrightarrow>
      \<exists>s'. spmc_try_push v s = Inr (Push_Ok, s') \<and> spmc_unread s' (q @ [v]) \<and> spmc_bound s' = spmc_bound s
        \<and> spmc_positions_left s \<le> spmc_positions_left s' + 1"
    and "length q = spmc_bound s \<Longrightarrow> spmc_try_push v s = Inr (Push_Err v, s)"
proof -
  obtain p cs r where s: "s = (p, cs, r)" by (metis prod.exhaust)
  obtain vs h ms lost where rel: "spmc_rel (vs, h, ms, lost) (p, cs, r)"
    and q: "q = drop (first_owed (set (owned ms h (length vs)) \<union> set lost) (length vs)) vs"
    using unread unfolding s spmc_unread_def by blast
  let ?U = "set (owned ms h (length vs)) \<union> set lost"
  note facts = unread_facts [OF rel q]
  have b: "spmc_bound (p, cs, r) = slots (sm_capacity r)" by (simp add: spmc_bound_def)
  have ok: "spmc_ring_ok vs h (set (owned ms h (length vs))) (set lost) r" "write_pos p = of_nat (length vs)"
    using rel by simp_all
  show "spmc_try_push v s = Inr (Push_Err v, s)" if "length q = spmc_bound s"
  proof -
    have "pos_blocked (slots (sm_capacity r)) ?U (length vs)" using that facts(2) b s by simp
    then show ?thesis using spmc_try_claim_spec(1) [OF ok] by (simp add: s spmc_try_push_def spmc_push_def)
  qed
  assume room: "length q < spmc_bound s" and left: "1 \<le> spmc_positions_left s"
  have free: "\<not> pos_blocked (slots (sm_capacity r)) ?U (length vs)" using room facts(2) b s by simp
  have small: "Suc (length vs) + slots (sm_capacity r) < 2 ^ 64" using left facts(3) b s by simp
  have st: "spmc_spec_step (slots (sm_capacity r)) (\<lambda>_. Returned) (X_Push v) (vs, h, ms, lost)
      = (X_Accepted v, [], vs @ [v], h, ms, lost)" using free by simp
  obtain p' cs' r' where run: "spmc_sys_push v (p, cs, r) = Inr (X_Accepted v, p', cs', r')"
    "spmc_rel (vs @ [v], h, ms, lost) (p', cs', r')" "sm_capacity r' = sm_capacity r"
    using sys_push_follows [OF rel small st] unfolding spmc_steps_to_def snd_conv by blast
  obtain res p1 r1 where "spmc_push v p r = Inr (res, p1, r1)"
    using run(1) by (auto simp: spmc_sys_push_def seq_exec_eq_Inr)
  then have "spmc_try_push v (p, cs, r) = Inr (Push_Ok, p', cs', r')"
    using run(1) by (cases res) (auto simp: spmc_sys_push_def spmc_try_push_def)
  moreover have "h \<le> length vs" using spmc_ring_okD(6) [OF ok(1)] .
  then have o: "set (owned ms h (length (vs @ [v]))) = insert (length vs) (set (owned ms h (length vs)))"
    by (auto simp: owned_def)
  have "first_owed (set (owned ms h (length (vs @ [v]))) \<union> set lost) (length (vs @ [v])) = first_owed ?U (length vs)"
    using first_owed_push [of ?U "length vs"] spmc_ring_okD(9) [OF ok(1)] unfolding o by simp
  then have q': "q @ [v] = drop (first_owed (set (owned ms h (length (vs @ [v]))) \<union> set lost) (length (vs @ [v]))) (vs @ [v])"
    using first_owed_le [of ?U "length vs"] q by simp
  then have "spmc_unread (p', cs', r') (q @ [v])" unfolding spmc_unread_def using run(2) by blast
  moreover have "spmc_bound (p', cs', r') = spmc_bound (p, cs, r)" using run(3) by (simp add: spmc_bound_def)
  moreover have "spmc_positions_left (p, cs, r) \<le> spmc_positions_left (p', cs', r') + 1"
    using facts(3) unread_facts(3) [OF run(2) q'] calculation by simp
  ultimately show "\<exists>s'. spmc_try_push v s = Inr (Push_Ok, s') \<and> spmc_unread s' (q @ [v]) \<and> spmc_bound s' = spmc_bound s
        \<and> spmc_positions_left s \<le> spmc_positions_left s' + 1" unfolding s by blast
qed

interpretation xp: blocking_producer spmc_unread spmc_positions_left spmc_bound 1 spmc_try_push "\<lambda>q q'. suffix q' q"
  "\<lambda>b. b" spmc_consumer_gone spmc_producer_parked spmc_producer_woken
  "spmc_on_ring (spmc_arm_producer t)" "spmc_on_ring spmc_disarm_producer" spmc_consumer_call
  for t
proof (unfold_locales, goal_cases)
  case (1 s q)
  then obtain vs h ms lost where "spmc_rel (vs, h, ms, lost) s"
    "q = drop (first_owed (set (owned ms h (length vs)) \<union> set lost) (length vs)) vs"
    unfolding spmc_unread_def by blast
  then show ?case by (rule unread_facts(1))
next
  case (2 s q v)
  then show ?case by (intro spmc_try_push_law(1))
next
  case (3 s q v)
  then show ?case using spmc_try_push_law(2) [OF 3] by auto
next
  case (4 q)
  show ?case by simp
next
  case (5 q q1 q2)
  then show ?case by (meson suffix_order.trans)
next
  case (6 s q v res s')
  then show ?case using spmc_try_push_law(2) [of s q v] by auto
next
  case (7 s q)
  obtain p cs r where s: "s = (p, cs, r)" by (metis prod.exhaust)
  have "spmc_rel a (p, cs, spmc_arm_producer t r) = spmc_rel a (p, cs, r)" for a
    using spmc_ring_ok_cong [of "spmc_arm_producer t r" r] by (cases a) (simp add: spmc_arm_producer_def)
  then show ?case
    using 7 unfolding s
    by (simp add: spmc_on_ring_def spmc_unread_def spmc_bound_def spmc_positions_left_def spmc_consumer_gone_def
        spmc_producer_parked_def spmc_producer_woken_def spmc_arm_producer_def sp_arm_def tp_arm_def tp_is_armed_def)
next
  case (8 s q)
  obtain p cs r where s: "s = (p, cs, r)" by (metis prod.exhaust)
  have "spmc_rel a (p, cs, spmc_disarm_producer r) = spmc_rel a (p, cs, r)" for a
    using spmc_ring_ok_cong [of "spmc_disarm_producer r" r] by (cases a) (simp add: spmc_disarm_producer_def)
  then show ?case
    using 8 unfolding s
    by (simp add: spmc_on_ring_def spmc_unread_def spmc_bound_def spmc_positions_left_def spmc_consumer_gone_def
        spmc_disarm_producer_def)
next
  case (9 f s q)
  then show ?case by (intro spmc_consumer_call_law)
qed

text \<open>
  C15. \<open>push_block\<close> of the spmc ring, against any schedule of the consumers' calls (pops,
  readers, drains, clones, and departures with an empty batch or of the last consumer)
  and of spurious returns: it never faults; it accepts its value exactly once, behind
  what was in the ring, or hands it back, and that only when the last consumer is
  gone; and it is found in its park only if it has been unparked already, or the ring
  is full, a consumer is left and the producer's handle is armed.
\<close>

theorem spmc_push_block_contract:
  assumes "spmc_unread s q" and "permitted spmc_consumer_call ps" and "length ps < spmc_positions_left s"
  shows "\<exists>out q'. spmc_push_block t ps v s = Inr out \<and> suffix q' q \<and>
    (case out of
       Done Push_Ok s' \<Rightarrow> spmc_unread s' (q' @ [v]) \<and> spmc_bound s' = spmc_bound s
     | Done (Push_Err v') s' \<Rightarrow> v' = v \<and> spmc_unread s' q' \<and> spmc_bound s' = spmc_bound s \<and> spmc_consumer_gone s'
     | In_Park s' \<Rightarrow> spmc_unread s' q' \<and> spmc_bound s' = spmc_bound s \<and>
         (spmc_producer_woken s'
          \<or> (spmc_producer_parked s' \<and> length q' = spmc_bound s \<and> \<not> spmc_consumer_gone s')))"
proof -
  have "xp.ready ps s" using assms(2,3) unfolding xp.ready_def by simp
  from xp.push_block_loop_law [OF this assms(1), of t backoff_new v] show ?thesis
    unfolding spmc_push_block_def push_block_def spmc_producer_ops_def xp.push_outcome_def by blast
qed

lemma spmc_fresh_unread:
  "\<exists>r :: 'a spmc_ring. spmc_new cap2 = Inr r \<and> spmc_rel ([], 0, [Some member_new], []) (spmc_start r)
    \<and> spmc_unread (spmc_start r) [] \<and> spmc_positions_left (spmc_start r) = 2 ^ 64 - 3"
proof -
  obtain r :: "'a spmc_ring" where r: "spmc_new cap2 = Inr r" "spmc_rel ([], 0, [Some member_new], []) (spmc_start r)"
    "sm_capacity (snd (snd (spmc_start r))) = cap2"
    using spmc_start_rel [OF cap2_wf, where 'a = 'a] by (auto simp: slots_cap2)
  have "spmc_bound (spmc_start r) = 2" using r(3) by (auto simp: spmc_bound_def slots_cap2 split: prod.splits)
  moreover have "spmc_unread (spmc_start r) []" unfolding spmc_unread_def using r(2) by fastforce
  ultimately show ?thesis using r unread_facts(3) [OF r(2) refl] by auto
qed

theorem spmc_push_block_contract_witness:
  "\<exists>s out q'. spmc_unread s ([] :: nat list)
    \<and> spmc_push_block 1 [Turn, Peer (spmc_peer (\<lambda>_. Returned) (X_Pop 0))] 7 s = Inr out \<and> suffix q' [] \<and>
    (case out of
       Done Push_Ok s' \<Rightarrow> spmc_unread s' (q' @ [7]) \<and> spmc_bound s' = spmc_bound s
     | Done (Push_Err v') s' \<Rightarrow> v' = 7 \<and> spmc_unread s' q' \<and> spmc_bound s' = spmc_bound s \<and> spmc_consumer_gone s'
     | In_Park s' \<Rightarrow> spmc_unread s' q' \<and> spmc_bound s' = spmc_bound s \<and>
         (spmc_producer_woken s'
          \<or> (spmc_producer_parked s' \<and> length q' = spmc_bound s \<and> \<not> spmc_consumer_gone s')))"
proof -
  obtain r :: "nat spmc_ring" where r: "spmc_unread (spmc_start r) []" "spmc_positions_left (spmc_start r) = 2 ^ 64 - 3"
    using spmc_fresh_unread by blast
  let ?ps = "[Turn, Peer (spmc_peer (\<lambda>_ :: nat. Returned) (X_Pop 0))]"
  have "permitted spmc_consumer_call ?ps" by (simp add: spmc_consumer_call.intros(1) [of _ 0])
  moreover have "length ?ps < spmc_positions_left (spmc_start r)" using r(2) by simp
  ultimately show ?thesis using spmc_push_block_contract [OF r(1), of ?ps 1 7] r(1) by blast
qed

section \<open>A departure that strands the producer\<close>

text \<open>The ring counts the live consumers.\<close>

definition live_handles :: "(spmc_consumer \<times> spmc_slot_reader option) option list \<Rightarrow> nat" where
  "live_handles cs = length (filter (\<lambda>c. c \<noteq> None) cs)"

definition spmc_counted :: "'a spmc \<Rightarrow> bool" where
  "spmc_counted s = (case s of (_, cs, r) \<Rightarrow> live (sm_consumer_count r) = of_nat (live_handles cs))"

lemma live_handles_update:
  assumes "handle_at cs i \<noteq> None" and "x \<noteq> None"
  shows "live_handles (cs[i := x]) = live_handles cs"
proof -
  have "i < length cs" "cs ! i \<noteq> None" using assms(1) by (auto simp: handle_at_def split: if_splits)
  then have "length (filter (\<lambda>c. c \<noteq> None) (cs[i := x])) = length (filter (\<lambda>c. c \<noteq> None) cs)"
  proof (induction cs arbitrary: i)
    case (Cons c cs)
    then show ?case using assms(2) by (cases i) auto
  qed simp
  then show ?thesis by (simp only: live_handles_def)
qed

lemma spmc_counted_start: "spmc_new c = Inr r \<Longrightarrow> spmc_counted (spmc_start r)"
proof -
  assume new: "spmc_new c = Inr r"
  have "sm_consumer_count r = endpoint_count_new"
    using new by (auto simp: spmc_new_def seq_exec_eq_Inr)
  moreover obtain slot reg where "registry_lease (sm_consumer_slots r) = (slot, reg)" by (metis prod.exhaust)
  ultimately show "spmc_counted (spmc_start r)"
    by (simp add: spmc_start_def spmc_split_def spmc_consumer_new_def spmc_counted_def live_handles_def
        endpoint_count_new_def)
qed

lemma spmc_push_frame:
  assumes "spmc_push v p r = Inr (res, p', r')"
  shows "sm_consumer_count r' = sm_consumer_count r" "sm_producer_park r' = sm_producer_park r"
    "sm_consumer_closed r' = sm_consumer_closed r" "sm_closed r' = sm_closed r"
    "sm_consumer_park r' = (if res = Push_Ok then snd (ws_wake_one (sm_consumer_park r)) else sm_consumer_park r)"
proof -
  obtain claimed where cl: "spmc_try_claim p r = Inr claimed"
    using assms by (auto simp: spmc_push_def seq_exec_eq_Inr)
  have "sm_consumer_count r' = sm_consumer_count r \<and> sm_producer_park r' = sm_producer_park r
    \<and> sm_consumer_closed r' = sm_consumer_closed r \<and> sm_closed r' = sm_closed r
    \<and> sm_consumer_park r' = (if res = Push_Ok then snd (ws_wake_one (sm_consumer_park r)) else sm_consumer_park r)"
  proof (cases claimed)
    case None
    then show ?thesis using assms cl by (auto simp: spmc_push_def)
  next
    case (Some x)
    obtain i pos where x: "x = (i, pos)" by (cases x)
    obtain cells where w: "cell_write (sm_data r) i v = Inr cells"
      using assms cl Some x by (auto simp: spmc_push_def seq_exec_eq_Inr)
    have "res = Push_Ok" "r' = spmc_wake_one (spmc_store_tail (pos + 1) (r\<lparr>sm_data := cells\<rparr>))"
      using assms cl Some x w by (simp_all add: spmc_push_def Let_def)
    then show ?thesis by (simp add: spmc_store_tail_def spmc_wake_one_def case_prod_beta)
  qed
  then show "sm_consumer_count r' = sm_consumer_count r" "sm_producer_park r' = sm_producer_park r"
    "sm_consumer_closed r' = sm_consumer_closed r" "sm_closed r' = sm_closed r"
    "sm_consumer_park r' = (if res = Push_Ok then snd (ws_wake_one (sm_consumer_park r)) else sm_consumer_park r)"
    by blast+
qed

lemma spmc_counted_step:
  assumes "spmc_step dtor op (p, cs, r) = Inr (e, s')" and "spmc_counted (p, cs, r)"
    and "op \<in> {X_Push v, X_Pop i, X_Open i, X_Clone}"
  shows "spmc_counted s'"
proof -
  have pop: "sm_consumer_count r1 = sm_consumer_count r" if "spmc_pop [] c r = Inr (res, c1, r1)" for c res c1 r1
    using that claim_slot_frame(7) [where r = r and c = c]
    by (auto simp: spmc_pop_def spmc_bind_pos_def seq_exec_eq_Inr dest: take_release_frame(5) split: option.splits prod.splits)
  have opn: "sm_consumer_count r1 = sm_consumer_count r" if "spmc_pop_ref [] c r = (res, c1, r1)" for c res c1 r1
    using that claim_slot_frame(7) [where r = r and c = c]
    by (auto simp: spmc_pop_ref_def split: option.splits prod.splits)
  consider "op = X_Push v" | "op = X_Pop i" | "op = X_Open i" | "op = X_Clone" using assms(3) by blast
  then show ?thesis
  proof cases
    case 1
    then show ?thesis
      using assms(1,2) spmc_push_frame(1) [where r = r] by (auto simp: spmc_sys_push_def seq_exec_eq_Inr spmc_counted_def)
  next
    case 2
    then show ?thesis
      using assms(1,2) pop live_handles_update [of cs i]
      by (auto simp: spmc_sys_pop_def seq_exec_eq_Inr spmc_counted_def split: option.splits)
  next
    case 3
    then show ?thesis
      using assms(1,2) opn live_handles_update [of cs i]
      by (auto simp: spmc_sys_open_def seq_exec_eq_Inr spmc_counted_def split: option.splits prod.splits)
  next
    case 4
    obtain c r1 where cl: "spmc_clone r = (c, r1)" by (metis prod.exhaust)
    show ?thesis
      using 4 assms(1,2) cl clone_facts(11) [OF cl]
      by (auto simp: spmc_sys_clone_def spmc_counted_def live_handles_def endpoint_register_def split: if_splits)
  qed
qed

text \<open>With nothing owned by anybody no call takes a value, and no call wakes the producer.\<close>

fun event_takes :: "'a spmc_event \<Rightarrow> bool" where
  "event_takes (X_Popped i v) = True"
| "event_takes (X_Opened i v) = True"
| "event_takes (X_Finished i fin) = True"
| "event_takes e = False"

lemma quiet_park:
  assumes "spmc_step dtor op (p, cs, r) = Inr (e, p', cs', r')"
    and "op \<in> {X_Pop i, X_Open i, X_Finish i, X_Clone}" and "\<not> event_takes e"
  shows "sm_producer_park r' = sm_producer_park r"
proof -
  have pop: "sm_producer_park r1 = sm_producer_park r" if "spmc_pop [] c r = Inr (None, c1, r1)" for c c1 r1
    using that claim_slot_frame(1) [where r = r and c = c]
    by (auto simp: spmc_pop_def spmc_bind_pos_def seq_exec_eq_Inr split: option.splits prod.splits)
  have opn: "sm_producer_park r1 = sm_producer_park r" if "spmc_pop_ref [] c r = (None, c1, r1)" for c c1 r1
    using that claim_slot_frame(1) [where r = r and c = c]
    by (auto simp: spmc_pop_ref_def split: option.splits prod.splits)
  consider "op = X_Pop i" | "op = X_Open i" | "op = X_Finish i" | "op = X_Clone" using assms(2) by blast
  then show ?thesis
  proof cases
    case 1
    then show ?thesis
      using assms(1,3) pop by (auto simp: spmc_sys_pop_def seq_exec_eq_Inr split: option.splits)
  next
    case 2
    then show ?thesis
      using assms(1,3) opn by (auto simp: spmc_sys_open_def seq_exec_eq_Inr split: option.splits prod.splits)
  next
    case 3
    then show ?thesis
      using assms(1,3) by (auto simp: spmc_sys_finish_def seq_exec_eq_Inr split: option.splits)
  next
    case 4
    obtain c r1 where cl: "spmc_clone r = (c, r1)" by (metis prod.exhaust)
    show ?thesis
      using 4 assms(1) cl clone_facts(7) [OF cl] by (auto simp: spmc_sys_clone_def split: if_splits)
  qed
qed

lemma nothing_to_take:
  assumes "spmc_spec_step n dtor op (vs, h, ms, lost) = (e, outs, a')" and ok: "members_ok (vs, h, ms, lost)"
    and op: "op \<in> {X_Pop i, X_Open i, X_Finish i, X_Clone}" and none: "owned ms h (length vs) = []"
  shows "\<not> event_takes e"
proof (cases "member_at ms i")
  case None
  then show ?thesis using assms(1) op by (auto split: if_splits)
next
  case (Some m)
  then have at: "i < length ms" "ms ! i = Some m" by (auto simp: member_at_def split: if_splits)
  have "set (held_by (Some m)) \<subseteq> set (owned ms h (length vs))"
    using nth_mem [OF at(1)] at(2) by (force simp: owned_def)
  then have reading: "mb_reading m = None" using none by (cases "mb_reading m") auto
  obtain pos h1 m1 where claim: "member_claim (length vs) h m = (pos, h1, m1)" by (metis prod.exhaust)
  have "pos = None"
    using claim_keeps_owned [OF member_claim_outcome(1) [OF ok Some claim] at reading] none by (auto split: option.splits)
  then show ?thesis using assms(1) op Some reading claim by (auto split: if_splits)
qed

lemma quiet_run:
  assumes "spmc_rel (vs, h, ms, []) (p, cs, r)" and "owned ms h (length vs) = []"
    and "\<forall>op \<in> set ops. \<exists>i. op \<in> {X_Pop i, X_Open i, X_Finish i, X_Clone}"
  shows "\<exists>es p' cs' r'. spmc_run dtor ops (p, cs, r) = Inr (es, p', cs', r')
    \<and> sm_producer_park r' = sm_producer_park r"
  using assms
proof (induction ops arbitrary: h ms p cs r)
  case Nil
  then show ?case by simp
next
  case (Cons op ops)
  obtain i where op: "op \<in> {X_Pop i, X_Open i, X_Finish i, X_Clone}" using Cons.prems(3) by auto
  then have op': "op \<in> {X_Pop i, X_Open i, X_Finish i, X_Clone, X_Leave i}" by blast
  obtain e outs vs' h' ms' lost' where st: "spmc_spec_step 0 dtor op (vs, h, ms, []) = (e, outs, vs', h', ms', lost')"
    by (metis prod.exhaust)
  note ok = spmc_rel_members_ok [OF Cons.prems(1)]
  obtain p' cs' r' where run: "spmc_step dtor op (p, cs, r) = Inr (e, p', cs', r')"
    "spmc_rel (vs', h', ms', lost') (p', cs', r')"
    using consumer_step_follows [OF Cons.prems(1) op' st] unfolding spmc_steps_to_def by blast
  have "vs' = vs" "owned ms' h' (length vs) = []" "lost' = []"
    using spec_step_shrinks [OF st ok op'] Cons.prems(2) by simp_all
  then obtain es p2 cs2 r2 where "spmc_run dtor ops (p', cs', r') = Inr (es, p2, cs2, r2)"
    "sm_producer_park r2 = sm_producer_park r'"
    using Cons.IH [of h' ms' p' cs' r'] run(2) Cons.prems(3) by auto
  moreover have "sm_producer_park r' = sm_producer_park r"
    using quiet_park [OF run(1) op nothing_to_take [OF st ok op Cons.prems(2)]] .
  ultimately show ?case using run(1) by simp
qed

lemma not_last_handle:
  assumes "spmc_counted (p, cs, r)" and "handle_at cs i \<noteq> None" "handle_at cs j \<noteq> None" "i \<noteq> j"
    and "length cs < 2 ^ 64"
  shows "\<not> fst (endpoint_release (sm_consumer_count r))"
proof -
  let ?live = "filter (\<lambda>k. cs ! k \<noteq> None) [0..<length cs]"
  have "{i, j} \<subseteq> set ?live" using assms(2,3) by (auto simp: handle_at_def split: if_splits)
  then have "card {i, j} \<le> card (set ?live)" by (intro card_mono) simp_all
  then have "2 \<le> card (set ?live)" using assms(4) by simp
  also have "card (set ?live) = length ?live" by (intro distinct_card) simp
  also have "length ?live = live_handles cs"
    unfolding live_handles_def by (metis (no_types, lifting) filter_map length_map map_nth comp_apply filter_cong)
  finally have two: "2 \<le> live_handles cs" .
  have "live_handles cs \<le> length cs" by (simp add: live_handles_def)
  then have "(of_nat (live_handles cs) :: usize) \<noteq> of_nat 1"
    using of_nat_usize_simps(1) [of "live_handles cs" 1] two assms(5) by simp
  then show ?thesis using assms(1) by (simp add: spmc_counted_def endpoint_release_def)
qed

text \<open>
  C21. A lost wake, where destructors return. The producer is parked on a full ring whose
  next slot is held by the batch of consumer \<open>i\<close>, and every position outside that batch has
  been given back. Consumer \<open>i\<close> is dropped while another consumer lives: its positions are
  handed back, a push would now succeed, but nobody unparks the producer; and through any
  pops, readers and clones of the remaining consumers it stays parked: they find nothing
  to take, and only a taken value wakes it. (The last consumer to leave does wake it.)
\<close>

theorem spmc_departure_strands_producer:
  assumes rel: "spmc_rel (vs, h, ms, []) (p, cs, r)" and "spmc_counted (p, cs, r)" and "length cs < 2 ^ 64"
    and at: "member_at ms i = Some m" "mb_reading m = None" and other: "i \<noteq> j" "handle_at cs j \<noteq> None"
    and waiting: "spmc_producer_parked (p, cs, r)" "\<not> spmc_producer_woken (p, cs, r)"
    and rest: "owned (ms[i := None]) h (length vs) = []"
    and blocked: "pos_blocked (slots (sm_capacity r)) (set (member_batch m)) (length vs)"
    and ops: "\<forall>op \<in> set ops. \<exists>k. op \<in> {X_Pop k, X_Open k, X_Finish k, X_Clone}"
  shows "\<exists>cs' r' es s''. spmc_peer (\<lambda>_. Returned) (X_Leave i) (p, cs, r) = Inr (p, cs', r')
    \<and> spmc_has_space p r = Inr False \<and> spmc_has_space p r' = Inr True
    \<and> spmc_run (\<lambda>_. Returned) ops (p, cs', r') = Inr (es, s'')
    \<and> spmc_producer_parked s'' \<and> \<not> spmc_producer_woken s''"
proof -
  have all: "list_all2 (member_rel (sm_capacity r) h (length vs)) ms cs"
    and ok: "spmc_ring_ok vs h (set (owned ms h (length vs))) {} r" "write_pos p = of_nat (length vs)" using rel by simp_all
  obtain slot where mem: "i < length ms" "ms ! i = Some m"
    "handle_at cs i = Some (member_consumer slot m, None)" "member_ok h (length vs) m"
    using member_at_rel [OF all at(1)] at(2) by (metis option.map_disc_iff)
  have dr: "drop_run (\<lambda>_. Returned) q = (Returned, q, [])" for q :: "'a list" by (induction q) simp_all
  obtain r1 where r1: "spmc_consumer_drop (\<lambda>_. Returned) (member_consumer slot m) r
      = Inr (Returned, spmc_consumer_close_drop slot r1)"
    "spmc_rel (vs, h, ms[i := None], []) (p, cs[i := None], spmc_consumer_close_drop slot r1)"
    "spmc_same r r1" "sm_producer_park r1 = sm_producer_park r"
    using spmc_consumer_drop_spec [OF rel mem(1,2) at(2) mem(4) dr, of slot] by auto
  let ?r' = "spmc_consumer_close_drop slot r1"
  have run: "spmc_peer (\<lambda>_. Returned) (X_Leave i) (p, cs, r) = Inr (p, cs[i := None], ?r')"
    using mem(3) r1(1) by (simp add: spmc_peer_def spmc_sys_leave_def)
  have "\<not> fst (endpoint_release (sm_consumer_count r1))"
    using not_last_handle [OF assms(2) _ other(2,1) assms(3)] mem(3) r1(3) by (simp add: spmc_same_def)
  then have park: "sm_producer_park ?r' = sm_producer_park r" using close_drop_announces(2) [of r1 slot] r1(4) by simp
  have "set (member_batch m) \<subseteq> set (owned ms h (length vs))"
    using mem(2) nth_mem [OF mem(1)] by (force simp: owned_def)
  then have "pos_blocked (slots (sm_capacity r)) (set (owned ms h (length vs)) \<union> {}) (length vs)"
    using blocked by (auto simp: pos_blocked_def)
  then have before: "spmc_has_space p r = Inr False" using spmc_try_claim_spec(2) [OF ok] by simp
  have ok': "spmc_ring_ok vs h {} {} ?r'" using r1(2) rest by simp
  then have after: "spmc_has_space p ?r' = Inr True"
    using spmc_try_claim_spec(2) [OF ok' ok(2)] by (simp add: pos_blocked_def)
  obtain es p2 cs2 r2 where "spmc_run (\<lambda>_. Returned) ops (p, cs[i := None], ?r') = Inr (es, p2, cs2, r2)"
    "sm_producer_park r2 = sm_producer_park ?r'"
    using quiet_run [OF r1(2) rest ops] by blast
  then show ?thesis
    using run before after waiting park
    by (intro exI [of _ "cs[i := None]"] exI [of _ ?r'] exI [of _ es] exI [of _ "(p2, cs2, r2)"])
      (simp add: spmc_producer_parked_def spmc_producer_woken_def)
qed

lemma spmc_counted_run:
  "spmc_run dtor ops s = Inr (es, s') \<Longrightarrow> spmc_counted s \<Longrightarrow>
    \<forall>op \<in> set ops. \<exists>v i. op \<in> {X_Push v, X_Pop i, X_Open i, X_Clone} \<Longrightarrow> spmc_counted s'"
proof (induction ops arbitrary: s es)
  case (Cons op ops)
  obtain p cs r where s: "s = (p, cs, r)" by (metis prod.exhaust)
  obtain e s1 es1 where one: "spmc_step dtor op s = Inr (e, s1)" "spmc_run dtor ops s1 = Inr (es1, s')"
    using Cons.prems(1) by (auto simp: seq_exec_eq_Inr)
  obtain v i where op: "op \<in> {X_Push v, X_Pop i, X_Open i, X_Clone}" using Cons.prems(3) by (meson list.set_intros(1))
  have "spmc_counted s1" by (rule spmc_counted_step [OF one(1) [unfolded s] Cons.prems(2) [unfolded s] op])
  moreover have "\<forall>op \<in> set ops. \<exists>v i. op \<in> {X_Push v, X_Pop i, X_Open i, X_Clone}"
    using Cons.prems(3) by (meson list.set_intros(2))
  ultimately show ?case using Cons.IH [OF one(2)] by blast
qed simp

lemma spmc_arm_rel: "spmc_rel a (p, cs, spmc_arm_producer t r) = spmc_rel a (p, cs, r)"
  using spmc_ring_ok_cong [of "spmc_arm_producer t r" r] by (cases a) (simp add: spmc_arm_producer_def)

theorem spmc_departure_strands_producer_witness:
  "\<exists>p cs (r :: nat spmc_ring) cs' r' es s''.
    spmc_peer (\<lambda>_. Returned) (X_Leave 0) (p, cs, r) = Inr (p, cs', r')
    \<and> spmc_has_space p r = Inr False \<and> spmc_has_space p r' = Inr True
    \<and> spmc_run (\<lambda>_. Returned) [X_Pop 1, X_Pop 1] (p, cs', r') = Inr (es, s'')
    \<and> spmc_producer_parked s'' \<and> \<not> spmc_producer_woken s''"
proof -
  let ?ops = "[X_Clone, X_Push 5, X_Push 6, X_Pop 0, X_Push (7 :: nat), X_Pop 1]"
  let ?m0 = "\<lparr>mb_seen = 2, mb_next = 1, mb_end = 2, mb_reading = None\<rparr>"
  let ?m1 = "\<lparr>mb_seen = 3, mb_next = 3, mb_end = 3, mb_reading = None\<rparr>"
  obtain r0 :: "nat spmc_ring" where r0: "spmc_new cap2 = Inr r0" "spmc_rel ([], 0, [Some member_new], []) (spmc_start r0)"
    "sm_capacity (snd (snd (spmc_start r0))) = cap2"
    using spmc_start_rel [OF cap2_wf, where 'a = nat] by (auto simp: slots_cap2)
  obtain es1 outs where "spmc_spec_run 2 (\<lambda>_. Returned) ?ops ([], 0, [Some member_new], [])
      = (es1, outs, [5, 6, 7], 3, [Some ?m0, Some ?m1], [])"
    by (simp add: owned_def member_new_def member_at_def member_claim_def member_batch_def pos_blocked_def Let_def
        nth_append)
  moreover have short: "length ([] :: nat list) + length ?ops + 2 < 2 ^ 64" by simp
  ultimately obtain s1 where s1: "spmc_run (\<lambda>_. Returned) ?ops (spmc_start r0) = Inr (es1, s1)"
    "spmc_rel ([5, 6, 7], 3, [Some ?m0, Some ?m1], []) s1" "sm_capacity (snd (snd s1)) = cap2"
    using spmc_run_follows [OF r0(2), of ?ops "\<lambda>_. Returned"] r0(3)
    by (metis (no_types, lifting) slots_cap2 short)
  obtain p cs r1 where s: "s1 = (p, cs, r1)" by (metis prod.exhaust)
  let ?r = "spmc_arm_producer 1 r1"
  have counted: "spmc_counted s1" by (rule spmc_counted_run [OF s1(1) spmc_counted_start [OF r0(1)]]) auto
  have len: "length cs = 2" using s1(2) s by (auto dest: list_all2_lengthD)
  have other: "handle_at cs 1 \<noteq> None"
    using s1(2) s by (auto simp: handle_at_def list_all2_Cons1 member_rel_Some1)
  have rel: "spmc_rel ([5, 6, 7], 3, [Some ?m0, Some ?m1], []) (p, cs, ?r)" using s1(2) spmc_arm_rel s by blast
  have cnt: "spmc_counted (p, cs, ?r)" using counted s by (simp add: spmc_counted_def spmc_arm_producer_def)
  have parked: "spmc_producer_parked (p, cs, ?r)" "\<not> spmc_producer_woken (p, cs, ?r)"
    by (simp_all add: spmc_producer_parked_def spmc_producer_woken_def spmc_arm_producer_def sp_arm_def tp_arm_def tp_is_armed_def)
  have full: "pos_blocked (slots (sm_capacity ?r)) (set (member_batch ?m0)) (length [5, 6, 7 :: nat])"
    using s1(3) s by (simp add: spmc_arm_producer_def slots_cap2 pos_blocked_def member_batch_def)
  have small: "length cs < 2 ^ 64" and at: "member_at [Some ?m0, Some ?m1] 0 = Some ?m0" "mb_reading ?m0 = None"
    and rest: "owned ([Some ?m0, Some ?m1][0 := None]) 3 (length [5, 6, 7 :: nat]) = []"
    and ops: "\<forall>op \<in> set [X_Pop 1, X_Pop 1 :: nat spmc_op]. \<exists>k. op \<in> {X_Pop k, X_Open k, X_Finish k, X_Clone}"
    using len by (simp_all add: member_at_def owned_def member_batch_def)
  have "\<exists>cs' r' es s''. spmc_peer (\<lambda>_. Returned) (X_Leave 0) (p, cs, ?r) = Inr (p, cs', r')
    \<and> spmc_has_space p ?r = Inr False \<and> spmc_has_space p r' = Inr True
    \<and> spmc_run (\<lambda>_. Returned) [X_Pop 1, X_Pop 1] (p, cs', r') = Inr (es, s'')
    \<and> spmc_producer_parked s'' \<and> \<not> spmc_producer_woken s''"
    by (rule spmc_departure_strands_producer [OF rel cnt small at zero_neq_one other parked rest full ops])
  then show ?thesis by blast
qed

end
