(* ===== verification/Spmc_Wait.thy ===== *)
theory Spmc_Wait
  imports Spmc_Block
begin

text \<open>
  The waiting consumer of the spmc ring, and the zero-copy calls: a reservation that is
  written and committed is a push, a reader that is looked at and dropped is a pop.
\<close>

section \<open>The zero-copy calls\<close>

definition spmc_put :: "'a \<Rightarrow> spmc_producer \<Rightarrow> 'a spmc_ring \<Rightarrow> ('a push_result \<times> spmc_producer \<times> 'a spmc_ring) exec" where
  "spmc_put v p r =
     seq_exec (spmc_reserve p r) (\<lambda>reserved.
     case reserved of
       None \<Rightarrow> Inr (Push_Err v, p, r)
     | Some w \<Rightarrow>
         seq_exec (spmc_write w v r) (\<lambda>(ws, r1).
         seq_exec (spmc_commit ws p r1) (\<lambda>(p1, r2). Inr (Push_Ok, p1, r2))))"

definition spmc_read ::
    "'a spmc_ring race list \<Rightarrow> spmc_consumer \<Rightarrow> 'a spmc_ring \<Rightarrow> ('a option \<times> spmc_consumer \<times> 'a spmc_ring) exec" where
  "spmc_read races c r =
     (case spmc_pop_ref races c r of
        (None, c1, r1) \<Rightarrow> Inr (None, c1, r1)
      | (Some rd, c1, r1) \<Rightarrow>
          seq_exec (spmc_reader_deref rd r1) (\<lambda>v.
          seq_exec (spmc_reader_drop (\<lambda>_. Returned) rd r1) (\<lambda>(_, r2). Inr (Some v, c1, r2))))"

lemma committed_drop:
  "spmc_written_slot_drop \<lparr>pv_value = uncommitted_commit (uncommitted_armed i), pv_pos = pos\<rparr> r = Inr r"
  by (simp add: spmc_written_slot_drop_def uncommitted_drop_def drop_if_uncommitted_def uncommitted_commit_def
      uncommitted_armed_def)

lemma spmc_put_is_push: "spmc_put v p r = spmc_push v p r"
proof (cases "spmc_try_claim p r")
  case (Inl e)
  then show ?thesis by (simp add: spmc_put_def spmc_push_def spmc_reserve_def)
next
  case (Inr claimed)
  show ?thesis
  proof (cases claimed)
    case None
    then show ?thesis using Inr by (simp add: spmc_put_def spmc_push_def spmc_reserve_def)
  next
    case (Some x)
    obtain i pos where x: "x = (i, pos)" by (cases x)
    show ?thesis
    proof (cases "cell_write (sm_data r) i v")
      case (Inl e)
      then show ?thesis
        using \<open>spmc_try_claim p r = Inr claimed\<close> Some x
        by (simp add: spmc_put_def spmc_push_def spmc_reserve_def spmc_write_def)
    next
      case (Inr cells)
      then show ?thesis
        using \<open>spmc_try_claim p r = Inr claimed\<close> Some x
        by (simp add: committed_drop spmc_put_def spmc_push_def spmc_reserve_def spmc_write_def spmc_commit_def Let_def)
    qed
  qed
qed

text \<open>
  C22. The zero-copy calls and the copying ones agree on every state of the ring, faults
  and lost races included: reserve, write and commit leave the producer, the ring and its
  waiters as a push of the value does, and are refused exactly when it is; a reader that
  is looked at and dropped shows the value a pop returns and leaves the ring as the pop
  does, except that the value has been destroyed instead of handed over.
\<close>

theorem spmc_zero_copy_equivalence:
  "spmc_put v p r = spmc_push v p r
    \<and> spmc_read races c r' =
     seq_exec (spmc_pop races c r') (\<lambda>(res, c1, r1).
       Inr (res, c1, r1\<lparr>sm_dropped := sm_dropped r1 @ (case res of None \<Rightarrow> [] | Some v \<Rightarrow> [v])\<rparr>))"
proof (rule conjI)
  show "spmc_put v p r = spmc_push v p r" by (rule spmc_put_is_push)
next
  obtain pos c1 r1 where cl: "spmc_claim_slot races c r' = (pos, c1, r1)" by (metis prod.exhaust)
  show "spmc_read races c r' =
     seq_exec (spmc_pop races c r') (\<lambda>(res, c1, r1).
       Inr (res, c1, r1\<lparr>sm_dropped := sm_dropped r1 @ (case res of None \<Rightarrow> [] | Some v \<Rightarrow> [v])\<rparr>))"
  proof (cases pos)
    case None
    then show ?thesis using cl by (simp add: spmc_read_def spmc_pop_ref_def spmc_pop_def)
  next
    case (Some q)
    obtain i j h where b: "spmc_bind_pos r1 q = (i, j, h)" by (metis prod.exhaust)
    show ?thesis
    proof (cases "spmc_take_data i r1")
      case (Inl e)
      then show ?thesis
        using cl Some b
        by (simp add: spmc_read_def spmc_pop_ref_def spmc_pop_def spmc_reader_drop_def spmc_reader_deref_def
            spmc_take_data_def cell_peek_def cell_take_def split: if_splits option.splits)
    next
      case (Inr x)
      obtain v2 r2 where x: "x = (v2, r2)" by (cases x)
      have peek: "cell_peek (sm_data r1) i = Inr v2"
        using Inr x by (auto simp: spmc_take_data_def cell_peek_def cell_take_def split: if_splits option.splits)
      show ?thesis
        using cl Some b Inr x peek
        by (cases "spmc_release_at j h r2")
          (auto simp: spmc_read_def spmc_pop_ref_def spmc_pop_def spmc_reader_drop_def spmc_reader_deref_def
            spmc_slot_release_drop_def spmc_release_at_def spmc_load_done_def spmc_wake_producer_def
            split: if_splits prod.splits)
    qed
  qed
qed

section \<open>The waiting consumer\<close>

text \<open>
  Consumer \<open>i\<close> leases slot \<open>b\<close> and is the only one that waits; \<open>q\<close> is what it can take.
\<close>

definition spmc_reach :: "nat \<Rightarrow> u32 \<Rightarrow> 'a spmc \<Rightarrow> 'a list \<Rightarrow> bool" where
  "spmc_reach i b s q \<longleftrightarrow>
     (\<exists>vs h ms lost m. spmc_rel (vs, h, ms, lost) s \<and> member_at ms i = Some m \<and> mb_reading m = None
       \<and> spmc_slot_of i s = Leased b \<and> ws_alone (unat b) (sm_consumer_park (snd (snd s)))
       \<and> q = within_reach vs h m)"

definition spmc_consumer_parked :: "nat \<Rightarrow> 'a spmc \<Rightarrow> bool" where
  "spmc_consumer_parked i s =
     (case s of (_, _, r) \<Rightarrow>
        case spmc_slot_of i s of Leased b \<Rightarrow> ws_parked (unat b) (sm_consumer_park r) | Shared \<Rightarrow> False)"

text \<open>What others may do to it: take from it, and append values of \<open>A\<close>.\<close>

definition reach_evolves :: "'a set \<Rightarrow> 'a list \<Rightarrow> 'a list \<Rightarrow> bool" where
  "reach_evolves A q q' \<longleftrightarrow> (\<exists>zs news. q' = zs @ news \<and> subseq zs q \<and> set news \<subseteq> A)"

lemma reach_evolves_refl: "reach_evolves A q q"
  unfolding reach_evolves_def by (intro exI [of _ q] exI [of _ "[]"]) simp

lemma reach_evolves_subseq: "subseq q' q \<Longrightarrow> reach_evolves A q q'"
  unfolding reach_evolves_def by (intro exI [of _ q'] exI [of _ "[]"]) simp

lemma reach_evolves_trans:
  assumes "reach_evolves A q q1" and "reach_evolves A q1 q2"
  shows "reach_evolves A q q2"
proof -
  obtain zs news zs1 news1 where e: "q1 = zs @ news" "subseq zs q" "set news \<subseteq> A"
    "q2 = zs1 @ news1" "subseq zs1 (zs @ news)" "set news1 \<subseteq> A"
    using assms unfolding reach_evolves_def by blast
  obtain xs ys where s: "zs1 = xs @ ys" "subseq xs zs" "subseq ys news"
    using e(5) by (rule subseq_appendE)
  have "set ys \<subseteq> A" using s(3) e(3) unfolding subseq_conv_nths using set_nths_subset by fast
  moreover have "subseq xs q" using s(2) e(2) by (rule subseq_order.trans)
  ultimately show ?thesis
    unfolding reach_evolves_def using e(4,6) s(1) by (intro exI [of _ xs] exI [of _ "ys @ news1"]) simp
qed

text \<open>A later head is less within reach; a push is more.\<close>

lemma within_reach_head:
  assumes "h \<le> h'"
  shows "subseq (within_reach vs h' m) (within_reach vs h m)"
proof (cases "h' \<le> length vs")
  case True
  then have "[h..<length vs] = [h..<h'] @ [h'..<length vs]" using upt_split assms by blast
  then show ?thesis by (simp add: within_reach_def subseq_append' subseq_drop_many)
next
  case False
  then show ?thesis by (simp add: within_reach_def subseq_rev_drop_many)
qed

lemma within_reach_push:
  assumes "member_ok h (length vs) m" and "h \<le> length vs"
  shows "within_reach (vs @ [v]) h m = within_reach vs h m @ [v]"
  using assms by (auto simp: within_reach_def member_batch_def member_ok_def nth_append)

section \<open>The calls of the others\<close>

definition spmc_peer_push :: "'a \<Rightarrow> 'a spmc \<Rightarrow> 'a spmc exec" where
  "spmc_peer_push v s = seq_exec (spmc_try_push v s) (\<lambda>(_, s'). Inr s')"

definition spmc_peer_commit :: "'a \<Rightarrow> 'a spmc \<Rightarrow> 'a spmc exec" where
  "spmc_peer_commit v s =
     (case s of (p, cs, r) \<Rightarrow> seq_exec (spmc_put v p r) (\<lambda>(_, p1, r1). Inr (p1, cs, r1)))"

definition spmc_peer_abandon :: "'a \<Rightarrow> 'a spmc \<Rightarrow> 'a spmc exec" where
  "spmc_peer_abandon v s =
     (case s of (p, cs, r) \<Rightarrow>
        seq_exec (spmc_reserve p r) (\<lambda>reserved.
        case reserved of
          None \<Rightarrow> Inr s
        | Some w \<Rightarrow>
            seq_exec (spmc_write w v r) (\<lambda>(ws, r1).
            seq_exec (spmc_written_slot_drop ws r1) (\<lambda>r2. Inr (p, cs, r2)))))"

inductive spmc_other_call :: "'a set \<Rightarrow> nat \<Rightarrow> ('a spmc \<Rightarrow> 'a spmc exec) \<Rightarrow> bool" for A i where
  "v \<in> A \<Longrightarrow> spmc_other_call A i (spmc_peer_push v)"
| "v \<in> A \<Longrightarrow> spmc_other_call A i (spmc_peer_commit v)"
| "spmc_other_call A i (spmc_peer_abandon v)"
| "spmc_other_call A i (\<lambda>s. Inr (spmc_on_ring spmc_producer_drop s))"
| "op \<in> {X_Pop j, X_Open j, X_Finish j, X_Clone, X_Leave j} \<Longrightarrow> j \<noteq> i \<Longrightarrow> spmc_other_call A i (spmc_peer dtor op)"
| "j \<noteq> i \<Longrightarrow> spmc_other_call A i (spmc_peer_drain limit (f :: 'a list \<Rightarrow> 'a \<Rightarrow> 'a list \<times> completion) st j)"

lemma commit_is_push: "spmc_peer_commit v s = spmc_peer_push v s"
proof -
  have "spmc_put v p r = spmc_push v p r" for p and r :: "'a spmc_ring"
    using spmc_put_is_push .
  then show ?thesis
    by (cases s; cases "spmc_push v (fst s) (snd (snd s))")
      (auto simp: spmc_peer_commit_def spmc_peer_push_def spmc_try_push_def)
qed

text \<open>The wake set is told, or nothing changed.\<close>

definition spmc_tells :: "nat \<Rightarrow> nat \<Rightarrow> 'a spmc \<Rightarrow> 'a spmc \<Rightarrow> bool" where
  "spmc_tells i b s s' \<longleftrightarrow> spmc_slot_of i s' = spmc_slot_of i s
    \<and> (sm_consumer_park (snd (snd s')) = sm_consumer_park (snd (snd s))
       \<or> ws_heard b (sm_consumer_park (snd (snd s))) (sm_consumer_park (snd (snd s'))))"

lemma reach_handshake:
  assumes rel: "spmc_rel (vs, h, ms, lost) s" and rel': "spmc_rel (vs', h', ms', lost') s'"
    and at: "member_at ms i = Some m" "mb_reading m = None" and at': "member_at ms' i = Some m"
    and slot: "spmc_slot_of i s = Leased b" "spmc_slot_of i s' = Leased b"
    and alone: "ws_alone (unat b) (sm_consumer_park (snd (snd s)))"
    and grow: "h \<le> h'" and new: "vs' = vs \<or> (\<exists>v \<in> A. vs' = vs @ [v] \<and> h' = h)"
    and park: "sm_consumer_park (snd (snd s')) = sm_consumer_park (snd (snd s))
        \<and> vs' = vs \<and> spmc_producer_gone s' = spmc_producer_gone s
      \<or> ws_heard (unat b) (sm_consumer_park (snd (snd s))) (sm_consumer_park (snd (snd s')))"
    and closed: "spmc_producer_gone s \<Longrightarrow> spmc_producer_gone s'"
    and q: "q = within_reach vs h m"
  shows "\<exists>q'. spmc_reach i b s' q' \<and> reach_evolves A q q' \<and> (spmc_producer_gone s \<longrightarrow> spmc_producer_gone s')
    \<and> (spmc_consumer_woken t i s \<longrightarrow> spmc_consumer_woken t i s')
    \<and> (spmc_consumer_parked i s \<longrightarrow> spmc_consumer_woken t i s'
        \<or> (spmc_consumer_parked i s' \<and> (q = [] \<longrightarrow> q' = []) \<and> spmc_producer_gone s' = spmc_producer_gone s))"
proof -
  obtain p cs r p' cs' r' where s: "s = (p, cs, r)" "s' = (p', cs', r')" by (metis prod.exhaust)
  let ?q' = "within_reach vs' h' m"
  have "member_ok h (length vs) m" "h \<le> length vs"
    using members_okD [OF spmc_rel_members_ok [OF rel [unfolded s]] at(1)] spmc_rel_members_ok [OF rel [unfolded s]]
    by simp_all
  then have ev: "reach_evolves A q ?q'"
    using new within_reach_head [OF grow, of vs m] within_reach_push [of h vs m]
    unfolding q reach_evolves_def by (elim disjE bexE conjE) (fastforce intro: exI [of _ "[]"])+
  have alone': "ws_alone (unat b) (sm_consumer_park r')"
    using park alone s by (auto simp: ws_heard_def)
  then have "spmc_reach i b s' ?q'" unfolding spmc_reach_def using rel' at(2) at' slot(2) unfolding s snd_conv by blast
  moreover have "q = [] \<Longrightarrow> vs' = vs \<Longrightarrow> ?q' = []"
    using within_reach_head [OF grow, of vs m] q by simp
  ultimately show ?thesis
    using ev closed park slot s
    by (intro exI [of _ ?q'])
      (auto simp: spmc_consumer_woken_def spmc_consumer_parked_def ws_heard_def ws_told_def)
qed

text \<open>The producer's calls.\<close>

lemma try_push_follows:
  assumes rel: "spmc_rel (vs, h, ms, lost) (p, cs, r)"
    and small: "Suc (length vs) + slots (sm_capacity r) < 2 ^ 64"
  shows "\<exists>res p' r' vs'. spmc_try_push v (p, cs, r) = Inr (res, p', cs, r')
    \<and> spmc_rel (vs', h, ms, lost) (p', cs, r') \<and> sm_capacity r' = sm_capacity r \<and> sm_closed r' = sm_closed r
    \<and> (vs' = vs @ [v] \<and> sm_consumer_park r' = snd (ws_wake_one (sm_consumer_park r)) \<or> vs' = vs \<and> r' = r)"
proof -
  obtain e outs a' where st: "spmc_spec_step (slots (sm_capacity r)) (\<lambda>_. Returned) (X_Push v) (vs, h, ms, lost) = (e, outs, a')"
    by (metis prod.exhaust)
  obtain p' cs' r' where run: "spmc_sys_push v (p, cs, r) = Inr (e, p', cs', r')" "spmc_rel a' (p', cs', r')"
    "sm_capacity r' = sm_capacity r" "sm_closed r' = sm_closed r"
    using sys_push_follows [OF rel small st] unfolding spmc_steps_to_def snd_conv by blast
  obtain res where push: "spmc_push v p r = Inr (res, p', r')" "cs' = cs"
    "e = (case res of Push_Ok \<Rightarrow> X_Accepted v | Push_Err v1 \<Rightarrow> X_Refused v1)"
    using run(1) by (auto simp: spmc_sys_push_def seq_exec_eq_Inr)
  have try_eq: "spmc_try_push v (p, cs, r) = Inr (res, p', cs, r')" using push(1) by (simp add: spmc_try_push_def)
  show ?thesis
  proof (cases res)
    case Push_Ok
    then have "a' = (vs @ [v], h, ms, lost)" using st push(3) by (auto split: if_splits)
    then show ?thesis
      using try_eq run(2-4) push(2) spmc_push_frame(5) [OF push(1)] Push_Ok by (auto simp del: spmc_rel.simps)
  next
    case (Push_Err v1)
    then have a: "a' = (vs, h, ms, lost)" using st push(3) by (auto split: if_splits)
    moreover have "r' = r"
    proof -
      obtain claimed where "spmc_try_claim p r = Inr claimed" using push(1) by (auto simp: spmc_push_def seq_exec_eq_Inr)
      then show ?thesis using push(1) Push_Err
        by (cases claimed) (auto simp: spmc_push_def seq_exec_eq_Inr Let_def split: prod.splits)
    qed
    ultimately show ?thesis using try_eq run(2-4) push(2) by (auto simp del: spmc_rel.simps)
  qed
qed

lemma abandon_follows:
  assumes rel: "spmc_rel (vs, h, ms, lost) (p, cs, r)"
  shows "\<exists>r'. spmc_peer_abandon v (p, cs, r) = Inr (p, cs, r') \<and> spmc_rel (vs, h, ms, lost) (p, cs, r')
    \<and> sm_capacity r' = sm_capacity r \<and> sm_closed r' = sm_closed r \<and> sm_consumer_park r' = sm_consumer_park r"
proof -
  let ?U = "set (owned ms h (length vs)) \<union> set lost" and ?i = "length vs mod slots (sm_capacity r)"
  have ok: "spmc_ring_ok vs h (set (owned ms h (length vs))) (set lost) r" "write_pos p = of_nat (length vs)"
    using rel by simp_all
  note claim = spmc_try_claim_spec(1) [OF ok]
  show ?thesis
  proof (cases "pos_blocked (slots (sm_capacity r)) ?U (length vs)")
    case True
    then have "spmc_peer_abandon v (p, cs, r) = Inr (p, cs, r)"
      using claim by (simp add: spmc_peer_abandon_def spmc_reserve_def)
    then show ?thesis using rel by blast
  next
    case False
    have i: "?i < length (sm_data r)" using spmc_ring_okD(2,8) [OF ok(1)] by simp
    let ?r = "r\<lparr>sm_data := (sm_data r)[?i := None], sm_dropped := sm_dropped r @ [v]\<rparr>"
    have "spmc_peer_abandon v (p, cs, r) = Inr (p, cs, ?r)"
      using claim False i
      by (simp add: spmc_peer_abandon_def spmc_reserve_def spmc_write_def spmc_written_slot_drop_def
          uncommitted_drop_def drop_if_uncommitted_def uncommitted_armed_def)
    moreover have "spmc_ring_ok vs h (set (owned ms h (length vs))) (set lost) ?r"
      using spmc_write_free [OF ok(1) False, of None]
        spmc_ring_ok_cong [of ?r "r\<lparr>sm_data := (sm_data r)[?i := None]\<rparr>"] by simp
    ultimately show ?thesis using rel by (intro exI [of _ ?r]) simp
  qed
qed

lemma producer_drop_follows:
  assumes rel: "spmc_rel (vs, h, ms, lost) (p, cs, r)"
  shows "spmc_rel (vs, h, ms, lost) (p, cs, spmc_producer_drop r)"
    and "sm_capacity (spmc_producer_drop r) = sm_capacity r" and "is_closed (sm_closed (spmc_producer_drop r))"
    and "sm_consumer_park (spmc_producer_drop r) = snd (ws_flush (sm_consumer_park r))"
proof -
  have "spmc_ring_ok vs h own l (spmc_producer_drop r) = spmc_ring_ok vs h own l r" for own l
    by (rule spmc_ring_ok_cong) (simp_all add: spmc_producer_drop_def)
  then show "spmc_rel (vs, h, ms, lost) (p, cs, spmc_producer_drop r)"
    using rel by (simp add: spmc_producer_drop_def)
  show "sm_capacity (spmc_producer_drop r) = sm_capacity r" "is_closed (sm_closed (spmc_producer_drop r))"
    by (simp_all add: spmc_producer_drop_def is_closed_def close_side_def)
  show "sm_consumer_park (spmc_producer_drop r) = snd (ws_flush (sm_consumer_park r))"
    by (simp add: spmc_producer_drop_def spmc_flush_def case_prod_beta)
qed

text \<open>The other consumers' calls.\<close>

lemma spec_step_others:
  assumes "spmc_spec_step n dtor op (vs, h, ms, lost) = (e, outs, vs', h', ms', lost')"
    and "op \<in> {X_Pop j, X_Open j, X_Finish j, X_Clone, X_Leave j}" and "j \<noteq> i" and "member_at ms i = Some m"
  shows "member_at ms' i = Some m"
proof -
  have upd: "member_at (ms[j := x]) i = Some m" for x using assms(3,4) by (auto simp: member_at_def split: if_splits)
  have "member_at (ms @ [x]) i = Some m" for x
    using assms(4) by (auto simp: member_at_def nth_append split: if_splits)
  then show ?thesis
    using assms(1,2,4) upd by (auto split: option.splits if_splits prod.splits)
qed

lemma leave_frame:
  assumes rel: "spmc_rel (vs, h, ms, lost) (p, cs, r)"
    and run: "spmc_step dtor (X_Leave j) (p, cs, r) = Inr (e, p', cs', r')"
  shows "sm_consumer_park r' = sm_consumer_park r" and "\<And>k. k \<noteq> j \<Longrightarrow> handle_at cs' k = handle_at cs k"
proof -
  have all: "list_all2 (member_rel (sm_capacity r) h (length vs)) ms cs" using rel by simp
  have "sm_consumer_park r' = sm_consumer_park r \<and> (\<forall>k. k \<noteq> j \<longrightarrow> handle_at cs' k = handle_at cs k)"
    using all
  proof (cases rule: handle_cases [where i = j])
    case gone
    then show ?thesis using run by (simp add: spmc_sys_leave_def)
  next
    case (reading m q k)
    then show ?thesis using run by (simp add: spmc_sys_leave_def)
  next
    case (idle m k)
    obtain slot where at: "j < length ms" "ms ! j = Some m" "k = member_consumer slot m"
      "member_ok h (length vs) m"
      using member_at_rel [OF all idle(1)] idle(3) by (metis Pair_inject option.inject)
    obtain fin ds rest where dr: "drop_run dtor (map ((!) vs) (member_batch m)) = (fin, ds, rest)"
      by (metis prod.exhaust)
    obtain r1 where "spmc_consumer_drop dtor k r = Inr (fin, spmc_consumer_close_drop slot r1)" "spmc_same r r1"
      using spmc_consumer_drop_spec [OF rel at(1,2) idle(2) at(4) dr, of slot] unfolding at(3) by blast
    then show ?thesis
      using run idle(3) by (auto simp: spmc_sys_leave_def spmc_same_def handle_at_def)
  qed
  then show "sm_consumer_park r' = sm_consumer_park r" and "\<And>k. k \<noteq> j \<Longrightarrow> handle_at cs' k = handle_at cs k"
    by blast+
qed

lemma slot_of_same: "handle_at cs' i = handle_at cs i \<Longrightarrow> spmc_slot_of i (p', cs', r') = spmc_slot_of i (p, cs, r)"
  by (simp add: spmc_slot_of_def)

lemma spmc_other_call_law:
  assumes call: "spmc_other_call A i f" and reach: "spmc_reach i b s q" and left: "1 \<le> spmc_positions_left s"
  shows "\<exists>s' q'. f s = Inr s' \<and> spmc_reach i b s' q' \<and> reach_evolves A q q'
    \<and> spmc_positions_left s \<le> spmc_positions_left s' + 1
    \<and> (spmc_producer_gone s \<longrightarrow> spmc_producer_gone s')
    \<and> (spmc_consumer_woken t i s \<longrightarrow> spmc_consumer_woken t i s')
    \<and> (spmc_consumer_parked i s \<longrightarrow> spmc_consumer_woken t i s'
        \<or> (spmc_consumer_parked i s' \<and> (q = [] \<longrightarrow> q' = []) \<and> spmc_producer_gone s' = spmc_producer_gone s))"
proof -
  obtain p cs r where s: "s = (p, cs, r)" by (metis prod.exhaust)
  obtain vs h ms lost m where rel: "spmc_rel (vs, h, ms, lost) (p, cs, r)" and at: "member_at ms i = Some m"
    "mb_reading m = None" and slot: "spmc_slot_of i (p, cs, r) = Leased b"
    and alone: "ws_alone (unat b) (sm_consumer_park r)" and q: "q = within_reach vs h m"
    using reach unfolding s spmc_reach_def snd_conv by blast
  have live: "handle_at cs i \<noteq> None" using slot by (auto simp: spmc_slot_of_def split: option.splits)
  note posl = unread_facts(3) [OF rel refl]
  have small: "Suc (length vs) + slots (sm_capacity r) < 2 ^ 64"
    using left posl s by (simp add: spmc_bound_def)
  have finish: ?thesis
    if "f (p, cs, r) = Inr (p', cs', r')" "spmc_rel (vs', h', ms', lost') (p', cs', r')"
      "sm_capacity r' = sm_capacity r" "member_at ms' i = Some m" "handle_at cs' i = handle_at cs i" "h \<le> h'"
      "vs' = vs \<or> (\<exists>v \<in> A. vs' = vs @ [v] \<and> h' = h)"
      "sm_consumer_park r' = sm_consumer_park r \<and> vs' = vs \<and> sm_closed r' = sm_closed r
        \<or> ws_heard (unat b) (sm_consumer_park r) (sm_consumer_park r')"
      "is_closed (sm_closed r) \<Longrightarrow> is_closed (sm_closed r')" for p' cs' r' vs' h' ms' lost'
  proof -
    have slot': "spmc_slot_of i (p', cs', r') = Leased b" using slot_of_same [OF that(5)] slot by metis
    have alone': "ws_alone (unat b) (sm_consumer_park (snd (snd (p, cs, r))))" using alone by simp
    have park: "sm_consumer_park (snd (snd (p', cs', r'))) = sm_consumer_park (snd (snd (p, cs, r)))
        \<and> vs' = vs \<and> spmc_producer_gone (p', cs', r') = spmc_producer_gone (p, cs, r)
      \<or> ws_heard (unat b) (sm_consumer_park (snd (snd (p, cs, r)))) (sm_consumer_park (snd (snd (p', cs', r'))))"
      using that(8) by (auto simp: spmc_producer_gone_def)
    have closed: "spmc_producer_gone (p, cs, r) \<Longrightarrow> spmc_producer_gone (p', cs', r')"
      using that(9) by (simp add: spmc_producer_gone_def is_closed_for_parking_def is_closed_def)
    have "spmc_positions_left (p, cs, r) \<le> spmc_positions_left (p', cs', r') + 1"
      using posl unread_facts(3) [OF that(2) refl] that(3,7) by (auto simp: spmc_bound_def)
    then show ?thesis
      using reach_handshake [OF rel that(2) at that(4) slot slot' alone' that(6,7) park closed q, of t] that(1)
      unfolding s by blast
  qed
  from call show ?thesis
  proof cases
    case (1 v)
    obtain res p' r' vs' where t: "spmc_try_push v (p, cs, r) = Inr (res, p', cs, r')"
      "spmc_rel (vs', h, ms, lost) (p', cs, r')" "sm_capacity r' = sm_capacity r" "sm_closed r' = sm_closed r"
      "vs' = vs @ [v] \<and> sm_consumer_park r' = snd (ws_wake_one (sm_consumer_park r)) \<or> vs' = vs \<and> r' = r"
      using try_push_follows [OF rel small, of v] by blast
    show ?thesis
      by (rule finish [of p' cs r' vs' h ms lost])
        (use 1 t at wake_one_heard [OF alone] in \<open>auto simp: spmc_peer_push_def simp del: spmc_rel.simps\<close>)
  next
    case (2 v)
    obtain res p' r' vs' where t: "spmc_try_push v (p, cs, r) = Inr (res, p', cs, r')"
      "spmc_rel (vs', h, ms, lost) (p', cs, r')" "sm_capacity r' = sm_capacity r" "sm_closed r' = sm_closed r"
      "vs' = vs @ [v] \<and> sm_consumer_park r' = snd (ws_wake_one (sm_consumer_park r)) \<or> vs' = vs \<and> r' = r"
      using try_push_follows [OF rel small, of v] by blast
    show ?thesis
      by (rule finish [of p' cs r' vs' h ms lost])
        (use 2 t at wake_one_heard [OF alone] in \<open>auto simp: commit_is_push spmc_peer_push_def simp del: spmc_rel.simps\<close>)
  next
    case (3 v)
    show ?thesis using abandon_follows [OF rel, of v] 3 finish at(1) by auto
  next
    case 4
    show ?thesis
      by (rule finish [of p cs "spmc_producer_drop r" vs h ms lost])
        (use 4 producer_drop_follows [OF rel] at flush_heard [OF alone] in \<open>auto simp: spmc_on_ring_def simp del: spmc_rel.simps\<close>)
  next
    case (5 op j dtor)
    obtain e outs vs' h' ms' lost' where st: "spmc_spec_step 0 dtor op (vs, h, ms, lost) = (e, outs, vs', h', ms', lost')"
      by (metis prod.exhaust)
    obtain p' cs' r' where run: "spmc_step dtor op (p, cs, r) = Inr (e, p', cs', r')"
      "spmc_rel (vs', h', ms', lost') (p', cs', r')" "sm_capacity r' = sm_capacity r" "sm_closed r' = sm_closed r"
      using consumer_step_follows [OF rel _ st, of j] 5(2) unfolding spmc_steps_to_def snd_conv by blast
    note ok = spmc_rel_members_ok [OF rel]
    have vs: "vs' = vs" using spec_step_shrinks [OF st ok, of j] 5(2) by blast
    have frame: "sm_consumer_park r' = sm_consumer_park r \<and> handle_at cs' i = handle_at cs i"
    proof (cases "op = X_Leave j")
      case True
      then show ?thesis using leave_frame [OF rel run(1) [unfolded True]] 5(3) by metis
    next
      case False
      then have "op \<in> {X_Pop j, X_Open j, X_Finish j, X_Clone}" using 5(2) by blast
      from consumer_step_frame(2,4,5) [OF run(1) this] show ?thesis using live 5(3) by blast
    qed
    show ?thesis
      by (rule finish [OF _ run(2,3)])
        (use 5(1) run(1,4) vs frame spec_step_others [OF st 5(2,3) at(1)] spec_step_head [OF st ok]
          in \<open>simp_all add: spmc_peer_def\<close>)
  next
    case (6 j limit f' st)
    obtain h' ms' cs' r' where d: "spmc_peer_drain limit f' st j (p, cs, r) = Inr (p, cs', r')"
      "spmc_rel (vs, h', ms', lost) (p, cs', r')" "sm_capacity r' = sm_capacity r"
      "sm_consumer_park r' = sm_consumer_park r" "sm_closed r' = sm_closed r"
      "\<forall>k. k \<noteq> j \<longrightarrow> handle_at cs' k = handle_at cs k \<and> member_at ms' k = member_at ms k" "h \<le> h'"
      using peer_drain_sim [OF rel, of limit f' st j] by blast
    show ?thesis
      by (rule finish [OF _ d(2,3)]) (use 6 d at in simp_all)
  qed
qed

text \<open>The waiter's own calls.\<close>

lemma spmc_try_pop_law:
  assumes reach: "spmc_reach i b s q"
  shows "\<exists>s'. spmc_try_pop i s = Inr (case q of [] \<Rightarrow> None | v # _ \<Rightarrow> Some v, s')
    \<and> spmc_reach i b s' (tl q) \<and> spmc_positions_left s' = spmc_positions_left s
    \<and> spmc_producer_gone s' = spmc_producer_gone s
    \<and> spmc_consumer_parked i s' = spmc_consumer_parked i s
    \<and> spmc_consumer_woken t i s' = spmc_consumer_woken t i s"
proof -
  obtain p cs r where s: "s = (p, cs, r)" by (metis prod.exhaust)
  obtain vs h ms lost m where rel: "spmc_rel (vs, h, ms, lost) (p, cs, r)" and at: "member_at ms i = Some m"
    "mb_reading m = None" and slot: "spmc_slot_of i (p, cs, r) = Leased b"
    and alone: "ws_alone (unat b) (sm_consumer_park r)" and q: "q = within_reach vs h m"
    using reach unfolding s spmc_reach_def snd_conv by blast
  obtain pos h' m' where claim: "member_claim (length vs) h m = (pos, h', m')" by (metis prod.exhaust)
  obtain sl r1 where c: "handle_at cs i = Some (member_consumer sl m, None)"
    "spmc_claim_slot [] (member_consumer sl m) r = (map_option of_nat pos, member_consumer sl m', r1)"
    "r1 = r\<lparr>sm_cursors := (sm_cursors r)\<lparr>head := of_nat h'\<rparr>\<rparr>"
    "spmc_ring_ok vs h' (set (owned ms h (length vs))) (set lost) r1"
    "claim_outcome (length vs) h m pos h' m'" "i < length ms" "ms ! i = Some m"
    using claim_sim [OF rel at claim] by metis
  let ?cs = "cs[i := Some (member_consumer sl m', None)]"
  have keep: "sm_capacity r1 = sm_capacity r" "sm_closed r1 = sm_closed r" using c(3) by simp_all
  have "\<exists>r2. spmc_pop [] (member_consumer sl m) r = Inr (map_option ((!) vs) pos, member_consumer sl m', r2)
      \<and> spmc_rel (vs, h', ms[i := Some m'], lost) (p, ?cs, r2) \<and> sm_capacity r2 = sm_capacity r"
  proof (cases pos)
    case None
    then have "spmc_rel (vs, h', ms[i := Some m'], lost) (p, ?cs, r1)"
      using found_nothing_rel [OF rel c(6,7) at(2) _ c(4) keep(1)] c(5) by simp
    then show ?thesis using c(2) None keep by (auto simp: spmc_pop_def simp del: spmc_rel.simps)
  next
    case (Some k)
    then have out: "claim_outcome (length vs) h m (Some k) h' m'" using c(5) by simp
    obtain r2 r3 where t: "spmc_take_data (spmc_data_slot r1 (of_nat k)) r1 = Inr (vs ! k, r2)"
      "spmc_release_at (spmc_done_slot r1 (of_nat k)) (of_nat k) r2 = Inr r3"
      "spmc_rel (vs, h', ms[i := Some m'], lost) (p, ?cs, r3)" "sm_capacity r3 = sm_capacity r"
      using pop_claimed [OF rel c(6,7) at(2) out c(4) keep] by blast
    have "spmc_rel (vs, h', ms[i := Some m'], lost) (p, ?cs, spmc_wake_producer r3)" using t(3) by simp
    then show ?thesis
      using c(2) Some t by (auto simp: spmc_pop_def spmc_bind_pos_def simp del: spmc_rel.simps)
  qed
  then obtain r2 where r2: "spmc_pop [] (member_consumer sl m) r = Inr (map_option ((!) vs) pos, member_consumer sl m', r2)"
    "spmc_rel (vs, h', ms[i := Some m'], lost) (p, ?cs, r2)" "sm_capacity r2 = sm_capacity r" by blast
  note frame = spmc_pop_announces(2,4) [OF r2(1)]
  have sl: "sl = Leased b" using slot c(1) by (simp add: spmc_slot_of_def member_consumer_def)
  have i: "i < length cs" using c(1) by (auto simp: handle_at_def split: if_splits)
  then have slot': "spmc_slot_of i (p, ?cs, r2) = Leased b" using sl by (simp add: spmc_slot_of_def handle_at_def member_consumer_def)
  have at': "member_at (ms[i := Some m']) i = Some m'" "mb_reading m' = None"
    using c(5,6) at(2) by (simp_all add: member_at_def claim_outcome_def)
  have "within_reach vs h' m' = tl q \<and> map_option ((!) vs) pos = (case q of [] \<Rightarrow> None | v # _ \<Rightarrow> Some v)"
    using claim_within_reach [OF c(5)] q by (cases pos) auto
  moreover have "spmc_reach i b (p, ?cs, r2) (within_reach vs h' m')"
    unfolding spmc_reach_def snd_conv using r2(2) at' slot' alone frame(1) by metis
  moreover have "spmc_try_pop i (p, cs, r) = Inr (map_option ((!) vs) pos, p, ?cs, r2)"
    using c(1) r2(1) by (simp add: spmc_try_pop_def)
  moreover have "spmc_positions_left (p, ?cs, r2) = spmc_positions_left (p, cs, r)"
    using unread_facts(3) [OF rel refl] unread_facts(3) [OF r2(2) refl] r2(3) by (simp add: spmc_bound_def)
  ultimately show ?thesis
    using slot slot' frame unfolding s
    by (intro exI [of _ "(p, ?cs, r2)"])
      (simp add: spmc_producer_gone_def spmc_consumer_parked_def spmc_consumer_woken_def)
qed

lemma spmc_park_rel: "spmc_rel a (p, cs, r\<lparr>sm_consumer_park := w\<rparr>) = spmc_rel a (p, cs, r)"
  using spmc_ring_ok_cong [of "r\<lparr>sm_consumer_park := w\<rparr>" r] by (cases a) simp

lemma spmc_reach_park:
  assumes reach: "spmc_reach i b (p, cs, r) q" and "ws_alone (unat b) w"
  shows "spmc_reach i b (p, cs, r\<lparr>sm_consumer_park := w\<rparr>) q"
proof -
  have "spmc_slot_of i (p, cs, r\<lparr>sm_consumer_park := w\<rparr>) = spmc_slot_of i (p, cs, r)"
    by (simp add: spmc_slot_of_def)
  moreover have "sm_consumer_park (r\<lparr>sm_consumer_park := w\<rparr>) = w" by simp
  ultimately show ?thesis using assms unfolding spmc_reach_def spmc_park_rel snd_conv by metis
qed

interpretation xc: blocking_consumer "spmc_reach i b" spmc_positions_left "spmc_try_pop i" 1 "reach_evolves A"
  spmc_producer_gone "spmc_consumer_parked i" "spmc_consumer_woken t i" "spmc_arm_consumer t i"
  "spmc_disarm_consumer i" "spmc_other_call A i"
  for i b A t
proof (unfold_locales, goal_cases)
  case (1 s v q)
  then show ?case using spmc_try_pop_law [OF 1, of t] by auto
next
  case (2 s)
  then show ?case using spmc_try_pop_law [OF 2, of t] by auto
next
  case (3 q)
  show ?case by (rule reach_evolves_refl)
next
  case (4 q q1 q2)
  then show ?case by (rule reach_evolves_trans)
next
  case (5 s res s')
  then show ?case using spmc_try_pop_law [OF 5(1), of t] by auto
next
  case (6 s q)
  obtain p cs r where s: "s = (p, cs, r)" by (metis prod.exhaust)
  have slot: "spmc_slot_of i (p, cs, r) = Leased b" and alone: "ws_alone (unat b) (sm_consumer_park r)"
    using 6 unfolding s spmc_reach_def by auto
  have slot': "spmc_slot_of i (p, cs, r\<lparr>sm_consumer_park := w\<rparr>) = Leased b" for w
    using slot by (simp add: spmc_slot_of_def)
  have "spmc_arm_consumer t i s = (p, cs, r\<lparr>sm_consumer_park := ws_arm t (Leased b) (sm_consumer_park r)\<rparr>)"
    using slot by (simp add: s spmc_arm_consumer_def spmc_on_ring_def)
  then show ?case
    using spmc_reach_park [OF 6 [unfolded s] arm_parks(1) [OF alone]] arm_parks(2,3) [OF alone] slot slot'
    by (simp add: s spmc_positions_left_def spmc_producer_gone_def spmc_consumer_parked_def spmc_consumer_woken_def ws_told_def)
next
  case (7 s q)
  obtain p cs r where s: "s = (p, cs, r)" by (metis prod.exhaust)
  have slot: "spmc_slot_of i (p, cs, r) = Leased b" and alone: "ws_alone (unat b) (sm_consumer_park r)"
    using 7 unfolding s spmc_reach_def by auto
  have "spmc_disarm_consumer i s = (p, cs, r\<lparr>sm_consumer_park := ws_disarm (Leased b) (sm_consumer_park r)\<rparr>)"
    using slot by (simp add: s spmc_disarm_consumer_def spmc_on_ring_def)
  then show ?case
    using spmc_reach_park [OF 7 [unfolded s] disarm_alone [OF alone]]
    by (simp add: s spmc_positions_left_def spmc_producer_gone_def)
next
  case (8 f s q)
  then show ?case by (intro spmc_other_call_law)
qed

text \<open>
  C16. \<open>pop_block\<close> of the spmc ring, for a consumer that leases a park slot and is the only
  one waiting, against any schedule of the producer's calls (pushes and commits of
  values of \<open>A\<close>, abandoned reservations, its drop), of the other consumers' (pops,
  readers, drains, clones, drops) and of spurious returns: it never faults; a value it
  returns was within its reach at the start or was pushed meanwhile; it returns \<open>None\<close>
  only when the producer is gone and nothing is within reach; and it is found in its
  park only if it has been unparked already, or nothing is within reach, the producer
  is alive and the consumer is advertised with its handle armed.
\<close>

theorem spmc_pop_block_contract:
  assumes "spmc_reach i b s q" and "permitted (spmc_other_call A i) ps" and "length ps \<le> spmc_positions_left s"
  shows "\<exists>out. spmc_pop_block t i ps s = Inr out \<and>
    (case out of
       Done (Some v) s' \<Rightarrow> \<exists>q'. spmc_reach i b s' q' \<and> reach_evolves A q (v # q')
     | Done None s' \<Rightarrow> spmc_reach i b s' [] \<and> spmc_producer_gone s'
     | In_Park s' \<Rightarrow> \<exists>q'. spmc_reach i b s' q' \<and> reach_evolves A q q' \<and>
         (spmc_consumer_woken t i s' \<or> (spmc_consumer_parked i s' \<and> q' = [] \<and> \<not> spmc_producer_gone s')))"
proof -
  have "xc.ready A i ps s" using assms(2,3) unfolding xc.ready_def by simp
  from xc.pop_block_law [OF this assms(1), of t backoff_new] obtain out where
    "spmc_pop_block t i ps s = Inr out" "xc.pop_outcome i b A t q out"
    unfolding spmc_pop_block_def pop_block_def spmc_consumer_ops_def by blast
  then show ?thesis
    unfolding xc.pop_outcome_def by (intro exI [of _ out]) (auto split: blocking.splits option.splits)
qed

lemma spmc_fresh_reach:
  "\<exists>r :: 'a spmc_ring. spmc_reach 0 0 (spmc_start r) [] \<and> spmc_positions_left (spmc_start r) = 2 ^ 64 - 3"
proof -
  obtain r :: "'a spmc_ring" where r: "spmc_new cap2 = Inr r" "spmc_rel ([], 0, [Some member_new], []) (spmc_start r)"
    "spmc_positions_left (spmc_start r) = 2 ^ 64 - 3"
    using spmc_fresh_unread by blast
  have new: "sm_consumer_slots r = registry_new" "sm_consumer_park r = wake_set_new"
    using r(1) by (auto simp: spmc_new_def seq_exec_eq_Inr)
  have lease: "fst (registry_lease registry_new) = Leased 0"
    by code_simp
  have "spmc_slot_of 0 (spmc_start r) = Leased 0"
    using lease new by (auto simp: spmc_start_def spmc_split_def spmc_consumer_new_def spmc_new_with_def spmc_slot_of_def
        handle_at_def split: prod.splits)
  moreover have "ws_alone 0 (sm_consumer_park (snd (snd (spmc_start r))))"
    using new by (auto simp: spmc_start_def spmc_split_def spmc_consumer_new_def ws_alone_def ws_parked_def
        wake_set_new_def PARK_SLOTS_def split: prod.splits)
  moreover have "member_at [Some member_new] 0 = Some member_new" "mb_reading member_new = None"
    "within_reach ([] :: 'a list) 0 member_new = []"
    by (simp_all add: member_at_def member_new_def within_reach_def member_batch_def)
  ultimately have "spmc_reach 0 0 (spmc_start r) []"
    unfolding spmc_reach_def using r(2) by (metis unsigned_0)
  then show ?thesis using r(3) by blast
qed

theorem spmc_pop_block_contract_witness:
  "\<exists>s out. spmc_reach 0 0 s ([] :: nat list)
    \<and> spmc_pop_block 1 0 [Turn, Peer (spmc_peer_push 7), Peer (\<lambda>s. Inr (spmc_on_ring spmc_producer_drop s))] s = Inr out \<and>
    (case out of
       Done (Some v) s' \<Rightarrow> \<exists>q'. spmc_reach 0 0 s' q' \<and> reach_evolves {7} [] (v # q')
     | Done None s' \<Rightarrow> spmc_reach 0 0 s' [] \<and> spmc_producer_gone s'
     | In_Park s' \<Rightarrow> \<exists>q'. spmc_reach 0 0 s' q' \<and> reach_evolves {7} [] q' \<and>
         (spmc_consumer_woken 1 0 s' \<or> (spmc_consumer_parked 0 s' \<and> q' = [] \<and> \<not> spmc_producer_gone s')))"
proof -
  obtain r :: "nat spmc_ring" where r: "spmc_reach 0 0 (spmc_start r) []"
    "spmc_positions_left (spmc_start r) = 2 ^ 64 - 3"
    using spmc_fresh_reach by blast
  let ?ps = "[Turn, Peer (spmc_peer_push 7), Peer (\<lambda>s. Inr (spmc_on_ring spmc_producer_drop s))] :: nat spmc schedule"
  have "permitted (spmc_other_call {7} 0) ?ps" by (simp add: spmc_other_call.intros)
  moreover have "length ?ps \<le> spmc_positions_left (spmc_start r)" using r(2) by simp
  ultimately show ?thesis using spmc_pop_block_contract [OF r(1), of "{7}" ?ps 1] r(1) by blast
qed

end
