(* ===== verification/Broadcast_Parts.thy ===== *)
theory Broadcast_Parts
  imports Slot_Sequence
begin

text \<open>
  The parts of the broadcast ring: the sequence word, which names the position it speaks
  for (\<open>src/broadcast/slot_state.rs\<close>), the table of consumers
  (\<open>consumer_registry.rs\<close>), the floor it puts under the producers
  (\<open>consumer_floor.rs\<close>), the caches of that floor (\<open>floor_cache.rs\<close>), and the test of
  the slot's previous occupant (\<open>slot_reuse.rs\<close>).
\<close>

section \<open>The sequence word\<close>

datatype slot_state = Vacant | Published usize | Abandoned usize

definition VACANT :: usize where
  "VACANT = 0"

definition published_word :: "usize \<Rightarrow> usize" where
  "published_word pos = pos * 2 + 1"

definition abandoned_word :: "usize \<Rightarrow> usize" where
  "abandoned_word pos = pos * 2 + 2"

definition decode :: "usize \<Rightarrow> slot_state" where
  "decode w =
     (if w = VACANT then Vacant
      else if w mod 2 = 1 then Published ((w - 1) div 2)
      else Abandoned ((w - 2) div 2))"

fun holds_value :: "slot_state \<Rightarrow> bool" where
  "holds_value (Published _) = True"
| "holds_value _ = False"

record sequence_word =
  state_word :: usize

definition bw_vacant :: sequence_word where
  "bw_vacant = \<lparr>state_word = VACANT\<rparr>"

definition bw_publish :: "sequence_word \<Rightarrow> usize \<Rightarrow> sequence_word" where
  "bw_publish s pos = s\<lparr>state_word := published_word pos\<rparr>"

definition bw_abandon :: "sequence_word \<Rightarrow> usize \<Rightarrow> sequence_word" where
  "bw_abandon s pos = s\<lparr>state_word := abandoned_word pos\<rparr>"

definition bw_claim_taking_previous :: "sequence_word \<Rightarrow> slot_state \<times> sequence_word" where
  "bw_claim_taking_previous s = (decode (state_word s), s\<lparr>state_word := VACANT\<rparr>)"

definition bw_claim :: "sequence_word \<Rightarrow> sequence_word" where
  "bw_claim s = s\<lparr>state_word := VACANT\<rparr>"

definition bw_is_claim_in_progress :: "sequence_word \<Rightarrow> bool" where
  "bw_is_claim_in_progress s \<longleftrightarrow> state_word s = VACANT"

definition bw_classify :: "sequence_word \<Rightarrow> usize \<Rightarrow> slot_snapshot" where
  "bw_classify s pos =
     (case decode (state_word s) of
        Published at \<Rightarrow> if at = pos then Ready else NotReady
      | Abandoned at \<Rightarrow> if at = pos then Tombstoned else NotReady
      | Vacant \<Rightarrow> NotReady)"

definition bw_state :: "sequence_word \<Rightarrow> slot_state" where
  "bw_state s = decode (state_word s)"

text \<open>A producer may take the slot once its last claim has been resolved.\<close>

definition prior_occupant_resolved :: "usize \<Rightarrow> usize \<Rightarrow> sequence_word \<Rightarrow> bool" where
  "prior_occupant_resolved n pos s \<longleftrightarrow> pos < n \<or> \<not> bw_is_claim_in_progress s"

section \<open>The consumer floor\<close>

datatype consumer_floor = NoConsumers | At usize

fun floor_permits :: "consumer_floor \<Rightarrow> usize \<Rightarrow> usize \<Rightarrow> bool" where
  "floor_permits NoConsumers pos n = False"
| "floor_permits (At h) pos n = (h \<ge> pos \<or> pos - h < n)"

fun position_or_tail :: "consumer_floor \<Rightarrow> usize \<Rightarrow> usize" where
  "position_or_tail NoConsumers t = t"
| "position_or_tail (At h) t = h"

section \<open>The registry of consumers\<close>

record consumer_slot =
  seat_head :: usize
  seat_active :: bool

definition seat_vacant :: consumer_slot where
  "seat_vacant = \<lparr>seat_head = 0, seat_active = False\<rparr>"

definition seat_take :: "consumer_slot \<Rightarrow> bool \<times> consumer_slot" where
  "seat_take s = (if seat_active s then (False, s) else (True, s\<lparr>seat_active := True\<rparr>))"

definition subscribed_head :: "consumer_slot \<Rightarrow> usize option" where
  "subscribed_head s = (if seat_active s then Some (seat_head s) else None)"

type_synonym consumer_registry = "consumer_slot list"

definition seats_new :: "nat \<Rightarrow> consumer_registry exec" where
  "seats_new n = (if n = 0 then Inl Assertion_Failed else Inr (replicate n seat_vacant))"

definition seat_update ::
    "nat \<Rightarrow> (consumer_slot \<Rightarrow> consumer_slot) \<Rightarrow> consumer_registry \<Rightarrow> consumer_registry exec" where
  "seat_update i f reg =
     (if i < length reg then Inr (reg[i := f (reg ! i)]) else Inl Index_Out_Of_Bounds)"

definition subscribe_first :: "consumer_registry \<Rightarrow> (nat \<times> consumer_registry) exec" where
  "subscribe_first reg =
     seq_exec (seat_update 0 (\<lambda>s. s\<lparr>seat_active := True\<rparr>) reg) (\<lambda>reg1.
     seq_exec (seat_update 0 (\<lambda>s. s\<lparr>seat_head := 0\<rparr>) reg1) (\<lambda>reg2. Inr (0, reg2)))"

text \<open>\<open>seats_claim\<close> walks the table from seat \<open>i\<close> on; it panics when no seat is free.\<close>

fun seats_claim_from :: "nat \<Rightarrow> consumer_registry \<Rightarrow> (nat \<times> consumer_registry) exec" where
  "seats_claim_from i [] = Inl Assertion_Failed"
| "seats_claim_from i (s # reg) =
     (case seat_take s of
        (True, s1) \<Rightarrow> Inr (i, s1 # reg)
      | (False, s1) \<Rightarrow>
          seq_exec (seats_claim_from (Suc i) reg) (\<lambda>(j, reg1). Inr (j, s1 # reg1)))"

definition seats_claim :: "consumer_registry \<Rightarrow> (nat \<times> consumer_registry) exec" where
  "seats_claim reg = seats_claim_from 0 reg"

definition subscribe_at :: "usize \<Rightarrow> consumer_registry \<Rightarrow> (nat \<times> consumer_registry) exec" where
  "subscribe_at t reg =
     seq_exec (seats_claim reg) (\<lambda>(i, reg1).
     seq_exec (seat_update i (\<lambda>s. s\<lparr>seat_head := t\<rparr>) reg1) (\<lambda>reg2. Inr (i, reg2)))"

definition unsubscribe :: "nat \<Rightarrow> consumer_registry \<Rightarrow> consumer_registry exec" where
  "unsubscribe i reg = seat_update i (\<lambda>s. s\<lparr>seat_active := False\<rparr>) reg"

definition head_of :: "consumer_registry \<Rightarrow> nat \<Rightarrow> usize exec" where
  "head_of reg i = (if i < length reg then Inr (seat_head (reg ! i)) else Inl Index_Out_Of_Bounds)"

definition publish_head_past :: "nat \<Rightarrow> usize \<Rightarrow> consumer_registry \<Rightarrow> consumer_registry exec" where
  "publish_head_past i h reg = seat_update i (\<lambda>s. s\<lparr>seat_head := h + 1\<rparr>) reg"

text \<open>The minimum of the heads collected, as \<open>Iterator::min\<close> folds it.\<close>

fun floor_of_heads :: "usize list \<Rightarrow> consumer_floor" where
  "floor_of_heads [] = NoConsumers"
| "floor_of_heads (h # hs) = At (fold min hs h)"

definition registry_floor :: "consumer_registry \<Rightarrow> consumer_floor" where
  "registry_floor reg = floor_of_heads (List.map_filter subscribed_head reg)"

definition any_subscribed :: "consumer_registry \<Rightarrow> bool" where
  "any_subscribed reg \<longleftrightarrow> list_ex seat_active reg"

definition seats :: "consumer_registry \<Rightarrow> nat" where
  "seats reg = length reg"

section \<open>The caches of the floor\<close>

record shared_floor =
  highest_floor :: usize

definition shared_floor_new :: shared_floor where
  "shared_floor_new = \<lparr>highest_floor = 0\<rparr>"

definition shared_get :: "shared_floor \<Rightarrow> usize" where
  "shared_get s = highest_floor s"

definition shared_publish :: "usize \<Rightarrow> shared_floor \<Rightarrow> shared_floor" where
  "shared_publish h s = s\<lparr>highest_floor := max (highest_floor s) h\<rparr>"

record floor_cache =
  private_floor :: usize

definition floor_cache_new :: floor_cache where
  "floor_cache_new = \<lparr>private_floor = 0\<rparr>"

definition cached_floor :: "floor_cache \<Rightarrow> consumer_floor" where
  "cached_floor c = At (private_floor c)"

text \<open>
  The shared level and the registry are part of a state \<open>'s\<close>: \<open>get\<close> and \<open>put\<close> reach the
  shared level in it, and \<open>scan\<close> is the closure the caller passes.
\<close>

definition fc_refresh ::
    "('s \<Rightarrow> shared_floor) \<Rightarrow> (shared_floor \<Rightarrow> 's \<Rightarrow> 's) \<Rightarrow> ('s \<Rightarrow> consumer_floor \<times> 's)
      \<Rightarrow> floor_cache \<Rightarrow> 's \<Rightarrow> consumer_floor \<times> floor_cache \<times> 's" where
  "fc_refresh get put scan c s =
     (case scan s of
        (NoConsumers, s1) \<Rightarrow> (NoConsumers, c, s1)
      | (At h, s1) \<Rightarrow> (At h, c\<lparr>private_floor := h\<rparr>, put (shared_publish h (get s1)) s1))"

definition fc_permits ::
    "('s \<Rightarrow> shared_floor) \<Rightarrow> (shared_floor \<Rightarrow> 's \<Rightarrow> 's) \<Rightarrow> ('s \<Rightarrow> consumer_floor \<times> 's)
      \<Rightarrow> usize \<Rightarrow> usize \<Rightarrow> bool \<Rightarrow> floor_cache \<Rightarrow> 's \<Rightarrow> bool \<times> floor_cache \<times> 's" where
  "fc_permits get put scan pos n subscribed c s =
     (let published = shared_get (get s);
          c1 = (if subscribed \<and> \<not> floor_permits (cached_floor c) pos n
                then c\<lparr>private_floor := published\<rparr> else c)
      in
      if subscribed \<and> floor_permits (cached_floor c) pos n then (True, c, s)
      else if subscribed \<and> floor_permits (At published) pos n then (True, c1, s)
      else
        case fc_refresh get put scan c1 s of
          (floor, c2, s2) \<Rightarrow> (floor_permits floor pos n, c2, s2))"

section \<open>What the words say\<close>

text \<open>Below the limit the three states of a position are three distinct words.\<close>

lemma published_word_of_nat:
  assumes "p < 2 ^ 63"
  shows "unat (published_word (of_nat p)) = 2 * p + 1"
  using unat_double(2) [OF assms] by (simp add: published_word_def)

lemma abandoned_word_of_nat:
  assumes "p < POS_LIMIT"
  shows "unat (abandoned_word (of_nat p)) = 2 * p + 2"
proof -
  have "abandoned_word (of_nat p) = of_nat (2 * p + 2)"
    by (simp add: abandoned_word_def mult.commute)
  moreover have "2 * p + 2 < 2 ^ LENGTH(64)" using assms by (simp add: POS_LIMIT_def)
  ultimately show ?thesis by (simp only: unat_of_nat mod_less)
qed

lemma halve_of_nat:
  assumes "p < 2 ^ 63"
  shows "(of_nat (2 * p) :: usize) div 2 = of_nat p"
proof -
  have "2 * p < 2 ^ LENGTH(64)" using assms by simp
  then have "unat (of_nat (2 * p) :: usize) = 2 * p" by (simp only: unat_of_nat mod_less)
  moreover have "p < 2 ^ LENGTH(64)" using assms by simp
  then have "unat (of_nat p :: usize) = p" by (simp only: unat_of_nat mod_less)
  ultimately show ?thesis by (simp only: word_unat_eq_iff unat_div) simp
qed

lemma word_parity: "(w :: usize) mod 2 = 1 \<longleftrightarrow> odd (unat w)"
  by (simp add: word_unat_eq_iff unat_mod odd_iff_mod_2_eq_one)

lemma word_nonzero: "(w :: usize) \<noteq> 0 \<longleftrightarrow> unat w \<noteq> 0"
  by (simp add: unat_eq_zero)

lemma decode_published:
  assumes "p < 2 ^ 63"
  shows "decode (published_word (of_nat p)) = Published (of_nat p)"
proof -
  let ?w = "published_word (of_nat p)"
  note u = published_word_of_nat [OF assms]
  have "?w \<noteq> VACANT" and "?w mod 2 = 1" unfolding VACANT_def word_nonzero word_parity u by simp_all
  moreover have "?w - 1 = of_nat (2 * p)" by (simp add: published_word_def mult.commute)
  ultimately show ?thesis by (simp only: decode_def halve_of_nat [OF assms]) simp
qed

lemma decode_abandoned:
  assumes "p < POS_LIMIT"
  shows "decode (abandoned_word (of_nat p)) = Abandoned (of_nat p)"
proof -
  let ?w = "abandoned_word (of_nat p)"
  note u = abandoned_word_of_nat [OF assms]
  have "?w \<noteq> VACANT" and "?w mod 2 \<noteq> 1" unfolding VACANT_def word_nonzero word_parity u by simp_all
  moreover have "?w - 2 = of_nat (2 * p)" by (simp add: abandoned_word_def mult.commute)
  moreover have "p < 2 ^ 63" using assms by (simp add: POS_LIMIT_def)
  ultimately show ?thesis by (simp only: decode_def halve_of_nat) simp
qed

lemma decode_VACANT [simp]: "decode VACANT = Vacant"
  by (simp add: decode_def)

lemma words_not_vacant:
  shows "p < 2 ^ 63 \<Longrightarrow> published_word (of_nat p) \<noteq> VACANT"
    and "p < POS_LIMIT \<Longrightarrow> abandoned_word (of_nat p) \<noteq> VACANT"
  using decode_published decode_abandoned decode_VACANT by (metis slot_state.distinct)+

section \<open>The floor check is exact\<close>

definition heads_of :: "consumer_registry \<Rightarrow> nat list" where
  "heads_of reg = map unat (List.map_filter subscribed_head reg)"

text \<open>Some consumer is there, and every consumer's head leaves the slot of \<open>pos\<close> free.\<close>

definition writable :: "nat \<Rightarrow> nat list \<Rightarrow> nat \<Rightarrow> bool" where
  "writable n hs pos \<longleftrightarrow> hs \<noteq> [] \<and> (\<forall>h \<in> set hs. pos < h + n)"

text \<open>A cached floor is behind every consumer, and not past the tail.\<close>

definition floor_behind :: "nat list \<Rightarrow> nat \<Rightarrow> usize \<Rightarrow> bool" where
  "floor_behind hs t m \<longleftrightarrow> unat m \<le> t \<and> (\<forall>h \<in> set hs. unat m \<le> h)"

lemma any_subscribed_heads: "any_subscribed reg \<longleftrightarrow> heads_of reg \<noteq> []"
  by (induction reg) (auto simp: any_subscribed_def heads_of_def subscribed_head_def)

lemma floor_permits_At:
  assumes "0 < n"
  shows "floor_permits (At m) pos n \<longleftrightarrow> unat pos < unat m + unat n"
proof (cases "m \<ge> pos")
  case True
  then show ?thesis using assms by (simp add: word_le_nat_alt word_less_nat_alt)
next
  case False
  then have "unat (pos - m) = unat pos - unat m" by (simp add: unat_sub)
  then show ?thesis using False by (auto simp: word_le_nat_alt word_less_nat_alt)
qed

declare floor_permits.simps(2) [simp del]

lemma fold_min_le: "fold min hs (h :: 'o :: linorder) \<le> h \<and> (\<forall>x \<in> set hs. fold min hs h \<le> x)"
proof (induction hs arbitrary: h)
  case (Cons x hs)
  then show ?case using Cons.IH [of "min x h"] by (auto simp: min.coboundedI2 intro: order_trans)
qed simp

lemma fold_min_in: "fold min hs (h :: 'o :: linorder) \<in> insert h (set hs)"
proof (induction hs arbitrary: h)
  case (Cons x hs)
  then show ?case using Cons.IH [of "min x h"] by (auto simp: min_def split: if_splits)
qed simp

lemma registry_floor_cases:
  shows "heads_of reg = [] \<Longrightarrow> registry_floor reg = NoConsumers"
    and "heads_of reg \<noteq> [] \<Longrightarrow> \<exists>m. registry_floor reg = At m \<and> unat m \<in> set (heads_of reg)
      \<and> (\<forall>h \<in> set (heads_of reg). unat m \<le> h)"
proof -
  obtain ms where ms: "List.map_filter subscribed_head reg = ms" by simp
  show "heads_of reg = [] \<Longrightarrow> registry_floor reg = NoConsumers"
    by (simp add: heads_of_def registry_floor_def)
  assume "heads_of reg \<noteq> []"
  then obtain x xs where "ms = x # xs" by (cases ms) (auto simp: heads_of_def ms)
  then show "\<exists>m. registry_floor reg = At m \<and> unat m \<in> set (heads_of reg)
      \<and> (\<forall>h \<in> set (heads_of reg). unat m \<le> h)"
    using fold_min_le [of xs x] fold_min_in [of xs x]
    by (auto simp: heads_of_def registry_floor_def ms simp flip: word_le_nat_alt)
qed

lemma floor_behind_permits:
  assumes "floor_behind hs t m" and "hs \<noteq> []" and "0 < n" and "floor_permits (At m) pos n"
  shows "writable (unat n) hs (unat pos)"
proof -
  have "unat pos < unat m + unat n" using assms(3,4) floor_permits_At by blast
  then show ?thesis using assms(1,2) by (force simp: floor_behind_def writable_def)
qed

lemma scan_permits:
  assumes "0 < n"
  shows "floor_permits (registry_floor reg) pos n \<longleftrightarrow> writable (unat n) (heads_of reg) (unat pos)"
proof (cases "heads_of reg = []")
  case False
  then obtain m where m: "registry_floor reg = At m" "unat m \<in> set (heads_of reg)"
      "\<forall>h \<in> set (heads_of reg). unat m \<le> h" using registry_floor_cases(2) by blast
  have "unat pos < unat m + unat n \<longleftrightarrow> (\<forall>h \<in> set (heads_of reg). unat pos < h + unat n)"
    using m(2,3) by fastforce
  then show ?thesis using False m(1) by (simp add: floor_permits_At [OF assms] writable_def)
qed (simp add: registry_floor_cases writable_def)

text \<open>
  Three levels, one answer: with caches behind every consumer, the check agrees with the
  full scan, and the caches stay behind.
\<close>

lemma fc_permits_exact:
  assumes "scan s = (registry_floor reg, s)" and "0 < n"
    and "floor_behind (heads_of reg) t (private_floor c)"
    and "floor_behind (heads_of reg) t (highest_floor (get s))"
    and "\<forall>h \<in> set (heads_of reg). h \<le> t"
  shows "\<exists>c1 s1. fc_permits get put scan pos n (any_subscribed reg) c s
      = (writable (unat n) (heads_of reg) (unat pos), c1, s1)
    \<and> floor_behind (heads_of reg) t (private_floor c1)
    \<and> (s1 = s \<or> (\<exists>x. s1 = put x s \<and> floor_behind (heads_of reg) t (highest_floor x)))"
proof (cases "heads_of reg = []")
  case True
  then show ?thesis
    using assms by (simp add: fc_permits_def fc_refresh_def any_subscribed_heads registry_floor_cases
        writable_def Let_def)
next
  case False
  let ?hs = "heads_of reg" and ?m = "highest_floor (get s)"
  obtain f where f: "registry_floor reg = At f" "unat f \<in> set ?hs" "\<forall>h \<in> set ?hs. unat f \<le> h"
    using registry_floor_cases(2) [OF False] by blast
  have behind: "floor_behind ?hs t f" "floor_behind ?hs t (max ?m f)"
    using f assms(4,5) by (auto simp: floor_behind_def max_def)
  consider "floor_permits (cached_floor c) pos n"
    | "\<not> floor_permits (cached_floor c) pos n" "floor_permits (At ?m) pos n"
    | "\<not> floor_permits (cached_floor c) pos n" "\<not> floor_permits (At ?m) pos n" by blast
  then show ?thesis
  proof cases
    case 1
    then have "writable (unat n) ?hs (unat pos)"
      using floor_behind_permits [OF assms(3) False assms(2)] by (simp add: cached_floor_def)
    then show ?thesis using 1 assms(3) False by (simp add: fc_permits_def any_subscribed_heads Let_def)
  next
    case 2
    then have "writable (unat n) ?hs (unat pos)"
      using floor_behind_permits [OF assms(4) False assms(2)] by simp
    then show ?thesis using 2 assms(4) False
      by (simp add: fc_permits_def any_subscribed_heads shared_get_def Let_def)
  next
    case 3
    have "fc_permits get put scan pos n (any_subscribed reg) c s =
      (floor_permits (At f) pos n, c\<lparr>private_floor := f\<rparr>, put (shared_publish f (get s)) s)"
      using False 3 assms(1) f(1)
      by (simp add: fc_permits_def fc_refresh_def any_subscribed_heads shared_get_def)
    moreover have "highest_floor (shared_publish f (get s)) = max ?m f"
      by (simp add: shared_publish_def)
    ultimately show ?thesis
      using behind scan_permits [OF assms(2), of reg pos] f(1)
      by (intro exI [of _ "c\<lparr>private_floor := f\<rparr>"] exI [of _ "put (shared_publish f (get s)) s"]) auto
  qed
qed

end
