(* ===== verification/Broadcast.thy ===== *)
theory Broadcast
  imports Broadcast_Parts Wake_Set Backoff
begin

text \<open>
  \<open>src/broadcast\<close>: the ring every consumer reads in full. A producer claims a position
  with an exchange on the tail once the slowest consumer has left the slot, destroys the
  value that was there a lap ago, and publishes; a consumer owns only its head, in the
  registry, and clones or borrows what it reads. \<open>b_unparked\<close> and \<open>b_dropped\<close> log the
  threads unparked and the values destroyed.
\<close>

section \<open>The ring\<close>

record 'a bc_slot =
  bs_data :: "'a maybe_uninit"
  bs_sequence :: sequence_word

record 'a bc_ring =
  b_buf :: "'a bc_slot list"
  b_capacity :: capacity
  b_consumers :: consumer_registry
  b_tail :: usize
  b_min_head_cache :: shared_floor
  b_producer_park :: wake_set
  b_producer_park_slots :: park_registry
  b_unparked :: "thread_id list"
  b_dropped :: "'a list"

record bc_producer =
  bp_floor_cache :: floor_cache
  bp_park_slot :: park_slot

record bc_consumer =
  bc_slot_index :: nat

text \<open>
  What the ring asks of the element type: whether it has a destructor at all
  (\<open>std::mem::needs_drop\<close>), what running it does, and its \<open>Clone\<close>, \<open>None\<close> when it panics.
\<close>

record 'a element =
  needs_drop :: bool
  drop_value :: "'a \<Rightarrow> completion"
  clone_value :: "'a \<Rightarrow> 'a option"

text \<open>A call that may unwind with a panic of user code.\<close>

datatype 'x outcome = Normal 'x | Unwound

definition bc_new :: "capacity \<Rightarrow> nat \<Rightarrow> 'a bc_ring exec" where
  "bc_new c max_consumers =
     seq_exec (aligned_buf_new_with (capacity_get c)
       (\<lambda>_. \<lparr>bs_data = None, bs_sequence = bw_vacant\<rparr>)) (\<lambda>buf.
     seq_exec (seats_new max_consumers) (\<lambda>reg.
       Inr \<lparr>b_buf = buf, b_capacity = c, b_consumers = reg, b_tail = 0,
            b_min_head_cache = shared_floor_new, b_producer_park = wake_set_new,
            b_producer_park_slots = registry_new, b_unparked = [], b_dropped = []\<rparr>))"

definition bc_wake_producer :: "'a bc_ring \<Rightarrow> 'a bc_ring" where
  "bc_wake_producer r =
     (case ws_wake_one (b_producer_park r) of
        (us, p) \<Rightarrow> r\<lparr>b_producer_park := p, b_unparked := b_unparked r @ us\<rparr>)"

definition bc_flush :: "'a bc_ring \<Rightarrow> 'a bc_ring" where
  "bc_flush r =
     (case ws_flush (b_producer_park r) of
        (us, p) \<Rightarrow> r\<lparr>b_producer_park := p, b_unparked := b_unparked r @ us\<rparr>)"

definition bc_slot :: "'a bc_ring \<Rightarrow> usize \<Rightarrow> nat" where
  "bc_slot r pos = unat (index_of (b_capacity r) pos)"

definition bc_load_slot :: "'a bc_ring \<Rightarrow> nat \<Rightarrow> 'a bc_slot exec" where
  "bc_load_slot r i = (if i < length (b_buf r) then Inr (b_buf r ! i) else Inl Index_Out_Of_Bounds)"

definition bc_update_slot ::
    "nat \<Rightarrow> ('a bc_slot \<Rightarrow> 'a bc_slot) \<Rightarrow> 'a bc_ring \<Rightarrow> 'a bc_ring exec" where
  "bc_update_slot i f r =
     seq_exec (bc_load_slot r i) (\<lambda>s. Inr (r\<lparr>b_buf := (b_buf r)[i := f s]\<rparr>))"

definition bc_classify :: "'a bc_slot \<Rightarrow> usize \<Rightarrow> slot_snapshot" where
  "bc_classify s pos = bw_classify (bs_sequence s) pos"

definition bc_write_data :: "nat \<Rightarrow> 'a \<Rightarrow> 'a bc_ring \<Rightarrow> 'a bc_ring exec" where
  "bc_write_data i v r = bc_update_slot i (\<lambda>s. s\<lparr>bs_data := Some v\<rparr>) r"

definition bc_publish :: "nat \<Rightarrow> usize \<Rightarrow> 'a bc_ring \<Rightarrow> 'a bc_ring exec" where
  "bc_publish i pos r =
     bc_update_slot i (\<lambda>s. s\<lparr>bs_sequence := bw_publish (bs_sequence s) pos\<rparr>) r"

definition bc_abandon :: "nat \<Rightarrow> usize \<Rightarrow> 'a bc_ring \<Rightarrow> 'a bc_ring exec" where
  "bc_abandon i pos r =
     bc_update_slot i (\<lambda>s. s\<lparr>bs_sequence := bw_abandon (bs_sequence s) pos\<rparr>) r"

text \<open>A value in a slot, looked at or destroyed in place.\<close>

definition bc_peek_data :: "nat \<Rightarrow> 'a bc_ring \<Rightarrow> 'a exec" where
  "bc_peek_data i r =
     seq_exec (bc_load_slot r i) (\<lambda>s.
       case bs_data s of None \<Rightarrow> Inl Uninitialized_Read | Some v \<Rightarrow> Inr v)"

definition bc_drop_data :: "nat \<Rightarrow> 'a bc_ring \<Rightarrow> ('a \<times> 'a bc_ring) exec" where
  "bc_drop_data i r =
     seq_exec (bc_peek_data i r) (\<lambda>v.
     seq_exec (bc_update_slot i (\<lambda>s. s\<lparr>bs_data := None\<rparr>) r) (\<lambda>r1.
       Inr (v, r1\<lparr>b_dropped := b_dropped r1 @ [v]\<rparr>)))"

section \<open>Handles\<close>

definition bc_split :: "'a bc_ring \<Rightarrow> (bc_producer \<times> bc_consumer \<times> 'a bc_ring) exec" where
  "bc_split r =
     seq_exec (subscribe_first (b_consumers r)) (\<lambda>(i, reg).
       case registry_lease (b_producer_park_slots r) of
         (slot, pslots) \<Rightarrow>
           Inr (\<lparr>bp_floor_cache = floor_cache_new, bp_park_slot = slot\<rparr>, \<lparr>bc_slot_index = i\<rparr>,
                r\<lparr>b_consumers := reg, b_producer_park_slots := pslots\<rparr>))"

definition bc_producer_clone :: "'a bc_ring \<Rightarrow> bc_producer \<times> 'a bc_ring" where
  "bc_producer_clone r =
     (case registry_lease (b_producer_park_slots r) of
        (slot, pslots) \<Rightarrow>
          (\<lparr>bp_floor_cache = floor_cache_new, bp_park_slot = slot\<rparr>,
           r\<lparr>b_producer_park_slots := pslots\<rparr>))"

definition bc_producer_drop :: "bc_producer \<Rightarrow> 'a bc_ring \<Rightarrow> 'a bc_ring" where
  "bc_producer_drop p r =
     r\<lparr>b_producer_park_slots := registry_release (bp_park_slot p) (b_producer_park_slots r)\<rparr>"

definition bc_consumer_clone :: "'a bc_ring \<Rightarrow> (bc_consumer \<times> 'a bc_ring) exec" where
  "bc_consumer_clone r =
     seq_exec (subscribe_at (b_tail r) (b_consumers r)) (\<lambda>(i, reg).
       Inr (\<lparr>bc_slot_index = i\<rparr>, r\<lparr>b_consumers := reg\<rparr>))"

definition bc_consumer_drop :: "bc_consumer \<Rightarrow> 'a bc_ring \<Rightarrow> 'a bc_ring exec" where
  "bc_consumer_drop c r =
     seq_exec (unsubscribe (bc_slot_index c) (b_consumers r)) (\<lambda>reg.
       Inr (bc_flush (r\<lparr>b_consumers := reg\<rparr>)))"

definition bc_consumer_floor :: "'a bc_ring \<Rightarrow> consumer_floor" where
  "bc_consumer_floor r = registry_floor (b_consumers r)"

definition bc_len :: "'a bc_ring \<Rightarrow> usize" where
  "bc_len r = b_tail r - position_or_tail (bc_consumer_floor r) (b_tail r)"

definition bc_is_empty :: "'a bc_ring \<Rightarrow> bool" where
  "bc_is_empty r \<longleftrightarrow> bc_len r = 0"

definition bc_is_full :: "'a bc_ring \<Rightarrow> bool" where
  "bc_is_full r \<longleftrightarrow> bc_len r \<ge> capacity_get (b_capacity r)"

section \<open>Claiming a position\<close>

text \<open>
  One turn of the claim loop against interference of the other endpoints: \<open>turn_load\<close>
  falls between the load of the tail and the floor check, \<open>turn_scan\<close> between the loads
  of the registry's seats when the check scans them, \<open>turn_settle\<close> between the checks and
  the exchange, which may fail spuriously (\<open>turn_weak\<close>). Without turns left there is no
  interference.
\<close>

record 'r claim_turn =
  turn_load :: "'r \<Rightarrow> 'r"
  turn_scan :: "('r \<Rightarrow> 'r) list"
  turn_settle :: "'r \<Rightarrow> 'r"
  turn_weak :: bool

definition quiet_turn :: "'r claim_turn" where
  "quiet_turn = \<lparr>turn_load = id, turn_scan = [], turn_settle = id, turn_weak = False\<rparr>"

text \<open>The scan of \<open>ConsumerRegistry::floor\<close>, one seat after the other.\<close>

fun bc_scan_seats ::
    "('a bc_ring \<Rightarrow> 'a bc_ring) list \<Rightarrow> nat list \<Rightarrow> usize list \<Rightarrow> 'a bc_ring
      \<Rightarrow> consumer_floor \<times> 'a bc_ring" where
  "bc_scan_seats fs [] hs r = (floor_of_heads hs, r)"
| "bc_scan_seats fs (i # is) hs r =
     (let r1 = (case fs of [] \<Rightarrow> r | f # _ \<Rightarrow> f r) in
      case subscribed_head (b_consumers r1 ! i) of
        None \<Rightarrow> bc_scan_seats (tl fs) is hs r1
      | Some h \<Rightarrow> bc_scan_seats (tl fs) is (hs @ [h]) r1)"

definition bc_scan :: "('a bc_ring \<Rightarrow> 'a bc_ring) list \<Rightarrow> 'a bc_ring \<Rightarrow> consumer_floor \<times> 'a bc_ring" where
  "bc_scan fs r = bc_scan_seats fs [0..<seats (b_consumers r)] [] r"

definition bc_permits_with_refresh ::
    "('a bc_ring \<Rightarrow> 'a bc_ring) list \<Rightarrow> usize \<Rightarrow> bc_producer \<Rightarrow> 'a bc_ring
      \<Rightarrow> bool \<times> bc_producer \<times> 'a bc_ring" where
  "bc_permits_with_refresh fs pos p r =
     (case fc_permits b_min_head_cache (\<lambda>x s. s\<lparr>b_min_head_cache := x\<rparr>) (bc_scan fs)
             pos (capacity_get (b_capacity r)) (any_subscribed (b_consumers r)) (bp_floor_cache p) r of
        (ok, cache, r1) \<Rightarrow> (ok, p\<lparr>bp_floor_cache := cache\<rparr>, r1))"

definition bc_has_space :: "bc_producer \<Rightarrow> 'a bc_ring \<Rightarrow> bool \<times> bc_producer \<times> 'a bc_ring" where
  "bc_has_space p r = bc_permits_with_refresh [] (b_tail r) p r"

lemma scan_quiet:
  "bc_scan_seats [] is hs r =
    (floor_of_heads (hs @ List.map_filter subscribed_head (map ((!) (b_consumers r)) is)), r)"
  by (induction "[] :: ('a bc_ring \<Rightarrow> 'a bc_ring) list" "is" hs r rule: bc_scan_seats.induct)
    (simp_all split: option.split)

lemma bc_scan_quiet: "bc_scan [] r = (bc_consumer_floor r, r)"
  by (simp add: bc_scan_def scan_quiet bc_consumer_floor_def registry_floor_def seats_def map_nth)

lemma permits_quiet_tail:
  "bc_permits_with_refresh [] pos p r = (ok, p1, r1) \<Longrightarrow> b_tail r1 = b_tail r"
  by (auto simp: bc_permits_with_refresh_def fc_permits_def fc_refresh_def bc_scan_quiet Let_def
      split: if_splits prod.splits consumer_floor.splits)

fun next_turn :: "'r claim_turn list \<Rightarrow> 'r claim_turn \<times> 'r claim_turn list" where
  "next_turn [] = (quiet_turn, [])"
| "next_turn (x # xs) = (x, xs)"

function bc_claim_loop ::
    "'a bc_ring claim_turn list \<Rightarrow> usize \<Rightarrow> bc_producer \<Rightarrow> 'a bc_ring
      \<Rightarrow> (usize option \<times> bc_producer \<times> 'a bc_ring) exec" where
  "bc_claim_loop turns current_tail p r =
     (let (turn, rest) = next_turn turns;
          r1 = turn_load turn r
      in
      case bc_permits_with_refresh (turn_scan turn) current_tail p r1 of
        (False, p1, r2) \<Rightarrow> Inr (None, p1, r2)
      | (True, p1, r2) \<Rightarrow>
          seq_exec (bc_load_slot r2 (bc_slot r2 current_tail)) (\<lambda>s.
          if \<not> prior_occupant_resolved (capacity_get (b_capacity r2)) current_tail (bs_sequence s)
          then Inr (None, p1, r2)
          else
            let r3 = turn_settle turn r2 in
            if \<not> turn_weak turn \<and> b_tail r3 = current_tail
            then Inr (Some current_tail, p1, r3\<lparr>b_tail := current_tail + 1\<rparr>)
            else bc_claim_loop rest (b_tail r3) p1 r3))"
  by pat_completeness auto
termination
  by (relation "measures [\<lambda>(turns, _). length turns, \<lambda>(_, t, _, r). if b_tail r = t then 0 else 1]")
    (auto simp: quiet_turn_def elim!: next_turn.elims [OF sym] dest!: permits_quiet_tail [OF sym])

declare bc_claim_loop.simps [simp del]

text \<open>
  \<open>claim_slot\<close>: after the exchange the slot is taken and the value of the last lap
  destroyed in place; \<open>gap\<close> is what the others do between the exchange and the swap of
  the word. A panicking destructor unwinds out of the claim.
\<close>

definition bc_claim_slot ::
    "'a element \<Rightarrow> 'a bc_ring claim_turn list \<Rightarrow> ('a bc_ring \<Rightarrow> 'a bc_ring) \<Rightarrow> bc_producer \<Rightarrow> 'a bc_ring
      \<Rightarrow> ((nat \<times> usize) option outcome \<times> bc_producer \<times> 'a bc_ring) exec" where
  "bc_claim_slot el turns gap p r =
     seq_exec (bc_claim_loop turns (b_tail r) p r) (\<lambda>(claimed, p1, r1).
     case claimed of
       None \<Rightarrow> Inr (Normal None, p1, r1)
     | Some pos \<Rightarrow>
         let r2 = gap r1; i = bc_slot r2 pos in
         seq_exec (bc_load_slot r2 i) (\<lambda>s.
         if needs_drop el then
           (case bw_claim_taking_previous (bs_sequence s) of
              (previous, w) \<Rightarrow>
                seq_exec (bc_update_slot i (\<lambda>s. s\<lparr>bs_sequence := w\<rparr>) r2) (\<lambda>r3.
                if holds_value previous then
                  seq_exec (bc_drop_data i r3) (\<lambda>(v, r4).
                    Inr (case drop_value el v of Panicked \<Rightarrow> Unwound | Returned \<Rightarrow> Normal (Some (i, pos)),
                         p1, r4))
                else Inr (Normal (Some (i, pos)), p1, r3)))
         else
           seq_exec (bc_update_slot i (\<lambda>s. s\<lparr>bs_sequence := bw_claim (bs_sequence s)\<rparr>) r2) (\<lambda>r3.
             Inr (Normal (Some (i, pos)), p1, r3))))"

section \<open>The producer's operations\<close>

text \<open>
  A push whose claim unwinds drops the value it was given on the way out; a second panic
  there aborts the process.
\<close>

definition bc_push ::
    "'a element \<Rightarrow> 'a bc_ring claim_turn list \<Rightarrow> ('a bc_ring \<Rightarrow> 'a bc_ring) \<Rightarrow> 'a \<Rightarrow> bc_producer \<Rightarrow> 'a bc_ring
      \<Rightarrow> ('a push_result outcome \<times> bc_producer \<times> 'a bc_ring) exec" where
  "bc_push el turns gap v p r =
     seq_exec (bc_claim_slot el turns gap p r) (\<lambda>(claimed, p1, r1).
     case claimed of
       Unwound \<Rightarrow>
         (case drop_value el v of
            Panicked \<Rightarrow> Inl Assertion_Failed
          | Returned \<Rightarrow> Inr (Unwound, p1, r1\<lparr>b_dropped := b_dropped r1 @ [v]\<rparr>))
     | Normal None \<Rightarrow> Inr (Normal (Push_Err v), p1, r1)
     | Normal (Some (i, pos)) \<Rightarrow>
         seq_exec (bc_write_data i v r1) (\<lambda>r2.
         seq_exec (bc_publish i pos r2) (\<lambda>r3.
           Inr (Normal Push_Ok, p1, r3))))"

record bc_slot_writer =
  bsw_slot :: nat
  bsw_pos :: usize

record bc_written_slot =
  bws_value :: uncommitted_slot
  bws_slot :: nat
  bws_pos :: usize

definition bc_reserve ::
    "'a element \<Rightarrow> 'a bc_ring claim_turn list \<Rightarrow> ('a bc_ring \<Rightarrow> 'a bc_ring) \<Rightarrow> bc_producer \<Rightarrow> 'a bc_ring
      \<Rightarrow> (bc_slot_writer option outcome \<times> bc_producer \<times> 'a bc_ring) exec" where
  "bc_reserve el turns gap p r =
     seq_exec (bc_claim_slot el turns gap p r) (\<lambda>(claimed, p1, r1).
       Inr (case claimed of
              Unwound \<Rightarrow> Unwound
            | Normal c \<Rightarrow> Normal (map_option (\<lambda>(i, pos). \<lparr>bsw_slot = i, bsw_pos = pos\<rparr>) c),
            p1, r1))"

definition bc_slot_mut_write :: "bc_slot_writer \<Rightarrow> 'a \<Rightarrow> 'a bc_ring \<Rightarrow> 'a bc_ring exec" where
  "bc_slot_mut_write w v r = bc_write_data (bsw_slot w) v r"

definition bc_write ::
    "bc_slot_writer \<Rightarrow> 'a \<Rightarrow> 'a bc_ring \<Rightarrow> (bc_written_slot \<times> 'a bc_ring) exec" where
  "bc_write w v r =
     seq_exec (bc_write_data (bsw_slot w) v r) (\<lambda>r1.
       Inr (\<lparr>bws_value = uncommitted_armed (bsw_slot w), bws_slot = bsw_slot w, bws_pos = bsw_pos w\<rparr>, r1))"

definition bc_commit_unchecked :: "bc_slot_writer \<Rightarrow> 'a bc_ring \<Rightarrow> 'a bc_ring exec" where
  "bc_commit_unchecked w r = bc_publish (bsw_slot w) (bsw_pos w) r"

text \<open>\<open>ReservationAbandon\<close>, and the drop of a writer, which does the same.\<close>

definition reservation_abandon_drop :: "nat \<Rightarrow> usize \<Rightarrow> 'a bc_ring \<Rightarrow> 'a bc_ring exec" where
  "reservation_abandon_drop i pos r =
     seq_exec (bc_abandon i pos r) (\<lambda>r1. Inr (bc_wake_producer r1))"

definition bc_slot_writer_drop :: "bc_slot_writer \<Rightarrow> 'a bc_ring \<Rightarrow> 'a bc_ring exec" where
  "bc_slot_writer_drop w r =
     seq_exec (bc_abandon (bsw_slot w) (bsw_pos w) r) (\<lambda>r1. Inr (bc_wake_producer r1))"

text \<open>
  \<open>UncommittedSlot\<close> works on the cells of the ring. The drop of a written slot destroys
  the value under the guard that abandons the position; the drop of the field after it
  finds a disarmed guard.
\<close>

definition bc_cells :: "'a bc_ring \<Rightarrow> 'a maybe_uninit list" where
  "bc_cells r = map bs_data (b_buf r)"

definition bc_set_cells :: "'a maybe_uninit list \<Rightarrow> 'a bc_ring \<Rightarrow> 'a bc_ring" where
  "bc_set_cells cells r = r\<lparr>b_buf := map2 (\<lambda>s d. s\<lparr>bs_data := d\<rparr>) (b_buf r) cells\<rparr>"

definition bc_written_slot_drop ::
    "'a element \<Rightarrow> bc_written_slot \<Rightarrow> 'a bc_ring \<Rightarrow> (completion \<times> 'a bc_ring) exec" where
  "bc_written_slot_drop el w r =
     (if \<not> uncommitted_is_armed (bws_value w) then
        seq_exec (uncommitted_drop (bws_value w) (bc_cells r)) (\<lambda>(gone, cells).
          Inr (Returned, bc_set_cells cells (r\<lparr>b_dropped := b_dropped r @ gone\<rparr>)))
      else
        seq_exec (drop_if_uncommitted (bws_value w) (bc_cells r)) (\<lambda>(_, gone, value, cells).
        seq_exec (reservation_abandon_drop (bws_slot w) (bws_pos w)
          (bc_set_cells cells (r\<lparr>b_dropped := b_dropped r @ gone\<rparr>))) (\<lambda>r1.
        seq_exec (uncommitted_drop value (bc_cells r1)) (\<lambda>(gone1, cells1).
        Inr (if Panicked \<in> drop_value el ` set gone then Panicked else Returned,
             bc_set_cells cells1 (r1\<lparr>b_dropped := b_dropped r1 @ gone1\<rparr>))))))"

definition bc_commit ::
    "'a element \<Rightarrow> bc_written_slot \<Rightarrow> 'a bc_ring \<Rightarrow> (completion \<times> 'a bc_ring) exec" where
  "bc_commit el w r =
     (let w1 = w\<lparr>bws_value := uncommitted_commit (bws_value w)\<rparr> in
      seq_exec (bc_publish (bws_slot w) (bws_pos w) r) (\<lambda>r1. bc_written_slot_drop el w1 r1))"

section \<open>The consumer's operations\<close>

definition bc_advance_head :: "nat \<Rightarrow> usize \<Rightarrow> 'a bc_ring \<Rightarrow> 'a bc_ring exec" where
  "bc_advance_head i h r =
     seq_exec (publish_head_past i h (b_consumers r)) (\<lambda>reg.
       Inr (bc_wake_producer (r\<lparr>b_consumers := reg\<rparr>)))"

text \<open>\<open>HeadAdvance\<close> does the same when it is dropped, after the clone and on its unwind path.\<close>

definition head_advance_drop :: "nat \<Rightarrow> usize \<Rightarrow> 'a bc_ring \<Rightarrow> 'a bc_ring exec" where
  "head_advance_drop i h r =
     seq_exec (publish_head_past i h (b_consumers r)) (\<lambda>reg.
       Inr (bc_wake_producer (r\<lparr>b_consumers := reg\<rparr>)))"

text \<open>
  The marks a consumer may still skip: abandoned words that name a position not before
  its head. A turn of its loops passes the one at the head.
\<close>

definition seat_pos :: "'a bc_ring \<Rightarrow> nat \<Rightarrow> usize" where
  "seat_pos r i = (if i < length (b_consumers r) then seat_head (b_consumers r ! i) else 0)"

definition marks_from :: "usize \<Rightarrow> 'a bc_slot list \<Rightarrow> nat" where
  "marks_from h buf = length (filter (\<lambda>s. case bw_state (bs_sequence s) of
      Abandoned a \<Rightarrow> unat h \<le> unat a | _ \<Rightarrow> False) buf)"

lemma decode_abandoned_bound:
  assumes "decode w = Abandoned a"
  shows "unat a < 2 ^ 63"
proof -
  have "a = (w - 2) div 2" using assms by (auto simp: decode_def split: if_splits)
  then have "unat a = unat (w - 2) div 2" by (simp add: unat_div)
  moreover have "unat (w - 2) < 2 ^ 64" using unsigned_less [where ?'a = nat and w = "w - 2"] by simp
  ultimately show ?thesis by simp
qed

lemma marks_decrease:
  assumes "i < length buf" and "bc_classify (buf ! i) h = Tombstoned"
  shows "marks_from (h + 1) buf < marks_from h buf"
proof -
  let ?P = "\<lambda>h s. case bw_state (bs_sequence s) of Abandoned a \<Rightarrow> unat h \<le> unat a | _ \<Rightarrow> False"
  have at: "bw_state (bs_sequence (buf ! i)) = Abandoned h"
    using assms(2) by (auto simp: bc_classify_def bw_classify_def bw_state_def split: slot_state.splits if_splits)
  have "unat h < 2 ^ 63" using decode_abandoned_bound at by (auto simp: bw_state_def)
  then have next_pos: "unat (h + 1) = Suc (unat h)" by (simp add: unat_word_ariths)
  have sub: "?P (h + 1) s \<Longrightarrow> ?P h s" for s :: "'a bc_slot"
    using next_pos by (cases "bw_state (bs_sequence s)") simp_all
  then have "filter (?P (h + 1)) buf = filter (?P (h + 1)) (filter (?P h) buf)"
    unfolding filter_filter by (intro filter_cong) blast+
  moreover have "buf ! i \<in> set (filter (?P h) buf)" "\<not> ?P (h + 1) (buf ! i)"
    using assms(1) at next_pos by simp_all
  ultimately show ?thesis
    unfolding marks_from_def by (metis length_filter_less)
qed

lemma bc_wake_simps [simp]:
  "b_buf (bc_wake_producer r) = b_buf r" "b_buf (bc_flush r) = b_buf r"
  "b_capacity (bc_wake_producer r) = b_capacity r" "b_capacity (bc_flush r) = b_capacity r"
  "b_consumers (bc_wake_producer r) = b_consumers r" "b_consumers (bc_flush r) = b_consumers r"
  "b_tail (bc_wake_producer r) = b_tail r" "b_tail (bc_flush r) = b_tail r"
  "b_min_head_cache (bc_wake_producer r) = b_min_head_cache r"
  "b_min_head_cache (bc_flush r) = b_min_head_cache r"
  "b_producer_park_slots (bc_wake_producer r) = b_producer_park_slots r"
  "b_producer_park_slots (bc_flush r) = b_producer_park_slots r"
  "b_dropped (bc_wake_producer r) = b_dropped r" "b_dropped (bc_flush r) = b_dropped r"
  by (simp_all add: bc_wake_producer_def bc_flush_def case_prod_beta)

lemma advance_marks:
  assumes "head_of (b_consumers r) i = Inr h" and "bc_load_slot r j = Inr s"
    and "bc_classify s h = Tombstoned" and "bc_advance_head i h r = Inr r1"
  shows "marks_from (seat_pos r1 i) (b_buf r1) < marks_from (seat_pos r i) (b_buf r)"
  using assms marks_decrease [of j "b_buf r" h]
  by (auto simp: head_of_def bc_load_slot_def bc_advance_head_def publish_head_past_def seat_update_def
      seat_pos_def seq_exec_eq_Inr split: if_splits)

function bc_pop ::
    "'a element \<Rightarrow> bc_consumer \<Rightarrow> 'a bc_ring \<Rightarrow> ('a option outcome \<times> 'a bc_ring) exec" where
  "bc_pop el c r =
     seq_exec (head_of (b_consumers r) (bc_slot_index c)) (\<lambda>h.
     seq_exec (bc_load_slot r (bc_slot r h)) (\<lambda>s.
     case bc_classify s h of
       Tombstoned \<Rightarrow> seq_exec (bc_advance_head (bc_slot_index c) h r) (\<lambda>r1. bc_pop el c r1)
     | NotReady \<Rightarrow> Inr (Normal None, r)
     | Ready \<Rightarrow>
         seq_exec (bc_peek_data (bc_slot r h) r) (\<lambda>v.
         seq_exec (head_advance_drop (bc_slot_index c) h r) (\<lambda>r1.
           Inr (case clone_value el v of None \<Rightarrow> Unwound | Some w \<Rightarrow> Normal (Some w), r1)))))"
  by pat_completeness auto
termination
  by (relation "measure (\<lambda>(_, c, r). marks_from (seat_pos r (bc_slot_index c)) (b_buf r))")
    (auto intro: advance_marks)

declare bc_pop.simps [simp del]

record bc_slot_reader =
  bsr_slot :: nat
  bsr_head :: usize

function bc_pop_ref ::
    "bc_consumer \<Rightarrow> 'a bc_ring \<Rightarrow> (bc_slot_reader option \<times> 'a bc_ring) exec" where
  "bc_pop_ref c r =
     seq_exec (head_of (b_consumers r) (bc_slot_index c)) (\<lambda>h.
     seq_exec (bc_load_slot r (bc_slot r h)) (\<lambda>s.
     case bc_classify s h of
       Tombstoned \<Rightarrow> seq_exec (bc_advance_head (bc_slot_index c) h r) (\<lambda>r1. bc_pop_ref c r1)
     | NotReady \<Rightarrow> Inr (None, r)
     | Ready \<Rightarrow> Inr (Some \<lparr>bsr_slot = bc_slot r h, bsr_head = h\<rparr>, r)))"
  by pat_completeness auto
termination
  by (relation "measure (\<lambda>(c, r). marks_from (seat_pos r (bc_slot_index c)) (b_buf r))")
    (auto intro: advance_marks)

declare bc_pop_ref.simps [simp del]

definition bc_reader_deref :: "bc_slot_reader \<Rightarrow> 'a bc_ring \<Rightarrow> 'a exec" where
  "bc_reader_deref rd r = bc_peek_data (bsr_slot rd) r"

definition bc_reader_drop :: "bc_consumer \<Rightarrow> bc_slot_reader \<Rightarrow> 'a bc_ring \<Rightarrow> 'a bc_ring exec" where
  "bc_reader_drop c rd r = bc_advance_head (bc_slot_index c) (bsr_head rd) r"

definition bc_consumer_len :: "bc_consumer \<Rightarrow> 'a bc_ring \<Rightarrow> usize exec" where
  "bc_consumer_len c r =
     seq_exec (head_of (b_consumers r) (bc_slot_index c)) (\<lambda>h. Inr (b_tail r - h))"

definition bc_consumer_is_empty :: "bc_consumer \<Rightarrow> 'a bc_ring \<Rightarrow> bool exec" where
  "bc_consumer_is_empty c r = seq_exec (bc_consumer_len c r) (\<lambda>n. Inr (n = 0))"

definition bc_consumer_is_full :: "bc_consumer \<Rightarrow> 'a bc_ring \<Rightarrow> bool exec" where
  "bc_consumer_is_full c r =
     seq_exec (bc_consumer_len c r) (\<lambda>n. Inr (n \<ge> capacity_get (b_capacity r)))"

section \<open>Dropping the ring\<close>

fun bc_drop_positions ::
    "'a element \<Rightarrow> usize list \<Rightarrow> 'a bc_ring \<Rightarrow> (completion \<times> 'a bc_ring) exec" where
  "bc_drop_positions el [] r = Inr (Returned, r)"
| "bc_drop_positions el (pos # ps) r =
     seq_exec (bc_load_slot r (bc_slot r pos)) (\<lambda>s.
     if holds_value (bw_state (bs_sequence s)) then
       seq_exec (bc_drop_data (bc_slot r pos) r) (\<lambda>(v, r1).
         case drop_value el v of
           Panicked \<Rightarrow> Inr (Panicked, r1)
         | Returned \<Rightarrow> bc_drop_positions el ps r1)
     else bc_drop_positions el ps r)"

definition bc_ring_drop :: "'a element \<Rightarrow> 'a bc_ring \<Rightarrow> (completion \<times> 'a bc_ring) exec" where
  "bc_ring_drop el r =
     (let t = b_tail r;
          start = t - min t (capacity_get (b_capacity r))
      in bc_drop_positions el (map of_nat [unat start..<unat t]) r)"

end
