(* ===== verification/Broadcast_Correct.thy ===== *)
theory Broadcast_Correct
  imports Broadcast Queue
begin

text \<open>
  The broadcast ring as the list of everything ever claimed: entry \<open>p\<close> says what became of
  position \<open>p\<close>, and each seat of the registry is free or holds a head. The slots carry
  the last lap of the list.
\<close>

section \<open>Entries and heads\<close>

datatype 'a bc_entry = Pending | Held 'a | Gap

fun bc_entry_ok :: "nat \<Rightarrow> 'a bc_entry \<Rightarrow> 'a bc_slot \<Rightarrow> bool" where
  "bc_entry_ok p Pending s \<longleftrightarrow> state_word (bs_sequence s) = VACANT"
| "bc_entry_ok p (Held v) s \<longleftrightarrow>
     state_word (bs_sequence s) = published_word (of_nat p) \<and> bs_data s = Some v"
| "bc_entry_ok p Gap s \<longleftrightarrow> state_word (bs_sequence s) = abandoned_word (of_nat p)"

fun seat_ok :: "nat option \<Rightarrow> consumer_slot \<Rightarrow> bool" where
  "seat_ok None s \<longleftrightarrow> \<not> seat_active s"
| "seat_ok (Some h) s \<longleftrightarrow> seat_active s \<and> seat_head s = of_nat h"

definition live_heads :: "nat option list \<Rightarrow> nat list" where
  "live_heads hs = List.map_filter (\<lambda>h. h) hs"

lemma in_live: "h \<in> set (live_heads hs) \<longleftrightarrow> Some h \<in> set hs"
  by (induction hs) (auto simp: live_heads_def split: option.splits)

lemma live_simps [simp]: "live_heads [] = []" "live_heads (None # hs) = live_heads hs" "live_heads (Some h # hs) = h # live_heads hs"
  by (simp_all add: live_heads_def)

lemma heads_of_live:
  "list_all2 seat_ok hs reg \<Longrightarrow> \<forall>h \<in> set (live_heads hs). h < 2 ^ 64 \<Longrightarrow> heads_of reg = live_heads hs"
proof (induction hs reg rule: list_all2_induct)
  case (Cons h hs s reg)
  then show ?case
    by (cases h) (auto simp: heads_of_def subscribed_head_def unat_of_nat_usize)
qed (simp add: heads_of_def)

definition bc_ring_ok :: "'a bc_entry list \<Rightarrow> nat option list \<Rightarrow> 'a bc_ring \<Rightarrow> bool" where
  "bc_ring_ok es hs r \<longleftrightarrow>
     (let n = slots (b_capacity r); t = length es in
      wf_capacity (b_capacity r) \<and> length (b_buf r) = n
      \<and> t \<le> POS_LIMIT \<and> b_tail r = of_nat t
      \<and> list_all2 seat_ok hs (b_consumers r)
      \<and> (\<forall>h \<in> set (live_heads hs). h \<le> t \<and> t \<le> h + n)
      \<and> floor_behind (live_heads hs) t (highest_floor (b_min_head_cache r))
      \<and> (\<forall>p < t. es ! p = Pending \<longrightarrow> t \<le> p + n)
      \<and> (\<forall>p < t. t \<le> p + n \<longrightarrow> bc_entry_ok p (es ! p) (b_buf r ! (p mod n)))
      \<and> (\<forall>i < n. t \<le> i \<longrightarrow> state_word (bs_sequence (b_buf r ! i)) = VACANT))"

lemma bc_ring_okD:
  assumes "bc_ring_ok es hs r"
  shows "wf_capacity (b_capacity r)" "length (b_buf r) = slots (b_capacity r)"
    "length es \<le> POS_LIMIT" "b_tail r = of_nat (length es)" "list_all2 seat_ok hs (b_consumers r)"
    "\<And>h. h \<in> set (live_heads hs) \<Longrightarrow> h \<le> length es \<and> length es \<le> h + slots (b_capacity r)"
    "floor_behind (live_heads hs) (length es) (highest_floor (b_min_head_cache r))"
    "\<And>p. p < length es \<Longrightarrow> es ! p = Pending \<Longrightarrow> length es \<le> p + slots (b_capacity r)"
    "\<And>p. p < length es \<Longrightarrow> length es \<le> p + slots (b_capacity r) \<Longrightarrow>
      bc_entry_ok p (es ! p) (b_buf r ! (p mod slots (b_capacity r)))"
    "\<And>i. i < slots (b_capacity r) \<Longrightarrow> length es \<le> i \<Longrightarrow> state_word (bs_sequence (b_buf r ! i)) = VACANT"
    "0 < slots (b_capacity r)" "length es < 2 ^ 63"
  using assms slots_pos [of "b_capacity r"] by (auto simp: bc_ring_ok_def Let_def POS_LIMIT_def)

lemma bc_ring_ok_cong:
  "b_buf r' = b_buf r \<Longrightarrow> b_capacity r' = b_capacity r \<Longrightarrow> b_tail r' = b_tail r \<Longrightarrow>
    b_consumers r' = b_consumers r \<Longrightarrow> b_min_head_cache r' = b_min_head_cache r \<Longrightarrow>
    bc_ring_ok es hs r' = bc_ring_ok es hs r"
  by (simp add: bc_ring_ok_def)

lemma bc_ring_ok_effects [simp]:
  "bc_ring_ok es hs (bc_wake_producer r) = bc_ring_ok es hs r"
  "bc_ring_ok es hs (bc_flush r) = bc_ring_ok es hs r"
  "bc_ring_ok es hs (r\<lparr>b_dropped := ds\<rparr>) = bc_ring_ok es hs r"
  "bc_ring_ok es hs (r\<lparr>b_producer_park := w\<rparr>) = bc_ring_ok es hs r"
  "bc_ring_ok es hs (r\<lparr>b_producer_park_slots := g\<rparr>) = bc_ring_ok es hs r"
  by (rule bc_ring_ok_cong; simp)+

lemma bc_heads:
  assumes "bc_ring_ok es hs r"
  shows "heads_of (b_consumers r) = live_heads hs"
proof -
  have "h < 2 ^ 64" if "h \<in> set (live_heads hs)" for h
    using bc_ring_okD(6) [OF assms that] bc_ring_okD(12) [OF assms] by simp
  then show ?thesis using heads_of_live [OF bc_ring_okD(5) [OF assms]] by blast
qed

lemma bc_slot_mod:
  assumes "bc_ring_ok es hs r"
  shows "bc_slot r (of_nat p) = p mod slots (b_capacity r)"
    and "p mod slots (b_capacity r) < length (b_buf r)"
  using slot_of_of_nat [OF bc_ring_okD(1) [OF assms]] bc_ring_okD(2,11) [OF assms]
  by (simp_all add: bc_slot_def)

lemma bc_load_Inr: "i < length (b_buf r) \<Longrightarrow> bc_load_slot r i = Inr (b_buf r ! i)"
  by (simp add: bc_load_slot_def)

lemma bc_update_Inr:
  "i < length (b_buf r) \<Longrightarrow> bc_update_slot i f r = Inr (r\<lparr>b_buf := (b_buf r)[i := f (b_buf r ! i)]\<rparr>)"
  by (simp add: bc_update_slot_def bc_load_Inr)

section \<open>What a slot reads as\<close>

lemma entry_classify:
  assumes "bc_entry_ok p e s" and "p < POS_LIMIT" and "q < 2 ^ 64"
  shows "bc_classify s (of_nat q) =
    (case e of Pending \<Rightarrow> NotReady | Held _ \<Rightarrow> if p = q then Ready else NotReady
     | Gap \<Rightarrow> if p = q then Tombstoned else NotReady)"
proof -
  have p: "p < 2 ^ 63" "p < 2 ^ 64" using assms(2) by (simp_all add: POS_LIMIT_def)
  show ?thesis
    using assms(1) decode_published [OF p(1)] decode_abandoned [OF assms(2)]
      of_nat_usize_simps(1) [OF p(2) assms(3)]
    by (cases e) (simp_all add: bc_classify_def bw_classify_def)
qed

text \<open>What the slot of a head reads as: its entry, or nothing yet.\<close>

lemma head_classify:
  assumes ok: "bc_ring_ok es hs r" and h: "h \<in> set (live_heads hs)"
  shows "bc_classify (b_buf r ! (h mod slots (b_capacity r))) (of_nat h) =
    (if h < length es then
       (case es ! h of Pending \<Rightarrow> NotReady | Held _ \<Rightarrow> Ready | Gap \<Rightarrow> Tombstoned)
     else NotReady)"
proof -
  let ?n = "slots (b_capacity r)" let ?t = "length es"
  note D = bc_ring_okD [OF ok]
  have h64: "h < 2 ^ 64" using D(6) [OF h] D(12) by simp
  show ?thesis
  proof (cases "h < ?t")
    case True
    then show ?thesis
      using entry_classify [OF D(9) [OF True] _ h64] D(3) D(6) [OF h] by (auto split: bc_entry.split)
  next
    case False
    then have t: "h = ?t" using D(6) [OF h] by simp
    show ?thesis
    proof (cases "?t < ?n")
      case True
      then show ?thesis using D(10) [of ?t] t
        by (simp add: bc_classify_def bw_classify_def)
    next
      case lap: False
      let ?p = "?t - ?n"
      have "?p < ?t" "?t \<le> ?p + ?n" "?p mod ?n = h mod ?n"
        using lap D(11) t by (simp_all add: le_mod_geq)
      then have "bc_entry_ok ?p (es ! ?p) (b_buf r ! (h mod ?n))" using D(9) [of ?p] by simp
      from entry_classify [OF this _ h64] show ?thesis
        using t D(3,11) \<open>?p < ?t\<close> by (auto split: bc_entry.split)
    qed
  qed
qed

section \<open>Changing one entry\<close>

lemma bc_entry_update:
  assumes ok: "bc_ring_ok es hs r" and p: "p < length es" "length es \<le> p + slots (b_capacity r)"
    and s: "bc_entry_ok p e s"
  shows "bc_ring_ok (es[p := e]) hs (r\<lparr>b_buf := (b_buf r)[p mod slots (b_capacity r) := s]\<rparr>)"
proof -
  let ?n = "slots (b_capacity r)" let ?t = "length es"
  note D = bc_ring_okD [OF ok]
  have i: "p mod ?n < length (b_buf r)" using D(2,11) by simp
  have "bc_entry_ok q (es[p := e] ! q) ((b_buf r)[p mod ?n := s] ! (q mod ?n))"
    if "q < ?t" "?t \<le> q + ?n" for q
  proof (cases "q = p")
    case True
    then show ?thesis using s i p(1) by simp
  next
    case False
    then have "p mod ?n \<noteq> q mod ?n"
      using mod_inj_window [of p ?n q "?t - ?n"] that p by linarith
    then show ?thesis using D(9) [OF that] False by simp
  qed
  moreover have "state_word (bs_sequence ((b_buf r)[p mod ?n := s] ! j)) = VACANT"
    if "j < ?n" "?t \<le> j" for j
  proof -
    have "p mod ?n \<noteq> j" using that p(1) mod_less_eq_dividend [of p ?n] by linarith
    then show ?thesis using D(10) [OF that] by simp
  qed
  moreover have "?t \<le> q + ?n" if "q < ?t" "es[p := e] ! q = Pending" for q
    using that p(2) D(8) [of q] by (cases "q = p") auto
  ultimately show ?thesis using D(1-7) by (simp add: bc_ring_ok_def Let_def)
qed

text \<open>Writing the storage of a claimed position changes nothing anyone may see.\<close>

lemma bc_entry_pending_data:
  assumes "bc_ring_ok es hs r" and "p < length es" and "es ! p = Pending"
  shows "bc_ring_ok es hs (r\<lparr>b_buf := (b_buf r)[p mod slots (b_capacity r)
    := (b_buf r ! (p mod slots (b_capacity r)))\<lparr>bs_data := d\<rparr>]\<rparr>)"
proof -
  note D = bc_ring_okD [OF assms(1)]
  have "bc_entry_ok p Pending ((b_buf r ! (p mod slots (b_capacity r)))\<lparr>bs_data := d\<rparr>)"
    using D(9) [OF assms(2)] D(8) [OF assms(2,3)] assms(3) by simp
  from bc_entry_update [OF assms(1,2) D(8) [OF assms(2,3)] this] show ?thesis
    using assms(3) list_update_id [of es p] by simp
qed

text \<open>Claiming the next position, once the slot's last value and reservation are gone.\<close>

definition claimable_at :: "nat \<Rightarrow> 'a bc_entry list \<Rightarrow> nat option list \<Rightarrow> bool" where
  "claimable_at n es hs \<longleftrightarrow>
     writable n (live_heads hs) (length es) \<and> (n \<le> length es \<longrightarrow> es ! (length es - n) \<noteq> Pending)"

lemma floor_behind_mono: "floor_behind hs t m \<Longrightarrow> t \<le> t' \<Longrightarrow> floor_behind hs t' m"
  by (auto simp: floor_behind_def)

lemma bc_claim_ok:
  assumes ok: "bc_ring_ok es hs r" and free: "claimable_at (slots (b_capacity r)) es hs"
    and small: "length es < POS_LIMIT" and s: "state_word (bs_sequence s) = VACANT"
  shows "bc_ring_ok (es @ [Pending]) hs
    (r\<lparr>b_tail := of_nat (length es) + 1, b_buf := (b_buf r)[length es mod slots (b_capacity r) := s]\<rparr>)"
proof -
  let ?n = "slots (b_capacity r)" let ?t = "length es"
  let ?buf = "(b_buf r)[?t mod ?n := s]"
  note D = bc_ring_okD [OF ok]
  have i: "?t mod ?n < length (b_buf r)" using D(2,11) by simp
  have "bc_entry_ok q ((es @ [Pending]) ! q) (?buf ! (q mod ?n))" if "q < Suc ?t" "Suc ?t \<le> q + ?n" for q
  proof (cases "q = ?t")
    case True
    then show ?thesis using s i by simp
  next
    case False
    then have "?t mod ?n \<noteq> q mod ?n"
      using mod_inj_window [of ?t ?n q "Suc ?t - ?n"] that by linarith
    then show ?thesis using D(9) [of q] that False by (simp add: nth_append)
  qed
  moreover have "state_word (bs_sequence (?buf ! j)) = VACANT" if "j < ?n" "Suc ?t \<le> j" for j
    using that D(10) [of j] by simp
  moreover have "Suc ?t \<le> q + ?n" if "q < Suc ?t" "(es @ [Pending]) ! q = Pending" for q
  proof (cases "q = ?t")
    case True
    then show ?thesis using D(11) by simp
  next
    case False
    then have "q < ?t" "es ! q = Pending" using that by (simp_all add: nth_append)
    moreover from this have "?t \<le> q + ?n" by (rule D(8))
    moreover have "q + ?n \<noteq> ?t"
    proof
      assume "q + ?n = ?t"
      then have "?n \<le> ?t" "?t - ?n = q" by simp_all
      then show False using free \<open>es ! q = Pending\<close> by (simp add: claimable_at_def)
    qed
    ultimately show ?thesis by simp
  qed
  moreover have "h \<le> Suc ?t \<and> Suc ?t \<le> h + ?n" if "h \<in> set (live_heads hs)" for h
    using free D(6) [OF that] that by (auto simp: claimable_at_def writable_def)
  moreover have "(of_nat ?t + 1 :: usize) = of_nat (Suc ?t)" by (simp add: add.commute)
  ultimately show ?thesis
    using D(1,2,5) small floor_behind_mono [OF D(7), of "Suc ?t"]
    by (simp add: bc_ring_ok_def Let_def)
qed

section \<open>Claims\<close>

definition bc_producer_ok :: "'a bc_entry list \<Rightarrow> nat option list \<Rightarrow> bc_producer \<Rightarrow> bool" where
  "bc_producer_ok es hs p \<longleftrightarrow>
     floor_behind (live_heads hs) (length es) (private_floor (bp_floor_cache p))"

text \<open>What a call leaves alone.\<close>

definition bc_same :: "'a bc_ring \<Rightarrow> 'a bc_ring \<Rightarrow> bool" where
  "bc_same r r' \<longleftrightarrow> b_capacity r' = b_capacity r \<and> b_consumers r' = b_consumers r
     \<and> b_producer_park r' = b_producer_park r \<and> b_producer_park_slots r' = b_producer_park_slots r
     \<and> b_unparked r' = b_unparked r"

lemma bc_same_trans: "bc_same r r1 \<Longrightarrow> bc_same r1 r2 \<Longrightarrow> bc_same r r2"
  by (simp add: bc_same_def)

text \<open>The three-level check of a producer decides exactly whether the position is writable.\<close>

lemma bc_permits_quiet:
  assumes ok: "bc_ring_ok es hs r" and p: "bc_producer_ok es hs p"
  shows "\<exists>p1 x. bc_permits_with_refresh [] pos p r =
      (writable (slots (b_capacity r)) (live_heads hs) (unat pos), p1, r\<lparr>b_min_head_cache := x\<rparr>)
    \<and> bc_producer_ok es hs p1 \<and> bp_park_slot p1 = bp_park_slot p
    \<and> bc_ring_ok es hs (r\<lparr>b_min_head_cache := x\<rparr>)"
proof -
  note D = bc_ring_okD [OF ok]
  let ?put = "\<lambda>x s. s\<lparr>b_min_head_cache := x\<rparr>"
  obtain c1 r1 where c: "fc_permits b_min_head_cache ?put (bc_scan []) pos
      (capacity_get (b_capacity r)) (any_subscribed (b_consumers r)) (bp_floor_cache p) r
      = (writable (slots (b_capacity r)) (live_heads hs) (unat pos), c1, r1)"
    "floor_behind (live_heads hs) (length es) (private_floor c1)"
    "r1 = r \<or> (\<exists>x. r1 = ?put x r \<and> floor_behind (live_heads hs) (length es) (highest_floor x))"
    using fc_permits_exact [of "bc_scan []" r "b_consumers r" "cap (b_capacity r)" "length es"
        "bp_floor_cache p" b_min_head_cache ?put pos] p D(6,7,11)
    by (auto simp: bc_scan_quiet bc_consumer_floor_def bc_heads [OF ok] bc_producer_ok_def
        capacity_get_def word_less_nat_alt)
  then obtain x where x: "r1 = r\<lparr>b_min_head_cache := x\<rparr>"
      "floor_behind (live_heads hs) (length es) (highest_floor x)"
    using D(7) by (metis (no_types, lifting) bc_ring.surjective bc_ring.update_convs(5))
  have "bc_ring_ok es hs (r\<lparr>b_min_head_cache := x\<rparr>)"
    using ok x(2) by (simp add: bc_ring_ok_def Let_def)
  then show ?thesis
    using c(1,2) x(1)
    by (intro exI [of _ "p\<lparr>bp_floor_cache := c1\<rparr>"] exI [of _ x])
      (simp add: bc_permits_with_refresh_def bc_producer_ok_def)
qed

text \<open>The value a claim of the next position destroys.\<close>

definition evicted :: "'a element \<Rightarrow> nat \<Rightarrow> 'a bc_entry list \<Rightarrow> 'a list" where
  "evicted el n es =
     (if needs_drop el \<and> n \<le> length es
      then (case es ! (length es - n) of Held v \<Rightarrow> [v] | _ \<Rightarrow> []) else [])"

lemma tail_slot:
  assumes ok: "bc_ring_ok es hs r"
  defines "s \<equiv> b_buf r ! (length es mod slots (b_capacity r))"
  shows "slots (b_capacity r) \<le> length es \<Longrightarrow>
      bc_entry_ok (length es - slots (b_capacity r)) (es ! (length es - slots (b_capacity r))) s"
    and "length es < slots (b_capacity r) \<Longrightarrow> state_word (bs_sequence s) = VACANT"
proof -
  let ?n = "slots (b_capacity r)" let ?t = "length es"
  note D = bc_ring_okD [OF ok]
  show "bc_entry_ok (?t - ?n) (es ! (?t - ?n)) s" if "?n \<le> ?t"
    using D(9) [of "?t - ?n"] D(11) that by (simp add: s_def le_mod_geq)
  show "state_word (bs_sequence s) = VACANT" if "?t < ?n"
    using D(10) [of ?t] that by (simp add: s_def)
qed

lemma tail_resolved:
  assumes ok: "bc_ring_ok es hs r"
  defines "s \<equiv> b_buf r ! (length es mod slots (b_capacity r))"
  shows "prior_occupant_resolved (capacity_get (b_capacity r)) (of_nat (length es)) (bs_sequence s)
    \<longleftrightarrow> (slots (b_capacity r) \<le> length es \<longrightarrow> es ! (length es - slots (b_capacity r)) \<noteq> Pending)"
    (is ?resolved)
  and "needs_drop el \<Longrightarrow> slots (b_capacity r) \<le> length es \<longrightarrow> es ! (length es - slots (b_capacity r)) \<noteq> Pending \<Longrightarrow>
    holds_value (decode (state_word (bs_sequence s))) \<longleftrightarrow> evicted el (slots (b_capacity r)) es \<noteq> []"
    (is "_ \<Longrightarrow> _ \<Longrightarrow> ?holds")
  and "evicted el (slots (b_capacity r)) es = [v] \<Longrightarrow> bs_data s = Some v"
proof -
  let ?n = "slots (b_capacity r)" let ?t = "length es"
  note D = bc_ring_okD [OF ok]
  note T = tail_slot [OF ok, folded s_def]
  have lap: "(of_nat ?t :: usize) < capacity_get (b_capacity r) \<longleftrightarrow> ?t < ?n"
    using D(12) unat_of_nat_usize [of ?t] by (simp add: capacity_get_def word_less_nat_alt)
  have small: "?t - ?n < 2 ^ 63" "?n \<le> ?t \<Longrightarrow> ?t - ?n < POS_LIMIT" using D(3,11,12) by linarith+
  have words: "published_word (of_nat (?t - ?n)) \<noteq> VACANT"
    "?n \<le> ?t \<Longrightarrow> abandoned_word (of_nat (?t - ?n)) \<noteq> VACANT"
    using words_not_vacant small by blast+
  show ?resolved
    using T lap words
    by (cases "?n \<le> ?t"; cases "es ! (?t - ?n)")
      (auto simp: prior_occupant_resolved_def bw_is_claim_in_progress_def not_le)
  show ?holds if "needs_drop el" "?n \<le> ?t \<longrightarrow> es ! (?t - ?n) \<noteq> Pending"
    using T that decode_published [OF small(1)] decode_abandoned [OF small(2)]
    by (cases "?n \<le> ?t"; cases "es ! (?t - ?n)") (auto simp: evicted_def not_le)
  show "bs_data s = Some v" if "evicted el ?n es = [v]"
    using T(1) that by (cases "es ! (?t - ?n)") (auto simp: evicted_def split: if_splits)
qed

lemma bc_claim_loop_quiet:
  assumes ok: "bc_ring_ok es hs r" and p: "bc_producer_ok es hs p"
  shows "\<exists>p1 x. bc_claim_loop [] (b_tail r) p r =
      Inr (if claimable_at (slots (b_capacity r)) es hs
           then (Some (of_nat (length es)), p1,
             r\<lparr>b_min_head_cache := x, b_tail := of_nat (length es) + 1\<rparr>)
           else (None, p1, r\<lparr>b_min_head_cache := x\<rparr>))
    \<and> bc_producer_ok es hs p1 \<and> bp_park_slot p1 = bp_park_slot p
    \<and> bc_ring_ok es hs (r\<lparr>b_min_head_cache := x\<rparr>)"
proof -
  note D = bc_ring_okD [OF ok]
  have t: "unat (of_nat (length es) :: usize) = length es" using D(12) by (simp add: unat_of_nat_usize)
  obtain p1 x where c: "bc_permits_with_refresh [] (of_nat (length es)) p r =
      (writable (slots (b_capacity r)) (live_heads hs) (length es), p1, r\<lparr>b_min_head_cache := x\<rparr>)"
    "bc_producer_ok es hs p1" "bp_park_slot p1 = bp_park_slot p" "bc_ring_ok es hs (r\<lparr>b_min_head_cache := x\<rparr>)"
    using bc_permits_quiet [OF ok p, of "of_nat (length es)"] unfolding t by blast
  have load: "bc_load_slot (r\<lparr>b_min_head_cache := x\<rparr>) (bc_slot (r\<lparr>b_min_head_cache := x\<rparr>) (of_nat (length es)))
      = Inr (b_buf r ! (length es mod slots (b_capacity r)))"
    using bc_slot_mod [OF c(4), of "length es"] by (simp add: bc_load_slot_def)
  show ?thesis
    using c D(4) load tail_resolved(1) [OF ok]
    by (intro exI [of _ p1] exI [of _ x], subst bc_claim_loop.simps)
      (simp add: quiet_turn_def claimable_at_def split: bool.split)
qed

lemma set_word_Inr:
  "i < length (b_buf r) \<Longrightarrow> bc_update_slot i (\<lambda>s. s\<lparr>bs_sequence := w s\<rparr>) r
    = Inr (r\<lparr>b_buf := (b_buf r)[i := (b_buf r ! i)\<lparr>bs_sequence := w (b_buf r ! i)\<rparr>]\<rparr>)"
  by (rule bc_update_Inr)

lemma bc_drop_data_Inr:
  assumes "i < length (b_buf r)" and "bs_data (b_buf r ! i) = Some v"
  shows "bc_drop_data i r = Inr (v, r\<lparr>b_buf := (b_buf r)[i := (b_buf r ! i)\<lparr>bs_data := None\<rparr>],
    b_dropped := b_dropped r @ [v]\<rparr>)"
  using assms by (simp add: bc_drop_data_def bc_peek_data_def bc_load_Inr bc_update_Inr)

lemma evicted_cases: "evicted el n es = [] \<or> (\<exists>v. evicted el n es = [v])"
  by (auto simp: evicted_def split: bc_entry.split)

text \<open>
  A claim takes the next position and destroys what the slot held, or changes nothing but
  the caches; when that destructor panics the position stays claimed.
\<close>

definition unwinds :: "'a element \<Rightarrow> 'a list \<Rightarrow> bool" where
  "unwinds el vs \<longleftrightarrow> (\<exists>v \<in> set vs. drop_value el v = Panicked)"

lemma bc_claim_slot_quiet:
  assumes ok: "bc_ring_ok es hs r" and p: "bc_producer_ok es hs p" and small: "length es < POS_LIMIT"
  defines "n \<equiv> slots (b_capacity r)"
  shows "\<exists>p1 r1. bc_claim_slot el [] id p r =
      Inr (if \<not> claimable_at n es hs then Normal None
           else if unwinds el (evicted el n es) then Unwound
           else Normal (Some (length es mod n, of_nat (length es))), p1, r1)
    \<and> bc_same r r1 \<and> bp_park_slot p1 = bp_park_slot p
    \<and> (if claimable_at n es hs
       then bc_ring_ok (es @ [Pending]) hs r1 \<and> bc_producer_ok (es @ [Pending]) hs p1
         \<and> b_dropped r1 = b_dropped r @ evicted el n es
       else bc_ring_ok es hs r1 \<and> bc_producer_ok es hs p1 \<and> b_dropped r1 = b_dropped r)"
proof -
  obtain p1 x where c: "bc_claim_loop [] (b_tail r) p r =
      Inr (if claimable_at n es hs
           then (Some (of_nat (length es)), p1,
             r\<lparr>b_min_head_cache := x, b_tail := of_nat (length es) + 1\<rparr>)
           else (None, p1, r\<lparr>b_min_head_cache := x\<rparr>))"
    "bc_producer_ok es hs p1" "bp_park_slot p1 = bp_park_slot p" "bc_ring_ok es hs (r\<lparr>b_min_head_cache := x\<rparr>)"
    using bc_claim_loop_quiet [OF ok p] unfolding n_def by blast
  show ?thesis
  proof (cases "claimable_at n es hs")
    case False
    then show ?thesis using c
      by (intro exI [of _ p1] exI [of _ "r\<lparr>b_min_head_cache := x\<rparr>"])
        (simp add: bc_claim_slot_def bc_same_def)
  next
    case True
    let ?t = "length es" and ?i = "length es mod n"
    let ?r2 = "r\<lparr>b_min_head_cache := x, b_tail := of_nat ?t + 1\<rparr>"
    let ?s = "b_buf r ! ?i"
    have i: "?i < length (b_buf r)" using bc_slot_mod(2) [OF ok] by (simp add: n_def)
    have slot: "bc_slot ?r2 (of_nat ?t) = ?i" using bc_slot_mod(1) [OF c(4), of ?t] by (simp add: bc_slot_def n_def)
    let ?claimed = "\<lambda>s. ?r2\<lparr>b_buf := (b_buf r)[?i := s]\<rparr>"
    have ring: "bc_ring_ok (es @ [Pending]) hs (?claimed s)" if "state_word (bs_sequence s) = VACANT" for s
      using bc_claim_ok [OF c(4) _ small that] True by (simp add: n_def)
    have prod: "bc_producer_ok (es @ [Pending]) hs p1"
      using c(2) floor_behind_mono by (fastforce simp: bc_producer_ok_def)
    have run: "bc_claim_slot el [] id p r = (if needs_drop el then
        (if holds_value (decode (state_word (bs_sequence ?s))) then
           seq_exec (bc_drop_data ?i (?claimed (?s\<lparr>bs_sequence := (bs_sequence ?s)\<lparr>state_word := VACANT\<rparr>\<rparr>))) (\<lambda>(v, r4).
             Inr (case drop_value el v of Panicked \<Rightarrow> Unwound | Returned \<Rightarrow> Normal (Some (?i, of_nat ?t)), p1, r4))
         else Inr (Normal (Some (?i, of_nat ?t)), p1, ?claimed (?s\<lparr>bs_sequence := (bs_sequence ?s)\<lparr>state_word := VACANT\<rparr>\<rparr>)))
       else Inr (Normal (Some (?i, of_nat ?t)), p1, ?claimed (?s\<lparr>bs_sequence := (bs_sequence ?s)\<lparr>state_word := VACANT\<rparr>\<rparr>)))"
      using c(1) True i
      by (simp add: bc_claim_slot_def slot bc_load_Inr bw_claim_taking_previous_def set_word_Inr bw_claim_def Let_def
        cong: completion.case_cong)
    have open_slot: "n \<le> ?t \<longrightarrow> es ! (?t - n) \<noteq> Pending" using True by (simp add: claimable_at_def)
    show ?thesis
    proof (cases "evicted el n es")
      case Nil
      then have "\<not> (needs_drop el \<and> holds_value (decode (state_word (bs_sequence ?s))))"
        using tail_resolved(2) [OF ok, of el] open_slot by (auto simp: n_def)
      then show ?thesis using True run ring prod c(3) Nil
        by (auto simp: bc_same_def unwinds_def)
    next
      case (Cons v vs)
      then have v: "evicted el n es = [v]" using evicted_cases [of el n es] by auto
      then have nd: "needs_drop el" by (auto simp: evicted_def split: if_splits)
      have "holds_value (decode (state_word (bs_sequence ?s)))"
        using tail_resolved(2) [OF ok nd] open_slot v by (simp add: n_def)
      moreover have "bs_data ?s = Some v" using tail_resolved(3) [OF ok] v by (simp add: n_def)
      ultimately have "bc_claim_slot el [] id p r =
        Inr (case drop_value el v of Panicked \<Rightarrow> Unwound | Returned \<Rightarrow> Normal (Some (?i, of_nat ?t)), p1,
          (?claimed (?s\<lparr>bs_sequence := (bs_sequence ?s)\<lparr>state_word := VACANT\<rparr>, bs_data := None\<rparr>))
            \<lparr>b_dropped := b_dropped r @ [v]\<rparr>)"
        using run nd i by (simp add: bc_drop_data_Inr)
      then show ?thesis using True ring prod c(3) v
        by (simp add: bc_same_def unwinds_def split: completion.split)
    qed
  qed
qed

section \<open>Resolving a claim\<close>

lemma pending_slot:
  assumes "bc_ring_ok es hs r" and "p < length es" and "es ! p = Pending"
  shows "length es \<le> p + slots (b_capacity r)"
    and "state_word (bs_sequence (b_buf r ! (p mod slots (b_capacity r)))) = VACANT"
  using bc_ring_okD(8,9) [OF assms(1,2)] assms(3) by auto

lemma bc_write_data_spec:
  assumes ok: "bc_ring_ok es hs r" and p: "p < length es" "es ! p = Pending"
  shows "\<exists>r1. bc_write_data (p mod slots (b_capacity r)) v r = Inr r1 \<and> bc_ring_ok es hs r1
    \<and> bs_data (b_buf r1 ! (p mod slots (b_capacity r))) = Some v
    \<and> bc_same r r1 \<and> b_dropped r1 = b_dropped r"
  using bc_slot_mod(2) [OF ok, of p] bc_entry_pending_data [OF assms, of "Some v"]
  by (simp add: bc_write_data_def bc_update_Inr bc_same_def)

lemma bc_publish_spec:
  assumes ok: "bc_ring_ok es hs r" and p: "p < length es" "es ! p = Pending"
    and v: "bs_data (b_buf r ! (p mod slots (b_capacity r))) = Some v"
  shows "\<exists>r1. bc_publish (p mod slots (b_capacity r)) (of_nat p) r = Inr r1
    \<and> bc_ring_ok (es[p := Held v]) hs r1 \<and> bc_same r r1 \<and> b_dropped r1 = b_dropped r"
  using bc_slot_mod(2) [OF ok, of p] bc_entry_update [OF ok p(1) pending_slot(1) [OF ok p], of "Held v"] v
  by (simp add: bc_publish_def bc_update_Inr bc_same_def bw_publish_def)

lemma bc_abandon_spec:
  assumes ok: "bc_ring_ok es hs r" and p: "p < length es" "es ! p = Pending"
  shows "\<exists>r1. bc_abandon (p mod slots (b_capacity r)) (of_nat p) r = Inr r1
    \<and> bc_ring_ok (es[p := Gap]) hs r1 \<and> bc_same r r1 \<and> b_dropped r1 = b_dropped r"
  using bc_slot_mod(2) [OF ok, of p] bc_entry_update [OF ok p(1) pending_slot(1) [OF ok p], of Gap]
  by (simp add: bc_abandon_def bc_update_Inr bc_same_def bw_abandon_def)

section \<open>Push and reserve\<close>

lemma producer_ok_length:
  "bc_producer_ok es hs p \<Longrightarrow> length es' = length es \<Longrightarrow> bc_producer_ok es' hs p"
  by (simp add: bc_producer_ok_def)

lemma bc_push_spec:
  assumes ok: "bc_ring_ok es hs r" and p: "bc_producer_ok es hs p" and small: "length es < POS_LIMIT"
  defines "n \<equiv> slots (b_capacity r)"
  shows "\<not> claimable_at n es hs \<Longrightarrow>
      \<exists>p1 r1. bc_push el [] id v p r = Inr (Normal (Push_Err v), p1, r1) \<and> bc_ring_ok es hs r1
        \<and> bc_producer_ok es hs p1 \<and> bp_park_slot p1 = bp_park_slot p \<and> bc_same r r1
        \<and> b_dropped r1 = b_dropped r"
    and "claimable_at n es hs \<Longrightarrow> \<not> unwinds el (evicted el n es) \<Longrightarrow>
      \<exists>p1 r1. bc_push el [] id v p r = Inr (Normal Push_Ok, p1, r1)
        \<and> bc_ring_ok (es @ [Held v]) hs r1 \<and> bc_producer_ok (es @ [Held v]) hs p1
        \<and> bp_park_slot p1 = bp_park_slot p \<and> bc_same r r1
        \<and> b_dropped r1 = b_dropped r @ evicted el n es"
    and "claimable_at n es hs \<Longrightarrow> unwinds el (evicted el n es) \<Longrightarrow> drop_value el v = Returned \<Longrightarrow>
      \<exists>p1 r1. bc_push el [] id v p r = Inr (Unwound, p1, r1)
        \<and> bc_ring_ok (es @ [Pending]) hs r1 \<and> bc_producer_ok (es @ [Pending]) hs p1
        \<and> bp_park_slot p1 = bp_park_slot p \<and> bc_same r r1
        \<and> b_dropped r1 = b_dropped r @ evicted el n es @ [v]"
proof -
  obtain p1 r1 where c: "bc_claim_slot el [] id p r =
      Inr (if \<not> claimable_at n es hs then Normal None
           else if unwinds el (evicted el n es) then Unwound
           else Normal (Some (length es mod n, of_nat (length es))), p1, r1)"
    "bc_same r r1" "bp_park_slot p1 = bp_park_slot p"
    "if claimable_at n es hs
       then bc_ring_ok (es @ [Pending]) hs r1 \<and> bc_producer_ok (es @ [Pending]) hs p1
         \<and> b_dropped r1 = b_dropped r @ evicted el n es
       else bc_ring_ok es hs r1 \<and> bc_producer_ok es hs p1 \<and> b_dropped r1 = b_dropped r"
    using bc_claim_slot_quiet [OF ok p small, of el] unfolding n_def by blast
  show "\<exists>p1 r1. bc_push el [] id v p r = Inr (Normal (Push_Err v), p1, r1) \<and> bc_ring_ok es hs r1
      \<and> bc_producer_ok es hs p1 \<and> bp_park_slot p1 = bp_park_slot p \<and> bc_same r r1
      \<and> b_dropped r1 = b_dropped r"
    if "\<not> claimable_at n es hs"
    using c that by (simp add: bc_push_def)
  show "\<exists>p1 r1. bc_push el [] id v p r = Inr (Unwound, p1, r1)
        \<and> bc_ring_ok (es @ [Pending]) hs r1 \<and> bc_producer_ok (es @ [Pending]) hs p1
        \<and> bp_park_slot p1 = bp_park_slot p \<and> bc_same r r1
        \<and> b_dropped r1 = b_dropped r @ evicted el n es @ [v]"
    if "claimable_at n es hs" "unwinds el (evicted el n es)" "drop_value el v = Returned"
    using c that by (simp add: bc_push_def bc_same_def)
  show "\<exists>p1 r1. bc_push el [] id v p r = Inr (Normal Push_Ok, p1, r1)
        \<and> bc_ring_ok (es @ [Held v]) hs r1 \<and> bc_producer_ok (es @ [Held v]) hs p1
        \<and> bp_park_slot p1 = bp_park_slot p \<and> bc_same r r1
        \<and> b_dropped r1 = b_dropped r @ evicted el n es"
    if cl: "claimable_at n es hs" and nu: "\<not> unwinds el (evicted el n es)"
  proof -
    have ok1: "bc_ring_ok (es @ [Pending]) hs r1" using c(4) cl by simp
    have n: "slots (b_capacity r1) = n" using c(2) by (simp add: bc_same_def n_def)
    have at: "length es < length (es @ [Pending])" "(es @ [Pending]) ! length es = Pending" by simp_all
    obtain r2 where w: "bc_write_data (length es mod n) v r1 = Inr r2" "bc_ring_ok (es @ [Pending]) hs r2"
        "bs_data (b_buf r2 ! (length es mod n)) = Some v" "bc_same r1 r2" "b_dropped r2 = b_dropped r1"
      using bc_write_data_spec [OF ok1 at, of v] unfolding n by blast
    have n2: "slots (b_capacity r2) = n" using w(4) n by (simp add: bc_same_def)
    obtain r3 where pub: "bc_publish (length es mod n) (of_nat (length es)) r2 = Inr r3"
        "bc_ring_ok ((es @ [Pending])[length es := Held v]) hs r3" "bc_same r2 r3" "b_dropped r3 = b_dropped r2"
      using bc_publish_spec [OF w(2) at, unfolded n2, OF w(3)] by blast
    have "bc_producer_ok (es @ [Held v]) hs p1"
      using c(4) cl by (auto intro: producer_ok_length [of "es @ [Pending]"])
    then show ?thesis
      using c cl nu w pub bc_same_trans [OF c(2) bc_same_trans [OF w(4) pub(3)]]
      by (simp add: bc_push_def)
  qed
qed

definition bc_writer_at :: "'a bc_ring \<Rightarrow> nat \<Rightarrow> bc_slot_writer" where
  "bc_writer_at r p = \<lparr>bsw_slot = p mod slots (b_capacity r), bsw_pos = of_nat p\<rparr>"

lemma bc_reserve_spec:
  assumes ok: "bc_ring_ok es hs r" and p: "bc_producer_ok es hs p" and small: "length es < POS_LIMIT"
  defines "n \<equiv> slots (b_capacity r)"
  shows "\<exists>p1 r1. bc_reserve el [] id p r =
      Inr (if \<not> claimable_at n es hs then Normal None
           else if unwinds el (evicted el n es) then Unwound
           else Normal (Some (bc_writer_at r (length es))), p1, r1)
    \<and> bc_same r r1 \<and> bp_park_slot p1 = bp_park_slot p
    \<and> (if claimable_at n es hs
       then bc_ring_ok (es @ [Pending]) hs r1 \<and> bc_producer_ok (es @ [Pending]) hs p1
         \<and> b_dropped r1 = b_dropped r @ evicted el n es
       else bc_ring_ok es hs r1 \<and> bc_producer_ok es hs p1 \<and> b_dropped r1 = b_dropped r)"
  using bc_claim_slot_quiet [OF ok p small, of el]
  unfolding n_def by (elim exE conjE) (simp add: bc_reserve_def bc_writer_at_def)

section \<open>Reservations\<close>

lemma bc_set_cells_update:
  "i < length (b_buf r) \<Longrightarrow> bc_set_cells ((bc_cells r)[i := d]) r
    = r\<lparr>b_buf := (b_buf r)[i := (b_buf r ! i)\<lparr>bs_data := d\<rparr>]\<rparr>"
  by (auto simp: bc_set_cells_def bc_cells_def nth_list_update intro!: nth_equalityI
      arg_cong2 [where f = "\<lambda>b. b_buf_update (\<lambda>_. b)"])

lemma bc_set_cells_same: "bc_set_cells (bc_cells r) r = r"
proof -
  have "map2 (\<lambda>s d. s\<lparr>bs_data := d\<rparr>) (b_buf r) (bc_cells r) = b_buf r"
    by (rule nth_equalityI) (simp_all add: bc_cells_def)
  then show ?thesis by (simp add: bc_set_cells_def)
qed

lemma bc_set_cells_dropped [simp]:
  "bc_set_cells cells (r\<lparr>b_dropped := ds\<rparr>) = (bc_set_cells cells r)\<lparr>b_dropped := ds\<rparr>"
  by (simp add: bc_set_cells_def)

lemma bc_cells_nth: "i < length (b_buf r) \<Longrightarrow> bc_cells r ! i = bs_data (b_buf r ! i)"
  by (simp add: bc_cells_def)

lemma bc_cells_length [simp]: "length (bc_cells r) = length (b_buf r)"
  by (simp add: bc_cells_def)

lemma bc_write_spec:
  assumes ok: "bc_ring_ok es hs r" and p: "p < length es" "es ! p = Pending"
  defines "i \<equiv> p mod slots (b_capacity r)"
  shows "\<exists>r1. bc_write (bc_writer_at r p) v r =
      Inr (\<lparr>bws_value = uncommitted_armed i, bws_slot = i, bws_pos = of_nat p\<rparr>, r1)
    \<and> bc_ring_ok es hs r1 \<and> bs_data (b_buf r1 ! i) = Some v \<and> bc_same r r1 \<and> b_dropped r1 = b_dropped r"
  using bc_write_data_spec [OF ok p, of v] by (auto simp: bc_write_def bc_writer_at_def i_def)

text \<open>Writing and committing publishes the value; writing and giving up destroys it and leaves a gap.\<close>

lemma bc_write_commit_spec:
  assumes ok: "bc_ring_ok es hs r" and p: "p < length es" "es ! p = Pending"
  shows "\<exists>w r1 r2. bc_write (bc_writer_at r p) v r = Inr (w, r1) \<and> bc_commit el w r1 = Inr (Returned, r2)
    \<and> bc_ring_ok (es[p := Held v]) hs r2 \<and> bc_same r r2 \<and> b_dropped r2 = b_dropped r"
proof -
  let ?i = "p mod slots (b_capacity r)"
  let ?w = "\<lparr>bws_value = uncommitted_armed ?i, bws_slot = ?i, bws_pos = of_nat p\<rparr>"
  obtain r1 where r1: "bc_write (bc_writer_at r p) v r = Inr (?w, r1)" "bc_ring_ok es hs r1"
      "bs_data (b_buf r1 ! ?i) = Some v" "bc_same r r1" "b_dropped r1 = b_dropped r"
    using bc_write_spec [OF assms, of v] by blast
  have n: "slots (b_capacity r1) = slots (b_capacity r)" using r1(4) by (simp add: bc_same_def)
  obtain r2 where r2: "bc_publish ?i (of_nat p) r1 = Inr r2" "bc_ring_ok (es[p := Held v]) hs r2"
      "bc_same r1 r2" "b_dropped r2 = b_dropped r1"
    using bc_publish_spec [OF r1(2) p, unfolded n, OF r1(3)] by blast
  have "bc_commit el ?w r1 = Inr (Returned, r2)"
    using r2(1) bc_set_cells_same [of r2]
    by (simp add: bc_commit_def bc_written_slot_drop_def uncommitted_commit_def uncommitted_armed_def
        uncommitted_is_armed_def uncommitted_drop_def drop_if_uncommitted_def)
  then show ?thesis using r1 r2 bc_same_trans [OF r1(4) r2(3)] by auto
qed

lemma bc_write_drop_spec:
  assumes ok: "bc_ring_ok es hs r" and p: "p < length es" "es ! p = Pending"
  shows "\<exists>w r1 r2. bc_write (bc_writer_at r p) v r = Inr (w, r1)
    \<and> bc_written_slot_drop el w r1 = Inr (drop_value el v, bc_wake_producer r2)
    \<and> bc_ring_ok (es[p := Gap]) hs r2 \<and> bc_same r r2 \<and> b_dropped r2 = b_dropped r @ [v]"
proof -
  let ?i = "p mod slots (b_capacity r)"
  let ?w = "\<lparr>bws_value = uncommitted_armed ?i, bws_slot = ?i, bws_pos = of_nat p\<rparr>"
  obtain r1 where r1: "bc_write (bc_writer_at r p) v r = Inr (?w, r1)" "bc_ring_ok es hs r1"
      "bs_data (b_buf r1 ! ?i) = Some v" "bc_same r r1" "b_dropped r1 = b_dropped r"
    using bc_write_spec [OF assms, of v] by blast
  have n: "slots (b_capacity r1) = slots (b_capacity r)" using r1(4) by (simp add: bc_same_def)
  have i: "?i < length (b_buf r1)" using bc_slot_mod(2) [OF r1(2), of p] n by simp
  let ?r = "r1\<lparr>b_buf := (b_buf r1)[?i := (b_buf r1 ! ?i)\<lparr>bs_data := None\<rparr>], b_dropped := b_dropped r @ [v]\<rparr>"
  have "bc_ring_ok es hs ?r"
    using bc_entry_pending_data [OF r1(2) p, of None] bc_ring_ok_effects(3) unfolding n by blast
  then obtain r2 where r2: "bc_abandon ?i (of_nat p) ?r = Inr r2" "bc_ring_ok (es[p := Gap]) hs r2"
      "bc_same ?r r2" "b_dropped r2 = b_dropped r @ [v]"
    using bc_abandon_spec [of es hs ?r p] p n by auto
  have take: "cell_take (bc_cells r1) ?i = Inr (v, (bc_cells r1)[?i := None])"
    using i r1(3) by (simp add: bc_cells_nth)
  have cells: "bc_set_cells ((bc_cells r1)[?i := None]) (r1\<lparr>b_dropped := b_dropped r1 @ [v]\<rparr>) = ?r"
    using bc_set_cells_update [OF i, of None] r1(5) by simp
  have "bc_written_slot_drop el ?w r1 = Inr (drop_value el v, bc_wake_producer r2)"
    unfolding bc_written_slot_drop_def
    by (cases "drop_value el v")
      (simp_all add: uncommitted_armed_def uncommitted_is_armed_def drop_if_uncommitted_def take cells
        reservation_abandon_drop_def r2(1) uncommitted_drop_def bc_set_cells_same
        del: bc_set_cells_dropped)
  moreover have "bc_same r r2" using r1(4) r2(3) by (simp add: bc_same_def)
  ultimately show ?thesis using r1(1) r2 by blast
qed

lemma bc_writer_drop_spec:
  assumes ok: "bc_ring_ok es hs r" and p: "p < length es" "es ! p = Pending"
  shows "\<exists>r1. bc_slot_writer_drop (bc_writer_at r p) r = Inr (bc_wake_producer r1)
    \<and> bc_ring_ok (es[p := Gap]) hs r1 \<and> bc_same r r1 \<and> b_dropped r1 = b_dropped r"
  using bc_abandon_spec [OF assms] by (auto simp: bc_slot_writer_drop_def bc_writer_at_def)

section \<open>Moving a head\<close>

lemma live_update: "x \<in> set (live_heads (hs[i := Some h])) \<Longrightarrow> x = h \<or> x \<in> set (live_heads hs)"
  using set_update_subset_insert [of hs i "Some h"] by (auto simp: in_live)

lemma live_nth: "i < length hs \<Longrightarrow> hs ! i = Some h \<Longrightarrow> h \<in> set (live_heads hs)"
  using nth_mem [of i hs] by (simp add: in_live)

lemma floor_behind_update:
  assumes "floor_behind (live_heads hs) t m" and "i < length hs" "hs ! i = Some h" "h \<le> h'"
  shows "floor_behind (live_heads (hs[i := Some h'])) t m"
proof -
  have "unat m \<le> h'" using assms live_nth by (fastforce simp: floor_behind_def)
  then show ?thesis using assms(1) by (auto simp: floor_behind_def dest: live_update)
qed

lemma seat_of_head:
  assumes "bc_ring_ok es hs r" and "i < length hs" and "hs ! i = Some h"
  shows "i < length (b_consumers r)" and "seat_active (b_consumers r ! i)"
    and "seat_head (b_consumers r ! i) = of_nat h"
  using list_all2_nthD [OF bc_ring_okD(5) [OF assms(1)] assms(2)] assms(3)
    list_all2_lengthD [OF bc_ring_okD(5) [OF assms(1)]] assms(2) by simp_all

lemma bc_head_of: "bc_ring_ok es hs r \<Longrightarrow> i < length hs \<Longrightarrow> hs ! i = Some h \<Longrightarrow>
    head_of (b_consumers r) i = Inr (of_nat h)"
  using seat_of_head [of es hs r i h] by (simp add: head_of_def)

lemma bc_move_head:
  assumes ok: "bc_ring_ok es hs r" and i: "i < length hs" "hs ! i = Some h"
    and h': "h \<le> h'" "h' \<le> length es"
  shows "bc_ring_ok es (hs[i := Some h']) (r\<lparr>b_consumers := (b_consumers r)[i :=
      (b_consumers r ! i)\<lparr>seat_head := of_nat h'\<rparr>]\<rparr>)"
proof -
  note D = bc_ring_okD [OF ok]
  have "length es \<le> h' + slots (b_capacity r)" using D(6) [OF live_nth [OF i]] h'(1) by simp
  moreover have "list_all2 seat_ok (hs[i := Some h'])
      ((b_consumers r)[i := (b_consumers r ! i)\<lparr>seat_head := of_nat h'\<rparr>])"
    using D(5) seat_of_head(2) [OF ok i] by (intro list_all2_update_cong) simp_all
  ultimately show ?thesis
    using D(1-4,8-10) floor_behind_update [OF D(7) i h'(1)] D(6) h'(2)
    by (auto simp: bc_ring_ok_def Let_def dest: live_update)
qed

lemma bc_advance_head_spec:
  assumes ok: "bc_ring_ok es hs r" and i: "i < length hs" "hs ! i = Some h" and h: "h < length es"
  shows "\<exists>r1. bc_advance_head i (of_nat h) r = Inr (bc_wake_producer r1)
    \<and> head_advance_drop i (of_nat h) r = Inr (bc_wake_producer r1)
    \<and> bc_ring_ok es (hs[i := Some (Suc h)]) r1
    \<and> b_buf r1 = b_buf r \<and> b_capacity r1 = b_capacity r \<and> b_tail r1 = b_tail r
    \<and> b_dropped r1 = b_dropped r \<and> b_producer_park r1 = b_producer_park r
    \<and> b_producer_park_slots r1 = b_producer_park_slots r"
  using bc_move_head [OF ok i, of "Suc h"] h seat_of_head(1) [OF ok i]
  by (intro exI [of _ "r\<lparr>b_consumers := (b_consumers r)[i := (b_consumers r ! i)\<lparr>seat_head := of_nat (Suc h)\<rparr>]\<rparr>"])
    (simp add: bc_advance_head_def head_advance_drop_def publish_head_past_def seat_update_def add.commute)

section \<open>Popping\<close>

text \<open>The first position from \<open>h\<close> on that is not a gap.\<close>

definition skip_gaps :: "'a bc_entry list \<Rightarrow> nat \<Rightarrow> nat" where
  "skip_gaps es h = h + length (takeWhile (\<lambda>e. e = Gap) (drop h es))"

lemma skip_gaps_step:
  "h < length es \<Longrightarrow> skip_gaps es h = (if es ! h = Gap then skip_gaps es (Suc h) else h)"
  by (simp add: skip_gaps_def Cons_nth_drop_Suc [symmetric])

lemma skip_gaps_end: "length es \<le> h \<Longrightarrow> skip_gaps es h = h"
  by (simp add: skip_gaps_def)

lemma skip_gaps_bounds: "h \<le> skip_gaps es h" "h \<le> length es \<Longrightarrow> skip_gaps es h \<le> length es"
  using length_takeWhile_le [of "\<lambda>e. e = Gap" "drop h es"] by (auto simp: skip_gaps_def)

definition ready_at :: "'a bc_entry list \<Rightarrow> nat \<Rightarrow> 'a option" where
  "ready_at es q = (if q < length es then (case es ! q of Held v \<Rightarrow> Some v | _ \<Rightarrow> None) else None)"

text \<open>What stays when heads move.\<close>

definition bc_kept :: "'a bc_ring \<Rightarrow> 'a bc_ring \<Rightarrow> bool" where
  "bc_kept r r' \<longleftrightarrow> b_buf r' = b_buf r \<and> b_capacity r' = b_capacity r \<and> b_tail r' = b_tail r
     \<and> b_dropped r' = b_dropped r \<and> b_producer_park_slots r' = b_producer_park_slots r"

lemma bc_kept_simps [simp]: "bc_kept r r" "bc_kept r (bc_wake_producer r') = bc_kept r r'"
  by (simp_all add: bc_kept_def)

lemma bc_kept_trans: "bc_kept r r1 \<Longrightarrow> bc_kept r1 r2 \<Longrightarrow> bc_kept r r2"
  by (simp add: bc_kept_def)

lemma bc_peek_ready:
  assumes ok: "bc_ring_ok es hs r" and h: "h \<in> set (live_heads hs)" "h < length es" "es ! h = Held v"
  shows "bc_peek_data (h mod slots (b_capacity r)) r = Inr v"
  using bc_ring_okD(9) [OF ok h(2)] bc_ring_okD(6) [OF ok h(1)] h(3) bc_slot_mod(2) [OF ok, of h]
  by (simp add: bc_peek_data_def bc_load_Inr)

definition cloned :: "'a element \<Rightarrow> 'a \<Rightarrow> 'a option outcome" where
  "cloned el v = (case clone_value el v of None \<Rightarrow> Unwound | Some w \<Rightarrow> Normal (Some w))"

lemma bc_pop_spec:
  assumes "bc_ring_ok es hs r" and "bc_slot_index c < length hs" and "hs ! bc_slot_index c = Some h"
  shows "\<exists>r1. bc_pop el c r = Inr (case ready_at es (skip_gaps es h) of
        None \<Rightarrow> Normal None | Some v \<Rightarrow> cloned el v, r1)
    \<and> bc_ring_ok es (hs[bc_slot_index c := Some (case ready_at es (skip_gaps es h) of
        None \<Rightarrow> skip_gaps es h | Some _ \<Rightarrow> Suc (skip_gaps es h))]) r1
    \<and> bc_kept r r1"
  using assms
proof (induction "length es - h" arbitrary: h hs r)
  case (0 h hs r)
  let ?i = "bc_slot_index c"
  note live = live_nth [OF "0.prems"(2,3)]
  have h: "h = length es" using 0 bc_ring_okD(6) [OF "0.prems"(1) live] by simp
  then have "skip_gaps es h = h" "ready_at es h = None" "hs[?i := Some h] = hs"
    using "0.prems"(2,3) list_update_id [of hs ?i] by (simp_all add: skip_gaps_end ready_at_def)
  then show ?case
    using h bc_head_of [OF "0.prems"] head_classify [OF "0.prems"(1) live] "0.prems"(1)
      bc_slot_mod [OF "0.prems"(1), of h]
    by (subst bc_pop.simps) (simp add: bc_load_Inr)
next
  case (Suc m h hs r)
  let ?i = "bc_slot_index c"
  note live = live_nth [OF Suc.prems(2,3)]
  have h: "h < length es" using Suc.hyps(2) by simp
  note run = bc_head_of [OF Suc.prems] head_classify [OF Suc.prems(1) live] bc_slot_mod [OF Suc.prems(1), of h]
  obtain r1 where r1: "bc_advance_head ?i (of_nat h) r = Inr (bc_wake_producer r1)"
      "head_advance_drop ?i (of_nat h) r = Inr (bc_wake_producer r1)"
      "bc_ring_ok es (hs[?i := Some (Suc h)]) (bc_wake_producer r1)" "bc_kept r (bc_wake_producer r1)"
    using bc_advance_head_spec [OF Suc.prems h] by (auto simp: bc_kept_def)
  show ?case
  proof (cases "es ! h")
    case Pending
    then have "skip_gaps es h = h" "ready_at es h = None" "hs[?i := Some h] = hs"
      using h skip_gaps_step [OF h] Suc.prems(2,3) list_update_id [of hs ?i] by (simp_all add: ready_at_def)
    then show ?thesis using Pending h run Suc.prems(1)
      by (subst bc_pop.simps) (simp add: bc_load_Inr)
  next
    case (Held v)
    then have "skip_gaps es h = h" "ready_at es h = Some v"
      using h skip_gaps_step [OF h] by (simp_all add: ready_at_def)
    then show ?thesis using Held h run r1 bc_peek_ready [OF Suc.prems(1) live h Held]
      by (subst bc_pop.simps) (simp add: bc_load_Inr cloned_def)
  next
    case Gap
    then have sk: "skip_gaps es h = skip_gaps es (Suc h)" using skip_gaps_step [OF h] by simp
    have "m = length es - Suc h" using Suc.hyps(2) by simp
    from Suc.hyps(1) [OF this r1(3)] Suc.prems(2) obtain r2 where r2:
      "bc_pop el c (bc_wake_producer r1) = Inr (case ready_at es (skip_gaps es (Suc h)) of
        None \<Rightarrow> Normal None | Some v \<Rightarrow> cloned el v, r2)"
      "bc_ring_ok es (hs[?i := Some (case ready_at es (skip_gaps es (Suc h)) of
        None \<Rightarrow> skip_gaps es (Suc h) | Some _ \<Rightarrow> Suc (skip_gaps es (Suc h)))]) r2"
      "bc_kept (bc_wake_producer r1) r2" by auto
    have "bc_pop el c r = bc_pop el c (bc_wake_producer r1)"
      using Gap h run r1(1) by (subst bc_pop.simps) (simp add: bc_load_Inr)
    then show ?thesis using r2 bc_kept_trans [OF r1(4) r2(3)] unfolding sk by auto
  qed
qed

text \<open>\<open>pop_ref\<close> skips the same way, but leaves the head on the value until the reader is dropped.\<close>

definition bc_reader_at :: "'a bc_ring \<Rightarrow> nat \<Rightarrow> bc_slot_reader" where
  "bc_reader_at r q = \<lparr>bsr_slot = q mod slots (b_capacity r), bsr_head = of_nat q\<rparr>"

lemma bc_pop_ref_spec:
  assumes "bc_ring_ok es hs r" and "bc_slot_index c < length hs" and "hs ! bc_slot_index c = Some h"
  shows "\<exists>r1. bc_pop_ref c r = Inr (map_option (\<lambda>_. bc_reader_at r (skip_gaps es h))
        (ready_at es (skip_gaps es h)), r1)
    \<and> bc_ring_ok es (hs[bc_slot_index c := Some (skip_gaps es h)]) r1 \<and> bc_kept r r1"
  using assms
proof (induction "length es - h" arbitrary: h hs r)
  case (0 h hs r)
  let ?i = "bc_slot_index c"
  note live = live_nth [OF "0.prems"(2,3)]
  have h: "h = length es" using 0 bc_ring_okD(6) [OF "0.prems"(1) live] by simp
  then have "skip_gaps es h = h" "ready_at es h = None" "hs[?i := Some h] = hs"
    using "0.prems"(2,3) list_update_id [of hs ?i] by (simp_all add: skip_gaps_end ready_at_def)
  then show ?case
    using h bc_head_of [OF "0.prems"] head_classify [OF "0.prems"(1) live] "0.prems"(1)
      bc_slot_mod [OF "0.prems"(1), of h]
    by (subst bc_pop_ref.simps) (simp add: bc_load_Inr)
next
  case (Suc m h hs r)
  let ?i = "bc_slot_index c"
  note live = live_nth [OF Suc.prems(2,3)]
  have h: "h < length es" using Suc.hyps(2) by simp
  have same: "hs[?i := Some h] = hs" using Suc.prems(2,3) list_update_id [of hs ?i] by simp
  note run = bc_head_of [OF Suc.prems] head_classify [OF Suc.prems(1) live] bc_slot_mod [OF Suc.prems(1), of h]
  show ?case
  proof (cases "es ! h")
    case Pending
    then have "skip_gaps es h = h" "ready_at es h = None"
      using h skip_gaps_step [OF h] by (simp_all add: ready_at_def)
    then show ?thesis using Pending h run Suc.prems(1) same
      by (subst bc_pop_ref.simps) (simp add: bc_load_Inr)
  next
    case (Held v)
    then have "skip_gaps es h = h" "ready_at es h = Some v"
      using h skip_gaps_step [OF h] by (simp_all add: ready_at_def)
    then show ?thesis using Held h run Suc.prems(1) same
      by (subst bc_pop_ref.simps) (simp add: bc_load_Inr bc_reader_at_def)
  next
    case Gap
    obtain r1 where r1: "bc_advance_head ?i (of_nat h) r = Inr (bc_wake_producer r1)"
        "bc_ring_ok es (hs[?i := Some (Suc h)]) (bc_wake_producer r1)" "bc_kept r (bc_wake_producer r1)"
      using bc_advance_head_spec [OF Suc.prems h] by (auto simp: bc_kept_def)
    have sk: "skip_gaps es h = skip_gaps es (Suc h)" using Gap skip_gaps_step [OF h] by simp
    have "m = length es - Suc h" using Suc.hyps(2) by simp
    from Suc.hyps(1) [OF this r1(2)] Suc.prems(2) obtain r2 where r2:
      "bc_pop_ref c (bc_wake_producer r1) = Inr (map_option
        (\<lambda>_. bc_reader_at (bc_wake_producer r1) (skip_gaps es (Suc h))) (ready_at es (skip_gaps es (Suc h))), r2)"
      "bc_ring_ok es (hs[?i := Some (skip_gaps es (Suc h))]) r2" "bc_kept (bc_wake_producer r1) r2" by auto
    have "bc_pop_ref c r = bc_pop_ref c (bc_wake_producer r1)"
      using Gap h run r1(1) by (subst bc_pop_ref.simps) (simp add: bc_load_Inr)
    moreover have "bc_reader_at (bc_wake_producer r1) q = bc_reader_at r q" for q
      using r1(3) by (simp add: bc_reader_at_def bc_kept_def)
    ultimately show ?thesis using r2 bc_kept_trans [OF r1(3) r2(3)] unfolding sk by auto
  qed
qed

lemma bc_reader_deref_spec:
  assumes "bc_ring_ok es hs r" and "i < length hs" "hs ! i = Some q" and "ready_at es q = Some v"
  shows "bc_reader_deref (bc_reader_at r q) r = Inr v"
  using bc_peek_ready [OF assms(1) live_nth [OF assms(2,3)], of v] assms(4)
  by (auto simp: bc_reader_deref_def bc_reader_at_def ready_at_def split: if_splits bc_entry.splits)

lemma bc_reader_drop_spec:
  assumes "bc_ring_ok es hs r" and "bc_slot_index c < length hs" "hs ! bc_slot_index c = Some q" and "q < length es"
  shows "\<exists>r1. bc_reader_drop c (bc_reader_at r q) r = Inr r1
    \<and> bc_ring_ok es (hs[bc_slot_index c := Some (Suc q)]) r1 \<and> bc_kept r r1"
  using bc_advance_head_spec [OF assms] by (auto simp: bc_reader_drop_def bc_reader_at_def bc_kept_def)

section \<open>Subscribing and leaving\<close>

lemma seats_claim_from_spec:
  assumes "list_all2 seat_ok hs reg"
  shows "None \<notin> set hs \<Longrightarrow> seats_claim_from k reg = Inl Assertion_Failed"
    and "None \<in> set hs \<Longrightarrow> \<exists>i. i < length hs \<and> hs ! i = None \<and> (\<forall>j < i. hs ! j \<noteq> None)
      \<and> seats_claim_from k reg = Inr (k + i, reg[i := (reg ! i)\<lparr>seat_active := True\<rparr>])"
  using assms
proof (induction hs reg arbitrary: k rule: list_all2_induct)
  case (Cons h hs s reg)
  case 1
  then show ?case using Cons by (cases h) (simp_all add: seat_take_def)
next
  case (Cons h hs s reg)
  case 2
  show ?case
  proof (cases h)
    case None
    then show ?thesis using Cons.hyps by (intro exI [of _ 0]) (simp add: seat_take_def)
  next
    case (Some x)
    then obtain i where "i < length hs" "hs ! i = None" "\<forall>j < i. hs ! j \<noteq> None"
      "seats_claim_from (Suc k) reg = Inr (Suc k + i, reg[i := (reg ! i)\<lparr>seat_active := True\<rparr>])"
      using Cons.IH(2) [of "Suc k"] 2 by auto
    then show ?thesis using Some Cons.hyps
      by (intro exI [of _ "Suc i"]) (auto simp: seat_take_def nth_Cons split: nat.splits)
  qed
qed simp_all

text \<open>The first free seat, if there is one; the new head is the tail.\<close>

definition free_seat :: "nat option list \<Rightarrow> nat option" where
  "free_seat hs = find (\<lambda>i. hs ! i = None) [0..<length hs]"

lemma free_seat_None: "free_seat hs = None \<longleftrightarrow> None \<notin> set hs"
  by (auto simp: free_seat_def find_None_iff in_set_conv_nth)

lemma free_seat_Some: "free_seat hs = Some i \<longleftrightarrow> i < length hs \<and> hs ! i = None \<and> (\<forall>j < i. hs ! j \<noteq> None)"
  by (force simp: free_seat_def find_Some_iff)

lemma bc_consumer_clone_spec:
  assumes ok: "bc_ring_ok es hs r"
  shows "free_seat hs = None \<Longrightarrow> bc_consumer_clone r = Inl Assertion_Failed"
    and "free_seat hs = Some i \<Longrightarrow> \<exists>r1. bc_consumer_clone r = Inr (\<lparr>bc_slot_index = i\<rparr>, r1)
      \<and> bc_ring_ok es (hs[i := Some (length es)]) r1 \<and> bc_kept r r1
      \<and> b_producer_park r1 = b_producer_park r \<and> b_unparked r1 = b_unparked r"
proof -
  note D = bc_ring_okD [OF ok]
  show "bc_consumer_clone r = Inl Assertion_Failed" if "free_seat hs = None"
    using seats_claim_from_spec(1) [OF D(5)] that
    by (simp add: free_seat_None bc_consumer_clone_def subscribe_at_def seats_claim_def)
  show "\<exists>r1. bc_consumer_clone r = Inr (\<lparr>bc_slot_index = i\<rparr>, r1)
      \<and> bc_ring_ok es (hs[i := Some (length es)]) r1 \<and> bc_kept r r1
      \<and> b_producer_park r1 = b_producer_park r \<and> b_unparked r1 = b_unparked r" if "free_seat hs = Some i"
  proof -
    have i: "i < length hs" "hs ! i = None" "\<forall>j < i. hs ! j \<noteq> None" using that by (simp_all add: free_seat_Some)
    have len: "length (b_consumers r) = length hs" using list_all2_lengthD [OF D(5)] by simp
    have "None \<in> set hs" using i nth_mem by metis
    then obtain j where j: "j < length hs" "hs ! j = None" "\<forall>k < j. hs ! k \<noteq> None"
      "seats_claim_from 0 (b_consumers r) = Inr (0 + j, (b_consumers r)[j := (b_consumers r ! j)\<lparr>seat_active := True\<rparr>])"
      using seats_claim_from_spec(2) [OF D(5)] by blast
    then have "j = i" using i by (metis linorder_neqE_nat)
    let ?reg = "(b_consumers r)[i := (b_consumers r ! i)\<lparr>seat_active := True, seat_head := of_nat (length es)\<rparr>]"
    have run: "bc_consumer_clone r = Inr (\<lparr>bc_slot_index = i\<rparr>, r\<lparr>b_consumers := ?reg\<rparr>)"
      using j(4) D(4) i(1) len \<open>j = i\<close>
      by (simp add: bc_consumer_clone_def subscribe_at_def seats_claim_def seat_update_def)
    have "list_all2 seat_ok (hs[i := Some (length es)]) ?reg"
      using D(5) by (intro list_all2_update_cong) simp_all
    moreover have "floor_behind (live_heads (hs[i := Some (length es)])) (length es) (highest_floor (b_min_head_cache r))"
      using D(7) by (auto simp: floor_behind_def dest: live_update)
    ultimately have "bc_ring_ok es (hs[i := Some (length es)]) (r\<lparr>b_consumers := ?reg\<rparr>)"
      using D(1-4,6,8-10) by (auto simp: bc_ring_ok_def Let_def dest: live_update)
    then show ?thesis using run by (auto simp: bc_kept_def)
  qed
qed

lemma live_leave: "x \<in> set (live_heads (hs[i := None])) \<Longrightarrow> x \<in> set (live_heads hs)"
  using set_update_subset_insert [of hs i None] by (auto simp: in_live)

lemma bc_consumer_drop_spec:
  assumes ok: "bc_ring_ok es hs r" and i: "bc_slot_index c < length hs" "hs ! bc_slot_index c = Some h"
  shows "\<exists>r1. bc_consumer_drop c r = Inr (bc_flush r1)
    \<and> bc_ring_ok es (hs[bc_slot_index c := None]) r1 \<and> bc_kept r r1
    \<and> b_producer_park r1 = b_producer_park r \<and> b_unparked r1 = b_unparked r"
proof -
  let ?i = "bc_slot_index c"
  note D = bc_ring_okD [OF ok]
  let ?reg = "(b_consumers r)[?i := (b_consumers r ! ?i)\<lparr>seat_active := False\<rparr>]"
  have "list_all2 seat_ok (hs[?i := None]) ?reg"
    using D(5) by (intro list_all2_update_cong) simp_all
  moreover have "floor_behind (live_heads (hs[?i := None])) (length es) (highest_floor (b_min_head_cache r))"
    using D(7) by (auto simp: floor_behind_def dest: live_leave)
  ultimately have "bc_ring_ok es (hs[?i := None]) (r\<lparr>b_consumers := ?reg\<rparr>)"
    using D(1-4,6,8-10) by (auto simp: bc_ring_ok_def Let_def dest: live_leave)
  moreover have "bc_consumer_drop c r = Inr (bc_flush (r\<lparr>b_consumers := ?reg\<rparr>))"
    using seat_of_head(1) [OF ok i] by (simp add: bc_consumer_drop_def unsubscribe_def seat_update_def)
  ultimately show ?thesis by (auto simp: bc_kept_def)
qed

section \<open>A fresh ring\<close>

lemma bc_split_spec:
  assumes "wf_capacity c" and "0 < m"
  shows "\<exists>r p r1. bc_new c m = Inr (r :: 'a bc_ring) \<and> bc_split r = Inr (p, \<lparr>bc_slot_index = 0\<rparr>, r1)
    \<and> bc_ring_ok [] ((replicate m None)[0 := Some 0]) r1 \<and> bc_producer_ok ([] :: 'a bc_entry list) ((replicate m None)[0 := Some 0]) p
    \<and> b_capacity r1 = c \<and> b_dropped r1 = [] \<and> b_unparked r1 = [] \<and> b_producer_park r1 = wake_set_new"
proof -
  have pos: "0 < capacity_get c" using slots_pos [OF assms(1)] by (simp add: capacity_get_def word_less_nat_alt)
  let ?buf = "map (\<lambda>_. \<lparr>bs_data = None, bs_sequence = bw_vacant\<rparr> :: 'a bc_slot) [0..<slots c]"
  let ?reg = "replicate m seat_vacant"
  let ?r = "\<lparr>b_buf = ?buf, b_capacity = c, b_consumers = ?reg, b_tail = 0,
    b_min_head_cache = shared_floor_new, b_producer_park = wake_set_new,
    b_producer_park_slots = registry_new, b_unparked = [], b_dropped = []\<rparr> :: 'a bc_ring"
  have new: "bc_new c m = Inr ?r"
    using pos assms(2) by (simp add: bc_new_def aligned_buf_new_with_def seats_new_def capacity_get_def)
  obtain slot lot where lot: "registry_lease (b_producer_park_slots ?r) = (slot, lot)" by (metis prod.exhaust)
  let ?reg1 = "?reg[0 := seat_vacant\<lparr>seat_active := True, seat_head := 0\<rparr>]"
  let ?r1 = "?r\<lparr>b_consumers := ?reg1, b_producer_park_slots := lot\<rparr>"
  let ?p = "\<lparr>bp_floor_cache = floor_cache_new, bp_park_slot = slot\<rparr>"
  let ?hs = "(replicate m None)[0 := Some 0]"
  have split: "bc_split ?r = Inr (?p, \<lparr>bc_slot_index = 0\<rparr>, ?r1)"
    using assms(2) lot by (simp add: bc_split_def subscribe_first_def seat_update_def)
  have "list_all2 seat_ok ?hs ?reg1"
    by (intro list_all2_update_cong) (simp_all add: list_all2_conv_all_nth seat_vacant_def)
  moreover have "h = 0" if "h \<in> set (live_heads ?hs)" for h
    using live_update [OF that] by (auto simp: in_live)
  ultimately have "bc_ring_ok [] ?hs ?r1" "bc_producer_ok ([] :: 'a bc_entry list) ?hs ?p"
    using assms(1) by (auto simp: bc_ring_ok_def bc_producer_ok_def Let_def floor_behind_def
        shared_floor_new_def floor_cache_new_def bw_vacant_def)
  then show ?thesis using new split by (intro exI [of _ ?r] exI [of _ ?p] exI [of _ ?r1]) simp
qed

end
