(* ===== verification/Broadcast_Programs.thy ===== *)
theory Broadcast_Programs
  imports Broadcast_Correct "HOL-Library.Multiset"
begin

text \<open>
  The broadcast ring with its handles: producers that push, reserve, clone and leave, and
  consumers that subscribe, pop, read in place and leave, in any order, one call after the
  other. The specification is the list of everything claimed and one head per seat.
\<close>

section \<open>The system\<close>

text \<open>
  Producers are gone once dropped. A consumer handle is its seat: it exists while the
  seat is taken, and an open reader borrows it.
\<close>

type_synonym 'a bcast =
  "bc_producer option list \<times> bc_slot_writer list \<times> bc_slot_reader option list \<times> 'a bc_ring"

datatype 'a bc_op =
    B_Push nat 'a | B_Reserve nat | B_Commit nat 'a | B_Abandon nat | B_Abandon_Written nat 'a
  | B_Pop nat | B_Open nat | B_Finish nat | B_Subscribe nat | B_Leave nat | B_Clone nat | B_Retire nat

datatype 'a bc_event =
    B_Published nat 'a | B_Refused 'a | B_Reserved bool | B_Gave_Up "'a list" | B_Unwound
  | B_Popped nat 'a | B_Clone_Panicked nat | B_Empty nat | B_Opened nat 'a | B_Read nat 'a
  | B_Joined nat nat | B_Full_House | B_Left nat | B_Cloned | B_Retired | B_No_Call

definition remove_nth :: "nat \<Rightarrow> 'x list \<Rightarrow> 'x list" where
  "remove_nth i xs = take i xs @ drop (Suc i) xs"

definition producer_at :: "bc_producer option list \<Rightarrow> nat \<Rightarrow> bc_producer option" where
  "producer_at ps j = (if j < length ps then ps ! j else None)"

text \<open>A consumer that no reader borrows.\<close>

definition bc_free_consumer :: "bc_slot_reader option list \<Rightarrow> 'a bc_ring \<Rightarrow> nat \<Rightarrow> bc_consumer option" where
  "bc_free_consumer rds r i =
     (if i < length (b_consumers r) \<and> seat_active (b_consumers r ! i) \<and> i < length rds \<and> rds ! i = None
      then Some \<lparr>bc_slot_index = i\<rparr> else None)"

definition bcast_push :: "'a element \<Rightarrow> nat \<Rightarrow> 'a \<Rightarrow> 'a bcast \<Rightarrow> ('a bc_event \<times> 'a bcast) exec" where
  "bcast_push el j v s =
     (case s of (ps, ws, rds, r) \<Rightarrow>
        case producer_at ps j of
          None \<Rightarrow> Inr (B_No_Call, s)
        | Some p \<Rightarrow>
            seq_exec (bc_push el [] id v p r) (\<lambda>(out, p1, r1).
              Inr (case out of
                     Unwound \<Rightarrow> B_Unwound
                   | Normal Push_Ok \<Rightarrow> B_Published (unat (b_tail r)) v
                   | Normal (Push_Err v1) \<Rightarrow> B_Refused v1,
                   ps[j := Some p1], ws, rds, r1)))"

definition bcast_reserve :: "'a element \<Rightarrow> nat \<Rightarrow> 'a bcast \<Rightarrow> ('a bc_event \<times> 'a bcast) exec" where
  "bcast_reserve el j s =
     (case s of (ps, ws, rds, r) \<Rightarrow>
        case producer_at ps j of
          None \<Rightarrow> Inr (B_No_Call, s)
        | Some p \<Rightarrow>
            seq_exec (bc_reserve el [] id p r) (\<lambda>(out, p1, r1).
              Inr (case out of
                     Unwound \<Rightarrow> (B_Unwound, ps[j := Some p1], ws, rds, r1)
                   | Normal None \<Rightarrow> (B_Reserved False, ps[j := Some p1], ws, rds, r1)
                   | Normal (Some w) \<Rightarrow> (B_Reserved True, ps[j := Some p1], ws @ [w], rds, r1))))"

definition bcast_commit :: "'a element \<Rightarrow> nat \<Rightarrow> 'a \<Rightarrow> 'a bcast \<Rightarrow> ('a bc_event \<times> 'a bcast) exec" where
  "bcast_commit el i v s =
     (case s of (ps, ws, rds, r) \<Rightarrow>
        if i < length ws then
          seq_exec (bc_write (ws ! i) v r) (\<lambda>(w, r1).
          seq_exec (bc_commit el w r1) (\<lambda>(_, r2).
            Inr (B_Published (unat (bsw_pos (ws ! i))) v, ps, remove_nth i ws, rds, r2)))
        else Inr (B_No_Call, s))"

definition bcast_abandon :: "nat \<Rightarrow> 'a bcast \<Rightarrow> ('a bc_event \<times> 'a bcast) exec" where
  "bcast_abandon i s =
     (case s of (ps, ws, rds, r) \<Rightarrow>
        if i < length ws then
          seq_exec (bc_slot_writer_drop (ws ! i) r) (\<lambda>r1.
            Inr (B_Gave_Up [], ps, remove_nth i ws, rds, r1))
        else Inr (B_No_Call, s))"

definition bcast_abandon_written ::
    "'a element \<Rightarrow> nat \<Rightarrow> 'a \<Rightarrow> 'a bcast \<Rightarrow> ('a bc_event \<times> 'a bcast) exec" where
  "bcast_abandon_written el i v s =
     (case s of (ps, ws, rds, r) \<Rightarrow>
        if i < length ws then
          seq_exec (bc_write (ws ! i) v r) (\<lambda>(w, r1).
          seq_exec (bc_written_slot_drop el w r1) (\<lambda>(_, r2).
            Inr (B_Gave_Up [v], ps, remove_nth i ws, rds, r2)))
        else Inr (B_No_Call, s))"

definition bcast_pop :: "'a element \<Rightarrow> nat \<Rightarrow> 'a bcast \<Rightarrow> ('a bc_event \<times> 'a bcast) exec" where
  "bcast_pop el i s =
     (case s of (ps, ws, rds, r) \<Rightarrow>
        case bc_free_consumer rds r i of
          None \<Rightarrow> Inr (B_No_Call, s)
        | Some c \<Rightarrow>
            seq_exec (bc_pop el c r) (\<lambda>(out, r1).
              Inr (case out of
                     Unwound \<Rightarrow> B_Clone_Panicked i
                   | Normal None \<Rightarrow> B_Empty i
                   | Normal (Some w) \<Rightarrow> B_Popped i w,
                   ps, ws, rds, r1)))"

definition bcast_open :: "nat \<Rightarrow> 'a bcast \<Rightarrow> ('a bc_event \<times> 'a bcast) exec" where
  "bcast_open i s =
     (case s of (ps, ws, rds, r) \<Rightarrow>
        case bc_free_consumer rds r i of
          None \<Rightarrow> Inr (B_No_Call, s)
        | Some c \<Rightarrow>
            seq_exec (bc_pop_ref c r) (\<lambda>(found, r1).
              case found of
                None \<Rightarrow> Inr (B_Empty i, ps, ws, rds, r1)
              | Some rd \<Rightarrow>
                  seq_exec (bc_reader_deref rd r1) (\<lambda>v.
                    Inr (B_Opened i v, ps, ws, rds[i := Some rd], r1))))"

text \<open>The reader is looked at once more before it is dropped.\<close>

definition bcast_finish :: "nat \<Rightarrow> 'a bcast \<Rightarrow> ('a bc_event \<times> 'a bcast) exec" where
  "bcast_finish i s =
     (case s of (ps, ws, rds, r) \<Rightarrow>
        case (if i < length rds then rds ! i else None) of
          None \<Rightarrow> Inr (B_No_Call, s)
        | Some rd \<Rightarrow>
            seq_exec (bc_reader_deref rd r) (\<lambda>v.
            seq_exec (bc_reader_drop \<lparr>bc_slot_index = i\<rparr> rd r) (\<lambda>r1.
              Inr (B_Read i v, ps, ws, rds[i := None], r1))))"

text \<open>Cloning with every seat taken panics before anything is changed.\<close>

definition bcast_subscribe :: "nat \<Rightarrow> 'a bcast \<Rightarrow> ('a bc_event \<times> 'a bcast) exec" where
  "bcast_subscribe i s =
     (case s of (ps, ws, rds, r) \<Rightarrow>
        case bc_free_consumer rds r i of
          None \<Rightarrow> Inr (B_No_Call, s)
        | Some _ \<Rightarrow>
            (case bc_consumer_clone r of
               Inl _ \<Rightarrow> Inr (B_Full_House, s)
             | Inr (c, r1) \<Rightarrow>
                 Inr (B_Joined (bc_slot_index c) (unat (seat_pos r1 (bc_slot_index c))), ps, ws, rds, r1)))"

definition bcast_leave :: "nat \<Rightarrow> 'a bcast \<Rightarrow> ('a bc_event \<times> 'a bcast) exec" where
  "bcast_leave i s =
     (case s of (ps, ws, rds, r) \<Rightarrow>
        case bc_free_consumer rds r i of
          None \<Rightarrow> Inr (B_No_Call, s)
        | Some c \<Rightarrow> seq_exec (bc_consumer_drop c r) (\<lambda>r1. Inr (B_Left i, ps, ws, rds, r1)))"

definition bcast_clone :: "nat \<Rightarrow> 'a bcast \<Rightarrow> ('a bc_event \<times> 'a bcast) exec" where
  "bcast_clone j s =
     (case s of (ps, ws, rds, r) \<Rightarrow>
        case producer_at ps j of
          None \<Rightarrow> Inr (B_No_Call, s)
        | Some _ \<Rightarrow>
            (case bc_producer_clone r of (p, r1) \<Rightarrow> Inr (B_Cloned, ps @ [Some p], ws, rds, r1)))"

definition bcast_retire :: "nat \<Rightarrow> 'a bcast \<Rightarrow> ('a bc_event \<times> 'a bcast) exec" where
  "bcast_retire j s =
     (case s of (ps, ws, rds, r) \<Rightarrow>
        case producer_at ps j of
          None \<Rightarrow> Inr (B_No_Call, s)
        | Some p \<Rightarrow> Inr (B_Retired, ps[j := None], ws, rds, bc_producer_drop p r))"

fun bcast_step :: "'a element \<Rightarrow> 'a bc_op \<Rightarrow> 'a bcast \<Rightarrow> ('a bc_event \<times> 'a bcast) exec" where
  "bcast_step el (B_Push j v) s = bcast_push el j v s"
| "bcast_step el (B_Reserve j) s = bcast_reserve el j s"
| "bcast_step el (B_Commit i v) s = bcast_commit el i v s"
| "bcast_step el (B_Abandon i) s = bcast_abandon i s"
| "bcast_step el (B_Abandon_Written i v) s = bcast_abandon_written el i v s"
| "bcast_step el (B_Pop i) s = bcast_pop el i s"
| "bcast_step el (B_Open i) s = bcast_open i s"
| "bcast_step el (B_Finish i) s = bcast_finish i s"
| "bcast_step el (B_Subscribe i) s = bcast_subscribe i s"
| "bcast_step el (B_Leave i) s = bcast_leave i s"
| "bcast_step el (B_Clone j) s = bcast_clone j s"
| "bcast_step el (B_Retire j) s = bcast_retire j s"

fun bcast_run :: "'a element \<Rightarrow> 'a bc_op list \<Rightarrow> 'a bcast \<Rightarrow> ('a bc_event list \<times> 'a bcast) exec" where
  "bcast_run el [] s = Inr ([], s)"
| "bcast_run el (op # ops) s =
     seq_exec (bcast_step el op s) (\<lambda>(e, s1).
     seq_exec (bcast_run el ops s1) (\<lambda>(es, s2). Inr (e # es, s2)))"

definition bcast_start :: "capacity \<Rightarrow> nat \<Rightarrow> 'a bcast exec" where
  "bcast_start c m =
     seq_exec (bc_new c m) (\<lambda>r.
     seq_exec (bc_split r) (\<lambda>(p, _, r1). Inr ([Some p], [], replicate m None, r1)))"

section \<open>The specification\<close>

text \<open>
  Everything claimed, the head of each seat, which seats have an open reader, the open
  reservations, the producers alive, and the values of reservations given up.
\<close>

type_synonym 'a bc_spec =
  "'a bc_entry list \<times> nat option list \<times> bool list \<times> nat list \<times> bool list \<times> 'a list"

definition alive :: "bool list \<Rightarrow> nat \<Rightarrow> bool" where
  "alive ps j \<longleftrightarrow> j < length ps \<and> ps ! j"

definition seated :: "nat option list \<Rightarrow> bool list \<Rightarrow> nat \<Rightarrow> nat option" where
  "seated hs rd i = (if i < length hs \<and> i < length rd \<and> \<not> rd ! i then hs ! i else None)"

fun bc_spec_step :: "'a element \<Rightarrow> nat \<Rightarrow> 'a bc_op \<Rightarrow> 'a bc_spec \<Rightarrow> 'a bc_event \<times> 'a bc_spec" where
  "bc_spec_step el n (B_Push j v) (es, hs, rd, ns, ps, gone) =
     (if \<not> alive ps j then (B_No_Call, es, hs, rd, ns, ps, gone)
      else if \<not> claimable_at n es hs then (B_Refused v, es, hs, rd, ns, ps, gone)
      else (B_Published (length es) v, es @ [Held v], hs, rd, ns, ps, gone))"
| "bc_spec_step el n (B_Reserve j) (es, hs, rd, ns, ps, gone) =
     (if \<not> alive ps j then (B_No_Call, es, hs, rd, ns, ps, gone)
      else if \<not> claimable_at n es hs then (B_Reserved False, es, hs, rd, ns, ps, gone)
      else (B_Reserved True, es @ [Pending], hs, rd, ns @ [length es], ps, gone))"
| "bc_spec_step el n (B_Commit i v) (es, hs, rd, ns, ps, gone) =
     (if i < length ns
      then (B_Published (ns ! i) v, es[ns ! i := Held v], hs, rd, remove_nth i ns, ps, gone)
      else (B_No_Call, es, hs, rd, ns, ps, gone))"
| "bc_spec_step el n (B_Abandon i) (es, hs, rd, ns, ps, gone) =
     (if i < length ns
      then (B_Gave_Up [], es[ns ! i := Gap], hs, rd, remove_nth i ns, ps, gone)
      else (B_No_Call, es, hs, rd, ns, ps, gone))"
| "bc_spec_step el n (B_Abandon_Written i v) (es, hs, rd, ns, ps, gone) =
     (if i < length ns
      then (B_Gave_Up [v], es[ns ! i := Gap], hs, rd, remove_nth i ns, ps, gone @ [v])
      else (B_No_Call, es, hs, rd, ns, ps, gone))"
| "bc_spec_step el n (B_Pop i) (es, hs, rd, ns, ps, gone) =
     (case seated hs rd i of
        None \<Rightarrow> (B_No_Call, es, hs, rd, ns, ps, gone)
      | Some h \<Rightarrow>
          (case ready_at es (skip_gaps es h) of
             None \<Rightarrow> (B_Empty i, es, hs[i := Some (skip_gaps es h)], rd, ns, ps, gone)
           | Some v \<Rightarrow>
               (case clone_value el v of None \<Rightarrow> B_Clone_Panicked i | Some w \<Rightarrow> B_Popped i w,
                es, hs[i := Some (Suc (skip_gaps es h))], rd, ns, ps, gone)))"
| "bc_spec_step el n (B_Open i) (es, hs, rd, ns, ps, gone) =
     (case seated hs rd i of
        None \<Rightarrow> (B_No_Call, es, hs, rd, ns, ps, gone)
      | Some h \<Rightarrow>
          (case ready_at es (skip_gaps es h) of
             None \<Rightarrow> (B_Empty i, es, hs[i := Some (skip_gaps es h)], rd, ns, ps, gone)
           | Some v \<Rightarrow>
               (B_Opened i v, es, hs[i := Some (skip_gaps es h)], rd[i := True], ns, ps, gone)))"
| "bc_spec_step el n (B_Finish i) (es, hs, rd, ns, ps, gone) =
     (if i < length rd \<and> rd ! i then
        (case hs ! i of
           None \<Rightarrow> (B_No_Call, es, hs, rd, ns, ps, gone)
         | Some h \<Rightarrow>
             (B_Read i (the (ready_at es h)), es, hs[i := Some (Suc h)], rd[i := False], ns, ps, gone))
      else (B_No_Call, es, hs, rd, ns, ps, gone))"
| "bc_spec_step el n (B_Subscribe i) (es, hs, rd, ns, ps, gone) =
     (case seated hs rd i of
        None \<Rightarrow> (B_No_Call, es, hs, rd, ns, ps, gone)
      | Some _ \<Rightarrow>
          (case free_seat hs of
             None \<Rightarrow> (B_Full_House, es, hs, rd, ns, ps, gone)
           | Some k \<Rightarrow> (B_Joined k (length es), es, hs[k := Some (length es)], rd, ns, ps, gone)))"
| "bc_spec_step el n (B_Leave i) (es, hs, rd, ns, ps, gone) =
     (case seated hs rd i of
        None \<Rightarrow> (B_No_Call, es, hs, rd, ns, ps, gone)
      | Some _ \<Rightarrow> (B_Left i, es, hs[i := None], rd, ns, ps, gone))"
| "bc_spec_step el n (B_Clone j) (es, hs, rd, ns, ps, gone) =
     (if \<not> alive ps j then (B_No_Call, es, hs, rd, ns, ps, gone)
      else (B_Cloned, es, hs, rd, ns, ps @ [True], gone))"
| "bc_spec_step el n (B_Retire j) (es, hs, rd, ns, ps, gone) =
     (if \<not> alive ps j then (B_No_Call, es, hs, rd, ns, ps, gone)
      else (B_Retired, es, hs, rd, ns, ps[j := False], gone))"

fun bc_spec_run :: "'a element \<Rightarrow> nat \<Rightarrow> 'a bc_op list \<Rightarrow> 'a bc_spec \<Rightarrow> 'a bc_event list \<times> 'a bc_spec" where
  "bc_spec_run el n [] a = ([], a)"
| "bc_spec_run el n (op # ops) a =
     (case bc_spec_step el n op a of (e, a1) \<Rightarrow>
        case bc_spec_run el n ops a1 of (es, a2) \<Rightarrow> (e # es, a2))"

definition bc_spec_start :: "nat \<Rightarrow> 'a bc_spec" where
  "bc_spec_start m = ([], (replicate m None)[0 := Some 0], replicate m False, [], [True], [])"

section \<open>The ring and its specification\<close>

fun held_values :: "'a bc_entry list \<Rightarrow> 'a list" where
  "held_values [] = []"
| "held_values (Held v # es) = v # held_values es"
| "held_values (_ # es) = held_values es"

definition producer_rel ::
    "'a bc_entry list \<Rightarrow> nat option list \<Rightarrow> bool \<Rightarrow> bc_producer option \<Rightarrow> bool" where
  "producer_rel es hs b po \<longleftrightarrow> (case po of None \<Rightarrow> \<not> b | Some p \<Rightarrow> b \<and> bc_producer_ok es hs p)"

definition reader_rel ::
    "'a bc_entry list \<Rightarrow> nat option list \<Rightarrow> bool list \<Rightarrow> bc_slot_reader option list \<Rightarrow> 'a bc_ring \<Rightarrow> bool" where
  "reader_rel es hs rd rds r \<longleftrightarrow> length rd = length hs \<and> length rds = length hs
     \<and> (\<forall>i < length hs. if rd ! i
          then \<exists>h. hs ! i = Some h \<and> ready_at es h \<noteq> None \<and> rds ! i = Some (bc_reader_at r h)
          else rds ! i = None)"

text \<open>
  What has been destroyed: the values whose lap is over, and those given up. Nothing of a
  type without destructor is.
\<close>

definition dropped_ok :: "'a element \<Rightarrow> 'a bc_entry list \<Rightarrow> 'a list \<Rightarrow> 'a bc_ring \<Rightarrow> bool" where
  "dropped_ok el es gone r \<longleftrightarrow> needs_drop el \<longrightarrow>
     mset (b_dropped r) = mset (held_values (take (length es - slots (b_capacity r)) es)) + mset gone"

fun bc_rel :: "'a element \<Rightarrow> 'a bc_spec \<Rightarrow> 'a bcast \<Rightarrow> bool" where
  "bc_rel el (es, hs, rd, ns, ps, gone) (pos, ws, rds, r) \<longleftrightarrow>
     bc_ring_ok es hs r
     \<and> list_all2 (producer_rel es hs) ps pos
     \<and> ws = map (bc_writer_at r) ns \<and> distinct ns \<and> (\<forall>p \<in> set ns. p < length es \<and> es ! p = Pending)
     \<and> reader_rel es hs rd rds r
     \<and> dropped_ok el es gone r"

section \<open>Every call follows its specification\<close>

definition bc_follows :: "'a element \<Rightarrow> 'a bc_op \<Rightarrow> 'a bc_spec \<Rightarrow> 'a bcast \<Rightarrow> bool" where
  "bc_follows el op a s \<longleftrightarrow>
     (let r = snd (snd (snd s)) in
      case bc_spec_step el (slots (b_capacity r)) op a of
        (e, a1) \<Rightarrow> \<exists>s1. bcast_step el op s = Inr (e, s1) \<and> bc_rel el a1 s1
          \<and> b_capacity (snd (snd (snd s1))) = b_capacity r)"

lemma producers_mono:
  assumes "list_all2 (producer_rel es hs) ps pos"
    and "\<And>p. bc_producer_ok es hs p \<Longrightarrow> bc_producer_ok es' hs' p"
  shows "list_all2 (producer_rel es' hs') ps pos"
  using assms(1) by (rule list_all2_mono) (auto simp: producer_rel_def assms(2) split: option.splits)

lemma producers_update:
  assumes "list_all2 (producer_rel es hs) ps pos" and "producer_at pos j = Some p"
    and "\<And>q. bc_producer_ok es hs q \<Longrightarrow> bc_producer_ok es' hs' q" and "bc_producer_ok es' hs' p1"
  shows "list_all2 (producer_rel es' hs') ps (pos[j := Some p1])"
proof -
  have j: "j < length pos" "pos ! j = Some p" using assms(2) by (auto simp: producer_at_def split: if_splits)
  then have "j < length ps" "producer_rel es hs (ps ! j) (Some p)"
    using list_all2_lengthD [OF assms(1)] list_all2_nthD2 [OF assms(1) j(1)] by simp_all
  then have "ps[j := True] = ps" using list_update_id [of ps j] by (simp add: producer_rel_def)
  then show ?thesis
    using list_all2_update_cong [OF producers_mono [OF assms(1,3)], of True "Some p1" j] assms(4)
    by (simp add: producer_rel_def)
qed

lemma producer_alive:
  assumes "list_all2 (producer_rel es hs) ps pos"
  shows "alive ps j \<longleftrightarrow> producer_at pos j \<noteq> None"
    and "producer_at pos j = Some p \<Longrightarrow> bc_producer_ok es hs p"
proof -
  have len: "length ps = length pos" using list_all2_lengthD [OF assms] .
  have rel: "j < length ps \<Longrightarrow> producer_rel es hs (ps ! j) (pos ! j)"
    using list_all2_nthD [OF assms] by simp
  show "alive ps j \<longleftrightarrow> producer_at pos j \<noteq> None"
    using rel len by (auto simp: alive_def producer_at_def producer_rel_def split: option.splits)
  show "producer_at pos j = Some p \<Longrightarrow> bc_producer_ok es hs p"
    using rel len by (auto simp: producer_at_def producer_rel_def split: if_splits option.splits)
qed

lemma producer_ok_longer:
  "bc_producer_ok es hs p \<Longrightarrow> length es \<le> length es' \<Longrightarrow> bc_producer_ok es' hs p"
  unfolding bc_producer_ok_def by (rule floor_behind_mono)

lemma producer_ok_head:
  "bc_producer_ok es hs p \<Longrightarrow> i < length hs \<Longrightarrow> hs ! i = Some h \<Longrightarrow> h \<le> h' \<Longrightarrow>
    bc_producer_ok es (hs[i := Some h']) p"
  unfolding bc_producer_ok_def by (rule floor_behind_update)

lemma producer_ok_join: "bc_producer_ok es hs p \<Longrightarrow> bc_producer_ok es (hs[i := Some (length es)]) p"
  by (auto simp: bc_producer_ok_def floor_behind_def dest: live_update)

lemma producer_ok_leave: "bc_producer_ok es hs p \<Longrightarrow> bc_producer_ok es (hs[i := None]) p"
  by (auto simp: bc_producer_ok_def floor_behind_def dest: live_leave)

lemma reader_rel_grow:
  assumes "reader_rel es hs rd rds r" and "b_capacity r' = b_capacity r"
    and "\<And>h. ready_at es h \<noteq> None \<Longrightarrow> ready_at es' h \<noteq> None"
  shows "reader_rel es' hs rd rds r'"
  using assms unfolding reader_rel_def bc_reader_at_def by metis

lemma reader_rel_head:
  assumes "reader_rel es hs rd rds r" and "b_capacity r' = b_capacity r" and "i < length hs \<Longrightarrow> \<not> rd ! i"
  shows "reader_rel es (hs[i := x]) rd rds r'"
proof -
  have "if rd ! j then \<exists>h. hs[i := x] ! j = Some h \<and> ready_at es h \<noteq> None \<and> rds ! j = Some (bc_reader_at r' h)
      else rds ! j = None" if "j < length hs" for j
  proof (cases "j = i")
    case True
    then show ?thesis using assms that by (simp add: reader_rel_def)
  next
    case False
    have "if rd ! j then \<exists>h. hs ! j = Some h \<and> ready_at es h \<noteq> None \<and> rds ! j = Some (bc_reader_at r h)
        else rds ! j = None"
      using assms(1) that unfolding reader_rel_def by blast
    moreover have "bc_reader_at r' h = bc_reader_at r h" for h using assms(2) by (simp add: bc_reader_at_def)
    ultimately show ?thesis using False by (auto split: if_splits)
  qed
  then show ?thesis using assms(1) unfolding reader_rel_def length_list_update by blast
qed

lemma ready_grow:
  "ready_at es h \<noteq> None \<Longrightarrow> ready_at (es @ [e]) h = ready_at es h"
  "es ! p = Pending \<Longrightarrow> ready_at es h \<noteq> None \<Longrightarrow> ready_at (es[p := e]) h = ready_at es h"
proof -
  show "ready_at es h \<noteq> None \<Longrightarrow> ready_at (es @ [e]) h = ready_at es h"
    by (auto simp: ready_at_def nth_append split: if_splits)
  assume "es ! p = Pending" and "ready_at es h \<noteq> None"
  then have "h \<noteq> p" by (auto simp: ready_at_def split: if_splits)
  then show "ready_at (es[p := e]) h = ready_at es h" by (simp add: ready_at_def)
qed

lemma held_values_append: "held_values (xs @ ys) = held_values xs @ held_values ys"
  by (induction xs rule: held_values.induct) simp_all

lemma dropped_ok_claim:
  assumes "dropped_ok el es gone r" and "b_capacity r1 = b_capacity r" and "0 < slots (b_capacity r)"
    and "b_dropped r1 = b_dropped r @ evicted el (slots (b_capacity r)) es"
  shows "dropped_ok el (es @ [e]) gone r1"
proof -
  let ?n = "slots (b_capacity r)" and ?t = "length es"
  have "held_values (take (Suc ?t - ?n) (es @ [e])) = held_values (take (?t - ?n) es) @ evicted el ?n es"
    if nd: "needs_drop el"
  proof (cases "?n \<le> ?t")
    case True
    then have "take (Suc ?t - ?n) (es @ [e]) = take (?t - ?n) es @ [es ! (?t - ?n)]"
      using assms(3) by (simp add: Suc_diff_le take_Suc_conv_app_nth)
    then show ?thesis using True nd by (simp add: held_values_append evicted_def split: bc_entry.split)
  next
    case False
    then show ?thesis by (simp add: evicted_def)
  qed
  then show ?thesis using assms by (simp add: dropped_ok_def ac_simps)
qed

lemma dropped_ok_resolve:
  assumes "dropped_ok el es gone r" and "b_capacity r1 = b_capacity r"
    and "length es \<le> p + slots (b_capacity r)" and "b_dropped r1 = b_dropped r @ ds"
  shows "dropped_ok el (es[p := e]) (gone @ ds) r1"
  using assms by (simp add: dropped_ok_def take_update_cancel ac_simps)

lemma dropped_ok_cong:
  "dropped_ok el es gone r \<Longrightarrow> b_capacity r1 = b_capacity r \<Longrightarrow> b_dropped r1 = b_dropped r \<Longrightarrow>
    dropped_ok el es gone r1"
  by (simp add: dropped_ok_def)

lemma writers_cong: "b_capacity r1 = b_capacity r \<Longrightarrow> map (bc_writer_at r1) ns = map (bc_writer_at r) ns"
  by (simp add: bc_writer_at_def)

lemma remove_nth_map: "remove_nth i (map f xs) = map f (remove_nth i xs)"
  by (simp add: remove_nth_def take_map drop_map)

lemma remove_nth_distinct:
  assumes "distinct xs" and "i < length xs"
  shows "distinct (remove_nth i xs)" and "set (remove_nth i xs) = set xs - {xs ! i}"
proof -
  have split: "xs = take i xs @ xs ! i # drop (Suc i) xs" using assms(2) by (rule id_take_nth_drop)
  then have "distinct (take i xs @ xs ! i # drop (Suc i) xs)" using assms(1) by simp
  moreover have "set xs = set (take i xs) \<union> {xs ! i} \<union> set (drop (Suc i) xs)" by (subst split) auto
  ultimately show "distinct (remove_nth i xs)" "set (remove_nth i xs) = set xs - {xs ! i}"
    by (auto simp: remove_nth_def)
qed

lemma bc_same_capacity: "bc_same r r1 \<Longrightarrow> b_capacity r1 = b_capacity r"
  by (simp add: bc_same_def)

lemma bc_kept_facts: "bc_kept r r1 \<Longrightarrow> b_capacity r1 = b_capacity r \<and> b_dropped r1 = b_dropped r"
  by (simp add: bc_kept_def)

text \<open>Producers.\<close>

lemma bcast_push_follows:
  assumes rel: "bc_rel el (es, hs, rd, ns, ps, gone) (pos, ws, rds, r)" and small: "length es < POS_LIMIT"
    and calm: "\<forall>v. drop_value el v = Returned"
  shows "bc_follows el (B_Push j v) (es, hs, rd, ns, ps, gone) (pos, ws, rds, r)"
proof (cases "producer_at pos j")
  case None
  then show ?thesis using rel producer_alive(1) [of es hs ps pos j]
    by (simp add: bc_follows_def bcast_push_def Let_def)
next
  case (Some p)
  let ?n = "slots (b_capacity r)"
  have R: "bc_ring_ok es hs r" "list_all2 (producer_rel es hs) ps pos" "ws = map (bc_writer_at r) ns"
    "reader_rel es hs rd rds r" "dropped_ok el es gone r" "distinct ns"
    "\<forall>p \<in> set ns. p < length es \<and> es ! p = Pending" using rel by simp_all
  have al: "alive ps j" using producer_alive(1) [OF R(2)] Some by simp
  have p: "bc_producer_ok es hs p" using producer_alive(2) [OF R(2) Some] .
  note D = bc_ring_okD [OF R(1)]
  have tail: "unat (b_tail r) = length es" using D(4,12) by (simp add: unat_of_nat_usize)
  have calm': "\<not> unwinds el (evicted el ?n es)" using calm by (simp add: unwinds_def)
  show ?thesis
  proof (cases "claimable_at ?n es hs")
    case False
    from bc_push_spec(1) [OF R(1) p small this, of el v] obtain p1 r1 where
      c: "bc_push el [] id v p r = Inr (Normal (Push_Err v), p1, r1)" "bc_ring_ok es hs r1"
        "bc_producer_ok es hs p1" "bc_same r r1" "b_dropped r1 = b_dropped r" by blast
    have "bc_rel el (es, hs, rd, ns, ps, gone) (pos[j := Some p1], ws, rds, r1)"
      using R c(2,5) producers_update [OF R(2) Some _ c(3)] writers_cong [OF bc_same_capacity [OF c(4)]]
        reader_rel_grow [OF R(4) bc_same_capacity [OF c(4)]]
        dropped_ok_cong [OF R(5) bc_same_capacity [OF c(4)] c(5)] by simp
    then show ?thesis using c(1,4) Some al False
      by (simp add: bc_follows_def bcast_push_def Let_def bc_same_def)
  next
    case True
    from bc_push_spec(2) [OF R(1) p small this calm', of v] obtain p1 r1 where
      c: "bc_push el [] id v p r = Inr (Normal Push_Ok, p1, r1)" "bc_ring_ok (es @ [Held v]) hs r1"
        "bc_producer_ok (es @ [Held v]) hs p1" "bc_same r r1" "b_dropped r1 = b_dropped r @ evicted el ?n es"
      by blast
    have "list_all2 (producer_rel (es @ [Held v]) hs) ps (pos[j := Some p1])"
      by (rule producers_update [OF R(2) Some _ c(3)]) (auto intro: producer_ok_longer)
    moreover have "reader_rel (es @ [Held v]) hs rd rds r1"
      using reader_rel_grow [OF R(4) bc_same_capacity [OF c(4)]] ready_grow(1) by metis
    moreover have "\<forall>p \<in> set ns. p < length (es @ [Held v]) \<and> (es @ [Held v]) ! p = Pending"
      using R(7) by (auto simp: nth_append)
    ultimately have "bc_rel el (es @ [Held v], hs, rd, ns, ps, gone) (pos[j := Some p1], ws, rds, r1)"
      using R(3,6) c(2) writers_cong [OF bc_same_capacity [OF c(4)]]
        dropped_ok_claim [OF R(5) bc_same_capacity [OF c(4)] D(11) c(5)] by simp
    then show ?thesis using c(1,4) Some al True tail
      by (simp add: bc_follows_def bcast_push_def Let_def bc_same_def)
  qed
qed

lemma bcast_reserve_follows:
  assumes rel: "bc_rel el (es, hs, rd, ns, ps, gone) (pos, ws, rds, r)" and small: "length es < POS_LIMIT"
    and calm: "\<forall>v. drop_value el v = Returned"
  shows "bc_follows el (B_Reserve j) (es, hs, rd, ns, ps, gone) (pos, ws, rds, r)"
proof (cases "producer_at pos j")
  case None
  then show ?thesis using rel producer_alive(1) [of es hs ps pos j]
    by (simp add: bc_follows_def bcast_reserve_def Let_def)
next
  case (Some p)
  let ?n = "slots (b_capacity r)"
  have R: "bc_ring_ok es hs r" "list_all2 (producer_rel es hs) ps pos" "ws = map (bc_writer_at r) ns"
    "reader_rel es hs rd rds r" "dropped_ok el es gone r" "distinct ns"
    "\<forall>p \<in> set ns. p < length es \<and> es ! p = Pending" using rel by simp_all
  have al: "alive ps j" using producer_alive(1) [OF R(2)] Some by simp
  have p: "bc_producer_ok es hs p" using producer_alive(2) [OF R(2) Some] .
  have calm': "\<not> unwinds el (evicted el ?n es)" using calm by (simp add: unwinds_def)
  obtain p1 r1 where c: "bc_reserve el [] id p r =
      Inr (if \<not> claimable_at ?n es hs then Normal None
           else Normal (Some (bc_writer_at r (length es))), p1, r1)" "bc_same r r1"
    "if claimable_at ?n es hs
       then bc_ring_ok (es @ [Pending]) hs r1 \<and> bc_producer_ok (es @ [Pending]) hs p1
         \<and> b_dropped r1 = b_dropped r @ evicted el ?n es
       else bc_ring_ok es hs r1 \<and> bc_producer_ok es hs p1 \<and> b_dropped r1 = b_dropped r"
    using bc_reserve_spec [OF R(1) p small, of el] calm' by auto
  note cap = bc_same_capacity [OF c(2)]
  show ?thesis
  proof (cases "claimable_at ?n es hs")
    case False
    then have q: "bc_ring_ok es hs r1" "bc_producer_ok es hs p1" "b_dropped r1 = b_dropped r" using c(3) by simp_all
    have "bc_rel el (es, hs, rd, ns, ps, gone) (pos[j := Some p1], ws, rds, r1)"
      using R q producers_update [OF R(2) Some _ q(2)] writers_cong [OF cap]
        reader_rel_grow [OF R(4) cap] dropped_ok_cong [OF R(5) cap q(3)] by simp
    then show ?thesis using c(1) Some al False cap
      by (simp add: bc_follows_def bcast_reserve_def Let_def)
  next
    case True
    then have q: "bc_ring_ok (es @ [Pending]) hs r1" "bc_producer_ok (es @ [Pending]) hs p1"
      "b_dropped r1 = b_dropped r @ evicted el ?n es" using c(3) by simp_all
    have "list_all2 (producer_rel (es @ [Pending]) hs) ps (pos[j := Some p1])"
      by (rule producers_update [OF R(2) Some _ q(2)]) (auto intro: producer_ok_longer)
    moreover have "reader_rel (es @ [Pending]) hs rd rds r1"
      using reader_rel_grow [OF R(4) cap] ready_grow(1) by metis
    moreover have "\<forall>p \<in> set (ns @ [length es]). p < length (es @ [Pending]) \<and> (es @ [Pending]) ! p = Pending"
      using R(7) by (auto simp: nth_append)
    moreover have "distinct (ns @ [length es])" using R(6,7) by auto
    moreover have "ws @ [bc_writer_at r (length es)] = map (bc_writer_at r1) (ns @ [length es])"
      using R(3) cap by (simp add: bc_writer_at_def)
    ultimately have "bc_rel el (es @ [Pending], hs, rd, ns @ [length es], ps, gone)
        (pos[j := Some p1], ws @ [bc_writer_at r (length es)], rds, r1)"
      using q(1) dropped_ok_claim [OF R(5) cap bc_ring_okD(11) [OF R(1)] q(3)] by simp
    then show ?thesis using c(1) Some al True cap
      by (simp add: bc_follows_def bcast_reserve_def Let_def)
  qed
qed

text \<open>Resolving an open reservation, whichever way.\<close>

lemma bc_rel_resolve:
  assumes rel: "bc_rel el (es, hs, rd, ns, ps, gone) (pos, ws, rds, r)" and i: "i < length ns"
    and r1: "bc_ring_ok (es[ns ! i := e]) hs r1" "b_capacity r1 = b_capacity r" "b_dropped r1 = b_dropped r @ ds"
  shows "bc_rel el (es[ns ! i := e], hs, rd, remove_nth i ns, ps, gone @ ds) (pos, remove_nth i ws, rds, r1)"
proof -
  let ?p = "ns ! i"
  have R: "bc_ring_ok es hs r" "list_all2 (producer_rel es hs) ps pos" "ws = map (bc_writer_at r) ns"
    "reader_rel es hs rd rds r" "dropped_ok el es gone r" "distinct ns"
    "\<forall>p \<in> set ns. p < length es \<and> es ! p = Pending" using rel by simp_all
  have p: "?p < length es" "es ! ?p = Pending" using R(7) i by simp_all
  have "list_all2 (producer_rel (es[?p := e]) hs) ps pos"
    by (rule producers_mono [OF R(2)]) (rule producer_ok_length, simp_all)
  moreover have "reader_rel (es[?p := e]) hs rd rds r1"
    using reader_rel_grow [OF R(4) r1(2)] ready_grow(2) [OF p(2)] by metis
  moreover have "remove_nth i ws = map (bc_writer_at r1) (remove_nth i ns)"
    using R(3) remove_nth_map [of i "bc_writer_at r" ns] writers_cong [OF r1(2)] by metis
  moreover have "\<forall>q \<in> set (remove_nth i ns). q < length (es[?p := e]) \<and> es[?p := e] ! q = Pending"
    using R(7) remove_nth_distinct(2) [OF R(6) i] by auto
  moreover have "dropped_ok el (es[?p := e]) (gone @ ds) r1"
    by (rule dropped_ok_resolve [OF R(5) r1(2) bc_ring_okD(8) [OF R(1) p] r1(3)])
  ultimately show ?thesis using r1(1) remove_nth_distinct(1) [OF R(6) i] by simp
qed

lemma open_writer:
  assumes "bc_rel el (es, hs, rd, ns, ps, gone) (pos, ws, rds, r)" and "i < length ns"
  shows "i < length ws" "ws ! i = bc_writer_at r (ns ! i)" "ns ! i < length es" "es ! (ns ! i) = Pending"
    "bc_ring_ok es hs r" "unat (bsw_pos (ws ! i)) = ns ! i"
proof -
  have R: "bc_ring_ok es hs r" "ws = map (bc_writer_at r) ns"
    "\<forall>p \<in> set ns. p < length es \<and> es ! p = Pending" using assms(1) by simp_all
  show p: "i < length ws" "ws ! i = bc_writer_at r (ns ! i)" "ns ! i < length es" "es ! (ns ! i) = Pending"
    "bc_ring_ok es hs r" using R assms(2) by simp_all
  show "unat (bsw_pos (ws ! i)) = ns ! i"
    using p(2,3) bc_ring_okD(12) [OF R(1)] by (simp add: bc_writer_at_def unat_of_nat_usize)
qed

lemma no_writer: "bc_rel el (es, hs, rd, ns, ps, gone) (pos, ws, rds, r) \<Longrightarrow> length ws = length ns"
  by simp

lemma bcast_commit_follows:
  assumes rel: "bc_rel el (es, hs, rd, ns, ps, gone) (pos, ws, rds, r)"
  shows "bc_follows el (B_Commit i v) (es, hs, rd, ns, ps, gone) (pos, ws, rds, r)"
proof (cases "i < length ns")
  case False
  then show ?thesis using rel no_writer [OF rel] by (simp add: bc_follows_def bcast_commit_def Let_def del: bc_rel.simps)
next
  case True
  note W = open_writer [OF rel True]
  obtain w r1 r2 where c: "bc_write (ws ! i) v r = Inr (w, r1)" "bc_commit el w r1 = Inr (Returned, r2)"
    "bc_ring_ok (es[ns ! i := Held v]) hs r2" "bc_same r r2" "b_dropped r2 = b_dropped r @ []"
    using bc_write_commit_spec [OF W(5,3,4), of v el] unfolding W(2) by auto
  have "bc_rel el (es[ns ! i := Held v], hs, rd, remove_nth i ns, ps, gone) (pos, remove_nth i ws, rds, r2)"
    using bc_rel_resolve [OF rel True c(3) bc_same_capacity [OF c(4)] c(5)] by (simp del: bc_rel.simps)
  then show ?thesis using c(1,2) W(1,6) True bc_same_capacity [OF c(4)]
    by (simp add: bc_follows_def bcast_commit_def Let_def del: bc_rel.simps)
qed

lemma bcast_abandon_follows:
  assumes rel: "bc_rel el (es, hs, rd, ns, ps, gone) (pos, ws, rds, r)"
  shows "bc_follows el (B_Abandon i) (es, hs, rd, ns, ps, gone) (pos, ws, rds, r)"
proof (cases "i < length ns")
  case False
  then show ?thesis using rel no_writer [OF rel] by (simp add: bc_follows_def bcast_abandon_def Let_def del: bc_rel.simps)
next
  case True
  note W = open_writer [OF rel True]
  obtain r1 where c: "bc_slot_writer_drop (ws ! i) r = Inr (bc_wake_producer r1)"
    "bc_ring_ok (es[ns ! i := Gap]) hs r1" "bc_same r r1" "b_dropped r1 = b_dropped r"
    using bc_writer_drop_spec [OF W(5,3,4)] unfolding W(2) by blast
  have "bc_rel el (es[ns ! i := Gap], hs, rd, remove_nth i ns, ps, gone) (pos, remove_nth i ws, rds, bc_wake_producer r1)"
    using bc_rel_resolve [OF rel True, of Gap "bc_wake_producer r1" "[]"] c(2,4) bc_same_capacity [OF c(3)]
    by (simp del: bc_rel.simps)
  then show ?thesis using c(1) W(1) True bc_same_capacity [OF c(3)]
    by (simp add: bc_follows_def bcast_abandon_def Let_def del: bc_rel.simps)
qed

lemma bcast_abandon_written_follows:
  assumes rel: "bc_rel el (es, hs, rd, ns, ps, gone) (pos, ws, rds, r)"
  shows "bc_follows el (B_Abandon_Written i v) (es, hs, rd, ns, ps, gone) (pos, ws, rds, r)"
proof (cases "i < length ns")
  case False
  then show ?thesis using rel no_writer [OF rel] by (simp add: bc_follows_def bcast_abandon_written_def Let_def del: bc_rel.simps)
next
  case True
  note W = open_writer [OF rel True]
  obtain w r1 r2 where c: "bc_write (ws ! i) v r = Inr (w, r1)"
    "bc_written_slot_drop el w r1 = Inr (drop_value el v, bc_wake_producer r2)"
    "bc_ring_ok (es[ns ! i := Gap]) hs r2" "bc_same r r2" "b_dropped r2 = b_dropped r @ [v]"
    using bc_write_drop_spec [OF W(5,3,4), of v el] unfolding W(2) by blast
  have "bc_rel el (es[ns ! i := Gap], hs, rd, remove_nth i ns, ps, gone @ [v]) (pos, remove_nth i ws, rds, bc_wake_producer r2)"
    using bc_rel_resolve [OF rel True, of Gap "bc_wake_producer r2" "[v]"] c(3,5) bc_same_capacity [OF c(4)]
    by (simp del: bc_rel.simps)
  then show ?thesis using c(1,2) W(1) True bc_same_capacity [OF c(4)]
    by (simp add: bc_follows_def bcast_abandon_written_def Let_def del: bc_rel.simps)
qed

text \<open>Consumers.\<close>

lemma free_consumer:
  assumes rel: "bc_rel el (es, hs, rd, ns, ps, gone) (pos, ws, rds, r)"
  shows "bc_free_consumer rds r i = map_option (\<lambda>_. \<lparr>bc_slot_index = i\<rparr>) (seated hs rd i)"
    and "seated hs rd i = Some h \<Longrightarrow> i < length hs \<and> hs ! i = Some h \<and> \<not> rd ! i"
proof -
  have R: "bc_ring_ok es hs r" "reader_rel es hs rd rds r" using rel by simp_all
  note D = bc_ring_okD [OF R(1)]
  have len: "length (b_consumers r) = length hs" "length rd = length hs" "length rds = length hs"
    using list_all2_lengthD [OF D(5)] R(2) by (simp_all add: reader_rel_def)
  have seat: "i < length hs \<Longrightarrow> seat_active (b_consumers r ! i) \<longleftrightarrow> hs ! i \<noteq> None"
    using list_all2_nthD [OF D(5), of i] by (cases "hs ! i") simp_all
  have rds: "i < length hs \<Longrightarrow> rds ! i = None \<longleftrightarrow> \<not> rd ! i"
    using R(2) by (auto simp: reader_rel_def split: if_splits)
  show "bc_free_consumer rds r i = map_option (\<lambda>_. \<lparr>bc_slot_index = i\<rparr>) (seated hs rd i)"
    using len seat rds by (auto simp: bc_free_consumer_def seated_def)
  show "seated hs rd i = Some h \<Longrightarrow> i < length hs \<and> hs ! i = Some h \<and> \<not> rd ! i"
    by (auto simp: seated_def split: if_splits)
qed

lemma bc_rel_head:
  assumes rel: "bc_rel el (es, hs, rd, ns, ps, gone) (pos, ws, rds, r)"
    and i: "i < length hs" "hs ! i = Some h" "\<not> rd ! i" and h': "h \<le> h'"
    and r1: "bc_ring_ok es (hs[i := Some h']) r1" "bc_kept r r1"
  shows "bc_rel el (es, hs[i := Some h'], rd, ns, ps, gone) (pos, ws, rds, r1)"
proof -
  have R: "list_all2 (producer_rel es hs) ps pos" "ws = map (bc_writer_at r) ns"
    "reader_rel es hs rd rds r" "dropped_ok el es gone r" "distinct ns"
    "\<forall>p \<in> set ns. p < length es \<and> es ! p = Pending" using rel by simp_all
  note K = bc_kept_facts [OF r1(2)]
  have "list_all2 (producer_rel es (hs[i := Some h'])) ps pos"
    by (rule producers_mono [OF R(1)]) (rule producer_ok_head [OF _ i(1,2) h'])
  moreover have "reader_rel es (hs[i := Some h']) rd rds r1"
    by (rule reader_rel_head [OF R(3)]) (use K i(3) in simp_all)
  ultimately show ?thesis
    using R r1(1) K writers_cong [of r1 r ns] dropped_ok_cong [OF R(4)] by simp
qed

lemma bcast_pop_follows:
  assumes rel: "bc_rel el (es, hs, rd, ns, ps, gone) (pos, ws, rds, r)"
  shows "bc_follows el (B_Pop i) (es, hs, rd, ns, ps, gone) (pos, ws, rds, r)"
proof (cases "seated hs rd i")
  case None
  then show ?thesis using rel free_consumer(1) [OF rel, of i]
    by (simp add: bc_follows_def bcast_pop_def Let_def del: bc_rel.simps)
next
  case (Some h)
  note i = free_consumer(2) [OF rel Some]
  have ok: "bc_ring_ok es hs r" using rel by simp
  let ?q = "skip_gaps es h"
  obtain r1 where c: "bc_pop el \<lparr>bc_slot_index = i\<rparr> r = Inr (case ready_at es ?q of
        None \<Rightarrow> Normal None | Some v \<Rightarrow> cloned el v, r1)"
    "bc_ring_ok es (hs[i := Some (case ready_at es ?q of None \<Rightarrow> ?q | Some _ \<Rightarrow> Suc ?q)]) r1" "bc_kept r r1"
    using bc_pop_spec [OF ok, of "\<lparr>bc_slot_index = i\<rparr>" h el] i by auto
  have "bc_rel el (es, hs[i := Some (case ready_at es ?q of None \<Rightarrow> ?q | Some _ \<Rightarrow> Suc ?q)], rd, ns, ps, gone)
      (pos, ws, rds, r1)"
    by (rule bc_rel_head [OF rel _ _ _ _ c(2,3)])
      (use i skip_gaps_bounds(1) [of h es] in \<open>auto split: option.split\<close>)
  then show ?thesis
    using c(1) Some bc_kept_facts [OF c(3)] free_consumer(1) [OF rel, of i]
    by (cases "ready_at es ?q"; cases "clone_value el (the (ready_at es ?q))")
      (simp_all add: bc_follows_def bcast_pop_def Let_def cloned_def del: bc_rel.simps)
qed

lemma reader_rel_open:
  assumes "reader_rel es hs rd rds r" and "i < length hs" and "hs ! i = Some q" and "ready_at es q \<noteq> None"
  shows "reader_rel es hs (rd[i := True]) (rds[i := Some (bc_reader_at r q)]) r"
proof -
  have "if rd[i := True] ! j
      then \<exists>h. hs ! j = Some h \<and> ready_at es h \<noteq> None \<and> rds[i := Some (bc_reader_at r q)] ! j = Some (bc_reader_at r h)
      else rds[i := Some (bc_reader_at r q)] ! j = None" if "j < length hs" for j
    using assms that unfolding reader_rel_def by (cases "j = i") (auto split: if_splits)
  then show ?thesis using assms(1) unfolding reader_rel_def length_list_update by blast
qed

lemma bcast_open_follows:
  assumes rel: "bc_rel el (es, hs, rd, ns, ps, gone) (pos, ws, rds, r)"
  shows "bc_follows el (B_Open i) (es, hs, rd, ns, ps, gone) (pos, ws, rds, r)"
proof (cases "seated hs rd i")
  case None
  then show ?thesis using rel free_consumer(1) [OF rel, of i]
    by (simp add: bc_follows_def bcast_open_def Let_def del: bc_rel.simps)
next
  case (Some h)
  note i = free_consumer(2) [OF rel Some]
  have ok: "bc_ring_ok es hs r" using rel by simp
  let ?q = "skip_gaps es h"
  obtain r1 where c: "bc_pop_ref \<lparr>bc_slot_index = i\<rparr> r = Inr (map_option (\<lambda>_. bc_reader_at r ?q) (ready_at es ?q), r1)"
    "bc_ring_ok es (hs[i := Some ?q]) r1" "bc_kept r r1"
    using bc_pop_ref_spec [OF ok, of "\<lparr>bc_slot_index = i\<rparr>" h] i by auto
  have rel1: "bc_rel el (es, hs[i := Some ?q], rd, ns, ps, gone) (pos, ws, rds, r1)"
    by (rule bc_rel_head [OF rel _ _ _ _ c(2,3)]) (use i skip_gaps_bounds(1) [of h es] in auto)
  note K = bc_kept_facts [OF c(3)]
  show ?thesis
  proof (cases "ready_at es ?q")
    case None
    then show ?thesis using rel1 c(1) Some K free_consumer(1) [OF rel, of i]
      by (simp add: bc_follows_def bcast_open_def Let_def del: bc_rel.simps)
  next
    case v: (Some v)
    have rd: "bc_reader_at r1 = bc_reader_at r" using K by (simp add: bc_reader_at_def fun_eq_iff)
    have "bc_reader_deref (bc_reader_at r ?q) r1 = Inr v"
      using bc_reader_deref_spec [OF c(2), of i ?q v] i v rd by simp
    moreover have "reader_rel es (hs[i := Some ?q]) (rd[i := True]) (rds[i := Some (bc_reader_at r ?q)]) r1"
      using reader_rel_open [of es "hs[i := Some ?q]" rd rds r1 i ?q] rel1 i v rd by simp
    ultimately show ?thesis using rel1 c(1) Some K v free_consumer(1) [OF rel, of i]
      by (simp add: bc_follows_def bcast_open_def Let_def)
  qed
qed

lemma bcast_finish_follows:
  assumes rel: "bc_rel el (es, hs, rd, ns, ps, gone) (pos, ws, rds, r)"
  shows "bc_follows el (B_Finish i) (es, hs, rd, ns, ps, gone) (pos, ws, rds, r)"
proof (cases "i < length rd \<and> rd ! i")
  case False
  have "reader_rel es hs rd rds r" using rel by simp
  then have "(if i < length rds then rds ! i else None) = None"
    using False by (auto simp: reader_rel_def split: if_splits)
  then show ?thesis using rel False
    by (auto simp: bc_follows_def bcast_finish_def Let_def simp del: bc_rel.simps)
next
  case True
  have R: "bc_ring_ok es hs r" "reader_rel es hs rd rds r" using rel by simp_all
  then have i: "i < length hs" "i < length rds" using True by (simp_all add: reader_rel_def)
  then obtain h v where h: "hs ! i = Some h" "ready_at es h = Some v" "rds ! i = Some (bc_reader_at r h)"
    using R(2) True unfolding reader_rel_def by (metis (no_types, lifting) not_None_eq)
  have "h < length es" using h(2) by (auto simp: ready_at_def split: if_splits)
  then obtain r1 where c: "bc_reader_drop \<lparr>bc_slot_index = i\<rparr> (bc_reader_at r h) r = Inr r1"
    "bc_ring_ok es (hs[i := Some (Suc h)]) r1" "bc_kept r r1"
    using bc_reader_drop_spec [OF R(1), of "\<lparr>bc_slot_index = i\<rparr>" h] i h by auto
  have closed: "bc_rel el (es, hs, rd[i := False], ns, ps, gone) (pos, ws, rds[i := None], r)"
    using rel i True by (auto simp: reader_rel_def nth_list_update split: if_splits)
  have "bc_rel el (es, hs[i := Some (Suc h)], rd[i := False], ns, ps, gone) (pos, ws, rds[i := None], r1)"
    by (rule bc_rel_head [OF closed i(1) h(1) _ _ c(2,3)]) (use True in simp_all)
  then show ?thesis
    using c(1) True i h bc_kept_facts [OF c(3)] bc_reader_deref_spec [OF R(1) i(1) h(1,2)]
    by (simp add: bc_follows_def bcast_finish_def Let_def del: bc_rel.simps)
qed

lemma bcast_subscribe_follows:
  assumes rel: "bc_rel el (es, hs, rd, ns, ps, gone) (pos, ws, rds, r)"
  shows "bc_follows el (B_Subscribe i) (es, hs, rd, ns, ps, gone) (pos, ws, rds, r)"
proof (cases "seated hs rd i")
  case None
  then show ?thesis using rel free_consumer(1) [OF rel, of i]
    by (simp add: bc_follows_def bcast_subscribe_def Let_def del: bc_rel.simps)
next
  case (Some h)
  have R: "bc_ring_ok es hs r" "list_all2 (producer_rel es hs) ps pos" "ws = map (bc_writer_at r) ns"
    "reader_rel es hs rd rds r" "dropped_ok el es gone r" "distinct ns"
    "\<forall>p \<in> set ns. p < length es \<and> es ! p = Pending" using rel by simp_all
  show ?thesis
  proof (cases "free_seat hs")
    case None
    then show ?thesis using rel Some free_consumer(1) [OF rel, of i] bc_consumer_clone_spec(1) [OF R(1)]
      by (simp add: bc_follows_def bcast_subscribe_def Let_def del: bc_rel.simps)
  next
    case k: (Some k)
    obtain r1 where c: "bc_consumer_clone r = Inr (\<lparr>bc_slot_index = k\<rparr>, r1)"
      "bc_ring_ok es (hs[k := Some (length es)]) r1" "bc_kept r r1"
      using bc_consumer_clone_spec(2) [OF R(1) k] by blast
    note K = bc_kept_facts [OF c(3)]
    have kk: "k < length hs" "hs ! k = None" using k by (simp_all add: free_seat_Some)
    have "seat_pos r1 k = of_nat (length es)"
      using seat_of_head(1,3) [OF c(2), of k "length es"] kk by (simp add: seat_pos_def)
    then have at: "unat (seat_pos r1 k) = length es"
      using bc_ring_okD(12) [OF R(1)] by (simp add: unat_of_nat_usize)
    have "\<not> rd ! k" using R(4) kk by (auto simp: reader_rel_def)
    then have "reader_rel es (hs[k := Some (length es)]) rd rds r1"
      by (intro reader_rel_head [OF R(4)]) (use K in simp_all)
    moreover have "list_all2 (producer_rel es (hs[k := Some (length es)])) ps pos"
      by (rule producers_mono [OF R(2)]) (rule producer_ok_join)
    ultimately have "bc_rel el (es, hs[k := Some (length es)], rd, ns, ps, gone) (pos, ws, rds, r1)"
      using R c(2) K writers_cong [of r1 r ns] dropped_ok_cong [OF R(5)] by simp
    then show ?thesis using c(1) k at Some K free_consumer(1) [OF rel, of i]
      by (simp add: bc_follows_def bcast_subscribe_def Let_def del: bc_rel.simps)
  qed
qed

lemma bcast_leave_follows:
  assumes rel: "bc_rel el (es, hs, rd, ns, ps, gone) (pos, ws, rds, r)"
  shows "bc_follows el (B_Leave i) (es, hs, rd, ns, ps, gone) (pos, ws, rds, r)"
proof (cases "seated hs rd i")
  case None
  then show ?thesis using rel free_consumer(1) [OF rel, of i]
    by (simp add: bc_follows_def bcast_leave_def Let_def del: bc_rel.simps)
next
  case (Some h)
  note i = free_consumer(2) [OF rel Some]
  have R: "bc_ring_ok es hs r" "list_all2 (producer_rel es hs) ps pos" "ws = map (bc_writer_at r) ns"
    "reader_rel es hs rd rds r" "dropped_ok el es gone r" "distinct ns"
    "\<forall>p \<in> set ns. p < length es \<and> es ! p = Pending" using rel by simp_all
  obtain r1 where c: "bc_consumer_drop \<lparr>bc_slot_index = i\<rparr> r = Inr (bc_flush r1)"
    "bc_ring_ok es (hs[i := None]) r1" "bc_kept r r1"
    using bc_consumer_drop_spec [OF R(1), of "\<lparr>bc_slot_index = i\<rparr>" h] i by auto
  note K = bc_kept_facts [OF c(3)]
  have "reader_rel es (hs[i := None]) rd rds (bc_flush r1)"
    by (rule reader_rel_head [OF R(4)]) (use K i in simp_all)
  moreover have "list_all2 (producer_rel es (hs[i := None])) ps pos"
    by (rule producers_mono [OF R(2)]) (rule producer_ok_leave)
  ultimately have "bc_rel el (es, hs[i := None], rd, ns, ps, gone) (pos, ws, rds, bc_flush r1)"
    using R c(2) K writers_cong [of "bc_flush r1" r ns] dropped_ok_cong [OF R(5), of "bc_flush r1"] by simp
  then show ?thesis using c(1) Some K free_consumer(1) [OF rel, of i]
    by (simp add: bc_follows_def bcast_leave_def Let_def del: bc_rel.simps)
qed

lemma bcast_clone_follows:
  assumes rel: "bc_rel el (es, hs, rd, ns, ps, gone) (pos, ws, rds, r)"
  shows "bc_follows el (B_Clone j) (es, hs, rd, ns, ps, gone) (pos, ws, rds, r)"
proof (cases "producer_at pos j")
  case None
  then show ?thesis using rel producer_alive(1) [of es hs ps pos j]
    by (simp add: bc_follows_def bcast_clone_def Let_def)
next
  case (Some p)
  obtain q r1 where c: "bc_producer_clone r = (q, r1)" by (metis prod.exhaust)
  have r1: "bc_ring_ok es hs r1 = bc_ring_ok es hs r" "b_capacity r1 = b_capacity r" "b_dropped r1 = b_dropped r"
    "bp_floor_cache q = floor_cache_new"
    using c by (auto simp: bc_producer_clone_def split: prod.splits)
  have "bc_producer_ok es hs q" using r1(4) by (simp add: bc_producer_ok_def floor_cache_new_def floor_behind_def)
  then have "bc_rel el (es, hs, rd, ns, ps @ [True], gone) (pos @ [Some q], ws, rds, r1)"
    using rel r1 writers_cong [of r1 r ns] dropped_ok_cong [of el es gone r r1]
      reader_rel_grow [of es hs rd rds r r1 es]
    by (simp add: list_all2_appendI producer_rel_def)
  then show ?thesis using c Some r1 rel producer_alive(1) [of es hs ps pos j]
    by (simp add: bc_follows_def bcast_clone_def Let_def)
qed

lemma bcast_retire_follows:
  assumes rel: "bc_rel el (es, hs, rd, ns, ps, gone) (pos, ws, rds, r)"
  shows "bc_follows el (B_Retire j) (es, hs, rd, ns, ps, gone) (pos, ws, rds, r)"
proof (cases "producer_at pos j")
  case None
  then show ?thesis using rel producer_alive(1) [of es hs ps pos j]
    by (simp add: bc_follows_def bcast_retire_def Let_def)
next
  case (Some p)
  have "bc_rel el (es, hs, rd, ns, ps[j := False], gone) (pos[j := None], ws, rds, bc_producer_drop p r)"
    using rel writers_cong [of "bc_producer_drop p r" r ns] dropped_ok_cong [of el es gone r "bc_producer_drop p r"]
      reader_rel_grow [of es hs rd rds r "bc_producer_drop p r" es]
    by (auto simp: bc_producer_drop_def producer_rel_def intro!: list_all2_update_cong)
  then show ?thesis using Some rel producer_alive(1) [of es hs ps pos j]
    by (simp add: bc_follows_def bcast_retire_def Let_def bc_producer_drop_def)
qed

lemma bcast_step_follows:
  assumes "bc_rel el a s" and "length (fst a) < POS_LIMIT" and "\<forall>v. drop_value el v = Returned"
  shows "bc_follows el op a s"
proof -
  obtain es hs rd ns ps gone where a: "a = (es, hs, rd, ns, ps, gone)" by (metis prod.exhaust)
  obtain pos ws rds r where s: "s = (pos, ws, rds, r)" by (metis prod.exhaust)
  note rel = assms(1) [unfolded a s] and small = assms(2) [unfolded a fst_conv]
  show ?thesis
    unfolding a s
    by (cases op; simp only:)
      (rule bcast_push_follows [OF rel small assms(3)] bcast_reserve_follows [OF rel small assms(3)]
        bcast_commit_follows [OF rel] bcast_abandon_follows [OF rel] bcast_abandon_written_follows [OF rel]
        bcast_pop_follows [OF rel] bcast_open_follows [OF rel] bcast_finish_follows [OF rel]
        bcast_subscribe_follows [OF rel] bcast_leave_follows [OF rel] bcast_clone_follows [OF rel]
        bcast_retire_follows [OF rel])+
qed

section \<open>Programs\<close>

lemma bcast_start_rel:
  assumes "wf_capacity c" and "0 < m"
  shows "\<exists>s. bcast_start c m = Inr (s :: 'a bcast) \<and> bc_rel el (bc_spec_start m) s
    \<and> b_capacity (snd (snd (snd s))) = c"
proof -
  obtain r p r1 where c: "bc_new c m = Inr (r :: 'a bc_ring)" "bc_split r = Inr (p, \<lparr>bc_slot_index = 0\<rparr>, r1)"
    "bc_ring_ok [] ((replicate m None)[0 := Some 0]) r1" "bc_producer_ok ([] :: 'a bc_entry list) ((replicate m None)[0 := Some 0]) p"
    "b_capacity r1 = c" "b_dropped r1 = []"
    using bc_split_spec [OF assms, where 'a = 'a] by blast
  have "reader_rel [] ((replicate m None)[0 := Some 0]) (replicate m False) (replicate m None) r1"
    by (auto simp: reader_rel_def)
  then have "bc_rel el (bc_spec_start m) ([Some p], [], replicate m None, r1)"
    using c(3,4,6) by (simp add: bc_spec_start_def producer_rel_def dropped_ok_def)
  moreover have "bcast_start c m = Inr ([Some p], [], replicate m None, r1)"
    using c(1,2) by (simp add: bcast_start_def)
  ultimately show ?thesis using c(5) by auto
qed

lemma spec_step_length:
  "bc_spec_step el n op a = (e, a1) \<Longrightarrow> length (fst a1) \<le> Suc (length (fst a))"
  by (cases a; cases op) (auto split: if_splits option.splits)

lemma bcast_run_follows:
  assumes "bc_rel el a s" and "length (fst a) + length ops \<le> POS_LIMIT"
    and calm: "\<forall>v. drop_value el v = Returned"
    and "bc_spec_run el (slots (b_capacity (snd (snd (snd s))))) ops a = (evs, a')"
  shows "\<exists>s'. bcast_run el ops s = Inr (evs, s') \<and> bc_rel el a' s'
    \<and> b_capacity (snd (snd (snd s'))) = b_capacity (snd (snd (snd s)))"
  using assms(1,2,4)
proof (induction ops arbitrary: a s evs)
  case Nil
  then show ?case by auto
next
  case (Cons op ops)
  let ?n = "slots (b_capacity (snd (snd (snd s))))"
  obtain e a1 where st: "bc_spec_step el ?n op a = (e, a1)" by (metis prod.exhaust)
  obtain evs1 where run: "bc_spec_run el ?n ops a1 = (evs1, a')" "evs = e # evs1"
    using Cons.prems(3) st by (auto split: prod.splits)
  have "length (fst a) < POS_LIMIT" using Cons.prems(2) by simp
  from bcast_step_follows [OF Cons.prems(1) this calm, of op] obtain s1 where
    s1: "bcast_step el op s = Inr (e, s1)" "bc_rel el a1 s1"
      "b_capacity (snd (snd (snd s1))) = b_capacity (snd (snd (snd s)))"
    using st by (auto simp: bc_follows_def Let_def)
  have "length (fst a1) + length ops \<le> POS_LIMIT"
    using spec_step_length [OF st] Cons.prems(2) by simp
  from Cons.IH [OF s1(2) this] run s1 show ?case by auto
qed

text \<open>
  C8. Any program over the handles of a fresh broadcast ring, with producers that push,
  reserve, commit, give up, clone and leave and consumers that subscribe, pop, read in
  place and leave, runs without a fault and reports event by event what the
  specification says: a claim is refused exactly when nobody is subscribed, when some
  consumer still needs the slot, or when the slot's last reservation is open; every
  consumer walks the one list of claims from the tail at its subscription, skips the
  gaps and stops at the first open reservation. Destructors are assumed to return.
\<close>

theorem broadcast_refines_log:
  assumes "wf_capacity c" and "0 < m" and "length ops \<le> POS_LIMIT"
    and "\<forall>v. drop_value el v = Returned"
    and "bc_spec_run el (slots c) ops (bc_spec_start m) = (evs, a)"
  shows "\<exists>s0 s. bcast_start c m = Inr s0 \<and> bcast_run el ops s0 = Inr (evs, s) \<and> bc_rel el a s"
proof -
  obtain s0 :: "'a bcast" where s0: "bcast_start c m = Inr s0" "bc_rel el (bc_spec_start m) s0"
      "b_capacity (snd (snd (snd s0))) = c"
    using bcast_start_rel [OF assms(1,2), where el = el] by blast
  then show ?thesis
    using bcast_run_follows [OF s0(2) _ assms(4), of ops evs a] assms(3,5) by (simp add: bc_spec_start_def) blast
qed

theorem broadcast_refines_log_witness:
  "\<exists>s0 s. bcast_start cap2 2 = Inr s0
    \<and> bcast_run \<lparr>needs_drop = True, drop_value = (\<lambda>_. Returned), clone_value = Some\<rparr>
        [B_Push 0 (7 :: nat), B_Subscribe 0, B_Reserve 0, B_Push 0 9, B_Pop 0, B_Pop 0, B_Commit 0 8,
         B_Pop 1, B_Open 0, B_Push 0 10, B_Finish 0, B_Push 0 11] s0
      = Inr ([B_Published 0 7, B_Joined 1 1, B_Reserved True, B_Refused 9, B_Popped 0 7, B_Empty 0,
          B_Published 1 8, B_Popped 1 8, B_Opened 0 8, B_Published 2 10, B_Read 0 8, B_Published 3 11], s)
    \<and> bc_rel \<lparr>needs_drop = True, drop_value = (\<lambda>_. Returned), clone_value = Some\<rparr>
        ([Held 7, Held 8, Held 10, Held 11], [Some 2, Some 2], [False, False], [], [True], []) s"
proof (rule broadcast_refines_log)
  show "wf_capacity cap2" by (rule cap2_wf)
  show "bc_spec_run \<lparr>needs_drop = True, drop_value = (\<lambda>_. Returned), clone_value = Some\<rparr> (slots cap2)
      [B_Push 0 (7 :: nat), B_Subscribe 0, B_Reserve 0, B_Push 0 9, B_Pop 0, B_Pop 0, B_Commit 0 8,
       B_Pop 1, B_Open 0, B_Push 0 10, B_Finish 0, B_Push 0 11] (bc_spec_start 2)
    = ([B_Published 0 7, B_Joined 1 1, B_Reserved True, B_Refused 9, B_Popped 0 7, B_Empty 0,
        B_Published 1 8, B_Popped 1 8, B_Opened 0 8, B_Published 2 10, B_Read 0 8, B_Published 3 11],
       [Held 7, Held 8, Held 10, Held 11], [Some 2, Some 2], [False, False], [], [True], [])"
    unfolding slots_cap2 by code_simp
qed (simp_all add: POS_LIMIT_def)

end
