(* ===== verification/Broadcast_Delivery.thy ===== *)
theory Broadcast_Delivery
  imports Broadcast_Programs
begin

text \<open>
  What a program over the broadcast ring delivers, read off its events: every consumer gets
  the values published from its subscription on, in the order of their positions, and every
  value is destroyed once.
\<close>

section \<open>What was published and what a seat received\<close>

fun bc_published :: "'a bc_event list \<Rightarrow> (nat \<times> 'a) list" where
  "bc_published [] = []"
| "bc_published (B_Published p v # evs) = (p, v) # bc_published evs"
| "bc_published (_ # evs) = bc_published evs"

fun given_up :: "'a bc_event list \<Rightarrow> 'a list" where
  "given_up [] = []"
| "given_up (B_Gave_Up vs # evs) = vs @ given_up evs"
| "given_up (_ # evs) = given_up evs"

text \<open>
  The seat's current subscription: where it began and what it has received since, \<open>None\<close>
  for a value whose clone panicked.
\<close>

fun seat_note :: "nat \<Rightarrow> 'a bc_event \<Rightarrow> (nat \<times> 'a option list) option \<Rightarrow> (nat \<times> 'a option list) option" where
  "seat_note i (B_Joined k t) l = (if k = i then Some (t, []) else l)"
| "seat_note i (B_Left k) l = (if k = i then None else l)"
| "seat_note i (B_Popped k w) l = (if k = i then map_option (\<lambda>(t, got). (t, got @ [Some w])) l else l)"
| "seat_note i (B_Clone_Panicked k) l = (if k = i then map_option (\<lambda>(t, got). (t, got @ [None])) l else l)"
| "seat_note i (B_Read k v) l = (if k = i then map_option (\<lambda>(t, got). (t, got @ [Some v])) l else l)"
| "seat_note i _ l = l"

definition seat_log :: "nat \<Rightarrow> 'a bc_event list \<Rightarrow> (nat \<times> 'a option list) option" where
  "seat_log i evs = fold (seat_note i) evs (if i = 0 then Some (0, []) else None)"

text \<open>A value arrives as a clone, or as itself when it was read in place.\<close>

definition arrives :: "'a element \<Rightarrow> 'a \<Rightarrow> 'a option \<Rightarrow> bool" where
  "arrives el v x \<longleftrightarrow> x = Some v \<or> x = clone_value el v"

section \<open>The log along a run\<close>

definition passed :: "'a bc_entry list \<Rightarrow> nat \<Rightarrow> nat \<Rightarrow> 'a list" where
  "passed es t0 h = held_values (take (h - t0) (drop t0 es))"

definition seat_delivered ::
    "'a element \<Rightarrow> 'a bc_entry list \<Rightarrow> nat option \<Rightarrow> (nat \<times> 'a option list) option \<Rightarrow> bool" where
  "seat_delivered el es ho l \<longleftrightarrow>
     (case (ho, l) of
        (None, None) \<Rightarrow> True
      | (Some h, Some (t0, got)) \<Rightarrow> t0 \<le> h \<and> h \<le> length es
          \<and> (\<forall>p. t0 \<le> p \<and> p < h \<longrightarrow> es ! p \<noteq> Pending) \<and> list_all2 (arrives el) (passed es t0 h) got
      | _ \<Rightarrow> False)"

lemma seat_delivered_simps:
  "seat_delivered el es None l \<longleftrightarrow> l = None"
  "seat_delivered el es (Some h) l \<longleftrightarrow> (\<exists>t0 got. l = Some (t0, got) \<and> t0 \<le> h \<and> h \<le> length es
      \<and> (\<forall>p. t0 \<le> p \<and> p < h \<longrightarrow> es ! p \<noteq> Pending) \<and> list_all2 (arrives el) (passed es t0 h) got)"
  by (auto simp: seat_delivered_def split: option.splits prod.splits)

lemma passed_append: "h \<le> length es \<Longrightarrow> t0 \<le> h \<Longrightarrow> passed (es @ [e]) t0 h = passed es t0 h"
  by (simp add: passed_def)

lemma passed_resolve:
  assumes "\<forall>q. t0 \<le> q \<and> q < h \<longrightarrow> es ! q \<noteq> Pending" and "es ! p = Pending" and "t0 \<le> h" "h \<le> length es"
  shows "passed (es[p := e]) t0 h = passed es t0 h"
proof -
  have out: "\<not> (t0 \<le> p \<and> p < h)" using assms by auto
  have "take (h - t0) (drop t0 (es[p := e])) = take (h - t0) (drop t0 es)"
    by (rule nth_equalityI) (use out assms(3,4) in \<open>auto simp: nth_list_update\<close>)
  then show ?thesis by (simp add: passed_def)
qed

lemma passed_snoc:
  assumes "t0 \<le> h" and "h < length es"
  shows "passed es t0 (Suc h) = passed es t0 h @ (case es ! h of Held v \<Rightarrow> [v] | _ \<Rightarrow> [])"
proof -
  have "Suc h - t0 = Suc (h - t0)" "h - t0 < length (drop t0 es)" using assms by simp_all
  then have "take (Suc h - t0) (drop t0 es) = take (h - t0) (drop t0 es) @ [es ! h]"
    using assms(1) by (simp add: take_Suc_conv_app_nth)
  then show ?thesis by (simp add: passed_def held_values_append split: bc_entry.split)
qed

lemma skipped_gaps:
  assumes "h \<le> q" and "q < skip_gaps es h"
  shows "es ! q = Gap" and "q < length es"
proof -
  let ?tw = "takeWhile (\<lambda>e. e = Gap) (drop h es)"
  have k: "q - h < length ?tw" using assms by (simp add: skip_gaps_def)
  then have "drop h es ! (q - h) = Gap" using nth_mem [OF k] set_takeWhileD takeWhile_nth [OF k] by metis
  moreover have "q - h < length (drop h es)" using k length_takeWhile_le less_le_trans by blast
  ultimately show "es ! q = Gap" "q < length es" using assms(1) by (simp_all add: add.commute)
qed

lemma passed_gaps:
  assumes "t0 \<le> h" and "h \<le> q" and "q \<le> skip_gaps es h"
  shows "passed es t0 q = passed es t0 h"
  using assms(2,3)
proof (induction q rule: dec_induct)
  case (step q)
  then show ?case
    using skipped_gaps [of h q es] passed_snoc [of t0 q es] assms(1) by simp
qed simp

lemma delivered_skip:
  assumes "seat_delivered el es (Some h) l"
  shows "seat_delivered el es (Some (skip_gaps es h)) l"
proof -
  obtain t0 got where l: "l = Some (t0, got)" "t0 \<le> h" "h \<le> length es"
    "\<forall>p. t0 \<le> p \<and> p < h \<longrightarrow> es ! p \<noteq> Pending" "list_all2 (arrives el) (passed es t0 h) got"
    using assms by (auto simp: seat_delivered_simps)
  have "es ! p \<noteq> Pending" if "t0 \<le> p" "p < skip_gaps es h" for p
    using l(4) skipped_gaps(1) [of h p es] that by (cases "p < h") auto
  then show ?thesis
    using l skip_gaps_bounds [of h es] passed_gaps [OF l(2), of "skip_gaps es h" es]
    by (simp add: seat_delivered_simps)
qed

lemma delivered_take:
  assumes "seat_delivered el es (Some h) (Some (t0, got))" and "ready_at es h = Some v" and "arrives el v x"
  shows "seat_delivered el es (Some (Suc h)) (Some (t0, got @ [x]))"
proof -
  have h: "h < length es" "es ! h = Held v"
    using assms(2) by (auto simp: ready_at_def split: if_splits bc_entry.splits)
  then show ?thesis
    using assms(1,3) passed_snoc [of t0 h es]
    by (auto simp: seat_delivered_simps less_Suc_eq intro: list_all2_appendI)
qed

text \<open>Claims and resolutions leave what a consumer has passed alone.\<close>

lemma delivered_append: "seat_delivered el es ho l \<Longrightarrow> seat_delivered el (es @ [e]) ho l"
  by (cases ho) (auto simp: seat_delivered_simps passed_append nth_append)

lemma delivered_resolve:
  assumes "seat_delivered el es ho l" and "es ! p = Pending" and "p < length es"
  shows "seat_delivered el (es[p := e]) ho l"
proof (cases ho)
  case (Some h)
  then obtain t0 got where l: "l = Some (t0, got)" "t0 \<le> h" "h \<le> length es"
    "\<forall>q. t0 \<le> q \<and> q < h \<longrightarrow> es ! q \<noteq> Pending" "list_all2 (arrives el) (passed es t0 h) got"
    using assms(1) by (auto simp: seat_delivered_simps)
  have "es[p := e] ! q \<noteq> Pending" if "t0 \<le> q" "q < h" for q
    using l(4) that assms(2) by (cases "q = p") auto
  then show ?thesis
    using Some l passed_resolve [OF l(4) assms(2) l(2,3)] by (simp add: seat_delivered_simps)
qed (use assms(1) in \<open>simp add: seat_delivered_simps\<close>)

section \<open>The invariant\<close>

definition held_at :: "'a bc_entry list \<Rightarrow> (nat \<times> 'a) set" where
  "held_at es = {(p, v). p < length es \<and> es ! p = Held v}"

definition log_ok :: "'a element \<Rightarrow> 'a bc_event list \<Rightarrow> 'a bc_spec \<Rightarrow> bool" where
  "log_ok el evs a \<longleftrightarrow>
     (case a of (es, hs, rd, ns, ps, gone) \<Rightarrow>
        set (bc_published evs) = held_at es \<and> distinct (map fst (bc_published evs))
        \<and> given_up evs = gone
        \<and> (\<forall>i. seat_delivered el es (if i < length hs then hs ! i else None) (seat_log i evs)))"

lemma bc_published_append: "bc_published (xs @ ys) = bc_published xs @ bc_published ys"
  by (induction xs rule: bc_published.induct) simp_all

lemma given_up_append: "given_up (xs @ ys) = given_up xs @ given_up ys"
  by (induction xs rule: given_up.induct) simp_all

lemma seat_log_snoc: "seat_log i (evs @ [e]) = seat_note i e (seat_log i evs)"
  by (simp add: seat_log_def)

lemma held_at_simps:
  "held_at (es @ [Held v]) = insert (length es, v) (held_at es)"
  "held_at (es @ [Pending]) = held_at es"
  "p < length es \<Longrightarrow> es ! p = Pending \<Longrightarrow> held_at (es[p := Held v]) = insert (p, v) (held_at es)"
  "p < length es \<Longrightarrow> es ! p = Pending \<Longrightarrow> held_at (es[p := Gap]) = held_at es"
  by (auto simp: held_at_def nth_append nth_list_update split: if_splits)

lemma log_ok_quiet:
  assumes "log_ok el evs (es, hs, rd, ns, ps, gone)"
    and "bc_published [e] = []" "given_up [e] = []" "\<And>i l. seat_note i e l = l"
  shows "log_ok el (evs @ [e]) (es, hs, rd', ns', ps', gone)"
  using assms by (simp add: log_ok_def bc_published_append given_up_append seat_log_snoc)

text \<open>An event at one seat.\<close>

lemma log_ok_seat:
  assumes "log_ok el evs (es, hs, rd, ns, ps, gone)"
    and "bc_published [e] = []" "given_up [e] = []" "\<And>j l. j \<noteq> i \<Longrightarrow> seat_note j e l = l"
    and "i < length hs" and "seat_delivered el es ho (seat_note i e (seat_log i evs))"
  shows "log_ok el (evs @ [e]) (es, hs[i := ho], rd', ns', ps', gone)"
proof -
  have "seat_delivered el es (if j < length hs then hs[i := ho] ! j else None) (seat_note j e (seat_log j evs))" for j
  proof (cases "j = i")
    case True
    then show ?thesis using assms(5,6) by simp
  next
    case False
    moreover have "seat_delivered el es (if j < length hs then hs ! j else None) (seat_log j evs)"
      using assms(1) unfolding log_ok_def by blast
    ultimately show ?thesis using assms(4) [of j] by (cases "j < length hs") simp_all
  qed
  then show ?thesis
    using assms(1-3) by (simp add: log_ok_def bc_published_append given_up_append seat_log_snoc)
qed

lemma log_ok_at: "log_ok el evs (es, hs, rd, ns, ps, gone) \<Longrightarrow> i < length hs \<Longrightarrow>
    seat_delivered el es (hs ! i) (seat_log i evs)"
  by (auto simp: log_ok_def split: if_splits)

lemma log_step_consumer:
  assumes log: "log_ok el evs (es, hs, rd, ns, ps, gone)" and sd: "seated hs rd i = Some h"
  shows "bc_spec_step el n (B_Pop i) (es, hs, rd, ns, ps, gone) = (e, a1) \<Longrightarrow> log_ok el (evs @ [e]) a1"
    and "bc_spec_step el n (B_Open i) (es, hs, rd, ns, ps, gone) = (e, a1) \<Longrightarrow> log_ok el (evs @ [e]) a1"
    and "bc_spec_step el n (B_Leave i) (es, hs, rd, ns, ps, gone) = (e, a1) \<Longrightarrow> log_ok el (evs @ [e]) a1"
proof -
  have i: "i < length hs" "hs ! i = Some h" using sd by (auto simp: seated_def split: if_splits)
  let ?q = "skip_gaps es h"
  have at: "seat_delivered el es (Some ?q) (seat_log i evs)"
    using delivered_skip log_ok_at [OF log i(1)] i(2) by simp
  then obtain t0 got where l: "seat_log i evs = Some (t0, got)" by (auto simp: seat_delivered_simps)
  note seat = log_ok_seat [OF log _ _ _ i(1)]
  show "log_ok el (evs @ [e]) a1" if "bc_spec_step el n (B_Pop i) (es, hs, rd, ns, ps, gone) = (e, a1)"
  proof (cases "ready_at es ?q")
    case None
    then show ?thesis using that sd at by (auto intro!: seat)
  next
    case (Some v)
    have "seat_delivered el es (Some (Suc ?q)) (Some (t0, got @ [clone_value el v]))"
      using delivered_take [of el es ?q t0 got v] at l Some by (simp add: arrives_def)
    then show ?thesis using that sd Some l
      by (cases "clone_value el v") (auto intro!: seat)
  qed
  show "log_ok el (evs @ [e]) a1" if "bc_spec_step el n (B_Open i) (es, hs, rd, ns, ps, gone) = (e, a1)"
    using that sd at by (cases "ready_at es ?q") (auto intro!: seat)
  show "log_ok el (evs @ [e]) a1" if "bc_spec_step el n (B_Leave i) (es, hs, rd, ns, ps, gone) = (e, a1)"
    using that sd by (auto simp: seat_delivered_simps intro!: seat)
qed

lemma log_step_finish:
  assumes log: "log_ok el evs (es, hs, rd, ns, ps, gone)" and rds: "reader_rel es hs rd rds r"
    and st: "bc_spec_step el n (B_Finish i) (es, hs, rd, ns, ps, gone) = (e, a1)"
  shows "log_ok el (evs @ [e]) a1"
proof (cases "i < length rd \<and> rd ! i")
  case False
  then show ?thesis using st log_ok_quiet [OF log] by auto
next
  case True
  have i: "i < length hs" using rds True by (simp add: reader_rel_def)
  then obtain h v where h: "hs ! i = Some h" "ready_at es h = Some v"
    using rds True unfolding reader_rel_def by (metis (no_types, lifting) not_None_eq)
  have at: "seat_delivered el es (Some h) (seat_log i evs)" using log_ok_at [OF log i] h(1) by simp
  then obtain t0 got where l: "seat_log i evs = Some (t0, got)" by (auto simp: seat_delivered_simps)
  have "seat_delivered el es (Some (Suc h)) (Some (t0, got @ [Some v]))"
    using delivered_take [of el es h t0 got v] at l h(2) by (simp add: arrives_def)
  then show ?thesis using st True h l by (auto intro!: log_ok_seat [OF log _ _ _ i])
qed

lemma log_step_subscribe:
  assumes log: "log_ok el evs (es, hs, rd, ns, ps, gone)" and sd: "seated hs rd i = Some h"
    and st: "bc_spec_step el n (B_Subscribe i) (es, hs, rd, ns, ps, gone) = (e, a1)"
  shows "log_ok el (evs @ [e]) a1"
proof (cases "free_seat hs")
  case None
  then show ?thesis using st sd log_ok_quiet [OF log] by auto
next
  case (Some k)
  then have "k < length hs" by (simp add: free_seat_Some)
  moreover have "seat_delivered el es (Some (length es)) (Some (length es, []))"
    by (auto simp: seat_delivered_simps passed_def)
  ultimately show ?thesis using st sd Some by (auto intro!: log_ok_seat [OF log])
qed

lemma log_ok_entries:
  assumes log: "log_ok el evs (es, hs, rd, ns, ps, gone)"
    and seats: "\<And>ho l. seat_delivered el es ho l \<Longrightarrow> seat_delivered el es' ho l"
    and "set (bc_published (evs @ [e])) = held_at es'" "distinct (map fst (bc_published (evs @ [e])))"
    and "given_up [e] = ds" "\<And>i l. seat_note i e l = l"
  shows "log_ok el (evs @ [e]) (es', hs, rd', ns', ps', gone @ ds)"
  using assms by (simp add: log_ok_def given_up_append seat_log_snoc)

lemma fresh_position:
  assumes "log_ok el evs (es, hs, rd, ns, ps, gone)" and "p < length es \<Longrightarrow> es ! p = Pending"
  shows "p \<notin> fst ` set (bc_published evs)"
  using assms by (auto simp: log_ok_def held_at_def)

lemma log_step_producer:
  assumes log: "log_ok el evs (es, hs, rd, ns, ps, gone)"
  shows "bc_spec_step el n (B_Push j v) (es, hs, rd, ns, ps, gone) = (e, a1) \<Longrightarrow> log_ok el (evs @ [e]) a1"
    and "bc_spec_step el n (B_Reserve j) (es, hs, rd, ns, ps, gone) = (e, a1) \<Longrightarrow> log_ok el (evs @ [e]) a1"
    and "bc_spec_step el n (B_Clone j) (es, hs, rd, ns, ps, gone) = (e, a1) \<Longrightarrow> log_ok el (evs @ [e]) a1"
    and "bc_spec_step el n (B_Retire j) (es, hs, rd, ns, ps, gone) = (e, a1) \<Longrightarrow> log_ok el (evs @ [e]) a1"
proof -
  have L: "set (bc_published evs) = held_at es" "distinct (map fst (bc_published evs))"
    using log by (simp_all add: log_ok_def)
  have grow: "log_ok el (evs @ [e]) (es @ [x], hs, rd', ns', ps', gone)"
    if "set (bc_published (evs @ [e])) = held_at (es @ [x])" "distinct (map fst (bc_published (evs @ [e])))"
      "given_up [e] = []" "\<And>i l. seat_note i e l = l" for e x rd' ns' ps'
    using log_ok_entries [OF log delivered_append that] by simp
  note quiet = log_ok_quiet [OF log]
  show "log_ok el (evs @ [e]) a1" if "bc_spec_step el n (B_Push j v) (es, hs, rd, ns, ps, gone) = (e, a1)"
  proof (cases "alive ps j \<and> claimable_at n es hs")
    case True
    have "length es \<notin> fst ` set (bc_published evs)" by (rule fresh_position [OF log]) simp
    then show ?thesis
      using that True L grow [of "B_Published (length es) v" "Held v"]
      by (auto simp: bc_published_append held_at_simps)
  next
    case False
    then show ?thesis using that quiet [of e] by (auto split: if_splits)
  qed
  show "log_ok el (evs @ [e]) a1" if "bc_spec_step el n (B_Reserve j) (es, hs, rd, ns, ps, gone) = (e, a1)"
  proof (cases "alive ps j \<and> claimable_at n es hs")
    case True
    then show ?thesis
      using that L grow [of "B_Reserved True" Pending] by (auto simp: bc_published_append held_at_simps)
  next
    case False
    then show ?thesis using that quiet [of e] by (auto split: if_splits)
  qed
  show "log_ok el (evs @ [e]) a1" if "bc_spec_step el n (B_Clone j) (es, hs, rd, ns, ps, gone) = (e, a1)"
    using that quiet [of e] by (auto split: if_splits)
  show "log_ok el (evs @ [e]) a1" if "bc_spec_step el n (B_Retire j) (es, hs, rd, ns, ps, gone) = (e, a1)"
    using that quiet [of e] by (auto split: if_splits)
qed

lemma log_step_writer:
  assumes log: "log_ok el evs (es, hs, rd, ns, ps, gone)"
    and ns: "\<forall>p \<in> set ns. p < length es \<and> es ! p = Pending"
  shows "bc_spec_step el n (B_Commit i v) (es, hs, rd, ns, ps, gone) = (e, a1) \<Longrightarrow> log_ok el (evs @ [e]) a1"
    and "bc_spec_step el n (B_Abandon i) (es, hs, rd, ns, ps, gone) = (e, a1) \<Longrightarrow> log_ok el (evs @ [e]) a1"
    and "bc_spec_step el n (B_Abandon_Written i v) (es, hs, rd, ns, ps, gone) = (e, a1) \<Longrightarrow> log_ok el (evs @ [e]) a1"
proof -
  have L: "set (bc_published evs) = held_at es" "distinct (map fst (bc_published evs))"
    using log by (simp_all add: log_ok_def)
  have p: "i < length ns \<Longrightarrow> ns ! i < length es \<and> es ! (ns ! i) = Pending" using ns by simp
  have fill: "log_ok el (evs @ [e]) (es[ns ! i := x], hs, rd', ns', ps', gone @ ds)"
    if "set (bc_published (evs @ [e])) = held_at (es[ns ! i := x])" "distinct (map fst (bc_published (evs @ [e])))"
      "given_up [e] = ds" "\<And>i l. seat_note i e l = l" "i < length ns" for e x ds rd' ns' ps'
    using log_ok_entries [OF log delivered_resolve that(1-4)] p that(5) by blast
  note quiet = log_ok_quiet [OF log]
  show "log_ok el (evs @ [e]) a1" if "bc_spec_step el n (B_Commit i v) (es, hs, rd, ns, ps, gone) = (e, a1)"
  proof (cases "i < length ns")
    case True
    have "ns ! i \<notin> fst ` set (bc_published evs)" by (rule fresh_position [OF log]) (use p True in simp)
    then show ?thesis
      using that True L p fill [of "B_Published (ns ! i) v" "Held v" "[]"]
      by (auto simp: bc_published_append held_at_simps)
  qed (use that quiet [of e] in auto)
  show "log_ok el (evs @ [e]) a1" if "bc_spec_step el n (B_Abandon i) (es, hs, rd, ns, ps, gone) = (e, a1)"
  proof (cases "i < length ns")
    case True
    then show ?thesis
      using that L p fill [of "B_Gave_Up []" Gap "[]"] by (auto simp: bc_published_append held_at_simps)
  qed (use that quiet [of e] in auto)
  show "log_ok el (evs @ [e]) a1"
    if "bc_spec_step el n (B_Abandon_Written i v) (es, hs, rd, ns, ps, gone) = (e, a1)"
  proof (cases "i < length ns")
    case True
    then show ?thesis
      using that L p fill [of "B_Gave_Up [v]" Gap "[v]"] by (auto simp: bc_published_append held_at_simps)
  qed (use that quiet [of e] in auto)
qed

lemma log_step:
  assumes "bc_rel el a s" and "log_ok el evs a" and "bc_spec_step el n op a = (e, a1)"
  shows "log_ok el (evs @ [e]) a1"
proof -
  obtain es hs rd ns ps gone where a: "a = (es, hs, rd, ns, ps, gone)" by (metis prod.exhaust)
  obtain pos ws rds r where s: "s = (pos, ws, rds, r)" by (metis prod.exhaust)
  have R: "\<forall>p \<in> set ns. p < length es \<and> es ! p = Pending" "reader_rel es hs rd rds r"
    using assms(1) by (simp_all add: a s)
  note log = assms(2) [unfolded a] and st = assms(3) [unfolded a]
  have idle: "log_ok el (evs @ [e]) a1" if "(e, a1) = (B_No_Call, es, hs, rd, ns, ps, gone)"
    using log_ok_quiet [OF log, of e] that by simp
  show ?thesis
  proof (cases op)
    case (B_Pop i)
    then show ?thesis using log_step_consumer(1) [OF log] st idle
      by (cases "seated hs rd i") (simp_all del: bc_spec_step.simps(6), auto)
  next
    case (B_Open i)
    then show ?thesis using log_step_consumer(2) [OF log] st idle
      by (cases "seated hs rd i") (simp_all del: bc_spec_step.simps(7), auto)
  next
    case (B_Leave i)
    then show ?thesis using log_step_consumer(3) [OF log] st idle
      by (cases "seated hs rd i") (simp_all del: bc_spec_step.simps(10), auto)
  next
    case (B_Subscribe i)
    then show ?thesis using log_step_subscribe [OF log] st idle
      by (cases "seated hs rd i") (simp_all del: bc_spec_step.simps(9), auto)
  next
    case (B_Push j v)
    show ?thesis by (rule log_step_producer(1) [OF log st [unfolded B_Push]])
  next
    case (B_Reserve j)
    show ?thesis by (rule log_step_producer(2) [OF log st [unfolded B_Reserve]])
  next
    case (B_Clone j)
    show ?thesis by (rule log_step_producer(3) [OF log st [unfolded B_Clone]])
  next
    case (B_Retire j)
    show ?thesis by (rule log_step_producer(4) [OF log st [unfolded B_Retire]])
  next
    case (B_Commit i v)
    show ?thesis by (rule log_step_writer(1) [OF log R(1) st [unfolded B_Commit]])
  next
    case (B_Abandon i)
    show ?thesis by (rule log_step_writer(2) [OF log R(1) st [unfolded B_Abandon]])
  next
    case (B_Abandon_Written i v)
    show ?thesis by (rule log_step_writer(3) [OF log R(1) st [unfolded B_Abandon_Written]])
  next
    case (B_Finish i)
    show ?thesis by (rule log_step_finish [OF log R(2) st [unfolded B_Finish]])
  qed
qed

section \<open>Every consumer receives what was published\<close>

definition all_open :: "'a bc_spec \<Rightarrow> bool" where
  "all_open a \<longleftrightarrow>
     (case a of (es, hs, rd, ns, ps, gone) \<Rightarrow> \<forall>p < length es. es ! p = Pending \<longrightarrow> p \<in> set ns)"

lemma all_open_step:
  assumes "bc_rel el a s" and "all_open a" and "bc_spec_step el n op a = (e, a1)"
  shows "all_open a1"
proof -
  obtain es hs rd ns ps gone where a: "a = (es, hs, rd, ns, ps, gone)" by (metis prod.exhaust)
  obtain pos ws rds r where s: "s = (pos, ws, rds, r)" by (metis prod.exhaust)
  have R: "distinct ns" "i < length ns \<Longrightarrow> ns ! i < length es" for i using assms(1) by (simp_all add: a s)
  note op = assms(2) [unfolded a]
  have fill: "p \<in> set (remove_nth i ns)"
    if "i < length ns" "e \<noteq> Pending" "p < length es" "es[ns ! i := e] ! p = Pending" for i e p
  proof -
    have "p \<noteq> ns ! i" using that by auto
    then show ?thesis using that op remove_nth_distinct(2) [OF R(1) that(1)] by (auto simp: all_open_def)
  qed
  show ?thesis
    using assms(3) op unfolding a
    by (cases op)
      (auto intro: fill simp: all_open_def nth_append less_Suc_eq split: if_splits option.splits)
qed

lemma bcast_run_log:
  assumes "bc_rel el a s" and "length (fst a) + length ops \<le> POS_LIMIT"
    and calm: "\<forall>v. drop_value el v = Returned"
    and "log_ok el evs0 a" and "all_open a"
  shows "\<exists>evs s' a'. bcast_run el ops s = Inr (evs, s') \<and> bc_rel el a' s' \<and> log_ok el (evs0 @ evs) a'
    \<and> all_open a' \<and> b_capacity (snd (snd (snd s'))) = b_capacity (snd (snd (snd s)))"
  using assms(1,2,4,5)
proof (induction ops arbitrary: a s evs0)
  case Nil
  then show ?case by (intro exI [of _ "[]"] exI [of _ s] exI [of _ a]) simp
next
  case (Cons op ops)
  let ?n = "slots (b_capacity (snd (snd (snd s))))"
  obtain e a1 where st: "bc_spec_step el ?n op a = (e, a1)" by (metis prod.exhaust)
  have "length (fst a) < POS_LIMIT" using Cons.prems(2) by simp
  from bcast_step_follows [OF Cons.prems(1) this calm, of op] obtain s1 where
    s1: "bcast_step el op s = Inr (e, s1)" "bc_rel el a1 s1"
      "b_capacity (snd (snd (snd s1))) = b_capacity (snd (snd (snd s)))"
    using st by (auto simp: bc_follows_def Let_def)
  have "length (fst a1) + length ops \<le> POS_LIMIT"
    using spec_step_length [OF st] Cons.prems(2) by simp
  from Cons.IH [OF s1(2) this log_step [OF Cons.prems(1,3) st] all_open_step [OF Cons.prems(1,4) st]]
  obtain evs s' a' where "bcast_run el ops s1 = Inr (evs, s')" "bc_rel el a' s'"
    "log_ok el ((evs0 @ [e]) @ evs) a'" "all_open a'"
    "b_capacity (snd (snd (snd s'))) = b_capacity (snd (snd (snd s1)))" by blast
  then show ?case using s1
    by (intro exI [of _ "e # evs"] exI [of _ s'] exI [of _ a']) simp
qed

lemma start_log: "log_ok el [] (bc_spec_start m)" "all_open (bc_spec_start m)" if "0 < m"
proof -
  have "seat_delivered el [] (if i < m then (replicate m None)[0 := Some 0] ! i else None) (seat_log i [])" for i
    using that by (cases "i = 0") (auto simp: seat_log_def seat_delivered_simps passed_def)
  then show "log_ok el [] (bc_spec_start m)" "all_open (bc_spec_start m)"
    by (simp_all add: log_ok_def bc_spec_start_def held_at_def all_open_def)
qed

text \<open>The published values of a stretch of positions, in order.\<close>

fun held_from :: "nat \<Rightarrow> 'a bc_entry list \<Rightarrow> (nat \<times> 'a) list" where
  "held_from k [] = []"
| "held_from k (Held v # es) = (k, v) # held_from (Suc k) es"
| "held_from k (_ # es) = held_from (Suc k) es"

lemma map_snd_held_from: "map snd (held_from k es) = held_values es"
  by (induction k es rule: held_from.induct) simp_all

lemma in_held_from:
  "(p, v) \<in> set (held_from k es) \<longleftrightarrow> k \<le> p \<and> p < k + length es \<and> es ! (p - k) = Held v"
proof (induction k es rule: held_from.induct [case_names empty held pending gap])
  case (held k w es)
  then show ?case by (cases "p = k") (auto simp: nth_Cons')
next
  case (pending k es)
  then show ?case by (cases "p = k") (auto simp: nth_Cons')
next
  case (gap k es)
  then show ?case by (cases "p = k") (auto simp: nth_Cons')
qed simp

lemma held_from_sorted: "sorted (map fst (held_from k es)) \<and> distinct (map fst (held_from k es))"
proof (induction k es rule: held_from.induct)
  case (2 k w es)
  then show ?case by (force simp: in_held_from)
qed simp_all

lemma published_stretch:
  assumes "set log = held_at es" and "distinct (map fst log)" and "t0 \<le> h" "h \<le> length es"
  shows "map snd (sort_key fst (filter (\<lambda>(p, _). t0 \<le> p \<and> p < h) log)) = passed es t0 h"
proof -
  let ?log = "filter (\<lambda>(p, _). t0 \<le> p \<and> p < h) log"
  let ?all = "held_from t0 (take (h - t0) (drop t0 es))"
  have "set ?log = set ?all"
    using assms by (auto simp: held_at_def in_held_from)
  moreover have d: "distinct (map fst ?log)" using assms(2) by (simp add: distinct_map_filter)
  ultimately have "mset ?log = mset ?all"
    using held_from_sorted [of t0 "take (h - t0) (drop t0 es)"]
    by (intro iffD1 [OF set_eq_iff_mset_eq_distinct]) (auto simp: distinct_map)
  moreover have "inj_on fst (set ?log)" using d by (simp add: distinct_map)
  ultimately have "sort_key fst ?log = ?all"
    using held_from_sorted [of t0 "take (h - t0) (drop t0 es)"] by (intro sort_key_inj_key_eq) simp_all
  then show ?thesis by (simp add: passed_def map_snd_held_from)
qed

lemma all_passed:
  assumes "\<forall>p < length es. es ! p \<noteq> Pending" and "ready_at es (skip_gaps es h) = None" and "t0 \<le> h" "h \<le> length es"
  shows "passed es t0 (length es) = passed es t0 h"
proof -
  let ?q = "skip_gaps es h"
  have "\<not> ?q < length es"
  proof
    assume q: "?q < length es"
    let ?tw = "takeWhile (\<lambda>e. e = Gap) (drop h es)"
    have "length ?tw < length (drop h es)" using q assms(4) by (simp add: skip_gaps_def)
    then have "drop h es ! length ?tw \<noteq> Gap" by (rule nth_length_takeWhile)
    then have "es ! ?q \<noteq> Gap" using assms(4) by (simp add: skip_gaps_def)
    then show False using q assms(1,2) by (cases "es ! ?q") (auto simp: ready_at_def)
  qed
  then have "?q = length es" using skip_gaps_bounds(2) [OF assms(4)] by simp
  then show ?thesis using passed_gaps [OF assms(3,4), of es] by simp
qed

lemma seat_outcome:
  assumes rel: "bc_rel el (es, hs, rd, ns, ps, gone) (pos, ws, rds, r)"
    and log: "log_ok el evs (es, hs, rd, ns, ps, gone)" and opened: "all_open (es, hs, rd, ns, ps, gone)"
    and sl: "seat_log i evs = Some (t0, got)"
  shows "list_all2 (arrives el) (map snd (sort_key fst
        (filter (\<lambda>(p, _). t0 \<le> p \<and> p < unat (seat_pos r i)) (bc_published evs)))) got
    \<and> (ws = [] \<and> (\<exists>r'. bc_pop el \<lparr>bc_slot_index = i\<rparr> r = Inr (Normal None, r')) \<longrightarrow>
        list_all2 (arrives el) (map snd (sort_key fst (filter (\<lambda>(p, _). t0 \<le> p) (bc_published evs)))) got)"
proof -
  have L: "set (bc_published evs) = held_at es" "distinct (map fst (bc_published evs))"
    "seat_delivered el es (if i < length hs then hs ! i else None) (Some (t0, got))"
    using log sl unfolding log_ok_def by (simp_all add: sl [symmetric])
  have ok: "bc_ring_ok es hs r" using rel by simp
  obtain h where h: "i < length hs" "hs ! i = Some h" "t0 \<le> h" "h \<le> length es"
    "list_all2 (arrives el) (passed es t0 h) got"
    using L(3) by (cases "i < length hs"; cases "hs ! i") (auto simp: seat_delivered_simps)
  have "seat_pos r i = of_nat h" using seat_of_head [OF ok h(1,2)] by (simp add: seat_pos_def)
  then have at: "unat (seat_pos r i) = h"
    using bc_ring_okD(12) [OF ok] h(4) by (simp add: unat_of_nat_usize)
  have all: "filter (\<lambda>(p, _). t0 \<le> p) (bc_published evs)
      = filter (\<lambda>(p, _). t0 \<le> p \<and> p < length es) (bc_published evs)"
    by (rule filter_cong) (use L(1) in \<open>auto simp: held_at_def\<close>)
  have "passed es t0 (length es) = passed es t0 h"
    if "ws = []" "bc_pop el \<lparr>bc_slot_index = i\<rparr> r = Inr (Normal None, r')" for r'
  proof (rule all_passed)
    have "ns = []" using rel that(1) by simp
    then show "\<forall>p < length es. es ! p \<noteq> Pending" using opened by (simp add: all_open_def)
    show "ready_at es (skip_gaps es h) = None"
      using bc_pop_spec [OF ok, of "\<lparr>bc_slot_index = i\<rparr>" h el] h(1,2) that(2)
      by (auto simp: cloned_def split: option.splits)
  qed (use h in simp_all)
  then show ?thesis
    unfolding at all using published_stretch [OF L(1,2) h(3,4)] h(5)
      published_stretch [OF L(1,2) _ order_refl, of t0] h(3,4) by auto
qed

text \<open>
  C7. Whatever the program over a fresh broadcast ring, where destructors return: no
  position is published twice, and a seat that is taken has received, since its subscription, exactly the values published
  from the tail of that moment up to its head, in the order of their positions, each as
  its clone or read in place; nothing it has yet to read is overwritten. Once no
  reservation is open and its pop finds nothing, it has received every value published
  since it subscribed.
\<close>

theorem broadcast_delivers_to_every_consumer:
  assumes "wf_capacity c" and "0 < m" and "length ops \<le> POS_LIMIT"
    and "\<forall>v. drop_value el v = Returned"
  shows "\<exists>s0 evs ps ws rds r. bcast_start c m = Inr s0 \<and> bcast_run el ops s0 = Inr (evs, ps, ws, rds, r)
    \<and> distinct (map fst (bc_published evs))
    \<and> (\<forall>i t0 got. seat_log i evs = Some (t0, got) \<longrightarrow>
         list_all2 (arrives el) (map snd (sort_key fst
           (filter (\<lambda>(p, _). t0 \<le> p \<and> p < unat (seat_pos r i)) (bc_published evs)))) got
         \<and> (ws = [] \<and> (\<exists>r'. bc_pop el \<lparr>bc_slot_index = i\<rparr> r = Inr (Normal None, r')) \<longrightarrow>
             list_all2 (arrives el) (map snd (sort_key fst
               (filter (\<lambda>(p, _). t0 \<le> p) (bc_published evs)))) got))"
proof -
  obtain s0 :: "'a bcast" where s0: "bcast_start c m = Inr s0" "bc_rel el (bc_spec_start m) s0"
    using bcast_start_rel [OF assms(1,2), where el = el] by blast
  have "length (fst (bc_spec_start m :: 'a bc_spec)) + length ops \<le> POS_LIMIT"
    using assms(3) by (simp add: bc_spec_start_def)
  from bcast_run_log [OF s0(2) this assms(4) start_log [OF assms(2)]]
  obtain evs s' a' where run: "bcast_run el ops s0 = Inr (evs, s')" "bc_rel el a' s'" "log_ok el evs a'" "all_open a'"
    by auto
  obtain es hs rd ns qs gone where a: "a' = (es, hs, rd, ns, qs, gone)" by (metis prod.exhaust)
  obtain ps ws rds r where s: "s' = (ps, ws, rds, r)" by (metis prod.exhaust)
  have "distinct (map fst (bc_published evs))" using run(3) by (simp add: a log_ok_def)
  then show ?thesis
    using s0(1) run(1) seat_outcome [OF run(2-4) [unfolded a s]] unfolding s by blast
qed

theorem broadcast_delivers_to_every_consumer_witness:
  "\<exists>s0 evs ps ws rds r. bcast_start cap2 2 = Inr s0
    \<and> bcast_run \<lparr>needs_drop = True, drop_value = (\<lambda>_. Returned), clone_value = Some\<rparr>
        [B_Reserve 0, B_Push 0 (7 :: nat), B_Subscribe 0, B_Commit 0 8, B_Pop 0, B_Pop 0] s0
      = Inr (evs, ps, ws, rds, r)
    \<and> distinct (map fst (bc_published evs))
    \<and> (\<forall>i t0 got. seat_log i evs = Some (t0, got) \<longrightarrow>
         list_all2 (arrives \<lparr>needs_drop = True, drop_value = (\<lambda>_. Returned), clone_value = Some\<rparr>) (map snd (sort_key fst
           (filter (\<lambda>(p, _). t0 \<le> p \<and> p < unat (seat_pos r i)) (bc_published evs)))) got
         \<and> (ws = [] \<and> (\<exists>r'. bc_pop \<lparr>needs_drop = True, drop_value = (\<lambda>_. Returned), clone_value = Some\<rparr>
                \<lparr>bc_slot_index = i\<rparr> r = Inr (Normal None, r')) \<longrightarrow>
             list_all2 (arrives \<lparr>needs_drop = True, drop_value = (\<lambda>_. Returned), clone_value = Some\<rparr>) (map snd (sort_key fst
               (filter (\<lambda>(p, _). t0 \<le> p) (bc_published evs)))) got))"
  by (rule broadcast_delivers_to_every_consumer [OF cap2_wf]) (simp_all add: POS_LIMIT_def)

section \<open>Every value is destroyed once\<close>

lemma entry_holds_value:
  assumes "bc_entry_ok p e s" and "p < POS_LIMIT"
  shows "holds_value (bw_state (bs_sequence s)) \<longleftrightarrow> (\<exists>v. e = Held v)"
proof -
  have "p < 2 ^ 63" using assms(2) by (simp add: POS_LIMIT_def)
  then show ?thesis
    using assms(1) decode_published [of p] decode_abandoned [OF assms(2)]
    by (cases e) (simp_all add: bw_state_def)
qed

lemma bc_drop_positions_spec:
  assumes "wf_capacity (b_capacity r)" "length (b_buf r) = slots (b_capacity r)"
    and "length es \<le> POS_LIMIT" "k \<le> length es" "length es \<le> k + slots (b_capacity r)"
    and "\<forall>q. k \<le> q \<and> q < length es \<longrightarrow> bc_entry_ok q (es ! q) (b_buf r ! (q mod slots (b_capacity r)))"
    and "drop_run (drop_value el) (held_values (drop k es)) = (fin, ds, rest)"
  shows "\<exists>r'. bc_drop_positions el (map of_nat [k..<length es]) r = Inr (fin, r')
    \<and> b_dropped r' = b_dropped r @ ds"
  using assms
proof (induction "length es - k" arbitrary: k r ds)
  case 0
  then show ?case by simp
next
  case (Suc m k r ds)
  let ?n = "slots (b_capacity r)" and ?t = "length es"
  have k: "k < ?t" and m: "m = ?t - Suc k" using Suc.hyps(2) by simp_all
  have n: "0 < ?n" by (rule slots_pos [OF Suc.prems(1)])
  have slot: "bc_slot r (of_nat k) = k mod ?n" using slot_of_of_nat [OF Suc.prems(1)] by (simp add: bc_slot_def)
  have i: "k mod ?n < length (b_buf r)" using Suc.prems(2) n by simp
  have here: "bc_entry_ok k (es ! k) (b_buf r ! (k mod ?n))" using Suc.prems(6) k by simp
  have lim: "k < POS_LIMIT" using k Suc.prems(3) by simp
  have upt: "[k..<?t] = k # [Suc k..<?t]" using k by (simp add: upt_conv_Cons)
  have dr: "drop k es = es ! k # drop (Suc k) es" using k by (simp add: Cons_nth_drop_Suc)
  have next_k: "Suc k \<le> ?t" "?t \<le> Suc k + ?n" using k Suc.prems(5) by simp_all
  show ?case
  proof (cases "\<exists>v. es ! k = Held v")
    case False
    then have "\<not> holds_value (bw_state (bs_sequence (b_buf r ! (k mod ?n))))"
      using entry_holds_value [OF here lim] by simp
    moreover have "held_values (drop k es) = held_values (drop (Suc k) es)"
      using False dr by (cases "es ! k") simp_all
    moreover have "\<forall>q. Suc k \<le> q \<and> q < ?t \<longrightarrow> bc_entry_ok q (es ! q) (b_buf r ! (q mod ?n))"
      using Suc.prems(6) by simp
    ultimately show ?thesis
      using Suc.hyps(1) [OF m Suc.prems(1-3) next_k, of ds] Suc.prems(7) i slot upt
      by (simp add: bc_load_Inr)
  next
    case True
    then obtain v where v: "es ! k = Held v" by blast
    let ?r1 = "r\<lparr>b_buf := (b_buf r)[k mod ?n := (b_buf r ! (k mod ?n))\<lparr>bs_data := None\<rparr>], b_dropped := b_dropped r @ [v]\<rparr>"
    have "holds_value (bw_state (bs_sequence (b_buf r ! (k mod ?n))))"
      using entry_holds_value [OF here lim] v by simp
    moreover have "bc_drop_data (k mod ?n) r = Inr (v, ?r1)"
      using here v i by (simp add: bc_drop_data_Inr)
    ultimately have run: "bc_drop_positions el (map of_nat [k..<?t]) r =
        (case drop_value el v of Panicked \<Rightarrow> Inr (Panicked, ?r1)
         | Returned \<Rightarrow> bc_drop_positions el (map of_nat [Suc k..<?t]) ?r1)"
      using i slot upt by (simp add: bc_load_Inr)
    have drops: "drop_run (drop_value el) (v # held_values (drop (Suc k) es)) = (fin, ds, rest)"
      using Suc.prems(7) dr v by simp
    show ?thesis
    proof (cases "drop_value el v")
      case Panicked
      then show ?thesis using run drops by auto
    next
      case Returned
      then obtain ds1 where ds1: "drop_run (drop_value el) (held_values (drop (Suc k) es)) = (fin, ds1, rest)"
        "ds = v # ds1" using drops by (auto split: prod.splits)
      have "bc_entry_ok q (es ! q) (b_buf ?r1 ! (q mod ?n))" if "Suc k \<le> q" "q < ?t" for q
      proof -
        have "k mod ?n \<noteq> q mod ?n"
          using mod_inj_window [of k ?n q k] that Suc.prems(5) n by linarith
        then show ?thesis using Suc.prems(6) that by simp
      qed
      then show ?thesis
        using Suc.hyps(1) [of "Suc k" ?r1 ds1] m Suc.prems(1-3) next_k ds1 run Returned by auto
    qed
  qed
qed

lemma drop_run_calm: "\<forall>v. dtor v = Returned \<Longrightarrow> drop_run dtor q = (Returned, q, [])"
  by (induction q) auto

lemma bc_ring_drop_spec:
  assumes ok: "bc_ring_ok es hs r" and calm: "\<forall>v. drop_value el v = Returned"
  shows "\<exists>r'. bc_ring_drop el r = Inr (Returned, r')
    \<and> b_dropped r' = b_dropped r @ held_values (drop (length es - slots (b_capacity r)) es)"
proof -
  let ?n = "slots (b_capacity r)" and ?t = "length es"
  note D = bc_ring_okD [OF ok]
  have t: "unat (b_tail r) = ?t" using D(4,12) by (simp add: unat_of_nat_usize)
  have start: "unat (b_tail r - min (b_tail r) (cap (b_capacity r))) = ?t - ?n"
  proof -
    have "min (b_tail r) (cap (b_capacity r)) \<le> b_tail r" by simp
    then have "unat (b_tail r - min (b_tail r) (cap (b_capacity r)))
        = unat (b_tail r) - unat (min (b_tail r) (cap (b_capacity r)))" by (simp only: unat_sub)
    then show ?thesis using t by (simp add: min_def word_le_nat_alt)
  qed
  have "\<forall>q. ?t - ?n \<le> q \<and> q < ?t \<longrightarrow> bc_entry_ok q (es ! q) (b_buf r ! (q mod ?n))"
    using D(9) by auto
  from bc_drop_positions_spec [OF D(1-3) _ _ this drop_run_calm [OF calm]] show ?thesis
    unfolding bc_ring_drop_def Let_def capacity_get_def start t by auto
qed

lemma held_values_split: "mset (held_values (take k es)) + mset (held_values (drop k es)) = mset (held_values es)"
  using held_values_append [of "take k es" "drop k es"] by (simp flip: mset_append)

lemma published_values:
  assumes "set log = held_at es" and "distinct (map fst log)"
  shows "mset (map snd log) = mset (held_values es)"
proof -
  have "filter (\<lambda>(p, _). 0 \<le> p \<and> p < length es) log = log"
    by (rule filter_True) (use assms(1) in \<open>auto simp: held_at_def\<close>)
  then have "map snd (sort_key fst log) = passed es 0 (length es)"
    using published_stretch [OF assms, of 0 "length es"] by simp
  moreover have "mset (map snd (sort_key fst log)) = mset (map snd log)" by simp
  ultimately show ?thesis by (simp add: passed_def)
qed

text \<open>
  C9. When a program is over and the ring is dropped, and destructors return, every value
  published and every value of a reservation given up has been destroyed exactly once, by the producer that
  took its slot a lap later, by its writer, or by the ring; no value a consumer read was
  destroyed by the reading.
\<close>

theorem broadcast_drops_each_value_once:
  assumes "wf_capacity c" and "0 < m" and "length ops \<le> POS_LIMIT"
    and "\<forall>v. drop_value el v = Returned" and "needs_drop el"
  shows "\<exists>s0 evs ps ws rds r r'. bcast_start c m = Inr s0 \<and> bcast_run el ops s0 = Inr (evs, ps, ws, rds, r)
    \<and> bc_ring_drop el r = Inr (Returned, r')
    \<and> mset (b_dropped r') = mset (map snd (bc_published evs)) + mset (given_up evs)"
proof -
  obtain s0 :: "'a bcast" where s0: "bcast_start c m = Inr s0" "bc_rel el (bc_spec_start m) s0"
    using bcast_start_rel [OF assms(1,2), where el = el] by blast
  have "length (fst (bc_spec_start m :: 'a bc_spec)) + length ops \<le> POS_LIMIT"
    using assms(3) by (simp add: bc_spec_start_def)
  from bcast_run_log [OF s0(2) this assms(4) start_log [OF assms(2)]]
  obtain evs s' a' where run: "bcast_run el ops s0 = Inr (evs, s')" "bc_rel el a' s'" "log_ok el evs a'"
    by auto
  obtain es hs rd ns qs gone where a: "a' = (es, hs, rd, ns, qs, gone)" by (metis prod.exhaust)
  obtain ps ws rds r where s: "s' = (ps, ws, rds, r)" by (metis prod.exhaust)
  let ?k = "length es - slots (b_capacity r)"
  have R: "bc_ring_ok es hs r" "mset (b_dropped r) = mset (held_values (take ?k es)) + mset gone"
    using run(2) assms(5) by (simp_all add: a s dropped_ok_def)
  have L: "set (bc_published evs) = held_at es" "distinct (map fst (bc_published evs))" "given_up evs = gone"
    using run(3) by (simp_all add: a log_ok_def)
  obtain r' where r': "bc_ring_drop el r = Inr (Returned, r')"
      "b_dropped r' = b_dropped r @ held_values (drop ?k es)"
    using bc_ring_drop_spec [OF R(1) assms(4)] by blast
  have "mset (b_dropped r') = mset (map snd (bc_published evs)) + mset (given_up evs)"
    using r'(2) R(2) L(3) published_values [OF L(1,2)] held_values_split [of ?k es]
    by (simp add: ac_simps)
  then show ?thesis using s0(1) run(1) r'(1) unfolding s by blast
qed

theorem broadcast_drops_each_value_once_witness:
  "\<exists>s0 evs ps ws rds r r'. bcast_start cap2 2 = Inr s0
    \<and> bcast_run \<lparr>needs_drop = True, drop_value = (\<lambda>_. Returned), clone_value = Some\<rparr>
        [B_Push 0 (7 :: nat), B_Push 0 8, B_Pop 0, B_Push 0 9] s0 = Inr (evs, ps, ws, rds, r)
    \<and> bc_ring_drop \<lparr>needs_drop = True, drop_value = (\<lambda>_. Returned), clone_value = Some\<rparr> r = Inr (Returned, r')
    \<and> mset (b_dropped r') = mset (map snd (bc_published evs)) + mset (given_up evs)"
  by (rule broadcast_drops_each_value_once [OF cap2_wf]) (simp_all add: POS_LIMIT_def)

end
