(* ===== verification/Mpmc_Parts.thy ===== *)
theory Mpmc_Parts
  imports Park_Slot Endpoints
begin

text \<open>
  The parts of the mpmc ring: its tunables (\<open>src/mpmc/config.rs\<close>), the two words of a slot
  (\<open>ready_word.rs\<close>, \<open>done_word.rs\<close>), the lap of a consumer's scan (\<open>scan_budget.rs\<close>), the
  count of consumed items (\<open>consumed_watermark.rs\<close>) and what a parked producer
  announces (\<open>awaited_batch.rs\<close>).
\<close>

section \<open>The tunables\<close>

text \<open>The type parameter \<open>C: Config\<close> is a record; its bounds are checked when a ring is made.\<close>

record mpmc_config =
  producer_batch :: usize
  cas_fail_skip :: usize
  consumed_flush :: usize

definition default_config :: mpmc_config where
  "default_config = \<lparr>producer_batch = 32, cas_fail_skip = 128, consumed_flush = 64\<rparr>"

definition config_valid :: "mpmc_config \<Rightarrow> bool" where
  "config_valid g \<longleftrightarrow> 1 \<le> producer_batch g \<and> producer_batch g \<le> 32
     \<and> 1 \<le> cas_fail_skip g \<and> 1 \<le> consumed_flush g"

section \<open>The ready word\<close>

datatype ready_state =
    Free (round_pos: usize)
  | Published (round_pos: usize)
  | Claimed (round_pos: usize)

definition rs_is_published :: "ready_state \<Rightarrow> bool" where
  "rs_is_published s = (case s of Published _ \<Rightarrow> True | _ \<Rightarrow> False)"

type_synonym ready_word = usize

definition PUBLISHED :: usize where "PUBLISHED = 1"
definition CLAIMED :: usize where "CLAIMED = 2"

definition rw_free_at :: "usize \<Rightarrow> ready_word" where
  "rw_free_at slot = slot"

definition rw_decode :: "ready_word \<Rightarrow> usize \<Rightarrow> capacity \<Rightarrow> ready_state" where
  "rw_decode w slot c =
     (let st = capacity_wrap c (w - slot); pos = w - st in
      if st = 0 then Free pos else if st = PUBLISHED then Published pos else Claimed pos)"

definition rw_publish :: "usize \<Rightarrow> ready_word" where
  "rw_publish pos = pos + PUBLISHED"

definition rw_claim :: "ready_word \<Rightarrow> usize \<Rightarrow> bool \<times> ready_word" where
  "rw_claim w pos = (if w = pos + PUBLISHED then (True, pos + CLAIMED) else (False, w))"

definition rw_abandon :: "usize \<Rightarrow> ready_word" where
  "rw_abandon pos = pos + CLAIMED"

section \<open>The done word\<close>

type_synonym mpmc_done = usize

definition md_released_for :: "usize \<Rightarrow> mpmc_done" where
  "md_released_for slot = slot"

definition md_is_free_for :: "mpmc_done \<Rightarrow> usize \<Rightarrow> bool" where
  "md_is_free_for d pos \<longleftrightarrow> d = pos"

definition md_release :: "usize \<Rightarrow> capacity \<Rightarrow> mpmc_done" where
  "md_release pos c = pos + capacity_get c"

definition md_was_released_after :: "mpmc_done \<Rightarrow> usize \<Rightarrow> capacity \<Rightarrow> bool" where
  "md_was_released_after d pos c \<longleftrightarrow> d = pos + capacity_get c"

section \<open>The lap of a scan\<close>

record scan_budget =
  sb_position :: usize
  sb_floor :: usize
  sb_end :: usize
  sb_spent :: usize
  sb_probe_limit :: usize
  sb_cas_skip :: usize

definition sb_new :: "usize \<Rightarrow> usize \<Rightarrow> usize \<Rightarrow> scan_budget" where
  "sb_new start capacity skip =
     \<lparr>sb_position = start, sb_floor = start, sb_end = start + capacity, sb_spent = 0,
      sb_probe_limit = capacity, sb_cas_skip = (if skip \<ge> capacity then capacity - 1 else skip)\<rparr>"

definition sb_record :: "scan_budget \<Rightarrow> scan_budget" where
  "sb_record b =
     (let b1 = (if sb_position b = sb_floor b then b\<lparr>sb_floor := sb_floor b + 1\<rparr> else b)
      in b1\<lparr>sb_spent := sb_spent b1 + 1\<rparr>)"

definition sb_probes_are_spent :: "scan_budget \<Rightarrow> bool" where
  "sb_probes_are_spent b \<longleftrightarrow> sb_spent b \<ge> sb_probe_limit b"

definition sb_resume_sweep :: "scan_budget \<Rightarrow> scan_budget" where
  "sb_resume_sweep b =
     (if sb_probes_are_spent b \<and> sb_position b \<noteq> sb_floor b then b\<lparr>sb_position := sb_floor b\<rparr> else b)"

definition sb_step :: "scan_budget \<Rightarrow> scan_budget" where
  "sb_step b =
     (let b1 = sb_record b in sb_resume_sweep (b1\<lparr>sb_position := sb_position b1 + 1\<rparr>))"

definition sb_skip_contended :: "scan_budget \<Rightarrow> scan_budget" where
  "sb_skip_contended b =
     (let b1 = sb_record b in
      sb_resume_sweep
        (if sb_probes_are_spent b1 then b1\<lparr>sb_position := sb_position b1 + 1\<rparr>
         else b1\<lparr>sb_position := sb_position b1 + sb_cas_skip b1\<rparr>))"

definition sb_exhausted :: "scan_budget \<Rightarrow> bool" where
  "sb_exhausted b \<longleftrightarrow> sb_floor b \<ge> sb_end b"

section \<open>The consumed watermark\<close>

type_synonym watermark = usize

definition watermark_new :: watermark where
  "watermark_new = 0"

definition watermark_add :: "usize \<Rightarrow> watermark \<Rightarrow> watermark" where
  "watermark_add n m = m + n"

definition watermark_free :: "watermark \<Rightarrow> usize \<Rightarrow> usize \<Rightarrow> usize option" where
  "watermark_free m claim c =
     (let in_flight = claim - m in if in_flight < c then Some (c - in_flight) else None)"

text \<open>A consumer's tally: its unpublished pops, returned with the watermark.\<close>

type_synonym tally = usize

definition tally_new :: tally where
  "tally_new = 0"

definition tally_record :: "usize \<Rightarrow> tally \<times> watermark \<Rightarrow> tally \<times> watermark" where
  "tally_record flush_at tm =
     (case tm of (t, m) \<Rightarrow>
        let pending = t + 1 in
        if pending \<ge> flush_at then (0, watermark_add pending m) else (pending, m))"

definition tally_flush :: "tally \<times> watermark \<Rightarrow> tally \<times> watermark" where
  "tally_flush tm = (case tm of (t, m) \<Rightarrow> if t > 0 then (0, watermark_add t m) else (t, m))"

section \<open>What a parked producer waits for\<close>

type_synonym awaited_batch = u64

definition AWAIT_ANY :: u64 where "AWAIT_ANY = - 1"
definition BATCH_WIDTH :: u64 where "BATCH_WIDTH = 32"

definition ab_new :: awaited_batch where
  "ab_new = AWAIT_ANY"

definition ab_pack :: "usize \<Rightarrow> u32 \<Rightarrow> u64" where
  "ab_pack start unused = push_bit 32 start OR ucast unused"

definition ab_announce :: "usize \<Rightarrow> u32 \<Rightarrow> awaited_batch" where
  "ab_announce start unused = (if unused = 0 then AWAIT_ANY else ab_pack start unused)"

definition ab_retract :: awaited_batch where
  "ab_retract = AWAIT_ANY"

definition ab_matches :: "u64 \<Rightarrow> usize \<Rightarrow> bool" where
  "ab_matches w pos \<longleftrightarrow>
     w \<noteq> AWAIT_ANY
     \<and> (let start = drop_bit 32 w;
            unused = w AND 0xffffffff;
            offset = ((pos AND 0xffffffff) - start) AND 0xffffffff
        in offset < BATCH_WIDTH \<and> drop_bit (unat offset) unused AND 1 = 1)"

definition ab_interest :: "awaited_batch \<Rightarrow> usize \<Rightarrow> wake_interest" where
  "ab_interest w pos =
     (if w = AWAIT_ANY then Any else if ab_matches w pos then Reserved else Declines)"

declare rw_free_at_def [ring_defs] rw_publish_def [ring_defs] rw_abandon_def [ring_defs]
  md_released_for_def [ring_defs] md_is_free_for_def [ring_defs] md_release_def [ring_defs]
  md_was_released_after_def [ring_defs]

section \<open>The ready word keeps round and state apart\<close>

lemma unat_capacity_wrap:
  assumes "wf_capacity c"
  shows "unat (capacity_wrap c d) = unat d mod slots c"
  using slot_of_mod [OF assms, of d] by (simp add: capacity_wrap_def index_of_def)

lemma index_of_nat:
  assumes "wf_capacity c"
  shows "index_of c pos = of_nat (unat pos mod slots c)"
  by (simp add: slot_of_mod [OF assms, symmetric])

lemma slots_bound: "wf_capacity c \<Longrightarrow> slots c \<le> 2 ^ 63"
proof (erule wf_capacity_exp)
  fix k assume "k < 64" and "slots c = 2 ^ k"
  moreover from \<open>k < 64\<close> have "(2::nat) ^ k \<le> 2 ^ 63" by (intro power_increasing) simp_all
  ultimately show ?thesis by metis
qed

lemma wrap_of_state:
  assumes "wf_capacity c" and "k < slots c"
  shows "capacity_wrap c (pos + of_nat k - index_of c pos) = of_nat k"
proof -
  let ?q = "unat pos - unat pos mod slots c"
  have "pos - index_of c pos = of_nat (unat pos) - of_nat (unat pos mod slots c)"
    by (simp add: index_of_nat [OF assms(1), symmetric])
  also have "\<dots> = of_nat ?q" by (simp only: of_nat_diff mod_less_eq_dividend)
  finally have q: "pos - index_of c pos = of_nat ?q" .
  have "pos + of_nat k - index_of c pos = (pos - index_of c pos) + of_nat k" by simp
  then have "pos + of_nat k - index_of c pos = of_nat (?q + k)" by (simp only: q of_nat_add)
  then have "unat (capacity_wrap c (pos + of_nat k - index_of c pos))
      = (?q + k) mod 2 ^ 64 mod slots c"
    unfolding unat_capacity_wrap [OF assms(1)] by (simp only: unat_of_nat) simp
  also have "\<dots> = (?q + k) mod slots c" by (rule mod_mod_cancel [OF slots_dvd [OF assms(1)]])
  also have "\<dots> = k" using assms(2) by (simp add: minus_mod_eq_mult_div)
  finally have "(of_nat (unat (capacity_wrap c (pos + of_nat k - index_of c pos))) :: usize) = of_nat k"
    by (rule arg_cong)
  then show ?thesis by simp
qed

lemma rw_decode_at:
  assumes "wf_capacity c" and "4 \<le> slots c"
  shows "rw_decode pos (index_of c pos) c = Free pos"
    and "rw_decode (rw_publish pos) (index_of c pos) c = Published pos"
    and "rw_decode (rw_abandon pos) (index_of c pos) c = Claimed pos"
proof -
  have k: "capacity_wrap c (pos - index_of c pos) = 0"
    "capacity_wrap c (pos + 1 - index_of c pos) = 1" "capacity_wrap c (pos + 2 - index_of c pos) = 2"
    using wrap_of_state [OF assms(1), of 0 pos] wrap_of_state [OF assms(1), of 1 pos]
      wrap_of_state [OF assms(1), of 2 pos] assms(2) by simp_all
  show "rw_decode pos (index_of c pos) c = Free pos"
    "rw_decode (rw_publish pos) (index_of c pos) c = Published pos"
    "rw_decode (rw_abandon pos) (index_of c pos) c = Claimed pos"
    using k by (simp_all add: rw_decode_def rw_publish_def rw_abandon_def PUBLISHED_def CLAIMED_def Let_def)
qed

text \<open>
  C39. The ready word is read back as it was written: with four slots or more, the word of
  every position and each of its three states decodes, at the position's own slot, to
  that position and state, a claim succeeds on the published word of its position alone,
  and the claimed word is what the winner leaves. With two slots the claimed word is
  the free word of the next round, which is what the assertion in \<open>RingBuffer::new\<close>
  rules out.
\<close>

theorem ready_word_round_trips:
  assumes "wf_capacity c" and "4 \<le> slots c"
  shows "rw_decode (rw_free_at (index_of c pos)) (index_of c pos) c = Free (index_of c pos)
    \<and> rw_decode (rw_publish pos) (index_of c pos) c = Published pos
    \<and> rw_decode (rw_abandon pos) (index_of c pos) c = Claimed pos
    \<and> rw_claim (rw_publish pos) p = (if p = pos then (True, rw_abandon pos) else (False, rw_publish pos))
    \<and> rw_decode (rw_abandon pos) (index_of cap2 pos) cap2 = Free (pos + 2)"
proof -
  have i: "index_of c (index_of c pos) = index_of c pos" by (simp add: index_of_def ac_simps)
  have "slot_of cap2 (pos + 2) = slot_of cap2 pos"
    using slot_of_lap [OF cap2_wf, of pos] by (simp add: cap2_def)
  then have "index_of cap2 (pos + 2) = index_of cap2 pos" by (simp only: word_unat_eq_iff)
  then have two: "capacity_wrap cap2 (pos + 2 - index_of cap2 pos) = 0"
    using wrap_of_state [OF cap2_wf, of 0 "pos + 2"] slots_cap2 by simp
  show ?thesis
    using rw_decode_at [OF assms, of pos] rw_decode_at(1) [OF assms, of "index_of c pos"] two
    by (auto simp: i rw_free_at_def rw_claim_def rw_publish_def rw_abandon_def rw_decode_def CLAIMED_def Let_def)
qed

definition cap4 :: capacity where "cap4 = \<lparr>cap = 4, mask = 3\<rparr>"

lemma cap4_wf: "wf_capacity cap4" and slots_cap4: "slots cap4 = 4"
  by (auto simp: cap4_def wf_capacity_def is_power_of_two_exp intro!: exI [of _ 2])

theorem ready_word_round_trips_witness:
  "rw_decode (rw_free_at (index_of cap4 22)) (index_of cap4 22) cap4 = Free (index_of cap4 22)
    \<and> rw_decode (rw_publish 22) (index_of cap4 22) cap4 = Published 22
    \<and> rw_decode (rw_abandon 22) (index_of cap4 22) cap4 = Claimed 22
    \<and> rw_claim (rw_publish 22) 26 = (if (26::usize) = 22 then (True, rw_abandon 22) else (False, rw_publish 22))
    \<and> rw_decode (rw_abandon 22) (index_of cap2 22) cap2 = Free (22 + 2)"
  by (rule ready_word_round_trips) (simp_all add: cap4_wf slots_cap4)

section \<open>What an announcement answers\<close>

lemma ab_pack_parts:
  "drop_bit 32 (ab_pack start unused) = take_bit 32 start"
  "ab_pack start unused AND 0xffffffff = ucast unused"
proof -
  have m: "(0xffffffff :: u64) = Bit_Operations.mask 32" by (simp add: mask_eq_exp_minus_1)
  show "drop_bit 32 (ab_pack start unused) = take_bit 32 start"
    by (rule bit_word_eqI) (auto simp: ab_pack_def bit_simps dest: bit_imp_le_length)
  show "ab_pack start unused AND 0xffffffff = ucast unused"
    by (rule bit_word_eqI) (auto simp: m ab_pack_def bit_simps dest: bit_imp_le_length)
qed

lemma ab_pack_any:
  "ab_pack start unused = AWAIT_ANY \<longleftrightarrow> unused = - 1 \<and> take_bit 32 start = Bit_Operations.mask 32"
proof
  assume "ab_pack start unused = AWAIT_ANY"
  then have "bit (ab_pack start unused) n" if "n < 64" for n using that by (simp add: AWAIT_ANY_def bit_simps)
  then have all: "bit (push_bit 32 start) n \<or> bit (ucast unused :: u64) n" if "n < 64" for n
    using that by (simp add: ab_pack_def bit_or_iff)
  have "bit unused n" if "n < 32" for n using all [of n] that by (simp add: bit_simps)
  moreover have "bit start n" if "n < 32" for n
    using all [of "n + 32"] that by (auto simp: bit_simps dest: bit_imp_le_length)
  ultimately show "unused = - 1 \<and> take_bit 32 start = Bit_Operations.mask 32"
    by (auto simp: bit_simps intro!: bit_word_eqI)
next
  assume "unused = - 1 \<and> take_bit 32 start = Bit_Operations.mask 32"
  then have u: "unused = - 1" and tb: "take_bit 32 start = Bit_Operations.mask 32" by simp_all
  have s: "bit start n" if "n < 32" for n
    using arg_cong [OF tb, of "\<lambda>w. bit w n"] that by (simp add: bit_simps)
  show "ab_pack start unused = AWAIT_ANY"
    by (rule bit_word_eqI) (use u s in \<open>auto simp: ab_pack_def AWAIT_ANY_def bit_simps\<close>)
qed

text \<open>
  A release is routed by what the parked producer announced: a producer with no
  position left takes anything, and one that holds a batch claims the release of \<open>pos\<close>
  exactly when \<open>pos\<close> agrees, in its low 32 bits, with one of the unused positions of
  the batch, and declines every other. One announcement is lost: a whole batch of 32
  positions that starts at \<open>2 ^ 32 - 1\<close>, modulo \<open>2 ^ 32\<close>, packs into the word that stands
  for "anything".
\<close>

lemma uint_take_bit_diff:
  fixes a b :: u64
  assumes "n \<le> 64"
  shows "uint (take_bit n (a - b)) = take_bit n (uint a - uint b)"
  using assms by (simp add: unsigned_take_bit_eq uint_word_arith_bintrs)

lemma take_bit_word_diff:
  fixes a b :: u64
  assumes "n \<le> 64"
  shows "take_bit n (take_bit n a - take_bit n b) = take_bit n (a - b)"
  using uint_take_bit_diff [OF assms, of "take_bit n a" "take_bit n b"] uint_take_bit_diff [OF assms, of a b]
  by (simp add: word_uint_eq_iff unsigned_take_bit_eq take_bit_diff)

lemma take_bit_shift:
  fixes a b i :: u64
  assumes "n \<le> 64"
  shows "take_bit n a = take_bit n (b + i) \<longleftrightarrow> take_bit n (a - b) = take_bit n i"
proof
  assume "take_bit n a = take_bit n (b + i)"
  then have "take_bit n (a - b) = take_bit n (b + i - b)"
    by (metis take_bit_word_diff [OF assms])
  then show "take_bit n (a - b) = take_bit n i" by simp
next
  assume "take_bit n (a - b) = take_bit n i"
  then have "take_bit n (a - b - i) = take_bit n (i - i)" by (metis take_bit_word_diff [OF assms])
  then have "take_bit n (a - (b + i)) = 0" by (simp add: algebra_simps)
  then have "take_bit n (uint a - uint (b + i)) = 0" using uint_take_bit_diff [OF assms, of a "b + i"] by simp
  then have "uint a mod 2 ^ n = uint (b + i) mod 2 ^ n"
    by (simp add: take_bit_eq_mod mod_eq_dvd_iff dvd_eq_mod_eq_0)
  then have "take_bit n (uint a) = take_bit n (uint (b + i))" by (simp only: take_bit_eq_mod)
  then have "uint (take_bit n a) = uint (take_bit n (b + i))" by (simp only: unsigned_take_bit_eq)
  then show "take_bit n a = take_bit n (b + i)" by (simp only: word_uint_eq_iff)
qed

lemma ab_matches_pack:
  assumes "ab_pack start unused \<noteq> AWAIT_ANY"
  shows "ab_matches (ab_pack start unused) pos
    \<longleftrightarrow> (\<exists>i < 32. bit unused i \<and> take_bit 32 pos = take_bit 32 (start + of_nat i))"
proof -
  define off where "off = take_bit 32 (pos - start)"
  have m: "(0xffffffff :: u64) = Bit_Operations.mask 32" by (simp add: mask_eq_exp_minus_1)
  have "((pos AND 0xffffffff) - drop_bit 32 (ab_pack start unused)) AND 0xffffffff = off"
    unfolding ab_pack_parts m by (simp add: take_bit_eq_mask [symmetric] take_bit_word_diff off_def)
  then have "ab_matches (ab_pack start unused) pos \<longleftrightarrow>
      off < 32 \<and> bit unused (unat off)"
    using assms unfolding ab_matches_def Let_def ab_pack_parts(2)
    by (auto simp: BATCH_WIDTH_def bit_simps word_less_nat_alt and_one_eq odd_iff_mod_2_eq_one [symmetric]
        simp flip: bit_iff_odd_drop_bit)
  also have "\<dots> \<longleftrightarrow> (\<exists>i < 32. bit unused i \<and> off = of_nat i)"
  proof -
    have "off = of_nat i \<longleftrightarrow> unat off = i" if "i < 32" for i
      using that by (auto simp: word_unat_eq_iff unat_of_nat take_bit_nat_eq_self)
    then have "(\<exists>i < 32. bit unused i \<and> off = of_nat i) \<longleftrightarrow> (\<exists>i < 32. bit unused i \<and> unat off = i)"
      by (intro ex_cong1) auto
    then show ?thesis by (simp add: word_less_nat_alt)
  qed
  also have "\<dots> \<longleftrightarrow> (\<exists>i < 32. bit unused i \<and> take_bit 32 pos = take_bit 32 (start + of_nat i))"
  proof -
    have "take_bit 32 (of_nat i :: usize) = of_nat i" if "i < 32" for i
      using that by (simp add: word_unat_eq_iff unsigned_take_bit_eq unat_of_nat take_bit_nat_eq_self)
    then show ?thesis unfolding off_def by (auto simp: take_bit_shift)
  qed
  finally show ?thesis .
qed

theorem awaited_batch_answers:
  "ab_interest (ab_announce start unused) pos =
     (if unused = 0 \<or> unused = - 1 \<and> take_bit 32 start = Bit_Operations.mask 32 then Any
      else if \<exists>i < 32. bit unused i \<and> take_bit 32 pos = take_bit 32 (start + of_nat i) then Reserved
      else Declines)
   \<and> ab_interest ab_retract pos = ab_interest ab_new pos"
proof -
  consider (any) "unused = 0 \<or> ab_pack start unused = AWAIT_ANY"
    | (batch) "unused \<noteq> 0" "ab_pack start unused \<noteq> AWAIT_ANY" by blast
  then show ?thesis
  proof cases
    case any
    then have "ab_announce start unused = AWAIT_ANY" by (auto simp: ab_announce_def)
    then show ?thesis using any ab_pack_any [of start unused] by (auto simp: ab_interest_def ab_retract_def ab_new_def)
  next
    case batch
    then have "ab_announce start unused = ab_pack start unused" by (simp add: ab_announce_def)
    moreover have "\<not> (unused = 0 \<or> unused = - 1 \<and> take_bit 32 start = Bit_Operations.mask 32)"
      using batch ab_pack_any [of start unused] by simp
    ultimately show ?thesis
      using ab_matches_pack [OF batch(2), of pos] batch(2)
      by (simp only: ab_interest_def ab_retract_def ab_new_def if_False if_True)
  qed
qed

section \<open>A lap examines every position\<close>

text \<open>
  What is left of a lap: the floor climbs to the end, and a turn that does not move it
  spends a probe or puts the position back on the floor.
\<close>

definition lap_left :: "scan_budget \<Rightarrow> nat" where
  "lap_left b = (if sb_floor b < sb_end b then unat (sb_end b - sb_floor b) else 2 ^ 64)"

definition probes_left :: "scan_budget \<Rightarrow> nat" where
  "probes_left b =
     (if sb_spent b < sb_probe_limit b then unat (sb_probe_limit b - sb_spent b) + 1
      else if sb_position b = sb_floor b then 0 else unat (sb_probe_limit b) + 2)"

lemma sb_moves:
  assumes "b' = sb_step b \<or> b' = sb_skip_contended b"
  shows "sb_floor b' = (if sb_position b = sb_floor b then sb_floor b + 1 else sb_floor b)"
    "sb_spent b' = sb_spent b + 1" "sb_end b' = sb_end b" "sb_probe_limit b' = sb_probe_limit b"
    "sb_probe_limit b \<le> sb_spent b + 1 \<Longrightarrow> sb_position b' = sb_floor b'"
    "sb_cas_skip b' = sb_cas_skip b"
  using assms
  by (auto simp: sb_step_def sb_skip_contended_def sb_record_def sb_resume_sweep_def
      sb_probes_are_spent_def Let_def)

lemma unat_diff_less:
  fixes a e :: "'l::len word"
  assumes "a < e"
  shows "unat (e - (a + 1)) < unat (e - a)"
proof -
  have "unat (a + 1) = Suc (unat a)" by (rule unat_Suc_of_less [OF assms])
  moreover have "a + 1 \<le> e" using calculation assms by (simp add: word_le_nat_alt word_less_nat_alt)
  ultimately show ?thesis using assms by (simp add: unat_sub word_less_nat_alt word_le_nat_alt)
qed

lemma sb_turn:
  assumes "b' = sb_step b \<or> b' = sb_skip_contended b" and "\<not> sb_exhausted b'"
  shows "lap_left b' < lap_left b \<or> lap_left b' = lap_left b \<and> probes_left b' < probes_left b"
proof (cases "sb_position b = sb_floor b")
  case True
  note m = sb_moves [OF assms(1)]
  have "sb_floor b + 1 < sb_end b" using assms(2) m True by (simp add: sb_exhausted_def)
  moreover have "unat (sb_end b - (sb_floor b + 1)) < 2 ^ 64"
    using unsigned_less [where ?'a = nat and w = "sb_end b - (sb_floor b + 1)"] by simp
  ultimately have "lap_left b' < lap_left b"
    using m True unat_diff_less [of "sb_floor b" "sb_end b"] by (simp add: lap_left_def)
  then show ?thesis ..
next
  case False
  note m = sb_moves [OF assms(1)]
  have lap: "lap_left b' = lap_left b" using m False by (simp add: lap_left_def)
  have "probes_left b' < probes_left b"
  proof (cases "sb_probe_limit b \<le> sb_spent b + 1")
    case True
    then show ?thesis using m False by (auto simp: probes_left_def)
  next
    case going: False
    show ?thesis
    proof (cases "sb_spent b < sb_probe_limit b")
      case True
      then show ?thesis using m going unat_diff_less [OF True] True by (simp add: probes_left_def not_le)
    next
      case spent: False
      have "sb_spent b + 1 = 0"
      proof (rule ccontr)
        assume "sb_spent b + 1 \<noteq> 0"
        then have "unat (sb_spent b + 1) = Suc (unat (sb_spent b))" using unatSuc [of "sb_spent b"] by (simp add: add.commute)
        then show False using going spent by (simp add: word_le_nat_alt word_less_nat_alt)
      qed
      then show ?thesis using m going spent False by (simp add: probes_left_def not_le word_neq_0_conv)
    qed
  qed
  with lap show ?thesis by simp
qed

function scan_lap :: "(nat \<Rightarrow> bool) \<Rightarrow> nat \<Rightarrow> scan_budget \<Rightarrow> usize list" where
  "scan_lap lost i b =
     sb_position b #
       (let b1 = (if lost i then sb_skip_contended b else sb_step b) in
        if sb_exhausted b1 then [] else scan_lap lost (Suc i) b1)"
  by pat_completeness auto
termination
  by (relation "measures [\<lambda>(_, _, b). lap_left b, \<lambda>(_, _, b). probes_left b]") (auto dest!: sb_turn [rotated] simp del: sb_exhausted_def)

declare scan_lap.simps [simp del]

text \<open>
  A turn, on numbers: with \<open>a\<close> positions swept and \<open>s\<close> examined of a ring of \<open>n\<close>, a turn on
  the floor sweeps one more, and once \<open>n\<close> are examined every turn is on the floor.
\<close>

definition lap_at :: "usize \<Rightarrow> nat \<Rightarrow> nat \<Rightarrow> nat \<Rightarrow> scan_budget \<Rightarrow> bool" where
  "lap_at start n a s b \<longleftrightarrow>
     sb_floor b = start + of_nat a \<and> sb_spent b = of_nat s \<and> sb_end b = start + of_nat n
     \<and> sb_probe_limit b = of_nat n \<and> a < n \<and> s \<le> n + a
     \<and> (n \<le> s \<longrightarrow> sb_position b = sb_floor b)"

lemma lap_at_turn:
  assumes b: "lap_at start n a s b" and room: "unat start + 2 * n < 2 ^ 64"
    and turn: "b' = sb_step b \<or> b' = sb_skip_contended b"
  defines "a' \<equiv> if sb_position b = sb_floor b then Suc a else a"
  shows "sb_exhausted b' \<longleftrightarrow> a' = n"
    and "\<not> sb_exhausted b' \<Longrightarrow> lap_at start n a' (Suc s) b'"
proof -
  note m = sb_moves [OF turn]
  have fields: "sb_floor b = start + of_nat a" "sb_spent b = of_nat s" "sb_end b = start + of_nat n"
      "sb_probe_limit b = of_nat n" "a < n" "s \<le> n + a" "n \<le> s \<Longrightarrow> sb_position b = sb_floor b"
    using b by (simp_all add: lap_at_def)
  have floor: "sb_floor b' = start + of_nat a'" using m(1) fields(1) by (simp add: a'_def)
  have unat_at: "unat (start + of_nat k) = unat start + k" if "k \<le> n" for k
    using that room by (simp add: unat_add_of_nat)
  have "a' \<le> n" using fields(5) by (simp add: a'_def)
  then show ex: "sb_exhausted b' \<longleftrightarrow> a' = n"
    using unat_at [of a'] unat_at [of n] by (auto simp: sb_exhausted_def floor m(3) fields(3) word_le_nat_alt)
  have spent: "sb_spent b' = of_nat (Suc s)" using m(2) fields(2) by simp
  have "sb_position b' = sb_floor b'" if "n \<le> Suc s"
  proof (rule m(5))
    have "unat (of_nat (Suc s) :: usize) = Suc s" "unat (of_nat n :: usize) = n"
      by (rule unat_of_nat_usize, use fields(5,6) room in linarith)+
    then show "sb_probe_limit b \<le> sb_spent b + 1"
      using that fields(2,4) spent m(2) by (simp add: word_le_nat_alt add.commute)
  qed
  moreover have "Suc s \<le> n + a'" using fields(6,7) by (cases "s < n + a") (auto simp: a'_def)
  ultimately show "lap_at start n a' (Suc s) b'" if "\<not> sb_exhausted b'"
    using that ex \<open>a' \<le> n\<close> floor spent m(3,4) fields(3,4) by (auto simp: lap_at_def)
qed

lemma scan_lap_from:
  assumes "lap_at start n a s b" and "unat start + 2 * n < 2 ^ 64"
  shows "length (scan_lap lost i b) \<le> (n - a) + (n - s)"
    and "a \<le> k \<Longrightarrow> k < n \<Longrightarrow> start + of_nat k \<in> set (scan_lap lost i b)"
proof -
  have "length (scan_lap lost i b) \<le> (n - a) + (n - s)
      \<and> (\<forall>k. a \<le> k \<and> k < n \<longrightarrow> start + of_nat k \<in> set (scan_lap lost i b))"
    using assms(1)
  proof (induction lost i b arbitrary: a s rule: scan_lap.induct)
    case (1 lost i b)
    define b' where "b' = (if lost i then sb_skip_contended b else sb_step b)"
    define a' where "a' = (if sb_position b = sb_floor b then Suc a else a)"
    have turn: "b' = sb_step b \<or> b' = sb_skip_contended b" by (simp add: b'_def)
    note moved = lap_at_turn [OF "1.prems" assms(2) turn, folded a'_def]
    have at: "sb_floor b = start + of_nat a" "a < n" "n \<le> s \<longrightarrow> sb_position b = sb_floor b"
      using "1.prems" by (simp_all add: lap_at_def)
    have unfold: "scan_lap lost i b
        = sb_position b # (if sb_exhausted b' then [] else scan_lap lost (Suc i) b')"
      by (subst scan_lap.simps) (simp add: b'_def Let_def)
    show ?case
    proof (cases "sb_exhausted b'")
      case True
      then have "a' = n" using moved(1) by simp
      then have "Suc a = n" "sb_position b = sb_floor b" using at(2) by (auto simp: a'_def split: if_splits)
      then have "k = a" if "a \<le> k" "k < n" for k using that by simp
      then show ?thesis using True unfold at \<open>sb_position b = sb_floor b\<close> by auto
    next
      case False
      have "length (scan_lap lost (Suc i) b') \<le> (n - a') + (n - Suc s)
          \<and> (\<forall>k. a' \<le> k \<and> k < n \<longrightarrow> start + of_nat k \<in> set (scan_lap lost (Suc i) b'))"
        using "1.IH" [OF b'_def] False moved(2) by blast
      moreover have "start + of_nat k = sb_position b" if "a \<le> k" "\<not> a' \<le> k" for k
        using that at(1) by (cases "k = a") (auto simp: a'_def split: if_splits)
      ultimately show ?thesis
        using False unfold at(2,3) by (cases "sb_position b = sb_floor b") (auto simp: a'_def)
    qed
  qed
  then show "length (scan_lap lost i b) \<le> (n - a) + (n - s)"
    "a \<le> k \<Longrightarrow> k < n \<Longrightarrow> start + of_nat k \<in> set (scan_lap lost i b)" by blast+
qed

text \<open>
  C38. A consumer's scan of the ring ends and misses nothing: whichever of its claims are
  lost to other consumers, and wherever that makes it jump, a lap ends after at most
  twice the capacity of examinations, and every position of the lap has been examined.
\<close>

theorem scan_lap_ends_and_covers:
  assumes "0 < n" and "unat start + 2 * unat n < 2 ^ 64"
  shows "length (scan_lap lost 0 (sb_new start n skip)) \<le> 2 * unat n
    \<and> (\<forall>k < unat n. start + of_nat k \<in> set (scan_lap lost 0 (sb_new start n skip)))"
proof -
  have "lap_at start (unat n) 0 0 (sb_new start n skip)"
    using assms(1) by (auto simp: lap_at_def sb_new_def word_less_nat_alt unat_eq_0)
  from scan_lap_from [OF this assms(2), where lost = lost and i = 0] show ?thesis by simp
qed

theorem scan_lap_ends_and_covers_witness:
  "length (scan_lap odd 0 (sb_new 5 16 128)) \<le> 32
    \<and> (\<lambda>k. 5 + of_nat k) ` {..<16} \<subseteq> set (scan_lap odd 0 (sb_new 5 16 128))"
  using scan_lap_ends_and_covers [of 16 5 odd 128] by auto

end
