(* ===== verification/Mpmc.thy ===== *)
theory Mpmc
  imports Mpmc_Parts Slot_Sequence Wake_Set Backoff
begin

text \<open>
  \<open>src/mpmc\<close>: the ring with many producers and many consumers and no order between them. A
  producer reserves a batch of positions by adding to the claim cursor and writes into
  whichever of them its slot's done word frees first; a consumer walks the ready words
  from a private cursor and takes the first published slot it wins. \<open>q_unparked\<close> and
  \<open>q_dropped\<close> log the threads unparked and the values destroyed.
\<close>

section \<open>The ring and its handles\<close>

record 'a mpmc_ring =
  q_data :: "'a maybe_uninit list"
  q_ready :: "ready_word list"
  q_done :: "mpmc_done list"
  q_capacity :: capacity
  q_claim :: usize
  q_consumed :: watermark
  q_producer_count :: endpoint_count
  q_consumer_count :: endpoint_count
  q_consumer_closed :: close_state
  q_clone_counter :: usize
  q_closed :: close_state
  q_producer_park :: wake_set
  q_awaited :: "awaited_batch list"
  q_consumer_park :: wake_set
  q_producer_slots :: park_registry
  q_consumer_slots :: park_registry
  q_config :: mpmc_config
  q_unparked :: "thread_id list"
  q_dropped :: "'a list"

record mpmc_producer =
  qp_batch_start :: usize
  qp_batch_unused :: u32
  qp_batch_size :: u32
  qp_park_slot :: park_slot

record mpmc_consumer =
  qc_next_scan :: usize
  qc_pending :: tally
  qc_park_slot :: park_slot

text \<open>The bounds of the tunables are checked by the compiler, before any ring exists.\<close>

definition mpmc_new :: "mpmc_config \<Rightarrow> capacity \<Rightarrow> 'a mpmc_ring exec" where
  "mpmc_new g c =
     (if \<not> config_valid g \<or> \<not> capacity_get c \<ge> 4 then Inl Assertion_Failed
      else
        seq_exec (aligned_buf_new_with (capacity_get c) (\<lambda>_. None)) (\<lambda>cells.
        seq_exec (aligned_buf_new_with (capacity_get c) rw_free_at) (\<lambda>readys.
        seq_exec (aligned_buf_new_with (capacity_get c) md_released_for) (\<lambda>dones.
        seq_exec (aligned_buf_new_with (of_nat PARK_SLOTS) (\<lambda>_. ab_new)) (\<lambda>waits.
          Inr \<lparr>q_data = cells, q_ready = readys, q_done = dones, q_capacity = c, q_claim = 0,
               q_consumed = watermark_new, q_producer_count = endpoint_count_new,
               q_consumer_count = endpoint_count_new, q_consumer_closed = close_state_new,
               q_clone_counter = 0, q_closed = close_state_new, q_producer_park = wake_set_new,
               q_awaited = waits, q_consumer_park = wake_set_new, q_producer_slots = registry_new,
               q_consumer_slots = registry_new, q_config = g, q_unparked = [], q_dropped = []\<rparr>)))))"

definition mpmc_producer_new :: "'a mpmc_ring \<Rightarrow> mpmc_producer \<times> 'a mpmc_ring" where
  "mpmc_producer_new r =
     (case registry_lease (q_producer_slots r) of
        (slot, reg) \<Rightarrow>
          (\<lparr>qp_batch_start = 0, qp_batch_unused = 0, qp_batch_size = 0, qp_park_slot = slot\<rparr>,
           r\<lparr>q_producer_slots := reg\<rparr>))"

definition mpmc_consumer_new :: "'a mpmc_ring \<Rightarrow> mpmc_consumer \<times> 'a mpmc_ring" where
  "mpmc_consumer_new r =
     (case registry_lease (q_consumer_slots r) of
        (slot, reg) \<Rightarrow>
          (\<lparr>qc_next_scan = 0, qc_pending = tally_new, qc_park_slot = slot\<rparr>, r\<lparr>q_consumer_slots := reg\<rparr>))"

definition mpmc_split :: "'a mpmc_ring \<Rightarrow> mpmc_producer \<times> mpmc_consumer \<times> 'a mpmc_ring" where
  "mpmc_split r =
     (case mpmc_producer_new r of (p, r1) \<Rightarrow>
      case mpmc_consumer_new r1 of (c, r2) \<Rightarrow> (p, c, r2))"

definition mpmc_producer_clone :: "'a mpmc_ring \<Rightarrow> mpmc_producer \<times> 'a mpmc_ring" where
  "mpmc_producer_clone r =
     (let r1 = r\<lparr>q_producer_count := endpoint_register (q_producer_count r)\<rparr> in
      case registry_lease (q_producer_slots r1) of
        (slot, reg) \<Rightarrow>
          (\<lparr>qp_batch_start = 0, qp_batch_unused = 0, qp_batch_size = 0, qp_park_slot = slot\<rparr>,
           r1\<lparr>q_producer_slots := reg\<rparr>))"

definition mpmc_consumer_clone :: "'a mpmc_ring \<Rightarrow> mpmc_consumer \<times> 'a mpmc_ring" where
  "mpmc_consumer_clone r =
     (let n = q_clone_counter r + 1;
          r1 = r\<lparr>q_clone_counter := q_clone_counter r + 1\<rparr>;
          stagger = index_of (q_capacity r1) (n * max (capacity_get (q_capacity r1) div 8) 1);
          r2 = r1\<lparr>q_consumer_count := endpoint_register (q_consumer_count r1)\<rparr>
      in case registry_lease (q_consumer_slots r2) of
           (slot, reg) \<Rightarrow>
             (\<lparr>qc_next_scan = stagger, qc_pending = tally_new, qc_park_slot = slot\<rparr>,
              r2\<lparr>q_consumer_slots := reg\<rparr>))"

section \<open>Waking\<close>

text \<open>
  A release of \<open>pos\<close> is routed by what the parked producers announced. Without the async
  feature \<open>notify_producers\<close> and \<open>notify_consumers\<close> do nothing.
\<close>

definition mpmc_wake_producer_for :: "usize \<Rightarrow> 'a mpmc_ring \<Rightarrow> 'a mpmc_ring" where
  "mpmc_wake_producer_for pos r =
     (case ws_wake_one_interested (\<lambda>slot. ab_interest (q_awaited r ! slot) pos) (q_producer_park r) of
        (us, w) \<Rightarrow> r\<lparr>q_producer_park := w, q_unparked := q_unparked r @ us\<rparr>)"

definition mpmc_wake_consumer :: "'a mpmc_ring \<Rightarrow> 'a mpmc_ring" where
  "mpmc_wake_consumer r =
     (case ws_wake_one (q_consumer_park r) of
        (us, w) \<Rightarrow> r\<lparr>q_consumer_park := w, q_unparked := q_unparked r @ us\<rparr>)"

definition mpmc_flush_producers :: "'a mpmc_ring \<Rightarrow> 'a mpmc_ring" where
  "mpmc_flush_producers r =
     (case ws_flush (q_producer_park r) of
        (us, w) \<Rightarrow> r\<lparr>q_producer_park := w, q_unparked := q_unparked r @ us\<rparr>)"

definition mpmc_flush_consumers :: "'a mpmc_ring \<Rightarrow> 'a mpmc_ring" where
  "mpmc_flush_consumers r =
     (case ws_flush (q_consumer_park r) of
        (us, w) \<Rightarrow> r\<lparr>q_consumer_park := w, q_unparked := q_unparked r @ us\<rparr>)"

section \<open>The words of a slot\<close>

definition mpmc_slot :: "'a mpmc_ring \<Rightarrow> usize \<Rightarrow> nat" where
  "mpmc_slot r pos = unat (index_of (q_capacity r) pos)"

definition mpmc_load_ready :: "usize \<Rightarrow> 'a mpmc_ring \<Rightarrow> ready_word exec" where
  "mpmc_load_ready pos r =
     (if mpmc_slot r pos < length (q_ready r) then Inr (q_ready r ! mpmc_slot r pos)
      else Inl Index_Out_Of_Bounds)"

definition mpmc_ready_state :: "usize \<Rightarrow> 'a mpmc_ring \<Rightarrow> ready_state exec" where
  "mpmc_ready_state pos r =
     seq_exec (mpmc_load_ready pos r) (\<lambda>w.
       Inr (rw_decode w (index_of (q_capacity r) pos) (q_capacity r)))"

definition mpmc_store_ready :: "usize \<Rightarrow> ready_word \<Rightarrow> 'a mpmc_ring \<Rightarrow> 'a mpmc_ring exec" where
  "mpmc_store_ready pos w r =
     seq_exec (mpmc_load_ready pos r) (\<lambda>_. Inr (r\<lparr>q_ready := (q_ready r)[mpmc_slot r pos := w]\<rparr>))"

definition mpmc_is_free_for :: "usize \<Rightarrow> 'a mpmc_ring \<Rightarrow> bool exec" where
  "mpmc_is_free_for pos r =
     (if mpmc_slot r pos < length (q_done r) then Inr (md_is_free_for (q_done r ! mpmc_slot r pos) pos)
      else Inl Index_Out_Of_Bounds)"

text \<open>The done word of the slot of \<open>pos\<close> is released for the round after \<open>rp\<close>.\<close>

definition mpmc_release_done :: "usize \<Rightarrow> usize \<Rightarrow> 'a mpmc_ring \<Rightarrow> 'a mpmc_ring exec" where
  "mpmc_release_done pos rp r =
     seq_exec (mpmc_is_free_for pos r) (\<lambda>_.
       Inr (r\<lparr>q_done := (q_done r)[mpmc_slot r pos := md_release rp (q_capacity r)]\<rparr>))"

definition mpmc_take_data :: "usize \<Rightarrow> 'a mpmc_ring \<Rightarrow> ('a \<times> 'a mpmc_ring) exec" where
  "mpmc_take_data pos r =
     seq_exec (cell_take (q_data r) (mpmc_slot r pos)) (\<lambda>(v, cells). Inr (v, r\<lparr>q_data := cells\<rparr>))"

section \<open>Reserving positions\<close>

definition mpmc_refill_batch ::
    "'a mpmc_ring meddling \<Rightarrow> mpmc_producer \<Rightarrow> 'a mpmc_ring
      \<Rightarrow> ((usize \<times> u32) option \<times> mpmc_producer \<times> 'a mpmc_ring \<times> 'a mpmc_ring meddling) exec" where
  "mpmc_refill_batch fs p r =
     (let claim = q_claim r in
      case meddle fs r of (r1, fs1) \<Rightarrow>
      seq_exec
        (case watermark_free (q_consumed r1) claim (capacity_get (q_capacity r1)) of
           Some free \<Rightarrow> Inr (Some free, r1, fs1)
         | None \<Rightarrow>
             (case meddle fs1 r1 of (r2, fs2) \<Rightarrow>
              seq_exec (mpmc_is_free_for claim r2) (\<lambda>yes.
                Inr (if yes then Some 1 else None, r2, fs2)))) (\<lambda>(found, r2, fs2).
      case found of
        None \<Rightarrow> Inr (None, p, r2, fs2)
      | Some free \<Rightarrow>
          (case meddle fs2 r2 of (r3, fs3) \<Rightarrow>
           let batch = min (producer_batch (q_config r3)) free;
               start = q_claim r3;
               r4 = r3\<lparr>q_claim := start + batch\<rparr>;
               unused = (if batch \<ge> 32 then - 1 else push_bit (unat (ucast batch :: u32)) 1 - 1)
           in Inr (Some (start, unused),
                   p\<lparr>qp_batch_start := start, qp_batch_unused := unused, qp_batch_size := ucast batch\<rparr>,
                   r4, fs3))))"

definition PRIMARY_SHORT_SPIN :: nat where "PRIMARY_SHORT_SPIN = 4"

fun mpmc_spin_primary ::
    "nat \<Rightarrow> 'a mpmc_ring meddling \<Rightarrow> usize \<Rightarrow> 'a mpmc_ring
      \<Rightarrow> (bool \<times> 'a mpmc_ring \<times> 'a mpmc_ring meddling) exec" where
  "mpmc_spin_primary 0 fs pos r = Inr (False, r, fs)"
| "mpmc_spin_primary (Suc n) fs pos r =
     (case meddle fs r of (r1, fs1) \<Rightarrow>
      seq_exec (mpmc_is_free_for pos r1) (\<lambda>yes.
        if yes then Inr (True, r1, fs1) else mpmc_spin_primary n fs1 pos r1))"

lemma clear_lowest_bits:
  fixes w :: "'l::len word"
  assumes "w \<noteq> 0"
  shows "bit (w AND (w - 1)) i \<longleftrightarrow> bit w i \<and> i \<noteq> trailing_zeros w"
proof -
  let ?k = "trailing_zeros w"
  let ?v = "w AND NOT (push_bit ?k 1)"
  have k: "?k < LENGTH('l)" "bit w ?k" "\<forall>i < ?k. \<not> bit w i" using trailing_zeros_bit [OF assms] by simp_all
  have v: "w - push_bit ?k 1 = ?v"
    by (rule disjunctive_diff_eq_and_not, rule bit_word_eqI) (use k in \<open>auto simp: bit_simps\<close>)
  have "w - 1 = (w - push_bit ?k 1) + (push_bit ?k 1 - 1)" by simp
  also have "\<dots> = ?v + (push_bit ?k 1 - 1)" by (simp only: v)
  also have "\<dots> = ?v + Bit_Operations.mask ?k" by (simp add: mask_eq_exp_minus_1)
  also have "\<dots> = ?v OR Bit_Operations.mask ?k"
    by (rule disjunctive_add_eq_or, rule bit_word_eqI) (use k in \<open>auto simp: bit_simps\<close>)
  finally have "w - 1 = ?v OR Bit_Operations.mask ?k" .
  then show ?thesis
    using k by (auto simp: bit_simps nat_neq_iff dest: bit_imp_le_length)
qed

definition set_bits_of :: "'l::len word \<Rightarrow> nat list" where
  "set_bits_of w = filter (bit w) [0..<LENGTH('l)]"

lemma set_bits_of_Cons:
  fixes w :: "'l::len word"
  assumes "w \<noteq> 0"
  shows "set_bits_of w = trailing_zeros w # set_bits_of (w AND (w - 1))"
proof -
  let ?k = "trailing_zeros w"
  have k: "?k < LENGTH('l)" "bit w ?k" "\<forall>i < ?k. \<not> bit w i" using trailing_zeros_bit [OF assms] by simp_all
  have split: "[0..<LENGTH('l)] = [0..<?k] @ ?k # [Suc ?k..<LENGTH('l)]"
    using k(1) upt_add_eq_append [of 0 ?k "LENGTH('l) - ?k"] by (simp add: upt_conv_Cons del: upt_Suc)
  have "filter (bit w) [0..<?k] = []" using k(3) by (simp add: filter_empty_conv)
  moreover have "filter (bit (w AND (w - 1))) [0..<?k] = []"
    using k(3) by (simp add: filter_empty_conv clear_lowest_bits [OF assms])
  moreover have "filter (bit (w AND (w - 1))) [Suc ?k..<LENGTH('l)] = filter (bit w) [Suc ?k..<LENGTH('l)]"
    by (rule filter_cong) (auto simp: clear_lowest_bits [OF assms])
  ultimately show ?thesis
    using k(2) by (simp add: set_bits_of_def split clear_lowest_bits [OF assms])
qed

lemma length_set_bits_of_less:
  "w \<noteq> 0 \<Longrightarrow> length (set_bits_of (w AND (w - 1))) < length (set_bits_of w)"
  by (simp add: set_bits_of_Cons)

function mpmc_scan_unused ::
    "'a mpmc_ring meddling \<Rightarrow> usize \<Rightarrow> u32 \<Rightarrow> 'a mpmc_ring
      \<Rightarrow> ((nat \<times> usize) option \<times> 'a mpmc_ring \<times> 'a mpmc_ring meddling) exec" where
  "mpmc_scan_unused fs start bits r =
     (if bits = 0 then Inr (None, r, fs)
      else
        let b = trailing_zeros bits; p = start + of_nat b in
        case meddle fs r of (r1, fs1) \<Rightarrow>
        seq_exec (mpmc_is_free_for p r1) (\<lambda>yes.
          if yes then Inr (Some (b, p), r1, fs1)
          else mpmc_scan_unused fs1 start (bits AND (bits - 1)) r1))"
  by pat_completeness auto
termination
  by (relation "measure (\<lambda>(_, _, bits, _). length (set_bits_of bits))") (auto simp: length_set_bits_of_less)

declare mpmc_scan_unused.simps [simp del]

definition mpmc_acquire_slot ::
    "'a mpmc_ring meddling \<Rightarrow> mpmc_producer \<Rightarrow> 'a mpmc_ring
      \<Rightarrow> ((nat \<times> usize) option \<times> mpmc_producer \<times> 'a mpmc_ring) exec" where
  "mpmc_acquire_slot fs p r =
     seq_exec
       (if qp_batch_unused p = 0 then mpmc_refill_batch fs p r
        else Inr (Some (qp_batch_start p, qp_batch_unused p), p, r, fs)) (\<lambda>(batch, p1, r1, fs1).
     case batch of
       None \<Rightarrow> Inr (None, p1, r1)
     | Some (start, unused) \<Rightarrow>
         let primary_bit = trailing_zeros unused;
             primary_pos = start + of_nat primary_bit
         in seq_exec (mpmc_spin_primary PRIMARY_SHORT_SPIN fs1 primary_pos r1) (\<lambda>(found_ready, r2, fs2).
            seq_exec
              (if found_ready then Inr (Some (primary_bit, primary_pos), r2)
               else seq_exec (mpmc_scan_unused fs2 start (unused AND NOT (push_bit primary_bit 1)) r2)
                      (\<lambda>(found, r3, _). Inr (found, r3))) (\<lambda>(found, r3).
            case found of
              None \<Rightarrow> Inr (None, p1, r3)
            | Some (b, pos) \<Rightarrow>
                Inr (Some (b, pos), p1\<lparr>qp_batch_unused := unused AND NOT (push_bit b 1)\<rparr>, r3))))"

definition mpmc_has_free_slot :: "mpmc_producer \<Rightarrow> 'a mpmc_ring \<Rightarrow> bool exec" where
  "mpmc_has_free_slot p r =
     (let unused = qp_batch_unused p in
      if unused \<noteq> 0 then
        seq_exec (mpmc_scan_unused [] (qp_batch_start p) unused r) (\<lambda>(found, _, _). Inr (found \<noteq> None))
      else
        let claim = q_claim r in
        if watermark_free (q_consumed r) claim (capacity_get (q_capacity r)) \<noteq> None then Inr True
        else mpmc_is_free_for claim r)"

section \<open>Announcing\<close>

definition mpmc_announce_awaited :: "mpmc_producer \<Rightarrow> 'a mpmc_ring \<Rightarrow> 'a mpmc_ring" where
  "mpmc_announce_awaited p r =
     (case park_slot_index (qp_park_slot p) of
        None \<Rightarrow> r
      | Some i \<Rightarrow> r\<lparr>q_awaited := (q_awaited r)[i := ab_announce (qp_batch_start p) (qp_batch_unused p)]\<rparr>)"

definition mpmc_retract_awaited :: "mpmc_producer \<Rightarrow> 'a mpmc_ring \<Rightarrow> 'a mpmc_ring" where
  "mpmc_retract_awaited p r =
     (case park_slot_index (qp_park_slot p) of
        None \<Rightarrow> r
      | Some i \<Rightarrow> r\<lparr>q_awaited := (q_awaited r)[i := ab_retract]\<rparr>)"

section \<open>Giving values\<close>

definition mpmc_publish :: "usize \<Rightarrow> 'a mpmc_ring \<Rightarrow> 'a mpmc_ring exec" where
  "mpmc_publish pos r =
     seq_exec (mpmc_store_ready pos (rw_publish pos) r) (\<lambda>r1. Inr (mpmc_wake_consumer r1))"

definition mpmc_push ::
    "'a mpmc_ring meddling \<Rightarrow> 'a \<Rightarrow> mpmc_producer \<Rightarrow> 'a mpmc_ring
      \<Rightarrow> ('a push_result \<times> mpmc_producer \<times> 'a mpmc_ring) exec" where
  "mpmc_push fs v p r =
     seq_exec (mpmc_acquire_slot fs p r) (\<lambda>(got, p1, r1).
     case got of
       None \<Rightarrow> Inr (Push_Err v, p1, r1)
     | Some (_, pos) \<Rightarrow>
         seq_exec (cell_write (q_data r1) (mpmc_slot r1 pos) v) (\<lambda>cells.
         seq_exec (mpmc_publish pos (r1\<lparr>q_data := cells\<rparr>)) (\<lambda>r2. Inr (Push_Ok, p1, r2))))"

record mpmc_slot_writer =
  qw_pos :: usize
  qw_bit :: nat

record mpmc_written_slot =
  qv_value :: uncommitted_slot
  qv_pos :: usize
  qv_bit :: nat

definition mpmc_reserve ::
    "'a mpmc_ring meddling \<Rightarrow> mpmc_producer \<Rightarrow> 'a mpmc_ring
      \<Rightarrow> (mpmc_slot_writer option \<times> mpmc_producer \<times> 'a mpmc_ring) exec" where
  "mpmc_reserve fs p r =
     seq_exec (mpmc_acquire_slot fs p r) (\<lambda>(got, p1, r1).
       Inr (map_option (\<lambda>(b, pos). \<lparr>qw_pos = pos, qw_bit = b\<rparr>) got, p1, r1))"

definition mpmc_slot_mut_write :: "mpmc_slot_writer \<Rightarrow> 'a \<Rightarrow> 'a mpmc_ring \<Rightarrow> 'a mpmc_ring exec" where
  "mpmc_slot_mut_write w v r =
     seq_exec (cell_write (q_data r) (mpmc_slot r (qw_pos w)) v) (\<lambda>cells. Inr (r\<lparr>q_data := cells\<rparr>))"

definition mpmc_write ::
    "mpmc_slot_writer \<Rightarrow> 'a \<Rightarrow> 'a mpmc_ring \<Rightarrow> (mpmc_written_slot \<times> 'a mpmc_ring) exec" where
  "mpmc_write w v r =
     seq_exec (cell_write (q_data r) (mpmc_slot r (qw_pos w)) v) (\<lambda>cells.
       Inr (\<lparr>qv_value = uncommitted_armed (mpmc_slot r (qw_pos w)), qv_pos = qw_pos w, qv_bit = qw_bit w\<rparr>,
            r\<lparr>q_data := cells\<rparr>))"

definition mpmc_commit_unchecked :: "mpmc_slot_writer \<Rightarrow> 'a mpmc_ring \<Rightarrow> 'a mpmc_ring exec" where
  "mpmc_commit_unchecked w r = mpmc_publish (qw_pos w) r"

definition mpmc_slot_writer_drop :: "mpmc_slot_writer \<Rightarrow> mpmc_producer \<Rightarrow> mpmc_producer" where
  "mpmc_slot_writer_drop w p = p\<lparr>qp_batch_unused := qp_batch_unused p OR push_bit (qw_bit w) 1\<rparr>"

text \<open>\<open>ReservationReturn\<close>: the bit goes back after the value's destructor, which may panic.\<close>

definition mpmc_reservation_return :: "nat \<Rightarrow> mpmc_producer \<Rightarrow> mpmc_producer" where
  "mpmc_reservation_return b p = p\<lparr>qp_batch_unused := qp_batch_unused p OR push_bit b 1\<rparr>"

definition mpmc_written_slot_drop ::
    "('a \<Rightarrow> completion) \<Rightarrow> mpmc_written_slot \<Rightarrow> mpmc_producer \<Rightarrow> 'a mpmc_ring
      \<Rightarrow> (completion \<times> mpmc_producer \<times> 'a mpmc_ring) exec" where
  "mpmc_written_slot_drop dtor w p r =
     (if \<not> uncommitted_is_armed (qv_value w) then Inr (Returned, p, r)
      else
        seq_exec (drop_if_uncommitted (qv_value w) (q_data r)) (\<lambda>(_, gone, _, cells).
          Inr (if \<exists>v \<in> set gone. dtor v = Panicked then Panicked else Returned,
               mpmc_reservation_return (qv_bit w) p,
               r\<lparr>q_data := cells, q_dropped := q_dropped r @ gone\<rparr>)))"

definition mpmc_commit ::
    "('a \<Rightarrow> completion) \<Rightarrow> mpmc_written_slot \<Rightarrow> mpmc_producer \<Rightarrow> 'a mpmc_ring
      \<Rightarrow> (completion \<times> mpmc_producer \<times> 'a mpmc_ring) exec" where
  "mpmc_commit dtor w p r =
     (let w1 = w\<lparr>qv_value := uncommitted_commit (qv_value w)\<rparr> in
      seq_exec (mpmc_publish (qv_pos w) r) (\<lambda>r1. mpmc_written_slot_drop dtor w1 p r1))"

section \<open>Leaving with positions in hand\<close>

text \<open>
  A departing producer abandons what it reserved and never wrote: it waits until each
  slot's done word has come round to the position, or until the consumers are gone.
  One function of the peers falls into each lap of the wait; when there are none left
  the call is still waiting.
\<close>

datatype wait_end = Freed | Gave_Up | Still_Waiting

fun mpmc_await_done ::
    "'a mpmc_ring meddling \<Rightarrow> usize \<Rightarrow> 'a mpmc_ring
      \<Rightarrow> (wait_end \<times> 'a mpmc_ring \<times> 'a mpmc_ring meddling) exec" where
  "mpmc_await_done [] pos r =
     seq_exec (mpmc_is_free_for pos r) (\<lambda>yes.
       if yes then Inr (Freed, r, [])
       else if is_closed_for_parking (q_consumer_closed r) then Inr (Gave_Up, r, [])
       else Inr (Still_Waiting, mpmc_wake_consumer r, []))"
| "mpmc_await_done (f # fs) pos r =
     seq_exec (mpmc_is_free_for pos r) (\<lambda>yes.
       if yes then Inr (Freed, r, f # fs)
       else if is_closed_for_parking (q_consumer_closed r) then Inr (Gave_Up, r, f # fs)
       else mpmc_await_done fs pos (f (mpmc_wake_consumer r)))"

text \<open>\<open>None\<close>: the call has not come back when the schedule ends.\<close>

definition mpmc_abandon_release ::
    "'a mpmc_ring meddling \<Rightarrow> usize \<Rightarrow> 'a mpmc_ring
      \<Rightarrow> ('a mpmc_ring \<times> 'a mpmc_ring meddling) option exec" where
  "mpmc_abandon_release fs pos r =
     seq_exec (mpmc_await_done fs pos r) (\<lambda>(fin, r1, fs1).
     case fin of
       Still_Waiting \<Rightarrow> Inr None
     | Gave_Up \<Rightarrow> Inr (Some (r1, fs1))
     | Freed \<Rightarrow>
         seq_exec (mpmc_store_ready pos (rw_abandon pos) r1) (\<lambda>r2.
         seq_exec (mpmc_release_done pos pos r2) (\<lambda>r3.
           Inr (Some (mpmc_wake_producer_for (pos + capacity_get (q_capacity r3)) r3, fs1)))))"

function mpmc_release_all ::
    "'a mpmc_ring meddling \<Rightarrow> usize \<Rightarrow> u32 \<Rightarrow> 'a mpmc_ring \<Rightarrow> 'a mpmc_ring option exec" where
  "mpmc_release_all fs start bits r =
     (if bits = 0 then Inr (Some r)
      else
        seq_exec (mpmc_abandon_release fs (start + of_nat (trailing_zeros bits)) r) (\<lambda>res.
        case res of
          None \<Rightarrow> Inr None
        | Some (r1, fs1) \<Rightarrow> mpmc_release_all fs1 start (bits AND (bits - 1)) r1))"
  by pat_completeness auto
termination
  by (relation "measure (\<lambda>(_, _, bits, _). length (set_bits_of bits))") (auto simp: length_set_bits_of_less)

declare mpmc_release_all.simps [simp del]

definition mpmc_producer_drop ::
    "'a mpmc_ring meddling \<Rightarrow> mpmc_producer \<Rightarrow> 'a mpmc_ring \<Rightarrow> 'a mpmc_ring option exec" where
  "mpmc_producer_drop fs p r =
     seq_exec (mpmc_release_all fs (qp_batch_start p) (qp_batch_unused p) r) (\<lambda>res.
     case res of
       None \<Rightarrow> Inr None
     | Some r1 \<Rightarrow>
         let r2 = mpmc_retract_awaited p r1;
             r3 = r2\<lparr>q_producer_slots := registry_release (qp_park_slot p) (q_producer_slots r2)\<rparr>
         in case endpoint_release (q_producer_count r3) of
              (was_last, count) \<Rightarrow>
                let r4 = r3\<lparr>q_producer_count := count\<rparr> in
                Inr (Some
                  (if was_last
                   then mpmc_flush_consumers (mpmc_flush_producers (r4\<lparr>q_closed := close_side (q_closed r4)\<rparr>))
                   else r4)))"

section \<open>Claiming a published slot\<close>

function mpmc_scan ::
    "'a mpmc_ring meddling \<Rightarrow> scan_budget \<Rightarrow> 'a mpmc_ring
      \<Rightarrow> ((usize \<times> usize) option \<times> scan_budget \<times> 'a mpmc_ring) exec" where
  "mpmc_scan fs b r =
     (let scan = sb_position b in
      case meddle fs r of (r1, fs1) \<Rightarrow>
      seq_exec (mpmc_ready_state scan r1) (\<lambda>st.
        if rs_is_published st then
          (case meddle fs1 r1 of (r2, fs2) \<Rightarrow>
           seq_exec (mpmc_load_ready scan r2) (\<lambda>w.
           case rw_claim w (round_pos st) of
             (True, w1) \<Rightarrow>
               seq_exec (mpmc_store_ready scan w1 r2) (\<lambda>r3. Inr (Some (scan, round_pos st), b, r3))
           | (False, _) \<Rightarrow>
               let b1 = sb_skip_contended b in
               if sb_exhausted b1 then Inr (None, b1, r2) else mpmc_scan fs2 b1 r2))
        else
          let b1 = sb_step b in
          if sb_exhausted b1 then Inr (None, b1, r1) else mpmc_scan fs1 b1 r1))"
  by pat_completeness auto
termination
  by (relation "measures [\<lambda>(_, b, _). lap_left b, \<lambda>(_, b, _). probes_left b]")
    (auto dest!: sb_turn [rotated] simp del: sb_exhausted_def)

declare mpmc_scan.simps [simp del]

definition mpmc_claim_slot ::
    "'a mpmc_ring meddling \<Rightarrow> mpmc_consumer \<Rightarrow> 'a mpmc_ring
      \<Rightarrow> ((usize \<times> usize) option \<times> mpmc_consumer \<times> 'a mpmc_ring) exec" where
  "mpmc_claim_slot fs c r =
     (let start_scan = qc_next_scan c;
          budget = sb_new start_scan (capacity_get (q_capacity r)) (cas_fail_skip (q_config r))
      in seq_exec (mpmc_scan fs budget r) (\<lambda>(won, b, r1).
         case won of
           None \<Rightarrow> Inr (None, c\<lparr>qc_next_scan := sb_position b\<rparr>, r1)
         | Some (scan, rp) \<Rightarrow>
             (case tally_record (consumed_flush (q_config r1)) (qc_pending c, q_consumed r1) of
                (t, m) \<Rightarrow>
                  Inr (Some (scan, rp),
                       c\<lparr>qc_next_scan := max (rp + 1) (start_scan + 1), qc_pending := t\<rparr>,
                       r1\<lparr>q_consumed := m\<rparr>))))"

text \<open>Whether any slot of a lap is published; no state is touched.\<close>

definition mpmc_has_item :: "mpmc_consumer \<Rightarrow> 'a mpmc_ring \<Rightarrow> bool exec" where
  "mpmc_has_item c r =
     foldr (\<lambda>offset rest.
       seq_exec (mpmc_ready_state (qc_next_scan c + of_nat offset) r) (\<lambda>st.
         if rs_is_published st then Inr True else rest))
       [0..<unat (capacity_get (q_capacity r))] (Inr False)"

section \<open>Taking values\<close>

definition mpmc_pop ::
    "'a mpmc_ring meddling \<Rightarrow> mpmc_consumer \<Rightarrow> 'a mpmc_ring
      \<Rightarrow> ('a option \<times> mpmc_consumer \<times> 'a mpmc_ring) exec" where
  "mpmc_pop fs c r =
     seq_exec (mpmc_claim_slot fs c r) (\<lambda>(claimed, c1, r1).
     case claimed of
       None \<Rightarrow> Inr (None, c1, r1)
     | Some (pos, rp) \<Rightarrow>
         seq_exec (mpmc_take_data pos r1) (\<lambda>(v, r2).
         seq_exec (mpmc_release_done pos rp r2) (\<lambda>r3.
           Inr (Some v, c1, mpmc_wake_producer_for (rp + capacity_get (q_capacity r3)) r3))))"

record mpmc_slot_reader =
  qr_pos :: usize
  qr_round_pos :: usize

definition mpmc_reader_for :: "usize \<times> usize \<Rightarrow> mpmc_slot_reader" where
  "mpmc_reader_for claimed = (case claimed of (pos, rp) \<Rightarrow> \<lparr>qr_pos = pos, qr_round_pos = rp\<rparr>)"

definition mpmc_pop_ref ::
    "'a mpmc_ring meddling \<Rightarrow> mpmc_consumer \<Rightarrow> 'a mpmc_ring
      \<Rightarrow> (mpmc_slot_reader option \<times> mpmc_consumer \<times> 'a mpmc_ring) exec" where
  "mpmc_pop_ref fs c r =
     seq_exec (mpmc_claim_slot fs c r) (\<lambda>(claimed, c1, r1).
       Inr (map_option mpmc_reader_for claimed, c1, r1))"

definition mpmc_reader_deref :: "mpmc_slot_reader \<Rightarrow> 'a mpmc_ring \<Rightarrow> 'a exec" where
  "mpmc_reader_deref rd r = cell_peek (q_data r) (mpmc_slot r (qr_pos rd))"

text \<open>\<open>SlotRelease\<close>, which runs on the unwind path of the destructor too.\<close>

definition mpmc_slot_release_drop :: "usize \<Rightarrow> usize \<Rightarrow> 'a mpmc_ring \<Rightarrow> 'a mpmc_ring exec" where
  "mpmc_slot_release_drop pos rp r =
     seq_exec (mpmc_release_done pos rp r) (\<lambda>r1.
       Inr (mpmc_wake_producer_for (rp + capacity_get (q_capacity r1)) r1))"

definition mpmc_reader_drop ::
    "('a \<Rightarrow> completion) \<Rightarrow> mpmc_slot_reader \<Rightarrow> 'a mpmc_ring \<Rightarrow> (completion \<times> 'a mpmc_ring) exec" where
  "mpmc_reader_drop dtor rd r =
     seq_exec (mpmc_take_data (qr_pos rd) r) (\<lambda>(v, r1).
     seq_exec (mpmc_slot_release_drop (qr_pos rd) (qr_round_pos rd)
       (r1\<lparr>q_dropped := q_dropped r1 @ [v]\<rparr>)) (\<lambda>r2. Inr (dtor v, r2)))"

section \<open>Draining\<close>

text \<open>
  Without peers a drain ends because every claim takes one published word away.
\<close>

definition published_words :: "'a mpmc_ring \<Rightarrow> nat set" where
  "published_words r =
     {i. i < length (q_ready r) \<and> rs_is_published (rw_decode (q_ready r ! i) (of_nat i) (q_capacity r))}"

lemma finite_published_words [simp]: "finite (published_words r)"
  by (rule finite_subset [of _ "{..<length (q_ready r)}"]) (auto simp: published_words_def)

lemma published_words_consumed [simp]: "published_words (r\<lparr>q_consumed := m\<rparr>) = published_words r"
  by (simp add: published_words_def)

lemma rw_decode_published:
  assumes "rs_is_published (rw_decode w i c)"
  shows "w = round_pos (rw_decode w i c) + PUBLISHED" and "\<not> rs_is_published (rw_decode (w + 1) i c)"
proof -
  have one: "(w - i) AND mask c = 1"
    using assms by (simp add: rw_decode_def rs_is_published_def capacity_wrap_def PUBLISHED_def Let_def split: if_splits)
  then show "w = round_pos (rw_decode w i c) + PUBLISHED"
    by (simp add: rw_decode_def capacity_wrap_def PUBLISHED_def Let_def)
  have "odd ((w - i) AND mask c)" by (simp add: one)
  then have "odd (w - i)" by (simp add: even_and_iff)
  then have "even ((w + 1 - i) AND mask c)" by (simp add: even_and_iff)
  then have "(w + 1 - i) AND mask c \<noteq> 1" by auto
  then show "\<not> rs_is_published (rw_decode (w + 1) i c)"
    by (simp add: rw_decode_def rs_is_published_def capacity_wrap_def PUBLISHED_def Let_def)
qed

text \<open>A scan nobody disturbs wins the first published slot it meets.\<close>

lemma scan_alone:
  "mpmc_scan [] b r =
     (let scan = sb_position b in
      seq_exec (mpmc_ready_state scan r) (\<lambda>st.
        if rs_is_published st then
          seq_exec (mpmc_store_ready scan (round_pos st + CLAIMED) r) (\<lambda>r3. Inr (Some (scan, round_pos st), b, r3))
        else
          let b1 = sb_step b in
          if sb_exhausted b1 then Inr (None, b1, r) else mpmc_scan [] b1 r))"
proof (cases "mpmc_load_ready (sb_position b) r")
  case (Inr w)
  then show ?thesis
    using rw_decode_published(1) [of w "index_of (q_capacity r) (sb_position b)" "q_capacity r"]
    by (subst mpmc_scan.simps) (simp add: mpmc_ready_state_def rw_claim_def Let_def)
qed (subst mpmc_scan.simps, simp add: mpmc_ready_state_def)

lemma scan_claims:
  assumes "mpmc_scan [] b r = Inr (Some (pos, rp), b1, r1)"
  shows "card (published_words r1) < card (published_words r)"
  using assms
proof (induction "[] :: 'a mpmc_ring meddling" b r rule: mpmc_scan.induct)
  case (1 b r)
  obtain w where w: "mpmc_load_ready (sb_position b) r = Inr w"
    using "1.prems" by (cases "mpmc_load_ready (sb_position b) r") (auto simp: scan_alone [of b] mpmc_ready_state_def Let_def)
  let ?i = "mpmc_slot r (sb_position b)"
  let ?st = "rw_decode w (index_of (q_capacity r) (sb_position b)) (q_capacity r)"
  have i: "?i < length (q_ready r)" "w = q_ready r ! ?i" "index_of (q_capacity r) (sb_position b) = of_nat ?i"
    using w by (auto simp: mpmc_load_ready_def mpmc_slot_def split: if_splits)
  show ?case
  proof (cases "rs_is_published ?st")
    case True
    have "round_pos ?st + CLAIMED = w + 1"
      using arg_cong [OF rw_decode_published(1) [OF True], of "\<lambda>x. x + 1"] by (simp add: PUBLISHED_def CLAIMED_def)
    then have r1: "r1 = r\<lparr>q_ready := (q_ready r)[?i := w + 1]\<rparr>"
      using "1.prems" True w by (auto simp: scan_alone [of b] mpmc_ready_state_def mpmc_store_ready_def Let_def)
    have "?i \<in> published_words r" using True i by (simp add: published_words_def)
    moreover have "published_words r1 \<subseteq> published_words r - {?i}"
      using rw_decode_published(2) [OF True] i by (auto simp: published_words_def r1 nth_list_update split: if_splits)
    ultimately show ?thesis by (intro psubset_card_mono) auto
  next
    case False
    then show ?thesis
      using "1.prems" "1.hyps" w
      by (auto simp: scan_alone [of b] mpmc_ready_state_def Let_def split: if_splits)
  qed
qed

lemma mpmc_claim_takes_one:
  assumes "mpmc_claim_slot [] c r = Inr (Some (pos, rp), c1, r1)"
  shows "card (published_words r1) < card (published_words r)"
proof -
  obtain b r2 m where "mpmc_scan [] (sb_new (qc_next_scan c) (capacity_get (q_capacity r)) (cas_fail_skip (q_config r))) r
      = Inr (Some (pos, rp), b, r2)" "r1 = r2\<lparr>q_consumed := m\<rparr>"
    using assms by (auto simp: mpmc_claim_slot_def seq_exec_eq_Inr Let_def case_prod_beta split: option.splits)
  then show ?thesis by (auto dest: scan_claims)
qed

lemma release_published_words:
  assumes "mpmc_take_data pos r1 = Inr (v, r2)" and "mpmc_release_done pos rp r2 = Inr r3"
  shows "published_words (mpmc_wake_producer_for p r3) = published_words r1"
  using assms
  by (auto simp: mpmc_take_data_def mpmc_release_done_def seq_exec_eq_Inr published_words_def
      mpmc_slot_def mpmc_wake_producer_for_def split: prod.splits)

text \<open>
  \<open>DrainWake\<close> wakes the producer of each released position at once; its count serves the
  async notification only.
\<close>

record mpmc_drain_wake =
  qd_released :: usize

definition mpmc_drain_wake_new :: mpmc_drain_wake where
  "mpmc_drain_wake_new = \<lparr>qd_released = 0\<rparr>"

definition mpmc_drain_wake_released ::
    "usize \<Rightarrow> mpmc_drain_wake \<Rightarrow> 'a mpmc_ring \<Rightarrow> mpmc_drain_wake \<times> 'a mpmc_ring" where
  "mpmc_drain_wake_released pos w r = (w\<lparr>qd_released := qd_released w + 1\<rparr>, mpmc_wake_producer_for pos r)"

function mpmc_drain_loop ::
    "('st \<Rightarrow> 'a \<Rightarrow> 'st \<times> completion) \<Rightarrow> usize option \<Rightarrow> mpmc_drain_wake \<Rightarrow> usize \<Rightarrow> 'st
      \<Rightarrow> mpmc_consumer \<Rightarrow> 'a mpmc_ring
      \<Rightarrow> (completion \<times> mpmc_drain_wake \<times> usize \<times> 'st \<times> mpmc_consumer \<times> 'a mpmc_ring) exec" where
  "mpmc_drain_loop f limit w count st c r =
     (if \<not> below_limit count limit then Inr (Returned, w, count, st, c, r)
      else
        seq_exec (mpmc_claim_slot [] c r) (\<lambda>(claimed, c1, r1).
        case claimed of
          None \<Rightarrow> Inr (Returned, w, count, st, c1, r1)
        | Some (pos, rp) \<Rightarrow>
            seq_exec (mpmc_take_data pos r1) (\<lambda>(v, r2).
            seq_exec (mpmc_release_done pos rp r2) (\<lambda>r3.
            case mpmc_drain_wake_released (rp + capacity_get (q_capacity r3)) w r3 of
              (w1, r4) \<Rightarrow>
                (case f st v of
                   (st1, Panicked) \<Rightarrow> Inr (Panicked, w1, count + 1, st1, c1, r4)
                 | (st1, Returned) \<Rightarrow> mpmc_drain_loop f limit w1 (count + 1) st1 c1 r4)))))"
  by pat_completeness auto
termination
  by (relation "measure (\<lambda>(_, _, _, _, _, _, r). card (published_words r))")
    (auto dest!: mpmc_claim_takes_one simp: mpmc_drain_wake_released_def release_published_words)

declare mpmc_drain_loop.simps [simp del]

definition mpmc_drain_up_to ::
    "usize option \<Rightarrow> ('st \<Rightarrow> 'a \<Rightarrow> 'st \<times> completion) \<Rightarrow> 'st \<Rightarrow> mpmc_consumer \<Rightarrow> 'a mpmc_ring
      \<Rightarrow> (completion \<times> usize \<times> 'st \<times> mpmc_consumer \<times> 'a mpmc_ring) exec" where
  "mpmc_drain_up_to limit f st c r =
     seq_exec (mpmc_drain_loop f limit mpmc_drain_wake_new 0 st c r)
       (\<lambda>(fin, _, count, st1, c1, r1). Inr (fin, count, st1, c1, r1))"

definition mpmc_drain ::
    "('st \<Rightarrow> 'a \<Rightarrow> 'st \<times> completion) \<Rightarrow> 'st \<Rightarrow> mpmc_consumer \<Rightarrow> 'a mpmc_ring
      \<Rightarrow> (completion \<times> usize \<times> 'st \<times> mpmc_consumer \<times> 'a mpmc_ring) exec" where
  "mpmc_drain f st c r = mpmc_drain_up_to None f st c r"

section \<open>What a consumer can ask\<close>

definition mpmc_approx_len :: "mpmc_consumer \<Rightarrow> 'a mpmc_ring \<Rightarrow> usize" where
  "mpmc_approx_len c r =
     min (q_claim r - qc_next_scan c) (capacity_get (q_capacity r))"

definition mpmc_is_closed :: "'a mpmc_ring \<Rightarrow> bool" where
  "mpmc_is_closed r \<longleftrightarrow> is_closed (q_closed r)"

definition mpmc_debug_snapshot :: "'a mpmc_ring \<Rightarrow> usize \<times> usize list \<times> usize list" where
  "mpmc_debug_snapshot r =
     (let n = unat (capacity_get (q_capacity r))
      in (q_claim r, map ((!) (q_ready r)) [0..<n], map ((!) (q_done r)) [0..<n]))"

definition mpmc_debug_park_snapshot :: "'a mpmc_ring \<Rightarrow> u64 \<times> u64" where
  "mpmc_debug_park_snapshot r = (wake (q_producer_park r), wake (q_consumer_park r))"

definition mpmc_parked_producer_count :: "'a mpmc_ring \<Rightarrow> nat" where
  "mpmc_parked_producer_count r = count_ones (wake (q_producer_park r))"

section \<open>Dropping a consumer and the ring\<close>

definition mpmc_consumer_drop :: "mpmc_consumer \<Rightarrow> 'a mpmc_ring \<Rightarrow> 'a mpmc_ring" where
  "mpmc_consumer_drop c r =
     (case tally_flush (qc_pending c, q_consumed r) of (_, m) \<Rightarrow>
        let r1 = r\<lparr>q_consumed := m\<rparr>;
            r2 = r1\<lparr>q_consumer_slots := registry_release (qc_park_slot c) (q_consumer_slots r1)\<rparr>
        in case endpoint_release (q_consumer_count r2) of
             (was_last, count) \<Rightarrow>
               let r3 = r2\<lparr>q_consumer_count := count\<rparr> in
               if was_last
               then mpmc_flush_producers (r3\<lparr>q_consumer_closed := close_side (q_consumer_closed r3)\<rparr>)
               else r3)"

text \<open>The values of the slots that hold one; a panicking destructor leaves the rest.\<close>

definition mpmc_holds_value :: "usize \<Rightarrow> 'a mpmc_ring \<Rightarrow> bool exec" where
  "mpmc_holds_value s r =
     seq_exec (mpmc_ready_state s r) (\<lambda>st.
       case st of
         Published _ \<Rightarrow> Inr True
       | Claimed rp \<Rightarrow> Inr (\<not> md_was_released_after (q_done r ! mpmc_slot r s) rp (q_capacity r))
       | Free _ \<Rightarrow> Inr False)"

fun mpmc_drop_slots ::
    "('a \<Rightarrow> completion) \<Rightarrow> usize list \<Rightarrow> 'a mpmc_ring \<Rightarrow> (completion \<times> 'a mpmc_ring) exec" where
  "mpmc_drop_slots dtor [] r = Inr (Returned, r)"
| "mpmc_drop_slots dtor (s # ss) r =
     seq_exec (mpmc_holds_value s r) (\<lambda>holds_value.
     if holds_value then
       seq_exec (mpmc_take_data s r) (\<lambda>(v, r1).
         let r2 = r1\<lparr>q_dropped := q_dropped r1 @ [v]\<rparr> in
         case dtor v of
           Panicked \<Rightarrow> Inr (Panicked, r2)
         | Returned \<Rightarrow> mpmc_drop_slots dtor ss r2)
     else mpmc_drop_slots dtor ss r)"

definition mpmc_ring_drop :: "('a \<Rightarrow> completion) \<Rightarrow> 'a mpmc_ring \<Rightarrow> (completion \<times> 'a mpmc_ring) exec" where
  "mpmc_ring_drop dtor r =
     mpmc_drop_slots dtor (map of_nat [0..<unat (capacity_get (q_capacity r))]) r"

end
