(* ===== verification/Mpmc_Correct.thy ===== *)
theory Mpmc_Correct
  imports Mpmc
begin

text \<open>
  The mpmc ring as the list of every position ever reserved: not written yet, on offer,
  borrowed by the consumer that claimed it, or settled, that is taken or given up. A slot
  serves its positions in turn: those before its done word are settled, those after it
  cannot be written yet.
\<close>

section \<open>Positions\<close>

datatype 'a pool_entry = Unwritten | Offered 'a | Borrowed 'a | Settled

definition entry_of :: "'a pool_entry list \<Rightarrow> nat \<Rightarrow> 'a pool_entry" where
  "entry_of es p = (if p < length es then es ! p else Unwritten)"

text \<open>The position may be written: the one a lap before it is settled.\<close>

definition open_at :: "nat \<Rightarrow> 'a pool_entry list \<Rightarrow> nat \<Rightarrow> bool" where
  "open_at n es p \<longleftrightarrow> p < n \<or> (p - n < length es \<and> es ! (p - n) = Settled)"

fun occupant_ok :: "nat \<Rightarrow> nat \<Rightarrow> 'a pool_entry \<Rightarrow> usize \<Rightarrow> 'a maybe_uninit \<Rightarrow> bool" where
  "occupant_ok n d Unwritten w x \<longleftrightarrow> w = (if d < n then of_nat d else of_nat (d - n) + CLAIMED)"
| "occupant_ok n d (Offered v) w x \<longleftrightarrow> w = of_nat d + PUBLISHED \<and> x = Some v"
| "occupant_ok n d (Borrowed v) w x \<longleftrightarrow> w = of_nat d + CLAIMED \<and> x = Some v"
| "occupant_ok n d Settled w x \<longleftrightarrow> False"

definition turn_ok :: "nat \<Rightarrow> 'a pool_entry list \<Rightarrow> nat \<Rightarrow> nat \<Rightarrow> bool" where
  "turn_ok n es s d \<longleftrightarrow>
     d mod n = s \<and> d < length es + n
     \<and> (\<forall>p < length es. p mod n = s \<longrightarrow> (p < d \<longrightarrow> es ! p = Settled) \<and> (d < p \<longrightarrow> es ! p = Unwritten))"

definition slot_serves ::
    "nat \<Rightarrow> 'a pool_entry list \<Rightarrow> nat \<Rightarrow> usize \<Rightarrow> usize \<Rightarrow> 'a maybe_uninit \<Rightarrow> bool" where
  "slot_serves n es s dw w x \<longleftrightarrow>
     turn_ok n es s (unat dw) \<and> occupant_ok n (unat dw) (entry_of es (unat dw)) w x"

definition mpmc_ring_ok :: "'a pool_entry list \<Rightarrow> 'a mpmc_ring \<Rightarrow> bool" where
  "mpmc_ring_ok es r \<longleftrightarrow>
     wf_capacity (q_capacity r) \<and> 4 \<le> slots (q_capacity r) \<and> config_valid (q_config r)
     \<and> length (q_data r) = slots (q_capacity r) \<and> length (q_ready r) = slots (q_capacity r)
     \<and> length (q_done r) = slots (q_capacity r)
     \<and> q_claim r = of_nat (length es) \<and> length es + 2 * slots (q_capacity r) < 2 ^ 64
     \<and> (\<forall>s < slots (q_capacity r).
          slot_serves (slots (q_capacity r)) es s (q_done r ! s) (q_ready r ! s) (q_data r ! s))"

section \<open>A slot's turn\<close>

lemma turn_cases:
  assumes "turn_ok n es s d" and "p < length es" "p mod n = s"
  shows "p < d \<Longrightarrow> es ! p = Settled" "d < p \<Longrightarrow> es ! p = Unwritten"
  using assms by (simp_all add: turn_ok_def)

lemma turn_of_held:
  assumes "slot_serves n es s dw w x" and "p < length es" "p mod n = s"
    and "es ! p \<noteq> Settled" "es ! p \<noteq> Unwritten"
  shows "unat dw = p"
  using assms turn_cases [of n es s "unat dw" p] by (cases "unat dw" p rule: linorder_cases) (auto simp: slot_serves_def)

text \<open>The done word names the next position that may be written.\<close>

lemma next_turn:
  fixes d p n :: nat
  assumes "d mod n = p mod n" and "p - n < d" and "d < p + n" "n \<le> p"
  shows "d = p"
proof (cases "d \<le> p")
  case True
  show ?thesis by (rule mod_eq_imp_eq_of_close [of d n p]) (use assms True in auto)
next
  case False
  have "p = d" by (rule mod_eq_imp_eq_of_close [of p n d]) (use assms False in auto)
  then show ?thesis by simp
qed

lemma done_word_open:
  assumes slot: "slot_serves n es s dw w x" and "0 < n"
    and p: "p \<le> length es" "p mod n = s" "entry_of es p = Unwritten"
  shows "unat dw = p \<longleftrightarrow> open_at n es p"
proof -
  let ?d = "unat dw"
  have d: "?d mod n = s" "?d < length es + n" and t: "turn_ok n es s ?d"
    and occ: "entry_of es ?d \<noteq> Settled"
    using slot by (auto simp: slot_serves_def turn_ok_def)
  have le: "?d < p + n"
  proof (cases "p < length es")
    case True
    then have "\<not> p < ?d" using turn_cases(1) [OF t True p(2)] p(3) by (auto simp: entry_of_def)
    then show ?thesis using assms(2) by linarith
  next
    case False
    then show ?thesis using p(1) d(2) by simp
  qed
  show ?thesis
  proof (cases "p < n")
    case True
    have "?d \<le> p"
    proof (rule ccontr)
      assume "\<not> ?d \<le> p"
      then have "p = ?d" using d(1) p(2) le by (intro mod_eq_imp_eq_of_close [of p n "?d"]) auto
      then show False using \<open>\<not> ?d \<le> p\<close> by simp
    qed
    moreover have "p = s" using True p(2) by simp
    ultimately have "?d = p" using d(1) by (metis True le_less_trans mod_less)
    then show ?thesis using True by (simp add: open_at_def)
  next
    case False
    have lap: "(p - n) mod n = s" using False p(2) by (simp add: mod_if [of p n])
    show ?thesis
    proof
      assume eq: "?d = p"
      have "p - n < length es" using p(1) False assms(2) by linarith
      then show "open_at n es p"
        using turn_cases(1) [OF t _ lap] eq assms(2) False by (simp add: open_at_def)
    next
      assume "open_at n es p"
      then have o: "p - n < length es" "es ! (p - n) = Settled" using False by (auto simp: open_at_def)
      have "?d \<noteq> p - n" using occ o by (auto simp: entry_of_def)
      moreover have "\<not> ?d < p - n" using turn_cases(2) [OF t o(1) lap] o(2) by auto
      ultimately have gt: "p - n < ?d" by linarith
      have "?d mod n = p mod n" by (simp only: d(1) p(2))
      then show "?d = p" using False by (intro next_turn [OF _ gt le]) simp_all
    qed
  qed
qed

section \<open>What an operation does to a slot\<close>

lemma turn_update:
  assumes "turn_ok n es s d" and "d < length es"
  shows "turn_ok n (es[d := e]) s d"
  using assms by (auto simp: turn_ok_def nth_list_update)

lemma slot_offer:
  assumes "slot_serves n es s dw w x" and "unat dw < length es"
  shows "slot_serves n (es[unat dw := Offered v]) s dw (dw + PUBLISHED) (Some v)"
  using assms turn_update by (auto simp: slot_serves_def entry_of_def)

lemma slot_borrow:
  assumes "slot_serves n es s dw w x" and "unat dw < length es" and "es ! unat dw = Offered v"
  shows "slot_serves n (es[unat dw := Borrowed v]) s dw (dw + CLAIMED) x"
  using assms turn_update by (auto simp: slot_serves_def entry_of_def)

lemma slot_settle:
  assumes slot: "slot_serves n es s dw w x" and lt: "unat dw < length es" and "0 < n"
    and room: "unat dw + n < 2 ^ 64"
  shows "slot_serves n (es[unat dw := Settled]) s (dw + of_nat n) (dw + CLAIMED) y"
proof -
  let ?d = "unat dw"
  have u: "unat (dw + of_nat n) = ?d + n" using room by (simp add: unat_add_of_nat)
  have t: "turn_ok n es s ?d" using slot by (simp add: slot_serves_def)
  have s: "?d mod n = s" using t by (simp add: turn_ok_def)
  have "turn_ok n (es[?d := Settled]) s (?d + n)"
    unfolding turn_ok_def
  proof (intro conjI allI impI)
    fix p assume p: "p < length (es[?d := Settled])" "p mod n = s"
    show "es[?d := Settled] ! p = Settled" if "p < ?d + n"
    proof (cases "p \<le> ?d")
      case True
      then show ?thesis using turn_cases(1) [OF t _ p(2)] p(1) by (cases "p = ?d") auto
    next
      case False
      have "?d = p" by (rule mod_eq_imp_eq_of_close [of "?d" n p]) (use False that s p(2) in auto)
      then show ?thesis using False by simp
    qed
    show "es[?d := Settled] ! p = Unwritten" if "?d + n < p"
      using that turn_cases(2) [OF t _ p(2)] p(1) by simp
  qed (use s lt in auto)
  moreover have "entry_of (es[?d := Settled]) (?d + n) = Unwritten"
    using turn_cases(2) [OF t, of "?d + n"] s assms(3) by (auto simp: entry_of_def)
  ultimately show ?thesis by (simp add: slot_serves_def u)
qed

lemma slot_grow:
  assumes "slot_serves n es s dw w x" and "0 < n"
  shows "slot_serves n (es @ replicate k Unwritten) s dw w x"
proof -
  have "turn_ok n (es @ replicate k Unwritten) s d" if t: "turn_ok n es s d" for d
    unfolding turn_ok_def
  proof (intro conjI allI impI)
    fix p assume p: "p < length (es @ replicate k Unwritten)" "p mod n = s"
    show "(es @ replicate k Unwritten) ! p = Settled" if "p < d"
    proof (cases "p < length es")
      case False
      have "p = d" by (rule mod_inj_window [of p n d "length es"]) (use False that t p(2) in \<open>auto simp: turn_ok_def\<close>)
      then show ?thesis using that by simp
    qed (use turn_cases(1) [OF t _ p(2)] that in \<open>simp add: nth_append\<close>)
    show "(es @ replicate k Unwritten) ! p = Unwritten" if "d < p"
      using turn_cases(2) [OF t _ p(2)] that p(1) by (auto simp: nth_append)
  qed (use t in \<open>auto simp: turn_ok_def\<close>)
  moreover have "entry_of (es @ replicate k Unwritten) p = entry_of es p" for p
    by (auto simp: entry_of_def nth_append)
  ultimately show ?thesis using assms by (simp add: slot_serves_def)
qed

section \<open>The ring as a whole\<close>

lemma mpmc_ring_okD:
  assumes "mpmc_ring_ok es r"
  shows "wf_capacity (q_capacity r)" "4 \<le> slots (q_capacity r)" "config_valid (q_config r)"
    "length (q_data r) = slots (q_capacity r)" "length (q_ready r) = slots (q_capacity r)"
    "length (q_done r) = slots (q_capacity r)" "q_claim r = of_nat (length es)"
    "length es + 2 * slots (q_capacity r) < 2 ^ 64"
  using assms by (auto simp: mpmc_ring_ok_def)

lemma mpmc_slot_of_nat:
  assumes "mpmc_ring_ok es r"
  shows "mpmc_slot r (of_nat p) = p mod slots (q_capacity r)"
  using slot_of_of_nat [OF mpmc_ring_okD(1) [OF assms]] by (simp add: mpmc_slot_def)

lemma mpmc_slot_serves:
  assumes "mpmc_ring_ok es r"
  shows "slot_serves (slots (q_capacity r)) es (p mod slots (q_capacity r))
    (q_done r ! (p mod slots (q_capacity r))) (q_ready r ! (p mod slots (q_capacity r)))
    (q_data r ! (p mod slots (q_capacity r)))"
  using assms slots_pos by (auto simp: mpmc_ring_ok_def)

lemma mod_slots_less [simp]: "mpmc_ring_ok es r \<Longrightarrow> p mod slots (q_capacity r) < slots (q_capacity r)"
  using slots_pos by (auto simp: mpmc_ring_ok_def)

text \<open>An operation on position \<open>x\<close> touches the words of its own slot and entry \<open>x\<close> only.\<close>

lemma mpmc_slot_update:
  assumes ok: "mpmc_ring_ok es r"
    and es': "length es' = length es" "\<And>p. p < length es \<Longrightarrow> p \<noteq> x \<Longrightarrow> es' ! p = es ! p"
    and s: "s = x mod slots (q_capacity r)"
    and serves: "slot_serves (slots (q_capacity r)) es' s dw w y"
    and r': "q_done r' = (q_done r)[s := dw]" "q_ready r' = (q_ready r)[s := w]" "q_data r' = (q_data r)[s := y]"
      "q_capacity r' = q_capacity r" "q_config r' = q_config r" "q_claim r' = q_claim r"
  shows "mpmc_ring_ok es' r'"
proof -
  let ?n = "slots (q_capacity r)"
  have "slot_serves ?n es' i (q_done r' ! i) (q_ready r' ! i) (q_data r' ! i)" if i: "i < ?n" for i
  proof (cases "i = s")
    case True
    then show ?thesis using serves i mpmc_ring_okD(4-6) [OF ok] by (simp add: r')
  next
    case False
    have "slot_serves ?n es i (q_done r ! i) (q_ready r ! i) (q_data r ! i)"
      using ok i by (simp add: mpmc_ring_ok_def)
    moreover have "p \<noteq> x" if "p mod ?n = i" for p using that False s by auto
    then have "turn_ok ?n es' i d = turn_ok ?n es i d \<and> (turn_ok ?n es i d \<longrightarrow> entry_of es' d = entry_of es d)" for d
      using es' by (auto simp: turn_ok_def entry_of_def)
    ultimately show ?thesis using False by (simp add: slot_serves_def r')
  qed
  then show ?thesis using ok es'(1) by (simp add: mpmc_ring_ok_def r')
qed

lemma mpmc_is_free_for_spec:
  assumes ok: "mpmc_ring_ok es r" and p: "p \<le> length es" "entry_of es p = Unwritten"
  shows "mpmc_is_free_for (of_nat p) r = Inr (open_at (slots (q_capacity r)) es p)"
proof -
  let ?n = "slots (q_capacity r)"
  let ?dw = "q_done r ! (p mod ?n)"
  have "?dw = of_nat p \<longleftrightarrow> unat ?dw = p"
    using p(1) mpmc_ring_okD(8) [OF ok] by (simp add: word_unat_eq_iff unat_of_nat_usize)
  also have "\<dots> \<longleftrightarrow> open_at ?n es p"
    by (rule done_word_open [OF mpmc_slot_serves [OF ok]]) (use p slots_pos [OF mpmc_ring_okD(1) [OF ok]] in simp_all)
  finally show ?thesis
    using ok mpmc_ring_okD(6) [OF ok] by (simp add: mpmc_is_free_for_def md_is_free_for_def mpmc_slot_of_nat [OF ok])
qed

lemma mpmc_ready_state_spec:
  fixes p :: nat
  assumes ok: "mpmc_ring_ok es r" and d_def: "d = unat (q_done r ! (p mod slots (q_capacity r)))"
  shows "mpmc_ready_state (of_nat p) r = Inr
    (case entry_of es d of
       Offered _ \<Rightarrow> Published (of_nat d)
     | Borrowed _ \<Rightarrow> Claimed (of_nat d)
     | _ \<Rightarrow> if d < slots (q_capacity r) then Free (of_nat d) else Claimed (of_nat (d - slots (q_capacity r))))"
proof -
  let ?n = "slots (q_capacity r)" and ?c = "q_capacity r"
  have wf: "wf_capacity ?c" "4 \<le> ?n" using mpmc_ring_okD [OF ok] by simp_all
  have sv: "slot_serves ?n es (p mod ?n) (q_done r ! (p mod ?n)) (q_ready r ! (p mod ?n)) (q_data r ! (p mod ?n))"
    by (rule mpmc_slot_serves [OF ok])
  have idx: "index_of ?c (of_nat p) = index_of ?c (of_nat q)" if "q mod ?n = p mod ?n" for q
    using slot_of_of_nat [OF wf(1)] that by (simp add: word_unat_eq_iff)
  have d: "d mod ?n = p mod ?n" and occ: "occupant_ok ?n d (entry_of es d) (q_ready r ! (p mod ?n)) (q_data r ! (p mod ?n))"
    using sv by (simp_all add: slot_serves_def turn_ok_def d_def)
  have load: "mpmc_load_ready (of_nat p) r = Inr (q_ready r ! (p mod ?n))"
    using ok mpmc_ring_okD(5) [OF ok] by (simp add: mpmc_load_ready_def mpmc_slot_of_nat [OF ok])
  have lap: "(d - ?n) mod ?n = p mod ?n" if "\<not> d < ?n" using that d by (simp add: mod_if [of d])
  show ?thesis
    using occ rw_decode_at [OF wf, of "of_nat d"] rw_decode_at [OF wf, of "of_nat (d - ?n)"] idx [OF d]
      idx [OF lap]
    by (auto simp: mpmc_ready_state_def load rw_publish_def rw_abandon_def split: pool_entry.splits)
qed

section \<open>Scanning and claiming\<close>

text \<open>The position on offer in the slot of \<open>p\<close>, if there is one.\<close>

definition offer_in :: "'a pool_entry list \<Rightarrow> 'a mpmc_ring \<Rightarrow> nat \<Rightarrow> (nat \<times> 'a) option" where
  "offer_in es r p =
     (let d = unat (q_done r ! (p mod slots (q_capacity r)))
      in case entry_of es d of Offered v \<Rightarrow> Some (d, v) | _ \<Rightarrow> None)"

lemma eq_of_nat_of_unat: "unat w = x \<Longrightarrow> w = of_nat x"
  by (drule sym) simp

lemma offer_in_SomeD:
  assumes "mpmc_ring_ok es r" and "offer_in es r p = Some (x, v)"
  shows "x < length es" "es ! x = Offered v" "x mod slots (q_capacity r) = p mod slots (q_capacity r)"
    "q_done r ! (p mod slots (q_capacity r)) = of_nat x"
  using assms(2) mpmc_slot_serves [OF assms(1), of p]
  by (auto simp: offer_in_def entry_of_def slot_serves_def turn_ok_def Let_def split: pool_entry.splits if_splits)

lemma offered_in_its_slot:
  assumes "mpmc_ring_ok es r" and "x < length es" "es ! x = Offered v"
    and "x mod slots (q_capacity r) = p mod slots (q_capacity r)"
  shows "offer_in es r p = Some (x, v)"
  using turn_of_held [OF mpmc_slot_serves [OF assms(1), of p] assms(2,4)] assms(2,3)
  by (simp add: offer_in_def entry_of_def Let_def)

lemma offer_state:
  assumes "mpmc_ring_ok es r"
  shows "case offer_in es r p of
      Some (x, v) \<Rightarrow> mpmc_ready_state (of_nat p) r = Inr (Published (of_nat x))
    | None \<Rightarrow> \<exists>st. mpmc_ready_state (of_nat p) r = Inr st \<and> \<not> rs_is_published st"
  using mpmc_ready_state_spec [OF assms refl, of p]
  by (auto simp: offer_in_def rs_is_published_def Let_def split: pool_entry.splits)

definition mpmc_claimed :: "nat \<Rightarrow> 'a mpmc_ring \<Rightarrow> 'a mpmc_ring" where
  "mpmc_claimed x r =
     r\<lparr>q_ready := (q_ready r)[x mod slots (q_capacity r) := of_nat x + CLAIMED]\<rparr>"

lemma mpmc_claimed_ok:
  assumes ok: "mpmc_ring_ok es r" and x: "x < length es" "es ! x = Offered v"
  shows "mpmc_ring_ok (es[x := Borrowed v]) (mpmc_claimed x r)"
proof -
  let ?n = "slots (q_capacity r)"
  have sv: "slot_serves ?n es (x mod ?n) (q_done r ! (x mod ?n)) (q_ready r ! (x mod ?n)) (q_data r ! (x mod ?n))"
    by (rule mpmc_slot_serves [OF ok])
  have d: "unat (q_done r ! (x mod ?n)) = x" by (rule turn_of_held [OF sv x(1)]) (simp_all add: x)
  then have "q_done r ! (x mod ?n) = of_nat x" by (rule eq_of_nat_of_unat)
  moreover have "(q_done r)[x mod ?n := of_nat x] = q_done r" using calculation by (metis list_update_id)
  ultimately show ?thesis
    by (intro mpmc_slot_update [OF ok _ _ refl slot_borrow [OF sv, unfolded d]])
      (use x mpmc_ring_okD(4-6) [OF ok] ok in \<open>simp_all add: mpmc_claimed_def\<close>)
qed

definition sweeping :: "usize \<Rightarrow> nat \<Rightarrow> nat \<Rightarrow> scan_budget \<Rightarrow> bool" where
  "sweeping start n a b \<longleftrightarrow> lap_at start n a a b \<and> sb_position b = sb_floor b"

lemma sweeping_step:
  assumes "sweeping start n a b" and "unat start + 2 * n < 2 ^ 64"
  shows "sb_exhausted (sb_step b) \<longleftrightarrow> Suc a = n"
    and "\<not> sb_exhausted (sb_step b) \<Longrightarrow> sweeping start n (Suc a) (sb_step b)"
    and "sb_position (sb_step b) = start + of_nat (Suc a)"
proof -
  have lap: "lap_at start n a a b" and pos: "sb_position b = sb_floor b" "sb_floor b = start + of_nat a"
    using assms(1) by (auto simp: sweeping_def lap_at_def)
  note moved = lap_at_turn [OF lap assms(2), of "sb_step b"] sb_moves(1) [of "sb_step b" b]
  show "sb_exhausted (sb_step b) \<longleftrightarrow> Suc a = n" using moved pos by simp
  show at: "sb_position (sb_step b) = start + of_nat (Suc a)"
    using pos by (auto simp: sb_step_def sb_record_def sb_resume_sweep_def Let_def)
  show "sweeping start n (Suc a) (sb_step b)" if "\<not> sb_exhausted (sb_step b)"
    using moved pos that at by (simp add: sweeping_def)
qed

lemma mpmc_scan_spec:
  assumes ok: "mpmc_ring_ok es r"
    and b: "sweeping start (slots (q_capacity r)) a b" and room: "unat start + 2 * slots (q_capacity r) < 2 ^ 64"
  shows "(\<exists>j x v b'. mpmc_scan [] b r = Inr (Some (start + of_nat j, of_nat x), b', mpmc_claimed x r)
        \<and> x mod slots (q_capacity r) = (unat start + j) mod slots (q_capacity r)
        \<and> j < slots (q_capacity r) \<and> x < length es \<and> es ! x = Offered v)
    \<or> (\<exists>b'. mpmc_scan [] b r = Inr (None, b', r) \<and> sb_position b' = start + of_nat (slots (q_capacity r))
        \<and> (\<forall>j. a \<le> j \<and> j < slots (q_capacity r) \<longrightarrow> offer_in es r (unat start + j) = None))"
  using b
proof (induction "slots (q_capacity r) - a" arbitrary: a b)
  case 0
  then show ?case by (simp add: sweeping_def lap_at_def)
next
  case (Suc m)
  let ?n = "slots (q_capacity r)"
  have at: "a < ?n" "sb_position b = of_nat (unat start + a)"
    using Suc.prems by (auto simp: sweeping_def lap_at_def)
  note state = offer_state [OF ok, of "unat start + a"]
  show ?case
  proof (cases "offer_in es r (unat start + a)")
    case (Some xv)
    then obtain x v where xv: "offer_in es r (unat start + a) = Some (x, v)" by (cases xv) auto
    note o = offer_in_SomeD [OF ok xv]
    have st: "mpmc_ready_state (of_nat (unat start + a)) r = Inr (Published (of_nat x))"
      using state xv by simp
    have "mpmc_store_ready (of_nat (unat start + a)) (of_nat x + CLAIMED) r = Inr (mpmc_claimed x r)"
      using mpmc_ring_okD(5) [OF ok] ok o(3)
      by (simp add: mpmc_store_ready_def mpmc_load_ready_def mpmc_slot_of_nat [OF ok] mpmc_claimed_def del: of_nat_add)
    then have "mpmc_scan [] b r = Inr (Some (start + of_nat a, of_nat x), b, mpmc_claimed x r)"
      using st by (subst scan_alone) (simp add: at(2) rs_is_published_def Let_def)
    then show ?thesis using o at(1) by blast
  next
    case None
    then obtain st where st: "mpmc_ready_state (of_nat (unat start + a)) r = Inr st" "\<not> rs_is_published st"
      using state by auto
    note step = sweeping_step [OF Suc.prems room]
    have unfold: "mpmc_scan [] b r
        = (if sb_exhausted (sb_step b) then Inr (None, sb_step b, r) else mpmc_scan [] (sb_step b) r)"
      using st by (subst scan_alone) (simp add: at(2) Let_def)
    show ?thesis
    proof (cases "sb_exhausted (sb_step b)")
      case True
      then have "Suc a = ?n" using step(1) by simp
      then have "offer_in es r (unat start + j) = None" if "a \<le> j" "j < ?n" for j
        using that None by (cases "j = a") auto
      then show ?thesis using True unfold step(3) \<open>Suc a = ?n\<close> by auto
    next
      case False
      have "m = ?n - Suc a" using Suc.hyps(2) by simp
      from Suc.hyps(1) [OF this step(2) [OF False]] show ?thesis
        using False unfold None by (metis (no_types, lifting) Suc_leI le_neq_implies_less)
    qed
  qed
qed

text \<open>The scan of a consumer, from its own cursor.\<close>

lemma fresh_lap_sweeps:
  assumes "wf_capacity c" and "unat start + 2 * slots c < 2 ^ 64"
  shows "sweeping start (slots c) 0 (sb_new start (capacity_get c) skip)"
  using slots_pos [OF assms(1)]
  by (auto simp: sweeping_def lap_at_def sb_new_def capacity_get_def)

definition no_offers :: "'a pool_entry list \<Rightarrow> bool" where
  "no_offers es \<longleftrightarrow> (\<forall>x < length es. \<forall>v. es ! x \<noteq> Offered v)"

lemma no_offers_of_lap:
  assumes ok: "mpmc_ring_ok es r"
    and "\<And>j. j < slots (q_capacity r) \<Longrightarrow> offer_in es r (k + j) = None"
  shows "no_offers es"
  unfolding no_offers_def
proof (intro allI impI notI)
  fix x v assume x: "x < length es" "es ! x = Offered v"
  let ?n = "slots (q_capacity r)"
  obtain j where j: "j < ?n" "(k + j) mod ?n = x mod ?n"
  proof
    let ?j = "(x + ?n * k - k) mod ?n"
    have n: "0 < ?n" using mod_slots_less [OF ok, of 0] by (metis gr_zeroI less_nat_zero_code)
    then have "k \<le> x + ?n * k" by (simp add: trans_le_add2)
    then have "(k + (x + ?n * k - k)) mod ?n = x mod ?n" by simp
    then show "(k + ?j) mod ?n = x mod ?n" by (simp add: mod_add_right_eq)
    show "?j < ?n" using n by simp
  qed
  have "offer_in es r (k + j) = Some (x, v)" by (rule offered_in_its_slot [OF ok x j(2) [symmetric]])
  then show False using assms(2) [OF j(1)] by simp
qed

text \<open>
  What a claim leaves: the consumer further on, its pop counted, and the winner's entry
  borrowed; without an offer only the consumer's cursor moves, by a lap.
\<close>

lemma mpmc_claim_slot_spec:
  assumes ok: "mpmc_ring_ok es r" and room: "unat (qc_next_scan c) + 2 * slots (q_capacity r) < 2 ^ 64"
  obtains (claimed) pos x v c' m where
      "mpmc_claim_slot [] c r = Inr (Some (pos, of_nat x), c', (mpmc_claimed x r)\<lparr>q_consumed := m\<rparr>)"
      "mpmc_slot r pos = x mod slots (q_capacity r)" "x < length es" "es ! x = Offered v"
      "mpmc_ring_ok (es[x := Borrowed v]) ((mpmc_claimed x r)\<lparr>q_consumed := m\<rparr>)"
      "unat (qc_next_scan c') = max (Suc x) (Suc (unat (qc_next_scan c)))" "qc_park_slot c' = qc_park_slot c"
  | (none) c' where
      "mpmc_claim_slot [] c r = Inr (None, c', r)" "no_offers es"
      "unat (qc_next_scan c') = unat (qc_next_scan c) + slots (q_capacity r)"
      "qc_park_slot c' = qc_park_slot c"
proof -
  let ?n = "slots (q_capacity r)" and ?s = "qc_next_scan c"
  have wf: "wf_capacity (q_capacity r)" by (rule mpmc_ring_okD(1) [OF ok])
  note scan = mpmc_scan_spec [OF ok fresh_lap_sweeps [OF wf room] room, where skip1 = "cas_fail_skip (q_config r)"]
  then show ?thesis
  proof (elim disjE exE conjE, goal_cases)
    case (1 j x v b)
    obtain t m where tm: "tally_record (consumed_flush (q_config r)) (qc_pending c, q_consumed r) = (t, m)"
      by (cases "tally_record (consumed_flush (q_config r)) (qc_pending c, q_consumed r)") auto
    have ok1: "mpmc_ring_ok (es[x := Borrowed v]) ((mpmc_claimed x r)\<lparr>q_consumed := m\<rparr>)"
      using mpmc_claimed_ok [OF ok 1(4,5)] by (simp add: mpmc_ring_ok_def)
    have x: "Suc x < 2 ^ 64" using 1(4) mpmc_ring_okD(8) [OF ok] by linarith
    have u: "unat (of_nat x + 1 :: usize) = Suc x"
      using unat_of_nat_usize [OF x] by (simp add: add.commute)
    moreover have "unat (?s + 1) = Suc (unat ?s)"
      using unat_add_of_nat [of ?s 1] room mpmc_ring_okD(2) [OF ok] by simp
    ultimately have cur: "unat (max (of_nat x + 1) (?s + 1)) = max (Suc x) (Suc (unat ?s))"
      by (simp add: max_def word_le_nat_alt)
    have "mpmc_slot r (?s + of_nat j) = x mod ?n"
      using 1(2) slot_of_add [OF wf, of ?s j] by (simp add: mpmc_slot_def)
    then show ?thesis
      using 1 ok1 cur tm
      by (intro claimed [of "?s + of_nat j" x "c\<lparr>qc_next_scan := max (of_nat x + 1) (?s + 1), qc_pending := t\<rparr>" m v])
        (simp_all add: mpmc_claim_slot_def mpmc_claimed_def Let_def)
  next
    case (2 b)
    have "no_offers es" using 2(3) by (intro no_offers_of_lap [OF ok, where k = "unat ?s"]) simp
    moreover have "unat (?s + of_nat ?n) = unat ?s + ?n"
      using unat_add_of_nat [of ?s ?n] room by simp
    ultimately show ?thesis
      using 2(1,2) by (intro none [where c' = "c\<lparr>qc_next_scan := sb_position b\<rparr>"]) (simp_all add: mpmc_claim_slot_def Let_def)
  qed
qed

section \<open>Waking leaves the values alone\<close>

lemma mpmc_wake_simps [simp]:
  "q_data (mpmc_wake_producer_for p r) = q_data r" "q_data (mpmc_wake_consumer r) = q_data r"
  "q_data (mpmc_flush_producers r) = q_data r" "q_data (mpmc_flush_consumers r) = q_data r"
  "q_ready (mpmc_wake_producer_for p r) = q_ready r" "q_ready (mpmc_wake_consumer r) = q_ready r"
  "q_ready (mpmc_flush_producers r) = q_ready r" "q_ready (mpmc_flush_consumers r) = q_ready r"
  "q_done (mpmc_wake_producer_for p r) = q_done r" "q_done (mpmc_wake_consumer r) = q_done r"
  "q_done (mpmc_flush_producers r) = q_done r" "q_done (mpmc_flush_consumers r) = q_done r"
  "q_capacity (mpmc_wake_producer_for p r) = q_capacity r" "q_capacity (mpmc_wake_consumer r) = q_capacity r"
  "q_capacity (mpmc_flush_producers r) = q_capacity r" "q_capacity (mpmc_flush_consumers r) = q_capacity r"
  "q_claim (mpmc_wake_producer_for p r) = q_claim r" "q_claim (mpmc_wake_consumer r) = q_claim r"
  "q_claim (mpmc_flush_producers r) = q_claim r" "q_claim (mpmc_flush_consumers r) = q_claim r"
  "q_config (mpmc_wake_producer_for p r) = q_config r" "q_config (mpmc_wake_consumer r) = q_config r"
  "q_config (mpmc_flush_producers r) = q_config r" "q_config (mpmc_flush_consumers r) = q_config r"
  by (simp_all add: mpmc_wake_producer_for_def mpmc_wake_consumer_def mpmc_flush_producers_def
      mpmc_flush_consumers_def case_prod_beta)

lemma mpmc_wake_handles [simp]:
  "q_producer_count (mpmc_wake_producer_for p r) = q_producer_count r"
  "q_producer_count (mpmc_wake_consumer r) = q_producer_count r"
  "q_producer_count (mpmc_flush_producers r) = q_producer_count r"
  "q_producer_count (mpmc_flush_consumers r) = q_producer_count r"
  "q_consumer_count (mpmc_wake_producer_for p r) = q_consumer_count r"
  "q_consumer_count (mpmc_wake_consumer r) = q_consumer_count r"
  "q_consumer_count (mpmc_flush_producers r) = q_consumer_count r"
  "q_consumer_count (mpmc_flush_consumers r) = q_consumer_count r"
  "q_closed (mpmc_wake_producer_for p r) = q_closed r" "q_closed (mpmc_wake_consumer r) = q_closed r"
  "q_closed (mpmc_flush_producers r) = q_closed r" "q_closed (mpmc_flush_consumers r) = q_closed r"
  "q_consumer_closed (mpmc_wake_producer_for p r) = q_consumer_closed r"
  "q_consumer_closed (mpmc_wake_consumer r) = q_consumer_closed r"
  "q_consumer_closed (mpmc_flush_producers r) = q_consumer_closed r"
  "q_consumer_closed (mpmc_flush_consumers r) = q_consumer_closed r"
  "q_dropped (mpmc_wake_producer_for p r) = q_dropped r" "q_dropped (mpmc_wake_consumer r) = q_dropped r"
  "q_dropped (mpmc_flush_producers r) = q_dropped r" "q_dropped (mpmc_flush_consumers r) = q_dropped r"
  by (simp_all add: mpmc_wake_producer_for_def mpmc_wake_consumer_def mpmc_flush_producers_def
      mpmc_flush_consumers_def case_prod_beta)

text \<open>The handle counts, the close flags and the log of destroyed values.\<close>

definition mpmc_books ::
    "'a mpmc_ring \<Rightarrow> capacity \<times> endpoint_count \<times> endpoint_count \<times> bool \<times> bool \<times> 'a list" where
  "mpmc_books r =
     (q_capacity r, q_producer_count r, q_consumer_count r, is_closed (q_closed r),
      is_closed (q_consumer_closed r), q_dropped r)"

lemma mpmc_ring_ok_cong:
  assumes "mpmc_ring_ok es r" and "q_data r' = q_data r" "q_ready r' = q_ready r" "q_done r' = q_done r"
    "q_capacity r' = q_capacity r" "q_claim r' = q_claim r" "q_config r' = q_config r"
  shows "mpmc_ring_ok es r'"
  using assms by (simp add: mpmc_ring_ok_def)

lemma mpmc_wake_ok [simp]:
  "mpmc_ring_ok es (mpmc_wake_producer_for p r) = mpmc_ring_ok es r"
  "mpmc_ring_ok es (mpmc_wake_consumer r) = mpmc_ring_ok es r"
  "mpmc_ring_ok es (mpmc_flush_producers r) = mpmc_ring_ok es r"
  "mpmc_ring_ok es (mpmc_flush_consumers r) = mpmc_ring_ok es r"
  by (simp_all add: mpmc_ring_ok_def)

lemma mpmc_wake_books [simp]:
  "mpmc_books (mpmc_wake_producer_for p r) = mpmc_books r" "mpmc_books (mpmc_wake_consumer r) = mpmc_books r"
  by (simp_all add: mpmc_books_def)

section \<open>Taking the value of a claimed position\<close>

lemma mpmc_release_spec:
  assumes ok: "mpmc_ring_ok es r" and x: "x < length es" "es ! x = Borrowed v"
    and pos: "mpmc_slot r pos = x mod slots (q_capacity r)"
  obtains r1 r2 where "cell_peek (q_data r) (mpmc_slot r pos) = Inr v"
    "mpmc_take_data pos r = Inr (v, r1)" "mpmc_books r1 = mpmc_books r"
    "mpmc_release_done pos (of_nat x) (r1\<lparr>q_dropped := gone\<rparr>) = Inr (r2\<lparr>q_dropped := gone\<rparr>)"
    "mpmc_release_done pos (of_nat x) r1 = Inr r2"
    "mpmc_ring_ok (es[x := Settled]) r2" "mpmc_books r2 = mpmc_books r"
proof -
  let ?n = "slots (q_capacity r)" and ?s = "x mod slots (q_capacity r)"
  note D = mpmc_ring_okD [OF ok]
  have sv: "slot_serves ?n es ?s (q_done r ! ?s) (q_ready r ! ?s) (q_data r ! ?s)"
    by (rule mpmc_slot_serves [OF ok])
  have d: "unat (q_done r ! ?s) = x" by (rule turn_of_held [OF sv x(1)]) (simp_all add: x)
  then have dw: "q_done r ! ?s = of_nat x" by (rule eq_of_nat_of_unat)
  have held: "q_data r ! ?s = Some v" "q_ready r ! ?s = of_nat x + CLAIMED"
    using sv d x by (simp_all add: slot_serves_def entry_of_def)
  define r1 where "r1 = r\<lparr>q_data := (q_data r)[?s := None]\<rparr>"
  define r2 where "r2 = r1\<lparr>q_done := (q_done r)[?s := of_nat x + cap (q_capacity r)]\<rparr>"
  have s: "?s < ?n" using ok by simp
  have take: "mpmc_take_data pos r = Inr (v, r1)"
    using s D(4) held by (simp add: mpmc_take_data_def pos r1_def)
  have "(q_ready r)[?s := of_nat x + CLAIMED] = q_ready r" using held(2) by (metis list_update_id)
  then have "mpmc_ring_ok (es[x := Settled]) r2"
    using slot_settle [OF sv _ _ _, where y = None, unfolded d] x D(8) s
    by (intro mpmc_slot_update [OF ok, where x = x and s = ?s and dw = "of_nat x + of_nat ?n"
          and w = "of_nat x + CLAIMED" and y = None])
      (simp_all add: r1_def r2_def dw)
  moreover have "mpmc_release_done pos (of_nat x) (r1\<lparr>q_dropped := g\<rparr>) = Inr (r2\<lparr>q_dropped := g\<rparr>)" for g
    using s D(6) pos
    by (simp add: mpmc_release_done_def mpmc_is_free_for_def mpmc_slot_def r1_def r2_def md_release_def
        capacity_get_def)
  moreover have "mpmc_release_done pos (of_nat x) r1 = Inr r2"
    using s D(6) pos
    by (simp add: mpmc_release_done_def mpmc_is_free_for_def mpmc_slot_def r1_def r2_def md_release_def
        capacity_get_def)
  moreover have "cell_peek (q_data r) (mpmc_slot r pos) = Inr v" using s D(4) held pos by simp
  ultimately show ?thesis
    using take by (intro that [of r1 r2]) (simp_all add: r1_def r2_def mpmc_books_def)
qed

section \<open>Reserving\<close>

text \<open>The positions a producer holds, from the lowest on.\<close>

definition batch_of :: "mpmc_producer \<Rightarrow> nat list" where
  "batch_of p = map (\<lambda>i. unat (qp_batch_start p) + i) (set_bits_of (qp_batch_unused p))"

definition mpmc_producer_ok :: "'a pool_entry list \<Rightarrow> 'a mpmc_ring \<Rightarrow> mpmc_producer \<Rightarrow> bool" where
  "mpmc_producer_ok es r p \<longleftrightarrow>
     (\<forall>x \<in> set (batch_of p). x < length es \<and> es ! x = Unwritten
        \<and> x < unat (qp_batch_start p) + slots (q_capacity r))"

lemma set_bits_of_0 [simp]: "set_bits_of 0 = []"
  by (simp add: set_bits_of_def)

lemma in_set_bits_of [simp]:
  fixes w :: "'l::len word"
  shows "i \<in> set (set_bits_of w) \<longleftrightarrow> bit w i"
  by (auto simp: set_bits_of_def dest: bit_imp_le_length)

lemma set_bits_of_without:
  fixes w :: "'l::len word"
  shows "set_bits_of (w AND NOT (push_bit b 1)) = filter (\<lambda>i. i \<noteq> b) (set_bits_of w)"
  unfolding set_bits_of_def filter_filter by (rule filter_cong) (auto simp: bit_simps)

lemma set_bits_of_eq_Nil [simp]:
  fixes w :: "'l::len word"
  shows "set_bits_of w = [] \<longleftrightarrow> w = 0"
  using set_bits_of_Cons [of w] by (cases "w = 0") auto

lemma batch_of_eq_Nil [simp]: "batch_of p = [] \<longleftrightarrow> qp_batch_unused p = 0"
  by (simp add: batch_of_def)

lemma mpmc_scan_unused_spec:
  assumes ok: "mpmc_ring_ok es r"
    and held: "\<And>i. i \<in> set (set_bits_of bits) \<Longrightarrow> unat start + i < length es \<and> es ! (unat start + i) = Unwritten"
  shows "mpmc_scan_unused [] start bits r =
    Inr (map_option (\<lambda>i. (i, of_nat (unat start + i)))
           (find (\<lambda>i. open_at (slots (q_capacity r)) es (unat start + i)) (set_bits_of bits)), r, [])"
  using held
proof (induction "set_bits_of bits" arbitrary: bits)
  case Nil
  then have "bits = 0" by (metis set_bits_of_eq_Nil)
  then show ?case by (subst mpmc_scan_unused.simps) simp
next
  case (Cons b bs)
  have nz: "bits \<noteq> 0" using Cons.hyps(2) by auto
  have split: "set_bits_of bits = b # bs" "b = trailing_zeros bits" "bs = set_bits_of (bits AND (bits - 1))"
    using Cons.hyps(2) set_bits_of_Cons [OF nz] by simp_all
  have b: "unat start + b < length es" "es ! (unat start + b) = Unwritten" using Cons.prems [of b] split(1) by simp_all
  have free: "mpmc_is_free_for (start + of_nat b) r = Inr (open_at (slots (q_capacity r)) es (unat start + b))"
    using mpmc_is_free_for_spec [OF ok, of "unat start + b"] b by (simp add: entry_of_def)
  have rest: "mpmc_scan_unused [] start (bits AND (bits - 1)) r = Inr
      (map_option (\<lambda>i. (i, of_nat (unat start + i)))
        (find (\<lambda>i. open_at (slots (q_capacity r)) es (unat start + i)) bs), r, [])"
    using Cons.hyps(1) [OF split(3)] Cons.prems split by simp
  show ?case
    using nz free rest by (subst mpmc_scan_unused.simps) (simp add: split(2) [symmetric] split(1) Let_def)
qed

lemma mpmc_spin_primary_alone:
  assumes "mpmc_is_free_for pos r = Inr yes"
  shows "mpmc_spin_primary (Suc n) [] pos r = Inr (yes, r, [])"
  using assms by (induction n) auto

lemma set_bits_of_mask:
  "k \<le> 32 \<Longrightarrow> set_bits_of (Bit_Operations.mask k :: u32) = [0..<k]"
proof -
  assume k: "k \<le> 32"
  have "set_bits_of (Bit_Operations.mask k :: u32) = filter (\<lambda>i. i < k) [0..<32]"
    unfolding set_bits_of_def by (rule filter_cong) (auto simp: bit_simps)
  also have "[0..<32] = [0..<k] @ [k..<32]" using k by (metis le_add_diff_inverse upt_add_eq_append zero_le)
  finally show ?thesis by (simp add: filter_empty_conv filter_id_conv)
qed

lemma mpmc_grown:
  assumes ok: "mpmc_ring_ok es r" and room: "length es + k + 2 * slots (q_capacity r) < 2 ^ 64"
  shows "mpmc_ring_ok (es @ replicate k Unwritten) (r\<lparr>q_claim := of_nat (length es + k)\<rparr>)"
  using ok room slots_pos [OF mpmc_ring_okD(1) [OF ok]] by (auto simp: mpmc_ring_ok_def intro!: slot_grow)

lemma mpmc_batch_mask:
  fixes batch :: usize
  assumes "unat batch = k" and "k \<le> 32"
  shows "(if batch \<ge> 32 then - 1 else push_bit (unat (ucast batch :: u32)) 1 - 1) = (Bit_Operations.mask k :: u32)"
proof (cases "k = 32")
  case True
  have "(Bit_Operations.mask 32 :: u32) = - 1" by (rule bit_word_eqI) (simp add: bit_simps)
  then show ?thesis using True assms by (simp add: word_le_nat_alt)
next
  case False
  then have "unat (ucast batch :: u32) = k"
    using assms by (simp add: unsigned_ucast_eq take_bit_nat_eq_self)
  then show ?thesis using False assms by (simp add: word_le_nat_alt mask_eq_exp_minus_1)
qed

lemma mpmc_refill_spec:
  assumes ok: "mpmc_ring_ok es r" and room: "length es + 32 + 2 * slots (q_capacity r) < 2 ^ 64"
  obtains (full) "mpmc_refill_batch [] p r = Inr (None, p, r, [])" "\<not> open_at (slots (q_capacity r)) es (length es)"
  | (batch) k p1 where "0 < k" "k \<le> 32" "k \<le> slots (q_capacity r)"
      "mpmc_refill_batch [] p r = Inr (Some (qp_batch_start p1, qp_batch_unused p1), p1,
          r\<lparr>q_claim := of_nat (length es + k)\<rparr>, [])"
      "batch_of p1 = [length es..<length es + k]" "unat (qp_batch_start p1) = length es"
      "qp_park_slot p1 = qp_park_slot p"
proof -
  let ?n = "slots (q_capacity r)" and ?c = "q_capacity r"
  note D = mpmc_ring_okD [OF ok]
  define free where "free = (case watermark_free (q_consumed r) (q_claim r) (capacity_get ?c) of
      Some f \<Rightarrow> Some f | None \<Rightarrow> if open_at ?n es (length es) then Some 1 else None)"
  have is_free: "mpmc_is_free_for (q_claim r) r = Inr (open_at ?n es (length es))"
    using mpmc_is_free_for_spec [OF ok, of "length es"] D(7) by (simp add: entry_of_def)
  have run: "mpmc_refill_batch [] p r =
      (case free of None \<Rightarrow> Inr (None, p, r, [])
       | Some f \<Rightarrow>
           let batch = min (producer_batch (q_config r)) f; start = q_claim r;
               unused = (if batch \<ge> 32 then - 1 else push_bit (unat (ucast batch :: u32)) 1 - 1)
           in Inr (Some (start, unused),
                p\<lparr>qp_batch_start := start, qp_batch_unused := unused, qp_batch_size := ucast batch\<rparr>,
                r\<lparr>q_claim := start + batch\<rparr>, []))"
    by (simp add: mpmc_refill_batch_def is_free free_def Let_def split: option.splits)
  show ?thesis
  proof (cases free)
    case None
    then show ?thesis using run full by (auto simp: free_def split: option.splits if_splits)
  next
    case (Some f)
    have f: "0 < unat f" "unat f \<le> ?n"
      using Some D(2) unfolding free_def watermark_free_def capacity_get_def
      by (auto simp: Let_def unat_sub word_less_nat_alt word_le_nat_alt less_imp_le split: if_splits option.splits)
    let ?batch = "min (producer_batch (q_config r)) f"
    define k where "k = unat ?batch"
    have k: "0 < k" "k \<le> 32" "k \<le> ?n"
      using f D(3) by (auto simp: k_def config_valid_def min_def word_le_nat_alt)
    let ?p1 = "p\<lparr>qp_batch_start := q_claim r, qp_batch_unused := Bit_Operations.mask k, qp_batch_size := ucast ?batch\<rparr>"
    have len: "unat (q_claim r) = length es" using D(7,8) by (simp add: unat_of_nat_usize)
    have "q_claim r + ?batch = of_nat (length es + k)" by (simp add: D(7) k_def)
    then have "mpmc_refill_batch [] p r = Inr (Some (q_claim r, Bit_Operations.mask k), ?p1,
        r\<lparr>q_claim := of_nat (length es + k)\<rparr>, [])"
      using run Some mpmc_batch_mask [OF k_def [symmetric] k(2)] by (simp only: option.case Let_def)
    moreover have "batch_of ?p1 = [length es..<length es + k]"
      using map_add_upt [of "length es" k] by (simp add: batch_of_def set_bits_of_mask [OF k(2)] len add.commute)
    ultimately show ?thesis using k len by (intro batch [of k ?p1]) simp_all
  qed
qed

lemma find_map: "find P (map f xs) = map_option f (find (P \<circ> f) xs)"
  by (induction xs) simp_all

text \<open>
  What a producer holds after it has looked for a slot: its batch, or a new one when that
  was used up; and the slot it got, if any of the batch is open.
\<close>

lemma mpmc_acquire_from:
  assumes ok: "mpmc_ring_ok es r" and pok: "mpmc_producer_ok es r p" and held: "qp_batch_unused p \<noteq> 0"
    and start: "batch = Inr (Some (qp_batch_start p, qp_batch_unused p), p, r, [])"
  defines "found \<equiv> find (open_at (slots (q_capacity r)) es) (batch_of p)"
  shows "seq_exec batch (\<lambda>(batch, p1, r1, fs1).
     case batch of
       None \<Rightarrow> Inr (None, p1, r1)
     | Some (start, unused) \<Rightarrow>
         let primary_bit = trailing_zeros unused;
             primary_pos = start + of_nat primary_bit
         in seq_exec (mpmc_spin_primary PRIMARY_SHORT_SPIN fs1 primary_pos r1) (\<lambda>(found_ready, r2, fs2).
            seq_exec
              (if found_ready then Inr (Some (primary_bit, primary_pos), r2)
               else seq_exec (mpmc_scan_unused fs2 start (unused AND NOT (push_bit primary_bit 1)) r2)
                      (\<lambda>(found, r3, _). Inr (found, r3))) (\<lambda>(found, r3).
            case found of
              None \<Rightarrow> Inr (None, p1, r3)
            | Some (b, pos) \<Rightarrow>
                Inr (Some (b, pos), p1\<lparr>qp_batch_unused := unused AND NOT (push_bit b 1)\<rparr>, r3))))
    = (case found of
         None \<Rightarrow> Inr (None, p, r)
       | Some x \<Rightarrow> let b = x - unat (qp_batch_start p) in
           Inr (Some (b, of_nat x), p\<lparr>qp_batch_unused := qp_batch_unused p AND NOT (push_bit b 1)\<rparr>, r))"
proof -
  let ?n = "slots (q_capacity r)" and ?s = "qp_batch_start p" and ?u = "qp_batch_unused p"
  define b0 where "b0 = trailing_zeros ?u"
  define bs where "bs = set_bits_of (?u AND NOT (push_bit b0 1))"
  have "set_bits_of ?u = b0 # set_bits_of (?u AND (?u - 1))"
    using set_bits_of_Cons [OF held] by (simp add: b0_def)
  moreover have "distinct (set_bits_of ?u)" by (simp add: set_bits_of_def)
  ultimately have split: "set_bits_of ?u = b0 # bs"
    unfolding bs_def set_bits_of_without by (auto intro!: sym [OF iffD2 [OF filter_id_conv]])
  have in_es: "unat ?s + i < length es \<and> es ! (unat ?s + i) = Unwritten" if "i \<in> set (set_bits_of ?u)" for i
    using pok that by (simp add: mpmc_producer_ok_def batch_of_def)
  have b0: "mpmc_is_free_for (?s + of_nat b0) r = Inr (open_at ?n es (unat ?s + b0))"
    using mpmc_is_free_for_spec [OF ok, of "unat ?s + b0"] in_es [of b0] split by (simp add: entry_of_def)
  have spin: "mpmc_spin_primary PRIMARY_SHORT_SPIN [] (?s + of_nat b0) r
      = Inr (open_at ?n es (unat ?s + b0), r, [])"
    using mpmc_spin_primary_alone [OF b0, of 3] by (simp add: PRIMARY_SHORT_SPIN_def numeral_eq_Suc)
  have scan: "mpmc_scan_unused [] ?s (?u AND NOT (push_bit b0 1)) r = Inr
      (map_option (\<lambda>i. (i, of_nat (unat ?s + i))) (find (\<lambda>i. open_at ?n es (unat ?s + i)) bs), r, [])"
    unfolding bs_def by (rule mpmc_scan_unused_spec [OF ok]) (use in_es split bs_def in auto)
  have found: "found = map_option ((+) (unat ?s)) (if open_at ?n es (unat ?s + b0) then Some b0
      else find (\<lambda>i. open_at ?n es (unat ?s + i)) bs)"
    by (simp add: found_def batch_of_def split find_map comp_def)
  show ?thesis
    by (cases "open_at ?n es (unat ?s + b0)"; cases "find (\<lambda>i. open_at ?n es (unat ?s + i)) bs")
      (simp_all add: start b0_def [symmetric] spin scan found Let_def del: push_bit_of_1)
qed

definition stocked :: "nat \<Rightarrow> 'a pool_entry list \<Rightarrow> nat set \<Rightarrow> 'a pool_entry list \<Rightarrow> nat set \<Rightarrow> bool" where
  "stocked n es B es1 B1 \<longleftrightarrow>
     (if B \<noteq> {} then es1 = es \<and> B1 = B
      else \<exists>k \<le> min 32 n. es1 = es @ replicate k Unwritten \<and> B1 = {length es..<length es + k}
             \<and> (k = 0 \<longrightarrow> \<not> open_at n es (length es)))"

lemma stocked_length: "stocked n es B es1 B1 \<Longrightarrow> length es1 \<le> length es + 32"
  by (auto simp: stocked_def split: if_splits)

lemma bit_u32_less: "bit (w :: u32) i \<Longrightarrow> i < 32"
  using bit_imp_le_length [of w i] by simp

lemma batch_of_without:
  assumes "x \<in> set (batch_of p)"
  shows "set (batch_of (p\<lparr>qp_batch_unused := qp_batch_unused p AND NOT (push_bit (x - unat (qp_batch_start p)) 1)\<rparr>))
    = set (batch_of p) - {x}"
  using assms by (auto simp: batch_of_def bit_simps image_iff simp del: push_bit_of_1 dest: bit_u32_less)

lemma mpmc_acquire_held:
  assumes ok: "mpmc_ring_ok es r" and pok: "mpmc_producer_ok es r p" and held: "qp_batch_unused p \<noteq> 0"
    and run: "mpmc_acquire_slot [] p0 r0 = (case find (open_at (slots (q_capacity r)) es) (batch_of p) of
         None \<Rightarrow> Inr (None, p, r)
       | Some x \<Rightarrow> let b = x - unat (qp_batch_start p) in
           Inr (Some (b, of_nat x), p\<lparr>qp_batch_unused := qp_batch_unused p AND NOT (push_bit b 1)\<rparr>, r))"
  obtains (none) "mpmc_acquire_slot [] p0 r0 = Inr (None, p, r)"
      "\<forall>x \<in> set (batch_of p). \<not> open_at (slots (q_capacity r)) es x"
  | (some) x p' where
      "mpmc_acquire_slot [] p0 r0 = Inr (Some (x - unat (qp_batch_start p'), of_nat x), p', r)"
      "x \<in> set (batch_of p)" "open_at (slots (q_capacity r)) es x" "set (batch_of p') = set (batch_of p) - {x}"
      "mpmc_producer_ok es r p'" "qp_batch_start p' = qp_batch_start p" "qp_park_slot p' = qp_park_slot p"
      "x - unat (qp_batch_start p) < 32" "unat (qp_batch_start p) \<le> x"
proof (cases "find (open_at (slots (q_capacity r)) es) (batch_of p)")
  case None
  then have "mpmc_acquire_slot [] p0 r0 = Inr (None, p, r)" using run by simp
  moreover have "\<forall>x \<in> set (batch_of p). \<not> open_at (slots (q_capacity r)) es x"
    using None by (simp add: find_None_iff)
  ultimately show ?thesis by (rule none)
next
  case (Some x)
  then have x: "x \<in> set (batch_of p)" "open_at (slots (q_capacity r)) es x"
    by (auto simp: find_Some_iff in_set_conv_nth)
  let ?b = "x - unat (qp_batch_start p)"
  let ?p = "p\<lparr>qp_batch_unused := qp_batch_unused p AND NOT (push_bit ?b 1)\<rparr>"
  have set: "set (batch_of ?p) = set (batch_of p) - {x}" by (rule batch_of_without [OF x(1)])
  have "mpmc_producer_ok es r ?p" using pok set unfolding mpmc_producer_ok_def by simp
  moreover have "?b < 32" "unat (qp_batch_start p) \<le> x"
    using x(1) by (auto simp: batch_of_def dest: bit_u32_less)
  ultimately show ?thesis using run Some x set by (intro some [of x ?p]) (simp_all add: Let_def)
qed

lemma mpmc_acquire_spec:
  assumes ok: "mpmc_ring_ok es r" and pok: "mpmc_producer_ok es r p"
    and room: "length es + 32 + 2 * slots (q_capacity r) < 2 ^ 64"
  obtains (got) es1 B1 p' r1 where
    "stocked (slots (q_capacity r)) es (set (batch_of p)) es1 B1"
    "mpmc_ring_ok es1 r1" "mpmc_producer_ok es1 r1 p'" "mpmc_books r1 = mpmc_books r"
    "qp_park_slot p' = qp_park_slot p"
    "mpmc_acquire_slot [] p r = Inr (None, p', r1) \<and> set (batch_of p') = B1
        \<and> (\<forall>x \<in> B1. \<not> open_at (slots (q_capacity r)) es1 x)
     \<or> (\<exists>x. mpmc_acquire_slot [] p r = Inr (Some (x - unat (qp_batch_start p'), of_nat x), p', r1)
          \<and> x \<in> B1 \<and> open_at (slots (q_capacity r)) es1 x \<and> set (batch_of p') = B1 - {x}
          \<and> x < length es1 \<and> es1 ! x = Unwritten \<and> x < unat (qp_batch_start p') + slots (q_capacity r)
          \<and> x - unat (qp_batch_start p') < 32 \<and> unat (qp_batch_start p') \<le> x)"
proof -
  let ?n = "slots (q_capacity r)"
  have use: thesis
    if ok1: "mpmc_ring_ok es1 r1" and pok1: "mpmc_producer_ok es1 r1 p1" and nz: "qp_batch_unused p1 \<noteq> 0"
      and st: "stocked ?n es (set (batch_of p)) es1 (set (batch_of p1))"
      and same: "mpmc_books r1 = mpmc_books r" "qp_park_slot p1 = qp_park_slot p"
      and run: "mpmc_acquire_slot [] p r = (case find (open_at (slots (q_capacity r1)) es1) (batch_of p1) of
           None \<Rightarrow> Inr (None, p1, r1)
         | Some x \<Rightarrow> let b = x - unat (qp_batch_start p1) in
             Inr (Some (b, of_nat x), p1\<lparr>qp_batch_unused := qp_batch_unused p1 AND NOT (push_bit b 1)\<rparr>, r1))"
    for es1 p1 r1
  proof -
    have n: "slots (q_capacity r1) = ?n" using same(1) by (simp add: mpmc_books_def)
    show thesis
    proof (rule mpmc_acquire_held [OF ok1 pok1 nz run], goal_cases)
      case 1
      then show ?case using st ok1 pok1 same n by (intro got [of es1 "set (batch_of p1)" r1 p1]) simp_all
    next
      case (2 x p')
      moreover have "x < length es1 \<and> es1 ! x = Unwritten \<and> x < unat (qp_batch_start p1) + ?n"
        using pok1 2(2) n by (auto simp: mpmc_producer_ok_def)
      ultimately show ?case
        using st ok1 same n by (intro got [of es1 "set (batch_of p1)" r1 p']) auto
    qed
  qed
  show thesis
  proof (cases "qp_batch_unused p = 0")
    case False
    have "stocked ?n es (set (batch_of p)) es (set (batch_of p))" using False by (simp add: stocked_def)
    then show thesis
      using False mpmc_acquire_from [OF ok pok False refl]
      by (intro use [OF ok pok False]) (simp_all add: mpmc_acquire_slot_def)
  next
    case True
    show thesis
    proof (rule mpmc_refill_spec [OF ok room, where p = p], goal_cases)
      case 1
      have "stocked ?n es (set (batch_of p)) es {}" using 1(2) True by (simp add: stocked_def exI [of _ 0])
      then show thesis
        using ok pok True 1(1)
        by (intro got [of es "{}" r p]) (simp_all add: mpmc_acquire_slot_def)
    next
      case (2 k p1)
      let ?es = "es @ replicate k Unwritten" and ?r = "r\<lparr>q_claim := of_nat (length es + k)\<rparr>"
      have ok1: "mpmc_ring_ok ?es ?r" using mpmc_grown [OF ok, of k] 2(2) room by simp
      have nz: "qp_batch_unused p1 \<noteq> 0" using 2(1,5) batch_of_eq_Nil [of p1] by auto
      have pok1: "mpmc_producer_ok ?es ?r p1"
        using 2(3,5,6) by (auto simp: mpmc_producer_ok_def nth_append)
      have st: "stocked ?n es (set (batch_of p)) ?es (set (batch_of p1))"
        using True 2(1-3,5) by (auto simp: stocked_def intro!: exI [of _ k])
      show thesis
        using mpmc_acquire_from [OF ok1 pok1 nz refl] 2(4) True
        by (intro use [OF ok1 pok1 nz st _ 2(7)]) (simp_all add: mpmc_acquire_slot_def mpmc_books_def)
    qed
  qed
qed

section \<open>Writing, publishing, giving up\<close>

lemma open_slot:
  assumes ok: "mpmc_ring_ok es r" and x: "x < length es" "es ! x = Unwritten" "open_at (slots (q_capacity r)) es x"
  shows "unat (q_done r ! (x mod slots (q_capacity r))) = x" "q_done r ! (x mod slots (q_capacity r)) = of_nat x"
    "(q_done r)[x mod slots (q_capacity r) := of_nat x] = q_done r"
proof -
  show d: "unat (q_done r ! (x mod slots (q_capacity r))) = x"
    using done_word_open [OF mpmc_slot_serves [OF ok] slots_pos [OF mpmc_ring_okD(1) [OF ok]], of x x] x
    by (simp add: entry_of_def)
  then show "q_done r ! (x mod slots (q_capacity r)) = of_nat x" by (rule eq_of_nat_of_unat)
  then show "(q_done r)[x mod slots (q_capacity r) := of_nat x] = q_done r" by (metis list_update_id)
qed

text \<open>What lies in the cell of an unwritten position does not matter.\<close>

lemma mpmc_unwritten_cell:
  assumes ok: "mpmc_ring_ok es r" and x: "x < length es" "es ! x = Unwritten" "open_at (slots (q_capacity r)) es x"
  shows "mpmc_ring_ok es (r\<lparr>q_data := (q_data r)[x mod slots (q_capacity r) := y]\<rparr>)"
proof -
  let ?n = "slots (q_capacity r)" and ?s = "x mod slots (q_capacity r)"
  note o = open_slot [OF ok x]
  have "slot_serves ?n es ?s (q_done r ! ?s) (q_ready r ! ?s) (q_data r ! ?s)" by (rule mpmc_slot_serves [OF ok])
  then have "slot_serves ?n es ?s (q_done r ! ?s) (q_ready r ! ?s) y"
    using o x by (simp add: slot_serves_def entry_of_def)
  then show ?thesis
    by (intro mpmc_slot_update [OF ok, where s = ?s and x = x and dw = "q_done r ! ?s" and w = "q_ready r ! ?s"]) simp_all
qed

lemma mpmc_publish_spec:
  assumes ok: "mpmc_ring_ok es r" and x: "x < length es" "es ! x = Unwritten" "open_at (slots (q_capacity r)) es x"
    and v: "q_data r ! (x mod slots (q_capacity r)) = Some v"
  obtains r1 where "mpmc_publish (of_nat x) r = Inr r1" "mpmc_ring_ok (es[x := Offered v]) r1"
    "mpmc_books r1 = mpmc_books r"
proof -
  let ?n = "slots (q_capacity r)" and ?s = "x mod slots (q_capacity r)"
  note D = mpmc_ring_okD [OF ok] and o = open_slot [OF ok x]
  let ?r = "r\<lparr>q_ready := (q_ready r)[?s := rw_publish (of_nat x)]\<rparr>"
  have sv: "slot_serves ?n es ?s (q_done r ! ?s) (q_ready r ! ?s) (q_data r ! ?s)" by (rule mpmc_slot_serves [OF ok])
  have "mpmc_ring_ok (es[x := Offered v]) ?r"
    using slot_offer [OF sv, of v] o x(1) v
    by (intro mpmc_slot_update [OF ok, where s = ?s and x = x and dw = "of_nat x" and w = "of_nat x + PUBLISHED"
          and y = "Some v"]) (simp_all add: rw_publish_def, metis list_update_id)
  moreover have "mpmc_publish (of_nat x) r = Inr (mpmc_wake_consumer ?r)"
    using ok D(5) by (simp add: mpmc_publish_def mpmc_store_ready_def mpmc_load_ready_def mpmc_slot_of_nat [OF ok])
  moreover have "mpmc_books (mpmc_wake_consumer ?r) = mpmc_books r" by (simp add: mpmc_books_def)
  ultimately show ?thesis by (intro that [of "mpmc_wake_consumer ?r"]) simp_all
qed

lemma mpmc_fill:
  assumes ok: "mpmc_ring_ok es r" and x: "x < length es" "es ! x = Unwritten" "open_at (slots (q_capacity r)) es x"
    and cells_def: "cells = (q_data r)[x mod slots (q_capacity r) := Some v]"
  shows "cell_write (q_data r) (mpmc_slot r (of_nat x)) v = Inr cells"
    and "mpmc_ring_ok es (r\<lparr>q_data := cells\<rparr>)"
    and "cells ! (x mod slots (q_capacity r)) = Some v"
  using mpmc_unwritten_cell [OF ok x] mpmc_ring_okD(4) [OF ok] ok
  by (simp_all add: mpmc_slot_of_nat [OF ok] cells_def)

lemma mpmc_fill_publish:
  assumes ok: "mpmc_ring_ok es r" and x: "x < length es" "es ! x = Unwritten" "open_at (slots (q_capacity r)) es x"
  obtains r1 where
    "seq_exec (cell_write (q_data r) (mpmc_slot r (of_nat x)) v) (\<lambda>cells. mpmc_publish (of_nat x) (r\<lparr>q_data := cells\<rparr>)) = Inr r1"
    "mpmc_ring_ok (es[x := Offered v]) r1" "mpmc_books r1 = mpmc_books r"
proof (rule mpmc_publish_spec [OF mpmc_fill(2) [OF ok x refl] x(1,2), of v])
  fix r1
  assume "mpmc_publish (of_nat x) (r\<lparr>q_data := (q_data r)[x mod slots (q_capacity r) := Some v]\<rparr>) = Inr r1"
    "mpmc_ring_ok (es[x := Offered v]) r1"
    "mpmc_books r1 = mpmc_books (r\<lparr>q_data := (q_data r)[x mod slots (q_capacity r) := Some v]\<rparr>)"
  then show ?thesis
    using mpmc_fill(1) [OF ok x refl, of v] by (intro that [of r1]) (simp_all add: mpmc_books_def)
qed (use mpmc_fill(3) [OF ok x refl, of v] x(3) in simp_all)

lemma mpmc_push_spec:
  assumes ok: "mpmc_ring_ok es r" and pok: "mpmc_producer_ok es r p"
    and room: "length es + 32 + 2 * slots (q_capacity r) < 2 ^ 64"
  obtains es1 B1 p1 r1 where
    "stocked (slots (q_capacity r)) es (set (batch_of p)) es1 B1"
    "mpmc_books r1 = mpmc_books r" "qp_park_slot p1 = qp_park_slot p"
    "mpmc_push [] v p r = Inr (Push_Err v, p1, r1) \<and> mpmc_ring_ok es1 r1 \<and> mpmc_producer_ok es1 r1 p1
        \<and> set (batch_of p1) = B1 \<and> (\<forall>x \<in> B1. \<not> open_at (slots (q_capacity r)) es1 x)
     \<or> (\<exists>x \<in> B1. mpmc_push [] v p r = Inr (Push_Ok, p1, r1) \<and> open_at (slots (q_capacity r)) es1 x
          \<and> x < length es1 \<and> es1 ! x = Unwritten
          \<and> mpmc_ring_ok (es1[x := Offered v]) r1 \<and> mpmc_producer_ok (es1[x := Offered v]) r1 p1
          \<and> set (batch_of p1) = B1 - {x})"
proof (rule mpmc_acquire_spec [OF ok pok room])
  fix es1 B1 p' r1
  assume st: "stocked (slots (q_capacity r)) es (set (batch_of p)) es1 B1"
    and ok1: "mpmc_ring_ok es1 r1" and pok1: "mpmc_producer_ok es1 r1 p'" and books: "mpmc_books r1 = mpmc_books r"
    and park: "qp_park_slot p' = qp_park_slot p"
    and res: "mpmc_acquire_slot [] p r = Inr (None, p', r1) \<and> set (batch_of p') = B1
        \<and> (\<forall>x \<in> B1. \<not> open_at (slots (q_capacity r)) es1 x)
     \<or> (\<exists>x. mpmc_acquire_slot [] p r = Inr (Some (x - unat (qp_batch_start p'), of_nat x), p', r1)
          \<and> x \<in> B1 \<and> open_at (slots (q_capacity r)) es1 x \<and> set (batch_of p') = B1 - {x}
          \<and> x < length es1 \<and> es1 ! x = Unwritten \<and> x < unat (qp_batch_start p') + slots (q_capacity r)
          \<and> x - unat (qp_batch_start p') < 32 \<and> unat (qp_batch_start p') \<le> x)"
  from res show ?thesis
  proof (elim disjE exE conjE)
    assume "mpmc_acquire_slot [] p r = Inr (None, p', r1)" "set (batch_of p') = B1"
      "\<forall>x \<in> B1. \<not> open_at (slots (q_capacity r)) es1 x"
    then show ?thesis
      using st ok1 pok1 books park by (intro that [of es1 B1 r1 p']) (simp_all add: mpmc_push_def)
  next
    fix x
    assume run: "mpmc_acquire_slot [] p r = Inr (Some (x - unat (qp_batch_start p'), of_nat x), p', r1)"
      and x: "x \<in> B1" "open_at (slots (q_capacity r)) es1 x" "set (batch_of p') = B1 - {x}"
        "x < length es1" "es1 ! x = Unwritten"
    have n: "slots (q_capacity r1) = slots (q_capacity r)" using books by (simp add: mpmc_books_def)
    show ?thesis
    proof (rule mpmc_fill_publish [OF ok1 x(4,5), of v])
      fix r2
      assume fill: "seq_exec (cell_write (q_data r1) (mpmc_slot r1 (of_nat x)) v)
          (\<lambda>cells. mpmc_publish (of_nat x) (r1\<lparr>q_data := cells\<rparr>)) = Inr r2"
        and ok2: "mpmc_ring_ok (es1[x := Offered v]) r2" and same: "mpmc_books r2 = mpmc_books r1"
      have "mpmc_push [] v p r = Inr (Push_Ok, p', r2)"
        using run fill by (auto simp: mpmc_push_def seq_exec_eq_Inr)
      moreover have "mpmc_producer_ok (es1[x := Offered v]) r2 p'"
        using pok1 x(3) same by (auto simp: mpmc_producer_ok_def nth_list_update mpmc_books_def)
      ultimately show ?thesis
        using st ok2 same books park x by (intro that [of es1 B1 r2 p']) auto
    qed (use x(2) n in simp)
  qed
qed

end
