(* ===== verification/Mpmc_Handles.thy ===== *)
theory Mpmc_Handles
  imports Mpmc_Correct Queue "HOL-Library.Multiset"
begin

text \<open>
  What the other operations of the mpmc handles do to the positions: reservations that are
  committed or given up, pops and readers, joining, leaving, and the drop of the ring.
\<close>

lemma mpmc_books_capacity: "mpmc_books r' = mpmc_books r \<Longrightarrow> q_capacity r' = q_capacity r"
  by (simp add: mpmc_books_def)

lemma mpmc_producer_ok_update:
  assumes "mpmc_producer_ok es r p" and "x \<notin> set (batch_of p)" and "q_capacity r' = q_capacity r"
  shows "mpmc_producer_ok (es[x := e]) r' p"
  unfolding mpmc_producer_ok_def
proof
  fix y assume y: "y \<in> set (batch_of p)"
  then have "y \<noteq> x" using assms(2) by auto
  then show "y < length (es[x := e]) \<and> es[x := e] ! y = Unwritten
      \<and> y < unat (qp_batch_start p) + slots (q_capacity r')"
    using y assms(1,3) by (simp add: mpmc_producer_ok_def)
qed

section \<open>Reservations\<close>

text \<open>A writer stands for a position its producer has taken out of its batch.\<close>

definition mpmc_writer_at :: "mpmc_producer \<Rightarrow> nat \<Rightarrow> mpmc_slot_writer" where
  "mpmc_writer_at p x = \<lparr>qw_pos = of_nat x, qw_bit = x - unat (qp_batch_start p)\<rparr>"

definition writer_fits :: "'a pool_entry list \<Rightarrow> 'a mpmc_ring \<Rightarrow> mpmc_producer \<Rightarrow> nat \<Rightarrow> bool" where
  "writer_fits es r p x \<longleftrightarrow>
     x < length es \<and> es ! x = Unwritten \<and> open_at (slots (q_capacity r)) es x
     \<and> unat (qp_batch_start p) \<le> x \<and> x - unat (qp_batch_start p) < 32
     \<and> x < unat (qp_batch_start p) + slots (q_capacity r)"

lemma set_batch_of:
  "set (batch_of p) = (+) (unat (qp_batch_start p)) ` {i. bit (qp_batch_unused p) i}"
  by (auto simp: batch_of_def)

lemma batch_of_with:
  assumes "unat (qp_batch_start p) \<le> x" and "x - unat (qp_batch_start p) < 32"
  shows "set (batch_of (p\<lparr>qp_batch_unused := qp_batch_unused p OR push_bit (x - unat (qp_batch_start p)) 1\<rparr>))
    = insert x (set (batch_of p))"
proof -
  have "bit (qp_batch_unused p OR push_bit (x - unat (qp_batch_start p)) 1) i
      \<longleftrightarrow> bit (qp_batch_unused p) i \<or> i = x - unat (qp_batch_start p)" for i
    using assms(2) by (auto simp: bit_simps dest: bit_u32_less)
  then have "{i. bit (qp_batch_unused p OR push_bit (x - unat (qp_batch_start p)) 1) i}
      = insert (x - unat (qp_batch_start p)) {i. bit (qp_batch_unused p) i}" by auto
  then show ?thesis using assms(1) by (simp add: set_batch_of del: push_bit_of_1)
qed

lemma mpmc_return_bit:
  assumes "mpmc_producer_ok es r p" and "writer_fits es r p x"
  defines "p' \<equiv> p\<lparr>qp_batch_unused := qp_batch_unused p OR push_bit (x - unat (qp_batch_start p)) 1\<rparr>"
  shows "mpmc_producer_ok es r p'" "set (batch_of p') = insert x (set (batch_of p))"
proof -
  show set: "set (batch_of p') = insert x (set (batch_of p))"
    unfolding p'_def by (rule batch_of_with) (use assms(2) in \<open>simp_all add: writer_fits_def\<close>)
  show "mpmc_producer_ok es r p'"
    unfolding mpmc_producer_ok_def set using assms(1,2) by (auto simp: mpmc_producer_ok_def writer_fits_def p'_def)
qed

lemma mpmc_writer_drop_spec:
  assumes "mpmc_producer_ok es r p" and "writer_fits es r p x"
  shows "mpmc_producer_ok es r (mpmc_slot_writer_drop (mpmc_writer_at p x) p)"
    and "set (batch_of (mpmc_slot_writer_drop (mpmc_writer_at p x) p)) = insert x (set (batch_of p))"
    and "qp_park_slot (mpmc_slot_writer_drop (mpmc_writer_at p x) p) = qp_park_slot p"
  using mpmc_return_bit [OF assms] by (simp_all add: mpmc_slot_writer_drop_def mpmc_writer_at_def)

lemma mpmc_write_commit_spec:
  assumes ok: "mpmc_ring_ok es r" and pok: "mpmc_producer_ok es r p" and w: "writer_fits es r p x"
    and out: "x \<notin> set (batch_of p)"
  obtains ws r1 r2 where "mpmc_write (mpmc_writer_at p x) v r = Inr (ws, r1)"
    "mpmc_commit dtor ws p r1 = Inr (Returned, p, r2)"
    "mpmc_ring_ok (es[x := Offered v]) r2" "mpmc_books r2 = mpmc_books r"
    "mpmc_producer_ok (es[x := Offered v]) r2 p"
proof -
  have x: "x < length es" "es ! x = Unwritten" "open_at (slots (q_capacity r)) es x"
    using w by (simp_all add: writer_fits_def)
  let ?cells = "(q_data r)[x mod slots (q_capacity r) := Some v]"
  note fill = mpmc_fill [OF ok x refl, of v]
  let ?ws = "\<lparr>qv_value = uncommitted_armed (mpmc_slot r (of_nat x)), qv_pos = of_nat x,
    qv_bit = x - unat (qp_batch_start p)\<rparr>"
  have put: "mpmc_write (mpmc_writer_at p x) v r = Inr (?ws, r\<lparr>q_data := ?cells\<rparr>)"
    using fill(1) by (simp add: mpmc_write_def mpmc_writer_at_def)
  obtain r2 where r2: "mpmc_publish (of_nat x) (r\<lparr>q_data := ?cells\<rparr>) = Inr r2"
    "mpmc_ring_ok (es[x := Offered v]) r2" "mpmc_books r2 = mpmc_books (r\<lparr>q_data := ?cells\<rparr>)"
    by (rule mpmc_publish_spec [OF fill(2) x(1,2), of v]) (use fill(3) x(3) in simp_all)
  have "mpmc_commit dtor ?ws p (r\<lparr>q_data := ?cells\<rparr>) = Inr (Returned, p, r2)"
    using r2(1) by (simp add: mpmc_commit_def mpmc_written_slot_drop_def uncommitted_is_armed_def
        uncommitted_commit_def)
  moreover have "mpmc_producer_ok (es[x := Offered v]) r2 p"
    by (rule mpmc_producer_ok_update [OF pok out]) (use r2(3) in \<open>simp add: mpmc_books_def\<close>)
  ultimately show ?thesis using put r2 by (intro that [of ?ws "r\<lparr>q_data := ?cells\<rparr>" r2]) (simp_all add: mpmc_books_def)
qed

lemma mpmc_write_drop_spec:
  assumes ok: "mpmc_ring_ok es r" and pok: "mpmc_producer_ok es r p" and w: "writer_fits es r p x"
  obtains ws r1 r2 p1 where "mpmc_write (mpmc_writer_at p x) v r = Inr (ws, r1)"
    "mpmc_written_slot_drop dtor ws p r1 = Inr (dtor v, p1, r2\<lparr>q_dropped := q_dropped r @ [v]\<rparr>)"
    "mpmc_ring_ok es r2" "mpmc_books r2 = mpmc_books r" "mpmc_producer_ok es r2 p1"
    "set (batch_of p1) = insert x (set (batch_of p))" "qp_park_slot p1 = qp_park_slot p"
proof -
  have x: "x < length es" "es ! x = Unwritten" "open_at (slots (q_capacity r)) es x"
    using w by (simp_all add: writer_fits_def)
  let ?s = "x mod slots (q_capacity r)"
  let ?cells = "(q_data r)[?s := Some v]"
  note fill = mpmc_fill [OF ok x refl, of v]
  let ?ws = "\<lparr>qv_value = uncommitted_armed (mpmc_slot r (of_nat x)), qv_pos = of_nat x,
    qv_bit = x - unat (qp_batch_start p)\<rparr>"
  let ?p = "mpmc_reservation_return (x - unat (qp_batch_start p)) p"
  have put: "mpmc_write (mpmc_writer_at p x) v r = Inr (?ws, r\<lparr>q_data := ?cells\<rparr>)"
    using fill(1) by (simp add: mpmc_write_def mpmc_writer_at_def)
  let ?r2 = "r\<lparr>q_data := ?cells[?s := None]\<rparr>"
  have drop: "drop_if_uncommitted (uncommitted_armed ?s) ?cells
      = Inr (True, [v], \<lparr>data_at = ?s, armed = False\<rparr>, ?cells[?s := None])"
    using mpmc_ring_okD(4) [OF ok] ok by (simp add: drop_if_uncommitted_def uncommitted_armed_def)
  have "(if \<exists>u \<in> set [v]. dtor u = Panicked then Panicked else Returned) = dtor v"
    by (cases "dtor v") simp_all
  then have "mpmc_written_slot_drop dtor ?ws p (r\<lparr>q_data := ?cells\<rparr>) = Inr (dtor v, ?p, ?r2\<lparr>q_dropped := q_dropped r @ [v]\<rparr>)"
    using drop
    by (simp add: mpmc_written_slot_drop_def uncommitted_is_armed_def mpmc_slot_of_nat [OF ok])
      (simp add: uncommitted_armed_def)
  moreover have "mpmc_ring_ok es ?r2" using mpmc_unwritten_cell [OF fill(2) x(1,2), of None] x(3) by simp
  moreover have "mpmc_producer_ok es r ?p" "set (batch_of ?p) = insert x (set (batch_of p))"
    using mpmc_return_bit [OF pok w] by (simp_all add: mpmc_reservation_return_def)
  ultimately show ?thesis
    using put
    by (intro that [of ?ws "r\<lparr>q_data := ?cells\<rparr>" ?p ?r2])
      (simp_all add: mpmc_books_def mpmc_producer_ok_def mpmc_reservation_return_def)
qed

section \<open>Taking\<close>

lemma books_claimed [simp]: "mpmc_books ((mpmc_claimed x r)\<lparr>q_consumed := m\<rparr>) = mpmc_books r"
  by (simp add: mpmc_books_def mpmc_claimed_def)

lemma mpmc_pop_spec:
  assumes ok: "mpmc_ring_ok es r" and room: "unat (qc_next_scan c) + 2 * slots (q_capacity r) < 2 ^ 64"
  obtains (popped) x v c' r' where "mpmc_pop [] c r = Inr (Some v, c', r')"
      "x < length es" "es ! x = Offered v" "mpmc_ring_ok (es[x := Settled]) r'" "mpmc_books r' = mpmc_books r"
      "unat (qc_next_scan c') \<le> max (length es) (Suc (unat (qc_next_scan c)))" "qc_park_slot c' = qc_park_slot c"
  | (none) c' where "mpmc_pop [] c r = Inr (None, c', r)" "no_offers es"
      "unat (qc_next_scan c') = unat (qc_next_scan c) + slots (q_capacity r)" "qc_park_slot c' = qc_park_slot c"
proof (rule mpmc_claim_slot_spec [OF ok room])
  fix pos x v c' m
  assume claim: "mpmc_claim_slot [] c r = Inr (Some (pos, of_nat x), c', (mpmc_claimed x r)\<lparr>q_consumed := m\<rparr>)"
    and pos: "mpmc_slot r pos = x mod slots (q_capacity r)" and x: "x < length es" "es ! x = Offered v"
    and ok1: "mpmc_ring_ok (es[x := Borrowed v]) ((mpmc_claimed x r)\<lparr>q_consumed := m\<rparr>)"
    and cur: "unat (qc_next_scan c') = max (Suc x) (Suc (unat (qc_next_scan c)))" "qc_park_slot c' = qc_park_slot c"
  let ?r = "(mpmc_claimed x r)\<lparr>q_consumed := m\<rparr>"
  have slot: "mpmc_slot ?r pos = x mod slots (q_capacity ?r)" using pos by (simp add: mpmc_slot_def mpmc_claimed_def)
  show ?thesis
  proof (rule mpmc_release_spec [OF ok1 _ _ slot, of v])
    fix r1 r2
    assume "mpmc_take_data pos ?r = Inr (v, r1)" "mpmc_release_done pos (of_nat x) r1 = Inr r2"
      "mpmc_ring_ok (es[x := Borrowed v, x := Settled]) r2" "mpmc_books r2 = mpmc_books ?r"
    then show ?thesis
      using claim x cur
      by (intro popped [of v c' "mpmc_wake_producer_for (of_nat x + capacity_get (q_capacity r2)) r2" x])
        (simp_all add: mpmc_pop_def)
  qed (use x in simp_all)
next
  fix c'
  assume "mpmc_claim_slot [] c r = Inr (None, c', r)" "no_offers es"
    "unat (qc_next_scan c') = unat (qc_next_scan c) + slots (q_capacity r)" "qc_park_slot c' = qc_park_slot c"
  then show ?thesis by (intro none [of c']) (simp_all add: mpmc_pop_def)
qed

text \<open>A reader stands for a position its consumer has claimed.\<close>

definition reader_fits :: "'a pool_entry list \<Rightarrow> 'a mpmc_ring \<Rightarrow> mpmc_slot_reader \<Rightarrow> nat \<Rightarrow> bool" where
  "reader_fits es r rd x \<longleftrightarrow>
     qr_round_pos rd = of_nat x \<and> mpmc_slot r (qr_pos rd) = x mod slots (q_capacity r)
     \<and> x < length es \<and> (\<exists>v. es ! x = Borrowed v)"

lemma mpmc_pop_ref_spec:
  assumes ok: "mpmc_ring_ok es r" and room: "unat (qc_next_scan c) + 2 * slots (q_capacity r) < 2 ^ 64"
  obtains (opened) rd x v c' r' where "mpmc_pop_ref [] c r = Inr (Some rd, c', r')"
      "x < length es" "es ! x = Offered v" "mpmc_ring_ok (es[x := Borrowed v]) r'" "mpmc_books r' = mpmc_books r"
      "reader_fits (es[x := Borrowed v]) r' rd x" "mpmc_reader_deref rd r' = Inr v"
      "unat (qc_next_scan c') \<le> max (length es) (Suc (unat (qc_next_scan c)))" "qc_park_slot c' = qc_park_slot c"
  | (none) c' where "mpmc_pop_ref [] c r = Inr (None, c', r)" "no_offers es"
      "unat (qc_next_scan c') \<le> unat (qc_next_scan c) + slots (q_capacity r)" "qc_park_slot c' = qc_park_slot c"
proof (rule mpmc_claim_slot_spec [OF ok room])
  fix pos x v c' m
  assume claim: "mpmc_claim_slot [] c r = Inr (Some (pos, of_nat x), c', (mpmc_claimed x r)\<lparr>q_consumed := m\<rparr>)"
    and pos: "mpmc_slot r pos = x mod slots (q_capacity r)" and x: "x < length es" "es ! x = Offered v"
    and ok1: "mpmc_ring_ok (es[x := Borrowed v]) ((mpmc_claimed x r)\<lparr>q_consumed := m\<rparr>)"
    and cur: "unat (qc_next_scan c') = max (Suc x) (Suc (unat (qc_next_scan c)))" "qc_park_slot c' = qc_park_slot c"
  let ?r = "(mpmc_claimed x r)\<lparr>q_consumed := m\<rparr>" and ?rd = "\<lparr>qr_pos = pos, qr_round_pos = of_nat x\<rparr>"
  have slot: "mpmc_slot ?r pos = x mod slots (q_capacity ?r)" using pos by (simp add: mpmc_slot_def mpmc_claimed_def)
  have "mpmc_reader_deref ?rd ?r = Inr v"
    by (rule mpmc_release_spec [OF ok1 _ _ slot, of v]) (use x in \<open>simp_all add: mpmc_reader_deref_def\<close>)
  moreover have "reader_fits (es[x := Borrowed v]) ?r ?rd x" using slot x by (simp add: reader_fits_def)
  ultimately show ?thesis
    using claim x cur ok1 by (intro opened [of ?rd c' ?r x v]) (simp_all add: mpmc_pop_ref_def mpmc_reader_for_def)
next
  fix c'
  assume "mpmc_claim_slot [] c r = Inr (None, c', r)" "no_offers es"
    "unat (qc_next_scan c') = unat (qc_next_scan c) + slots (q_capacity r)" "qc_park_slot c' = qc_park_slot c"
  then show ?thesis by (intro none [of c']) (simp_all add: mpmc_pop_ref_def)
qed

lemma mpmc_reader_drop_spec:
  assumes ok: "mpmc_ring_ok es r" and fits: "reader_fits es r rd x"
  obtains v r' where "es ! x = Borrowed v" "mpmc_reader_deref rd r = Inr v"
    "mpmc_reader_drop dtor rd r = Inr (dtor v, r'\<lparr>q_dropped := q_dropped r @ [v]\<rparr>)"
    "mpmc_ring_ok (es[x := Settled]) r'" "mpmc_books r' = mpmc_books r"
proof -
  obtain v where v: "es ! x = Borrowed v" "x < length es" using fits by (auto simp: reader_fits_def)
  show thesis
  proof (rule mpmc_release_spec [OF ok v(2,1), of "qr_pos rd" "q_dropped r @ [v]"])
    fix r1 r2
    assume take: "mpmc_take_data (qr_pos rd) r = Inr (v, r1)" and peek: "cell_peek (q_data r) (mpmc_slot r (qr_pos rd)) = Inr v"
      and rel: "mpmc_release_done (qr_pos rd) (of_nat x) (r1\<lparr>q_dropped := q_dropped r @ [v]\<rparr>)
          = Inr (r2\<lparr>q_dropped := q_dropped r @ [v]\<rparr>)"
      and books: "mpmc_books r1 = mpmc_books r" "mpmc_books r2 = mpmc_books r"
      and ok2: "mpmc_ring_ok (es[x := Settled]) r2"
    let ?p = "of_nat x + capacity_get (q_capacity r2)"
    let ?r' = "mpmc_wake_producer_for ?p (r2\<lparr>q_dropped := q_dropped r @ [v]\<rparr>)"
    have "mpmc_reader_drop dtor rd r = Inr (dtor v, ?r')"
      using take rel fits books by (simp add: mpmc_reader_drop_def mpmc_slot_release_drop_def reader_fits_def mpmc_books_def)
    moreover have "?r' = (?r'\<lparr>q_dropped := q_dropped r\<rparr>)\<lparr>q_dropped := q_dropped r @ [v]\<rparr>"
      by (simp add: mpmc_wake_producer_for_def case_prod_beta)
    moreover have "mpmc_ring_ok (es[x := Settled]) (?r'\<lparr>q_dropped := q_dropped r\<rparr>)"
      using ok2 by (simp add: mpmc_ring_ok_def)
    moreover have "mpmc_books (?r'\<lparr>q_dropped := q_dropped r\<rparr>) = mpmc_books r"
      using books(2) by (simp add: mpmc_books_def)
    ultimately show thesis
      using v(1) peek by (intro that [of v "?r'\<lparr>q_dropped := q_dropped r\<rparr>"]) (simp_all add: mpmc_reader_deref_def)
  qed (use fits in \<open>simp add: reader_fits_def\<close>)
qed

section \<open>Leaving with positions in hand\<close>

definition given_up :: "nat \<Rightarrow> 'a pool_entry list \<Rightarrow> nat set \<Rightarrow> 'a pool_entry list" where
  "given_up n es B = map (\<lambda>p. if p \<in> B \<and> open_at n es p then Settled else es ! p) [0..<length es]"

lemma length_given_up [simp]: "length (given_up n es B) = length es"
  by (simp add: given_up_def)

lemma nth_given_up [simp]:
  "p < length es \<Longrightarrow> given_up n es B ! p = (if p \<in> B \<and> open_at n es p then Settled else es ! p)"
  by (simp add: given_up_def)

lemma given_up_empty [simp]: "given_up n es {} = es"
  by (rule nth_equalityI) simp_all

text \<open>Within one lap, giving up a position opens none of the others.\<close>

lemma open_at_other:
  assumes "x < a + n" and "a \<le> x" "a \<le> y" "y < a + n"
  shows "open_at n (es[x := e]) y = open_at n es y"
proof -
  have "y - n \<noteq> x" if "\<not> y < n" using assms that by linarith
  then show ?thesis by (auto simp: open_at_def)
qed

lemma given_up_insert:
  assumes "open_at n es x" and "x < length es" "x \<notin> B"
    and "\<And>y. y \<in> insert x B \<Longrightarrow> a \<le> y \<and> y < a + n"
  shows "given_up n (es[x := Settled]) B = given_up n es (insert x B)"
proof (rule nth_equalityI)
  fix p assume p: "p < length (given_up n (es[x := Settled]) B)"
  show "given_up n (es[x := Settled]) B ! p = given_up n es (insert x B) ! p"
  proof (cases "p \<in> B")
    case True
    then have "open_at n (es[x := Settled]) p = open_at n es p"
      using assms(4) by (intro open_at_other [of x a]) auto
    moreover have "p \<noteq> x" using True assms(3) by auto
    ultimately show ?thesis using p True by simp
  qed (use p assms(1-3) in \<open>auto simp: nth_list_update\<close>)
qed simp

lemma given_up_blocked:
  assumes "\<not> open_at n es x"
  shows "given_up n es (insert x B) = given_up n es B"
  by (rule nth_equalityI) (use assms in auto)

lemma mpmc_abandon_release_spec:
  assumes ok: "mpmc_ring_ok es r" and x: "x < length es" "es ! x = Unwritten"
  obtains (freed) r' where "open_at (slots (q_capacity r)) es x"
      "mpmc_abandon_release [] (of_nat x) r = Inr (Some (r', []))" "mpmc_ring_ok (es[x := Settled]) r'"
      "mpmc_books r' = mpmc_books r"
  | (deserted) "\<not> open_at (slots (q_capacity r)) es x" "is_closed (q_consumer_closed r)"
      "mpmc_abandon_release [] (of_nat x) r = Inr (Some (r, []))"
  | (waiting) "\<not> open_at (slots (q_capacity r)) es x" "\<not> is_closed (q_consumer_closed r)"
      "mpmc_abandon_release [] (of_nat x) r = Inr None"
proof -
  let ?n = "slots (q_capacity r)" and ?s = "x mod slots (q_capacity r)"
  note D = mpmc_ring_okD [OF ok]
  have free: "mpmc_is_free_for (of_nat x) r = Inr (open_at ?n es x)"
    using mpmc_is_free_for_spec [OF ok, of x] x by (simp add: entry_of_def)
  show thesis
  proof (cases "open_at ?n es x")
    case True
    note o = open_slot [OF ok x True]
    let ?r2 = "r\<lparr>q_ready := (q_ready r)[?s := of_nat x + CLAIMED]\<rparr>"
    let ?r3 = "?r2\<lparr>q_done := (q_done r)[?s := of_nat x + of_nat ?n]\<rparr>"
    let ?r4 = "mpmc_wake_producer_for (of_nat x + capacity_get (q_capacity ?r3)) ?r3"
    have sv: "slot_serves ?n es ?s (q_done r ! ?s) (q_ready r ! ?s) (q_data r ! ?s)" by (rule mpmc_slot_serves [OF ok])
    have "slot_serves ?n (es[x := Settled]) ?s (of_nat x + of_nat ?n) (of_nat x + CLAIMED) (q_data r ! ?s)"
      using slot_settle [OF sv, unfolded o(1), unfolded o(2)] x(1) D(8) slots_pos [OF D(1)] by simp
    then have "mpmc_ring_ok (es[x := Settled]) ?r3"
      by (intro mpmc_slot_update [OF ok, where s = ?s and x = x and dw = "of_nat x + of_nat ?n"
            and w = "of_nat x + CLAIMED" and y = "q_data r ! ?s"]) simp_all
    moreover have "mpmc_abandon_release [] (of_nat x) r = Inr (Some (?r4, []))"
      using True free ok D(5,6)
      by (simp add: mpmc_abandon_release_def mpmc_store_ready_def mpmc_load_ready_def mpmc_release_done_def
          mpmc_is_free_for_def mpmc_slot_of_nat [OF ok] rw_abandon_def md_release_def capacity_get_def)
        (simp add: mpmc_slot_def slot_of_of_nat [OF D(1)])
    ultimately show thesis using True by (intro freed [of ?r4]) (simp_all add: mpmc_books_def)
  next
    case False
    then show thesis
      using free deserted waiting by (cases "is_closed (q_consumer_closed r)") (simp_all add: mpmc_abandon_release_def)
  qed
qed

lemma mpmc_release_all_spec:
  assumes "mpmc_ring_ok es r"
    and "\<And>i. bit bits i \<Longrightarrow> unat start + i < length es \<and> es ! (unat start + i) = Unwritten \<and> i < slots (q_capacity r)"
  defines "B \<equiv> (\<lambda>w. (+) (unat start) ` {i. bit w i})"
  shows "if (\<exists>x \<in> B bits. \<not> open_at (slots (q_capacity r)) es x) \<and> \<not> is_closed (q_consumer_closed r)
    then mpmc_release_all [] start bits r = Inr None
    else \<exists>r'. mpmc_release_all [] start bits r = Inr (Some r')
      \<and> mpmc_ring_ok (given_up (slots (q_capacity r)) es (B bits)) r' \<and> mpmc_books r' = mpmc_books r"
  using assms(1,2)
proof (induction "length (set_bits_of bits)" arbitrary: bits es r rule: less_induct)
  case less
  let ?n = "slots (q_capacity r)"
  show ?case
  proof (cases "bits = 0")
    case True
    then have "B bits = {}" by (auto simp: B_def)
    then show ?thesis using True less.prems(1) by (subst mpmc_release_all.simps) simp
  next
    case False
    let ?b = "trailing_zeros bits"
    define low where "low = bits AND (bits - 1)"
    let ?x = "unat start + ?b"
    have b: "bit bits ?b" using trailing_zeros_bit [OF False] by simp
    have x: "?x < length es" "es ! ?x = Unwritten" "?b < ?n" using less.prems(2) [OF b] by simp_all
    have rest: "bit low i \<longleftrightarrow> bit bits i \<and> i \<noteq> ?b" for i unfolding low_def by (rule clear_lowest_bits [OF False])
    have "{i. bit bits i} = insert ?b {i. bit low i}" using rest b by blast
    then have B: "B bits = insert ?x (B low)" by (simp only: B_def image_insert)
    have "\<not> bit low ?b" using rest [of ?b] by blast
    then have fresh: "?x \<notin> B low" unfolding B_def by auto
    have lap: "unat start \<le> y \<and> y < unat start + ?n" if "y \<in> B bits" for y
      using that less.prems(2) by (auto simp: B_def)
    have len: "length (set_bits_of low) < length (set_bits_of bits)" unfolding low_def by (rule length_set_bits_of_less [OF False])
    have unfold: "mpmc_release_all [] start bits r = seq_exec (mpmc_abandon_release [] (of_nat ?x) r) (\<lambda>res.
        case res of None \<Rightarrow> Inr None | Some (r1, fs1) \<Rightarrow> mpmc_release_all fs1 start low r1)"
      using False by (subst mpmc_release_all.simps) (simp add: low_def)
    show ?thesis
    proof (rule mpmc_abandon_release_spec [OF less.prems(1) x(1,2)], goal_cases)
      case (1 r1)
      have cap: "q_capacity r1 = q_capacity r" "is_closed (q_consumer_closed r1) = is_closed (q_consumer_closed r)"
        using 1(4) by (simp_all add: mpmc_books_def)
      have other: "open_at ?n (es[?x := Settled]) y = open_at ?n es y" if "y \<in> B low" for y
        using lap [of y] lap [of ?x] that B by (intro open_at_other [of ?x "unat start"]) auto
      have "(unat start + i < length (es[?x := Settled]) \<and> es[?x := Settled] ! (unat start + i) = Unwritten
          \<and> i < slots (q_capacity r1))" if "bit low i" for i
        using that less.prems(2) [of i] rest [of i] by (simp add: cap)
      note IH = less.hyps [OF len 1(3) this, unfolded cap 1(4)]
      have up: "given_up ?n (es[?x := Settled]) (B low) = given_up ?n es (B bits)"
        unfolding B by (rule given_up_insert [OF 1(1) x(1) fresh lap [unfolded B]])
      have blocked: "(\<exists>y \<in> B low. \<not> open_at ?n (es[?x := Settled]) y) = (\<exists>y \<in> B bits. \<not> open_at ?n es y)"
        using other 1(1) by (auto simp: B)
      have "mpmc_release_all [] start bits r = mpmc_release_all [] start low r1" using unfold 1(2) by simp
      then show ?case using IH by (simp only: up blocked) simp
    next
      case 2
      have "(unat start + i < length es \<and> es ! (unat start + i) = Unwritten \<and> i < ?n)" if "bit low i" for i
        using that less.prems(2) [of i] rest [of i] by simp
      note IH = less.hyps [OF len less.prems(1) this]
      have up: "given_up ?n es (B low) = given_up ?n es (B bits)"
        unfolding B by (rule given_up_blocked [OF 2(1), symmetric])
      have "mpmc_release_all [] start bits r = mpmc_release_all [] start low r" using unfold 2(3) by simp
      then show ?case using IH 2(2) by (simp add: up)
    next
      case 3
      then show ?case using unfold by (auto simp: B)
    qed
  qed
qed

lemma mpmc_producer_drop_spec:
  assumes ok: "mpmc_ring_ok es r" and pok: "mpmc_producer_ok es r p"
  defines "B \<equiv> set (batch_of p)" and "n \<equiv> slots (q_capacity r)"
  shows "if (\<exists>x \<in> B. \<not> open_at n es x) \<and> \<not> is_closed (q_consumer_closed r)
    then mpmc_producer_drop [] p r = Inr None
    else \<exists>r'. mpmc_producer_drop [] p r = Inr (Some r') \<and> mpmc_ring_ok (given_up n es B) r'
      \<and> q_capacity r' = q_capacity r \<and> q_consumer_count r' = q_consumer_count r \<and> q_dropped r' = q_dropped r
      \<and> is_closed (q_consumer_closed r') = is_closed (q_consumer_closed r)
      \<and> q_producer_count r' = snd (endpoint_release (q_producer_count r))
      \<and> is_closed (q_closed r') = (is_closed (q_closed r) \<or> fst (endpoint_release (q_producer_count r)))"
proof -
  have held: "unat (qp_batch_start p) + i < length es \<and> es ! (unat (qp_batch_start p) + i) = Unwritten \<and> i < n"
    if "bit (qp_batch_unused p) i" for i
    using pok that by (auto simp: mpmc_producer_ok_def set_batch_of n_def)
  have all: "if (\<exists>x \<in> B. \<not> open_at n es x) \<and> \<not> is_closed (q_consumer_closed r)
    then mpmc_release_all [] (qp_batch_start p) (qp_batch_unused p) r = Inr None
    else \<exists>r'. mpmc_release_all [] (qp_batch_start p) (qp_batch_unused p) r = Inr (Some r')
      \<and> mpmc_ring_ok (given_up n es B) r' \<and> mpmc_books r' = mpmc_books r"
    using mpmc_release_all_spec [OF ok, of "qp_batch_unused p" "qp_batch_start p"] held
    unfolding B_def set_batch_of n_def by blast
  show ?thesis
  proof (cases "(\<exists>x \<in> B. \<not> open_at n es x) \<and> \<not> is_closed (q_consumer_closed r)")
    case True
    then show ?thesis using all by (simp add: mpmc_producer_drop_def)
  next
    case False
    then obtain r1 where r1: "mpmc_release_all [] (qp_batch_start p) (qp_batch_unused p) r = Inr (Some r1)"
      "mpmc_ring_ok (given_up n es B) r1" "mpmc_books r1 = mpmc_books r"
      using all by (auto simp only: if_False)
    obtain ws where "mpmc_retract_awaited p r1 = r1\<lparr>q_awaited := ws\<rparr>"
      by (cases "park_slot_index (qp_park_slot p)"; cases r1) (auto simp: mpmc_retract_awaited_def)
    then show ?thesis
      using False r1
      by (auto simp: mpmc_producer_drop_def mpmc_books_def Let_def case_prod_beta
          intro!: mpmc_ring_ok_cong [OF r1(2)])
  qed
qed

section \<open>Joining and the consumer's drop\<close>

lemma mpmc_producer_clone_spec:
  assumes ok: "mpmc_ring_ok es r"
  obtains p r' where "mpmc_producer_clone r = (p, r')" "mpmc_ring_ok es r'" "qp_batch_unused p = 0"
    "q_producer_count r' = endpoint_register (q_producer_count r)" "q_capacity r' = q_capacity r"
    "q_consumer_count r' = q_consumer_count r" "q_dropped r' = q_dropped r"
    "q_closed r' = q_closed r" "q_consumer_closed r' = q_consumer_closed r"
  using ok
  by (auto simp: mpmc_producer_clone_def Let_def case_prod_beta mpmc_ring_ok_def)

lemma mpmc_consumer_clone_spec:
  assumes ok: "mpmc_ring_ok es r"
  obtains c r' where "mpmc_consumer_clone r = (c, r')" "mpmc_ring_ok es r'"
    "unat (qc_next_scan c) < slots (q_capacity r)"
    "q_consumer_count r' = endpoint_register (q_consumer_count r)" "q_capacity r' = q_capacity r"
    "q_producer_count r' = q_producer_count r" "q_dropped r' = q_dropped r"
    "q_closed r' = q_closed r" "q_consumer_closed r' = q_consumer_closed r"
proof -
  have "unat (index_of (q_capacity r) w) < slots (q_capacity r)" for w
    by (rule slot_of_lt [OF mpmc_ring_okD(1) [OF ok]])
  then show thesis
    using ok that
    by (auto simp: mpmc_consumer_clone_def Let_def case_prod_beta mpmc_ring_ok_def)
qed

lemma mpmc_consumer_drop_spec:
  assumes ok: "mpmc_ring_ok es r" and r'_def: "r' = mpmc_consumer_drop c r"
  shows "mpmc_ring_ok es r'" "q_capacity r' = q_capacity r" "q_dropped r' = q_dropped r"
    "q_producer_count r' = q_producer_count r" "is_closed (q_closed r') = is_closed (q_closed r)"
    "q_consumer_count r' = snd (endpoint_release (q_consumer_count r))"
    "is_closed (q_consumer_closed r') = (is_closed (q_consumer_closed r) \<or> fst (endpoint_release (q_consumer_count r)))"
  using ok by (auto simp: r'_def mpmc_consumer_drop_def Let_def case_prod_beta mpmc_ring_ok_def)

section \<open>Dropping the ring\<close>

fun left_in :: "'a pool_entry \<Rightarrow> 'a option" where
  "left_in (Offered v) = Some v"
| "left_in (Borrowed v) = Some v"
| "left_in _ = None"

definition pool_values :: "'a pool_entry list \<Rightarrow> 'a list" where
  "pool_values es = List.map_filter left_in es"

definition slot_value :: "'a pool_entry list \<Rightarrow> 'a mpmc_ring \<Rightarrow> nat \<Rightarrow> 'a option" where
  "slot_value es r s = left_in (entry_of es (unat (q_done r ! s)))"

lemma mpmc_holds_value_spec:
  assumes ok: "mpmc_ring_ok es r" and s: "s < slots (q_capacity r)"
    and same: "q_ready r' = q_ready r" "q_done r' = q_done r" "q_capacity r' = q_capacity r"
  shows "mpmc_holds_value (of_nat s) r' = Inr (slot_value es r s \<noteq> None)"
    and "slot_value es r s = Some v \<Longrightarrow> q_data r ! s = Some v"
proof -
  let ?n = "slots (q_capacity r)" and ?d = "unat (q_done r ! s)"
  note D = mpmc_ring_okD [OF ok]
  have m: "s mod ?n = s" using s by simp
  have sv: "slot_serves ?n es s (q_done r ! s) (q_ready r ! s) (q_data r ! s)"
    using mpmc_slot_serves [OF ok, of s] by (simp add: m)
  then have occ: "occupant_ok ?n ?d (entry_of es ?d) (q_ready r ! s) (q_data r ! s)"
    by (simp add: slot_serves_def)
  then show "slot_value es r s = Some v \<Longrightarrow> q_data r ! s = Some v"
    by (cases "entry_of es ?d") (simp_all add: slot_value_def)
  have state: "mpmc_ready_state (of_nat s) r' = mpmc_ready_state (of_nat s) r"
    by (simp add: mpmc_ready_state_def mpmc_load_ready_def mpmc_slot_def same)
  have slot: "mpmc_slot r' (of_nat s) = s" using mpmc_slot_of_nat [OF ok, of s] m same by (simp add: mpmc_slot_def)
  have dw: "q_done r ! s = of_nat ?d" by simp
  have cap: "cap (q_capacity r) \<noteq> 0" using D(2) by auto
  have lap: "of_nat (?d - ?n) + cap (q_capacity r) = q_done r ! s" if "\<not> ?d < ?n"
    using that by (simp add: of_nat_diff)
  show "mpmc_holds_value (of_nat s) r' = Inr (slot_value es r s \<noteq> None)"
    using occ mpmc_ready_state_spec [OF ok refl, of s] cap lap
    by (cases "entry_of es ?d")
      (auto simp: mpmc_holds_value_def state slot_value_def m slot same md_was_released_after_def capacity_get_def)
qed

lemma mpmc_drop_slots_spec:
  assumes ok: "mpmc_ring_ok es r"
    and "distinct ss" "\<And>s. s \<in> set ss \<Longrightarrow> s < slots (q_capacity r) \<and> q_data r' ! s = q_data r ! s"
    and "q_ready r' = q_ready r" "q_done r' = q_done r" "q_capacity r' = q_capacity r"
    and "length (q_data r') = length (q_data r)"
    and "drop_run dtor (List.map_filter (slot_value es r) ss) = (fin, ds, rest)"
  shows "\<exists>r''. mpmc_drop_slots dtor (map of_nat ss) r' = Inr (fin, r'') \<and> q_dropped r'' = q_dropped r' @ ds"
  using assms(2-)
proof (induction ss arbitrary: r' ds)
  case Nil
  then show ?case by (simp add: map_filter_def)
next
  case (Cons s ss)
  have s: "s < slots (q_capacity r)" "q_data r' ! s = q_data r ! s" using Cons.prems(2) by simp_all
  note holds = mpmc_holds_value_spec [OF ok s(1) Cons.prems(3-5)]
  show ?case
  proof (cases "slot_value es r s")
    case None
    then show ?thesis using Cons.IH [of r' ds] Cons.prems holds(1) by (simp add: map_filter_def)
  next
    case (Some v)
    let ?r1 = "r'\<lparr>q_data := (q_data r')[s := None]\<rparr>"
    have slot: "mpmc_slot r' (of_nat s) = s"
      using mpmc_slot_of_nat [OF ok, of s] s(1) Cons.prems(5) by (simp add: mpmc_slot_def)
    have take: "mpmc_take_data (of_nat s) r' = Inr (v, ?r1)"
      using s holds(2) [OF Some] mpmc_ring_okD(4) [OF ok] Cons.prems(6) by (simp add: mpmc_take_data_def slot)
    let ?r2 = "?r1\<lparr>q_dropped := q_dropped ?r1 @ [v]\<rparr>"
    show ?thesis
    proof (cases "dtor v")
      case Panicked
      then show ?thesis using Cons.prems(7) holds(1) take Some by (auto simp: map_filter_def)
    next
      case Returned
      obtain ds1 where ds1: "drop_run dtor (List.map_filter (slot_value es r) ss) = (fin, ds1, rest)" "ds = v # ds1"
        using Cons.prems(7) Some Returned by (auto simp: map_filter_def split: prod.splits)
      have "s \<notin> set ss" using Cons.prems(1) by simp
      then have "t < slots (q_capacity r) \<and> q_data ?r2 ! t = q_data r ! t" if "t \<in> set ss" for t
        using that Cons.prems(2) [of t] by (cases "t = s") simp_all
      moreover have "distinct ss" using Cons.prems(1) by simp
      ultimately obtain r'' where "mpmc_drop_slots dtor (map of_nat ss) ?r2 = Inr (fin, r'')" "q_dropped r'' = q_dropped ?r2 @ ds1"
        using Cons.IH [of ?r2 ds1] Cons.prems(3-6) ds1(1) by auto
      then show ?thesis using holds(1) take Some Returned ds1(2) by simp
    qed
  qed
qed

lemma map_filter_of_map: "List.map_filter f (map g xs) = List.map_filter (f \<circ> g) xs"
  by (simp add: map_filter_def filter_map comp_def)

lemma mset_map_filter:
  "distinct xs \<Longrightarrow> mset (List.map_filter f xs) = (\<Sum>x \<in> set xs. case f x of None \<Rightarrow> {#} | Some v \<Rightarrow> {#v#})"
  by (induction xs) (auto simp: map_filter_def split: option.splits)

text \<open>The slots hold exactly the values on offer or borrowed, one each.\<close>

lemma slot_values:
  assumes ok: "mpmc_ring_ok es r"
  shows "mset (List.map_filter (slot_value es r) [0..<slots (q_capacity r)]) = mset (pool_values es)"
proof -
  let ?n = "slots (q_capacity r)" and ?d = "\<lambda>s. unat (q_done r ! s)"
  let ?one = "\<lambda>m. case m of None \<Rightarrow> {#} | Some v \<Rightarrow> {#v#}"
  have n: "0 < ?n" by (rule slots_pos [OF mpmc_ring_okD(1) [OF ok]])
  have sv: "slot_serves ?n es s (q_done r ! s) (q_ready r ! s) (q_data r ! s)" if "s < ?n" for s
    using mpmc_slot_serves [OF ok, of s] that by simp
  have "pool_values es = List.map_filter (\<lambda>x. left_in (es ! x)) [0..<length es]"
    using map_filter_of_map [of left_in "(!) es" "[0..<length es]"] by (simp add: map_nth pool_values_def comp_def)
  then have "mset (pool_values es) = (\<Sum>x \<in> {0..<length es}. ?one (left_in (es ! x)))"
    by (simp add: mset_map_filter)
  also have "\<dots> = (\<Sum>x \<in> {x. x < length es \<and> left_in (es ! x) \<noteq> None}. ?one (left_in (es ! x)))"
    by (rule sum.mono_neutral_right) auto
  also have "\<dots> = (\<Sum>s \<in> {s. s < ?n \<and> slot_value es r s \<noteq> None}. ?one (slot_value es r s))"
  proof (rule sum.reindex_bij_witness [where i = ?d and j = "\<lambda>x. x mod ?n"], goal_cases)
    case (1 x)
    then show ?case using turn_of_held [OF mpmc_slot_serves [OF ok, of x], of x] by (cases "es ! x") simp_all
  next
    case (2 x)
    then have "?d (x mod ?n) = x" using turn_of_held [OF mpmc_slot_serves [OF ok, of x], of x] by (cases "es ! x") simp_all
    then show ?case using 2 n by (auto simp: slot_value_def entry_of_def)
  next
    case (3 s)
    then show ?case using sv [of s] by (simp add: slot_serves_def turn_ok_def)
  next
    case (4 s)
    then show ?case by (auto simp: slot_value_def entry_of_def split: if_splits)
  next
    case (5 x)
    then have "?d (x mod ?n) = x" using turn_of_held [OF mpmc_slot_serves [OF ok, of x], of x] by (cases "es ! x") simp_all
    then show ?case using 5 by (simp add: slot_value_def entry_of_def)
  qed
  also have "\<dots> = (\<Sum>s \<in> {0..<?n}. ?one (slot_value es r s))"
    by (rule sum.mono_neutral_left) auto
  also have "\<dots> = mset (List.map_filter (slot_value es r) [0..<?n])" by (simp add: mset_map_filter)
  finally show ?thesis by simp
qed

lemma mpmc_ring_drop_spec:
  assumes ok: "mpmc_ring_ok es r"
  obtains fin r' ds where "mpmc_ring_drop dtor r = Inr (fin, r')" "q_dropped r' = q_dropped r @ ds"
    "mset ds \<subseteq># mset (pool_values es)" "fin = Returned \<Longrightarrow> mset ds = mset (pool_values es)"
    "(\<And>v. dtor v = Returned) \<Longrightarrow> fin = Returned"
proof -
  let ?vs = "List.map_filter (slot_value es r) [0..<slots (q_capacity r)]"
  obtain fin ds rest where run: "drop_run dtor ?vs = (fin, ds, rest)" by (metis prod_cases3)
  obtain r' where r': "mpmc_drop_slots dtor (map of_nat [0..<slots (q_capacity r)]) r = Inr (fin, r')" "q_dropped r' = q_dropped r @ ds"
    using mpmc_drop_slots_spec [OF ok _ _ refl refl refl refl run] by auto
  have "mset ds \<subseteq># mset ?vs" using drop_run_append [OF run] by simp
  moreover have "mset ds = mset ?vs" if "fin = Returned" using drop_run_complete run that by metis
  moreover have "fin = Returned" if all: "\<And>v. dtor v = Returned"
  proof -
    have "fst (drop_run dtor vs) = Returned" for vs by (induction vs) (auto simp: all split: prod.splits)
    then show ?thesis using run by (metis fst_conv)
  qed
  ultimately show thesis
    using r' slot_values [OF ok] by (intro that [of fin r' ds]) (simp_all add: mpmc_ring_drop_def capacity_get_def)
qed

end
