(* ===== verification/Mpmc_Programs.thy ===== *)
theory Mpmc_Programs
  imports Mpmc_Handles
begin

text \<open>
  Programs over the mpmc ring: any number of producers and consumers that push, reserve,
  pop, read in place, join and leave, one call after the other. The specification is a
  pool: a push offers a value at one of the positions the producer holds, a pop takes any
  value on offer. A call that never returns, the departure of a producer whose positions
  are still occupied, ends the program.
\<close>

section \<open>The system\<close>

text \<open>A handle is gone once dropped; an open writer or reader borrows its handle.\<close>

type_synonym 'a mpmc =
  "(mpmc_producer \<times> mpmc_slot_writer option) option list
   \<times> (mpmc_consumer \<times> mpmc_slot_reader option) option list \<times> 'a mpmc_ring"

datatype 'a mpmc_op =
    Q_Push nat 'a | Q_Reserve nat | Q_Commit nat 'a | Q_Abandon nat | Q_Abandon_Written nat 'a
  | Q_Pop nat | Q_Open nat | Q_Finish nat
  | Q_Clone_Producer nat | Q_Clone_Consumer nat | Q_Producer_Leaves nat | Q_Consumer_Leaves nat

datatype 'a mpmc_event =
    Q_Accepted 'a | Q_Refused 'a | Q_Reserved bool | Q_Gave_Up "'a list"
  | Q_Popped nat 'a | Q_Empty nat | Q_Opened nat 'a | Q_Read nat 'a | Q_Joined | Q_Left | Q_No_Call

definition handle_at :: "'h option list \<Rightarrow> nat \<Rightarrow> 'h option" where
  "handle_at hs i = (if i < length hs then hs ! i else None)"

type_synonym 'a mpmc_call = "'a mpmc \<Rightarrow> ('a mpmc_event \<times> 'a mpmc) option exec"

definition pool_push :: "nat \<Rightarrow> 'a \<Rightarrow> 'a mpmc_call" where
  "pool_push i v s =
     (case s of (ps, cs, r) \<Rightarrow>
        case handle_at ps i of
          Some (p, None) \<Rightarrow>
            seq_exec (mpmc_push [] v p r) (\<lambda>(res, p1, r1).
              Inr (Some (case res of Push_Ok \<Rightarrow> Q_Accepted v | Push_Err w \<Rightarrow> Q_Refused w,
                         ps[i := Some (p1, None)], cs, r1)))
        | _ \<Rightarrow> Inr (Some (Q_No_Call, s)))"

definition pool_reserve :: "nat \<Rightarrow> 'a mpmc_call" where
  "pool_reserve i s =
     (case s of (ps, cs, r) \<Rightarrow>
        case handle_at ps i of
          Some (p, None) \<Rightarrow>
            seq_exec (mpmc_reserve [] p r) (\<lambda>(w, p1, r1).
              Inr (Some (Q_Reserved (w \<noteq> None), ps[i := Some (p1, w)], cs, r1)))
        | _ \<Rightarrow> Inr (Some (Q_No_Call, s)))"

definition pool_commit :: "('a \<Rightarrow> completion) \<Rightarrow> nat \<Rightarrow> 'a \<Rightarrow> 'a mpmc_call" where
  "pool_commit dtor i v s =
     (case s of (ps, cs, r) \<Rightarrow>
        case handle_at ps i of
          Some (p, Some w) \<Rightarrow>
            seq_exec (mpmc_write w v r) (\<lambda>(ws, r1).
            seq_exec (mpmc_commit dtor ws p r1) (\<lambda>(_, p1, r2).
              Inr (Some (Q_Accepted v, ps[i := Some (p1, None)], cs, r2))))
        | _ \<Rightarrow> Inr (Some (Q_No_Call, s)))"

definition pool_abandon :: "nat \<Rightarrow> 'a mpmc_call" where
  "pool_abandon i s =
     (case s of (ps, cs, r) \<Rightarrow>
        case handle_at ps i of
          Some (p, Some w) \<Rightarrow>
            Inr (Some (Q_Gave_Up [], ps[i := Some (mpmc_slot_writer_drop w p, None)], cs, r))
        | _ \<Rightarrow> Inr (Some (Q_No_Call, s)))"

definition pool_abandon_written :: "('a \<Rightarrow> completion) \<Rightarrow> nat \<Rightarrow> 'a \<Rightarrow> 'a mpmc_call" where
  "pool_abandon_written dtor i v s =
     (case s of (ps, cs, r) \<Rightarrow>
        case handle_at ps i of
          Some (p, Some w) \<Rightarrow>
            seq_exec (mpmc_write w v r) (\<lambda>(ws, r1).
            seq_exec (mpmc_written_slot_drop dtor ws p r1) (\<lambda>(_, p1, r2).
              Inr (Some (Q_Gave_Up [v], ps[i := Some (p1, None)], cs, r2))))
        | _ \<Rightarrow> Inr (Some (Q_No_Call, s)))"

definition pool_pop :: "nat \<Rightarrow> 'a mpmc_call" where
  "pool_pop j s =
     (case s of (ps, cs, r) \<Rightarrow>
        case handle_at cs j of
          Some (c, None) \<Rightarrow>
            seq_exec (mpmc_pop [] c r) (\<lambda>(res, c1, r1).
              Inr (Some (case res of None \<Rightarrow> Q_Empty j | Some v \<Rightarrow> Q_Popped j v,
                         ps, cs[j := Some (c1, None)], r1)))
        | _ \<Rightarrow> Inr (Some (Q_No_Call, s)))"

definition pool_open :: "nat \<Rightarrow> 'a mpmc_call" where
  "pool_open j s =
     (case s of (ps, cs, r) \<Rightarrow>
        case handle_at cs j of
          Some (c, None) \<Rightarrow>
            seq_exec (mpmc_pop_ref [] c r) (\<lambda>(res, c1, r1).
            case res of
              None \<Rightarrow> Inr (Some (Q_Empty j, ps, cs[j := Some (c1, None)], r1))
            | Some rd \<Rightarrow>
                seq_exec (mpmc_reader_deref rd r1) (\<lambda>v.
                  Inr (Some (Q_Opened j v, ps, cs[j := Some (c1, Some rd)], r1))))
        | _ \<Rightarrow> Inr (Some (Q_No_Call, s)))"

text \<open>The reader is looked at once more before it is dropped.\<close>

definition pool_finish :: "('a \<Rightarrow> completion) \<Rightarrow> nat \<Rightarrow> 'a mpmc_call" where
  "pool_finish dtor j s =
     (case s of (ps, cs, r) \<Rightarrow>
        case handle_at cs j of
          Some (c, Some rd) \<Rightarrow>
            seq_exec (mpmc_reader_deref rd r) (\<lambda>v.
            seq_exec (mpmc_reader_drop dtor rd r) (\<lambda>(_, r1).
              Inr (Some (Q_Read j v, ps, cs[j := Some (c, None)], r1))))
        | _ \<Rightarrow> Inr (Some (Q_No_Call, s)))"

definition pool_clone_producer :: "nat \<Rightarrow> 'a mpmc_call" where
  "pool_clone_producer i s =
     (case s of (ps, cs, r) \<Rightarrow>
        case handle_at ps i of
          Some (_, None) \<Rightarrow>
            (case mpmc_producer_clone r of (p, r1) \<Rightarrow> Inr (Some (Q_Joined, ps @ [Some (p, None)], cs, r1)))
        | _ \<Rightarrow> Inr (Some (Q_No_Call, s)))"

definition pool_clone_consumer :: "nat \<Rightarrow> 'a mpmc_call" where
  "pool_clone_consumer j s =
     (case s of (ps, cs, r) \<Rightarrow>
        case handle_at cs j of
          Some (_, None) \<Rightarrow>
            (case mpmc_consumer_clone r of (c, r1) \<Rightarrow> Inr (Some (Q_Joined, ps, cs @ [Some (c, None)], r1)))
        | _ \<Rightarrow> Inr (Some (Q_No_Call, s)))"

definition pool_producer_leaves :: "nat \<Rightarrow> 'a mpmc_call" where
  "pool_producer_leaves i s =
     (case s of (ps, cs, r) \<Rightarrow>
        case handle_at ps i of
          Some (p, None) \<Rightarrow>
            seq_exec (mpmc_producer_drop [] p r) (\<lambda>res.
              Inr (map_option (\<lambda>r1. (Q_Left, ps[i := None], cs, r1)) res))
        | _ \<Rightarrow> Inr (Some (Q_No_Call, s)))"

definition pool_consumer_leaves :: "nat \<Rightarrow> 'a mpmc_call" where
  "pool_consumer_leaves j s =
     (case s of (ps, cs, r) \<Rightarrow>
        case handle_at cs j of
          Some (c, None) \<Rightarrow> Inr (Some (Q_Left, ps, cs[j := None], mpmc_consumer_drop c r))
        | _ \<Rightarrow> Inr (Some (Q_No_Call, s)))"

fun mpmc_step :: "('a \<Rightarrow> completion) \<Rightarrow> 'a mpmc_op \<Rightarrow> 'a mpmc_call" where
  "mpmc_step dtor (Q_Push i v) s = pool_push i v s"
| "mpmc_step dtor (Q_Reserve i) s = pool_reserve i s"
| "mpmc_step dtor (Q_Commit i v) s = pool_commit dtor i v s"
| "mpmc_step dtor (Q_Abandon i) s = pool_abandon i s"
| "mpmc_step dtor (Q_Abandon_Written i v) s = pool_abandon_written dtor i v s"
| "mpmc_step dtor (Q_Pop j) s = pool_pop j s"
| "mpmc_step dtor (Q_Open j) s = pool_open j s"
| "mpmc_step dtor (Q_Finish j) s = pool_finish dtor j s"
| "mpmc_step dtor (Q_Clone_Producer i) s = pool_clone_producer i s"
| "mpmc_step dtor (Q_Clone_Consumer j) s = pool_clone_consumer j s"
| "mpmc_step dtor (Q_Producer_Leaves i) s = pool_producer_leaves i s"
| "mpmc_step dtor (Q_Consumer_Leaves j) s = pool_consumer_leaves j s"

fun mpmc_run :: "('a \<Rightarrow> completion) \<Rightarrow> 'a mpmc_op list \<Rightarrow> 'a mpmc \<Rightarrow> ('a mpmc_event list \<times> 'a mpmc option) exec" where
  "mpmc_run dtor [] s = Inr ([], Some s)"
| "mpmc_run dtor (op # ops) s =
     seq_exec (mpmc_step dtor op s) (\<lambda>res.
     case res of
       None \<Rightarrow> Inr ([], None)
     | Some (e, s1) \<Rightarrow> seq_exec (mpmc_run dtor ops s1) (\<lambda>(evs, fin). Inr (e # evs, fin)))"

definition mpmc_start :: "mpmc_config \<Rightarrow> capacity \<Rightarrow> 'a mpmc exec" where
  "mpmc_start g c =
     seq_exec (mpmc_new g c) (\<lambda>r.
     case mpmc_split r of (p, d, r1) \<Rightarrow> Inr ([Some (p, None)], [Some (d, None)], r1))"

section \<open>The pool\<close>

text \<open>
  The positions and what became of them; for each producer the positions it holds and the
  one it is writing; for each consumer the one it reads; and the values destroyed.
\<close>

type_synonym 'a pool =
  "'a pool_entry list \<times> (nat set \<times> nat option) option list \<times> nat option option list \<times> 'a list"

definition nobody :: "'h option list \<Rightarrow> bool" where
  "nobody hs \<longleftrightarrow> (\<forall>h \<in> set hs. h = None)"

text \<open>A call needs a live handle that is borrowed, or not, as its signature says.\<close>

fun callable :: "'a mpmc_op \<Rightarrow> 'a pool \<Rightarrow> bool" where
  "callable (Q_Push i v) (es, ps, cs, gone) \<longleftrightarrow> (\<exists>B. handle_at ps i = Some (B, None))"
| "callable (Q_Reserve i) (es, ps, cs, gone) \<longleftrightarrow> (\<exists>B. handle_at ps i = Some (B, None))"
| "callable (Q_Commit i v) (es, ps, cs, gone) \<longleftrightarrow> (\<exists>B x. handle_at ps i = Some (B, Some x))"
| "callable (Q_Abandon i) (es, ps, cs, gone) \<longleftrightarrow> (\<exists>B x. handle_at ps i = Some (B, Some x))"
| "callable (Q_Abandon_Written i v) (es, ps, cs, gone) \<longleftrightarrow> (\<exists>B x. handle_at ps i = Some (B, Some x))"
| "callable (Q_Pop j) (es, ps, cs, gone) \<longleftrightarrow> handle_at cs j = Some None"
| "callable (Q_Open j) (es, ps, cs, gone) \<longleftrightarrow> handle_at cs j = Some None"
| "callable (Q_Finish j) (es, ps, cs, gone) \<longleftrightarrow> (\<exists>x. handle_at cs j = Some (Some x))"
| "callable (Q_Clone_Producer i) (es, ps, cs, gone) \<longleftrightarrow> (\<exists>B. handle_at ps i = Some (B, None))"
| "callable (Q_Clone_Consumer j) (es, ps, cs, gone) \<longleftrightarrow> handle_at cs j = Some None"
| "callable (Q_Producer_Leaves i) (es, ps, cs, gone) \<longleftrightarrow> (\<exists>B. handle_at ps i = Some (B, None))"
| "callable (Q_Consumer_Leaves j) (es, ps, cs, gone) \<longleftrightarrow> handle_at cs j = Some None"

definition writable :: "nat \<Rightarrow> 'a pool_entry list \<Rightarrow> nat \<Rightarrow> bool" where
  "writable n es x \<longleftrightarrow> x < length es \<and> es ! x = Unwritten \<and> open_at n es x"

inductive pool_step :: "nat \<Rightarrow> 'a mpmc_op \<Rightarrow> 'a pool \<Rightarrow> 'a mpmc_event \<Rightarrow> 'a pool \<Rightarrow> bool" for n where
  push: "handle_at ps i = Some (B, None) \<Longrightarrow> stocked n es B es1 B1 \<Longrightarrow> x \<in> B1 \<Longrightarrow> writable n es1 x \<Longrightarrow>
    pool_step n (Q_Push i v) (es, ps, cs, gone) (Q_Accepted v)
      (es1[x := Offered v], ps[i := Some (B1 - {x}, None)], cs, gone)"
| full: "handle_at ps i = Some (B, None) \<Longrightarrow> stocked n es B es1 B1 \<Longrightarrow> \<forall>x \<in> B1. \<not> open_at n es1 x \<Longrightarrow>
    pool_step n (Q_Push i v) (es, ps, cs, gone) (Q_Refused v) (es1, ps[i := Some (B1, None)], cs, gone)"
| reserve: "handle_at ps i = Some (B, None) \<Longrightarrow> stocked n es B es1 B1 \<Longrightarrow> x \<in> B1 \<Longrightarrow> writable n es1 x \<Longrightarrow>
    pool_step n (Q_Reserve i) (es, ps, cs, gone) (Q_Reserved True)
      (es1, ps[i := Some (B1 - {x}, Some x)], cs, gone)"
| reserve_full: "handle_at ps i = Some (B, None) \<Longrightarrow> stocked n es B es1 B1 \<Longrightarrow>
    \<forall>x \<in> B1. \<not> open_at n es1 x \<Longrightarrow>
    pool_step n (Q_Reserve i) (es, ps, cs, gone) (Q_Reserved False) (es1, ps[i := Some (B1, None)], cs, gone)"
| commit: "handle_at ps i = Some (B, Some x) \<Longrightarrow> writable n es x \<Longrightarrow>
    pool_step n (Q_Commit i v) (es, ps, cs, gone) (Q_Accepted v)
      (es[x := Offered v], ps[i := Some (B, None)], cs, gone)"
| abandon: "handle_at ps i = Some (B, Some x) \<Longrightarrow>
    pool_step n (Q_Abandon i) (es, ps, cs, gone) (Q_Gave_Up [])
      (es, ps[i := Some (insert x B, None)], cs, gone)"
| abandon_written: "handle_at ps i = Some (B, Some x) \<Longrightarrow>
    pool_step n (Q_Abandon_Written i v) (es, ps, cs, gone) (Q_Gave_Up [v])
      (es, ps[i := Some (insert x B, None)], cs, gone @ [v])"
| pop: "handle_at cs j = Some None \<Longrightarrow> x < length es \<Longrightarrow> es ! x = Offered v \<Longrightarrow>
    pool_step n (Q_Pop j) (es, ps, cs, gone) (Q_Popped j v) (es[x := Settled], ps, cs, gone)"
| pop_empty: "handle_at cs j = Some None \<Longrightarrow> no_offers es \<Longrightarrow>
    pool_step n (Q_Pop j) (es, ps, cs, gone) (Q_Empty j) (es, ps, cs, gone)"
| read_open: "handle_at cs j = Some None \<Longrightarrow> x < length es \<Longrightarrow> es ! x = Offered v \<Longrightarrow>
    pool_step n (Q_Open j) (es, ps, cs, gone) (Q_Opened j v)
      (es[x := Borrowed v], ps, cs[j := Some (Some x)], gone)"
| read_none: "handle_at cs j = Some None \<Longrightarrow> no_offers es \<Longrightarrow>
    pool_step n (Q_Open j) (es, ps, cs, gone) (Q_Empty j) (es, ps, cs, gone)"
| finish: "handle_at cs j = Some (Some x) \<Longrightarrow> x < length es \<Longrightarrow> es ! x = Borrowed v \<Longrightarrow>
    pool_step n (Q_Finish j) (es, ps, cs, gone) (Q_Read j v)
      (es[x := Settled], ps, cs[j := Some None], gone @ [v])"
| producer_joins: "handle_at ps i = Some (B, None) \<Longrightarrow>
    pool_step n (Q_Clone_Producer i) (es, ps, cs, gone) Q_Joined (es, ps @ [Some ({}, None)], cs, gone)"
| consumer_joins: "handle_at cs j = Some None \<Longrightarrow>
    pool_step n (Q_Clone_Consumer j) (es, ps, cs, gone) Q_Joined (es, ps, cs @ [Some None], gone)"
| producer_leaves: "handle_at ps i = Some (B, None) \<Longrightarrow> (\<forall>x \<in> B. open_at n es x) \<or> nobody cs \<Longrightarrow>
    (\<forall>x \<in> B. x < length es \<and> es ! x = Unwritten) \<Longrightarrow>
    pool_step n (Q_Producer_Leaves i) (es, ps, cs, gone) Q_Left (given_up n es B, ps[i := None], cs, gone)"
| consumer_leaves: "handle_at cs j = Some None \<Longrightarrow>
    pool_step n (Q_Consumer_Leaves j) (es, ps, cs, gone) Q_Left (es, ps, cs[j := None], gone)"
| no_call: "\<not> callable op a \<Longrightarrow> pool_step n op a Q_No_Call a"

text \<open>The departure of a producer waits for the consumers of its occupied positions.\<close>

inductive pool_hangs :: "nat \<Rightarrow> 'a mpmc_op \<Rightarrow> 'a pool \<Rightarrow> bool" for n where
  "handle_at ps i = Some (B, None) \<Longrightarrow> x \<in> B \<Longrightarrow> \<not> open_at n es x \<Longrightarrow> \<not> nobody cs \<Longrightarrow>
    pool_hangs n (Q_Producer_Leaves i) (es, ps, cs, gone)"

inductive pool_run :: "nat \<Rightarrow> 'a mpmc_op list \<Rightarrow> 'a pool \<Rightarrow> 'a mpmc_event list \<Rightarrow> 'a pool option \<Rightarrow> bool" for n where
  finished: "pool_run n [] a [] (Some a)"
| step: "pool_step n op a e a1 \<Longrightarrow> pool_run n ops a1 evs fin \<Longrightarrow> pool_run n (op # ops) a (e # evs) fin"
| hung: "pool_hangs n op a \<Longrightarrow> pool_run n (op # ops) a [] None"

inductive_cases pool_run_NilE: "pool_run n [] a evs fin"
inductive_cases pool_run_ConsE: "pool_run n (op # ops) a evs fin"

section \<open>The ring and its pool\<close>

definition holdings :: "(nat set \<times> nat option) option \<Rightarrow> nat set" where
  "holdings h = (case h of None \<Rightarrow> {} | Some (B, w) \<Rightarrow> B \<union> set_option w)"

definition producer_stands ::
    "'a pool_entry list \<Rightarrow> 'a mpmc_ring \<Rightarrow> (nat set \<times> nat option) option
      \<Rightarrow> (mpmc_producer \<times> mpmc_slot_writer option) option \<Rightarrow> bool" where
  "producer_stands es r h q \<longleftrightarrow>
     (case (h, q) of
        (None, None) \<Rightarrow> True
      | (Some (B, w), Some (p, wo)) \<Rightarrow>
          mpmc_producer_ok es r p \<and> set (batch_of p) = B \<and> wo = map_option (mpmc_writer_at p) w
          \<and> (\<forall>x. w = Some x \<longrightarrow> writer_fits es r p x \<and> x \<notin> B)
      | _ \<Rightarrow> False)"

definition consumer_stands ::
    "nat \<Rightarrow> 'a pool_entry list \<Rightarrow> 'a mpmc_ring \<Rightarrow> nat option option
      \<Rightarrow> (mpmc_consumer \<times> mpmc_slot_reader option) option \<Rightarrow> bool" where
  "consumer_stands l es r h q \<longleftrightarrow>
     (case (h, q) of
        (None, None) \<Rightarrow> True
      | (Some x, Some (c, rd)) \<Rightarrow>
          unat (qc_next_scan c) \<le> l
          \<and> (case (x, rd) of (None, None) \<Rightarrow> True | (Some k, Some d) \<Rightarrow> reader_fits es r d k | _ \<Rightarrow> False)
      | _ \<Rightarrow> False)"

definition alive :: "'h option list \<Rightarrow> nat" where
  "alive hs = length (filter (\<lambda>h. h \<noteq> None) hs)"

definition apart :: "(nat \<Rightarrow> nat set) \<Rightarrow> nat \<Rightarrow> bool" where
  "apart f m \<longleftrightarrow> (\<forall>i < m. \<forall>j < m. i \<noteq> j \<longrightarrow> f i \<inter> f j = {})"

definition reading :: "nat option option \<Rightarrow> nat set" where
  "reading h = (case h of Some (Some x) \<Rightarrow> {x} | _ \<Rightarrow> {})"

fun mpmc_rel :: "nat \<Rightarrow> 'a pool \<Rightarrow> 'a mpmc \<Rightarrow> bool" where
  "mpmc_rel l (es, ps, cs, gone) (qs, ds, r) \<longleftrightarrow>
     mpmc_ring_ok es r \<and> length es \<le> l \<and> length ps \<le> l \<and> length cs \<le> l
     \<and> length qs = length ps \<and> (\<forall>i < length ps. producer_stands es r (ps ! i) (qs ! i))
     \<and> length ds = length cs \<and> (\<forall>j < length cs. consumer_stands l es r (cs ! j) (ds ! j))
     \<and> apart (\<lambda>i. holdings (ps ! i)) (length ps) \<and> apart (\<lambda>j. reading (cs ! j)) (length cs)
     \<and> live (q_producer_count r) = of_nat (alive ps) \<and> is_closed (q_closed r) = nobody ps
     \<and> live (q_consumer_count r) = of_nat (alive cs) \<and> is_closed (q_consumer_closed r) = nobody cs
     \<and> q_dropped r = gone"

text \<open>What one call may change: entries \<open>X\<close>, and new entries; nothing settled comes back.\<close>

definition evolves :: "nat set \<Rightarrow> 'a pool_entry list \<Rightarrow> 'a pool_entry list \<Rightarrow> bool" where
  "evolves X es es' \<longleftrightarrow>
     length es \<le> length es' \<and> (\<forall>p < length es. p \<notin> X \<longrightarrow> es' ! p = es ! p)
     \<and> (\<forall>p < length es. es ! p = Settled \<longrightarrow> es' ! p = Settled)"

lemma evolves_refl: "evolves X es es"
  by (simp add: evolves_def)

lemma evolves_grow: "evolves X es (es @ replicate k Unwritten)"
  by (simp add: evolves_def nth_append)

lemma evolves_update: "es ! x \<noteq> Settled \<Longrightarrow> evolves {x} es (es[x := e])"
  unfolding evolves_def by (metis insertCI length_list_update nth_list_update_neq order_refl)

lemma evolves_settle: "evolves {x} es (es[x := Settled])"
  unfolding evolves_def by (metis insertCI length_list_update nth_list_update_eq nth_list_update_neq order_refl)

lemma evolves_trans: "evolves X es es1 \<Longrightarrow> evolves X es1 es2 \<Longrightarrow> evolves X es es2"
  by (auto simp: evolves_def)

lemma evolves_mono: "evolves X es es' \<Longrightarrow> X \<subseteq> Y \<Longrightarrow> evolves Y es es'"
  by (auto simp: evolves_def)

lemma evolves_given_up: "evolves B es (given_up n es B)"
  by (simp add: evolves_def)

lemma evolves_stocked: "stocked n es B es1 B1 \<Longrightarrow> evolves X es es1"
  by (auto simp: stocked_def evolves_refl evolves_grow split: if_splits)

lemma open_evolves:
  assumes "evolves X es es'" and "open_at n es p"
  shows "open_at n es' p"
  using assms by (auto simp: evolves_def open_at_def)

lemma producer_stands_evolves:
  assumes "producer_stands es r h q" and "evolves X es es'" and "holdings h \<inter> X = {}" and "q_capacity r' = q_capacity r"
  shows "producer_stands es' r' h q"
proof (cases h)
  case None
  then show ?thesis using assms(1) by (simp add: producer_stands_def)
next
  case (Some Bw)
  obtain B w where h: "h = Some (B, w)" using Some by (cases Bw) auto
  obtain p wo where q: "q = Some (p, wo)" using assms(1) h by (cases q) (auto simp: producer_stands_def)
  have old: "mpmc_producer_ok es r p" "set (batch_of p) = B" "wo = map_option (mpmc_writer_at p) w"
    "\<And>x. w = Some x \<Longrightarrow> writer_fits es r p x \<and> x \<notin> B"
    using assms(1) by (auto simp: producer_stands_def h q)
  have "mpmc_producer_ok es' r' p"
    using old(1,2) assms(2-4) by (fastforce simp: mpmc_producer_ok_def evolves_def holdings_def h)
  moreover have "writer_fits es' r' p x" if "w = Some x" for x
    using old(4) [OF that] that assms(2-4) open_evolves [OF assms(2), of "slots (q_capacity r)" x]
    by (auto simp: writer_fits_def evolves_def holdings_def h)
  ultimately show ?thesis using old by (simp add: producer_stands_def h q)
qed

lemma consumer_stands_evolves:
  assumes "consumer_stands l es r h q" and "evolves X es es'" and "reading h \<inter> X = {}"
    and "q_capacity r' = q_capacity r" and "l \<le> l'"
  shows "consumer_stands l' es' r' h q"
proof (cases h)
  case None
  then show ?thesis using assms(1) by (simp add: consumer_stands_def)
next
  case (Some x)
  obtain c rd where q: "q = Some (c, rd)" using assms(1) Some by (cases q) (auto simp: consumer_stands_def)
  show ?thesis
  proof (cases x)
    case None
    then show ?thesis using assms(1,5) by (auto simp: consumer_stands_def Some q split: option.splits)
  next
    case (Some k)
    then obtain d where d: "rd = Some d" "reader_fits es r d k" "unat (qc_next_scan c) \<le> l"
      using assms(1) by (auto simp: consumer_stands_def \<open>h = Some x\<close> q split: option.splits)
    have "reader_fits es' r' d k"
      using d(2) assms(2-4) by (auto simp: reader_fits_def evolves_def reading_def \<open>h = Some x\<close> Some mpmc_slot_def)
    then show ?thesis using d assms(5) by (simp add: consumer_stands_def \<open>h = Some x\<close> Some q)
  qed
qed

section \<open>Bookkeeping\<close>

lemma handle_at_SomeD: "handle_at hs i = Some h \<Longrightarrow> i < length hs \<and> hs ! i = Some h"
  by (simp add: handle_at_def split: if_splits)

lemma nobody_alive: "nobody hs \<longleftrightarrow> alive hs = 0"
  by (auto simp: nobody_def alive_def filter_empty_conv)

lemma alive_le: "alive hs \<le> length hs"
  by (simp add: alive_def)

lemma alive_snoc: "alive (hs @ [Some h]) = Suc (alive hs)"
  by (simp add: alive_def)

lemma alive_split:
  assumes "i < length hs"
  shows "alive (hs[i := h]) + (if hs ! i = None then 0 else 1) = alive hs + (if h = None then 0 else 1)"
proof -
  have "alive (take i hs @ hs ! i # drop (Suc i) hs)
      = alive (take i hs) + (if hs ! i = None then 0 else 1) + alive (drop (Suc i) hs)"
    by (simp add: alive_def)
  then have "alive hs = alive (take i hs) + (if hs ! i = None then 0 else 1) + alive (drop (Suc i) hs)"
    using id_take_nth_drop [OF assms] by simp
  moreover have "alive (hs[i := h]) = alive (take i hs) + (if h = None then 0 else 1) + alive (drop (Suc i) hs)"
    using assms by (simp add: upd_conv_take_nth_drop alive_def)
  ultimately show ?thesis by simp
qed

lemma alive_keep: "handle_at hs i = Some h0 \<Longrightarrow> alive (hs[i := Some h]) = alive hs"
  using alive_split [of i hs "Some h"] by (auto dest: handle_at_SomeD)

lemma alive_drop: "handle_at hs i = Some h0 \<Longrightarrow> Suc (alive (hs[i := None])) = alive hs"
  using alive_split [of i hs None] by (auto dest: handle_at_SomeD)

lemma apart_update:
  assumes "apart (\<lambda>i. f (hs ! i)) (length hs)" and "\<And>j. j < length hs \<Longrightarrow> j \<noteq> i \<Longrightarrow> f h \<inter> f (hs ! j) = {}"
  shows "apart (\<lambda>j. f (hs[i := h] ! j)) (length (hs[i := h]))"
  unfolding apart_def
proof (intro allI impI)
  fix a b assume ab: "a < length (hs[i := h])" "b < length (hs[i := h])" "a \<noteq> b"
  show "f (hs[i := h] ! a) \<inter> f (hs[i := h] ! b) = {}"
    using ab assms(1) assms(2) [of a] assms(2) [of b]
    by (cases "a = i"; cases "b = i") (auto simp: apart_def)
qed

lemma apart_snoc:
  assumes "apart (\<lambda>i. f (hs ! i)) (length hs)" and "f h = {}"
  shows "apart (\<lambda>j. f ((hs @ [h]) ! j)) (length (hs @ [h]))"
  using assms by (auto simp: apart_def nth_append less_Suc_eq)

lemma all_update:
  assumes "\<And>j. j < m \<Longrightarrow> j \<noteq> i \<Longrightarrow> P (hs ! j) (qs ! j)" and "i < length hs" "i < length qs" and "P h q"
  shows "\<forall>j < m. P (hs[i := h] ! j) (qs[i := q] ! j)"
  using assms by (auto simp: nth_list_update)

lemma holdings_unwritten:
  assumes "producer_stands es r h q" and "x \<in> holdings h"
  shows "x < length es \<and> es ! x = Unwritten"
  using assms
  by (auto simp: producer_stands_def holdings_def mpmc_producer_ok_def writer_fits_def
      split: option.splits prod.splits)

lemma reading_borrowed:
  assumes "consumer_stands l es r h q" and "x \<in> reading h"
  shows "x < length es \<and> (\<exists>v. es ! x = Borrowed v)"
  using assms
  by (auto simp: consumer_stands_def reading_def reader_fits_def split: option.splits prod.splits)

text \<open>A call of one handle: the others stand where they stood.\<close>

lemma rel_producer_call:
  assumes rel: "mpmc_rel l (es, ps, cs, gone) (qs, ds, r)" and i: "handle_at ps i = Some h"
    and ok': "mpmc_ring_ok es' r'" and ev: "evolves X es es'" and X: "X \<subseteq> holdings (Some h) \<union> {length es..}"
    and h': "producer_stands es' r' (Some h') q'" "holdings (Some h') \<subseteq> holdings (Some h) \<union> {length es..}"
    and books: "mpmc_books r' = (q_capacity r, q_producer_count r, q_consumer_count r, is_closed (q_closed r),
      is_closed (q_consumer_closed r), gone')"
    and l: "length es' \<le> l'" "l \<le> l'"
  shows "mpmc_rel l' (es', ps[i := Some h'], cs, gone') (qs[i := q'], ds, r')"
proof -
  have il: "i < length ps" "ps ! i = Some h" using handle_at_SomeD [OF i] by simp_all
  have st: "\<And>j. j < length ps \<Longrightarrow> producer_stands es r (ps ! j) (qs ! j)" "length qs = length ps"
    and ct: "\<And>j. j < length cs \<Longrightarrow> consumer_stands l es r (cs ! j) (ds ! j)"
    and ap: "apart (\<lambda>i. holdings (ps ! i)) (length ps)"
    using rel by simp_all
  have cap: "q_capacity r' = q_capacity r" using books by (simp add: mpmc_books_def)
  have other: "holdings (ps ! j) \<inter> (holdings (Some h) \<union> {length es..}) = {}" if "j < length ps" "j \<noteq> i" for j
  proof -
    have "holdings (ps ! j) \<inter> holdings (ps ! i) = {}" using ap that il(1) by (simp add: apart_def)
    moreover have "holdings (ps ! j) \<inter> {length es..} = {}" using holdings_unwritten [OF st(1) [OF that(1)]] by force
    ultimately show ?thesis by (simp add: il(2) Int_Un_distrib)
  qed
  have reads: "reading (cs ! j) \<inter> X = {}" if "j < length cs" for j
  proof -
    have "x \<notin> X" if x: "x \<in> reading (cs ! j)" for x
    proof
      assume "x \<in> X"
      moreover have b: "x < length es" "\<exists>v. es ! x = Borrowed v" using reading_borrowed [OF ct [OF \<open>j < length cs\<close>] x] by simp_all
      ultimately have "x \<in> holdings (ps ! i)" using X il(2) by auto
      then have "es ! x = Unwritten" using holdings_unwritten [OF st(1) [OF il(1)]] by blast
      then show False using b by simp
    qed
    then show ?thesis by blast
  qed
  have "\<forall>j < length ps. producer_stands es' r' (ps[i := Some h'] ! j) (qs[i := q'] ! j)"
  proof (rule all_update)
    fix j assume j: "j < length ps" "j \<noteq> i"
    then show "producer_stands es' r' (ps ! j) (qs ! j)"
      using producer_stands_evolves [OF st(1) [OF j(1)] ev _ cap] other [OF j] X by blast
  qed (use il st(2) h'(1) in simp_all)
  moreover have "consumer_stands l' es' r' (cs ! j) (ds ! j)" if "j < length cs" for j
    using consumer_stands_evolves [OF ct [OF that] ev reads [OF that] cap l(2)] .
  moreover have "apart (\<lambda>j. holdings (ps[i := Some h'] ! j)) (length (ps[i := Some h']))"
    by (rule apart_update [OF ap]) (use other h'(2) in blast)
  moreover have "nobody (ps[i := Some h']) = nobody ps" by (simp add: nobody_alive alive_keep [OF i])
  ultimately show ?thesis
    using rel ok' l books by (auto simp: mpmc_books_def alive_keep [OF i])
qed

lemma rel_consumer_call:
  assumes rel: "mpmc_rel l (es, ps, cs, gone) (qs, ds, r)" and j: "handle_at cs j = Some h"
    and ok': "mpmc_ring_ok es' r'" and ev: "evolves X es es'"
    and X: "\<And>x. x \<in> X \<Longrightarrow> x < length es \<and> es ! x \<noteq> Unwritten \<and> ((\<exists>v. es ! x = Offered v) \<or> x \<in> reading (Some h))"
    and h': "consumer_stands l' es' r' (Some h') q'" "reading (Some h') \<subseteq> X \<union> reading (Some h)"
    and books: "mpmc_books r' = (q_capacity r, q_producer_count r, q_consumer_count r, is_closed (q_closed r),
      is_closed (q_consumer_closed r), gone')"
    and l: "length es' = length es" "l \<le> l'"
  shows "mpmc_rel l' (es', ps, cs[j := Some h'], gone') (qs, ds[j := q'], r')"
proof -
  have jl: "j < length cs" "cs ! j = Some h" using handle_at_SomeD [OF j] by simp_all
  have st: "\<And>k. k < length ps \<Longrightarrow> producer_stands es r (ps ! k) (qs ! k)"
    and ct: "\<And>k. k < length cs \<Longrightarrow> consumer_stands l es r (cs ! k) (ds ! k)" "length ds = length cs"
    and ap: "apart (\<lambda>j. reading (cs ! j)) (length cs)"
    using rel by simp_all
  have cap: "q_capacity r' = q_capacity r" using books by (simp add: mpmc_books_def)
  have holds: "holdings (ps ! k) \<inter> X = {}" if "k < length ps" for k
    using holdings_unwritten [OF st [OF that]] X by fastforce
  have other: "reading (cs ! k) \<inter> (X \<union> reading (Some h)) = {}" if k: "k < length cs" "k \<noteq> j" for k
  proof -
    have "reading (cs ! k) \<inter> reading (cs ! j) = {}" using ap k jl(1) by (simp add: apart_def)
    then have "reading (cs ! k) \<inter> reading (Some h) = {}" by (simp add: jl(2))
    moreover have "x \<notin> X" if "x \<in> reading (cs ! k)" for x
      using reading_borrowed [OF ct(1) [OF k(1)] that] X [of x] calculation that by auto
    ultimately show ?thesis by blast
  qed
  have "\<forall>k < length cs. consumer_stands l' es' r' (cs[j := Some h'] ! k) (ds[j := q'] ! k)"
  proof (rule all_update)
    fix k assume k: "k < length cs" "k \<noteq> j"
    then show "consumer_stands l' es' r' (cs ! k) (ds ! k)"
      using consumer_stands_evolves [OF ct(1) [OF k(1)] ev _ cap l(2)] other [OF k] by blast
  qed (use jl ct(2) h'(1) in simp_all)
  moreover have "producer_stands es' r' (ps ! k) (qs ! k)" if "k < length ps" for k
    using producer_stands_evolves [OF st [OF that] ev holds [OF that] cap] .
  moreover have "apart (\<lambda>k. reading (cs[j := Some h'] ! k)) (length (cs[j := Some h']))"
    by (rule apart_update [OF ap]) (use other h'(2) in blast)
  moreover have "nobody (cs[j := Some h']) = nobody cs" by (simp add: nobody_alive alive_keep [OF j])
  ultimately show ?thesis
    using rel ok' l books by (auto simp: mpmc_books_def alive_keep [OF j])
qed


section \<open>Every call follows the pool\<close>

lemma stocked_new: "stocked n es B es1 B1 \<Longrightarrow> B1 \<subseteq> B \<union> {length es..}"
  by (auto simp: stocked_def split: if_splits)

lemma producer_at:
  assumes "mpmc_rel l (es, ps, cs, gone) (qs, ds, r)"
  obtains (absent) "handle_at ps i = None" "handle_at qs i = None"
  | (resting) p where "handle_at ps i = Some (set (batch_of p), None)" "handle_at qs i = Some (p, None)"
      "mpmc_producer_ok es r p"
  | (writing) p x where "handle_at ps i = Some (set (batch_of p), Some x)"
      "handle_at qs i = Some (p, Some (mpmc_writer_at p x))"
      "mpmc_producer_ok es r p" "writer_fits es r p x" "x \<notin> set (batch_of p)"
proof (cases "i < length ps")
  case False
  then show ?thesis using assms by (intro absent) (simp_all add: handle_at_def)
next
  case True
  then have st: "producer_stands es r (ps ! i) (qs ! i)" and at: "handle_at ps i = ps ! i" "handle_at qs i = qs ! i"
    using assms by (simp_all add: handle_at_def)
  consider "ps ! i = None" | B where "ps ! i = Some (B, None)" | B x where "ps ! i = Some (B, Some x)"
    by (cases "ps ! i") (auto, metis option.exhaust)
  then show ?thesis
  proof cases
    case 1
    then show ?thesis using st at absent by (cases "qs ! i") (auto simp: producer_stands_def)
  next
    case 2
    then show ?thesis using st at resting by (cases "qs ! i") (auto simp: producer_stands_def)
  next
    case 3
    then show ?thesis using st at writing by (cases "qs ! i") (auto simp: producer_stands_def)
  qed
qed

lemma consumer_at:
  assumes "mpmc_rel l (es, ps, cs, gone) (qs, ds, r)"
  obtains (absent) "handle_at cs j = None" "handle_at ds j = None"
  | (resting) c where "handle_at cs j = Some None" "handle_at ds j = Some (c, None)" "unat (qc_next_scan c) \<le> l"
  | (reads) c rd x where "handle_at cs j = Some (Some x)" "handle_at ds j = Some (c, Some rd)"
      "unat (qc_next_scan c) \<le> l" "reader_fits es r rd x"
proof (cases "j < length cs")
  case False
  then show ?thesis using assms by (intro absent) (simp_all add: handle_at_def)
next
  case True
  then have st: "consumer_stands l es r (cs ! j) (ds ! j)" and at: "handle_at cs j = cs ! j" "handle_at ds j = ds ! j"
    using assms by (simp_all add: handle_at_def)
  consider "cs ! j = None" | "cs ! j = Some None" | x where "cs ! j = Some (Some x)"
    by (metis option.exhaust)
  then show ?thesis
  proof cases
    case 1
    then show ?thesis using st at absent by (cases "ds ! j") (auto simp: consumer_stands_def)
  next
    case 2
    then show ?thesis using st at resting by (cases "ds ! j") (auto simp: consumer_stands_def split: option.splits)
  next
    case 3
    then show ?thesis using st at reads by (cases "ds ! j") (auto simp: consumer_stands_def split: option.splits)
  qed
qed

definition mpmc_follows ::
    "nat \<Rightarrow> nat \<Rightarrow> 'a mpmc_op \<Rightarrow> 'a pool \<Rightarrow> ('a mpmc_event \<times> 'a mpmc) option exec \<Rightarrow> bool" where
  "mpmc_follows n l op a res \<longleftrightarrow>
     (\<exists>e a1 s1. res = Inr (Some (e, s1)) \<and> pool_step n op a e a1 \<and> mpmc_rel (l + n + 32) a1 s1
        \<and> slots (q_capacity (snd (snd s1))) = n)
     \<or> (res = Inr None \<and> pool_hangs n op a)"

lemma follows_step:
  assumes "res = Inr (Some (e, qs, ds, r))" and "pool_step n op a e a1" and "mpmc_rel (l + n + 32) a1 (qs, ds, r)"
    and "slots (q_capacity r) = n"
  shows "mpmc_follows n l op a res"
  unfolding mpmc_follows_def using assms by (intro disjI1 exI conjI) (assumption | simp)+

lemma mpmc_rel_mono: "mpmc_rel l a s \<Longrightarrow> l \<le> l' \<Longrightarrow> mpmc_rel l' a s"
  by (cases a; cases s) (fastforce simp: consumer_stands_def split: option.splits prod.splits)

lemma mpmc_rel_books:
  "mpmc_rel l (es, ps, cs, gone) (qs, ds, r) \<Longrightarrow>
     mpmc_books r = (q_capacity r, q_producer_count r, q_consumer_count r, is_closed (q_closed r),
       is_closed (q_consumer_closed r), gone)"
  by (simp add: mpmc_books_def)

lemma follows_no_call:
  assumes "mpmc_rel l a (qs, ds, r)" and "\<not> callable op a" and "slots (q_capacity r) = n"
  shows "mpmc_follows n l op a (Inr (Some (Q_No_Call, qs, ds, r)))"
  by (rule follows_step [OF refl no_call [OF assms(2)] mpmc_rel_mono [OF assms(1)] assms(3)]) simp

lemma push_follows:
  assumes rel: "mpmc_rel l (es, ps, cs, gone) (qs, ds, r)" and room: "l + 32 + 2 * n < 2 ^ 64"
    and n: "slots (q_capacity r) = n"
  shows "mpmc_follows n l (Q_Push i v) (es, ps, cs, gone) (pool_push i v (qs, ds, r))"
proof (cases rule: producer_at [OF rel, of i, case_names absent resting writing])
  case absent
  then show ?thesis by (simp add: pool_push_def follows_no_call [OF rel _ n])
next
  case writing
  then show ?thesis by (simp add: pool_push_def follows_no_call [OF rel _ n])
next
  case (resting p)
  have ok: "mpmc_ring_ok es r" and le: "length es \<le> l" using rel by simp_all
  show ?thesis
  proof (rule mpmc_push_spec [OF ok resting(3), of v])
    show "length es + 32 + 2 * slots (q_capacity r) < 2 ^ 64" using room le n by simp
    fix es1 B1 p1 r1
    assume st: "stocked (slots (q_capacity r)) es (set (batch_of p)) es1 B1"
      and books: "mpmc_books r1 = mpmc_books r"
      and res: "mpmc_push [] v p r = Inr (Push_Err v, p1, r1) \<and> mpmc_ring_ok es1 r1 \<and> mpmc_producer_ok es1 r1 p1
          \<and> set (batch_of p1) = B1 \<and> (\<forall>x \<in> B1. \<not> open_at (slots (q_capacity r)) es1 x)
        \<or> (\<exists>x \<in> B1. mpmc_push [] v p r = Inr (Push_Ok, p1, r1) \<and> open_at (slots (q_capacity r)) es1 x
            \<and> x < length es1 \<and> es1 ! x = Unwritten
            \<and> mpmc_ring_ok (es1[x := Offered v]) r1 \<and> mpmc_producer_ok (es1[x := Offered v]) r1 p1
            \<and> set (batch_of p1) = B1 - {x})"
    note books1 = books [unfolded mpmc_rel_books [OF rel]]
    note len = stocked_length [OF st]
    note new = stocked_new [OF st]
    note keep = rel_producer_call [OF rel resting(1) _ _ _ _ _ books1]
    have cap: "slots (q_capacity r1) = n" by (simp add: mpmc_books_capacity [OF books] n)
    from res show ?thesis
    proof (elim disjE conjE bexE)
      assume "mpmc_push [] v p r = Inr (Push_Err v, p1, r1)" and ok1: "mpmc_ring_ok es1 r1"
        "mpmc_producer_ok es1 r1 p1" "set (batch_of p1) = B1" and shut: "\<forall>x \<in> B1. \<not> open_at (slots (q_capacity r)) es1 x"
      then show ?thesis
      proof (intro follows_step)
        show "pool_push i v (qs, ds, r) = Inr (Some (Q_Refused v, qs[i := Some (p1, None)], ds, r1))"
          using \<open>mpmc_push [] v p r = _\<close> by (simp add: pool_push_def resting(2))
        show "pool_step n (Q_Push i v) (es, ps, cs, gone) (Q_Refused v) (es1, ps[i := Some (B1, None)], cs, gone)"
          using full [OF resting(1) st [unfolded n]] shut n by simp
        show "mpmc_rel (l + n + 32) (es1, ps[i := Some (B1, None)], cs, gone) (qs[i := Some (p1, None)], ds, r1)"
          by (rule keep [OF ok1(1) evolves_stocked [OF st, of "{}"]])
            (use ok1 new len le in \<open>simp_all add: producer_stands_def holdings_def\<close>)
      qed (rule cap)
    next
      fix x assume x: "x \<in> B1" "open_at (slots (q_capacity r)) es1 x" "x < length es1" "es1 ! x = Unwritten"
        and run: "mpmc_push [] v p r = Inr (Push_Ok, p1, r1)"
        and ok1: "mpmc_ring_ok (es1[x := Offered v]) r1" "mpmc_producer_ok (es1[x := Offered v]) r1 p1"
          "set (batch_of p1) = B1 - {x}"
      have ev: "evolves {x} es (es1[x := Offered v])"
        by (rule evolves_trans [OF evolves_stocked [OF st] evolves_update]) (simp add: x(4))
      show ?thesis
      proof (rule follows_step)
        show "pool_push i v (qs, ds, r) = Inr (Some (Q_Accepted v, qs[i := Some (p1, None)], ds, r1))"
          using run by (simp add: pool_push_def resting(2))
        show "pool_step n (Q_Push i v) (es, ps, cs, gone) (Q_Accepted v)
            (es1[x := Offered v], ps[i := Some (B1 - {x}, None)], cs, gone)"
          using push [OF resting(1) st [unfolded n] x(1)] x(2-) n by (simp add: writable_def)
        show "mpmc_rel (l + n + 32) (es1[x := Offered v], ps[i := Some (B1 - {x}, None)], cs, gone)
            (qs[i := Some (p1, None)], ds, r1)"
          by (rule keep [OF ok1(1) ev])
            (use ok1 x(1) new len le in \<open>simp_all add: producer_stands_def holdings_def subset_iff\<close>)
      qed (rule cap)
    qed
  qed
qed

lemma reserve_follows:
  assumes rel: "mpmc_rel l (es, ps, cs, gone) (qs, ds, r)" and room: "l + 32 + 2 * n < 2 ^ 64"
    and n: "slots (q_capacity r) = n"
  shows "mpmc_follows n l (Q_Reserve i) (es, ps, cs, gone) (pool_reserve i (qs, ds, r))"
proof (cases rule: producer_at [OF rel, of i, case_names absent resting writing])
  case absent
  then show ?thesis by (simp add: pool_reserve_def follows_no_call [OF rel _ n])
next
  case writing
  then show ?thesis by (simp add: pool_reserve_def follows_no_call [OF rel _ n])
next
  case (resting p)
  have ok: "mpmc_ring_ok es r" and le: "length es \<le> l" using rel by simp_all
  show ?thesis
  proof (rule mpmc_acquire_spec [OF ok resting(3)])
    show "length es + 32 + 2 * slots (q_capacity r) < 2 ^ 64" using room le n by simp
    fix es1 B1 p1 r1
    assume st: "stocked (slots (q_capacity r)) es (set (batch_of p)) es1 B1"
      and ok1: "mpmc_ring_ok es1 r1" "mpmc_producer_ok es1 r1 p1"
      and books: "mpmc_books r1 = mpmc_books r"
      and res: "mpmc_acquire_slot [] p r = Inr (None, p1, r1) \<and> set (batch_of p1) = B1
          \<and> (\<forall>x \<in> B1. \<not> open_at (slots (q_capacity r)) es1 x)
        \<or> (\<exists>x. mpmc_acquire_slot [] p r = Inr (Some (x - unat (qp_batch_start p1), of_nat x), p1, r1)
            \<and> x \<in> B1 \<and> open_at (slots (q_capacity r)) es1 x \<and> set (batch_of p1) = B1 - {x}
            \<and> x < length es1 \<and> es1 ! x = Unwritten \<and> x < unat (qp_batch_start p1) + slots (q_capacity r)
            \<and> x - unat (qp_batch_start p1) < 32 \<and> unat (qp_batch_start p1) \<le> x)"
    note new = stocked_new [OF st] and len = stocked_length [OF st]
    note keep = rel_producer_call [OF rel resting(1) ok1(1) evolves_stocked [OF st, of "{}"] _ _ _
      books [unfolded mpmc_rel_books [OF rel]]]
    have cap: "slots (q_capacity r1) = n" by (simp add: mpmc_books_capacity [OF books] n)
    from res show ?thesis
    proof (elim disjE conjE exE)
      assume run: "mpmc_acquire_slot [] p r = Inr (None, p1, r1)" and B1: "set (batch_of p1) = B1"
        and shut: "\<forall>x \<in> B1. \<not> open_at (slots (q_capacity r)) es1 x"
      show ?thesis
      proof (rule follows_step)
        show "pool_reserve i (qs, ds, r) = Inr (Some (Q_Reserved False, qs[i := Some (p1, None)], ds, r1))"
          using run by (simp add: pool_reserve_def mpmc_reserve_def resting(2))
        show "pool_step n (Q_Reserve i) (es, ps, cs, gone) (Q_Reserved False)
            (es1, ps[i := Some (B1, None)], cs, gone)"
          using reserve_full [OF resting(1) st [unfolded n]] shut n by simp
        show "mpmc_rel (l + n + 32) (es1, ps[i := Some (B1, None)], cs, gone) (qs[i := Some (p1, None)], ds, r1)"
          by (rule keep) (use ok1 B1 new len le in \<open>simp_all add: producer_stands_def holdings_def\<close>)
      qed (rule cap)
    next
      fix x assume run: "mpmc_acquire_slot [] p r = Inr (Some (x - unat (qp_batch_start p1), of_nat x), p1, r1)"
        and x: "x \<in> B1" "open_at (slots (q_capacity r)) es1 x" "set (batch_of p1) = B1 - {x}" "x < length es1"
          "es1 ! x = Unwritten" "x < unat (qp_batch_start p1) + slots (q_capacity r)"
          "x - unat (qp_batch_start p1) < 32" "unat (qp_batch_start p1) \<le> x"
      have fits: "writer_fits es1 r1 p1 x"
        using x by (simp add: writer_fits_def mpmc_books_capacity [OF books])
      show ?thesis
      proof (rule follows_step)
        show "pool_reserve i (qs, ds, r)
            = Inr (Some (Q_Reserved True, qs[i := Some (p1, Some (mpmc_writer_at p1 x))], ds, r1))"
          using run by (simp add: pool_reserve_def mpmc_reserve_def resting(2) mpmc_writer_at_def)
        show "pool_step n (Q_Reserve i) (es, ps, cs, gone) (Q_Reserved True)
            (es1, ps[i := Some (B1 - {x}, Some x)], cs, gone)"
          using reserve [OF resting(1) st [unfolded n] x(1)] x(2,4,5) n by (simp add: writable_def)
        show "mpmc_rel (l + n + 32) (es1, ps[i := Some (B1 - {x}, Some x)], cs, gone)
            (qs[i := Some (p1, Some (mpmc_writer_at p1 x))], ds, r1)"
          by (rule keep)
            (use ok1 fits x(1,3) new len le in \<open>simp_all add: producer_stands_def holdings_def subset_iff\<close>)
      qed (rule cap)
    qed
  qed
qed

lemma commit_follows:
  assumes rel: "mpmc_rel l (es, ps, cs, gone) (qs, ds, r)" and n: "slots (q_capacity r) = n"
  shows "mpmc_follows n l (Q_Commit i v) (es, ps, cs, gone) (pool_commit dtor i v (qs, ds, r))"
proof (cases rule: producer_at [OF rel, of i, case_names absent resting writing])
  case absent
  then show ?thesis by (simp add: pool_commit_def follows_no_call [OF rel _ n])
next
  case resting
  then show ?thesis by (simp add: pool_commit_def follows_no_call [OF rel _ n])
next
  case (writing p x)
  have ok: "mpmc_ring_ok es r" and le: "length es \<le> l" using rel by simp_all
  obtain ws r1 r2 where run: "mpmc_write (mpmc_writer_at p x) v r = Inr (ws, r1)"
      "mpmc_commit dtor ws p r1 = Inr (Returned, p, r2)"
    and ok2: "mpmc_ring_ok (es[x := Offered v]) r2" "mpmc_producer_ok (es[x := Offered v]) r2 p"
    and books: "mpmc_books r2 = mpmc_books r"
    by (rule mpmc_write_commit_spec [OF ok writing(3,4,5), where v = v and dtor = dtor])
  have x: "x < length es" "es ! x = Unwritten" "open_at n es x"
    using writing(4) n by (simp_all add: writer_fits_def)
  show ?thesis
  proof (rule follows_step)
    show "pool_commit dtor i v (qs, ds, r) = Inr (Some (Q_Accepted v, qs[i := Some (p, None)], ds, r2))"
      using run by (simp add: pool_commit_def writing(2))
    show "pool_step n (Q_Commit i v) (es, ps, cs, gone) (Q_Accepted v)
        (es[x := Offered v], ps[i := Some (set (batch_of p), None)], cs, gone)"
      by (rule commit [OF writing(1)]) (use x in \<open>simp add: writable_def\<close>)
    show "mpmc_rel (l + n + 32) (es[x := Offered v], ps[i := Some (set (batch_of p), None)], cs, gone)
        (qs[i := Some (p, None)], ds, r2)"
      by (rule rel_producer_call [OF rel writing(1) ok2(1) evolves_update _ _ _ books [unfolded mpmc_rel_books [OF rel]]])
        (use ok2 x le in \<open>simp_all add: producer_stands_def holdings_def subset_iff\<close>)
    show "slots (q_capacity r2) = n" by (simp add: mpmc_books_capacity [OF books] n)
  qed
qed

lemma writer_drop_follows:
  assumes rel: "mpmc_rel l (es, ps, cs, gone) (qs, ds, r)" and n: "slots (q_capacity r) = n"
  shows "mpmc_follows n l (Q_Abandon i) (es, ps, cs, gone) (pool_abandon i (qs, ds, r))"
proof (cases rule: producer_at [OF rel, of i, case_names absent resting writing])
  case absent
  then show ?thesis by (simp add: pool_abandon_def follows_no_call [OF rel _ n])
next
  case resting
  then show ?thesis by (simp add: pool_abandon_def follows_no_call [OF rel _ n])
next
  case (writing p x)
  let ?p = "mpmc_slot_writer_drop (mpmc_writer_at p x) p"
  have ok: "mpmc_ring_ok es r" "length es \<le> l" using rel by simp_all
  note drop = mpmc_writer_drop_spec [OF writing(3,4)]
  show ?thesis
  proof (rule follows_step)
    show "pool_abandon i (qs, ds, r) = Inr (Some (Q_Gave_Up [], qs[i := Some (?p, None)], ds, r))"
      by (simp add: pool_abandon_def writing(2))
    show "pool_step n (Q_Abandon i) (es, ps, cs, gone) (Q_Gave_Up [])
        (es, ps[i := Some (insert x (set (batch_of p)), None)], cs, gone)"
      by (rule abandon [OF writing(1)])
    show "mpmc_rel (l + n + 32) (es, ps[i := Some (insert x (set (batch_of p)), None)], cs, gone)
        (qs[i := Some (?p, None)], ds, r)"
      by (rule rel_producer_call [OF rel writing(1) ok(1) evolves_refl [of "{}"] _ _ _ mpmc_rel_books [OF rel]])
        (use drop(1,2) ok in \<open>simp_all add: producer_stands_def holdings_def subset_iff\<close>)
  qed (rule n)
qed

lemma abandon_written_follows:
  assumes rel: "mpmc_rel l (es, ps, cs, gone) (qs, ds, r)" and n: "slots (q_capacity r) = n"
  shows "mpmc_follows n l (Q_Abandon_Written i v) (es, ps, cs, gone) (pool_abandon_written dtor i v (qs, ds, r))"
proof (cases rule: producer_at [OF rel, of i, case_names absent resting writing])
  case absent
  then show ?thesis by (simp add: pool_abandon_written_def follows_no_call [OF rel _ n])
next
  case resting
  then show ?thesis by (simp add: pool_abandon_written_def follows_no_call [OF rel _ n])
next
  case (writing p x)
  have ok: "mpmc_ring_ok es r" and le: "length es \<le> l" and gone: "q_dropped r = gone" using rel by simp_all
  obtain ws r1 r2 p1 where run: "mpmc_write (mpmc_writer_at p x) v r = Inr (ws, r1)"
      "mpmc_written_slot_drop dtor ws p r1 = Inr (dtor v, p1, r2\<lparr>q_dropped := q_dropped r @ [v]\<rparr>)"
    and ok2: "mpmc_ring_ok es r2" "mpmc_producer_ok es r2 p1" "set (batch_of p1) = insert x (set (batch_of p))"
    and books: "mpmc_books r2 = mpmc_books r"
    by (rule mpmc_write_drop_spec [OF ok writing(3,4), where v = v and dtor = dtor])
  let ?r = "r2\<lparr>q_dropped := gone @ [v]\<rparr>"
  have ok3: "mpmc_ring_ok es ?r" "mpmc_producer_ok es ?r p1"
    using ok2 by (auto simp: mpmc_producer_ok_def intro: mpmc_ring_ok_cong)
  show ?thesis
  proof (rule follows_step)
    show "pool_abandon_written dtor i v (qs, ds, r) = Inr (Some (Q_Gave_Up [v], qs[i := Some (p1, None)], ds, ?r))"
      using run gone by (simp add: pool_abandon_written_def writing(2))
    show "pool_step n (Q_Abandon_Written i v) (es, ps, cs, gone) (Q_Gave_Up [v])
        (es, ps[i := Some (insert x (set (batch_of p)), None)], cs, gone @ [v])"
      by (rule abandon_written [OF writing(1)])
    show "mpmc_rel (l + n + 32) (es, ps[i := Some (insert x (set (batch_of p)), None)], cs, gone @ [v])
        (qs[i := Some (p1, None)], ds, ?r)"
      by (rule rel_producer_call [OF rel writing(1) ok3(1) evolves_refl [of "{}"]])
        (use ok2(3) ok3(2) le books in \<open>simp_all add: producer_stands_def holdings_def mpmc_books_def subset_iff\<close>)
    show "slots (q_capacity ?r) = n" using mpmc_books_capacity [OF books] n by simp
  qed
qed

text \<open>Consumers.\<close>

lemma cursor_step:
  assumes "unat (qc_next_scan c') \<le> max (length es) (Suc (unat (qc_next_scan c)))"
    and "unat (qc_next_scan c) \<le> l" "length es \<le> l"
  shows "unat (qc_next_scan c') \<le> l + n + 32"
  using assms by simp

lemma pop_follows:
  assumes rel: "mpmc_rel l (es, ps, cs, gone) (qs, ds, r)" and room: "l + 32 + 2 * n < 2 ^ 64"
    and n: "slots (q_capacity r) = n"
  shows "mpmc_follows n l (Q_Pop j) (es, ps, cs, gone) (pool_pop j (qs, ds, r))"
proof (cases rule: consumer_at [OF rel, of j, case_names absent resting reads])
  case absent
  then show ?thesis by (simp add: pool_pop_def follows_no_call [OF rel _ n])
next
  case reads
  then show ?thesis by (simp add: pool_pop_def follows_no_call [OF rel _ n])
next
  case (resting c)
  have ok: "mpmc_ring_ok es r" and le: "length es \<le> l" and same: "cs[j := Some None] = cs"
    using rel handle_at_SomeD [OF resting(1)] by (simp_all add: list_update_same_conv)
  have room1: "unat (qc_next_scan c) + 2 * slots (q_capacity r) < 2 ^ 64" using resting(3) room n by simp
  show ?thesis
  proof (cases rule: mpmc_pop_spec [OF ok room1, case_names popped none])
    case (popped x v c' r')
    note books = popped(5)
    show ?thesis
    proof (rule follows_step)
      show "pool_pop j (qs, ds, r) = Inr (Some (Q_Popped j v, qs, ds[j := Some (c', None)], r'))"
        using popped(1) by (simp add: pool_pop_def resting(2))
      show "pool_step n (Q_Pop j) (es, ps, cs, gone) (Q_Popped j v) (es[x := Settled], ps, cs, gone)"
        by (rule pop [OF resting(1) popped(2,3)])
      have "mpmc_rel (l + n + 32) (es[x := Settled], ps, cs[j := Some None], gone)
          (qs, ds[j := Some (c', None)], r')"
        by (rule rel_consumer_call [OF rel resting(1) popped(4) evolves_settle _ _ _ books [unfolded mpmc_rel_books [OF rel]]])
          (use popped cursor_step [OF popped(6) resting(3) le] in \<open>simp_all add: consumer_stands_def reading_def\<close>)
      then show "mpmc_rel (l + n + 32) (es[x := Settled], ps, cs, gone) (qs, ds[j := Some (c', None)], r')"
        by (simp only: same)
      show "slots (q_capacity r') = n" by (simp add: mpmc_books_capacity [OF books] n)
    qed
  next
    case (none c')
    show ?thesis
    proof (rule follows_step)
      show "pool_pop j (qs, ds, r) = Inr (Some (Q_Empty j, qs, ds[j := Some (c', None)], r))"
        using none(1) by (simp add: pool_pop_def resting(2))
      show "pool_step n (Q_Pop j) (es, ps, cs, gone) (Q_Empty j) (es, ps, cs, gone)"
        by (rule pop_empty [OF resting(1) none(2)])
      have "mpmc_rel (l + n + 32) (es, ps, cs[j := Some None], gone) (qs, ds[j := Some (c', None)], r)"
        by (rule rel_consumer_call [OF rel resting(1) ok evolves_refl [of "{}"] _ _ _ mpmc_rel_books [OF rel]])
          (use none(3) resting(3) n in \<open>simp_all add: consumer_stands_def reading_def\<close>)
      then show "mpmc_rel (l + n + 32) (es, ps, cs, gone) (qs, ds[j := Some (c', None)], r)"
        by (simp only: same)
    qed (rule n)
  qed
qed

lemma open_follows:
  assumes rel: "mpmc_rel l (es, ps, cs, gone) (qs, ds, r)" and room: "l + 32 + 2 * n < 2 ^ 64"
    and n: "slots (q_capacity r) = n"
  shows "mpmc_follows n l (Q_Open j) (es, ps, cs, gone) (pool_open j (qs, ds, r))"
proof (cases rule: consumer_at [OF rel, of j, case_names absent resting reads])
  case absent
  then show ?thesis by (simp add: pool_open_def follows_no_call [OF rel _ n])
next
  case reads
  then show ?thesis by (simp add: pool_open_def follows_no_call [OF rel _ n])
next
  case (resting c)
  have ok: "mpmc_ring_ok es r" and le: "length es \<le> l" and same: "cs[j := Some None] = cs"
    using rel handle_at_SomeD [OF resting(1)] by (simp_all add: list_update_same_conv)
  have room1: "unat (qc_next_scan c) + 2 * slots (q_capacity r) < 2 ^ 64" using resting(3) room n by simp
  show ?thesis
  proof (cases rule: mpmc_pop_ref_spec [OF ok room1, case_names opened none])
    case (opened rd x v c' r')
    note books = opened(5)
    show ?thesis
    proof (rule follows_step)
      show "pool_open j (qs, ds, r) = Inr (Some (Q_Opened j v, qs, ds[j := Some (c', Some rd)], r'))"
        using opened(1,7) by (simp add: pool_open_def resting(2))
      show "pool_step n (Q_Open j) (es, ps, cs, gone) (Q_Opened j v)
          (es[x := Borrowed v], ps, cs[j := Some (Some x)], gone)"
        by (rule read_open [OF resting(1) opened(2,3)])
      show "mpmc_rel (l + n + 32) (es[x := Borrowed v], ps, cs[j := Some (Some x)], gone)
          (qs, ds[j := Some (c', Some rd)], r')"
        by (rule rel_consumer_call [OF rel resting(1) opened(4) evolves_update _ _ _ books [unfolded mpmc_rel_books [OF rel]]])
          (use opened cursor_step [OF opened(8) resting(3) le] in \<open>simp_all add: consumer_stands_def reading_def\<close>)
      show "slots (q_capacity r') = n" by (simp add: mpmc_books_capacity [OF books] n)
    qed
  next
    case (none c')
    show ?thesis
    proof (rule follows_step)
      show "pool_open j (qs, ds, r) = Inr (Some (Q_Empty j, qs, ds[j := Some (c', None)], r))"
        using none(1) by (simp add: pool_open_def resting(2))
      show "pool_step n (Q_Open j) (es, ps, cs, gone) (Q_Empty j) (es, ps, cs, gone)"
        by (rule read_none [OF resting(1) none(2)])
      have "mpmc_rel (l + n + 32) (es, ps, cs[j := Some None], gone) (qs, ds[j := Some (c', None)], r)"
        by (rule rel_consumer_call [OF rel resting(1) ok evolves_refl [of "{}"] _ _ _ mpmc_rel_books [OF rel]])
          (use none(3) resting(3) n in \<open>simp_all add: consumer_stands_def reading_def\<close>)
      then show "mpmc_rel (l + n + 32) (es, ps, cs, gone) (qs, ds[j := Some (c', None)], r)"
        by (simp only: same)
    qed (rule n)
  qed
qed

lemma finish_follows:
  assumes rel: "mpmc_rel l (es, ps, cs, gone) (qs, ds, r)" and n: "slots (q_capacity r) = n"
  shows "mpmc_follows n l (Q_Finish j) (es, ps, cs, gone) (pool_finish dtor j (qs, ds, r))"
proof (cases rule: consumer_at [OF rel, of j, case_names absent resting reads])
  case absent
  then show ?thesis by (simp add: pool_finish_def follows_no_call [OF rel _ n])
next
  case resting
  then show ?thesis by (simp add: pool_finish_def follows_no_call [OF rel _ n])
next
  case (reads c rd x)
  have ok: "mpmc_ring_ok es r" and le: "length es \<le> l" and gone: "q_dropped r = gone" using rel by simp_all
  obtain v r' where v: "es ! x = Borrowed v" and run: "mpmc_reader_deref rd r = Inr v"
      "mpmc_reader_drop dtor rd r = Inr (dtor v, r'\<lparr>q_dropped := q_dropped r @ [v]\<rparr>)"
    and ok1: "mpmc_ring_ok (es[x := Settled]) r'" and books: "mpmc_books r' = mpmc_books r"
    by (rule mpmc_reader_drop_spec [OF ok reads(4), where dtor = dtor])
  have x: "x < length es" using reads(4) by (simp add: reader_fits_def)
  let ?r = "r'\<lparr>q_dropped := gone @ [v]\<rparr>"
  have ok2: "mpmc_ring_ok (es[x := Settled]) ?r" using ok1 by (auto intro: mpmc_ring_ok_cong)
  show ?thesis
  proof (rule follows_step)
    show "pool_finish dtor j (qs, ds, r) = Inr (Some (Q_Read j v, qs, ds[j := Some (c, None)], ?r))"
      using run gone by (simp add: pool_finish_def reads(2))
    show "pool_step n (Q_Finish j) (es, ps, cs, gone) (Q_Read j v)
        (es[x := Settled], ps, cs[j := Some None], gone @ [v])"
      by (rule finish [OF reads(1) x v])
    show "mpmc_rel (l + n + 32) (es[x := Settled], ps, cs[j := Some None], gone @ [v])
        (qs, ds[j := Some (c, None)], ?r)"
      by (rule rel_consumer_call [OF rel reads(1) ok2 evolves_settle])
        (use x v reads(3) books gone in \<open>simp_all add: consumer_stands_def reading_def mpmc_books_def\<close>)
    show "slots (q_capacity ?r) = n" using mpmc_books_capacity [OF books] n by simp
  qed
qed

text \<open>Joining and leaving.\<close>

lemma count_zero:
  assumes "m < 2 ^ 64"
  shows "(of_nat m :: usize) = 1 \<longleftrightarrow> m = 1"
proof
  assume "(of_nat m :: usize) = 1"
  then have "unat (of_nat m :: usize) = 1" by simp
  then show "m = 1" using assms by (simp add: unat_of_nat_usize)
qed simp

lemma endpoint_leaves:
  assumes "handle_at hs i = Some h" and "live e = of_nat (alive hs)" and "length hs < 2 ^ 64"
  shows "live (snd (endpoint_release e)) = of_nat (alive (hs[i := None]))"
    and "fst (endpoint_release e) = nobody (hs[i := None])" and "\<not> nobody hs"
proof -
  have a: "alive hs = Suc (alive (hs[i := None]))" using alive_drop [OF assms(1)] by simp
  then have "live e = 1 + of_nat (alive (hs[i := None]))" using assms(2) by simp
  then show "live (snd (endpoint_release e)) = of_nat (alive (hs[i := None]))" by (simp add: endpoint_release_def)
  have "alive hs < 2 ^ 64" using assms(3) alive_le [of hs] by simp
  then have "live e = 1 \<longleftrightarrow> alive hs = 1" unfolding assms(2) by (rule count_zero)
  then show "fst (endpoint_release e) = nobody (hs[i := None])" by (simp add: endpoint_release_def nobody_alive a)
  show "\<not> nobody hs" by (simp add: nobody_alive a)
qed

lemma endpoint_joins:
  assumes "handle_at hs i = Some h" and "live e = of_nat (alive hs)"
  shows "live (endpoint_register e) = of_nat (alive (hs @ [Some h']))" and "\<not> nobody hs" and "\<not> nobody (hs @ [Some h'])"
  using assms alive_drop [OF assms(1)]
  by (auto simp: endpoint_register_def alive_snoc nobody_alive)

lemma all_stand:
  assumes "mpmc_rel l (es, ps, cs, gone) (qs, ds, r)" and "q_capacity r' = q_capacity r" and "l \<le> l'"
  shows "\<And>k. k < length ps \<Longrightarrow> producer_stands es r' (ps ! k) (qs ! k)"
    and "\<And>k. k < length cs \<Longrightarrow> consumer_stands l' es r' (cs ! k) (ds ! k)"
proof -
  fix k assume "k < length ps"
  then have st: "producer_stands es r (ps ! k) (qs ! k)" using assms(1) by simp
  show "producer_stands es r' (ps ! k) (qs ! k)"
    by (rule producer_stands_evolves [OF st evolves_refl [of "{}"] _ assms(2)]) simp
next
  fix k assume "k < length cs"
  then have st: "consumer_stands l es r (cs ! k) (ds ! k)" using assms(1) by simp
  show "consumer_stands l' es r' (cs ! k) (ds ! k)"
    by (rule consumer_stands_evolves [OF st evolves_refl [of "{}"] _ assms(2,3)]) simp
qed

lemma clone_producer_follows:
  assumes rel: "mpmc_rel l (es, ps, cs, gone) (qs, ds, r)" and n: "slots (q_capacity r) = n"
  shows "mpmc_follows n l (Q_Clone_Producer i) (es, ps, cs, gone) (pool_clone_producer i (qs, ds, r))"
proof (cases rule: producer_at [OF rel, of i, case_names absent resting writing])
  case absent
  then show ?thesis by (simp add: pool_clone_producer_def follows_no_call [OF rel _ n])
next
  case writing
  then show ?thesis by (simp add: pool_clone_producer_def follows_no_call [OF rel _ n])
next
  case (resting p)
  have ok: "mpmc_ring_ok es r" using rel by simp
  show ?thesis
  proof (rule mpmc_producer_clone_spec [OF ok])
    fix p' r' assume run: "mpmc_producer_clone r = (p', r')" and ok': "mpmc_ring_ok es r'" "qp_batch_unused p' = 0"
      and same: "q_producer_count r' = endpoint_register (q_producer_count r)" "q_capacity r' = q_capacity r"
        "q_consumer_count r' = q_consumer_count r" "q_dropped r' = q_dropped r"
        "q_closed r' = q_closed r" "q_consumer_closed r' = q_consumer_closed r"
    have none: "batch_of p' = []" using ok'(2) by (simp add: batch_of_def)
    have new: "producer_stands es r' (Some ({}, None)) (Some (p', None))"
      unfolding producer_stands_def mpmc_producer_ok_def by (simp add: none ok'(2))
    note stand = all_stand [OF rel same(2), where l' = "l + n + 32", simplified]
    have ap: "apart (\<lambda>k. holdings ((ps @ [Some ({}, None)]) ! k)) (length (ps @ [Some ({}, None)]))"
      by (rule apart_snoc) (use rel in \<open>simp_all add: holdings_def\<close>)
    note ends = endpoint_joins [OF resting(1), of "q_producer_count r"]
    show ?thesis
    proof (rule follows_step)
      show "pool_clone_producer i (qs, ds, r) = Inr (Some (Q_Joined, qs @ [Some (p', None)], ds, r'))"
        by (simp add: pool_clone_producer_def resting(2) run)
      show "pool_step n (Q_Clone_Producer i) (es, ps, cs, gone) Q_Joined (es, ps @ [Some ({}, None)], cs, gone)"
        by (rule producer_joins [OF resting(1)])
      show "mpmc_rel (l + n + 32) (es, ps @ [Some ({}, None)], cs, gone) (qs @ [Some (p', None)], ds, r')"
        using rel ok'(1) new stand ap ends same by (auto simp: nth_append less_Suc_eq)
      show "slots (q_capacity r') = n" by (simp add: same(2) n)
    qed
  qed
qed

lemma clone_consumer_follows:
  assumes rel: "mpmc_rel l (es, ps, cs, gone) (qs, ds, r)" and n: "slots (q_capacity r) = n"
  shows "mpmc_follows n l (Q_Clone_Consumer j) (es, ps, cs, gone) (pool_clone_consumer j (qs, ds, r))"
proof (cases rule: consumer_at [OF rel, of j, case_names absent resting reads])
  case absent
  then show ?thesis by (simp add: pool_clone_consumer_def follows_no_call [OF rel _ n])
next
  case reads
  then show ?thesis by (simp add: pool_clone_consumer_def follows_no_call [OF rel _ n])
next
  case (resting c)
  have ok: "mpmc_ring_ok es r" using rel by simp
  show ?thesis
  proof (rule mpmc_consumer_clone_spec [OF ok])
    fix c' r' assume run: "mpmc_consumer_clone r = (c', r')" and ok': "mpmc_ring_ok es r'"
        "unat (qc_next_scan c') < slots (q_capacity r)"
      and same: "q_consumer_count r' = endpoint_register (q_consumer_count r)" "q_capacity r' = q_capacity r"
        "q_producer_count r' = q_producer_count r" "q_dropped r' = q_dropped r"
        "q_closed r' = q_closed r" "q_consumer_closed r' = q_consumer_closed r"
    have new: "consumer_stands (l + n + 32) es r' (Some None) (Some (c', None))"
      using ok'(2) n by (simp add: consumer_stands_def)
    note stand = all_stand [OF rel same(2), where l' = "l + n + 32", simplified]
    have ap: "apart (\<lambda>k. reading ((cs @ [Some None]) ! k)) (length (cs @ [Some None]))"
      by (rule apart_snoc) (use rel in \<open>simp_all add: reading_def\<close>)
    note ends = endpoint_joins [OF resting(1), of "q_consumer_count r"]
    show ?thesis
    proof (rule follows_step)
      show "pool_clone_consumer j (qs, ds, r) = Inr (Some (Q_Joined, qs, ds @ [Some (c', None)], r'))"
        by (simp add: pool_clone_consumer_def resting(2) run)
      show "pool_step n (Q_Clone_Consumer j) (es, ps, cs, gone) Q_Joined (es, ps, cs @ [Some None], gone)"
        by (rule consumer_joins [OF resting(1)])
      show "mpmc_rel (l + n + 32) (es, ps, cs @ [Some None], gone) (qs, ds @ [Some (c', None)], r')"
        using rel ok'(1) new stand ap ends same by (auto simp: nth_append less_Suc_eq)
      show "slots (q_capacity r') = n" by (simp add: same(2) n)
    qed
  qed
qed

lemma consumer_leaves_follows:
  assumes rel: "mpmc_rel l (es, ps, cs, gone) (qs, ds, r)" and room: "l + 32 + 2 * n < 2 ^ 64"
    and n: "slots (q_capacity r) = n"
  shows "mpmc_follows n l (Q_Consumer_Leaves j) (es, ps, cs, gone) (pool_consumer_leaves j (qs, ds, r))"
proof (cases rule: consumer_at [OF rel, of j, case_names absent resting reads])
  case absent
  then show ?thesis by (simp add: pool_consumer_leaves_def follows_no_call [OF rel _ n])
next
  case reads
  then show ?thesis by (simp add: pool_consumer_leaves_def follows_no_call [OF rel _ n])
next
  case (resting c)
  have ok: "mpmc_ring_ok es r" using rel by simp
  let ?r = "mpmc_consumer_drop c r"
  note drop = mpmc_consumer_drop_spec [OF ok refl, of c]
  have len: "length cs < 2 ^ 64" "live (q_consumer_count r) = of_nat (alive cs)" using rel room by simp_all
  note ends = endpoint_leaves [OF resting(1) len(2) len(1)]
  note stand = all_stand [OF rel drop(2), where l' = "l + n + 32", simplified]
  have left: "\<forall>k < length cs. consumer_stands (l + n + 32) es ?r (cs[j := None] ! k) (ds[j := None] ! k)"
    by (rule all_update) (use rel stand(2) handle_at_SomeD [OF resting(1)] in \<open>simp_all add: consumer_stands_def\<close>)
  have ap: "apart (\<lambda>k. reading (cs[j := None] ! k)) (length (cs[j := None]))"
    by (rule apart_update) (use rel in \<open>simp_all add: reading_def\<close>)
  show ?thesis
  proof (rule follows_step)
    show "pool_consumer_leaves j (qs, ds, r) = Inr (Some (Q_Left, qs, ds[j := None], ?r))"
      by (simp add: pool_consumer_leaves_def resting(2))
    show "pool_step n (Q_Consumer_Leaves j) (es, ps, cs, gone) Q_Left (es, ps, cs[j := None], gone)"
      by (rule consumer_leaves [OF resting(1)])
    show "mpmc_rel (l + n + 32) (es, ps, cs[j := None], gone) (qs, ds[j := None], ?r)"
      using rel drop stand(1) left ap ends by simp
    show "slots (q_capacity ?r) = n" by (simp add: drop(2) n)
  qed
qed

lemma producer_leaves_follows:
  assumes rel: "mpmc_rel l (es, ps, cs, gone) (qs, ds, r)" and room: "l + 32 + 2 * n < 2 ^ 64"
    and n: "slots (q_capacity r) = n"
  shows "mpmc_follows n l (Q_Producer_Leaves i) (es, ps, cs, gone) (pool_producer_leaves i (qs, ds, r))"
proof (cases rule: producer_at [OF rel, of i, case_names absent resting writing])
  case absent
  then show ?thesis by (simp add: pool_producer_leaves_def follows_no_call [OF rel _ n])
next
  case writing
  then show ?thesis by (simp add: pool_producer_leaves_def follows_no_call [OF rel _ n])
next
  case (resting p)
  let ?B = "set (batch_of p)"
  have ok: "mpmc_ring_ok es r" and shut: "is_closed (q_consumer_closed r) = nobody cs" using rel by simp_all
  note spec = mpmc_producer_drop_spec [OF ok resting(3), unfolded n shut]
  have il: "i < length ps" "ps ! i = Some (?B, None)" using handle_at_SomeD [OF resting(1)] by simp_all
  have held: "x < length es \<and> es ! x = Unwritten" if "x \<in> ?B" for x
    using resting(3) that by (simp add: mpmc_producer_ok_def)
  show ?thesis
  proof (cases "(\<exists>x \<in> ?B. \<not> open_at n es x) \<and> \<not> nobody cs")
    case True
    then have "pool_hangs n (Q_Producer_Leaves i) (es, ps, cs, gone)"
      using pool_hangs.intros [OF resting(1)] by blast
    moreover have "pool_producer_leaves i (qs, ds, r) = Inr None"
      using spec True by (simp add: pool_producer_leaves_def resting(2))
    ultimately show ?thesis by (simp add: mpmc_follows_def)
  next
    case False
    then obtain r' where run: "mpmc_producer_drop [] p r = Inr (Some r')" and ok': "mpmc_ring_ok (given_up n es ?B) r'"
      and same: "q_capacity r' = q_capacity r" "q_consumer_count r' = q_consumer_count r" "q_dropped r' = q_dropped r"
        "is_closed (q_consumer_closed r') = nobody cs"
        "q_producer_count r' = snd (endpoint_release (q_producer_count r))"
        "is_closed (q_closed r') = (is_closed (q_closed r) \<or> fst (endpoint_release (q_producer_count r)))"
      using spec unfolding if_not_P [OF False] by blast
    have len: "length ps < 2 ^ 64" "live (q_producer_count r) = of_nat (alive ps)" using rel room by simp_all
    note ends = endpoint_leaves [OF resting(1) len(2) len(1)]
    have old: "producer_stands (given_up n es ?B) r' (ps ! k) (qs ! k)" if k: "k < length ps" "k \<noteq> i" for k
    proof (rule producer_stands_evolves [OF _ evolves_given_up _ same(1)])
      show "producer_stands es r (ps ! k) (qs ! k)" using rel k(1) by simp
      have "holdings (ps ! k) \<inter> holdings (ps ! i) = {}" using rel k il(1) by (simp add: apart_def)
      then show "holdings (ps ! k) \<inter> ?B = {}" by (simp add: il(2) holdings_def)
    qed
    have left: "\<forall>k < length ps. producer_stands (given_up n es ?B) r' (ps[i := None] ! k) (qs[i := None] ! k)"
      by (rule all_update) (use rel il old in \<open>simp_all add: producer_stands_def\<close>)
    have reads: "consumer_stands (l + n + 32) (given_up n es ?B) r' (cs ! k) (ds ! k)" if k: "k < length cs" for k
    proof (rule consumer_stands_evolves [OF _ evolves_given_up _ same(1)])
      show st: "consumer_stands l es r (cs ! k) (ds ! k)" using rel k by simp
      show "reading (cs ! k) \<inter> ?B = {}" using reading_borrowed [OF st] held by fastforce
    qed simp
    have ap: "apart (\<lambda>k. holdings (ps[i := None] ! k)) (length (ps[i := None]))"
      by (rule apart_update) (use rel in \<open>simp_all add: holdings_def\<close>)
    show ?thesis
    proof (rule follows_step)
      show "pool_producer_leaves i (qs, ds, r) = Inr (Some (Q_Left, qs[i := None], ds, r'))"
        by (simp add: pool_producer_leaves_def resting(2) run)
      show "pool_step n (Q_Producer_Leaves i) (es, ps, cs, gone) Q_Left (given_up n es ?B, ps[i := None], cs, gone)"
        by (rule producer_leaves [OF resting(1)]) (use False held in blast)+
      show "mpmc_rel (l + n + 32) (given_up n es ?B, ps[i := None], cs, gone) (qs[i := None], ds, r')"
        using rel ok' same left reads ap ends by simp
      show "slots (q_capacity r') = n" by (simp add: same(1) n)
    qed
  qed
qed

section \<open>Whole programs\<close>

lemma mpmc_step_follows:
  assumes "mpmc_rel l a s" and "l + 32 + 2 * n < 2 ^ 64" and "slots (q_capacity (snd (snd s))) = n"
  shows "mpmc_follows n l op a (mpmc_step dtor op s)"
proof (cases a; cases s)
  fix es ps cs gone qs ds r
  assume "a = (es, ps, cs, gone)" "s = (qs, ds, r)"
  then show ?thesis
    using assms
    by (cases op)
      (simp_all del: mpmc_rel.simps add: push_follows reserve_follows commit_follows writer_drop_follows
        abandon_written_follows pop_follows open_follows finish_follows clone_producer_follows
        clone_consumer_follows producer_leaves_follows consumer_leaves_follows)
qed

lemma mpmc_run_follows:
  assumes "mpmc_rel l a s" and "l + length ops * (n + 32) + 32 + 2 * n < 2 ^ 64"
    and "slots (q_capacity (snd (snd s))) = n"
  obtains evs fin fin' where "mpmc_run dtor ops s = Inr (evs, fin)" "pool_run n ops a evs fin'"
    "(fin = None \<and> fin' = None)
     \<or> (\<exists>s' a'. fin = Some s' \<and> fin' = Some a' \<and> mpmc_rel (l + length ops * (n + 32)) a' s'
          \<and> slots (q_capacity (snd (snd s'))) = n)"
  using assms
proof (induction ops arbitrary: l a s thesis)
  case Nil
  show ?case by (rule Nil(1) [of "[]" "Some s" "Some a"]) (use Nil(2,4) in \<open>simp_all add: pool_run.finished\<close>)
next
  case (Cons op ops)
  have "mpmc_follows n l op a (mpmc_step dtor op s)"
    by (rule mpmc_step_follows [OF Cons.prems(2) _ Cons.prems(4)]) (use Cons.prems(3) in simp)
  then consider
      (goes) e a1 s1 where "mpmc_step dtor op s = Inr (Some (e, s1))" "pool_step n op a e a1"
        "mpmc_rel (l + n + 32) a1 s1" "slots (q_capacity (snd (snd s1))) = n"
    | (hangs) "mpmc_step dtor op s = Inr None" "pool_hangs n op a"
    unfolding mpmc_follows_def by blast
  then show ?case
  proof cases
    case goes
    have room: "l + n + 32 + length ops * (n + 32) + 32 + 2 * n < 2 ^ 64" using Cons.prems(3) by simp
    obtain evs fin fin' where IH: "mpmc_run dtor ops s1 = Inr (evs, fin)" "pool_run n ops a1 evs fin'"
      "(fin = None \<and> fin' = None)
       \<or> (\<exists>s' a'. fin = Some s' \<and> fin' = Some a' \<and> mpmc_rel (l + n + 32 + length ops * (n + 32)) a' s'
            \<and> slots (q_capacity (snd (snd s'))) = n)"
      by (rule Cons.IH [OF _ goes(3) room goes(4)])
    show ?thesis
    proof (rule Cons.prems(1))
      show "mpmc_run dtor (op # ops) s = Inr (e # evs, fin)" by (simp add: goes(1) IH(1))
      show "pool_run n (op # ops) a (e # evs) fin'" by (rule pool_run.step [OF goes(2) IH(2)])
      show "(fin = None \<and> fin' = None)
        \<or> (\<exists>s' a'. fin = Some s' \<and> fin' = Some a' \<and> mpmc_rel (l + length (op # ops) * (n + 32)) a' s'
            \<and> slots (q_capacity (snd (snd s'))) = n)"
        using IH(3) by (simp add: add.assoc)
    qed
  next
    case hangs
    show ?thesis
      by (rule Cons.prems(1) [of "[]" None None]) (simp_all add: hangs(1) pool_run.hung [OF hangs(2)])
  qed
qed

end
