(* ===== verification/Mpmc_Delivery.thy ===== *)
theory Mpmc_Delivery
  imports Mpmc_Programs
begin

text \<open>
  What the pool and its refinement give: the initial ring, the refinement of whole
  programs, and where every value ends.
\<close>

section \<open>The initial ring\<close>

definition pool_start :: "'a pool" where
  "pool_start = ([], [Some ({}, None)], [Some None], [])"

lemma mpmc_start_rel:
  assumes c: "wf_capacity c" "4 \<le> slots c" and g: "config_valid g" and room: "2 * slots c < 2 ^ 64"
  obtains s :: "'a mpmc" where "mpmc_start g c = Inr s" "mpmc_rel (slots c) pool_start s"
    "q_capacity (snd (snd s)) = c"
proof -
  let ?n = "slots c"
  have n: "?n < 2 ^ 64" using room by simp
  have cap: "unat (capacity_get c) = ?n" by (simp add: capacity_get_def)
  have four: "4 \<le> capacity_get c" using c(2) cap by (simp add: word_le_nat_alt)
  have buf: "aligned_buf_new_with (capacity_get c) f = Inr (map (\<lambda>i. f (of_nat i)) [0..<?n])" for f :: "usize \<Rightarrow> 'x"
    using c(2) cap by (simp add: aligned_buf_new_with_def word_less_nat_alt)
  have park: "aligned_buf_new_with (of_nat PARK_SLOTS) f \<noteq> Inl e" for f :: "usize \<Rightarrow> 'x" and e
    by (simp add: aligned_buf_new_with_def PARK_SLOTS_def)
  obtain waits where waits: "aligned_buf_new_with (of_nat PARK_SLOTS) (\<lambda>_. ab_new) = Inr waits"
    using park by (metis sum.exhaust)
  obtain r :: "'a mpmc_ring" where r: "mpmc_new g c = Inr r" and parts: "q_capacity r = c" "q_config r = g"
      "q_claim r = 0" "q_data r = map (\<lambda>_. None) [0..<?n]" "q_ready r = map of_nat [0..<?n]"
      "q_done r = map of_nat [0..<?n]" "q_producer_count r = endpoint_count_new"
      "q_consumer_count r = endpoint_count_new" "q_closed r = close_state_new"
      "q_consumer_closed r = close_state_new" "q_dropped r = []"
    using g four by (simp add: mpmc_new_def buf waits rw_free_at_def md_released_for_def)
  have ok: "mpmc_ring_ok [] r"
    using c g room n
    by (simp add: mpmc_ring_ok_def parts slot_serves_def turn_ok_def unat_of_nat_usize entry_of_def)
  obtain p d r1 where sp: "mpmc_split r = (p, d, r1)" by (metis prod.exhaust)
  then have p: "qp_batch_unused p = 0" and d: "qc_next_scan d = 0"
    and same: "q_data r1 = q_data r" "q_ready r1 = q_ready r" "q_done r1 = q_done r" "q_capacity r1 = q_capacity r"
      "q_claim r1 = q_claim r" "q_config r1 = q_config r" "q_producer_count r1 = q_producer_count r"
      "q_consumer_count r1 = q_consumer_count r" "q_closed r1 = q_closed r"
      "q_consumer_closed r1 = q_consumer_closed r" "q_dropped r1 = q_dropped r"
    by (auto simp: mpmc_split_def mpmc_producer_new_def mpmc_consumer_new_def split: prod.splits)
  have none: "set (batch_of p) = {}" using p by simp
  have ok1: "mpmc_ring_ok [] r1" by (rule mpmc_ring_ok_cong [OF ok same(1-6)])
  have "mpmc_rel ?n pool_start ([Some (p, None)], [Some (d, None)], r1)"
    using ok1 c(2) p
    by (simp add: pool_start_def producer_stands_def consumer_stands_def mpmc_producer_ok_def apart_def
        alive_def nobody_def endpoint_count_new_def same parts d none)
  then show ?thesis
    by (rule that [rotated]) (simp_all add: mpmc_start_def r sp same parts)
qed

text \<open>
  C1. Any program over a fresh mpmc ring runs without a fault, and what it does is a run of
  the pool: a push offers its value at a position its producer holds or refuses when none of
  them is open, a pop takes a value on offer and finds none only when there is none, a
  reader borrows one value until it is dropped. The program stops early only where the pool
  says that a producer cannot leave.
\<close>

theorem mpmc_refines_pool:
  assumes "wf_capacity c" "4 \<le> slots c" and "config_valid g"
    and "length ops * (slots c + 32) + 3 * slots c + 32 < 2 ^ 64"
  shows "\<exists>s evs fin fin'. mpmc_start g c = Inr s \<and> mpmc_run dtor ops s = Inr (evs, fin)
    \<and> pool_run (slots c) ops pool_start evs fin' \<and> (fin = None \<longleftrightarrow> fin' = None)"
proof -
  have "2 * slots c < 2 ^ 64" using assms(4) by simp
  then obtain s :: "'a mpmc" where s: "mpmc_start g c = Inr s" "mpmc_rel (slots c) pool_start s"
    "q_capacity (snd (snd s)) = c"
    by (rule mpmc_start_rel [OF assms(1-3)])
  have room: "slots c + length ops * (slots c + 32) + 32 + 2 * slots c < 2 ^ 64" using assms(4) by simp
  obtain evs fin fin' where "mpmc_run dtor ops s = Inr (evs, fin)" "pool_run (slots c) ops pool_start evs fin'"
    "(fin = None \<and> fin' = None)
     \<or> (\<exists>s' a'. fin = Some s' \<and> fin' = Some a' \<and> mpmc_rel (slots c + length ops * (slots c + 32)) a' s'
          \<and> slots (q_capacity (snd (snd s'))) = slots c)"
    by (rule mpmc_run_follows [OF s(2) room, of dtor]) (simp_all add: s(3))
  then show ?thesis using s(1) by blast
qed

section \<open>Where the values go\<close>

fun went_in :: "'a mpmc_event \<Rightarrow> 'a list" where
  "went_in (Q_Accepted v) = [v]"
| "went_in _ = []"

fun came_out :: "'a mpmc_event \<Rightarrow> 'a list" where
  "came_out (Q_Popped j v) = [v]"
| "came_out (Q_Read j v) = [v]"
| "came_out _ = []"

fun destroyed_by :: "'a mpmc_event \<Rightarrow> 'a list" where
  "destroyed_by (Q_Read j v) = [v]"
| "destroyed_by (Q_Gave_Up vs) = vs"
| "destroyed_by _ = []"

definition occupant :: "'a pool_entry \<Rightarrow> 'a multiset" where
  "occupant e = (case left_in e of None \<Rightarrow> {#} | Some v \<Rightarrow> {#v#})"

lemma occupant_simps [simp]:
  "occupant Unwritten = {#}" "occupant Settled = {#}" "occupant (Offered v) = {#v#}" "occupant (Borrowed v) = {#v#}"
  by (simp_all add: occupant_def)

lemma mset_pool_values: "mset (pool_values es) = (\<Sum>e \<leftarrow> es. occupant e)"
  by (induction es) (auto simp: pool_values_def List.map_filter_simps occupant_def split: option.splits)

lemma pool_values_update:
  assumes "x < length es"
  shows "mset (pool_values (es[x := e])) + occupant (es ! x) = mset (pool_values es) + occupant e"
  unfolding mset_pool_values by (rule sum_list_exchange [OF assms])

lemma pool_values_stocked: "stocked n es B es1 B1 \<Longrightarrow> mset (pool_values es1) = mset (pool_values es)"
proof -
  have "(\<Sum>e \<leftarrow> replicate k Unwritten. occupant e) = {#}" for k :: nat by (induction k) simp_all
  then show "stocked n es B es1 B1 \<Longrightarrow> ?thesis"
    by (auto simp: stocked_def mset_pool_values simp del: map_replicate split: if_splits)
qed

lemma pool_values_given_up:
  assumes "\<forall>x \<in> B. x < length es \<and> es ! x = Unwritten"
  shows "mset (pool_values (given_up n es B)) = mset (pool_values es)"
proof -
  have "map occupant (given_up n es B) = map occupant es"
    by (rule nth_equalityI) (use assms in auto)
  then show ?thesis by (simp add: mset_pool_values)
qed

lemma pool_step_conserves:
  assumes "pool_step n op (es, ps, cs, gone) e (es1, ps1, cs1, gone1)"
  shows "mset (pool_values es1) + mset (came_out e) = mset (pool_values es) + mset (went_in e)"
    and "gone1 = gone @ destroyed_by e"
proof -
  have "mset (pool_values es1) + mset (came_out e) = mset (pool_values es) + mset (went_in e)
      \<and> gone1 = gone @ destroyed_by e"
    using assms
  proof cases
    case (push i B es2 B1 x v)
    then show ?thesis
      using pool_values_update [of x es2 "Offered v"] by (auto simp: writable_def pool_values_stocked)
  next
    case (commit i B x v)
    then show ?thesis using pool_values_update [of x es "Offered v"] by (simp add: writable_def)
  next
    case (pop j x v)
    then show ?thesis using pool_values_update [of x es Settled] by simp
  next
    case (read_open j x v)
    then show ?thesis using pool_values_update [of x es "Borrowed v"] by simp
  next
    case (finish j x v)
    then show ?thesis using pool_values_update [of x es Settled] by simp
  qed (auto simp: pool_values_stocked pool_values_given_up)
  then show "mset (pool_values es1) + mset (came_out e) = mset (pool_values es) + mset (went_in e)"
    and "gone1 = gone @ destroyed_by e" by simp_all
qed

definition accepted :: "'a mpmc_event list \<Rightarrow> 'a list" where
  "accepted evs = concat (map went_in evs)"

definition delivered :: "'a mpmc_event list \<Rightarrow> 'a list" where
  "delivered evs = concat (map came_out evs)"

definition destroyed :: "'a mpmc_event list \<Rightarrow> 'a list" where
  "destroyed evs = concat (map destroyed_by evs)"

lemma pool_run_conserves:
  assumes "pool_run n ops a evs fin" and "fin = Some (es1, ps1, cs1, gone1)" and "a = (es, ps, cs, gone)"
  shows "mset (pool_values es1) + mset (delivered evs) = mset (pool_values es) + mset (accepted evs)
    \<and> gone1 = gone @ destroyed evs"
  using assms
proof (induction arbitrary: es ps cs gone)
  case (finished a)
  then show ?case by (simp add: delivered_def accepted_def destroyed_def)
next
  case (step op a e a1 ops evs fin)
  obtain es2 ps2 cs2 gone2 where a1: "a1 = (es2, ps2, cs2, gone2)" by (cases a1)
  have "mset (pool_values es2) + mset (came_out e) = mset (pool_values es) + mset (went_in e)"
    "gone2 = gone @ destroyed_by e"
    using pool_step_conserves [OF step.hyps(1) [unfolded a1 step.prems(2)]] by simp_all
  then show ?case
    using step.IH [OF step.prems(1) a1]
    by (simp add: delivered_def accepted_def destroyed_def) (metis (no_types, lifting) add.assoc add.commute)
qed simp

lemma pool_fits:
  assumes "mpmc_ring_ok es r"
  shows "length (pool_values es) \<le> slots (q_capacity r)"
proof -
  have "length (pool_values es) = length (List.map_filter (slot_value es r) [0..<slots (q_capacity r)])"
    using slot_values [OF assms] by (metis size_mset)
  also have "\<dots> \<le> slots (q_capacity r)" by (simp add: map_filter_def le_trans [OF length_filter_le])
  finally show ?thesis .
qed

lemma capacity_eqI: "wf_capacity c \<Longrightarrow> wf_capacity c' \<Longrightarrow> slots c = slots c' \<Longrightarrow> c = c'"
  using word_unat_eq_iff [of "cap c" "cap c'"] by (cases c; cases c') (auto simp: wf_capacity_def)

text \<open>The state a program ends in, and its pool.\<close>

lemma mpmc_run_ends:
  assumes "wf_capacity c" "4 \<le> slots c" and "config_valid g"
    and "length ops * (slots c + 32) + 3 * slots c + 32 < 2 ^ 64"
    and "mpmc_start g c = Inr s" and "mpmc_run dtor ops s = Inr (evs, Some (ps, cs, r))"
  obtains es ps' cs' gone where "pool_run (slots c) ops pool_start evs (Some (es, ps', cs', gone))"
    "mpmc_ring_ok es r" "q_dropped r = gone" "q_capacity r = c"
proof -
  have "2 * slots c < 2 ^ 64" using assms(4) by simp
  then obtain s0 :: "'a mpmc" where s0: "mpmc_start g c = Inr s0" "mpmc_rel (slots c) pool_start s0"
    "q_capacity (snd (snd s0)) = c"
    by (rule mpmc_start_rel [OF assms(1-3)])
  have s: "s0 = s" using s0(1) assms(5) by simp
  have room: "slots c + length ops * (slots c + 32) + 32 + 2 * slots c < 2 ^ 64" using assms(4) by simp
  obtain evs' fin fin' where run: "mpmc_run dtor ops s = Inr (evs', fin)" "pool_run (slots c) ops pool_start evs' fin'"
    "(fin = None \<and> fin' = None)
     \<or> (\<exists>s' a'. fin = Some s' \<and> fin' = Some a' \<and> mpmc_rel (slots c + length ops * (slots c + 32)) a' s'
          \<and> slots (q_capacity (snd (snd s'))) = slots c)"
    using mpmc_run_follows [OF s0(2) room, of dtor] s0(3) s by metis
  then obtain es ps' cs' gone where ends: "fin' = Some (es, ps', cs', gone)" "evs' = evs" "mpmc_ring_ok es r"
    "q_dropped r = gone" "slots (q_capacity r) = slots c"
    using assms(6) by auto
  moreover have "q_capacity r = c"
    by (rule capacity_eqI) (use ends mpmc_ring_okD(1) [OF ends(3)] assms(1) in simp_all)
  ultimately show thesis using that run(2) by simp
qed

text \<open>
  C2. Whatever the program, no value is lost or duplicated: the values accepted are those
  popped, those read in place and those still in the ring, never more of these than its
  capacity. When the ring is dropped after a program that ended, every value still inside is
  destroyed once, and what was destroyed before are the values read in place and those given
  up by their writers. A destructor that panics ends the drop early; then nothing is
  destroyed twice.
\<close>

theorem mpmc_delivers_each_value_once:
  assumes "wf_capacity c" "4 \<le> slots c" and "config_valid g"
    and "length ops * (slots c + 32) + 3 * slots c + 32 < 2 ^ 64"
    and "mpmc_start g c = Inr s" and "mpmc_run dtor ops s = Inr (evs, Some (ps, cs, r))"
  shows "\<exists>fin r' rest. mpmc_ring_drop dtor r = Inr (fin, r') \<and> q_dropped r' = destroyed evs @ rest
    \<and> mset (delivered evs) + mset rest \<subseteq># mset (accepted evs)
    \<and> length (accepted evs) \<le> length (delivered evs) + slots c
    \<and> ((\<forall>v. dtor v = Returned) \<longrightarrow> mset (delivered evs) + mset rest = mset (accepted evs))"
proof -
  obtain es' ps' cs' gone where run: "pool_run (slots c) ops pool_start evs (Some (es', ps', cs', gone))"
    and ok: "mpmc_ring_ok es' r" and gone: "q_dropped r = gone" and cap: "q_capacity r = c"
    by (rule mpmc_run_ends [OF assms])
  have flow: "mset (pool_values es') + mset (delivered evs) = mset (accepted evs)" and d: "gone = destroyed evs"
    using pool_run_conserves [OF run refl] by (simp_all add: pool_start_def pool_values_def List.map_filter_simps)
  obtain fin r' ds where drop: "mpmc_ring_drop dtor r = Inr (fin, r')" "q_dropped r' = q_dropped r @ ds"
    "mset ds \<subseteq># mset (pool_values es')" "fin = Returned \<Longrightarrow> mset ds = mset (pool_values es')"
    "(\<And>v. dtor v = Returned) \<Longrightarrow> fin = Returned"
    by (rule mpmc_ring_drop_spec [OF ok, of dtor thesis]) blast
  have "mset (delivered evs) + mset ds \<subseteq># mset (accepted evs)"
    using drop(3) by (simp flip: flow)
  moreover have "mset (delivered evs) + mset ds = mset (accepted evs)" if "\<forall>v. dtor v = Returned"
    using drop(4) drop(5) that by (simp flip: flow)
  moreover have "length (accepted evs) = length (pool_values es') + length (delivered evs)"
    using arg_cong [OF flow, of size] by simp
  ultimately show ?thesis
    using drop(1,2) pool_fits [OF ok] by (intro exI [of _ fin] exI [of _ r'] exI [of _ ds]) (simp add: cap gone d)
qed

theorem mpmc_delivers_each_value_once_witness:
  "\<exists>s ps cs r fin r' rest. mpmc_start default_config cap4 = Inr s
    \<and> mpmc_run (\<lambda>_. Returned) [Q_Clone_Consumer 0, Q_Push 0 (7 :: nat), Q_Reserve 0, Q_Pop 1, Q_Abandon_Written 0 8,
          Q_Push 0 9, Q_Open 0, Q_Push 0 5, Q_Finish 0] s
        = Inr ([Q_Joined, Q_Accepted 7, Q_Reserved True, Q_Popped 1 7, Q_Gave_Up [8], Q_Accepted 9, Q_Opened 0 9,
            Q_Accepted 5, Q_Read 0 9], Some (ps, cs, r))
    \<and> mpmc_ring_drop (\<lambda>_. Returned) r = Inr (fin, r') \<and> q_dropped r' = [8, 9] @ rest \<and> rest = [5]"
proof -
  let ?ops = "[Q_Clone_Consumer 0, Q_Push 0 (7 :: nat), Q_Reserve 0, Q_Pop 1, Q_Abandon_Written 0 8,
    Q_Push 0 9, Q_Open 0, Q_Push 0 5, Q_Finish 0]"
  let ?evs = "[Q_Joined, Q_Accepted 7, Q_Reserved True, Q_Popped 1 7, Q_Gave_Up [8], Q_Accepted 9, Q_Opened 0 9,
    Q_Accepted 5, Q_Read 0 9] :: nat mpmc_event list"
  have "seq_exec (mpmc_start default_config cap4) (\<lambda>s. seq_exec (mpmc_run (\<lambda>_. Returned) ?ops s)
      (\<lambda>(evs, fin). Inr (evs, fin = None))) = Inr (?evs, False)"
    by code_simp
  then obtain s ps cs r where run: "mpmc_start default_config cap4 = Inr s"
    "mpmc_run (\<lambda>_. Returned) ?ops s = Inr (?evs, Some (ps, cs, r))"
    by (auto simp: seq_exec_eq_Inr)
  have "\<exists>fin r' rest. mpmc_ring_drop (\<lambda>_. Returned) r = Inr (fin, r') \<and> q_dropped r' = destroyed ?evs @ rest
      \<and> mset (delivered ?evs) + mset rest \<subseteq># mset (accepted ?evs)
      \<and> length (accepted ?evs) \<le> length (delivered ?evs) + slots cap4
      \<and> ((\<forall>v :: nat. Returned = Returned) \<longrightarrow> mset (delivered ?evs) + mset rest = mset (accepted ?evs))"
    by (rule mpmc_delivers_each_value_once [OF cap4_wf _ _ _ run])
      (simp_all add: slots_cap4 config_valid_def default_config_def)
  then obtain fin r' rest where "mpmc_ring_drop (\<lambda>_. Returned) r = Inr (fin, r')" "q_dropped r' = destroyed ?evs @ rest"
    "mset (delivered ?evs) + mset rest = mset (accepted ?evs)" by auto
  moreover from this(3) have "rest = [5]"
    by (simp add: delivered_def accepted_def add_mset_eq_single)
  ultimately show ?thesis using run by (auto simp: destroyed_def)
qed

theorem mpmc_refines_pool_witness:
  "\<exists>s evs fin fin'. mpmc_start default_config cap4 = Inr s
    \<and> mpmc_run (\<lambda>_. Returned) [Q_Push 0 (7 :: nat), Q_Clone_Producer 0, Q_Push 1 8, Q_Pop 0, Q_Producer_Leaves 0] s = Inr (evs, fin)
    \<and> pool_run (slots cap4) [Q_Push 0 7, Q_Clone_Producer 0, Q_Push 1 8, Q_Pop 0, Q_Producer_Leaves 0] pool_start evs fin'
    \<and> (fin = None \<longleftrightarrow> fin' = None)"
  by (rule mpmc_refines_pool [OF cap4_wf]) (simp_all add: slots_cap4 config_valid_def default_config_def)

section \<open>Every word belongs to its slot\<close>

text \<open>
  C37. Whatever the program, the ring stays well-formed: its three buffers keep the length of
  the capacity, and the words of a slot name positions that the slot serves. A slot that
  reads as published holds a value, and its done word is at the position published.
\<close>

theorem mpmc_words_belong_to_their_slots:
  assumes "wf_capacity c" "4 \<le> slots c" and "config_valid g"
    and "length ops * (slots c + 32) + 3 * slots c + 32 < 2 ^ 64"
    and "mpmc_start g c = Inr s" and "mpmc_run dtor ops s = Inr (evs, Some (ps, cs, r))" and "k < slots c"
  shows "length (q_data r) = slots c \<and> length (q_ready r) = slots c \<and> length (q_done r) = slots c
    \<and> slot_of c (q_done r ! k) = k
    \<and> (\<exists>st. mpmc_ready_state (of_nat k) r = Inr st \<and> slot_of c (round_pos st) = k
        \<and> (rs_is_published st \<longrightarrow> q_data r ! k \<noteq> None \<and> q_done r ! k = round_pos st))"
proof -
  let ?n = "slots c" and ?d = "unat (q_done r ! k)"
  obtain es ps' cs' gone where ok: "mpmc_ring_ok es r" and cap: "q_capacity r = c"
    by (rule mpmc_run_ends [OF assms(1-6)])
  have sv: "slot_serves ?n es k (q_done r ! k) (q_ready r ! k) (q_data r ! k)"
    using mpmc_slot_serves [OF ok, of k] assms(7) by (simp add: cap)
  have d: "?d mod ?n = k" and occ: "occupant_ok ?n ?d (entry_of es ?d) (q_ready r ! k) (q_data r ! k)"
    using sv by (simp_all add: slot_serves_def turn_ok_def)
  have lap: "(?d - ?n) mod ?n = k" if "\<not> ?d < ?n" using that d by (simp add: mod_if [of ?d])
  have "slot_of c (q_done r ! k) = k" using slot_of_mod [OF assms(1)] d by simp
  moreover note state = mpmc_ready_state_spec [OF ok refl, of k, unfolded cap mod_less [OF assms(7)]]
  moreover have lap_slot: "slot_of c (of_nat (?d - ?n)) = k" if "\<not> ?d < ?n"
    using lap [OF that] by (simp only: slot_of_of_nat [OF assms(1)])
  have "\<exists>st. mpmc_ready_state (of_nat k) r = Inr st \<and> slot_of c (round_pos st) = k
        \<and> (rs_is_published st \<longrightarrow> q_data r ! k \<noteq> None \<and> q_done r ! k = round_pos st)"
    using occ lap_slot \<open>slot_of c (q_done r ! k) = k\<close> unfolding state
    by (auto simp: rs_is_published_def split: pool_entry.splits simp del: of_nat_diff)
  ultimately show ?thesis
    using mpmc_ring_okD(4-6) [OF ok] by (simp only: cap simp_thms)
qed

theorem mpmc_words_belong_to_their_slots_witness:
  "\<exists>s evs ps cs (r :: nat mpmc_ring) st. mpmc_start default_config cap4 = Inr s
    \<and> mpmc_run (\<lambda>_. Returned) [Q_Push 0 7, Q_Push 0 8, Q_Pop 0] s = Inr (evs, Some (ps, cs, r))
    \<and> mpmc_ready_state 1 r = Inr st \<and> slot_of cap4 (round_pos st) = 1"
proof -
  let ?ops = "[Q_Push 0 7, Q_Push 0 (8 :: nat), Q_Pop 0]"
  have "seq_exec (mpmc_start default_config cap4) (\<lambda>s. seq_exec (mpmc_run (\<lambda>_. Returned) ?ops s)
      (\<lambda>(evs, fin). Inr (fin = None))) = Inr False"
    by code_simp
  then obtain s evs ps cs r where run: "mpmc_start default_config cap4 = Inr s"
    "mpmc_run (\<lambda>_. Returned) ?ops s = Inr (evs, Some (ps, cs, r))"
    by (auto simp: seq_exec_eq_Inr)
  show ?thesis
    using mpmc_words_belong_to_their_slots [OF cap4_wf _ _ _ run, of 1] run
    by (auto simp: slots_cap4 config_valid_def default_config_def)
qed

section \<open>The approximate length\<close>

text \<open>
  C40. A consumer that has caught up with the claims and polls an empty ring afterwards
  reports a full one: its scan cursor ends a lap past the claim counter, so the wrapping
  difference of \<open>approx_len\<close> is cut to the capacity although nothing is in the ring.
\<close>

theorem mpmc_approx_len_after_empty_poll:
  assumes "mpmc_ring_ok es r" and "no_offers es" and "qc_next_scan c = q_claim r"
    and "length es + 2 * slots (q_capacity r) < 2 ^ 64"
  shows "\<exists>c'. mpmc_pop [] c r = Inr (None, c', r)
    \<and> mpmc_approx_len c r = 0 \<and> mpmc_approx_len c' r = capacity_get (q_capacity r)"
proof -
  let ?n = "slots (q_capacity r)"
  have claim: "q_claim r = of_nat (length es)" using assms(1) by (simp add: mpmc_ring_ok_def)
  have at: "unat (qc_next_scan c) = length es" using assms(3,4) by (simp add: claim unat_of_nat_usize)
  then have room: "unat (qc_next_scan c) + 2 * ?n < 2 ^ 64" using assms(4) by simp
  show ?thesis
  proof (cases rule: mpmc_pop_spec [OF assms(1) room, case_names popped none])
    case (popped x v c' r')
    then show ?thesis using assms(2) by (simp add: no_offers_def)
  next
    case (none c')
    have "qc_next_scan c' = q_claim r + of_nat ?n"
      using arg_cong [OF none(3), of "of_nat :: nat \<Rightarrow> usize"] by (simp add: at claim)
    then have "q_claim r - qc_next_scan c' = - of_nat ?n" by simp
    moreover have "(of_nat ?n :: usize) \<le> - of_nat ?n"
    proof -
      have "(of_nat (2 ^ 64 - ?n) :: usize) = of_nat (2 ^ 64) - of_nat ?n"
        by (rule of_nat_diff) (use room in simp)
      moreover have "(of_nat (2 ^ 64) :: usize) = 0" by simp
      ultimately have neg: "(- of_nat ?n :: usize) = of_nat (2 ^ 64 - ?n)" by simp
      have "0 < ?n" using mpmc_ring_okD(2) [OF assms(1)] by simp
      then have "2 ^ 64 - ?n < 2 ^ 64" "?n < 2 ^ 64" "?n \<le> 2 ^ 64 - ?n" using room by simp_all
      then show ?thesis
        unfolding neg word_le_nat_alt by (simp only: unat_of_nat_usize)
    qed
    ultimately have "mpmc_approx_len c' r = of_nat ?n"
      by (simp add: mpmc_approx_len_def capacity_get_def min_def)
    then show ?thesis using none(1) assms(3) by (simp add: mpmc_approx_len_def capacity_get_def)
  qed
qed

theorem mpmc_approx_len_after_empty_poll_witness:
  "\<exists>ps c (r :: nat mpmc_ring) c'. mpmc_start default_config cap4 = Inr (ps, [Some (c, None)], r)
    \<and> mpmc_pop [] c r = Inr (None, c', r)
    \<and> mpmc_approx_len c r = 0 \<and> mpmc_approx_len c' r = capacity_get (q_capacity r)"
proof -
  have g: "4 \<le> slots cap4" "config_valid default_config" "2 * slots cap4 < 2 ^ 64"
    by (simp_all add: slots_cap4 config_valid_def default_config_def)
  obtain s :: "nat mpmc" where s: "mpmc_start default_config cap4 = Inr s" "mpmc_rel (slots cap4) pool_start s"
    "q_capacity (snd (snd s)) = cap4"
    by (rule mpmc_start_rel [OF cap4_wf g])
  obtain ps cs r where parts: "s = (ps, cs, r)" by (cases s)
  have "seq_exec (mpmc_start default_config cap4) (\<lambda>(ps, cs, r :: nat mpmc_ring).
      Inr (map (map_option (\<lambda>(c, rd). (qc_next_scan c, rd))) cs)) = Inr [Some (0, None)]"
    by code_simp
  then obtain c where c: "cs = [Some (c, None)]" "qc_next_scan c = 0" using s(1) parts by auto
  have ok: "mpmc_ring_ok [] r" using s(2) by (simp add: parts pool_start_def)
  then have "qc_next_scan c = q_claim r" using c(2) by (simp add: mpmc_ring_ok_def)
  then obtain c' where "mpmc_pop [] c r = Inr (None, c', r) \<and> mpmc_approx_len c r = 0
      \<and> mpmc_approx_len c' r = capacity_get (q_capacity r)"
    using mpmc_approx_len_after_empty_poll [OF ok] g(3) s(3) by (auto simp: no_offers_def parts)
  then show ?thesis using s(1) c(1) by (auto simp: parts)
qed

end
