(* ===== verification/Mpmc_Wait.thy ===== *)
theory Mpmc_Wait
  imports Mpmc_Delivery Blocking Sole_Waiter
begin

text \<open>
  \<open>pop_block\<close> of the mpmc ring: its loop is the one of \<open>common/single_parker.rs\<close>, over a
  park slot of the consumer's own. What it can take is the multiset of values on offer.
\<close>

section \<open>The waiting consumer\<close>

definition mpmc_slot_of :: "nat \<Rightarrow> 'a mpmc \<Rightarrow> park_slot" where
  "mpmc_slot_of j s =
     (case s of (_, cs, _) \<Rightarrow> case handle_at cs j of Some (c, _) \<Rightarrow> qc_park_slot c | None \<Rightarrow> Shared)"

definition mpmc_try_pop :: "nat \<Rightarrow> 'a mpmc \<Rightarrow> ('a option \<times> 'a mpmc) exec" where
  "mpmc_try_pop j s =
     (case s of (ps, cs, r) \<Rightarrow>
        case handle_at cs j of
          Some (c, None) \<Rightarrow>
            seq_exec (mpmc_pop [] c r) (\<lambda>(res, c1, r1). Inr (res, ps, cs[j := Some (c1, None)], r1))
        | _ \<Rightarrow> Inr (None, s))"

definition mpmc_producer_gone :: "'a mpmc \<Rightarrow> bool" where
  "mpmc_producer_gone s = (case s of (_, _, r) \<Rightarrow> is_closed_for_parking (q_closed r))"

definition mpmc_consumer_parks :: "(wake_set \<Rightarrow> wake_set) \<Rightarrow> 'a mpmc \<Rightarrow> 'a mpmc" where
  "mpmc_consumer_parks f s =
     (case s of (ps, cs, r) \<Rightarrow> (ps, cs, r\<lparr>q_consumer_park := f (q_consumer_park r)\<rparr>))"

definition mpmc_arm_consumer :: "thread_id \<Rightarrow> nat \<Rightarrow> 'a mpmc \<Rightarrow> 'a mpmc" where
  "mpmc_arm_consumer t j s = mpmc_consumer_parks (ws_arm t (mpmc_slot_of j s)) s"

definition mpmc_disarm_consumer :: "nat \<Rightarrow> 'a mpmc \<Rightarrow> 'a mpmc" where
  "mpmc_disarm_consumer j s = mpmc_consumer_parks (ws_disarm (mpmc_slot_of j s)) s"

definition mpmc_consumer_woken :: "thread_id \<Rightarrow> nat \<Rightarrow> 'a mpmc \<Rightarrow> bool" where
  "mpmc_consumer_woken t j s =
     (case s of (_, _, r) \<Rightarrow>
        case mpmc_slot_of j s of
          Leased b \<Rightarrow> \<not> tp_is_armed (parkers (q_consumer_park r) ! unat b)
        | Shared \<Rightarrow> t \<notin> set (overflow (q_consumer_park r)))"

definition mpmc_consumer_ops :: "thread_id \<Rightarrow> nat \<Rightarrow> ('a, 'a mpmc) consumer_ops" where
  "mpmc_consumer_ops t j =
     \<lparr>try_pop = mpmc_try_pop j, producer_gone = mpmc_producer_gone,
      arm_pop = mpmc_arm_consumer t j, disarm_pop = mpmc_disarm_consumer j,
      pop_woken = mpmc_consumer_woken t j\<rparr>"

definition mpmc_pop_block ::
    "thread_id \<Rightarrow> nat \<Rightarrow> 'a mpmc schedule \<Rightarrow> 'a mpmc \<Rightarrow> ('a option, 'a mpmc) blocking exec" where
  "mpmc_pop_block t j ps s = pop_block (mpmc_consumer_ops t j) ps s"

text \<open>
  The calls of the other handles. A producer that would have to wait for its positions
  leaves later: the schedule passes over its departure.
\<close>

definition mpmc_peer :: "('a \<Rightarrow> completion) \<Rightarrow> 'a mpmc_op \<Rightarrow> 'a mpmc \<Rightarrow> 'a mpmc exec" where
  "mpmc_peer dtor op s =
     seq_exec (mpmc_step dtor op s) (\<lambda>res. case res of None \<Rightarrow> Inr s | Some (_, s') \<Rightarrow> Inr s')"

fun spares :: "'a set \<Rightarrow> nat \<Rightarrow> 'a mpmc_op \<Rightarrow> bool" where
  "spares A j (Q_Push i v) \<longleftrightarrow> v \<in> A"
| "spares A j (Q_Commit i v) \<longleftrightarrow> v \<in> A"
| "spares A j (Q_Pop k) \<longleftrightarrow> k \<noteq> j"
| "spares A j (Q_Open k) \<longleftrightarrow> k \<noteq> j"
| "spares A j (Q_Finish k) \<longleftrightarrow> k \<noteq> j"
| "spares A j (Q_Clone_Consumer k) \<longleftrightarrow> k \<noteq> j"
| "spares A j (Q_Consumer_Leaves k) \<longleftrightarrow> k \<noteq> j"
| "spares A j _ \<longleftrightarrow> True"

definition mpmc_other_call :: "'a set \<Rightarrow> nat \<Rightarrow> ('a mpmc \<Rightarrow> 'a mpmc exec) \<Rightarrow> bool" where
  "mpmc_other_call A j f \<longleftrightarrow> (\<exists>dtor op. spares A j op \<and> f = mpmc_peer dtor op)"

section \<open>What a call does to the consumers' wake set\<close>

lemma word_ops_park:
  "mpmc_store_ready pos w r = Inr r1 \<Longrightarrow> q_consumer_park r1 = q_consumer_park r"
  "mpmc_release_done pos rp r = Inr r1 \<Longrightarrow> q_consumer_park r1 = q_consumer_park r"
  "mpmc_take_data pos r = Inr (v, r1) \<Longrightarrow> q_consumer_park r1 = q_consumer_park r"
  by (auto simp: mpmc_store_ready_def mpmc_release_done_def mpmc_take_data_def seq_exec_eq_Inr)

lemma wake_parks [simp]:
  "q_consumer_park (mpmc_wake_producer_for p r) = q_consumer_park r"
  "q_consumer_park (mpmc_flush_producers r) = q_consumer_park r"
  "q_consumer_park (mpmc_wake_consumer r) = snd (ws_wake_one (q_consumer_park r))"
  "q_consumer_park (mpmc_flush_consumers r) = snd (ws_flush (q_consumer_park r))"
  by (simp_all add: mpmc_wake_producer_for_def mpmc_wake_consumer_def mpmc_flush_producers_def
      mpmc_flush_consumers_def case_prod_beta)

lemma refill_park:
  assumes "mpmc_refill_batch [] p r = Inr (b, p1, r1, fs)"
  shows "q_consumer_park r1 = q_consumer_park r \<and> fs = []"
proof (cases "watermark_free (q_consumed r) (q_claim r) (capacity_get (q_capacity r))")
  case None
  then obtain yes where "mpmc_is_free_for (q_claim r) r = Inr yes"
    using assms by (cases "mpmc_is_free_for (q_claim r) r") (auto simp: mpmc_refill_batch_def)
  with None show ?thesis
    using assms by (cases yes) (auto simp: mpmc_refill_batch_def Let_def)
next
  case (Some f)
  then show ?thesis using assms by (auto simp: mpmc_refill_batch_def Let_def)
qed

lemma spin_park: "mpmc_spin_primary n [] pos r = Inr (b, r1, fs) \<Longrightarrow> r1 = r \<and> fs = []"
  by (induction n) (auto simp: seq_exec_eq_Inr split: if_splits)

lemma scan_unused_park: "mpmc_scan_unused [] start bits r = Inr (b, r1, fs) \<Longrightarrow> r1 = r"
proof (induction "[] :: 'a mpmc_ring meddling" start bits r rule: mpmc_scan_unused.induct)
  case (1 start bits r)
  then show ?case by (subst (asm) mpmc_scan_unused.simps) (auto simp: seq_exec_eq_Inr Let_def split: if_splits)
qed

lemma acquire_park:
  assumes "mpmc_acquire_slot [] p r = Inr (g, p1, r1)"
  shows "q_consumer_park r1 = q_consumer_park r"
proof -
  obtain batch p2 r2 fs where a: "(if qp_batch_unused p = 0 then mpmc_refill_batch [] p r
        else Inr (Some (qp_batch_start p, qp_batch_unused p), p, r, [])) = Inr (batch, p2, r2, fs)"
    using assms by (auto simp: mpmc_acquire_slot_def seq_exec_eq_Inr)
  have two: "q_consumer_park r2 = q_consumer_park r" "fs = []"
    using a by (auto dest: refill_park split: if_splits)
  have "r1 = r2"
    using assms unfolding mpmc_acquire_slot_def a two(2)
    by (auto simp: seq_exec_eq_Inr Let_def dest!: spin_park scan_unused_park split: option.splits if_splits)
  then show ?thesis using two by simp
qed

lemma push_park:
  assumes "mpmc_push [] v p r = Inr (res, p1, r1)"
  shows "q_consumer_park r1 = (case res of Push_Ok \<Rightarrow> snd (ws_wake_one (q_consumer_park r)) | Push_Err _ \<Rightarrow> q_consumer_park r)"
  using assms
  by (auto simp: mpmc_push_def mpmc_publish_def seq_exec_eq_Inr dest!: acquire_park word_ops_park(1)
      split: option.splits)

lemma scan_park: "mpmc_scan [] b r = Inr (won, b1, r1) \<Longrightarrow> q_consumer_park r1 = q_consumer_park r"
proof (induction "[] :: 'a mpmc_ring meddling" b r rule: mpmc_scan.induct)
  case (1 b r)
  from "1.prems" show ?case
    by (subst (asm) scan_alone) (auto simp: seq_exec_eq_Inr Let_def dest!: word_ops_park(1) intro: "1.hyps" split: if_splits)
qed

lemma claim_park:
  "mpmc_claim_slot [] c r = Inr (won, c1, r1) \<Longrightarrow> q_consumer_park r1 = q_consumer_park r \<and> qc_park_slot c1 = qc_park_slot c"
  by (auto simp: mpmc_claim_slot_def seq_exec_eq_Inr Let_def case_prod_beta dest!: scan_park split: option.splits)

lemma pop_park:
  "mpmc_pop [] c r = Inr (res, c1, r1) \<Longrightarrow> q_consumer_park r1 = q_consumer_park r \<and> qc_park_slot c1 = qc_park_slot c"
  by (auto simp: mpmc_pop_def seq_exec_eq_Inr dest!: claim_park word_ops_park split: option.splits)

lemma abandon_release_park:
  assumes "mpmc_abandon_release [] pos r = Inr (Some (r1, fs))"
  shows "q_consumer_park r1 = q_consumer_park r \<and> is_closed (q_closed r1) = is_closed (q_closed r) \<and> fs = []"
proof -
  obtain fin r2 fs2 where w: "mpmc_await_done [] pos r = Inr (fin, r2, fs2)"
    using assms by (auto simp: mpmc_abandon_release_def seq_exec_eq_Inr)
  have rest: "fin \<noteq> Still_Waiting" "fin = Gave_Up \<Longrightarrow> r1 = r2 \<and> fs = fs2"
    "fin = Freed \<Longrightarrow> \<exists>ra rb. mpmc_store_ready pos (rw_abandon pos) r2 = Inr ra \<and> mpmc_release_done pos pos ra = Inr rb
          \<and> r1 = mpmc_wake_producer_for (pos + capacity_get (q_capacity rb)) rb \<and> fs = fs2"
    using assms unfolding mpmc_abandon_release_def w by (auto simp: seq_exec_eq_Inr)
  have "r2 = r \<and> fs2 = []" using w rest(1) by (auto simp: seq_exec_eq_Inr split: if_splits)
  then show ?thesis
    using rest by (cases fin) (auto simp: mpmc_store_ready_def mpmc_release_done_def seq_exec_eq_Inr)
qed

lemma release_all_park:
  "mpmc_release_all [] start bits r = Inr (Some r1) \<Longrightarrow>
    q_consumer_park r1 = q_consumer_park r \<and> is_closed (q_closed r1) = is_closed (q_closed r)"
proof (induction "[] :: 'a mpmc_ring meddling" start bits r rule: mpmc_release_all.induct)
  case (1 start bits r)
  show ?case
  proof (cases "bits = 0")
    case True
    then show ?thesis using "1.prems" by (simp add: mpmc_release_all.simps)
  next
    case False
    then obtain r2 fs where a: "mpmc_abandon_release [] (start + of_nat (trailing_zeros bits)) r = Inr (Some (r2, fs))"
      "mpmc_release_all fs start (bits AND (bits - 1)) r2 = Inr (Some r1)"
      using "1.prems" by (subst (asm) (2) mpmc_release_all.simps) (auto simp: seq_exec_eq_Inr split: option.splits)
    then show ?thesis using "1.hyps" [OF False a(1)] abandon_release_park [OF a(1)] by auto
  qed
qed

lemma retract_park [simp]:
  "q_consumer_park (mpmc_retract_awaited p r) = q_consumer_park r" "q_closed (mpmc_retract_awaited p r) = q_closed r"
  by (simp_all add: mpmc_retract_awaited_def split: option.split)

lemma producer_drop_park:
  assumes "mpmc_producer_drop [] p r = Inr (Some r1)"
  shows "(q_consumer_park r1 = q_consumer_park r \<and> is_closed (q_closed r1) = is_closed (q_closed r))
    \<or> q_consumer_park r1 = snd (ws_flush (q_consumer_park r))"
proof -
  obtain r2 where "mpmc_release_all [] (qp_batch_start p) (qp_batch_unused p) r = Inr (Some r2)"
    using assms by (auto simp: mpmc_producer_drop_def seq_exec_eq_Inr split: option.splits)
  from release_all_park [OF this] this show ?thesis
    using assms by (auto simp: mpmc_producer_drop_def Let_def case_prod_beta split: if_splits)
qed

text \<open>A call that wakes one waiting consumer, or all of them.\<close>

definition waking_call :: "'a mpmc_ring \<Rightarrow> 'a mpmc_ring \<Rightarrow> bool" where
  "waking_call r r1 \<longleftrightarrow>
     q_consumer_park r1 = snd (ws_wake_one (q_consumer_park r)) \<or> q_consumer_park r1 = snd (ws_flush (q_consumer_park r))"

lemma commit_park:
  assumes "mpmc_commit dtor w p r = Inr (fin, p1, r1)"
  shows "q_consumer_park r1 = snd (ws_wake_one (q_consumer_park r))"
  using assms
  by (auto simp: mpmc_commit_def mpmc_publish_def mpmc_written_slot_drop_def seq_exec_eq_Inr Let_def
      dest!: word_ops_park(1) split: if_splits)

lemma write_park: "mpmc_write w v r = Inr (ws, r1) \<Longrightarrow> q_consumer_park r1 = q_consumer_park r"
  by (auto simp: mpmc_write_def seq_exec_eq_Inr)

lemma written_drop_park: "mpmc_written_slot_drop dtor w p r = Inr (fin, p1, r1) \<Longrightarrow> q_consumer_park r1 = q_consumer_park r"
  by (auto simp: mpmc_written_slot_drop_def seq_exec_eq_Inr split: if_splits)

lemma reader_drop_park: "mpmc_reader_drop dtor rd r = Inr (fin, r1) \<Longrightarrow> q_consumer_park r1 = q_consumer_park r"
  by (auto simp: mpmc_reader_drop_def mpmc_slot_release_drop_def seq_exec_eq_Inr dest!: word_ops_park)

lemma join_leave_park:
  "q_consumer_park (snd (mpmc_producer_clone r)) = q_consumer_park r"
  "q_consumer_park (snd (mpmc_consumer_clone r)) = q_consumer_park r"
  "q_consumer_park (mpmc_consumer_drop c r) = q_consumer_park r"
  by (simp_all add: mpmc_producer_clone_def mpmc_consumer_clone_def mpmc_consumer_drop_def case_prod_beta Let_def)

lemma step_park:
  assumes "mpmc_step dtor op (ps, cs, r) = Inr (Some (e, ps1, cs1, r1))"
  shows "(q_consumer_park r1 = q_consumer_park r \<and> (\<forall>v. e \<noteq> Q_Accepted v)
      \<and> ((\<exists>i. op = Q_Producer_Leaves i) \<longrightarrow> is_closed (q_closed r1) = is_closed (q_closed r)))
    \<or> waking_call r r1"
proof (cases op)
  case (Q_Push i v)
  show ?thesis
  proof (cases "\<exists>p. handle_at ps i = Some (p, None)")
    case False
    then show ?thesis using assms Q_Push by (auto simp: pool_push_def split: option.splits)
  next
    case True
    then obtain p p1 res where "mpmc_push [] v p r = Inr (res, p1, r1)"
      "e = (case res of Push_Ok \<Rightarrow> Q_Accepted v | Push_Err w \<Rightarrow> Q_Refused w)"
      using assms Q_Push by (auto simp: pool_push_def seq_exec_eq_Inr)
    then show ?thesis using Q_Push by (cases res) (auto simp: waking_call_def dest: push_park)
  qed
next
  case (Q_Reserve i)
  then show ?thesis
    using assms
    by (auto simp: pool_reserve_def mpmc_reserve_def seq_exec_eq_Inr dest!: acquire_park split: option.splits)
next
  case (Q_Commit i v)
  then show ?thesis
    using assms
    by (auto simp: pool_commit_def waking_call_def seq_exec_eq_Inr dest!: write_park commit_park split: option.splits)
next
  case (Q_Abandon i)
  then show ?thesis using assms by (auto simp: pool_abandon_def split: option.splits)
next
  case (Q_Abandon_Written i v)
  then show ?thesis
    using assms
    by (auto simp: pool_abandon_written_def seq_exec_eq_Inr dest!: write_park written_drop_park split: option.splits)
next
  case (Q_Pop k)
  then show ?thesis
    using assms by (auto simp: pool_pop_def seq_exec_eq_Inr dest!: pop_park split: option.splits)
next
  case (Q_Open k)
  then show ?thesis
    using assms
    by (auto simp: pool_open_def mpmc_pop_ref_def seq_exec_eq_Inr dest!: claim_park split: option.splits)
next
  case (Q_Finish k)
  then show ?thesis
    using assms by (auto simp: pool_finish_def seq_exec_eq_Inr dest!: reader_drop_park split: option.splits)
next
  case (Q_Clone_Producer i)
  then show ?thesis
    using assms join_leave_park(1) [of r]
    by (auto simp: pool_clone_producer_def split: option.splits prod.splits)
next
  case (Q_Clone_Consumer k)
  then show ?thesis
    using assms join_leave_park(2) [of r]
    by (auto simp: pool_clone_consumer_def split: option.splits prod.splits)
next
  case (Q_Producer_Leaves i)
  then show ?thesis
    using assms
    by (auto simp: pool_producer_leaves_def waking_call_def seq_exec_eq_Inr dest!: producer_drop_park split: option.splits)
next
  case (Q_Consumer_Leaves k)
  then show ?thesis
    using assms by (auto simp: pool_consumer_leaves_def join_leave_park split: option.splits)
qed

text \<open>The handle at \<open>j\<close> keeps its slot when the call is not its own.\<close>

lemma handle_at_frame:
  "i \<noteq> j \<Longrightarrow> handle_at (hs[i := h]) j = handle_at hs j"
  "handle_at hs j = Some x \<Longrightarrow> handle_at (hs @ [h]) j = Some x"
  by (simp_all add: handle_at_def nth_append split: if_splits)

lemma step_slot:
  assumes "mpmc_step dtor op (ps, cs, r) = Inr (Some (e, ps1, cs1, r1))" and "spares A j op"
    and "handle_at cs j = Some h"
  shows "handle_at cs1 j = Some h"
  using assms
  by (cases op)
    (auto simp: pool_push_def pool_reserve_def pool_commit_def pool_abandon_def pool_abandon_written_def pool_pop_def
      pool_open_def pool_finish_def pool_clone_producer_def pool_clone_consumer_def pool_producer_leaves_def
      pool_consumer_leaves_def seq_exec_eq_Inr handle_at_frame split: option.splits prod.splits)

section \<open>What is on offer\<close>

fun offered :: "'a pool_entry \<Rightarrow> 'a multiset" where
  "offered (Offered v) = {#v#}"
| "offered _ = {#}"

definition offers :: "'a pool_entry list \<Rightarrow> 'a multiset" where
  "offers es = (\<Sum>e \<leftarrow> es. offered e)"

lemma offers_update: "x < length es \<Longrightarrow> offers (es[x := e]) + offered (es ! x) = offers es + offered e"
  unfolding offers_def by (rule sum_list_exchange)

lemma offers_stocked: "stocked n es B es1 B1 \<Longrightarrow> offers es1 = offers es"
proof -
  have "(\<Sum>e \<leftarrow> replicate k Unwritten. offered e) = {#}" for k :: nat by (induction k) simp_all
  then show "stocked n es B es1 B1 \<Longrightarrow> ?thesis"
    by (auto simp: stocked_def offers_def simp del: map_replicate split: if_splits)
qed

lemma offers_given_up:
  assumes "\<forall>x \<in> B. x < length es \<and> es ! x = Unwritten"
  shows "offers (given_up n es B) = offers es"
proof -
  have "map offered (given_up n es B) = map offered es"
    by (rule nth_equalityI) (use assms in auto)
  then show ?thesis by (simp add: offers_def)
qed

lemma offers_empty: "offers es = {#} \<longleftrightarrow> no_offers es"
proof -
  have "offered e = {#} \<longleftrightarrow> (\<forall>v. e \<noteq> Offered v)" for e :: "'a pool_entry" by (cases e) simp_all
  moreover have "offers es = {#} \<longleftrightarrow> (\<forall>e \<in> set es. offered e = {#})"
    by (induction es) (auto simp: offers_def)
  ultimately show ?thesis by (auto simp: no_offers_def in_set_conv_nth)
qed

lemma somebody: "handle_at hs i = Some h \<Longrightarrow> \<not> nobody hs"
  using alive_drop [of hs i h] by (auto simp: nobody_alive)

text \<open>The others take values away and offer values of \<open>A\<close>.\<close>

definition offers_evolve :: "'a set \<Rightarrow> 'a multiset \<Rightarrow> 'a multiset \<Rightarrow> bool" where
  "offers_evolve A M M' \<longleftrightarrow> (\<forall>v. v \<notin> A \<longrightarrow> count M' v \<le> count M v)"

lemma offers_evolve_subset: "M' \<subseteq># M \<Longrightarrow> offers_evolve A M M'"
  by (simp add: offers_evolve_def mset_subset_eq_count)

lemma step_offers:
  assumes "pool_step n op (es, ps, cs, gone) e (es1, ps1, cs1, gone1)" and "spares A j op" and "handle_at cs j = Some None"
  shows "handle_at cs1 j = Some None \<and> offers_evolve A (offers es) (offers es1)
    \<and> ((\<forall>v. e \<noteq> Q_Accepted v) \<longrightarrow> offers es1 \<subseteq># offers es)
    \<and> (nobody ps \<longrightarrow> nobody ps1) \<and> ((\<forall>i. op \<noteq> Q_Producer_Leaves i) \<longrightarrow> nobody ps1 = nobody ps)"
  using assms
proof cases
  case (push i B es2 B1 x v)
  then have "offers es1 = add_mset v (offers es)"
    using offers_update [of x es2 "Offered v"] by (simp add: writable_def offers_stocked)
  then show ?thesis using push assms(2,3) by (auto simp: offers_evolve_def nobody_alive alive_keep)
next
  case full
  then show ?thesis using assms(3) by (auto simp: offers_evolve_def nobody_alive alive_keep offers_stocked)
next
  case reserve
  then show ?thesis using assms(3) by (auto simp: offers_evolve_def nobody_alive alive_keep offers_stocked)
next
  case reserve_full
  then show ?thesis using assms(3) by (auto simp: offers_evolve_def nobody_alive alive_keep offers_stocked)
next
  case (commit i B x v)
  then have "offers es1 = add_mset v (offers es)"
    using offers_update [of x es "Offered v"] by (simp add: writable_def)
  then show ?thesis using commit assms(2,3) by (auto simp: offers_evolve_def nobody_alive alive_keep)
next
  case (pop k x v)
  then have "offers es = add_mset v (offers es1)" using offers_update [of x es Settled] by simp
  then show ?thesis using pop assms(3) by (auto intro: offers_evolve_subset)
next
  case (read_open k x v)
  then have "offers es = add_mset v (offers es1)" using offers_update [of x es "Borrowed v"] by simp
  then show ?thesis using read_open assms(2,3) by (auto intro: offers_evolve_subset simp: handle_at_frame)
next
  case (finish k x v)
  then have "offers es1 = offers es" using offers_update [of x es Settled] by simp
  then show ?thesis using finish assms(2,3) by (auto intro: offers_evolve_subset simp: handle_at_frame)
next
  case (producer_leaves i B)
  then show ?thesis
    using assms(3) alive_drop [of ps i "(B, None)"]
    by (auto simp: offers_given_up nobody_alive intro: offers_evolve_subset)
qed (use assms(2,3) in \<open>auto simp: offers_evolve_def nobody_alive alive_keep alive_snoc handle_at_frame
    dest: somebody\<close>)

section \<open>How far the counters have come\<close>

fun mpmc_used :: "'a mpmc \<Rightarrow> nat" where
  "mpmc_used (ps, cs, r) =
     fold max (length ps # length cs # map (\<lambda>h. case h of None \<Rightarrow> 0 | Some (c, _) \<Rightarrow> unat (qc_next_scan c)) cs)
       (unat (q_claim r))"

definition mpmc_positions_left :: "nat \<Rightarrow> 'a mpmc \<Rightarrow> nat" where
  "mpmc_positions_left n s = 2 ^ 64 - (32 + 2 * n + mpmc_used s)"

lemma fold_max_le: "fold max xs m \<le> (l :: nat) \<longleftrightarrow> m \<le> l \<and> (\<forall>x \<in> set xs. x \<le> l)"
  by (induction xs arbitrary: m) auto

lemma used_bound:
  assumes "mpmc_rel l (es, ps, cs, gone) (qs, ds, r)"
  shows "mpmc_used (qs, ds, r) \<le> l" and "mpmc_rel (mpmc_used (qs, ds, r)) (es, ps, cs, gone) (qs, ds, r)"
proof -
  have claim: "unat (q_claim r) = length es"
    using assms by (auto simp: mpmc_ring_ok_def unat_of_nat_usize)
  have used: "mpmc_used (qs, ds, r) \<le> m \<longleftrightarrow>
      length es \<le> m \<and> length qs \<le> m \<and> length ds \<le> m
      \<and> (\<forall>h \<in> set ds. (case h of None \<Rightarrow> 0 | Some (c, _) \<Rightarrow> unat (qc_next_scan c)) \<le> m)" for m
    by (auto simp: fold_max_le claim simp del: fold_simps)
  have stands: "\<And>k. k < length ds \<Longrightarrow> consumer_stands l es r (cs ! k) (ds ! k)" using assms by simp
  have scan: "unat (qc_next_scan c) \<le> l" if member: "Some (c, rd) \<in> set ds" for c rd
  proof -
    obtain k where "k < length ds" "ds ! k = Some (c, rd)" using member by (auto simp: in_set_conv_nth)
    then show ?thesis using stands [of k] by (auto simp: consumer_stands_def split: option.splits)
  qed
  show "mpmc_used (qs, ds, r) \<le> l"
    unfolding used using assms scan by (auto split: option.splits)
  have "consumer_stands (mpmc_used (qs, ds, r)) es r (cs ! k) (ds ! k)" if "k < length cs" for k
  proof -
    have "consumer_stands l es r (cs ! k) (ds ! k)" "ds ! k \<in> set ds" using assms that by simp_all
    moreover have "(case ds ! k of None \<Rightarrow> 0 | Some (c, _) \<Rightarrow> unat (qc_next_scan c)) \<le> mpmc_used (qs, ds, r)"
      using used [of "mpmc_used (qs, ds, r)"] \<open>ds ! k \<in> set ds\<close> by blast
    ultimately show ?thesis by (auto simp: consumer_stands_def split: option.splits)
  qed
  then show "mpmc_rel (mpmc_used (qs, ds, r)) (es, ps, cs, gone) (qs, ds, r)"
    using used [of "mpmc_used (qs, ds, r)"] assms by (simp del: mpmc_used.simps)
qed

lemma used_park [simp]: "mpmc_used (ps, cs, r\<lparr>q_consumer_park := w\<rparr>) = mpmc_used (ps, cs, r)"
  by simp

section \<open>The waiting consumer and the pool\<close>

text \<open>
  The consumer \<open>j\<close> leases the park slot \<open>b\<close> and is the only one that may be parked; \<open>M\<close> is
  what the pool has on offer.
\<close>

definition mpmc_pool :: "nat \<Rightarrow> u32 \<Rightarrow> nat \<Rightarrow> 'a mpmc \<Rightarrow> 'a multiset \<Rightarrow> bool" where
  "mpmc_pool j b n s M \<longleftrightarrow>
     (\<exists>es ps cs gone qs ds r c. s = (qs, ds, r) \<and> mpmc_rel (mpmc_used s) (es, ps, cs, gone) s
        \<and> handle_at cs j = Some None \<and> handle_at ds j = Some (c, None) \<and> qc_park_slot c = Leased b
        \<and> slots (q_capacity r) = n \<and> ws_alone (unat b) (q_consumer_park r) \<and> M = offers es)"

definition mpmc_consumer_parked :: "nat \<Rightarrow> 'a mpmc \<Rightarrow> bool" where
  "mpmc_consumer_parked j s =
     (case s of (_, _, r) \<Rightarrow>
        case mpmc_slot_of j s of Leased b \<Rightarrow> ws_parked (unat b) (q_consumer_park r) | Shared \<Rightarrow> False)"

lemma rel_park:
  assumes rel: "mpmc_rel l (es, ps, cs, gone) (qs, ds, r)"
  shows "mpmc_rel l (es, ps, cs, gone) (qs, ds, r\<lparr>q_consumer_park := w\<rparr>)" (is "mpmc_rel l _ (qs, ds, ?r)")
proof -
  have "producer_stands es ?r (ps ! i) (qs ! i)" if "i < length ps" for i
    using producer_stands_evolves [OF _ evolves_refl [of "{}"], of es r "ps ! i" "qs ! i" ?r] rel that by simp
  moreover have "consumer_stands l es ?r (cs ! k) (ds ! k)" if "k < length cs" for k
    using consumer_stands_evolves [OF _ evolves_refl [of "{}"], of l es r "cs ! k" "ds ! k" ?r l] rel that by simp
  moreover have "mpmc_ring_ok es ?r" by (rule mpmc_ring_ok_cong [of es r]) (use rel in simp_all)
  ultimately show ?thesis using rel by simp
qed

lemma mpmc_poolE:
  assumes "mpmc_pool j b n s M"
  obtains es ps cs gone qs ds r c where "s = (qs, ds, r)" "mpmc_rel (mpmc_used s) (es, ps, cs, gone) s"
    "handle_at cs j = Some None" "handle_at ds j = Some (c, None)" "qc_park_slot c = Leased b"
    "slots (q_capacity r) = n" "ws_alone (unat b) (q_consumer_park r)" "M = offers es"
  using assms unfolding mpmc_pool_def by blast

lemma mpmc_poolI:
  assumes "mpmc_rel l (es, ps, cs, gone) (qs, ds, r)"
    and "handle_at cs j = Some None" "handle_at ds j = Some (c, None)" "qc_park_slot c = Leased b"
    and "slots (q_capacity r) = n" "ws_alone (unat b) (q_consumer_park r)"
  shows "mpmc_pool j b n (qs, ds, r) (offers es)"
  unfolding mpmc_pool_def using used_bound(2) [OF assms(1)] assms(2-) by blast

lemma mpmc_pool_park:
  assumes "mpmc_pool j b n (qs, ds, r) M" and "ws_alone (unat b) w"
  shows "mpmc_pool j b n (qs, ds, r\<lparr>q_consumer_park := w\<rparr>) M"
  using assms(1)
proof (rule mpmc_poolE)
  fix es ps cs gone qs1 ds1 r1 c
  assume "(qs, ds, r) = (qs1, ds1, r1)" and rel: "mpmc_rel (mpmc_used (qs, ds, r)) (es, ps, cs, gone) (qs, ds, r)"
    and at: "handle_at cs j = Some None" "handle_at ds1 j = Some (c, None)" "qc_park_slot c = Leased b"
      "slots (q_capacity r1) = n" and M: "M = offers es"
  then have same: "qs1 = qs" "ds1 = ds" "r1 = r" by simp_all
  show ?thesis
    unfolding M by (rule mpmc_poolI [OF rel_park [OF rel]]) (use at assms(2) in \<open>simp_all add: same\<close>)
qed

section \<open>The laws of the waiting consumer\<close>

lemma pool_slot: "handle_at ds j = Some (c, None) \<Longrightarrow> mpmc_slot_of j (qs, ds, r) = qc_park_slot c"
  by (simp add: mpmc_slot_of_def)

lemma mpmc_try_pop_law:
  assumes pool: "mpmc_pool j b n s M" and room: "n + 32 \<le> mpmc_positions_left n s"
  shows "\<exists>res s'. mpmc_try_pop j s = Inr (res, s') \<and>
    (case res of
       Some v \<Rightarrow> \<exists>M'. M = add_mset v M' \<and> mpmc_pool j b n s' M'
     | None \<Rightarrow> M = {#} \<and> mpmc_pool j b n s' {#} \<and> mpmc_producer_gone s' = mpmc_producer_gone s
         \<and> mpmc_consumer_parked j s' = mpmc_consumer_parked j s \<and> mpmc_consumer_woken t j s' = mpmc_consumer_woken t j s
         \<and> mpmc_positions_left n s \<le> mpmc_positions_left n s' + (n + 32))"
  using pool
proof (rule mpmc_poolE)
  fix es ps cs gone qs ds r c
  assume s: "s = (qs, ds, r)" and rel: "mpmc_rel (mpmc_used s) (es, ps, cs, gone) s"
    and at: "handle_at cs j = Some None" "handle_at ds j = Some (c, None)" "qc_park_slot c = Leased b"
    and n: "slots (q_capacity r) = n" and alone: "ws_alone (unat b) (q_consumer_park r)" and M: "M = offers es"
  have lim: "mpmc_used s + 32 + 2 * n < 2 ^ 64" using room by (simp add: mpmc_positions_left_def)
  obtain e es1 ps1 cs1 gone1 s1 where run: "pool_pop j s = Inr (Some (e, s1))"
    "pool_step n (Q_Pop j) (es, ps, cs, gone) e (es1, ps1, cs1, gone1)"
    "mpmc_rel (mpmc_used s + n + 32) (es1, ps1, cs1, gone1) s1" "slots (q_capacity (snd (snd s1))) = n"
    using pop_follows [OF rel [unfolded s] lim [unfolded s] n, of j]
    by (auto simp: mpmc_follows_def s elim!: pool_hangs.cases)
  obtain res c1 r1 where p: "mpmc_pop [] c r = Inr (res, c1, r1)" "s1 = (qs, ds[j := Some (c1, None)], r1)"
    "e = (case res of None \<Rightarrow> Q_Empty j | Some v \<Rightarrow> Q_Popped j v)"
    using run(1) at(2) by (auto simp: s pool_pop_def seq_exec_eq_Inr)
  have took: "mpmc_try_pop j s = Inr (res, s1)" using p at(2) by (simp add: mpmc_try_pop_def s)
  have park: "q_consumer_park r1 = q_consumer_park r" "qc_park_slot c1 = Leased b"
    using pop_park [OF p(1)] at(3) by simp_all
  have at1: "handle_at (ds[j := Some (c1, None)]) j = Some (c1, None)"
    using at(2) by (simp add: handle_at_def split: if_splits)
  have same: "cs1 = cs" "ps1 = ps" using run(2) at(1) by (auto elim: pool_step.cases)
  have pool1: "mpmc_pool j b n s1 (offers es1)"
    unfolding p(2)
    by (rule mpmc_poolI [OF run(3) [unfolded p(2)]])
      (use at1 park alone run(4) at(1) same in \<open>simp_all add: p(2)\<close>)
  show ?thesis
  proof (cases res)
    case None
    then have "no_offers es \<and> es1 = es" using run(2) p(3) at(1) by (auto elim: pool_step.cases)
    then have "M = {#}" "offers es1 = {#}" by (simp_all add: M offers_empty)
    moreover have "mpmc_producer_gone s1 = mpmc_producer_gone s"
      using rel run(3) same by (simp add: mpmc_producer_gone_def s p(2))
    moreover have "mpmc_consumer_parked j s1 = mpmc_consumer_parked j s" "mpmc_consumer_woken t j s1 = mpmc_consumer_woken t j s"
      using at park by (simp_all add: mpmc_consumer_parked_def mpmc_consumer_woken_def s p(2) pool_slot [OF at1] pool_slot [OF at(2)])
    moreover have "mpmc_positions_left n s \<le> mpmc_positions_left n s1 + (n + 32)"
      using used_bound(1) [OF run(3) [unfolded p(2)]] by (simp add: mpmc_positions_left_def p(2))
    ultimately show ?thesis using took pool1 None by simp
  next
    case (Some v)
    then obtain x where x: "x < length es" "es ! x = Offered v" "es1 = es[x := Settled]"
      using run(2) p(3) by (auto elim: pool_step.cases)
    then have "M = add_mset v (offers es1)" using offers_update [of x es Settled] by (simp add: M)
    then show ?thesis using took pool1 Some by auto
  qed
qed

lemma told_by_wake:
  assumes "waking_call r r1" and "ws_alone b (q_consumer_park r)"
  shows "ws_heard b (q_consumer_park r) (q_consumer_park r1)"
  using assms wake_one_heard flush_heard by (auto simp: waking_call_def)

lemma mpmc_other_call_law:
  assumes "mpmc_other_call A j f" and pool: "mpmc_pool j b n s M" and room: "n + 32 \<le> mpmc_positions_left n s"
  shows "\<exists>s' M'. f s = Inr s' \<and> mpmc_pool j b n s' M' \<and> offers_evolve A M M'
    \<and> mpmc_positions_left n s \<le> mpmc_positions_left n s' + (n + 32)
    \<and> (mpmc_producer_gone s \<longrightarrow> mpmc_producer_gone s')
    \<and> (mpmc_consumer_woken t j s \<longrightarrow> mpmc_consumer_woken t j s')
    \<and> (mpmc_consumer_parked j s \<longrightarrow> mpmc_consumer_woken t j s'
        \<or> (mpmc_consumer_parked j s' \<and> (M = {#} \<longrightarrow> M' = {#}) \<and> mpmc_producer_gone s' = mpmc_producer_gone s))"
  using pool
proof (rule mpmc_poolE)
  obtain dtor op where f: "f = mpmc_peer dtor op" "spares A j op" using assms(1) by (auto simp: mpmc_other_call_def)
  fix es ps cs gone qs ds r c
  assume s: "s = (qs, ds, r)" and rel: "mpmc_rel (mpmc_used s) (es, ps, cs, gone) s"
    and at: "handle_at cs j = Some None" "handle_at ds j = Some (c, None)" "qc_park_slot c = Leased b"
    and n: "slots (q_capacity r) = n" and alone: "ws_alone (unat b) (q_consumer_park r)" and M: "M = offers es"
  have lim: "mpmc_used s + 32 + 2 * n < 2 ^ 64" using room by (simp add: mpmc_positions_left_def)
  have "mpmc_follows n (mpmc_used s) op (es, ps, cs, gone) (mpmc_step dtor op s)"
    by (rule mpmc_step_follows [OF rel lim]) (simp add: s n)
  then consider (hangs) "mpmc_step dtor op s = Inr None"
    | (stepped) e a1 s1 where "mpmc_step dtor op s = Inr (Some (e, s1))" "pool_step n op (es, ps, cs, gone) e a1"
      "mpmc_rel (mpmc_used s + n + 32) a1 s1" "slots (q_capacity (snd (snd s1))) = n"
    unfolding mpmc_follows_def by blast
  then show ?thesis
  proof cases
    case hangs
    then have "f s = Inr s" by (simp add: f(1) mpmc_peer_def)
    then show ?thesis
      using pool by (intro exI [of _ s] exI [of _ M]) (auto simp: offers_evolve_def)
  next
    case stepped
    obtain es1 ps1 cs1 gone1 qs1 ds1 r1 where "a1 = (es1, ps1, cs1, gone1)" "s1 = (qs1, ds1, r1)"
      by (cases a1, cases s1) simp
    note calls = stepped [unfolded this snd_conv]
    have run: "f s = Inr (qs1, ds1, r1)" using calls(1) by (simp add: f(1) mpmc_peer_def)
    note frame = step_offers [OF calls(2) f(2) at(1)]
    have at1: "handle_at ds1 j = Some (c, None)" by (rule step_slot [OF calls(1) [unfolded s] f(2) at(2)])
    have closed: "is_closed (q_closed r) = nobody ps" "is_closed (q_closed r1) = nobody ps1"
      using rel calls(3) by (simp_all add: s)
    have heard: "ws_heard (unat b) (q_consumer_park r) (q_consumer_park r1)"
      if "waking_call r r1" by (rule told_by_wake [OF that alone])
    consider (quiet) "q_consumer_park r1 = q_consumer_park r" "\<forall>v. e \<noteq> Q_Accepted v" "nobody ps1 = nobody ps"
      | (wakes) "waking_call r r1"
      using step_park [OF calls(1) [unfolded s]] frame closed by blast
    then have tells: "ws_alone (unat b) (q_consumer_park r1)
        \<and> (ws_told (unat b) (q_consumer_park r) \<longrightarrow> ws_told (unat b) (q_consumer_park r1))
        \<and> (ws_parked (unat b) (q_consumer_park r) \<longrightarrow> ws_told (unat b) (q_consumer_park r1)
          \<or> (ws_parked (unat b) (q_consumer_park r1) \<and> (M = {#} \<longrightarrow> offers es1 = {#}) \<and> nobody ps1 = nobody ps))"
      by cases (use alone frame heard in \<open>auto simp: ws_heard_def M\<close>)
    have pool1: "mpmc_pool j b n (qs1, ds1, r1) (offers es1)"
      by (rule mpmc_poolI [OF calls(3)]) (use frame at1 at(3) calls(4) tells in simp_all)
    have "mpmc_positions_left n s \<le> mpmc_positions_left n (qs1, ds1, r1) + (n + 32)"
      using used_bound(1) [OF calls(3)] by (simp add: mpmc_positions_left_def)
    moreover have "mpmc_producer_gone s = nobody ps" "mpmc_producer_gone (qs1, ds1, r1) = nobody ps1"
      using closed by (simp_all add: mpmc_producer_gone_def s)
    moreover have "mpmc_consumer_woken t j s = ws_told (unat b) (q_consumer_park r)"
      "mpmc_consumer_woken t j (qs1, ds1, r1) = ws_told (unat b) (q_consumer_park r1)"
      "mpmc_consumer_parked j s = ws_parked (unat b) (q_consumer_park r)"
      "mpmc_consumer_parked j (qs1, ds1, r1) = ws_parked (unat b) (q_consumer_park r1)"
      using at(3) by (simp_all add: mpmc_consumer_woken_def mpmc_consumer_parked_def s ws_told_def
          pool_slot [OF at1] pool_slot [OF at(2)])
    ultimately show ?thesis
      using run pool1 frame tells unfolding M
      by (intro exI [of _ "(qs1, ds1, r1)"] exI [of _ "offers es1"]) simp
  qed
qed

lemma offers_evolve_refl: "offers_evolve A M M"
  by (simp add: offers_evolve_def)

lemma offers_evolve_trans: "offers_evolve A M M1 \<Longrightarrow> offers_evolve A M1 M2 \<Longrightarrow> offers_evolve A M M2"
  unfolding offers_evolve_def using order_trans by blast

interpretation qc: blocking_taker "mpmc_pool j b n" "mpmc_positions_left n" "mpmc_try_pop j" "{#}"
  "\<lambda>M v M'. M = add_mset v M'" "n + 32" "n + 32" "offers_evolve A" mpmc_producer_gone "mpmc_consumer_parked j"
  "mpmc_consumer_woken t j" "mpmc_arm_consumer t j" "mpmc_disarm_consumer j" "mpmc_other_call A j"
  for j b n A t
proof (unfold_locales, goal_cases)
  case (1 q)
  show ?case by (rule offers_evolve_refl)
next
  case (2 q q1 q2)
  then show ?case by (rule offers_evolve_trans)
next
  case (3 s q)
  then show ?case using mpmc_try_pop_law [of j b n s q t] by auto
next
  case (4 s M)
  obtain qs ds r c where s: "s = (qs, ds, r)" and at: "handle_at ds j = Some (c, None)" "qc_park_slot c = Leased b"
    and alone: "ws_alone (unat b) (q_consumer_park r)"
    using 4 by (rule mpmc_poolE)
  have arm: "mpmc_arm_consumer t j s = (qs, ds, r\<lparr>q_consumer_park := ws_arm t (Leased b) (q_consumer_park r)\<rparr>)"
    using at by (simp add: s mpmc_arm_consumer_def mpmc_consumer_parks_def pool_slot)
  show ?case
    using mpmc_pool_park [OF 4 [unfolded s] arm_parks(1) [OF alone]] arm_parks(2,3) [OF alone, of t] at
    unfolding arm
    by (simp add: s mpmc_positions_left_def mpmc_producer_gone_def mpmc_consumer_parked_def mpmc_consumer_woken_def
        pool_slot ws_told_def del: mpmc_used.simps)
next
  case (5 s M)
  obtain qs ds r c where s: "s = (qs, ds, r)" and at: "handle_at ds j = Some (c, None)" "qc_park_slot c = Leased b"
    and alone: "ws_alone (unat b) (q_consumer_park r)"
    using 5 by (rule mpmc_poolE)
  have "mpmc_disarm_consumer j s = (qs, ds, r\<lparr>q_consumer_park := ws_disarm (Leased b) (q_consumer_park r)\<rparr>)"
    using at by (simp add: s mpmc_disarm_consumer_def mpmc_consumer_parks_def pool_slot)
  then show ?case
    using mpmc_pool_park [OF 5 [unfolded s] disarm_alone [OF alone]]
    by (simp add: s mpmc_positions_left_def mpmc_producer_gone_def del: mpmc_used.simps)
next
  case (6 f s M)
  then show ?case using mpmc_other_call_law [of A j f b n s M t] by blast
qed

text \<open>
  C17. \<open>pop_block\<close> of the mpmc ring, for a consumer that leases a park slot and is the only
  one waiting, against any schedule of the calls of the other handles (producers that push
  and commit values of \<open>A\<close>, reserve, abandon, join and leave; consumers that pop, read,
  join and leave) and of spurious returns: it never faults; a value it returns was on
  offer at the start or was pushed meanwhile; it returns \<open>None\<close> only when every producer
  is gone and nothing is on offer; and it is found in its park only if it has been
  unparked already, or nothing is on offer, a producer is alive and the consumer is
  advertised with its handle armed. An empty pop moves the scan cursor on by a lap, so the
  positions left must cover the pops of every turn of the loop.
\<close>

theorem mpmc_pop_block_contract:
  assumes "mpmc_pool j b n s M" and "permitted (mpmc_other_call A j) ps"
    and "(n + 32) * (40 * length ps + 39) \<le> mpmc_positions_left n s"
  shows "\<exists>out. mpmc_pop_block t j ps s = Inr out \<and>
    (case out of
       Done (Some v) s' \<Rightarrow> \<exists>M'. mpmc_pool j b n s' M' \<and> offers_evolve A M (add_mset v M')
     | Done None s' \<Rightarrow> mpmc_pool j b n s' {#} \<and> mpmc_producer_gone s'
     | In_Park s' \<Rightarrow> \<exists>M'. mpmc_pool j b n s' M' \<and> offers_evolve A M M' \<and>
         (mpmc_consumer_woken t j s' \<or> (mpmc_consumer_parked j s' \<and> M' = {#} \<and> \<not> mpmc_producer_gone s')))"
proof -
  have "qc.afford n A j (qc.idle_pops ps backoff_new) ps s"
    unfolding qc.afford_def qc.idle_pops_def using assms(2,3)
    by (simp add: algebra_simps spins_left_def backoff_new_def)
  from qc.pop_block_loop_law [OF this assms(1), of t] obtain out where
    "mpmc_pop_block t j ps s = Inr out" "qc.take_outcome j b n A t M out"
    unfolding mpmc_pop_block_def pop_block_def mpmc_consumer_ops_def by blast
  then show ?thesis
    unfolding qc.take_outcome_def by (intro exI [of _ out]) (auto split: blocking.splits option.splits)
qed

lemma mpmc_fresh_pool:
  "\<exists>s :: 'a mpmc. mpmc_start default_config cap4 = Inr s \<and> mpmc_pool 0 0 4 s {#}
    \<and> 2 ^ 63 \<le> mpmc_positions_left 4 s"
proof -
  have g: "4 \<le> slots cap4" "config_valid default_config" "2 * slots cap4 < 2 ^ 64"
    by (simp_all add: slots_cap4 config_valid_def default_config_def)
  obtain s :: "'a mpmc" where s: "mpmc_start default_config cap4 = Inr s" "mpmc_rel (slots cap4) pool_start s"
    "q_capacity (snd (snd s)) = cap4"
    by (rule mpmc_start_rel [OF cap4_wf g])
  obtain qs ds r where parts: "s = (qs, ds, r)" by (cases s)
  obtain c where c: "ds = [Some (c, None)]" "qc_park_slot c = Leased 0" "q_consumer_park r = wake_set_new"
  proof -
    have lease: "fst (registry_lease registry_new) = Leased 0" by code_simp
    show thesis
      using s(1) that lease
      by (auto simp: parts mpmc_start_def mpmc_new_def mpmc_split_def mpmc_producer_new_def mpmc_consumer_new_def
          seq_exec_eq_Inr Let_def split: prod.splits if_splits)
  qed
  have alone: "ws_alone 0 (wake_set_new)"
    by (simp add: ws_alone_def ws_parked_def wake_set_new_def PARK_SLOTS_def)
  have rel: "mpmc_rel 4 ([], [Some ({}, None)], [Some None], []) (qs, ds, r)"
    using s(2) by (simp only: parts pool_start_def slots_cap4)
  have "mpmc_pool 0 0 4 (qs, ds, r) (offers [])"
    by (rule mpmc_poolI [OF rel]) (use c alone s(3) in \<open>simp_all add: parts handle_at_def slots_cap4\<close>)
  moreover have "2 ^ 63 \<le> mpmc_positions_left 4 (qs, ds, r)"
    using used_bound(1) [OF rel] by (simp add: mpmc_positions_left_def del: mpmc_used.simps)
  ultimately show ?thesis using s(1) by (auto simp: parts offers_def)
qed

theorem mpmc_pop_block_contract_witness:
  "\<exists>s out. mpmc_start default_config cap4 = Inr s
    \<and> mpmc_pop_block 1 0 [Turn, Peer (mpmc_peer (\<lambda>_. Returned) (Q_Push 0 (7 :: nat))),
        Peer (mpmc_peer (\<lambda>_. Returned) (Q_Producer_Leaves 0))] s = Inr out \<and>
    (case out of
       Done (Some v) s' \<Rightarrow> \<exists>M'. mpmc_pool 0 0 4 s' M' \<and> offers_evolve {7} {#} (add_mset v M')
     | Done None s' \<Rightarrow> mpmc_pool 0 0 4 s' {#} \<and> mpmc_producer_gone s'
     | In_Park s' \<Rightarrow> \<exists>M'. mpmc_pool 0 0 4 s' M' \<and> offers_evolve {7} {#} M' \<and>
         (mpmc_consumer_woken 1 0 s' \<or> (mpmc_consumer_parked 0 s' \<and> M' = {#} \<and> \<not> mpmc_producer_gone s')))"
proof -
  obtain s :: "nat mpmc" where s: "mpmc_start default_config cap4 = Inr s" "mpmc_pool 0 0 4 s {#}"
    "2 ^ 63 \<le> mpmc_positions_left 4 s"
    using mpmc_fresh_pool by blast
  let ?ps = "[Turn, Peer (mpmc_peer (\<lambda>_. Returned) (Q_Push 0 7)), Peer (mpmc_peer (\<lambda>_. Returned) (Q_Producer_Leaves 0))]
    :: nat mpmc schedule"
  have other: "mpmc_other_call {7} 0 (mpmc_peer (\<lambda>_. Returned) op)" if "spares {7} 0 op" for op :: "nat mpmc_op"
    using that by (auto simp: mpmc_other_call_def)
  have "permitted (mpmc_other_call {7} 0) ?ps" by (simp add: other)
  moreover have "(4 + 32) * (40 * length ?ps + 39) \<le> mpmc_positions_left 4 s" using s(3) by simp
  ultimately show ?thesis using mpmc_pop_block_contract [OF s(2), of "{7}" ?ps 1] s(1) by blast
qed

end
