(* ===== verification/Spec2Isabelle.thy ===== *)
theory Spec2Isabelle
  imports Spsc_Async Mpsc_Block Spmc_Wait Broadcast_Delivery Mpmc_Wait
begin

text \<open>
  \<^bold>\<open>The program.\<close> quetzalcoatl is a library of lock-free ring buffers over a buffer whose
  length is a power of two. Five rings cover the topologies: \<open>src/spsc\<close> (one producer, one
  consumer), \<open>src/mpsc\<close> (many producers), \<open>src/spmc\<close> (many consumers, who claim batches),
  \<open>src/mpmc\<close> (many of both, without an order) and \<open>src/broadcast\<close> (every consumer reads
  everything). They share \<open>src/capacity.rs\<close> and \<open>src/common\<close>: cursors, close flags, handle
  counts, per-slot words, the guard of an uncommitted value, and the machinery that parks
  a waiting thread and wakes it. A handle (\<open>Producer\<close>, \<open>Consumer\<close>) belongs to one thread; handles
  of one ring interact through the ring's atomic words and the park machinery alone.

  \<^bold>\<open>How the code is modelled.\<close> A struct is a record with the fields of the source, an enum a
  datatype, \<open>usize\<close> and \<open>u64\<close> are 64-bit words and wrap as in a release build. Raw memory is
  a list of cells that are initialised or not (\<open>Prelude\<close>): reading or taking an
  uninitialised cell and indexing out of range are faults, and a result of type \<open>exec\<close> is
  a fault or a value, so that a theorem that a run gives \<open>Inr\<close> says that it does none of
  this. A panicking callback or destructor is a value of type \<open>completion\<close>; the code that runs
  while it unwinds is part of the operation. An operation takes and returns the ring and
  the handle it may change. What cannot be seen in the state is logged in it: the threads
  unparked (\<open>_unparked\<close>) and the values destroyed (\<open>_dropped\<close>). Loops are recursive functions
  with a termination proof: a drain by the slots still to take, a scan by its budget, a
  blocking loop by its schedule and the twelve spins of \<open>Backoff\<close>, a compare-exchange loop
  by the list of races it loses.

  \<^bold>\<open>Concurrency.\<close> Memory is sequentially consistent: orderings and fences have no effect.
  Interference is explicit where the code has to cope with it. A blocking call runs against
  a schedule of its peers' calls (\<open>Blocking\<close>), and a poll of a future against the calls that
  fall before, between and after its registration and its second look (\<open>Async\<close>), each ring
  paired with the waker set it tells; a compare-exchange loop against the exchanges it
  loses (\<open>race\<close>); the claims of spmc against arbitrary monotone changes of the ring
  (\<open>Spmc_Races\<close>); an mpmc call against functions its peers apply between any two of its
  shared accesses (\<open>meddling\<close>). Arming a wake set is one step, and so is each call of a
  schedule. A future's waker returns in the theorems about polls. The programs of the refinement theorems run one call after
  the other, each half of a reservation a call of its own.

  \<^bold>\<open>The parts.\<close>
  \<^item> \<open>Prelude\<close>: machine types, faults, cells, masked positions, the fact collections.
  \<^item> \<open>Capacity\<close>: \<open>capacity.rs\<close>, \<open>common/aligned_buf.rs\<close>. \<open>Endpoints\<close>: \<open>common/cursors.rs\<close>,
    \<open>close_state.rs\<close>, \<open>endpoint_count.rs\<close>. \<open>Slot_Sequence\<close>: \<open>common/slot_sequence.rs\<close>,
    \<open>seq_slot.rs\<close>, \<open>uncommitted_slot.rs\<close>, \<open>spmc/done_word.rs\<close>. \<open>Backoff\<close>: \<open>common/backoff.rs\<close>.
  \<^item> \<open>Park_Slot\<close>: \<open>common/thread_parker.rs\<close>, \<open>sole_parker.rs\<close>, \<open>park_registry.rs\<close>,
    \<open>park_overflow.rs\<close>, \<open>wake_interest.rs\<close>. \<open>Wake_Set\<close>: \<open>common/park.rs\<close>; each way to wake is
    related to the round-robin order of the advertised slots, and no waiter starves.
    \<open>Sole_Waiter\<close>: what the wakes mean for a wake set with one waiter.
  \<^item> \<open>Waker_Set\<close>: the wakers of futures: \<open>common/registration_id.rs\<close>, \<open>wake_async.rs\<close>,
    \<open>waker_overflow.rs\<close> and the record of \<open>park_registration.rs\<close>; each wake calls every waiting
    future once, and what a panicking waker or a withdrawal in the middle of a wake costs.
  \<^item> \<open>Ring_Cells\<close>, \<open>Queue\<close>: a buffer between two positions as a list; the locales
    \<open>queue_source\<close>, \<open>bounded_sink\<close> and \<open>bounded_queue\<close> with what follows from them for programs.
  \<^item> \<open>Blocking\<close>: \<open>common/single_parker.rs\<close>, the loops and the locales of a waiting producer
    and a waiting consumer, whose laws each ring discharges; \<open>blocking_taker\<close> is the same
    for any kind of content, where a pop that finds nothing may use up positions. \<open>Async\<close>: the polls of \<open>push_async\<close> and \<open>pop_async\<close>, with
    the laws of a ring whose peers announce what they did to the waker set.
  \<^item> spsc: \<open>Spsc\<close> (operations), \<open>Spsc_Correct\<close> (it is a bounded queue; drops, drains, readers,
    reservations; what a second split of a borrowed ring reads), \<open>Spsc_Block\<close> (blocking
    calls), \<open>Spsc_Async\<close> (polls).
  \<^item> mpsc: \<open>Mpsc\<close>, \<open>Mpsc_Correct\<close> (the ring as a list of entries), \<open>Mpsc_Programs\<close> (refinement
    and claim order), \<open>Mpsc_Release\<close> (drains, readers, drops), \<open>Mpsc_Block\<close>.
  \<^item> spmc: \<open>Spmc\<close>, \<open>Spmc_Correct\<close>, \<open>Spmc_Programs\<close>, \<open>Spmc_Delivery\<close> (refinement, the
    fate of every position, the lap of a batch destroyed halfway), \<open>Spmc_Races\<close>, \<open>Spmc_Block\<close>, \<open>Spmc_Wait\<close>.
  \<^item> broadcast: \<open>Broadcast_Parts\<close>, \<open>Broadcast\<close>, \<open>Broadcast_Correct\<close> (the list of everything
    claimed and one head per seat), \<open>Broadcast_Programs\<close>, \<open>Broadcast_Delivery\<close>.
  \<^item> mpmc: \<open>Mpmc_Parts\<close> (words, scan budget, watermark, announcements), \<open>Mpmc\<close>, \<open>Mpmc_Correct\<close>
    (the list of positions reserved), \<open>Mpmc_Handles\<close>, \<open>Mpmc_Programs\<close> (the pool), \<open>Mpmc_Delivery\<close>,
    \<open>Mpmc_Wait\<close> (a consumer that blocks).

  \<^bold>\<open>What the lemmas show.\<close> For each ring: an invariant that relates its words and cells to
  an abstract content, one lemma per operation that gives its result and its effect on the
  content, a refinement theorem for programs of any length, and from it what the values
  do: each accepted value is delivered once (to every consumer, for broadcast) or destroyed
  once, in the order the ring promises. For the blocking calls: no fault, the result is the
  one of the non-blocking call or the report that the other side is gone, and a call that
  sleeps is owed a wake whenever it could go on.

  \<^bold>\<open>Bounds.\<close> Positions are words that wrap; the theorems about programs bound their length so
  that no position wraps: \<open>POS_LIMIT\<close> for the sequence words of mpsc, which keep two bits of
  the word for the state, and \<open>2 ^ 64\<close> for the others. A push per nanosecond takes a century
  to get there. The blocking theorems for a ring with several handles on a side assume that
  the handle under consideration is the only one of its side that sleeps in the wake set;
  \<open>Wake_Set\<close> says what the wakes do when several do. The destructors of a broadcast
  program's values return, except in the theorems about panics.

  \<^bold>\<open>Not modelled.\<close> The orderings of atomic accesses and the fences (the loom models of
  \<open>common/loom_models.rs\<close> and \<open>park_handshake_model.rs\<close> are tests of them); the allocation and
  alignment of buffers; the async calls of the rings other than spsc, so their \<open>notify_\<close>
  hooks are absent as in a default build, and the interleavings inside one arm of a wake set;
  of the blocking calls, those that reserve, read in place or drain, all of broadcast's, and
  \<open>push_block\<close> of mpsc and mpmc; handles of spsc rebuilt from raw pointers; the
  \<open>backstop-metrics\<close> counters and snapshots (\<open>mpmc/backstop_monitor.rs\<close>, \<open>rescue_evidence.rs\<close>,
  \<open>ring_snapshot.rs\<close>, \<open>common/wake_delivery.rs\<close>), which only observe; \<open>broadcast/arc.rs\<close>, which
  wraps the values in an \<open>Arc\<close>; \<open>common/atomics.rs\<close> and \<open>cache_padded.rs\<close>; test support.
\<close>

end
